(* ===== verification/Prelude.thy ===== *)
theory Prelude
  imports Main "HOL-Library.Word" "HOL-Library.Monad_Syntax"
begin

unbundle bit_operations_syntax

text \<open>
  The vocabulary that every component shares.

  \<^item> the machine types of the C sources (\<open>uint8_t\<close>, \<open>uint16_t\<close>, \<open>uint32_t\<close>, \<open>uint64_t\<close>) and the
    big-endian conversions \<open>cpu_to_be*\<close> and \<open>be*_to_cpu\<close> of \<open>src/libubox/utils.h\<close>, as functions
    between a word and the bytes it is stored as;
  \<^item> memory: a block of bytes is a \<open>byte list\<close> and an access outside it is \<open>None\<close>. Everywhere in
    the development a result \<open>None\<close> of an operation that reads or writes memory stands for undefined
    behaviour of the C program (an access outside an object, a \<open>NULL\<close> dereference, a call of
    \<open>abort\<close>), never for an error code: error codes are values of their own;
  \<^item> C strings (a byte list without its terminating zero) and \<open>strcmp\<close> and \<open>strncmp\<close> on them;
  \<^item> the generic lemmas on lists that the container proofs use.
\<close>

named_theorems word_conv "conversions between machine words and bytes"
named_theorems avl_defs "operations of the AVL tree to unfold in client proofs"
named_theorems mem_simps "reads and writes of byte memory"

section \<open>Machine words\<close>

type_synonym byte = "8 word"
type_synonym u16 = "16 word"
type_synonym u32 = "32 word"
type_synonym u64 = "64 word"
type_synonym cstring = "byte list"

definition be16 :: "u16 \<Rightarrow> byte list" where
  "be16 w = [ucast (drop_bit 8 w), ucast w]"

definition be32 :: "u32 \<Rightarrow> byte list" where
  "be32 w = [ucast (drop_bit 24 w), ucast (drop_bit 16 w), ucast (drop_bit 8 w), ucast w]"

definition be64 :: "u64 \<Rightarrow> byte list" where
  "be64 w = be32 (ucast (drop_bit 32 w)) @ be32 (ucast w)"

definition of_be16 :: "byte \<Rightarrow> byte \<Rightarrow> u16" where
  "of_be16 a b = push_bit 8 (ucast a) OR ucast b"

definition of_be32 :: "byte \<Rightarrow> byte \<Rightarrow> byte \<Rightarrow> byte \<Rightarrow> u32" where
  "of_be32 a b c d =
     push_bit 24 (ucast a) OR push_bit 16 (ucast b) OR push_bit 8 (ucast c) OR ucast d"

lemma length_be16 [simp]: "length (be16 w) = 2"
  by (simp add: be16_def)

lemma length_be32 [simp]: "length (be32 w) = 4"
  by (simp add: be32_def)

lemma length_be64 [simp]: "length (be64 w) = 8"
  by (simp add: be64_def)

lemma of_be16_be16 [simp]: "of_be16 (ucast (drop_bit 8 w)) (ucast w) = w"
  unfolding of_be16_def
  by (rule bit_word_eqI) (auto simp: bit_simps)

lemma of_be32_be32 [simp]:
  "of_be32 (ucast (drop_bit 24 w)) (ucast (drop_bit 16 w)) (ucast (drop_bit 8 w)) (ucast w) = w"
  unfolding of_be32_def
proof (rule bit_word_eqI)
  fix n
  assume "n < LENGTH(32)"
  then consider "n < 8" | "8 \<le> n \<and> n < 16" | "16 \<le> n \<and> n < 24" | "24 \<le> n \<and> n < 32"
    by fastforce
  then show "bit (push_bit 24 (ucast (ucast (drop_bit 24 w) :: byte)) OR
      push_bit 16 (ucast (ucast (drop_bit 16 w) :: byte)) OR
      push_bit 8 (ucast (ucast (drop_bit 8 w) :: byte)) OR ucast (ucast w :: byte) :: u32) n = bit w n"
    by cases (auto simp: bit_simps)
qed

text \<open>The masks and alignments of the sources, as arithmetic on the value of a word.\<close>

lemma unat_take_bit [word_conv]: "unat (take_bit n (x :: 'a::len word)) = unat x mod 2 ^ n"
  by (metis unsigned_take_bit_eq take_bit_eq_mod)

lemma and_not_3: "(x :: u32) AND NOT 3 = x - take_bit 2 x"
proof -
  have "x AND NOT 3 = push_bit 2 (drop_bit 2 x)"
    by (rule bit_word_eqI) (auto simp: bit_simps numeral_3_eq_3 less_Suc_eq bit_numeral_rec split: nat.splits)
  with bits_ident [of 2 x] show ?thesis by (metis add_diff_cancel_right')
qed

lemma unat_and_not_3 [word_conv]: "unat ((x :: u32) AND NOT 3) = unat x - unat x mod 4"
proof -
  have t: "unat (take_bit 2 x) = unat x mod 4" by (simp add: unat_take_bit)
  then have "take_bit 2 x \<le> x" by (simp add: word_le_nat_alt)
  then show ?thesis unfolding and_not_3 by (simp add: unat_sub t)
qed

lemma unat_and_ffffff [word_conv]: "unat ((x :: u32) AND 0xffffff) = unat x mod 2 ^ 24"
proof -
  have "x AND 0xffffff = take_bit 24 x" by (simp add: take_bit_eq_mask mask_eq_exp_minus_1)
  then show ?thesis by (simp only: unat_take_bit)
qed

lemma sint_small: "unat (w :: u32) < 2 ^ 31 \<Longrightarrow> sint w = int (unat w)"
proof -
  assume "unat w < 2 ^ 31"
  then have "int (unat w) < 2 ^ 31" by (metis of_nat_less_iff of_nat_numeral of_nat_power)
  moreover have "- (2 ^ 31) \<le> uint w" by (rule order_trans [OF _ uint_ge_0]) simp
  ultimately show ?thesis by (simp add: sint_uint signed_take_bit_int_eq_self)
qed

lemma word_eq_of_unat: "unat x = n \<Longrightarrow> x = word_of_nat n"
  by auto

lemma unat_word_of_nat [simp]: "n < 2 ^ 32 \<Longrightarrow> unat (word_of_nat n :: u32) = n"
  by (simp add: unat_of_nat)

text \<open>Conversion of an integer to \<open>int\<close> (32 bits, two's complement), and the values \<open>int\<close> has.\<close>

definition to_int32 :: "int \<Rightarrow> int" where
  "to_int32 x = (x + 2 ^ 31) mod 2 ^ 32 - 2 ^ 31"

lemma to_int32_id [simp]: "- (2 ^ 31) \<le> x \<Longrightarrow> x < 2 ^ 31 \<Longrightarrow> to_int32 x = x"
  by (simp add: to_int32_def mod_pos_pos_trivial)

lemma to_int32_range: "- (2 ^ 31) \<le> to_int32 x" "to_int32 x < 2 ^ 31"
  by (simp_all add: to_int32_def)

lemma unat_word_of_int_32: "unat (word_of_int k :: u32) = nat (k mod 2 ^ 32)"
  by (simp only: unat_eq_nat_uint uint_word_of_int) simp

lemma mod_neg32:
  assumes "- (2 ^ 31) \<le> k" and "k < (0 :: int)"
  shows "k mod 2 ^ 32 = k + 2 ^ 32"
proof -
  have "k mod 2 ^ 32 = (k + 2 ^ 32) mod 2 ^ 32" by (rule mod_add_self2 [symmetric])
  also have "\<dots> = k + 2 ^ 32" by (rule mod_pos_pos_trivial) (use assms in auto)
  finally show ?thesis .
qed

section \<open>Byte memory\<close>

text \<open>
  A read of \<open>n\<close> bytes at offset \<open>p\<close> and a write of the bytes \<open>bs\<close> at offset \<open>p\<close>, both defined only
  inside the block.
\<close>

definition mem_read :: "byte list \<Rightarrow> nat \<Rightarrow> nat \<Rightarrow> byte list option" where
  "mem_read m p n = (if p + n \<le> length m then Some (take n (drop p m)) else None)"

definition mem_write :: "byte list \<Rightarrow> nat \<Rightarrow> byte list \<Rightarrow> byte list option" where
  "mem_write m p bs =
     (if p + length bs \<le> length m then Some (take p m @ bs @ drop (p + length bs) m) else None)"

definition rd8 :: "byte list \<Rightarrow> nat \<Rightarrow> byte option" where
  "rd8 m p = (if p < length m then Some (m ! p) else None)"

definition rd_be16 :: "byte list \<Rightarrow> nat \<Rightarrow> u16 option" where
  "rd_be16 m p = (if p + 2 \<le> length m then Some (of_be16 (m ! p) (m ! (p + 1))) else None)"

definition rd_be32 :: "byte list \<Rightarrow> nat \<Rightarrow> u32 option" where
  "rd_be32 m p =
     (if p + 4 \<le> length m
      then Some (of_be32 (m ! p) (m ! (p + 1)) (m ! (p + 2)) (m ! (p + 3))) else None)"

lemma mem_write_length [mem_simps]: "mem_write m p bs = Some m' \<Longrightarrow> length m' = length m"
  by (auto simp: mem_write_def split: if_splits)

lemma mem_write_defined [mem_simps]: "p + length bs \<le> length m \<Longrightarrow> \<exists>m'. mem_write m p bs = Some m'"
  by (simp add: mem_write_def)

lemma mem_write_nth:
  assumes "mem_write m p bs = Some m'" and "i < length m"
  shows "m' ! i = (if p \<le> i \<and> i < p + length bs then bs ! (i - p) else m ! i)"
  using assms by (auto simp: mem_write_def nth_append min_def split: if_splits)

lemma mem_read_write [mem_simps]:
  "mem_write m p bs = Some m' \<Longrightarrow> mem_read m' p (length bs) = Some bs"
  by (auto simp: mem_write_def mem_read_def split: if_splits)

lemma mem_read_nth:
  "mem_read m p n = Some bs \<Longrightarrow> i < n \<Longrightarrow> bs ! i = m ! (p + i)"
  by (auto simp: mem_read_def split: if_splits)

lemma mem_read_cong:
  assumes "length m' = length m" and "\<And>i. p \<le> i \<Longrightarrow> i < p + n \<Longrightarrow> m' ! i = m ! i"
  shows "mem_read m' p n = mem_read m p n"
  using assms by (auto simp: mem_read_def intro!: nth_equalityI)

lemma rd_be32_cong:
  assumes "length m' = length m" and "\<And>i. p \<le> i \<Longrightarrow> i < p + 4 \<Longrightarrow> m' ! i = m ! i"
  shows "rd_be32 m' p = rd_be32 m p"
  using assms by (simp add: rd_be32_def)

lemma rd_be32_write [mem_simps]:
  assumes "mem_write m p (be32 w) = Some m'"
  shows "rd_be32 m' p = Some w"
proof -
  from assms have len: "p + 4 \<le> length m" "length m' = length m"
    by (auto simp: mem_write_def split: if_splits)
  then have "m' ! (p + k) = be32 w ! k" if "k < 4" for k
    using mem_write_nth [OF assms, of "p + k"] that by simp
  from this [of 0] this [of 1] this [of 2] this [of 3] len show ?thesis
    by (simp add: rd_be32_def be32_def numeral_2_eq_2 numeral_3_eq_3)
qed

text \<open>Reads and writes at the joints of a block that is a concatenation.\<close>

lemma mem_write_app [mem_simps]:
  "p = length xs \<Longrightarrow> length ys = length bs \<Longrightarrow> mem_write (xs @ ys @ zs) p bs = Some (xs @ bs @ zs)"
  by (simp add: mem_write_def)

lemma mem_read_app [mem_simps]:
  "p = length xs \<Longrightarrow> n = length ys \<Longrightarrow> mem_read (xs @ ys @ zs) p n = Some ys"
  by (simp add: mem_read_def)

lemma rd_be32_app [mem_simps]: "p = length xs \<Longrightarrow> rd_be32 (xs @ be32 w @ zs) p = Some w"
  by (simp add: rd_be32_def be32_def nth_append)

lemma rd_be32_app_left [mem_simps]: "p + 4 \<le> length xs \<Longrightarrow> rd_be32 (xs @ ys) p = rd_be32 xs p"
  by (simp add: rd_be32_def nth_append)

lemma split_at:
  assumes "n \<le> length xs"
  obtains ys zs where "xs = ys @ zs" "length ys = n"
  using assms by (metis append_take_drop_id length_take min.absorb2)

lemma split_at3:
  assumes "a + b + c \<le> length xs"
  obtains as bs cs zs where "xs = as @ bs @ cs @ zs" "length as = a" "length bs = b" "length cs = c"
proof -
  obtain as r where 1: "xs = as @ r" "length as = a" using assms by (elim split_at [of a xs, rotated]) auto
  obtain bs r' where 2: "r = bs @ r'" "length bs = b"
    by (rule split_at [of b r]) (use assms 1 in auto)
  obtain cs zs where 3: "r' = cs @ zs" "length cs = c"
    by (rule split_at [of c r']) (use assms 1 2 in auto)
  from 1 2 3 that show thesis by simp
qed

section \<open>C strings\<close>

text \<open>
  Only the sign of \<open>strcmp\<close> is specified by the language and only the sign is used by the sources;
  characters compare as unsigned bytes.
\<close>

fun strcmp :: "cstring \<Rightarrow> cstring \<Rightarrow> int" where
  "strcmp [] [] = 0"
| "strcmp [] (b # bs) = -1"
| "strcmp (a # as) [] = 1"
| "strcmp (a # as) (b # bs) = (if a < b then -1 else if b < a then 1 else strcmp as bs)"

definition strncmp :: "cstring \<Rightarrow> cstring \<Rightarrow> nat \<Rightarrow> int" where
  "strncmp a b n = strcmp (take n a) (take n b)"

definition cstr :: "string \<Rightarrow> cstring" where
  "cstr s = map of_char s"

lemma strcmp_refl [simp]: "strcmp a a = 0"
  by (induction a) auto

lemma strcmp_eq_0 [simp]: "strcmp a b = 0 \<longleftrightarrow> a = b"
  by (induction a b rule: strcmp.induct) auto

lemma strcmp_cases: "strcmp a b \<in> {-1, 0, 1}"
  by (induction a b rule: strcmp.induct) auto

lemma strcmp_swap: "strcmp b a = - strcmp a b"
  by (induction a b rule: strcmp.induct) auto

lemma strcmp_trans: "strcmp a b < 0 \<Longrightarrow> strcmp b c < 0 \<Longrightarrow> strcmp a c < 0"
proof (induction a b arbitrary: c rule: strcmp.induct)
  case (4 a as b bs)
  then show ?case by (cases c) (auto split: if_splits)
next
  case (2 b bs)
  then show ?case by (cases c) auto
qed auto

section \<open>Lists\<close>

lemma takeWhile_filter_sorted:
  assumes "sorted_wrt R xs" and "\<And>x y. R x y \<Longrightarrow> P y \<Longrightarrow> P x"
  shows "takeWhile P xs = filter P xs" and "dropWhile P xs = filter (\<lambda>x. \<not> P x) xs"
proof -
  show "takeWhile P xs = filter P xs"
    using assms(1) by (induction xs) (auto simp: eq_commute [of "[]"] filter_empty_conv dest: assms(2))
  show "dropWhile P xs = filter (\<lambda>x. \<not> P x) xs"
    using assms(1) by (induction xs) (auto dest: assms(2) intro!: filter_True [symmetric])
qed

lemma distinct_split_unique:
  assumes "distinct (xs @ a # ys)" and "xs @ a # ys = xs' @ a # ys'"
  shows "xs' = xs \<and> ys' = ys"
  using assms by (metis append_Cons_eq_iff distinct.simps(2) distinct_append
      disjoint_iff list.set_intros(1))

end
