(* ===== verification/Linked_List.thy ===== *)
theory Linked_List
  imports Prelude
begin

text \<open>
  The intrusive doubly linked lists of \<open>src/libubox/list.h\<close>.

  The operations are modelled on the heap they mutate: \<open>nxt\<close> and \<open>prv\<close> are the two fields of every
  \<open>struct list_head\<close>, by address, and \<open>None\<close> is the \<open>NULL\<close> that \<open>list_del\<close> leaves behind. An
  operation that would follow a \<open>NULL\<close> link is \<open>None\<close>. \<open>dll h hd xs\<close> says that the ring headed
  by \<open>hd\<close> holds the entries \<open>xs\<close> in order; the lemmas show that every operation of the header
  implements its list function (\<open>insert_after\<close>, \<open>insert_before\<close>, \<open>remove1\<close>, append), which is how the
  components above use these lists. The interface is the locale \<open>intrusive_list\<close>, interpreted on
  the heap operations at the end.
\<close>

section \<open>The heap and the operations\<close>

record 'a list_heap =
  nxt :: "'a \<Rightarrow> 'a option"
  prv :: "'a \<Rightarrow> 'a option"

definition set_nxt :: "'a \<Rightarrow> 'a option \<Rightarrow> 'a list_heap \<Rightarrow> 'a list_heap" where
  "set_nxt a v h = h\<lparr>nxt := (nxt h)(a := v)\<rparr>"

definition set_prv :: "'a \<Rightarrow> 'a option \<Rightarrow> 'a list_heap \<Rightarrow> 'a list_heap" where
  "set_prv a v h = h\<lparr>prv := (prv h)(a := v)\<rparr>"

definition INIT_LIST_HEAD :: "'a \<Rightarrow> 'a list_heap \<Rightarrow> 'a list_heap" where
  "INIT_LIST_HEAD l h = set_nxt l (Some l) (set_prv l (Some l) h)"

definition list_empty :: "'a \<Rightarrow> 'a list_heap \<Rightarrow> bool" where
  "list_empty head h = (nxt h head = Some head)"

definition list_is_first :: "'a \<Rightarrow> 'a \<Rightarrow> 'a list_heap \<Rightarrow> bool" where
  "list_is_first l head h = (prv h l = Some head)"

definition list_is_last :: "'a \<Rightarrow> 'a \<Rightarrow> 'a list_heap \<Rightarrow> bool" where
  "list_is_last l head h = (nxt h l = Some head)"

text \<open>
  \<open>entry->next->prev = entry->prev; entry->prev->next = entry->next\<close>, each field read when the
  statement that uses it runs.
\<close>

definition list_unlink :: "'a \<Rightarrow> 'a list_heap \<Rightarrow> 'a list_heap option" where
  "list_unlink e h = do {
     n \<leftarrow> nxt h e;
     let h = set_prv n (prv h e) h;
     p \<leftarrow> prv h e;
     Some (set_nxt p (nxt h e) h)
   }"

definition list_del :: "'a \<Rightarrow> 'a list_heap \<Rightarrow> 'a list_heap option" where
  "list_del e h = do {
     h \<leftarrow> list_unlink e h;
     Some (set_nxt e None (set_prv e None h))
   }"

definition list_link :: "'a \<Rightarrow> 'a \<Rightarrow> 'a \<Rightarrow> 'a list_heap \<Rightarrow> 'a list_heap" where
  "list_link new prev next h =
     set_nxt prev (Some new) (set_prv new (Some prev) (set_nxt new (Some next) (set_prv next (Some new) h)))"

definition list_del_init :: "'a \<Rightarrow> 'a list_heap \<Rightarrow> 'a list_heap option" where
  "list_del_init e h = do {
     h \<leftarrow> list_unlink e h;
     Some (INIT_LIST_HEAD e h)
   }"

definition list_add :: "'a \<Rightarrow> 'a \<Rightarrow> 'a list_heap \<Rightarrow> 'a list_heap option" where
  "list_add new head h = do { n \<leftarrow> nxt h head; Some (list_link new head n h) }"

definition list_add_tail :: "'a \<Rightarrow> 'a \<Rightarrow> 'a list_heap \<Rightarrow> 'a list_heap option" where
  "list_add_tail new head h = do { p \<leftarrow> prv h head; Some (list_link new p head h) }"

definition list_move :: "'a \<Rightarrow> 'a \<Rightarrow> 'a list_heap \<Rightarrow> 'a list_heap option" where
  "list_move e head h = do { h \<leftarrow> list_unlink e h; list_add e head h }"

definition list_move_tail :: "'a \<Rightarrow> 'a \<Rightarrow> 'a list_heap \<Rightarrow> 'a list_heap option" where
  "list_move_tail e head h = do { h \<leftarrow> list_unlink e h; list_add_tail e head h }"

definition list_splice_between :: "'a \<Rightarrow> 'a \<Rightarrow> 'a \<Rightarrow> 'a list_heap \<Rightarrow> 'a list_heap option" where
  "list_splice_between l prev next h =
     (if list_empty l h then Some h
      else do {
        first \<leftarrow> nxt h l;
        last \<leftarrow> prv h l;
        Some (set_prv next (Some last) (set_nxt last (Some next)
               (set_nxt prev (Some first) (set_prv first (Some prev) h))))
      })"

definition list_splice :: "'a \<Rightarrow> 'a \<Rightarrow> 'a list_heap \<Rightarrow> 'a list_heap option" where
  "list_splice l head h = do { n \<leftarrow> nxt h head; list_splice_between l head n h }"

definition list_splice_tail :: "'a \<Rightarrow> 'a \<Rightarrow> 'a list_heap \<Rightarrow> 'a list_heap option" where
  "list_splice_tail l head h = do { p \<leftarrow> prv h head; list_splice_between l p head h }"

definition list_splice_init :: "'a \<Rightarrow> 'a \<Rightarrow> 'a list_heap \<Rightarrow> 'a list_heap option" where
  "list_splice_init l head h = do { h \<leftarrow> list_splice l head h; Some (INIT_LIST_HEAD l h) }"

definition list_splice_tail_init :: "'a \<Rightarrow> 'a \<Rightarrow> 'a list_heap \<Rightarrow> 'a list_heap option" where
  "list_splice_tail_init l head h = do { h \<leftarrow> list_splice_tail l head h; Some (INIT_LIST_HEAD l h) }"

text \<open>
  The loop of \<open>list_for_each\<close>, from the entry \<open>p\<close> to the head, as the list of entries it visits; the
  fuel bounds the number of iterations and \<open>None\<close> is a loop that has not reached the head.
\<close>

fun list_for_each :: "nat \<Rightarrow> 'a list_heap \<Rightarrow> 'a \<Rightarrow> 'a \<Rightarrow> 'a list option" where
  "list_for_each 0 h head p = None"
| "list_for_each (Suc fuel) h head p =
     (if p = head then Some []
      else do { n \<leftarrow> nxt h p; ps \<leftarrow> list_for_each fuel h head n; Some (p # ps) })"

section \<open>What the operations compute on the list of entries\<close>

fun insert_after :: "'a \<Rightarrow> 'a \<Rightarrow> 'a list \<Rightarrow> 'a list" where
  "insert_after pos new [] = []"
| "insert_after pos new (x # xs) =
     (if x = pos then x # new # xs else x # insert_after pos new xs)"

fun insert_before :: "'a \<Rightarrow> 'a \<Rightarrow> 'a list \<Rightarrow> 'a list" where
  "insert_before pos new [] = []"
| "insert_before pos new (x # xs) =
     (if x = pos then new # x # xs else x # insert_before pos new xs)"

lemma insert_after_append:
  "pos \<notin> set xs \<Longrightarrow> insert_after pos new (xs @ pos # ys) = xs @ pos # new # ys"
  by (induction xs) auto

lemma insert_before_append:
  "pos \<notin> set xs \<Longrightarrow> insert_before pos new (xs @ pos # ys) = xs @ new # pos # ys"
  by (induction xs) auto

text \<open>The entries after a given one, which a walk from it along \<open>next\<close> visits.\<close>

fun after :: "'a \<Rightarrow> 'a list \<Rightarrow> 'a list" where
  "after pos [] = []"
| "after pos (x # xs) = (if x = pos then xs else after pos xs)"

text \<open>The entries before a given one, nearest first, which a walk along \<open>prev\<close> visits.\<close>

definition before :: "'a \<Rightarrow> 'a list \<Rightarrow> 'a list" where
  "before pos xs = rev (takeWhile (\<lambda>x. x \<noteq> pos) xs)"

lemma after_append: "pos \<notin> set xs \<Longrightarrow> after pos (xs @ pos # ys) = ys"
  by (induction xs) auto

lemma before_append: "pos \<notin> set xs \<Longrightarrow> before pos (xs @ pos # ys) = rev xs"
  by (induction xs) (auto simp: before_def)

section \<open>Rings of links\<close>

fun chain :: "('a \<Rightarrow> 'a option) \<Rightarrow> 'a list \<Rightarrow> bool" where
  "chain f [] = True"
| "chain f [x] = True"
| "chain f (x # y # zs) = (f x = Some y \<and> chain f (y # zs))"

definition dll :: "'a list_heap \<Rightarrow> 'a \<Rightarrow> 'a list \<Rightarrow> bool" where
  "dll h head xs \<longleftrightarrow>
     distinct (head # xs) \<and> chain (nxt h) (head # xs @ [head]) \<and> chain (prv h) (head # rev xs @ [head])"

lemma chain_append: "chain f (xs @ y # zs) \<longleftrightarrow> chain f (xs @ [y]) \<and> chain f (y # zs)"
proof (induction xs rule: induct_list012)
  case 1
  then show ?case by simp
next
  case (2 x)
  then show ?case by simp
next
  case (3 x y xs)
  then show ?case by simp
qed

lemma chain_appendD:
  assumes "chain f (xs @ y # zs)"
  shows "chain f (xs @ [y])" and "chain f (y # zs)"
  using assms chain_append by metis+

lemma chain_appendI: "chain f (xs @ [y]) \<Longrightarrow> chain f (y # zs) \<Longrightarrow> chain f (xs @ y # zs)"
  using chain_append by metis

lemma chain_upd: "a \<notin> set (butlast xs) \<Longrightarrow> chain (f(a := v)) xs = chain f xs"
  by (induction xs rule: induct_list012) auto

lemma chain_insert:
  assumes "chain f (xs @ p # n # ys)" and "distinct (butlast (xs @ p # n # ys))"
    and "new \<notin> set (xs @ p # n # ys)"
  shows "chain (f(new := Some n, p := Some new)) (xs @ p # new # n # ys)"
proof (rule chain_appendI)
  let ?f = "f(new := Some n, p := Some new)"
  from assms(2,3) have ne: "p \<notin> set xs" "p \<notin> set (butlast (n # ys))" "new \<notin> set xs"
      "new \<notin> set (butlast (n # ys))" "new \<noteq> p"
    by (auto simp: butlast_append dest: in_set_butlastD split: if_splits)
  from chain_appendD [OF assms(1)] ne show "chain ?f (xs @ [p])"
    by (simp add: chain_upd)
  from chain_appendD [OF assms(1)] ne have "chain ?f (n # ys)"
    by (simp add: chain_upd del: butlast.simps)
  with ne show "chain ?f (p # new # n # ys)"
    by simp
qed

lemma chain_delete:
  assumes "chain f (xs @ p # e # n # ys)" and "distinct (butlast (xs @ p # e # n # ys))"
  shows "chain (f(p := Some n)) (xs @ p # n # ys)"
proof (rule chain_appendI)
  from assms(2) have ne: "p \<notin> set xs" "p \<notin> set (butlast (n # ys))"
    by (auto simp: butlast_append)
  from chain_appendD [OF assms(1)] ne show "chain (f(p := Some n)) (xs @ [p])"
    by (simp add: chain_upd)
  from chain_appendD [OF assms(1)] ne have "chain (f(p := Some n)) (n # ys)"
    by (simp add: chain_upd del: butlast.simps)
  then show "chain (f(p := Some n)) (p # n # ys)"
    by simp
qed

section \<open>The operations on a ring\<close>

lemma chain_at: "chain f (xs @ x # y # zs) \<Longrightarrow> f x = Some y"
  using chain_appendD(2) by fastforce

text \<open>A ring cut between the entries \<open>ys\<close> and \<open>zs\<close>, read along \<open>next\<close> and along \<open>prev\<close>.\<close>

lemma ring_nxt:
  "head # ys @ zs @ [head] =
     butlast (head # ys) @ last (head # ys) # hd (zs @ [head]) # tl (zs @ [head])"
  by (cases zs; cases ys rule: rev_cases) auto

lemma ring_prv:
  "head # rev zs @ rev ys @ [head] =
     butlast (head # rev zs) @ hd (zs @ [head]) # last (head # ys) # tl (rev ys @ [head])"
  by (cases zs; cases ys rule: rev_cases) auto

lemma dll_cut:
  assumes "dll h head (ys @ zs)"
  shows "nxt h (last (head # ys)) = Some (hd (zs @ [head]))"
    and "prv h (hd (zs @ [head])) = Some (last (head # ys))"
proof -
  from assms have "chain (nxt h) (head # ys @ zs @ [head])"
      and "chain (prv h) (head # rev zs @ rev ys @ [head])"
    by (simp_all add: dll_def)
  then show "nxt h (last (head # ys)) = Some (hd (zs @ [head]))"
      and "prv h (hd (zs @ [head])) = Some (last (head # ys))"
    by (simp_all only: ring_nxt [of head ys zs] ring_prv [of head zs ys] chain_at)
qed

lemma dll_link:
  assumes "dll h head (ys @ zs)" and "new \<notin> set (head # ys @ zs)"
  shows "dll (list_link new (last (head # ys)) (hd (zs @ [head])) h) head (ys @ new # zs)"
proof -
  let ?p = "last (head # ys)" and ?n = "hd (zs @ [head])"
  let ?h = "list_link new ?p ?n h"
  from assms have d: "distinct (head # ys @ zs)" by (simp add: dll_def)
  have p: "?p \<in> set (head # ys)" by (rule last_in_set) simp
  have n: "?n \<in> set (zs @ [head])" by (rule hd_in_set) simp
  from p n assms(2) have ne: "new \<noteq> ?p" "new \<noteq> ?n" by (auto split: if_splits)
  have nx: "nxt ?h = (nxt h)(new := Some ?n, ?p := Some new)"
    by (simp add: list_link_def set_nxt_def set_prv_def)
  have pr: "prv ?h = (prv h)(new := Some ?p, ?n := Some new)"
    using ne by (simp add: list_link_def set_nxt_def set_prv_def fun_upd_twist)
  from assms have c: "chain (nxt h) (head # ys @ zs @ [head])"
      "chain (prv h) (head # rev zs @ rev ys @ [head])"
    by (simp_all add: dll_def)
  have r1: "head # (ys @ new # zs) @ [head] = butlast (head # ys) @ ?p # new # ?n # tl (zs @ [head])"
    by (cases zs; cases ys rule: rev_cases) auto
  have r2: "head # rev (ys @ new # zs) @ [head]
      = butlast (head # rev zs) @ ?n # new # ?p # tl (rev ys @ [head])"
    by (cases zs; cases ys rule: rev_cases) auto
  show ?thesis
    unfolding dll_def
  proof (intro conjI)
    show "distinct (head # ys @ new # zs)" using d assms(2) by auto
    show "chain (nxt ?h) (head # (ys @ new # zs) @ [head])"
      unfolding nx r1
      by (rule chain_insert; unfold ring_nxt [symmetric])
        (use c d assms(2) in \<open>auto simp: butlast_append\<close>)
    show "chain (prv ?h) (head # rev (ys @ new # zs) @ [head])"
      unfolding pr r2
      by (rule chain_insert; unfold ring_prv [symmetric])
        (use c d assms(2) in \<open>auto simp: butlast_append\<close>)
  qed
qed

lemma dll_unlink:
  assumes "dll h head (ys @ e # zs)"
  obtains h' where "list_unlink e h = Some h'" and "dll h' head (ys @ zs)"
    and "dll (set_nxt e u (set_prv e v h')) head (ys @ zs)"
proof -
  let ?p = "last (head # ys)" and ?n = "hd (zs @ [head])"
  define h' where "h' = set_nxt ?p (Some ?n) (set_prv ?n (Some ?p) h)"
  from assms have d: "distinct (head # ys @ e # zs)" by (simp add: dll_def)
  have "?p \<in> set (head # ys)" by (rule last_in_set) simp
  moreover have "?n \<in> set (zs @ [head])" by (rule hd_in_set) simp
  ultimately have ne: "e \<noteq> ?p" "e \<noteq> ?n" using d by auto
  from dll_cut [of h head "ys @ [e]" zs] assms have en: "nxt h e = Some ?n" by simp
  from dll_cut [of h head ys "e # zs"] assms have ep: "prv h e = Some ?p" by simp
  have un: "list_unlink e h = Some h'"
    using en ep ne by (simp add: list_unlink_def h'_def set_nxt_def set_prv_def)
  from assms have c: "chain (nxt h) (head # ys @ (e # zs) @ [head])"
      "chain (prv h) (head # rev zs @ (e # rev ys) @ [head])"
    by (simp_all add: dll_def)
  have l1: "head # ys @ (e # zs) @ [head] = butlast (head # ys) @ ?p # e # ?n # tl (zs @ [head])"
    by (cases zs; cases ys rule: rev_cases) auto
  have l2: "head # rev zs @ (e # rev ys) @ [head]
      = butlast (head # rev zs) @ ?n # e # ?p # tl (rev ys @ [head])"
    by (cases zs; cases ys rule: rev_cases) auto
  have hn: "nxt h' = (nxt h)(?p := Some ?n)" and hp: "prv h' = (prv h)(?n := Some ?p)"
    by (simp_all add: h'_def set_nxt_def set_prv_def)
  have r1: "head # (ys @ zs) @ [head] = butlast (head # ys) @ ?p # ?n # tl (zs @ [head])"
    using ring_nxt [of head ys zs] by simp
  have r2: "head # rev (ys @ zs) @ [head] = butlast (head # rev zs) @ ?n # ?p # tl (rev ys @ [head])"
    using ring_prv [of head zs ys] by simp
  have d': "dll h' head (ys @ zs)"
    unfolding dll_def
  proof (intro conjI)
    show "distinct (head # ys @ zs)" using d by auto
    show "chain (nxt h') (head # (ys @ zs) @ [head])"
      unfolding hn r1
      by (rule chain_delete [where e = e]; unfold l1 [symmetric]) (use c d in \<open>auto simp: butlast_append\<close>)
    show "chain (prv h') (head # rev (ys @ zs) @ [head])"
      unfolding hp r2
      by (rule chain_delete [where e = e]; unfold l2 [symmetric]) (use c d in \<open>auto simp: butlast_append\<close>)
  qed
  then have "dll (set_nxt e u (set_prv e v h')) head (ys @ zs)"
    using d by (auto simp: dll_def set_nxt_def set_prv_def chain_upd butlast_append)
  with un d' that show thesis by blast
qed

lemma dll_init: "dll (INIT_LIST_HEAD l h) l []"
  by (simp add: dll_def INIT_LIST_HEAD_def set_nxt_def set_prv_def)

lemma dll_empty: "dll h head xs \<Longrightarrow> list_empty head h \<longleftrightarrow> xs = []"
  using dll_cut(1) [of h head "[]" xs] by (cases xs) (auto simp: list_empty_def dll_def)

lemma dll_is_last: "dll h head (ys @ e # zs) \<Longrightarrow> list_is_last e head h \<longleftrightarrow> zs = []"
  using dll_cut(1) [of h head "ys @ [e]" zs] by (cases zs) (auto simp: list_is_last_def dll_def)

lemma dll_is_first: "dll h head (ys @ e # zs) \<Longrightarrow> list_is_first e head h \<longleftrightarrow> ys = []"
  using dll_cut(2) [of h head ys "e # zs"]
  by (cases ys rule: rev_cases) (auto simp: list_is_first_def dll_def)

lemma dll_add:
  assumes "dll h head xs" and "new \<notin> set (head # xs)"
  shows "\<exists>h'. list_add new head h = Some h' \<and> dll h' head (new # xs)"
  using dll_link [of h head "[]" xs new] dll_cut(1) [of h head "[]" xs] assms
  by (simp add: list_add_def)

lemma dll_add_tail:
  assumes "dll h head xs" and "new \<notin> set (head # xs)"
  shows "\<exists>h'. list_add_tail new head h = Some h' \<and> dll h' head (xs @ [new])"
  using dll_link [of h head xs "[]" new] dll_cut(2) [of h head xs "[]"] assms
  by (simp add: list_add_tail_def del: last.simps)

lemma dll_add_at:
  assumes "dll h head xs" and "pos \<in> set xs" and "new \<notin> set (head # xs)"
  shows "\<exists>h'. list_add new pos h = Some h' \<and> dll h' head (insert_after pos new xs)"
proof -
  from split_list_first [OF assms(2)] obtain ys zs
    where xs: "xs = ys @ pos # zs" "pos \<notin> set ys" by blast
  with dll_link [of h head "ys @ [pos]" zs new] dll_cut(1) [of h head "ys @ [pos]" zs] assms
  show ?thesis by (simp add: list_add_def insert_after_append)
qed

lemma dll_add_tail_at:
  assumes "dll h head xs" and "pos \<in> set xs" and "new \<notin> set (head # xs)"
  shows "\<exists>h'. list_add_tail new pos h = Some h' \<and> dll h' head (insert_before pos new xs)"
proof -
  from split_list_first [OF assms(2)] obtain ys zs
    where xs: "xs = ys @ pos # zs" "pos \<notin> set ys" by blast
  with dll_link [of h head ys "pos # zs" new] dll_cut(2) [of h head ys "pos # zs"] assms
  show ?thesis by (simp add: list_add_tail_def insert_before_append del: last.simps)
qed

lemma dll_unlink_remove1:
  assumes "dll h head xs" and "e \<in> set xs"
  shows "\<exists>h'. list_unlink e h = Some h' \<and> dll h' head (remove1 e xs) \<and>
    dll (set_nxt e u (set_prv e v h')) head (remove1 e xs)"
proof -
  from split_list_first [OF assms(2)] obtain ys zs
    where xs: "xs = ys @ e # zs" "e \<notin> set ys" by blast
  from assms(1) [unfolded xs(1)] obtain h' where "list_unlink e h = Some h'" "dll h' head (ys @ zs)"
      "dll (set_nxt e u (set_prv e v h')) head (ys @ zs)"
    by (rule dll_unlink)
  with xs show ?thesis by (simp add: remove1_append)
qed

lemma dll_del:
  assumes "dll h head xs" and "e \<in> set xs"
  shows "\<exists>h'. list_del e h = Some h' \<and> dll h' head (remove1 e xs) \<and> nxt h' e = None \<and> prv h' e = None"
proof -
  from dll_unlink_remove1 [OF assms, of None None] obtain h' where "list_unlink e h = Some h'"
    "dll (set_nxt e None (set_prv e None h')) head (remove1 e xs)" by blast
  then show ?thesis by (simp add: list_del_def set_nxt_def set_prv_def)
qed

text \<open>\<open>list_del_init\<close> leaves the entry as an empty ring of its own, so it can be tested and deleted again.\<close>

lemma dll_del_init:
  assumes "dll h head xs" and "e \<in> set xs"
  shows "\<exists>h'. list_del_init e h = Some h' \<and> dll h' head (remove1 e xs) \<and> dll h' e []"
proof -
  from dll_unlink_remove1 [OF assms, of "Some e" "Some e"] obtain h' where "list_unlink e h = Some h'"
    "dll (set_nxt e (Some e) (set_prv e (Some e) h')) head (remove1 e xs)" by blast
  then show ?thesis using dll_init [of e h'] by (simp add: list_del_init_def INIT_LIST_HEAD_def)
qed

lemma dll_move_tail:
  assumes "dll h head xs" and "e \<in> set xs"
  shows "\<exists>h'. list_move_tail e head h = Some h' \<and> dll h' head (remove1 e xs @ [e])"
proof -
  from dll_unlink_remove1 [OF assms] obtain h' where h': "list_unlink e h = Some h'"
    "dll h' head (remove1 e xs)" by blast
  moreover from assms have "e \<notin> set (head # remove1 e xs)" by (auto simp: dll_def)
  ultimately show ?thesis using dll_add_tail [OF h'(2)] by (simp add: list_move_tail_def)
qed

lemma dll_move:
  assumes "dll h head xs" and "e \<in> set xs"
  shows "\<exists>h'. list_move e head h = Some h' \<and> dll h' head (e # remove1 e xs)"
proof -
  from dll_unlink_remove1 [OF assms] obtain h' where h': "list_unlink e h = Some h'"
    "dll h' head (remove1 e xs)" by blast
  moreover from assms have "e \<notin> set (head # remove1 e xs)" by (auto simp: dll_def)
  ultimately show ?thesis using dll_add [OF h'(2)] by (simp add: list_move_def)
qed

subsection \<open>Splicing\<close>

lemma chain_snoc: "chain f (xs @ [y]) \<longleftrightarrow> chain f xs \<and> (xs \<noteq> [] \<longrightarrow> f (last xs) = Some y)"
  by (induction xs rule: induct_list012) auto

lemma chain_splice:
  assumes "chain f (xs @ p # n # zs)" and "chain f ys" and "ys \<noteq> []"
    and "distinct (butlast (xs @ p # n # zs))" and "distinct ys"
    and "set ys \<inter> set (xs @ p # n # zs) = {}"
  shows "chain (f(p := Some (hd ys), last ys := Some n)) (xs @ p # ys @ n # zs)"
proof (rule chain_appendI)
  let ?f = "f(p := Some (hd ys), last ys := Some n)"
  from assms(3) have "last ys \<in> set ys" by simp
  with assms(4,6) have ne: "p \<notin> set xs" "p \<notin> set (butlast (n # zs))" "last ys \<notin> set xs"
      "last ys \<notin> set (butlast (n # zs))" "last ys \<noteq> p" "p \<notin> set ys"
    by (auto simp: butlast_append dest: in_set_butlastD split: if_splits)
  from chain_appendD [OF assms(1)] ne show "chain ?f (xs @ [p])"
    by (simp add: chain_upd)
  from chain_appendD [OF assms(1)] ne have tail: "chain ?f (n # zs)"
    by (simp add: chain_upd del: butlast.simps)
  have "last ys \<notin> set (butlast ys)"
    using assms(3,5) by (metis append_butlast_last_id distinct_append disjoint_iff list.set_intros(1))
  moreover have "p \<notin> set (butlast ys)" using ne(6) by (meson in_set_butlastD)
  ultimately have "chain ?f ys"
    using assms(2) by (simp add: chain_upd)
  then have "chain ?f (ys @ [n])"
    unfolding chain_snoc by simp
  then have "chain ?f (ys @ n # zs)" by (rule chain_appendI [OF _ tail])
  with assms(3) ne show "chain ?f (p # ys @ n # zs)"
    by (cases ys) auto
qed

lemma dll_splice_between:
  assumes "dll h head (as @ bs)" and "dll h l ys"
    and "set (l # ys) \<inter> set (head # as @ bs) = {}"
  shows "\<exists>h'. list_splice_between l (last (head # as)) (hd (bs @ [head])) h = Some h' \<and>
    dll h' head (as @ ys @ bs)"
proof (cases "ys = []")
  case True
  with assms show ?thesis by (auto simp: list_splice_between_def dll_empty)
next
  case False
  let ?p = "last (head # as)" and ?n = "hd (bs @ [head])"
  define h' where "h' = set_prv ?n (Some (last ys)) (set_nxt (last ys) (Some ?n)
               (set_nxt ?p (Some (hd ys)) (set_prv (hd ys) (Some ?p) h)))"
  have "nxt h l = Some (hd ys)" "prv h l = Some (last ys)"
    using dll_cut(1) [of h l "[]" ys] dll_cut(2) [of h l ys "[]"] assms(2) False by simp_all
  with False assms(2) have run: "list_splice_between l ?p ?n h = Some h'"
    by (simp add: list_splice_between_def h'_def dll_empty del: last.simps)
  have hn: "nxt h' = (nxt h)(?p := Some (hd ys), last ys := Some ?n)"
    by (simp add: h'_def set_nxt_def set_prv_def del: last.simps)
  have "hd ys \<noteq> ?n"
    using False assms(3) hd_in_set [of ys] hd_in_set [of "bs @ [head]"] by fastforce
  then have hp: "prv h' = (prv h)(?n := Some (hd (rev ys)), last (rev ys) := Some ?p)"
    using False by (simp add: h'_def set_nxt_def set_prv_def fun_upd_twist hd_rev last_rev del: last.simps)
  have inner: "chain f zs" if "chain f (l # zs @ [l])" for f zs
    using that by (cases zs) (simp_all add: chain_snoc [of f "_ # _", simplified])
  have cy: "chain (nxt h) ys" "chain (prv h) (rev ys)"
    using assms(2) by (auto simp: dll_def intro: inner)
  have r1: "head # (as @ ys @ bs) @ [head] = butlast (head # as) @ ?p # ys @ ?n # tl (bs @ [head])"
    by (cases bs; cases as rule: rev_cases) auto
  have r2: "head # rev (as @ ys @ bs) @ [head]
      = butlast (head # rev bs) @ ?n # rev ys @ ?p # tl (rev as @ [head])"
    by (cases bs; cases as rule: rev_cases) auto
  from assms have c: "chain (nxt h) (head # as @ bs @ [head])"
      "chain (prv h) (head # rev bs @ rev as @ [head])" and d: "distinct (head # as @ bs)" "distinct ys"
    by (simp_all add: dll_def)
  have "dll h' head (as @ ys @ bs)"
    unfolding dll_def
  proof (intro conjI)
    show "distinct (head # as @ ys @ bs)" using d assms(3) by auto
    show "chain (nxt h') (head # (as @ ys @ bs) @ [head])"
      unfolding hn r1
      by (rule chain_splice; (unfold ring_nxt [symmetric])?)
        (use c d cy False assms(3) in \<open>auto simp: butlast_append\<close>)
    show "chain (prv h') (head # rev (as @ ys @ bs) @ [head])"
      unfolding hp r2
      by (rule chain_splice; (unfold ring_prv [symmetric])?)
        (use c d cy False assms(3) in \<open>auto simp: butlast_append\<close>)
  qed
  with run show ?thesis by blast
qed

lemma dll_splice:
  assumes "dll h head xs" and "dll h l ys" and "set (l # ys) \<inter> set (head # xs) = {}"
  shows "\<exists>h'. list_splice l head h = Some h' \<and> dll h' head (ys @ xs)"
  using dll_splice_between [of h head "[]" xs l ys] dll_cut(1) [of h head "[]" xs] assms
  by (simp add: list_splice_def)

lemma dll_splice_tail:
  assumes "dll h head xs" and "dll h l ys" and "set (l # ys) \<inter> set (head # xs) = {}"
  shows "\<exists>h'. list_splice_tail l head h = Some h' \<and> dll h' head (xs @ ys)"
  using dll_splice_between [of h head xs "[]" l ys] dll_cut(2) [of h head xs "[]"] assms
  by (simp add: list_splice_tail_def del: last.simps)

lemma dll_INIT_other:
  "dll h head xs \<Longrightarrow> l \<notin> set (head # xs) \<Longrightarrow> dll (INIT_LIST_HEAD l h) head xs"
  by (auto simp: dll_def INIT_LIST_HEAD_def set_nxt_def set_prv_def chain_upd butlast_append)

lemma dll_splice_init:
  assumes "dll h head xs" and "dll h l ys" and "set (l # ys) \<inter> set (head # xs) = {}"
  shows "\<exists>h'. list_splice_init l head h = Some h' \<and> dll h' head (ys @ xs) \<and> dll h' l []"
proof -
  from dll_splice [OF assms] obtain h' where h': "list_splice l head h = Some h'" "dll h' head (ys @ xs)"
    by blast
  moreover from assms have "l \<notin> set (head # ys @ xs)" by (auto simp: dll_def)
  ultimately show ?thesis
    by (auto simp: list_splice_init_def dll_init intro: dll_INIT_other)
qed

lemma dll_splice_tail_init:
  assumes "dll h head xs" and "dll h l ys" and "set (l # ys) \<inter> set (head # xs) = {}"
  shows "\<exists>h'. list_splice_tail_init l head h = Some h' \<and> dll h' head (xs @ ys) \<and> dll h' l []"
proof -
  from dll_splice_tail [OF assms] obtain h'
    where h': "list_splice_tail l head h = Some h'" "dll h' head (xs @ ys)"
    by blast
  moreover from assms have "l \<notin> set (head # xs @ ys)" by (auto simp: dll_def)
  ultimately show ?thesis
    by (auto simp: list_splice_tail_init_def dll_init intro: dll_INIT_other)
qed

subsection \<open>Traversal\<close>

lemma list_for_each_suffix:
  "chain (nxt h) (xs @ [head]) \<Longrightarrow> head \<notin> set xs \<Longrightarrow> length xs < fuel \<Longrightarrow>
     list_for_each fuel h head (hd (xs @ [head])) = Some xs"
proof (induction xs arbitrary: fuel)
  case Nil
  then show ?case by (cases fuel) simp_all
next
  case (Cons x xs)
  then obtain f where f: "fuel = Suc f" "length xs < f" by (cases fuel) auto
  from Cons.prems(1) have "nxt h x = Some (hd (xs @ [head]))" "chain (nxt h) (xs @ [head])"
    by (cases xs; simp)+
  with Cons f show ?case by auto
qed

lemma dll_for_each:
  assumes "dll h head xs" and "length xs < fuel"
  shows "(nxt h head \<bind> list_for_each fuel h head) = Some xs"
proof -
  from assms(1) have "chain (nxt h) (xs @ [head])" "head \<notin> set xs"
    using chain_appendD(2) [of "nxt h" "[]" head "xs @ [head]"]
    by (auto simp: dll_def neq_Nil_conv) (cases xs; simp)
  then show ?thesis
    using list_for_each_suffix [of h xs head fuel] assms dll_cut(1) [of h head "[]" xs] by simp
qed

section \<open>The interface\<close>

text \<open>
  What the users of a list rely on: \<open>repr h l xs\<close> relates the heap, the head and the entries in
  order. The components above this one hold the list of entries itself and use these laws for every
  call they make.
\<close>

locale intrusive_list =
  fixes repr :: "'h \<Rightarrow> 'a \<Rightarrow> 'a list \<Rightarrow> bool"
    and init :: "'a \<Rightarrow> 'h \<Rightarrow> 'h"
    and is_empty :: "'a \<Rightarrow> 'h \<Rightarrow> bool"
    and add :: "'a \<Rightarrow> 'a \<Rightarrow> 'h \<Rightarrow> 'h option"
    and add_tail :: "'a \<Rightarrow> 'a \<Rightarrow> 'h \<Rightarrow> 'h option"
    and del :: "'a \<Rightarrow> 'h \<Rightarrow> 'h option"
  assumes repr_init: "repr (init l h) l []"
    and repr_empty: "repr h l xs \<Longrightarrow> is_empty l h \<longleftrightarrow> xs = []"
    and repr_distinct: "repr h l xs \<Longrightarrow> distinct (l # xs)"
    and repr_add: "repr h l xs \<Longrightarrow> e \<notin> set (l # xs) \<Longrightarrow> \<exists>h'. add e l h = Some h' \<and> repr h' l (e # xs)"
    and repr_add_tail:
      "repr h l xs \<Longrightarrow> e \<notin> set (l # xs) \<Longrightarrow> \<exists>h'. add_tail e l h = Some h' \<and> repr h' l (xs @ [e])"
    and repr_del: "repr h l xs \<Longrightarrow> e \<in> set xs \<Longrightarrow> \<exists>h'. del e h = Some h' \<and> repr h' l (remove1 e xs)"
begin

text \<open>Queueing with \<open>list_add_tail\<close> and taking from the front is first in, first out.\<close>

fun add_all :: "'a list \<Rightarrow> 'a \<Rightarrow> 'h \<Rightarrow> 'h option" where
  "add_all [] l h = Some h"
| "add_all (e # es) l h = (add_tail e l h \<bind> add_all es l)"

lemma add_all_fifo:
  "repr h l xs \<Longrightarrow> distinct (l # xs @ es) \<Longrightarrow> \<exists>h'. add_all es l h = Some h' \<and> repr h' l (xs @ es)"
proof (induction es arbitrary: h xs)
  case (Cons e es)
  then obtain h1 where h1: "add_tail e l h = Some h1" "repr h1 l (xs @ [e])"
    using repr_add_tail [of h l xs e] by auto
  from Cons.IH [OF h1(2)] Cons.prems(2) h1(1) show ?case by simp
qed simp

text \<open>Pushing with \<open>list_add\<close> and taking from the front is last in, first out.\<close>

fun push_all :: "'a list \<Rightarrow> 'a \<Rightarrow> 'h \<Rightarrow> 'h option" where
  "push_all [] l h = Some h"
| "push_all (e # es) l h = (add e l h \<bind> push_all es l)"

lemma push_all_lifo:
  "repr h l xs \<Longrightarrow> distinct (l # xs @ es) \<Longrightarrow> \<exists>h'. push_all es l h = Some h' \<and> repr h' l (rev es @ xs)"
proof (induction es arbitrary: h xs)
  case (Cons e es)
  then obtain h1 where h1: "add e l h = Some h1" "repr h1 l (e # xs)"
    using repr_add [of h l xs e] by auto
  from Cons.IH [OF h1(2)] Cons.prems(2) h1(1) show ?case by auto
qed simp

text \<open>The teardown loops (\<open>while (!list_empty(l)) list_del(first)\<close>) end with an empty list.\<close>

fun drain :: "'a list \<Rightarrow> 'h \<Rightarrow> 'h option" where
  "drain [] h = Some h"
| "drain (e # es) h = (del e h \<bind> drain es)"

lemma drain_empties: "repr h l xs \<Longrightarrow> \<exists>h'. drain xs h = Some h' \<and> repr h' l [] \<and> is_empty l h'"
proof (induction xs arbitrary: h)
  case Nil
  then show ?case using repr_empty by auto
next
  case (Cons e es)
  then obtain h1 where "del e h = Some h1" "repr h1 l es"
    using repr_del [of h l "e # es" e] by auto
  with Cons.IH show ?case by simp
qed

end

interpretation list_h: intrusive_list dll INIT_LIST_HEAD list_empty list_add list_add_tail list_del
proof (unfold_locales, goal_cases)
  case (1 l h)
  show ?case by (rule dll_init)
next
  case (2 h l xs)
  then show ?case by (rule dll_empty)
next
  case (3 h l xs)
  then show ?case by (simp add: dll_def)
next
  case (4 h l xs e)
  then show ?case by (rule dll_add)
next
  case (5 h l xs e)
  then show ?case by (rule dll_add_tail)
next
  case (6 h l xs e)
  from dll_del [OF 6] show ?case by metis
qed


section \<open>Properties\<close>

text \<open>
  \<open>list_del\<close> of an entry of a ring takes exactly that entry out, keeps the order and the links of
  all others, and leaves the entry with two \<open>NULL\<close> links.
\<close>

theorem list_del_correct:
  assumes "dll h head xs" and "e \<in> set xs"
  shows "\<exists>h'. list_del e h = Some h' \<and> dll h' head (remove1 e xs) \<and> nxt h' e = None \<and> prv h' e = None"
  using dll_del [OF assms] .

definition sample_heap :: "nat list_heap" where
  "sample_heap =
     \<lparr>nxt = [0 \<mapsto> 1, 1 \<mapsto> 2, 2 \<mapsto> 0, 5 \<mapsto> 6, 6 \<mapsto> 5], prv = [0 \<mapsto> 2, 2 \<mapsto> 1, 1 \<mapsto> 0, 5 \<mapsto> 6, 6 \<mapsto> 5]\<rparr>"

lemma sample_heap_dll: "dll sample_heap 0 [1, 2]" "dll sample_heap 5 [6]"
  by (simp_all add: dll_def sample_heap_def)

theorem list_del_correct_witness:
  "\<exists>h'. list_del 1 sample_heap = Some h' \<and> dll h' 0 [2] \<and> nxt h' 1 = None \<and> prv h' 1 = None"
  using list_del_correct [OF sample_heap_dll(1), of 1] by simp

text \<open>
  \<open>list_splice_tail_init\<close> moves all entries of one ring, in order, behind those of another that
  shares no entry with it, and leaves the first ring empty.
\<close>

theorem list_splice_tail_init_correct:
  assumes "dll h head xs" and "dll h l ys" and "set (l # ys) \<inter> set (head # xs) = {}"
  shows "\<exists>h'. list_splice_tail_init l head h = Some h' \<and> dll h' head (xs @ ys) \<and> dll h' l []"
  using dll_splice_tail_init [OF assms] .

theorem list_splice_tail_init_correct_witness:
  "\<exists>h'. list_splice_tail_init 5 0 sample_heap = Some h' \<and> dll h' 0 [1, 2, 6] \<and> dll h' 5 []"
  using list_splice_tail_init_correct [OF sample_heap_dll] by simp

end
