(* ===== verification/Avl.thy ===== *)
theory Avl
  imports Linked_List
begin

text \<open>
  The AVL trees of \<open>src/libubox/avl.c\<close>, with their in-order list and their chains of duplicates.

  A node of the C tree is an element \<open>(key, pointer)\<close>: the key is fixed while the node is in the tree.
  \<open>atree\<close> holds the \<open>left\<close>, \<open>right\<close> and \<open>balance\<close> fields of the leader nodes. The \<open>parent\<close> pointers are
  a path of frames from a node to the root: a function that takes a \<open>struct avl_node *\<close> and climbs
  takes that path and the subtree at the node, \<open>node == parent->left\<close> is a frame \<open>FL\<close>, and the tree is
  put together again by \<open>plug\<close>. A rotation of a node without the child it needs, which would follow
  a \<open>NULL\<close> pointer, is \<open>None\<close>. \<open>balance\<close> is an \<open>int\<close>: the invariant keeps it in -1..1 between operations
  and the code never takes it outside -2..2, so the width of \<open>signed char\<close> never matters.

  The lemmas show that every operation keeps the invariant \<open>avl_ok\<close> (balanced, ordered, the list in
  key order with each run of equal keys led by the node in the tree, the count exact) and what it
  does to the list. The interface for the users of trees is the locale \<open>avl_order\<close>, whose laws are
  those of a comparator; it is interpreted on \<open>avl_strcmp\<close> here and on \<open>ubus_cmp_id\<close> where that is
  defined.
\<close>

section \<open>Data\<close>

datatype 'e atree = Null | Node "'e atree" 'e int "'e atree"

datatype 'e frame = FL 'e int "'e atree" | FR "'e atree" 'e int

type_synonym 'e path = "'e frame list"

record ('k, 'n) avl_tree =
  list_head :: "('k \<times> 'n) list"
  root :: "('k \<times> 'n) atree"
  count :: nat
  allow_dups :: bool
  leader :: "('k \<times> 'n) \<Rightarrow> bool"

type_synonym 'k avl_tree_comp = "'k \<Rightarrow> 'k \<Rightarrow> int"

fun plug :: "'e path \<Rightarrow> 'e atree \<Rightarrow> 'e atree" where
  "plug [] t = t"
| "plug (FL n b r # p) t = plug p (Node t n b r)"
| "plug (FR l n b # p) t = plug p (Node l n b t)"

text \<open>The position a node pointer designates.\<close>

fun locate :: "'e \<Rightarrow> 'e path \<Rightarrow> 'e atree \<Rightarrow> ('e path \<times> 'e atree) option" where
  "locate x p Null = None"
| "locate x p (Node l n b r) =
     (if n = x then Some (p, Node l n b r)
      else case locate x (FL n b r # p) l of
        Some z \<Rightarrow> Some z
      | None \<Rightarrow> locate x (FR l n b # p) r)"

text \<open>One node takes the place of another: its links and its balance.\<close>

fun subst_node :: "'e \<Rightarrow> 'e \<Rightarrow> 'e atree \<Rightarrow> 'e atree" where
  "subst_node x y Null = Null"
| "subst_node x y (Node l n b r) = Node (subst_node x y l) (if n = x then y else n) b (subst_node x y r)"

section \<open>Operations\<close>

definition avl_max :: "int \<Rightarrow> int \<Rightarrow> int" where
  "avl_max x y = (if x > y then x else y)"

definition avl_min :: "int \<Rightarrow> int \<Rightarrow> int" where
  "avl_min x y = (if x < y then x else y)"

definition avl_init :: "bool \<Rightarrow> ('k, 'n) avl_tree" where
  "avl_init dups =
     \<lparr>list_head = [], root = Null, count = 0, allow_dups = dups, leader = (\<lambda>_. False)\<rparr>"

fun avl_find_rec ::
    "'k avl_tree_comp \<Rightarrow> 'k \<Rightarrow> ('k \<times> 'n) path \<Rightarrow> ('k \<times> 'n) atree \<Rightarrow>
     (('k \<times> 'n) path \<times> ('k \<times> 'n) atree \<times> int)" where
  "avl_find_rec cmp k p Null = (p, Null, 0)"
| "avl_find_rec cmp k p (Node l n b r) =
     (let diff = cmp k (fst n) in
      if diff < 0 then
        (if l \<noteq> Null then avl_find_rec cmp k (FL n b r # p) l else (p, Node l n b r, diff))
      else if diff > 0 then
        (if r \<noteq> Null then avl_find_rec cmp k (FR l n b # p) r else (p, Node l n b r, diff))
      else (p, Node l n b r, diff))"

fun node_of :: "'e atree \<Rightarrow> 'e option" where
  "node_of Null = None"
| "node_of (Node l n b r) = Some n"

definition avl_find :: "'k avl_tree_comp \<Rightarrow> ('k, 'n) avl_tree \<Rightarrow> 'k \<Rightarrow> ('k \<times> 'n) option" where
  "avl_find cmp t k =
     (if root t = Null then None
      else case avl_find_rec cmp k [] (root t) of
        (p, u, diff) \<Rightarrow> if diff = 0 then node_of u else None)"

text \<open>
  The two loops of \<open>avl_find_lessequal\<close> walk the list: first to the left from the node found while
  \<open>key < node.key\<close>, then to the right while \<open>key >= next.key\<close>. Each takes the entries on its side.
\<close>

fun find_le_left ::
    "'k avl_tree_comp \<Rightarrow> 'k \<Rightarrow> int \<Rightarrow> ('k \<times> 'n) \<Rightarrow> ('k \<times> 'n) list \<Rightarrow> ('k \<times> 'n) option" where
  "find_le_left cmp k diff node prevs =
     (if diff < 0 then
        (case prevs of [] \<Rightarrow> None
         | q # qs \<Rightarrow> find_le_left cmp k (cmp k (fst q)) q qs)
      else Some node)"

fun find_le_right ::
    "'k avl_tree_comp \<Rightarrow> 'k \<Rightarrow> int \<Rightarrow> ('k \<times> 'n) \<Rightarrow> ('k \<times> 'n) \<Rightarrow> ('k \<times> 'n) list \<Rightarrow> ('k \<times> 'n)" where
  "find_le_right cmp k diff node next nexts =
     (if diff \<ge> 0 then
        (case nexts of [] \<Rightarrow> next
         | q # qs \<Rightarrow> find_le_right cmp k (cmp k (fst q)) next q qs)
      else node)"

definition avl_find_lessequal ::
    "'k avl_tree_comp \<Rightarrow> ('k, 'n) avl_tree \<Rightarrow> 'k \<Rightarrow> ('k \<times> 'n) option" where
  "avl_find_lessequal cmp t k =
     (if root t = Null then None
      else do {
        let (p, u, diff) = avl_find_rec cmp k [] (root t);
        node \<leftarrow> node_of u;
        node \<leftarrow> find_le_left cmp k diff node (before node (list_head t));
        Some (find_le_right cmp k (cmp k (fst node)) node node (after node (list_head t)))
      })"

fun find_ge_right ::
    "'k avl_tree_comp \<Rightarrow> 'k \<Rightarrow> int \<Rightarrow> ('k \<times> 'n) \<Rightarrow> ('k \<times> 'n) list \<Rightarrow> ('k \<times> 'n) option" where
  "find_ge_right cmp k diff node nexts =
     (if diff > 0 then
        (case nexts of [] \<Rightarrow> None
         | q # qs \<Rightarrow> find_ge_right cmp k (cmp k (fst q)) q qs)
      else Some node)"

fun find_ge_left ::
    "'k avl_tree_comp \<Rightarrow> 'k \<Rightarrow> int \<Rightarrow> ('k \<times> 'n) \<Rightarrow> ('k \<times> 'n) \<Rightarrow> ('k \<times> 'n) list \<Rightarrow> ('k \<times> 'n)" where
  "find_ge_left cmp k diff node next prevs =
     (if diff \<le> 0 then
        (case prevs of [] \<Rightarrow> next
         | q # qs \<Rightarrow> find_ge_left cmp k (cmp k (fst q)) next q qs)
      else node)"

definition avl_find_greaterequal ::
    "'k avl_tree_comp \<Rightarrow> ('k, 'n) avl_tree \<Rightarrow> 'k \<Rightarrow> ('k \<times> 'n) option" where
  "avl_find_greaterequal cmp t k =
     (if root t = Null then None
      else do {
        let (p, u, diff) = avl_find_rec cmp k [] (root t);
        node \<leftarrow> node_of u;
        node \<leftarrow> find_ge_right cmp k diff node (after node (list_head t));
        Some (find_ge_left cmp k (cmp k (fst node)) node node (before node (list_head t)))
      })"

fun avl_rotate_right :: "'e atree \<Rightarrow> 'e atree option" where
  "avl_rotate_right (Node (Node ll l lb lr) n b r) =
     (let b' = b + (1 - avl_min lb 0);
          lb' = lb + (1 + avl_max b' 0)
      in Some (Node ll l lb' (Node lr n b' r)))"
| "avl_rotate_right _ = None"

fun avl_rotate_left :: "'e atree \<Rightarrow> 'e atree option" where
  "avl_rotate_left (Node l n b (Node rl r rb rr)) =
     (let b' = b - (1 + avl_max rb 0);
          rb' = rb - (1 - avl_min b' 0)
      in Some (Node (Node l n b' rl) r rb' rr))"
| "avl_rotate_left _ = None"

fun balance_of :: "'e atree \<Rightarrow> int option" where
  "balance_of Null = None"
| "balance_of (Node l n b r) = Some b"

fun post_insert :: "'e path \<Rightarrow> 'e atree \<Rightarrow> 'e atree option" where
  "post_insert [] node = Some node"
| "post_insert (FL n b r # p) node =
     (let b = b - 1 in
      if b = 0 then Some (plug p (Node node n b r))
      else if b = -1 then post_insert p (Node node n b r)
      else do {
        nb \<leftarrow> balance_of node;
        if nb = -1 then map_option (plug p) (avl_rotate_right (Node node n b r))
        else do {
          node \<leftarrow> avl_rotate_left node;
          map_option (plug p) (avl_rotate_right (Node node n b r))
        }
      })"
| "post_insert (FR l n b # p) node =
     (let b = b + 1 in
      if b = 0 then Some (plug p (Node l n b node))
      else if b = 1 then post_insert p (Node l n b node)
      else do {
        nb \<leftarrow> balance_of node;
        if nb = 1 then map_option (plug p) (avl_rotate_left (Node l n b node))
        else do {
          node \<leftarrow> avl_rotate_right node;
          map_option (plug p) (avl_rotate_left (Node l n b node))
        }
      })"

text \<open>The last node of the run of equal keys that starts at \<open>last\<close>, walking the list.\<close>

fun last_duplicate :: "('e \<Rightarrow> bool) \<Rightarrow> 'e \<Rightarrow> 'e list \<Rightarrow> 'e" where
  "last_duplicate ldr lst [] = lst"
| "last_duplicate ldr lst (next # nexts) =
     (if ldr next then lst else last_duplicate ldr next nexts)"

definition avl_insert_before :: "('k, 'n) avl_tree \<Rightarrow> ('k \<times> 'n) \<Rightarrow> ('k \<times> 'n) \<Rightarrow> ('k, 'n) avl_tree" where
  "avl_insert_before t pos node =
     t\<lparr>list_head := insert_before pos node (list_head t), count := count t + 1\<rparr>"

definition avl_insert_after :: "('k, 'n) avl_tree \<Rightarrow> ('k \<times> 'n) \<Rightarrow> ('k \<times> 'n) \<Rightarrow> ('k, 'n) avl_tree" where
  "avl_insert_after t pos node =
     t\<lparr>list_head := insert_after pos node (list_head t), count := count t + 1\<rparr>"

definition avl_remove :: "('k, 'n) avl_tree \<Rightarrow> ('k \<times> 'n) \<Rightarrow> ('k, 'n) avl_tree" where
  "avl_remove t node = t\<lparr>list_head := remove1 node (list_head t), count := count t - 1\<rparr>"

abbreviation leaf :: "'e \<Rightarrow> 'e atree" where
  "leaf n \<equiv> Node Null n 0 Null"

text \<open>The result is the return code (0 or -1) and the tree.\<close>

definition avl_insert ::
    "'k avl_tree_comp \<Rightarrow> ('k, 'n) avl_tree \<Rightarrow> ('k \<times> 'n) \<Rightarrow> (int \<times> ('k, 'n) avl_tree) option" where
  "avl_insert cmp t new =
     (let t = t\<lparr>leader := (leader t)(new := True)\<rparr> in
      if root t = Null then
        Some (0, t\<lparr>list_head := new # list_head t, root := leaf new, count := 1\<rparr>)
      else (case avl_find_rec cmp (fst new) [] (root t) of
        (p, Null, _) \<Rightarrow> None
      | (p, Node l node b r, _) \<Rightarrow>
          (let lst = last_duplicate (leader t) node (after node (list_head t));
               diff = cmp (fst new) (fst node)
           in
             if diff = 0 then
               (if \<not> allow_dups t then Some (-1, t)
                else Some (0, avl_insert_after (t\<lparr>leader := (leader t)(new := False)\<rparr>) lst new))
             else if b = 1 then
               Some (0, (avl_insert_before t node new)\<lparr>root := plug p (Node (leaf new) node 0 r)\<rparr>)
             else if b = -1 then
               Some (0, (avl_insert_after t lst new)\<lparr>root := plug p (Node l node 0 (leaf new))\<rparr>)
             else if diff < 0 then
               do { rt \<leftarrow> post_insert p (Node (leaf new) node (-1) r);
                    Some (0, (avl_insert_before t node new)\<lparr>root := rt\<rparr>) }
             else
               do { rt \<leftarrow> post_insert p (Node l node 1 (leaf new));
                    Some (0, (avl_insert_after t lst new)\<lparr>root := rt\<rparr>) })))"

fun avl_post_delete :: "'e path \<Rightarrow> 'e atree \<Rightarrow> 'e atree option" where
  "avl_post_delete [] node = Some node"
| "avl_post_delete (FL n b r # p) node =
     (let b = b + 1 in
      if b = 0 then avl_post_delete p (Node node n b r)
      else if b = 1 then Some (plug p (Node node n b r))
      else do {
        rb \<leftarrow> balance_of r;
        if rb = 0 then map_option (plug p) (avl_rotate_left (Node node n b r))
        else if rb = 1 then do {
          x \<leftarrow> avl_rotate_left (Node node n b r);
          avl_post_delete p x
        }
        else do {
          r \<leftarrow> avl_rotate_right r;
          x \<leftarrow> avl_rotate_left (Node node n b r);
          avl_post_delete p x
        }
      })"
| "avl_post_delete (FR l n b # p) node =
     (let b = b - 1 in
      if b = 0 then avl_post_delete p (Node l n b node)
      else if b = -1 then Some (plug p (Node l n b node))
      else do {
        lb \<leftarrow> balance_of l;
        if lb = 0 then map_option (plug p) (avl_rotate_right (Node l n b node))
        else if lb = -1 then do {
          x \<leftarrow> avl_rotate_right (Node l n b node);
          avl_post_delete p x
        }
        else do {
          l \<leftarrow> avl_rotate_left l;
          x \<leftarrow> avl_rotate_right (Node l n b node);
          avl_post_delete p x
        }
      })"

fun avl_local_min :: "'e path \<Rightarrow> 'e atree \<Rightarrow> ('e path \<times> 'e atree)" where
  "avl_local_min p Null = (p, Null)"
| "avl_local_min p (Node l n b r) =
     (if l \<noteq> Null then avl_local_min (FL n b r # p) l else (p, Node l n b r))"

lemma size_avl_local_min: "avl_local_min p t = (q, u) \<Longrightarrow> size u \<le> size t"
  by (induction p t rule: avl_local_min.induct) (auto split: if_splits)

text \<open>
  \<open>avl_delete_worker(tree, node)\<close> on the node at the end of the path \<open>p\<close>. With two children, the
  smallest node of the right subtree is taken out of the tree first, which may rotate \<open>node\<close> itself,
  and then takes the place \<open>node\<close> has by then.
\<close>

function avl_delete_worker :: "'e path \<Rightarrow> 'e atree \<Rightarrow> 'e atree option" where
  "avl_delete_worker p Null = None"
| "avl_delete_worker p (Node l n b r) =
     (if l = Null \<and> r = Null then
        (case p of
          [] \<Rightarrow> Some Null
        | FL pn pb pr # p' \<Rightarrow>
            (let pb = pb + 1 in
             if pb = 1 then Some (plug p' (Node Null pn pb pr))
             else if pb = 0 then avl_post_delete p' (Node Null pn pb pr)
             else do {
               rb \<leftarrow> balance_of pr;
               if rb = 0 then map_option (plug p') (avl_rotate_left (Node Null pn pb pr))
               else if rb = 1 then do {
                 x \<leftarrow> avl_rotate_left (Node Null pn pb pr);
                 avl_post_delete p' x
               }
               else do {
                 pr \<leftarrow> avl_rotate_right pr;
                 x \<leftarrow> avl_rotate_left (Node Null pn pb pr);
                 avl_post_delete p' x
               }
             })
        | FR pl pn pb # p' \<Rightarrow>
            (let pb = pb - 1 in
             if pb = -1 then Some (plug p' (Node pl pn pb Null))
             else if pb = 0 then avl_post_delete p' (Node pl pn pb Null)
             else do {
               lb \<leftarrow> balance_of pl;
               if lb = 0 then map_option (plug p') (avl_rotate_right (Node pl pn pb Null))
               else if lb = -1 then do {
                 x \<leftarrow> avl_rotate_right (Node pl pn pb Null);
                 avl_post_delete p' x
               }
               else do {
                 pl \<leftarrow> avl_rotate_left pl;
                 x \<leftarrow> avl_rotate_right (Node pl pn pb Null);
                 avl_post_delete p' x
               }
             }))
      else if l = Null then (if p = [] then Some r else avl_post_delete p r)
      else if r = Null then (if p = [] then Some l else avl_post_delete p l)
      else (case avl_local_min (FR l n b # p) r of
          (q, Null) \<Rightarrow> None
        | (q, Node ml m mb mr) \<Rightarrow>
            map_option (subst_node n m) (avl_delete_worker q (Node ml m mb mr))))"
  by pat_completeness auto
termination
  by (relation "measure (\<lambda>(p, t). size t)")
    (auto simp: eq_commute [of "(_, _)"] dest!: size_avl_local_min)

definition avl_delete :: "('k, 'n) avl_tree \<Rightarrow> ('k \<times> 'n) \<Rightarrow> ('k, 'n) avl_tree option" where
  "avl_delete t node = do {
     t \<leftarrow>
       (if leader t node then
          (case after node (list_head t) of
            next # _ \<Rightarrow>
              if allow_dups t \<and> \<not> leader t next then
                Some (t\<lparr>leader := (leader t)(next := True), root := subst_node node next (root t)\<rparr>)
              else do {
                (p, u) \<leftarrow> locate node [] (root t);
                rt \<leftarrow> avl_delete_worker p u;
                Some (t\<lparr>root := rt\<rparr>)
              }
          | [] \<Rightarrow> do {
                (p, u) \<leftarrow> locate node [] (root t);
                rt \<leftarrow> avl_delete_worker p u;
                Some (t\<lparr>root := rt\<rparr>)
              })
        else Some t);
     Some (avl_remove t node)
   }"

text \<open>
  The iteration macros of \<open>avl.h\<close> walk the list from its first to its last element.
  \<open>avl_remove_all_elements\<close> empties the tree first and then visits every element.
\<close>

definition avl_for_each_element :: "('k, 'n) avl_tree \<Rightarrow> ('k \<times> 'n) list" where
  "avl_for_each_element t = list_head t"

definition avl_remove_all_elements :: "('k, 'n) avl_tree \<Rightarrow> ('k \<times> 'n) list \<times> ('k, 'n) avl_tree" where
  "avl_remove_all_elements t =
     (take (count t) (list_head t), t\<lparr>list_head := [], root := Null, count := 0\<rparr>)"

definition avl_is_empty :: "('k, 'n) avl_tree \<Rightarrow> bool" where
  "avl_is_empty t = (count t = 0)"

definition avl_strcmp :: "cstring avl_tree_comp" where
  "avl_strcmp k1 k2 = strcmp k1 k2"

text \<open>A client's sequence of insertions and deletions.\<close>

datatype 'e avl_op = Ins 'e | Del 'e

fun avl_run ::
    "'k avl_tree_comp \<Rightarrow> ('k \<times> 'n) avl_op list \<Rightarrow> ('k, 'n) avl_tree \<Rightarrow> (int list \<times> ('k, 'n) avl_tree) option" where
  "avl_run cmp [] t = Some ([], t)"
| "avl_run cmp (Ins e # ops) t = do {
     (rc, t) \<leftarrow> avl_insert cmp t e;
     (rcs, t) \<leftarrow> avl_run cmp ops t;
     Some (rc # rcs, t)
   }"
| "avl_run cmp (Del e # ops) t = do {
     t \<leftarrow> avl_delete t e;
     avl_run cmp ops t
   }"

section \<open>Balanced trees\<close>

fun inorder :: "'e atree \<Rightarrow> 'e list" where
  "inorder Null = []"
| "inorder (Node l n b r) = inorder l @ n # inorder r"

fun ht :: "'e atree \<Rightarrow> nat" where
  "ht Null = 0"
| "ht (Node l n b r) = Suc (max (ht l) (ht r))"

fun avl_bal :: "'e atree \<Rightarrow> bool" where
  "avl_bal Null = True"
| "avl_bal (Node l n b r) =
     (b = int (ht r) - int (ht l) \<and> b \<in> {-1, 0, 1} \<and> avl_bal l \<and> avl_bal r)"

text \<open>A path whose frames are balanced when the subtree at its end has height \<open>h\<close>.\<close>

fun path_bal :: "'e path \<Rightarrow> nat \<Rightarrow> bool" where
  "path_bal [] h = True"
| "path_bal (FL n b r # p) h =
     (b = int (ht r) - int h \<and> b \<in> {-1, 0, 1} \<and> avl_bal r \<and> path_bal p (Suc (max h (ht r))))"
| "path_bal (FR l n b # p) h =
     (b = int h - int (ht l) \<and> b \<in> {-1, 0, 1} \<and> avl_bal l \<and> path_bal p (Suc (max (ht l) h)))"

fun pre :: "'e path \<Rightarrow> 'e list" where
  "pre [] = []"
| "pre (FL n b r # p) = pre p"
| "pre (FR l n b # p) = pre p @ inorder l @ [n]"

fun post :: "'e path \<Rightarrow> 'e list" where
  "post [] = []"
| "post (FL n b r # p) = n # inorder r @ post p"
| "post (FR l n b # p) = post p"

lemma avl_bal_plug: "avl_bal (plug p t) \<longleftrightarrow> avl_bal t \<and> path_bal p (ht t)"
  by (induction p t rule: plug.induct) auto

lemma inorder_plug: "inorder (plug p t) = pre p @ inorder t @ post p"
  by (induction p t rule: plug.induct) auto

lemma ht_0 [simp]: "ht t = 0 \<longleftrightarrow> t = Null"
  by (cases t) auto

lemma inorder_Nil [simp]: "inorder t = [] \<longleftrightarrow> t = Null"
  by (cases t) auto

lemmas rotate_defs = Let_def avl_max_def avl_min_def avl_bal_plug inorder_plug

text \<open>
  The rotations turn an outer or inner imbalance of two into a balanced tree with the same elements,
  and set the balance factors to the new difference of heights.
\<close>

lemma rotate_right_outer:
  assumes "avl_bal l" "avl_bal r" "ht l = ht r + 2" "balance_of l = Some lb" "lb \<noteq> 1"
  shows "\<exists>t. avl_rotate_right (Node l n (-2) r) = Some t \<and> avl_bal t \<and>
    inorder t = inorder l @ n # inorder r \<and> ht t = (if lb = 0 then ht r + 3 else ht r + 2)"
  using assms by (cases l) (auto simp: rotate_defs max_def split: if_splits)

lemma rotate_left_outer:
  assumes "avl_bal l" "avl_bal r" "ht r = ht l + 2" "balance_of r = Some rb" "rb \<noteq> -1"
  shows "\<exists>t. avl_rotate_left (Node l n 2 r) = Some t \<and> avl_bal t \<and>
    inorder t = inorder l @ n # inorder r \<and> ht t = (if rb = 0 then ht l + 3 else ht l + 2)"
  using assms by (cases r) (auto simp: rotate_defs max_def split: if_splits)

lemma rotate_right_inner:
  assumes "avl_bal l" "avl_bal r" "ht l = ht r + 2" "balance_of l = Some 1"
  shows "\<exists>l' t. avl_rotate_left l = Some l' \<and> avl_rotate_right (Node l' n (-2) r) = Some t \<and> avl_bal t \<and>
    inorder t = inorder l @ n # inorder r \<and> ht t = ht r + 2"
proof (cases l)
  case (Node ll ln lb lr)
  with assms have "lb = 1" "ht lr = ht r + 1" by (auto simp: max_def split: if_splits)
  then obtain lrl x xb lrr where "lr = Node lrl x xb lrr" by (cases lr) auto
  with Node assms \<open>lb = 1\<close> show ?thesis
    by (auto simp: rotate_defs max_def split: if_splits)
qed (use assms in auto)

lemma rotate_left_inner:
  assumes "avl_bal l" "avl_bal r" "ht r = ht l + 2" "balance_of r = Some (-1)"
  shows "\<exists>r' t. avl_rotate_right r = Some r' \<and> avl_rotate_left (Node l n 2 r') = Some t \<and> avl_bal t \<and>
    inorder t = inorder l @ n # inorder r \<and> ht t = ht l + 2"
proof (cases r)
  case (Node rl rn rb rr)
  with assms have "rb = -1" "ht rl = ht l + 1" by (auto simp: max_def split: if_splits)
  then obtain rll x xb rlr where "rl = Node rll x xb rlr" by (cases rl) auto
  with Node assms \<open>rb = -1\<close> show ?thesis
    by (auto simp: rotate_defs max_def split: if_splits)
qed (use assms in auto)

lemma post_insert_ok:
  assumes "avl_bal t" and "ht t = Suc h" and "path_bal p h" and "balance_of t = Some tb" and "tb \<noteq> 0"
  shows "\<exists>t'. post_insert p t = Some t' \<and> avl_bal t' \<and> inorder t' = inorder (plug p t)"
  using assms
proof (induction p arbitrary: t h tb)
  case Nil
  then show ?case by simp
next
  case (Cons f p)
  show ?case
  proof (cases f)
    case (FL n b r)
    with Cons.prems consider "b = 1" "ht r = Suc h" | "b = 0" "ht r = h" | "b = -1" "Suc (ht r) = h"
      by fastforce
    then show ?thesis
    proof cases
      case 1
      with FL Cons.prems show ?thesis by (simp add: rotate_defs)
    next
      case 2
      with FL Cons.prems Cons.IH [of "Node t n (-1) r" "Suc h" "-1"] show ?thesis by (simp add: inorder_plug)
    next
      case 3
      from Cons.prems have "tb = 1 \<or> tb = -1" by (cases t) auto
      with 3 FL Cons.prems rotate_right_outer [of t r "-1" n] rotate_right_inner [of t r n] show ?thesis
        by (auto simp: rotate_defs)
    qed
  next
    case (FR l n b)
    with Cons.prems consider "b = -1" "ht l = Suc h" | "b = 0" "ht l = h" | "b = 1" "Suc (ht l) = h"
      by fastforce
    then show ?thesis
    proof cases
      case 1
      with FR Cons.prems show ?thesis by (simp add: rotate_defs)
    next
      case 2
      with FR Cons.prems Cons.IH [of "Node l n 1 t" "Suc h" "1"] show ?thesis by (simp add: inorder_plug)
    next
      case 3
      from Cons.prems have "tb = 1 \<or> tb = -1" by (cases t) auto
      with 3 FR Cons.prems rotate_left_outer [of l t 1 n] rotate_left_inner [of l t n] show ?thesis
        by (auto simp: rotate_defs)
    qed
  qed
qed

text \<open>
  The rebalancing of a node whose left subtree has lost one level: the three rotations of
  \<open>avl_post_delete\<close> and of \<open>avl_delete_worker\<close>, which spells them out again. The two lemmas give the
  height of the result, which decides whether the climb goes on.
\<close>

lemma avl_bal_balance_of: "avl_bal t \<Longrightarrow> t \<noteq> Null \<Longrightarrow> \<exists>b. balance_of t = Some b \<and> b \<in> {-1, 0, 1}"
  by (cases t) auto

lemma post_delete_ok:
  assumes "avl_bal t" and "Suc (ht t) = h" and "path_bal p h"
  shows "\<exists>t'. avl_post_delete p t = Some t' \<and> avl_bal t' \<and> inorder t' = inorder (plug p t)"
  using assms
proof (induction p arbitrary: t h)
  case Nil
  then show ?case by simp
next
  case (Cons f p)
  show ?case
  proof (cases f)
    case (FL n b r)
    with Cons.prems consider "b = -1" "ht r = ht t" | "b = 0" "ht r = h" | "b = 1" "ht r = Suc h"
      by fastforce
    then show ?thesis
    proof cases
      case 1
      with FL Cons.prems Cons.IH [of "Node t n 0 r" "Suc h"] show ?thesis by (auto simp: max_def inorder_plug)
    next
      case 2
      with FL Cons.prems show ?thesis by (auto simp: rotate_defs max_def)
    next
      case 3
      have "r \<noteq> Null" using 3 by auto
      then obtain rb where rb: "balance_of r = Some rb" "rb \<in> {-1, 0, 1}"
        using avl_bal_balance_of [of r] FL Cons.prems by auto
      have h: "ht r = ht t + 2" "avl_bal r" "path_bal p (Suc (ht r))"
        using 3 FL Cons.prems by (auto simp: max_def)
      show ?thesis
      proof (cases "rb = -1")
        case True
        with rotate_left_inner [of t r n] rb h Cons.prems obtain r' x where
          x: "avl_rotate_right r = Some r'" "avl_rotate_left (Node t n 2 r') = Some x" "avl_bal x"
            "inorder x = inorder t @ n # inorder r" "ht x = ht t + 2"
          by auto
        with Cons.IH [of x "Suc (ht r)"] h FL rb 3 True show ?thesis by (auto simp: inorder_plug)
      next
        case False
        with rotate_left_outer [of t r rb n] rb h Cons.prems obtain x where
          x: "avl_rotate_left (Node t n 2 r) = Some x" "avl_bal x"
            "inorder x = inorder t @ n # inorder r" "ht x = (if rb = 0 then ht t + 3 else ht t + 2)"
          by auto
        with Cons.IH [of x "Suc (ht r)"] h FL rb 3 False show ?thesis
          by (auto simp: inorder_plug avl_bal_plug numeral_3_eq_3)
      qed
    qed
  next
    case (FR l n b)
    with Cons.prems consider "b = 1" "ht l = ht t" | "b = 0" "ht l = h" | "b = -1" "ht l = Suc h"
      by fastforce
    then show ?thesis
    proof cases
      case 1
      with FR Cons.prems Cons.IH [of "Node l n 0 t" "Suc h"] show ?thesis by (auto simp: max_def inorder_plug)
    next
      case 2
      with FR Cons.prems show ?thesis by (auto simp: rotate_defs max_def)
    next
      case 3
      have "l \<noteq> Null" using 3 by auto
      then obtain lb where lb: "balance_of l = Some lb" "lb \<in> {-1, 0, 1}"
        using avl_bal_balance_of [of l] FR Cons.prems by auto
      have h: "ht l = ht t + 2" "avl_bal l" "path_bal p (Suc (ht l))"
        using 3 FR Cons.prems by (auto simp: max_def)
      show ?thesis
      proof (cases "lb = 1")
        case True
        with rotate_right_inner [of l t n] lb h Cons.prems obtain l' x where
          x: "avl_rotate_left l = Some l'" "avl_rotate_right (Node l' n (-2) t) = Some x" "avl_bal x"
            "inorder x = inorder l @ n # inorder t" "ht x = ht t + 2"
          by auto
        with Cons.IH [of x "Suc (ht l)"] h FR lb 3 True show ?thesis by (auto simp: inorder_plug)
      next
        case False
        with rotate_right_outer [of l t lb n] lb h Cons.prems obtain x where
          x: "avl_rotate_right (Node l n (-2) t) = Some x" "avl_bal x"
            "inorder x = inorder l @ n # inorder t" "ht x = (if lb = 0 then ht t + 3 else ht t + 2)"
          by auto
        with Cons.IH [of x "Suc (ht l)"] h FR lb 3 False show ?thesis
          by (auto simp: inorder_plug avl_bal_plug numeral_3_eq_3)
      qed
    qed
  qed
qed

text \<open>The leaf case of \<open>avl_delete_worker\<close> repeats \<open>avl_post_delete\<close> with the child set to \<open>NULL\<close>.\<close>

lemma avl_delete_worker_leaf:
  "avl_delete_worker p (Node Null n b Null) =
     (if p = [] then Some Null else avl_post_delete p Null)"
proof (cases p)
  case (Cons f p')
  then show ?thesis by (cases f) (auto simp: Let_def)
qed simp

lemma avl_local_min_ok:
  "t \<noteq> Null \<Longrightarrow> \<exists>q m mb mr. avl_local_min p t = (q, Node Null m mb mr) \<and>
     plug q (Node Null m mb mr) = plug p t \<and> pre q = pre p \<and> q \<noteq> [] = (p \<noteq> [] \<or> (\<exists>l n b r. t = Node l n b r \<and> l \<noteq> Null))"
  by (induction p t rule: avl_local_min.induct) (auto split: if_splits)

lemma inorder_subst_node: "inorder (subst_node x y t) = map (\<lambda>e. if e = x then y else e) (inorder t)"
  by (induction t) auto

lemma avl_bal_subst_node [simp]: "ht (subst_node x y t) = ht t" "avl_bal (subst_node x y t) = avl_bal t"
proof -
  show h: "ht (subst_node x y t) = ht t" for t :: "'a atree" by (induction t) auto
  show "avl_bal (subst_node x y t) = avl_bal t" by (induction t) (auto simp: h)
qed


lemma map_subst_distinct:
  "distinct (xs @ x # ys) \<Longrightarrow> map (\<lambda>e. if e = x then y else e) (xs @ x # ys) = xs @ y # ys"
  by (auto intro!: map_idI)

lemma avl_delete_worker_single:
  assumes "avl_bal (plug p (Node l n b r))" and "l = Null \<or> r = Null"
  shows "\<exists>t. avl_delete_worker p (Node l n b r) = Some t \<and> avl_bal t \<and>
    inorder t = pre p @ inorder l @ inorder r @ post p"
proof (cases "p = []")
  case True
  with assms show ?thesis by (cases "l = Null"; cases "r = Null") (auto simp: avl_delete_worker_leaf)
next
  case False
  define c where "c = (if l = Null then r else l)"
  have w: "avl_delete_worker p (Node l n b r) = avl_post_delete p c"
  proof (cases "l = Null \<and> r = Null")
    case True
    with False show ?thesis by (simp add: c_def avl_delete_worker_leaf del: avl_delete_worker.simps)
  qed (use False assms(2) in \<open>auto simp: c_def\<close>)
  have "avl_bal c" "path_bal p (Suc (ht c))"
    using assms by (auto simp: c_def avl_bal_plug max_def split: if_splits)
  from post_delete_ok [OF this(1) refl this(2)] show ?thesis
    using assms(2) unfolding w by (auto simp: c_def inorder_plug split: if_splits)
qed

lemma avl_delete_worker_ok:
  assumes bal: "avl_bal (plug p (Node l n b r))" and dist: "distinct (inorder (plug p (Node l n b r)))"
  shows "\<exists>t. avl_delete_worker p (Node l n b r) = Some t \<and> avl_bal t \<and>
    inorder t = pre p @ inorder l @ inorder r @ post p"
proof (cases "l = Null \<or> r = Null")
  case True
  with bal show ?thesis by (rule avl_delete_worker_single)
next
  case False
  then obtain q m mb mr where q: "avl_local_min (FR l n b # p) r = (q, Node Null m mb mr)"
      "plug q (Node Null m mb mr) = plug p (Node l n b r)" "pre q = pre p @ inorder l @ [n]"
    using avl_local_min_ok [of r "FR l n b # p"] by auto
  from avl_delete_worker_single [of q Null m mb mr] bal q obtain t where
    t: "avl_delete_worker q (Node Null m mb mr) = Some t" "avl_bal t"
       "inorder t = pre q @ inorder mr @ post q"
    by auto
  have "inorder (plug q (Node Null m mb mr)) = inorder (plug p (Node l n b r))" using q by simp
  then have r: "inorder r @ post p = m # inorder mr @ post q" by (simp add: inorder_plug q(3))
  have "distinct ((pre p @ inorder l) @ n # inorder mr @ post q)"
    using dist r by (auto simp: inorder_plug)
  from map_subst_distinct [OF this, of m] have "inorder (subst_node n m t) = pre p @ inorder l @ inorder r @ post p"
    using r t q by (simp add: inorder_subst_node)
  with False q t show ?thesis by simp
qed

lemma locate_None: "locate x p t = None \<longleftrightarrow> x \<notin> set (inorder t)"
  by (induction x p t rule: locate.induct) (auto split: option.splits)

lemma locate_ok:
  "locate x p t = Some (q, u) \<Longrightarrow> (\<exists>l b r. u = Node l x b r) \<and> plug q u = plug p t"
  by (induction x p t rule: locate.induct) (auto split: option.splits if_splits)

text \<open>A balanced tree has logarithmic height.\<close>

lemma avl_bal_height: "avl_bal t \<Longrightarrow> 2 ^ (ht t div 2) \<le> length (inorder t) + 1"
proof (induction t)
  case (Node l n b r)
  define h where "h = min (ht l) (ht r)"
  have m: "2 ^ (h div 2) \<le> length (inorder l) + 1" "2 ^ (h div 2) \<le> length (inorder r) + 1"
  proof -
    have "(2::nat) ^ (h div 2) \<le> 2 ^ (ht l div 2)" "(2::nat) ^ (h div 2) \<le> 2 ^ (ht r div 2)"
      by (intro power_increasing div_le_mono; simp add: h_def)+
    moreover have "2 ^ (ht l div 2) \<le> length (inorder l) + 1" "2 ^ (ht r div 2) \<le> length (inorder r) + 1"
      using Node by simp_all
    ultimately show "2 ^ (h div 2) \<le> length (inorder l) + 1" "2 ^ (h div 2) \<le> length (inorder r) + 1"
      by linarith+
  qed
  have "ht (Node l n b r) \<le> h + 2" using Node.prems by (auto simp: h_def)
  then have "(2::nat) ^ (ht (Node l n b r) div 2) \<le> 2 ^ ((h + 2) div 2)"
    by (intro power_increasing div_le_mono) auto
  with m show ?case by simp
qed simp


lemma insert_after_last:
  assumes "distinct (A @ n # D @ B)"
  shows "insert_after (last (n # D)) e (A @ n # D @ B) = A @ n # D @ e # B"
proof -
  obtain D' d where D: "n # D = D' @ [d]" by (metis append_butlast_last_id list.distinct(1))
  then have "A @ n # D @ B = (A @ D') @ d # B" by (metis append.assoc append_Cons append_Nil)
  moreover have "d \<notin> set (A @ D')" using assms D by (metis calculation distinct_append disjoint_iff list.set_intros(1))
  ultimately have "insert_after d e (A @ n # D @ B) = (A @ D') @ d # e # B" by (metis insert_after_append)
  also have "\<dots> = A @ (n # D) @ e # B" by (simp add: D)
  finally show ?thesis by (simp add: D)
qed

lemma insert_left_ok:
  assumes "avl_bal (plug q (Node Null n b r))"
  shows "\<exists>rt. (if b = 1 then Some (plug q (Node (leaf e) n 0 r))
      else post_insert q (Node (leaf e) n (-1) r)) = Some rt \<and> avl_bal rt \<and>
    inorder rt = pre q @ e # n # inorder r @ post q"
proof (cases "b = 1")
  case False
  with assms have "b = 0" "r = Null" "path_bal q 1" by (auto simp: avl_bal_plug)
  with post_insert_ok [of "Node (leaf e) n (-1) r" 1 q "-1"] show ?thesis by (auto simp: inorder_plug)
qed (use assms in \<open>auto simp: avl_bal_plug inorder_plug\<close>)

lemma insert_right_ok:
  assumes "avl_bal (plug q (Node l n b Null))"
  shows "\<exists>rt. (if b = -1 then Some (plug q (Node l n 0 (leaf e)))
      else post_insert q (Node l n 1 (leaf e))) = Some rt \<and> avl_bal rt \<and>
    inorder rt = pre q @ inorder l @ n # e # post q"
proof (cases "b = -1")
  case False
  with assms have "b = 0" "l = Null" "path_bal q 1" by (auto simp: avl_bal_plug)
  with post_insert_ok [of "Node l n 1 (leaf e)" 1 q "1"] show ?thesis by (auto simp: inorder_plug)
qed (use assms in \<open>auto simp: avl_bal_plug inorder_plug\<close>)

section \<open>The invariant\<close>

text \<open>
  The list is in key order; an element follows one of the same key exactly when it is not a leader;
  the leaders are the nodes of the balanced tree, in the same order.
\<close>

definition run_step :: "'k avl_tree_comp \<Rightarrow> (('k \<times> 'n) \<Rightarrow> bool) \<Rightarrow> ('k \<times> 'n) \<Rightarrow> ('k \<times> 'n) \<Rightarrow> bool" where
  "run_step cmp ldr x y = (if ldr y then cmp (fst x) (fst y) < 0 else fst x = fst y)"

definition runs :: "'k avl_tree_comp \<Rightarrow> (('k \<times> 'n) \<Rightarrow> bool) \<Rightarrow> ('k \<times> 'n) list \<Rightarrow> bool" where
  "runs cmp ldr xs \<longleftrightarrow>
     successively (run_step cmp ldr) xs \<and>
     (xs \<noteq> [] \<longrightarrow> ldr (hd xs))"

definition avl_ok :: "'k avl_tree_comp \<Rightarrow> ('k, 'n) avl_tree \<Rightarrow> bool" where
  "avl_ok cmp t \<longleftrightarrow>
     avl_bal (root t) \<and> inorder (root t) = filter (leader t) (list_head t) \<and>
     distinct (list_head t) \<and> runs cmp (leader t) (list_head t) \<and>
     count t = length (list_head t) \<and>
     (allow_dups t \<or> list_all (leader t) (list_head t))"

lemma runs_Nil [simp]: "runs cmp ldr []"
  by (simp add: runs_def)

lemma runs_append:
  "runs cmp ldr (xs @ ys) \<longleftrightarrow> runs cmp ldr xs \<and>
     (ys = [] \<or> (if xs = [] then runs cmp ldr ys
       else successively (run_step cmp ldr) ys \<and>
         run_step cmp ldr (last xs) (hd ys)))"
  by (auto simp: runs_def successively_append_iff hd_append)

lemma runs_cong: "(\<And>x. x \<in> set xs \<Longrightarrow> ldr x = ldr' x) \<Longrightarrow> runs cmp ldr xs = runs cmp ldr' xs"
proof -
  assume eq: "\<And>x. x \<in> set xs \<Longrightarrow> ldr x = ldr' x"
  then have "successively (run_step cmp ldr) xs =
    successively (run_step cmp ldr') xs"
    by (intro successively_cong) (auto simp: run_step_def)
  with eq show ?thesis by (auto simp: runs_def)
qed

lemma runs_fun_upd: "e \<notin> set xs \<Longrightarrow> runs cmp (ldr(e := v)) xs = runs cmp ldr xs"
  by (rule runs_cong) auto

lemma successively_fun_upd:
  "e \<notin> set xs \<Longrightarrow> successively (run_step cmp (ldr(e := v))) xs = successively (run_step cmp ldr) xs"
  by (intro successively_cong) (auto simp: run_step_def)

lemma filter_fun_upd: "e \<notin> set xs \<Longrightarrow> filter (ldr(e := v)) xs = filter ldr xs"
  by (rule filter_cong) auto

text \<open>Every key in a list of runs is the key of a leader in it.\<close>

lemma runs_leader:
  assumes "runs cmp ldr xs" and "x \<in> set xs"
  shows "\<exists>y\<in>set (filter ldr xs). fst y = fst x"
  using assms
proof (induction xs arbitrary: x rule: rev_induct)
  case (snoc z xs)
  show ?case
  proof (cases "x = z \<and> \<not> ldr z")
    case True
    with snoc.prems have "xs \<noteq> []" "fst (last xs) = fst z"
      by (auto simp: runs_append runs_def successively_append_iff run_step_def)
    with snoc.IH [of "last xs"] snoc.prems True show ?thesis by (auto simp: runs_append)
  next
    case False
    have "runs cmp ldr xs" using snoc.prems by (simp add: runs_append)
    with False snoc.IH [of x] snoc.prems show ?thesis by (cases "x = z") (simp, force)
  qed
qed simp

lemma last_duplicate_eq:
  "last_duplicate ldr n xs = last (n # takeWhile (\<lambda>x. \<not> ldr x) xs)"
  by (induction ldr n xs rule: last_duplicate.induct) auto

lemma last_duplicate_upd:
  assumes "e \<notin> set xs"
  shows "last_duplicate (ldr(e := v)) n (after n xs) = last_duplicate ldr n (after n xs)"
proof -
  have "set (after n xs) \<subseteq> set xs" by (induction xs) auto
  with assms have "takeWhile (\<lambda>x. \<not> (ldr(e := v)) x) (after n xs) = takeWhile (\<lambda>x. \<not> ldr x) (after n xs)"
    by (intro takeWhile_cong) auto
  then show ?thesis by (simp add: last_duplicate_eq)
qed

lemma runs_followers:
  "successively (run_step cmp ldr) (n # xs) \<Longrightarrow>
     x \<in> set (takeWhile (\<lambda>x. \<not> ldr x) xs) \<Longrightarrow> fst x = fst n"
proof (induction xs arbitrary: n)
  case (Cons y xs)
  then show ?case by (cases xs) (fastforce simp: run_step_def split: if_splits)+
qed simp


text \<open>
  What a successful \<open>avl_insert\<close> leaves: the node stands after the last one whose key is not greater.
\<close>

definition inserted ::
    "'k avl_tree_comp \<Rightarrow> ('k, 'n) avl_tree \<Rightarrow> 'k \<times> 'n \<Rightarrow> (int \<times> ('k, 'n) avl_tree) option \<Rightarrow> bool" where
  "inserted cmp t e res \<longleftrightarrow>
     (\<exists>t' A B. res = Some (0, t') \<and> avl_ok cmp t' \<and> list_head t = A @ B \<and> list_head t' = A @ e # B \<and>
       allow_dups t' = allow_dups t \<and>
       (\<forall>x\<in>set A. cmp (fst x) (fst e) \<le> 0) \<and> (\<forall>x\<in>set B. cmp (fst e) (fst x) < 0))"

lemma find_le_left_eq:
  "find_le_left cmp k (cmp k (fst n)) n xs = List.find (\<lambda>x. \<not> cmp k (fst x) < 0) (n # xs)"
  by (induction xs arbitrary: n) auto

lemma find_le_right_eq:
  "find_le_right cmp k (cmp k (fst nx)) nd nx xs =
     (if 0 \<le> cmp k (fst nx) then last (nx # takeWhile (\<lambda>x. 0 \<le> cmp k (fst x)) xs) else nd)"
  by (induction xs arbitrary: nd nx) auto

lemma find_ge_right_eq:
  "find_ge_right cmp k (cmp k (fst n)) n xs = List.find (\<lambda>x. \<not> 0 < cmp k (fst x)) (n # xs)"
  by (induction xs arbitrary: n) auto

lemma find_ge_left_eq:
  "find_ge_left cmp k (cmp k (fst nx)) nd nx xs =
     (if cmp k (fst nx) \<le> 0 then last (nx # takeWhile (\<lambda>x. cmp k (fst x) \<le> 0) xs) else nd)"
  by (induction xs arbitrary: nd nx) auto

lemma find_append: "List.find P (xs @ ys) = (case List.find P xs of None \<Rightarrow> List.find P ys | Some x \<Rightarrow> Some x)"
  by (induction xs) auto

lemmas walk_eqs = find_le_left_eq find_le_right_eq find_ge_right_eq find_ge_left_eq find_append

declare find_le_left.simps [simp del] find_le_right.simps [simp del]
  find_ge_right.simps [simp del] find_ge_left.simps [simp del]

lemma le_walk:
  assumes d: "distinct (F @ G)" and n: "n \<in> set (F @ G)"
    and F: "\<forall>x\<in>set F. 0 \<le> cmp k (fst x)" and G: "\<forall>x\<in>set G. cmp k (fst x) < 0"
  shows "Option.bind (find_le_left cmp k (cmp k (fst n)) n (before n (F @ G)))
      (\<lambda>m. Some (find_le_right cmp k (cmp k (fst m)) m m (after m (F @ G)))) =
    (if F = [] then None else Some (last F))"
proof -
  have right: "find_le_right cmp k (cmp k (fst m)) m m (after m (F @ G)) = last F" if m: "m \<in> set F" for m
  proof -
    from m obtain F1 F2 where F': "F = F1 @ m # F2" "m \<notin> set F1" by (metis split_list_first)
    have "after m (F @ G) = F2 @ G" using F' by (simp add: after_append)
    moreover have "takeWhile (\<lambda>x. 0 \<le> cmp k (fst x)) (F2 @ G) = F2"
      using F G F' by (cases G) (auto simp: takeWhile_tail)
    ultimately show ?thesis using F m by (simp add: walk_eqs F')
  qed
  have left: "find_le_left cmp k (cmp k (fst n)) n (before n (F @ G)) = (if F = [] then None else Some (last F))"
    if m: "n \<in> set G"
  proof -
    from m obtain G1 G2 where G': "G = G1 @ n # G2" "n \<notin> set G1" by (metis split_list_first)
    have "before n ((F @ G1) @ n # G2) = rev (F @ G1)"
      by (rule before_append) (use d G' in auto)
    moreover have "List.find (\<lambda>x. \<not> cmp k (fst x) < 0) (rev G1) = None"
      using G G' by (force simp: find_None_iff)
    moreover have "List.find (\<lambda>x. \<not> cmp k (fst x) < 0) (rev F) = (if F = [] then None else Some (last F))"
      using F by (cases F rule: rev_cases) auto
    ultimately show ?thesis using G m by (simp add: walk_eqs G')
  qed
  show ?thesis
  proof (cases "n \<in> set F")
    case True
    then have "find_le_left cmp k (cmp k (fst n)) n (before n (F @ G)) = Some n"
      using F by (auto simp: walk_eqs)
    with right [OF True] True show ?thesis by auto
  next
    case False
    with n left right [of "last F"] show ?thesis by auto
  qed
qed

lemma ge_walk:
  assumes d: "distinct (F @ G)" and n: "n \<in> set (F @ G)"
    and F: "\<forall>x\<in>set F. 0 < cmp k (fst x)" and G: "\<forall>x\<in>set G. cmp k (fst x) \<le> 0"
  shows "Option.bind (find_ge_right cmp k (cmp k (fst n)) n (after n (F @ G)))
      (\<lambda>m. Some (find_ge_left cmp k (cmp k (fst m)) m m (before m (F @ G)))) =
    (if G = [] then None else Some (hd G))"
proof -
  have left: "find_ge_left cmp k (cmp k (fst m)) m m (before m (F @ G)) = hd G" if m: "m \<in> set G" for m
  proof -
    from m obtain G1 G2 where G': "G = G1 @ m # G2" "m \<notin> set G1" by (metis split_list_first)
    have "before m ((F @ G1) @ m # G2) = rev G1 @ rev F"
      by (subst before_append) (use d G' in auto)
    moreover have "takeWhile (\<lambda>x. cmp k (fst x) \<le> 0) (rev G1 @ rev F) = rev G1"
      using F G G' by (cases F rule: rev_cases) (auto simp: takeWhile_tail)
    moreover have "last (m # rev G1) = hd G" by (cases G1) (auto simp: G')
    ultimately show ?thesis using G m by (simp add: walk_eqs G' del: last.simps)
  qed
  have right: "find_ge_right cmp k (cmp k (fst n)) n (after n (F @ G)) = (if G = [] then None else Some (hd G))"
    if m: "n \<in> set F"
  proof -
    from m obtain F1 F2 where F': "F = F1 @ n # F2" "n \<notin> set F1" by (metis split_list_first)
    have "after n (F @ G) = F2 @ G" using F' by (simp add: after_append)
    moreover have "List.find (\<lambda>x. \<not> 0 < cmp k (fst x)) F2 = None"
      using F F' by (force simp: find_None_iff)
    moreover have "List.find (\<lambda>x. \<not> 0 < cmp k (fst x)) G = (if G = [] then None else Some (hd G))"
      using G by (cases G) auto
    ultimately show ?thesis using F m by (simp add: walk_eqs)
  qed
  show ?thesis
  proof (cases "n \<in> set G")
    case True
    then have "find_ge_right cmp k (cmp k (fst n)) n (after n (F @ G)) = Some n"
      using G by (auto simp: walk_eqs)
    with left [OF True] True show ?thesis by auto
  next
    case False
    with n right left [of "hd G"] show ?thesis by auto
  qed
qed

section \<open>Comparators\<close>

text \<open>
  What the trees need of \<open>tree->comp\<close>: a three-way comparison of a linear order. The locale proves
  the operations correct for any comparator; its interpretations are the comparators of the program.
\<close>

locale avl_order =
  fixes cmp :: "'k avl_tree_comp"
  assumes cmp_eq: "cmp a b = 0 \<longleftrightarrow> a = b"
    and cmp_swap: "cmp a b < 0 \<longleftrightarrow> 0 < cmp b a"
    and cmp_trans: "cmp a b < 0 \<Longrightarrow> cmp b c < 0 \<Longrightarrow> cmp a c < 0"
begin

lemma cmp_refl [simp]: "cmp a a = 0"
  by (simp add: cmp_eq)

lemma cmp_le_trans: "cmp a b \<le> 0 \<Longrightarrow> cmp b c \<le> 0 \<Longrightarrow> cmp a c \<le> 0"
  using cmp_eq cmp_trans by (metis less_le order_refl)

lemma cmp_less_le: "cmp a b < 0 \<Longrightarrow> cmp b c \<le> 0 \<Longrightarrow> cmp a c < 0"
  using cmp_eq cmp_trans by (metis less_le)

lemma cmp_le_less: "cmp a b \<le> 0 \<Longrightarrow> cmp b c < 0 \<Longrightarrow> cmp a c < 0"
  using cmp_eq cmp_trans by (metis less_le)

lemma cmp_pos: "0 < cmp a b \<longleftrightarrow> cmp b a < 0"
  using cmp_swap by blast

lemma cmp_not_less: "\<not> cmp a b < 0 \<longleftrightarrow> cmp b a \<le> 0"
  by (metis cmp_eq cmp_swap linorder_not_less order_antisym_conv)

lemma runs_sorted: "runs cmp ldr xs \<Longrightarrow> sorted_wrt (\<lambda>x y. cmp (fst x) (fst y) \<le> 0) xs"
proof -
  assume "runs cmp ldr xs"
  then have "successively (\<lambda>x y. cmp (fst x) (fst y) \<le> 0) xs"
    unfolding runs_def by (auto simp: run_step_def elim!: successively_mono split: if_splits)
  moreover have "transp (\<lambda>x y. cmp (fst x) (fst y) \<le> 0)"
    by (auto intro!: transpI intro: cmp_le_trans)
  ultimately show ?thesis using successively_conv_sorted_wrt by blast
qed

lemma runs_leaders_sorted:
  assumes "runs cmp ldr xs"
  shows "sorted_wrt (\<lambda>x y. cmp (fst x) (fst y) < 0) (filter ldr xs)"
  using assms
proof (induction xs rule: rev_induct)
  case (snoc z xs)
  show ?case
  proof (cases "ldr z \<and> xs \<noteq> []")
    case True
    with snoc.prems have l: "cmp (fst (last xs)) (fst z) < 0" "runs cmp ldr xs"
      by (auto simp: runs_append run_step_def)
    have "cmp (fst y) (fst (last xs)) \<le> 0" if "y \<in> set xs" for y
      using runs_sorted [OF l(2)] that True
      by (cases xs rule: rev_cases) (auto simp: sorted_wrt_append)
    then have "cmp (fst y) (fst z) < 0" if "y \<in> set xs" for y
      using cmp_le_less l(1) that by blast
    with snoc l show ?thesis by (auto simp: sorted_wrt_append)
  next
    case False
    with snoc show ?thesis by (cases "ldr z") (auto simp: runs_append)
  qed
qed simp

lemma find_rec_ok:
  assumes "t \<noteq> Null" and "sorted_wrt (\<lambda>x y. cmp (fst x) (fst y) < 0) (inorder (plug p t))"
    and "\<forall>x\<in>set (pre p). cmp (fst x) k < 0" and "\<forall>x\<in>set (post p). cmp k (fst x) < 0"
  shows "\<exists>q l n b r. avl_find_rec cmp k p t = (q, Node l n b r, cmp k (fst n)) \<and>
    plug q (Node l n b r) = plug p t \<and>
    (\<forall>x\<in>set (pre q). cmp (fst x) k < 0) \<and> (\<forall>x\<in>set (post q). cmp k (fst x) < 0) \<and>
    (cmp k (fst n) < 0 \<longrightarrow> l = Null) \<and> (0 < cmp k (fst n) \<longrightarrow> r = Null)"
  using assms
proof (induction t arbitrary: p)
  case (Node l n b r)
  have s: "sorted_wrt (\<lambda>x y. cmp (fst x) (fst y) < 0) (pre p @ inorder l @ n # inorder r @ post p)"
    using Node.prems by (simp add: inorder_plug)
  consider "cmp k (fst n) < 0" "l \<noteq> Null" | "0 < cmp k (fst n)" "r \<noteq> Null"
    | "cmp k (fst n) < 0 \<longrightarrow> l = Null" "0 < cmp k (fst n) \<longrightarrow> r = Null" by blast
  then show ?case
  proof cases
    case 1
    have "cmp k (fst x) < 0" if "x \<in> set (n # inorder r)" for x
      using s 1 that by (auto simp: sorted_wrt_append intro: cmp_trans)
    then have "\<forall>x\<in>set (post (FL n b r # p)). cmp k (fst x) < 0" using Node.prems by auto
    with Node.IH(1) [of "FL n b r # p"] 1 Node.prems show ?thesis by simp
  next
    case 2
    have "cmp (fst x) k < 0" if "x \<in> set (inorder l @ [n])" for x
      using s 2 that by (auto simp: sorted_wrt_append cmp_pos intro: cmp_trans)
    then have "\<forall>x\<in>set (pre (FR l n b # p)). cmp (fst x) k < 0" using Node.prems by auto
    with Node.IH(2) [of "FR l n b # p"] 2 Node.prems show ?thesis by simp
  next
    case 3
    then have "avl_find_rec cmp k p (Node l n b r) = (p, Node l n b r, cmp k (fst n))"
      by (simp add: Let_def)
    with 3 Node.prems show ?thesis by blast
  qed
qed simp

lemma ok_split:
  assumes ok: "avl_ok cmp t" and n: "n \<in> set (list_head t)" "leader t n"
  obtains A D B where "list_head t = A @ n # D @ B"
    and "\<forall>x\<in>set A. cmp (fst x) (fst n) < 0"
    and "\<forall>x\<in>set D. \<not> leader t x \<and> fst x = fst n"
    and "\<forall>x\<in>set B. cmp (fst n) (fst x) < 0"
    and "B = [] \<or> leader t (hd B)"
    and "D = takeWhile (\<lambda>x. \<not> leader t x) (after n (list_head t))"
proof -
  from n obtain A C where AC: "list_head t = A @ n # C" "n \<notin> set A" by (metis split_list_first)
  define D where "D = takeWhile (\<lambda>x. \<not> leader t x) C"
  define B where "B = dropWhile (\<lambda>x. \<not> leader t x) C"
  have C: "C = D @ B" by (simp add: D_def B_def)
  have r: "runs cmp (leader t) (A @ n # D @ B)" using ok AC C by (simp add: avl_ok_def)
  note sorted = runs_sorted [OF r]
  have A: "cmp (fst x) (fst n) < 0" if "x \<in> set A" for x
  proof -
    have "cmp (fst x) (fst (last A)) \<le> 0"
      using sorted that by (cases A rule: rev_cases) (auto simp: sorted_wrt_append)
    moreover have "cmp (fst (last A)) (fst n) < 0" 
      using r n that by (auto simp: runs_append run_step_def split: if_splits)
    ultimately show ?thesis by (rule cmp_le_less)
  qed
  have D: "\<not> leader t x \<and> fst x = fst n" if "x \<in> set D" for x
  proof -
    have "successively (run_step cmp (leader t)) (n # C)"
      using r unfolding C runs_def by (simp add: successively_append_iff)
    from runs_followers [OF this] that show ?thesis
      unfolding D_def using set_takeWhileD [of x _ C] by blast
  qed
  have hdB: "B = [] \<or> leader t (hd B)" unfolding B_def using hd_dropWhile by blast
  have B: "cmp (fst n) (fst x) < 0" if "x \<in> set B" for x
  proof -
    have "runs cmp (leader t) ((A @ n # D) @ B)" using r by simp
    then have "cmp (fst (last (n # D))) (fst (hd B)) < 0"
      unfolding runs_append [of cmp "leader t" "A @ n # D" B] using hdB that by (auto simp: run_step_def split: if_splits)
    moreover have "fst (last (n # D)) = fst n" using D by auto
    moreover have "cmp (fst (hd B)) (fst x) \<le> 0"
      using sorted that by (cases B) (auto simp: sorted_wrt_append)
    ultimately show ?thesis by (metis cmp_less_le)
  qed
  have L: "list_head t = A @ n # D @ B" using AC C by simp
  have "D = takeWhile (\<lambda>x. \<not> leader t x) (after n (list_head t))"
    using AC by (simp add: after_append D_def)
  from that [OF L _ _ _ hdB this] A B D show thesis by blast
qed

text \<open>What \<open>avl_find_rec\<close> finds in a tree that satisfies the invariant, and where it is in the list.\<close>

lemma search_point:
  assumes ok: "avl_ok cmp t" and ne: "root t \<noteq> Null"
  obtains q l n b r A D B where
    "avl_find_rec cmp k [] (root t) = (q, Node l n b r, cmp k (fst n))"
    and "plug q (Node l n b r) = root t"
    and "cmp k (fst n) < 0 \<longrightarrow> l = Null" and "0 < cmp k (fst n) \<longrightarrow> r = Null"
    and "list_head t = A @ n # D @ B" and "n \<notin> set A"
    and "last_duplicate (leader t) n (after n (list_head t)) = last (n # D)"
    and "leader t n" and "\<forall>x\<in>set D. \<not> leader t x \<and> fst x = fst n" and "B = [] \<or> leader t (hd B)"
    and "\<forall>x\<in>set A. cmp (fst x) (fst n) < 0 \<and> cmp (fst x) k < 0"
    and "\<forall>x\<in>set B. cmp (fst n) (fst x) < 0 \<and> cmp k (fst x) < 0"
    and "filter (leader t) A = pre q @ inorder l" and "filter (leader t) B = inorder r @ post q"
proof -
  have ino: "inorder (root t) = filter (leader t) (list_head t)" and r: "runs cmp (leader t) (list_head t)"
    and d: "distinct (list_head t)"
    using ok by (auto simp: avl_ok_def)
  from find_rec_ok [of "root t" "[]" k] runs_leaders_sorted [OF r] ne ino obtain q l n b r where
    f: "avl_find_rec cmp k [] (root t) = (q, Node l n b r, cmp k (fst n))" "plug q (Node l n b r) = root t"
       "\<forall>x\<in>set (pre q). cmp (fst x) k < 0" "\<forall>x\<in>set (post q). cmp k (fst x) < 0"
       "cmp k (fst n) < 0 \<longrightarrow> l = Null" "0 < cmp k (fst n) \<longrightarrow> r = Null"
    by auto
  have ino': "filter (leader t) (list_head t) = (pre q @ inorder l) @ n # (inorder r @ post q)"
    using f(2) ino by (metis inorder_plug inorder.simps(2) append.assoc append_Cons)
  have "n \<in> set (filter (leader t) (list_head t))" unfolding ino' by simp
  then have n: "n \<in> set (list_head t)" "leader t n" by auto
  obtain A D B where AB: "list_head t = A @ n # D @ B" "\<forall>x\<in>set A. cmp (fst x) (fst n) < 0"
      "\<forall>x\<in>set D. \<not> leader t x \<and> fst x = fst n" "\<forall>x\<in>set B. cmp (fst n) (fst x) < 0"
      "B = [] \<or> leader t (hd B)" "D = takeWhile (\<lambda>x. \<not> leader t x) (after n (list_head t))"
    using ok_split [OF ok n] .
  have D: "filter (leader t) D = []" using AB(3) by (simp add: filter_empty_conv)
  have "distinct (filter (leader t) A @ n # filter (leader t) B)"
    using d AB(1) n(2) by auto
  moreover have "filter (leader t) A @ n # filter (leader t) B = (pre q @ inorder l) @ n # (inorder r @ post q)"
    using ino' n(2) D unfolding AB(1) by simp
  ultimately have AB': "filter (leader t) A = pre q @ inorder l" "filter (leader t) B = inorder r @ post q"
    by (metis distinct_split_unique)+
  have rA: "runs cmp (leader t) A" using r unfolding AB(1) by (simp only: runs_append)
  have A: "cmp (fst x) k < 0" if "x \<in> set A" for x
  proof (cases "cmp k (fst n) < 0")
    case True
    with runs_leader [OF rA that] AB'(1) f show ?thesis by auto
  next
    case False
    then show ?thesis using AB(2) that cmp_not_less cmp_less_le by blast
  qed
  have B: "cmp k (fst x) < 0" if "x \<in> set B" for x
  proof (cases "0 < cmp k (fst n)")
    case True
    have "runs cmp (leader t) B"
      using r AB(5) unfolding AB(1) by (auto simp: runs_def successively_append_iff successively_Cons)
    from runs_leader [OF this that] AB'(2) f True show ?thesis by auto
  next
    case False
    then have "cmp k (fst n) \<le> 0" by simp
    then show ?thesis using AB(4) that cmp_le_less by blast
  qed
  have "n \<notin> set A" using d AB(1) by simp
  moreover have "last_duplicate (leader t) n (after n (list_head t)) = last (n # D)"
    using AB(6) by (simp add: last_duplicate_eq)
  moreover have "\<forall>x\<in>set A. cmp (fst x) (fst n) < 0 \<and> cmp (fst x) k < 0"
    and "\<forall>x\<in>set B. cmp (fst n) (fst x) < 0 \<and> cmp k (fst x) < 0"
    using A B AB(2,4) by blast+
  ultimately show thesis
    using that [OF f(1,2,5,6) AB(1) _ _ n(2) AB(3,5) _ _ AB'] by metis
qed

lemma root_Null: "avl_ok cmp t \<Longrightarrow> root t = Null \<longleftrightarrow> list_head t = []"
proof -
  assume ok: "avl_ok cmp t"
  then have i: "inorder (root t) = filter (leader t) (list_head t)" by (simp add: avl_ok_def)
  show ?thesis
  proof
    assume "root t = Null"
    with i have "filter (leader t) (list_head t) = []" by simp
    moreover have "list_head t \<noteq> [] \<Longrightarrow> leader t (hd (list_head t))"
      using ok by (auto simp: avl_ok_def runs_def)
    ultimately show "list_head t = []" by (metis filter_empty_conv hd_in_set)
  qed (use i in auto)
qed

lemma find_split:
  "\<forall>x\<in>set A. \<not> P x \<Longrightarrow> P n \<Longrightarrow> List.find P (A @ n # B) = Some n"
  by (induction A) auto

lemma find_none: "\<forall>x\<in>set xs. \<not> P x \<Longrightarrow> List.find P xs = None"
  by (simp add: find_None_iff)

lemma find_ok:
  assumes ok: "avl_ok cmp t"
  shows "avl_find cmp t k = List.find (\<lambda>x. fst x = k) (list_head t)"
proof (cases "root t = Null")
  case True
  with root_Null [OF ok] show ?thesis by (simp add: avl_find_def)
next
  case False
  obtain q l n b r A D B where
    f: "avl_find_rec cmp k [] (root t) = (q, Node l n b r, cmp k (fst n))"
       "list_head t = A @ n # D @ B" "\<forall>x\<in>set D. \<not> leader t x \<and> fst x = fst n"
       "\<forall>x\<in>set A. cmp (fst x) (fst n) < 0 \<and> cmp (fst x) k < 0"
       "\<forall>x\<in>set B. cmp (fst n) (fst x) < 0 \<and> cmp k (fst x) < 0"
    using search_point [OF ok False, of k] by metis
  have A: "\<forall>x\<in>set A. fst x \<noteq> k" and B: "\<forall>x\<in>set B. fst x \<noteq> k" using f(4,5) by fastforce+
  show ?thesis
  proof (cases "fst n = k")
    case True
    with f(1) False show ?thesis unfolding f(2) avl_find_def using find_split [OF A True] by simp
  next
    case ne: False
    then have "\<forall>x\<in>set (A @ n # D @ B). fst x \<noteq> k" using A B f(3) by auto
    from find_none [OF this] ne False f(1) cmp_eq [of k "fst n"] show ?thesis
      unfolding f(2) avl_find_def by simp
  qed
qed

text \<open>The list a new leader or a new duplicate is put in keeps its runs.\<close>

lemma runs_insert_leader:
  assumes "runs cmp ldr (A @ B)" and "\<forall>x\<in>set A. cmp (fst x) (fst e) < 0" and "\<forall>x\<in>set B. cmp (fst e) (fst x) < 0"
    and "e \<notin> set (A @ B)"
  shows "runs cmp (ldr(e := True)) (A @ e # B)"
proof -
  have "runs cmp (ldr(e := True)) (A @ B)"
    using assms by (simp add: runs_fun_upd)
  moreover have "B \<noteq> [] \<Longrightarrow> A \<noteq> [] \<Longrightarrow> fst (last A) \<noteq> fst (hd B)"
    using cmp_trans [of "fst (last A)" "fst e" "fst (hd B)"] assms(2,3)
    by (metis cmp_refl hd_in_set last_in_set less_irrefl)
  ultimately show ?thesis
    using assms(2,3) by (cases B) (auto simp: runs_def successively_append_iff successively_Cons hd_append run_step_def
        split: if_splits)
qed

lemma runs_insert_dup:
  assumes "runs cmp ldr (A @ B)" and "A \<noteq> []" and "fst (last A) = fst e"
    and "\<forall>x\<in>set B. cmp (fst e) (fst x) < 0" and "e \<notin> set (A @ B)"
  shows "runs cmp (ldr(e := False)) (A @ e # B)"
proof -
  have "runs cmp (ldr(e := False)) (A @ B)"
    using assms by (simp add: runs_fun_upd)
  with assms show ?thesis
    by (cases B) (auto simp: runs_def successively_append_iff successively_Cons hd_append run_step_def
        split: if_splits)
qed

lemma ok_insert_leader:
  assumes "avl_ok cmp t" and "list_head t = A @ B" and "e \<notin> set (list_head t)"
    and "\<forall>x\<in>set A. cmp (fst x) (fst e) < 0" and "\<forall>x\<in>set B. cmp (fst e) (fst x) < 0"
    and "avl_bal rt" and "inorder rt = filter (leader t) A @ e # filter (leader t) B"
    and "list_head t' = A @ e # B" "root t' = rt" "leader t' = (leader t)(e := True)"
      "count t' = count t + 1" "allow_dups t' = allow_dups t"
  shows "inserted cmp t e (Some (0, t'))"
proof -
  have "runs cmp (leader t') (list_head t')"
    using runs_insert_leader [of "leader t" A B e] assms by (simp add: avl_ok_def)
  then have "avl_ok cmp t'" using assms by (auto simp: avl_ok_def filter_fun_upd list_all_iff)
  moreover have "\<forall>x\<in>set A. cmp (fst x) (fst e) \<le> 0" using assms(4) by force
  ultimately show ?thesis using assms unfolding inserted_def by blast
qed

lemma ok_insert_dup:
  assumes "avl_ok cmp t" and "list_head t = A @ B" and "e \<notin> set (list_head t)"
    and "A \<noteq> []" and "fst (last A) = fst e" and "\<forall>x\<in>set B. cmp (fst e) (fst x) < 0"
    and "list_head t' = A @ e # B" "root t' = root t" "leader t' = (leader t)(e := False)"
      "count t' = count t + 1" "allow_dups t' = allow_dups t" "allow_dups t"
  shows "inserted cmp t e (Some (0, t'))"
proof -
  have "runs cmp (leader t') (list_head t')"
    using runs_insert_dup [of "leader t" A B e] assms by (simp add: avl_ok_def)
  then have "avl_ok cmp t'" using assms by (auto simp: avl_ok_def filter_fun_upd)
  moreover have "\<forall>x\<in>set A. cmp (fst x) (fst e) \<le> 0"
    using runs_sorted [of "leader t" "A @ B"] assms(1,2,4,5)
    by (cases A rule: rev_cases) (auto simp: avl_ok_def sorted_wrt_append)
  ultimately show ?thesis using assms unfolding inserted_def by blast
qed

lemma insert_ok_new:
  assumes ok: "avl_ok cmp t" and k: "fst e \<notin> fst ` set (list_head t)"
  shows "inserted cmp t e (avl_insert cmp t e)"
proof (cases "root t = Null")
  case True
  with root_Null [OF ok] have "list_head t = []" by simp
  with True ok show ?thesis
    by (auto simp: inserted_def avl_insert_def avl_ok_def runs_def)
next
  case False
  obtain q l n b r A D B where
    f: "avl_find_rec cmp (fst e) [] (root t) = (q, Node l n b r, cmp (fst e) (fst n))"
       "plug q (Node l n b r) = root t"
       "cmp (fst e) (fst n) < 0 \<longrightarrow> l = Null" "0 < cmp (fst e) (fst n) \<longrightarrow> r = Null"
    and AB: "list_head t = A @ n # D @ B" "n \<notin> set A"
    and ld: "last_duplicate (leader t) n (after n (list_head t)) = last (n # D)"
    and n: "leader t n" and D: "\<forall>x\<in>set D. \<not> leader t x \<and> fst x = fst n" and hdB: "B = [] \<or> leader t (hd B)"
    and A: "\<forall>x\<in>set A. cmp (fst x) (fst n) < 0 \<and> cmp (fst x) (fst e) < 0"
    and B: "\<forall>x\<in>set B. cmp (fst n) (fst x) < 0 \<and> cmp (fst e) (fst x) < 0"
    and fil: "filter (leader t) A = pre q @ inorder l" "filter (leader t) B = inorder r @ post q"
    using search_point [OF ok False, of "fst e"] .
  have e: "e \<notin> set (list_head t)" and ne: "cmp (fst e) (fst n) \<noteq> 0"
    using k AB(1) cmp_eq [of "fst e" "fst n"] by auto
  have bal: "avl_bal (plug q (Node l n b r))" using ok f(2) by (simp add: avl_ok_def)
  have dist: "distinct (A @ n # D @ B)" using ok AB(1) by (simp add: avl_ok_def)
  have filD: "filter (leader t) D = []" using D by (simp add: filter_empty_conv)
  have ld': "last_duplicate ((leader t)(e := True)) n (after n (list_head t)) = last (n # D)"
    using last_duplicate_upd [of e "list_head t" "leader t" True n] ld e by simp
  show ?thesis
  proof (cases "cmp (fst e) (fst n) < 0")
    case True
    then have "l = Null" using f(3) by simp
    obtain rt where rt: "(if b = 1 then Some (plug q (Node (leaf e) n 0 r))
        else post_insert q (Node (leaf e) n (-1) r)) = Some rt" "avl_bal rt"
        "inorder rt = pre q @ e # n # inorder r @ post q"
      using insert_left_ok [of q n b r e] bal \<open>l = Null\<close> by auto
    have "b \<noteq> -1" using bal \<open>l = Null\<close> by (auto simp: avl_bal_plug)
    define t' where "t' = (avl_insert_before (t\<lparr>leader := (leader t)(e := True)\<rparr>) n e)\<lparr>root := rt\<rparr>"
    have ins: "avl_insert cmp t e = Some (0, t')"
      using False f(1) ne True rt(1) \<open>b \<noteq> -1\<close> \<open>l = Null\<close>
      by (auto simp: avl_insert_def t'_def Let_def split: if_splits)
    have lst: "list_head t' = A @ e # n # D @ B"
      using AB by (simp add: t'_def avl_insert_before_def insert_before_append)
    have right: "\<forall>x\<in>set (n # D @ B). cmp (fst e) (fst x) < 0" using True B D by force
    show ?thesis unfolding ins
      by (rule ok_insert_leader [OF ok AB(1) e _ right rt(2) _ lst])
        (use A n rt(3) fil filD \<open>l = Null\<close> in \<open>auto simp: t'_def avl_insert_before_def\<close>)
  next
    case False
    with ne have gt: "0 < cmp (fst e) (fst n)" by simp
    then have "r = Null" using f(4) by simp
    obtain rt where rt: "(if b = -1 then Some (plug q (Node l n 0 (leaf e)))
        else post_insert q (Node l n 1 (leaf e))) = Some rt" "avl_bal rt"
        "inorder rt = pre q @ inorder l @ n # e # post q"
      using insert_right_ok [of q l n b e] bal \<open>r = Null\<close> by auto
    have "b \<noteq> 1" using bal \<open>r = Null\<close> by (auto simp: avl_bal_plug)
    define t' where "t' = (avl_insert_after (t\<lparr>leader := (leader t)(e := True)\<rparr>) (last (n # D)) e)\<lparr>root := rt\<rparr>"
    have ins: "avl_insert cmp t e = Some (0, t')"
      using \<open>root t \<noteq> Null\<close> f(1) ne gt rt(1) \<open>b \<noteq> 1\<close> \<open>r = Null\<close> ld'
      by (auto simp: avl_insert_def t'_def Let_def split: if_splits)
    have split: "list_head t = (A @ n # D) @ B" using AB(1) by simp
    have lst: "list_head t' = (A @ n # D) @ e # B"
      using insert_after_last [OF dist, of e] by (simp add: t'_def avl_insert_after_def AB(1))
    have left: "\<forall>x\<in>set (A @ n # D). cmp (fst x) (fst e) < 0" using gt A D cmp_pos by force
    show ?thesis unfolding ins
      by (rule ok_insert_leader [OF ok split e left _ rt(2) _ lst])
        (use B n rt(3) fil filD \<open>r = Null\<close> in \<open>auto simp: t'_def avl_insert_after_def\<close>)
  qed
qed

lemma insert_ok_dup:
  assumes ok: "avl_ok cmp t" and k: "fst e \<in> fst ` set (list_head t)" and e: "e \<notin> set (list_head t)"
  shows "if allow_dups t then inserted cmp t e (avl_insert cmp t e)
    else avl_insert cmp t e = Some (-1, t\<lparr>leader := (leader t)(e := True)\<rparr>)"
proof -
  have "root t \<noteq> Null" using root_Null [OF ok] k by auto
  obtain q l n b r A D B where
    f: "avl_find_rec cmp (fst e) [] (root t) = (q, Node l n b r, cmp (fst e) (fst n))"
       "plug q (Node l n b r) = root t"
       "cmp (fst e) (fst n) < 0 \<longrightarrow> l = Null" "0 < cmp (fst e) (fst n) \<longrightarrow> r = Null"
    and AB: "list_head t = A @ n # D @ B" "n \<notin> set A"
    and ld: "last_duplicate (leader t) n (after n (list_head t)) = last (n # D)"
    and n: "leader t n" and D: "\<forall>x\<in>set D. \<not> leader t x \<and> fst x = fst n" and hdB: "B = [] \<or> leader t (hd B)"
    and A: "\<forall>x\<in>set A. cmp (fst x) (fst n) < 0 \<and> cmp (fst x) (fst e) < 0"
    and B: "\<forall>x\<in>set B. cmp (fst n) (fst x) < 0 \<and> cmp (fst e) (fst x) < 0"
    and fil: "filter (leader t) A = pre q @ inorder l" "filter (leader t) B = inorder r @ post q"
    using search_point [OF ok \<open>root t \<noteq> Null\<close>, of "fst e"] .
  have eq: "fst n = fst e"
  proof -
    from k obtain x where x: "x \<in> set (A @ n # D @ B)" "fst x = fst e"
      unfolding AB(1) by (metis imageE)
    have "x \<notin> set A" "x \<notin> set B" using A B x(2) by fastforce+
    with x D show ?thesis by auto
  qed
  have ld': "last_duplicate ((leader t)(e := True)) n (after n (list_head t)) = last (n # D)"
    using last_duplicate_upd [of e "list_head t" "leader t" True n] ld e by simp
  have dist: "distinct (A @ n # D @ B)" using ok AB(1) by (simp add: avl_ok_def)
  define t' where "t' = avl_insert_after (t\<lparr>leader := (leader t)(e := False)\<rparr>) (last (n # D)) e"
  have ins: "avl_insert cmp t e = (if allow_dups t then Some (0, t')
      else Some (-1, t\<lparr>leader := (leader t)(e := True)\<rparr>))"
    using \<open>root t \<noteq> Null\<close> f(1) ld' eq by (simp add: avl_insert_def t'_def Let_def del: last.simps)
  have split: "list_head t = (A @ n # D) @ B" using AB(1) by simp
  have lst: "list_head t' = (A @ n # D) @ e # B"
    using insert_after_last [OF dist, of e] by (simp add: t'_def avl_insert_after_def AB(1))
  have "inserted cmp t e (Some (0, t'))" if "allow_dups t"
    by (rule ok_insert_dup [OF ok split e _ _ _ lst])
      (use B D eq that in \<open>auto simp: t'_def avl_insert_after_def\<close>)
  then show ?thesis by (simp add: ins)
qed

lemma ok_delete:
  assumes "avl_ok cmp t" and "list_head t = A @ e # B" and "avl_bal rt"
    and "inorder rt = filter ldr (A @ B)" and "runs cmp ldr (A @ B)" and "allow_dups t \<or> list_all ldr (A @ B)"
  shows "avl_ok cmp (avl_remove (t\<lparr>leader := ldr, root := rt\<rparr>) e)"
  using assms by (auto simp: avl_ok_def avl_remove_def remove1_append)

lemma delete_root_ok:
  assumes ok: "avl_ok cmp t" and L: "list_head t = A @ e # B" and e: "leader t e"
    and hd: "B = [] \<or> leader t (hd B)"
  shows "\<exists>p u rt. locate e [] (root t) = Some (p, u) \<and> avl_delete_worker p u = Some rt \<and>
    avl_ok cmp (avl_remove (t\<lparr>root := rt\<rparr>) e)"
proof -
  have bal: "avl_bal (root t)" and ino: "inorder (root t) = filter (leader t) A @ e # filter (leader t) B"
    and d: "distinct (A @ e # B)" and r: "runs cmp (leader t) (A @ e # B)"
    using ok e unfolding avl_ok_def L by auto
  have "e \<in> set (inorder (root t))" unfolding ino by simp
  then have "locate e [] (root t) \<noteq> None" unfolding locate_None by blast
  then obtain p u where lo: "locate e [] (root t) = Some (p, u)" by auto
  from locate_ok [OF this] obtain l b r where u: "u = Node l e b r" "plug p u = root t" by auto
  have ino': "inorder (root t) = (pre p @ inorder l) @ e # (inorder r @ post p)"
    using arg_cong [OF u(2), of inorder] by (simp add: u(1) inorder_plug)
  have "distinct (filter (leader t) A @ e # filter (leader t) B)" using d by auto
  then have fil: "filter (leader t) A = pre p @ inorder l" "filter (leader t) B = inorder r @ post p"
    using distinct_split_unique ino ino' by metis+
  have "avl_bal (plug p (Node l e b r))" "distinct (inorder (plug p (Node l e b r)))"
    using bal u d ino by auto
  from avl_delete_worker_ok [OF this] obtain rt where
    rt: "avl_delete_worker p u = Some rt" "avl_bal rt" "inorder rt = filter (leader t) (A @ B)"
    using fil u(1) by auto
  have "runs cmp (leader t) (A @ B)"
    using r hd e
    by (cases B) (auto simp: runs_def successively_append_iff successively_Cons run_step_def hd_append
        intro: cmp_trans split: if_splits)
  moreover have "allow_dups t \<or> list_all (leader t) (A @ B)" using ok L by (auto simp: avl_ok_def)
  ultimately have "avl_ok cmp (avl_remove (t\<lparr>leader := leader t, root := rt\<rparr>) e)"
    using ok_delete [OF ok L rt(2,3)] by blast
  with lo rt(1) show ?thesis by auto
qed

lemma delete_ok:
  assumes ok: "avl_ok cmp t" and e: "e \<in> set (list_head t)"
  shows "\<exists>t'. avl_delete t e = Some t' \<and> avl_ok cmp t' \<and>
    list_head t' = remove1 e (list_head t) \<and> allow_dups t' = allow_dups t"
proof -
  from e obtain A B where L: "list_head t = A @ e # B" and eA: "e \<notin> set A" by (metis split_list_first)
  have bal: "avl_bal (root t)" and ino: "inorder (root t) = filter (leader t) (A @ e # B)"
    and d: "distinct (A @ e # B)" and r: "runs cmp (leader t) (A @ e # B)"
    using ok unfolding avl_ok_def L by auto
  have aft: "after e (list_head t) = B" using eA by (simp add: L after_append)
  consider "\<not> leader t e" | "leader t e" "B = [] \<or> leader t (hd B)"
    | x C where "leader t e" "B = x # C" "\<not> leader t x"
    by (cases B) auto
  then show ?thesis
  proof cases
    case 1
    have "runs cmp (leader t) (A @ B)"
      using r 1 by (cases B) (auto simp: runs_def successively_append_iff successively_Cons run_step_def
          hd_append split: if_splits)
    moreover have "allow_dups t \<or> list_all (leader t) (A @ B)" using ok L by (auto simp: avl_ok_def)
    ultimately have "avl_ok cmp (avl_remove (t\<lparr>leader := leader t, root := root t\<rparr>) e)"
      using ok_delete [OF ok L bal, of "leader t"] ino 1 by simp
    with 1 show ?thesis by (auto simp: avl_delete_def avl_remove_def)
  next
    case 2
    with delete_root_ok [OF ok L 2] show ?thesis
      by (auto simp: avl_delete_def aft split: list.splits) (auto simp: avl_remove_def)
  next
    case 3
    have dup: "allow_dups t" using ok L 3 by (auto simp: avl_ok_def)
    have "runs cmp ((leader t)(x := True)) (A @ B)"
    proof -
      have x: "x \<notin> set A" "x \<notin> set C" using d 3(2) by auto
      have s: "successively (run_step cmp (leader t)) A" "successively (run_step cmp (leader t)) C"
        "A \<noteq> [] \<Longrightarrow> run_step cmp (leader t) (last A) e" "run_step cmp (leader t) e x"
        "C \<noteq> [] \<Longrightarrow> run_step cmp (leader t) x (hd C)" "A \<noteq> [] \<Longrightarrow> leader t (hd A)"
        using r unfolding 3(2) by (auto simp: runs_def successively_append_iff successively_Cons)
      then have "fst x = fst e" using 3 by (simp add: run_step_def)
      have "A \<noteq> [] \<Longrightarrow> run_step cmp ((leader t)(x := True)) (last A) x"
        using s(3) 3 \<open>fst x = fst e\<close> by (simp add: run_step_def)
      moreover have "C \<noteq> [] \<Longrightarrow> run_step cmp ((leader t)(x := True)) x (hd C)"
        using s(5) x by (auto simp: run_step_def)
      ultimately show ?thesis using s(1,2,6) x unfolding 3(2)
        by (auto simp: runs_def successively_append_iff successively_Cons successively_fun_upd hd_append)
    qed
    moreover have "inorder (subst_node e x (root t)) = filter ((leader t)(x := True)) (A @ B)"
      using d 3 ino map_subst_distinct [of "filter (leader t) A" e "filter (leader t) C" x]
      by (auto simp: inorder_subst_node filter_fun_upd)
    ultimately have "avl_ok cmp (avl_remove (t\<lparr>leader := (leader t)(x := True), root := subst_node e x (root t)\<rparr>) e)"
      using ok_delete [OF ok L, of "subst_node e x (root t)"] bal dup by simp
    with 3 dup show ?thesis by (auto simp: avl_delete_def aft avl_remove_def)
  qed
qed

lemma list_cut:
  assumes "avl_ok cmp t" and "\<And>a b. cmp a b \<le> 0 \<Longrightarrow> P b \<Longrightarrow> P a"
  shows "list_head t = filter (\<lambda>x. P (fst x)) (list_head t) @ filter (\<lambda>x. \<not> P (fst x)) (list_head t)"
proof -
  have "sorted_wrt (\<lambda>x y. cmp (fst x) (fst y) \<le> 0) (list_head t)"
    using assms(1) runs_sorted by (auto simp: avl_ok_def)
  from takeWhile_filter_sorted [OF this, of "\<lambda>x. P (fst x)"] assms(2) show ?thesis
    by (metis takeWhile_dropWhile_id)
qed

lemma search_node:
  assumes "avl_ok cmp t" and "list_head t \<noteq> []"
  obtains q u n where "root t \<noteq> Null" "avl_find_rec cmp k [] (root t) = (q, u, cmp k (fst n))"
    "node_of u = Some n" "n \<in> set (list_head t)"
proof -
  from assms root_Null have ne: "root t \<noteq> Null" by blast
  obtain q l n b r A D B where
    "avl_find_rec cmp k [] (root t) = (q, Node l n b r, cmp k (fst n))" "list_head t = A @ n # D @ B"
    using search_point [OF assms(1) ne, of k] by metis
  with ne that [of q "Node l n b r" n] show thesis by simp
qed

lemma find_lessequal_ok:
  assumes ok: "avl_ok cmp t"
  shows "avl_find_lessequal cmp t k =
    (let xs = filter (\<lambda>x. cmp (fst x) k \<le> 0) (list_head t) in if xs = [] then None else Some (last xs))"
proof (cases "list_head t = []")
  case True
  with root_Null [OF ok] show ?thesis by (simp add: avl_find_lessequal_def)
next
  case ne: False
  define F where "F = filter (\<lambda>x. cmp (fst x) k \<le> 0) (list_head t)"
  define G where "G = filter (\<lambda>x. \<not> cmp (fst x) k \<le> 0) (list_head t)"
  have L: "list_head t = F @ G" unfolding F_def G_def by (rule list_cut [OF ok]) (rule cmp_le_trans)
  have d: "distinct (F @ G)" using ok L by (simp add: avl_ok_def)
  have F: "0 \<le> cmp k (fst x)" if "x \<in> set F" for x
    using that cmp_not_less [of k "fst x"] by (auto simp: F_def)
  have G: "cmp k (fst x) < 0" if "x \<in> set G" for x
    using that cmp_not_less [of k "fst x"] by (auto simp: G_def)
  obtain q u n where n: "root t \<noteq> Null" "avl_find_rec cmp k [] (root t) = (q, u, cmp k (fst n))"
    "node_of u = Some n" "n \<in> set (list_head t)"
    using search_node [OF ok ne] .
  have "\<forall>x\<in>set F. 0 \<le> cmp k (fst x)" "\<forall>x\<in>set G. cmp k (fst x) < 0" using F G by blast+
  from le_walk [of F G n cmp k] d this n show ?thesis
    unfolding F_def [symmetric] by (simp add: avl_find_lessequal_def L)
qed

lemma find_greaterequal_ok:
  assumes ok: "avl_ok cmp t"
  shows "avl_find_greaterequal cmp t k = List.find (\<lambda>x. cmp k (fst x) \<le> 0) (list_head t)"
proof (cases "list_head t = []")
  case True
  with root_Null [OF ok] show ?thesis by (simp add: avl_find_greaterequal_def)
next
  case ne: False
  define F where "F = filter (\<lambda>x. cmp (fst x) k < 0) (list_head t)"
  define G where "G = filter (\<lambda>x. \<not> cmp (fst x) k < 0) (list_head t)"
  have L: "list_head t = F @ G" unfolding F_def G_def by (rule list_cut [OF ok]) (rule cmp_le_less)
  have d: "distinct (F @ G)" using ok L by (simp add: avl_ok_def)
  have F: "\<forall>x\<in>set F. 0 < cmp k (fst x)" by (auto simp: F_def cmp_pos)
  have G: "\<forall>x\<in>set G. cmp k (fst x) \<le> 0" by (auto simp: G_def cmp_not_less)
  obtain q u n where n: "root t \<noteq> Null" "avl_find_rec cmp k [] (root t) = (q, u, cmp k (fst n))"
    "node_of u = Some n" "n \<in> set (list_head t)"
    using search_node [OF ok ne] .
  have "List.find (\<lambda>x. cmp k (fst x) \<le> 0) F = None" using F by (auto simp: find_None_iff)
  then have "List.find (\<lambda>x. cmp k (fst x) \<le> 0) (F @ G) = (if G = [] then None else Some (hd G))"
    using G by (cases G) (auto simp: find_append)
  with ge_walk [of F G n cmp k] d F G n show ?thesis by (simp add: avl_find_greaterequal_def L)
qed

end


interpretation strcmp_order: avl_order avl_strcmp
proof (unfold_locales, goal_cases)
  case (1 a b)
  show ?case by (simp add: avl_strcmp_def)
next
  case (2 a b)
  show ?case using strcmp_swap [of a b] by (simp add: avl_strcmp_def)
next
  case (3 a b c)
  then show ?case unfolding avl_strcmp_def by (rule strcmp_trans)
qed

section \<open>The ordered multimap that a tree implements\<close>

text \<open>
  The abstract tree is the list of its entries in key order. A client may insert an entry that is
  not in it, and delete one that is; \<open>None\<close> is a breach of that contract.
\<close>

definition mm_insert ::
    "'k avl_tree_comp \<Rightarrow> bool \<Rightarrow> 'k \<times> 'n \<Rightarrow> ('k \<times> 'n) list \<Rightarrow> int \<times> ('k \<times> 'n) list" where
  "mm_insert cmp dups e xs =
     (if \<not> dups \<and> fst e \<in> fst ` set xs then (-1, xs)
      else (0, filter (\<lambda>x. cmp (fst x) (fst e) \<le> 0) xs @ e # filter (\<lambda>x. 0 < cmp (fst x) (fst e)) xs))"

fun mm_run ::
    "'k avl_tree_comp \<Rightarrow> bool \<Rightarrow> ('k \<times> 'n) avl_op list \<Rightarrow> ('k \<times> 'n) list \<Rightarrow> (int list \<times> ('k \<times> 'n) list) option" where
  "mm_run cmp dups [] xs = Some ([], xs)"
| "mm_run cmp dups (Ins e # ops) xs =
     (if e \<in> set xs then None
      else case mm_insert cmp dups e xs of
        (rc, xs) \<Rightarrow> map_option (\<lambda>(rcs, ys). (rc # rcs, ys)) (mm_run cmp dups ops xs))"
| "mm_run cmp dups (Del e # ops) xs =
     (if e \<in> set xs then mm_run cmp dups ops (remove1 e xs) else None)"

lemma avl_ok_init: "avl_ok cmp (avl_init dups)"
  by (simp add: avl_ok_def avl_init_def)

lemma avl_ok_leader_upd: "avl_ok cmp t \<Longrightarrow> e \<notin> set (list_head t) \<Longrightarrow> avl_ok cmp (t\<lparr>leader := (leader t)(e := v)\<rparr>)"
  by (auto simp: avl_ok_def filter_fun_upd runs_fun_upd list_all_iff)

context avl_order
begin

lemma inserted_filter:
  assumes "inserted cmp t e res"
  shows "\<exists>t'. res = Some (0, t') \<and> avl_ok cmp t' \<and> allow_dups t' = allow_dups t \<and>
    list_head t' = filter (\<lambda>x. cmp (fst x) (fst e) \<le> 0) (list_head t) @ e # filter (\<lambda>x. 0 < cmp (fst x) (fst e)) (list_head t)"
proof -
  from assms obtain t' A B where t: "res = Some (0, t')" "avl_ok cmp t'" "list_head t = A @ B"
    "list_head t' = A @ e # B" "allow_dups t' = allow_dups t"
    "\<forall>x\<in>set A. cmp (fst x) (fst e) \<le> 0" "\<forall>x\<in>set B. cmp (fst e) (fst x) < 0"
    unfolding inserted_def by auto
  have "0 < cmp (fst x) (fst e)" if "x \<in> set B" for x using t(7) that cmp_swap by blast
  then have "filter (\<lambda>x. cmp (fst x) (fst e) \<le> 0) (A @ B) = A" "filter (\<lambda>x. 0 < cmp (fst x) (fst e)) (A @ B) = B"
    using t(6) by (auto simp: filter_id_conv filter_empty_conv not_le not_less)
  with t show ?thesis by auto
qed

lemma insert_refines:
  assumes ok: "avl_ok cmp t" and e: "e \<notin> set (list_head t)"
  shows "\<exists>rc t'. avl_insert cmp t e = Some (rc, t') \<and> avl_ok cmp t' \<and> allow_dups t' = allow_dups t \<and>
    (rc, list_head t') = mm_insert cmp (allow_dups t) e (list_head t)"
proof (cases "fst e \<in> fst ` set (list_head t)")
  case False
  from inserted_filter [OF insert_ok_new [OF ok False]] False show ?thesis by (auto simp: mm_insert_def)
next
  case True
  show ?thesis
  proof (cases "allow_dups t")
    case dup: True
    with insert_ok_dup [OF ok True e] have "inserted cmp t e (avl_insert cmp t e)" by simp
    from inserted_filter [OF this] dup show ?thesis by (auto simp: mm_insert_def)
  next
    case False
    with insert_ok_dup [OF ok True e] True avl_ok_leader_upd [OF ok e, of True] show ?thesis
      by (auto simp: mm_insert_def)
  qed
qed

lemma run_refines:
  assumes "avl_ok cmp t" and "mm_run cmp (allow_dups t) ops (list_head t) = Some (rcs, ys)"
  shows "\<exists>t'. avl_run cmp ops t = Some (rcs, t') \<and> avl_ok cmp t' \<and> list_head t' = ys"
  using assms
proof (induction ops arbitrary: t rcs)
  case (Cons op ops)
  show ?case
  proof (cases op)
    case (Ins e)
    with Cons.prems have e: "e \<notin> set (list_head t)" by (auto split: if_splits)
    from insert_refines [OF Cons.prems(1) e] obtain rc t' where
      t': "avl_insert cmp t e = Some (rc, t')" "avl_ok cmp t'" "allow_dups t' = allow_dups t"
        "mm_insert cmp (allow_dups t) e (list_head t) = (rc, list_head t')"
      by auto
    with Cons.prems(2) Ins e obtain rcs' where "rcs = rc # rcs'"
      "mm_run cmp (allow_dups t') ops (list_head t') = Some (rcs', ys)"
      by auto
    with Cons.IH [OF t'(2)] Ins t' show ?thesis by auto
  next
    case (Del e)
    with Cons.prems have "e \<in> set (list_head t)" by (auto split: if_splits)
    with delete_ok [OF Cons.prems(1)] Cons Del show ?thesis by fastforce
  qed
qed simp

end


section \<open>Properties\<close>

text \<open>
  C22: For every comparator of a linear order and every sequence of insertions and deletions that
  respects the contract (insert what is absent, delete what is present), starting from
  \<open>avl_init\<close>, no operation follows a \<open>NULL\<close> pointer, the return codes and the in-order list of the
  tree are those of the ordered multimap, and the resulting tree is balanced and satisfies the
  invariant.
\<close>

theorem avl_refines_multimap:
  assumes "avl_order cmp" and "mm_run cmp dups ops [] = Some (rcs, ys)"
  shows "\<exists>t. avl_run cmp ops (avl_init dups) = Some (rcs, t) \<and> avl_ok cmp t \<and> list_head t = ys"
  using avl_order.run_refines [OF assms(1) avl_ok_init [of cmp dups], of ops rcs ys] assms(2)
  by (simp add: avl_init_def)

text \<open>A sequence with duplicate keys and a deletion of the leader of a run.\<close>

theorem avl_refines_multimap_witness:
  "\<exists>t. avl_run avl_strcmp
      [Ins ([2], 0::nat), Ins ([1], 1), Ins ([2], 2), Ins ([3], 3), Del ([2], 0)] (avl_init True) =
      Some ([0, 0, 0, 0], t) \<and> avl_ok avl_strcmp t \<and> list_head t = [([1], 1), ([2], 2), ([3], 3)]"
  by (rule avl_refines_multimap [OF strcmp_order.avl_order_axioms])
    (simp add: mm_insert_def avl_strcmp_def)

text \<open>
  \<open>avl_find\<close> returns the first entry of the list with the key (the leader of its run), and
  \<open>NULL\<close> exactly when no entry has it.
\<close>

theorem avl_find_correct:
  assumes "avl_order cmp" and "avl_ok cmp t"
  shows "avl_find cmp t k = List.find (\<lambda>x. fst x = k) (list_head t)"
  using avl_order.find_ok [OF assms] .

definition sample_tree :: "(cstring, nat) avl_tree" where
  "sample_tree =
     \<lparr>list_head = [([1], 1), ([2], 2), ([2], 5), ([3], 3)],
      root = Node (leaf ([1], 1)) ([2], 2) 0 (leaf ([3], 3)), count = 4, allow_dups = True,
      leader = (\<lambda>x. x \<noteq> ([2], 5))\<rparr>"

lemma sample_tree_ok: "avl_ok avl_strcmp sample_tree"
  by (simp add: avl_ok_def sample_tree_def runs_def run_step_def avl_strcmp_def)

theorem avl_find_correct_witness: "avl_find avl_strcmp sample_tree [2] = Some ([2], 2)"
  using avl_find_correct [OF strcmp_order.avl_order_axioms sample_tree_ok, of "[2]"]
  by (simp add: sample_tree_def)

text \<open>
  \<open>avl_find_lessequal\<close> returns the last entry of the list whose key is not greater than the one
  given, and \<open>NULL\<close> exactly when there is none.
\<close>

theorem avl_find_lessequal_correct:
  assumes "avl_order cmp" and "avl_ok cmp t"
  shows "avl_find_lessequal cmp t k =
    (let xs = filter (\<lambda>x. cmp (fst x) k \<le> 0) (list_head t) in if xs = [] then None else Some (last xs))"
  using avl_order.find_lessequal_ok [OF assms] .

theorem avl_find_lessequal_correct_witness:
  "avl_find_lessequal avl_strcmp sample_tree [2, 7] = Some ([2], 5)"
  using avl_find_lessequal_correct [OF strcmp_order.avl_order_axioms sample_tree_ok, of "[2, 7]"]
  by (simp add: sample_tree_def avl_strcmp_def)

text \<open>
  \<open>avl_find_greaterequal\<close> returns the first entry of the list whose key is not less than the one
  given, and \<open>NULL\<close> exactly when there is none.
\<close>

theorem avl_find_greaterequal_correct:
  assumes "avl_order cmp" and "avl_ok cmp t"
  shows "avl_find_greaterequal cmp t k = List.find (\<lambda>x. cmp k (fst x) \<le> 0) (list_head t)"
  using avl_order.find_greaterequal_ok [OF assms] .

theorem avl_find_greaterequal_correct_witness:
  "avl_find_greaterequal avl_strcmp sample_tree [1, 7] = Some ([2], 2)"
  using avl_find_greaterequal_correct [OF strcmp_order.avl_order_axioms sample_tree_ok, of "[1, 7]"]
  by (simp add: sample_tree_def avl_strcmp_def)

lemma avl_ok_height:
  assumes "avl_ok cmp t"
  shows "count t = length (list_head t)" and "2 ^ (ht (root t) div 2) \<le> length (list_head t) + 1"
proof -
  show c: "count t = length (list_head t)" using assms by (simp add: avl_ok_def)
  have "2 ^ (ht (root t) div 2) \<le> length (filter (leader t) (list_head t)) + 1"
    using avl_bal_height [of "root t"] assms by (simp add: avl_ok_def)
  also have "\<dots> \<le> length (list_head t) + 1" by simp
  finally show "2 ^ (ht (root t) div 2) \<le> length (list_head t) + 1" .
qed

text \<open>
  C23: The tree that any sequence of insertions and deletions leaves, when it respects the contract and starts from \<open>avl_init\<close>, has a height
  logarithmic in the number of its entries, which \<open>count\<close> holds: \<open>2 ^ (height div 2) \<le> entries + 1\<close>. So the recursion of \<open>avl_find_rec\<close> and
  the climbs of the rebalancing are logarithmic, however the insertions and deletions are mixed.
\<close>

theorem avl_height_bound:
  assumes "avl_order cmp" and "mm_run cmp dups ops [] = Some (rcs, ys)"
  shows "\<exists>t. avl_run cmp ops (avl_init dups) = Some (rcs, t) \<and> count t = length ys \<and> 2 ^ (ht (root t) div 2) \<le> length ys + 1"
  using avl_order.run_refines [OF assms(1) avl_ok_init [of cmp dups], of ops rcs ys] assms(2) avl_ok_height
  by (fastforce simp: avl_init_def)

text \<open>Seven keys in ascending order, of which one is deleted again: the height is at most 5, and the tree is not a list.\<close>

theorem avl_height_bound_witness:
  "\<exists>t. avl_run avl_strcmp (map (\<lambda>k. Ins ([k], 0::nat)) [1, 2, 3, 4, 5, 6, 7] @ [Del ([4], 0)]) (avl_init False) =
      Some ([0, 0, 0, 0, 0, 0, 0], t) \<and> count t = 6 \<and> (2::nat) ^ (ht (root t) div 2) \<le> 7"
proof -
  let ?ops = "map (\<lambda>k. Ins ([k], 0::nat)) [1, 2, 3, 4, 5, 6, 7] @ [Del ([4], 0)]"
  let ?ys = "map (\<lambda>k. ([k], 0::nat)) [1, 2, 3, 5, 6, 7] :: (cstring \<times> nat) list"
  have run: "mm_run avl_strcmp False ?ops [] = Some ([0, 0, 0, 0, 0, 0, 0], ?ys)"
    by (simp add: mm_insert_def avl_strcmp_def)
  have l: "length ?ys = 6" "length ?ys + 1 = 7" by simp_all
  from avl_height_bound [OF strcmp_order.avl_order_axioms run] show ?thesis unfolding l(2) unfolding l(1) .
qed

end
