(* ===== verification/Blob.thy ===== *)
theory Blob
  imports Prelude
begin

text \<open>
  Binary attributes: \<open>src/libubox/blob.h\<close> and \<open>src/libubox/blob.c\<close>.

  An attribute is a position \<open>p\<close> in a block of bytes \<open>m\<close>: a big-endian word at \<open>p\<close> holds an extension
  flag (1 bit), the id (7 bits) and the length with the header (24 bits), and the payload follows.
  A \<open>struct blob_buf\<close> is the block (\<open>buflen\<close> is its length) and the offset of \<open>head\<close>, \<open>None\<close> for the
  \<open>NULL\<close> a failed \<open>blob_nest_start\<close> leaves. The pointer \<open>grow\<close> is not a field: every buffer grows by
  \<open>blob_buffer_grow\<close>, which \<open>blob_buf_init\<close> installs where there is none, and no code of the repository
  installs another. Lengths are \<open>u32\<close> with the wrap-around of the C code;
  \<open>alloc n\<close> says whether \<open>malloc\<close> or \<open>realloc\<close> of \<open>n\<close> bytes succeeds. The result \<open>None\<close> of an operation
  is undefined behaviour (an access outside the block, signed overflow of a size); a \<open>NULL\<close> the C
  function returns is a value.

  The lemmas show that the writers never leave the block and append the encoding of an attribute,
  that the iteration and \<open>blob_parse\<close> stay inside the attribute they walk and terminate on any
  input, and that what was put is what is parsed.
\<close>

section \<open>Attribute headers\<close>

definition BLOB_COOKIE :: int where
  "BLOB_COOKIE = 0x01234567"

definition hdr_id :: "u32 \<Rightarrow> nat" where
  "hdr_id w = unat (drop_bit 24 (w AND 0x7f000000))"

definition hdr_extended :: "u32 \<Rightarrow> bool" where
  "hdr_extended w = (w AND 0x80000000 \<noteq> 0)"

definition hdr_len :: "u32 \<Rightarrow> u32" where
  "hdr_len w = (w AND 0x00ffffff) - 4"

definition hdr_raw_len :: "u32 \<Rightarrow> u32" where
  "hdr_raw_len w = hdr_len w + 4"

definition hdr_pad_len :: "u32 \<Rightarrow> u32" where
  "hdr_pad_len w = (hdr_raw_len w + 4 - 1) AND NOT (4 - 1)"

definition blob_data :: "nat \<Rightarrow> nat" where
  "blob_data p = p + 4"

definition blob_id :: "byte list \<Rightarrow> nat \<Rightarrow> nat option" where
  "blob_id m p = map_option hdr_id (rd_be32 m p)"

definition blob_is_extended :: "byte list \<Rightarrow> nat \<Rightarrow> bool option" where
  "blob_is_extended m p = map_option hdr_extended (rd_be32 m p)"

definition blob_len :: "byte list \<Rightarrow> nat \<Rightarrow> u32 option" where
  "blob_len m p = map_option hdr_len (rd_be32 m p)"

definition blob_raw_len :: "byte list \<Rightarrow> nat \<Rightarrow> u32 option" where
  "blob_raw_len m p = map_option hdr_raw_len (rd_be32 m p)"

definition blob_pad_len :: "byte list \<Rightarrow> nat \<Rightarrow> u32 option" where
  "blob_pad_len m p = map_option hdr_pad_len (rd_be32 m p)"

definition blob_next :: "byte list \<Rightarrow> nat \<Rightarrow> nat option" where
  "blob_next m p = map_option (\<lambda>n. p + unat n) (blob_pad_len m p)"

section \<open>Reading values\<close>

definition blob_get_u8 :: "byte list \<Rightarrow> nat \<Rightarrow> byte option" where
  "blob_get_u8 m p = rd8 m (blob_data p)"

definition blob_get_u16 :: "byte list \<Rightarrow> nat \<Rightarrow> u16 option" where
  "blob_get_u16 m p = rd_be16 m (blob_data p)"

definition blob_get_u32 :: "byte list \<Rightarrow> nat \<Rightarrow> u32 option" where
  "blob_get_u32 m p = rd_be32 m (blob_data p)"

definition blob_get_u64 :: "byte list \<Rightarrow> nat \<Rightarrow> u64 option" where
  "blob_get_u64 m p = do {
     hi \<leftarrow> rd_be32 m (blob_data p);
     lo \<leftarrow> rd_be32 m (blob_data p + 4);
     Some (push_bit 32 (ucast hi) OR ucast lo)
   }"

definition blob_get_int8 :: "byte list \<Rightarrow> nat \<Rightarrow> int option" where
  "blob_get_int8 m p = map_option sint (blob_get_u8 m p)"

definition blob_get_int16 :: "byte list \<Rightarrow> nat \<Rightarrow> int option" where
  "blob_get_int16 m p = map_option sint (blob_get_u16 m p)"

definition blob_get_int32 :: "byte list \<Rightarrow> nat \<Rightarrow> int option" where
  "blob_get_int32 m p = map_option sint (blob_get_u32 m p)"

definition blob_get_int64 :: "byte list \<Rightarrow> nat \<Rightarrow> int option" where
  "blob_get_int64 m p = map_option sint (blob_get_u64 m p)"

text \<open>The C string at an offset: the bytes before the first zero, which must be in the block.\<close>

definition cstr_at :: "byte list \<Rightarrow> nat \<Rightarrow> cstring option" where
  "cstr_at m p =
     (if 0 \<in> set (drop p m) then Some (takeWhile (\<lambda>c. c \<noteq> 0) (drop p m)) else None)"

definition blob_get_string :: "byte list \<Rightarrow> nat \<Rightarrow> cstring option" where
  "blob_get_string m p = cstr_at m (blob_data p)"

section \<open>Writing attributes\<close>

definition blob_init :: "byte list \<Rightarrow> nat \<Rightarrow> int \<Rightarrow> u32 \<Rightarrow> byte list option" where
  "blob_init m p i len =
     (let len = len AND 0x00ffffff;
          len = len OR (push_bit 24 (word_of_int i) AND 0x7f000000)
      in mem_write m p (be32 len))"

definition blob_set_raw_len :: "byte list \<Rightarrow> nat \<Rightarrow> u32 \<Rightarrow> byte list option" where
  "blob_set_raw_len m p len = do {
     w \<leftarrow> rd_be32 m p;
     mem_write m p (be32 ((w AND NOT 0x00ffffff) OR (len AND 0x00ffffff)))
   }"

definition blob_fill_pad :: "byte list \<Rightarrow> nat \<Rightarrow> byte list option" where
  "blob_fill_pad m p = do {
     len \<leftarrow> blob_pad_len m p;
     raw \<leftarrow> blob_raw_len m p;
     (let delta = len - raw in
      if sint delta > 0 then mem_write m (p + unat len - unat delta) (replicate (unat delta) 0)
      else Some m)
   }"

record blob_buf =
  buf :: "byte list"
  head :: "nat option"

definition blob_buffer_grow :: "(nat \<Rightarrow> bool) \<Rightarrow> blob_buf \<Rightarrow> int \<Rightarrow> (bool \<times> blob_buf) option" where
  "blob_buffer_grow alloc b minlen =
     (let delta = (minlen div 256 + 1) * 256 in
      if delta \<ge> 2 ^ 31 \<or> int (length (buf b)) + delta \<ge> 2 ^ 31 then None
      else if alloc (length (buf b) + nat delta) then
        Some (True, b\<lparr>buf := buf b @ replicate (nat delta) 0\<rparr>)
      else Some (False, b))"

definition attr_to_offset :: "nat \<Rightarrow> int" where
  "attr_to_offset p = int p + BLOB_COOKIE"

definition offset_to_attr :: "int \<Rightarrow> nat" where
  "offset_to_attr off = nat (off - BLOB_COOKIE)"

text \<open>
  \<open>head\<close> is an offset into the block, so it needs no relocation when \<open>realloc\<close> moves the block:
  that is what the two conversions around \<open>grow\<close> do.
\<close>

definition blob_buf_grow :: "(nat \<Rightarrow> bool) \<Rightarrow> blob_buf \<Rightarrow> int \<Rightarrow> (bool \<times> blob_buf) option" where
  "blob_buf_grow alloc b required = do {
     (ok, b') \<leftarrow> blob_buffer_grow alloc b required;
     Some (if ok then (True, b'\<lparr>head := map_option (\<lambda>h. offset_to_attr (attr_to_offset h)) (head b)\<rparr>)
           else (False, b'))
   }"

definition blob_add ::
    "(nat \<Rightarrow> bool) \<Rightarrow> blob_buf \<Rightarrow> nat \<Rightarrow> int \<Rightarrow> int \<Rightarrow> (nat option \<times> blob_buf) option" where
  "blob_add alloc b pos i payload =
     (let offset = attr_to_offset pos;
          required = to_int32 ((offset - BLOB_COOKIE + 4 + payload) - int (length (buf b)))
      in do {
        (ok, b) \<leftarrow> (if required > 0 then blob_buf_grow alloc b required else Some (True, b));
        if \<not> ok then Some (None, b)
        else do {
          m \<leftarrow> blob_init (buf b) pos i (word_of_int (payload + 4));
          m \<leftarrow> blob_fill_pad m pos;
          Some (Some pos, b\<lparr>buf := m\<rparr>)
        }
      })"

text \<open>\<open>-ENOMEM\<close> is -12.\<close>

definition blob_buf_init :: "(nat \<Rightarrow> bool) \<Rightarrow> blob_buf \<Rightarrow> int \<Rightarrow> (int \<times> blob_buf) option" where
  "blob_buf_init alloc b i = do {
     (a, b) \<leftarrow> blob_add alloc (b\<lparr>head := Some 0\<rparr>) 0 i 0;
     Some (if a = None then -12 else 0, b)
   }"

definition blob_buf_free :: "blob_buf \<Rightarrow> blob_buf" where
  "blob_buf_free b = b\<lparr>buf := []\<rparr>"

definition blob_new :: "(nat \<Rightarrow> bool) \<Rightarrow> blob_buf \<Rightarrow> int \<Rightarrow> int \<Rightarrow> (nat option \<times> blob_buf) option" where
  "blob_new alloc b i payload = do {
     h \<leftarrow> head b;
     pos \<leftarrow> blob_next (buf b) h;
     (attr, b) \<leftarrow> blob_add alloc b pos i payload;
     case attr of
       None \<Rightarrow> Some (None, b)
     | Some a \<Rightarrow> do {
         hl \<leftarrow> blob_pad_len (buf b) h;
         al \<leftarrow> blob_pad_len (buf b) a;
         m \<leftarrow> blob_set_raw_len (buf b) h (hl + al);
         Some (Some a, b\<lparr>buf := m\<rparr>)
       }
   }"

definition blob_put_raw ::
    "(nat \<Rightarrow> bool) \<Rightarrow> blob_buf \<Rightarrow> byte list option \<Rightarrow> u32 \<Rightarrow> (nat option \<times> blob_buf) option" where
  "blob_put_raw alloc b ptr len =
     (case ptr of
       None \<Rightarrow> Some (None, b)
     | Some src \<Rightarrow>
         if len < 4 then Some (None, b)
         else do {
           h \<leftarrow> head b;
           pos \<leftarrow> blob_next (buf b) h;
           (attr, b) \<leftarrow> blob_add alloc b pos 0 (to_int32 (uint (len - 4)));
           case attr of
             None \<Rightarrow> Some (None, b)
           | Some a \<Rightarrow> do {
               hl \<leftarrow> blob_pad_len (buf b) h;
               m \<leftarrow> blob_set_raw_len (buf b) h (hl + len);
               bs \<leftarrow> mem_read src 0 (unat len);
               m \<leftarrow> mem_write m a bs;
               Some (Some a, b\<lparr>buf := m\<rparr>)
             }
         })"

definition blob_put ::
    "(nat \<Rightarrow> bool) \<Rightarrow> blob_buf \<Rightarrow> int \<Rightarrow> byte list option \<Rightarrow> u32 \<Rightarrow> (nat option \<times> blob_buf) option" where
  "blob_put alloc b i ptr len = do {
     (attr, b) \<leftarrow> blob_new alloc b i (to_int32 (uint len));
     case attr of
       None \<Rightarrow> Some (None, b)
     | Some a \<Rightarrow>
         (case ptr of
           None \<Rightarrow> Some (Some a, b)
         | Some src \<Rightarrow> do {
             bs \<leftarrow> mem_read src 0 (unat len);
             m \<leftarrow> mem_write (buf b) (blob_data a) bs;
             Some (Some a, b\<lparr>buf := m\<rparr>)
           })
   }"

definition blob_nest_start :: "(nat \<Rightarrow> bool) \<Rightarrow> blob_buf \<Rightarrow> int \<Rightarrow> (int option \<times> blob_buf) option" where
  "blob_nest_start alloc b i = do {
     h \<leftarrow> head b;
     (attr, b) \<leftarrow> blob_new alloc b i 0;
     Some (if attr = None then None else Some (attr_to_offset h), b\<lparr>head := attr\<rparr>)
   }"

definition blob_nest_end :: "blob_buf \<Rightarrow> int \<Rightarrow> blob_buf option" where
  "blob_nest_end b cookie =
     (let attr = offset_to_attr cookie in do {
        h \<leftarrow> head b;
        al \<leftarrow> blob_pad_len (buf b) attr;
        hl \<leftarrow> blob_len (buf b) h;
        m \<leftarrow> blob_set_raw_len (buf b) attr (al + hl);
        Some (b\<lparr>buf := m, head := Some attr\<rparr>)
      })"

definition blob_put_string ::
    "(nat \<Rightarrow> bool) \<Rightarrow> blob_buf \<Rightarrow> int \<Rightarrow> cstring \<Rightarrow> (nat option \<times> blob_buf) option" where
  "blob_put_string alloc b i str = blob_put alloc b i (Some (str @ [0])) (word_of_nat (length str + 1))"

definition blob_put_u8 :: "(nat \<Rightarrow> bool) \<Rightarrow> blob_buf \<Rightarrow> int \<Rightarrow> byte \<Rightarrow> (nat option \<times> blob_buf) option" where
  "blob_put_u8 alloc b i val = blob_put alloc b i (Some [val]) 1"

definition blob_put_u16 :: "(nat \<Rightarrow> bool) \<Rightarrow> blob_buf \<Rightarrow> int \<Rightarrow> u16 \<Rightarrow> (nat option \<times> blob_buf) option" where
  "blob_put_u16 alloc b i val = blob_put alloc b i (Some (be16 val)) 2"

definition blob_put_u32 :: "(nat \<Rightarrow> bool) \<Rightarrow> blob_buf \<Rightarrow> int \<Rightarrow> u32 \<Rightarrow> (nat option \<times> blob_buf) option" where
  "blob_put_u32 alloc b i val = blob_put alloc b i (Some (be32 val)) 4"

definition blob_put_u64 :: "(nat \<Rightarrow> bool) \<Rightarrow> blob_buf \<Rightarrow> int \<Rightarrow> u64 \<Rightarrow> (nat option \<times> blob_buf) option" where
  "blob_put_u64 alloc b i val = blob_put alloc b i (Some (be64 val)) 8"

section \<open>Iterating and parsing\<close>

text \<open>
  The attributes that \<open>blob_for_each_attr\<close> visits, as a list of positions. \<open>rem\<close> is an \<open>int\<close> that
  is compared as unsigned only when it is positive.
\<close>

function blob_iter :: "byte list \<Rightarrow> nat \<Rightarrow> int \<Rightarrow> nat list option" where
  "blob_iter m pos rem =
     (if rem > 0 then do {
        n \<leftarrow> blob_pad_len m pos;
        if uint n \<le> rem \<and> n \<ge> 4 then
          map_option ((#) pos) (blob_iter m (pos + unat n) (rem - uint n))
        else Some []
      }
      else Some [])"
  by pat_completeness auto
termination
proof (relation "measure (\<lambda>(m, pos, rem). nat rem)", goal_cases)
  case (2 m pos rem n)
  then have "4 \<le> uint n" by (simp add: word_le_def)
  with 2 show ?case by simp
qed simp

definition blob_for_each_attr :: "byte list \<Rightarrow> nat option \<Rightarrow> nat list option" where
  "blob_for_each_attr m attr =
     (case attr of
       None \<Rightarrow> Some []
     | Some p \<Rightarrow> do {
         len \<leftarrow> blob_len m p;
         blob_iter m (blob_data p) (to_int32 (uint len))
       })"

text \<open>
  The attribute types are \<open>UNSPEC\<close> 0, \<open>NESTED\<close> 1, \<open>BINARY\<close> 2, \<open>STRING\<close> 3, \<open>INT8\<close> 4, \<open>INT16\<close> 5, \<open>INT32\<close> 6,
  \<open>INT64\<close> 7 and \<open>LAST\<close> 8.
\<close>

definition blob_type_minlen :: "u32 list" where
  "blob_type_minlen = [0, 0, 0, 1, 1, 2, 4, 8]"

definition blob_check_type :: "byte list \<Rightarrow> nat \<Rightarrow> u32 \<Rightarrow> int \<Rightarrow> bool option" where
  "blob_check_type m p len ty =
     (if ty \<ge> 8 then Some False
      else if ty < 0 then None
      else if (if ty \<ge> 4 \<and> ty \<le> 7 then len \<noteq> blob_type_minlen ! nat ty else len < blob_type_minlen ! nat ty)
      then Some False
      else if ty = 3 then map_option (\<lambda>c. c = 0) (rd8 m (p + unat (len - 1)))
      else Some True)"

record blob_attr_info =
  itype :: u32
  minlen :: u32
  maxlen :: u32
  validate :: "(byte list \<Rightarrow> nat \<Rightarrow> bool) option"

text \<open>Whether one attribute passes the checks of the policy \<open>info[id]\<close>.\<close>

definition blob_attr_valid :: "byte list \<Rightarrow> nat \<Rightarrow> blob_attr_info list option \<Rightarrow> nat \<Rightarrow> bool option" where
  "blob_attr_valid m pos info i =
     (case info of
       None \<Rightarrow> Some True
     | Some infos \<Rightarrow> do {
         len \<leftarrow> blob_len m pos;
         e \<leftarrow> (if i < length infos then Some (infos ! i) else None);
         (let ty = to_int32 (uint (itype e)) in do {
            ok \<leftarrow> (if ty < 8 then blob_check_type m (blob_data pos) len ty else Some True);
            Some (ok \<and> \<not> (minlen e \<noteq> 0 \<and> len < minlen e) \<and> \<not> (maxlen e \<noteq> 0 \<and> len > maxlen e) \<and>
              (case validate e of None \<Rightarrow> True | Some v \<Rightarrow> v m pos))
          })
       })"

fun blob_parse_loop ::
    "byte list \<Rightarrow> blob_attr_info list option \<Rightarrow> nat list \<Rightarrow> int \<Rightarrow> nat option list \<Rightarrow> (int \<times> nat option list) option" where
  "blob_parse_loop m info [] found data = Some (found, data)"
| "blob_parse_loop m info (pos # rest) found data = do {
     i \<leftarrow> blob_id m pos;
     if i \<ge> length data then blob_parse_loop m info rest found data
     else do {
       ok \<leftarrow> blob_attr_valid m pos info i;
       if \<not> ok then blob_parse_loop m info rest found data
       else blob_parse_loop m info rest (if data ! i = None then found + 1 else found) (data[i := Some pos])
     }
   }"

definition blob_parse ::
    "byte list \<Rightarrow> nat option \<Rightarrow> blob_attr_info list option \<Rightarrow> nat \<Rightarrow> (int \<times> nat option list) option" where
  "blob_parse m attr info mx = do {
     ps \<leftarrow> blob_for_each_attr m attr;
     blob_parse_loop m info ps 0 (replicate mx None)
   }"

definition blob_attr_equal :: "(byte list \<times> nat) option \<Rightarrow> (byte list \<times> nat) option \<Rightarrow> bool option" where
  "blob_attr_equal a1 a2 =
     (case (a1, a2) of
       (None, None) \<Rightarrow> Some True
     | (Some (m1, p1), Some (m2, p2)) \<Rightarrow> do {
         n1 \<leftarrow> blob_pad_len m1 p1;
         n2 \<leftarrow> blob_pad_len m2 p2;
         if n1 \<noteq> n2 then Some False
         else do {
           x \<leftarrow> mem_read m1 p1 (unat n1);
           y \<leftarrow> mem_read m2 p2 (unat n1);
           Some (x = y)
         }
       }
     | _ \<Rightarrow> Some False)"

definition blob_memdup :: "(nat \<Rightarrow> bool) \<Rightarrow> byte list \<Rightarrow> nat \<Rightarrow> byte list option option" where
  "blob_memdup alloc m p = do {
     n \<leftarrow> blob_pad_len m p;
     if \<not> alloc (unat n) then Some None
     else map_option Some (mem_read m p (unat n))
   }"


declare blob_iter.simps [simp del]

section \<open>Header arithmetic\<close>

abbreviation raw :: "u32 \<Rightarrow> nat" where
  "raw w \<equiv> unat (hdr_raw_len w)"

abbreviation pad :: "u32 \<Rightarrow> nat" where
  "pad w \<equiv> unat (hdr_pad_len w)"

definition pad4 :: "nat \<Rightarrow> nat" where
  "pad4 n = (n + 3) div 4 * 4"

definition mk_hdr :: "int \<Rightarrow> u32 \<Rightarrow> u32" where
  "mk_hdr i len = (len AND 0x00ffffff) OR (push_bit 24 (word_of_int i) AND 0x7f000000)"

definition upd_len :: "u32 \<Rightarrow> u32 \<Rightarrow> u32" where
  "upd_len w len = (w AND NOT 0x00ffffff) OR (len AND 0x00ffffff)"

lemma pad4_bounds: "n \<le> pad4 n" "pad4 n < n + 4" "4 dvd pad4 n" "pad4 n mod 4 = 0"
  by (auto simp: pad4_def)

lemma pad4_dvd [simp]: "4 dvd n \<Longrightarrow> pad4 n = n"
  by (auto simp: pad4_def elim!: dvdE)

lemma raw_eq: "raw w = unat w mod 2 ^ 24"
  by (simp add: hdr_raw_len_def hdr_len_def unat_and_ffffff)

lemma raw_bound: "raw w < 2 ^ 24"
  by (simp add: raw_eq)

lemma pad_eq: "pad w = pad4 (raw w)"
proof -
  have "unat (hdr_raw_len w + 4 - 1) = raw w + 3"
  proof -
    have "hdr_raw_len w + 4 - 1 = hdr_raw_len w + 3" by simp
    moreover have "unat (hdr_raw_len w + 3) = raw w + 3"
      using raw_bound [of w] by (subst unat_add_lem [THEN iffD1]) auto
    ultimately show ?thesis by metis
  qed
  then have "pad w = raw w + 3 - (raw w + 3) mod 4"
    unfolding hdr_pad_len_def by (simp add: unat_and_not_3 [simplified] del: add_diff_eq)
  then show ?thesis by (simp add: pad4_def minus_mod_eq_div_mult)
qed

lemma masks: "(0x00ffffff :: u32) = mask 24" "(0x7f000000 :: u32) = push_bit 24 (mask 7)"
  by (simp_all add: mask_eq_exp_minus_1 push_bit_eq_mult)

lemma raw_mk_hdr: "raw (mk_hdr i len) = unat len mod 2 ^ 24"
proof -
  have "mk_hdr i len AND 0x00ffffff = len AND 0x00ffffff"
    unfolding mk_hdr_def masks by (rule bit_word_eqI) (auto simp: bit_simps)
  then show ?thesis by (metis raw_eq unat_and_ffffff)
qed

lemma raw_upd_len: "raw (upd_len w len) = unat len mod 2 ^ 24"
proof -
  have "upd_len w len AND 0x00ffffff = len AND 0x00ffffff"
    unfolding upd_len_def masks by (rule bit_word_eqI) (auto simp: bit_simps)
  then show ?thesis by (metis raw_eq unat_and_ffffff)
qed

lemma hdr_id_upd_len [simp]: "hdr_id (upd_len w len) = hdr_id w"
proof -
  have "upd_len w len AND 0x7f000000 = w AND 0x7f000000"
    unfolding upd_len_def masks by (rule bit_word_eqI) (auto simp: bit_simps)
  then show ?thesis by (simp add: hdr_id_def)
qed

lemma hdr_id_mk_hdr: "hdr_id (mk_hdr i len) = nat (i mod 128)"
proof -
  have "drop_bit 24 (mk_hdr i len AND 0x7f000000) = take_bit 7 (word_of_int i)"
    unfolding mk_hdr_def masks by (rule bit_word_eqI) (auto simp: bit_simps)
  then have "hdr_id (mk_hdr i len) = unat (take_bit 7 (word_of_int i :: u32))" by (simp add: hdr_id_def)
  also have "\<dots> = nat (i mod 128)"
  proof -
    have "int (unat (take_bit 7 (word_of_int i :: u32))) = i mod 2 ^ 32 mod 2 ^ 7"
      unfolding unat_take_bit by (simp add: of_nat_mod uint_word_of_int)
    also have "\<dots> = i mod 128" by (simp add: mod_mod_cancel)
    finally show ?thesis by linarith
  qed
  finally show ?thesis .
qed

lemma hdr_len_raw: "4 \<le> raw w \<Longrightarrow> unat (hdr_len w) = raw w - 4"
proof -
  assume "4 \<le> raw w"
  moreover have "hdr_len w = hdr_raw_len w - 4" by (simp add: hdr_raw_len_def)
  ultimately show ?thesis by (simp add: unat_sub word_le_nat_alt)
qed


section \<open>Appending to the head attribute\<close>

text \<open>The bytes of one attribute: header, payload, zeros up to the next multiple of four.\<close>

definition new_hdr :: "int \<Rightarrow> nat \<Rightarrow> u32" where
  "new_hdr i n = mk_hdr i (word_of_nat (n + 4))"

definition enc :: "int \<Rightarrow> byte list \<Rightarrow> byte list" where
  "enc i bs = be32 (new_hdr i (length bs)) @ bs @ replicate (pad4 (length bs) - length bs) 0"

lemma pad4_add4: "pad4 (n + 4) = pad4 n + 4"
  unfolding pad4_def by presburger

lemma raw_new_hdr: "n + 4 < 2 ^ 24 \<Longrightarrow> raw (new_hdr i n) = n + 4"
  by (simp add: new_hdr_def raw_mk_hdr del: of_nat_add)

lemma pad_new_hdr: "n + 4 < 2 ^ 24 \<Longrightarrow> pad (new_hdr i n) = pad4 n + 4"
  by (simp add: pad_eq raw_new_hdr pad4_add4)

lemma hdr_id_new_hdr [simp]: "hdr_id (new_hdr i n) = nat (i mod 128)"
  by (simp add: new_hdr_def hdr_id_mk_hdr)

lemma length_enc: "length (enc i bs) = pad4 (length bs + 4)"
  using pad4_bounds(1) [of "length bs"] by (simp add: enc_def pad4_add4)

lemma pad_delta:
  "unat (hdr_pad_len w - hdr_raw_len w) = pad w - raw w" "0 < sint (hdr_pad_len w - hdr_raw_len w) \<longleftrightarrow> raw w < pad w"
proof -
  have le: "raw w \<le> pad w" "pad w - raw w < 4" using pad4_bounds [of "raw w"] by (simp_all add: pad_eq)
  then show u: "unat (hdr_pad_len w - hdr_raw_len w) = pad w - raw w"
    by (simp add: unat_sub word_le_nat_alt)
  have "sint (hdr_pad_len w - hdr_raw_len w) = int (pad w - raw w)"
    using u le by (subst sint_small) simp_all
  then show "0 < sint (hdr_pad_len w - hdr_raw_len w) \<longleftrightarrow> raw w < pad w" by auto
qed

lemma offset_attr [simp]: "offset_to_attr (attr_to_offset p) = p"
  by (simp add: offset_to_attr_def attr_to_offset_def)

lemma blob_init_eq: "blob_init m p i len = mem_write m p (be32 (mk_hdr i len))"
  by (simp add: blob_init_def mk_hdr_def)

lemma fill_pad_app:
  assumes "length Q = q" and "length X = raw w - 4" and "4 \<le> raw w" and "length Z = pad w - raw w"
  shows "blob_fill_pad (Q @ be32 w @ X @ Z @ R) q =
    Some (Q @ be32 w @ X @ replicate (pad w - raw w) 0 @ R)"
proof -
  have w: "rd_be32 (Q @ be32 w @ X @ Z @ R) q = Some w" using assms by (simp add: mem_simps)
  have le: "raw w \<le> pad w" using pad4_bounds [of "raw w"] by (simp add: pad_eq)
  have "mem_write ((Q @ be32 w @ X) @ Z @ R) (q + raw w) (replicate (pad w - raw w) 0) =
      Some ((Q @ be32 w @ X) @ replicate (pad w - raw w) 0 @ R)"
    by (rule mem_write_app) (use assms in auto)
  with w le assms show ?thesis
    by (auto simp: blob_fill_pad_def blob_pad_len_def blob_raw_len_def pad_delta Let_def)
qed


lemma blob_add_room:
  assumes b: "m = Q @ R" and n: "4 + n \<le> length R" "n + 4 < 2 ^ 24" and R: "4 dvd length R"
  shows "\<exists>m' X R'. blob_init m (length Q) i (word_of_int (int n + 4)) = Some m' \<and>
    blob_fill_pad m' (length Q) = Some (Q @ be32 (new_hdr i n) @ X @ replicate (pad4 n - n) 0 @ R') \<and>
    length X = n \<and> 4 dvd length R' \<and> length R = 4 + pad4 n + length R'"
proof -
  note w = raw_new_hdr [OF n(2), of i] pad_new_hdr [OF n(2), of i]
  have "4 + pad4 n \<le> length R"
    using n(1) R pad4_bounds [of n] by presburger
  then have "4 + n + (pad4 n - n) \<le> length R" using pad4_bounds(1) [of n] by simp
  then obtain H X Z R' where RR: "R = H @ X @ Z @ R'" "length H = 4" "length X = n" "length Z = pad4 n - n"
    by (rule split_at3)
  have len: "length R = 4 + pad4 n + length R'" using RR pad4_bounds(1) [of n] by simp
  have "4 dvd length R'" using R len pad4_bounds(3) [of n] by (metis dvd_add_right_iff dvd_refl)
  moreover have "blob_init m (length Q) i (word_of_int (int n + 4)) = Some (Q @ be32 (new_hdr i n) @ X @ Z @ R')"
    unfolding blob_init_eq b RR(1) new_hdr_def using RR(2) by (simp add: mem_write_app)
  moreover have "blob_fill_pad (Q @ be32 (new_hdr i n) @ X @ Z @ R') (length Q) =
      Some (Q @ be32 (new_hdr i n) @ X @ replicate (pad4 n - n) 0 @ R')"
    using fill_pad_app [of Q "length Q" X "new_hdr i n" Z R'] RR w by simp
  ultimately show ?thesis using RR(3) len by blast
qed

text \<open>
  \<open>blob_add\<close> at the end of a used part \<open>Q\<close>: the block grows when it must, the header and the padding
  are written inside it and everything before is kept. It returns \<open>NULL\<close>, with the buffer unchanged,
  only when \<open>realloc\<close> fails.
\<close>

lemma blob_add_ok:
  assumes b: "buf b = Q @ R" and al: "4 dvd length Q" "4 dvd length R"
    and n: "length Q + n + 4 < 2 ^ 24" and len: "length (buf b) < 2 ^ 30"
  shows "(\<exists>X R'. blob_add alloc b (length Q) i (int n) = Some (Some (length Q),
      b\<lparr>buf := Q @ be32 (new_hdr i n) @ X @ replicate (pad4 n - n) 0 @ R'\<rparr>) \<and>
      length X = n \<and> 4 dvd length R' \<and> length Q + (4 + pad4 n) + length R' < 2 ^ 30) \<or>
    (blob_add alloc b (length Q) i (int n) = Some (None, b) \<and> (\<exists>k. \<not> alloc k))"
proof (cases "4 + n \<le> length R")
  case True
  then have r: "to_int32 (attr_to_offset (length Q) - BLOB_COOKIE + 4 + int n - int (length (buf b))) =
      - int (length R - (4 + n))"
    using len b by (subst to_int32_id) (auto simp: attr_to_offset_def)
  obtain m' X R' where "blob_init (buf b) (length Q) i (word_of_int (int n + 4)) = Some m'"
    "blob_fill_pad m' (length Q) = Some (Q @ be32 (new_hdr i n) @ X @ replicate (pad4 n - n) 0 @ R')"
    "length X = n" "4 dvd length R'" "length R = 4 + pad4 n + length R'"
    using blob_add_room [OF b True _ al(2), of i] n by auto
  then show ?thesis unfolding blob_add_def Let_def r using len b
    by - (rule disjI1, rule exI [of _ X], rule exI [of _ R'], simp)
next
  case False
  define req where "req = length Q + 4 + n - length (buf b)"
  define delta where "delta = (req div 256 + 1) * 256"
  have req: "0 < req" "req \<le> 4 + n" using False b by (auto simp: req_def)
  have delta: "req < delta" "delta \<le> req + 256" "4 dvd delta"
    using div_mult_mod_eq [of req 256] mod_less_divisor [of 256 req] by (simp_all add: delta_def)
  have r: "to_int32 (attr_to_offset (length Q) - BLOB_COOKIE + 4 + int n - int (length (buf b))) = int req"
    using n len False b by (subst to_int32_id) (auto simp: req_def attr_to_offset_def)
  have d: "(int req div 256 + 1) * 256 = int delta" by (simp add: delta_def of_nat_div)
  have grow: "blob_buffer_grow alloc b (int req) =
      (if alloc (length (buf b) + delta) then Some (True, b\<lparr>buf := buf b @ replicate delta 0\<rparr>) else Some (False, b))"
    unfolding blob_buffer_grow_def d Let_def using n len req delta by simp
  show ?thesis
  proof (cases "alloc (length (buf b) + delta)")
    case True
    let ?b = "b\<lparr>buf := Q @ R @ replicate delta 0\<rparr>"
    have "blob_buf_grow alloc b (int req) = Some (True, ?b)"
      using True by (simp add: blob_buf_grow_def grow offset_attr b option.map_ident)
    moreover have room: "4 + n \<le> length (R @ replicate delta 0)" "4 dvd length (R @ replicate delta 0)"
      using delta al req_def b by auto
    moreover obtain m' X R' where "blob_init (buf ?b) (length Q) i (word_of_int (int n + 4)) = Some m'"
      "blob_fill_pad m' (length Q) = Some (Q @ be32 (new_hdr i n) @ X @ replicate (pad4 n - n) 0 @ R')"
      "length X = n" "4 dvd length R'" "length (R @ replicate delta 0) = 4 + pad4 n + length R'"
      using blob_add_room [of "buf ?b" Q _ n i, OF _ room(1) _ room(2)] n by auto
    moreover have "length Q + (4 + pad4 n) + length R' < 2 ^ 30"
      using calculation req delta n len b req_def by simp
    ultimately show ?thesis using req
      by - (rule disjI1, rule exI [of _ X], rule exI [of _ R'], simp add: blob_add_def r Let_def)
  next
    case False
    then have "blob_buf_grow alloc b (int req) = Some (False, b)"
      by (simp add: blob_buf_grow_def grow)
    with False req show ?thesis by (intro disjI2) (auto simp: blob_add_def r)
  qed
qed


text \<open>
  The head attribute in its block: \<open>A\<close> before it, its header, its payload \<open>P\<close> up to the padded length,
  the unused rest \<open>R\<close>. This is the invariant of a \<open>struct blob_buf\<close> that \<open>blob_buf_init\<close> establishes
  and every writer keeps.
\<close>

definition blob_view :: "blob_buf \<Rightarrow> byte list \<Rightarrow> u32 \<Rightarrow> byte list \<Rightarrow> byte list \<Rightarrow> bool" where
  "blob_view b A w P R \<longleftrightarrow>
     buf b = A @ be32 w @ P @ R \<and> head b = Some (length A) \<and> 4 dvd length A \<and> 4 \<le> raw w \<and>
     length P = pad w - 4 \<and> 4 dvd length R \<and> length (buf b) < 2 ^ 30"

lemma pad_ge_raw: "raw w \<le> pad w"
  using pad4_bounds [of "raw w"] by (simp add: pad_eq)

lemma pad_dvd: "4 dvd pad w"
  using pad4_bounds [of "raw w"] by (simp add: pad_eq)

lemma raw_upd:
  assumes "k < 2 ^ 24" and "unat len = k"
  shows "raw (upd_len w len) = k" "pad (upd_len w len) = pad4 k"
  using assms by (simp_all add: raw_upd_len pad_eq)

lemma set_raw_len_app:
  "p = length A \<Longrightarrow> blob_set_raw_len (A @ be32 w @ Y) p len = Some (A @ be32 (upd_len w len) @ Y)"
  by (simp add: blob_set_raw_len_def rd_be32_app upd_len_def mem_write_app)

lemma unat_add_small: "unat (a :: u32) + unat b < 2 ^ 32 \<Longrightarrow> unat (a + b) = unat a + unat b"
  by (subst unat_add_lem [THEN iffD1]) auto

lemma pad_bound: "pad w \<le> 2 ^ 24"
  using raw_bound [of w] pad4_bounds [of "raw w"] unfolding pad_eq by (simp add: pad4_def)

definition set_len :: "u32 \<Rightarrow> nat \<Rightarrow> u32" where
  "set_len w n = upd_len w (word_of_nat n)"

lemma set_len_unat: "unat len = n \<Longrightarrow> upd_len w len = set_len w n"
  by (auto simp: set_len_def)

lemma set_len_props:
  assumes "n < 2 ^ 24"
  shows "raw (set_len w n) = n" "pad (set_len w n) = pad4 n"
  using raw_upd [OF assms, of "word_of_nat n" w] assms by (simp_all add: set_len_def)

lemma hdr_id_set_len [simp]: "hdr_id (set_len w n) = hdr_id w"
  by (simp add: set_len_def)

lemma set_len_set_len [simp]: "set_len (set_len w a) b = set_len w b"
  unfolding set_len_def upd_len_def masks by (rule bit_word_eqI) (auto simp: bit_simps)

lemma set_len_new_hdr: "4 \<le> b \<Longrightarrow> set_len (new_hdr i a) b = new_hdr i (b - 4)"
  unfolding set_len_def upd_len_def new_hdr_def mk_hdr_def masks
  by (rule bit_word_eqI) (auto simp: bit_simps)

lemma set_len_raw: "set_len w (raw w) = w"
  unfolding set_len_def upd_len_def hdr_raw_len_def hdr_len_def
  by (rule bit_word_eqI) (auto simp: masks bit_simps)

lemma blob_new_ok:
  assumes v: "blob_view b A w P R" and n: "length A + pad w + 4 + pad4 n < 2 ^ 24"
  shows "(\<exists>b' w' X R'. blob_new alloc b i (int n) = Some (Some (length A + pad w), b') \<and> length X = n \<and>
      blob_view b' A w' (P @ be32 (new_hdr i n) @ X @ replicate (pad4 n - n) 0) R' \<and>
      w' = set_len w (pad w + 4 + pad4 n)) \<or>
    (blob_new alloc b i (int n) = Some (None, b) \<and> (\<exists>k. \<not> alloc k))"
proof -
  let ?Q = "A @ be32 w @ P"
  have b: "buf b = ?Q @ R" "head b = Some (length A)" "4 \<le> raw w" "length P = pad w - 4" "4 dvd length R"
    "4 dvd length A" "length (buf b) < 2 ^ 30"
    using v by (auto simp: blob_view_def)
  have Q: "length ?Q = length A + pad w" using b pad_ge_raw [of w] by simp
  have al: "4 dvd length ?Q" unfolding Q using b pad_dvd by simp
  have n': "length ?Q + n + 4 < 2 ^ 24" "n + 4 < 2 ^ 24" using n pad4_bounds(1) [of n] Q by simp_all
  have nx: "blob_next (buf b) (length A) = Some (length ?Q)"
    unfolding Q by (simp add: blob_next_def blob_pad_len_def b(1) rd_be32_app)
  from blob_add_ok [OF b(1) al b(5) n'(1) b(7), of alloc i]
  show ?thesis
  proof (elim disjE exE conjE)
    fix X R'
    let ?E = "be32 (new_hdr i n) @ X @ replicate (pad4 n - n) 0"
    let ?b = "b\<lparr>buf := ?Q @ be32 (new_hdr i n) @ X @ replicate (pad4 n - n) 0 @ R'\<rparr>"
    let ?len = "hdr_pad_len w + hdr_pad_len (new_hdr i n)"
    assume add: "blob_add alloc b (length ?Q) i (int n) = Some (Some (length ?Q), ?b)"
      and X: "length X = n" "4 dvd length R'" "length ?Q + (4 + pad4 n) + length R' < 2 ^ 30"
    have len: "unat ?len = pad w + 4 + pad4 n"
      using pad_new_hdr [OF n'(2), of i] n by (subst unat_add_small) auto
    have bnd: "pad w + 4 + pad4 n < 2 ^ 24" using n by simp
    have dvd: "4 dvd pad w + 4 + pad4 n" using pad_dvd pad4_bounds(3) by simp
    note w' = raw_upd [OF bnd len, of w, unfolded pad4_dvd [OF dvd]]
    have "rd_be32 (buf ?b) (length A) = Some w" "rd_be32 (buf ?b) (length ?Q) = Some (new_hdr i n)"
      using rd_be32_app [of "length ?Q" ?Q "new_hdr i n"] by (simp_all add: rd_be32_app)
    moreover have "blob_set_raw_len (buf ?b) (length A) ?len = Some (A @ be32 (upd_len w ?len) @ (P @ ?E) @ R')"
      using set_raw_len_app [of "length A" A w "P @ ?E @ R'" ?len] by simp
    ultimately have "blob_new alloc b i (int n) =
        Some (Some (length ?Q), ?b\<lparr>buf := A @ be32 (upd_len w ?len) @ (P @ ?E) @ R'\<rparr>)"
      using add by (simp add: blob_new_def b(2) nx blob_pad_len_def)
    moreover have "blob_view (?b\<lparr>buf := A @ be32 (upd_len w ?len) @ (P @ ?E) @ R'\<rparr>) A (upd_len w ?len) (P @ ?E) R'"
      using b X w' pad4_bounds(1) [of n] Q pad_ge_raw [of w] by (auto simp: blob_view_def)
    ultimately show ?thesis using set_len_unat [OF len, of w] X(1) unfolding Q by (intro disjI1 exI conjI) auto
  next
    fix k
    assume "blob_add alloc b (length ?Q) i (int n) = Some (None, b)" "\<not> alloc k"
    then show ?thesis by (intro disjI2) (auto simp: blob_new_def b(2) nx)
  qed
qed


text \<open>
  What a writer that appends the bytes \<open>E\<close> does: it appends them and adds \<open>k\<close> to the length of the head,
  or it fails and changes nothing.
\<close>

definition appends ::
    "(nat \<Rightarrow> bool) \<Rightarrow> blob_buf \<Rightarrow> byte list \<Rightarrow> u32 \<Rightarrow> byte list \<Rightarrow> byte list \<Rightarrow> nat \<Rightarrow>
     (nat option \<times> blob_buf) option \<Rightarrow> bool" where
  "appends alloc b A w P E k res \<longleftrightarrow>
     (\<exists>b' w' R'. res = Some (Some (length A + pad w), b') \<and> blob_view b' A w' (P @ E) R' \<and>
        w' = set_len w (pad w + k)) \<or>
     (res = Some (None, b) \<and> (\<exists>k. \<not> alloc k))"

lemma blob_put_appends:
  assumes v: "blob_view b A w P R" and n: "length A + pad w + length (enc i bs) < 2 ^ 24"
  shows "appends alloc b A w P (enc i bs) (length (enc i bs)) (blob_put alloc b i (Some bs) (word_of_nat (length bs)))"
proof -
  let ?n = "length bs"
  have n': "length A + pad w + 4 + pad4 ?n < 2 ^ 24" using n by (simp add: length_enc pad4_add4)
  then have small: "?n < 2 ^ 24" using pad4_bounds(1) [of ?n] by simp
  then have len: "to_int32 (uint (word_of_nat ?n :: u32)) = int ?n" "unat (word_of_nat ?n :: u32) = ?n"
    by (auto simp: uint_nat)
  have P: "length P = pad w - 4" "4 \<le> pad w" using v pad_ge_raw [of w] by (auto simp: blob_view_def)
  from blob_new_ok [OF v n', of alloc i] show ?thesis
  proof (elim disjE exE conjE)
    fix b' w' X R'
    let ?Q = "A @ be32 w' @ P @ be32 (new_hdr i ?n)"
    assume new: "blob_new alloc b i (int ?n) = Some (Some (length A + pad w), b')" "length X = ?n"
      and v': "blob_view b' A w' (P @ be32 (new_hdr i ?n) @ X @ replicate (pad4 ?n - ?n) 0) R'"
      and w': "w' = set_len w (pad w + 4 + pad4 ?n)"
    have "mem_write (?Q @ X @ replicate (pad4 ?n - ?n) 0 @ R') (blob_data (length A + pad w)) bs =
        Some (?Q @ bs @ replicate (pad4 ?n - ?n) 0 @ R')"
      by (rule mem_write_app) (use P new(2) in \<open>auto simp: blob_data_def\<close>)
    then have "blob_put alloc b i (Some bs) (word_of_nat ?n) =
        Some (Some (length A + pad w), b'\<lparr>buf := ?Q @ bs @ replicate (pad4 ?n - ?n) 0 @ R'\<rparr>)"
      using new v' by (simp add: blob_put_def len mem_read_def blob_view_def)
    moreover have "blob_view (b'\<lparr>buf := ?Q @ bs @ replicate (pad4 ?n - ?n) 0 @ R'\<rparr>) A w' (P @ enc i bs) R'"
      using v' new(2) by (auto simp: blob_view_def enc_def)
    moreover have "w' = set_len w (pad w + length (enc i bs))"
      using w' by (simp add: length_enc pad4_add4 add.commute add.left_commute)
    ultimately show ?thesis using w' unfolding appends_def by blast
  next
    fix k
    assume "blob_new alloc b i (int ?n) = Some (None, b)" "\<not> alloc k"
    then show ?thesis unfolding appends_def by (auto simp: blob_put_def len)
  qed
qed


lemma pad4_add_dvd: "4 dvd a \<Longrightarrow> pad4 (a + n) = a + pad4 n"
  unfolding pad4_def by presburger

lemma blob_put_raw_appends:
  assumes v: "blob_view b A w P R" and bs: "4 \<le> length bs" and n: "length A + pad w + pad4 (length bs) < 2 ^ 24"
  shows "appends alloc b A w P (bs @ replicate (pad4 (length bs) - length bs) 0) (length bs)
    (blob_put_raw alloc b (Some bs) (word_of_nat (length bs)))"
proof -
  let ?n = "length bs" and ?m = "length bs - 4"
  let ?Q = "A @ be32 w @ P"
  have b: "buf b = ?Q @ R" "head b = Some (length A)" "4 \<le> raw w" "length P = pad w - 4" "4 dvd length R"
    "4 dvd length A" "length (buf b) < 2 ^ 30"
    using v by (auto simp: blob_view_def)
  have Q: "length ?Q = length A + pad w" using b pad_ge_raw [of w] by simp
  have pm: "pad4 ?n = 4 + pad4 ?m" using pad4_add4 [of ?m] bs by simp
  then have n': "length ?Q + ?m + 4 < 2 ^ 24" using n pad4_bounds(1) [of ?m] unfolding Q by simp
  have nx: "blob_next (buf b) (length A) = Some (length ?Q)"
    unfolding Q by (simp add: blob_next_def blob_pad_len_def b(1) rd_be32_app)
  have len: "unat (word_of_nat ?n :: u32) = ?n" using n' bs by simp
  have len4: "to_int32 (uint (word_of_nat ?n - 4 :: u32)) = int ?m"
  proof -
    have "unat (word_of_nat ?n - 4 :: u32) = ?m" using len bs by (simp add: unat_sub word_le_nat_alt)
    then show ?thesis using n' by (simp add: uint_nat)
  qed
  have ge: "\<not> (word_of_nat ?n :: u32) < 4" using len bs by (simp add: word_less_nat_alt)
  have al: "4 dvd length ?Q" unfolding Q using b pad_dvd by simp
  from blob_add_ok [OF b(1) al b(5) n' b(7), of alloc 0] show ?thesis
  proof (elim disjE exE conjE)
    fix X R'
    let ?Z = "replicate (pad4 ?m - ?m) 0"
    let ?b = "b\<lparr>buf := ?Q @ be32 (new_hdr 0 ?m) @ X @ ?Z @ R'\<rparr>"
    let ?len = "hdr_pad_len w + word_of_nat ?n"
    let ?U = "A @ be32 (upd_len w ?len) @ P"
    assume add: "blob_add alloc b (length ?Q) 0 (int ?m) = Some (Some (length ?Q), ?b)"
      and X: "length X = ?m" "4 dvd length R'" "length ?Q + (4 + pad4 ?m) + length R' < 2 ^ 30"
    have ulen: "unat ?len = pad w + ?n" using len n' Q bs by (subst unat_add_small) auto
    moreover have "pad w + ?n < 2 ^ 24" using n' Q bs by simp
    ultimately have w': "raw (upd_len w ?len) = pad w + ?n" "pad (upd_len w ?len) = pad w + pad4 ?n"
      using raw_upd [of "pad w + ?n" ?len w] pad4_add_dvd [OF pad_dvd, of w ?n] by simp_all
    have "rd_be32 (buf ?b) (length A) = Some w" by (simp add: rd_be32_app)
    moreover have "blob_set_raw_len (buf ?b) (length A) ?len = Some (?U @ (be32 (new_hdr 0 ?m) @ X) @ ?Z @ R')"
      using set_raw_len_app [of "length A" A w "P @ be32 (new_hdr 0 ?m) @ X @ ?Z @ R'" ?len] by simp
    moreover have "mem_write (?U @ (be32 (new_hdr 0 ?m) @ X) @ ?Z @ R') (length ?Q) bs = Some (?U @ bs @ ?Z @ R')"
      by (rule mem_write_app) (use X bs in auto)
    ultimately have "blob_put_raw alloc b (Some bs) (word_of_nat ?n) =
        Some (Some (length ?Q), ?b\<lparr>buf := ?U @ bs @ ?Z @ R'\<rparr>)"
      using add ge len len4 by (simp add: blob_put_raw_def b(2) nx blob_pad_len_def mem_read_def)
    moreover have "?Z = replicate (pad4 ?n - ?n) 0" using pm bs by simp
    moreover have "blob_view (?b\<lparr>buf := ?U @ bs @ ?Z @ R'\<rparr>) A (upd_len w ?len) (P @ bs @ ?Z) R'"
      using b X w' pm bs Q pad4_bounds(1) [of ?m] pad_ge_raw [of w] by (auto simp: blob_view_def)
    ultimately show ?thesis using set_len_unat [OF ulen, of w] Q unfolding appends_def
      by (intro disjI1 exI conjI) auto
  next
    fix k
    assume "blob_add alloc b (length ?Q) 0 (int ?m) = Some (None, b)" "\<not> alloc k"
    then show ?thesis using ge len4 unfolding appends_def by (intro disjI2) (auto simp: blob_put_raw_def b(2) nx)
  qed
qed


text \<open>Nesting: the new attribute becomes the head, and at the end its length is added to the outer one.\<close>

lemma blob_nest_start_ok:
  assumes v: "blob_view b A w P R" and n: "length A + pad w + 4 < 2 ^ 24"
  shows "(\<exists>b' R'. blob_nest_start alloc b i = Some (Some (attr_to_offset (length A)), b') \<and>
      blob_view b' (A @ be32 (set_len w (pad w + 4)) @ P) (new_hdr i 0) [] R') \<or>
    (blob_nest_start alloc b i = Some (None, b\<lparr>head := None\<rparr>) \<and> (\<exists>k. \<not> alloc k))"
proof -
  have b: "head b = Some (length A)" "length P = pad w - 4" "4 \<le> pad w" "4 dvd length A"
    using v pad_ge_raw [of w] by (auto simp: blob_view_def)
  have al: "4 dvd length (A @ be32 u @ P)" for u using b pad_dvd [of w] by simp
  have n': "length A + pad w + 4 + pad4 0 < 2 ^ 24" using n by (simp add: pad4_def)
  from blob_new_ok [OF v n', of alloc i] show ?thesis
  proof (elim disjE exE conjE)
    fix b' w' X R'
    assume new: "blob_new alloc b i (int 0) = Some (Some (length A + pad w), b')" "length (X :: byte list) = 0"
      and v': "blob_view b' A w' (P @ be32 (new_hdr i 0) @ X @ replicate (pad4 0 - 0) 0) R'"
      and w': "w' = set_len w (pad w + 4 + pad4 0)"
    have "blob_nest_start alloc b i = Some (Some (attr_to_offset (length A)), b'\<lparr>head := Some (length A + pad w)\<rparr>)"
      using new by (simp add: blob_nest_start_def b(1))
    moreover have "blob_view (b'\<lparr>head := Some (length A + pad w)\<rparr>) (A @ be32 w' @ P) (new_hdr i 0) [] R'"
      using v' new(2) b al [of w'] raw_new_hdr [of 0 i] pad_new_hdr [of 0 i] by (auto simp: blob_view_def pad4_def)
    ultimately show ?thesis using w' by (auto simp: pad4_def)
  next
    fix k
    assume "blob_new alloc b i (int 0) = Some (None, b)" "\<not> alloc k"
    then show ?thesis by (auto simp: blob_nest_start_def b(1))
  qed
qed

lemma blob_nest_end_ok:
  assumes v: "blob_view b (A @ be32 w @ P) wi Pi R" and w: "4 dvd length A" "4 \<le> raw w" "pad w = length P + 8"
    and n: "length A + pad w + (raw wi - 4) < 2 ^ 24"
  shows "\<exists>b'. blob_nest_end b (attr_to_offset (length A)) = Some b' \<and>
    blob_view b' A (set_len w (pad w + (raw wi - 4))) (P @ be32 wi @ Pi) R"
proof -
  have b: "buf b = (A @ be32 w @ P) @ be32 wi @ Pi @ R" "head b = Some (length (A @ be32 w @ P))"
    "4 \<le> raw wi" "length Pi = pad wi - 4" "4 dvd length R" "length (buf b) < 2 ^ 30"
    using v by (auto simp: blob_view_def)
  let ?len = "hdr_pad_len w + hdr_len wi"
  have len: "unat ?len = pad w + (raw wi - 4)"
    using b(3) n hdr_len_raw [OF b(3)] by (subst unat_add_small) auto
  have bnd: "pad w + (raw wi - 4) < 2 ^ 24" using n b(3) by simp
  have pi: "pad4 (pad w + (raw wi - 4)) = pad w + (pad wi - 4)"
  proof -
    have "pad wi = pad4 (raw wi - 4) + 4" using pad4_add4 [of "raw wi - 4"] b(3) by (simp add: pad_eq)
    then show ?thesis by (simp add: pad4_add_dvd [OF pad_dvd])
  qed
  have r: "rd_be32 (buf b) (length A) = Some w" "rd_be32 (buf b) (length (A @ be32 w @ P)) = Some wi"
    unfolding b(1) using rd_be32_app [OF refl, of "A @ be32 w @ P" wi "Pi @ R"] by (simp_all add: rd_be32_app)
  have "blob_nest_end b (attr_to_offset (length A)) =
      Some (b\<lparr>buf := A @ be32 (upd_len w ?len) @ P @ be32 wi @ Pi @ R, head := Some (length A)\<rparr>)"
    using r set_raw_len_app [of "length A" A w "P @ be32 wi @ Pi @ R" ?len]
    by (simp add: blob_nest_end_def b(1,2) blob_pad_len_def blob_len_def)
  moreover have "upd_len w ?len = set_len w (pad w + (raw wi - 4))" by (rule set_len_unat [OF len])
  moreover have "4 \<le> pad wi" using b(3) pad_ge_raw [of wi] by simp
  ultimately show ?thesis
    using b w set_len_props [OF bnd, of w] pi by (intro exI conjI) (auto simp: blob_view_def)
qed

lemma blob_buf_init_ok:
  assumes "4 dvd length (buf b)" and "length (buf b) < 2 ^ 30"
  shows "(\<exists>b' R'. blob_buf_init alloc b i = Some (0, b') \<and> blob_view b' [] (new_hdr i 0) [] R') \<or>
    (blob_buf_init alloc b i = Some (-12, b\<lparr>head := Some 0\<rparr>) \<and> (\<exists>k. \<not> alloc k))"
proof -
  have "buf (b\<lparr>head := Some 0\<rparr>) = [] @ buf b" by simp
  from blob_add_ok [OF this, of 0 alloc i] assms raw_new_hdr [of 0 i] pad_new_hdr [of 0 i] show ?thesis
    by (auto simp: blob_buf_init_def blob_view_def pad4_def)
qed


section \<open>Trees of attributes\<close>

text \<open>The abstract content of a message: values and nested groups, and how a client writes them.\<close>

datatype battr = Leaf int "byte list" | Nest int "battr list"

fun enc_attr :: "battr \<Rightarrow> byte list" and enc_attrs :: "battr list \<Rightarrow> byte list" where
  "enc_attr (Leaf i bs) = enc i bs"
| "enc_attr (Nest i ts) = be32 (new_hdr i (length (enc_attrs ts))) @ enc_attrs ts"
| "enc_attrs [] = []"
| "enc_attrs (t # ts) = enc_attr t @ enc_attrs ts"

fun write_attr :: "(nat \<Rightarrow> bool) \<Rightarrow> battr \<Rightarrow> blob_buf \<Rightarrow> blob_buf option"
  and write_attrs :: "(nat \<Rightarrow> bool) \<Rightarrow> battr list \<Rightarrow> blob_buf \<Rightarrow> blob_buf option" where
  "write_attr alloc (Leaf i bs) b = do {
     (_, b) \<leftarrow> blob_put alloc b i (Some bs) (word_of_nat (length bs));
     Some b
   }"
| "write_attr alloc (Nest i ts) b = do {
     (c, b) \<leftarrow> blob_nest_start alloc b i;
     b \<leftarrow> write_attrs alloc ts b;
     cookie \<leftarrow> c;
     blob_nest_end b cookie
   }"
| "write_attrs alloc [] b = Some b"
| "write_attrs alloc (t # ts) b = write_attr alloc t b \<bind> write_attrs alloc ts"

lemma length_enc_attr: "4 \<le> length (enc_attr t)" "4 dvd length (enc_attr t)" "4 dvd length (enc_attrs ts)"
proof -
  show a: "4 dvd length (enc_attr t)" and "4 dvd length (enc_attrs ts)"
    by (induction t and ts rule: enc_attr_enc_attrs.induct) (auto simp: length_enc pad4_bounds)
  show "4 \<le> length (enc_attr t)"
    using pad4_bounds(1) [of "length bs + 4" for bs :: "byte list"]
    by (cases t) (auto simp: length_enc intro: order_trans [OF _ pad4_bounds(1)])
qed

lemma write_attrs_ok:
  assumes alloc: "\<And>k. alloc k"
  shows "blob_view b A w P R \<Longrightarrow> 4 dvd raw w \<Longrightarrow> length A + raw w + length (enc_attr t) < 2 ^ 24 \<Longrightarrow>
      \<exists>b' R'. write_attr alloc t b = Some b' \<and>
        blob_view b' A (set_len w (raw w + length (enc_attr t))) (P @ enc_attr t) R'"
    and "blob_view b A w P R \<Longrightarrow> 4 dvd raw w \<Longrightarrow> length A + raw w + length (enc_attrs ts) < 2 ^ 24 \<Longrightarrow>
      \<exists>b' R'. write_attrs alloc ts b = Some b' \<and>
        blob_view b' A (set_len w (raw w + length (enc_attrs ts))) (P @ enc_attrs ts) R'"
proof (induction t and ts arbitrary: b A w P R and b A w P R rule: enc_attr_enc_attrs.induct)
  case (1 i bs)
  then have p: "pad w = raw w" by (simp add: pad_eq)
  have "length A + pad w + length (enc i bs) < 2 ^ 24" using "1.prems"(3) p by simp
  from blob_put_appends [OF "1.prems"(1) this, of alloc] obtain b' R' where
      "blob_put alloc b i (Some bs) (word_of_nat (length bs)) = Some (Some (length A + pad w), b')"
      "blob_view b' A (set_len w (pad w + length (enc i bs))) (P @ enc i bs) R'"
    using alloc unfolding appends_def by blast
  with p show ?case by auto
next
  case (2 i ts)
  let ?n = "length (enc_attrs ts)"
  let ?w = "set_len w (raw w + 4)"
  have p: "pad w = raw w" using "2.prems"(2) by (simp add: pad_eq)
  have dvd: "4 dvd ?n" by (rule length_enc_attr)
  have bnd: "raw w + 4 < 2 ^ 24" "length A + raw w + 4 + ?n < 2 ^ 24" "4 \<le> raw w" "4 dvd length A"
    "length P = raw w - 4"
    using "2.prems"(1,3) p by (auto simp: blob_view_def)
  obtain b1 R1 where b1: "blob_nest_start alloc b i = Some (Some (attr_to_offset (length A)), b1)"
      "blob_view b1 (A @ be32 ?w @ P) (new_hdr i 0) [] R1"
    using blob_nest_start_ok [OF "2.prems"(1), of alloc i] bnd alloc unfolding p by force
  note h0 = raw_new_hdr [of 0 i] and w' = set_len_props [OF bnd(1), of w]
  obtain b2 R2 where b2: "write_attrs alloc ts b1 = Some b2"
      "blob_view b2 (A @ be32 ?w @ P) (set_len (new_hdr i 0) (4 + ?n)) (enc_attrs ts) R2"
    using "2.IH" [OF b1(2)] h0 bnd p by (auto simp: add.commute)
  have hi: "set_len (new_hdr i 0) (4 + ?n) = new_hdr i ?n" by (simp add: set_len_new_hdr)
  have ri: "raw (new_hdr i ?n) = ?n + 4" using bnd by (intro raw_new_hdr) simp
  have pw: "pad ?w = length P + 8" using w' bnd "2.prems"(2) by (simp add: pad4_add4)
  obtain b3 where b3: "blob_nest_end b2 (attr_to_offset (length A)) = Some b3"
      "blob_view b3 A (set_len ?w (pad ?w + ?n)) (P @ be32 (new_hdr i ?n) @ enc_attrs ts) R2"
    using blob_nest_end_ok [of b2 A ?w P "new_hdr i ?n" "enc_attrs ts" R2] b2(2) hi ri bnd w' pw by auto
  have "raw w + length (enc_attr (Nest i ts)) = pad ?w + ?n" using pw bnd by simp
  with b1(1) b2(1) b3 show ?case by (auto simp: add.assoc)
next
  case 3
  then show ?case by (auto simp: set_len_raw)
next
  case (4 t ts)
  let ?w = "set_len w (raw w + length (enc_attr t))"
  obtain b1 R1 where b1: "write_attr alloc t b = Some b1" "blob_view b1 A ?w (P @ enc_attr t) R1"
    using "4.IH"(1) [OF "4.prems"(1,2)] "4.prems"(3) by auto
  have "raw ?w = raw w + length (enc_attr t)" using "4.prems"(3) by (intro set_len_props) simp
  moreover from this have "4 dvd raw ?w" using "4.prems"(2) length_enc_attr(2) [of t] by simp
  ultimately obtain b2 R2 where "write_attrs alloc ts b1 = Some b2"
      "blob_view b2 A (set_len ?w (raw ?w + length (enc_attrs ts))) ((P @ enc_attr t) @ enc_attrs ts) R2"
    using "4.IH"(2) [OF b1(2)] "4.prems"(3) by auto
  with b1(1) \<open>raw ?w = _\<close> show ?case by (auto simp: add.assoc)
qed


section \<open>Reading back\<close>

fun attr_id :: "battr \<Rightarrow> nat" where
  "attr_id (Leaf i bs) = nat (i mod 128)"
| "attr_id (Nest i ts) = nat (i mod 128)"

fun attr_payload :: "battr \<Rightarrow> byte list" where
  "attr_payload (Leaf i bs) = bs"
| "attr_payload (Nest i ts) = enc_attrs ts"

text \<open>The ids and payloads of the attributes inside the one at \<open>p\<close>, as \<open>blob_for_each_attr\<close> visits them.\<close>

definition read_at :: "byte list \<Rightarrow> nat \<Rightarrow> (nat \<times> byte list) option" where
  "read_at m q = do {
     i \<leftarrow> blob_id m q;
     n \<leftarrow> blob_len m q;
     bs \<leftarrow> mem_read m (blob_data q) (unat n);
     Some (i, bs)
   }"

definition children :: "byte list \<Rightarrow> nat \<Rightarrow> (nat \<times> byte list) list option" where
  "children m p = do {
     ps \<leftarrow> blob_for_each_attr m (Some p);
     those (map (read_at m) ps)
   }"

lemma enc_attr_shape:
  assumes "length (enc_attr t) < 2 ^ 24"
  shows "\<exists>w Y. enc_attr t = be32 w @ attr_payload t @ Y \<and> hdr_id w = attr_id t \<and>
    raw w = length (attr_payload t) + 4 \<and> pad w = length (enc_attr t)"
proof (cases t)
  case (Leaf i bs)
  have "length bs + 4 < 2 ^ 24" using assms Leaf pad4_bounds(1) [of "length bs + 4"] by (simp add: length_enc)
  from raw_new_hdr [OF this, of i] pad_new_hdr [OF this, of i] show ?thesis
    by (auto simp: Leaf enc_def length_enc pad4_add4 pad4_bounds(1))
next
  case (Nest i ts)
  have "length (enc_attrs ts) + 4 < 2 ^ 24" using assms Nest by simp
  from raw_new_hdr [OF this, of i] pad_new_hdr [OF this, of i] length_enc_attr(3) [of ts] show ?thesis
    by (auto simp: Nest)
qed

lemma read_at_enc:
  assumes "length (enc_attr t) < 2 ^ 24"
  shows "read_at (Q @ enc_attr t @ R) (length Q) = Some (attr_id t, attr_payload t)"
    and "blob_pad_len (Q @ enc_attr t @ R) (length Q) = Some (word_of_nat (length (enc_attr t)))"
proof -
  from enc_attr_shape [OF assms] obtain w Y where w: "enc_attr t = be32 w @ attr_payload t @ Y"
    "hdr_id w = attr_id t" "raw w = length (attr_payload t) + 4" "pad w = length (enc_attr t)" by blast
  let ?m = "Q @ enc_attr t @ R"
  have r: "rd_be32 ?m (length Q) = Some w" by (simp add: w(1) rd_be32_app)
  have "mem_read ((Q @ be32 w) @ attr_payload t @ (Y @ R)) (length Q + 4) (length (attr_payload t)) = Some (attr_payload t)"
    by (rule mem_read_app) simp_all
  then show "read_at ?m (length Q) = Some (attr_id t, attr_payload t)"
    using r w(2,3) hdr_len_raw [of w] by (simp add: read_at_def blob_id_def blob_len_def blob_data_def w(1))
  show "blob_pad_len ?m (length Q) = Some (word_of_nat (length (enc_attr t)))"
    using r w(4) by (simp add: blob_pad_len_def flip: w(4))
qed

lemma iter_enc:
  "length (enc_attrs ts) < 2 ^ 24 \<Longrightarrow>
   \<exists>ps. blob_iter (Q @ enc_attrs ts @ R) (length Q) (int (length (enc_attrs ts))) = Some ps \<and>
     those (map (read_at (Q @ enc_attrs ts @ R)) ps) = Some (map (\<lambda>t. (attr_id t, attr_payload t)) ts)"
proof (induction ts arbitrary: Q)
  case Nil
  then show ?case by (simp add: blob_iter.simps)
next
  case (Cons t ts)
  let ?n = "length (enc_attr t)" and ?m = "Q @ enc_attr t @ enc_attrs ts @ R"
  have n: "?n < 2 ^ 24" "4 \<le> ?n" using Cons.prems length_enc_attr(1) [of t] by simp_all
  note r = read_at_enc [OF n(1), of Q "enc_attrs ts @ R"]
  obtain ps where ps: "blob_iter ?m (length Q + ?n) (int (length (enc_attrs ts))) = Some ps"
      "those (map (read_at ?m) ps) = Some (map (\<lambda>t. (attr_id t, attr_payload t)) ts)"
    using Cons.IH [of "Q @ enc_attr t"] Cons.prems by auto
  have u: "uint (word_of_nat ?n :: u32) = int ?n" "unat (word_of_nat ?n :: u32) = ?n" "4 \<le> (word_of_nat ?n :: u32)"
    using n by (auto simp: uint_nat word_le_nat_alt)
  have "blob_iter ?m (length Q) (int (length (enc_attrs (t # ts)))) = Some (length Q # ps)"
    using n r(2) ps(1) u by (subst blob_iter.simps) simp
  with ps(2) r(1) show ?case by simp
qed

lemma children_enc:
  assumes "length (enc_attrs ts) + 4 < 2 ^ 24" and "raw w = length (enc_attrs ts) + 4"
  shows "children (Q @ be32 w @ enc_attrs ts @ R) (length Q) = Some (map (\<lambda>t. (attr_id t, attr_payload t)) ts)"
proof -
  let ?m = "Q @ be32 w @ enc_attrs ts @ R"
  have l: "blob_len ?m (length Q) = Some (hdr_len w)" "unat (hdr_len w) = length (enc_attrs ts)"
    using assms hdr_len_raw [of w] by (simp_all add: blob_len_def rd_be32_app)
  then have "to_int32 (uint (hdr_len w)) = int (length (enc_attrs ts))" using assms by (simp add: uint_nat)
  with l iter_enc [of ts "Q @ be32 w" R] assms show ?thesis
    by (auto simp: children_def blob_for_each_attr_def blob_data_def)
qed


section \<open>Walking untrusted input\<close>

text \<open>
  On any bytes at all the walk ends and visits only attributes that lie, padding included, in the
  \<open>rem\<close> bytes it was given. The header it reads before it stops may lie up to three bytes beyond
  them, unless their number is a multiple of four.
\<close>

lemma blob_iter_safe:
  assumes "int p + rem + (if 4 dvd rem then 0 else 3) \<le> int (length m)"
  shows "\<exists>ps. blob_iter m p rem = Some ps \<and>
    (\<forall>q\<in>set ps. p \<le> q \<and> 4 dvd q - p \<and>
      (\<exists>w. rd_be32 m q = Some w \<and> 4 \<le> pad w \<and> int (q + pad w) \<le> int p + rem)) \<and> sorted_wrt (<) ps"
  using assms
proof (induction m p rem rule: blob_iter.induct)
  case (1 m p rem)
  show ?case
  proof (cases "0 < rem")
    case True
    have "p + 4 \<le> length m" using 1(2) True by (cases "4 dvd rem") (auto elim!: dvdE)
    then obtain w where w: "rd_be32 m p = Some w" by (simp add: rd_be32_def)
    then have n: "blob_pad_len m p = Some (hdr_pad_len w)" by (simp add: blob_pad_len_def)
    show ?thesis
    proof (cases "uint (hdr_pad_len w) \<le> rem \<and> hdr_pad_len w \<ge> 4")
      case ok: True
      then have ge: "4 \<le> pad w" by (simp add: word_le_nat_alt)
      have d: "4 dvd rem - uint (hdr_pad_len w) \<longleftrightarrow> 4 dvd rem"
      proof -
        obtain k where "pad w = 4 * k" using pad_dvd [of w] by (elim dvdE)
        then have "uint (hdr_pad_len w) = 4 * int k" by (metis uint_nat of_nat_mult of_nat_numeral)
        then show ?thesis by presburger
      qed
      have "int (p + pad w) + (rem - uint (hdr_pad_len w)) +
          (if 4 dvd rem - uint (hdr_pad_len w) then 0 else 3) \<le> int (length m)"
        unfolding d using 1(2) by simp
      from 1(1) [OF True n ok this] obtain ps where ps: "blob_iter m (p + pad w) (rem - uint (hdr_pad_len w)) = Some ps"
        "\<forall>q\<in>set ps. p + pad w \<le> q \<and> 4 dvd q - (p + pad w) \<and>
          (\<exists>v. rd_be32 m q = Some v \<and> 4 \<le> pad v \<and> int (q + pad v) \<le> int (p + pad w) + (rem - uint (hdr_pad_len w)))"
        "sorted_wrt (<) ps" by auto
      have "blob_iter m p rem = Some (p # ps)" using True n ok ps(1) by (subst blob_iter.simps) simp
      moreover have "4 dvd q - p" if "q \<in> set ps" for q
      proof -
        have "q - p = (q - (p + pad w)) + pad w" using ps(2) that by auto
        then show ?thesis using ps(2) that pad_dvd [of w] by (metis dvd_add)
      qed
      moreover have "p < q \<and> int (q + unat (hdr_pad_len v)) \<le> int p + rem"
        if "q \<in> set ps" "rd_be32 m q = Some v" for q v
        using ps(2) that ge by force
      ultimately show ?thesis using ps(2,3) w ge ok by auto
    next
      case False
      with True n show ?thesis by (subst blob_iter.simps) auto
    qed
  qed (simp add: blob_iter.simps)
qed

text \<open>What \<open>blob_parse\<close> leaves in \<open>data[i]\<close>: the last attribute with that id that passes the policy.\<close>

definition last_valid :: "byte list \<Rightarrow> blob_attr_info list option \<Rightarrow> nat list \<Rightarrow> nat \<Rightarrow> nat option" where
  "last_valid m info ps i =
     (let xs = filter (\<lambda>q. blob_id m q = Some i \<and> blob_attr_valid m q info i = Some True) ps
      in if xs = [] then None else Some (last xs))"

lemma blob_parse_loop_spec:
  assumes "blob_parse_loop m info ps found data = Some (found', data')"
  shows "length data' = length data \<and>
    (\<forall>i<length data. data' ! i = (case last_valid m info ps i of None \<Rightarrow> data ! i | Some q \<Rightarrow> Some q)) \<and>
    (found = int (card {i. i < length data \<and> data ! i \<noteq> None}) \<longrightarrow>
      found' = int (card {i. i < length data' \<and> data' ! i \<noteq> None}))"
  using assms
proof (induction ps arbitrary: found data)
  case Nil
  then show ?case by (simp add: last_valid_def)
next
  case (Cons p ps)
  then obtain k where k: "blob_id m p = Some k" by (auto simp: bind_eq_Some_conv)
  show ?case
  proof (cases "k < length data \<and> blob_attr_valid m p info k = Some True")
    case True
    have "{i. i < length data \<and> (data[k := Some p]) ! i \<noteq> None} =
        insert k {i. i < length data \<and> data ! i \<noteq> None}"
      using True by (auto simp: nth_list_update)
    then have "found = int (card {i. i < length data \<and> data ! i \<noteq> None}) \<Longrightarrow>
        (if data ! k = None then found + 1 else found) =
          int (card {i. i < length data \<and> (data[k := Some p]) ! i \<noteq> None})"
      using True by (auto simp: card_insert_if)
    moreover have "last_valid m info (p # ps) i =
        (case last_valid m info ps i of None \<Rightarrow> (if i = k then Some p else None) | Some q \<Rightarrow> Some q)" for i
      using True k by (auto simp: last_valid_def Let_def)
    ultimately show ?thesis
      using Cons.IH [of "if data ! k = None then found + 1 else found" "data[k := Some p]"] Cons.prems True k
      by (auto simp: nth_list_update split: option.splits if_splits)
  next
    case False
    then have "blob_parse_loop m info ps found data = Some (found', data')"
      using Cons.prems k by (auto simp: bind_eq_Some_conv split: if_splits)
    moreover have "last_valid m info (p # ps) i = last_valid m info ps i" if "i < length data" for i
      using False k that by (auto simp: last_valid_def)
    ultimately show ?thesis using Cons.IH [of found data] by auto
  qed
qed


lemma blob_attr_valid_defined:
  assumes "rd_be32 m q = Some w" and "4 \<le> raw w" and "q + raw w \<le> length m"
    and "\<forall>infos. info = Some infos \<longrightarrow> i < length infos \<and> uint (itype (infos ! i)) < 2 ^ 31"
  shows "\<exists>v. blob_attr_valid m q info i = Some v"
proof (cases info)
  case (Some infos)
  let ?ty = "to_int32 (uint (itype (infos ! i)))"
  have ty: "0 \<le> ?ty" using assms(4) Some by (subst to_int32_id) (auto intro: order_trans [OF _ uint_ge_0])
  have len: "blob_len m q = Some (hdr_len w)" "unat (hdr_len w) = raw w - 4"
    using assms hdr_len_raw by (simp_all add: blob_len_def)
  have "\<exists>v. blob_check_type m (blob_data q) (hdr_len w) ?ty = Some v"
  proof (cases "?ty = 3 \<and> \<not> hdr_len w < 1")
    case True
    then have "1 \<le> hdr_len w" using linorder_not_less by blast
    then have "unat (hdr_len w - 1) = unat (hdr_len w) - 1" "1 \<le> unat (hdr_len w)"
      by (simp_all add: unat_sub word_le_nat_alt)
    then have "rd8 m (blob_data q + unat (hdr_len w - 1)) \<noteq> None"
      using len assms(2,3) by (simp add: rd8_def blob_data_def)
    with True show ?thesis by (auto simp: blob_check_type_def blob_type_minlen_def)
  next
    case False
    with ty show ?thesis by (auto simp: blob_check_type_def blob_type_minlen_def)
  qed
  with Some assms(4) len show ?thesis by (auto simp: blob_attr_valid_def Let_def)
qed (auto simp: blob_attr_valid_def intro: exI [of _ True])

lemma blob_parse_loop_defined:
  assumes "\<forall>q\<in>set ps. \<exists>w. rd_be32 m q = Some w \<and> 4 \<le> raw w \<and> q + raw w \<le> length m"
    and "\<forall>infos. info = Some infos \<longrightarrow> length data \<le> length infos \<and> (\<forall>e\<in>set infos. uint (itype e) < 2 ^ 31)"
  shows "\<exists>res. blob_parse_loop m info ps found data = Some res"
  using assms
proof (induction ps arbitrary: found data)
  case (Cons p ps)
  then obtain w where w: "rd_be32 m p = Some w" "4 \<le> raw w" "p + raw w \<le> length m" by auto
  show ?case
  proof (cases "hdr_id w < length data")
    case True
    obtain v where "blob_attr_valid m p info (hdr_id w) = Some v"
      using blob_attr_valid_defined [OF w, of info "hdr_id w"] Cons.prems(2) True by force
    with Cons w show ?thesis by (simp add: blob_id_def)
  next
    case False
    with Cons w show ?thesis by (simp add: blob_id_def)
  qed
qed simp

section \<open>Properties\<close>

text \<open>
  C13: Whatever tree of values and nested groups a client writes with \<open>blob_buf_init\<close>, \<open>blob_put\<close>,
  \<open>blob_nest_start\<close> and \<open>blob_nest_end\<close> into a fresh buffer (below the 24-bit length limit and with
  memory available), no write leaves the buffer, and \<open>blob_for_each_attr\<close> on the result visits exactly
  the attributes that were put, in order, with their ids (7 bits) and payloads.
\<close>

theorem blob_write_read:
  assumes "length (enc_attrs ts) + 4 < 2 ^ 24" and "\<forall>k. alloc k"
  shows "\<exists>b b'. blob_buf_init alloc \<lparr>buf = [], head = None\<rparr> i = Some (0, b) \<and>
    write_attrs alloc ts b = Some b' \<and> head b' = Some 0 \<and> read_at (buf b') 0 = Some (nat (i mod 128), enc_attrs ts) \<and>
    children (buf b') 0 = Some (map (\<lambda>t. (attr_id t, attr_payload t)) ts)"
proof -
  let ?n = "length (enc_attrs ts)"
  obtain b R where b: "blob_buf_init alloc \<lparr>buf = [], head = None\<rparr> i = Some (0, b)"
      "blob_view b [] (new_hdr i 0) [] R"
    using blob_buf_init_ok [of "\<lparr>buf = [], head = None\<rparr>" alloc i] assms(2) by auto
  note h0 = raw_new_hdr [of 0 i]
  obtain b' R' where b': "write_attrs alloc ts b = Some b'"
      "blob_view b' [] (set_len (new_hdr i 0) (4 + ?n)) (enc_attrs ts) R'"
    using write_attrs_ok(2) [OF _ b(2), of alloc ts] assms h0 by auto
  have hi: "set_len (new_hdr i 0) (4 + ?n) = new_hdr i ?n" by (simp add: set_len_new_hdr)
  have buf: "buf b' = [] @ be32 (new_hdr i ?n) @ enc_attrs ts @ R'" "head b' = Some 0"
    using b'(2) hi by (auto simp: blob_view_def)
  have "children (buf b') 0 = Some (map (\<lambda>t. (attr_id t, attr_payload t)) ts)"
    using children_enc [of ts "new_hdr i ?n" "[]" R'] assms(1) raw_new_hdr [of ?n i] unfolding buf(1) by simp
  moreover have "read_at (buf b') 0 = Some (nat (i mod 128), enc_attrs ts)"
    using read_at_enc(1) [of "Nest i ts" "[]" R'] assms(1) unfolding buf(1) by simp
  ultimately show ?thesis using b(1) b'(1) buf(2) by blast
qed

theorem blob_write_read_witness:
  "\<exists>b b'. blob_buf_init (\<lambda>_. True) \<lparr>buf = [], head = None\<rparr> 0 = Some (0, b) \<and>
    write_attrs (\<lambda>_. True) [Leaf 3 [7, 8, 9], Nest 2 [Leaf 1 [5]]] b = Some b' \<and> head b' = Some 0 \<and>
    read_at (buf b') 0 = Some (0, enc_attrs [Leaf 3 [7, 8, 9], Nest 2 [Leaf 1 [5]]]) \<and>
    children (buf b') 0 = Some [(3, [7, 8, 9]), (2, enc 1 [5])]"
  using blob_write_read [of "[Leaf 3 [7, 8, 9], Nest 2 [Leaf 1 [5]]]" "\<lambda>_. True" 0]
  by (simp add: length_enc pad4_def)

text \<open>
  For any allocator, \<open>blob_put\<close> on a valid buffer either appends exactly the encoding of the
  attribute to the head attribute, adjusting only the head's length, or returns \<open>NULL\<close> because an
  allocation failed and then leaves the buffer as it was. It never writes outside the buffer.
\<close>

theorem blob_put_correct:
  assumes "blob_view b A w P R" and "length A + pad w + length (enc i bs) < 2 ^ 24"
  shows "(\<exists>b' R'. blob_put alloc b i (Some bs) (word_of_nat (length bs)) = Some (Some (length A + pad w), b') \<and>
      blob_view b' A (set_len w (pad w + length (enc i bs))) (P @ enc i bs) R') \<or>
    (blob_put alloc b i (Some bs) (word_of_nat (length bs)) = Some (None, b) \<and> (\<exists>k. \<not> alloc k))"
  using blob_put_appends [OF assms, of alloc] unfolding appends_def by blast

lemma sample_view: "blob_view \<lparr>buf = be32 (new_hdr 0 0) @ replicate 252 0, head = Some 0\<rparr> [] (new_hdr 0 0) [] (replicate 252 0)"
  using raw_new_hdr [of 0 0] pad_new_hdr [of 0 0] by (simp add: blob_view_def pad4_def)

theorem blob_put_correct_witness:
  "\<exists>b' R'. blob_put (\<lambda>_. True) \<lparr>buf = be32 (new_hdr 0 0) @ replicate 252 0, head = Some 0\<rparr> 5 (Some [1, 2]) 2 =
      Some (Some 4, b') \<and> blob_view b' [] (set_len (new_hdr 0 0) 12) (enc 5 [1, 2]) R'"
  using blob_put_correct [OF sample_view, of 5 "[1, 2]" "\<lambda>_. True"] pad_new_hdr [of 0 0]
  by (simp add: length_enc pad4_def)

text \<open>
  C14: On arbitrary bytes, \<open>blob_for_each_attr\<close> terminates and visits, in increasing order, only
  four-byte aligned attributes that lie with their padding inside the \<open>rem\<close> bytes it walks; it reads
  no memory outside them, apart from at most three bytes after them when \<open>rem\<close> is not a multiple of
  four.
\<close>

theorem blob_iter_in_bounds:
  assumes "int p + rem + (if 4 dvd rem then 0 else 3) \<le> int (length m)"
  shows "\<exists>ps. blob_iter m p rem = Some ps \<and>
    (\<forall>q\<in>set ps. p \<le> q \<and> 4 dvd q - p \<and>
      (\<exists>w. rd_be32 m q = Some w \<and> 4 \<le> pad w \<and> int (q + pad w) \<le> int p + rem)) \<and> sorted_wrt (<) ps"
  using blob_iter_safe [OF assms] .

theorem blob_iter_in_bounds_witness:
  "\<exists>ps. blob_iter (be32 5 @ [1, 2, 3, 4, 255, 255, 255, 255]) 0 12 = Some ps \<and>
    (\<forall>q\<in>set ps. 4 dvd q) \<and> sorted_wrt (<) ps"
  using blob_iter_in_bounds [of 0 12 "be32 5 @ [1, 2, 3, 4, 255, 255, 255, 255]"] by auto


text \<open>
  C15: \<open>blob_parse\<close> on a message whose attributes all have at least a full header in their length is
  defined whatever their contents, ids and padding; afterwards \<open>data[i]\<close> is the last attribute with id
  \<open>i\<close> that passes the policy \<open>info[i]\<close> and \<open>NULL\<close> when there is none, and the return value counts the
  entries set.
\<close>

theorem blob_parse_correct:
  assumes "rd_be32 m p = Some w" and "4 \<le> raw w" and "p + raw w + (if 4 dvd raw w then 0 else 3) \<le> length m"
    and "\<forall>ps q v. blob_for_each_attr m (Some p) = Some ps \<and> q \<in> set ps \<and> rd_be32 m q = Some v \<longrightarrow> 4 \<le> raw v"
    and "\<forall>infos. info = Some infos \<longrightarrow> mx \<le> length infos \<and> (\<forall>e\<in>set infos. uint (itype e) < 2 ^ 31)"
  shows "\<exists>ps found data. blob_for_each_attr m (Some p) = Some ps \<and> blob_parse m (Some p) info mx = Some (found, data) \<and>
    length data = mx \<and> (\<forall>i<mx. data ! i = last_valid m info ps i) \<and>
    found = int (card {i. i < mx \<and> data ! i \<noteq> None})"
proof -
  have len: "blob_len m p = Some (hdr_len w)" "unat (hdr_len w) = raw w - 4"
    using assms hdr_len_raw by (simp_all add: blob_len_def)
  have rem: "to_int32 (uint (hdr_len w)) = int (raw w - 4)"
    using len(2) raw_bound [of w] uint_nat [of "hdr_len w"] by (subst to_int32_id) simp_all
  have arith: "int (p + 4) + int (r - 4) + (if 4 dvd int (r - 4) then 0 else 3) \<le> int (length m)"
    if "4 \<le> r" "p + r + (if 4 dvd r then 0 else 3) \<le> length m" for r :: nat
    using that by (cases "4 dvd r") (auto simp: dvd_diff_commute of_nat_diff)
  have "int (blob_data p) + int (raw w - 4) + (if 4 dvd int (raw w - 4) then 0 else 3) \<le> int (length m)"
    unfolding blob_data_def by (rule arith [OF assms(2,3)])
  from blob_iter_safe [OF this] obtain ps where ps: "blob_iter m (blob_data p) (int (raw w - 4)) = Some ps"
    "\<forall>q\<in>set ps. \<exists>v. rd_be32 m q = Some v \<and> int (q + pad v) \<le> int (blob_data p) + int (raw w - 4)" by blast
  have fe: "blob_for_each_attr m (Some p) = Some ps" using len rem ps(1) by (simp add: blob_for_each_attr_def)
  have "\<forall>q\<in>set ps. \<exists>v. rd_be32 m q = Some v \<and> 4 \<le> raw v \<and> q + raw v \<le> length m"
  proof
    fix q assume "q \<in> set ps"
    with ps(2) obtain v where v: "rd_be32 m q = Some v" "int (q + pad v) \<le> int (blob_data p) + int (raw w - 4)" by blast
    moreover have "4 \<le> raw v" using assms(4) fe \<open>q \<in> set ps\<close> v(1) by blast
    moreover have "q + raw v \<le> length m"
    proof -
      have "q + pad v \<le> blob_data p + (raw w - 4)" using v(2) by (metis of_nat_add of_nat_le_iff)
      then show ?thesis using pad_ge_raw [of v] assms(2,3) by (simp add: blob_data_def split: if_splits)
    qed
    ultimately show "\<exists>v. rd_be32 m q = Some v \<and> 4 \<le> raw v \<and> q + raw v \<le> length m" by blast
  qed
  from blob_parse_loop_defined [OF this, of info "replicate mx None" 0] assms(5) obtain found data where
    r: "blob_parse_loop m info ps 0 (replicate mx None) = Some (found, data)" by force
  have "blob_parse m (Some p) info mx = Some (found, data)" by (simp add: blob_parse_def fe r)
  moreover have "{i. i < mx \<and> replicate mx None ! i \<noteq> None} = {}" by auto
  ultimately show ?thesis using blob_parse_loop_spec [OF r] fe
    by (intro exI [of _ ps] exI [of _ found] exI [of _ data]) (auto split: option.splits)
qed


definition sample_msg :: "byte list" where
  "sample_msg = [0, 0, 0, 20, 1, 0, 0, 6, 97, 0, 0, 0, 2, 0, 0, 8, 0, 0, 0, 5]"

definition sample_policy :: "blob_attr_info list" where
  "sample_policy = map (\<lambda>t. \<lparr>itype = t, minlen = 0, maxlen = 0, validate = None\<rparr>) [0, 3, 6]"

lemma sample_msg_attrs: "blob_for_each_attr sample_msg (Some 0) = Some [4, 12]"
  by (simp add: sample_msg_def blob_for_each_attr_def blob_len_def blob_pad_len_def blob_iter.simps
      rd_be32_def of_be32_def hdr_len_def hdr_pad_len_def hdr_raw_len_def to_int32_def blob_data_def)

theorem blob_parse_correct_witness:
  "\<exists>found data. blob_parse sample_msg (Some 0) (Some sample_policy) 3 = Some (found, data) \<and>
    length data = 3 \<and> found = int (card {i. i < 3 \<and> data ! i \<noteq> None})"
proof -
  have hdrs: "rd_be32 sample_msg 0 = Some 20" "rd_be32 sample_msg 4 = Some 0x01000006"
    "rd_be32 sample_msg 12 = Some 0x02000008"
    by (simp_all add: sample_msg_def rd_be32_def of_be32_def)
  have len: "length sample_msg = 20" by (simp add: sample_msg_def)
  have "\<exists>ps found data. blob_for_each_attr sample_msg (Some 0) = Some ps \<and>
      blob_parse sample_msg (Some 0) (Some sample_policy) 3 = Some (found, data) \<and>
      length data = 3 \<and> (\<forall>i<3. data ! i = last_valid sample_msg (Some sample_policy) ps i) \<and>
      found = int (card {i. i < 3 \<and> data ! i \<noteq> None})"
    by (rule blob_parse_correct [OF hdrs(1)])
      (use hdrs len in \<open>auto simp: raw_eq sample_msg_attrs sample_policy_def\<close>)
  then show ?thesis by blast
qed

text \<open>
  C16: An attribute whose length field is 1, 2 or 3, less than its own header, passes the checks of the
  iteration (its padded length is 4), and \<open>blob_len\<close> of it wraps around to almost \<open>2 ^ 32\<close>. When the
  policy has \<open>BLOB_ATTR_STRING\<close> for its id, \<open>blob_parse\<close> then reads the byte at that offset, far outside
  the message.
\<close>

theorem blob_parse_short_attr:
  assumes "rd_be32 m 0 = Some w" and "raw w = 8" and "rd_be32 m 4 = Some v" and "1 \<le> raw v" and "raw v < 4"
    and "hdr_id v < length infos" and "itype (infos ! hdr_id v) = 3" and "length m < 2 ^ 31"
  shows "blob_parse m (Some 0) (Some infos) (length infos) = None"
proof -
  have "pad v = 4" using assms(4,5) by (simp add: pad_eq pad4_def)
  then have p: "blob_pad_len m 4 = Some 4"
    using assms(3) word_eq_of_unat [of "hdr_pad_len v"] by (simp add: blob_pad_len_def)
  have "unat (hdr_len w) = 4" using hdr_len_raw [of w] assms(2) by simp
  then have "to_int32 (uint (hdr_len w)) = 4" by (simp add: uint_nat)
  then have "blob_for_each_attr m (Some 0) = Some [4]"
    using assms(1) p by (simp add: blob_for_each_attr_def blob_len_def blob_data_def blob_iter.simps)
  moreover have "blob_attr_valid m 4 (Some infos) (hdr_id v) = None"
  proof -
    have "raw v = 1 \<or> raw v = 2 \<or> raw v = 3" using assms(4,5) by linarith
    then have "hdr_raw_len v \<in> {1, 2, 3}" using word_eq_of_unat [of "hdr_raw_len v"] by fastforce
    moreover have "hdr_len v = hdr_raw_len v - 4" by (simp add: hdr_raw_len_def)
    ultimately have "unat (hdr_len v - 1) \<ge> 2 ^ 31" "\<not> hdr_len v < 1" by auto
    then have "rd8 m (blob_data 4 + unat (hdr_len v - 1)) = None" "\<not> hdr_len v < 1"
      using assms(8) by (simp_all add: rd8_def)
    then show ?thesis using assms(3,6,7)
      by (simp add: blob_attr_valid_def blob_len_def Let_def blob_check_type_def blob_type_minlen_def)
  qed
  ultimately show ?thesis using assms(3,6) by (simp add: blob_parse_def blob_id_def)
qed


theorem blob_parse_short_attr_witness:
  "blob_parse [0, 0, 0, 8, 1, 0, 0, 1] (Some 0) (Some sample_policy) 3 = None"
proof -
  let ?m = "[0, 0, 0, 8, 1, 0, 0, 1] :: byte list"
  have h: "rd_be32 ?m 0 = Some 8" "rd_be32 ?m 4 = Some 0x01000001" by (simp_all add: rd_be32_def of_be32_def)
  have "blob_parse ?m (Some 0) (Some sample_policy) (length sample_policy) = None"
    by (rule blob_parse_short_attr [OF h(1) _ h(2)]) (simp_all add: raw_eq hdr_id_def sample_policy_def)
  then show ?thesis by (simp add: sample_policy_def numeral_3_eq_3)
qed

end
