(* ===== verification/Blobmsg.thy ===== *)
theory Blobmsg
  imports Blob
begin

text \<open>
  Named and typed attributes: \<open>src/libubox/blobmsg.h\<close> and \<open>src/libubox/blobmsg.c\<close>.

  A blobmsg attribute is a blob attribute with the extension flag whose payload starts with the
  length of a name (16 bits, big-endian), the name and its zero, padded to four bytes; the blob id
  is the type (\<open>UNSPEC\<close> 0, \<open>ARRAY\<close> 1, \<open>TABLE\<close> 2, \<open>STRING\<close> 3, \<open>INT64\<close> 4, \<open>INT32\<close> 5, \<open>INT16\<close> 6, \<open>INT8\<close> 7).
  The conventions are those of \<open>Blob\<close>. Loops whose body returns early are folds \<open>blob_iter_do\<close> with a
  sum for their state: \<open>Inl\<close> leaves the loop. The output of \<open>vsnprintf\<close> is a parameter of
  \<open>blobmsg_vprintf\<close>.

  The lemmas show that a field added is read back with its name, type and data, that
  \<open>blobmsg_check_attr\<close> admits only attributes whose strings and numbers can be read inside the
  message, and what \<open>blobmsg_parse\<close> selects.
\<close>

section \<open>Headers\<close>

definition blobmsg_hdrlen :: "nat \<Rightarrow> nat" where
  "blobmsg_hdrlen namelen = (2 + namelen + 1 + 3) div 4 * 4"

definition blobmsg_namelen :: "byte list \<Rightarrow> nat \<Rightarrow> u16 option" where
  "blobmsg_namelen m hdr = rd_be16 m hdr"

definition blobmsg_clear_name :: "byte list \<Rightarrow> nat \<Rightarrow> byte list option" where
  "blobmsg_clear_name m p = mem_write m (blob_data p + 2) [0]"

definition blobmsg_name :: "byte list \<Rightarrow> nat \<Rightarrow> cstring option" where
  "blobmsg_name m p = cstr_at m (blob_data p + 2)"

definition blobmsg_type :: "byte list \<Rightarrow> nat \<Rightarrow> nat option" where
  "blobmsg_type m p = blob_id m p"

definition blobmsg_data :: "byte list \<Rightarrow> nat \<Rightarrow> nat option" where
  "blobmsg_data m p = do {
     ext \<leftarrow> blob_is_extended m p;
     if ext then do {
       nl \<leftarrow> blobmsg_namelen m (blob_data p);
       Some (blob_data p + blobmsg_hdrlen (unat nl))
     }
     else Some (blob_data p)
   }"

definition blobmsg_data_len :: "byte list \<Rightarrow> nat \<Rightarrow> int option" where
  "blobmsg_data_len m p = do {
     len \<leftarrow> blob_len m p;
     d \<leftarrow> blobmsg_data m p;
     Some (to_int32 (uint len - int (d - blob_data p)))
   }"

definition blobmsg_len :: "byte list \<Rightarrow> nat \<Rightarrow> int option" where
  "blobmsg_len m p = blobmsg_data_len m p"

definition blobmsg_is_null :: "byte list \<Rightarrow> nat \<Rightarrow> bool option" where
  "blobmsg_is_null m p = map_option (\<lambda>i. 0 = i) (blob_id m p)"

definition blobmsg_get_u8 :: "byte list \<Rightarrow> nat \<Rightarrow> byte option" where
  "blobmsg_get_u8 m p = (blobmsg_data m p \<bind> rd8 m)"

definition blobmsg_get_bool :: "byte list \<Rightarrow> nat \<Rightarrow> bool option" where
  "blobmsg_get_bool m p = map_option (\<lambda>c. c \<noteq> 0) (blobmsg_data m p \<bind> rd8 m)"

definition blobmsg_get_u16 :: "byte list \<Rightarrow> nat \<Rightarrow> u16 option" where
  "blobmsg_get_u16 m p = (blobmsg_data m p \<bind> rd_be16 m)"

definition blobmsg_get_u32 :: "byte list \<Rightarrow> nat \<Rightarrow> u32 option" where
  "blobmsg_get_u32 m p = (blobmsg_data m p \<bind> rd_be32 m)"

definition blobmsg_get_u64 :: "byte list \<Rightarrow> nat \<Rightarrow> u64 option" where
  "blobmsg_get_u64 m p = do {
     d \<leftarrow> blobmsg_data m p;
     hi \<leftarrow> rd_be32 m d;
     lo \<leftarrow> rd_be32 m (d + 4);
     Some (push_bit 32 (ucast hi) OR ucast lo)
   }"

text \<open>The string a non-\<open>NULL\<close> attribute points to, and \<open>NULL\<close> for \<open>NULL\<close>.\<close>

definition blobmsg_get_string :: "byte list \<Rightarrow> nat option \<Rightarrow> cstring option option" where
  "blobmsg_get_string m attr =
     (case attr of
       None \<Rightarrow> Some None
     | Some p \<Rightarrow> map_option Some (blobmsg_data m p \<bind> cstr_at m))"

section \<open>Validation\<close>

definition blob_type :: "int list" where
  "blob_type = [2, 0, 0, 3, 7, 6, 5, 4]"

definition blobmsg_check_attr :: "byte list \<Rightarrow> nat \<Rightarrow> bool \<Rightarrow> bool option" where
  "blobmsg_check_attr m p name = do {
     len \<leftarrow> blob_len m p;
     if len < 2 then Some False
     else do {
       nl \<leftarrow> blobmsg_namelen m (blob_data p);
       if nl = 0 \<and> name then Some False
       else if unat nl > unat len - 2 then Some False
       else do {
         c \<leftarrow> rd8 m (blob_data p + 2 + unat nl);
         if c \<noteq> 0 then Some False
         else do {
           i \<leftarrow> blob_id m p;
           dlen \<leftarrow> blobmsg_data_len m p;
           d \<leftarrow> blobmsg_data m p;
           if i > 7 then Some False
           else if blob_type ! i = 0 then Some True
           else blob_check_type m d (word_of_int dlen) (blob_type ! i)
         }
       }
     }
   }"

text \<open>A walk over attributes whose body may leave the loop.\<close>

function blob_iter_do ::
    "(nat \<Rightarrow> 's \<Rightarrow> ('r + 's) option) \<Rightarrow> byte list \<Rightarrow> nat \<Rightarrow> int \<Rightarrow> 's \<Rightarrow> ('r + 's) option" where
  "blob_iter_do body m pos rem s =
     (if rem > 0 then do {
        n \<leftarrow> blob_pad_len m pos;
        if uint n \<le> rem \<and> n \<ge> 4 then do {
          r \<leftarrow> body pos s;
          case r of
            Inl x \<Rightarrow> Some (Inl x)
          | Inr s \<Rightarrow> blob_iter_do body m (pos + unat n) (rem - uint n) s
        }
        else Some (Inr s)
      }
      else Some (Inr s))"
  by pat_completeness auto
termination
proof (relation "measure (\<lambda>(body, m, pos, rem, s). nat rem)", goal_cases)
  case (2 body m pos rem s n r s')
  then have "4 \<le> uint n" by (simp add: word_le_def)
  with 2 show ?case by simp
qed simp

declare blob_iter_do.simps [simp del]

definition blobmsg_for_each_attr ::
    "(nat \<Rightarrow> 's \<Rightarrow> ('r + 's) option) \<Rightarrow> byte list \<Rightarrow> nat option \<Rightarrow> 's \<Rightarrow> ('r + 's) option" where
  "blobmsg_for_each_attr body m attr s =
     (case attr of
       None \<Rightarrow> Some (Inr s)
     | Some p \<Rightarrow> do {
         rem \<leftarrow> blobmsg_data_len m p;
         d \<leftarrow> blobmsg_data m p;
         blob_iter_do body m d rem s
       })"

definition blobmsg_check_array :: "byte list \<Rightarrow> nat \<Rightarrow> nat \<Rightarrow> int option" where
  "blobmsg_check_array m p ty = do {
     t \<leftarrow> blobmsg_type m p;
     if t \<noteq> 2 \<and> t \<noteq> 1 then Some (-1)
     else do {
       r \<leftarrow> blobmsg_for_each_attr
         (\<lambda>cur sz. do {
            ct \<leftarrow> blobmsg_type m cur;
            if ty \<noteq> 0 \<and> ct \<noteq> ty then Some (Inl (-1))
            else do {
              ok \<leftarrow> blobmsg_check_attr m cur (t = 2);
              Some (if ok then Inr (sz + 1) else Inl (-1))
            }
          }) m (Some p) 0;
       Some (case r of Inl e \<Rightarrow> e | Inr sz \<Rightarrow> sz)
     }
   }"

definition blobmsg_check_attr_list :: "byte list \<Rightarrow> nat \<Rightarrow> nat \<Rightarrow> bool option" where
  "blobmsg_check_attr_list m p ty = map_option (\<lambda>r. r \<ge> 0) (blobmsg_check_array m p ty)"

section \<open>Parsing\<close>

record blobmsg_policy =
  pname :: "cstring option"
  ptype :: nat

definition blobmsg_parse_array ::
    "blobmsg_policy list \<Rightarrow> byte list \<Rightarrow> nat \<Rightarrow> u32 \<Rightarrow> (int \<times> nat option list) option" where
  "blobmsg_parse_array policy m data len = do {
     r \<leftarrow> blob_iter_do
       (\<lambda>attr (i, tb). do {
          pol \<leftarrow> (if i < length policy then Some (policy ! i) else None);
          t \<leftarrow> blob_id m attr;
          if ptype pol \<noteq> 0 \<and> t \<noteq> ptype pol then Some (Inr (i, tb))
          else do {
            ok \<leftarrow> blobmsg_check_attr m attr False;
            Some (if \<not> ok then Inl (-1, tb)
              else if tb ! i \<noteq> None then Inr (i, tb)
              else if i + 1 = length policy then Inl (0, tb[i := Some attr])
              else Inr (i + 1, tb[i := Some attr]))
          }
        }) m data (uint len) (0, replicate (length policy) None);
     Some (case r of Inl x \<Rightarrow> x | Inr (i, tb) \<Rightarrow> (0, tb))
   }"

text \<open>\<open>pslen[i]\<close> is a \<open>uint8_t\<close>.\<close>

definition pslen :: "cstring \<Rightarrow> nat" where
  "pslen s = length s mod 256"

fun blobmsg_parse_inner ::
    "byte list \<Rightarrow> nat \<Rightarrow> nat \<Rightarrow> blobmsg_policy list \<Rightarrow> nat option list \<Rightarrow> ((int \<times> nat option list) + nat option list) option" where
  "blobmsg_parse_inner m attr i [] tb = Some (Inr tb)"
| "blobmsg_parse_inner m attr i (pol # pols) tb =
     (case pname pol of
       None \<Rightarrow> blobmsg_parse_inner m attr (i + 1) pols tb
     | Some nm \<Rightarrow> do {
         t \<leftarrow> blob_id m attr;
         if ptype pol \<noteq> 0 \<and> t \<noteq> 0 \<and> t \<noteq> ptype pol then blobmsg_parse_inner m attr (i + 1) pols tb
         else do {
           nl \<leftarrow> blobmsg_namelen m (blob_data attr);
           if unat nl \<noteq> pslen nm then blobmsg_parse_inner m attr (i + 1) pols tb
           else do {
             ok \<leftarrow> blobmsg_check_attr m attr True;
             if \<not> ok then Some (Inl (-1, tb))
             else if tb ! i \<noteq> None then blobmsg_parse_inner m attr (i + 1) pols tb
             else do {
               hname \<leftarrow> cstr_at m (blob_data attr + 2);
               if strcmp nm hname \<noteq> 0 then blobmsg_parse_inner m attr (i + 1) pols tb
               else blobmsg_parse_inner m attr (i + 1) pols (tb[i := Some attr])
             }
           }
         }
       })"

definition blobmsg_parse ::
    "blobmsg_policy list \<Rightarrow> byte list \<Rightarrow> nat \<Rightarrow> u32 \<Rightarrow> (int \<times> nat option list) option" where
  "blobmsg_parse policy m data len = do {
     r \<leftarrow> blob_iter_do (\<lambda>attr tb. blobmsg_parse_inner m attr 0 policy tb) m data (uint len)
       (replicate (length policy) None);
     Some (case r of Inl x \<Rightarrow> x | Inr tb \<Rightarrow> (0, tb))
   }"

section \<open>Building messages\<close>

text \<open>The result is the attribute and \<open>*data\<close>, or \<open>NULL\<close>.\<close>

definition blobmsg_new ::
    "(nat \<Rightarrow> bool) \<Rightarrow> blob_buf \<Rightarrow> int \<Rightarrow> cstring option \<Rightarrow> int \<Rightarrow> ((nat \<times> nat) option \<times> blob_buf) option" where
  "blobmsg_new alloc b ty name payload_len =
     (let name = (case name of None \<Rightarrow> [] | Some s \<Rightarrow> s);
          namelen = length name;
          attrlen = to_int32 (int (blobmsg_hdrlen namelen) + payload_len)
      in do {
        (attr, b) \<leftarrow> blob_new alloc b ty attrlen;
        case attr of
          None \<Rightarrow> Some (None, b)
        | Some a \<Rightarrow> do {
            w \<leftarrow> rd_be32 (buf b) a;
            m \<leftarrow> mem_write (buf b) a (be32 (w OR 0x80000000));
            m \<leftarrow> mem_write m (blob_data a) (be16 (word_of_nat namelen));
            m \<leftarrow> mem_write m (blob_data a + 2) (name @ [0]);
            pad_end \<leftarrow> blobmsg_data m a;
            (let pad_start = blob_data a + 2 + namelen in do {
               m \<leftarrow> (if pad_start < pad_end then mem_write m pad_start (replicate (pad_end - pad_start) 0)
                    else Some m);
               Some (Some (a, pad_end), b\<lparr>buf := m\<rparr>)
             })
          }
      })"

definition blobmsg_open_nested ::
    "(nat \<Rightarrow> bool) \<Rightarrow> blob_buf \<Rightarrow> cstring option \<Rightarrow> bool \<Rightarrow> (int option \<times> blob_buf) option" where
  "blobmsg_open_nested alloc b name array =
     (let nm = (case name of None \<Rightarrow> [] | Some s \<Rightarrow> s) in do {
        h \<leftarrow> head b;
        (r, b) \<leftarrow> blobmsg_new alloc b (if array then 1 else 2) (Some nm) 0;
        case r of
          None \<Rightarrow> Some (None, b)
        | Some (a, data) \<Rightarrow> do {
            hl \<leftarrow> blob_pad_len (buf b) h;
            m \<leftarrow> blob_set_raw_len (buf b) h (hl - word_of_nat (blobmsg_hdrlen (length nm)));
            Some (Some (attr_to_offset h), b\<lparr>buf := m, head := Some a\<rparr>)
          }
      })"

definition blobmsg_add_field ::
    "(nat \<Rightarrow> bool) \<Rightarrow> blob_buf \<Rightarrow> int \<Rightarrow> cstring option \<Rightarrow> byte list \<Rightarrow> u32 \<Rightarrow> (int \<times> blob_buf) option" where
  "blobmsg_add_field alloc b ty name data len = do {
     (r, b) \<leftarrow> blobmsg_new alloc b ty name (to_int32 (uint len));
     case r of
       None \<Rightarrow> Some (-1, b)
     | Some (a, dest) \<Rightarrow>
         if len > 0 then do {
           bs \<leftarrow> mem_read data 0 (unat len);
           m \<leftarrow> mem_write (buf b) dest bs;
           Some (0, b\<lparr>buf := m\<rparr>)
         }
         else Some (0, b)
   }"


definition blobmsg_add_null ::
    "(nat \<Rightarrow> bool) \<Rightarrow> blob_buf \<Rightarrow> cstring option \<Rightarrow> (int \<times> blob_buf) option" where
  "blobmsg_add_null alloc b name = blobmsg_add_field alloc b 0 name [] 0"

definition blobmsg_add_u8 ::
    "(nat \<Rightarrow> bool) \<Rightarrow> blob_buf \<Rightarrow> cstring option \<Rightarrow> byte \<Rightarrow> (int \<times> blob_buf) option" where
  "blobmsg_add_u8 alloc b name val = blobmsg_add_field alloc b 7 name [val] 1"

definition blobmsg_add_u16 ::
    "(nat \<Rightarrow> bool) \<Rightarrow> blob_buf \<Rightarrow> cstring option \<Rightarrow> u16 \<Rightarrow> (int \<times> blob_buf) option" where
  "blobmsg_add_u16 alloc b name val = blobmsg_add_field alloc b 6 name (be16 val) 2"

definition blobmsg_add_u32 ::
    "(nat \<Rightarrow> bool) \<Rightarrow> blob_buf \<Rightarrow> cstring option \<Rightarrow> u32 \<Rightarrow> (int \<times> blob_buf) option" where
  "blobmsg_add_u32 alloc b name val = blobmsg_add_field alloc b 5 name (be32 val) 4"

definition blobmsg_add_u64 ::
    "(nat \<Rightarrow> bool) \<Rightarrow> blob_buf \<Rightarrow> cstring option \<Rightarrow> u64 \<Rightarrow> (int \<times> blob_buf) option" where
  "blobmsg_add_u64 alloc b name val = blobmsg_add_field alloc b 4 name (be64 val) 8"

definition blobmsg_add_string ::
    "(nat \<Rightarrow> bool) \<Rightarrow> blob_buf \<Rightarrow> cstring option \<Rightarrow> cstring \<Rightarrow> (int \<times> blob_buf) option" where
  "blobmsg_add_string alloc b name str =
     blobmsg_add_field alloc b 3 name (str @ [0]) (word_of_nat (length str + 1))"

definition blobmsg_add_blob ::
    "(nat \<Rightarrow> bool) \<Rightarrow> blob_buf \<Rightarrow> byte list \<Rightarrow> nat \<Rightarrow> (int \<times> blob_buf) option" where
  "blobmsg_add_blob alloc b m attr = do {
     ty \<leftarrow> blobmsg_type m attr;
     name \<leftarrow> blobmsg_name m attr;
     d \<leftarrow> blobmsg_data m attr;
     len \<leftarrow> blobmsg_data_len m attr;
     blobmsg_add_field alloc b (int ty) (Some name) (drop d m) (word_of_int len)
   }"

definition blobmsg_open_array ::
    "(nat \<Rightarrow> bool) \<Rightarrow> blob_buf \<Rightarrow> cstring option \<Rightarrow> (int option \<times> blob_buf) option" where
  "blobmsg_open_array alloc b name = blobmsg_open_nested alloc b name True"

definition blobmsg_open_table ::
    "(nat \<Rightarrow> bool) \<Rightarrow> blob_buf \<Rightarrow> cstring option \<Rightarrow> (int option \<times> blob_buf) option" where
  "blobmsg_open_table alloc b name = blobmsg_open_nested alloc b name False"

definition blobmsg_close_array :: "blob_buf \<Rightarrow> int \<Rightarrow> blob_buf option" where
  "blobmsg_close_array b cookie = blob_nest_end b cookie"

definition blobmsg_close_table :: "blob_buf \<Rightarrow> int \<Rightarrow> blob_buf option" where
  "blobmsg_close_table b cookie = blob_nest_end b cookie"

definition blobmsg_buf_init :: "(nat \<Rightarrow> bool) \<Rightarrow> blob_buf \<Rightarrow> (int \<times> blob_buf) option" where
  "blobmsg_buf_init alloc b = blob_buf_init alloc b 2"

text \<open>
  The string buffer: space for a string of unknown length behind the head attribute, which is not
  part of it until \<open>blobmsg_add_string_buffer\<close>.
\<close>

definition blobmsg_alloc_string_buffer ::
    "(nat \<Rightarrow> bool) \<Rightarrow> blob_buf \<Rightarrow> cstring option \<Rightarrow> u32 \<Rightarrow> (nat option \<times> blob_buf) option" where
  "blobmsg_alloc_string_buffer alloc b name maxl = do {
     (r, b) \<leftarrow> blobmsg_new alloc b 3 name (to_int32 (uint maxl));
     case r of
       None \<Rightarrow> Some (None, b)
     | Some (a, dest) \<Rightarrow> do {
         h \<leftarrow> head b;
         hl \<leftarrow> blob_pad_len (buf b) h;
         al \<leftarrow> blob_pad_len (buf b) a;
         m \<leftarrow> blob_set_raw_len (buf b) h (hl - al);
         ar \<leftarrow> blob_raw_len m a;
         m \<leftarrow> blob_set_raw_len m a (ar - maxl);
         Some (Some dest, b\<lparr>buf := m\<rparr>)
       }
   }"

definition blobmsg_realloc_string_buffer ::
    "(nat \<Rightarrow> bool) \<Rightarrow> blob_buf \<Rightarrow> u32 \<Rightarrow> (nat \<times> blob_buf) option" where
  "blobmsg_realloc_string_buffer alloc b maxl = do {
     h \<leftarrow> head b;
     attr \<leftarrow> blob_next (buf b) h;
     al \<leftarrow> blob_pad_len (buf b) attr;
     (let offset = int attr + uint al;
          required = to_int32 (uint maxl - (int (length (buf b)) - offset))
      in do {
        (_, b) \<leftarrow> (if required \<le> 0 then Some (True, b) else blob_buf_grow alloc b required);
        d \<leftarrow> blobmsg_data (buf b) attr;
        Some (d, b)
      })
   }"

definition blobmsg_add_string_buffer :: "blob_buf \<Rightarrow> blob_buf option" where
  "blobmsg_add_string_buffer b = do {
     h \<leftarrow> head b;
     attr \<leftarrow> blob_next (buf b) h;
     d \<leftarrow> blobmsg_data (buf b) attr;
     str \<leftarrow> cstr_at (buf b) d;
     ar \<leftarrow> blob_raw_len (buf b) attr;
     m \<leftarrow> blob_set_raw_len (buf b) attr (ar + word_of_nat (length str + 1));
     m \<leftarrow> blob_fill_pad m attr;
     hr \<leftarrow> blob_raw_len m h;
     al \<leftarrow> blob_pad_len m attr;
     m \<leftarrow> blob_set_raw_len m h (hr + al);
     Some (b\<lparr>buf := m\<rparr>)
   }"

text \<open>\<open>out\<close> is the formatted text, without its zero.\<close>

definition blobmsg_vprintf ::
    "(nat \<Rightarrow> bool) \<Rightarrow> blob_buf \<Rightarrow> cstring option \<Rightarrow> cstring \<Rightarrow> blob_buf option" where
  "blobmsg_vprintf alloc b name out = do {
     (r, b) \<leftarrow> blobmsg_alloc_string_buffer alloc b name (word_of_nat (length out + 1));
     dest \<leftarrow> r;
     m \<leftarrow> mem_write (buf b) dest (out @ [0]);
     blobmsg_add_string_buffer (b\<lparr>buf := m\<rparr>)
   }"

section \<open>What a field adds\<close>

lemma blobmsg_hdrlen_pad4: "blobmsg_hdrlen n = pad4 (n + 3)"
  by (simp add: blobmsg_hdrlen_def pad4_def)

lemma blobmsg_hdrlen_bounds: "n + 3 \<le> blobmsg_hdrlen n" "4 dvd blobmsg_hdrlen n"
  using pad4_bounds [of "n + 3"] by (simp_all add: blobmsg_hdrlen_pad4)

text \<open>The payload of a field: the name's length, the name, zeros, the data.\<close>

definition msg_payload :: "cstring \<Rightarrow> byte list \<Rightarrow> byte list" where
  "msg_payload name data =
     be16 (word_of_nat (length name)) @ name @
     replicate (blobmsg_hdrlen (length name) - 2 - length name) 0 @ data"

definition ext_hdr :: "int \<Rightarrow> nat \<Rightarrow> u32" where
  "ext_hdr ty n = new_hdr ty n OR 0x80000000"

definition enc_field :: "int \<Rightarrow> cstring \<Rightarrow> byte list \<Rightarrow> byte list" where
  "enc_field ty name data =
     be32 (ext_hdr ty (length (msg_payload name data))) @ msg_payload name data @
     replicate (pad4 (length data) - length data) 0"

lemma length_msg_payload: "length (msg_payload name data) = blobmsg_hdrlen (length name) + length data"
  using blobmsg_hdrlen_bounds(1) [of "length name"] by (simp add: msg_payload_def)

lemma bit_ext: "bit (0x80000000 :: u32) n \<longleftrightarrow> n = 31"
proof -
  have "bit (push_bit 31 1 :: u32) n \<longleftrightarrow> n = 31" by (auto simp only: bit_push_bit_iff bit_1_iff) simp_all
  then show ?thesis by (simp add: push_bit_eq_mult)
qed

lemma hdr_ext_or:
  "hdr_id (w OR 0x80000000) = hdr_id w" "hdr_raw_len (w OR 0x80000000) = hdr_raw_len w" "hdr_extended (w OR 0x80000000)"
proof -
  define e where "e = (0x80000000 :: u32)"
  have e: "bit e n \<longleftrightarrow> n = 31" for n unfolding e_def by (rule bit_ext)
  have 1: "(w OR e) AND 0x7f000000 = w AND 0x7f000000" and 2: "(w OR e) AND 0x00ffffff = w AND 0x00ffffff"
    unfolding masks by (rule bit_word_eqI, auto simp: bit_simps e)+
  have "bit ((w OR e) AND e) 31" by (simp add: bit_simps e)
  then show "hdr_extended (w OR 0x80000000)" unfolding hdr_extended_def e_def by auto
  show "hdr_id (w OR 0x80000000) = hdr_id w" "hdr_raw_len (w OR 0x80000000) = hdr_raw_len w"
    using 1 2 unfolding e_def by (simp_all add: hdr_id_def hdr_raw_len_def hdr_len_def)
qed

lemma hdr_len_pad_ext: "hdr_len (w OR 0x80000000) = hdr_len w" "hdr_pad_len (w OR 0x80000000) = hdr_pad_len w"
proof -
  have "hdr_len v = hdr_raw_len v - 4" for v by (simp add: hdr_raw_len_def)
  then show "hdr_len (w OR 0x80000000) = hdr_len w" "hdr_pad_len (w OR 0x80000000) = hdr_pad_len w"
    by (simp_all add: hdr_ext_or hdr_pad_len_def)
qed


lemma rd_be16_app: "p = length xs \<Longrightarrow> rd_be16 (xs @ be16 w @ zs) p = Some w"
  by (simp add: rd_be16_def be16_def nth_append)

lemma blobmsg_data_ext:
  assumes "p = length Q" and "hdr_extended w" and "length name < 2 ^ 16"
  shows "blobmsg_data (Q @ be32 w @ be16 (word_of_nat (length name)) @ Y) p =
    Some (length Q + 4 + blobmsg_hdrlen (length name))"
  using assms rd_be16_app [of "length Q + 4" "Q @ be32 w"]
  by (simp add: blobmsg_data_def blob_is_extended_def rd_be32_app blob_data_def blobmsg_namelen_def
      unat_of_nat)

text \<open>The writes of \<open>blobmsg_new\<close> on the space that \<open>blob_new\<close> has made.\<close>

lemma blobmsg_new_writes:
  fixes name :: cstring
  assumes "length name < 2 ^ 16" and X0: "length X0 = blobmsg_hdrlen (length name) + n"
  shows "\<exists>X m1 m2 m3. length X = n \<and>
    mem_write (Q @ be32 w @ X0 @ Y) (length Q) (be32 (w OR 0x80000000)) = Some m1 \<and>
    mem_write m1 (length Q + 4) (be16 (word_of_nat (length name))) = Some m2 \<and>
    mem_write m2 (length Q + 4 + 2) (name @ [0]) = Some m3 \<and>
    blobmsg_data m3 (length Q) = Some (length Q + 4 + blobmsg_hdrlen (length name)) \<and>
    mem_write m3 (length Q + 4 + 2 + length name) (replicate (blobmsg_hdrlen (length name) - 2 - length name) 0) =
      Some (Q @ be32 (w OR 0x80000000) @ be16 (word_of_nat (length name)) @ name @
        replicate (blobmsg_hdrlen (length name) - 2 - length name) 0 @ X @ Y)"
proof -
  let ?l = "length name" and ?hl = "blobmsg_hdrlen (length name)" and ?e = "w OR 0x80000000"
  let ?nl = "be16 (word_of_nat (length name))"
  have hl: "?l + 3 \<le> ?hl" by (rule blobmsg_hdrlen_bounds)
  then have "2 + (?l + 1) + (?hl - 3 - ?l) \<le> length X0" using X0 by simp
  then obtain x2 y z X where x: "X0 = x2 @ y @ z @ X" "length x2 = 2" "length y = ?l + 1" "length z = ?hl - 3 - ?l"
    by (rule split_at3)
  have X: "length X = n" using x X0 hl by simp
  have 1: "mem_write (Q @ be32 w @ X0 @ Y) (length Q) (be32 ?e) = Some (Q @ be32 ?e @ X0 @ Y)"
    by (simp add: mem_write_app)
  have 2: "mem_write (Q @ be32 ?e @ X0 @ Y) (length Q + 4) ?nl = Some (Q @ be32 ?e @ ?nl @ y @ z @ X @ Y)"
    using mem_write_app [of "length Q + 4" "Q @ be32 ?e" x2 ?nl "y @ z @ X @ Y"] x by simp
  have 3: "mem_write (Q @ be32 ?e @ ?nl @ y @ z @ X @ Y) (length Q + 4 + 2) (name @ [0]) =
      Some (Q @ be32 ?e @ ?nl @ (name @ [0]) @ z @ X @ Y)"
    using mem_write_app [of "length Q + 4 + 2" "Q @ be32 ?e @ ?nl" y "name @ [0]" "z @ X @ Y"] x by simp
  have 4: "mem_write ((Q @ be32 ?e @ ?nl @ name) @ ([0] @ z) @ X @ Y) (length Q + 4 + 2 + ?l)
      (replicate (?hl - 2 - ?l) 0) = Some ((Q @ be32 ?e @ ?nl @ name) @ replicate (?hl - 2 - ?l) 0 @ X @ Y)"
    by (rule mem_write_app) (use x hl in auto)
  have 5: "blobmsg_data (Q @ be32 ?e @ ?nl @ (name @ [0]) @ z @ X @ Y) (length Q) = Some (length Q + 4 + ?hl)"
    using blobmsg_data_ext [OF refl hdr_ext_or(3) assms(1)] by simp
  from X 1 2 3 4 5 show ?thesis by (intro exI [of _ X] exI conjI) auto
qed

lemma blobmsg_new_ok:
  assumes v: "blob_view b A w P R" and nl: "length name < 2 ^ 16"
    and n: "length A + pad w + 4 + pad4 (blobmsg_hdrlen (length name) + n) < 2 ^ 24"
  shows "(\<exists>b' X R'. blobmsg_new alloc b ty (Some name) (int n) =
        Some (Some (length A + pad w, length A + pad w + 4 + blobmsg_hdrlen (length name)), b') \<and> length X = n \<and>
      blob_view b' A (set_len w (pad w + 4 + pad4 (blobmsg_hdrlen (length name) + n)))
        (P @ be32 (ext_hdr ty (blobmsg_hdrlen (length name) + n)) @ msg_payload name X @
          replicate (pad4 n - n) 0) R') \<or>
    (blobmsg_new alloc b ty (Some name) (int n) = Some (None, b) \<and> (\<exists>k. \<not> alloc k))"
proof -
  let ?hl = "blobmsg_hdrlen (length name)"
  let ?n = "?hl + n"
  have hl: "length name + 3 \<le> ?hl" "4 dvd ?hl" by (rule blobmsg_hdrlen_bounds)+
  have small: "?n < 2 ^ 24" using n pad4_bounds(1) [of ?n] by simp
  then have len: "to_int32 (int ?hl + int n) = int ?n" by simp
  have p4: "pad4 ?n - ?n = pad4 n - n" using pad4_add_dvd [OF hl(2), of n] by simp
  have P: "length P = pad w - 4" "4 \<le> pad w" using v pad_ge_raw [of w] by (auto simp: blob_view_def)
  from blob_new_ok [OF v n, of alloc ty] show ?thesis
  proof (elim disjE exE conjE)
    fix b' w' X0 R'
    let ?Q = "A @ be32 w' @ P" and ?Z = "replicate (pad4 n - n) 0"
    assume new: "blob_new alloc b ty (int ?n) = Some (Some (length A + pad w), b')" "length X0 = ?n"
      and v': "blob_view b' A w' (P @ be32 (new_hdr ty ?n) @ X0 @ replicate (pad4 ?n - ?n) 0) R'"
      and w': "w' = set_len w (pad w + 4 + pad4 ?n)"
    have Q: "length ?Q = length A + pad w" using P by simp
    have buf: "buf b' = ?Q @ be32 (new_hdr ty ?n) @ X0 @ ?Z @ R'" using v' p4 by (simp add: blob_view_def)
    have rd: "rd_be32 (buf b') (length A + pad w) = Some (new_hdr ty ?n)"
      unfolding buf Q [symmetric] by (rule rd_be32_app) simp
    from blobmsg_new_writes [OF nl new(2), of ?Q "new_hdr ty ?n" "?Z @ R'"] obtain X m1 m2 m3 where
      X: "length X = n" and m: "mem_write (buf b') (length A + pad w) (be32 (new_hdr ty ?n OR 0x80000000)) = Some m1"
      "mem_write m1 (length A + pad w + 4) (be16 (word_of_nat (length name))) = Some m2"
      "mem_write m2 (length A + pad w + 4 + 2) (name @ [0]) = Some m3"
      "blobmsg_data m3 (length A + pad w) = Some (length A + pad w + 4 + ?hl)"
      "mem_write m3 (length A + pad w + 4 + 2 + length name) (replicate (?hl - 2 - length name) 0) =
        Some (?Q @ be32 (ext_hdr ty ?n) @ be16 (word_of_nat (length name)) @ name @
          replicate (?hl - 2 - length name) 0 @ X @ ?Z @ R')"
      unfolding Q buf ext_hdr_def by blast
    let ?m = "?Q @ be32 (ext_hdr ty ?n) @ msg_payload name X @ ?Z @ R'"
    have lt: "length A + pad w + 4 + 2 + length name < length A + pad w + 4 + ?hl" using hl by simp
    have d: "length A + pad w + 4 + ?hl - (length A + pad w + 4 + 2 + length name) = ?hl - 2 - length name" by simp
    have "blobmsg_new alloc b ty (Some name) (int n) =
        Some (Some (length A + pad w, length A + pad w + 4 + ?hl), b'\<lparr>buf := ?m\<rparr>)"
      unfolding blobmsg_new_def Let_def option.case len using new(1) rd m lt d
      by (simp add: blob_data_def msg_payload_def)
    moreover have "blob_view (b'\<lparr>buf := ?m\<rparr>) A w' (P @ be32 (ext_hdr ty ?n) @ msg_payload name X @ ?Z) R'"
      using v' new(2) X p4 length_msg_payload [of name X] by (auto simp: blob_view_def)
    ultimately show ?thesis using w' X by blast
  next
    fix k
    assume "blob_new alloc b ty (int ?n) = Some (None, b)" "\<not> alloc k"
    then show ?thesis unfolding blobmsg_new_def Let_def option.case len by auto
  qed
qed


lemma length_enc_field: "length (enc_field ty name data) = 4 + pad4 (blobmsg_hdrlen (length name) + length data)"
  using pad4_add_dvd [OF blobmsg_hdrlen_bounds(2), of "length name" "length data"] pad4_bounds(1) [of "length data"]
  by (simp add: enc_field_def length_msg_payload)

lemma enc_field_eq:
  "enc_field ty name data =
     be32 (ext_hdr ty (blobmsg_hdrlen (length name) + length data)) @ be16 (word_of_nat (length name)) @ name @
     replicate (blobmsg_hdrlen (length name) - 2 - length name) 0 @ data @
     replicate (pad4 (length data) - length data) 0"
  unfolding enc_field_def length_msg_payload by (simp add: msg_payload_def)

lemma add_field_appends:
  assumes v: "blob_view b A w P R" and nl: "length name < 2 ^ 16"
    and n: "length A + pad w + length (enc_field ty name data) < 2 ^ 24"
  shows "(\<exists>b' R'. blobmsg_add_field alloc b ty (Some name) data (word_of_nat (length data)) = Some (0, b') \<and>
      blob_view b' A (set_len w (pad w + length (enc_field ty name data))) (P @ enc_field ty name data) R') \<or>
    (blobmsg_add_field alloc b ty (Some name) data (word_of_nat (length data)) = Some (-1, b) \<and> (\<exists>k. \<not> alloc k))"
proof -
  let ?hl = "blobmsg_hdrlen (length name)" and ?n = "length data"
  have n': "length A + pad w + 4 + pad4 (?hl + ?n) < 2 ^ 24" using n by (simp add: length_enc_field)
  then have small: "?n < 2 ^ 24" using pad4_bounds(1) [of "?hl + ?n"] by simp
  then have len: "to_int32 (uint (word_of_nat ?n :: u32)) = int ?n" "unat (word_of_nat ?n :: u32) = ?n"
    using uint_nat [of "word_of_nat ?n :: u32"] by simp_all
  have P: "length P = pad w - 4" "4 \<le> pad w" using v pad_ge_raw [of w] by (auto simp: blob_view_def)
  from blobmsg_new_ok [OF v nl n', of alloc ty] show ?thesis
  proof (elim disjE exE conjE)
    fix b' X R'
    let ?w' = "set_len w (pad w + 4 + pad4 (?hl + ?n))" and ?Z = "replicate (pad4 ?n - ?n) 0"
    let ?pre = "\<lambda>u. A @ be32 u @ P @ be32 (ext_hdr ty (?hl + ?n)) @ be16 (word_of_nat (length name)) @ name @
        replicate (?hl - 2 - length name) 0"
    let ?d = "length A + pad w + 4 + ?hl"
    assume new: "blobmsg_new alloc b ty (Some name) (int ?n) = Some (Some (length A + pad w, ?d), b')" "length X = ?n"
      and v': "blob_view b' A ?w' (P @ be32 (ext_hdr ty (?hl + ?n)) @ msg_payload name X @ ?Z) R'"
    have buf: "buf b' = ?pre ?w' @ X @ ?Z @ R'" using v' by (simp add: blob_view_def msg_payload_def)
    have d: "?d = length (?pre ?w')" using P blobmsg_hdrlen_bounds(1) [of "length name"] by simp
    have wr: "mem_write (buf b') ?d data = Some (?pre ?w' @ data @ ?Z @ R')"
      unfolding buf by (rule mem_write_app [OF d]) (simp add: new(2))
    let ?b = "b'\<lparr>buf := ?pre ?w' @ data @ ?Z @ R'\<rparr>"
    have "blobmsg_add_field alloc b ty (Some name) data (word_of_nat ?n) = Some (0, ?b)"
    proof (cases "data = []")
      case True
      then have "b' = ?b" using buf new(2) by simp
      with True new(1) len show ?thesis by (simp add: blobmsg_add_field_def)
    next
      case False
      then have "(word_of_nat ?n :: u32) > 0" using len(2) by (simp add: word_less_nat_alt)
      with new(1) wr len show ?thesis by (simp add: blobmsg_add_field_def mem_read_def)
    qed
    moreover have "blob_view ?b A ?w' (P @ enc_field ty name data) R'"
      using v' new(2) by (auto simp: blob_view_def enc_field_eq msg_payload_def)
    ultimately show ?thesis by (auto simp: length_enc_field add.assoc)
  next
    fix k
    assume "blobmsg_new alloc b ty (Some name) (int ?n) = Some (None, b)" "\<not> alloc k"
    then show ?thesis by (auto simp: blobmsg_add_field_def len)
  qed
qed

section \<open>Reading fields back\<close>

type_synonym field = "int \<times> cstring \<times> byte list"

fun enc_fields :: "field list \<Rightarrow> byte list" where
  "enc_fields [] = []"
| "enc_fields ((ty, name, data) # fs) = enc_field ty name data @ enc_fields fs"

text \<open>A field of a valid message: a known type, a non-empty name, data of the right form.\<close>

fun payload_ok :: "field \<Rightarrow> bool" where
  "payload_ok (ty, name, data) \<longleftrightarrow>
     0 \<le> ty \<and> ty \<le> 7 \<and> 0 \<notin> set name \<and> length name < 2 ^ 16 \<and> length (enc_field ty name data) < 2 ^ 24 \<and>
     (ty = 3 \<longrightarrow> data \<noteq> [] \<and> last data = 0) \<and> (ty = 4 \<longrightarrow> length data = 8) \<and> (ty = 5 \<longrightarrow> length data = 4) \<and>
     (ty = 6 \<longrightarrow> length data = 2) \<and> (ty = 7 \<longrightarrow> length data = 1)"

fun field_ok :: "field \<Rightarrow> bool" where
  "field_ok (ty, name, data) \<longleftrightarrow> name \<noteq> [] \<and> payload_ok (ty, name, data)"

lemma cstr_at_app:
  assumes "p = length Q" and "0 \<notin> set s"
  shows "cstr_at (Q @ s @ 0 # Y) p = Some s"
proof -
  have "takeWhile (\<lambda>c. c \<noteq> 0) (s @ 0 # Y) = s" using assms(2) by (subst takeWhile_append2) auto
  then show ?thesis using assms(1) by (simp add: cstr_at_def)
qed

lemma field_at:
  assumes "length name < 2 ^ 16" and "length (enc_field ty name data) < 2 ^ 24" and "0 \<notin> set name"
    and m: "m = Q @ enc_field ty name data @ Y"
  shows "\<exists>w. rd_be32 m (length Q) = Some w \<and> hdr_id w = nat (ty mod 128) \<and> hdr_extended w \<and>
      raw w = 4 + blobmsg_hdrlen (length name) + length data \<and> pad w = length (enc_field ty name data)"
    and "blobmsg_namelen m (blob_data (length Q)) = Some (word_of_nat (length name))"
    and "blobmsg_name m (length Q) = Some name"
    and "blobmsg_data m (length Q) = Some (length Q + 4 + blobmsg_hdrlen (length name))"
    and "blobmsg_data_len m (length Q) = Some (int (length data))"
    and "mem_read m (length Q + 4 + blobmsg_hdrlen (length name)) (length data) = Some data"
    and "rd8 m (blob_data (length Q) + 2 + length name) = Some 0"
proof -
  let ?hl = "blobmsg_hdrlen (length name)"
  let ?w = "ext_hdr ty (?hl + length data)"
  have hl: "length name + 3 \<le> ?hl" by (rule blobmsg_hdrlen_bounds)
  have small: "?hl + length data + 4 < 2 ^ 24"
    using assms(2) pad4_bounds(1) [of "?hl + length data"] by (simp add: length_enc_field)
  have w: "hdr_id ?w = nat (ty mod 128)" "hdr_extended ?w" "raw ?w = 4 + ?hl + length data"
      "pad ?w = length (enc_field ty name data)"
    using raw_new_hdr [OF small, of ty] pad_new_hdr [OF small, of ty]
    by (simp_all add: ext_hdr_def hdr_ext_or hdr_len_pad_ext length_enc_field)
  have mm: "m = Q @ be32 ?w @ be16 (word_of_nat (length name)) @ name @ 0 # replicate (?hl - 3 - length name) 0 @
      data @ replicate (pad4 (length data) - length data) 0 @ Y"
  proof -
    have "replicate (?hl - 2 - length name) (0 :: byte) = 0 # replicate (?hl - 3 - length name) 0"
    proof -
      from hl obtain k where "?hl = length name + 3 + k" using le_iff_add by blast
      then show ?thesis by simp
    qed
    then show ?thesis by (simp add: m enc_field_eq)
  qed
  have r: "rd_be32 m (length Q) = Some ?w" unfolding mm by (rule rd_be32_app) simp
  then show "\<exists>w. rd_be32 m (length Q) = Some w \<and> hdr_id w = nat (ty mod 128) \<and> hdr_extended w \<and>
      raw w = 4 + ?hl + length data \<and> pad w = length (enc_field ty name data)" using w by blast
  show "blobmsg_namelen m (blob_data (length Q)) = Some (word_of_nat (length name))"
    using rd_be16_app [of "length Q + 4" "Q @ be32 ?w"] by (simp add: blobmsg_namelen_def blob_data_def mm)
  show "blobmsg_name m (length Q) = Some name"
    using cstr_at_app [of "length Q + 6" "Q @ be32 ?w @ be16 (word_of_nat (length name))" name] assms(3)
    by (simp add: blobmsg_name_def blob_data_def mm add.commute)
  show d: "blobmsg_data m (length Q) = Some (length Q + 4 + ?hl)"
    unfolding mm by (rule blobmsg_data_ext) (use w assms in auto)
  have "unat (hdr_len ?w) = ?hl + length data" using hdr_len_raw [of ?w] w(3) by simp
  then show "blobmsg_data_len m (length Q) = Some (int (length data))"
    using r d small uint_nat [of "hdr_len ?w"] by (simp add: blobmsg_data_len_def blob_len_def blob_data_def)
  show "mem_read m (length Q + 4 + ?hl) (length data) = Some data"
    using mem_read_app [of "length Q + 4 + ?hl" "Q @ be32 ?w @ be16 (word_of_nat (length name)) @ name @
        0 # replicate (?hl - 3 - length name) 0"] hl by (simp add: mm)
  show "rd8 m (blob_data (length Q) + 2 + length name) = Some 0"
    by (simp add: rd8_def mm blob_data_def nth_append)
qed


lemma field_check:
  assumes ok: "payload_ok (ty, name, data)" and nm: "named \<longrightarrow> name \<noteq> []" and m: "m = Q @ enc_field ty name data @ Y"
  shows "blobmsg_check_attr m (length Q) named = Some True"
proof -
  let ?hl = "blobmsg_hdrlen (length name)" and ?p = "length Q"
  have hl: "length name + 3 \<le> ?hl" by (rule blobmsg_hdrlen_bounds)
  have o: "0 \<le> ty" "ty \<le> 7" "0 \<notin> set name" "length name < 2 ^ 16"
    "length (enc_field ty name data) < 2 ^ 24"
    using ok by auto
  note f = field_at [OF o(4,5,3) m]
  obtain w where w: "rd_be32 m ?p = Some w" "hdr_id w = nat ty" "raw w = 4 + ?hl + length data"
    using f(1) o by auto
  have len: "blob_len m ?p = Some (hdr_len w)" "unat (hdr_len w) = ?hl + length data"
    using w hdr_len_raw [of w] by (simp_all add: blob_len_def)
  have small: "?hl + length data < 2 ^ 24"
    using o(5) pad4_bounds(1) [of "?hl + length data"] by (simp add: length_enc_field)
  have nl: "unat (word_of_nat (length name) :: u16) = length name" using o(4) by (simp add: unat_of_nat)
  then have nl0: "named \<longrightarrow> (word_of_nat (length name) :: u16) \<noteq> 0" using nm by (metis length_0_conv unat_0)
  note c = f(7)
  have ge: "\<not> hdr_len w < 2" using len(2) hl by (simp add: word_less_nat_alt)
  have le: "\<not> length name > unat (hdr_len w) - 2" using len(2) hl by simp
  have ty: "blob_type ! nat ty = (if ty = 0 then 2 else if ty = 1 \<or> ty = 2 then 0 else if ty = 3 then 3 else 11 - ty)"
  proof -
    have "ty = 0 \<or> ty = 1 \<or> ty = 2 \<or> ty = 3 \<or> ty = 4 \<or> ty = 5 \<or> ty = 6 \<or> ty = 7" using o(1,2) by linarith
    then show ?thesis by (auto simp: blob_type_def)
  qed
  have "blob_check_type m (?p + 4 + ?hl) (word_of_nat (length data)) (blob_type ! nat ty) = Some True \<or> blob_type ! nat ty = 0"
  proof -
    have len': "unat (word_of_nat (length data) :: u32) = length data" using small by simp
    have "ty = 0 \<or> ty = 1 \<or> ty = 2 \<or> ty = 3 \<or> 4 \<le> ty" using o(1) by linarith
    then consider "ty = 0" | "ty = 1 \<or> ty = 2" | "ty = 3" | "4 \<le> ty" by blast
    then show ?thesis
    proof cases
      case 3
      then have d: "data \<noteq> []" "last data = 0" using ok by auto
      then have "unat (word_of_nat (length data) - 1 :: u32) = length data - 1" "\<not> (word_of_nat (length data) :: u32) < 1"
        using len' by (simp_all add: unat_sub word_le_nat_alt word_less_nat_alt Suc_leI del: less_one word_less_1)
      moreover have "rd8 m (?p + 4 + ?hl + (length data - 1)) = Some 0"
      proof -
        obtain k where k: "length data = Suc k" using d(1) by (cases data) auto
        have "?p + 4 + ?hl + length data \<le> length m" using f(6) by (simp add: mem_read_def split: if_splits)
        then show ?thesis using mem_read_nth [OF f(6), of k] d k by (simp add: rd8_def last_conv_nth)
      qed
      ultimately show ?thesis using 3 ty by (simp add: blob_check_type_def blob_type_minlen_def)
    next
      case 4
      then have "ty = 4 \<or> ty = 5 \<or> ty = 6 \<or> ty = 7" using o(2) by linarith
      then show ?thesis using ok ty by (auto simp: blob_check_type_def blob_type_minlen_def)
    qed (auto simp: blob_type_def blob_check_type_def blob_type_minlen_def)
  qed
  then show ?thesis using f(2,4,5) len c ge le nl nl0 w(1,2) o(1,2)
    by (auto simp: blobmsg_check_attr_def blob_id_def)
qed


text \<open>Which policy entries a field satisfies.\<close>

fun fmatch :: "blobmsg_policy \<Rightarrow> field \<Rightarrow> bool" where
  "fmatch pol (ty, name, data) \<longleftrightarrow> pname pol = Some name \<and> (ptype pol = 0 \<or> ty = 0 \<or> nat ty = ptype pol)"

definition policy_ok :: "blobmsg_policy list \<Rightarrow> bool" where
  "policy_ok policy \<longleftrightarrow> (\<forall>pol\<in>set policy. case pname pol of None \<Rightarrow> True | Some nm \<Rightarrow> length nm < 256)"

lemma parse_inner_ok:
  assumes ok: "field_ok (ty, name, data)" and m: "m = Q @ enc_field ty name data @ Y"
    and pol: "policy_ok pols" and len: "i + length pols = length tb"
  shows "blobmsg_parse_inner m (length Q) i pols tb =
    Some (Inr (take i tb @ map2 (\<lambda>pol t. if t = None \<and> fmatch pol (ty, name, data) then Some (length Q) else t) pols (drop i tb)))"
  using pol len
proof (induction pols arbitrary: i tb)
  case Nil
  then show ?case by simp
next
  case (Cons pol pols)
  let ?f = "(ty, name, data)" and ?u = "\<lambda>pol t. if t = None \<and> fmatch pol (ty, name, data) then Some (length Q) else t"
  have o: "0 \<le> ty" "ty \<le> 7" "0 \<notin> set name" "length name < 2 ^ 16" "length (enc_field ty name data) < 2 ^ 24"
    using ok by auto
  note f = field_at [OF o(4,5,3) m]
  obtain w where w: "rd_be32 m (length Q) = Some w" "hdr_id w = nat ty" using f(1) o by auto
  have id: "blob_id m (length Q) = Some (nat ty)" using w by (simp add: blob_id_def)
  have nl: "unat (word_of_nat (length name) :: u16) = length name" using o(4) by (simp add: unat_of_nat)
  have i: "i < length tb" using Cons.prems by simp
  have pol': "policy_ok pols" using Cons.prems by (simp add: policy_ok_def)
  have hname: "cstr_at m (blob_data (length Q) + 2) = Some name" using f(3) by (simp add: blobmsg_name_def)
  have step: "blobmsg_parse_inner m (length Q) i (pol # pols) tb =
      blobmsg_parse_inner m (length Q) (i + 1) pols (tb[i := ?u pol (tb ! i)])"
  proof (cases "pname pol")
    case None
    then show ?thesis by simp
  next
    case (Some nm)
    have nm: "length nm < 256" using Cons.prems(1) Some by (simp add: policy_ok_def)
    have t0: "nat ty = 0 \<longleftrightarrow> ty = 0" using o(1) by auto
    have chk: "blobmsg_check_attr m (length Q) True = Some True" by (rule field_check [OF _ _ m]) (use ok in auto)
    note facts = Some id f(2) nl hname chk
    let ?skip = "ptype pol \<noteq> 0 \<and> nat ty \<noteq> 0 \<and> nat ty \<noteq> ptype pol"
    show ?thesis
    proof (cases "tb ! i = None \<and> fmatch pol ?f")
      case True
      then have "nm = name" "\<not> ?skip" using Some t0 by auto
      with True facts nm show ?thesis by (simp add: pslen_def) linarith
    next
      case False
      then have "?u pol (tb ! i) = tb ! i" by auto
      then have same: "tb[i := ?u pol (tb ! i)] = tb" by (simp only: list_update_id)
      have "?skip \<or> length name \<noteq> pslen nm \<or> tb ! i \<noteq> None \<or> nm \<noteq> name"
        using False Some t0 by auto
      then show ?thesis unfolding same using facts by (cases ?skip) auto
    qed
  qed
  have "blobmsg_parse_inner m (length Q) (i + 1) pols (tb[i := ?u pol (tb ! i)]) =
      Some (Inr (take (i + 1) (tb[i := ?u pol (tb ! i)]) @ map2 ?u pols (drop (i + 1) (tb[i := ?u pol (tb ! i)]))))"
    by (rule Cons.IH [OF pol']) (use Cons.prems in simp)
  moreover have "take (i + 1) (tb[i := ?u pol (tb ! i)]) = take i tb @ [?u pol (tb ! i)]"
    using i by (simp add: take_Suc_conv_app_nth)
  moreover have "drop i tb = tb ! i # drop (i + 1) tb" using i by (simp add: Cons_nth_drop_Suc)
  ultimately show ?case unfolding step by simp
qed

fun positions :: "nat \<Rightarrow> field list \<Rightarrow> nat list" where
  "positions p [] = []"
| "positions p ((ty, name, data) # fs) = p # positions (p + length (enc_field ty name data)) fs"

text \<open>The first field that satisfies a policy entry, by position.\<close>

definition first_match :: "nat \<Rightarrow> field list \<Rightarrow> blobmsg_policy \<Rightarrow> nat option" where
  "first_match p fs pol = map_option fst (List.find (\<lambda>(q, f). fmatch pol f) (zip (positions p fs) fs))"

lemma parse_loop_ok:
  assumes "\<forall>f\<in>set fs. field_ok f" and "policy_ok policy" and "length tb = length policy"
    and "length (enc_fields fs) < 2 ^ 24"
  shows "blob_iter_do (\<lambda>attr tb. blobmsg_parse_inner (Q @ enc_fields fs @ Y) attr 0 policy tb) (Q @ enc_fields fs @ Y)
      (length Q) (int (length (enc_fields fs))) tb =
    Some (Inr (map2 (\<lambda>pol t. if t = None then first_match (length Q) fs pol else t) policy tb))"
  using assms
proof (induction fs arbitrary: Q tb)
  case Nil
  have "map2 (\<lambda>pol t. if t = None then first_match (length Q) [] pol else t) policy tb = tb"
    using Nil.prems(3) by (intro nth_equalityI) (auto simp: first_match_def)
  then show ?case by (simp add: blob_iter_do.simps)
next
  case (Cons f fs)
  obtain ty name data where f: "f = (ty, name, data)" by (cases f)
  let ?e = "enc_field ty name data" and ?u = "\<lambda>pol t. if t = None \<and> fmatch pol (ty, name, data) then Some (length Q) else t"
  let ?m = "Q @ ?e @ enc_fields fs @ Y"
  have ok: "field_ok (ty, name, data)" using Cons.prems f by simp
  then have small: "length ?e < 2 ^ 24" "length name < 2 ^ 16" "0 \<notin> set name" by simp_all
  obtain w where w: "rd_be32 ?m (length Q) = Some w" "pad w = length ?e"
    using field_at(1) [OF small(2,1,3) refl, of Q "enc_fields fs @ Y"] by auto
  have pl: "blob_pad_len ?m (length Q) = Some (hdr_pad_len w)" using w by (simp add: blob_pad_len_def)
  have u: "uint (hdr_pad_len w) = int (length ?e)" using w(2) uint_nat by metis
  have ge: "4 \<le> hdr_pad_len w" using w(2) by (simp add: word_le_nat_alt length_enc_field)
  have inner: "blobmsg_parse_inner ?m (length Q) 0 policy tb = Some (Inr (map2 ?u policy tb))"
    using parse_inner_ok [OF ok refl Cons.prems(2), of 0 tb Q "enc_fields fs @ Y"] Cons.prems(3) by simp
  have rest: "blob_iter_do (\<lambda>attr tb. blobmsg_parse_inner ?m attr 0 policy tb) ?m (length Q + length ?e)
      (int (length (enc_fields fs))) (map2 ?u policy tb) =
      Some (Inr (map2 (\<lambda>pol t. if t = None then first_match (length Q + length ?e) fs pol else t) policy (map2 ?u policy tb)))"
  proof -
    have "\<forall>g\<in>set fs. field_ok g" "length (map2 ?u policy tb) = length policy" "length (enc_fields fs) < 2 ^ 24"
      using Cons.prems f by simp_all
    from Cons.IH [OF this(1) Cons.prems(2) this(2,3), where Q = "Q @ ?e"] show ?thesis
      unfolding length_append append_assoc .
  qed
  have pos: "0 < int (length ?e) + int (length (enc_fields fs))" by (simp add: length_enc_field)
  have "blob_iter_do (\<lambda>attr tb. blobmsg_parse_inner ?m attr 0 policy tb) ?m (length Q)
      (int (length ?e) + int (length (enc_fields fs))) tb =
    Some (Inr (map2 (\<lambda>pol t. if t = None then first_match (length Q + length ?e) fs pol else t) policy (map2 ?u policy tb)))"
    using pl u ge inner rest w(2) pos by (subst blob_iter_do.simps) simp
  moreover have "map2 (\<lambda>pol t. if t = None then first_match (length Q + length ?e) fs pol else t) policy (map2 ?u policy tb) =
      map2 (\<lambda>pol t. if t = None then first_match (length Q) (f # fs) pol else t) policy tb"
    using Cons.prems(3) by (intro nth_equalityI) (auto simp: f first_match_def)
  ultimately show ?case by (simp add: f)
qed


fun add_fields :: "(nat \<Rightarrow> bool) \<Rightarrow> field list \<Rightarrow> blob_buf \<Rightarrow> blob_buf option" where
  "add_fields alloc [] b = Some b"
| "add_fields alloc ((ty, name, data) # fs) b = do {
     (_, b) \<leftarrow> blobmsg_add_field alloc b ty (Some name) data (word_of_nat (length data));
     add_fields alloc fs b
   }"

lemma add_fields_ok:
  assumes "\<forall>k. alloc k"
  shows "blob_view b A w P R \<Longrightarrow> 4 dvd raw w \<Longrightarrow> \<forall>f\<in>set fs. field_ok f \<Longrightarrow>
    length A + raw w + length (enc_fields fs) < 2 ^ 24 \<Longrightarrow>
    \<exists>b' R'. add_fields alloc fs b = Some b' \<and>
      blob_view b' A (set_len w (raw w + length (enc_fields fs))) (P @ enc_fields fs) R'"
proof (induction fs arbitrary: b w P R)
  case Nil
  then show ?case by (auto simp: set_len_raw)
next
  case (Cons f fs)
  obtain ty name data where f: "f = (ty, name, data)" by (cases f)
  let ?e = "enc_field ty name data"
  have p: "pad w = raw w" using Cons.prems(2) by (simp add: pad_eq)
  have n: "length A + pad w + length ?e < 2 ^ 24" "length name < 2 ^ 16" using Cons.prems p f by auto
  obtain b1 R1 where b1: "blobmsg_add_field alloc b ty (Some name) data (word_of_nat (length data)) = Some (0, b1)"
      "blob_view b1 A (set_len w (raw w + length ?e)) (P @ ?e) R1"
    using add_field_appends [OF Cons.prems(1) n(2,1), of alloc] assms unfolding p by blast
  let ?w = "set_len w (raw w + length ?e)"
  have rw: "raw ?w = raw w + length ?e" using n p by (intro set_len_props) simp
  have dvd: "4 dvd raw ?w" unfolding rw using Cons.prems(2) pad4_bounds(3) by (simp add: length_enc_field)
  have "\<forall>g\<in>set fs. field_ok g" "length A + raw ?w + length (enc_fields fs) < 2 ^ 24"
    using Cons.prems f rw by simp_all
  from Cons.IH [OF b1(2) dvd this] obtain b2 R2 where "add_fields alloc fs b1 = Some b2"
      "blob_view b2 A (set_len ?w (raw ?w + length (enc_fields fs))) ((P @ ?e) @ enc_fields fs) R2" by blast
  then show ?case using b1(1) f rw by (auto simp: add.assoc)
qed

text \<open>The message that \<open>blobmsg_buf_init\<close> and the additions leave.\<close>

lemma build_fields:
  assumes "\<forall>k. alloc k" and "\<forall>f\<in>set fs. field_ok f" and "length (enc_fields fs) + 4 < 2 ^ 24"
  obtains b b' R where "blobmsg_buf_init alloc \<lparr>buf = [], head = None\<rparr> = Some (0, b)" "add_fields alloc fs b = Some b'" "head b' = Some 0"
    "buf b' = be32 (new_hdr 2 (length (enc_fields fs))) @ enc_fields fs @ R"
    "blob_len (buf b') 0 = Some (word_of_nat (length (enc_fields fs)))"
proof -
  let ?n = "length (enc_fields fs)" let ?w = "new_hdr 2 ?n"
  obtain b R where b: "blob_buf_init alloc \<lparr>buf = [], head = None\<rparr> 2 = Some (0, b)"
      "blob_view b [] (new_hdr 2 0) [] R"
    using blob_buf_init_ok [of "\<lparr>buf = [], head = None\<rparr>" alloc 2] assms(1) by auto
  note h0 = raw_new_hdr [of 0 2]
  obtain b' R' where b': "add_fields alloc fs b = Some b'"
      "blob_view b' [] (set_len (new_hdr 2 0) (4 + ?n)) (enc_fields fs) R'"
    using add_fields_ok [OF assms(1) b(2), of fs] assms(2,3) h0 by auto
  have hi: "set_len (new_hdr 2 0) (4 + ?n) = ?w" by (simp add: set_len_new_hdr)
  have buf: "buf b' = be32 ?w @ enc_fields fs @ R'" "head b' = Some 0"
    using b'(2) hi by (auto simp: blob_view_def)
  have "unat (hdr_len ?w) = ?n" using hdr_len_raw [of ?w] raw_new_hdr [of ?n 2] assms(3) by simp
  then have "blob_len (buf b') 0 = Some (word_of_nat ?n)"
    using rd_be32_app [of 0 "[]" ?w "enc_fields fs @ R'"] word_eq_of_unat [of "hdr_len ?w" ?n]
    by (simp add: blob_len_def buf)
  then show thesis using that [OF _ b'(1) buf(2,1)] b(1) by (simp add: blobmsg_buf_init_def)
qed

lemma cstr_at_defined:
  assumes "rd8 m (p + k) = Some 0"
  shows "\<exists>s. cstr_at m p = Some s \<and> length s \<le> k"
proof -
  have k: "p + k < length m" "m ! (p + k) = 0" using assms by (auto simp: rd8_def split: if_splits)
  then have "drop p m ! k = 0" "k < length (drop p m)" by auto
  then have "0 \<in> set (drop p m)" by (metis nth_mem)
  moreover have "length (takeWhile (\<lambda>c. c \<noteq> 0) (drop p m)) \<le> k"
  proof (rule ccontr)
    let ?t = "takeWhile (\<lambda>c. c \<noteq> 0) (drop p m)"
    assume "\<not> length ?t \<le> k"
    then have lt: "k < length ?t" by simp
    have "?t ! k \<in> set ?t" "?t ! k = drop p m ! k" using lt by (rule nth_mem, rule takeWhile_nth)
    then show False using \<open>drop p m ! k = 0\<close> set_takeWhileD by fastforce
  qed
  ultimately show ?thesis by (simp add: cstr_at_def)
qed

section \<open>Properties\<close>

text \<open>
  C17: A message built with \<open>blobmsg_buf_init\<close> and any sequence of \<open>blobmsg_add_field\<close> with valid fields
  is parsed back by \<open>blobmsg_parse\<close> under any policy (with names shorter than 256): it returns 0 and
  \<open>tb[i]\<close> is the first field, in the order they were added, with the name and the type of entry \<open>i\<close>,
  \<open>NULL\<close> when there is none.
\<close>

theorem blobmsg_build_parse:
  assumes "\<forall>k. alloc k" and "\<forall>f\<in>set fs. field_ok f" and "length (enc_fields fs) + 4 < 2 ^ 24" and "policy_ok policy"
  shows "\<exists>b b'. blobmsg_buf_init alloc \<lparr>buf = [], head = None\<rparr> = Some (0, b) \<and>
    add_fields alloc fs b = Some b' \<and> head b' = Some 0 \<and>
    blob_len (buf b') 0 = Some (word_of_nat (length (enc_fields fs))) \<and>
    blobmsg_parse policy (buf b') (blob_data 0) (word_of_nat (length (enc_fields fs))) =
      Some (0, map (first_match 4 fs) policy)"
proof -
  let ?n = "length (enc_fields fs)" let ?w = "new_hdr 2 ?n"
  obtain b b' R where b: "blobmsg_buf_init alloc \<lparr>buf = [], head = None\<rparr> = Some (0, b)" "add_fields alloc fs b = Some b'" "head b' = Some 0"
    "blob_len (buf b') 0 = Some (word_of_nat ?n)" and buf: "buf b' = be32 ?w @ enc_fields fs @ R"
    by (rule build_fields [OF assms(1-3)])
  have u: "uint (word_of_nat ?n :: u32) = int ?n" using assms(3) uint_nat [of "word_of_nat ?n :: u32"] by simp
  have m: "map2 (\<lambda>pol t. if t = None then first_match 4 fs pol else t) policy (replicate (length policy) None) =
      map (first_match 4 fs) policy"
    by (intro nth_equalityI) auto
  from parse_loop_ok [OF assms(2,4), of "replicate (length policy) None" "be32 ?w" R, unfolded length_be32] assms(3)
  have "blobmsg_parse policy (buf b') (blob_data 0) (word_of_nat ?n) = Some (0, map (first_match 4 fs) policy)"
    unfolding blobmsg_parse_def buf u blob_data_def by (simp add: m)
  then show ?thesis using b by blast
qed

theorem blobmsg_build_parse_witness:
  "\<exists>b b'. blobmsg_buf_init (\<lambda>_. True) \<lparr>buf = [], head = None\<rparr> = Some (0, b) \<and>
    add_fields (\<lambda>_. True) [(3, [97], [98, 0]), (5, [99], [0, 0, 0, 9])] b = Some b' \<and> head b' = Some 0 \<and>
    blobmsg_parse [\<lparr>pname = Some [99], ptype = 5\<rparr>, \<lparr>pname = Some [100], ptype = 0\<rparr>] (buf b') 4 24 =
      Some (0, [Some 16, None])"
  using blobmsg_build_parse [of "\<lambda>_. True" "[(3, [97], [98, 0]), (5, [99], [0, 0, 0, 9])]"
      "[\<lparr>pname = Some [99], ptype = 5\<rparr>, \<lparr>pname = Some [100], ptype = 0\<rparr>]"]
  by (simp add: length_enc_field blobmsg_hdrlen_def pad4_def policy_ok_def first_match_def blob_data_def) blast


text \<open>
  C18: What \<open>blobmsg_check_attr\<close> accepts can be used: when it returns true for an attribute that lies in
  the block and has the extension flag, its name is a terminated string in the block, a \<open>STRING\<close> is
  terminated inside the attribute's data, and an integer has all its bytes inside the block. So the
  getters of the accepted type are defined.
\<close>

theorem blobmsg_check_attr_sound:
  assumes ok: "blobmsg_check_attr m p nm = Some True" and w: "rd_be32 m p = Some w" "hdr_extended w"
    and in_m: "4 \<le> raw w" "p + raw w \<le> length m" "length m < 2 ^ 31"
  shows "(\<exists>s. blobmsg_name m p = Some s) \<and>
    (hdr_id w = 3 \<longrightarrow> (\<exists>s d n. blobmsg_get_string m (Some p) = Some (Some s) \<and> blobmsg_data m p = Some d \<and>
      blobmsg_data_len m p = Some n \<and> int (length s) < n)) \<and>
    (hdr_id w = 4 \<longrightarrow> (\<exists>v. blobmsg_get_u64 m p = Some v)) \<and> (hdr_id w = 5 \<longrightarrow> (\<exists>v. blobmsg_get_u32 m p = Some v)) \<and>
    (hdr_id w = 6 \<longrightarrow> (\<exists>v. blobmsg_get_u16 m p = Some v)) \<and> (hdr_id w = 7 \<longrightarrow> (\<exists>v. blobmsg_get_u8 m p = Some v))"
proof -
  let ?q = "blob_data p"
  have len: "blob_len m p = Some (hdr_len w)" "unat (hdr_len w) = raw w - 4" "uint (hdr_len w) = int (raw w - 4)"
    using w hdr_len_raw [OF in_m(1)] uint_nat [of "hdr_len w"] by (simp_all add: blob_len_def)
  from ok len obtain nl where nl: "blobmsg_namelen m ?q = Some nl" "rd8 m (?q + 2 + unat nl) = Some 0"
    by (auto simp: blobmsg_check_attr_def bind_eq_Some_conv split: if_splits)
  define hl where "hl = blobmsg_hdrlen (unat nl)"
  have d: "blobmsg_data m p = Some (?q + hl)" using w nl by (simp add: blobmsg_data_def blob_is_extended_def hl_def)
  define dl where "dl = int (raw w - 4) - int hl"
  have "unat nl < 2 ^ LENGTH(16)" by (rule unsigned_less)
  then have hl: "hl \<le> 2 ^ 16 + 8" by (simp add: hl_def blobmsg_hdrlen_def)
  have dlen: "blobmsg_data_len m p = Some dl"
    using len d hl raw_bound [of w] by (simp add: blobmsg_data_len_def dl_def)
  have id: "blob_id m p = Some (hdr_id w)" using w by (simp add: blob_id_def)
  have chk: "blob_check_type m (?q + hl) (word_of_int dl) (blob_type ! hdr_id w) = Some True" if "3 \<le> hdr_id w"
    using ok len nl d dlen id that
    by (auto simp: blobmsg_check_attr_def blob_type_def nth_Cons' split: if_splits)
  have name: "\<exists>s. blobmsg_name m p = Some s"
    using cstr_at_defined [OF nl(2)] by (auto simp: blobmsg_name_def)
  have dr: "- (2 ^ 17) < dl" "dl < 2 ^ 24" using hl raw_bound [of w] by (auto simp: dl_def)
  have sz: "dl = k" if "word_of_int dl = (word_of_int k :: u32)" "0 \<le> k" "k \<le> 8" for k
  proof -
    have "dl mod 2 ^ 32 = k mod 2 ^ 32" using arg_cong [OF that(1), of uint] by (simp add: uint_word_of_int)
    then show ?thesis using dr that(2,3) mod_neg32 [of dl] by (cases "0 \<le> dl") (auto simp: mod_pos_pos_trivial)
  qed
  have room: "?q + hl + nat dl \<le> length m" if "0 \<le> dl"
  proof -
    have "nat (int a - int b) = a - b \<and> b \<le> a" if "0 \<le> int a - int b" for a b using that by auto
    from this [of "raw w - 4" hl] that have "nat dl = raw w - 4 - hl" "hl \<le> raw w - 4" unfolding dl_def by blast+
    then show ?thesis using in_m by (simp add: blob_data_def)
  qed
  have ints: "?q + hl + k \<le> length m" if "word_of_nat k = (word_of_int dl :: u32)" "k \<le> 8" for k
    using sz [of "int k"] that room by auto
  have str: "\<exists>s. cstr_at m (?q + hl) = Some s \<and> int (length s) < dl" if "hdr_id w = 3"
  proof -
    from chk that have c: "\<not> (word_of_int dl :: u32) < 1" "rd8 m (?q + hl + unat (word_of_int dl - 1 :: u32)) = Some 0"
      by (auto simp: blob_type_def blob_check_type_def blob_type_minlen_def split: if_splits)
    have u: "unat (word_of_int dl - 1 :: u32) = nat ((dl - 1) mod 2 ^ 32)"
      using unat_word_of_int_32 [of "dl - 1"] by simp
    have "1 \<le> dl"
    proof (rule ccontr)
      assume neg: "\<not> 1 \<le> dl"
      then have "2 ^ 31 \<le> (dl - 1) mod 2 ^ 32" using dr by (subst mod_neg32) auto
      then show False using c(2) in_m(3) unfolding u by (simp add: rd8_def split: if_splits)
    qed
    then have "unat (word_of_int dl - 1 :: u32) = nat dl - 1" using u dr by (simp add: nat_diff_distrib)
    then show ?thesis using cstr_at_defined [OF c(2)] \<open>1 \<le> dl\<close> by fastforce
  qed
  have u64: "\<exists>v. blobmsg_get_u64 m p = Some v" if "hdr_id w = 4"
    using chk that ints [of 8]
    by (auto simp: blobmsg_get_u64_def d rd_be32_def blob_type_def blob_check_type_def blob_type_minlen_def split: if_splits)
  have u32: "\<exists>v. blobmsg_get_u32 m p = Some v" if "hdr_id w = 5"
    using chk that ints [of 4]
    by (auto simp: blobmsg_get_u32_def d rd_be32_def blob_type_def blob_check_type_def blob_type_minlen_def split: if_splits)
  have u16: "\<exists>v. blobmsg_get_u16 m p = Some v" if "hdr_id w = 6"
    using chk that ints [of 2]
    by (auto simp: blobmsg_get_u16_def d rd_be16_def blob_type_def blob_check_type_def blob_type_minlen_def split: if_splits)
  have u8: "\<exists>v. blobmsg_get_u8 m p = Some v" if "hdr_id w = 7"
    using chk that ints [of 1]
    by (auto simp: blobmsg_get_u8_def d rd8_def blob_type_def blob_check_type_def blob_type_minlen_def split: if_splits)
  have "\<exists>s. blobmsg_get_string m (Some p) = Some (Some s) \<and> int (length s) < dl" if "hdr_id w = 3"
    using str [OF that] by (auto simp: blobmsg_get_string_def d)
  with name u64 u32 u16 u8 d dlen show ?thesis by auto
qed


definition sample_field :: "byte list" where
  "sample_field = [131, 0, 0, 10, 0, 1, 97, 0, 98, 0, 0, 0]"

theorem blobmsg_check_attr_sound_witness:
  "blobmsg_check_attr sample_field 0 True = Some True \<and>
    (\<exists>s d n. blobmsg_get_string sample_field (Some 0) = Some (Some s) \<and> blobmsg_data sample_field 0 = Some d \<and>
      blobmsg_data_len sample_field 0 = Some n \<and> int (length s) < n)"
proof -
  have w: "rd_be32 sample_field 0 = Some 0x8300000a" "hdr_extended 0x8300000a"
    by (simp_all add: sample_field_def rd_be32_def of_be32_def hdr_extended_def)
  have id: "hdr_id 0x8300000a = 3" by (simp add: hdr_id_def)
  have ok: "blobmsg_check_attr sample_field 0 True = Some True"
  proof -
    have "blob_len sample_field 0 = Some 6" "blob_id sample_field 0 = Some 3" "blobmsg_namelen sample_field (blob_data 0) = Some 1"
      "rd8 sample_field (blob_data 0 + 2 + 1) = Some 0" "rd8 sample_field 9 = Some 0"
      by (simp_all add: blob_len_def blob_id_def w id hdr_len_def blobmsg_namelen_def blob_data_def)
        (simp_all add: sample_field_def rd_be16_def of_be16_def rd8_def)
    moreover from this have "blobmsg_data sample_field 0 = Some 8"
      by (simp add: blobmsg_data_def blob_is_extended_def w blobmsg_hdrlen_def blob_data_def)
    moreover from calculation have "blobmsg_data_len sample_field 0 = Some 2"
      by (simp add: blobmsg_data_len_def blob_data_def)
    ultimately show ?thesis
      by (simp add: blobmsg_check_attr_def blob_type_def blob_check_type_def blob_type_minlen_def)
  qed
  from blobmsg_check_attr_sound [OF ok w] ok id show ?thesis by (simp add: raw_eq sample_field_def)
qed

text \<open>
  C19: \<open>blobmsg_check_attr\<close> itself is not safe on every input: for a \<open>STRING\<close> with the extension flag, an
  empty name and a payload of three bytes, the padded name header (four bytes) is longer than the
  payload, the data length is -1, and the test of the last byte reads almost 4 GiB after the data.
\<close>

theorem blobmsg_check_attr_overread:
  assumes "rd_be32 m p = Some w" and "hdr_extended w" and "hdr_id w = 3" and "raw w = 7"
    and "rd_be16 m (p + 4) = Some 0" and "rd8 m (p + 6) = Some 0" and "length m < 2 ^ 31"
  shows "blobmsg_check_attr m p False = None"
proof -
  have "unat (hdr_len w) = 3" using hdr_len_raw [of w] assms(4) by simp
  then have len: "hdr_len w = 3" using word_eq_of_unat [of "hdr_len w"] by simp
  have "unat (word_of_int (-1) - 1 :: u32) \<ge> 2 ^ 31" by simp
  then have "rd8 m (p + 4 + 4 + unat (word_of_int (-1) - 1 :: u32)) = None" using assms(7) by (simp add: rd8_def)
  moreover have l: "blob_len m p = Some 3" "blob_id m p = Some 3" "blobmsg_namelen m (blob_data p) = Some 0"
      "rd8 m (blob_data p + 2 + 0) = Some 0"
    using assms len by (simp_all add: blob_len_def blob_id_def blobmsg_namelen_def blob_data_def add.commute)
  moreover have d: "blobmsg_data m p = Some (p + 4 + 4)"
    using assms(1,2) l by (simp add: blobmsg_data_def blob_is_extended_def blob_data_def blobmsg_hdrlen_def)
  moreover have "blobmsg_data_len m p = Some (-1)" using l d by (simp add: blobmsg_data_len_def blob_data_def)
  ultimately show ?thesis
    by (simp add: blobmsg_check_attr_def blob_type_def blob_check_type_def blob_type_minlen_def)
qed

theorem blobmsg_check_attr_overread_witness:
  "blobmsg_check_attr [131, 0, 0, 7, 0, 0, 0, 0] 0 False = None"
proof -
  let ?m = "[131, 0, 0, 7, 0, 0, 0, 0] :: byte list"
  have w: "rd_be32 ?m 0 = Some 0x83000007" by (simp add: rd_be32_def of_be32_def)
  show ?thesis
    by (rule blobmsg_check_attr_overread [OF w])
      (simp_all add: hdr_extended_def hdr_id_def raw_eq rd_be16_def of_be16_def rd8_def)
qed

end
