(* ===== verification/Blobmsg_Json.thy ===== *)
theory Blobmsg_Json
  imports Blobmsg
begin

text \<open>
  The text of a message in JSON: the second half of \<open>src/libubox/blobmsg_json.c\<close>.

  The text grows in a buffer: \<open>sb_buf\<close> holds the bytes written to it, \<open>None\<close> when the block is \<open>NULL\<close>, \<open>sb_len\<close> is the size of the block
  and \<open>sb_pos\<close> the number of bytes written. A write to \<open>NULL\<close> or beyond the block is \<open>None\<close>, and so is one after bytes that were
  lost with a block. The allocator fails or not as a function of the number of the call. The function for a format of one's own is a parameter;
  it depends on the attribute only. What \<open>sprintf\<close> makes of a number is \<open>dec_int\<close>. The lengths and the level are integers: a message is shorter
  than 16 MiB, and the text of one attribute is at most a constant times its length. The level, which the code leaves unset when it does not indent,
  starts at 0 then and is not used.

  The three functions that call each other terminate because what is in an attribute is shorter than the attribute (\<open>attr_size\<close>). The second
  part gives the grammar of JSON as inductive predicates with the value that a text denotes, shows that the text \<open>vtext\<close> of a value is derived
  by it, and that the code writes \<open>vtext\<close>.
\<close>

section \<open>The string buffer\<close>

record strbuf =
  sb_len :: int
  sb_pos :: int
  sb_buf :: "byte list option"
  sb_indent :: bool
  indent_level :: int
  sb_tick :: nat

definition blobmsg_puts :: "(nat \<Rightarrow> bool) \<Rightarrow> strbuf \<Rightarrow> byte list \<Rightarrow> int \<Rightarrow> (bool \<times> strbuf) option" where
  "blobmsg_puts alloc s c len =
     (if len \<le> 0 then Some (True, s)
      else do {
        let s' =
          (if sb_pos s + len \<ge> sb_len s then
             s\<lparr>sb_len := sb_len s + 16 + len, sb_buf := (if alloc (sb_tick s) then Some (case sb_buf s of None \<Rightarrow> [] | Some t \<Rightarrow> t) else None),
               sb_tick := sb_tick s + 1\<rparr>
           else s);
        if sb_pos s + len \<ge> sb_len s \<and> sb_buf s' = None then Some (False, s')
        else do {
          t \<leftarrow> sb_buf s';
          if sb_pos s' + len > sb_len s' \<or> sb_pos s' \<noteq> int (length t) \<or> len > int (length c) then None
          else Some (True, s'\<lparr>sb_buf := Some (t @ take (nat len) c), sb_pos := sb_pos s' + len\<rparr>)
        }
      })"

text \<open>The callers do not look at the result.\<close>

definition sb_puts :: "(nat \<Rightarrow> bool) \<Rightarrow> byte list \<Rightarrow> strbuf \<Rightarrow> strbuf option" where
  "sb_puts alloc c s = map_option snd (blobmsg_puts alloc s c (int (length c)))"

definition add_separator :: "(nat \<Rightarrow> bool) \<Rightarrow> strbuf \<Rightarrow> strbuf option" where
  "add_separator alloc s =
     (if \<not> sb_indent s then Some s
      else do {
        let indent = (if indent_level s > 16 then 16 else indent_level s);
        if indent < 0 then None else sb_puts alloc (10 # replicate (nat indent) 9) s
      })"

section \<open>Strings and numbers\<close>

definition escape_char :: "byte \<Rightarrow> byte" where
  "escape_char c =
     (if c = 8 then 98 else if c = 10 then 110 else if c = 9 then 116 else if c = 13 then 114
      else if c = 34 \<or> c = 92 then c
      else if c < 32 then 117 else 0)"

definition hex_digit :: "nat \<Rightarrow> byte" where
  "hex_digit n = (if n < 10 then word_of_nat (48 + n) else word_of_nat (87 + n))"

text \<open>The buffer with the escape sequence, as far as it is written.\<close>

definition escape_seq :: "byte \<Rightarrow> byte list" where
  "escape_seq c =
     (if escape_char c = 117 then [92, 117, 48, 48, hex_digit (unat c div 16), hex_digit (unat c mod 16)]
      else [92, escape_char c])"

text \<open>\<open>pend\<close> holds the characters from \<open>last\<close> to \<open>p\<close>.\<close>

fun format_loop :: "(nat \<Rightarrow> bool) \<Rightarrow> byte list \<Rightarrow> byte list \<Rightarrow> strbuf \<Rightarrow> strbuf option" where
  "format_loop alloc pend [] s = sb_puts alloc pend s"
| "format_loop alloc pend (c # cs) s =
     (if escape_char c = 0 then format_loop alloc (pend @ [c]) cs s
      else do {
        s \<leftarrow> (if pend \<noteq> [] then sb_puts alloc pend s else Some s);
        s \<leftarrow> sb_puts alloc (escape_seq c) s;
        format_loop alloc [] cs s
      })"

definition blobmsg_format_string :: "(nat \<Rightarrow> bool) \<Rightarrow> cstring \<Rightarrow> strbuf \<Rightarrow> strbuf option" where
  "blobmsg_format_string alloc str s = do {
     s \<leftarrow> sb_puts alloc [34] s;
     s \<leftarrow> format_loop alloc [] str s;
     sb_puts alloc [34] s
   }"

fun dec_nat :: "nat \<Rightarrow> byte list" where
  "dec_nat n = (if n < 10 then [word_of_nat (48 + n)] else dec_nat (n div 10) @ [word_of_nat (48 + n mod 10)])"

declare dec_nat.simps [simp del]

definition dec_int :: "int \<Rightarrow> byte list" where
  "dec_int i = (if i < 0 then 45 # dec_nat (nat (- i)) else dec_nat (nat i))"

section \<open>Attributes\<close>

text \<open>The text of an attribute that has no parts; \<open>None\<close> for the types that are formatted otherwise.\<close>

definition scalar_text :: "byte list \<Rightarrow> nat \<Rightarrow> nat \<Rightarrow> byte list option" where
  "scalar_text m ty d =
     (if ty = 0 then Some (cstr ''null'')
      else if ty = 7 then map_option (\<lambda>b. if b \<noteq> 0 then cstr ''true'' else cstr ''false'') (rd8 m d)
      else if ty = 6 then map_option (\<lambda>w. dec_int (uint w)) (rd_be16 m d)
      else if ty = 5 then map_option (\<lambda>w. dec_int (sint w)) (rd_be32 m d)
      else if ty = 4 then do {
        hi \<leftarrow> rd_be32 m d;
        lo \<leftarrow> rd_be32 m (d + 4);
        Some (dec_int (sint (push_bit 32 (ucast hi) OR ucast lo :: u64)))
      }
      else None)"

text \<open>The room that an attribute takes, at least that of a header: what is in an attribute is smaller.\<close>

definition attr_size :: "byte list \<Rightarrow> nat \<Rightarrow> nat" where
  "attr_size m p = (case blob_pad_len m p of None \<Rightarrow> 4 | Some n \<Rightarrow> max 4 (unat n))"

lemma to_int32_sub: "to_int32 (x mod 2 ^ 32 - k) = to_int32 (x - k)"
proof -
  have "(x mod 2 ^ 32 + (2 ^ 31 - k)) mod 2 ^ 32 = (x + (2 ^ 31 - k)) mod 2 ^ 32" by (rule mod_add_left_eq)
  then show ?thesis by (simp add: to_int32_def algebra_simps)
qed

lemma to_int32_small: "a < 2 ^ 24 \<Longrightarrow> b < 2 ^ 17 \<Longrightarrow> to_int32 (int a - 4 - int b) = int a - 4 - int b"
  by (intro to_int32_id) simp_all

lemma data_len_size:
  assumes "blobmsg_data_len m p = Some n"
  shows "nat n < attr_size m p"
proof -
  obtain w d where w: "rd_be32 m p = Some w" and d: "blobmsg_data m p = Some d" and n: "n = to_int32 (uint (hdr_len w) - int (d - blob_data p))"
    using assms by (auto simp: blobmsg_data_len_def blob_len_def bind_eq_Some_conv)
  have "blobmsg_hdrlen (unat nl) < 2 ^ 17" for nl :: u16
  proof -
    have "unat nl < 2 ^ LENGTH(16)" by (rule unsigned_less)
    then show ?thesis by (simp add: blobmsg_hdrlen_def)
  qed
  then have k: "d - blob_data p < 2 ^ 17"
    using d by (auto simp: blobmsg_data_def bind_eq_Some_conv split: if_splits)
  have "hdr_len w = hdr_raw_len w - 4" by (simp add: hdr_raw_len_def)
  then have "uint (hdr_len w) = (int (raw w) - 4) mod 2 ^ 32" by (simp add: uint_word_ariths)
  then have "n = to_int32 (int (raw w) - 4 - int (d - blob_data p))" using n to_int32_sub by simp
  also have "\<dots> = int (raw w) - 4 - int (d - blob_data p)" by (rule to_int32_small [OF raw_bound k])
  finally have "nat n < max 4 (raw w)" by linarith
  then show ?thesis using w pad_ge_raw [of w] by (simp add: attr_size_def blob_pad_len_def)
qed

function blobmsg_format_element :: "(nat \<Rightarrow> bool) \<Rightarrow> (nat \<Rightarrow> cstring option) option \<Rightarrow> byte list \<Rightarrow> nat \<Rightarrow> bool \<Rightarrow> bool \<Rightarrow> strbuf \<Rightarrow> strbuf option"
  and blobmsg_format_json_list :: "(nat \<Rightarrow> bool) \<Rightarrow> (nat \<Rightarrow> cstring option) option \<Rightarrow> byte list \<Rightarrow> nat \<Rightarrow> int \<Rightarrow> bool \<Rightarrow> strbuf \<Rightarrow> strbuf option"
  and format_list_loop :: "(nat \<Rightarrow> bool) \<Rightarrow> (nat \<Rightarrow> cstring option) option \<Rightarrow> byte list \<Rightarrow> nat \<Rightarrow> int \<Rightarrow> bool \<Rightarrow> bool \<Rightarrow> strbuf \<Rightarrow> strbuf option"
where
  "blobmsg_format_element alloc cb m attr array is_head s = do {
     ok \<leftarrow> blobmsg_check_attr m attr False;
     if \<not> ok then Some s
     else do {
       s \<leftarrow>
         (if array then Some s
          else do {
            name \<leftarrow> blobmsg_name m attr;
            if name = [] then Some s
            else do {
              s \<leftarrow> blobmsg_format_string alloc name s;
              sb_puts alloc (if sb_indent s then [58, 32] else [58]) s
            }
          });
       data \<leftarrow> blobmsg_data m attr;
       len \<leftarrow> blobmsg_data_len m attr;
       ty \<leftarrow> blob_id m attr;
       let custom = (if is_head then None else case cb of None \<Rightarrow> None | Some f \<Rightarrow> f attr);
       if custom \<noteq> None then sb_puts alloc (the custom) s
       else if ty = 3 then do {
         str \<leftarrow> cstr_at m data;
         blobmsg_format_string alloc str s
       }
       else if ty = 1 then blobmsg_format_json_list alloc cb m data len True s
       else if ty = 2 then blobmsg_format_json_list alloc cb m data len False s
       else do {
         t \<leftarrow> scalar_text m ty data;
         sb_puts alloc t s
       }
     }
   }"
| "blobmsg_format_json_list alloc cb m attr len array s = do {
     s \<leftarrow> sb_puts alloc (if array then [91] else [123]) s;
     s \<leftarrow> add_separator alloc (s\<lparr>indent_level := indent_level s + 1\<rparr>);
     s \<leftarrow> format_list_loop alloc cb m attr len array True s;
     s \<leftarrow> add_separator alloc (s\<lparr>indent_level := indent_level s - 1\<rparr>);
     sb_puts alloc (if array then [93] else [125]) s
   }"
| "format_list_loop alloc cb m pos rem array first s =
     (if rem > 0 then do {
        n \<leftarrow> blob_pad_len m pos;
        if uint n \<le> rem \<and> n \<ge> 4 then do {
          s \<leftarrow> (if first then Some s else sb_puts alloc [44] s \<bind> add_separator alloc);
          s \<leftarrow> blobmsg_format_element alloc cb m pos array False s;
          format_list_loop alloc cb m (pos + unat n) (rem - uint n) array False s
        }
        else Some s
      }
      else Some s)"
  by pat_completeness auto
termination
proof (relation "measure (\<lambda>x. case x of
    Inl (_, _, m, attr, _) \<Rightarrow> 3 * attr_size m attr
  | Inr (Inl (_, _, _, _, len, _)) \<Rightarrow> 3 * nat len + 2
  | Inr (Inr (_, _, _, _, rem, _)) \<Rightarrow> 3 * nat rem + 1)", goal_cases)
  case (2 alloc cb m attr array is_head s ok s' data len ty custom)
  then show ?case using data_len_size [of m attr len] by simp
next
  case (3 alloc cb m attr array is_head s ok s' data len ty custom)
  then show ?case using data_len_size [of m attr len] by simp
next
  case (5 alloc cb m pos rem array first s n s')
  then have "4 \<le> unat n" "nat (uint n) \<le> nat rem" by (simp_all add: word_le_nat_alt nat_mono del: nat_uint_eq)
  then have "attr_size m pos \<le> nat rem" using 5 by (simp add: attr_size_def)
  then show ?case by simp
next
  case (6 alloc cb m pos rem array first s n s' s'')
  then have "4 \<le> uint n" by (simp add: word_le_def)
  then show ?case using 6 by simp
qed simp_all

declare blobmsg_format_element.simps [simp del] blobmsg_format_json_list.simps [simp del] format_list_loop.simps [simp del]

definition blobmsg_format_json_with_cb ::
    "(nat \<Rightarrow> bool) \<Rightarrow> (nat \<Rightarrow> cstring option) option \<Rightarrow> byte list \<Rightarrow> nat \<Rightarrow> bool \<Rightarrow> int \<Rightarrow> cstring option option" where
  "blobmsg_format_json_with_cb alloc cb m attr list indent = do {
     len \<leftarrow> blob_len m attr;
     let s = \<lparr>sb_len = to_int32 (uint len), sb_pos = 0, sb_buf = (if alloc 0 then Some [] else None), sb_indent = (indent \<ge> 0),
       indent_level = (if indent \<ge> 0 then indent else 0), sb_tick = 1\<rparr>;
     ext \<leftarrow> blob_is_extended m attr;
     ty \<leftarrow> blobmsg_type m attr;
     let array = (ext \<and> ty = 1);
     s \<leftarrow>
       (if list then do {
          d \<leftarrow> blobmsg_data m attr;
          n \<leftarrow> blobmsg_data_len m attr;
          blobmsg_format_json_list alloc cb m d n array s
        }
        else blobmsg_format_element alloc cb m attr False False s);
     if sb_len s = 0 then Some None
     else do {
       t \<leftarrow> sb_buf s;
       if alloc (sb_tick s) then Some (Some t) else None
     }
   }"

section \<open>Values and their text\<close>

text \<open>What a message holds, as \<open>enc_field\<close> stores it.\<close>

datatype bmsg =
    BNull
  | BBool byte
  | BInt16 u16
  | BInt32 u32
  | BInt64 u64
  | BStr cstring
  | BArr "bmsg list"
  | BTab "(cstring \<times> bmsg) list"

fun vtype :: "bmsg \<Rightarrow> int" where
  "vtype BNull = 0"
| "vtype (BBool b) = 7"
| "vtype (BInt16 w) = 6"
| "vtype (BInt32 w) = 5"
| "vtype (BInt64 w) = 4"
| "vtype (BStr s) = 3"
| "vtype (BArr vs) = 1"
| "vtype (BTab fs) = 2"

fun vdata :: "bmsg \<Rightarrow> byte list" where
  "vdata BNull = []"
| "vdata (BBool b) = [b]"
| "vdata (BInt16 w) = be16 w"
| "vdata (BInt32 w) = be32 w"
| "vdata (BInt64 w) = be64 w"
| "vdata (BStr s) = s @ [0]"
| "vdata (BArr vs) = concat (map (\<lambda>v. enc_field (vtype v) [] (vdata v)) vs)"
| "vdata (BTab fs) = concat (map (\<lambda>(n, v). enc_field (vtype v) n (vdata v)) fs)"

text \<open>Strings and names have no zero; the entries of a table have names.\<close>

fun bmsg_ok :: "bmsg \<Rightarrow> bool" where
  "bmsg_ok (BStr s) \<longleftrightarrow> 0 \<notin> set s"
| "bmsg_ok (BArr vs) \<longleftrightarrow> (\<forall>v\<in>set vs. bmsg_ok v)"
| "bmsg_ok (BTab fs) \<longleftrightarrow> (\<forall>(n, v)\<in>set fs. n \<noteq> [] \<and> 0 \<notin> set n \<and> length n < 2 ^ 16 \<and> bmsg_ok v)"
| "bmsg_ok _ \<longleftrightarrow> True"

datatype json =
    JNull
  | JBool bool
  | JInt int
  | JStr cstring
  | JArr "json list"
  | JObj "(cstring \<times> json) list"

fun denote :: "bmsg \<Rightarrow> json" where
  "denote BNull = JNull"
| "denote (BBool b) = JBool (b \<noteq> 0)"
| "denote (BInt16 w) = JInt (uint w)"
| "denote (BInt32 w) = JInt (sint w)"
| "denote (BInt64 w) = JInt (sint w)"
| "denote (BStr s) = JStr s"
| "denote (BArr vs) = JArr (map denote vs)"
| "denote (BTab fs) = JObj (map (\<lambda>(n, v). (n, denote v)) fs)"

text \<open>The grammar of JSON (RFC 8259), for the bytes of a text, with the value that a text denotes; numbers are integers.\<close>

definition ws :: "byte list \<Rightarrow> bool" where
  "ws t \<longleftrightarrow> set t \<subseteq> {32, 9, 10, 13}"

definition hex_value :: "byte \<Rightarrow> nat option" where
  "hex_value h = (let n = unat h in
     if 48 \<le> n \<and> n \<le> 57 then Some (n - 48) else if 97 \<le> n \<and> n \<le> 102 then Some (n - 87)
     else if 65 \<le> n \<and> n \<le> 70 then Some (n - 55) else None)"

inductive json_chars :: "byte list \<Rightarrow> cstring \<Rightarrow> bool" where
  chars_end: "json_chars [] []"
| chars_plain: "json_chars t v \<Longrightarrow> 32 \<le> c \<Longrightarrow> c \<noteq> 34 \<Longrightarrow> c \<noteq> 92 \<Longrightarrow> json_chars (c # t) (c # v)"
| chars_esc: "json_chars t v \<Longrightarrow> (e, c) \<in> {(34, 34), (92, 92), (47, 47), (98, 8), (102, 12), (110, 10), (114, 13), (116, 9)} \<Longrightarrow>
    json_chars (92 # e # t) (c # v)"
| chars_hex: "json_chars t v \<Longrightarrow> hex_value h = Some i \<Longrightarrow> hex_value l = Some j \<Longrightarrow> i < 8 \<Longrightarrow>
    json_chars (92 # 117 # 48 # 48 # h # l # t) (word_of_nat (16 * i + j) # v)"

definition nat_value :: "byte list \<Rightarrow> nat" where
  "nat_value t = foldl (\<lambda>n c. 10 * n + (unat c - 48)) 0 t"

definition json_nat :: "byte list \<Rightarrow> nat \<Rightarrow> bool" where
  "json_nat t n \<longleftrightarrow> t \<noteq> [] \<and> (\<forall>c\<in>set t. 48 \<le> unat c \<and> unat c \<le> 57) \<and> (hd t = 48 \<longrightarrow> length t = 1) \<and> nat_value t = n"

inductive json_value :: "byte list \<Rightarrow> json \<Rightarrow> bool"
  and json_elems :: "byte list \<Rightarrow> json list \<Rightarrow> bool"
  and json_members :: "byte list \<Rightarrow> (cstring \<times> json) list \<Rightarrow> bool" where
  value_null: "json_value (cstr ''null'') JNull"
| value_true: "json_value (cstr ''true'') (JBool True)"
| value_false: "json_value (cstr ''false'') (JBool False)"
| value_nat: "json_nat t n \<Longrightarrow> json_value t (JInt (int n))"
| value_neg: "json_nat t n \<Longrightarrow> json_value (45 # t) (JInt (- int n))"
| value_str: "json_chars t v \<Longrightarrow> json_value (34 # t @ [34]) (JStr v)"
| value_nil: "ws w \<Longrightarrow> json_value (91 # w @ [93]) (JArr [])"
| value_arr: "json_elems t vs \<Longrightarrow> json_value (91 # t @ [93]) (JArr vs)"
| value_empty: "ws w \<Longrightarrow> json_value (123 # w @ [125]) (JObj [])"
| value_obj: "json_members t fs \<Longrightarrow> json_value (123 # t @ [125]) (JObj fs)"
| elems_one: "ws w \<Longrightarrow> json_value t v \<Longrightarrow> ws w' \<Longrightarrow> json_elems (w @ t @ w') [v]"
| elems_more: "ws w \<Longrightarrow> json_value t v \<Longrightarrow> ws w' \<Longrightarrow> json_elems u vs \<Longrightarrow> json_elems (w @ t @ w' @ 44 # u) (v # vs)"
| members_one: "ws w \<Longrightarrow> json_chars k n \<Longrightarrow> ws w' \<Longrightarrow> ws x \<Longrightarrow> json_value t v \<Longrightarrow> ws x' \<Longrightarrow>
    json_members (w @ 34 # k @ 34 # w' @ 58 # x @ t @ x') [(n, v)]"
| members_more: "ws w \<Longrightarrow> json_chars k n \<Longrightarrow> ws w' \<Longrightarrow> ws x \<Longrightarrow> json_value t v \<Longrightarrow> ws x' \<Longrightarrow> json_members u fs \<Longrightarrow>
    json_members (w @ 34 # k @ 34 # w' @ 58 # x @ t @ x' @ 44 # u) ((n, v) # fs)"

text \<open>The text that is written.\<close>

definition esc1 :: "byte \<Rightarrow> byte list" where
  "esc1 c = (if escape_char c = 0 then [c] else escape_seq c)"

definition quoted :: "cstring \<Rightarrow> byte list" where
  "quoted s = 34 # concat (map esc1 s) @ [34]"

definition sep :: "bool \<Rightarrow> nat \<Rightarrow> byte list" where
  "sep ind lvl = (if ind then 10 # replicate (min 16 lvl) 9 else [])"

definition key :: "bool \<Rightarrow> bool \<Rightarrow> cstring \<Rightarrow> byte list" where
  "key ind array n = (if array \<or> n = [] then [] else quoted n @ (if ind then [58, 32] else [58]))"

fun join :: "byte list \<Rightarrow> byte list list \<Rightarrow> byte list" where
  "join s [] = []"
| "join s [x] = x"
| "join s (x # y # xs) = x @ s @ join s (y # xs)"

fun vtext :: "bool \<Rightarrow> nat \<Rightarrow> bmsg \<Rightarrow> byte list" where
  "vtext ind lvl BNull = cstr ''null''"
| "vtext ind lvl (BBool b) = (if b \<noteq> 0 then cstr ''true'' else cstr ''false'')"
| "vtext ind lvl (BInt16 w) = dec_int (uint w)"
| "vtext ind lvl (BInt32 w) = dec_int (sint w)"
| "vtext ind lvl (BInt64 w) = dec_int (sint w)"
| "vtext ind lvl (BStr s) = quoted s"
| "vtext ind lvl (BArr vs) = 91 # sep ind (Suc lvl) @ join (44 # sep ind (Suc lvl)) (map (vtext ind (Suc lvl)) vs) @ sep ind lvl @ [93]"
| "vtext ind lvl (BTab fs) = 123 # sep ind (Suc lvl) @
     join (44 # sep ind (Suc lvl)) (map (\<lambda>(n, v). key ind False n @ vtext ind (Suc lvl) v) fs) @ sep ind lvl @ [125]"

section \<open>The text is JSON\<close>

lemma ws_sep [simp]: "ws (sep ind lvl)"
  by (auto simp: ws_def sep_def)

lemma ws_app [simp]: "ws (a @ b) \<longleftrightarrow> ws a \<and> ws b"
  by (auto simp: ws_def)

lemma ws_simps [simp]: "ws []" "ws [32]"
  by (auto simp: ws_def)

lemma unat_byte: "n < 256 \<Longrightarrow> unat (word_of_nat n :: byte) = n"
  by (simp add: unat_of_nat)

lemma hex_digit_value: "n < 16 \<Longrightarrow> hex_value (hex_digit n) = Some n"
  using unat_byte [of "48 + n"] unat_byte [of "87 + n"] by (auto simp: hex_value_def hex_digit_def Let_def simp del: of_nat_add)

lemma json_chars_esc1:
  assumes "json_chars t v" and "c \<noteq> 0"
  shows "json_chars (esc1 c @ t) (c # v)"
proof -
  consider (plain) "escape_char c = 0" | (hex) "escape_char c = 117" | (esc) "escape_char c \<noteq> 0" "escape_char c \<noteq> 117" by blast
  then show ?thesis
  proof cases
    case plain
    then have "32 \<le> c" "c \<noteq> 34" "c \<noteq> 92" using assms(2) by (auto simp: escape_char_def split: if_splits)
    then show ?thesis using plain assms(1) by (simp add: esc1_def chars_plain)
  next
    case hex
    then have "c < 32" by (auto simp: escape_char_def split: if_splits)
    then have c: "unat c < 32" by (simp add: word_less_nat_alt)
    let ?h = "hex_digit (unat c div 16)" let ?l = "hex_digit (unat c mod 16)"
    have "hex_value ?h = Some (unat c div 16)" "hex_value ?l = Some (unat c mod 16)" using c by (simp_all add: hex_digit_value)
    from chars_hex [OF assms(1) this] c show ?thesis using hex by (simp add: esc1_def escape_seq_def)
  next
    case esc
    then have "(escape_char c, c) \<in> {(34, 34), (92, 92), (47, 47), (98, 8), (102, 12), (110, 10), (114, 13), (116, 9)}"
      by (auto simp: escape_char_def split: if_splits)
    from chars_esc [OF assms(1) this] show ?thesis using esc by (simp add: esc1_def escape_seq_def)
  qed
qed

lemma json_chars_quoted: "0 \<notin> set s \<Longrightarrow> json_chars (concat (map esc1 s)) s"
  by (induction s) (auto intro: json_chars_esc1 chars_end)

lemma nat_value_snoc: "nat_value (t @ [c]) = 10 * nat_value t + (unat c - 48)"
  by (simp add: nat_value_def)

lemma unat_digit: "d < 10 \<Longrightarrow> unat (word_of_nat (48 + d) :: byte) = 48 + d"
  by (rule unat_byte) simp

lemma dec_nat_ne: "dec_nat n \<noteq> []"
  by (subst dec_nat.simps) simp

lemma dec_nat_hd: "0 < n \<Longrightarrow> hd (dec_nat n) \<noteq> 48"
proof (induction n rule: dec_nat.induct)
  case (1 n)
  show ?case
  proof (cases "n < 10")
    case True
    then have "unat (word_of_nat (48 + n) :: byte) \<noteq> unat (48 :: byte)" using 1(2) unat_digit [OF True] by simp
    then show ?thesis using True by (subst dec_nat.simps) auto
  next
    case False
    then show ?thesis using 1 dec_nat_ne by (subst dec_nat.simps) simp
  qed
qed

lemma json_nat_dec: "json_nat (dec_nat n) n"
proof (induction n rule: dec_nat.induct)
  case (1 n)
  show ?case
  proof (cases "n < 10")
    case True
    then show ?thesis using unat_digit [OF True] by (subst dec_nat.simps) (simp add: json_nat_def nat_value_def del: of_nat_add)
  next
    case False
    have IH: "json_nat (dec_nat (n div 10)) (n div 10)" using 1 False by simp
    have "hd (dec_nat (n div 10)) \<noteq> 48" using False by (intro dec_nat_hd) simp
    then show ?thesis using False IH unat_digit [of "n mod 10"]
      by (subst dec_nat.simps) (auto simp: json_nat_def nat_value_snoc simp del: of_nat_add)
  qed
qed

lemma json_int_dec: "json_value (dec_int i) (JInt i)"
proof (cases "i < 0")
  case True
  then show ?thesis using value_neg [OF json_nat_dec, of "nat (- i)"] by (simp add: dec_int_def)
next
  case False
  then show ?thesis using value_nat [OF json_nat_dec, of "nat i"] by (simp add: dec_int_def)
qed

lemma elems_join:
  assumes "vs \<noteq> []" and "\<forall>v\<in>set vs. json_value (f v) (g v)" and "ws w" and "ws w'" and "ws sp"
  shows "json_elems (w @ join (44 # sp) (map f vs) @ w') (map g vs)"
  using assms
proof (induction vs arbitrary: w)
  case (Cons v vs)
  show ?case
  proof (cases vs)
    case Nil
    then show ?thesis using Cons.prems elems_one [of w "f v" "g v" w'] by simp
  next
    case (Cons v' vs')
    have "json_elems (sp @ join (44 # sp) (map f vs) @ w') (map g vs)" using Cons.IH Cons.prems Cons by simp
    from elems_more [OF _ _ _ this, of w "f v" "g v" "[]"] show ?thesis using Cons Cons.prems by simp
  qed
qed simp

lemma members_join:
  assumes "fs \<noteq> []" and "\<forall>(n, v)\<in>set fs. n \<noteq> [] \<and> 0 \<notin> set n \<and> json_value (f v) (g v)" and "ws w" and "ws w'" and "ws sp"
  shows "json_members (w @ join (44 # sp) (map (\<lambda>(n, v). key ind False n @ f v) fs) @ w') (map (\<lambda>(n, v). (n, g v)) fs)"
  using assms
proof (induction fs arbitrary: w)
  case (Cons e fs)
  obtain n v where e: "e = (n, v)" by (cases e)
  let ?k = "concat (map esc1 n)" let ?x = "if ind then [32] else [] :: byte list"
  have n: "json_chars ?k n" "json_value (f v) (g v)" "n \<noteq> []" "ws ?x" using Cons.prems(2) e json_chars_quoted by auto
  have key: "key ind False n = 34 # ?k @ 34 # [] @ 58 # ?x" using n(3) by (simp add: key_def quoted_def)
  show ?case
  proof (cases fs)
    case Nil
    then show ?thesis using members_one [OF Cons.prems(3) n(1) _ n(4,2) Cons.prems(4), of "[]"] e key by simp
  next
    case (Cons e' fs')
    have "json_members (sp @ join (44 # sp) (map (\<lambda>(n, v). key ind False n @ f v) fs) @ w') (map (\<lambda>(n, v). (n, g v)) fs)"
      using Cons.IH Cons.prems Cons by auto
    from members_more [OF Cons.prems(3) n(1) _ n(4,2) _ this, of "[]" "[]"] show ?thesis using Cons e key by simp
  qed
qed simp

lemma json_vtext: "bmsg_ok v \<Longrightarrow> json_value (vtext ind lvl v) (denote v)"
proof (induction v arbitrary: lvl)
  case (BArr vs)
  show ?case
  proof (cases "vs = []")
    case True
    then show ?thesis using value_nil [of "sep ind (Suc lvl) @ sep ind lvl"] by simp
  next
    case False
    have "json_elems (sep ind (Suc lvl) @ join (44 # sep ind (Suc lvl)) (map (vtext ind (Suc lvl)) vs) @ sep ind lvl) (map denote vs)"
      by (rule elems_join [OF False]) (use BArr in auto)
    from value_arr [OF this] show ?thesis by simp
  qed
next
  case (BTab fs)
  show ?case
  proof (cases "fs = []")
    case True
    then show ?thesis using value_empty [of "sep ind (Suc lvl) @ sep ind lvl"] by simp
  next
    case False
    have "json_members (sep ind (Suc lvl) @ join (44 # sep ind (Suc lvl)) (map (\<lambda>(n, v). key ind False n @ vtext ind (Suc lvl) v) fs) @ sep ind lvl)
      (map (\<lambda>(n, v). (n, denote v)) fs)"
      by (rule members_join [OF False]) (use BTab in fastforce)+
    from value_obj [OF this] show ?thesis by simp
  qed
qed (auto intro: value_null value_true value_false json_int_dec value_str json_chars_quoted simp: quoted_def)

section \<open>What the code writes\<close>

definition holds_text :: "strbuf \<Rightarrow> byte list \<Rightarrow> bool \<Rightarrow> nat \<Rightarrow> bool" where
  "holds_text s t ind lvl \<longleftrightarrow> sb_buf s = Some t \<and> sb_pos s = int (length t) \<and> sb_pos s \<le> sb_len s \<and> sb_indent s = ind \<and> indent_level s = int lvl"

lemma sb_puts_ok:
  assumes "\<forall>k. alloc k" and "holds_text s t ind lvl"
  shows "\<exists>s'. sb_puts alloc c s = Some s' \<and> holds_text s' (t @ c) ind lvl \<and> (c \<noteq> [] \<longrightarrow> 0 < sb_len s')"
  using assms by (cases "c = []") (auto simp: sb_puts_def blobmsg_puts_def holds_text_def Let_def)

lemma separator_ok:
  assumes "\<forall>k. alloc k" and "holds_text s t ind lvl"
  shows "\<exists>s'. add_separator alloc s = Some s' \<and> holds_text s' (t @ sep ind lvl) ind lvl"
proof (cases ind)
  case True
  have "nat (if int lvl > 16 then 16 else int lvl) = min 16 lvl" by auto
  then have "add_separator alloc s = sb_puts alloc (sep ind lvl) s"
    using True assms(2) by (auto simp: add_separator_def holds_text_def sep_def Let_def)
  then show ?thesis using sb_puts_ok [OF assms, of "sep ind lvl"] by auto
qed (use assms in \<open>auto simp: add_separator_def holds_text_def sep_def\<close>)

lemma format_loop_ok:
  assumes "\<forall>k. alloc k"
  shows "holds_text s t ind lvl \<Longrightarrow> \<exists>s'. format_loop alloc pend cs s = Some s' \<and> holds_text s' (t @ pend @ concat (map esc1 cs)) ind lvl"
proof (induction cs arbitrary: pend s t)
  case Nil
  then show ?case using sb_puts_ok [OF assms Nil, of pend] by auto
next
  case (Cons c cs)
  show ?case
  proof (cases "escape_char c = 0")
    case True
    then show ?thesis using Cons.IH [OF Cons.prems, of "pend @ [c]"] by (simp add: esc1_def)
  next
    case False
    obtain s1 where s1: "sb_puts alloc pend s = Some s1" "holds_text s1 (t @ pend) ind lvl" using sb_puts_ok [OF assms Cons.prems] by blast
    have "(if pend \<noteq> [] then sb_puts alloc pend s else Some s) = Some (if pend \<noteq> [] then s1 else s)" "holds_text (if pend \<noteq> [] then s1 else s) (t @ pend) ind lvl"
      using s1 Cons.prems by auto
    then obtain s1' where s1': "(if pend \<noteq> [] then sb_puts alloc pend s else Some s) = Some s1'" "holds_text s1' (t @ pend) ind lvl" by blast
    obtain s2 where s2: "sb_puts alloc (escape_seq c) s1' = Some s2" "holds_text s2 (t @ pend @ escape_seq c) ind lvl"
      using sb_puts_ok [OF assms s1'(2), of "escape_seq c"] by auto
    show ?thesis using Cons.IH [OF s2(2), of "[]"] False s1'(1) s2(1) by (simp add: esc1_def)
  qed
qed

lemma format_string_ok:
  assumes "\<forall>k. alloc k" and "holds_text s t ind lvl"
  shows "\<exists>s'. blobmsg_format_string alloc str s = Some s' \<and> holds_text s' (t @ quoted str) ind lvl"
proof -
  obtain s1 where s1: "sb_puts alloc [34] s = Some s1" "holds_text s1 (t @ [34]) ind lvl" using sb_puts_ok [OF assms] by blast
  obtain s2 where s2: "format_loop alloc [] str s1 = Some s2" "holds_text s2 ((t @ [34]) @ [] @ concat (map esc1 str)) ind lvl"
    using format_loop_ok [OF assms(1) s1(2)] by blast
  obtain s3 where "sb_puts alloc [34] s2 = Some s3" "holds_text s3 (((t @ [34]) @ [] @ concat (map esc1 str)) @ [34]) ind lvl"
    using sb_puts_ok [OF assms(1) s2(2)] by blast
  then show ?thesis using s1(1) s2(1) by (simp add: blobmsg_format_string_def quoted_def)
qed

lemma mem_read_parts:
  assumes "mem_read m d (length x) = Some x"
  obtains A B where "m = A @ x @ B" "length A = d"
proof -
  have d: "d + length x \<le> length m" "take (length x) (drop d m) = x" using assms by (auto simp: mem_read_def split: if_splits)
  have "drop d m = x @ drop (length x) (drop d m)" using d(2) append_take_drop_id [of "length x" "drop d m"] by simp
  then have "m = take d m @ x @ drop (length x) (drop d m)" using append_take_drop_id [of d m] by simp
  moreover have "length (take d m) = d" using d(1) by simp
  ultimately show thesis using that by blast
qed

lemma be64_join: "push_bit 32 (ucast (ucast (drop_bit 32 w) :: u32)) OR ucast (ucast w :: u32) = (w :: u64)"
  by (rule bit_word_eqI) (auto simp: bit_simps)

lemma scalar_text_ok:
  assumes m: "m = A @ vdata v @ B" "length A = d" and "vtype v = 0 \<or> vtype v > 3"
  shows "scalar_text m (nat (vtype v)) d = Some (vtext ind lvl v)"
proof (cases v)
  case (BBool b)
  then show ?thesis using m by (simp add: scalar_text_def rd8_def nth_append)
next
  case (BInt16 w)
  then show ?thesis using m rd_be16_app [of d A w B] by (simp add: scalar_text_def)
next
  case (BInt32 w)
  then show ?thesis using m rd_be32_app [of d A w B] by (simp add: scalar_text_def)
next
  case (BInt64 w)
  let ?h = "be32 (ucast (drop_bit 32 w))"
  have "rd_be32 m d = Some (ucast (drop_bit 32 w))" using m BInt64 rd_be32_app [of d A "ucast (drop_bit 32 w)" "be32 (ucast w) @ B"] by (simp add: be64_def)
  moreover have "rd_be32 m (d + 4) = Some (ucast w)" using m BInt64 rd_be32_app [of "d + 4" "A @ ?h" "ucast w" B] by (simp add: be64_def)
  ultimately show ?thesis using BInt64 be64_join [of w] by (simp add: scalar_text_def)
qed (use assms(3) in \<open>auto simp: scalar_text_def\<close>)

definition enc_kids :: "(cstring \<times> bmsg) list \<Rightarrow> byte list" where
  "enc_kids ks = concat (map (\<lambda>(n, v). enc_field (vtype v) n (vdata v)) ks)"

lemma enc_kids_simps [simp]: "enc_kids [] = []" "enc_kids ((n, v) # ks) = enc_field (vtype v) n (vdata v) @ enc_kids ks"
  by (simp_all add: enc_kids_def)

lemma payload_vdata:
  assumes "bmsg_ok v" and "0 \<notin> set name" and "length name < 2 ^ 16" and "length (enc_field (vtype v) name (vdata v)) < 2 ^ 24"
  shows "payload_ok (vtype v, name, vdata v)"
  using assms by (cases v) auto

text \<open>What is shown of an attribute with the value \<open>v\<close>.\<close>

definition formats :: "(nat \<Rightarrow> bool) \<Rightarrow> bmsg \<Rightarrow> bool" where
  "formats alloc v \<longleftrightarrow> (\<forall>Q name Y array s t ind lvl.
     0 \<notin> set name \<and> length name < 2 ^ 16 \<and> length (enc_field (vtype v) name (vdata v)) < 2 ^ 24 \<and> holds_text s t ind lvl \<longrightarrow>
     (\<exists>s'. blobmsg_format_element alloc None (Q @ enc_field (vtype v) name (vdata v) @ Y) (length Q) array False s = Some s' \<and>
       holds_text s' (t @ key ind array name @ vtext ind lvl v) ind lvl))"

lemma list_loop_ok:
  assumes "\<forall>k. alloc k" and "\<forall>(n, v)\<in>set ks. formats alloc v \<and> 0 \<notin> set n \<and> length n < 2 ^ 16"
    and "length (enc_kids ks) < 2 ^ 24" and "holds_text s t ind lvl"
  shows "\<exists>s'. format_list_loop alloc None (Q @ enc_kids ks @ Y) (length Q) (int (length (enc_kids ks))) array first s = Some s' \<and>
    holds_text s' (t @ (if first \<or> ks = [] then [] else 44 # sep ind lvl) @
      join (44 # sep ind lvl) (map (\<lambda>(n, v). key ind array n @ vtext ind lvl v) ks)) ind lvl"
  using assms(2-)
proof (induction ks arbitrary: Q first s t)
  case Nil
  then show ?case by (subst format_list_loop.simps) simp
next
  case (Cons k ks)
  obtain n v where k: "k = (n, v)" by (cases k)
  let ?e = "enc_field (vtype v) n (vdata v)" let ?m = "Q @ ?e @ enc_kids ks @ Y" let ?c = "44 # sep ind lvl"
  let ?f = "\<lambda>(n, v). key ind array n @ vtext ind lvl v"
  have n: "formats alloc v" "0 \<notin> set n" "length n < 2 ^ 16" "length ?e < 2 ^ 24" using Cons.prems k by auto
  obtain w where w: "rd_be32 ?m (length Q) = Some w" "pad w = length ?e"
    using field_at(1) [OF n(3,4,2) refl, of Q "enc_kids ks @ Y"] by auto
  have pl: "blob_pad_len ?m (length Q) = Some (hdr_pad_len w)" using w by (simp add: blob_pad_len_def)
  have u: "uint (hdr_pad_len w) = int (length ?e)" using w(2) uint_nat by metis
  have ge: "4 \<le> hdr_pad_len w" using w(2) by (simp add: word_le_nat_alt length_enc_field)
  obtain s1 where s1: "(if first then Some s else sb_puts alloc [44] s \<bind> add_separator alloc) = Some s1"
    "holds_text s1 (t @ (if first then [] else ?c)) ind lvl"
  proof (cases first)
    case True
    then show thesis using that Cons.prems(3) by simp
  next
    case False
    obtain s0 where s0: "sb_puts alloc [44] s = Some s0" "holds_text s0 (t @ [44]) ind lvl" using sb_puts_ok [OF assms(1) Cons.prems(3)] by blast
    from separator_ok [OF assms(1) s0(2)] show thesis using that False s0(1) by auto
  qed
  obtain s2 where s2: "blobmsg_format_element alloc None ?m (length Q) array False s1 = Some s2"
    "holds_text s2 ((t @ (if first then [] else ?c)) @ ?f (n, v)) ind lvl"
    using n s1(2) unfolding formats_def by fastforce
  have "\<forall>(n, v)\<in>set ks. formats alloc v \<and> 0 \<notin> set n \<and> length n < 2 ^ 16" "length (enc_kids ks) < 2 ^ 24" using Cons.prems k by auto
  from Cons.IH [OF this s2(2), where Q = "Q @ ?e" and first = False] obtain s3 where
    s3: "format_list_loop alloc None ?m (length Q + length ?e) (int (length (enc_kids ks))) array False s2 = Some s3"
    "holds_text s3 (((t @ (if first then [] else ?c)) @ ?f (n, v)) @ (if ks = [] then [] else ?c) @ join ?c (map ?f ks)) ind lvl" by auto
  have pos: "0 < int (length ?e) + int (length (enc_kids ks))" by (simp add: length_enc_field)
  have "format_list_loop alloc None ?m (length Q) (int (length ?e) + int (length (enc_kids ks))) array first s = Some s3"
    using pl u ge s1(1) s2(1) s3(1) w(2) pos by (subst format_list_loop.simps) simp
  moreover have "join ?c (map ?f (k # ks)) = ?f (n, v) @ (if ks = [] then [] else ?c) @ join ?c (map ?f ks)"
    by (cases ks) (simp_all add: k)
  ultimately show ?case using s3(2) k by simp
qed


lemma list_ok:
  assumes "\<forall>k. alloc k" and "\<forall>(n, v)\<in>set ks. formats alloc v \<and> 0 \<notin> set n \<and> length n < 2 ^ 16"
    and "length (enc_kids ks) < 2 ^ 24" and "holds_text s t ind lvl"
  shows "\<exists>s'. blobmsg_format_json_list alloc None (Q @ enc_kids ks @ Y) (length Q) (int (length (enc_kids ks))) array s = Some s' \<and>
    holds_text s' (t @ (if array then 91 else 123) # sep ind (Suc lvl) @
      join (44 # sep ind (Suc lvl)) (map (\<lambda>(n, v). key ind array n @ vtext ind (Suc lvl) v) ks) @ sep ind lvl @ [if array then 93 else 125]) ind lvl \<and>
    0 < sb_len s'"
proof -
  let ?o = "if array then 91 else 123 :: byte" let ?c = "if array then 93 else 125 :: byte"
  let ?j = "join (44 # sep ind (Suc lvl)) (map (\<lambda>(n, v). key ind array n @ vtext ind (Suc lvl) v) ks)"
  obtain s1 where s1: "sb_puts alloc [?o] s = Some s1" "holds_text s1 (t @ [?o]) ind lvl"
    using sb_puts_ok [OF assms(1,4)] by blast
  have "holds_text (s1\<lparr>indent_level := indent_level s1 + 1\<rparr>) (t @ [?o]) ind (Suc lvl)" using s1(2) by (simp add: holds_text_def)
  from separator_ok [OF assms(1) this] obtain s2 where
    s2: "add_separator alloc (s1\<lparr>indent_level := indent_level s1 + 1\<rparr>) = Some s2" "holds_text s2 ((t @ [?o]) @ sep ind (Suc lvl)) ind (Suc lvl)" by blast
  from list_loop_ok [OF assms(1,2,3) s2(2), of Q Y array True] obtain s3 where
    s3: "format_list_loop alloc None (Q @ enc_kids ks @ Y) (length Q) (int (length (enc_kids ks))) array True s2 = Some s3"
    "holds_text s3 (((t @ [?o]) @ sep ind (Suc lvl)) @ ?j) ind (Suc lvl)" by auto
  have "holds_text (s3\<lparr>indent_level := indent_level s3 - 1\<rparr>) (((t @ [?o]) @ sep ind (Suc lvl)) @ ?j) ind lvl" using s3(2) by (simp add: holds_text_def)
  from separator_ok [OF assms(1) this] obtain s4 where
    s4: "add_separator alloc (s3\<lparr>indent_level := indent_level s3 - 1\<rparr>) = Some s4"
    "holds_text s4 ((((t @ [?o]) @ sep ind (Suc lvl)) @ ?j) @ sep ind lvl) ind lvl" by blast
  from sb_puts_ok [OF assms(1) s4(2), of "[?c]"] obtain s5 where
    s5: "sb_puts alloc [?c] s4 = Some s5" "holds_text s5 (((((t @ [?o]) @ sep ind (Suc lvl)) @ ?j) @ sep ind lvl) @ [?c]) ind lvl" "0 < sb_len s5" by auto
  have o: "(if array then [91] else [123]) = [?o]" "(if array then [93] else [125]) = [?c]" by simp_all
  show ?thesis using s1(1) s2(1) s3(1) s4(1) s5 by (subst blobmsg_format_json_list.simps) (simp add: o)
qed

text \<open>What an attribute writes: its key, then its value.\<close>

definition write_key :: "(nat \<Rightarrow> bool) \<Rightarrow> bool \<Rightarrow> cstring \<Rightarrow> strbuf \<Rightarrow> strbuf option" where
  "write_key alloc array name s =
     (if array then Some s
      else if name = [] then Some s
      else do {
        s \<leftarrow> blobmsg_format_string alloc name s;
        sb_puts alloc (if sb_indent s then [58, 32] else [58]) s
      })"

definition write_value :: "(nat \<Rightarrow> bool) \<Rightarrow> byte list \<Rightarrow> nat \<Rightarrow> bmsg \<Rightarrow> strbuf \<Rightarrow> strbuf option" where
  "write_value alloc m d v s =
     (if vtype v = 3 then cstr_at m d \<bind> (\<lambda>str. blobmsg_format_string alloc str s)
      else if vtype v = 1 then blobmsg_format_json_list alloc None m d (int (length (vdata v))) True s
      else if vtype v = 2 then blobmsg_format_json_list alloc None m d (int (length (vdata v))) False s
      else scalar_text m (nat (vtype v)) d \<bind> (\<lambda>t. sb_puts alloc t s))"

lemma element_writes:
  assumes "bmsg_ok v" and n: "0 \<notin> set name" "length name < 2 ^ 16" "length (enc_field (vtype v) name (vdata v)) < 2 ^ 24"
    and m: "m = Q @ enc_field (vtype v) name (vdata v) @ Y"
  shows "blobmsg_format_element alloc None m (length Q) array False s =
    write_key alloc array name s \<bind> write_value alloc m (length Q + 4 + blobmsg_hdrlen (length name)) v"
proof -
  have ok: "payload_ok (vtype v, name, vdata v)" by (rule payload_vdata [OF assms(1-4)])
  have chk: "blobmsg_check_attr m (length Q) False = Some True" by (rule field_check [OF ok _ m]) simp
  note f = field_at [OF n(2,3,1) m]
  have "0 \<le> vtype v" "vtype v \<le> 7" by (cases v; simp)+
  then have id: "blob_id m (length Q) = Some (nat (vtype v))" using f(1) by (auto simp: blob_id_def)
  have eqs: "nat (vtype v) = 3 \<longleftrightarrow> vtype v = 3" "nat (vtype v) = 1 \<longleftrightarrow> vtype v = 1" "nat (vtype v) = 2 \<longleftrightarrow> vtype v = 2" by auto
  show ?thesis
    by (subst blobmsg_format_element.simps)
      (simp only: chk f(3,4,5) id eqs write_key_def write_value_def [abs_def] Option.bind.bind_lunit Let_def option.case
        if_True if_False not_True_eq_False not_False_eq_True simp_thms)
qed

lemma key_ok:
  assumes "\<forall>k. alloc k" and "holds_text s t ind lvl"
  shows "\<exists>s'. write_key alloc array name s = Some s' \<and> holds_text s' (t @ key ind array name) ind lvl"
proof (cases "array \<or> name = []")
  case True
  then show ?thesis using assms(2) by (auto simp: key_def write_key_def)
next
  case False
  obtain s1 where s1: "blobmsg_format_string alloc name s = Some s1" "holds_text s1 (t @ quoted name) ind lvl"
    using format_string_ok [OF assms] by blast
  have "sb_indent s1 = ind" using s1(2) by (simp add: holds_text_def)
  then show ?thesis using sb_puts_ok [OF assms(1) s1(2), of "if ind then [58, 32] else [58]"] s1(1) False
    by (auto simp: key_def write_key_def)
qed

text \<open>It is enough that the value is written.\<close>

lemma formatsI:
  assumes "\<forall>k. alloc k" and "bmsg_ok v"
    and val: "\<And>A B s t ind lvl. length (vdata v) < 2 ^ 24 \<Longrightarrow> holds_text s t ind lvl \<Longrightarrow>
      \<exists>s'. write_value alloc (A @ vdata v @ B) (length A) v s = Some s' \<and> holds_text s' (t @ vtext ind lvl v) ind lvl"
  shows "formats alloc v"
  unfolding formats_def
proof (intro allI impI, elim conjE)
  fix Q name Y array s t ind lvl
  let ?e = "enc_field (vtype v) name (vdata v)" let ?m = "Q @ ?e @ Y"
  assume n: "0 \<notin> set name" "length name < 2 ^ 16" "length ?e < 2 ^ 24" and s: "holds_text s t ind lvl"
  obtain s1 where s1: "write_key alloc array name s = Some s1" "holds_text s1 (t @ key ind array name) ind lvl"
    using key_ok [OF assms(1) s] by blast
  have len: "length (vdata v) < 2 ^ 24" using n(3) pad4_bounds(1) [of "blobmsg_hdrlen (length name) + length (vdata v)"] by (simp add: length_enc_field)
  obtain A B where "?m = A @ vdata v @ B" "length A = length Q + 4 + blobmsg_hdrlen (length name)"
    by (rule mem_read_parts [OF field_at(6) [OF n(2,3,1) refl]])
  then show "\<exists>s'. blobmsg_format_element alloc None ?m (length Q) array False s = Some s' \<and>
       holds_text s' (t @ key ind array name @ vtext ind lvl v) ind lvl"
    using val [OF len s1(2), of A B] element_writes [OF assms(2) n refl, of alloc Q Y array s] s1(1) by auto
qed

text \<open>The entries of an array and of a table, as a list of named values.\<close>

lemma kids_arr: "vdata (BArr vs) = enc_kids (map (Pair []) vs)"
  by (induction vs) simp_all

lemma kids_tab: "vdata (BTab fs) = enc_kids fs"
  by (simp add: enc_kids_def)

lemma scalar_formats:
  assumes "\<forall>k. alloc k" and "bmsg_ok v" and "vtype v = 0 \<or> vtype v > 3"
  shows "formats alloc v"
proof (rule formatsI [OF assms(1,2)])
  fix A B s t ind lvl
  assume s: "holds_text s t ind lvl"
  have "write_value alloc (A @ vdata v @ B) (length A) v s = sb_puts alloc (vtext ind lvl v) s"
    using scalar_text_ok [OF refl refl assms(3), of A B ind lvl] assms(3) by (auto simp: write_value_def)
  then show "\<exists>s'. write_value alloc (A @ vdata v @ B) (length A) v s = Some s' \<and> holds_text s' (t @ vtext ind lvl v) ind lvl"
    using sb_puts_ok [OF assms(1) s, of "vtext ind lvl v"] by auto
qed

lemma formats_ok:
  assumes "\<forall>k. alloc k"
  shows "bmsg_ok v \<Longrightarrow> formats alloc v"
proof (induction v)
  case (BStr str)
  show ?case
    by (rule formatsI [OF assms BStr])
      (use format_string_ok [OF assms, of _ _ _ _ str] cstr_at_app [OF refl, of str] BStr in \<open>auto simp: write_value_def\<close>)
next
  case (BArr vs)
  let ?ks = "map (Pair []) vs"
  have kids: "\<forall>(n, v)\<in>set ?ks. formats alloc v \<and> 0 \<notin> set n \<and> length n < 2 ^ 16" using BArr by auto
  have txts: "map (\<lambda>(n, v). key ind True n @ vtext ind (Suc lvl) v) ?ks = map (vtext ind (Suc lvl)) vs" for ind lvl by (simp add: key_def)
  show ?case
    by (rule formatsI [OF assms BArr.prems])
      (use list_ok [OF assms kids, where array = True, unfolded txts] in \<open>fastforce simp: write_value_def kids_arr simp del: vdata.simps\<close>)
next
  case (BTab fs)
  have kids: "\<forall>(n, v)\<in>set fs. formats alloc v \<and> 0 \<notin> set n \<and> length n < 2 ^ 16" using BTab by fastforce
  show ?case
    by (rule formatsI [OF assms BTab.prems])
      (use list_ok [OF assms kids, where array = False] in \<open>fastforce simp: write_value_def kids_tab simp del: vdata.simps\<close>)
qed (use scalar_formats [OF assms] in simp_all)

text \<open>The fields that stand for the entries of a table.\<close>

definition fields_of :: "(cstring \<times> bmsg) list \<Rightarrow> field list" where
  "fields_of fs = map (\<lambda>(n, v). (vtype v, n, vdata v)) fs"

lemma enc_fields_of: "enc_fields (fields_of fs) = enc_kids fs"
  by (induction fs) (auto simp: fields_of_def)

lemma length_kid: "(n, v) \<in> set fs \<Longrightarrow> length (enc_field (vtype v) n (vdata v)) \<le> length (enc_kids fs)"
  by (induction fs) auto

lemma fields_of_ok:
  assumes "bmsg_ok (BTab fs)" and "length (enc_kids fs) < 2 ^ 24"
  shows "\<forall>f\<in>set (fields_of fs). field_ok f"
  using assms payload_vdata length_kid by (fastforce simp: fields_of_def)

lemma hdr_extended_new: "\<not> hdr_extended (new_hdr i n)"
proof -
  define e where "e = (0x80000000 :: u32)"
  have e: "bit e k \<longleftrightarrow> k = 31" for k unfolding e_def by (rule bit_ext)
  have "new_hdr i n AND e = 0" unfolding new_hdr_def mk_hdr_def masks by (rule bit_word_eqI) (auto simp: bit_simps e)
  then show ?thesis by (simp add: hdr_extended_def e_def)
qed

section \<open>Properties\<close>

text \<open>
  C20: What is added to a message comes out of it as JSON. A message is built with \<open>blobmsg_buf_init\<close> and one \<open>blobmsg_add_field\<close> for every
  entry of a table, whose values may be tables and arrays of any depth. When memory is available, \<open>blobmsg_format_json_with_cb\<close> with \<open>list\<close> and
  no format of one's own returns a text on every such message, indented or not, from any level; the text is exactly the one of \<open>vtext\<close>, and the
  grammar of JSON derives from it the table that was added: the same names in the same order, every string with its quotes, backslashes
  and control characters, every number with its sign (an \<open>INT16\<close> as unsigned).
\<close>

theorem blobmsg_build_format_json:
  assumes "\<forall>k. alloc k" and "bmsg_ok (BTab fs)" and "length (enc_fields (fields_of fs)) + 4 < 2 ^ 24"
  shows "\<exists>b b'. blobmsg_buf_init alloc \<lparr>buf = [], head = None\<rparr> = Some (0, b) \<and>
    add_fields alloc (fields_of fs) b = Some b' \<and> head b' = Some 0 \<and>
    blobmsg_format_json_with_cb alloc None (buf b') 0 True indent = Some (Some (vtext (0 \<le> indent) (nat indent) (BTab fs))) \<and>
    json_value (vtext (0 \<le> indent) (nat indent) (BTab fs)) (denote (BTab fs))"
proof -
  let ?n = "length (enc_kids fs)" let ?w = "new_hdr 2 ?n"
  note e = enc_fields_of [of fs]
  have n: "?n + 4 < 2 ^ 24" "?n < 2 ^ 24" using assms(3) e by simp_all
  obtain b b' R where b: "blobmsg_buf_init alloc \<lparr>buf = [], head = None\<rparr> = Some (0, b)" "add_fields alloc (fields_of fs) b = Some b'"
    "head b' = Some 0" and buf: "buf b' = be32 ?w @ enc_kids fs @ R" and len: "blob_len (buf b') 0 = Some (word_of_nat ?n)"
    by (rule build_fields [OF assms(1) fields_of_ok [OF assms(2) n(2)] assms(3), unfolded e])
  have r: "rd_be32 (buf b') 0 = Some ?w" using rd_be32_app [of 0 "[]" ?w "enc_kids fs @ R"] by (simp add: buf)
  have u: "uint (word_of_nat ?n :: u32) = int ?n" using n uint_nat [of "word_of_nat ?n :: u32"] by simp
  have x: "blob_is_extended (buf b') 0 = Some False" "blobmsg_type (buf b') 0 = Some 2"
    using r by (simp_all add: blob_is_extended_def hdr_extended_new blobmsg_type_def blob_id_def)
  have d: "blobmsg_data (buf b') 0 = Some 4" by (simp add: blobmsg_data_def x(1) blob_data_def)
  have dl: "blobmsg_data_len (buf b') 0 = Some (int ?n)" using len d u n by (simp add: blobmsg_data_len_def blob_data_def)
  let ?s = "\<lparr>sb_len = int ?n, sb_pos = 0, sb_buf = Some [], sb_indent = (indent \<ge> 0), indent_level = (if indent \<ge> 0 then indent else 0), sb_tick = 1\<rparr>"
  have s: "holds_text ?s [] (0 \<le> indent) (nat indent)" by (simp add: holds_text_def)
  have kids: "\<forall>(n, v)\<in>set fs. formats alloc v \<and> 0 \<notin> set n \<and> length n < 2 ^ 16"
    using assms(2) formats_ok [OF assms(1)] by auto
  from list_ok [OF assms(1) kids n(2) s, of "be32 ?w" R False] obtain s' where
    s': "blobmsg_format_json_list alloc None (buf b') 4 (int ?n) False ?s = Some s'"
    "holds_text s' (vtext (0 \<le> indent) (nat indent) (BTab fs)) (0 \<le> indent) (nat indent)" "0 < sb_len s'"
    by (auto simp: buf)
  have "blobmsg_format_json_with_cb alloc None (buf b') 0 True indent = Some (Some (vtext (0 \<le> indent) (nat indent) (BTab fs)))"
    using s' len x d dl u n assms(1) by (simp add: blobmsg_format_json_with_cb_def holds_text_def Let_def)
  then show ?thesis using b json_vtext [OF assms(2)] by blast
qed

theorem blobmsg_build_format_json_witness:
  "\<exists>b b'. blobmsg_buf_init (\<lambda>_. True) \<lparr>buf = [], head = None\<rparr> = Some (0, b) \<and>
    add_fields (\<lambda>_. True) [(1, cstr ''a'', enc_field 5 [] (be32 (- 5)) @ enc_field 7 [] [1]), (3, cstr ''b'', [120, 10, 0])] b = Some b' \<and>
    blobmsg_format_json_with_cb (\<lambda>_. True) None (buf b') 0 True (- 1) = Some (Some (cstr ''{\"a\":[-5,true],\"b\":\"x'' @ 92 # cstr ''n\"}'')) \<and>
    json_value (cstr ''{\"a\":[-5,true],\"b\":\"x'' @ 92 # cstr ''n\"}'') (JObj [(cstr ''a'', JArr [JInt (- 5), JBool True]), (cstr ''b'', JStr [120, 10])])"
proof -
  let ?fs = "[(cstr ''a'', BArr [BInt32 (- 5), BBool 1]), (cstr ''b'', BStr [120, 10])]"
  let ?l = "[(1, cstr ''a'', enc_field 5 [] (be32 (- 5)) @ enc_field 7 [] [1]), (3, cstr ''b'', [120, 10, 0])] :: field list"
  let ?t = "cstr ''{\"a\":[-5,true],\"b\":\"x'' @ 92 # cstr ''n\"}''"
  have t: "vtext (0 \<le> (- 1 :: int)) (nat (- 1)) (BTab ?fs) = ?t"
    by (simp add: cstr_def sep_def key_def quoted_def esc1_def escape_char_def escape_seq_def dec_int_def dec_nat.simps)
  have f: "fields_of ?fs = ?l" by (simp add: fields_of_def)
  have d: "denote (BTab ?fs) = JObj [(cstr ''a'', JArr [JInt (- 5), JBool True]), (cstr ''b'', JStr [120, 10])]" by simp
  have "bmsg_ok (BTab ?fs)" "length (enc_fields ?l) + 4 < 2 ^ 24"
    by (simp_all add: length_enc_field blobmsg_hdrlen_def pad4_def cstr_def)
  then show ?thesis using blobmsg_build_format_json [of "\<lambda>_. True" ?fs "- 1", unfolded f t d] by simp blast
qed

end
