(* ===== verification/Base64.thy ===== *)
theory Base64
  imports Prelude
begin

text \<open>
  The Base64 codec of \<open>src/libubox/base64.c\<close>.

  The target of both functions is the block of \<open>targsize\<close> bytes; every access to it is checked, so a
  result \<open>Some\<close> says that no byte outside it was touched. \<open>b64_decode\<close> takes the bytes of its source
  string before the terminating zero, which the end of the list stands for, and accepts \<open>NULL\<close> as its
  target. The \<open>size_t\<close> that \<open>b64_encode\<close> counts in is converted to \<open>int\<close> when it is returned; \<open>b64_decode\<close> counts in an \<open>int\<close>, and
  counting beyond its range, which C leaves undefined, is \<open>None\<close>. The main lemma is the round trip: decoding what \<open>b64_encode\<close> wrote gives
  the source back, for every sufficient target and every source whose text is shorter than 2 GiB.
\<close>

definition Base64 :: "byte list" where
  "Base64 = map word_of_nat ([65..<91] @ [97..<123] @ [48..<58] @ [43, 47])"

definition Pad64 :: byte where
  "Pad64 = 61"

definition isspace :: "byte \<Rightarrow> bool" where
  "isspace c \<longleftrightarrow> c = 32 \<or> (9 \<le> c \<and> c \<le> 13)"

text \<open>The four output values of a group of three input bytes.\<close>

definition output0 :: "byte \<Rightarrow> byte" where
  "output0 a = drop_bit 2 a"

definition output1 :: "byte \<Rightarrow> byte \<Rightarrow> byte" where
  "output1 a b = push_bit 4 (a AND 0x03) + drop_bit 4 b"

definition output2 :: "byte \<Rightarrow> byte \<Rightarrow> byte" where
  "output2 b c = push_bit 2 (b AND 0x0f) + drop_bit 6 c"

definition output3 :: "byte \<Rightarrow> byte" where
  "output3 c = c AND 0x3f"

abbreviation digit :: "byte \<Rightarrow> byte" where
  "digit v \<equiv> Base64 ! unat v"

definition b64_finish :: "nat \<Rightarrow> byte list \<Rightarrow> (int \<times> byte list) option" where
  "b64_finish datalength target =
     (if datalength \<ge> length target then Some (-1, target)
      else do {
        target \<leftarrow> mem_write target datalength [0];
        Some (to_int32 (int datalength), target)
      })"

fun b64_encode_loop :: "byte list \<Rightarrow> nat \<Rightarrow> byte list \<Rightarrow> (int \<times> byte list) option" where
  "b64_encode_loop (a # b # c # src) datalength target =
     (if datalength + 4 > length target then Some (-1, target)
      else do {
        target \<leftarrow> mem_write target datalength
          [digit (output0 a), digit (output1 a b), digit (output2 b c), digit (output3 c)];
        b64_encode_loop src (datalength + 4) target
      })"
| "b64_encode_loop [] datalength target = b64_finish datalength target"
| "b64_encode_loop [a] datalength target =
     (if datalength + 4 > length target then Some (-1, target)
      else do {
        target \<leftarrow> mem_write target datalength [digit (output0 a), digit (output1 a 0), Pad64, Pad64];
        b64_finish (datalength + 4) target
      })"
| "b64_encode_loop [a, b] datalength target =
     (if datalength + 4 > length target then Some (-1, target)
      else do {
        target \<leftarrow> mem_write target datalength
          [digit (output0 a), digit (output1 a b), digit (output2 b 0), Pad64];
        b64_finish (datalength + 4) target
      })"

definition b64_encode :: "byte list \<Rightarrow> byte list \<Rightarrow> (int \<times> byte list) option" where
  "b64_encode src target = b64_encode_loop src 0 target"

fun strchr_index :: "byte list \<Rightarrow> byte \<Rightarrow> nat option" where
  "strchr_index [] ch = None"
| "strchr_index (x # xs) ch = (if x = ch then Some 0 else map_option Suc (strchr_index xs ch))"

text \<open>
  One character with value \<open>v\<close> in state \<open>st\<close>: \<open>None\<close> is an access outside the target, \<open>Inl\<close> the return
  of -1. The \<open>NULL\<close> target is not written.
\<close>

definition b64_store ::
    "nat \<Rightarrow> byte \<Rightarrow> nat \<Rightarrow> nat \<Rightarrow> byte list option \<Rightarrow> (byte list option + byte list option) option" where
  "b64_store st v tarindex targsize target =
     (case target of
       None \<Rightarrow> Some (Inr None)
     | Some t \<Rightarrow>
         if tarindex \<ge> targsize then Some (Inl target)
         else if st = 0 then map_option (Inr \<circ> Some) (mem_write t tarindex [push_bit 2 v])
         else if st = 3 then do {
           x \<leftarrow> rd8 t tarindex;
           map_option (Inr \<circ> Some) (mem_write t tarindex [x OR v])
         }
         else if tarindex + 1 \<ge> 2 ^ 31 then None
         else do {
           x \<leftarrow> rd8 t tarindex;
           t \<leftarrow> mem_write t tarindex [x OR (if st = 1 then drop_bit 4 v else drop_bit 2 v)];
           (let nextbyte = (if st = 1 then push_bit 4 (v AND 0x0f) else push_bit 6 (v AND 0x03)) in
            if tarindex + 1 < targsize then map_option (Inr \<circ> Some) (mem_write t (tarindex + 1) [nextbyte])
            else if nextbyte \<noteq> 0 then Some (Inl (Some t))
            else Some (Inr (Some t)))
         })"

text \<open>
  The character loop. \<open>Inl\<close> is the return of -1; \<open>Inr\<close> the state at its end, with the characters after
  the pad when it ended at one.
\<close>

fun b64_decode_loop ::
    "cstring \<Rightarrow> nat \<Rightarrow> nat \<Rightarrow> nat \<Rightarrow> byte list option \<Rightarrow>
     (byte list option + (cstring option \<times> nat \<times> nat \<times> byte list option)) option" where
  "b64_decode_loop [] st tarindex targsize target = Some (Inr (None, st, tarindex, target))"
| "b64_decode_loop (ch # src) st tarindex targsize target =
     (if isspace ch then b64_decode_loop src st tarindex targsize target
      else if ch = Pad64 then Some (Inr (Some src, st, tarindex, target))
      else case strchr_index Base64 ch of
        None \<Rightarrow> Some (Inl target)
      | Some pos \<Rightarrow> do {
          r \<leftarrow> b64_store st (word_of_nat pos) tarindex targsize target;
          case r of
            Inl t \<Rightarrow> Some (Inl t)
          | Inr t \<Rightarrow>
              if st = 0 then b64_decode_loop src 1 tarindex targsize t
              else if tarindex + 1 \<ge> 2 ^ 31 then None
              else b64_decode_loop src ((st + 1) mod 4) (tarindex + 1) targsize t
        })"

text \<open>The characters after the first pad: whether they are acceptable in state \<open>st\<close>.\<close>

definition b64_tail_ok :: "nat \<Rightarrow> cstring \<Rightarrow> bool" where
  "b64_tail_ok st rest =
     (if st = 0 \<or> st = 1 then False
      else if st = 2 then
        (case dropWhile isspace rest of
          [] \<Rightarrow> False
        | c # cs \<Rightarrow> c = Pad64 \<and> list_all isspace cs)
      else list_all isspace rest)"

definition b64_decode :: "cstring \<Rightarrow> byte list option \<Rightarrow> nat \<Rightarrow> (int \<times> byte list option) option" where
  "b64_decode src target targsize = do {
     r \<leftarrow> b64_decode_loop src 0 0 targsize target;
     case r of
       Inl t \<Rightarrow> Some (-1, t)
     | Inr (pad, st, tarindex, t) \<Rightarrow> do {
         bad \<leftarrow> (case pad of
            Some rest \<Rightarrow>
              if \<not> b64_tail_ok st rest then Some True
              else (case t of
                  Some u \<Rightarrow> if tarindex < targsize then map_option (\<lambda>x. x \<noteq> 0) (rd8 u tarindex) else Some False
                | None \<Rightarrow> Some False)
          | None \<Rightarrow> Some (st \<noteq> 0));
         if bad then Some (-1, t)
         else if tarindex < targsize then do {
           u \<leftarrow> t;
           u \<leftarrow> mem_write u tarindex [0];
           Some (int tarindex, Some u)
         }
         else Some (int tarindex, t)
       }
   }"

section \<open>The alphabet\<close>

lemma Base64_list:
  "Base64 = [65, 66, 67, 68, 69, 70, 71, 72, 73, 74, 75, 76, 77, 78, 79, 80, 81, 82, 83, 84, 85, 86, 87, 88, 89, 90,
     97, 98, 99, 100, 101, 102, 103, 104, 105, 106, 107, 108, 109, 110, 111, 112, 113, 114, 115, 116, 117, 118, 119,
     120, 121, 122, 48, 49, 50, 51, 52, 53, 54, 55, 56, 57, 43, 47]"
  by (simp add: Base64_def upt_rec)

lemma length_Base64: "length Base64 = 64"
  by (simp add: Base64_list)

lemma distinct_Base64: "distinct Base64"
  by (simp add: Base64_list)

lemma Base64_chars: "\<forall>c\<in>set Base64. \<not> isspace c \<and> c \<noteq> Pad64 \<and> c \<noteq> 0"
  by (simp add: Base64_list isspace_def Pad64_def)

lemma strchr_index_nth: "distinct xs \<Longrightarrow> i < length xs \<Longrightarrow> strchr_index xs (xs ! i) = Some i"
  by (induction xs arbitrary: i) (auto simp: nth_Cons split: nat.splits)

lemma digit_facts:
  assumes "v < 64"
  shows "\<not> isspace (digit v)" "digit v \<noteq> Pad64" "digit v \<noteq> 0" "strchr_index Base64 (digit v) = Some (unat v)"
proof -
  have v: "unat v < length Base64" using assms by (simp add: length_Base64 word_less_nat_alt)
  then show "\<not> isspace (digit v)" "digit v \<noteq> Pad64" "digit v \<noteq> 0" using Base64_chars nth_mem by blast+
  show "strchr_index Base64 (digit v) = Some (unat v)" using v distinct_Base64 strchr_index_nth by blast
qed


section \<open>Groups\<close>

lemma byte_eqI:
  assumes "bit a 0 = bit b 0" "bit a 1 = bit b 1" "bit a 2 = bit b 2" "bit a 3 = bit b 3"
    "bit a 4 = bit b 4" "bit a 5 = bit b 5" "bit a 6 = bit b 6" "bit a 7 = bit b 7"
  shows "a = (b :: byte)"
proof (rule bit_word_eqI)
  fix n
  assume "n < LENGTH(8)"
  then have "n = 0 \<or> n = 1 \<or> n = 2 \<or> n = 3 \<or> n = 4 \<or> n = 5 \<or> n = 6 \<or> n = 7" by (simp add: numeral_eq_Suc) linarith
  with assms show "bit a n = bit b n" by auto
qed

lemma bit_byte_high: "8 \<le> n \<Longrightarrow> \<not> bit (a :: byte) n"
  using bit_imp_le_length [of a n] by auto

lemma byte_masks: "(0x03 :: byte) = mask 2" "(0x0f :: byte) = mask 4" "(0x3f :: byte) = mask 6"
  by (simp_all add: mask_eq_exp_minus_1)

lemma output1_or: "output1 a b = push_bit 4 (a AND 0x03) OR drop_bit 4 b"
proof -
  have "push_bit 4 (a AND 0x03) AND drop_bit 4 b = 0"
    unfolding byte_masks by (rule byte_eqI) (auto simp: bit_simps bit_byte_high)
  then show ?thesis unfolding output1_def by (rule disjunctive_add_eq_or)
qed

lemma output2_or: "output2 b c = push_bit 2 (b AND 0x0f) OR drop_bit 6 c"
proof -
  have "push_bit 2 (b AND 0x0f) AND drop_bit 6 c = 0"
    unfolding byte_masks by (rule byte_eqI) (auto simp: bit_simps bit_byte_high)
  then show ?thesis unfolding output2_def by (rule disjunctive_add_eq_or)
qed

lemmas outputs = output0_def output1_or output2_or output3_def

lemma less_64: "take_bit 6 v = v \<Longrightarrow> v < (64 :: byte)"
proof -
  assume "take_bit 6 v = v"
  then have "unat v = unat v mod 2 ^ 6" using unat_take_bit [of 6 v] by simp
  moreover have "unat v mod 2 ^ 6 < 2 ^ 6" by simp
  ultimately have "unat v < 64" by simp
  then show ?thesis by (simp add: word_less_nat_alt)
qed

lemma outputs_less: "output0 a < 64" "output1 a b < 64" "output2 b c < 64" "output3 c < 64"
  by (rule less_64, unfold outputs byte_masks, rule byte_eqI; auto simp: bit_simps bit_byte_high)+

lemma recombine:
  "push_bit 2 (output0 a) OR drop_bit 4 (output1 a b) = a"
  "push_bit 4 (output1 a b AND 0x0f) OR drop_bit 2 (output2 b c) = b"
  "push_bit 6 (output2 b c AND 0x03) OR output3 c = c"
  "push_bit 4 (output1 a 0 AND 0x0f) = 0"
  "push_bit 6 (output2 b 0 AND 0x03) = 0"
  unfolding outputs byte_masks by (rule byte_eqI; auto simp: bit_simps bit_byte_high)+


section \<open>Round trip\<close>

text \<open>The text of a list of bytes.\<close>

fun b64 :: "byte list \<Rightarrow> byte list" where
  "b64 (a # b # c # src) =
     [digit (output0 a), digit (output1 a b), digit (output2 b c), digit (output3 c)] @ b64 src"
| "b64 [] = []"
| "b64 [a] = [digit (output0 a), digit (output1 a 0), Pad64, Pad64]"
| "b64 [a, b] = [digit (output0 a), digit (output1 a b), digit (output2 b 0), Pad64]"

lemma length_b64: "length (b64 src) = (length src + 2) div 3 * 4"
proof (induction src rule: b64.induct)
  case (1 a b c src)
  have "(length src + 3 + 2) div 3 = (length src + 2) div 3 + 1" by presburger
  with 1 show ?case by (simp add: add.commute)
qed auto

lemma mem_write_joint: "i = length T \<Longrightarrow> mem_write (T @ x # R) i [y] = Some (T @ y # R)"
  by (simp add: mem_write_def)

lemma b64_finish_ok: "i = length T \<Longrightarrow> i < 2 ^ 31 \<Longrightarrow> b64_finish i (T @ x # R) = Some (int i, T @ 0 # R)"
  by (simp add: b64_finish_def mem_write_joint)

lemma b64_encode_loop_ok:
  "length (b64 src) < length R \<Longrightarrow> length T + length (b64 src) < 2 ^ 31 \<Longrightarrow>
   b64_encode_loop src (length T) (T @ R) =
     Some (int (length T + length (b64 src)), T @ b64 src @ 0 # drop (length (b64 src) + 1) R)"
proof (induction src arbitrary: T R rule: b64.induct)
  case (1 a b c src)
  let ?g = "[digit (output0 a), digit (output1 a b), digit (output2 b c), digit (output3 c)]"
  obtain G R' where R: "R = G @ R'" "length G = 4" by (rule split_at [of 4 R]) (use "1.prems" in auto)
  have "mem_write (T @ R) (length T) ?g = Some ((T @ ?g) @ R')" using R by (simp add: mem_write_def)
  moreover have "drop (Suc (Suc (Suc (Suc k)))) R = drop k R'" "length R = 4 + length R'" for k using R by (simp_all add: numeral_eq_Suc)
  moreover have l: "length (T @ ?g) = length T + 4" by simp
  moreover have "length (b64 src) < length R'" "length (T @ ?g) + length (b64 src) < 2 ^ 31" using "1.prems" R by simp_all
  note IH = "1.IH" [OF this, unfolded l]
  ultimately show ?case using "1.prems" IH by simp
next
  case 2
  then show ?case by (cases R) (simp_all add: b64_finish_ok)
next
  case (3 a)
  obtain G R' where R: "R = G @ R'" "length G = 4" by (rule split_at [of 4 R]) (use 3 in auto)
  let ?g = "[digit (output0 a), digit (output1 a 0), Pad64, Pad64]"
  have "mem_write (T @ R) (length T) ?g = Some ((T @ ?g) @ R')" using R by (simp add: mem_write_def)
  with 3 R show ?case using b64_finish_ok [of "length T + 4" "T @ ?g"] by (cases R') (auto simp: add.assoc)
next
  case (4 a b)
  obtain G R' where R: "R = G @ R'" "length G = 4" by (rule split_at [of 4 R]) (use 4 in auto)
  let ?g = "[digit (output0 a), digit (output1 a b), digit (output2 b 0), Pad64]"
  have "mem_write (T @ R) (length T) ?g = Some ((T @ ?g) @ R')" using R by (simp add: mem_write_def)
  with 4 R show ?case using b64_finish_ok [of "length T + 4" "T @ ?g"] by (cases R') (auto simp: add.assoc)
qed

lemma rd8_joint: "i = length T \<Longrightarrow> rd8 (T @ x # R) i = Some x"
  by (simp add: rd8_def)

lemma mem_write_joint2: "i = length T + 1 \<Longrightarrow> mem_write (T @ x # y # R) i [z] = Some (T @ x # z # R)"
  using mem_write_joint [of i "T @ [x]" y R z] by simp

lemma b64_store_ok:
  assumes "i = length T"
  shows "i < n \<Longrightarrow> b64_store 0 v i n (Some (T @ x # R)) = Some (Inr (Some (T @ push_bit 2 v # R)))"
    and "i < n \<Longrightarrow> x OR v = x' \<Longrightarrow> b64_store 3 v i n (Some (T @ x # R)) = Some (Inr (Some (T @ x' # R)))"
    and "i + 1 < n \<Longrightarrow> i + 1 < 2 ^ 31 \<Longrightarrow> x OR drop_bit 4 v = x' \<Longrightarrow>
      b64_store 1 v i n (Some (T @ x # y # R)) = Some (Inr (Some (T @ x' # push_bit 4 (v AND 0x0f) # R)))"
    and "i + 1 < n \<Longrightarrow> i + 1 < 2 ^ 31 \<Longrightarrow> x OR drop_bit 2 v = x' \<Longrightarrow>
      b64_store 2 v i n (Some (T @ x # y # R)) = Some (Inr (Some (T @ x' # push_bit 6 (v AND 0x03) # R)))"
    and "n = i + 1 \<Longrightarrow> i + 1 < 2 ^ 31 \<Longrightarrow> x OR drop_bit 4 v = x' \<Longrightarrow> push_bit 4 (v AND 0x0f) = 0 \<Longrightarrow>
      b64_store 1 v i n (Some (T @ [x])) = Some (Inr (Some (T @ [x'])))"
    and "n = i + 1 \<Longrightarrow> i + 1 < 2 ^ 31 \<Longrightarrow> x OR drop_bit 2 v = x' \<Longrightarrow> push_bit 6 (v AND 0x03) = 0 \<Longrightarrow>
      b64_store 2 v i n (Some (T @ [x])) = Some (Inr (Some (T @ [x'])))"
  using assms by (simp_all add: b64_store_def rd8_joint mem_write_joint mem_write_joint2 Let_def)

lemma decode_digit:
  assumes "v < 64" and "b64_store st v i n t = Some (Inr t')" and "st = 0 \<or> i + 1 < 2 ^ 31"
  shows "b64_decode_loop (digit v # src) st i n t =
    b64_decode_loop src ((st + 1) mod 4) (if st = 0 then i else i + 1) n t'"
  using digit_facts [OF assms(1)] assms(2,3) by auto

lemma decode_digits:
  assumes "v < 64"
  shows "b64_store 0 v i n t = Some (Inr t') \<Longrightarrow>
      b64_decode_loop (digit v # src) 0 i n t = b64_decode_loop src 1 i n t'"
    and "b64_store 1 v i n t = Some (Inr t') \<Longrightarrow> i + 1 < 2 ^ 31 \<Longrightarrow>
      b64_decode_loop (digit v # src) 1 i n t = b64_decode_loop src 2 (i + 1) n t'"
    and "b64_store 2 v i n t = Some (Inr t') \<Longrightarrow> i + 1 < 2 ^ 31 \<Longrightarrow>
      b64_decode_loop (digit v # src) 2 i n t = b64_decode_loop src 3 (i + 1) n t'"
    and "b64_store 3 v i n t = Some (Inr t') \<Longrightarrow> i + 1 < 2 ^ 31 \<Longrightarrow>
      b64_decode_loop (digit v # src) 3 i n t = b64_decode_loop src 0 (i + 1) n t'"
  using decode_digit [OF assms, of 0 i n t t' src] decode_digit [OF assms, of 1 i n t t' src]
    decode_digit [OF assms, of 2 i n t t' src] decode_digit [OF assms, of 3 i n t t' src]
  by (simp_all del: b64_decode_loop.simps One_nat_def)

lemma decode_group:
  assumes "n = length T + 3 + k" and "length T + 3 < 2 ^ 31"
  shows "b64_decode_loop (digit (output0 a) # digit (output1 a b) # digit (output2 b c) # digit (output3 c) # src)
      0 (length T) n (Some (T @ x # y # z # R)) =
    b64_decode_loop src 0 (length T + 3) n (Some (T @ a # b # c # R))"
proof -
  let ?x = "push_bit 2 (output0 a)" and ?y = "push_bit 4 (output1 a b AND 0x0f)"
  let ?z = "push_bit 6 (output2 b c AND 0x03)"
  have 1: "b64_store 0 (output0 a) (length T) n (Some (T @ x # y # z # R)) = Some (Inr (Some (T @ ?x # y # z # R)))"
    by (rule b64_store_ok(1) [OF refl]) (use assms in simp)
  have 2: "b64_store 1 (output1 a b) (length T) n (Some (T @ ?x # y # z # R)) =
      Some (Inr (Some (T @ a # ?y # z # R)))"
    by (rule b64_store_ok(3) [OF refl _ _ recombine(1)]) (use assms in simp_all)
  have 3: "b64_store 2 (output2 b c) (length T + 1) n (Some ((T @ [a]) @ ?y # z # R)) =
      Some (Inr (Some ((T @ [a]) @ b # ?z # R)))"
    by (rule b64_store_ok(4) [OF _ _ _ recombine(2)]) (use assms in simp_all)
  have 4: "b64_store 3 (output3 c) (length T + 2) n (Some ((T @ [a, b]) @ ?z # R)) =
      Some (Inr (Some ((T @ [a, b]) @ c # R)))"
    by (rule b64_store_ok(2) [OF _ _ recombine(3)]) (use assms in simp_all)
  have i: "length T + 1 < 2 ^ 31" "length T + 1 + 1 < 2 ^ 31" "length T + 2 + 1 < 2 ^ 31" using assms(2) by simp_all
  note d1 = decode_digits(1) [OF outputs_less(1) 1] and d2 = decode_digits(2) [OF outputs_less(2) 2 i(1)]
    and d3 = decode_digits(3) [OF outputs_less(3) 3 i(2)] and d4 = decode_digits(4) [OF outputs_less(4) 4 i(3)]
  have "length T + 1 + 1 = length T + 2" "length T + 2 + 1 = length T + 3" by simp_all
  then show ?thesis using d1 d2 d3 d4 by (simp only: append_assoc append.simps)
qed


text \<open>
  Decoding the text of \<open>src\<close> into a target that has room for it: the bytes are there, and what is left
  to check after the loop is in order.
\<close>

definition decoded :: "byte list \<Rightarrow> byte list \<Rightarrow> nat \<Rightarrow>
    (byte list option + (cstring option \<times> nat \<times> nat \<times> byte list option)) option \<Rightarrow> bool" where
  "decoded T src k res \<longleftrightarrow>
     (\<exists>pad st R. res = Some (Inr (pad, st, length T + length src, Some (T @ src @ R))) \<and> length R = k \<and>
        (case pad of None \<Rightarrow> st = 0 | Some rest \<Rightarrow> b64_tail_ok st rest \<and> (R = [] \<or> hd R = 0)))"

lemma decodedI:
  "res = Some (Inr (Some rest, st, length T + length src, Some (T @ src @ R))) \<Longrightarrow> length R = k \<Longrightarrow>
     b64_tail_ok st rest \<Longrightarrow> R = [] \<or> hd R = 0 \<Longrightarrow> decoded T src k res"
  by (auto simp: decoded_def)

lemma decode_pad: "b64_decode_loop (Pad64 # src) st i n t = Some (Inr (Some src, st, i, t))"
  by (simp add: isspace_def Pad64_def)

lemma decode_one:
  assumes "n = length T + 1 + length R" and "length T + 1 < 2 ^ 31"
  shows "decoded T [a] (length R) (b64_decode_loop (b64 [a]) 0 (length T) n (Some (T @ x # R)))"
proof -
  let ?x = "push_bit 2 (output0 a)" and ?R = "if R = [] then [] else 0 # tl R"
  have 1: "b64_store 0 (output0 a) (length T) n (Some (T @ x # R)) = Some (Inr (Some (T @ ?x # R)))"
    by (rule b64_store_ok(1) [OF refl]) (use assms in simp)
  have 2: "b64_store 1 (output1 a 0) (length T) n (Some (T @ ?x # R)) = Some (Inr (Some (T @ a # ?R)))"
  proof (cases R)
    case Nil
    show ?thesis unfolding Nil using b64_store_ok(5) [OF refl _ _ recombine(1) recombine(4), of n T a] assms Nil by simp
  next
    case (Cons y S)
    have "b64_store 1 (output1 a 0) (length T) n (Some (T @ ?x # y # S)) =
        Some (Inr (Some (T @ a # push_bit 4 (output1 a 0 AND 0x0f) # S)))"
      by (rule b64_store_ok(3) [OF refl _ _ recombine(1)]) (use assms Cons in simp_all)
    then show ?thesis unfolding Cons recombine by simp
  qed
  have "b64_decode_loop (b64 [a]) 0 (length T) n (Some (T @ x # R)) =
      Some (Inr (Some [Pad64], 2, length T + length [a], Some (T @ [a] @ ?R)))"
    using decode_digits(1) [OF outputs_less(1) 1] decode_digits(2) [OF outputs_less(2) 2 assms(2)] decode_pad
    by (simp del: b64_decode_loop.simps)
  moreover have "b64_tail_ok 2 [Pad64]" by (simp add: b64_tail_ok_def isspace_def Pad64_def)
  ultimately show ?thesis by (intro decodedI [where R = ?R]) auto
qed

lemma decode_two:
  assumes "n = length T + 2 + length R" and "length T + 2 < 2 ^ 31"
  shows "decoded T [a, b] (length R) (b64_decode_loop (b64 [a, b]) 0 (length T) n (Some (T @ x # y # R)))"
proof -
  let ?x = "push_bit 2 (output0 a)" and ?y = "push_bit 4 (output1 a b AND 0x0f)" and ?R = "if R = [] then [] else 0 # tl R"
  have i: "length T + 1 < 2 ^ 31" "length T + 1 + 1 < 2 ^ 31" using assms(2) by simp_all
  have 1: "b64_store 0 (output0 a) (length T) n (Some (T @ x # y # R)) = Some (Inr (Some (T @ ?x # y # R)))"
    by (rule b64_store_ok(1) [OF refl]) (use assms in simp)
  have 2: "b64_store 1 (output1 a b) (length T) n (Some (T @ ?x # y # R)) = Some (Inr (Some (T @ a # ?y # R)))"
    by (rule b64_store_ok(3) [OF refl _ _ recombine(1)]) (use assms in simp_all)
  have 3: "b64_store 2 (output2 b 0) (length T + 1) n (Some ((T @ [a]) @ ?y # R)) =
      Some (Inr (Some ((T @ [a]) @ b # ?R)))"
  proof (cases R)
    case Nil
    show ?thesis unfolding Nil
      using b64_store_ok(6) [OF _ _ _ recombine(2) recombine(5), of "length T + 1" "T @ [a]" n] assms Nil by simp
  next
    case (Cons z S)
    have "b64_store 2 (output2 b 0) (length T + 1) n (Some ((T @ [a]) @ ?y # z # S)) =
        Some (Inr (Some ((T @ [a]) @ b # push_bit 6 (output2 b 0 AND 0x03) # S)))"
      by (rule b64_store_ok(4) [OF _ _ _ recombine(2)]) (use assms Cons in simp_all)
    then show ?thesis unfolding Cons recombine by simp
  qed
  have "b64_decode_loop (b64 [a, b]) 0 (length T) n (Some (T @ x # y # R)) =
      Some (Inr (Some [], 3, length T + length [a, b], Some (T @ [a, b] @ ?R)))"
    using decode_digits(1) [OF outputs_less(1) 1] decode_digits(2) [OF outputs_less(2) 2 i(1)]
      decode_digits(3) [OF outputs_less(3) 3 i(2)] decode_pad
    by (simp del: b64_decode_loop.simps)
  moreover have "b64_tail_ok 3 []" by (simp add: b64_tail_ok_def)
  ultimately show ?thesis by (intro decodedI [where R = ?R]) auto
qed


lemma decode_src:
  "length src \<le> length S \<Longrightarrow> n = length T + length S \<Longrightarrow> length T + length src < 2 ^ 31 \<Longrightarrow>
   decoded T src (length S - length src) (b64_decode_loop (b64 src) 0 (length T) n (Some (T @ S)))"
proof (induction src arbitrary: T S rule: b64.induct)
  case (1 a b c src)
  then obtain x y z R where S: "S = x # y # z # R" by (auto simp: Suc_le_length_iff)
  have "b64_decode_loop (b64 (a # b # c # src)) 0 (length T) n (Some (T @ S)) =
      b64_decode_loop (b64 src) 0 (length T + 3) n (Some (T @ a # b # c # R))"
    using decode_group [of n T "length R" a b c "b64 src" x y z R] "1.prems" S by simp
  moreover have "decoded (T @ [a, b, c]) src (length R - length src)
      (b64_decode_loop (b64 src) 0 (length (T @ [a, b, c])) n (Some ((T @ [a, b, c]) @ R)))"
    by (rule "1.IH") (use "1.prems" S in auto)
  ultimately show ?case using S by (auto simp: decoded_def numeral_3_eq_3)
next
  case 2
  then show ?case by (simp add: decoded_def)
next
  case (3 a)
  then obtain x R where "S = x # R" by (auto simp: Suc_le_length_iff)
  with 3 decode_one [of n T R a x] show ?case by simp
next
  case (4 a b)
  then obtain x y R where "S = x # y # R" by (auto simp: Suc_le_length_iff)
  with 4 decode_two [of n T R a b x y] show ?case by simp
qed

lemma b64_no_zero: "0 \<notin> set (b64 src)"
  by (induction src rule: b64.induct)
    (use digit_facts(3) outputs_less in \<open>auto simp: Pad64_def dest: sym\<close>)

lemma b64_decode_ok:
  assumes "length src \<le> length d" and "length src < 2 ^ 31"
  shows "\<exists>R. b64_decode (b64 src) (Some d) (length d) = Some (int (length src), Some (src @ R)) \<and>
    length (src @ R) = length d"
proof -
  from decode_src [OF assms(1), of "length d" "[]"] assms(2) obtain pad st R where
    r: "b64_decode_loop (b64 src) 0 0 (length d) (Some d) = Some (Inr (pad, st, length src, Some (src @ R)))"
      "length R = length d - length src"
      "case pad of None \<Rightarrow> st = 0 | Some rest \<Rightarrow> b64_tail_ok st rest \<and> (R = [] \<or> hd R = 0)"
    by (auto simp: decoded_def)
  show ?thesis
  proof (cases R)
    case Nil
    with r assms show ?thesis by (auto simp: b64_decode_def split: option.splits)
  next
    case (Cons x S)
    with r assms show ?thesis
      by (auto simp: b64_decode_def rd8_joint mem_write_joint split: option.splits)
  qed
qed

section \<open>Any input\<close>

lemma b64_store_total:
  assumes "length t = n" and "n < 2 ^ 31"
  shows "\<exists>r t'. b64_store st v i n (Some t) = Some r \<and> (r = Inl (Some t') \<or> r = Inr (Some t') \<and> i < n) \<and> length t' = n"
proof (cases "i < n")
  case True
  then obtain x where x: "rd8 t i = Some x" using assms(1) by (simp add: rd8_def)
  have w: "\<exists>u. mem_write s j [y] = Some u \<and> length u = n" if "length s = n" "j < n" for s j y
    using that by (auto simp: mem_write_def)
  obtain u0 u1 u3 where u: "mem_write t i [push_bit 2 v] = Some u0" "length u0 = n"
      "mem_write t i [x OR v] = Some u3" "length u3 = n"
      "mem_write t i [x OR (if st = 1 then drop_bit 4 v else drop_bit 2 v)] = Some u1" "length u1 = n"
    using w [OF assms(1) True] by meson
  show ?thesis
  proof (cases "i + 1 < n")
    case nx: True
    obtain u2 where "mem_write u1 (i + 1) [if st = 1 then push_bit 4 (v AND 0x0f) else push_bit 6 (v AND 0x03)] = Some u2"
        "length u2 = n"
      using w [OF u(6) nx] by meson
    with True nx x u assms show ?thesis by (auto simp: b64_store_def Let_def)
  next
    case False
    with True x u assms show ?thesis by (auto simp: b64_store_def Let_def)
  qed
qed (use assms in \<open>simp add: b64_store_def\<close>)

lemma b64_decode_loop_total:
  "length t = n \<Longrightarrow> i \<le> n \<Longrightarrow> n < 2 ^ 31 \<Longrightarrow>
   (\<exists>t'. b64_decode_loop src st i n (Some t) = Some (Inl (Some t')) \<and> length t' = n) \<or>
   (\<exists>pad st' i' t'. b64_decode_loop src st i n (Some t) = Some (Inr (pad, st', i', Some t')) \<and> length t' = n \<and> i' \<le> n)"
proof (induction src arbitrary: st i t)
  case (Cons ch src)
  show ?case
  proof (cases "\<not> isspace ch \<and> ch \<noteq> Pad64 \<and> strchr_index Base64 ch \<noteq> None")
    case True
    then obtain pos where pos: "strchr_index Base64 ch = Some pos" by blast
    obtain r t' where r: "b64_store st (word_of_nat pos) i n (Some t) = Some r"
        "r = Inl (Some t') \<or> r = Inr (Some t') \<and> i < n" "length t' = n"
      using b64_store_total [OF Cons.prems(1,3)] by blast
    from r(2) show ?thesis
    proof
      assume "r = Inl (Some t')"
      with True pos r show ?thesis by simp
    next
      assume r': "r = Inr (Some t') \<and> i < n"
      then have "b64_decode_loop (ch # src) st i n (Some t) =
          b64_decode_loop src ((st + 1) mod 4) (if st = 0 then i else i + 1) n (Some t')"
        using True pos r(1) Cons.prems(3) by auto
      then show ?thesis using Cons.IH [OF r(3), of "if st = 0 then i else i + 1" "(st + 1) mod 4"] r' Cons.prems(3) by auto
    qed
  next
    case False
    then show ?thesis using Cons by auto
  qed
qed simp


section \<open>Properties\<close>

text \<open>
  C21: Encoding any bytes whose text is shorter than 2 GiB, the range of the \<open>int\<close> that is returned, into a target that holds the text and
  its zero returns the length of the text, and decoding that text into a target with room for the bytes returns their number and the bytes.
\<close>

theorem b64_roundtrip:
  assumes "(length src + 2) div 3 * 4 < length t" and "length src \<le> length d" and "(length src + 2) div 3 * 4 < 2 ^ 31"
  shows "\<exists>t' d'. b64_encode src t = Some (int ((length src + 2) div 3 * 4), t') \<and> length t' = length t \<and>
    b64_decode (takeWhile (\<lambda>c. c \<noteq> 0) t') (Some d) (length d) = Some (int (length src), Some d') \<and>
    length d' = length d \<and> take (length src) d' = src"
proof -
  let ?t = "b64 src @ 0 # drop (length (b64 src) + 1) t"
  have enc: "b64_encode src t = Some (int (length (b64 src)), ?t)"
    using b64_encode_loop_ok [of src t "[]"] assms(1,3) by (simp add: b64_encode_def length_b64)
  have "takeWhile (\<lambda>c. c \<noteq> 0) ?t = b64 src"
    using b64_no_zero [of src] by (subst takeWhile_append2) auto
  moreover have "length src < 2 ^ 31" using assms(3) by linarith
  ultimately show ?thesis using enc b64_decode_ok [OF assms(2)] assms(1) by (auto simp: length_b64)
qed

theorem b64_roundtrip_witness:
  "\<exists>t' d'. b64_encode [77, 97, 110, 33] [0, 0, 0, 0, 0, 0, 0, 0, 0] = Some (8, t') \<and> length t' = 9 \<and>
    b64_decode (takeWhile (\<lambda>c. c \<noteq> 0) t') (Some [0, 0, 0, 0]) 4 = Some (4, Some d') \<and>
    length d' = 4 \<and> take 4 d' = [77, 97, 110, 33]"
proof -
  have l: "length ([77, 97, 110, 33] :: byte list) = 4" "length ([0, 0, 0, 0, 0, 0, 0, 0, 0] :: byte list) = 9"
    "length ([0, 0, 0, 0] :: byte list) = 4"
    by simp_all
  show ?thesis
    using b64_roundtrip [of "[77, 97, 110, 33]" "[0, 0, 0, 0, 0, 0, 0, 0, 0]" "[0, 0, 0, 0]"] unfolding l by simp
qed

text \<open>
  On any string and any target of \<open>targsize\<close> bytes, below 2 GiB, \<open>b64_decode\<close> reads and writes only inside the
  target and returns -1 or a length of at most \<open>targsize\<close>.
\<close>

theorem b64_decode_in_bounds:
  assumes "length t < 2 ^ 31"
  shows "\<exists>rc t'. b64_decode src (Some t) (length t) = Some (rc, Some t') \<and> length t' = length t \<and>
    (rc = -1 \<or> 0 \<le> rc \<and> rc \<le> int (length t))"
proof -
  have l: "length t = length t" "0 \<le> length t" by simp_all
  from b64_decode_loop_total [OF l assms, of src 0] show ?thesis
  proof (elim disjE exE conjE)
    fix t' assume "b64_decode_loop src 0 0 (length t) (Some t) = Some (Inl (Some t'))" "length t' = length t"
    then show ?thesis by (simp add: b64_decode_def)
  next
    fix pad st i t'
    assume r: "b64_decode_loop src 0 0 (length t) (Some t) = Some (Inr (pad, st, i, Some t'))" "length t' = length t" "i \<le> length t"
    then have w: "\<exists>u. mem_write t' i [0] = Some u \<and> length u = length t" if "i < length t" using that by (auto simp: mem_write_def)
    have x: "\<exists>x. rd8 t' i = Some x" if "i < length t" using that r by (simp add: rd8_def)
    show ?thesis
      using r w x by (cases "i < length t"; cases pad) (auto simp: b64_decode_def split: if_splits)
  qed
qed

end
