(* ===== verification/Avl_Index.thy ===== *)
theory Avl_Index
  imports Avl
begin

text \<open>
  AVL trees as indices of intrusive structures. The entries of a tree are pairs of a key and the address of a
  structure. A tree is an \<open>index\<close> of a partial map from addresses to keys when it holds exactly the
  structures of the map under their keys. The laws are proved for any comparator, in the locale
  \<open>avl_order\<close>, and used through its interpretations.
\<close>

definition index :: "'k avl_tree_comp \<Rightarrow> ('k, 'n) avl_tree \<Rightarrow> ('n \<rightharpoonup> 'k) \<Rightarrow> bool" where
  "index cmp t f \<longleftrightarrow> avl_ok cmp t \<and> set (list_head t) = {(k, p). f p = Some k}"

lemma index_init: "index cmp (avl_init d) Map.empty"
  by (simp add: index_def avl_ok_init) (simp add: avl_init_def)

context avl_order
begin

lemma index_insert:
  assumes "index cmp t f" and "f p = None"
  shows "\<exists>rc t'. avl_insert cmp t (k, p) = Some (rc, t') \<and> allow_dups t' = allow_dups t \<and>
    (if rc = 0 then index cmp t' (f(p \<mapsto> k)) else index cmp t' f)"
proof -
  have "(k, p) \<notin> set (list_head t)" using assms by (simp add: index_def)
  with insert_refines [of t "(k, p)"] assms(1) obtain rc t' where t': "avl_insert cmp t (k, p) = Some (rc, t')"
      "avl_ok cmp t'" "allow_dups t' = allow_dups t" "(rc, list_head t') = mm_insert cmp (allow_dups t) (k, p) (list_head t)"
    by (auto simp: index_def)
  have "set (list_head t') = (if rc = 0 then insert (k, p) (set (list_head t)) else set (list_head t))"
    using t'(4) by (auto simp: mm_insert_def split: if_splits)
  with t' assms show ?thesis by (auto simp: index_def)
qed

lemma index_delete:
  assumes "index cmp t f" and "f p = Some k"
  shows "\<exists>t'. avl_delete t (k, p) = Some t' \<and> allow_dups t' = allow_dups t \<and> index cmp t' (f(p := None))"
proof -
  have "(k, p) \<in> set (list_head t)" "distinct (list_head t)" using assms by (auto simp: index_def avl_ok_def)
  moreover from this(1) delete_ok [of t "(k, p)"] assms(1) obtain t' where "avl_delete t (k, p) = Some t'"
      "avl_ok cmp t'" "list_head t' = remove1 (k, p) (list_head t)" "allow_dups t' = allow_dups t"
    by (auto simp: index_def)
  ultimately show ?thesis using assms by (auto simp: index_def)
qed

lemma index_unique:
  assumes t: "index cmp t f" "\<not> allow_dups t" and p: "f p = Some k" "f q = Some k"
  shows "p = q"
proof -
  have "filter (leader t) (list_head t) = list_head t"
    using t by (auto simp: index_def avl_ok_def list_all_iff filter_id_conv)
  moreover have "sorted_wrt (\<lambda>x y. cmp (fst x) (fst y) < 0) (filter (leader t) (list_head t))"
    using t by (intro runs_leaders_sorted) (auto simp: index_def avl_ok_def)
  ultimately have s: "sorted_wrt (\<lambda>x y. cmp (fst x) (fst y) < 0) (list_head t)" by simp
  have "(k, p) \<in> set (list_head t)" "(k, q) \<in> set (list_head t)" using t p by (simp_all add: index_def)
  then obtain i j where "i < length (list_head t)" "j < length (list_head t)" "list_head t ! i = (k, p)" "list_head t ! j = (k, q)"
    by (metis in_set_conv_nth)
  with s show ?thesis by (metis cmp_refl fst_conv less_irrefl nat_neq_iff prod.inject sorted_wrt_nth_less)
qed

lemma index_find:
  assumes "index cmp t f"
  shows "case avl_find cmp t k of None \<Rightarrow> \<forall>p. f p \<noteq> Some k | Some e \<Rightarrow> \<exists>p. e = (k, p) \<and> f p = Some k"
proof -
  have find: "avl_find cmp t k = List.find (\<lambda>x. fst x = k) (list_head t)" using assms by (intro find_ok) (simp add: index_def)
  have s: "set (list_head t) = {(k, p). f p = Some k}" using assms by (simp add: index_def)
  show ?thesis
  proof (cases "avl_find cmp t k")
    case None
    with find have "\<forall>x\<in>set (list_head t). fst x \<noteq> k" by (auto simp: find_None_iff dest: sym)
    with None s show ?thesis by auto
  next
    case (Some e)
    with find have "List.find (\<lambda>x. fst x = k) (list_head t) = Some e" by simp
    then have "e \<in> set (list_head t)" "fst e = k" by (auto simp: find_Some_iff)
    with Some s show ?thesis by (cases e) simp
  qed
qed

end

end
