(* ===== verification/Kvlist.thy ===== *)
theory Kvlist
  imports Avl_Index Blob
begin

text \<open>
  Key-value lists: \<open>src/libubox/kvlist.c\<close> and \<open>src/libubox/kvlist.h\<close>. A list is an AVL tree of nodes that carry a copy of
  a key and of a block of data. The lemmas show that the operations refine those of a finite map from
  strings to blocks.

  The nodes are a heap of their own: \<open>nodes\<close> maps the addresses of the live nodes to their key and
  data. \<open>get_len\<close> is the function pointer of the list; a pointer to data is a block of the caller or the
  data of a node, which \<open>kvlist_get\<close> returns. The address \<open>calloc_a\<close> returns is an argument of \<open>kvlist_set\<close>;
  it is not checked for \<open>NULL\<close>.
\<close>

section \<open>Operations\<close>

record kvlist =
  kavl :: "(cstring, nat) avl_tree"
  nodes :: "nat \<rightharpoonup> cstring \<times> byte list"
  get_len :: "byte list \<Rightarrow> int option"

datatype data_ptr = Extern "byte list" | Stored nat

definition data_at :: "kvlist \<Rightarrow> data_ptr \<Rightarrow> byte list option" where
  "data_at kv ptr = (case ptr of Extern bs \<Rightarrow> Some bs | Stored p \<Rightarrow> map_option snd (nodes kv p))"

definition kvlist_strlen :: "byte list \<Rightarrow> int option" where
  "kvlist_strlen data = map_option (\<lambda>s. int (length s) + 1) (cstr_at data 0)"

definition kvlist_blob_len :: "byte list \<Rightarrow> int option" where
  "kvlist_blob_len data = map_option uint (blob_pad_len data 0)"

definition kvlist_init :: "(byte list \<Rightarrow> int option) \<Rightarrow> kvlist" where
  "kvlist_init f = \<lparr>kavl = avl_init False, nodes = Map.empty, get_len = f\<rparr>"

definition kvlist_find :: "kvlist \<Rightarrow> cstring \<Rightarrow> nat option" where
  "kvlist_find kv name = map_option snd (avl_find avl_strcmp (kavl kv) name)"

definition kvlist_get :: "kvlist \<Rightarrow> cstring \<Rightarrow> data_ptr option" where
  "kvlist_get kv name = map_option Stored (kvlist_find kv name)"

definition kvlist_delete :: "kvlist \<Rightarrow> cstring \<Rightarrow> (bool \<times> kvlist) option" where
  "kvlist_delete kv name =
     (case kvlist_find kv name of
       None \<Rightarrow> Some (False, kv)
     | Some p \<Rightarrow> do {
         (key, _) \<leftarrow> nodes kv p;
         t \<leftarrow> avl_delete (kavl kv) (key, p);
         Some (True, kv\<lparr>kavl := t, nodes := (nodes kv)(p := None)\<rparr>)
       })"

definition kvlist_set :: "kvlist \<Rightarrow> cstring \<Rightarrow> data_ptr \<Rightarrow> nat option \<Rightarrow> kvlist option" where
  "kvlist_set kv name data mem = do {
     src \<leftarrow> data_at kv data;
     n \<leftarrow> get_len kv src;
     (_, kv) \<leftarrow> kvlist_delete kv name;
     p \<leftarrow> mem;
     src \<leftarrow> data_at kv data;
     d \<leftarrow> (if n < 0 then None else mem_read src 0 (nat n));
     (_, t) \<leftarrow> avl_insert avl_strcmp (kavl kv) (name, p);
     Some (kv\<lparr>kavl := t, nodes := (nodes kv)(p \<mapsto> (name, d))\<rparr>)
   }"

definition kvlist_free :: "kvlist \<Rightarrow> kvlist" where
  "kvlist_free kv = (case avl_remove_all_elements (kavl kv) of (es, t) \<Rightarrow>
     kv\<lparr>kavl := t, nodes := (nodes kv) |` (- snd ` set es)\<rparr>)"

section \<open>The interface of a store\<close>

text \<open>
  A store represents a finite map. \<open>adm s a\<close> says that the argument \<open>a\<close> of an insertion respects the contract
  of the store in the state \<open>s\<close>, and \<open>val s a\<close> is the value it stands for.
\<close>

datatype ('k, 'a) store_op = Set 'k 'a | Delete 'k

fun store_run :: "('s \<Rightarrow> 'k \<Rightarrow> 'a \<Rightarrow> 's option) \<Rightarrow> ('s \<Rightarrow> 'k \<Rightarrow> 's option) \<Rightarrow> ('k, 'a) store_op list \<Rightarrow> 's \<Rightarrow> 's option" where
  "store_run put del [] s = Some s"
| "store_run put del (Set k a # ops) s = do { s \<leftarrow> put s k a; store_run put del ops s }"
| "store_run put del (Delete k # ops) s = do { s \<leftarrow> del s k; store_run put del ops s }"

fun store_adm :: "('s \<Rightarrow> 'k \<Rightarrow> 'a \<Rightarrow> 's option) \<Rightarrow> ('s \<Rightarrow> 'k \<Rightarrow> 's option) \<Rightarrow> ('s \<Rightarrow> 'a \<Rightarrow> bool) \<Rightarrow> ('k, 'a) store_op list \<Rightarrow> 's \<Rightarrow> bool" where
  "store_adm put del adm [] s = True"
| "store_adm put del adm (Set k a # ops) s = (adm s a \<and> (case put s k a of None \<Rightarrow> True | Some s \<Rightarrow> store_adm put del adm ops s))"
| "store_adm put del adm (Delete k # ops) s = (case del s k of None \<Rightarrow> True | Some s \<Rightarrow> store_adm put del adm ops s)"

fun store_spec :: "('a \<Rightarrow> 'v) \<Rightarrow> ('k, 'a) store_op list \<Rightarrow> ('k \<rightharpoonup> 'v) \<Rightarrow> 'k \<rightharpoonup> 'v" where
  "store_spec val [] m = m"
| "store_spec val (Set k a # ops) m = store_spec val ops (m(k \<mapsto> val a))"
| "store_spec val (Delete k # ops) m = store_spec val ops (m(k := None))"

locale map_store =
  fixes rep :: "'s \<Rightarrow> ('k \<rightharpoonup> 'v) \<Rightarrow> bool"
    and look :: "'s \<Rightarrow> 'k \<Rightarrow> 'v option"
    and put :: "'s \<Rightarrow> 'k \<Rightarrow> 'a \<Rightarrow> 's option"
    and del :: "'s \<Rightarrow> 'k \<Rightarrow> 's option"
    and adm :: "'s \<Rightarrow> 'a \<Rightarrow> bool"
    and val :: "'a \<Rightarrow> 'v"
  assumes look_rep: "rep s m \<Longrightarrow> look s k = m k"
    and put_rep: "rep s m \<Longrightarrow> adm s a \<Longrightarrow> \<exists>s'. put s k a = Some s' \<and> rep s' (m(k \<mapsto> val a))"
    and del_rep: "rep s m \<Longrightarrow> \<exists>s'. del s k = Some s' \<and> rep s' (m(k := None))"
begin

lemma run_rep: "rep s m \<Longrightarrow> store_adm put del adm ops s \<Longrightarrow>
  \<exists>s'. store_run put del ops s = Some s' \<and> rep s' (store_spec val ops m)"
proof (induction ops arbitrary: s m)
  case (Cons op ops)
  show ?case
  proof (cases op)
    case (Set k a)
    with Cons.prems put_rep [of s m a k] obtain s1 where "put s k a = Some s1" "rep s1 (m(k \<mapsto> val a))" by auto
    with Cons.IH [OF this(2)] Cons.prems(2) Set show ?thesis by (simp del: fun_upd_apply)
  next
    case (Delete k)
    with Cons.prems del_rep [of s m k] obtain s1 where "del s k = Some s1" "rep s1 (m(k := None))" by auto
    with Cons.IH [OF this(2)] Cons.prems(2) Delete show ?thesis by (simp del: fun_upd_apply)
  qed
qed simp

lemma run_look: "rep s m \<Longrightarrow> store_adm put del adm ops s \<Longrightarrow>
  \<exists>s'. store_run put del ops s = Some s' \<and> look s' = store_spec val ops m"
proof -
  assume "rep s m" "store_adm put del adm ops s"
  from run_rep [OF this] obtain s' where s': "store_run put del ops s = Some s'" "rep s' (store_spec val ops m)" by blast
  from look_rep [OF this(2)] have "look s' = store_spec val ops m" by (rule ext)
  with s'(1) show ?thesis by blast
qed

end

section \<open>A list is a store\<close>

definition kv_rep :: "kvlist \<Rightarrow> (cstring \<rightharpoonup> byte list) \<Rightarrow> bool" where
  "kv_rep kv m \<longleftrightarrow> index avl_strcmp (kavl kv) (\<lambda>p. map_option fst (nodes kv p)) \<and> \<not> allow_dups (kavl kv) \<and>
     (\<forall>n d. m n = Some d \<longleftrightarrow> (n, d) \<in> ran (nodes kv))"

lemma kv_find: "kv_rep kv m \<Longrightarrow> case kvlist_find kv n of None \<Rightarrow> m n = None | Some p \<Rightarrow> nodes kv p = Some (n, the (m n)) \<and> m n \<noteq> None"
proof -
  assume r: "kv_rep kv m"
  then have f: "case avl_find avl_strcmp (kavl kv) n of None \<Rightarrow> \<forall>p. map_option fst (nodes kv p) \<noteq> Some n
      | Some e \<Rightarrow> \<exists>p. e = (n, p) \<and> map_option fst (nodes kv p) = Some n"
    by (intro strcmp_order.index_find) (simp add: kv_rep_def)
  have m: "m n = Some d \<longleftrightarrow> (\<exists>p. nodes kv p = Some (n, d))" for d using r by (simp add: kv_rep_def ran_def)
  show ?thesis
  proof (cases "avl_find avl_strcmp (kavl kv) n")
    case (Some e)
    with f obtain p d where e: "e = (n, p)" "nodes kv p = Some (n, d)" by auto
    then have "m n = Some d" using m by blast
    with Some e show ?thesis by (simp add: kvlist_find_def)
  next
    case None
    with f m have "m n \<noteq> Some d" for d by force
    then have "m n = None" by (cases "m n") auto
    with None show ?thesis by (simp add: kvlist_find_def)
  qed
qed

lemma kv_rep_mem: "kv_rep kv m \<Longrightarrow> m n = Some d \<longleftrightarrow> (\<exists>p. nodes kv p = Some (n, d))"
  by (simp add: kv_rep_def ran_def)

lemma kv_unique: "kv_rep kv m \<Longrightarrow> nodes kv p = Some (n, d) \<Longrightarrow> nodes kv q = Some (n, d') \<Longrightarrow> p = q"
  using strcmp_order.index_unique [of "kavl kv" "\<lambda>p. map_option fst (nodes kv p)" p n q] by (simp add: kv_rep_def)

lemma kv_delete:
  assumes r: "kv_rep kv m"
  shows "\<exists>kv'. kvlist_delete kv n = Some (m n \<noteq> None, kv') \<and> kv_rep kv' (m(n := None)) \<and> get_len kv' = get_len kv \<and>
    (\<forall>p. nodes kv' p = (if map_option fst (nodes kv p) = Some n then None else nodes kv p))"
proof (cases "kvlist_find kv n")
  case None
  with kv_find [OF r, of n] have n: "m n = None" by simp
  then have "map_option fst (nodes kv p) \<noteq> Some n" for p using r by (auto simp: kv_rep_def ran_def) (metis option.distinct(1))
  with None n r show ?thesis by (simp add: kvlist_delete_def fun_upd_idem)
next
  case (Some p)
  with kv_find [OF r, of n] obtain d where p: "nodes kv p = Some (n, d)" "m n = Some d" by auto
  from strcmp_order.index_delete [of "kavl kv" "\<lambda>p. map_option fst (nodes kv p)" p n] r p obtain t where
    t: "avl_delete (kavl kv) (n, p) = Some t" "allow_dups t = allow_dups (kavl kv)"
      "index avl_strcmp t ((\<lambda>p. map_option fst (nodes kv p))(p := None))" by (auto simp: kv_rep_def)
  let ?kv = "kv\<lparr>kavl := t, nodes := (nodes kv)(p := None)\<rparr>"
  have "(\<lambda>q. map_option fst (nodes ?kv q)) = (\<lambda>p. map_option fst (nodes kv p))(p := None)" by auto
  moreover have "(m(n := None)) k = Some e \<longleftrightarrow> (k, e) \<in> ran (nodes ?kv)" for k e
  proof (cases "k = n")
    case True
    with kv_unique [OF r p(1)] show ?thesis by (auto simp: ran_def)
  next
    case False
    then have "(k, e) \<in> ran (nodes ?kv) \<longleftrightarrow> (\<exists>q. nodes kv q = Some (k, e))" using p(1) by (auto simp: ran_def) force
    with kv_rep_mem [OF r, of k e] False show ?thesis by simp
  qed
  ultimately have "kv_rep ?kv (m(n := None))" using t r by (simp add: kv_rep_def)
  moreover have "kvlist_delete kv n = Some (True, ?kv)" using Some p t by (simp add: kvlist_delete_def)
  moreover have "nodes ?kv q = (if map_option fst (nodes kv q) = Some n then None else nodes kv q)" for q
  proof (cases "map_option fst (nodes kv q) = Some n")
    case True
    then obtain e where "nodes kv q = Some (n, e)" by auto
    with kv_unique [OF r p(1) this] True show ?thesis by simp
  next
    case False
    with p(1) show ?thesis by auto
  qed
  ultimately show ?thesis using p(2) by (intro exI [of _ ?kv]) simp
qed

text \<open>What a caller of \<open>kvlist_set\<close> passes: a block, and the address the allocation yields.\<close>

definition kv_adm :: "kvlist \<Rightarrow> byte list \<times> nat \<Rightarrow> bool" where
  "kv_adm kv a = (case a of (bs, p) \<Rightarrow> nodes kv p = None \<and>
     (case get_len kv bs of None \<Rightarrow> False | Some n \<Rightarrow> n = int (length bs)))"

lemma kv_set:
  assumes r: "kv_rep kv m" and a: "kv_adm kv (bs, p)"
  shows "\<exists>kv'. kvlist_set kv n (Extern bs) (Some p) = Some kv' \<and> kv_rep kv' (m(n \<mapsto> bs))"
proof -
  have p: "nodes kv p = None" and l: "get_len kv bs = Some (int (length bs))" using a by (auto simp: kv_adm_def split: option.splits)
  obtain b kv1 where d: "kvlist_delete kv n = Some (b, kv1)" "kv_rep kv1 (m(n := None))"
    "\<forall>p. nodes kv1 p = (if map_option fst (nodes kv p) = Some n then None else nodes kv p)"
    using kv_delete [OF r, of n] by blast
  have p1: "nodes kv1 p = None" using d(3) p by simp
  have f: "\<forall>q. map_option fst (nodes kv1 q) \<noteq> Some n" using d(3) by auto
  from strcmp_order.index_insert [of "kavl kv1" "\<lambda>p. map_option fst (nodes kv1 p)" p n] d(2) p1 obtain rc t where
    t: "avl_insert avl_strcmp (kavl kv1) (n, p) = Some (rc, t)" "allow_dups t = allow_dups (kavl kv1)"
      "if rc = 0 then index avl_strcmp t ((\<lambda>p. map_option fst (nodes kv1 p))(p \<mapsto> n)) else index avl_strcmp t (\<lambda>p. map_option fst (nodes kv1 p))"
    by (auto simp: kv_rep_def)
  have "rc = 0"
  proof -
    have "n \<notin> fst ` set (list_head (kavl kv1))" "(n, p) \<notin> set (list_head (kavl kv1))" using d(2) f by (force simp: kv_rep_def index_def)+
    with strcmp_order.insert_refines [of "kavl kv1" "(n, p)"] d(2) t(1) show ?thesis by (auto simp: kv_rep_def index_def mm_insert_def)
  qed
  let ?kv = "kv1\<lparr>kavl := t, nodes := (nodes kv1)(p \<mapsto> (n, bs))\<rparr>"
  have "(\<lambda>q. map_option fst (nodes ?kv q)) = (\<lambda>p. map_option fst (nodes kv1 p))(p \<mapsto> n)" by auto
  moreover have "(m(n \<mapsto> bs)) k = Some e \<longleftrightarrow> (k, e) \<in> ran (nodes ?kv)" for k e
  proof (cases "k = n")
    case True
    have "nodes kv1 q \<noteq> Some (n, e)" for q using f by (metis fst_conv option.simps(9))
    with True show ?thesis by (auto simp: ran_def)
  next
    case False
    then have "(k, e) \<in> ran (nodes ?kv) \<longleftrightarrow> (\<exists>q. nodes kv1 q = Some (k, e))" using p1 by (auto simp: ran_def) force
    with kv_rep_mem [OF d(2), of k e] False show ?thesis by simp
  qed
  ultimately have "kv_rep ?kv (m(n \<mapsto> bs))" using t \<open>rc = 0\<close> d(2) by (simp add: kv_rep_def)
  moreover have "kvlist_set kv n (Extern bs) (Some p) = Some ?kv"
    using l d(1) t(1) by (simp add: kvlist_set_def data_at_def mem_read_def)
  ultimately show ?thesis by blast
qed

lemma kv_init: "kv_rep (kvlist_init f) Map.empty"
  using index_init [of avl_strcmp False] by (simp add: kv_rep_def kvlist_init_def) (simp add: avl_init_def)

definition kv_look :: "kvlist \<Rightarrow> cstring \<Rightarrow> byte list option" where
  "kv_look kv n = kvlist_get kv n \<bind> data_at kv"

definition kv_put :: "kvlist \<Rightarrow> cstring \<Rightarrow> byte list \<times> nat \<Rightarrow> kvlist option" where
  "kv_put kv n a = kvlist_set kv n (Extern (fst a)) (Some (snd a))"

definition kv_del :: "kvlist \<Rightarrow> cstring \<Rightarrow> kvlist option" where
  "kv_del kv n = map_option snd (kvlist_delete kv n)"

interpretation kv_store: map_store kv_rep kv_look kv_put kv_del kv_adm fst
proof (unfold_locales, goal_cases)
  case (1 s m k)
  from kv_find [OF 1, of k] show ?case by (auto simp: kv_look_def kvlist_get_def data_at_def split: option.split_asm)
next
  case (2 s m a k)
  from kv_set [OF 2(1), of "fst a" "snd a" k] 2(2) show ?case by (simp add: kv_put_def)
next
  case (3 s m k)
  from kv_delete [OF 3, of k] show ?case by (auto simp: kv_del_def)
qed

section \<open>Properties\<close>

text \<open>
  C24: A key-value list behaves as a finite map: after any sequence of \<open>kvlist_set\<close> and \<open>kvlist_delete\<close> from
  \<open>kvlist_init\<close> in which each allocation yields an unused address and each block has the length
  \<open>get_len\<close> finds, no access is invalid and \<open>kvlist_get\<close> finds exactly the data of the map that the
  same insertions and deletions yield.
\<close>

theorem kvlist_refines_map:
  assumes "store_adm kv_put kv_del kv_adm ops (kvlist_init f)"
  shows "\<exists>kv. store_run kv_put kv_del ops (kvlist_init f) = Some kv \<and>
    (\<forall>n. kvlist_get kv n \<bind> data_at kv = store_spec fst ops Map.empty n)"
  using kv_store.run_look [OF kv_init assms] by (metis kv_look_def)

theorem kvlist_refines_map_witness:
  "\<exists>kv. store_run kv_put kv_del [Set [97] ([1, 0], 5), Set [98] ([2, 0], 6), Delete [97]] (kvlist_init kvlist_strlen) = Some kv \<and>
    kvlist_get kv [97] \<bind> data_at kv = None \<and> kvlist_get kv [98] \<bind> data_at kv = Some [2, 0]"
proof -
  have "store_adm kv_put kv_del kv_adm [Set [97] ([1, 0], 5), Set [98] ([2, 0], 6), Delete [97]] (kvlist_init kvlist_strlen)"
    by code_simp
  from kvlist_refines_map [OF this] show ?thesis by auto
qed

text \<open>
  Setting a key to the data that the list itself holds under it is a use after free:
  \<open>kvlist_set\<close> frees the old node before it copies the data out of it.
\<close>

theorem kvlist_set_own_data:
  assumes "kv_rep kv m" and "kvlist_get kv n = Some ptr"
  shows "kvlist_set kv n ptr mem = None"
proof -
  obtain p where p: "kvlist_find kv n = Some p" "ptr = Stored p" using assms(2) by (auto simp: kvlist_get_def)
  with kv_find [OF assms(1), of n] have "map_option fst (nodes kv p) = Some n" by simp
  with kv_delete [OF assms(1), of n] obtain b kv1 where "kvlist_delete kv n = Some (b, kv1)" "nodes kv1 p = None" by auto
  then show ?thesis using p by (simp add: kvlist_set_def data_at_def split: bind_splits option.splits)
qed

theorem kvlist_set_own_data_witness:
  "\<exists>kv. store_run kv_put kv_del [Set [97] ([1, 0], 5)] (kvlist_init kvlist_strlen) = Some kv \<and>
    kvlist_get kv [97] = Some (Stored 5) \<and> kvlist_set kv [97] (Stored 5) (Some 6) = None"
proof -
  have "store_adm kv_put kv_del kv_adm [Set [97] ([1, 0], 5)] (kvlist_init kvlist_strlen)" by code_simp
  from kv_store.run_rep [OF kv_init this] obtain kv m where
    kv: "store_run kv_put kv_del [Set [97] ([1, 0], 5)] (kvlist_init kvlist_strlen) = Some kv" "kv_rep kv m" by blast
  have "map_option (\<lambda>kv. kvlist_get kv [97]) (store_run kv_put kv_del [Set [97] ([1, 0], 5)] (kvlist_init kvlist_strlen)) =
      Some (Some (Stored 5))" by code_simp
  with kv have g: "kvlist_get kv [97] = Some (Stored 5)" by simp
  from kvlist_set_own_data [OF kv(2) g] kv(1) g show ?thesis by blast
qed

end
