(* ===== verification/Vlist.thy ===== *)
theory Vlist
  imports Avl_Index
begin

text \<open>
  Versioned lists: \<open>src/libubox/vlist.c\<close> and \<open>src/libubox/vlist.h\<close>. A list is an AVL tree of nodes that carry the version
  of the list at the time they were added. A reload increments the version (\<open>vlist_update\<close>), adds the
  nodes that still exist (\<open>vlist_add\<close>) and removes the rest (\<open>vlist_flush\<close>).

  \<open>vnodes\<close> maps the addresses of the nodes in the tree to their key and version. The callback
  \<open>update\<close> is code of the user: the model records its calls, in order, in \<open>calls\<close>, each with its arguments
  \<open>node_new\<close> and \<open>node_old\<close>. An \<open>int\<close> is the integer it denotes; incrementing the largest is undefined.
\<close>

section \<open>Operations\<close>

record 'k vlist_tree =
  vavl :: "('k, nat) avl_tree"
  keep_old :: bool
  no_delete :: bool
  version :: int
  vnodes :: "nat \<rightharpoonup> 'k \<times> int"
  calls :: "(nat option \<times> nat option) list"

definition vlist_init :: "bool \<Rightarrow> bool \<Rightarrow> 'k vlist_tree" where
  "vlist_init ko nd = \<lparr>vavl = avl_init False, keep_old = ko, no_delete = nd, version = 1, vnodes = Map.empty, calls = []\<rparr>"

definition update :: "nat option \<Rightarrow> nat option \<Rightarrow> 'k vlist_tree \<Rightarrow> 'k vlist_tree" where
  "update new old t = t\<lparr>calls := calls t @ [(new, old)]\<rparr>"

definition vlist_update :: "'k vlist_tree \<Rightarrow> 'k vlist_tree option" where
  "vlist_update t = (if version t < 2 ^ 31 - 1 then Some (t\<lparr>version := version t + 1\<rparr>) else None)"

definition vlist_delete :: "nat \<Rightarrow> 'k vlist_tree \<Rightarrow> 'k vlist_tree option" where
  "vlist_delete node t = do {
     t \<leftarrow>
       (if \<not> no_delete t then do {
          (key, _) \<leftarrow> vnodes t node;
          a \<leftarrow> avl_delete (vavl t) (key, node);
          Some (t\<lparr>vavl := a, vnodes := (vnodes t)(node := None)\<rparr>)
        }
        else Some t);
     Some (update None (Some node) t)
   }"

definition vlist_add :: "'k avl_tree_comp \<Rightarrow> nat \<Rightarrow> 'k \<Rightarrow> 'k vlist_tree \<Rightarrow> 'k vlist_tree option" where
  "vlist_add cmp node key t =
     (case avl_find cmp (vavl t) key of
       Some (okey, old) \<Rightarrow>
         if keep_old t \<or> no_delete t then
           Some (update (Some node) (Some old) (t\<lparr>vnodes := (vnodes t)(old \<mapsto> (okey, version t))\<rparr>))
         else do {
           a \<leftarrow> avl_delete (vavl t) (okey, old);
           (_, a) \<leftarrow> avl_insert cmp a (key, node);
           Some (update (Some node) (Some old)
             (t\<lparr>vavl := a, vnodes := (vnodes t)(old := None, node \<mapsto> (key, version t))\<rparr>))
         }
     | None \<Rightarrow> do {
         (_, a) \<leftarrow> avl_insert cmp (vavl t) (key, node);
         Some (update (Some node) None (t\<lparr>vavl := a, vnodes := (vnodes t)(node \<mapsto> (key, version t))\<rparr>))
       })"

text \<open>\<open>avl_for_each_element_safe\<close> visits the nodes the tree had at the start; the body only removes its own node.\<close>

definition vlist_stale :: "'k vlist_tree \<Rightarrow> nat \<Rightarrow> bool option" where
  "vlist_stale t node = do {
     (_, v) \<leftarrow> vnodes t node;
     Some (\<not> ((v = version t \<or> v = -1) \<and> version t \<noteq> -1))
   }"

fun vlist_flush_loop :: "nat list \<Rightarrow> 'k vlist_tree \<Rightarrow> 'k vlist_tree option" where
  "vlist_flush_loop [] t = Some t"
| "vlist_flush_loop (node # ns) t = do {
     stale \<leftarrow> vlist_stale t node;
     t \<leftarrow> (if stale then vlist_delete node t else Some t);
     vlist_flush_loop ns t
   }"

definition vlist_flush :: "'k vlist_tree \<Rightarrow> 'k vlist_tree option" where
  "vlist_flush t = vlist_flush_loop (map snd (list_head (vavl t))) t"

definition vlist_flush_all :: "'k vlist_tree \<Rightarrow> 'k vlist_tree option" where
  "vlist_flush_all t = vlist_flush (t\<lparr>version := -1\<rparr>)"

section \<open>A reload\<close>

definition vl_ok :: "'k avl_tree_comp \<Rightarrow> 'k vlist_tree \<Rightarrow> bool" where
  "vl_ok cmp t \<longleftrightarrow> index cmp (vavl t) (\<lambda>p. map_option fst (vnodes t p)) \<and> \<not> allow_dups (vavl t)"

fun vlist_adds :: "'k avl_tree_comp \<Rightarrow> (nat \<times> 'k) list \<Rightarrow> 'k vlist_tree \<Rightarrow> 'k vlist_tree option" where
  "vlist_adds cmp [] t = Some t"
| "vlist_adds cmp ((node, key) # ns) t = do {
     t \<leftarrow> vlist_add cmp node key t;
     vlist_adds cmp ns t
   }"

definition vlist_reload :: "'k avl_tree_comp \<Rightarrow> (nat \<times> 'k) list \<Rightarrow> 'k vlist_tree \<Rightarrow> 'k vlist_tree option" where
  "vlist_reload cmp ns t = do {
     t \<leftarrow> vlist_update t;
     t \<leftarrow> vlist_adds cmp ns t;
     vlist_flush t
   }"

lemma update_fields [simp]: "vavl (update a b t) = vavl t" "keep_old (update a b t) = keep_old t"
    "no_delete (update a b t) = no_delete t" "version (update a b t) = version t" "vnodes (update a b t) = vnodes t"
    "calls (update a b t) = calls t @ [(a, b)]" "vl_ok cmp (update a b t) = vl_ok cmp t"
  by (simp_all add: update_def vl_ok_def)

context avl_order
begin

lemma vlist_delete_ok:
  assumes ok: "vl_ok cmp t" and n: "vnodes t node = Some (k, v)" and d: "\<not> no_delete t"
  shows "\<exists>t'. vlist_delete node t = Some t' \<and> vl_ok cmp t' \<and> vnodes t' = (vnodes t)(node := None) \<and>
    version t' = version t \<and> no_delete t' = no_delete t \<and> calls t' = calls t @ [(None, Some node)]"
proof -
  from index_delete [of "vavl t" "\<lambda>p. map_option fst (vnodes t p)" node k] ok n obtain a where
    a: "avl_delete (vavl t) (k, node) = Some a" "allow_dups a = allow_dups (vavl t)"
      "index cmp a ((\<lambda>p. map_option fst (vnodes t p))(node := None))" by (auto simp: vl_ok_def)
  have "(\<lambda>p. map_option fst (((vnodes t)(node := None)) p)) = (\<lambda>p. map_option fst (vnodes t p))(node := None)" by auto
  with a ok n d show ?thesis by (simp add: vlist_delete_def vl_ok_def del: fun_upd_apply)
qed

lemma vlist_unique: "vl_ok cmp t \<Longrightarrow> vnodes t p = Some (k, v) \<Longrightarrow> vnodes t q = Some (k, w) \<Longrightarrow> p = q"
  using index_unique [of "vavl t" "\<lambda>p. map_option fst (vnodes t p)" p k q] by (simp add: vl_ok_def)

lemma vlist_insert_ok:
  assumes ok: "index cmp a (\<lambda>p. map_option fst (N p))" "\<not> allow_dups a" and f: "N node = None"
    and k: "\<forall>p. map_option fst (N p) \<noteq> Some key"
  shows "\<exists>a'. avl_insert cmp a (key, node) = Some (0, a') \<and> index cmp a' (\<lambda>p. map_option fst ((N(node \<mapsto> (key, v))) p)) \<and> \<not> allow_dups a'"
proof -
  from index_insert [OF ok(1), of node key] f obtain rc a' where
    a: "avl_insert cmp a (key, node) = Some (rc, a')" "allow_dups a' = allow_dups a"
      "if rc = 0 then index cmp a' ((\<lambda>p. map_option fst (N p))(node \<mapsto> key)) else index cmp a' (\<lambda>p. map_option fst (N p))" by auto
  have "key \<notin> fst ` set (list_head a)" "(key, node) \<notin> set (list_head a)" using ok(1) k by (force simp: index_def)+
  with insert_refines [of a "(key, node)"] ok(1) a(1) have "rc = 0" by (auto simp: index_def mm_insert_def)
  moreover have "(\<lambda>p. map_option fst ((N(node \<mapsto> (key, v))) p)) = (\<lambda>p. map_option fst (N p))(node \<mapsto> key)" by auto
  ultimately show ?thesis using a ok(2) by (simp del: fun_upd_apply)
qed

lemma vlist_add_ok:
  assumes ok: "vl_ok cmp t" and f: "vnodes t node = None" and d: "\<not> keep_old t" "\<not> no_delete t"
  shows "\<exists>t'. vlist_add cmp node key t = Some t' \<and> vl_ok cmp t' \<and> version t' = version t \<and>
    \<not> keep_old t' \<and> \<not> no_delete t' \<and>
    vnodes t' = (\<lambda>p. if p = node then Some (key, version t) else if map_option fst (vnodes t p) = Some key then None else vnodes t p)"
proof -
  have fi: "case avl_find cmp (vavl t) key of None \<Rightarrow> \<forall>p. map_option fst (vnodes t p) \<noteq> Some key
      | Some e \<Rightarrow> \<exists>p. e = (key, p) \<and> map_option fst (vnodes t p) = Some key"
    using ok by (intro index_find) (simp add: vl_ok_def)
  show ?thesis
  proof (cases "avl_find cmp (vavl t) key")
    case None
    with fi have k: "\<forall>p. map_option fst (vnodes t p) \<noteq> Some key" by simp
    from vlist_insert_ok [OF _ _ f k, of "vavl t" "version t"] ok obtain a where
      "avl_insert cmp (vavl t) (key, node) = Some (0, a)" "vl_ok cmp (t\<lparr>vavl := a, vnodes := (vnodes t)(node \<mapsto> (key, version t))\<rparr>)"
      by (auto simp: vl_ok_def)
    with None d k show ?thesis by (auto simp: vlist_add_def fun_eq_iff)
  next
    case (Some e)
    with fi obtain p v where p: "e = (key, p)" "vnodes t p = Some (key, v)" by auto
    let ?N = "(vnodes t)(p := None)"
    from index_delete [of "vavl t" "\<lambda>p. map_option fst (vnodes t p)" p key] ok p obtain a where
      a: "avl_delete (vavl t) (key, p) = Some a" "\<not> allow_dups a"
        "index cmp a ((\<lambda>p. map_option fst (vnodes t p))(p := None))" by (auto simp: vl_ok_def)
    have n: "(\<lambda>q. map_option fst (?N q)) = (\<lambda>p. map_option fst (vnodes t p))(p := None)" by auto
    have u: "map_option fst (vnodes t q) = Some key \<longleftrightarrow> q = p" for q using vlist_unique [OF ok p(2), of q] p(2) by auto
    then have k: "\<forall>q. map_option fst (?N q) \<noteq> Some key" by auto
    have "?N node = None" using f by simp
    with vlist_insert_ok [of a ?N node key "version t"] a(2,3) k n obtain a' where
      "avl_insert cmp a (key, node) = Some (0, a')" "vl_ok cmp (t\<lparr>vavl := a', vnodes := ?N(node \<mapsto> (key, version t))\<rparr>)"
      by (auto simp: vl_ok_def simp del: fun_upd_apply)
    moreover have "?N(node \<mapsto> (key, version t)) =
        (\<lambda>q. if q = node then Some (key, version t) else if map_option fst (vnodes t q) = Some key then None else vnodes t q)"
      by (rule ext) (simp add: u [simplified] u)
    ultimately show ?thesis using Some p(1) a(1) d by (simp add: vlist_add_def del: fun_upd_apply)
  qed
qed

text \<open>Adding nodes replaces the nodes with their keys; a flush removes the stale nodes.\<close>

lemma vlist_adds_ok:
  assumes "vl_ok cmp t" and "\<forall>(node, key)\<in>set ns. vnodes t node = None" and "distinct (map fst ns)" and "distinct (map snd ns)"
    and "\<not> keep_old t" and "\<not> no_delete t"
  shows "\<exists>t'. vlist_adds cmp ns t = Some t' \<and> vl_ok cmp t' \<and> version t' = version t \<and> \<not> no_delete t' \<and>
    vnodes t' = (\<lambda>p. case map_of ns p of Some key \<Rightarrow> Some (key, version t)
      | None \<Rightarrow> if map_option fst (vnodes t p) \<in> Some ` snd ` set ns then None else vnodes t p)"
  using assms
proof (induction ns arbitrary: t)
  case (Cons e ns)
  obtain node key where e: "e = (node, key)" by force
  with Cons.prems vlist_add_ok [of t node key] obtain t1 where t1: "vlist_add cmp node key t = Some t1" "vl_ok cmp t1"
      "version t1 = version t" "\<not> keep_old t1" "\<not> no_delete t1"
      "vnodes t1 = (\<lambda>p. if p = node then Some (key, version t) else if map_option fst (vnodes t p) = Some key then None else vnodes t p)"
    by auto
  have fr: "\<forall>(n, k)\<in>set ns. vnodes t1 n = None"
  proof clarify
    fix n k assume "(n, k) \<in> set ns"
    then have "vnodes t n = None" "n \<noteq> node" using Cons.prems(2,3) e by (auto simp: image_iff)
    then show "vnodes t1 n = None" unfolding t1(6) by simp
  qed
  from Cons.IH [OF t1(2) fr _ _ t1(4,5)] Cons.prems(3,4) e obtain t' where t': "vlist_adds cmp ns t1 = Some t'" "vl_ok cmp t'"
      "version t' = version t1" "\<not> no_delete t'" "vnodes t' = (\<lambda>p. case map_of ns p of Some key \<Rightarrow> Some (key, version t1)
        | None \<Rightarrow> if map_option fst (vnodes t1 p) \<in> Some ` snd ` set ns then None else vnodes t1 p)" by auto
  have n: "map_of ns node = None" "key \<notin> snd ` set ns" using Cons.prems(3,4) e by (auto simp: map_of_eq_None_iff)
  have "vnodes t' p = (case map_of (e # ns) p of Some key \<Rightarrow> Some (key, version t)
      | None \<Rightarrow> if map_option fst (vnodes t p) \<in> Some ` snd ` set (e # ns) then None else vnodes t p)" for p
    using n by (cases "p = node") (auto simp: t'(5) t1(3,6) e split: option.split)
  with t' t1 e show ?case by (auto simp: fun_eq_iff)
qed simp

lemma vlist_flush_loop_ok:
  assumes "vl_ok cmp t" and "\<not> no_delete t" and "distinct ns" and "\<forall>p\<in>set ns. vnodes t p \<noteq> None"
  shows "\<exists>t'. vlist_flush_loop ns t = Some t' \<and> vl_ok cmp t' \<and> version t' = version t \<and>
    calls t' = calls t @ map (\<lambda>p. (None, Some p)) (filter (\<lambda>p. vlist_stale t p = Some True) ns) \<and>
    vnodes t' = (\<lambda>p. if p \<in> set ns \<and> vlist_stale t p = Some True then None else vnodes t p)"
  using assms
proof (induction ns arbitrary: t)
  case (Cons n ns)
  obtain k v where n: "vnodes t n = Some (k, v)" using Cons.prems(4) by fastforce
  show ?case
  proof (cases "vlist_stale t n = Some True")
    case False
    then have "vlist_stale t n = Some False" using n by (auto simp: vlist_stale_def)
    with Cons.IH [OF Cons.prems(1,2)] Cons.prems(3,4) show ?thesis by (auto simp: fun_eq_iff)
  next
    case True
    from vlist_delete_ok [OF Cons.prems(1) n Cons.prems(2)] obtain t1 where t1: "vlist_delete n t = Some t1" "vl_ok cmp t1"
        "vnodes t1 = (vnodes t)(n := None)" "version t1 = version t" "no_delete t1 = no_delete t" "calls t1 = calls t @ [(None, Some n)]" by auto
    have st: "vlist_stale t1 p = vlist_stale t p" if "p \<noteq> n" for p using that t1(3,4) by (simp add: vlist_stale_def)
    have "\<forall>p\<in>set ns. vnodes t1 p \<noteq> None" using Cons.prems(3,4) t1(3) by auto
    with Cons.IH [OF t1(2)] Cons.prems(2,3) t1(5) obtain t' where t': "vlist_flush_loop ns t1 = Some t'" "vl_ok cmp t'" "version t' = version t1"
        "calls t' = calls t1 @ map (\<lambda>p. (None, Some p)) (filter (\<lambda>p. vlist_stale t1 p = Some True) ns)"
        "vnodes t' = (\<lambda>p. if p \<in> set ns \<and> vlist_stale t1 p = Some True then None else vnodes t1 p)" by auto
    have "filter (\<lambda>p. vlist_stale t1 p = Some True) ns = filter (\<lambda>p. vlist_stale t p = Some True) ns"
      using Cons.prems(3) by (intro filter_cong refl) (metis distinct.simps(2) st)
    with t' t1 True st show ?thesis by (auto simp: fun_eq_iff)
  qed
qed simp

lemma vlist_flush_ok:
  assumes ok: "vl_ok cmp t" and d: "\<not> no_delete t"
  shows "\<exists>t'. vlist_flush t = Some t' \<and> vl_ok cmp t' \<and>
    vnodes t' = (\<lambda>p. if vlist_stale t p = Some True then None else vnodes t p)"
proof -
  have set: "set (list_head (vavl t)) = {(k, p). map_option fst (vnodes t p) = Some k}" and "distinct (list_head (vavl t))"
    using ok by (auto simp: vl_ok_def index_def avl_ok_def)
  then have "distinct (map snd (list_head (vavl t)))" by (auto simp: distinct_map inj_on_def)
  moreover have mem: "p \<in> set (map snd (list_head (vavl t))) \<longleftrightarrow> vnodes t p \<noteq> None" for p
    unfolding set_map set by (auto simp: image_iff)
  ultimately obtain t' where "vlist_flush t = Some t'" "vl_ok cmp t'"
      "vnodes t' = (\<lambda>p. if p \<in> set (map snd (list_head (vavl t))) \<and> vlist_stale t p = Some True then None else vnodes t p)"
    using vlist_flush_loop_ok [OF ok d, of "map snd (list_head (vavl t))"] unfolding vlist_flush_def by blast
  moreover have "vlist_stale t p = Some True \<Longrightarrow> vnodes t p \<noteq> None" for p by (cases "vnodes t p") (simp_all add: vlist_stale_def)
  ultimately show ?thesis using mem by (intro exI [of _ t']) (auto simp: fun_eq_iff)
qed

lemma vlist_reload_ok:
  assumes ok: "vl_ok cmp t" and fr: "\<forall>(node, key)\<in>set ns. vnodes t node = None" and d: "distinct (map fst ns)" "distinct (map snd ns)"
    and m: "\<not> keep_old t" "\<not> no_delete t" and v: "version t < 2 ^ 31 - 1" "version t + 1 \<noteq> -1"
    and o: "\<forall>p k w. vnodes t p = Some (k, w) \<longrightarrow> w \<le> version t"
  shows "\<exists>t'. vlist_reload cmp ns t = Some t' \<and> vl_ok cmp t' \<and>
    vnodes t' = (\<lambda>p. case map_of ns p of Some key \<Rightarrow> Some (key, version t + 1)
      | None \<Rightarrow> (case vnodes t p of Some (k, w) \<Rightarrow> if w = -1 \<and> k \<notin> snd ` set ns then Some (k, w) else None | None \<Rightarrow> None))"
proof -
  let ?t = "t\<lparr>version := version t + 1\<rparr>"
  have u: "vlist_update t = Some ?t" "vl_ok cmp ?t" using v ok by (simp_all add: vlist_update_def vl_ok_def)
  have p: "\<forall>(node, key)\<in>set ns. vnodes ?t node = None" "\<not> keep_old ?t" "\<not> no_delete ?t" using fr m by simp_all
  from vlist_adds_ok [OF u(2) p(1) d p(2,3)] obtain t1 where t1: "vlist_adds cmp ns ?t = Some t1" "vl_ok cmp t1"
      "version t1 = version ?t" "\<not> no_delete t1"
      "vnodes t1 = (\<lambda>p. case map_of ns p of Some key \<Rightarrow> Some (key, version ?t)
        | None \<Rightarrow> if map_option fst (vnodes ?t p) \<in> Some ` snd ` set ns then None else vnodes ?t p)"
    by blast
  from vlist_flush_ok [OF t1(2,4)] obtain t' where t': "vlist_flush t1 = Some t'" "vl_ok cmp t'"
      "vnodes t' = (\<lambda>p. if vlist_stale t1 p = Some True then None else vnodes t1 p)" by blast
  have "vnodes t' p = (case map_of ns p of Some key \<Rightarrow> Some (key, version t + 1)
      | None \<Rightarrow> (case vnodes t p of Some (k, w) \<Rightarrow> if w = -1 \<and> k \<notin> snd ` set ns then Some (k, w) else None | None \<Rightarrow> None))" for p
    using o v by (cases "map_of ns p"; cases "vnodes t p") (fastforce simp: t'(3) vlist_stale_def t1(3,5))+
  with u t1 t' show ?thesis by (auto simp: vlist_reload_def fun_eq_iff)
qed

end

section \<open>Properties\<close>

text \<open>
  C25: A reload leaves exactly the current nodes. On a valid list that replaces nodes (neither
  \<open>keep_old\<close> nor \<open>no_delete\<close>) and whose nodes have no later version than the list, \<open>vlist_update\<close>, then \<open>vlist_add\<close> for
  new nodes with different keys, then \<open>vlist_flush\<close> yields a valid list that holds the added nodes
  and, of the old ones, those with the version -1 whose keys were not added again; every other node is gone.
\<close>

theorem vlist_reload_exact:
  assumes "vl_ok avl_strcmp t" and "\<forall>(node, key)\<in>set ns. vnodes t node = None"
    and "distinct (map fst ns)" and "distinct (map snd ns)" and "\<not> keep_old t" and "\<not> no_delete t"
    and "version t < 2 ^ 31 - 1" and "version t + 1 \<noteq> -1"
    and "\<forall>p k w. vnodes t p = Some (k, w) \<longrightarrow> w \<le> version t"
  shows "\<exists>t'. vlist_reload avl_strcmp ns t = Some t' \<and> vl_ok avl_strcmp t' \<and>
    vnodes t' = (\<lambda>p. case map_of ns p of Some key \<Rightarrow> Some (key, version t + 1)
      | None \<Rightarrow> (case vnodes t p of Some (k, w) \<Rightarrow> if w = -1 \<and> k \<notin> snd ` set ns then Some (k, w) else None | None \<Rightarrow> None))"
  using assms by (rule strcmp_order.vlist_reload_ok)

definition sample_vlist :: "cstring vlist_tree" where
  "sample_vlist = \<lparr>vavl = \<lparr>list_head = [([97], 1)], root = leaf ([97], 1), count = 1, allow_dups = False, leader = (\<lambda>_. True)\<rparr>,
     keep_old = False, no_delete = False, version = 1, vnodes = [1 \<mapsto> ([97], 1)], calls = []\<rparr>"

lemma sample_vlist_ok: "vl_ok avl_strcmp sample_vlist"
  by (auto simp: vl_ok_def sample_vlist_def index_def avl_ok_def runs_def split: if_splits)

theorem vlist_reload_exact_witness:
  "\<exists>t'. vlist_reload avl_strcmp [(2, [98])] sample_vlist = Some t' \<and> vnodes t' 1 = None \<and> vnodes t' 2 = Some ([98], 2)"
proof -
  have "\<forall>(node, key)\<in>set [(2, [98])]. vnodes sample_vlist node = None" "\<not> keep_old sample_vlist" "\<not> no_delete sample_vlist"
    "version sample_vlist < 2 ^ 31 - 1" "version sample_vlist + 1 \<noteq> -1"
    "\<forall>p k w. vnodes sample_vlist p = Some (k, w) \<longrightarrow> w \<le> version sample_vlist"
    by (simp_all add: sample_vlist_def)
  from vlist_reload_exact [OF sample_vlist_ok this(1) _ _ this(2-6)] show ?thesis by (auto simp: sample_vlist_def)
qed

end
