(* ===== verification/Md5.thy ===== *)
theory Md5
  imports Prelude
begin

text \<open>
  The MD5 message digest (\<open>src/libubox/md5.c\<close>, \<open>md5.h\<close>).

  A context \<open>md5_ctx_t\<close> is a record of the counters, the four chaining words and the 64-byte buffer;
  the data of a caller is a byte block with an offset in place of a pointer, and \<open>None\<close> is an access
  outside a block. \<open>unsigned long\<close> and \<open>size_t\<close> have 64 bits. The reference is RFC 1321: its
  round functions, tables and padding, with no buffering.
\<close>

section \<open>The program\<close>

record md5_ctx =
  lo :: u32
  hi :: u32
  ca :: u32
  cb :: u32
  cc :: u32
  cd :: u32
  buffer :: "byte list"

type_synonym chain = "u32 \<times> u32 \<times> u32 \<times> u32"

definition F :: "u32 \<Rightarrow> u32 \<Rightarrow> u32 \<Rightarrow> u32" where
  "F x y z = z XOR (x AND (y XOR z))"

definition G :: "u32 \<Rightarrow> u32 \<Rightarrow> u32 \<Rightarrow> u32" where
  "G x y z = y XOR (z AND (x XOR y))"

definition H :: "u32 \<Rightarrow> u32 \<Rightarrow> u32 \<Rightarrow> u32" where
  "H x y z = (x XOR y) XOR z"

definition H2 :: "u32 \<Rightarrow> u32 \<Rightarrow> u32 \<Rightarrow> u32" where
  "H2 x y z = x XOR (y XOR z)"

definition I :: "u32 \<Rightarrow> u32 \<Rightarrow> u32 \<Rightarrow> u32" where
  "I x y z = y XOR (x OR NOT z)"

definition STEP :: "(u32 \<Rightarrow> u32 \<Rightarrow> u32 \<Rightarrow> u32) \<Rightarrow> u32 \<Rightarrow> u32 \<Rightarrow> u32 \<Rightarrow> u32 \<Rightarrow> u32 \<Rightarrow> u32 \<Rightarrow> nat \<Rightarrow> u32" where
  "STEP f a b c d x t s =
     (let a = a + (f b c d + x + t);
          a = push_bit s a OR drop_bit (32 - s) (a AND 0xffffffff)
      in a + b)"

text \<open>A little-endian word of the block at \<open>ptr\<close> (the macros \<open>SET\<close> and \<open>GET\<close>).\<close>

definition of_le32 :: "byte \<Rightarrow> byte \<Rightarrow> byte \<Rightarrow> byte \<Rightarrow> u32" where
  "of_le32 p q r s = ucast p OR push_bit 8 (ucast q) OR push_bit 16 (ucast r) OR push_bit 24 (ucast s)"

definition GET :: "byte list \<Rightarrow> nat \<Rightarrow> nat \<Rightarrow> u32" where
  "GET m ptr n = of_le32 (m ! (ptr + n * 4)) (m ! (ptr + n * 4 + 1)) (m ! (ptr + n * 4 + 2)) (m ! (ptr + n * 4 + 3))"

definition round1 :: "(nat \<Rightarrow> u32) \<Rightarrow> chain \<Rightarrow> chain" where
  "round1 X st = (case st of (a, b, c, d) \<Rightarrow>
     let a = STEP F a b c d (X 0) 0xd76aa478 7 in
     let d = STEP F d a b c (X 1) 0xe8c7b756 12 in
     let c = STEP F c d a b (X 2) 0x242070db 17 in
     let b = STEP F b c d a (X 3) 0xc1bdceee 22 in
     let a = STEP F a b c d (X 4) 0xf57c0faf 7 in
     let d = STEP F d a b c (X 5) 0x4787c62a 12 in
     let c = STEP F c d a b (X 6) 0xa8304613 17 in
     let b = STEP F b c d a (X 7) 0xfd469501 22 in
     let a = STEP F a b c d (X 8) 0x698098d8 7 in
     let d = STEP F d a b c (X 9) 0x8b44f7af 12 in
     let c = STEP F c d a b (X 10) 0xffff5bb1 17 in
     let b = STEP F b c d a (X 11) 0x895cd7be 22 in
     let a = STEP F a b c d (X 12) 0x6b901122 7 in
     let d = STEP F d a b c (X 13) 0xfd987193 12 in
     let c = STEP F c d a b (X 14) 0xa679438e 17 in
     let b = STEP F b c d a (X 15) 0x49b40821 22 in
     (a, b, c, d))"

definition round2 :: "(nat \<Rightarrow> u32) \<Rightarrow> chain \<Rightarrow> chain" where
  "round2 X st = (case st of (a, b, c, d) \<Rightarrow>
     let a = STEP G a b c d (X 1) 0xf61e2562 5 in
     let d = STEP G d a b c (X 6) 0xc040b340 9 in
     let c = STEP G c d a b (X 11) 0x265e5a51 14 in
     let b = STEP G b c d a (X 0) 0xe9b6c7aa 20 in
     let a = STEP G a b c d (X 5) 0xd62f105d 5 in
     let d = STEP G d a b c (X 10) 0x02441453 9 in
     let c = STEP G c d a b (X 15) 0xd8a1e681 14 in
     let b = STEP G b c d a (X 4) 0xe7d3fbc8 20 in
     let a = STEP G a b c d (X 9) 0x21e1cde6 5 in
     let d = STEP G d a b c (X 14) 0xc33707d6 9 in
     let c = STEP G c d a b (X 3) 0xf4d50d87 14 in
     let b = STEP G b c d a (X 8) 0x455a14ed 20 in
     let a = STEP G a b c d (X 13) 0xa9e3e905 5 in
     let d = STEP G d a b c (X 2) 0xfcefa3f8 9 in
     let c = STEP G c d a b (X 7) 0x676f02d9 14 in
     let b = STEP G b c d a (X 12) 0x8d2a4c8a 20 in
     (a, b, c, d))"

definition round3 :: "(nat \<Rightarrow> u32) \<Rightarrow> chain \<Rightarrow> chain" where
  "round3 X st = (case st of (a, b, c, d) \<Rightarrow>
     let a = STEP H a b c d (X 5) 0xfffa3942 4 in
     let d = STEP H2 d a b c (X 8) 0x8771f681 11 in
     let c = STEP H c d a b (X 11) 0x6d9d6122 16 in
     let b = STEP H2 b c d a (X 14) 0xfde5380c 23 in
     let a = STEP H a b c d (X 1) 0xa4beea44 4 in
     let d = STEP H2 d a b c (X 4) 0x4bdecfa9 11 in
     let c = STEP H c d a b (X 7) 0xf6bb4b60 16 in
     let b = STEP H2 b c d a (X 10) 0xbebfbc70 23 in
     let a = STEP H a b c d (X 13) 0x289b7ec6 4 in
     let d = STEP H2 d a b c (X 0) 0xeaa127fa 11 in
     let c = STEP H c d a b (X 3) 0xd4ef3085 16 in
     let b = STEP H2 b c d a (X 6) 0x04881d05 23 in
     let a = STEP H a b c d (X 9) 0xd9d4d039 4 in
     let d = STEP H2 d a b c (X 12) 0xe6db99e5 11 in
     let c = STEP H c d a b (X 15) 0x1fa27cf8 16 in
     let b = STEP H2 b c d a (X 2) 0xc4ac5665 23 in
     (a, b, c, d))"

definition round4 :: "(nat \<Rightarrow> u32) \<Rightarrow> chain \<Rightarrow> chain" where
  "round4 X st = (case st of (a, b, c, d) \<Rightarrow>
     let a = STEP I a b c d (X 0) 0xf4292244 6 in
     let d = STEP I d a b c (X 7) 0x432aff97 10 in
     let c = STEP I c d a b (X 14) 0xab9423a7 15 in
     let b = STEP I b c d a (X 5) 0xfc93a039 21 in
     let a = STEP I a b c d (X 12) 0x655b59c3 6 in
     let d = STEP I d a b c (X 3) 0x8f0ccc92 10 in
     let c = STEP I c d a b (X 10) 0xffeff47d 15 in
     let b = STEP I b c d a (X 1) 0x85845dd1 21 in
     let a = STEP I a b c d (X 8) 0x6fa87e4f 6 in
     let d = STEP I d a b c (X 15) 0xfe2ce6e0 10 in
     let c = STEP I c d a b (X 6) 0xa3014314 15 in
     let b = STEP I b c d a (X 13) 0x4e0811a1 21 in
     let a = STEP I a b c d (X 4) 0xf7537e82 6 in
     let d = STEP I d a b c (X 11) 0xbd3af235 10 in
     let c = STEP I c d a b (X 2) 0x2ad7d2bb 15 in
     let b = STEP I b c d a (X 9) 0xeb86d391 21 in
     (a, b, c, d))"

text \<open>The loop of \<open>body\<close>: all of the 64 bytes of a block are read, so the block has to lie in the memory.\<close>

function body_loop :: "byte list \<Rightarrow> nat \<Rightarrow> u64 \<Rightarrow> chain \<Rightarrow> (nat \<times> chain) option" where
  "body_loop m ptr sz (a, b, c, d) =
     (if ptr + 64 \<le> length m
      then let (a', b', c', d') = round4 (GET m ptr) (round3 (GET m ptr) (round2 (GET m ptr) (round1 (GET m ptr) (a, b, c, d))));
               st = (a' + a, b' + b, c' + c, d' + d);
               ptr = ptr + 64;
               sz = sz - 64
           in if sz \<noteq> 0 then body_loop m ptr sz st else Some (ptr, st)
      else None)"
  by pat_completeness auto
termination by (relation "measure (\<lambda>(m, ptr, sz, st). length m - ptr)") auto

definition body :: "md5_ctx \<Rightarrow> byte list \<Rightarrow> nat \<Rightarrow> u64 \<Rightarrow> (nat \<times> md5_ctx) option" where
  "body ctx m ptr sz = do {
     (ptr, a, b, c, d) \<leftarrow> body_loop m ptr sz (ca ctx, cb ctx, cc ctx, cd ctx);
     Some (ptr, ctx\<lparr>ca := a, cb := b, cc := c, cd := d\<rparr>)
   }"

definition md5_begin :: "md5_ctx \<Rightarrow> md5_ctx" where
  "md5_begin ctx = ctx\<lparr>ca := 0x67452301, cb := 0xefcdab89, cc := 0x98badcfe, cd := 0x10325476, lo := 0, hi := 0\<rparr>"

text \<open>\<open>md5_hash\<close> after the buffer has been filled up: whole blocks from the data, the rest into the buffer.\<close>

definition md5_hash_blocks :: "byte list \<Rightarrow> nat \<Rightarrow> u64 \<Rightarrow> md5_ctx \<Rightarrow> md5_ctx option" where
  "md5_hash_blocks m data sz ctx = do {
     (data, sz, ctx) \<leftarrow>
       (if sz \<ge> 64 then do {
          (data, ctx) \<leftarrow> body ctx m data (sz AND NOT 0x3f);
          Some (data, sz AND 0x3f, ctx)
        } else Some (data, sz, ctx));
     bs \<leftarrow> mem_read m data (unat sz);
     buf \<leftarrow> mem_write (buffer ctx) 0 bs;
     Some (ctx\<lparr>buffer := buf\<rparr>)
   }"

definition md5_hash :: "byte list \<Rightarrow> u64 \<Rightarrow> md5_ctx \<Rightarrow> md5_ctx option" where
  "md5_hash m sz ctx = (
     let saved_lo = lo ctx;
         ctx = ctx\<lparr>lo := ucast ((ucast saved_lo + sz) AND 0x1fffffff)\<rparr>;
         ctx = (if lo ctx < saved_lo then ctx\<lparr>hi := hi ctx + 1\<rparr> else ctx);
         ctx = ctx\<lparr>hi := ucast (ucast (hi ctx) + drop_bit 29 sz)\<rparr>;
         used = (ucast (saved_lo AND 0x3f) :: u64)
     in if used \<noteq> 0 then
          let available = 64 - used in
          if sz < available then do {
            bs \<leftarrow> mem_read m 0 (unat sz);
            buf \<leftarrow> mem_write (buffer ctx) (unat used) bs;
            Some (ctx\<lparr>buffer := buf\<rparr>)
          } else do {
            bs \<leftarrow> mem_read m 0 (unat available);
            buf \<leftarrow> mem_write (buffer ctx) (unat used) bs;
            (_, ctx) \<leftarrow> body (ctx\<lparr>buffer := buf\<rparr>) buf 0 64;
            md5_hash_blocks m (unat available) (sz - available) ctx
          }
        else md5_hash_blocks m 0 sz ctx)"

text \<open>The bytes of a word in the order in which \<open>md5_end\<close> stores them.\<close>

definition le32 :: "u32 \<Rightarrow> byte list" where
  "le32 w = [ucast w, ucast (drop_bit 8 w), ucast (drop_bit 16 w), ucast (drop_bit 24 w)]"

definition md5_end :: "byte list \<Rightarrow> md5_ctx \<Rightarrow> (byte list \<times> md5_ctx) option" where
  "md5_end resbuf ctx = do {
     let used = unat (lo ctx AND 0x3f);
     buf \<leftarrow> mem_write (buffer ctx) used [0x80];
     let used = used + 1;
     let available = 64 - used;
     let ctx = ctx\<lparr>buffer := buf\<rparr>;
     (used, available, ctx) \<leftarrow>
       (if available < 8 then do {
          buf \<leftarrow> mem_write (buffer ctx) used (replicate available 0);
          (_, ctx) \<leftarrow> body (ctx\<lparr>buffer := buf\<rparr>) buf 0 64;
          Some (0, 64, ctx)
        } else Some (used, available, ctx));
     buf \<leftarrow> mem_write (buffer ctx) used (replicate (available - 8) 0);
     let ctx = ctx\<lparr>lo := push_bit 3 (lo ctx)\<rparr>;
     buf \<leftarrow> mem_write buf 56 (le32 (lo ctx));
     buf \<leftarrow> mem_write buf 60 (le32 (hi ctx));
     (_, ctx) \<leftarrow> body (ctx\<lparr>buffer := buf\<rparr>) buf 0 64;
     result \<leftarrow> mem_write resbuf 0 (le32 (ca ctx) @ le32 (cb ctx) @ le32 (cc ctx) @ le32 (cd ctx));
     Some (result, \<lparr>lo = 0, hi = 0, ca = 0, cb = 0, cc = 0, cd = 0, buffer = replicate 64 0\<rparr>)
   }"

text \<open>
  \<open>md5sum\<close>: the file is the sequence of the results of \<open>fread\<close> (\<open>None\<close> when \<open>fopen\<close> fails), the
  context and the result buffer have arbitrary contents. An overflow of \<open>ret\<close> is undefined.
\<close>

fun md5sum_loop :: "byte list list \<Rightarrow> int \<Rightarrow> md5_ctx \<Rightarrow> (int \<times> md5_ctx) option" where
  "md5sum_loop [] ret ctx = Some (ret, ctx)"
| "md5sum_loop (buf # reads) ret ctx =
     (if length buf = 0 then Some (ret, ctx)
      else do {
        ctx \<leftarrow> md5_hash buf (word_of_nat (length buf)) ctx;
        if ret + int (length buf) < 2 ^ 31 then md5sum_loop reads (ret + int (length buf)) ctx else None
      })"

definition md5sum :: "byte list list option \<Rightarrow> byte list \<Rightarrow> md5_ctx \<Rightarrow> (int \<times> byte list) option" where
  "md5sum file md5_buf ctx = (case file of
     None \<Rightarrow> Some (-1, md5_buf)
   | Some reads \<Rightarrow> do {
       (ret, ctx) \<leftarrow> md5sum_loop reads 0 (md5_begin ctx);
       (md5_buf, ctx) \<leftarrow> md5_end md5_buf ctx;
       Some (ret, md5_buf)
     })"

section \<open>The reference\<close>

text \<open>RFC 1321, section 3.4: the round functions, the word each step reads, its rotation and its constant.\<close>

definition rfc_fun :: "nat \<Rightarrow> u32 \<Rightarrow> u32 \<Rightarrow> u32 \<Rightarrow> u32" where
  "rfc_fun i x y z =
     (if i < 16 then (x AND y) OR (NOT x AND z)
      else if i < 32 then (x AND z) OR (y AND NOT z)
      else if i < 48 then x XOR y XOR z
      else y XOR (x OR NOT z))"

definition rfc_word :: "nat \<Rightarrow> nat" where
  "rfc_word i =
     (if i < 16 then i else if i < 32 then (5 * i + 1) mod 16 else if i < 48 then (3 * i + 5) mod 16 else 7 * i mod 16)"

definition rfc_shift :: "nat \<Rightarrow> nat" where
  "rfc_shift i =
     (if i < 16 then [7, 12, 17, 22] else if i < 32 then [5, 9, 14, 20] else if i < 48 then [4, 11, 16, 23] else [6, 10, 15, 21])
       ! (i mod 4)"

definition rfc_T :: "u32 list" where
  "rfc_T = [
     0xd76aa478, 0xe8c7b756, 0x242070db, 0xc1bdceee, 0xf57c0faf, 0x4787c62a, 0xa8304613, 0xfd469501,
     0x698098d8, 0x8b44f7af, 0xffff5bb1, 0x895cd7be, 0x6b901122, 0xfd987193, 0xa679438e, 0x49b40821,
     0xf61e2562, 0xc040b340, 0x265e5a51, 0xe9b6c7aa, 0xd62f105d, 0x02441453, 0xd8a1e681, 0xe7d3fbc8,
     0x21e1cde6, 0xc33707d6, 0xf4d50d87, 0x455a14ed, 0xa9e3e905, 0xfcefa3f8, 0x676f02d9, 0x8d2a4c8a,
     0xfffa3942, 0x8771f681, 0x6d9d6122, 0xfde5380c, 0xa4beea44, 0x4bdecfa9, 0xf6bb4b60, 0xbebfbc70,
     0x289b7ec6, 0xeaa127fa, 0xd4ef3085, 0x04881d05, 0xd9d4d039, 0xe6db99e5, 0x1fa27cf8, 0xc4ac5665,
     0xf4292244, 0x432aff97, 0xab9423a7, 0xfc93a039, 0x655b59c3, 0x8f0ccc92, 0xffeff47d, 0x85845dd1,
     0x6fa87e4f, 0xfe2ce6e0, 0xa3014314, 0x4e0811a1, 0xf7537e82, 0xbd3af235, 0x2ad7d2bb, 0xeb86d391]"

definition rfc_step :: "(nat \<Rightarrow> u32) \<Rightarrow> chain \<Rightarrow> nat \<Rightarrow> chain" where
  "rfc_step X st i = (case st of (a, b, c, d) \<Rightarrow>
     (d, b + word_rotl (rfc_shift i) (a + rfc_fun i b c d + X (rfc_word i) + rfc_T ! i), b, c))"

definition rfc_block :: "chain \<Rightarrow> byte list \<Rightarrow> chain" where
  "rfc_block st bs = (case (st, foldl (rfc_step (GET bs 0)) st [0..<64]) of
     ((a, b, c, d), (a', b', c', d')) \<Rightarrow> (a' + a, b' + b, c' + c, d' + d))"

fun rfc_blocks :: "chain \<Rightarrow> byte list \<Rightarrow> chain" where
  "rfc_blocks st bs = (if length bs < 64 then st else rfc_blocks (rfc_block st (take 64 bs)) (drop 64 bs))"

declare rfc_blocks.simps [simp del]

text \<open>Section 3.1 and 3.2: a one bit, zeros, and the number of bits modulo \<open>2 ^ 64\<close>.\<close>

definition rfc_pad :: "byte list \<Rightarrow> byte list" where
  "rfc_pad msg = msg @ [0x80] @ replicate ((119 - length msg mod 64) mod 64) 0 @
     le32 (word_of_nat (8 * length msg)) @ le32 (word_of_nat (8 * length msg div 2 ^ 32))"

definition rfc_md5 :: "byte list \<Rightarrow> byte list" where
  "rfc_md5 msg = (case rfc_blocks (0x67452301, 0xefcdab89, 0x98badcfe, 0x10325476) (rfc_pad msg) of
     (a, b, c, d) \<Rightarrow> le32 a @ le32 b @ le32 c @ le32 d)"

section \<open>Bits and steps\<close>

declare body_loop.simps [simp del]

lemma F_rfc: "F x y z = (x AND y) OR (NOT x AND z)"
  unfolding F_def by (rule bit_word_eqI) (auto simp: bit_simps)

lemma G_rfc: "G x y z = (x AND z) OR (y AND NOT z)"
  unfolding G_def by (rule bit_word_eqI) (auto simp: bit_simps)

lemma and_all_ones: "(a :: u32) AND 0xffffffff = a"
proof -
  have "(0xffffffff :: u32) = - 1" by simp
  then show ?thesis by (metis bit.conj_one_right)
qed

lemma rotl_shift:
  assumes "0 < s" and "s < 32"
  shows "push_bit s a OR drop_bit (32 - s) a = word_rotl s (a :: u32)"
proof (rule bit_word_eqI)
  fix n
  assume "n < LENGTH(32)"
  then have n: "n < 32" by simp
  have b: "\<not> bit a k" if "32 \<le> k" for k using that bit_imp_le_length [of a k] by auto
  have "bit (word_rotl s a) n = bit a ((n + (32 - s)) mod 32)"
    using n assms by (simp only: bit_word_rotl_iff) simp
  moreover have "(n + (32 - s)) mod 32 = (if n < s then n + (32 - s) else n - s)"
    using n assms by (auto simp: mod_if)
  moreover have "bit (push_bit s a OR drop_bit (32 - s) a) n = (s \<le> n \<and> bit a (n - s) \<or> bit a (32 - s + n))"
    using n by (simp only: bit_or_iff bit_push_bit_iff bit_drop_bit_eq o_def) simp
  ultimately show "bit (push_bit s a OR drop_bit (32 - s) a) n = bit (word_rotl s a) n"
    using assms b [of "32 - s + n"] by (auto simp: add.commute)
qed

lemma STEP_rfc:
  "0 < s \<Longrightarrow> s < 32 \<Longrightarrow> STEP f a b c d x t s = b + word_rotl s (a + f b c d + x + t)"
  unfolding STEP_def by (simp add: rotl_shift and_all_ones Let_def ac_simps)

lemma foldl_rfc_step:
  "foldl (rfc_step X) (a, b, c, d) (i # is) =
     (let v = b + word_rotl (rfc_shift i) (a + rfc_fun i b c d + X (rfc_word i) + rfc_T ! i)
      in foldl (rfc_step X) (d, v, b, c) is)"
  by (simp add: rfc_step_def)

lemma Let_eqI: "x = y \<Longrightarrow> (\<And>v. f v = g v) \<Longrightarrow> Let x f = Let y g"
  by simp

lemmas rfc_eval = STEP_rfc rfc_shift_def rfc_fun_def rfc_word_def rfc_T_def F_rfc G_rfc H_def H2_def I_def xor.assoc

lemma round1_rfc: "round1 X (a, b, c, d) = foldl (rfc_step X) (a, b, c, d) [0, 1, 2, 3, 4, 5, 6, 7, 8, 9, 10, 11, 12, 13, 14, 15]"
  unfolding round1_def prod.case
  by ((subst foldl_rfc_step, rule Let_eqI, simp add: rfc_eval)+, simp)

lemma round2_rfc: "round2 X (a, b, c, d) = foldl (rfc_step X) (a, b, c, d) [16, 17, 18, 19, 20, 21, 22, 23, 24, 25, 26, 27, 28, 29, 30, 31]"
  unfolding round2_def prod.case
  by ((subst foldl_rfc_step, rule Let_eqI, simp add: rfc_eval)+, simp)

lemma round3_rfc: "round3 X (a, b, c, d) = foldl (rfc_step X) (a, b, c, d) [32, 33, 34, 35, 36, 37, 38, 39, 40, 41, 42, 43, 44, 45, 46, 47]"
  unfolding round3_def prod.case
  by ((subst foldl_rfc_step, rule Let_eqI, simp add: rfc_eval)+, simp)

lemma round4_rfc: "round4 X (a, b, c, d) = foldl (rfc_step X) (a, b, c, d) [48, 49, 50, 51, 52, 53, 54, 55, 56, 57, 58, 59, 60, 61, 62, 63]"
  unfolding round4_def prod.case
  by ((subst foldl_rfc_step, rule Let_eqI, simp add: rfc_eval)+, simp)

lemma rounds_rfc:
  "round4 X (round3 X (round2 X (round1 X st))) = foldl (rfc_step X) st [0..<64]"
proof -
  have *: "[0..<64] = [0, 1, 2, 3, 4, 5, 6, 7, 8, 9, 10, 11, 12, 13, 14, 15] @ [16, 17, 18, 19, 20, 21, 22, 23, 24, 25, 26, 27, 28, 29, 30, 31]
     @ [32, 33, 34, 35, 36, 37, 38, 39, 40, 41, 42, 43, 44, 45, 46, 47] @ [48, 49, 50, 51, 52, 53, 54, 55, 56, 57, 58, 59, 60, 61, 62, 63]"
    by code_simp
  have all: "round1 X st = foldl (rfc_step X) st [0, 1, 2, 3, 4, 5, 6, 7, 8, 9, 10, 11, 12, 13, 14, 15]"
    "round2 X st = foldl (rfc_step X) st [16, 17, 18, 19, 20, 21, 22, 23, 24, 25, 26, 27, 28, 29, 30, 31]"
    "round3 X st = foldl (rfc_step X) st [32, 33, 34, 35, 36, 37, 38, 39, 40, 41, 42, 43, 44, 45, 46, 47]"
    "round4 X st = foldl (rfc_step X) st [48, 49, 50, 51, 52, 53, 54, 55, 56, 57, 58, 59, 60, 61, 62, 63]" for st
    using round1_rfc round2_rfc round3_rfc round4_rfc by (cases st, simp only: prod.case)+
  show ?thesis by (simp only: * foldl_append all)
qed

section \<open>Blocks\<close>

lemma GET_take: "n < 16 \<Longrightarrow> ptr + 64 \<le> length m \<Longrightarrow> GET m ptr n = GET (take 64 (drop ptr m)) 0 n"
  by (simp add: GET_def ac_simps)

lemma rfc_word_less: "rfc_word i < 16 \<or> 64 \<le> i"
  by (auto simp: rfc_word_def)

lemma foldl_rfc_cong:
  assumes "\<And>n. n < 16 \<Longrightarrow> X n = Y n" and "\<And>i. i \<in> set is \<Longrightarrow> i < 64"
  shows "foldl (rfc_step X) st is = foldl (rfc_step Y) st is"
  using assms(2)
proof (induction "is" arbitrary: st)
  case (Cons i "is")
  then have "i < 64" by simp
  then have "rfc_step X st i = rfc_step Y st i"
    using assms(1) [of "rfc_word i"] rfc_word_less [of i] by (auto simp: rfc_step_def)
  with Cons show ?case by simp
qed simp

lemma body_loop_step:
  "body_loop m ptr n st =
     (if ptr + 64 \<le> length m
      then let st = rfc_block st (take 64 (drop ptr m))
           in if n - 64 \<noteq> 0 then body_loop m (ptr + 64) (n - 64) st else Some (ptr + 64, st)
      else None)"
proof (cases st)
  case (fields a b c d)
  have "foldl (rfc_step (GET m ptr)) st [0..<64] = foldl (rfc_step (GET (take 64 (drop ptr m)) 0)) st [0..<64]"
    if "ptr + 64 \<le> length m"
    by (rule foldl_rfc_cong) (use that in \<open>auto intro: GET_take\<close>)
  then show ?thesis
    unfolding fields body_loop.simps rounds_rfc by (auto simp: rfc_block_def Let_def split: prod.split)
qed

lemma rfc_blocks_append:
  "64 dvd length xs \<Longrightarrow> rfc_blocks st (xs @ ys) = rfc_blocks (rfc_blocks st xs) ys"
proof (induction st xs rule: rfc_blocks.induct)
  case (1 st xs)
  show ?case
  proof (cases "length xs < 64")
    case True
    with 1(2) have "xs = []" by auto
    then show ?thesis by (simp add: rfc_blocks.simps [of st "[]"])
  next
    case False
    with 1 have "rfc_blocks (rfc_block st (take 64 xs)) (drop 64 xs @ ys) = rfc_blocks (rfc_blocks (rfc_block st (take 64 xs)) (drop 64 xs)) ys"
      by simp
    moreover from False have "rfc_blocks st xs = rfc_blocks (rfc_block st (take 64 xs)) (drop 64 xs)"
      by (subst rfc_blocks.simps) simp
    moreover from False have "rfc_blocks st (xs @ ys) = rfc_blocks (rfc_block st (take 64 xs)) (drop 64 xs @ ys)"
      by (subst rfc_blocks.simps) simp
    ultimately show ?thesis by simp
  qed
qed

lemma rfc_blocks_short: "length xs < 64 \<Longrightarrow> rfc_blocks st xs = st"
  by (subst rfc_blocks.simps) simp

lemma rfc_blocks_one: "length xs = 64 \<Longrightarrow> rfc_blocks st xs = rfc_block st xs"
  by (subst rfc_blocks.simps) (simp add: rfc_blocks_short)

lemma rfc_blocks_prefix:
  "64 dvd length xs \<Longrightarrow> length ys < 64 \<Longrightarrow> rfc_blocks st (xs @ ys) = rfc_blocks st xs"
  by (simp add: rfc_blocks_append rfc_blocks_short)

lemma body_loop_blocks:
  assumes "64 dvd unat n" and "0 < unat n" and "ptr + unat n \<le> length m"
  shows "body_loop m ptr n st = Some (ptr + unat n, rfc_blocks st (take (unat n) (drop ptr m)))"
  using assms
proof (induction "unat n" arbitrary: n ptr st rule: less_induct)
  case less
  then have ge: "64 \<le> unat n" by (auto dest: dvd_imp_le)
  then have n': "unat (n - 64) = unat n - 64" by (simp add: unat_sub word_le_nat_alt)
  show ?case
  proof (cases "n - 64 = 0")
    case True
    with n' ge have "unat n = 64" by simp
    with True less show ?thesis by (subst body_loop_step) (simp add: rfc_blocks_one)
  next
    case False
    with n' have "0 < unat n - 64" by (metis unat_eq_zero neq0_conv)
    then have pos: "64 < unat n" by simp
    let ?st = "rfc_block st (take 64 (drop ptr m))"
    have "body_loop m (ptr + 64) (n - 64) ?st = Some (ptr + 64 + unat (n - 64), rfc_blocks ?st (take (unat (n - 64)) (drop (ptr + 64) m)))"
      by (rule less.hyps) (use less.prems n' pos in \<open>auto simp: dvd_minus_self\<close>)
    moreover have "rfc_blocks st (take (unat n) (drop ptr m)) = rfc_blocks ?st (take (unat n - 64) (drop (ptr + 64) m))"
      using ge less.prems by (subst rfc_blocks.simps) (simp add: drop_take add.commute)
    ultimately show ?thesis using False less.prems ge n' by (subst body_loop_step) simp
  qed
qed

definition chain :: "md5_ctx \<Rightarrow> chain" where
  "chain ctx = (ca ctx, cb ctx, cc ctx, cd ctx)"

definition set_chain :: "chain \<Rightarrow> md5_ctx \<Rightarrow> md5_ctx" where
  "set_chain st ctx = (case st of (a, b, c, d) \<Rightarrow> ctx\<lparr>ca := a, cb := b, cc := c, cd := d\<rparr>)"

lemma set_chain_sel [simp]:
  "chain (set_chain st ctx) = st" "lo (set_chain st ctx) = lo ctx" "hi (set_chain st ctx) = hi ctx"
  "buffer (set_chain st ctx) = buffer ctx"
  by (auto simp: set_chain_def chain_def split: prod.split)

lemma chain_update [simp]:
  "chain (ctx\<lparr>lo := l\<rparr>) = chain ctx" "chain (ctx\<lparr>hi := h\<rparr>) = chain ctx" "chain (ctx\<lparr>buffer := bs\<rparr>) = chain ctx"
  by (simp_all add: chain_def)

lemma body_blocks:
  assumes "64 dvd unat n" and "0 < unat n" and "ptr + unat n \<le> length m"
  shows "body ctx m ptr n = Some (ptr + unat n, set_chain (rfc_blocks (chain ctx) (take (unat n) (drop ptr m))) ctx)"
  using body_loop_blocks [OF assms] by (auto simp: body_def set_chain_def chain_def split: prod.splits)

lemma body_one:
  "length m = 64 \<Longrightarrow> body ctx m 0 64 = Some (64, set_chain (rfc_block (chain ctx) m) ctx)"
  using body_blocks [of 64 0 m ctx] by (simp add: rfc_blocks_one)

section \<open>Buffering\<close>

text \<open>A context stands for the message hashed so far.\<close>

definition md5_rep :: "md5_ctx \<Rightarrow> byte list \<Rightarrow> bool" where
  "md5_rep ctx msg \<longleftrightarrow>
     length (buffer ctx) = 64 \<and> unat (lo ctx) = length msg mod 2 ^ 29 \<and> hi ctx = word_of_nat (length msg div 2 ^ 29) \<and>
     chain ctx = rfc_blocks (0x67452301, 0xefcdab89, 0x98badcfe, 0x10325476) msg \<and>
     take (length msg mod 64) (buffer ctx) = drop (length msg - length msg mod 64) msg"

lemma md5_begin_rep: "length (buffer ctx) = 64 \<Longrightarrow> md5_rep (md5_begin ctx) []"
  by (simp add: md5_rep_def md5_begin_def chain_def rfc_blocks_short)

lemma unat_low_bits:
  "unat ((x :: u64) AND 0x3f) = unat x mod 64" "unat ((y :: u32) AND 0x3f) = unat y mod 64"
  "unat (x AND 0x1fffffff) = unat x mod 2 ^ 29"
proof -
  have "x AND 0x3f = take_bit 6 x" "y AND 0x3f = take_bit 6 y" "x AND 0x1fffffff = take_bit 29 x"
    by (simp_all add: take_bit_eq_mask mask_eq_exp_minus_1)
  then show "unat (x AND 0x3f) = unat x mod 64" "unat (y AND 0x3f) = unat y mod 64" "unat (x AND 0x1fffffff) = unat x mod 2 ^ 29"
    by (simp_all only: unat_take_bit) simp_all
qed

lemma unat_and_not_3f: "unat ((x :: u64) AND NOT 0x3f) = unat x - unat x mod 64"
proof -
  have "x AND NOT m = x - (x AND m)" for m
  proof -
    have "x - (x AND m) = x AND NOT (x AND m)" by (rule disjunctive_diff) (simp add: bit_and_iff)
    also have "\<dots> = x AND NOT m" by (rule bit_word_eqI) (auto simp: bit_and_iff bit_or_iff bit_not_iff)
    finally show ?thesis by (rule sym)
  qed
  then have "x AND NOT 0x3f = x - (x AND 0x3f)" .
  moreover have "x AND 0x3f \<le> x" by (simp add: word_le_nat_alt unat_low_bits)
  ultimately show ?thesis by (simp add: unat_sub unat_low_bits)
qed

lemma md5_repI:
  assumes "length (buffer ctx) = 64" "unat (lo ctx) = length msg mod 2 ^ 29" "hi ctx = word_of_nat (length msg div 2 ^ 29)"
    and "msg = xs @ ys" "64 dvd length xs" "length ys < 64"
    "chain ctx = rfc_blocks (0x67452301, 0xefcdab89, 0x98badcfe, 0x10325476) xs" "take (length ys) (buffer ctx) = ys"
  shows "md5_rep ctx msg"
  using assms by (auto simp: md5_rep_def mod_add_eq [symmetric, of "length xs"] rfc_blocks_prefix)

lemma md5_repE:
  assumes "md5_rep ctx msg"
  obtains xs ys where "msg = xs @ ys" "64 dvd length xs" "length ys = length msg mod 64"
    "chain ctx = rfc_blocks (0x67452301, 0xefcdab89, 0x98badcfe, 0x10325476) xs" "take (length ys) (buffer ctx) = ys"
proof -
  let ?k = "length msg - length msg mod 64"
  have "msg = take ?k msg @ drop ?k msg" "64 dvd length (take ?k msg)" "length (drop ?k msg) = length msg mod 64"
    by simp_all
  moreover from this have "rfc_blocks st msg = rfc_blocks st (take ?k msg)" for st
    using rfc_blocks_prefix [of "take ?k msg" "drop ?k msg" st] by simp
  ultimately show thesis using assms that [of "take ?k msg" "drop ?k msg"] by (simp add: md5_rep_def)
qed

lemma md5_hash_blocks_ok:
  assumes "length (buffer ctx) = 64" and m: "data + unat n = length m"
  obtains ctx' xs ys where "md5_hash_blocks m data n ctx = Some ctx'" "length (buffer ctx') = 64" "lo ctx' = lo ctx" "hi ctx' = hi ctx"
    "drop data m = xs @ ys" "64 dvd length xs" "length ys < 64" "chain ctx' = rfc_blocks (chain ctx) xs"
    "take (length ys) (buffer ctx') = ys"
proof -
  define r where "r = unat n mod 64"
  define k where "k = unat n - r"
  have r: "r < 64" "r \<le> unat n" "64 dvd k" by (simp_all add: r_def k_def)
  define ctx1 where "ctx1 = set_chain (rfc_blocks (chain ctx) (take k (drop data m))) ctx"
  have 1: "(if n \<ge> 64 then do {
          (data, ctx) \<leftarrow> body ctx m data (n AND NOT 0x3f);
          Some (data, n AND 0x3f, ctx)
        } else Some (data, n, ctx)) = Some (data + k, word_of_nat r, ctx1)"
  proof (cases "n \<ge> 64")
    case True
    then have "64 \<le> unat n" by (simp add: word_le_nat_alt)
    then have "0 < k" using r by (simp add: k_def)
    have k: "unat (n AND NOT 0x3f) = k" by (simp only: unat_and_not_3f k_def r_def)
    have "n AND 0x3f = word_of_nat r" by (rule word_eq_of_unat) (simp add: unat_low_bits r_def)
    with True body_blocks [of "n AND NOT 0x3f" data m ctx] k r m \<open>0 < k\<close> show ?thesis
      by (simp add: ctx1_def k_def)
  next
    case False
    then have "unat n < 64" by (simp add: word_le_nat_alt not_le)
    then have "r = unat n" "k = 0" by (simp_all add: r_def k_def)
    then show ?thesis using False by (simp add: ctx1_def rfc_blocks_short set_chain_def chain_def)
  qed
  have rn: "unat (word_of_nat r :: u64) = r" using r by (simp add: unat_of_nat)
  have len: "data + k + r = length m" using m r by (simp add: k_def)
  have res: "md5_hash_blocks m data n ctx = Some (ctx1\<lparr>buffer := drop (data + k) m @ drop r (buffer ctx)\<rparr>)"
  proof -
    have "length (drop (data + k) m) = r" using len by simp
    then have "mem_read m (data + k) r = Some (drop (data + k) m)"
      "mem_write (buffer ctx) 0 (drop (data + k) m) = Some (drop (data + k) m @ drop r (buffer ctx))"
      using len r assms(1) by (simp_all add: mem_read_def mem_write_def)
    then show ?thesis unfolding md5_hash_blocks_def 1 by (simp add: rn ctx1_def)
  qed
  define xs ys where "xs = take k (drop data m)" and "ys = drop (data + k) m"
  have "length xs = k" "length ys = r" using len by (simp_all add: xs_def ys_def)
  moreover have "drop data m = xs @ ys" unfolding xs_def ys_def by (metis append_take_drop_id drop_drop add.commute)
  moreover note res [folded ys_def]
  ultimately show thesis
    using assms(1) r by (intro that [of _ xs ys]) (assumption | simp add: ctx1_def flip: xs_def)+
qed

lemma unat_less_32: "unat (l :: u32) < 2 ^ 32"
proof -
  have "unat l < 2 ^ LENGTH(32)" by (rule unsigned_less)
  then show ?thesis by simp
qed

lemma unat_ucast_64: "unat (ucast (l :: u32) :: u64) = unat l"
  using unat_less_32 [of l] by (simp add: unsigned_ucast_eq take_bit_nat_eq_self)

lemma of_nat_mod_32: "word_of_nat (k mod 2 ^ 32) = (word_of_nat k :: u32)"
  by (simp add: word_of_nat_eq_iff take_bit_nat_def)

text \<open>The counters after a call of \<open>md5_hash\<close> with \<open>n\<close> bytes.\<close>

lemma count_lo:
  assumes "unat (l :: u32) = len mod 2 ^ 29"
  shows "unat (ucast ((ucast l + (n :: u64)) AND 0x1fffffff) :: u32) = (len + unat n) mod 2 ^ 29"
proof -
  have "unat (ucast ((ucast l + n) AND 0x1fffffff) :: u32) = unat ((ucast l + n) AND 0x1fffffff) mod 2 ^ 32"
    by (simp add: unsigned_ucast_eq take_bit_nat_def)
  also have "\<dots> = unat (ucast l + n) mod 2 ^ 29" by (simp add: unat_low_bits)
  also have "\<dots> = (unat l + unat n) mod 2 ^ 64 mod 2 ^ 29" by (simp add: unat_word_ariths(1) unat_ucast_64)
  also have "\<dots> = (unat l + unat n) mod 2 ^ 29" by (rule mod_mod_cancel) simp
  also have "\<dots> = (len + unat n) mod 2 ^ 29" unfolding assms by (rule mod_add_left_eq)
  finally show ?thesis .
qed

lemma count_hi:
  assumes "unat (l :: u32) = len mod 2 ^ 29" and "unat (l' :: u32) = (len + unat n) mod 2 ^ 29"
    and "h = (word_of_nat (len div 2 ^ 29) :: u32)"
  shows "ucast (ucast (if l' < l then h + 1 else h) + drop_bit 29 (n :: u64)) = (word_of_nat ((len + unat n) div 2 ^ 29) :: u32)"
proof -
  have c: "(len + unat n) div 2 ^ 29 = len div 2 ^ 29 + unat n div 2 ^ 29 + (if l' < l then 1 else 0)"
    unfolding word_less_nat_alt assms(1,2) div_add1_eq [of len] mod_add_eq [symmetric, of len]
    by (auto simp: mod_if [of "_ mod _ + _ mod _"] div_if [of _ "_ mod _ + _ mod _"])
  have "ucast (ucast g + drop_bit 29 n) = g + (word_of_nat (unat n div 2 ^ 29) :: u32)" for g :: u32
  proof -
    have "unat (ucast (ucast g + drop_bit 29 n) :: u32) = (unat g + unat n div 2 ^ 29) mod 2 ^ 64 mod 2 ^ 32"
      unfolding unsigned_ucast_eq [of "_ + _"] unat_word_ariths(1) unat_ucast_64 by (simp add: unat_drop_bit_eq drop_bit_nat_def take_bit_nat_def)
    also have "\<dots> = (unat g + unat n div 2 ^ 29) mod 2 ^ 32" by (rule mod_mod_cancel) simp
    finally have "ucast (ucast g + drop_bit 29 n) = (word_of_nat ((unat g + unat n div 2 ^ 29) mod 2 ^ 32) :: u32)"
      by (rule word_eq_of_unat)
    also have "\<dots> = word_of_nat (unat g + unat n div 2 ^ 29)" by (rule of_nat_mod_32)
    finally show ?thesis by simp
  qed
  then show ?thesis unfolding c assms(3) by simp
qed

lemma md5_hash_ok:
  assumes rep: "md5_rep ctx msg" and n: "unat n = length m"
  obtains ctx' where "md5_hash m n ctx = Some ctx'" "md5_rep ctx' (msg @ m)"
proof -
  define l' h' where "l' = (ucast ((ucast (lo ctx) + n) AND 0x1fffffff) :: u32)"
    and "h' = (ucast (ucast (if l' < lo ctx then hi ctx + 1 else hi ctx) + drop_bit 29 n) :: u32)"
  define ctx1 where "ctx1 = ctx\<lparr>lo := l', hi := h'\<rparr>"
  define u where "u = length msg mod 64"
  have lo: "unat l' = length (msg @ m) mod 2 ^ 29"
    using count_lo [of "lo ctx" "length msg" n] rep n by (simp add: md5_rep_def l'_def)
  have hi: "h' = word_of_nat (length (msg @ m) div 2 ^ 29)"
    using count_hi [of "lo ctx" "length msg" l' n "hi ctx"] rep n lo by (simp add: md5_rep_def h'_def)
  have used: "(ucast (lo ctx AND 0x3f) :: u64) = word_of_nat u"
    using rep by (intro word_eq_of_unat) (simp add: unat_ucast_64 unat_low_bits md5_rep_def u_def mod_mod_cancel)
  have un: "u < 64" by (simp add: u_def)
  have u: "unat (word_of_nat u :: u64) = u" using un by (simp add: unat_of_nat)
  have av: "unat (64 - word_of_nat u :: u64) = 64 - u"
    using un by (subst unat_sub) (simp_all add: word_le_nat_alt u)
  obtain xs ys where msg: "msg = xs @ ys" "64 dvd length xs" "length ys = u"
    "chain ctx = rfc_blocks (0x67452301, 0xefcdab89, 0x98badcfe, 0x10325476) xs" "take (length ys) (buffer ctx) = ys"
    by (rule md5_repE [OF rep], rule that) (assumption | simp only: u_def)+
  have ctx1: "lo ctx1 = l'" "hi ctx1 = h'" "buffer ctx1 = buffer ctx" "chain ctx1 = chain ctx" "length (buffer ctx) = 64"
    using rep by (simp_all add: ctx1_def md5_rep_def)
  have hash: "md5_hash m n ctx =
     (if u \<noteq> 0 then if length m < 64 - u then do {
            bs \<leftarrow> mem_read m 0 (length m);
            buf \<leftarrow> mem_write (buffer ctx) u bs;
            Some (ctx1\<lparr>buffer := buf\<rparr>)
          } else do {
            bs \<leftarrow> mem_read m 0 (64 - u);
            buf \<leftarrow> mem_write (buffer ctx) u bs;
            (_, ctx) \<leftarrow> body (ctx1\<lparr>buffer := buf\<rparr>) buf 0 64;
            md5_hash_blocks m (64 - u) (n - (64 - word_of_nat u)) ctx
          } else md5_hash_blocks m 0 n ctx1)"
  proof -
    have "word_of_nat u = (0 :: u64) \<longleftrightarrow> u = 0" using u by (cases "u = 0") auto
    moreover have "n < 64 - word_of_nat u \<longleftrightarrow> length m < 64 - u" by (simp add: word_less_nat_alt av n)
    moreover have "l' < lo ctx \<Longrightarrow> ctx\<lparr>lo := l', hi := ucast (ucast (hi ctx + 1) + drop_bit 29 n)\<rparr> = ctx1"
      "\<not> l' < lo ctx \<Longrightarrow> ctx\<lparr>lo := l', hi := ucast (ucast (hi ctx) + drop_bit 29 n)\<rparr> = ctx1"
      by (simp_all add: ctx1_def h'_def)
    ultimately show ?thesis
      unfolding md5_hash_def by (cases "l' < lo ctx") (simp_all add: Let_def used u av n ctx1 flip: l'_def)
  qed
  consider "u = 0" | "u \<noteq> 0" "length m < 64 - u" | "u \<noteq> 0" "64 - u \<le> length m" by linarith
  then show thesis
  proof cases
    case 1
    then have h: "md5_hash m n ctx = md5_hash_blocks m 0 n ctx1" by (simp add: hash)
    obtain ctx' xs' ys' where r: "md5_hash_blocks m 0 n ctx1 = Some ctx'" and "length (buffer ctx') = 64" "lo ctx' = l'" "hi ctx' = h'"
      "m = xs' @ ys'" "64 dvd length xs'" "length ys' < 64" "chain ctx' = rfc_blocks (chain ctx) xs'" "take (length ys') (buffer ctx') = ys'"
      by (rule md5_hash_blocks_ok [of ctx1 0 n m]) (use ctx1 n in auto)
    then have "md5_rep ctx' (msg @ m)"
      using 1 lo hi msg by (intro md5_repI [of ctx' _ "xs @ xs'" ys']) (simp_all add: rfc_blocks_append)
    with h r show thesis by (simp add: that)
  next
    case 2
    define ctx2 where "ctx2 = ctx1\<lparr>buffer := ys @ m @ drop (u + length m) (buffer ctx)\<rparr>"
    have "mem_read m 0 (length m) = Some m" "mem_write (buffer ctx) u m = Some (buffer ctx2)"
      using 2 msg(5) ctx1(5) msg(3) by (auto simp: mem_read_def mem_write_def ctx2_def)
    with 2 have h: "md5_hash m n ctx = Some ctx2" by (simp add: hash ctx2_def)
    have "msg @ m = xs @ ys @ m" using msg(1) by simp
    then have "md5_rep ctx2 (msg @ m)"
      by (rule md5_repI [rotated 3]) (use 2 lo hi msg(2-4) ctx1 in \<open>simp_all add: ctx2_def\<close>)
    with h show thesis by (rule that)
  next
    case 3
    define b where "b = ys @ take (64 - u) m"
    let ?ctx = "set_chain (rfc_block (chain ctx) b) (ctx1\<lparr>buffer := b\<rparr>)"
    have len: "length b = 64" using 3 msg un by (simp add: b_def)
    have "mem_read m 0 (64 - u) = Some (take (64 - u) m)" "mem_write (buffer ctx) u (take (64 - u) m) = Some b"
      using 3 msg ctx1 un by (auto simp: mem_read_def mem_write_def b_def)
    with 3 len have h: "md5_hash m n ctx = md5_hash_blocks m (64 - u) (n - (64 - word_of_nat u)) ?ctx"
      by (simp add: hash body_one ctx1)
    obtain ctx' xs' ys' where r: "md5_hash_blocks m (64 - u) (n - (64 - word_of_nat u)) ?ctx = Some ctx'"
      and rest: "length (buffer ctx') = 64" "lo ctx' = l'" "hi ctx' = h'"
      "drop (64 - u) m = xs' @ ys'" "64 dvd length xs'" "length ys' < 64"
      "chain ctx' = rfc_blocks (rfc_block (chain ctx) b) xs'" "take (length ys') (buffer ctx') = ys'"
      by (rule md5_hash_blocks_ok [of ?ctx "64 - u" "n - (64 - word_of_nat u)" m])
        (use ctx1 n 3 len av in \<open>auto simp: unat_sub word_le_nat_alt\<close>)
    have "msg @ m = (xs @ b @ xs') @ ys'"
      using append_take_drop_id [of "64 - u" m] rest(4) msg(1) unfolding b_def by (metis append_assoc)
    then have "md5_rep ctx' (msg @ m)"
      by (rule md5_repI [rotated 3]) (use rest lo hi msg(2,4) len in \<open>simp_all add: rfc_blocks_append rfc_blocks_one\<close>)
    with h r show thesis by (simp add: that)
  qed
qed

section \<open>Padding\<close>

lemma length_le32 [simp]: "length (le32 w) = 4"
  by (simp add: le32_def)

lemma len_lo: "unat (l :: u32) = len mod 2 ^ 29 \<Longrightarrow> push_bit 3 l = word_of_nat (8 * len)"
proof -
  assume "unat l = len mod 2 ^ 29"
  then have "l = word_of_nat (len mod 2 ^ 29)" by (rule word_eq_of_unat)
  then have "push_bit 3 l = (word_of_nat (len mod 2 ^ 29 * 8) :: u32)" by (simp add: push_bit_eq_mult)
  also have "len mod 2 ^ 29 * 8 = len * 8 mod 2 ^ 32" by (simp add: mult_mod_left)
  finally show ?thesis by (simp only: of_nat_mod_32 mult.commute [of len])
qed

lemma len_hi: "8 * len div 2 ^ 32 = len div (2 ^ 29 :: nat)"
  by simp

text \<open>The last block: a prefix, zeros up to offset 56, and the length.\<close>

lemma md5_fill:
  assumes "length buf = 64" and "take k buf = p" and "k \<le> 56"
  shows "do { buf \<leftarrow> mem_write buf k (replicate (64 - k - 8) 0); buf \<leftarrow> mem_write buf 56 (le32 x); mem_write buf 60 (le32 y) } =
    Some (p @ replicate (64 - k - 8) 0 @ le32 x @ le32 y)"
proof -
  let ?z = "replicate (64 - k - 8) (0 :: byte)"
  have p: "length p = k" using assms by auto
  obtain a b c d where ab: "drop k buf = a @ b @ c @ d" "length a = 64 - k - 8" "length b = 4" "length c = 4"
    by (rule split_at3 [of "64 - k - 8" 4 4 "drop k buf"]) (use assms in auto)
  have "length (a @ b @ c @ d) = 64 - k" unfolding ab(1) [symmetric] using assms by simp
  then have "length d = 0" using ab(2-4) assms(3) unfolding length_append by linarith
  then have "d = []" by simp
  with ab have buf: "buf = p @ a @ b @ c" "length a = 64 - k - 8" "length b = 4" "length c = 4"
    using append_take_drop_id [of k buf] assms(2) by auto
  have "mem_write buf k ?z = Some (p @ ?z @ b @ c)" using buf p by (simp add: mem_write_app)
  moreover have "mem_write (p @ ?z @ b @ c) 56 (le32 x) = Some (p @ ?z @ le32 x @ c)"
    using mem_write_app [of 56 "p @ ?z" b "le32 x" c] buf p assms by simp
  moreover have "mem_write (p @ ?z @ le32 x @ c) 60 (le32 y) = Some (p @ ?z @ le32 x @ le32 y)"
    using mem_write_app [of 60 "p @ ?z @ le32 x" c "le32 y" "[]"] buf p assms by simp
  ultimately show ?thesis by simp
qed

lemma md5_end_ok:
  assumes rep: "md5_rep ctx msg" and res: "16 \<le> length resbuf"
  shows "md5_end resbuf ctx =
    Some (rfc_md5 msg @ drop 16 resbuf, \<lparr>lo = 0, hi = 0, ca = 0, cb = 0, cc = 0, cd = 0, buffer = replicate 64 0\<rparr>)"
proof -
  define len where "len = le32 (word_of_nat (8 * length msg)) @ le32 (word_of_nat (8 * length msg div 2 ^ 32))"
  define u where "u = length msg mod 64"
  have un: "u < 64" by (simp add: u_def)
  have used: "unat (lo ctx AND 0x3f) = u"
    using rep by (simp add: unat_low_bits md5_rep_def u_def mod_mod_cancel)
  have l: "push_bit 3 (lo ctx) = word_of_nat (8 * length msg)" "hi ctx = word_of_nat (8 * length msg div 2 ^ 32)"
    "length (buffer ctx) = 64"
    using rep by (auto simp only: md5_rep_def len_hi intro: len_lo)
  obtain xs ys where msg: "msg = xs @ ys" "64 dvd length xs" "length ys = u"
    "chain ctx = rfc_blocks (0x67452301, 0xefcdab89, 0x98badcfe, 0x10325476) xs" "take (length ys) (buffer ctx) = ys"
    by (rule md5_repE [OF rep], rule that) (assumption | simp only: u_def)+
  have pad: "rfc_pad msg = msg @ [0x80] @ replicate ((119 - u) mod 64) 0 @ len"
    by (simp add: rfc_pad_def len_def u_def)
  have out: "(case rfc_blocks (0x67452301, 0xefcdab89, 0x98badcfe, 0x10325476) (rfc_pad msg) of (a, b, c, d) \<Rightarrow> le32 a @ le32 b @ le32 c @ le32 d) = rfc_md5 msg"
    by (simp add: rfc_md5_def)
  have w: "mem_write (buffer ctx) u [0x80] = Some (ys @ [0x80] @ drop (u + 1) (buffer ctx))"
    using msg l un by (auto simp: mem_write_def)
  have fin: "do {
     buf \<leftarrow> mem_write (buffer c) k (replicate (64 - k - 8) 0);
     buf \<leftarrow> mem_write buf 56 (le32 (push_bit 3 (lo ctx)));
     buf \<leftarrow> mem_write buf 60 (le32 (hi ctx));
     (_, c) \<leftarrow> body (c\<lparr>lo := push_bit 3 (lo ctx), buffer := buf\<rparr>) buf 0 64;
     result \<leftarrow> mem_write resbuf 0 (le32 (ca c) @ le32 (cb c) @ le32 (cc c) @ le32 (cd c));
     Some (result, z)
   } = Some (rfc_md5 msg @ drop 16 resbuf, z)"
    if "length (buffer c) = 64" "take k (buffer c) = p" "k \<le> 56"
      "rfc_block (chain c) (p @ replicate (64 - k - 8) 0 @ len) = rfc_blocks (0x67452301, 0xefcdab89, 0x98badcfe, 0x10325476) (rfc_pad msg)" for c k p z
  proof -
    note h = that
    let ?b = "p @ replicate (64 - k - 8) 0 @ len"
    obtain b1 b2 where b: "mem_write (buffer c) k (replicate (64 - k - 8) 0) = Some b1"
      "mem_write b1 56 (le32 (push_bit 3 (lo ctx))) = Some b2" "mem_write b2 60 (le32 (hi ctx)) = Some ?b"
      using md5_fill [OF h(1-3), of "push_bit 3 (lo ctx)" "hi ctx"] unfolding l(1,2)
      by (auto simp: bind_eq_Some_conv len_def)
    have "length ?b = 64" using h(1-3) by (auto simp: len_def)
    then have "body (c\<lparr>lo := push_bit 3 (lo ctx), buffer := ?b\<rparr>) ?b 0 64 =
      Some (64, set_chain (rfc_blocks (0x67452301, 0xefcdab89, 0x98badcfe, 0x10325476) (rfc_pad msg)) (c\<lparr>lo := push_bit 3 (lo ctx), buffer := ?b\<rparr>))"
      using h(4) by (simp add: body_one)
    moreover have "le32 (ca c') @ le32 (cb c') @ le32 (cc c') @ le32 (cd c') = rfc_md5 msg"
      if "chain c' = rfc_blocks (0x67452301, 0xefcdab89, 0x98badcfe, 0x10325476) (rfc_pad msg)" for c'
      using out unfolding that [symmetric] by (simp add: chain_def)
    moreover have "mem_write resbuf 0 (rfc_md5 msg) = Some (rfc_md5 msg @ drop 16 resbuf)"
      using res by (simp add: mem_write_def rfc_md5_def split: prod.split)
    ultimately show ?thesis using b by simp
  qed
  consider "u < 56" | "56 \<le> u" by linarith
  then show ?thesis
  proof cases
    case 1
    have "rfc_block (chain ctx) ((ys @ [0x80]) @ replicate (64 - (u + 1) - 8) 0 @ len) = rfc_blocks (0x67452301, 0xefcdab89, 0x98badcfe, 0x10325476) (rfc_pad msg)"
      using 1 pad msg by (simp add: mod_if len_def rfc_blocks_append rfc_blocks_one)
    moreover have "\<not> 63 - u < 8" using 1 by simp
    ultimately show ?thesis
      using 1 w msg(3,5) l(3) fin [of "ctx\<lparr>buffer := ys @ [0x80] @ drop (u + 1) (buffer ctx)\<rparr>" "u + 1" "ys @ [0x80]"]
      by (simp add: md5_end_def Let_def used)
  next
    case 2
    define b where "b = ys @ [0x80] @ replicate (63 - u) 0"
    have b: "length b = 64" "length (replicate 56 0 @ len) = 64" using msg un by (simp_all add: b_def len_def)
    have "mem_write (ys @ [0x80] @ drop (u + 1) (buffer ctx)) (u + 1) (replicate (63 - u) 0) = Some b"
      using 2 w msg l un by (simp add: mem_write_def b_def)
    moreover have "rfc_block (rfc_block (chain ctx) b) (replicate 56 0 @ len) = rfc_blocks (0x67452301, 0xefcdab89, 0x98badcfe, 0x10325476) (rfc_pad msg)"
    proof -
      have "(119 - u) mod 64 = 63 - u + 56" using 2 un by (simp add: mod_if)
      then have "rfc_pad msg = xs @ b @ replicate 56 0 @ len"
        using pad msg(1) by (simp only: replicate_add append_assoc b_def)
      moreover have "64 dvd length b" using b by simp
      ultimately show ?thesis using msg(2,4) b by (simp only: rfc_blocks_append rfc_blocks_one)
    qed
    moreover have "63 - u < 8" using 2 by simp
    ultimately show ?thesis using w b(1)
      fin [of "set_chain (rfc_block (chain ctx) b) (ctx\<lparr>buffer := b\<rparr>)" 0 "[]"]
      by (simp add: md5_end_def Let_def used body_one)
  qed
qed

section \<open>The digest\<close>

text \<open>The calls of \<open>md5_hash\<close> for the parts of a message in order.\<close>

fun md5_parts :: "byte list list \<Rightarrow> md5_ctx \<Rightarrow> md5_ctx option" where
  "md5_parts [] ctx = Some ctx"
| "md5_parts (m # ms) ctx = do { ctx \<leftarrow> md5_hash m (word_of_nat (length m)) ctx; md5_parts ms ctx }"

lemma md5_parts_ok:
  assumes "md5_rep ctx msg" and "\<forall>m\<in>set ms. length m < 2 ^ 64"
  shows "\<exists>ctx'. md5_parts ms ctx = Some ctx' \<and> md5_rep ctx' (msg @ concat ms)"
  using assms
proof (induction ms arbitrary: ctx msg)
  case (Cons m ms)
  obtain ctx1 where "md5_hash m (word_of_nat (length m)) ctx = Some ctx1" "md5_rep ctx1 (msg @ m)"
    by (rule md5_hash_ok [OF Cons.prems(1), of "word_of_nat (length m)" m]) (use Cons.prems(2) in \<open>simp add: unat_of_nat\<close>)
  with Cons.IH [of ctx1 "msg @ m"] Cons.prems(2) show ?case by simp
qed simp

text \<open>
  C26: However a message is divided into calls of \<open>md5_hash\<close> (empty and large parts included) between
  \<open>md5_begin\<close> and \<open>md5_end\<close>, no access is out of bounds, the result buffer receives the RFC 1321 digest of
  the whole message in its first 16 bytes and nothing else, and the context is cleared. Nothing is
  assumed of the previous contents of the context; the length of the message is not limited.
\<close>

theorem md5_digest_rfc:
  assumes "length (buffer ctx) = 64" and "\<forall>m\<in>set ms. length m < 2 ^ 64" and "16 \<le> length resbuf"
  shows "do { ctx \<leftarrow> md5_parts ms (md5_begin ctx); md5_end resbuf ctx } =
    Some (rfc_md5 (concat ms) @ drop 16 resbuf, \<lparr>lo = 0, hi = 0, ca = 0, cb = 0, cc = 0, cd = 0, buffer = replicate 64 0\<rparr>)"
  using md5_parts_ok [OF md5_begin_rep assms(2)] assms md5_end_ok by fastforce

theorem md5_digest_rfc_witness:
  "do { ctx \<leftarrow> md5_parts [cstr ''a'', [], cstr ''bc''] (md5_begin \<lparr>lo = 5, hi = 6, ca = 0, cb = 0, cc = 0, cd = 0, buffer = replicate 64 7\<rparr>);
        md5_end (replicate 17 9) ctx } =
   Some (rfc_md5 (cstr ''abc'') @ [9], \<lparr>lo = 0, hi = 0, ca = 0, cb = 0, cc = 0, cd = 0, buffer = replicate 64 0\<rparr>)"
proof -
  have "concat [cstr ''a'', [], cstr ''bc''] = cstr ''abc''" "drop 16 (replicate 17 9) = [9 :: byte]"
    by (simp_all add: cstr_def eval_nat_numeral)
  moreover note md5_digest_rfc [of "\<lparr>lo = 5, hi = 6, ca = 0, cb = 0, cc = 0, cd = 0, buffer = replicate 64 7\<rparr>" "[cstr ''a'', [], cstr ''bc'']" "replicate 17 9"]
  moreover have "\<forall>m\<in>set [cstr ''a'', [], cstr ''bc'']. length m < 2 ^ 64" by (simp add: cstr_def)
  ultimately show ?thesis by (simp only: md5_ctx.select_convs length_replicate)
qed

lemma md5sum_loop_ok:
  assumes "md5_rep ctx msg" and "\<forall>m\<in>set reads. m \<noteq> []" and "ret + int (length (concat reads)) < 2 ^ 31" and "0 \<le> ret"
  shows "\<exists>ctx'. md5sum_loop reads ret ctx = Some (ret + int (length (concat reads)), ctx') \<and> md5_rep ctx' (msg @ concat reads)"
  using assms
proof (induction reads arbitrary: ctx msg ret)
  case (Cons m ms)
  then have l: "length m < 2 ^ 64" "ret + int (length m) < 2 ^ 31" by auto
  obtain ctx1 where 1: "md5_hash m (word_of_nat (length m)) ctx = Some ctx1" "md5_rep ctx1 (msg @ m)"
    by (rule md5_hash_ok [OF Cons.prems(1), of "word_of_nat (length m)" m]) (use l in \<open>simp add: unat_of_nat\<close>)
  with Cons.IH [of ctx1 "msg @ m" "ret + int (length m)"] Cons.prems l show ?case by (auto simp: add.assoc)
qed simp

text \<open>\<open>md5sum\<close> of a file returns its length and stores the digest of its contents.\<close>

lemma md5sum_ok:
  assumes "length (buffer ctx) = 64" and "16 \<le> length md5_buf"
    and "\<forall>m\<in>set reads. m \<noteq> []" and "length (concat reads) < 2 ^ 31"
  shows "md5sum (Some reads) md5_buf ctx = Some (int (length (concat reads)), rfc_md5 (concat reads) @ drop 16 md5_buf)"
proof -
  have "int (length (concat reads)) < 2 ^ 31" using assms(4) by (metis of_nat_less_iff of_nat_numeral of_nat_power)
  with md5sum_loop_ok [OF md5_begin_rep [OF assms(1)] assms(3), of 0]
  obtain ctx' where "md5sum_loop reads 0 (md5_begin ctx) = Some (int (length (concat reads)), ctx')" "md5_rep ctx' (concat reads)"
    by auto
  then show ?thesis using md5_end_ok assms(2) by (simp add: md5sum_def)
qed

end
