(* ===== verification/Ubusd_Id.thy ===== *)
theory Ubusd_Id
  imports Avl_Index
begin

text \<open>
  The identifiers of clients, objects and object types: \<open>src/ubus/ubusd_id.c\<close> and
  \<open>src/ubus/ubusd_id.h\<close>.

  A \<open>struct ubus_id\<close> embedded in a structure is an entry \<open>(id, p)\<close> of an AVL tree over
  \<open>ubus_cmp_id\<close>, where \<open>p\<close> is the address of the structure. The reads of \<open>/dev/urandom\<close> are the list of
  the values it delivers; a read beyond the last one fails, so the loop of \<open>ubus_alloc_id\<close> is a
  recursion on that list. The laws of a comparator hold of \<open>ubus_cmp_id\<close>, so the interface of
  \<open>Avl\<close> is available for the trees of identifiers under the qualifier \<open>id_order\<close>.
\<close>

section \<open>Operations\<close>

definition UBUS_SYSTEM_OBJECT_MAX :: u32 where
  "UBUS_SYSTEM_OBJECT_MAX = 1024"

definition ubus_cmp_id :: "u32 avl_tree_comp" where
  "ubus_cmp_id id1 id2 = (if id1 < id2 then -1 else if id1 > id2 then 1 else 0)"

type_synonym 'n id_tree = "(u32, 'n) avl_tree"

definition ubus_init_string_tree :: "bool \<Rightarrow> (cstring, 'n) avl_tree" where
  "ubus_init_string_tree dup = avl_init dup"

text \<open>The result of opening \<open>/dev/urandom\<close> is a parameter; \<open>exit(1)\<close> is \<open>Inl 1\<close>.\<close>

definition ubus_init_id_tree :: "int \<Rightarrow> int \<Rightarrow> int + int \<times> 'n id_tree" where
  "ubus_init_id_tree opened random_fd =
     (if random_fd < 0 then
        (let random_fd = opened in
         if random_fd < 0 then Inl 1 else Inr (random_fd, avl_init False))
      else Inr (random_fd, avl_init False))"

text \<open>
  The loop that draws an identifier. \<open>continue\<close> in a \<open>do ... while\<close> loop jumps to the evaluation of
  the condition, so both branches of the test of the range of the value drawn evaluate
  \<open>avl_insert\<close>: \<open>alloc_cond\<close> is that condition and what follows it. The result is the return value,
  the field \<open>id\<close>, the tree and the values that are left in the source of randomness.
\<close>

fun ubus_alloc_id_random ::
    "u32 list \<Rightarrow> u32 \<Rightarrow> 'n id_tree \<Rightarrow> 'n \<Rightarrow> (bool \<times> u32 \<times> 'n id_tree \<times> u32 list) option" where
  "ubus_alloc_id_random [] i t p = Some (False, i, t, [])"
| "ubus_alloc_id_random (r # rs) i t p =
     (let alloc_cond = do {
        (rc, t) \<leftarrow> avl_insert ubus_cmp_id t (r, p);
        if rc \<noteq> 0 then ubus_alloc_id_random rs r t p else Some (True, r, t, rs)
      } in
      if r < UBUS_SYSTEM_OBJECT_MAX then alloc_cond else alloc_cond)"

definition ubus_alloc_id ::
    "u32 list \<Rightarrow> 'n id_tree \<Rightarrow> 'n \<Rightarrow> u32 \<Rightarrow> (bool \<times> u32 \<times> 'n id_tree \<times> u32 list) option" where
  "ubus_alloc_id rs t p val =
     (if val \<noteq> 0 then do {
        (rc, t) \<leftarrow> avl_insert ubus_cmp_id t (val, p);
        Some (rc = 0, val, t, rs)
      }
      else ubus_alloc_id_random rs 0 t p)"

definition ubus_free_id :: "'n id_tree \<Rightarrow> u32 \<times> 'n \<Rightarrow> 'n id_tree option" where
  "ubus_free_id t e = avl_delete t e"

definition ubus_find_id :: "'n id_tree \<Rightarrow> u32 \<Rightarrow> 'n option" where
  "ubus_find_id t i = map_option snd (avl_find ubus_cmp_id t i)"

section \<open>The trees of identifiers\<close>

interpretation id_order: avl_order ubus_cmp_id
  by unfold_locales (auto simp: ubus_cmp_id_def split: if_splits)

text \<open>
  A valid tree of identifiers has no duplicate keys and no structure twice. Its contents are the
  partial map \<open>ids\<close> from identifiers to addresses.
\<close>

definition id_ok :: "'n id_tree \<Rightarrow> bool" where
  "id_ok t \<longleftrightarrow> avl_ok ubus_cmp_id t \<and> \<not> allow_dups t"

definition ids :: "'n id_tree \<Rightarrow> u32 \<rightharpoonup> 'n" where
  "ids t = map_of (list_head t)"

lemma id_ok_distinct: "id_ok t \<Longrightarrow> distinct (map fst (list_head t))"
proof -
  assume ok: "id_ok t"
  then have "filter (leader t) (list_head t) = list_head t"
    by (auto simp: id_ok_def avl_ok_def list_all_iff filter_id_conv)
  moreover have "sorted_wrt (\<lambda>x y. ubus_cmp_id (fst x) (fst y) < 0) (filter (leader t) (list_head t))"
    using ok by (intro id_order.runs_leaders_sorted) (auto simp: id_ok_def avl_ok_def)
  ultimately have "sorted_wrt (\<lambda>x y. x \<noteq> y) (map fst (list_head t))"
    by (auto simp: sorted_wrt_map elim!: sorted_wrt_mono_rel [rotated])
  then show ?thesis by (simp add: distinct_conv_nth sorted_wrt_iff_nth_less) (metis nat_neq_iff)
qed

lemma find_fst_map_of: "List.find (\<lambda>x. fst x = k) xs = map_option (Pair k) (map_of xs k)"
  by (induction xs) auto

lemma ubus_find_id_ids: "id_ok t \<Longrightarrow> ubus_find_id t i = ids t i"
  by (simp add: ubus_find_id_def id_ok_def id_order.find_ok find_fst_map_of ids_def option.map_comp comp_def option.map_ident)

lemma ids_dom: "i \<in> dom (ids t) \<longleftrightarrow> i \<in> fst ` set (list_head t)"
  by (simp add: ids_def dom_map_of_conv_image_fst)

lemma id_init_ok: "id_ok (avl_init False)" "ids (avl_init False) = Map.empty"
  by (simp_all add: id_ok_def avl_ok_init) (simp_all add: avl_init_def ids_def)

lemma id_insert_new:
  assumes ok: "id_ok t" and i: "i \<notin> dom (ids t)"
  shows "\<exists>t'. avl_insert ubus_cmp_id t (i, p) = Some (0, t') \<and> id_ok t' \<and> ids t' = (ids t)(i \<mapsto> p)"
proof -
  have new: "i \<notin> fst ` set (list_head t)" using i by (simp add: ids_dom)
  then have "(i, p) \<notin> set (list_head t)" by force
  with id_order.insert_refines [of t "(i, p)"] ok new obtain t' where
    t': "avl_insert ubus_cmp_id t (i, p) = Some (0, t')" "avl_ok ubus_cmp_id t'" "\<not> allow_dups t'"
      "list_head t' = filter (\<lambda>x. ubus_cmp_id (fst x) i \<le> 0) (list_head t) @
         (i, p) # filter (\<lambda>x. 0 < ubus_cmp_id (fst x) i) (list_head t)"
    by (auto simp: id_ok_def mm_insert_def)
  then have ok': "id_ok t'" by (simp add: id_ok_def)
  have "set (list_head t') = insert (i, p) (set (list_head t))"
    unfolding t'(4) by (auto simp: not_le)
  then have "ids t' k = Some q \<longleftrightarrow> ((ids t)(i \<mapsto> p)) k = Some q" for k q
    using id_ok_distinct [OF ok'] id_ok_distinct [OF ok] new
    by (force simp: ids_def map_of_eq_Some_iff image_iff)
  then have "ids t' = (ids t)(i \<mapsto> p)" by (metis option.exhaust ext)
  with t' ok' show ?thesis by blast
qed

lemma id_insert_used:
  assumes ok: "id_ok t" and i: "i \<in> dom (ids t)" and p: "(i, p) \<notin> set (list_head t)"
  shows "\<exists>t'. avl_insert ubus_cmp_id t (i, p) = Some (-1, t') \<and> id_ok t' \<and>
    list_head t' = list_head t"
  using id_order.insert_refines [of t "(i, p)"] ok i p by (auto simp: id_ok_def mm_insert_def ids_dom)

text \<open>What an allocation of an identifier for the structure at a fresh address \<open>p\<close> does.\<close>

definition allocated :: "'n id_tree \<Rightarrow> 'n \<Rightarrow> u32 list \<Rightarrow> u32 \<Rightarrow> 'n id_tree \<Rightarrow> bool" where
  "allocated t p candidates i t' \<longleftrightarrow>
     i \<in> set candidates \<and> i \<notin> dom (ids t) \<and> id_ok t' \<and> ids t' = (ids t)(i \<mapsto> p)"

lemma alloc_random_ok:
  assumes "id_ok t" and "p \<notin> snd ` set (list_head t)"
  shows "\<exists>ok i t' rs'. ubus_alloc_id_random rs i0 t p = Some (ok, i, t', rs') \<and>
    (if ok then allocated t p rs i t' else set rs \<subseteq> dom (ids t) \<and> id_ok t' \<and> ids t' = ids t)"
  using assms
proof (induction rs arbitrary: t i0)
  case (Cons r rs)
  have fresh: "(r, p) \<notin> set (list_head t)" using Cons.prems(2) by force
  show ?case
  proof (cases "r \<in> dom (ids t)")
    case False
    with id_insert_new [OF Cons.prems(1) False, of p] show ?thesis by (auto simp: allocated_def)
  next
    case True
    from id_insert_used [OF Cons.prems(1) True fresh] obtain t1 where
      t1: "avl_insert ubus_cmp_id t (r, p) = Some (-1, t1)" "id_ok t1" "list_head t1 = list_head t"
      by blast
    then have "ids t1 = ids t" by (simp add: ids_def)
    moreover obtain ok i t' rs' where "ubus_alloc_id_random rs r t1 p = Some (ok, i, t', rs')"
      "if ok then allocated t1 p rs i t' else set rs \<subseteq> dom (ids t1) \<and> id_ok t' \<and> ids t' = ids t1"
      using Cons.IH [OF t1(2), of r] t1(3) Cons.prems(2) by metis
    ultimately show ?thesis using t1(1) True
      by (intro exI [of _ ok] exI [of _ i] exI [of _ t'] exI [of _ rs']) (auto simp: allocated_def)
  qed
qed (auto intro: exI [of _ False])

lemma alloc_id_ok:
  assumes "id_ok t" and "p \<notin> snd ` set (list_head t)"
  shows "\<exists>ok i t' rs'. ubus_alloc_id rs t p val = Some (ok, i, t', rs') \<and>
    (let candidates = (if val = 0 then rs else [val]) in
     if ok then allocated t p candidates i t'
     else set candidates \<subseteq> dom (ids t) \<and> id_ok t' \<and> ids t' = ids t)"
proof (cases "val = 0")
  case True
  with alloc_random_ok [OF assms, of rs 0] show ?thesis by (simp add: ubus_alloc_id_def)
next
  case val: False
  have fresh: "(val, p) \<notin> set (list_head t)" using assms(2) by force
  show ?thesis
  proof (cases "val \<in> dom (ids t)")
    case True
    with id_insert_used [OF assms(1) True fresh] val show ?thesis
      by (auto simp: ubus_alloc_id_def ids_def)
  next
    case False
    with id_insert_new [OF assms(1) False, of p] val show ?thesis
      by (auto simp: ubus_alloc_id_def allocated_def)
  qed
qed

lemma free_id_ok:
  assumes ok: "id_ok t" and i: "ids t i = Some p"
  shows "\<exists>t'. ubus_free_id t (i, p) = Some t' \<and> id_ok t' \<and> ids t' = (ids t)(i := None) \<and>
    list_head t' = remove1 (i, p) (list_head t)"
proof -
  have mem: "(i, p) \<in> set (list_head t)" using i by (auto simp: ids_def dest: map_of_SomeD)
  with id_order.delete_ok [of t "(i, p)"] ok obtain t' where
    t': "avl_delete t (i, p) = Some t'" "avl_ok ubus_cmp_id t'" "\<not> allow_dups t'"
      "list_head t' = remove1 (i, p) (list_head t)"
    by (auto simp: id_ok_def)
  then have ok': "id_ok t'" by (simp add: id_ok_def)
  have d: "distinct (map fst (list_head t))" by (rule id_ok_distinct [OF ok])
  then have "set (list_head t') = {e \<in> set (list_head t). fst e \<noteq> i}"
    using mem t'(4) d by (auto simp: distinct_map dest: inj_onD eq_key_imp_eq_value [OF d])
  then have "ids t' k = Some q \<longleftrightarrow> ((ids t)(i := None)) k = Some q" for k q
    using id_ok_distinct [OF ok'] d by (auto simp: ids_def map_of_eq_Some_iff)
  then have "ids t' = (ids t)(i := None)" by (metis option.exhaust ext)
  with t' ok' show ?thesis by (auto simp: ubus_free_id_def)
qed

section \<open>Properties\<close>

text \<open>
  On a valid tree, for a structure that is not in it, \<open>ubus_alloc_id\<close> always returns. When it
  returns true, the identifier is one of the candidates (the one asked for, or the random values
  drawn), it was in use by no other structure, and exactly the binding from it to the structure is
  added, so that \<open>ubus_find_id\<close> finds the structure and every other identifier is found as before.
  When it returns false, every candidate was in use and no identifier changes.
\<close>

theorem ubus_alloc_id_correct:
  assumes "id_ok t" and "p \<notin> snd ` set (list_head t)"
  shows "\<exists>ok i t' rs'. ubus_alloc_id rs t p val = Some (ok, i, t', rs') \<and> id_ok t' \<and>
    (let candidates = (if val = 0 then rs else [val]) in
     if ok then i \<in> set candidates \<and> ubus_find_id t i = None \<and>
       (\<forall>k. ubus_find_id t' k = (if k = i then Some p else ubus_find_id t k))
     else (\<forall>k\<in>set candidates. ubus_find_id t k \<noteq> None) \<and> (\<forall>k. ubus_find_id t' k = ubus_find_id t k))"
proof -
  obtain ok i t' rs' where r: "ubus_alloc_id rs t p val = Some (ok, i, t', rs')"
    and c: "let candidates = (if val = 0 then rs else [val]) in
      if ok then allocated t p candidates i t'
      else set candidates \<subseteq> dom (ids t) \<and> id_ok t' \<and> ids t' = ids t"
    using alloc_id_ok [OF assms, of rs val] by blast
  have ok': "id_ok t'" using c by (auto simp: Let_def allocated_def split: if_splits)
  have find: "ubus_find_id t = ids t" "ubus_find_id t' = ids t'"
    using ubus_find_id_ids [OF assms(1)] ubus_find_id_ids [OF ok'] by blast+
  have "if ok then i \<in> set (if val = 0 then rs else [val]) \<and> ids t i = None \<and> ids t' = (ids t)(i \<mapsto> p)
    else set (if val = 0 then rs else [val]) \<subseteq> dom (ids t) \<and> ids t' = ids t"
    using c by (simp only: Let_def allocated_def domIff simp_thms if_True if_False split: if_split_asm)
  then show ?thesis unfolding find Let_def
    by (intro exI [of _ ok] exI [of _ i] exI [of _ t'] exI [of _ rs'] conjI r ok')
      (simp only: find domIff subset_eq fun_upd_apply simp_thms if_True if_False split: if_split_asm, blast+)
qed

theorem ubus_alloc_id_correct_witness:
  "\<exists>ok i t' rs'. ubus_alloc_id [7, 2000] (avl_init False :: nat id_tree) 5 0 = Some (ok, i, t', rs') \<and> id_ok t'"
  using ubus_alloc_id_correct [OF id_init_ok(1), of "5 :: nat" "[7, 2000]" 0]
  by (auto simp: avl_init_def)

text \<open>
  The range reserved for system objects is not respected: a random value below
  \<open>UBUS_SYSTEM_OBJECT_MAX\<close> that is not in use is allocated like any other, because the
  \<open>continue\<close> of the loop evaluates the condition, which inserts the identifier.
\<close>

theorem ubus_alloc_id_system_range:
  assumes "id_ok t" and "r < UBUS_SYSTEM_OBJECT_MAX" and "ubus_find_id t r = None"
  shows "\<exists>t'. ubus_alloc_id (r # rs) t p 0 = Some (True, r, t', rs) \<and> ubus_find_id t' r = Some p"
proof -
  have "r \<notin> dom (ids t)" using assms by (auto simp: ubus_find_id_ids)
  from id_insert_new [OF assms(1) this, of p] show ?thesis
    by (auto simp: ubus_alloc_id_def ubus_find_id_ids)
qed

theorem ubus_alloc_id_system_range_witness:
  "\<exists>t'. ubus_alloc_id [5] (avl_init False :: nat id_tree) 9 0 = Some (True, 5, t', []) \<and>
    ubus_find_id t' 5 = Some 9"
  by (rule ubus_alloc_id_system_range [OF id_init_ok(1)])
    (simp_all add: UBUS_SYSTEM_OBJECT_MAX_def ubus_find_id_def avl_find_def avl_init_def)

end
