(* ===== verification/Ubusd_State.thy ===== *)
theory Ubusd_State
  imports Ubusd_Id Blobmsg
begin

text \<open>
  The data of the message bus daemon: the structures of \<open>src/ubus/ubusd.h\<close>,
  \<open>src/ubus/ubusd_obj.h\<close>, \<open>src/ubus/ubusmsg.h\<close> and \<open>src/ubus/ubusd_event.c\<close>, the static variables of the
  daemon, and its environment.

  The heap is one partial map per structure type, from addresses to contents; a freed structure is
  outside the domain and every dereference is a lookup, so that a use after free and a \<open>NULL\<close>
  dereference are \<open>None\<close>. An intrusive list (\<open>struct list_head\<close>, modelled pointer by pointer in
  \<open>Linked_List\<close>) is the list of the addresses of its entries in its owner.

  The environment \<open>env\<close> answers the system calls: the state has a clock that every call advances,
  and an allocation, a write and \<open>errno\<close> are functions of the clock. An allocation that succeeds
  yields the clock as the new address, which is therefore fresh. What the daemon does to the outside
  is the list \<open>out\<close>, oldest first.
\<close>

section \<open>Messages, clients, objects\<close>

record ubus_msghdr =
  version :: byte
  msg_type :: byte
  seq :: u16
  peer :: u32

text \<open>
  \<open>data\<close> is the block the message points to, of \<open>len\<close> bytes. A message whose \<open>refcount\<close> is
  \<open>~0\<close> points to the head of the static buffer \<open>b\<close>; its block is the contents of the buffer at the time
  the message was made: the daemon never writes to \<open>b\<close> while such a message lives, except through it.
\<close>

record ubus_msg_buf =
  refcount :: u32
  hdr :: ubus_msghdr
  mdata :: "byte list"
  mfd :: int

abbreviation len :: "ubus_msg_buf \<Rightarrow> nat" where
  "len m \<equiv> length (mdata m)"

definition UBUSD_CLIENT_BACKLOG :: nat where
  "UBUSD_CLIENT_BACKLOG = 32"

definition UBUS_MAX_MSGLEN :: nat where
  "UBUS_MAX_MSGLEN = 1048576"

record ubus_client =
  cl_id :: u32
  sock_fd :: int
  eof :: bool
  cl_objects :: "nat list"
  tx_queue :: "nat option list"
  txq_cur :: nat
  txq_tail :: nat
  txq_ofs :: nat
  pending_msg :: "nat option"
  pending_msg_offset :: nat
  pending_msg_fd :: int
  hdrbuf :: "byte list"

text \<open>A method is its signature attribute; \<open>name\<close> points into it.\<close>

record ubus_object_type =
  ty_id :: u32
  ty_refcount :: int
  methods :: "byte list list"

record ubus_subscription =
  subscriber :: nat
  target :: nat

text \<open>
  \<open>olist\<close> is the client in whose list \<open>objects\<close> the entry \<open>list\<close> of the object is, \<open>None\<close> when the entry
  is initialised to itself. \<open>recv_msg\<close> tells whether the function pointer is set: the only function
  the daemon stores there is \<open>ubusd_event_recv\<close>.
\<close>

record ubus_object =
  obj_id :: u32
  olist :: "nat option"
  events :: "nat list"
  subscribers :: "nat list"
  target_list :: "nat list"
  otype :: "nat option"
  path_key :: "cstring option"
  oclient :: "nat option"
  recv_msg :: bool
  event_seen :: int
  invoke_seq :: u32

record event_source =
  ev_obj :: nat
  ev_key :: cstring
  partial :: bool

section \<open>Constants of the protocol\<close>

definition UBUS_SYSTEM_OBJECT_EVENT :: u32 where "UBUS_SYSTEM_OBJECT_EVENT = 1"

definition UBUS_MSG_HELLO :: byte where "UBUS_MSG_HELLO = 0"
definition UBUS_MSG_STATUS :: byte where "UBUS_MSG_STATUS = 1"
definition UBUS_MSG_DATA :: byte where "UBUS_MSG_DATA = 2"
definition UBUS_MSG_PING :: byte where "UBUS_MSG_PING = 3"
definition UBUS_MSG_LOOKUP :: byte where "UBUS_MSG_LOOKUP = 4"
definition UBUS_MSG_INVOKE :: byte where "UBUS_MSG_INVOKE = 5"
definition UBUS_MSG_ADD_OBJECT :: byte where "UBUS_MSG_ADD_OBJECT = 6"
definition UBUS_MSG_REMOVE_OBJECT :: byte where "UBUS_MSG_REMOVE_OBJECT = 7"
definition UBUS_MSG_SUBSCRIBE :: byte where "UBUS_MSG_SUBSCRIBE = 8"
definition UBUS_MSG_UNSUBSCRIBE :: byte where "UBUS_MSG_UNSUBSCRIBE = 9"
definition UBUS_MSG_NOTIFY :: byte where "UBUS_MSG_NOTIFY = 10"

definition UBUS_ATTR_STATUS :: nat where "UBUS_ATTR_STATUS = 1"
definition UBUS_ATTR_OBJPATH :: nat where "UBUS_ATTR_OBJPATH = 2"
definition UBUS_ATTR_OBJID :: nat where "UBUS_ATTR_OBJID = 3"
definition UBUS_ATTR_METHOD :: nat where "UBUS_ATTR_METHOD = 4"
definition UBUS_ATTR_OBJTYPE :: nat where "UBUS_ATTR_OBJTYPE = 5"
definition UBUS_ATTR_SIGNATURE :: nat where "UBUS_ATTR_SIGNATURE = 6"
definition UBUS_ATTR_DATA :: nat where "UBUS_ATTR_DATA = 7"
definition UBUS_ATTR_TARGET :: nat where "UBUS_ATTR_TARGET = 8"
definition UBUS_ATTR_ACTIVE :: nat where "UBUS_ATTR_ACTIVE = 9"
definition UBUS_ATTR_NO_REPLY :: nat where "UBUS_ATTR_NO_REPLY = 10"
definition UBUS_ATTR_SUBSCRIBERS :: nat where "UBUS_ATTR_SUBSCRIBERS = 11"
definition UBUS_ATTR_MAX :: nat where "UBUS_ATTR_MAX = 12"

definition UBUS_STATUS_OK :: int where "UBUS_STATUS_OK = 0"
definition UBUS_STATUS_INVALID_COMMAND :: int where "UBUS_STATUS_INVALID_COMMAND = 1"
definition UBUS_STATUS_INVALID_ARGUMENT :: int where "UBUS_STATUS_INVALID_ARGUMENT = 2"
definition UBUS_STATUS_NOT_FOUND :: int where "UBUS_STATUS_NOT_FOUND = 4"
definition UBUS_STATUS_NO_DATA :: int where "UBUS_STATUS_NO_DATA = 5"
definition UBUS_STATUS_PERMISSION_DENIED :: int where "UBUS_STATUS_PERMISSION_DENIED = 6"

lemmas ubus_attrs = UBUS_ATTR_STATUS_def UBUS_ATTR_OBJPATH_def UBUS_ATTR_OBJID_def UBUS_ATTR_METHOD_def
  UBUS_ATTR_OBJTYPE_def UBUS_ATTR_SIGNATURE_def UBUS_ATTR_DATA_def UBUS_ATTR_TARGET_def
  UBUS_ATTR_ACTIVE_def UBUS_ATTR_NO_REPLY_def UBUS_ATTR_SUBSCRIBERS_def UBUS_ATTR_MAX_def

lemmas ubus_msgs = UBUS_MSG_HELLO_def UBUS_MSG_STATUS_def UBUS_MSG_DATA_def UBUS_MSG_PING_def
  UBUS_MSG_LOOKUP_def UBUS_MSG_INVOKE_def UBUS_MSG_ADD_OBJECT_def UBUS_MSG_REMOVE_OBJECT_def
  UBUS_MSG_SUBSCRIBE_def UBUS_MSG_UNSUBSCRIBE_def UBUS_MSG_NOTIFY_def

lemmas ubus_statuses = UBUS_STATUS_OK_def UBUS_STATUS_INVALID_COMMAND_def UBUS_STATUS_INVALID_ARGUMENT_def
  UBUS_STATUS_NOT_FOUND_def UBUS_STATUS_NO_DATA_def UBUS_STATUS_PERMISSION_DENIED_def

section \<open>The environment\<close>

text \<open>
  \<open>e_send E t fd n\<close> is the result of the \<open>sendmsg\<close> or \<open>write\<close> of \<open>n\<close> bytes to \<open>fd\<close> at time \<open>t\<close>, a
  number of bytes or -1; \<open>e_again E t\<close> tells whether \<open>errno\<close> is then \<open>EINTR\<close> or \<open>EAGAIN\<close>.
\<close>

record env =
  e_alloc :: "nat \<Rightarrow> bool"
  e_send :: "nat \<Rightarrow> int \<Rightarrow> nat \<Rightarrow> int"
  e_again :: "nat \<Rightarrow> bool"

text \<open>What the manual pages of \<open>sendmsg\<close> and \<open>write\<close> promise: -1, or at most the length given.\<close>

definition send_ok :: "env \<Rightarrow> bool" where
  "send_ok E \<longleftrightarrow> (\<forall>t fd n. -1 \<le> e_send E t fd n \<and> e_send E t fd n \<le> int n)"

text \<open>
  \<open>Sent fd bytes anc\<close>: the bytes that a call transferred and the file descriptor it passed along;
  \<open>Uloop_add fd w\<close>: \<open>uloop_fd_add\<close> for reading, and for writing when \<open>w\<close>.
\<close>

datatype effect = Sent int "byte list" "int option" | Closed int | Uloop_add int bool | Uloop_delete int

record ubusd =
  clock :: nat
  random :: "u32 list"
  out :: "effect list"
  msgs :: "nat \<rightharpoonup> ubus_msg_buf"
  cls :: "nat \<rightharpoonup> ubus_client"
  objs :: "nat \<rightharpoonup> ubus_object"
  types :: "nat \<rightharpoonup> ubus_object_type"
  subs :: "nat \<rightharpoonup> ubus_subscription"
  evs :: "nat \<rightharpoonup> event_source"
  clients :: "nat id_tree"
  objects :: "nat id_tree"
  obj_types :: "nat id_tree"
  path :: "(cstring, nat) avl_tree"
  patterns :: "(cstring, nat) avl_tree"
  bb :: blob_buf
  retmsg :: nat
  event_obj :: "nat option"
  event_seq :: int
  obj_event_seq :: int

definition calloc :: "env \<Rightarrow> ubusd \<Rightarrow> nat option \<times> ubusd" where
  "calloc E s = (if e_alloc E (clock s) then Some (clock s) else None, s\<lparr>clock := clock s + 1\<rparr>)"

definition sys_close :: "int \<Rightarrow> ubusd \<Rightarrow> ubusd" where
  "sys_close fd s = s\<lparr>out := out s @ [Closed fd]\<rparr>"

definition uloop_fd_add :: "int \<Rightarrow> bool \<Rightarrow> ubusd \<Rightarrow> ubusd" where
  "uloop_fd_add fd w s = s\<lparr>out := out s @ [Uloop_add fd w]\<rparr>"

definition uloop_fd_delete :: "int \<Rightarrow> ubusd \<Rightarrow> ubusd" where
  "uloop_fd_delete fd s = s\<lparr>out := out s @ [Uloop_delete fd]\<rparr>"

text \<open>\<open>++\<close> on an \<open>int\<close>: undefined at its maximum.\<close>

definition incr_int :: "int \<Rightarrow> int option" where
  "incr_int i = (if i < 2 ^ 31 - 1 then Some (i + 1) else None)"

text \<open>The usual arithmetic conversions turn an \<open>int\<close> compared with a \<open>size_t\<close> into a \<open>size_t\<close>.\<close>

definition to_size :: "int \<Rightarrow> nat" where
  "to_size i = nat (i mod 2 ^ 64)"

lemma to_size_nonneg: "0 \<le> i \<Longrightarrow> i < 2 ^ 64 \<Longrightarrow> to_size i = nat i"
  by (simp add: to_size_def)

lemma to_size_minus1: "to_size (-1) = 2 ^ 64 - 1"
  by (simp add: to_size_def)

text \<open>An operation on the static buffer \<open>b\<close>; it allocates at most once.\<close>

definition with_b ::
    "env \<Rightarrow> ((nat \<Rightarrow> bool) \<Rightarrow> blob_buf \<Rightarrow> ('r \<times> blob_buf) option) \<Rightarrow> ubusd \<Rightarrow> ('r \<times> ubusd) option" where
  "with_b E f s = do {
     (r, b) \<leftarrow> f (\<lambda>_. e_alloc E (clock s)) (bb s);
     Some (r, s\<lparr>bb := b, clock := clock s + 1\<rparr>)
   }"

text \<open>
  The bytes of a header in memory. The fields \<open>seq\<close> and \<open>peer\<close> are sent in the byte order of the
  host, little-endian on the platforms of the JNI library.
\<close>

definition hdr_bytes :: "ubus_msghdr \<Rightarrow> byte list" where
  "hdr_bytes h = [version h, msg_type h] @ rev (be16 (seq h)) @ rev (be32 (peer h))"

fun hdr_of_bytes :: "byte list \<Rightarrow> ubus_msghdr" where
  "hdr_of_bytes (v # t # s0 # s1 # p0 # p1 # p2 # p3 # _) =
     \<lparr>version = v, msg_type = t, seq = of_be16 s1 s0, peer = of_be32 p3 p2 p1 p0\<rparr>"
| "hdr_of_bytes _ = \<lparr>version = 0, msg_type = 0, seq = 0, peer = 0\<rparr>"

abbreviation zero_hdr :: ubus_msghdr where
  "zero_hdr \<equiv> \<lparr>version = 0, msg_type = 0, seq = 0, peer = 0\<rparr>"

lemma length_hdr_bytes [simp]: "length (hdr_bytes h) = 8"
  by (simp add: hdr_bytes_def)

lemma hdr_of_bytes_hdr_bytes [simp]: "hdr_of_bytes (hdr_bytes h @ rest) = h"
  by (simp add: hdr_bytes_def be16_def be32_def)

definition msg_bytes :: "ubus_msg_buf \<Rightarrow> byte list" where
  "msg_bytes m = hdr_bytes (hdr m) @ mdata m"

lemma length_msg_bytes [simp]: "length (msg_bytes m) = 8 + len m"
  by (simp add: msg_bytes_def)

text \<open>Everything that reached a file descriptor.\<close>

definition stream_of :: "int \<Rightarrow> effect list \<Rightarrow> byte list" where
  "stream_of fd os = concat (map (\<lambda>x. case x of Sent fd' bs _ \<Rightarrow> if fd' = fd then bs else [] | _ \<Rightarrow> []) os)"

lemma stream_of_simps [simp]:
  "stream_of fd [] = []"
  "stream_of fd (os @ os') = stream_of fd os @ stream_of fd os'"
  "stream_of fd (Sent fd' bs a # os) = (if fd' = fd then bs else []) @ stream_of fd os"
  "stream_of fd (Closed fd' # os) = stream_of fd os"
  "stream_of fd (Uloop_add fd' w # os) = stream_of fd os"
  "stream_of fd (Uloop_delete fd' # os) = stream_of fd os"
  by (simp_all add: stream_of_def)

end
