(* ===== verification/Ubusd_Msg.thy ===== *)
theory Ubusd_Msg
  imports Ubusd_State
begin

text \<open>
  Message buffers and the transmission half of \<open>src/ubus/ubusd.c\<close>: reference counts, the gathered
  write, and the ring of 32 messages that waits for a client whose socket is full.

  \<open>ring c q\<close> says that the slots of the ring of \<open>c\<close> hold exactly the queue \<open>q\<close>, and \<open>tx_ok\<close> adds that
  the queued messages are alive, each with as many references as it has places in the queue. The
  lemmas show that the operations are those of a bounded queue, and that what reached the socket of
  a client followed by what is still queued is the concatenation of the messages accepted for it.
\<close>

section \<open>Operations\<close>

definition array_get :: "'a list \<Rightarrow> nat \<Rightarrow> 'a option" where
  "array_get xs i = (if i < length xs then Some (xs ! i) else None)"

definition upd_cl :: "nat \<Rightarrow> (ubus_client \<Rightarrow> ubus_client) \<Rightarrow> ubusd \<Rightarrow> ubusd option" where
  "upd_cl cl f s = do {
     c \<leftarrow> cls s cl;
     Some (s\<lparr>cls := (cls s)(cl \<mapsto> f c)\<rparr>)
   }"

definition upd_msg :: "nat \<Rightarrow> (ubus_msg_buf \<Rightarrow> ubus_msg_buf) \<Rightarrow> ubusd \<Rightarrow> ubusd option" where
  "upd_msg ub f s = do {
     m \<leftarrow> msgs s ub;
     Some (s\<lparr>msgs := (msgs s)(ub \<mapsto> f m)\<rparr>)
   }"

text \<open>A \<open>NULL\<close> pointer \<open>data\<close> is \<open>None\<close>; then the block stays as \<open>calloc\<close> made it.\<close>

definition ubus_msg_new :: "env \<Rightarrow> byte list option \<Rightarrow> nat \<Rightarrow> bool \<Rightarrow> ubusd \<Rightarrow> nat option \<times> ubusd" where
  "ubus_msg_new E data n shared s =
     (case calloc E s of
       (None, s) \<Rightarrow> (None, s)
     | (Some ub, s) \<Rightarrow>
         (let m = \<lparr>refcount = (if shared then -1 else 1), hdr = zero_hdr,
                   mdata = (case data of Some d \<Rightarrow> d | None \<Rightarrow> replicate n 0), mfd = -1\<rparr>
          in (Some ub, s\<lparr>msgs := (msgs s)(ub \<mapsto> m)\<rparr>)))"

definition ubus_msg_ref :: "env \<Rightarrow> nat \<Rightarrow> ubusd \<Rightarrow> (nat option \<times> ubusd) option" where
  "ubus_msg_ref E ub s = do {
     m \<leftarrow> msgs s ub;
     if refcount m = -1 then Some (ubus_msg_new E (Some (mdata m)) (len m) False s)
     else Some (Some ub, s\<lparr>msgs := (msgs s)(ub \<mapsto> m\<lparr>refcount := refcount m + 1\<rparr>)\<rparr>)
   }"

definition ubus_msg_free :: "nat \<Rightarrow> ubusd \<Rightarrow> ubusd option" where
  "ubus_msg_free ub s = do {
     m \<leftarrow> msgs s ub;
     if refcount m = 1 \<or> refcount m = -1 then
       (let s = (if mfd m \<ge> 0 then sys_close (mfd m) s else s)
        in Some (s\<lparr>msgs := (msgs s)(ub := None)\<rparr>))
     else Some (s\<lparr>msgs := (msgs s)(ub \<mapsto> m\<lparr>refcount := refcount m - 1\<rparr>)\<rparr>)
   }"

definition ubus_msg_writev :: "env \<Rightarrow> int \<Rightarrow> nat \<Rightarrow> nat \<Rightarrow> ubusd \<Rightarrow> (int \<times> ubusd) option" where
  "ubus_msg_writev E fd ub offset s = do {
     m \<leftarrow> msgs s ub;
     let control = (if mfd m < 0 then None else Some (mfd m));
     (block, control) \<leftarrow>
       (if offset < 8 then Some (drop offset (hdr_bytes (hdr m)) @ mdata m, control)
        else
          (let offset = offset - 8 in
           if offset \<le> len m then Some (drop offset (mdata m), None) else None));
     let written = e_send E (clock s) fd (length block);
     Some (written,
       s\<lparr>clock := clock s + 1,
         out := out s @ (if written < 0 then [] else [Sent fd (take (nat written) block) control])\<rparr>)
   }"

definition ubus_msg_enqueue :: "env \<Rightarrow> nat \<Rightarrow> nat \<Rightarrow> ubusd \<Rightarrow> ubusd option" where
  "ubus_msg_enqueue E cl ub s = do {
     c \<leftarrow> cls s cl;
     slot \<leftarrow> array_get (tx_queue c) (txq_tail c);
     if slot \<noteq> None then Some s
     else do {
       (r, s) \<leftarrow> ubus_msg_ref E ub s;
       upd_cl cl (\<lambda>c. c\<lparr>tx_queue := (tx_queue c)[txq_tail c := r],
                        txq_tail := (txq_tail c + 1) mod UBUSD_CLIENT_BACKLOG\<rparr>) s
     }
   }"

text \<open>
  The client may be \<open>NULL\<close>. \<open>written >= ub->len + sizeof(ub->hdr)\<close> compares an \<open>int\<close> with a \<open>size_t\<close>.
\<close>

definition ubus_msg_send :: "env \<Rightarrow> nat option \<Rightarrow> nat \<Rightarrow> bool \<Rightarrow> ubusd \<Rightarrow> ubusd option" where
  "ubus_msg_send E cl ub fr s = do {
     cl \<leftarrow> cl;
     c \<leftarrow> cls s cl;
     slot \<leftarrow> array_get (tx_queue c) (txq_cur c);
     (done, s) \<leftarrow>
       (if slot = None then do {
          (written, s) \<leftarrow> ubus_msg_writev E (sock_fd c) ub 0 s;
          m \<leftarrow> msgs s ub;
          if to_size written \<ge> len m + 8 then Some (True, s)
          else do {
            s \<leftarrow> upd_cl cl (\<lambda>c. c\<lparr>txq_ofs := (if written < 0 then 0 else nat written)\<rparr>) s;
            Some (False, uloop_fd_add (sock_fd c) True s)
          }
        }
        else Some (False, s));
     s \<leftarrow> (if done then Some s else ubus_msg_enqueue E cl ub s);
     if fr then ubus_msg_free ub s else Some s
   }"

definition ubus_msg_head :: "nat \<Rightarrow> ubusd \<Rightarrow> nat option option" where
  "ubus_msg_head cl s = do {
     c \<leftarrow> cls s cl;
     array_get (tx_queue c) (txq_cur c)
   }"

definition ubus_msg_dequeue :: "nat \<Rightarrow> ubusd \<Rightarrow> ubusd option" where
  "ubus_msg_dequeue cl s = do {
     ub \<leftarrow> ubus_msg_head cl s;
     case ub of
       None \<Rightarrow> Some s
     | Some ub \<Rightarrow> do {
         s \<leftarrow> ubus_msg_free ub s;
         upd_cl cl (\<lambda>c. c\<lparr>txq_ofs := 0, tx_queue := (tx_queue c)[txq_cur c := None],
                          txq_cur := (txq_cur c + 1) mod UBUSD_CLIENT_BACKLOG\<rparr>) s
       }
   }"

text \<open>The number of occupied slots decreases with every message taken from the ring.\<close>

definition occupied :: "nat \<Rightarrow> ubusd \<Rightarrow> nat" where
  "occupied cl s = (case cls s cl of None \<Rightarrow> 0 | Some c \<Rightarrow> length (filter (\<lambda>x. x \<noteq> None) (tx_queue c)))"

lemma length_filter_update:
  assumes "i < length xs" and "P (xs ! i)" and "\<not> P x"
  shows "length (filter P (xs[i := x])) < length (filter P xs)"
  using assms
proof (induction xs arbitrary: i)
  case (Cons y ys)
  then show ?case by (cases i) auto
qed simp

lemma cls_msg_free: "ubus_msg_free ub s = Some s' \<Longrightarrow> cls s' = cls s"
  by (auto simp: ubus_msg_free_def sys_close_def Let_def split: bind_splits if_splits)

lemma cls_msg_writev: "ubus_msg_writev E fd ub n s = Some (r, s') \<Longrightarrow> cls s' = cls s \<and> msgs s' = msgs s"
  by (auto simp: ubus_msg_writev_def Let_def split: bind_splits if_splits)

lemma occupied_dequeue:
  assumes "ubus_msg_dequeue cl s = Some s'" and "ubus_msg_head cl s = Some (Some ub)"
  shows "occupied cl s' < occupied cl s"
proof -
  from assms obtain c s1 where c: "cls s cl = Some c" "txq_cur c < length (tx_queue c)"
    "tx_queue c ! txq_cur c = Some ub" "ubus_msg_free ub s = Some s1" "cls s1 = cls s"
    "cls s' = (cls s)(cl \<mapsto> c\<lparr>txq_ofs := 0, tx_queue := (tx_queue c)[txq_cur c := None],
                          txq_cur := (txq_cur c + 1) mod UBUSD_CLIENT_BACKLOG\<rparr>)"
    by (auto simp: ubus_msg_dequeue_def ubus_msg_head_def array_get_def upd_cl_def
      dest: cls_msg_free split: bind_splits if_splits option.splits)
  with length_filter_update [of "txq_cur c" "tx_queue c" "\<lambda>x. x \<noteq> None" None] show ?thesis
    by (simp add: occupied_def)
qed

text \<open>
  The loop at the start of \<open>client_cb\<close> that sends pending data. The result tells whether an error of
  the socket ends the connection.
\<close>

function tx_pending :: "env \<Rightarrow> nat \<Rightarrow> ubusd \<Rightarrow> (bool \<times> ubusd) option" where
  "tx_pending E cl s = do {
     c \<leftarrow> cls s cl;
     h \<leftarrow> ubus_msg_head cl s;
     case h of
       None \<Rightarrow> Some (False, s)
     | Some ub \<Rightarrow> do {
         (written, s1) \<leftarrow> ubus_msg_writev E (sock_fd c) ub (txq_ofs c) s;
         if written < 0 then Some (\<not> e_again E (clock s), s1)
         else do {
           s2 \<leftarrow> upd_cl cl (\<lambda>c. c\<lparr>txq_ofs := txq_ofs c + nat written\<rparr>) s1;
           m \<leftarrow> msgs s2 ub;
           if txq_ofs c + nat written < len m + 8 then Some (False, s2)
           else do {
             s3 \<leftarrow> ubus_msg_dequeue cl s2;
             tx_pending E cl s3
           }
         }
       }
   }"
  by pat_completeness auto
termination
proof (relation "measure (\<lambda>(E, cl, s). occupied cl s)", simp, goal_cases)
  case (1 E cl s c h ub x written s1 s2 m s3)
  have q: "cls s1 = cls s" using 1 by (auto dest: cls_msg_writev)
  with 1 have "ubus_msg_head cl s2 = Some (Some ub)" "occupied cl s2 = occupied cl s"
    by (auto simp: upd_cl_def ubus_msg_head_def occupied_def)
  with 1 occupied_dequeue [of cl s2 s3 ub] show ?case by simp
qed

text \<open>The loop at the start of \<open>handle_client_disconnect\<close>.\<close>

function drain :: "nat \<Rightarrow> ubusd \<Rightarrow> ubusd option" where
  "drain cl s = do {
     h \<leftarrow> ubus_msg_head cl s;
     case h of
       None \<Rightarrow> Some s
     | Some ub \<Rightarrow> do {
         s1 \<leftarrow> ubus_msg_dequeue cl s;
         drain cl s1
       }
   }"
  by pat_completeness auto
termination
  by (relation "measure (\<lambda>(cl, s). occupied cl s)") (auto intro: occupied_dequeue)

declare tx_pending.simps [simp del] drain.simps [simp del]

section \<open>The ring\<close>

definition ring :: "ubus_client \<Rightarrow> nat list \<Rightarrow> bool" where
  "ring c q \<longleftrightarrow>
     length (tx_queue c) = UBUSD_CLIENT_BACKLOG \<and> length q \<le> UBUSD_CLIENT_BACKLOG \<and>
     txq_cur c < UBUSD_CLIENT_BACKLOG \<and>
     txq_tail c = (txq_cur c + length q) mod UBUSD_CLIENT_BACKLOG \<and>
     (\<forall>i<UBUSD_CLIENT_BACKLOG. tx_queue c ! ((txq_cur c + i) mod UBUSD_CLIENT_BACKLOG) =
        (if i < length q then Some (q ! i) else None))"

lemmas ring_defs = ring_def UBUSD_CLIENT_BACKLOG_def

lemma ring_head:
  assumes "ring c q"
  shows "array_get (tx_queue c) (txq_cur c) = Some (case q of [] \<Rightarrow> None | p # _ \<Rightarrow> Some p)"
proof -
  have "tx_queue c ! txq_cur c = (if 0 < length q then Some (q ! 0) else None)"
    using assms unfolding ring_defs by (metis add_0_right mod_less zero_less_numeral)
  with assms show ?thesis by (cases q) (auto simp: array_get_def ring_defs)
qed

lemma ring_tail:
  assumes "ring c q"
  shows "\<exists>x. array_get (tx_queue c) (txq_tail c) = Some x \<and> (x = None \<longleftrightarrow> length q < UBUSD_CLIENT_BACKLOG)"
proof (cases "length q < 32")
  case True
  then have "tx_queue c ! txq_tail c = None" using assms by (simp add: ring_defs)
  with assms True show ?thesis by (auto simp: array_get_def ring_defs)
next
  case False
  then have q: "length q = 32" "txq_tail c = txq_cur c" using assms by (auto simp: ring_defs)
  with ring_head [OF assms] show ?thesis by (cases q) (auto simp: UBUSD_CLIENT_BACKLOG_def)
qed

lemma mod_ring: "a < 32 \<Longrightarrow> i < 32 \<Longrightarrow> (a + i) mod 32 = (if a + i < 32 then a + i else a + i - (32 :: nat))"
  by (simp add: mod_if)

lemma ring_update_other:
  "ring c q \<Longrightarrow> ring (c\<lparr>txq_ofs := n\<rparr>) q"
  by (simp add: ring_def)

lemma ring_push:
  assumes r: "ring c q" and n: "length q < UBUSD_CLIENT_BACKLOG"
  shows "ring (c\<lparr>tx_queue := (tx_queue c)[txq_tail c := Some p],
                 txq_tail := (txq_tail c + 1) mod UBUSD_CLIENT_BACKLOG\<rparr>) (q @ [p])"
proof -
  have "(tx_queue c)[txq_tail c := Some p] ! ((txq_cur c + i) mod 32) =
      (if i < length (q @ [p]) then Some ((q @ [p]) ! i) else None)" if "i < 32" for i
  proof -
    have "(txq_cur c + i) mod 32 = txq_tail c \<longleftrightarrow> i = length q"
      using that n r by (auto simp: ring_defs mod_ring)
    moreover have "(txq_cur c + i) mod 32 < length (tx_queue c)" "txq_tail c < length (tx_queue c)"
      using r by (simp_all add: ring_defs)
    ultimately show ?thesis using r that by (auto simp: ring_defs nth_list_update nth_append)
  qed
  moreover have "((txq_cur c + length q) mod 32 + 1) mod 32 = Suc (txq_cur c + length q) mod 32"
    by presburger
  ultimately show ?thesis using r n by (simp add: ring_defs)
qed

lemma ring_pop:
  assumes r: "ring c (p # q)"
  shows "ring (c\<lparr>txq_ofs := 0, tx_queue := (tx_queue c)[txq_cur c := None],
                 txq_cur := (txq_cur c + 1) mod UBUSD_CLIENT_BACKLOG\<rparr>) q"
proof -
  have "(tx_queue c)[txq_cur c := None] ! (((txq_cur c + 1) mod 32 + i) mod 32) =
      (if i < length q then Some (q ! i) else None)" if i: "i < 32" for i
  proof -
    have m: "((txq_cur c + 1) mod 32 + i) mod 32 = (txq_cur c + Suc i) mod 32" by presburger
    have n: "length q < 32" "txq_cur c < 32" "length (tx_queue c) = 32" using r by (simp_all add: ring_defs)
    show ?thesis
    proof (cases "i = 31")
      case True
      with n have "(txq_cur c + Suc i) mod 32 = txq_cur c" by simp
      with m n True show ?thesis by simp
    next
      case False
      with i n have "(txq_cur c + Suc i) mod 32 \<noteq> txq_cur c" using mod_ring [of "txq_cur c" "Suc i"] by auto
      moreover have "tx_queue c ! ((txq_cur c + Suc i) mod 32) = (if Suc i < length (p # q) then Some ((p # q) ! Suc i) else None)"
        using r i False unfolding ring_defs by (auto dest!: spec [of _ "Suc i"])
      ultimately show ?thesis using m by simp
    qed
  qed
  moreover have "((txq_cur c + 1) mod 32 + length q) mod 32 = (txq_cur c + length (p # q)) mod 32"
    by simp presburger
  ultimately show ?thesis using r by (simp add: ring_defs)
qed

section \<open>What is sent and what is still to be sent\<close>

definition msg_at :: "ubusd \<Rightarrow> nat \<Rightarrow> byte list" where
  "msg_at s p = msg_bytes (the (msgs s p))"

definition unsent :: "ubusd \<Rightarrow> ubus_client \<Rightarrow> nat list \<Rightarrow> byte list" where
  "unsent s c q = drop (txq_ofs c) (concat (map (msg_at s) q))"

definition refs_ok :: "ubusd \<Rightarrow> nat list \<Rightarrow> bool" where
  "refs_ok s q \<longleftrightarrow>
     (\<forall>p\<in>set q. \<exists>m. msgs s p = Some m \<and> refcount m \<noteq> -1 \<and> count_list q p \<le> unat (refcount m))"

definition tx_ok :: "ubusd \<Rightarrow> nat \<Rightarrow> ubus_client \<Rightarrow> nat list \<Rightarrow> bool" where
  "tx_ok s cl c q \<longleftrightarrow>
     cls s cl = Some c \<and> ring c q \<and> refs_ok s q \<and>
     (q \<noteq> [] \<longrightarrow> txq_ofs c < length (msg_at s (hd q)))"

lemma msgs_cong: "msgs s' = msgs s \<Longrightarrow> msg_at s' = msg_at s \<and> refs_ok s' = refs_ok s"
  by (auto simp: msg_at_def refs_ok_def)

lemma unat_pred: "w \<noteq> 0 \<Longrightarrow> unat (w - 1 :: u32) = unat w - 1"
  by (metis unat_gt_0 unat_minus_one)

lemma msg_free_ok:
  assumes "msgs s ub = Some m"
  shows "\<exists>s'. ubus_msg_free ub s = Some s' \<and> cls s' = cls s \<and> clock s' = clock s \<and>
    msgs s' = (msgs s)(ub := if refcount m = 1 \<or> refcount m = -1 then None
                             else Some (m\<lparr>refcount := refcount m - 1\<rparr>)) \<and>
    (\<forall>fd. stream_of fd (out s') = stream_of fd (out s))"
  using assms by (auto simp: ubus_msg_free_def sys_close_def Let_def)

lemma refs_ok_tl:
  assumes r: "refs_ok s (p # q)" and m: "msgs s p = Some m"
    and s': "msgs s' = (msgs s)(p := if refcount m = 1 \<or> refcount m = -1 then None
                             else Some (m\<lparr>refcount := refcount m - 1\<rparr>))"
  shows "refs_ok s' q" and "\<forall>x\<in>set q. msg_at s' x = msg_at s x"
proof -
  have c: "refcount m \<noteq> -1" "count_list q p + 1 \<le> unat (refcount m)"
    using r m by (auto simp: refs_ok_def)
  have p: "refcount m \<noteq> 1" "unat (refcount m - 1) = unat (refcount m) - 1" "refcount m - 1 \<noteq> -1"
    if "p \<in> set q"
  proof -
    have "0 < count_list q p" using that count_list_0_iff [of q p] by simp
    with c(2) have u: "2 \<le> unat (refcount m)" by simp
    then show "refcount m \<noteq> 1" by auto
    from u have "refcount m \<noteq> 0" by auto
    then show "unat (refcount m - 1) = unat (refcount m) - 1" by (rule unat_pred)
    show "refcount m - 1 \<noteq> -1" using \<open>refcount m \<noteq> 0\<close> by simp
  qed
  show "refs_ok s' q" unfolding refs_ok_def
  proof
    fix x
    assume x: "x \<in> set q"
    show "\<exists>m'. msgs s' x = Some m' \<and> refcount m' \<noteq> -1 \<and> count_list q x \<le> unat (refcount m')"
    proof (cases "x = p")
      case True
      with p c x s' show ?thesis by auto
    next
      case False
      with r x s' show ?thesis by (auto simp: refs_ok_def)
    qed
  qed
  show "\<forall>x\<in>set q. msg_at s' x = msg_at s x"
    using p c m s' by (auto simp: msg_at_def msg_bytes_def)
qed

lemma dequeue_ok:
  assumes c: "cls s cl = Some c" "ring c (p # q)" "refs_ok s (p # q)"
  shows "\<exists>s' c'. ubus_msg_dequeue cl s = Some s' \<and> tx_ok s' cl c' q \<and> sock_fd c' = sock_fd c \<and>
    txq_ofs c' = 0 \<and> (\<forall>x\<in>set q. msg_at s' x = msg_at s x) \<and>
    (\<forall>fd. stream_of fd (out s') = stream_of fd (out s))"
proof -
  obtain m where m: "msgs s p = Some m" using c(3) by (auto simp: refs_ok_def)
  from msg_free_ok [OF m] obtain s1 where s1: "ubus_msg_free p s = Some s1" "cls s1 = cls s"
    "msgs s1 = (msgs s)(p := if refcount m = 1 \<or> refcount m = -1 then None
                             else Some (m\<lparr>refcount := refcount m - 1\<rparr>))"
    "\<And>fd. stream_of fd (out s1) = stream_of fd (out s)" by blast
  define c' where "c' = c\<lparr>txq_ofs := 0, tx_queue := (tx_queue c)[txq_cur c := None],
    txq_cur := (txq_cur c + 1) mod UBUSD_CLIENT_BACKLOG\<rparr>"
  have d: "ubus_msg_dequeue cl s = Some (s1\<lparr>cls := (cls s)(cl \<mapsto> c')\<rparr>)"
    using c s1 ring_head [OF c(2)] by (simp add: ubus_msg_dequeue_def ubus_msg_head_def upd_cl_def c'_def)
  have "refs_ok s1 q" "\<forall>x\<in>set q. msg_at s1 x = msg_at s x" using refs_ok_tl [OF c(3) m s1(3)] .
  moreover have "ring c' q" unfolding c'_def by (rule ring_pop [OF c(2)])
  ultimately show ?thesis using s1(4) unfolding d
    by (auto simp: tx_ok_def refs_ok_def msg_at_def c'_def)
qed

lemma writev_ok:
  fixes fd :: int
  assumes m: "msgs s ub = Some m" and n: "n \<le> 8 + len m" and E: "send_ok E"
  defines "r \<equiv> e_send E (clock s) fd (8 + len m - n)"
  shows "\<exists>s'. ubus_msg_writev E fd ub n s = Some (r, s') \<and> cls s' = cls s \<and> msgs s' = msgs s \<and>
    clock s' = clock s + 1 \<and> -1 \<le> r \<and> r \<le> int (8 + len m - n) \<and>
    (\<forall>fd'. stream_of fd' (out s') = stream_of fd' (out s) @
       (if fd' = fd then take (nat r) (drop n (msg_bytes m)) else []))"
proof -
  have r: "-1 \<le> r" "r \<le> int (8 + len m - n)" using E unfolding send_ok_def r_def by blast+
  have "length (drop n (hdr_bytes (hdr m))) + len m = 8 + len m - n" if "n < 8" using that by simp
  moreover have "len m - (n - 8) = 8 + len m - n" if "\<not> n < 8" using that by simp
  moreover have "drop n (msg_bytes m) = drop n (hdr_bytes (hdr m)) @ mdata m" if "n < 8"
    using that by (simp add: msg_bytes_def)
  moreover have "drop n (msg_bytes m) = drop (n - 8) (mdata m)" if "\<not> n < 8"
    using that by (simp add: msg_bytes_def)
  ultimately show ?thesis using m n r
    by (cases "n < 8") (auto simp: ubus_msg_writev_def Let_def r_def [symmetric])
qed

lemma unsent_Cons:
  "txq_ofs c \<le> length (msg_at s p) \<Longrightarrow>
   unsent s c (p # q) = drop (txq_ofs c) (msg_at s p) @ concat (map (msg_at s) q)"
  by (simp add: unsent_def)

text \<open>One call of the loop: the queue loses a prefix, the rest stays, no byte is lost or repeated.\<close>

definition tx_progress :: "env \<Rightarrow> nat \<Rightarrow> ubusd \<Rightarrow> ubus_client \<Rightarrow> nat list \<Rightarrow> bool \<times> ubusd \<Rightarrow> bool" where
  "tx_progress E cl s c q r \<longleftrightarrow>
     (\<exists>c' q' done. q = done @ q' \<and> tx_ok (snd r) cl c' q' \<and> sock_fd c' = sock_fd c \<and>
        stream_of (sock_fd c) (out (snd r)) @ unsent (snd r) c' q' =
          stream_of (sock_fd c) (out s) @ unsent s c q \<and>
        ((\<forall>t fd n. e_send E t fd n = int n) \<longrightarrow> q' = [] \<and> \<not> fst r))"

lemma tx_pending_ok:
  assumes "send_ok E" and "tx_ok s cl c q"
  shows "\<exists>r. tx_pending E cl s = Some r \<and> tx_progress E cl s c q r"
  using assms(2)
proof (induction q arbitrary: s c)
  case Nil
  then have "tx_pending E cl s = Some (False, s)"
    using ring_head [of c "[]"] by (simp add: tx_ok_def tx_pending.simps ubus_msg_head_def)
  then show ?case using Nil by (auto simp: tx_progress_def)
next
  case (Cons p q)
  have c: "cls s cl = Some c" "ring c (p # q)" "refs_ok s (p # q)" "txq_ofs c < length (msg_at s p)"
    using Cons.prems by (auto simp: tx_ok_def)
  then obtain m where m: "msgs s p = Some m" by (auto simp: refs_ok_def)
  then have at: "msg_at s p = msg_bytes m" by (simp add: msg_at_def)
  let ?r = "e_send E (clock s) (sock_fd c) (8 + len m - txq_ofs c)"
  have n: "txq_ofs c \<le> 8 + len m" using c(4) at by simp
  from writev_ok [OF m n assms(1), of "sock_fd c"] obtain s1 where
    s1: "ubus_msg_writev E (sock_fd c) p (txq_ofs c) s = Some (?r, s1)" "cls s1 = cls s" "msgs s1 = msgs s"
      "-1 \<le> ?r" "?r \<le> int (8 + len m - txq_ofs c)"
      "stream_of (sock_fd c) (out s1) = stream_of (sock_fd c) (out s) @
         take (nat ?r) (drop (txq_ofs c) (msg_bytes m))"
    by auto
  have head: "ubus_msg_head cl s = Some (Some p)"
    using c ring_head [OF c(2)] by (simp add: ubus_msg_head_def)
  have same: "tx_ok s1 cl c (p # q)" "unsent s1 c (p # q) = unsent s c (p # q)"
    using c s1(2) msgs_cong [OF s1(3)] by (simp_all add: tx_ok_def unsent_def)
  show ?case
  proof (cases "?r < 0")
    case True
    then have "tx_pending E cl s = Some (\<not> e_again E (clock s), s1)"
      using c s1 head by (simp add: tx_pending.simps)
    moreover have "stream_of (sock_fd c) (out s1) = stream_of (sock_fd c) (out s)"
      using s1(6) True by simp
    moreover have "\<not> (\<forall>t fd n. e_send E t fd n = int n)" using True by (metis of_nat_less_0_iff)
    ultimately show ?thesis using same
      by - (rule exI, erule conjI, unfold tx_progress_def, rule exI [of _ c], rule exI [of _ "p # q"], simp)
  next
    case False
    define c2 where "c2 = c\<lparr>txq_ofs := txq_ofs c + nat ?r\<rparr>"
    define s2 where "s2 = s1\<lparr>cls := (cls s)(cl \<mapsto> c2)\<rparr>"
    have u: "upd_cl cl (\<lambda>c. c\<lparr>txq_ofs := txq_ofs c + nat ?r\<rparr>) s1 = Some s2"
      using c s1(2) by (simp add: upd_cl_def s2_def c2_def)
    have heap: "msg_at s2 = msg_at s" "refs_ok s2 (p # q)" "msgs s2 p = Some m" "out s2 = out s1"
      using c(3) s1(3) m by (auto simp: s2_def msg_at_def refs_ok_def)
    have ring2: "ring c2 (p # q)" unfolding c2_def by (rule ring_update_other [OF c(2)])
    have step: "stream_of (sock_fd c) (out s2) @ drop (txq_ofs c2) (msg_at s p) =
        stream_of (sock_fd c) (out s) @ drop (txq_ofs c) (msg_at s p)"
      using s1(6) heap(4) at
      by (simp add: c2_def add.commute [of "txq_ofs c"] drop_drop [symmetric] append_take_drop_id del: drop_drop)
    have le: "txq_ofs c2 \<le> length (msg_at s p)" using s1(5) n False at by (simp add: c2_def)
    show ?thesis
    proof (cases "txq_ofs c2 < len m + 8")
      case True
      then have "tx_pending E cl s = Some (False, s2)"
        using c s1 head u heap False by (simp add: tx_pending.simps c2_def)
      moreover have "tx_ok s2 cl c2 (p # q)"
        using ring2 heap True at by (simp add: tx_ok_def s2_def)
      moreover have "\<not> (\<forall>t fd n. e_send E t fd n = int n)"
        using True n by (intro notI) (simp add: c2_def)
      moreover have "stream_of (sock_fd c) (out s2) @ unsent s2 c2 (p # q) =
          stream_of (sock_fd c) (out s) @ unsent s c (p # q)"
        using step le c(4) heap by (simp add: unsent_Cons)
      moreover have "sock_fd c2 = sock_fd c" by (simp add: c2_def)
      ultimately show ?thesis unfolding tx_progress_def by fastforce
    next
      case full: False
      have at2: "msg_at s2 x = msg_at s x" for x using heap by simp
      from dequeue_ok [of s2 cl c2 p q] ring2 heap(2) obtain s3 c3 where
        s3: "ubus_msg_dequeue cl s2 = Some s3" "tx_ok s3 cl c3 q" "sock_fd c3 = sock_fd c2"
          "txq_ofs c3 = 0" "\<forall>x\<in>set q. msg_at s3 x = msg_at s x"
          "\<forall>fd. stream_of fd (out s3) = stream_of fd (out s2)"
        unfolding at2 by (auto simp: s2_def)
      from Cons.IH [OF s3(2)] obtain r where r: "tx_pending E cl s3 = Some r" "tx_progress E cl s3 c3 q r"
        by blast
      have tx: "tx_pending E cl s = Some r"
        using c s1 head u heap(3) False full s3(1) r(1) by (simp add: tx_pending.simps [of E cl s] c2_def)
      have fd: "sock_fd c3 = sock_fd c" using s3(3) by (simp add: c2_def)
      have "drop (txq_ofs c2) (msg_at s p) = []" using full at by simp
      then have "stream_of (sock_fd c) (out s3) @ unsent s3 c3 q = stream_of (sock_fd c) (out s) @ unsent s c (p # q)"
        using step s3 c(4) by (simp add: unsent_Cons) (simp add: unsent_def cong: map_cong)
      then have "tx_progress E cl s c (p # q) r"
        using r(2) fd unfolding tx_progress_def by (metis append_Cons)
      with tx show ?thesis by blast
    qed
  qed
qed

section \<open>Sending\<close>

text \<open>The bytes that stand for a message in a queue: a shared message is queued as a copy.\<close>

definition queued_bytes :: "ubus_msg_buf \<Rightarrow> byte list" where
  "queued_bytes m = (if refcount m = -1 then hdr_bytes zero_hdr @ mdata m else msg_bytes m)"

lemma length_queued_bytes [simp]: "length (queued_bytes m) = 8 + len m"
  by (simp add: queued_bytes_def)

text \<open>
  A message that is sent is alive, has a length a message can have, and a reference of its own
  besides those of the queue when it is not shared; there is room for another reference.
\<close>

definition sendable :: "ubusd \<Rightarrow> nat list \<Rightarrow> nat \<Rightarrow> ubus_msg_buf \<Rightarrow> bool" where
  "sendable s q ub m \<longleftrightarrow>
     msgs s ub = Some m \<and> len m < 2 ^ 31 \<and> ub < clock s \<and>
     (refcount m = -1 \<or> count_list q ub < unat (refcount m) \<and> unat (refcount m) < 2 ^ 32 - 2) \<and>
     (refcount m = -1 \<longrightarrow> ub \<notin> set q)"

definition fresh_heap :: "ubusd \<Rightarrow> bool" where
  "fresh_heap s \<longleftrightarrow> (\<forall>p\<in>dom (msgs s). p < clock s)"

lemma unat_succ: "unat (w :: u32) < 2 ^ 32 - 2 \<Longrightarrow> unat (w + 1) = unat w + 1 \<and> w + 1 \<noteq> -1"
proof -
  assume w: "unat w < 2 ^ 32 - 2"
  then have u: "unat (w + 1) = unat w + 1" by (simp add: unat_word_ariths)
  have "unat (-1 :: u32) = 2 ^ 32 - 1" by (simp add: unsigned_minus_1_eq_mask mask_eq_exp_minus_1)
  with w u have "unat (w + 1) \<noteq> unat (-1 :: u32)" by linarith
  with u show ?thesis by metis
qed

lemma enqueue_ok:
  assumes c: "cls s cl = Some c" "ring c q" "refs_ok s q" "length q < UBUSD_CLIENT_BACKLOG"
    and m: "sendable s q ub m" and fresh: "fresh_heap s" and mem: "refcount m = -1 \<Longrightarrow> e_alloc E (clock s)"
  shows "\<exists>s' c' p. ubus_msg_enqueue E cl ub s = Some s' \<and> cls s' = (cls s)(cl \<mapsto> c') \<and> ring c' (q @ [p]) \<and>
    refs_ok s' (q @ [p]) \<and> txq_ofs c' = txq_ofs c \<and> sock_fd c' = sock_fd c \<and> out s' = out s \<and>
    (\<forall>x\<in>set q. msg_at s' x = msg_at s x) \<and> msg_at s' p = queued_bytes m \<and>
    (\<exists>m'. msgs s' ub = Some m' \<and> (if refcount m = -1 then m' = m \<and> p \<noteq> ub
       else m' = m\<lparr>refcount := refcount m + 1\<rparr> \<and> p = ub))"
proof -
  from ring_tail [OF c(2)] c(4) have slot: "array_get (tx_queue c) (txq_tail c) = Some None" by auto
  show ?thesis
  proof (cases "refcount m = -1")
    case True
    let ?p = "clock s"
    define m' where "m' = \<lparr>refcount = 1, hdr = zero_hdr, mdata = mdata m, mfd = -1\<rparr>"
    define c' where "c' = c\<lparr>tx_queue := (tx_queue c)[txq_tail c := Some ?p],
        txq_tail := (txq_tail c + 1) mod UBUSD_CLIENT_BACKLOG\<rparr>"
    define s' where "s' = s\<lparr>clock := clock s + 1, msgs := (msgs s)(?p \<mapsto> m'), cls := (cls s)(cl \<mapsto> c')\<rparr>"
    have "ubus_msg_enqueue E cl ub s = Some s'"
      using c(1) slot m True mem
      by (simp add: ubus_msg_enqueue_def sendable_def ubus_msg_ref_def ubus_msg_new_def calloc_def upd_cl_def
        s'_def c'_def m'_def)
    moreover have new: "?p \<notin> dom (msgs s)" using fresh by (auto simp: fresh_heap_def)
    then have "?p \<notin> set q" using c(3) by (auto simp: refs_ok_def)
    then have "refs_ok s' (q @ [?p])" "\<forall>x\<in>set q. msg_at s' x = msg_at s x" "msg_at s' ?p = queued_bytes m"
      using c(3) True by (auto simp: refs_ok_def s'_def m'_def msg_at_def queued_bytes_def msg_bytes_def)
    moreover have "ring c' (q @ [?p])" unfolding c'_def by (rule ring_push [OF c(2,4)])
    moreover have "ub \<noteq> ?p" using m by (auto simp: sendable_def)
    then have "msgs s' ub = Some m" using m by (simp add: s'_def sendable_def)
    ultimately show ?thesis using True \<open>ub \<noteq> ?p\<close>
      by - (rule exI [of _ s'], rule exI [of _ c'], rule exI [of _ ?p], simp add: s'_def c'_def)
  next
    case False
    define m' where "m' = m\<lparr>refcount := refcount m + 1\<rparr>"
    define c' where "c' = c\<lparr>tx_queue := (tx_queue c)[txq_tail c := Some ub],
        txq_tail := (txq_tail c + 1) mod UBUSD_CLIENT_BACKLOG\<rparr>"
    define s' where "s' = s\<lparr>msgs := (msgs s)(ub \<mapsto> m'), cls := (cls s)(cl \<mapsto> c')\<rparr>"
    have "ubus_msg_enqueue E cl ub s = Some s'"
      using c(1) slot m False
      by (simp add: ubus_msg_enqueue_def sendable_def ubus_msg_ref_def upd_cl_def s'_def c'_def m'_def)
    moreover have rc: "count_list q ub < unat (refcount m)" "unat (refcount m + 1) = unat (refcount m) + 1"
        "refcount m + 1 \<noteq> -1" "msgs s ub = Some m"
      using m False unat_succ [of "refcount m"] by (auto simp: sendable_def)
    then have "refs_ok s' (q @ [ub])" "\<forall>x\<in>set q. msg_at s' x = msg_at s x" "msg_at s' ub = queued_bytes m"
      using c(3) False by (auto simp: refs_ok_def s'_def m'_def msg_at_def queued_bytes_def msg_bytes_def)
    moreover have "ring c' (q @ [ub])" unfolding c'_def by (rule ring_push [OF c(2,4)])
    ultimately show ?thesis using False
      by - (rule exI [of _ s'], rule exI [of _ c'], rule exI [of _ ub], simp add: s'_def c'_def m'_def)
  qed
qed

text \<open>The release of the sender's own reference leaves the queue as it is.\<close>

lemma free_own_ref:
  assumes ok: "tx_ok s cl c q" and m: "msgs s ub = Some m"
    and own: "refcount m = -1 \<and> ub \<notin> set q \<or> refcount m \<noteq> -1 \<and> count_list q ub < unat (refcount m)"
  shows "\<exists>s'. ubus_msg_free ub s = Some s' \<and> tx_ok s' cl c q \<and> unsent s' c q = unsent s c q \<and>
    (\<forall>fd. stream_of fd (out s') = stream_of fd (out s))"
proof -
  from msg_free_ok [OF m] obtain s' where s': "ubus_msg_free ub s = Some s'" "cls s' = cls s"
    "msgs s' = (msgs s)(ub := if refcount m = 1 \<or> refcount m = -1 then None
                             else Some (m\<lparr>refcount := refcount m - 1\<rparr>))"
    "\<forall>fd. stream_of fd (out s') = stream_of fd (out s)" by blast
  have keep: "refs_ok s' q \<and> (\<forall>x\<in>set q. msg_at s' x = msg_at s x)"
  proof (cases "refcount m = -1")
    case True
    with own s'(3) ok show ?thesis by (auto simp: refs_ok_def tx_ok_def msg_at_def)
  next
    case False
    with own ok m have "refs_ok s (ub # q)" by (auto simp: refs_ok_def tx_ok_def)
    from refs_ok_tl [OF this m s'(3)] show ?thesis by blast
  qed
  then have "unsent s' c q = unsent s c q" by (simp add: unsent_def cong: map_cong)
  moreover have "tx_ok s' cl c q" using ok keep s'(2) by (cases q) (auto simp: tx_ok_def)
  ultimately show ?thesis using s' by blast
qed

definition accepted_bytes :: "env \<Rightarrow> ubusd \<Rightarrow> ubus_client \<Rightarrow> nat list \<Rightarrow> ubus_msg_buf \<Rightarrow> byte list" where
  "accepted_bytes E s c q m =
     (if q = [] then
        (let written = e_send E (clock s) (sock_fd c) (8 + len m) in
         if written < 0 then [] else take (nat written) (msg_bytes m) @ drop (nat written) (queued_bytes m))
      else if length q < UBUSD_CLIENT_BACKLOG then queued_bytes m
      else [])"

lemma accepted_bytes_own:
  "refcount m \<noteq> -1 \<Longrightarrow> accepted_bytes E s c q m =
     (if if q = [] then e_send E (clock s) (sock_fd c) (8 + len m) \<ge> 0 else length q < UBUSD_CLIENT_BACKLOG
      then msg_bytes m else [])"
  by (auto simp: accepted_bytes_def queued_bytes_def Let_def)

lemma enqueue_result:
  assumes c: "cls s cl = Some c" "ring c q" "refs_ok s q" "length q < UBUSD_CLIENT_BACKLOG"
    and m: "sendable s q ub m" and fresh: "fresh_heap s" and mem: "refcount m = -1 \<Longrightarrow> e_alloc E (clock s)"
    and ofs: "txq_ofs c < (if q = [] then 8 + len m else length (msg_at s (hd q)))"
  shows "\<exists>s' c' p m'. ubus_msg_enqueue E cl ub s = Some s' \<and> tx_ok s' cl c' (q @ [p]) \<and> sock_fd c' = sock_fd c \<and>
    out s' = out s \<and>
    unsent s' c' (q @ [p]) = (if q = [] then drop (txq_ofs c) (queued_bytes m) else unsent s c q @ queued_bytes m) \<and>
    msgs s' ub = Some m' \<and>
    (refcount m' = -1 \<and> ub \<notin> set (q @ [p]) \<or> refcount m' \<noteq> -1 \<and> count_list (q @ [p]) ub < unat (refcount m'))"
proof -
  from enqueue_ok [OF c m fresh mem] obtain s' c' p m' where
    e: "ubus_msg_enqueue E cl ub s = Some s'" "cls s' = (cls s)(cl \<mapsto> c')" "ring c' (q @ [p])"
      "refs_ok s' (q @ [p])" "txq_ofs c' = txq_ofs c" "sock_fd c' = sock_fd c" "out s' = out s"
      "\<forall>x\<in>set q. msg_at s' x = msg_at s x" "msg_at s' p = queued_bytes m" "msgs s' ub = Some m'"
      "if refcount m = -1 then m' = m \<and> p \<noteq> ub else m' = m\<lparr>refcount := refcount m + 1\<rparr> \<and> p = ub"
    by blast
  have "concat (map (msg_at s') (q @ [p])) = concat (map (msg_at s) q) @ queued_bytes m"
    using e(8,9) by (simp cong: map_cong)
  moreover have "txq_ofs c \<le> length (concat (map (msg_at s) q))" if "q \<noteq> []"
    using ofs that by (cases q) auto
  ultimately have "unsent s' c' (q @ [p]) = (if q = [] then drop (txq_ofs c) (queued_bytes m) else unsent s c q @ queued_bytes m)"
    using e(5) by (simp add: unsent_def del: concat_append map_append)
  moreover have "tx_ok s' cl c' (q @ [p])"
    using e ofs by (cases q) (auto simp: tx_ok_def)
  moreover have "refcount m' = -1 \<and> ub \<notin> set (q @ [p]) \<or> refcount m' \<noteq> -1 \<and> count_list (q @ [p]) ub < unat (refcount m')"
    using e(11) m unat_succ [of "refcount m"] by (auto simp: sendable_def split: if_splits)
  ultimately show ?thesis using e by blast
qed

lemma sendable_own:
  "sendable s q ub m \<Longrightarrow>
   refcount m = -1 \<and> ub \<notin> set q \<or> refcount m \<noteq> -1 \<and> count_list q ub < unat (refcount m)"
  by (auto simp: sendable_def)

text \<open>What holds at the label \<open>out\<close> of \<open>ubus_msg_send\<close>, before the caller's reference is released.\<close>

definition send_post :: "env \<Rightarrow> ubusd \<Rightarrow> nat \<Rightarrow> ubus_client \<Rightarrow> nat list \<Rightarrow> nat \<Rightarrow> ubus_msg_buf \<Rightarrow> ubusd \<Rightarrow> bool" where
  "send_post E s cl c q ub m s1 \<longleftrightarrow>
     (\<exists>c' q' m'. tx_ok s1 cl c' q' \<and> sock_fd c' = sock_fd c \<and>
        stream_of (sock_fd c) (out s1) @ unsent s1 c' q' =
          stream_of (sock_fd c) (out s) @ unsent s c q @ accepted_bytes E s c q m \<and>
        msgs s1 ub = Some m' \<and>
        (refcount m' = -1 \<and> ub \<notin> set q' \<or> refcount m' \<noteq> -1 \<and> count_list q' ub < unat (refcount m')))"

lemma send_postI:
  assumes "tx_ok s1 cl c' q'" and "sock_fd c' = sock_fd c" and "msgs s1 ub = Some m'"
    and "stream_of (sock_fd c) (out s1) @ unsent s1 c' q' =
      stream_of (sock_fd c) (out s) @ unsent s c q @ accepted_bytes E s c q m"
    and "refcount m' = -1 \<and> ub \<notin> set q' \<or> refcount m' \<noteq> -1 \<and> count_list q' ub < unat (refcount m')"
  shows "send_post E s cl c q ub m s1"
  unfolding send_post_def using assms by blast

lemma send_behind:
  assumes ok: "tx_ok s cl c q" and m: "sendable s q ub m" and fresh: "fresh_heap s"
    and mem: "refcount m = -1 \<Longrightarrow> e_alloc E (clock s)" and ne: "q \<noteq> []"
  shows "\<exists>s1. ubus_msg_send E (Some cl) ub fr s = (if fr then ubus_msg_free ub s1 else Some s1) \<and>
    send_post E s cl c q ub m s1"
proof -
  have c: "cls s cl = Some c" "ring c q" "refs_ok s q" using ok by (auto simp: tx_ok_def)
  have head: "array_get (tx_queue c) (txq_cur c) = Some (Some (hd q))"
    using ring_head [OF c(2)] ne by (cases q) auto
  show ?thesis
  proof (cases "length q < UBUSD_CLIENT_BACKLOG")
    case True
    have "txq_ofs c < (if q = [] then 8 + len m else length (msg_at s (hd q)))"
      using ok ne by (auto simp: tx_ok_def)
    from enqueue_result [OF c True m fresh mem this] obtain s' c' p m' where
      e: "ubus_msg_enqueue E cl ub s = Some s'" "tx_ok s' cl c' (q @ [p])" "sock_fd c' = sock_fd c"
        "out s' = out s" "unsent s' c' (q @ [p]) = unsent s c q @ queued_bytes m" "msgs s' ub = Some m'"
        "refcount m' = -1 \<and> ub \<notin> set (q @ [p]) \<or> refcount m' \<noteq> -1 \<and> count_list (q @ [p]) ub < unat (refcount m')"
      using ne by auto
    have "ubus_msg_send E (Some cl) ub fr s = (if fr then ubus_msg_free ub s' else Some s')"
      using c(1) head e(1) by (simp add: ubus_msg_send_def)
    moreover have "send_post E s cl c q ub m s'"
      by (rule send_postI [OF e(2,3,6) _ e(7)]) (simp add: e accepted_bytes_def ne True)
    ultimately show ?thesis by blast
  next
    case full: False
    with ring_tail [OF c(2)] obtain x where "array_get (tx_queue c) (txq_tail c) = Some (Some x)" by auto
    then have "ubus_msg_enqueue E cl ub s = Some s" using c(1) by (simp add: ubus_msg_enqueue_def)
    then have "ubus_msg_send E (Some cl) ub fr s = (if fr then ubus_msg_free ub s else Some s)"
      using c(1) head by (simp add: ubus_msg_send_def)
    moreover have "send_post E s cl c q ub m s"
      by (rule send_postI [OF ok refl _ _ sendable_own [OF m]])
        (use m full ne in \<open>auto simp: accepted_bytes_def sendable_def\<close>)
    ultimately show ?thesis by blast
  qed
qed

lemma send_rest:
  assumes c: "cls s cl = Some c" "ring c []" and m: "sendable s [] ub m" and fresh: "fresh_heap s"
    and mem: "refcount m = -1 \<Longrightarrow> e_alloc E (clock s + 1)"
    and s1: "cls s1 = cls s" "msgs s1 = msgs s" "clock s1 = clock s + 1"
    and n: "n < 8 + len m"
  shows "\<exists>s' c' p m'. ubus_msg_enqueue E cl ub
      (uloop_fd_add (sock_fd c) True (s1\<lparr>cls := (cls s)(cl \<mapsto> c\<lparr>txq_ofs := n\<rparr>)\<rparr>)) = Some s' \<and>
    tx_ok s' cl c' [p] \<and> sock_fd c' = sock_fd c \<and> stream_of (sock_fd c) (out s') = stream_of (sock_fd c) (out s1) \<and>
    unsent s' c' [p] = drop n (queued_bytes m) \<and> msgs s' ub = Some m' \<and>
    (refcount m' = -1 \<and> ub \<notin> set [p] \<or> refcount m' \<noteq> -1 \<and> count_list [p] ub < unat (refcount m'))"
proof -
  define c2 where "c2 = c\<lparr>txq_ofs := n\<rparr>"
  define s2 where "s2 = uloop_fd_add (sock_fd c) True (s1\<lparr>cls := (cls s)(cl \<mapsto> c2)\<rparr>)"
  have h2: "msgs s2 = msgs s" "cls s2 cl = Some c2" "clock s2 = clock s + 1"
    "stream_of (sock_fd c) (out s2) = stream_of (sock_fd c) (out s1)"
    using s1 by (simp_all add: s2_def uloop_fd_add_def)
  have "ring c2 []" unfolding c2_def by (rule ring_update_other [OF c(2)])
  moreover have "sendable s2 [] ub m" using m h2 by (simp add: sendable_def)
  moreover have "fresh_heap s2" using fresh h2 by (simp add: fresh_heap_def less_SucI)
  moreover have "txq_ofs c2 < 8 + len m" using n by (simp add: c2_def)
  ultimately obtain s' c' p m' where
    "ubus_msg_enqueue E cl ub s2 = Some s'" "tx_ok s' cl c' [p]" "sock_fd c' = sock_fd c2" "out s' = out s2"
    "unsent s' c' [p] = drop n (queued_bytes m)" "msgs s' ub = Some m'"
    "refcount m' = -1 \<and> ub \<notin> set [p] \<or> refcount m' \<noteq> -1 \<and> count_list [p] ub < unat (refcount m')"
    using enqueue_result [of s2 cl c2 "[]" ub m E] h2(2,3) mem
    by (fastforce simp: c2_def UBUSD_CLIENT_BACKLOG_def refs_ok_def)
  with h2(4) show ?thesis unfolding c2_def [symmetric] s2_def [symmetric]
    by - (rule exI [of _ s'], rule exI [of _ c'], rule exI [of _ p], rule exI [of _ m'], simp add: c2_def)
qed

lemma send_direct:
  assumes E: "send_ok E" and ok: "tx_ok s cl c []" and m: "sendable s [] ub m" and fresh: "fresh_heap s"
    and mem: "refcount m = -1 \<Longrightarrow> e_alloc E (clock s + 1)"
  shows "\<exists>s1. ubus_msg_send E (Some cl) ub fr s = (if fr then ubus_msg_free ub s1 else Some s1) \<and>
    send_post E s cl c [] ub m s1"
proof -
  have c: "cls s cl = Some c" "ring c []" using ok by (auto simp: tx_ok_def)
  have ub: "msgs s ub = Some m" "len m < 2 ^ 31" using m by (auto simp: sendable_def)
  have head: "array_get (tx_queue c) (txq_cur c) = Some None" using ring_head [OF c(2)] by simp
  let ?r = "e_send E (clock s) (sock_fd c) (8 + len m)"
  from writev_ok [OF ub(1) _ E, of 0 "sock_fd c"] obtain s1 where
    s1: "ubus_msg_writev E (sock_fd c) ub 0 s = Some (?r, s1)" "cls s1 = cls s" "msgs s1 = msgs s"
      "clock s1 = clock s + 1" "-1 \<le> ?r" "?r \<le> int (8 + len m)"
      "stream_of (sock_fd c) (out s1) = stream_of (sock_fd c) (out s) @ take (nat ?r) (msg_bytes m)"
    by auto
  show ?thesis
  proof (cases "to_size ?r \<ge> len m + 8")
    case True
    then have acc: "accepted_bytes E s c [] m = take (nat ?r) (msg_bytes m)"
      using s1(5,6) ub(2) by (cases "?r < 0") (auto simp: accepted_bytes_def Let_def to_size_nonneg)
    have "ubus_msg_send E (Some cl) ub fr s = (if fr then ubus_msg_free ub s1 else Some s1)"
      using c(1) head s1 ub(1) True by (simp add: ubus_msg_send_def)
    moreover have "tx_ok s1 cl c []" using c s1(2) by (simp add: tx_ok_def refs_ok_def)
    from send_postI [OF this refl _ _ sendable_own [OF m]] have "send_post E s cl c [] ub m s1"
      using s1(3,7) ub acc by (simp add: unsent_def)
    ultimately show ?thesis by blast
  next
    case False
    with s1(5,6) ub(2) have r: "0 \<le> ?r" "nat ?r < 8 + len m"
      by (cases "?r = -1"; auto simp: to_size_minus1 to_size_nonneg)+
    obtain s' c' p m' where
      e: "ubus_msg_enqueue E cl ub
          (uloop_fd_add (sock_fd c) True (s1\<lparr>cls := (cls s)(cl \<mapsto> c\<lparr>txq_ofs := nat ?r\<rparr>)\<rparr>)) = Some s'"
        "tx_ok s' cl c' [p]" "sock_fd c' = sock_fd c" "stream_of (sock_fd c) (out s') = stream_of (sock_fd c) (out s1)"
        "unsent s' c' [p] = drop (nat ?r) (queued_bytes m)" "msgs s' ub = Some m'"
        "refcount m' = -1 \<and> ub \<notin> set [p] \<or> refcount m' \<noteq> -1 \<and> count_list [p] ub < unat (refcount m')"
      using send_rest [OF c m fresh mem s1(2-4) r(2)] by blast
    have "ubus_msg_send E (Some cl) ub fr s = (if fr then ubus_msg_free ub s' else Some s')"
      using c(1) head s1(1,2,3) ub(1) False r(1) e(1) by (simp add: ubus_msg_send_def upd_cl_def)
    moreover have "send_post E s cl c [] ub m s'"
      by (rule send_postI [OF e(2,3,6) _ e(7)])
        (use e(4,5) s1(7) r in \<open>simp add: accepted_bytes_def unsent_def Let_def\<close>)
    ultimately show ?thesis by blast
  qed
qed

lemma send_ok_post:
  assumes E: "send_ok E" and ok: "tx_ok s cl c q" and m: "sendable s q ub m" and fresh: "fresh_heap s"
    and mem: "refcount m = -1 \<Longrightarrow> e_alloc E (clock s) \<and> e_alloc E (clock s + 1)"
  shows "\<exists>s' c' q'. ubus_msg_send E (Some cl) ub fr s = Some s' \<and> tx_ok s' cl c' q' \<and> sock_fd c' = sock_fd c \<and>
    stream_of (sock_fd c) (out s') @ unsent s' c' q' =
      stream_of (sock_fd c) (out s) @ unsent s c q @ accepted_bytes E s c q m"
proof -
  obtain s1 where s1: "ubus_msg_send E (Some cl) ub fr s = (if fr then ubus_msg_free ub s1 else Some s1)"
    "send_post E s cl c q ub m s1"
    using send_behind [OF ok m fresh] send_direct [OF E _ _ fresh] ok m mem by (cases "q = []") blast+
  from s1(2) obtain c' q' m' where p: "tx_ok s1 cl c' q'" "sock_fd c' = sock_fd c" "msgs s1 ub = Some m'"
    "stream_of (sock_fd c) (out s1) @ unsent s1 c' q' =
      stream_of (sock_fd c) (out s) @ unsent s c q @ accepted_bytes E s c q m"
    "refcount m' = -1 \<and> ub \<notin> set q' \<or> refcount m' \<noteq> -1 \<and> count_list q' ub < unat (refcount m')"
    unfolding send_post_def by blast
  from free_own_ref [OF p(1,3,5)] obtain s2 where
    s2: "ubus_msg_free ub s1 = Some s2" "tx_ok s2 cl c' q'" "unsent s2 c' q' = unsent s1 c' q'"
      "\<forall>fd. stream_of fd (out s2) = stream_of fd (out s1)" by blast
  show ?thesis
  proof (cases fr)
    case True
    with s1(1) s2 p show ?thesis by (metis (no_types, lifting))
  next
    case False
    with s1(1) p show ?thesis by (metis (no_types, lifting))
  qed
qed

section \<open>Properties\<close>

text \<open>
  C27: \<open>ubus_msg_send\<close> keeps the stream of a client intact for messages with a buffer of their own.
  Whatever the socket answers, the call returns, the ring still holds a queue of live messages, and
  the bytes sent to the client followed by the bytes still queued are extended by exactly the bytes
  of the message, header first, or not at all. The message is dropped exactly when the ring
  has 32 messages, or when it is empty and the write fails.
\<close>

theorem ubus_msg_send_stream:
  assumes "send_ok E" and "tx_ok s cl c q" and "sendable s q ub m" and "refcount m \<noteq> -1" and "fresh_heap s"
  shows "\<exists>s' c' q'. ubus_msg_send E (Some cl) ub fr s = Some s' \<and> tx_ok s' cl c' q' \<and>
    stream_of (sock_fd c) (out s') @ unsent s' c' q' =
      stream_of (sock_fd c) (out s) @ unsent s c q @
      (if if q = [] then e_send E (clock s) (sock_fd c) (8 + len m) \<ge> 0 else length q < UBUSD_CLIENT_BACKLOG
       then msg_bytes m else [])"
proof -
  from accepted_bytes_own [OF assms(4), where E = E and s = s and c = c and q = q, symmetric] send_ok_post [OF assms(1-3,5), of fr] assms(4) show ?thesis by (simp only:) blast
qed

text \<open>An environment, and a daemon with one client whose ring is empty.\<close>

definition quiet_env :: env where
  "quiet_env = \<lparr>e_alloc = (\<lambda>_. True), e_send = (\<lambda>_ _ n. int n), e_again = (\<lambda>_. True)\<rparr>"

definition idle_client :: "int \<Rightarrow> ubus_client" where
  "idle_client fd =
     \<lparr>cl_id = 7, sock_fd = fd, eof = False, cl_objects = [], tx_queue = replicate 32 None,
      txq_cur = 0, txq_tail = 0, txq_ofs = 0, pending_msg = None, pending_msg_offset = 0,
      pending_msg_fd = -1, hdrbuf = replicate 12 0\<rparr>"

definition sample_buf :: "u32 \<Rightarrow> ubus_msg_buf" where
  "sample_buf rc =
     \<lparr>refcount = rc, hdr = \<lparr>version = 0, msg_type = 2, seq = 5, peer = 9\<rparr>, mdata = [0, 0, 0, 4], mfd = -1\<rparr>"

definition one_client :: "ubus_msg_buf \<Rightarrow> ubusd" where
  "one_client m =
     \<lparr>clock = 10, random = [], out = [], msgs = [3 \<mapsto> m], cls = [1 \<mapsto> idle_client 4], objs = Map.empty,
      types = Map.empty, subs = Map.empty, evs = Map.empty, clients = avl_init False,
      objects = avl_init False, obj_types = avl_init False, path = avl_init False,
      patterns = avl_init True, bb = \<lparr>buf = [], head = None\<rparr>, retmsg = 0, event_obj = None,
      event_seq = 0, obj_event_seq = 1\<rparr>"

lemma idle_tx_ok: "tx_ok (one_client m) 1 (idle_client 4) []"
  by (simp add: tx_ok_def one_client_def ring_def idle_client_def UBUSD_CLIENT_BACKLOG_def refs_ok_def)

lemma quiet_send_ok: "send_ok quiet_env" "send_ok (quiet_env\<lparr>e_send := (\<lambda>_ _ _. -1)\<rparr>)"
    "send_ok (quiet_env\<lparr>e_send := (\<lambda>_ _ _. 0)\<rparr>)"
  by (simp_all add: send_ok_def quiet_env_def)

lemma sample_sendable: "rc = 1 \<or> rc = -1 \<Longrightarrow> sendable (one_client (sample_buf rc)) [] 3 (sample_buf rc)"
    "fresh_heap (one_client (sample_buf rc))"
  by (auto simp: sendable_def one_client_def sample_buf_def fresh_heap_def)

theorem ubus_msg_send_stream_witness:
  "\<exists>s' c' q'. ubus_msg_send quiet_env (Some 1) 3 True (one_client (sample_buf 1)) = Some s' \<and>
    tx_ok s' 1 c' q' \<and> stream_of 4 (out s') @ unsent s' c' q' = msg_bytes (sample_buf 1)"
proof -
  have "stream_of 4 (out (one_client m)) = []" "e_send quiet_env t fd n = int n" "unsent s c [] = []"
    "sock_fd (idle_client 4) = 4" "refcount (sample_buf 1) \<noteq> -1" for m t fd n s c
    by (simp_all add: one_client_def quiet_env_def unsent_def idle_client_def sample_buf_def)
  with ubus_msg_send_stream [OF quiet_send_ok(1) idle_tx_ok sample_sendable(1) _ sample_sendable(2), of 1 True]
  show ?thesis by simp
qed

text \<open>
  C34: A message is lost when the socket of a client cannot take it at once: with an empty ring and
  a write that fails (\<open>EAGAIN\<close> included), \<open>ubus_msg_send\<close> neither sends nor queues anything, for
  shared and unshared messages. The result -1 is compared with a \<open>size_t\<close>, which makes it the largest
  value, so the branch for \<open>written < 0\<close> that queues the message from its start is never taken.
\<close>

theorem ubus_msg_send_error_drops:
  assumes "tx_ok s cl c []" and "msgs s ub = Some m" and "len m < 2 ^ 31"
    and "e_send E (clock s) (sock_fd c) (8 + len m) = -1"
  shows "\<exists>s'. ubus_msg_send E (Some cl) ub False s = Some s' \<and> cls s' = cls s \<and> msgs s' = msgs s \<and> out s' = out s"
proof -
  have c: "cls s cl = Some c" "ring c []" using assms(1) by (auto simp: tx_ok_def)
  have "array_get (tx_queue c) (txq_cur c) = Some None" using ring_head [OF c(2)] by simp
  moreover have "len m + 8 \<le> to_size (-1)" using assms(3) by (simp add: to_size_minus1)
  ultimately show ?thesis using c(1) assms(2,4)
    by (simp add: ubus_msg_send_def ubus_msg_writev_def Let_def)
qed

theorem ubus_msg_send_error_drops_witness:
  "\<exists>s'. ubus_msg_send (quiet_env\<lparr>e_send := (\<lambda>_ _ _. -1)\<rparr>) (Some 1) 3 False (one_client (sample_buf 1)) = Some s' \<and>
    cls s' = cls (one_client (sample_buf 1)) \<and> msgs s' = msgs (one_client (sample_buf 1)) \<and>
    out s' = out (one_client (sample_buf 1))"
  by (rule ubus_msg_send_error_drops [OF idle_tx_ok, of _ _ "sample_buf 1"])
    (simp_all add: one_client_def sample_buf_def)

text \<open>
  C35: A shared message (\<open>refcount\<close> \<open>~0\<close>, the form of every reply and every event) that the socket takes
  only in part is queued without its header: the bytes for the client are extended by the part that was
  written and then by the rest of a message with the same data whose header is all zero, because
  \<open>ubus_msg_ref\<close> copies the data and not \<open>hdr\<close>.
\<close>

theorem ubus_msg_send_shared_loses_header:
  assumes "send_ok E" and "tx_ok s cl c []" and "sendable s [] ub m" and "refcount m = -1" and "fresh_heap s"
    and "e_alloc E (clock s)" and "e_alloc E (clock s + 1)"
    and "e_send E (clock s) (sock_fd c) (8 + len m) = int n"
  shows "\<exists>s' c' q'. ubus_msg_send E (Some cl) ub True s = Some s' \<and> tx_ok s' cl c' q' \<and>
    stream_of (sock_fd c) (out s') @ unsent s' c' q' =
      stream_of (sock_fd c) (out s) @ take n (msg_bytes m) @ drop n (hdr_bytes zero_hdr @ mdata m)"
proof -
  have "unsent s c [] @ accepted_bytes E s c [] m = take n (msg_bytes m) @ drop n (hdr_bytes zero_hdr @ mdata m)"
    using assms(4,8) by (simp add: accepted_bytes_def queued_bytes_def unsent_def Let_def)
  from this [symmetric] send_ok_post [OF assms(1-3,5), of True] assms(6,7) show ?thesis by (simp only:) blast
qed

theorem ubus_msg_send_shared_loses_header_witness:
  "\<exists>s' c' q'. ubus_msg_send (quiet_env\<lparr>e_send := (\<lambda>_ _ _. 0)\<rparr>) (Some 1) 3 True (one_client (sample_buf (-1))) = Some s' \<and>
    tx_ok s' 1 c' q' \<and> stream_of 4 (out s') @ unsent s' c' q' = replicate 8 0 @ [0, 0, 0, 4]"
proof -
  let ?E = "quiet_env\<lparr>e_send := (\<lambda>_ _ _. 0)\<rparr>"
  have "stream_of 4 (out (one_client m)) = []" "e_send ?E t fd n = int 0" "e_alloc ?E t"
    "sock_fd (idle_client 4) = 4" "refcount (sample_buf (-1)) = -1" for m t fd n
    by (simp_all add: one_client_def quiet_env_def idle_client_def sample_buf_def)
  moreover have "hdr_bytes zero_hdr @ mdata (sample_buf (-1)) = replicate 8 0 @ [0, 0, 0, 4]"
    by (simp add: hdr_bytes_def be16_def be32_def sample_buf_def numeral_eq_Suc)
  ultimately show ?thesis
    using ubus_msg_send_shared_loses_header [OF quiet_send_ok(3) idle_tx_ok sample_sendable(1) _ sample_sendable(2), of "-1" 0]
    by (simp del: replicate.simps)
qed

text \<open>
  C28: The transmission loop of \<open>client_cb\<close> terminates and loses and repeats nothing: whatever the
  sequence of answers of the socket, the queue loses a prefix, what is left is a valid queue,
  and the bytes sent followed by the bytes still queued stay the same. When the socket takes
  everything, the queue becomes empty.
\<close>

theorem tx_pending_stream:
  assumes "send_ok E" and "tx_ok s cl c q"
  shows "\<exists>d s' c' q' done. tx_pending E cl s = Some (d, s') \<and> q = done @ q' \<and> tx_ok s' cl c' q' \<and>
    stream_of (sock_fd c) (out s') @ unsent s' c' q' = stream_of (sock_fd c) (out s) @ unsent s c q \<and>
    ((\<forall>t fd n. e_send E t fd n = int n) \<longrightarrow> q' = [] \<and> \<not> d)"
  using tx_pending_ok [OF assms] unfolding tx_progress_def by (metis prod.exhaust_sel)

text \<open>A client for which one message is queued, three bytes of which have been sent.\<close>

definition waiting_client :: ubus_client where
  "waiting_client = (idle_client 4)\<lparr>tx_queue := (replicate 32 None)[0 := Some 3], txq_tail := 1, txq_ofs := 3\<rparr>"

definition waiting_state :: ubusd where
  "waiting_state = (one_client (sample_buf 1))\<lparr>cls := [1 \<mapsto> waiting_client]\<rparr>"

lemma waiting_tx_ok: "tx_ok waiting_state 1 waiting_client [3]"
  by (simp add: tx_ok_def waiting_state_def one_client_def ring_def waiting_client_def idle_client_def UBUSD_CLIENT_BACKLOG_def refs_ok_def
    sample_buf_def msg_at_def msg_bytes_def)

theorem tx_pending_stream_witness:
  "\<exists>d s' c'. tx_pending quiet_env 1 waiting_state = Some (d, s') \<and> tx_ok s' 1 c' [] \<and>
    stream_of 4 (out s') = drop 3 (msg_bytes (sample_buf 1)) \<and> \<not> d"
proof -
  have "stream_of 4 (out waiting_state) = []" "sock_fd waiting_client = 4" "unsent waiting_state waiting_client [3] = drop 3 (msg_bytes (sample_buf 1))"
    "e_send quiet_env t fd n = int n" "unsent s c [] = []" for t fd n s c
    by (simp_all add: waiting_state_def one_client_def waiting_client_def idle_client_def quiet_env_def unsent_def msg_at_def)
  then show ?thesis using tx_pending_stream [OF quiet_send_ok(1) waiting_tx_ok] by auto
qed

end
