(* ===== verification/Ubusd_Reply.thy ===== *)
theory Ubusd_Reply
  imports Ubusd_Msg
begin

text \<open>
  The messages the daemon builds in its static buffer \<open>b\<close>: the helpers at the start of
  \<open>src/ubus/ubusd_proto.c\<close>, and the notification of a change of subscription, which the objects use.
  The return values of the functions that fill \<open>b\<close> are ignored by the code, and so they are here.
\<close>

definition b_init :: "env \<Rightarrow> ubusd \<Rightarrow> ubusd option" where
  "b_init E s = map_option snd (with_b E (\<lambda>a b. blob_buf_init a b 0) s)"

definition b_put_int32 :: "env \<Rightarrow> nat \<Rightarrow> u32 \<Rightarrow> ubusd \<Rightarrow> ubusd option" where
  "b_put_int32 E i v s = map_option snd (with_b E (\<lambda>a b. blob_put_u32 a b (int i) v) s)"

definition b_put_int8 :: "env \<Rightarrow> nat \<Rightarrow> byte \<Rightarrow> ubusd \<Rightarrow> ubusd option" where
  "b_put_int8 E i v s = map_option snd (with_b E (\<lambda>a b. blob_put_u8 a b (int i) v) s)"

definition b_put_string :: "env \<Rightarrow> nat \<Rightarrow> cstring \<Rightarrow> ubusd \<Rightarrow> ubusd option" where
  "b_put_string E i v s = map_option snd (with_b E (\<lambda>a b. blob_put_string a b (int i) v) s)"

text \<open>\<open>blob_put\<close> from the offset \<open>p\<close> of a block of memory.\<close>

definition b_put :: "env \<Rightarrow> nat \<Rightarrow> byte list \<Rightarrow> nat \<Rightarrow> u32 \<Rightarrow> ubusd \<Rightarrow> ubusd option" where
  "b_put E i m p n s = map_option snd (with_b E (\<lambda>a b. blob_put a b (int i) (Some (drop p m)) n) s)"

definition b_nest_start :: "env \<Rightarrow> nat \<Rightarrow> ubusd \<Rightarrow> (int \<times> ubusd) option" where
  "b_nest_start E i s = do {
     (c, s) \<leftarrow> with_b E (\<lambda>a b. blob_nest_start a b (int i)) s;
     c \<leftarrow> c;
     Some (c, s)
   }"

definition b_nest_end :: "int \<Rightarrow> ubusd \<Rightarrow> ubusd option" where
  "b_nest_end c s = do {
     b \<leftarrow> blob_nest_end (bb s) c;
     Some (s\<lparr>bb := b\<rparr>)
   }"

definition upd_obj :: "nat \<Rightarrow> (ubus_object \<Rightarrow> ubus_object) \<Rightarrow> ubusd \<Rightarrow> ubusd option" where
  "upd_obj obj f s = do {
     x \<leftarrow> objs s obj;
     Some (s\<lparr>objs := (objs s)(obj \<mapsto> f x)\<rparr>)
   }"

definition ubus_msg_close_fd :: "nat \<Rightarrow> ubusd \<Rightarrow> ubusd option" where
  "ubus_msg_close_fd ub s = do {
     m \<leftarrow> msgs s ub;
     if mfd m < 0 then Some s else upd_msg ub (\<lambda>m. m\<lparr>mfd := -1\<rparr>) (sys_close (mfd m) s)
   }"

definition ubus_msg_init :: "nat \<Rightarrow> byte \<Rightarrow> u16 \<Rightarrow> u32 \<Rightarrow> ubusd \<Rightarrow> ubusd option" where
  "ubus_msg_init ub ty sq pr s =
     upd_msg ub (\<lambda>m. m\<lparr>hdr := \<lparr>version = 0, msg_type = ty, seq = sq, peer = pr\<rparr>\<rparr>) s"

definition ubus_msg_from_blob :: "env \<Rightarrow> bool \<Rightarrow> ubusd \<Rightarrow> (nat option \<times> ubusd) option" where
  "ubus_msg_from_blob E shared s = do {
     h \<leftarrow> head (bb s);
     n \<leftarrow> blob_raw_len (buf (bb s)) h;
     d \<leftarrow> mem_read (buf (bb s)) h (unat n);
     Some (ubus_msg_new E (Some d) (unat n) shared s)
   }"

definition ubus_reply_from_blob :: "env \<Rightarrow> nat \<Rightarrow> bool \<Rightarrow> ubusd \<Rightarrow> (nat option \<times> ubusd) option" where
  "ubus_reply_from_blob E ub shared s = do {
     (new, s) \<leftarrow> ubus_msg_from_blob E shared s;
     case new of
       None \<Rightarrow> Some (None, s)
     | Some new \<Rightarrow> do {
         m \<leftarrow> msgs s ub;
         s \<leftarrow> ubus_msg_init new UBUS_MSG_DATA (seq (hdr m)) (peer (hdr m)) s;
         Some (Some new, s)
       }
   }"

definition ubus_send_msg_from_blob :: "env \<Rightarrow> nat option \<Rightarrow> nat \<Rightarrow> byte \<Rightarrow> ubusd \<Rightarrow> ubusd option" where
  "ubus_send_msg_from_blob E cl ub ty s = do {
     (new, s) \<leftarrow> ubus_reply_from_blob E ub True s;
     case new of
       None \<Rightarrow> Some s
     | Some new \<Rightarrow> do {
         s \<leftarrow> upd_msg new (\<lambda>m. m\<lparr>hdr := (hdr m)\<lparr>msg_type := ty\<rparr>\<rparr>) s;
         ubus_msg_send E cl new True s
       }
   }"

definition ubusd_send_hello :: "env \<Rightarrow> nat \<Rightarrow> ubusd \<Rightarrow> (bool \<times> ubusd) option" where
  "ubusd_send_hello E cl s = do {
     s \<leftarrow> b_init E s;
     (ub, s) \<leftarrow> ubus_msg_from_blob E True s;
     case ub of
       None \<Rightarrow> Some (False, s)
     | Some ub \<Rightarrow> do {
         c \<leftarrow> cls s cl;
         s \<leftarrow> ubus_msg_init ub UBUS_MSG_HELLO 0 (cl_id c) s;
         s \<leftarrow> ubus_msg_send E (Some cl) ub True s;
         Some (True, s)
       }
   }"

definition ubus_notify_subscription :: "env \<Rightarrow> nat \<Rightarrow> ubusd \<Rightarrow> ubusd option" where
  "ubus_notify_subscription E obj s = do {
     x \<leftarrow> objs s obj;
     let active = (subscribers x \<noteq> []);
     s \<leftarrow> b_init E s;
     s \<leftarrow> b_put_int32 E UBUS_ATTR_OBJID (obj_id x) s;
     s \<leftarrow> b_put_int8 E UBUS_ATTR_ACTIVE (if active then 1 else 0) s;
     (ub, s) \<leftarrow> ubus_msg_from_blob E False s;
     case ub of
       None \<Rightarrow> Some s
     | Some ub \<Rightarrow> do {
         s \<leftarrow> upd_obj obj (\<lambda>x. x\<lparr>invoke_seq := invoke_seq x + 1\<rparr>) s;
         s \<leftarrow> ubus_msg_init ub UBUS_MSG_NOTIFY (ucast (invoke_seq x + 1)) 0 s;
         ubus_msg_send E (oclient x) ub True s
       }
   }"

section \<open>What messages leave alone\<close>

text \<open>
  The operations on messages and on the buffer \<open>b\<close> touch the heap of messages, the rings of the
  clients, the clock and the outside, and leave the \<open>rest\<close> of the daemon as it is, in particular the
  identifiers of the clients and the lists of their objects. The clock never goes back.
\<close>

definition strip :: "ubus_client \<Rightarrow> ubus_client" where
  "strip c = c\<lparr>eof := False, tx_queue := [], txq_cur := 0, txq_tail := 0, txq_ofs := 0, pending_msg := None,
     pending_msg_offset := 0, pending_msg_fd := -1, hdrbuf := []\<rparr>"

definition rest :: "ubusd \<Rightarrow> ubusd" where
  "rest s = s\<lparr>clock := 0, out := [], msgs := Map.empty, cls := (\<lambda>p. map_option strip (cls s p)),
     bb := \<lparr>buf = [], head = None\<rparr>\<rparr>"

definition frame :: "ubusd \<Rightarrow> ubusd \<Rightarrow> bool" where
  "frame s s' \<longleftrightarrow> rest s' = rest s \<and> clock s \<le> clock s'"

named_theorems frames "operations that leave the rest of the daemon alone"

lemma strip_upds [simp]:
  "strip (c\<lparr>eof := a\<rparr>) = strip c" "strip (c\<lparr>tx_queue := b\<rparr>) = strip c" "strip (c\<lparr>txq_cur := d\<rparr>) = strip c"
  "strip (c\<lparr>txq_tail := d\<rparr>) = strip c" "strip (c\<lparr>txq_ofs := d\<rparr>) = strip c" "strip (c\<lparr>pending_msg := e\<rparr>) = strip c"
  "strip (c\<lparr>pending_msg_offset := d\<rparr>) = strip c" "strip (c\<lparr>pending_msg_fd := f\<rparr>) = strip c"
  "strip (c\<lparr>hdrbuf := g\<rparr>) = strip c"
  by (simp_all add: strip_def)

lemma strip_fields [simp]: "cl_id (strip c) = cl_id c" "sock_fd (strip c) = sock_fd c"
    "cl_objects (strip c) = cl_objects c" "strip (strip c) = strip c"
  by (simp_all add: strip_def)

lemma rest_upds [simp]:
  "rest (s\<lparr>clock := a\<rparr>) = rest s" "rest (s\<lparr>out := b\<rparr>) = rest s" "rest (s\<lparr>msgs := c\<rparr>) = rest s"
  "rest (s\<lparr>bb := e\<rparr>) = rest s"
  by (simp_all add: rest_def)

lemma rest_cls: "cls s cl = Some c \<Longrightarrow> strip d = strip c \<Longrightarrow> rest (s\<lparr>cls := (cls s)(cl \<mapsto> d)\<rparr>) = rest s"
  by (simp add: rest_def fun_eq_iff)

lemma rest_other_upds:
  "rest (s\<lparr>objs := a\<rparr>) = (rest s)\<lparr>objs := a\<rparr>" "rest (s\<lparr>event_seq := b\<rparr>) = (rest s)\<lparr>event_seq := b\<rparr>"
  "rest (s\<lparr>obj_event_seq := b\<rparr>) = (rest s)\<lparr>obj_event_seq := b\<rparr>" "rest (s\<lparr>evs := c\<rparr>) = (rest s)\<lparr>evs := c\<rparr>"
  "rest (s\<lparr>patterns := d\<rparr>) = (rest s)\<lparr>patterns := d\<rparr>"
  by (simp_all add: rest_def)

lemma rest_fields:
  assumes "rest s' = rest s"
  shows "random s' = random s" "objs s' = objs s" "types s' = types s" "subs s' = subs s" "evs s' = evs s"
    "clients s' = clients s" "objects s' = objects s" "obj_types s' = obj_types s" "path s' = path s"
    "patterns s' = patterns s" "retmsg s' = retmsg s" "event_obj s' = event_obj s"
    "event_seq s' = event_seq s" "obj_event_seq s' = obj_event_seq s"
    "map_option strip (cls s' p) = map_option strip (cls s p)"
proof -
  have f: "random (rest s) = random s" "objs (rest s) = objs s" "types (rest s) = types s" "subs (rest s) = subs s"
    "evs (rest s) = evs s" "clients (rest s) = clients s" "objects (rest s) = objects s"
    "obj_types (rest s) = obj_types s" "path (rest s) = path s" "patterns (rest s) = patterns s"
    "retmsg (rest s) = retmsg s" "event_obj (rest s) = event_obj s" "event_seq (rest s) = event_seq s"
    "obj_event_seq (rest s) = obj_event_seq s" "map_option strip (cls s p) = cls (rest s) p" for s
    by (simp_all add: rest_def)
  show "random s' = random s" "objs s' = objs s" "types s' = types s" "subs s' = subs s" "evs s' = evs s"
    "clients s' = clients s" "objects s' = objects s" "obj_types s' = obj_types s" "path s' = path s"
    "patterns s' = patterns s" "retmsg s' = retmsg s" "event_obj s' = event_obj s"
    "event_seq s' = event_seq s" "obj_event_seq s' = obj_event_seq s"
    "map_option strip (cls s' p) = map_option strip (cls s p)"
    using assms f by metis+
qed

lemma rest_effects [simp]:
  "rest (sys_close fd s) = rest s" "rest (uloop_fd_add fd w s) = rest s" "rest (uloop_fd_delete fd s) = rest s"
  "clock (sys_close fd s) = clock s" "clock (uloop_fd_add fd w s) = clock s" "clock (uloop_fd_delete fd s) = clock s"
  by (simp_all add: sys_close_def uloop_fd_add_def uloop_fd_delete_def)

lemma frame_rest: "frame s s' \<Longrightarrow> rest s' = rest s"
  by (simp add: frame_def)

lemma frame_refl [simp, intro]: "frame s s"
  by (simp add: frame_def)

lemma frame_trans: "frame s s1 \<Longrightarrow> frame s1 s2 \<Longrightarrow> frame s s2"
  by (simp add: frame_def)

lemma frame_upds [simp]:
  "frame s (s1\<lparr>out := b\<rparr>) = frame s s1" "frame s (s1\<lparr>msgs := c\<rparr>) = frame s s1" "frame s (s1\<lparr>bb := e\<rparr>) = frame s s1"
  "frame s (sys_close fd s1) = frame s s1" "frame s (uloop_fd_add fd w s1) = frame s s1"
  "frame s (uloop_fd_delete fd s1) = frame s s1"
  by (simp_all add: frame_def)

lemma frame_cls: "cls s cl = Some c \<Longrightarrow> strip d = strip c \<Longrightarrow> frame s (s\<lparr>cls := (cls s)(cl \<mapsto> d)\<rparr>)"
  by (simp add: frame_def rest_cls)

lemma frame_calloc [frames]: "calloc E s = (r, s') \<Longrightarrow> frame s s'"
  by (auto simp: calloc_def frame_def)

lemma frame_new [frames]: "ubus_msg_new E d n sh s = (r, s') \<Longrightarrow> frame s s'"
  by (auto simp: ubus_msg_new_def Let_def split: prod.splits option.splits dest: frame_calloc)

lemma frame_upd_cl: "upd_cl cl f s = Some s' \<Longrightarrow> (\<And>c. strip (f c) = strip c) \<Longrightarrow> frame s s'"
  by (auto simp: upd_cl_def split: bind_splits intro: frame_cls)

lemma frame_upd_msg [frames]: "upd_msg ub f s = Some s' \<Longrightarrow> frame s s'"
  by (auto simp: upd_msg_def split: bind_splits)

lemma frame_free [frames]: "ubus_msg_free ub s = Some s' \<Longrightarrow> frame s s'"
  by (auto simp: ubus_msg_free_def Let_def split: bind_splits if_splits)

lemma frame_writev [frames]: "ubus_msg_writev E fd ub n s = Some (r, s') \<Longrightarrow> frame s s'"
  by (auto simp: ubus_msg_writev_def Let_def frame_def split: bind_splits if_splits)

lemma frame_ref [frames]: "ubus_msg_ref E ub s = Some (r, s') \<Longrightarrow> frame s s'"
  by (auto simp: ubus_msg_ref_def split: bind_splits if_splits dest: frame_new)

lemma frame_enqueue [frames]: "ubus_msg_enqueue E cl ub s = Some s' \<Longrightarrow> frame s s'"
  by (auto simp: ubus_msg_enqueue_def frame_def split: bind_splits if_splits
    dest!: frame_ref frame_upd_cl)

lemma frame_send [frames]: "ubus_msg_send E cl ub fr s = Some s' \<Longrightarrow> frame s s'"
  by (auto simp: ubus_msg_send_def frame_def split: bind_splits if_splits
    dest!: frame_writev frame_upd_cl frame_enqueue frame_free)

lemma frame_with_b [frames]: "with_b E f s = Some (r, s') \<Longrightarrow> frame s s'"
  by (auto simp: with_b_def frame_def split: bind_splits)

lemma frame_b [frames]:
  "b_init E s = Some s' \<Longrightarrow> frame s s'"
  "b_put_int32 E i v s = Some s' \<Longrightarrow> frame s s'"
  "b_put_int8 E i w s = Some s' \<Longrightarrow> frame s s'"
  "b_put_string E i str s = Some s' \<Longrightarrow> frame s s'"
  "b_put E i m p n s = Some s' \<Longrightarrow> frame s s'"
  "b_nest_start E i s = Some (c, s') \<Longrightarrow> frame s s'"
  "b_nest_end c s = Some s' \<Longrightarrow> frame s s'"
  by (auto simp: b_init_def b_put_int32_def b_put_int8_def b_put_string_def b_put_def b_nest_start_def
    b_nest_end_def split: bind_splits dest: frame_with_b)

lemma frame_from_blob [frames]: "ubus_msg_from_blob E sh s = Some (r, s') \<Longrightarrow> frame s s'"
  by (auto simp: ubus_msg_from_blob_def split: bind_splits dest: frame_new)

lemma frame_init [frames]: "ubus_msg_init ub t q p s = Some s' \<Longrightarrow> frame s s'"
  unfolding ubus_msg_init_def by (rule frame_upd_msg)

lemma frame_close_fd [frames]: "ubus_msg_close_fd ub s = Some s' \<Longrightarrow> frame s s'"
  by (auto simp: ubus_msg_close_fd_def frame_def split: bind_splits if_splits dest!: frame_upd_msg)

lemma frame_reply [frames]: "ubus_reply_from_blob E ub sh s = Some (r, s') \<Longrightarrow> frame s s'"
  by (auto simp: ubus_reply_from_blob_def frame_def split: bind_splits option.splits dest!: frame_from_blob frame_init)

lemma frame_send_blob [frames]: "ubus_send_msg_from_blob E cl ub t s = Some s' \<Longrightarrow> frame s s'"
  by (auto simp: ubus_send_msg_from_blob_def frame_def split: bind_splits option.splits
    dest!: frame_reply frame_upd_msg frame_send)

lemma frame_hello [frames]: "ubusd_send_hello E cl s = Some (r, s') \<Longrightarrow> frame s s'"
  by (auto simp: ubusd_send_hello_def frame_def split: bind_splits option.splits
    dest!: frame_b frame_from_blob frame_init frame_send)

end
