(* ===== verification/Ubusd_Event.thy ===== *)
theory Ubusd_Event
  imports Ubusd_Reply "HOL-Library.Sublist"
begin

text \<open>
  Events: \<open>src/ubus/ubusd_event.c\<close>. A client registers patterns for its objects in the tree
  \<open>patterns\<close>, in alphabetical order and with duplicates; an event goes to the objects with a pattern
  that matches its identifier. The lemmas show that the loop over the tree, which stops as soon as the
  number of matching characters falls, sends the event for exactly the patterns that match.

  \<open>list_del\<close> on an entry takes it out of whatever list it is in: \<open>unlink_event\<close> removes it from the
  lists of all objects. \<open>ubusd_event_init\<close> is with the objects, which it needs.
\<close>

section \<open>Operations\<close>

definition unlink_event :: "nat \<Rightarrow> ubusd \<Rightarrow> ubusd" where
  "unlink_event ev s = s\<lparr>objs := (\<lambda>p. map_option (\<lambda>x. x\<lparr>events := removeAll ev (events x)\<rparr>) (objs s p))\<rparr>"

definition ubusd_delete_event_source :: "nat \<Rightarrow> ubusd \<Rightarrow> ubusd option" where
  "ubusd_delete_event_source ev s = do {
     e \<leftarrow> evs s ev;
     let s = unlink_event ev s;
     t \<leftarrow> avl_delete (patterns s) (ev_key e, ev);
     Some (s\<lparr>patterns := t, evs := (evs s)(ev := None)\<rparr>)
   }"

function ubusd_event_cleanup_object :: "nat \<Rightarrow> ubusd \<Rightarrow> ubusd option" where
  "ubusd_event_cleanup_object obj s = do {
     x \<leftarrow> objs s obj;
     case events x of
       [] \<Rightarrow> Some s
     | ev # _ \<Rightarrow> do {
         s1 \<leftarrow> ubusd_delete_event_source ev s;
         ubusd_event_cleanup_object obj s1
       }
   }"
  by pat_completeness auto

lemma delete_event_source_objs:
  "ubusd_delete_event_source ev s = Some s1 \<Longrightarrow>
   objs s1 = (\<lambda>p. map_option (\<lambda>x. x\<lparr>events := removeAll ev (events x)\<rparr>) (objs s p))"
  by (auto simp: ubusd_delete_event_source_def unlink_event_def Let_def split: bind_splits)

lemma length_removeAll_hd: "length (removeAll x (x # xs)) < length (x # xs)"
  by (simp add: le_imp_less_Suc)

termination ubusd_event_cleanup_object
proof (relation "measure (\<lambda>(obj, s). case objs s obj of None \<Rightarrow> 0 | Some x \<Rightarrow> length (events x))", simp, goal_cases)
  case (1 obj s x ev evs s1)
  from delete_event_source_objs [OF 1(3)] 1(1,2) length_removeAll_hd [of ev evs] show ?case by simp
qed

declare ubusd_event_cleanup_object.simps [simp del]

definition evr_policy :: "blobmsg_policy list" where
  "evr_policy = [\<lparr>pname = Some (cstr ''pattern''), ptype = 3\<rparr>, \<lparr>pname = Some (cstr ''object''), ptype = 5\<rparr>]"

text \<open>
  The pattern as it is stored: without a final \<open>*\<close>, which is overwritten in the message. The
  character before the terminating zero is \<open>pattern[len - 1]\<close>, which for an empty string is the byte
  before it. The block of the message, whether the pattern is partial, and the length are returned.
\<close>

definition cut_star :: "byte list \<Rightarrow> nat \<Rightarrow> cstring \<Rightarrow> (byte list \<times> bool \<times> int) option" where
  "cut_star m off str = do {
     let n = int (length str);
     let p = int off + n - 1;
     c \<leftarrow> (if p < 0 then None else rd8 m (nat p));
     if c = 42 then do {
       m \<leftarrow> mem_write m (nat p) [0];
       Some (m, True, n - 1)
     }
     else Some (m, False, n)
   }"

text \<open>The part of \<open>ubusd_alloc_event_pattern\<close> after its tests: the pattern is the string at \<open>off\<close>.\<close>

definition add_event_source :: "env \<Rightarrow> nat \<Rightarrow> nat \<Rightarrow> nat \<Rightarrow> ubusd \<Rightarrow> (int \<times> ubusd) option" where
  "add_event_source E ub obj off s = do {
     m \<leftarrow> msgs s ub;
     pattern \<leftarrow> cstr_at (mdata m) off;
     (blk, part, n) \<leftarrow> cut_star (mdata m) off pattern;
     s1 \<leftarrow> upd_msg ub (\<lambda>m. m\<lparr>mdata := blk\<rparr>) s;
     case calloc E s1 of
       (None, s2) \<Rightarrow> Some (UBUS_STATUS_NO_DATA, s2)
     | (Some ev, s2) \<Rightarrow> do {
         name \<leftarrow> cstr_at blk off;
         if int (length name) + 1 > n + 1 then None
         else do {
           s3 \<leftarrow> upd_obj obj (\<lambda>x. x\<lparr>events := ev # events x\<rparr>) s2;
           (_, t) \<leftarrow> avl_insert avl_strcmp (patterns s3) (name, ev);
           Some (0, s3\<lparr>evs := (evs s3)(ev \<mapsto> \<lparr>ev_obj = obj, ev_key = name, partial = part\<rparr>), patterns := t\<rparr>)
         }
       }
   }"

definition ubusd_alloc_event_pattern :: "env \<Rightarrow> nat \<Rightarrow> nat \<Rightarrow> nat option \<Rightarrow> ubusd \<Rightarrow> (int \<times> ubusd) option" where
  "ubusd_alloc_event_pattern E cl ub msg s = do {
     p \<leftarrow> msg;
     m \<leftarrow> msgs s ub;
     n \<leftarrow> blob_len (mdata m) p;
     (_, attr) \<leftarrow> blobmsg_parse evr_policy (mdata m) (blob_data p) n;
     case (attr ! 1, attr ! 0) of
       (Some a_obj, Some a_pattern) \<Rightarrow> do {
         i \<leftarrow> blobmsg_get_u32 (mdata m) a_obj;
         if i < UBUS_SYSTEM_OBJECT_MAX then Some (UBUS_STATUS_PERMISSION_DENIED, s)
         else case ubus_find_id (objects s) i of
           None \<Rightarrow> Some (UBUS_STATUS_NOT_FOUND, s)
         | Some obj \<Rightarrow> do {
             x \<leftarrow> objs s obj;
             if oclient x \<noteq> Some cl then Some (UBUS_STATUS_PERMISSION_DENIED, s)
             else do {
               off \<leftarrow> blobmsg_data (mdata m) a_pattern;
               add_event_source E ub obj off s
             }
           }
       }
     | _ \<Rightarrow> Some (UBUS_STATUS_INVALID_ARGUMENT, s)
   }"

text \<open>
  The callbacks that build the message of an event, with their private pointer: the attribute at an
  offset of a received message, or an object.
\<close>

datatype event_fill = From_msg nat nat | From_obj nat

definition ubusd_create_event_from_msg ::
    "env \<Rightarrow> nat \<Rightarrow> nat \<Rightarrow> cstring \<Rightarrow> ubusd \<Rightarrow> (nat option \<times> ubusd) option" where
  "ubusd_create_event_from_msg E ub p i s = do {
     s \<leftarrow> b_init E s;
     s \<leftarrow> b_put_int32 E UBUS_ATTR_OBJID 0 s;
     s \<leftarrow> b_put_string E UBUS_ATTR_METHOD i s;
     m \<leftarrow> msgs s ub;
     d \<leftarrow> blobmsg_data (mdata m) p;
     n \<leftarrow> blobmsg_data_len (mdata m) p;
     s \<leftarrow> b_put E UBUS_ATTR_DATA (mdata m) d (word_of_int n) s;
     ubus_msg_from_blob E True s
   }"

definition ubusd_create_object_event_msg :: "env \<Rightarrow> nat \<Rightarrow> cstring \<Rightarrow> ubusd \<Rightarrow> (nat option \<times> ubusd) option" where
  "ubusd_create_object_event_msg E obj i s = do {
     s \<leftarrow> b_init E s;
     s \<leftarrow> b_put_int32 E UBUS_ATTR_OBJID 0 s;
     s \<leftarrow> b_put_string E UBUS_ATTR_METHOD i s;
     (c, s) \<leftarrow> b_nest_start E UBUS_ATTR_DATA s;
     x \<leftarrow> objs s obj;
     (_, s) \<leftarrow> with_b E (\<lambda>a b. blobmsg_add_u32 a b (Some (cstr ''id'')) (obj_id x)) s;
     key \<leftarrow> path_key x;
     (_, s) \<leftarrow> with_b E (\<lambda>a b. blobmsg_add_string a b (Some (cstr ''path'')) key) s;
     s \<leftarrow> b_nest_end c s;
     ubus_msg_from_blob E True s
   }"

fun fill_cb :: "env \<Rightarrow> event_fill \<Rightarrow> cstring \<Rightarrow> ubusd \<Rightarrow> (nat option \<times> ubusd) option" where
  "fill_cb E (From_msg ub p) i s = ubusd_create_event_from_msg E ub p i s"
| "fill_cb E (From_obj obj) i s = ubusd_create_object_event_msg E obj i s"

text \<open>
  \<open>*ub\<close> is the message of the event, made for the first object that gets it. The identifier of the
  object is written to the payload of its first attribute; the data of a shared message is the
  buffer \<open>b\<close> itself, which is written too. \<open>event_deliver\<close> is the part of
  \<open>ubusd_send_event_msg\<close> after its two tests.
\<close>

definition b_write :: "nat \<Rightarrow> byte list \<Rightarrow> ubusd \<Rightarrow> ubusd option" where
  "b_write p bs s = do {
     h \<leftarrow> head (bb s);
     d \<leftarrow> mem_write (buf (bb s)) (h + p) bs;
     Some (s\<lparr>bb := (bb s)\<lparr>buf := d\<rparr>\<rparr>)
   }"

definition event_deliver ::
    "env \<Rightarrow> nat option \<Rightarrow> nat \<Rightarrow> cstring \<Rightarrow> event_fill \<Rightarrow> ubusd \<Rightarrow> (nat option \<times> ubusd) option" where
  "event_deliver E ub obj i fill s = do {
     x \<leftarrow> objs s obj;
     s \<leftarrow> upd_obj obj (\<lambda>x. x\<lparr>event_seen := obj_event_seq s\<rparr>) s;
     (u, s) \<leftarrow>
       (case ub of
         Some u \<Rightarrow> Some (u, s)
       | None \<Rightarrow> do {
           (r, s) \<leftarrow> fill_cb E fill i s;
           u \<leftarrow> r;
           s \<leftarrow> upd_msg u (\<lambda>m. m\<lparr>hdr := (hdr m)\<lparr>msg_type := UBUS_MSG_INVOKE, peer := 0\<rparr>\<rparr>) s;
           Some (u, s)
         });
     m \<leftarrow> msgs s u;
     d \<leftarrow> mem_write (mdata m) (blob_data (blob_data 0)) (be32 (obj_id x));
     s \<leftarrow> (if refcount m = -1 then b_write (blob_data (blob_data 0)) (be32 (obj_id x)) s else Some s);
     sq \<leftarrow> incr_int (event_seq s);
     s \<leftarrow> upd_msg u (\<lambda>m. m\<lparr>mdata := d, hdr := (hdr m)\<lparr>seq := word_of_int sq\<rparr>\<rparr>) (s\<lparr>event_seq := sq\<rparr>);
     s \<leftarrow> ubus_msg_send E (oclient x) u False s;
     Some (Some u, s)
   }"

definition ubusd_send_event_msg ::
    "env \<Rightarrow> nat option \<Rightarrow> nat option \<Rightarrow> nat \<Rightarrow> cstring \<Rightarrow> event_fill \<Rightarrow> ubusd \<Rightarrow> (nat option \<times> ubusd) option" where
  "ubusd_send_event_msg E ub cl obj i fill s = do {
     x \<leftarrow> objs s obj;
     if oclient x = cl then Some (ub, s)
     else if event_seen x = obj_event_seq s then Some (ub, s)
     else event_deliver E ub obj i fill s
   }"

text \<open>The character at an index of a C string, the terminating zero included.\<close>

definition char_at :: "cstring \<Rightarrow> nat \<Rightarrow> byte" where
  "char_at str i = (if i < length str then str ! i else 0)"

function strmatch_len :: "cstring \<Rightarrow> cstring \<Rightarrow> nat \<Rightarrow> bool \<times> nat" where
  "strmatch_len s1 s2 n =
     (if char_at s1 n = char_at s2 n then
        (if char_at s1 n = 0 then (True, n) else strmatch_len s1 s2 (n + 1))
      else (False, n))"
  by pat_completeness auto
termination
  by (relation "measure (\<lambda>(s1, s2, n). length s1 - n)") (auto simp: char_at_def split: if_splits)

declare strmatch_len.simps [simp del]

fun send_event_loop ::
    "env \<Rightarrow> nat option \<Rightarrow> cstring \<Rightarrow> event_fill \<Rightarrow> (cstring \<times> nat) list \<Rightarrow> nat \<Rightarrow> nat option \<Rightarrow> ubusd \<Rightarrow>
     (nat option \<times> ubusd) option" where
  "send_event_loop E cl i fill [] match_len ub s = Some (ub, s)"
| "send_event_loop E cl i fill ((key, ev) # es) match_len ub s =
     (let (full_match, cur_match_len) = strmatch_len i key 0 in
      if cur_match_len < match_len then Some (ub, s)
      else do {
        e \<leftarrow> evs s ev;
        if \<not> full_match \<and> (\<not> partial e \<or> cur_match_len \<noteq> length key)
        then send_event_loop E cl i fill es cur_match_len ub s
        else do {
          (ub, s) \<leftarrow> ubusd_send_event_msg E ub cl (ev_obj e) i fill s;
          send_event_loop E cl i fill es cur_match_len ub s
        }
      })"

definition ubusd_send_event :: "env \<Rightarrow> nat option \<Rightarrow> cstring \<Rightarrow> event_fill \<Rightarrow> ubusd \<Rightarrow> (int \<times> ubusd) option" where
  "ubusd_send_event E cl i fill s = do {
     sq \<leftarrow> incr_int (obj_event_seq s);
     let s = s\<lparr>obj_event_seq := sq\<rparr>;
     (ub, s) \<leftarrow> send_event_loop E cl i fill (list_head (patterns s)) 0 None s;
     s \<leftarrow> (case ub of None \<Rightarrow> Some s | Some u \<Rightarrow> ubus_msg_free u s);
     Some (0, s)
   }"

definition ev_policy :: "blobmsg_policy list" where
  "ev_policy = [\<lparr>pname = Some (cstr ''id''), ptype = 3\<rparr>, \<lparr>pname = Some (cstr ''data''), ptype = 2\<rparr>]"

definition ubusd_forward_event :: "env \<Rightarrow> nat \<Rightarrow> nat \<Rightarrow> nat option \<Rightarrow> ubusd \<Rightarrow> (int \<times> ubusd) option" where
  "ubusd_forward_event E cl ub msg s = do {
     p \<leftarrow> msg;
     m \<leftarrow> msgs s ub;
     n \<leftarrow> blob_len (mdata m) p;
     (_, attr) \<leftarrow> blobmsg_parse ev_policy (mdata m) (blob_data p) n;
     case (attr ! 0, attr ! 1) of
       (Some a_id, Some a_data) \<Rightarrow> do {
         off \<leftarrow> blobmsg_data (mdata m) a_id;
         i \<leftarrow> cstr_at (mdata m) off;
         if strncmp i (cstr ''ubus.'') 5 = 0 then Some (UBUS_STATUS_PERMISSION_DENIED, s)
         else ubusd_send_event E (Some cl) i (From_msg ub a_data) s
       }
     | _ \<Rightarrow> Some (UBUS_STATUS_INVALID_ARGUMENT, s)
   }"

definition ubusd_event_recv :: "env \<Rightarrow> nat \<Rightarrow> cstring \<Rightarrow> nat \<Rightarrow> nat option \<Rightarrow> ubusd \<Rightarrow> (int \<times> ubusd) option" where
  "ubusd_event_recv E cl method ub msg s =
     (if strcmp method (cstr ''register'') = 0 then ubusd_alloc_event_pattern E cl ub msg s
      else if strcmp method (cstr ''send'') = 0 then ubusd_forward_event E cl ub msg s
      else Some (UBUS_STATUS_INVALID_COMMAND, s))"

definition ubusd_send_obj_event :: "env \<Rightarrow> nat \<Rightarrow> bool \<Rightarrow> ubusd \<Rightarrow> ubusd option" where
  "ubusd_send_obj_event E obj add s =
     (let i = (if add then cstr ''ubus.object.add'' else cstr ''ubus.object.remove'')
      in map_option snd (ubusd_send_event E None i (From_obj obj) s))"

section \<open>Matching patterns in alphabetical order\<close>

fun lcp :: "'a list \<Rightarrow> 'a list \<Rightarrow> nat" where
  "lcp (a # as) (b # bs) = (if a = b then Suc (lcp as bs) else 0)"
| "lcp _ _ = 0"

lemma lcp_le: "lcp as bs \<le> length as" "lcp as bs \<le> length bs"
  by (induction as bs rule: lcp.induct) auto

lemma lcp_nth: "n < lcp as bs \<Longrightarrow> as ! n = bs ! n"
proof (induction as bs arbitrary: n rule: lcp.induct)
  case (1 a as b bs)
  then show ?case by (cases n) (auto split: if_splits)
qed simp_all

lemma lcp_stop: "lcp as bs < length as \<Longrightarrow> lcp as bs < length bs \<Longrightarrow> as ! lcp as bs \<noteq> bs ! lcp as bs"
  by (induction as bs rule: lcp.induct) auto

lemma lcp_eq: "lcp as bs = length as \<Longrightarrow> lcp as bs = length bs \<Longrightarrow> as = bs"
  by (induction as bs rule: lcp.induct) (auto split: if_splits)

lemma lcp_refl [simp]: "lcp as as = length as"
  by (induction as) auto

lemma lcp_prefix: "lcp as bs = length bs \<longleftrightarrow> prefix bs as"
  by (induction as bs rule: lcp.induct) auto

lemma strmatch_len_lcp:
  assumes "0 \<notin> set s1" and "0 \<notin> set s2" and "n \<le> lcp s1 s2"
  shows "strmatch_len s1 s2 n = (s1 = s2, lcp s1 s2)"
  using assms
proof (induction s1 s2 n rule: strmatch_len.induct)
  case (1 s1 s2 n)
  have l: "lcp s1 s2 \<le> length s1" "lcp s1 s2 \<le> length s2" by (rule lcp_le)+
  have z: "n < length s1 \<Longrightarrow> s1 ! n \<noteq> 0" "n < length s2 \<Longrightarrow> s2 ! n \<noteq> 0"
    using 1(2,3) nth_mem by metis+
  show ?case
  proof (cases "n < lcp s1 s2")
    case True
    then have "char_at s1 n = char_at s2 n" "char_at s1 n \<noteq> 0"
      using l lcp_nth [OF True] z by (auto simp: char_at_def)
    with 1 True show ?thesis by (subst strmatch_len.simps) auto
  next
    case False
    with 1(4) have n: "n = lcp s1 s2" by simp
    consider "n = length s1" "n = length s2" | "n < length s1" "n < length s2" | "n = length s1" "n < length s2"
      | "n < length s1" "n = length s2" using n l by linarith
    then show ?thesis
    proof cases
      case 1
      with n lcp_eq have "s1 = s2" by metis
      with 1 n show ?thesis by (subst strmatch_len.simps) (auto simp: char_at_def)
    next
      case 2
      with n lcp_stop [of s1 s2] have "s1 ! n \<noteq> s2 ! n" by simp
      with 2 n show ?thesis by (subst strmatch_len.simps) (auto simp: char_at_def)
    next
      case 3
      with n z show ?thesis by (subst strmatch_len.simps) (auto simp: char_at_def)
    next
      case 4
      with n z show ?thesis by (subst strmatch_len.simps) (auto simp: char_at_def)
    qed
  qed
qed

text \<open>
  The observation in the comment of \<open>ubusd_send_event\<close>: up to the identifier, later patterns have at
  least as many characters in common with it.
\<close>

lemma lcp_mono:
  "strcmp k1 k2 \<le> 0 \<Longrightarrow> strcmp k2 i \<le> 0 \<Longrightarrow> lcp i k1 \<le> lcp i k2"
proof (induction i k1 arbitrary: k2 rule: lcp.induct)
  case (1 a as b bs)
  then show ?case by (cases k2) (auto split: if_splits)
qed simp_all

lemma prefix_strcmp: "prefix k i \<Longrightarrow> strcmp k i \<le> 0"
  by (induction k i rule: strcmp.induct) auto

text \<open>What a pattern should match: the identifier itself, or what begins with it if it is partial.\<close>

definition ev_matches :: "ubusd \<Rightarrow> cstring \<Rightarrow> cstring \<times> nat \<Rightarrow> bool" where
  "ev_matches s i = (\<lambda>(key, ev). case evs s ev of
     None \<Rightarrow> False
   | Some e \<Rightarrow> i = key \<or> (partial e \<and> prefix key i))"

lemma ev_matches_strcmp: "ev_matches s i (k, ev) \<Longrightarrow> strcmp k i \<le> 0"
  by (auto simp: ev_matches_def prefix_strcmp split: option.splits)

text \<open>The patterns of the daemon: in order, without zero bytes, each with its event source.\<close>

definition patterns_ok :: "ubusd \<Rightarrow> bool" where
  "patterns_ok s \<longleftrightarrow> avl_ok avl_strcmp (patterns s) \<and>
     (\<forall>(k, ev) \<in> set (list_head (patterns s)). evs s ev \<noteq> None \<and> 0 \<notin> set k)"

lemma frame_b_write [frames]: "b_write p bs s = Some s' \<Longrightarrow> frame s s'"
  by (auto simp: b_write_def split: bind_splits)

lemma event_deliver_rest:
  assumes "event_deliver E ub obj i fill s = Some (r, s')"
  shows "\<exists>x. objs s obj = Some x \<and> objs s' = (objs s)(obj \<mapsto> x\<lparr>event_seen := obj_event_seq s\<rparr>) \<and>
    evs s' = evs s \<and> patterns s' = patterns s \<and> obj_event_seq s' = obj_event_seq s"
proof -
  have fill: "fill_cb E fill i s1 = Some (r1, s2) \<Longrightarrow> rest s2 = rest s1" for s1 r1 s2
    by (cases fill) (auto simp: ubusd_create_event_from_msg_def ubusd_create_object_event_msg_def
      split: bind_splits dest!: frame_b frame_from_blob frame_with_b simp: frame_def)
  have "\<exists>x sq. objs s obj = Some x \<and>
      rest s' = (rest s)\<lparr>objs := (objs s)(obj \<mapsto> x\<lparr>event_seen := obj_event_seq s\<rparr>), event_seq := sq\<rparr>"
    using assms by (auto simp: event_deliver_def upd_obj_def rest_other_upds split: bind_splits option.splits if_split_asm
      dest!: fill frame_upd_msg [THEN frame_rest] frame_b_write [THEN frame_rest] frame_send [THEN frame_rest]) (rule exI, rule refl)+
  then obtain x sq where x: "objs s obj = Some x"
    "rest s' = rest (s\<lparr>objs := (objs s)(obj \<mapsto> x\<lparr>event_seen := obj_event_seq s\<rparr>), event_seq := sq\<rparr>)"
    by (auto simp: rest_other_upds)
  from rest_fields [OF x(2)] x(1) show ?thesis by simp
qed

lemma send_event_msg_evs:
  "ubusd_send_event_msg E ub cl obj i fill s = Some (r, s') \<Longrightarrow>
   evs s' = evs s \<and> patterns s' = patterns s \<and> obj_event_seq s' = obj_event_seq s"
  using event_deliver_rest [of E ub obj i fill s r s']
  by (auto simp: ubusd_send_event_msg_def split: bind_splits if_splits)

text \<open>The event sent for every pattern of a list, without the test of the loop that ends it early.\<close>

fun send_each ::
    "env \<Rightarrow> nat option \<Rightarrow> cstring \<Rightarrow> event_fill \<Rightarrow> nat list \<Rightarrow> nat option \<Rightarrow> ubusd \<Rightarrow> (nat option \<times> ubusd) option" where
  "send_each E cl i fill [] ub s = Some (ub, s)"
| "send_each E cl i fill (ev # es) ub s = do {
     e \<leftarrow> evs s ev;
     (ub, s) \<leftarrow> ubusd_send_event_msg E ub cl (ev_obj e) i fill s;
     send_each E cl i fill es ub s
   }"

lemma ev_matches_cong: "evs s' = evs s \<Longrightarrow> ev_matches s' i = ev_matches s i"
  by (simp add: ev_matches_def)

lemma send_event_loop_matches:
  assumes "0 \<notin> set i" and "\<forall>(k, ev) \<in> set xs. evs s ev \<noteq> None \<and> 0 \<notin> set k"
    and "sorted_wrt (\<lambda>x y. strcmp (fst x) (fst y) \<le> 0) xs"
    and "\<forall>(k, ev) \<in> set xs. strcmp k i \<le> 0 \<longrightarrow> n \<le> lcp i k"
  shows "send_event_loop E cl i fill xs n ub s = send_each E cl i fill (map snd (filter (ev_matches s i) xs)) ub s"
  using assms(2-4)
proof (induction xs arbitrary: n ub s)
  case (Cons kv xs)
  obtain k ev where kv: "kv = (k, ev)" by (cases kv)
  obtain e where e: "evs s ev = Some e" and k: "0 \<notin> set k" using Cons.prems(1) kv by auto
  have sm: "strmatch_len i k 0 = (i = k, lcp i k)" by (rule strmatch_len_lcp [OF assms(1) k]) simp
  have later: "strcmp k k' \<le> 0" if "(k', ev') \<in> set xs" for k' ev'
    using Cons.prems(2) that kv by auto
  show ?case
  proof (cases "lcp i k < n")
    case True
    then have gt: "\<not> strcmp k i \<le> 0" using Cons.prems(3) kv by auto
    have "\<not> ev_matches s i (k', ev')" if "(k', ev') \<in> set (kv # xs)" for k' ev'
    proof
      assume "ev_matches s i (k', ev')"
      then have "strcmp k' i \<le> 0" by (rule ev_matches_strcmp)
      moreover have "strcmp k k' \<le> 0" using that kv later by auto
      ultimately show False using gt strcmp_order.cmp_le_trans [of k k' i] by (simp add: avl_strcmp_def)
    qed
    then have none: "filter (ev_matches s i) (kv # xs) = []" by (metis filter_empty_conv prod.exhaust)
    show ?thesis unfolding none using kv sm True by simp
  next
    case False
    have next_ok: "\<forall>(k', ev') \<in> set xs. strcmp k' i \<le> 0 \<longrightarrow> lcp i k \<le> lcp i k'"
      using later lcp_mono by blast
    have match: "ev_matches s i kv \<longleftrightarrow> \<not> (i \<noteq> k \<and> (\<not> partial e \<or> lcp i k \<noteq> length k))"
      using e kv by (auto simp: ev_matches_def lcp_prefix)
    have IH: "send_event_loop E cl i fill xs (lcp i k) ub' s' =
        send_each E cl i fill (map snd (filter (ev_matches s i) xs)) ub' s'" if "evs s' = evs s" for ub' s'
      using Cons.IH [of s' "lcp i k" ub'] Cons.prems(1,2) next_ok that ev_matches_cong [OF that] by auto
    show ?thesis
    proof (cases "ev_matches s i kv")
      case True
      with match have m: "\<not> (i \<noteq> k \<and> (\<not> partial e \<or> lcp i k \<noteq> length k))" by simp
      show ?thesis
      proof (cases "ubusd_send_event_msg E ub cl (ev_obj e) i fill s")
        case None
        with kv sm False e m True show ?thesis by auto
      next
        case (Some r)
        obtain ub' s' where r: "r = (ub', s')" by (cases r)
        have "evs s' = evs s" using Some r send_event_msg_evs by metis
        with IH [of s' ub'] kv sm False e m True Some r show ?thesis by auto
      qed
    next
      case nomatch: False
      with match have m: "i \<noteq> k \<and> (\<not> partial e \<or> lcp i k \<noteq> length k)" by simp
      show ?thesis unfolding kv using sm False e m IH [of s ub] nomatch kv by simp
    qed
  qed
qed simp

section \<open>Who gets an event\<close>

text \<open>
  The objects that should get an event, in the order of their first matching pattern: not those of
  the client that sends it, and none twice.
\<close>

definition event_targets :: "ubusd \<Rightarrow> nat option \<Rightarrow> nat list \<Rightarrow> nat list" where
  "event_targets s cl es =
     rev (remdups (rev (filter (\<lambda>obj. map_option oclient (objs s obj) \<noteq> Some cl)
       (map (\<lambda>ev. ev_obj (the (evs s ev))) es))))"

fun deliver_all ::
    "env \<Rightarrow> cstring \<Rightarrow> event_fill \<Rightarrow> nat list \<Rightarrow> nat option \<Rightarrow> ubusd \<Rightarrow> (nat option \<times> ubusd) option" where
  "deliver_all E i fill [] ub s = Some (ub, s)"
| "deliver_all E i fill (obj # os) ub s = do {
     (ub, s) \<leftarrow> event_deliver E ub obj i fill s;
     deliver_all E i fill os ub s
   }"

text \<open>The objects that have not seen the current event, first occurrences only.\<close>

fun pending :: "ubusd \<Rightarrow> nat option \<Rightarrow> nat list \<Rightarrow> nat list \<Rightarrow> nat list" where
  "pending s cl seen [] = []"
| "pending s cl seen (obj # os) =
     (if map_option oclient (objs s obj) = Some cl \<or> obj \<in> set seen then pending s cl seen os
      else obj # pending s cl (obj # seen) os)"

lemma pending_cong:
  "(\<And>obj. map_option oclient (objs s' obj) = map_option oclient (objs s obj)) \<Longrightarrow>
   pending s' cl seen os = pending s cl seen os"
  by (induction os arbitrary: seen) auto

lemma send_each_deliver:
  assumes "\<forall>ev\<in>set es. \<exists>e. evs s ev = Some e \<and> objs s (ev_obj e) \<noteq> None"
    and "\<forall>obj x. objs s obj = Some x \<longrightarrow> (event_seen x = obj_event_seq s \<longleftrightarrow> obj \<in> set seen)"
  shows "send_each E cl i fill es ub s =
    deliver_all E i fill (pending s cl seen (map (\<lambda>ev. ev_obj (the (evs s ev))) es)) ub s"
  using assms
proof (induction es arbitrary: seen ub s)
  case (Cons ev es)
  obtain e x where e: "evs s ev = Some e" "objs s (ev_obj e) = Some x" using Cons.prems(1) by auto
  show ?case
  proof (cases "oclient x = cl \<or> ev_obj e \<in> set seen")
    case True
    then have "ubusd_send_event_msg E ub cl (ev_obj e) i fill s = Some (ub, s)"
      using e Cons.prems(2) by (auto simp: ubusd_send_event_msg_def)
    with True e Cons.IH [of s seen ub] Cons.prems show ?thesis by auto
  next
    case False
    then have msg: "ubusd_send_event_msg E ub cl (ev_obj e) i fill s = event_deliver E ub (ev_obj e) i fill s"
      using e Cons.prems(2) by (auto simp: ubusd_send_event_msg_def)
    show ?thesis
    proof (cases "event_deliver E ub (ev_obj e) i fill s")
      case None
      with msg e False show ?thesis by simp
    next
      case (Some r)
      obtain ub' s' where r: "r = (ub', s')" by (cases r)
      with Some event_deliver_rest [of E ub "ev_obj e" i fill s ub' s'] e have
        s': "objs s' = (objs s)(ev_obj e \<mapsto> x\<lparr>event_seen := obj_event_seq s\<rparr>)" "evs s' = evs s"
          "obj_event_seq s' = obj_event_seq s" by auto
      have "map_option oclient (objs s' obj) = map_option oclient (objs s obj)" for obj
        using s'(1) e(2) by simp
      note pc = pending_cong [of s' s, OF this]
      have p1: "\<forall>ev\<in>set es. \<exists>e. evs s' ev = Some e \<and> objs s' (ev_obj e) \<noteq> None"
        using Cons.prems(1) s' by auto
      have p2: "\<forall>obj y. objs s' obj = Some y \<longrightarrow> (event_seen y = obj_event_seq s' \<longleftrightarrow> obj \<in> set (ev_obj e # seen))"
        using Cons.prems(2) s' by auto
      from Cons.IH [OF p1 p2, of ub'] msg e False Some r s'(2) pc show ?thesis by simp
    qed
  qed
qed simp

lemma pending_remdups:
  "pending s cl seen os =
   filter (\<lambda>obj. obj \<notin> set seen) (rev (remdups (rev (filter (\<lambda>obj. map_option oclient (objs s obj) \<noteq> Some cl) os))))"
proof (induction os arbitrary: seen)
  case (Cons obj os)
  have "rev (remdups (xs @ [y])) = y # filter (\<lambda>z. z \<noteq> y) (rev (remdups xs))" for xs and y :: nat
    by (induction xs) (auto simp: remdups_append2)
  with Cons.IH [of seen] Cons.IH [of "obj # seen"] show ?case
    by (auto simp: conj_commute intro!: filter_cong)
qed simp

section \<open>Registration\<close>

lemma cstr_at_no_zero: "cstr_at m p = Some str \<Longrightarrow> 0 \<notin> set str"
  by (auto simp: cstr_at_def dest: set_takeWhileD split: if_splits)

lemma pattern_insert:
  assumes ok: "patterns_ok s" and dup: "allow_dups (patterns s)" and new: "evs s ev = None" and key: "0 \<notin> set key"
  shows "\<exists>t. avl_insert avl_strcmp (patterns s) (key, ev) = Some (0, t) \<and> allow_dups t \<and>
    set (list_head t) = insert (key, ev) (set (list_head (patterns s))) \<and>
    patterns_ok (s\<lparr>evs := (evs s)(ev \<mapsto> e), patterns := t\<rparr>)"
proof -
  have "(key, ev) \<notin> set (list_head (patterns s))" using ok new by (auto simp: patterns_ok_def)
  with strcmp_order.insert_refines [of "patterns s" "(key, ev)"] ok dup obtain t where
    t: "avl_insert avl_strcmp (patterns s) (key, ev) = Some (0, t)" "avl_ok avl_strcmp t" "allow_dups t"
      "list_head t = filter (\<lambda>x. avl_strcmp (fst x) key \<le> 0) (list_head (patterns s)) @
         (key, ev) # filter (\<lambda>x. 0 < avl_strcmp (fst x) key) (list_head (patterns s))"
    by (auto simp: patterns_ok_def mm_insert_def)
  then have set: "set (list_head t) = insert (key, ev) (set (list_head (patterns s)))" by auto
  with t ok key have "patterns_ok (s\<lparr>evs := (evs s)(ev \<mapsto> e), patterns := t\<rparr>)"
    by (fastforce simp: patterns_ok_def)
  with t set show ?thesis by blast
qed

lemma clock_upd_msg: "upd_msg ub f s = Some s1 \<Longrightarrow> clock s1 = clock s"
  by (auto simp: upd_msg_def split: bind_splits)

lemma add_event_source_ok:
  assumes ok: "patterns_ok s" "allow_dups (patterns s)" and fresh: "\<forall>p\<in>dom (evs s). p < clock s"
    and x: "objs s obj = Some x"
    and r: "add_event_source E ub obj off s = Some (rc, s')"
  shows "patterns_ok s' \<and> (if rc = 0 then
      \<exists>e. ev_obj e = obj \<and> evs s' = (evs s)(clock s \<mapsto> e) \<and>
        objs s' = (objs s)(obj \<mapsto> x\<lparr>events := clock s # events x\<rparr>) \<and>
        set (list_head (patterns s')) = insert (ev_key e, clock s) (set (list_head (patterns s)))
    else evs s' = evs s \<and> objs s' = objs s \<and> patterns s' = patterns s)"
proof -
  obtain m pattern blk part n s1 where b: "msgs s ub = Some m" "upd_msg ub (\<lambda>m. m\<lparr>mdata := blk\<rparr>) s = Some s1"
      "cstr_at (mdata m) off = Some pattern" "cut_star (mdata m) off pattern = Some (blk, part, n)"
    using r unfolding add_event_source_def by (auto simp: bind_eq_Some_conv)
  have s1: "rest s1 = rest s" "clock s1 = clock s" using b(2) by (auto dest: frame_upd_msg [THEN frame_rest] clock_upd_msg)
  show ?thesis
  proof (cases "e_alloc E (clock s)")
    case False
    with r b s1 have "rc = UBUS_STATUS_NO_DATA" "rest s' = rest s" by (auto simp: add_event_source_def calloc_def)
    with rest_fields [OF this(2)] ok show ?thesis by (simp add: patterns_ok_def ubus_statuses)
  next
    case True
    have f: "objs s1 = objs s" "evs s1 = evs s" "patterns s1 = patterns s" using rest_fields [OF s1(1)] by auto
    obtain name rc' t where t: "rc = 0" "cstr_at blk off = Some name"
      "avl_insert avl_strcmp (patterns s) (name, clock s) = Some (rc', t)"
      "s' = s1\<lparr>clock := clock s + 1, objs := (objs s)(obj \<mapsto> x\<lparr>events := clock s # events x\<rparr>),
        evs := (evs s)(clock s \<mapsto> \<lparr>ev_obj = obj, ev_key = name, partial = part\<rparr>), patterns := t\<rparr>"
      using r b True f x s1(2)
      by (auto simp: add_event_source_def calloc_def upd_obj_def bind_eq_Some_conv split: if_splits)
    have "evs s (clock s) = None" using fresh by auto
    from pattern_insert [OF ok this cstr_at_no_zero [OF t(2)], of "\<lparr>ev_obj = obj, ev_key = name, partial = part\<rparr>"] t(3)
    have "set (list_head t) = insert (name, clock s) (set (list_head (patterns s)))"
      "patterns_ok (s\<lparr>evs := (evs s)(clock s \<mapsto> \<lparr>ev_obj = obj, ev_key = name, partial = part\<rparr>), patterns := t\<rparr>)"
      by auto
    with t show ?thesis
      by (intro conjI) (simp add: patterns_ok_def, simp,
        rule exI [of _ "\<lparr>ev_obj = obj, ev_key = name, partial = part\<rparr>"], simp)
  qed
qed

lemma send_event_deliver:
  assumes "patterns_ok s" and "0 \<notin> set i"
    and "\<forall>(k, ev) \<in> set (list_head (patterns s)). \<forall>e. evs s ev = Some e \<longrightarrow> objs s (ev_obj e) \<noteq> None"
    and "\<forall>obj x. objs s obj = Some x \<longrightarrow> event_seen x \<le> obj_event_seq s"
    and "obj_event_seq s < 2 ^ 31 - 1"
  shows "ubusd_send_event E cl i fill s = do {
     (ub, s') \<leftarrow> deliver_all E i fill
       (event_targets s cl (map snd (filter (ev_matches s i) (list_head (patterns s))))) None
       (s\<lparr>obj_event_seq := obj_event_seq s + 1\<rparr>);
     s' \<leftarrow> (case ub of None \<Rightarrow> Some s' | Some u \<Rightarrow> ubus_msg_free u s');
     Some (0, s')
   }"
proof -
  let ?s = "s\<lparr>obj_event_seq := obj_event_seq s + 1\<rparr>" and ?xs = "list_head (patterns s)"
  let ?es = "map snd (filter (ev_matches s i) ?xs)"
  have sorted: "sorted_wrt (\<lambda>x y. strcmp (fst x) (fst y) \<le> 0) ?xs"
    using strcmp_order.runs_sorted [of "leader (patterns s)" ?xs] assms(1)
    by (simp add: patterns_ok_def avl_ok_def avl_strcmp_def)
  have "send_event_loop E cl i fill ?xs 0 None ?s = send_each E cl i fill (map snd (filter (ev_matches ?s i) ?xs)) None ?s"
    by (rule send_event_loop_matches [OF assms(2) _ sorted]) (use assms(1) in \<open>auto simp: patterns_ok_def\<close>)
  moreover have "ev_matches ?s i = ev_matches s i" by (simp add: ev_matches_def)
  moreover have "\<forall>ev\<in>set ?es. \<exists>e. evs ?s ev = Some e \<and> objs ?s (ev_obj e) \<noteq> None"
    using assms(1,3) by (fastforce simp: patterns_ok_def)
  then have "send_each E cl i fill ?es None ?s =
      deliver_all E i fill (pending ?s cl [] (map (\<lambda>ev. ev_obj (the (evs ?s ev))) ?es)) None ?s"
    by (rule send_each_deliver) (use assms(4) in fastforce)
  moreover have "pending ?s cl [] (map (\<lambda>ev. ev_obj (the (evs ?s ev))) ?es) = event_targets s cl ?es"
    unfolding pending_remdups event_targets_def by simp
  ultimately show ?thesis using assms(5)
    by (simp add: ubusd_send_event_def incr_int_def)
qed

section \<open>Events of objects share the buffer\<close>

text \<open>
  The buffer \<open>b\<close> holds the block \<open>d\<close>; a message shares it: its data is the buffer itself.
\<close>

definition blob_holds :: "ubusd \<Rightarrow> byte list \<Rightarrow> bool" where
  "blob_holds s d \<longleftrightarrow> (\<exists>h n. head (bb s) = Some h \<and> blob_raw_len (buf (bb s)) h = Some n \<and> mem_read (buf (bb s)) h (unat n) = Some d)"

definition shares :: "ubusd \<Rightarrow> nat \<Rightarrow> byte list \<Rightarrow> bool" where
  "shares s u d \<longleftrightarrow> (\<exists>m. msgs s u = Some m \<and> refcount m = -1 \<and> mdata m = d) \<and> u < clock s \<and> blob_holds s d"

text \<open>The payload of the first attribute of a block, where \<open>ubusd_send_event_msg\<close> writes the identifier of the object.\<close>

definition first_id :: "byte list \<Rightarrow> u32 option" where
  "first_id d = rd_be32 d (blob_data (blob_data 0))"

lemma blob_holds_cong: "bb s' = bb s \<Longrightarrow> blob_holds s' d = blob_holds s d"
  by (simp add: blob_holds_def)

lemma mem_write_both:
  assumes "mem_read m h n = Some d" and "mem_write d p bs = Some d'" and "mem_write m (h + p) bs = Some m'"
  shows "mem_read m' h n = Some d'" and "4 \<le> p \<Longrightarrow> rd_be32 m' h = rd_be32 m h"
proof -
  have d: "d = take n (drop h m)" "h + n \<le> length m" using assms(1) by (auto simp: mem_read_def split: if_splits)
  define A B where "A = take h m" and "B = drop n (drop h m)"
  have "drop h m = d @ B" unfolding B_def d(1) by (rule append_take_drop_id [symmetric])
  then have "m = A @ d @ B" using append_take_drop_id [of h m] by (simp add: A_def)
  then have m: "m = A @ d @ B" "length A = h" "length d = n" using d by (simp_all add: A_def)
  have p: "p + length bs \<le> length d" "d' = take p d @ bs @ drop (p + length bs) d" using assms(2) by (auto simp: mem_write_def split: if_splits)
  have "m' = take (h + p) m @ bs @ drop (h + p + length bs) m" using assms(3) by (auto simp: mem_write_def split: if_splits)
  then have m': "m' = A @ d' @ B" using m(2) p by (simp add: m(1))
  have n: "length d' = n" using p m(3) by simp
  then show "mem_read m' h n = Some d'" using m(2) by (simp add: m' mem_read_def)
  show "rd_be32 m' h = rd_be32 m h" if "4 \<le> p"
  proof -
    have "d' ! k = d ! k" if "k < 4" for k using p that \<open>4 \<le> p\<close> by (simp add: nth_append)
    moreover have "4 \<le> n" using p m(3) that by simp
    ultimately show ?thesis using m n by (simp add: m' m(1) rd_be32_def nth_append)
  qed
qed

lemma ref_shared:
  assumes "ubus_msg_ref E u s = Some (r, s')" and "msgs s u = Some m" and "refcount m = -1" and "u < clock s"
  shows "bb s' = bb s \<and> msgs s' u = Some m \<and> clock s \<le> clock s'"
  using assms by (auto simp: ubus_msg_ref_def ubus_msg_new_def calloc_def Let_def split: if_splits)

lemma enqueue_shared:
  assumes "ubus_msg_enqueue E cl u s = Some s'" and "msgs s u = Some m" and "refcount m = -1" and "u < clock s"
  shows "bb s' = bb s \<and> msgs s' u = Some m \<and> clock s \<le> clock s'"
proof -
  obtain c slot where c: "cls s cl = Some c" "array_get (tx_queue c) (txq_tail c) = Some slot"
    using assms(1) by (auto simp: ubus_msg_enqueue_def bind_eq_Some_conv)
  show ?thesis
  proof (cases "slot = None")
    case True
    then obtain r s1 where "ubus_msg_ref E u s = Some (r, s1)" "bb s' = bb s1" "msgs s' = msgs s1" "clock s' = clock s1"
      using assms(1) c by (auto simp: ubus_msg_enqueue_def upd_cl_def bind_eq_Some_conv)
    then show ?thesis using ref_shared [OF _ assms(2-4)] by simp
  next
    case False
    then show ?thesis using assms c by (auto simp: ubus_msg_enqueue_def)
  qed
qed

lemma send_shared:
  assumes "ubus_msg_send E cl u False s = Some s'" and "shares s u d"
  shows "shares s' u d"
proof -
  obtain m where m: "msgs s u = Some m" "refcount m = -1" "mdata m = d" "u < clock s" using assms(2) by (auto simp: shares_def)
  obtain k c slot where c: "cl = Some k" "cls s k = Some c" "array_get (tx_queue c) (txq_cur c) = Some slot"
    using assms(1) by (auto simp: ubus_msg_send_def bind_eq_Some_conv)
  have same: "bb s' = bb s \<and> msgs s' u = Some m \<and> clock s \<le> clock s'"
  proof (cases "slot = None")
    case False
    then obtain v where "slot = Some v" by blast
    then have "ubus_msg_enqueue E k u s = Some s'" using assms(1) c by (auto simp: ubus_msg_send_def)
    then show ?thesis using enqueue_shared m by blast
  next
    case True
    obtain w s1 where w: "ubus_msg_writev E (sock_fd c) u 0 s = Some (w, s1)"
      using assms(1) c True by (auto simp: ubus_msg_send_def bind_eq_Some_conv)
    then have s1: "bb s1 = bb s" "msgs s1 = msgs s" "clock s \<le> clock s1" "cls s1 = cls s" by (auto simp: ubus_msg_writev_def Let_def m(1))
    show ?thesis
    proof (cases "to_size w \<ge> len m + 8")
      case True
      then have "s' = s1" using assms(1) c \<open>slot = None\<close> w s1 m(1) by (simp add: ubus_msg_send_def)
      then show ?thesis using s1 m(1) by simp
    next
      case False
      let ?s = "uloop_fd_add (sock_fd c) True (s1\<lparr>cls := (cls s)(k \<mapsto> c\<lparr>txq_ofs := (if w < 0 then 0 else nat w)\<rparr>)\<rparr>)"
      have "ubus_msg_enqueue E k u ?s = Some s'"
        using False assms(1) c \<open>slot = None\<close> w s1 m(1) by (simp add: ubus_msg_send_def upd_cl_def)
      from enqueue_shared [OF this, of m] show ?thesis using s1 m by (simp add: uloop_fd_add_def)
    qed
  qed
  then show ?thesis using assms(2) m blob_holds_cong [of s' s] by (auto simp: shares_def)
qed

lemma object_event_shares:
  assumes "ubusd_create_object_event_msg E obj i s = Some (Some u, s')"
  shows "\<exists>d. shares s' u d"
proof -
  obtain s1 where "ubus_msg_from_blob E True s1 = Some (Some u, s')"
    using assms by (auto simp: ubusd_create_object_event_msg_def split: bind_splits)
  then show ?thesis
    by (auto simp: ubus_msg_from_blob_def ubus_msg_new_def calloc_def shares_def blob_holds_def split: bind_splits if_splits)
qed

lemma deliver_shares:
  assumes "event_deliver E ub obj i (From_obj o') s = Some (r, s')" and "objs s obj = Some x" and "\<And>u. ub = Some u \<Longrightarrow> \<exists>d. shares s u d"
  shows "\<exists>u d. r = Some u \<and> shares s' u d \<and> first_id d = Some (obj_id x)"
proof -
  note r = assms(1) [unfolded event_deliver_def]
  let ?s0 = "s\<lparr>objs := (objs s)(obj \<mapsto> x\<lparr>event_seen := obj_event_seq s\<rparr>)\<rparr>"
  obtain u s1 where s1: "(case ub of Some u \<Rightarrow> Some (u, ?s0) | None \<Rightarrow> do {
        (r, s) \<leftarrow> fill_cb E (From_obj o') i ?s0;
        u \<leftarrow> r;
        s \<leftarrow> upd_msg u (\<lambda>m. m\<lparr>hdr := (hdr m)\<lparr>msg_type := UBUS_MSG_INVOKE, peer := 0\<rparr>\<rparr>) s;
        Some (u, s) }) = Some (u, s1)"
    and r1: "do {
        m \<leftarrow> msgs s1 u;
        d \<leftarrow> mem_write (mdata m) (blob_data (blob_data 0)) (be32 (obj_id x));
        s \<leftarrow> (if refcount m = -1 then b_write (blob_data (blob_data 0)) (be32 (obj_id x)) s1 else Some s1);
        sq \<leftarrow> incr_int (event_seq s);
        s \<leftarrow> upd_msg u (\<lambda>m. m\<lparr>mdata := d, hdr := (hdr m)\<lparr>seq := word_of_int sq\<rparr>\<rparr>) (s\<lparr>event_seq := sq\<rparr>);
        s \<leftarrow> ubus_msg_send E (oclient x) u False s;
        Some (Some u, s) } = Some (r, s')"
    using r assms(2) by (auto simp: upd_obj_def bind_eq_Some_conv split: option.splits)
  have "\<exists>d. shares s1 u d"
  proof (cases ub)
    case None
    then obtain s2 where s2: "ubusd_create_object_event_msg E o' i ?s0 = Some (Some u, s2)"
      "upd_msg u (\<lambda>m. m\<lparr>hdr := (hdr m)\<lparr>msg_type := UBUS_MSG_INVOKE, peer := 0\<rparr>\<rparr>) s2 = Some s1"
      using s1 by (auto simp: bind_eq_Some_conv)
    from object_event_shares [OF s2(1)] s2(2) show ?thesis
      by (auto simp: shares_def upd_msg_def bind_eq_Some_conv blob_holds_def)
  next
    case (Some v)
    then show ?thesis using s1 assms(3) [OF Some] by (auto simp: shares_def blob_holds_def)
  qed
  then obtain d0 m h n where d0: "msgs s1 u = Some m" "refcount m = -1" "mdata m = d0" "u < clock s1" "head (bb s1) = Some h"
      "blob_raw_len (buf (bb s1)) h = Some n" "mem_read (buf (bb s1)) h (unat n) = Some d0" by (auto simp: shares_def blob_holds_def)
  obtain d b' s4 sq where w: "mem_write d0 (blob_data (blob_data 0)) (be32 (obj_id x)) = Some d"
      "mem_write (buf (bb s1)) (h + blob_data (blob_data 0)) (be32 (obj_id x)) = Some b'"
      "ubus_msg_send E (oclient x) u False (s1\<lparr>bb := (bb s1)\<lparr>buf := b'\<rparr>, event_seq := sq,
        msgs := (msgs s1)(u \<mapsto> m\<lparr>mdata := d, hdr := (hdr m)\<lparr>seq := word_of_int sq\<rparr>\<rparr>)\<rparr>) = Some s4" "r = Some u" "s' = s4"
    using r1 d0 by (auto simp: b_write_def upd_msg_def bind_eq_Some_conv)
  note both = mem_write_both [OF d0(7) w(1,2)]
  have "rd_be32 b' h = rd_be32 (buf (bb s1)) h" using both(2) by (simp add: blob_data_def)
  then have "shares (s1\<lparr>bb := (bb s1)\<lparr>buf := b'\<rparr>, event_seq := sq, msgs := (msgs s1)(u \<mapsto> m\<lparr>mdata := d, hdr := (hdr m)\<lparr>seq := word_of_int sq\<rparr>\<rparr>)\<rparr>) u d"
    using d0 both(1) by (auto simp: shares_def blob_holds_def blob_raw_len_def)
  moreover have "first_id d = Some (obj_id x)"
    using w(1) rd_be32_app [of "blob_data (blob_data 0)" "take (blob_data (blob_data 0)) d0"]
    by (auto simp: first_id_def mem_write_def blob_data_def split: if_splits)
  ultimately show ?thesis using send_shared [OF w(3)] w(4,5) by blast
qed

lemma deliver_all_shares:
  "deliver_all E i (From_obj o') (ts @ [t]) ub s = Some (r, s') \<Longrightarrow> objs s t = Some y \<Longrightarrow> (\<And>u. ub = Some u \<Longrightarrow> \<exists>d. shares s u d) \<Longrightarrow>
   \<exists>u d. r = Some u \<and> shares s' u d \<and> first_id d = Some (obj_id y)"
proof (induction ts arbitrary: ub s y)
  case Nil
  then show ?case using deliver_shares [of E ub t i o' s r s' y] by (auto simp: bind_eq_Some_conv)
next
  case (Cons a ts)
  obtain ub1 s1 where s1: "event_deliver E ub a i (From_obj o') s = Some (ub1, s1)" "deliver_all E i (From_obj o') (ts @ [t]) ub1 s1 = Some (r, s')"
    using Cons.prems(1) by (auto simp: bind_eq_Some_conv)
  obtain x where x: "objs s a = Some x" "objs s1 = (objs s)(a \<mapsto> x\<lparr>event_seen := obj_event_seq s\<rparr>)" using event_deliver_rest [OF s1(1)] by blast
  obtain y1 where y1: "objs s1 t = Some y1" "obj_id y1 = obj_id y" using x Cons.prems(2) by (cases "t = a") auto
  have "\<exists>d. shares s1 u d" if "ub1 = Some u" for u using deliver_shares [OF s1(1) x(1) Cons.prems(3)] that by auto
  from Cons.IH [OF s1(2) y1(1) this] y1(2) show ?case by auto
qed

text \<open>The objects that get the event of an object, and what is in the buffer when it has been sent.\<close>

definition remove_listeners :: "ubusd \<Rightarrow> nat list" where
  "remove_listeners s = event_targets s None (map snd (filter (ev_matches s (cstr ''ubus.object.remove'')) (list_head (patterns s))))"

definition events_ok :: "ubusd \<Rightarrow> bool" where
  "events_ok s \<longleftrightarrow> patterns_ok s \<and> (\<forall>(k, ev) \<in> set (list_head (patterns s)). \<forall>e. evs s ev = Some e \<longrightarrow> objs s (ev_obj e) \<noteq> None) \<and>
     (\<forall>obj x. objs s obj = Some x \<longrightarrow> event_seen x \<le> obj_event_seq s) \<and> obj_event_seq s < 2 ^ 31 - 1"

lemma remove_event_in_buffer:
  assumes "events_ok s" and "remove_listeners s = ts @ [t]" and "objs s t = Some y" and "ubusd_send_obj_event E obj False s = Some s'"
  shows "\<exists>d. blob_holds s' d \<and> first_id d = Some (obj_id y)"
proof -
  have i: "0 \<notin> set (cstr ''ubus.object.remove'')" by (simp add: cstr_def)
  let ?s = "s\<lparr>obj_event_seq := obj_event_seq s + 1\<rparr>"
  have "ubusd_send_event E None (cstr ''ubus.object.remove'') (From_obj obj) s = do {
      (ub, s') \<leftarrow> deliver_all E (cstr ''ubus.object.remove'') (From_obj obj) (ts @ [t]) None ?s;
      s' \<leftarrow> (case ub of None \<Rightarrow> Some s' | Some u \<Rightarrow> ubus_msg_free u s');
      Some (0, s') }"
    using send_event_deliver [of s "cstr ''ubus.object.remove''" E None "From_obj obj"] i assms(1,2) by (simp add: events_ok_def remove_listeners_def)
  then obtain ub s1 where s1: "deliver_all E (cstr ''ubus.object.remove'') (From_obj obj) (ts @ [t]) None ?s = Some (ub, s1)"
      "(case ub of None \<Rightarrow> Some s1 | Some u \<Rightarrow> ubus_msg_free u s1) = Some s'"
    using assms(4) by (auto simp: ubusd_send_obj_event_def bind_eq_Some_conv)
  obtain u d where u: "ub = Some u" "shares s1 u d" "first_id d = Some (obj_id y)"
    using deliver_all_shares [OF s1(1), of y] assms(3) by auto
  have "bb s' = bb s1" using s1(2) u(1) by (auto simp: ubus_msg_free_def sys_close_def Let_def split: bind_splits if_splits)
  then show ?thesis using u blob_holds_cong [of s' s1] by (auto simp: shares_def)
qed

section \<open>Properties\<close>

text \<open>
  C30: An event is sent to exactly the right objects. When the patterns are a valid tree, every
  event source belongs to a live object and no object has seen a later event, then
  \<open>ubusd_send_event\<close> does the same as delivering the event once to each object that has a
  pattern equal to the identifier, or a partial pattern that the identifier begins with, except the
  objects of the sending client; first matches first. In particular the loop that stops when the
  number of matching characters falls misses no pattern.
\<close>

theorem ubusd_send_event_targets:
  assumes "patterns_ok s" and "0 \<notin> set i"
    and "\<forall>(k, ev) \<in> set (list_head (patterns s)). \<forall>e. evs s ev = Some e \<longrightarrow> objs s (ev_obj e) \<noteq> None"
    and "\<forall>obj x. objs s obj = Some x \<longrightarrow> event_seen x \<le> obj_event_seq s"
    and "obj_event_seq s < 2 ^ 31 - 1"
  shows "ubusd_send_event E cl i fill s = do {
     (ub, s') \<leftarrow> deliver_all E i fill
       (event_targets s cl (map snd (filter (ev_matches s i) (list_head (patterns s))))) None
       (s\<lparr>obj_event_seq := obj_event_seq s + 1\<rparr>);
     s' \<leftarrow> (case ub of None \<Rightarrow> Some s' | Some u \<Rightarrow> ubus_msg_free u s');
     Some (0, s')
   }"
  by (rule send_event_deliver [OF assms])

text \<open>A daemon with an object of client 1 that listens for \<open>net.*\<close> and \<open>net.up\<close>, and one of client 2.\<close>

definition sample_object :: "u32 \<Rightarrow> nat \<Rightarrow> nat list \<Rightarrow> ubus_object" where
  "sample_object i cl es =
     \<lparr>obj_id = i, olist = Some cl, events = es, subscribers = [], target_list = [], otype = None,
      path_key = None, oclient = Some cl, recv_msg = False, event_seen = 0, invoke_seq = 0\<rparr>"

definition sample_patterns :: "(cstring, nat) avl_tree" where
  "sample_patterns =
     \<lparr>list_head = [([110, 46], 20), ([110, 46, 117], 21), ([111], 22)],
      root = Node (leaf ([110, 46], 20)) ([110, 46, 117], 21) 0 (leaf ([111], 22)), count = 3, allow_dups = True,
      leader = (\<lambda>_. True)\<rparr>"

definition sample_objects :: "nat id_tree" where
  "sample_objects =
     \<lparr>list_head = [(5000, 10), (6000, 11)], root = Node Null (5000, 10) 1 (leaf (6000, 11)), count = 2,
      allow_dups = False, leader = (\<lambda>_. True)\<rparr>"

text \<open>A message with the fields \<open>object\<close> = 5000 and \<open>pattern\<close> = \<open>a*\<close>.\<close>

definition register_msg :: "byte list" where
  "register_msg = [0, 0, 0, 44,
     0x85, 0, 0, 20, 0, 6, 111, 98, 106, 101, 99, 116, 0, 0, 0, 0, 0, 0, 0x13, 0x88,
     0x83, 0, 0, 19, 0, 7, 112, 97, 116, 116, 101, 114, 110, 0, 0, 0, 97, 42, 0, 0]"

definition event_daemon :: ubusd where
  "event_daemon = (one_client (sample_buf 1))
     \<lparr>clock := 50, msgs := [3 \<mapsto> (sample_buf 1)\<lparr>mdata := register_msg\<rparr>], objects := sample_objects, objs := [10 \<mapsto> sample_object 5000 1 [20, 21], 11 \<mapsto> sample_object 6000 2 [22]],
      evs := [20 \<mapsto> \<lparr>ev_obj = 10, ev_key = [110, 46], partial = True\<rparr>,
              21 \<mapsto> \<lparr>ev_obj = 10, ev_key = [110, 46, 117], partial = False\<rparr>,
              22 \<mapsto> \<lparr>ev_obj = 11, ev_key = [111], partial = False\<rparr>],
      patterns := sample_patterns\<rparr>"

lemma event_daemon_ok: "patterns_ok event_daemon" "allow_dups (patterns event_daemon)"
  by (simp_all add: patterns_ok_def event_daemon_def sample_patterns_def avl_ok_def runs_def run_step_def avl_strcmp_def)

theorem ubusd_send_event_targets_witness:
  "ubusd_send_event quiet_env (Some 2) [110, 46, 117] (From_msg 3 0) event_daemon = do {
     (ub, s') \<leftarrow> deliver_all quiet_env [110, 46, 117] (From_msg 3 0) [10] None (event_daemon\<lparr>obj_event_seq := 2\<rparr>);
     s' \<leftarrow> (case ub of None \<Rightarrow> Some s' | Some u \<Rightarrow> ubus_msg_free u s');
     Some (0, s')
   }"
proof -
  have "event_targets event_daemon (Some 2)
      (map snd (filter (ev_matches event_daemon [110, 46, 117]) (list_head (patterns event_daemon)))) = [10]"
    by (simp add: event_targets_def event_daemon_def sample_patterns_def ev_matches_def sample_object_def)
  moreover have "obj_event_seq event_daemon = 1" by (simp add: event_daemon_def one_client_def)
  ultimately show ?thesis
    using ubusd_send_event_targets [OF event_daemon_ok(1), of "[110, 46, 117]" quiet_env "Some 2" "From_msg 3 0"]
    by (simp add: event_daemon_def sample_patterns_def sample_object_def one_client_def)
qed

text \<open>
  A registration is safe. Whatever the message, when \<open>ubusd_alloc_event_pattern\<close> returns it
  keeps the patterns valid; with status 0 it has added exactly one event source, to an object that is
  owned by the calling client and is no system object, and its pattern to the tree; with an error status
  it has changed no object, no event source and no pattern.
\<close>

theorem ubusd_alloc_event_pattern_safe:
  assumes "patterns_ok s" and "allow_dups (patterns s)" and "\<forall>p\<in>dom (evs s). p < clock s"
    and "ubusd_alloc_event_pattern E cl ub msg s = Some (rc, s')"
  shows "patterns_ok s' \<and> (if rc = 0 then
      \<exists>i obj x e. ubus_find_id (objects s) i = Some obj \<and> \<not> i < UBUS_SYSTEM_OBJECT_MAX \<and>
        objs s obj = Some x \<and> oclient x = Some cl \<and> ev_obj e = obj \<and> evs s' = (evs s)(clock s \<mapsto> e) \<and>
        objs s' = (objs s)(obj \<mapsto> x\<lparr>events := clock s # events x\<rparr>) \<and>
        set (list_head (patterns s')) = insert (ev_key e, clock s) (set (list_head (patterns s)))
    else evs s' = evs s \<and> objs s' = objs s \<and> patterns s' = patterns s)"
proof -
  obtain p m n a attr where b: "msg = Some p" "msgs s ub = Some m" "blob_len (mdata m) p = Some n"
      "blobmsg_parse evr_policy (mdata m) (blob_data p) n = Some (a, attr)"
    using assms(4) unfolding ubusd_alloc_event_pattern_def by (auto simp: bind_eq_Some_conv)
  note r = assms(4) [unfolded ubusd_alloc_event_pattern_def]
  consider "s' = s" "rc \<noteq> 0"
    | i obj x off where "ubus_find_id (objects s) i = Some obj" "\<not> i < UBUS_SYSTEM_OBJECT_MAX"
      "objs s obj = Some x" "oclient x = Some cl" "add_event_source E ub obj off s = Some (rc, s')"
  proof (cases "attr ! 1 = None \<or> attr ! 0 = None")
    case True
    with r b that(1) show thesis by (auto simp: ubus_statuses split: option.split_asm)
  next
    case False
    then obtain ao ap where "attr ! 1 = Some ao" "attr ! 0 = Some ap" by auto
    with r b that show thesis
      by (auto simp: bind_eq_Some_conv ubus_statuses split: option.split_asm if_split_asm)
  qed
  then show ?thesis
  proof cases
    case 1
    with assms(1) show ?thesis by simp
  next
    case 2
    from add_event_source_ok [OF assms(1-3) 2(3,5)] 2(1-4) show ?thesis
      by (cases "rc = 0"; simp only: simp_thms if_True if_False; blast)
  qed
qed

lemma register_runs: "map_option fst (ubusd_alloc_event_pattern quiet_env 1 3 (Some 0) event_daemon) = Some 0"
  by code_simp

theorem ubusd_alloc_event_pattern_safe_witness:
  "\<exists>s' e. ubusd_alloc_event_pattern quiet_env 1 3 (Some 0) event_daemon = Some (0, s') \<and> patterns_ok s' \<and>
    evs s' = (evs event_daemon)(50 \<mapsto> e)"
proof -
  obtain s' where s': "ubusd_alloc_event_pattern quiet_env 1 3 (Some 0) event_daemon = Some (0, s')"
    using register_runs by auto
  have c: "clock event_daemon = 50" "\<forall>p\<in>dom (evs event_daemon). p < clock event_daemon"
    by (simp_all add: event_daemon_def)
  from ubusd_alloc_event_pattern_safe [OF event_daemon_ok c(2) s'] c(1) s' show ?thesis by auto
qed

end
