(* ===== verification/Ubusd_Obj.thy ===== *)
theory Ubusd_Obj
  imports Ubusd_Event
begin

text \<open>
  Objects, object types and subscriptions: \<open>src/ubus/ubusd_obj.c\<close>, with \<open>ubusd_event_init\<close> of
  \<open>src/ubus/ubusd_event.c\<close> and \<open>ubus_notify_unsubscribe\<close> of \<open>src/ubus/ubusd_proto.c\<close>, which depend on it.

  \<open>list_del\<close> takes an entry out of whatever list it is in, so the model removes it from all the lists
  it can be in; \<open>list_for_each_entry_safe\<close> visits the entries the list had when the loop began, since
  the body only removes the entry it visits.
\<close>

section \<open>Object types\<close>

definition upd_type :: "nat \<Rightarrow> (ubus_object_type \<Rightarrow> ubus_object_type) \<Rightarrow> ubusd \<Rightarrow> ubusd option" where
  "upd_type ty f s = do {
     t \<leftarrow> types s ty;
     Some (s\<lparr>types := (types s)(ty \<mapsto> f t)\<rparr>)
   }"

definition ubus_unref_object_type :: "nat \<Rightarrow> ubusd \<Rightarrow> ubusd option" where
  "ubus_unref_object_type ty s = do {
     s \<leftarrow> upd_type ty (\<lambda>t. t\<lparr>ty_refcount := ty_refcount t - 1\<rparr>) s;
     t \<leftarrow> types s ty;
     if ty_refcount t > 0 then Some s
     else do {
       tr \<leftarrow> ubus_free_id (obj_types s) (ty_id t, ty);
       Some (s\<lparr>obj_types := tr, types := (types s)(ty := None)\<rparr>)
     }
   }"

text \<open>The attribute at offset \<open>p\<close> of a block is copied; \<open>blobmsg_name\<close> only computes an address.\<close>

definition ubus_create_obj_method :: "env \<Rightarrow> nat \<Rightarrow> byte list \<Rightarrow> nat \<Rightarrow> ubusd \<Rightarrow> (bool \<times> ubusd) option" where
  "ubus_create_obj_method E ty m p s = do {
     bloblen \<leftarrow> blob_raw_len m p;
     case calloc E s of
       (None, s) \<Rightarrow> Some (False, s)
     | (Some _, s) \<Rightarrow> do {
         d \<leftarrow> mem_read m p (unat bloblen);
         s \<leftarrow> upd_type ty (\<lambda>t. t\<lparr>methods := methods t @ [d]\<rparr>) s;
         Some (True, s)
       }
   }"

definition ubus_create_obj_type :: "env \<Rightarrow> byte list \<Rightarrow> nat \<Rightarrow> ubusd \<Rightarrow> (nat option \<times> ubusd) option" where
  "ubus_create_obj_type E m sig s =
     (case calloc E s of
       (None, s) \<Rightarrow> Some (None, s)
     | (Some ty, s) \<Rightarrow> do {
         (ok, i, tr, rs) \<leftarrow> ubus_alloc_id (random s) (obj_types s) ty 0;
         let s = s\<lparr>obj_types := tr, random := rs\<rparr>;
         if \<not> ok then Some (None, s)
         else do {
           let s = s\<lparr>types := (types s)(ty \<mapsto> \<lparr>ty_id = i, ty_refcount = 1, methods = []\<rparr>)\<rparr>;
           n \<leftarrow> blob_len m sig;
           r \<leftarrow> blob_iter_do
             (\<lambda>pos s. do {
                ok \<leftarrow> blobmsg_check_attr m pos True;
                if \<not> ok then Some (Inl s)
                else do {
                  (ok, s) \<leftarrow> ubus_create_obj_method E ty m pos s;
                  Some (if ok then Inr s else Inl s)
                }
              }) m (blob_data sig) (uint n) s;
           (case r of
             Inr s \<Rightarrow> Some (Some ty, s)
           | Inl s \<Rightarrow> do {
               s \<leftarrow> ubus_unref_object_type ty s;
               Some (None, s)
             })
         }
       })"

definition ubus_get_obj_type :: "u32 \<Rightarrow> ubusd \<Rightarrow> (nat option \<times> ubusd) option" where
  "ubus_get_obj_type i s =
     (case ubus_find_id (obj_types s) i of
       None \<Rightarrow> Some (None, s)
     | Some ty \<Rightarrow> do {
         s \<leftarrow> upd_type ty (\<lambda>t. t\<lparr>ty_refcount := ty_refcount t + 1\<rparr>) s;
         Some (Some ty, s)
       })"

section \<open>Objects\<close>

definition ubusd_create_object_internal :: "env \<Rightarrow> nat option \<Rightarrow> u32 \<Rightarrow> ubusd \<Rightarrow> (nat option \<times> ubusd) option" where
  "ubusd_create_object_internal E ty i s =
     (case calloc E s of
       (None, s) \<Rightarrow> Some (None, s)
     | (Some obj, s) \<Rightarrow> do {
         (ok, i, tr, rs) \<leftarrow> ubus_alloc_id (random s) (objects s) obj i;
         let s = s\<lparr>objects := tr, random := rs\<rparr>;
         if \<not> ok then Some (None, s)
         else do {
           let s = s\<lparr>objs := (objs s)(obj \<mapsto>
             \<lparr>obj_id = i, olist = None, events = [], subscribers = [], target_list = [], otype = ty,
              path_key = None, oclient = None, recv_msg = False, event_seen = 0, invoke_seq = 0\<rparr>)\<rparr>;
           s \<leftarrow> (case ty of None \<Rightarrow> Some s
                   | Some ty \<Rightarrow> upd_type ty (\<lambda>t. t\<lparr>ty_refcount := ty_refcount t + 1\<rparr>) s);
           Some (Some obj, s)
         }
       })"

definition unlink_sub :: "nat \<Rightarrow> ubusd \<Rightarrow> ubusd" where
  "unlink_sub sb s = s\<lparr>objs := (\<lambda>p. map_option
     (\<lambda>x. x\<lparr>subscribers := removeAll sb (subscribers x), target_list := removeAll sb (target_list x)\<rparr>) (objs s p))\<rparr>"

definition ubus_subscribe :: "env \<Rightarrow> nat \<Rightarrow> nat \<Rightarrow> ubusd \<Rightarrow> ubusd option" where
  "ubus_subscribe E obj tgt s = do {
     x \<leftarrow> objs s tgt;
     let first = (subscribers x = []);
     case calloc E s of
       (None, s) \<Rightarrow> Some s
     | (Some sb, s) \<Rightarrow> do {
         let s = s\<lparr>subs := (subs s)(sb \<mapsto> \<lparr>subscriber = obj, target = tgt\<rparr>)\<rparr>;
         s \<leftarrow> upd_obj tgt (\<lambda>x. x\<lparr>subscribers := sb # subscribers x\<rparr>) s;
         s \<leftarrow> upd_obj obj (\<lambda>x. x\<lparr>target_list := sb # target_list x\<rparr>) s;
         if first then ubus_notify_subscription E tgt s else Some s
       }
   }"

definition ubus_unsubscribe :: "env \<Rightarrow> nat \<Rightarrow> ubusd \<Rightarrow> ubusd option" where
  "ubus_unsubscribe E sb s = do {
     b \<leftarrow> subs s sb;
     let obj = target b;
     let s = unlink_sub sb s;
     let s = s\<lparr>subs := (subs s)(sb := None)\<rparr>;
     x \<leftarrow> objs s obj;
     if subscribers x = [] then ubus_notify_subscription E obj s else Some s
   }"

definition ubus_notify_unsubscribe :: "env \<Rightarrow> nat \<Rightarrow> ubusd \<Rightarrow> ubusd option" where
  "ubus_notify_unsubscribe E sb s = do {
     b \<leftarrow> subs s sb;
     x \<leftarrow> objs s (subscriber b);
     y \<leftarrow> objs s (target b);
     s \<leftarrow> b_init E s;
     s \<leftarrow> b_put_int32 E UBUS_ATTR_OBJID (obj_id x) s;
     s \<leftarrow> b_put_int32 E UBUS_ATTR_TARGET (obj_id y) s;
     (ub, s) \<leftarrow> ubus_msg_from_blob E False s;
     s \<leftarrow>
       (case ub of
         None \<Rightarrow> Some s
       | Some ub \<Rightarrow> do {
           s \<leftarrow> upd_obj (subscriber b) (\<lambda>x. x\<lparr>invoke_seq := invoke_seq x + 1\<rparr>) s;
           s \<leftarrow> ubus_msg_init ub UBUS_MSG_UNSUBSCRIBE (ucast (invoke_seq x + 1)) 0 s;
           ubus_msg_send E (oclient x) ub True s
         });
     ubus_unsubscribe E sb s
   }"

fun for_each_safe :: "(nat \<Rightarrow> ubusd \<Rightarrow> ubusd option) \<Rightarrow> nat list \<Rightarrow> ubusd \<Rightarrow> ubusd option" where
  "for_each_safe f [] s = Some s"
| "for_each_safe f (x # xs) s = do {
     s \<leftarrow> f x s;
     for_each_safe f xs s
   }"

definition unlink_obj :: "nat \<Rightarrow> ubusd \<Rightarrow> ubusd" where
  "unlink_obj obj s = s\<lparr>cls := (\<lambda>p. map_option (\<lambda>c. c\<lparr>cl_objects := removeAll obj (cl_objects c)\<rparr>) (cls s p))\<rparr>"

definition free_path :: "env \<Rightarrow> nat \<Rightarrow> ubusd \<Rightarrow> ubusd option" where
  "free_path E obj s = do {
     x \<leftarrow> objs s obj;
     case path_key x of
       None \<Rightarrow> Some s
     | Some key \<Rightarrow> do {
         s \<leftarrow> ubusd_send_obj_event E obj False s;
         t \<leftarrow> avl_delete (path s) (key, obj);
         Some (s\<lparr>path := t\<rparr>)
       }
   }"

definition ubusd_free_object :: "env \<Rightarrow> nat \<Rightarrow> ubusd \<Rightarrow> ubusd option" where
  "ubusd_free_object E obj s = do {
     x \<leftarrow> objs s obj;
     s \<leftarrow> for_each_safe (ubus_unsubscribe E) (target_list x) s;
     x \<leftarrow> objs s obj;
     s \<leftarrow> for_each_safe (ubus_notify_unsubscribe E) (subscribers x) s;
     s \<leftarrow> ubusd_event_cleanup_object obj s;
     s \<leftarrow> free_path E obj s;
     x \<leftarrow> objs s obj;
     let s = (if olist x \<noteq> None then unlink_obj obj s else s);
     tr \<leftarrow> ubus_free_id (objects s) (obj_id x, obj);
     let s = s\<lparr>objects := tr\<rparr>;
     s \<leftarrow> (case otype x of None \<Rightarrow> Some s | Some ty \<Rightarrow> ubus_unref_object_type ty s);
     Some (s\<lparr>objs := (objs s)(obj := None)\<rparr>)
   }"

text \<open>
  The attributes of a parsed message: the block and the table of offsets. \<open>strdup\<close> allocates once.
\<close>

type_synonym attrs = "byte list \<times> nat option list"

definition attr_at :: "attrs \<Rightarrow> nat \<Rightarrow> nat option" where
  "attr_at a i = snd a ! i"

definition set_path :: "env \<Rightarrow> nat \<Rightarrow> cstring \<Rightarrow> ubusd \<Rightarrow> (bool \<times> ubusd) option" where
  "set_path E obj key s =
     (case calloc E s of
       (None, s) \<Rightarrow> Some (False, s)
     | (Some _, s) \<Rightarrow> do {
         (rc, t) \<leftarrow> avl_insert avl_strcmp (path s) (key, obj);
         let s = s\<lparr>path := t\<rparr>;
         if rc \<noteq> 0 then Some (False, s)
         else do {
           s \<leftarrow> upd_obj obj (\<lambda>x. x\<lparr>path_key := Some key\<rparr>) s;
           s \<leftarrow> ubusd_send_obj_event E obj True s;
           Some (True, s)
         }
       })"

definition ubusd_create_object :: "env \<Rightarrow> nat \<Rightarrow> attrs \<Rightarrow> ubusd \<Rightarrow> (nat option \<times> ubusd) option" where
  "ubusd_create_object E cl attr s = do {
     (ty, s) \<leftarrow>
       (case attr_at attr UBUS_ATTR_OBJTYPE of
         Some p \<Rightarrow> do {
           i \<leftarrow> blob_get_u32 (fst attr) p;
           ubus_get_obj_type i s
         }
       | None \<Rightarrow>
           (case attr_at attr UBUS_ATTR_SIGNATURE of
             Some p \<Rightarrow> ubus_create_obj_type E (fst attr) p s
           | None \<Rightarrow> Some (None, s)));
     (obj, s) \<leftarrow> ubusd_create_object_internal E ty 0 s;
     s \<leftarrow> (case ty of None \<Rightarrow> Some s | Some ty \<Rightarrow> ubus_unref_object_type ty s);
     case obj of
       None \<Rightarrow> Some (None, s)
     | Some obj \<Rightarrow> do {
         (ok, s) \<leftarrow>
           (case attr_at attr UBUS_ATTR_OBJPATH of
             None \<Rightarrow> Some (True, s)
           | Some p \<Rightarrow> do {
               key \<leftarrow> blob_get_string (fst attr) p;
               set_path E obj key s
             });
         if \<not> ok then do {
           s \<leftarrow> ubusd_free_object E obj s;
           Some (None, s)
         }
         else do {
           s \<leftarrow> upd_obj obj (\<lambda>x. x\<lparr>oclient := Some cl, olist := Some cl\<rparr>) s;
           s \<leftarrow> upd_cl cl (\<lambda>c. c\<lparr>cl_objects := obj # cl_objects c\<rparr>) s;
           Some (Some obj, s)
         }
       }
   }"

definition ubusd_find_object :: "u32 \<Rightarrow> ubusd \<Rightarrow> nat option" where
  "ubusd_find_object objid s = ubus_find_id (objects s) objid"

definition ubusd_event_init :: "env \<Rightarrow> ubusd \<Rightarrow> ubusd option" where
  "ubusd_event_init E s = do {
     let s = s\<lparr>patterns := ubus_init_string_tree True\<rparr>;
     (obj, s) \<leftarrow> ubusd_create_object_internal E None UBUS_SYSTEM_OBJECT_EVENT s;
     let s = s\<lparr>event_obj := obj\<rparr>;
     case obj of
       None \<Rightarrow> Some s
     | Some obj \<Rightarrow> upd_obj obj (\<lambda>x. x\<lparr>recv_msg := True\<rparr>) s
   }"

text \<open>
  The constructor of the module. It may open \<open>/dev/urandom\<close> and exit when that fails, which is \<open>Inl\<close>
  the exit code.
\<close>

definition ubusd_obj_init :: "env \<Rightarrow> int \<Rightarrow> int \<Rightarrow> ubusd \<Rightarrow> (int + int \<times> ubusd) option" where
  "ubusd_obj_init E opened random_fd s =
     (case ubus_init_id_tree opened random_fd of
       Inl rc \<Rightarrow> Some (Inl rc)
     | Inr (random_fd, t1) \<Rightarrow>
         (case ubus_init_id_tree opened random_fd of
           Inl rc \<Rightarrow> Some (Inl rc)
         | Inr (random_fd, t2) \<Rightarrow> do {
             s \<leftarrow> ubusd_event_init E (s\<lparr>objects := t1, obj_types := t2, path := ubus_init_string_tree False\<rparr>);
             Some (Inr (random_fd, s))
           }))"

end
