(* ===== verification/Ubusd_Proto.thy ===== *)
theory Ubusd_Proto
  imports Ubusd_Obj
begin

text \<open>
  The protocol of the daemon: the handlers of \<open>src/ubus/ubusd_proto.c\<close>, the dispatch of a received
  message, and the creation and release of clients. A handler returns a status, or -1 when it has
  taken the message over. The lemmas state what each handler may do for a client: who may remove,
  notify and watch an object, to whom a response is sent, what a lookup answers, and that every
  command that is not taken over is answered with exactly one status message.
\<close>

section \<open>Handlers\<close>

definition ubus_policy :: "blob_attr_info list" where
  "ubus_policy = map (\<lambda>t. \<lparr>itype = t, minlen = 0, maxlen = 0, validate = None\<rparr>)
     [0, 6, 3, 6, 3, 6, 1, 0, 0, 0, 0, 0]"

definition ubus_parse_msg :: "byte list \<Rightarrow> attrs option" where
  "ubus_parse_msg m = do {
     (_, attrbuf) \<leftarrow> blob_parse m (Some 0) (Some ubus_policy) UBUS_ATTR_MAX;
     Some (m, attrbuf)
   }"

type_synonym handler = "env \<Rightarrow> nat \<Rightarrow> nat \<Rightarrow> attrs \<Rightarrow> ubusd \<Rightarrow> (int \<times> ubusd) option"

definition ubusd_send_pong :: handler where
  "ubusd_send_pong E cl ub attr s = do {
     s \<leftarrow> upd_msg ub (\<lambda>m. m\<lparr>hdr := (hdr m)\<lparr>msg_type := UBUS_MSG_DATA\<rparr>\<rparr>) s;
     s \<leftarrow> ubus_msg_send E (Some cl) ub False s;
     Some (0, s)
   }"

definition ubusd_handle_remove_object :: handler where
  "ubusd_handle_remove_object E cl ub attr s =
     (case attr_at attr UBUS_ATTR_OBJID of
       None \<Rightarrow> Some (UBUS_STATUS_INVALID_ARGUMENT, s)
     | Some p \<Rightarrow> do {
         i \<leftarrow> blob_get_u32 (fst attr) p;
         case ubusd_find_object i s of
           None \<Rightarrow> Some (UBUS_STATUS_NOT_FOUND, s)
         | Some obj \<Rightarrow> do {
             x \<leftarrow> objs s obj;
             if oclient x \<noteq> Some cl then Some (UBUS_STATUS_PERMISSION_DENIED, s)
             else do {
               s \<leftarrow> b_init E s;
               s \<leftarrow> b_put_int32 E UBUS_ATTR_OBJID (obj_id x) s;
               s \<leftarrow>
                 (case otype x of
                   None \<Rightarrow> Some s
                 | Some ty \<Rightarrow> do {
                     t \<leftarrow> types s ty;
                     if ty_refcount t = 1 then b_put_int32 E UBUS_ATTR_OBJTYPE (ty_id t) s else Some s
                   });
               s \<leftarrow> ubusd_free_object E obj s;
               s \<leftarrow> ubus_send_msg_from_blob E (Some cl) ub UBUS_MSG_DATA s;
               Some (0, s)
             }
           }
       })"

definition ubusd_handle_add_object :: handler where
  "ubusd_handle_add_object E cl ub attr s = do {
     (obj, s) \<leftarrow> ubusd_create_object E cl attr s;
     case obj of
       None \<Rightarrow> Some (UBUS_STATUS_INVALID_ARGUMENT, s)
     | Some obj \<Rightarrow> do {
         x \<leftarrow> objs s obj;
         s \<leftarrow> b_init E s;
         s \<leftarrow> b_put_int32 E UBUS_ATTR_OBJID (obj_id x) s;
         s \<leftarrow>
           (case attr_at attr UBUS_ATTR_SIGNATURE of
             None \<Rightarrow> Some s
           | Some _ \<Rightarrow> do {
               ty \<leftarrow> otype x;
               t \<leftarrow> types s ty;
               b_put_int32 E UBUS_ATTR_OBJTYPE (ty_id t) s
             });
         s \<leftarrow> ubus_send_msg_from_blob E (Some cl) ub UBUS_MSG_DATA s;
         Some (0, s)
       }
   }"

fun add_methods :: "env \<Rightarrow> byte list list \<Rightarrow> ubusd \<Rightarrow> ubusd option" where
  "add_methods E [] s = Some s"
| "add_methods E (m # ms) s = do {
     (_, s) \<leftarrow> with_b E (\<lambda>a b. blobmsg_add_blob a b m 0) s;
     add_methods E ms s
   }"

definition ubusd_send_obj :: "env \<Rightarrow> nat \<Rightarrow> nat \<Rightarrow> nat \<Rightarrow> ubusd \<Rightarrow> ubusd option" where
  "ubusd_send_obj E cl ub obj s = do {
     x \<leftarrow> objs s obj;
     s \<leftarrow> b_init E s;
     s \<leftarrow> (case path_key x of None \<Rightarrow> Some s | Some key \<Rightarrow> b_put_string E UBUS_ATTR_OBJPATH key s);
     s \<leftarrow> b_put_int32 E UBUS_ATTR_OBJID (obj_id x) s;
     ty \<leftarrow> otype x;
     t \<leftarrow> types s ty;
     s \<leftarrow> b_put_int32 E UBUS_ATTR_OBJTYPE (ty_id t) s;
     (c, s) \<leftarrow> b_nest_start E UBUS_ATTR_SIGNATURE s;
     s \<leftarrow> add_methods E (methods t) s;
     s \<leftarrow> b_nest_end c s;
     ubus_send_msg_from_blob E (Some cl) ub UBUS_MSG_DATA s
   }"

fun send_objs :: "env \<Rightarrow> nat \<Rightarrow> nat \<Rightarrow> nat list \<Rightarrow> ubusd \<Rightarrow> ubusd option" where
  "send_objs E cl ub [] s = Some s"
| "send_objs E cl ub (obj # os) s = do {
     s \<leftarrow> ubusd_send_obj E cl ub obj s;
     send_objs E cl ub os s
   }"

text \<open>
  The loop over the objects from the first one not before the prefix; \<open>len\<close> is converted to \<open>size_t\<close>
  by \<open>strncmp\<close>. The result is the flag \<open>found\<close>.
\<close>

fun lookup_loop :: "env \<Rightarrow> nat \<Rightarrow> nat \<Rightarrow> cstring \<Rightarrow> int \<Rightarrow> (cstring \<times> nat) list \<Rightarrow> bool \<Rightarrow> ubusd \<Rightarrow> (bool \<times> ubusd) option" where
  "lookup_loop E cl ub objpath n [] found s = Some (found, s)"
| "lookup_loop E cl ub objpath n ((key, obj) # es) found s =
     (if strncmp objpath key (to_size n) = 0 then do {
        s \<leftarrow> ubusd_send_obj E cl ub obj s;
        lookup_loop E cl ub objpath n es True s
      }
      else Some (found, s))"

definition ubusd_handle_lookup :: handler where
  "ubusd_handle_lookup E cl ub attr s =
     (case attr_at attr UBUS_ATTR_OBJPATH of
       None \<Rightarrow> do {
         s \<leftarrow> send_objs E cl ub (map snd (avl_for_each_element (path s))) s;
         Some (0, s)
       }
     | Some p \<Rightarrow> do {
         let off = blob_data p;
         objpath \<leftarrow> cstr_at (fst attr) off;
         (blk, star, n) \<leftarrow> cut_star (fst attr) off objpath;
         if \<not> star then
           (case avl_find avl_strcmp (path s) objpath of
             None \<Rightarrow> Some (UBUS_STATUS_NOT_FOUND, s)
           | Some (_, obj) \<Rightarrow> do {
               s \<leftarrow> ubusd_send_obj E cl ub obj s;
               Some (0, s)
             })
         else do {
           s \<leftarrow> upd_msg ub (\<lambda>m. m\<lparr>mdata := blk\<rparr>) s;
           objpath \<leftarrow> cstr_at blk off;
           (case avl_find_greaterequal avl_strcmp (path s) objpath of
             None \<Rightarrow> Some (UBUS_STATUS_NOT_FOUND, s)
           | Some e \<Rightarrow> do {
               (found, s) \<leftarrow> lookup_loop E cl ub objpath n (e # after e (list_head (path s))) False s;
               Some (if found then 0 else UBUS_STATUS_NOT_FOUND, s)
             })
         }
       })"

definition ubusd_forward_invoke :: "env \<Rightarrow> nat \<Rightarrow> cstring \<Rightarrow> nat \<Rightarrow> byte list \<Rightarrow> nat option \<Rightarrow> ubusd \<Rightarrow> ubusd option" where
  "ubusd_forward_invoke E obj method ub m data s = do {
     x \<leftarrow> objs s obj;
     s \<leftarrow> b_put_int32 E UBUS_ATTR_OBJID (obj_id x) s;
     s \<leftarrow> b_put_string E UBUS_ATTR_METHOD method s;
     s \<leftarrow>
       (case data of
         None \<Rightarrow> Some s
       | Some d \<Rightarrow> do {
           n \<leftarrow> blob_len m d;
           b_put E UBUS_ATTR_DATA m (blob_data d) n s
         });
     ubus_send_msg_from_blob E (oclient x) ub UBUS_MSG_INVOKE s
   }"

definition set_peer :: "nat \<Rightarrow> u32 \<Rightarrow> ubusd \<Rightarrow> ubusd option" where
  "set_peer ub p s = upd_msg ub (\<lambda>m. m\<lparr>hdr := (hdr m)\<lparr>peer := p\<rparr>\<rparr>) s"

definition ubusd_handle_invoke :: handler where
  "ubusd_handle_invoke E cl ub attr s =
     (case (attr_at attr UBUS_ATTR_METHOD, attr_at attr UBUS_ATTR_OBJID) of
       (Some a_method, Some a_objid) \<Rightarrow> do {
         i \<leftarrow> blob_get_u32 (fst attr) a_objid;
         case ubus_find_id (objects s) i of
           None \<Rightarrow> Some (UBUS_STATUS_NOT_FOUND, s)
         | Some obj \<Rightarrow> do {
             x \<leftarrow> objs s obj;
             method \<leftarrow> blob_get_string (fst attr) a_method;
             if oclient x = None then
               (if recv_msg x then ubusd_event_recv E cl method ub (attr_at attr UBUS_ATTR_DATA) s else None)
             else do {
               c \<leftarrow> cls s cl;
               s \<leftarrow> set_peer ub (cl_id c) s;
               s \<leftarrow> b_init E s;
               s \<leftarrow> ubusd_forward_invoke E obj method ub (fst attr) (attr_at attr UBUS_ATTR_DATA) s;
               s \<leftarrow> ubus_msg_free ub s;
               Some (-1, s)
             }
           }
       }
     | _ \<Rightarrow> Some (UBUS_STATUS_INVALID_ARGUMENT, s))"

fun put_subscribers :: "env \<Rightarrow> nat list \<Rightarrow> ubusd \<Rightarrow> ubusd option" where
  "put_subscribers E [] s = Some s"
| "put_subscribers E (sb # sbs) s = do {
     b \<leftarrow> subs s sb;
     x \<leftarrow> objs s (subscriber b);
     s \<leftarrow> b_put_int32 E 0 (obj_id x) s;
     put_subscribers E sbs s
   }"

fun notify_subscribers ::
    "env \<Rightarrow> bool \<Rightarrow> cstring \<Rightarrow> nat \<Rightarrow> byte list \<Rightarrow> nat option \<Rightarrow> nat list \<Rightarrow> ubusd \<Rightarrow> ubusd option" where
  "notify_subscribers E no_reply method ub m data [] s = Some s"
| "notify_subscribers E no_reply method ub m data (sb # sbs) s = do {
     b \<leftarrow> subs s sb;
     s \<leftarrow> b_init E s;
     s \<leftarrow> (if no_reply then b_put_int8 E UBUS_ATTR_NO_REPLY 1 s else Some s);
     s \<leftarrow> ubusd_forward_invoke E (subscriber b) method ub m data s;
     notify_subscribers E no_reply method ub m data sbs s
   }"

definition ubusd_handle_notify :: handler where
  "ubusd_handle_notify E cl ub attr s =
     (case (attr_at attr UBUS_ATTR_METHOD, attr_at attr UBUS_ATTR_OBJID) of
       (Some a_method, Some a_objid) \<Rightarrow> do {
         no_reply \<leftarrow>
           (case attr_at attr UBUS_ATTR_NO_REPLY of
             None \<Rightarrow> Some False
           | Some p \<Rightarrow> map_option (\<lambda>v. v \<noteq> 0) (blob_get_int8 (fst attr) p));
         i \<leftarrow> blob_get_u32 (fst attr) a_objid;
         case ubus_find_id (objects s) i of
           None \<Rightarrow> Some (UBUS_STATUS_NOT_FOUND, s)
         | Some obj \<Rightarrow> do {
             x \<leftarrow> objs s obj;
             if oclient x \<noteq> Some cl then Some (UBUS_STATUS_PERMISSION_DENIED, s)
             else do {
               s \<leftarrow>
                 (if no_reply then Some s
                  else do {
                    s \<leftarrow> b_init E s;
                    s \<leftarrow> b_put_int32 E UBUS_ATTR_OBJID (obj_id x) s;
                    (c, s) \<leftarrow> b_nest_start E UBUS_ATTR_SUBSCRIBERS s;
                    s \<leftarrow> put_subscribers E (subscribers x) s;
                    s \<leftarrow> b_nest_end c s;
                    s \<leftarrow> b_put_int32 E UBUS_ATTR_STATUS 0 s;
                    ubus_send_msg_from_blob E (Some cl) ub UBUS_MSG_STATUS s
                  });
               c \<leftarrow> cls s cl;
               s \<leftarrow> set_peer ub (cl_id c) s;
               method \<leftarrow> blob_get_string (fst attr) a_method;
               s \<leftarrow> notify_subscribers E no_reply method ub (fst attr) (attr_at attr UBUS_ATTR_DATA) (subscribers x) s;
               s \<leftarrow> ubus_msg_free ub s;
               Some (-1, s)
             }
           }
       }
     | _ \<Rightarrow> Some (UBUS_STATUS_INVALID_ARGUMENT, s))"

definition ubusd_get_client_by_id :: "u32 \<Rightarrow> ubusd \<Rightarrow> nat option" where
  "ubusd_get_client_by_id i s = ubus_find_id (clients s) i"

text \<open>\<open>Some i\<close> when none of the tests of \<open>ubusd_handle_response\<close> fails: the object and the client to answer.\<close>

definition response_target :: "nat \<Rightarrow> nat \<Rightarrow> attrs \<Rightarrow> ubusd \<Rightarrow> (u32 \<times> nat) option option" where
  "response_target cl ub attr s = do {
     m \<leftarrow> msgs s ub;
     if attr_at attr UBUS_ATTR_OBJID = None \<or>
        (msg_type (hdr m) = UBUS_MSG_STATUS \<and> attr_at attr UBUS_ATTR_STATUS = None) \<or>
        (msg_type (hdr m) = UBUS_MSG_DATA \<and> attr_at attr UBUS_ATTR_DATA = None)
     then Some None
     else do {
       p \<leftarrow> attr_at attr UBUS_ATTR_OBJID;
       i \<leftarrow> blob_get_u32 (fst attr) p;
       case ubusd_find_object i s of
         None \<Rightarrow> Some None
       | Some obj \<Rightarrow> do {
           x \<leftarrow> objs s obj;
           if oclient x \<noteq> Some cl then Some None
           else Some (map_option (Pair i) (ubusd_get_client_by_id (peer (hdr m)) s))
         }
     }
   }"

definition ubusd_handle_response :: handler where
  "ubusd_handle_response E cl ub attr s = do {
     r \<leftarrow> response_target cl ub attr s;
     case r of
       None \<Rightarrow> do {
         s \<leftarrow> ubus_msg_free ub s;
         Some (-1, s)
       }
     | Some (i, cl) \<Rightarrow> do {
         s \<leftarrow> set_peer ub i s;
         s \<leftarrow> ubus_msg_send E (Some cl) ub True s;
         Some (-1, s)
       }
   }"

definition ubusd_handle_add_watch :: handler where
  "ubusd_handle_add_watch E cl ub attr s =
     (case (attr_at attr UBUS_ATTR_OBJID, attr_at attr UBUS_ATTR_TARGET) of
       (Some a_objid, Some a_target) \<Rightarrow> do {
         i \<leftarrow> blob_get_u32 (fst attr) a_objid;
         case ubusd_find_object i s of
           None \<Rightarrow> Some (UBUS_STATUS_NOT_FOUND, s)
         | Some obj \<Rightarrow> do {
             x \<leftarrow> objs s obj;
             if oclient x \<noteq> Some cl then Some (UBUS_STATUS_INVALID_ARGUMENT, s)
             else do {
               j \<leftarrow> blob_get_u32 (fst attr) a_target;
               case ubusd_find_object j s of
                 None \<Rightarrow> Some (UBUS_STATUS_NOT_FOUND, s)
               | Some tgt \<Rightarrow> do {
                   y \<leftarrow> objs s tgt;
                   if oclient y = Some cl then Some (UBUS_STATUS_INVALID_ARGUMENT, s)
                   else do {
                     s \<leftarrow> ubus_subscribe E obj tgt s;
                     Some (0, s)
                   }
                 }
             }
           }
       }
     | _ \<Rightarrow> Some (UBUS_STATUS_INVALID_ARGUMENT, s))"

text \<open>The first subscription of a list whose target has the identifier.\<close>

fun find_target :: "u32 \<Rightarrow> nat list \<Rightarrow> ubusd \<Rightarrow> nat option option" where
  "find_target i [] s = Some None"
| "find_target i (sb # sbs) s = do {
     b \<leftarrow> subs s sb;
     y \<leftarrow> objs s (target b);
     if obj_id y \<noteq> i then find_target i sbs s else Some (Some sb)
   }"

definition ubusd_handle_remove_watch :: handler where
  "ubusd_handle_remove_watch E cl ub attr s =
     (case (attr_at attr UBUS_ATTR_OBJID, attr_at attr UBUS_ATTR_TARGET) of
       (Some a_objid, Some a_target) \<Rightarrow> do {
         i \<leftarrow> blob_get_u32 (fst attr) a_objid;
         case ubusd_find_object i s of
           None \<Rightarrow> Some (UBUS_STATUS_NOT_FOUND, s)
         | Some obj \<Rightarrow> do {
             x \<leftarrow> objs s obj;
             if oclient x \<noteq> Some cl then Some (UBUS_STATUS_INVALID_ARGUMENT, s)
             else do {
               j \<leftarrow> blob_get_u32 (fst attr) a_target;
               sb \<leftarrow> find_target j (target_list x) s;
               case sb of
                 None \<Rightarrow> Some (UBUS_STATUS_NOT_FOUND, s)
               | Some sb \<Rightarrow> do {
                   s \<leftarrow> ubus_unsubscribe E sb s;
                   Some (0, s)
                 }
             }
           }
       }
     | _ \<Rightarrow> Some (UBUS_STATUS_INVALID_ARGUMENT, s))"

section \<open>Dispatch\<close>

definition handlers :: "byte \<Rightarrow> handler option" where
  "handlers ty =
     (if ty = UBUS_MSG_PING then Some ubusd_send_pong
      else if ty = UBUS_MSG_ADD_OBJECT then Some ubusd_handle_add_object
      else if ty = UBUS_MSG_REMOVE_OBJECT then Some ubusd_handle_remove_object
      else if ty = UBUS_MSG_LOOKUP then Some ubusd_handle_lookup
      else if ty = UBUS_MSG_INVOKE then Some ubusd_handle_invoke
      else if ty = UBUS_MSG_STATUS then Some ubusd_handle_response
      else if ty = UBUS_MSG_DATA then Some ubusd_handle_response
      else if ty = UBUS_MSG_SUBSCRIBE then Some ubusd_handle_add_watch
      else if ty = UBUS_MSG_UNSUBSCRIBE then Some ubusd_handle_remove_watch
      else if ty = UBUS_MSG_NOTIFY then Some ubusd_handle_notify
      else None)"

text \<open>\<open>retmsg_data\<close> is the payload of the attribute in the message \<open>retmsg\<close>, 8 bytes from its start.\<close>

definition send_status :: "env \<Rightarrow> nat \<Rightarrow> int \<Rightarrow> ubusd \<Rightarrow> ubusd option" where
  "send_status E cl ret s = do {
     m \<leftarrow> msgs s (retmsg s);
     d \<leftarrow> mem_write (mdata m) (blob_data (blob_data 0)) (be32 (word_of_int ret));
     s \<leftarrow> upd_msg (retmsg s) (\<lambda>m. m\<lparr>mdata := d\<rparr>) s;
     ubus_msg_send E (Some cl) (retmsg s) False s
   }"

definition ubusd_proto_receive_message :: "env \<Rightarrow> nat \<Rightarrow> nat \<Rightarrow> ubusd \<Rightarrow> ubusd option" where
  "ubusd_proto_receive_message E cl ub s = do {
     m \<leftarrow> msgs s ub;
     s \<leftarrow> upd_msg (retmsg s) (\<lambda>r. r\<lparr>hdr := (hdr r)\<lparr>seq := seq (hdr m), peer := peer (hdr m)\<rparr>\<rparr>) s;
     s \<leftarrow> (if msg_type (hdr m) \<noteq> UBUS_MSG_STATUS then ubus_msg_close_fd ub s else Some s);
     (ret, s) \<leftarrow>
       (case handlers (msg_type (hdr m)) of
         None \<Rightarrow> Some (UBUS_STATUS_INVALID_COMMAND, s)
       | Some cb \<Rightarrow> do {
           attr \<leftarrow> ubus_parse_msg (mdata m);
           cb E cl ub attr s
         });
     if ret = -1 then Some s
     else do {
       s \<leftarrow> ubus_msg_free ub s;
       send_status E cl ret s
     }
   }"

section \<open>Clients\<close>

definition ubusd_proto_new_client :: "env \<Rightarrow> int \<Rightarrow> ubusd \<Rightarrow> (nat option \<times> ubusd) option" where
  "ubusd_proto_new_client E fd s =
     (case calloc E s of
       (None, s) \<Rightarrow> Some (None, s)
     | (Some cl, s) \<Rightarrow> do {
         (ok, i, tr, rs) \<leftarrow> ubus_alloc_id (random s) (clients s) cl 0;
         let s = s\<lparr>clients := tr, random := rs\<rparr>;
         if \<not> ok then Some (None, s)
         else do {
           let s = s\<lparr>cls := (cls s)(cl \<mapsto>
             \<lparr>cl_id = i, sock_fd = fd, eof = False, cl_objects = [],
              tx_queue = replicate UBUSD_CLIENT_BACKLOG None, txq_cur = 0, txq_tail = 0, txq_ofs = 0,
              pending_msg = None, pending_msg_offset = 0, pending_msg_fd = -1, hdrbuf = replicate 12 0\<rparr>)\<rparr>;
           (ok, s) \<leftarrow> ubusd_send_hello E cl s;
           if ok then Some (Some cl, s)
           else do {
             tr \<leftarrow> ubus_free_id (clients s) (i, cl);
             Some (None, s\<lparr>clients := tr, cls := (cls s)(cl := None)\<rparr>)
           }
         }
       })"

partial_function (option) free_client_objects :: "env \<Rightarrow> nat \<Rightarrow> ubusd \<Rightarrow> ubusd option" where
  "free_client_objects E cl s = do {
     c \<leftarrow> cls s cl;
     case cl_objects c of
       [] \<Rightarrow> Some s
     | obj # _ \<Rightarrow> do {
         s \<leftarrow> ubusd_free_object E obj s;
         free_client_objects E cl s
       }
   }"

definition ubusd_proto_free_client :: "env \<Rightarrow> nat \<Rightarrow> ubusd \<Rightarrow> ubusd option" where
  "ubusd_proto_free_client E cl s = do {
     s \<leftarrow> free_client_objects E cl s;
     c \<leftarrow> cls s cl;
     tr \<leftarrow> ubus_free_id (clients s) (cl_id c, cl);
     Some (s\<lparr>clients := tr\<rparr>)
   }"

definition ubusd_proto_init :: "env \<Rightarrow> int \<Rightarrow> int \<Rightarrow> ubusd \<Rightarrow> (int + int \<times> ubusd) option" where
  "ubusd_proto_init E opened random_fd s =
     (case ubus_init_id_tree opened random_fd of
       Inl rc \<Rightarrow> Some (Inl rc)
     | Inr (random_fd, t) \<Rightarrow> do {
         s \<leftarrow> b_init E (s\<lparr>clients := t\<rparr>);
         s \<leftarrow> b_put_int32 E UBUS_ATTR_STATUS 0 s;
         (r, s) \<leftarrow> ubus_msg_from_blob E False s;
         case r of
           None \<Rightarrow> Some (Inl 1)
         | Some r \<Rightarrow> do {
             s \<leftarrow> upd_msg r (\<lambda>m. m\<lparr>hdr := (hdr m)\<lparr>msg_type := UBUS_MSG_STATUS\<rparr>\<rparr>) s;
             Some (Inr (random_fd, s\<lparr>retmsg := r\<rparr>))
           }
       })"

section \<open>Lookup by prefix\<close>

lemma strncmp_prefix: "strncmp pfx key (length pfx) = 0 \<longleftrightarrow> prefix pfx key"
  by (auto simp: strncmp_def prefix_def) (metis append_take_drop_id)

lemma prefix_between:
  "strcmp pfx k1 \<le> 0 \<Longrightarrow> strcmp k1 k2 \<le> 0 \<Longrightarrow> prefix pfx k2 \<Longrightarrow> prefix pfx k1"
proof (induction pfx k1 arbitrary: k2 rule: strcmp.induct)
  case (4 a as b bs)
  then show ?case by (cases k2) (auto split: if_splits)
qed auto

lemma prefix_not_before: "prefix pfx k \<Longrightarrow> strcmp pfx k \<le> 0"
  by (rule prefix_strcmp)

text \<open>In an alphabetical list, the entries with a prefix are those the loop visits.\<close>

lemma prefix_segment:
  assumes sorted: "sorted_wrt (\<lambda>x y. strcmp (fst x) (fst y) \<le> 0) xs"
  shows "takeWhile (\<lambda>x. prefix pfx (fst x)) (dropWhile (\<lambda>x. \<not> strcmp pfx (fst x) \<le> 0) xs) =
    filter (\<lambda>x. prefix pfx (fst x)) xs"
  using sorted
proof (induction xs)
  case (Cons x xs)
  show ?case
  proof (cases "strcmp pfx (fst x) \<le> 0")
    case False
    then have "\<not> prefix pfx (fst x)" using prefix_not_before by blast
    with False Cons show ?thesis by simp
  next
    case le: True
    show ?thesis
    proof (cases "prefix pfx (fst x)")
      case True
      have "dropWhile (\<lambda>x. \<not> strcmp pfx (fst x) \<le> 0) xs = xs"
      proof (cases xs)
        case (Cons y ys)
        then have "strcmp (fst x) (fst y) \<le> 0" using Cons.prems by simp
        with le have "strcmp pfx (fst y) \<le> 0"
          using strcmp_order.cmp_le_trans [of pfx "fst x" "fst y"] by (simp add: avl_strcmp_def)
        with Cons show ?thesis by simp
      qed simp
      with True le Cons show ?thesis by simp
    next
      case False
      have "\<not> prefix pfx (fst y)" if "y \<in> set xs" for y
        using False le prefix_between [of pfx "fst x" "fst y"] Cons.prems that by auto
      with False le show ?thesis by (simp add: filter_empty_conv)
    qed
  qed
qed simp

lemma lookup_loop_takeWhile:
  assumes "length pfx < 2 ^ 64"
  shows "lookup_loop E cl ub pfx (int (length pfx)) xs found s =
    (let ys = takeWhile (\<lambda>x. prefix pfx (fst x)) xs in
     map_option (Pair (found \<or> ys \<noteq> [])) (send_objs E cl ub (map snd ys) s))"
proof (induction xs arbitrary: found s)
  case (Cons x xs)
  obtain key obj where x: "x = (key, obj)" by (cases x)
  have n: "to_size (int (length pfx)) = length pfx" using assms by (simp add: to_size_nonneg)
  show ?case
  proof (cases "prefix pfx key")
    case True
    with Cons x n show ?thesis
      by (cases "ubusd_send_obj E cl ub obj s") (simp_all add: strncmp_prefix Let_def)
  next
    case False
    with x n show ?thesis by (simp add: strncmp_prefix)
  qed
qed simp

lemma find_after:
  "List.find P xs = None \<Longrightarrow> dropWhile (\<lambda>x. \<not> P x) xs = []"
  "List.find P xs = Some e \<Longrightarrow> dropWhile (\<lambda>x. \<not> P x) xs = e # after e xs"
proof -
  show "List.find P xs = None \<Longrightarrow> dropWhile (\<lambda>x. \<not> P x) xs = []"
    by (simp add: find_None_iff)
  have p: "List.find P xs = Some e \<Longrightarrow> P e" for xs by (induction xs) (auto split: if_splits)
  show "List.find P xs = Some e \<Longrightarrow> dropWhile (\<lambda>x. \<not> P x) xs = e # after e xs"
    by (induction xs) (auto dest: p split: if_splits)
qed

text \<open>The effect of the final star on the string in a message.\<close>

lemma cut_star_string:
  assumes "cstr_at m off = Some (pfx @ [42])"
  shows "\<exists>blk. cut_star m off (pfx @ [42]) = Some (blk, True, int (length pfx)) \<and> cstr_at blk off = Some pfx"
proof -
  have z: "0 \<in> set (drop off m)" and t: "takeWhile (\<lambda>c. c \<noteq> 0) (drop off m) = pfx @ [42]"
    using assms by (auto simp: cstr_at_def split: if_splits)
  have "dropWhile (\<lambda>c. c \<noteq> 0) (drop off m) \<noteq> []" using z by (simp add: dropWhile_eq_Nil_conv)
  then obtain B where "dropWhile (\<lambda>c. c \<noteq> 0) (drop off m) = 0 # B"
    using hd_dropWhile [of "\<lambda>c. c \<noteq> 0" "drop off m"] by (cases "dropWhile (\<lambda>c. c \<noteq> 0) (drop off m)") auto
  with t takeWhile_dropWhile_id [of "\<lambda>c. c \<noteq> 0" "drop off m"] have B: "drop off m = pfx @ [42, 0] @ B"
    by (metis append.assoc append_Cons append_Nil)
  define A where "A = take off m"
  have "off \<le> length m" using B by (metis append_is_Nil_conv drop_eq_Nil list.discI nle_le)
  then have "length A = off" by (simp add: A_def)
  moreover have "m = A @ pfx @ [42, 0] @ B" unfolding A_def B [symmetric] by simp
  ultimately have A: "m = A @ pfx @ [42, 0] @ B" "length A = off" by blast+
  have "\<forall>c\<in>set (pfx @ [42]). c \<noteq> 0" unfolding t [symmetric] by (blast dest: set_takeWhileD)
  then have nz: "0 \<notin> set pfx" by auto
  have "cut_star m off (pfx @ [42]) = Some (A @ pfx @ [0, 0] @ B, True, int (length pfx))"
    using A mem_write_app [of "off + length pfx" "A @ pfx" "[42]" "[0]" "0 # B"]
    by (simp add: cut_star_def rd8_def nth_append Let_def nat_int_add)
  moreover have "cstr_at (A @ pfx @ [0, 0] @ B) off = Some pfx"
    using A nz by (auto simp: cstr_at_def takeWhile_append)
  ultimately show ?thesis by blast
qed

section \<open>Properties\<close>

text \<open>
  C31: A lookup with a path that ends in \<open>*\<close> answers with exactly the objects whose path begins with
  the characters before the star, in alphabetical order, and with \<open>UBUS_STATUS_NOT_FOUND\<close> exactly
  when there is none: the search for the first path not before the prefix and the loop that stops at the
  first path without it find all of them.
\<close>

theorem ubusd_lookup_prefix:
  assumes "avl_ok avl_strcmp (path s)" and "length pfx < 2 ^ 64"
    and "attr_at attr UBUS_ATTR_OBJPATH = Some p" and "cstr_at (fst attr) (blob_data p) = Some (pfx @ [42])"
  shows "\<exists>blk. ubusd_handle_lookup E cl ub attr s = do {
     s \<leftarrow> upd_msg ub (\<lambda>m. m\<lparr>mdata := blk\<rparr>) s;
     let found = filter (\<lambda>x. prefix pfx (fst x)) (list_head (path s));
     s \<leftarrow> send_objs E cl ub (map snd found) s;
     Some (if found = [] then UBUS_STATUS_NOT_FOUND else 0, s)
   }"
proof -
  obtain blk where blk: "cut_star (fst attr) (blob_data p) (pfx @ [42]) = Some (blk, True, int (length pfx))"
    "cstr_at blk (blob_data p) = Some pfx" using cut_star_string [OF assms(4)] by blast
  let ?L = "list_head (path s)" and ?P = "\<lambda>x. avl_strcmp pfx (fst x) \<le> 0"
  have "sorted_wrt (\<lambda>x y. strcmp (fst x) (fst y) \<le> 0) ?L"
    using strcmp_order.runs_sorted [of "leader (path s)" ?L] assms(1) by (simp add: avl_ok_def avl_strcmp_def)
  from prefix_segment [OF this, of pfx]
  have seg: "takeWhile (\<lambda>x. prefix pfx (fst x)) (dropWhile (\<lambda>x. \<not> ?P x) ?L) = filter (\<lambda>x. prefix pfx (fst x)) ?L"
    by (simp add: avl_strcmp_def)
  have ge: "avl_find_greaterequal avl_strcmp (path s) pfx = List.find ?P ?L"
    by (rule strcmp_order.find_greaterequal_ok [OF assms(1)])
  have path: "path s' = path s" if "upd_msg ub f s = Some s'" for f s'
    using rest_fields [OF frame_rest [OF frame_upd_msg [OF that]]] by simp
  show ?thesis
  proof (rule exI [of _ blk], cases "List.find ?P ?L")
    case None
    from seg [unfolded find_after(1) [OF None]] have f: "filter (\<lambda>x. prefix pfx (fst x)) ?L = []" by simp
    show "ubusd_handle_lookup E cl ub attr s = do {
       s \<leftarrow> upd_msg ub (\<lambda>m. m\<lparr>mdata := blk\<rparr>) s;
       let found = filter (\<lambda>x. prefix pfx (fst x)) (list_head (path s));
       s \<leftarrow> send_objs E cl ub (map snd found) s;
       Some (if found = [] then UBUS_STATUS_NOT_FOUND else 0, s)
     }"
      using assms(3,4) blk ge None f path
      by (cases "upd_msg ub (\<lambda>m. m\<lparr>mdata := blk\<rparr>) s") (simp_all add: ubusd_handle_lookup_def)
  next
    case (Some e)
    note f = seg [unfolded find_after(2) [OF Some]]
    show "ubusd_handle_lookup E cl ub attr s = do {
       s \<leftarrow> upd_msg ub (\<lambda>m. m\<lparr>mdata := blk\<rparr>) s;
       let found = filter (\<lambda>x. prefix pfx (fst x)) (list_head (path s));
       s \<leftarrow> send_objs E cl ub (map snd found) s;
       Some (if found = [] then UBUS_STATUS_NOT_FOUND else 0, s)
     }"
    proof (cases "upd_msg ub (\<lambda>m. m\<lparr>mdata := blk\<rparr>) s")
      case None
      with assms(3,4) blk show ?thesis by (simp add: ubusd_handle_lookup_def)
    next
      case (Some s1)
      note lookup_loop_takeWhile [OF assms(2), of E cl ub "e # after e ?L" False s1, unfolded f]
      with assms(3,4) blk ge \<open>List.find ?P ?L = Some e\<close> Some path [OF Some] show ?thesis
        by (cases "send_objs E cl ub (map snd (filter (\<lambda>x. prefix pfx (fst x)) ?L)) s1")
          (simp_all add: ubusd_handle_lookup_def Let_def)
    qed
  qed
qed

text \<open>Objects at the paths \<open>n.\<close>, \<open>n.u\<close> and \<open>o\<close>; the first two begin with \<open>n\<close>.\<close>

definition lookup_object :: "u32 \<Rightarrow> cstring \<Rightarrow> ubus_object" where
  "lookup_object i key = (sample_object i 1 [])\<lparr>otype := Some 30, path_key := Some key\<rparr>"

definition lookup_daemon :: ubusd where
  "lookup_daemon = event_daemon
     \<lparr>path := sample_patterns, types := [30 \<mapsto> \<lparr>ty_id = 7000, ty_refcount = 3, methods = []\<rparr>],
      objs := [20 \<mapsto> lookup_object 5000 [110, 46], 21 \<mapsto> lookup_object 6000 [110, 46, 117], 22 \<mapsto> lookup_object 6500 [111]]\<rparr>"

definition lookup_attrs :: attrs where
  "lookup_attrs = ([0, 0, 0, 7, 110, 42, 0], [None, None, Some 0])"

lemma lookup_runs: "map_option fst (ubusd_handle_lookup quiet_env 1 3 lookup_attrs lookup_daemon) = Some 0"
  by code_simp

theorem ubusd_lookup_prefix_witness:
  "\<exists>blk s1 s'. upd_msg 3 (\<lambda>m. m\<lparr>mdata := blk\<rparr>) lookup_daemon = Some s1 \<and> send_objs quiet_env 1 3 [20, 21] s1 = Some s' \<and>
    ubusd_handle_lookup quiet_env 1 3 lookup_attrs lookup_daemon = Some (0, s')"
proof -
  have "avl_ok avl_strcmp (path lookup_daemon)" "length [110 :: byte] < 2 ^ 64"
    "attr_at lookup_attrs UBUS_ATTR_OBJPATH = Some 0" "cstr_at (fst lookup_attrs) (blob_data 0) = Some ([110] @ [42])"
    using event_daemon_ok(1)
    by (simp_all add: patterns_ok_def event_daemon_def lookup_daemon_def lookup_attrs_def attr_at_def UBUS_ATTR_OBJPATH_def
      cstr_at_def blob_data_def)
  from ubusd_lookup_prefix [OF this, of quiet_env 1 3] obtain blk where
    blk: "ubusd_handle_lookup quiet_env 1 3 lookup_attrs lookup_daemon = do {
       s \<leftarrow> upd_msg 3 (\<lambda>m. m\<lparr>mdata := blk\<rparr>) lookup_daemon;
       let found = filter (\<lambda>x. prefix [110] (fst x)) (list_head (path s));
       s \<leftarrow> send_objs quiet_env 1 3 (map snd found) s;
       Some (if found = [] then UBUS_STATUS_NOT_FOUND else 0, s) }" by blast
  obtain s1 where s1: "upd_msg 3 (\<lambda>m. m\<lparr>mdata := blk\<rparr>) lookup_daemon = Some s1" "path s1 = sample_patterns"
    by (simp add: upd_msg_def lookup_daemon_def event_daemon_def)
  have "filter (\<lambda>x. prefix [110] (fst x)) (list_head sample_patterns) = [([110, 46], 20), ([110, 46, 117], 21)]"
    by (simp add: sample_patterns_def)
  with blk s1(2) have run: "ubusd_handle_lookup quiet_env 1 3 lookup_attrs lookup_daemon = do {
      s \<leftarrow> send_objs quiet_env 1 3 [20, 21] s1;
      Some (0, s) }"
    unfolding s1(1) by (simp del: send_objs.simps)
  with lookup_runs obtain s' where "send_objs quiet_env 1 3 [20, 21] s1 = Some s'"
    by (cases "send_objs quiet_env 1 3 [20, 21] s1") (simp_all del: send_objs.simps)
  with run s1(1) show ?thesis by (auto simp del: send_objs.simps)
qed

text \<open>
  C32: A client cannot act on the objects of others. When the object that a message names belongs to
  another client, a removal is refused with \<open>UBUS_STATUS_PERMISSION_DENIED\<close>, and so is a notification that
  has a method, whether or not it asks for a reply (a flag that is present must only be readable);
  adding and removing a subscription of that object are refused with \<open>UBUS_STATUS_INVALID_ARGUMENT\<close> when
  they name a target; each without any change of state. A response in its name is discarded.
\<close>

theorem foreign_object_protected:
  assumes "attr_at attr UBUS_ATTR_OBJID = Some p" and "blob_get_u32 (fst attr) p = Some i"
    and "ubusd_find_object i s = Some obj" and "objs s obj = Some x" and "oclient x \<noteq> Some cl"
  shows "ubusd_handle_remove_object E cl ub attr s = Some (UBUS_STATUS_PERMISSION_DENIED, s) \<and>
    (attr_at attr UBUS_ATTR_METHOD \<noteq> None \<and>
       (\<forall>q. attr_at attr UBUS_ATTR_NO_REPLY = Some q \<longrightarrow> blob_get_int8 (fst attr) q \<noteq> None) \<longrightarrow>
       ubusd_handle_notify E cl ub attr s = Some (UBUS_STATUS_PERMISSION_DENIED, s)) \<and>
    (attr_at attr UBUS_ATTR_TARGET \<noteq> None \<longrightarrow>
       ubusd_handle_add_watch E cl ub attr s = Some (UBUS_STATUS_INVALID_ARGUMENT, s) \<and>
       ubusd_handle_remove_watch E cl ub attr s = Some (UBUS_STATUS_INVALID_ARGUMENT, s)) \<and>
    (msgs s ub \<noteq> None \<longrightarrow>
       ubusd_handle_response E cl ub attr s = do { s \<leftarrow> ubus_msg_free ub s; Some (-1, s) })"
proof (intro conjI impI)
  have find: "ubus_find_id (objects s) i = Some obj" using assms(3) by (simp add: ubusd_find_object_def)
  show "ubusd_handle_remove_object E cl ub attr s = Some (UBUS_STATUS_PERMISSION_DENIED, s)"
    using assms by (simp add: ubusd_handle_remove_object_def)
  show "ubusd_handle_notify E cl ub attr s = Some (UBUS_STATUS_PERMISSION_DENIED, s)"
    if "attr_at attr UBUS_ATTR_METHOD \<noteq> None \<and>
       (\<forall>q. attr_at attr UBUS_ATTR_NO_REPLY = Some q \<longrightarrow> blob_get_int8 (fst attr) q \<noteq> None)"
    using assms find that by (cases "attr_at attr UBUS_ATTR_NO_REPLY") (auto simp: ubusd_handle_notify_def)
  show "ubusd_handle_add_watch E cl ub attr s = Some (UBUS_STATUS_INVALID_ARGUMENT, s)"
    if "attr_at attr UBUS_ATTR_TARGET \<noteq> None"
    using assms that by (auto simp: ubusd_handle_add_watch_def)
  show "ubusd_handle_remove_watch E cl ub attr s = Some (UBUS_STATUS_INVALID_ARGUMENT, s)"
    if "attr_at attr UBUS_ATTR_TARGET \<noteq> None"
    using assms that by (auto simp: ubusd_handle_remove_watch_def)
  show "ubusd_handle_response E cl ub attr s = do { s \<leftarrow> ubus_msg_free ub s; Some (-1, s) }"
    if "msgs s ub \<noteq> None"
    using assms that by (auto simp: ubusd_handle_response_def response_target_def)
qed

text \<open>A message of client 1 about object 6000, of client 2, with every attribute, so one that asks for no reply.\<close>

definition foreign_attrs :: attrs where
  "foreign_attrs = ([3, 0, 0, 8, 0, 0, 0x17, 0x70], replicate 12 (Some 0))"

theorem foreign_object_protected_witness:
  "ubusd_handle_remove_object quiet_env 1 3 foreign_attrs event_daemon = Some (UBUS_STATUS_PERMISSION_DENIED, event_daemon) \<and>
   ubusd_handle_notify quiet_env 1 3 foreign_attrs event_daemon = Some (UBUS_STATUS_PERMISSION_DENIED, event_daemon) \<and>
   ubusd_handle_add_watch quiet_env 1 3 foreign_attrs event_daemon = Some (UBUS_STATUS_INVALID_ARGUMENT, event_daemon) \<and>
   ubusd_handle_remove_watch quiet_env 1 3 foreign_attrs event_daemon = Some (UBUS_STATUS_INVALID_ARGUMENT, event_daemon) \<and>
   ubusd_handle_response quiet_env 1 3 foreign_attrs event_daemon = do { s \<leftarrow> ubus_msg_free 3 event_daemon; Some (-1, s) }"
proof -
  have "attr_at foreign_attrs UBUS_ATTR_OBJID = Some 0" "blob_get_u32 (fst foreign_attrs) 0 = Some 6000"
    "ubusd_find_object 6000 event_daemon = Some 11" by code_simp+
  moreover have "attr_at foreign_attrs UBUS_ATTR_METHOD = Some 0" "attr_at foreign_attrs UBUS_ATTR_TARGET = Some 0"
    "attr_at foreign_attrs UBUS_ATTR_NO_REPLY = Some 0" "blob_get_int8 (fst foreign_attrs) 0 \<noteq> None" by code_simp+
  moreover have "objs event_daemon 11 = Some (sample_object 6000 2 [22])" "msgs event_daemon 3 \<noteq> None"
    "oclient (sample_object 6000 2 [22]) \<noteq> Some 1"
    by (simp_all add: event_daemon_def sample_object_def)
  ultimately show ?thesis
    using foreign_object_protected [of foreign_attrs 0 6000 event_daemon 11 "sample_object 6000 2 [22]" 1 quiet_env 3] by simp
qed

definition status_data :: "u32 \<Rightarrow> byte list" where
  "status_data st = [0, 0, 0, 12, 1, 0, 0, 8] @ be32 st"

text \<open>
  A message of an unknown type is answered, in the stream of the client, by exactly one status
  message with the sequence number and the peer of the request and \<open>UBUS_STATUS_INVALID_COMMAND\<close>, and is
  freed; nothing else is written. (The answer is lost only in the cases in which \<open>ubus_msg_send\<close> drops a
  message.)
\<close>

theorem unknown_command_answered:
  assumes E: "send_ok E" and tx: "tx_ok s cl c q" and m: "msgs s ub = Some m" and h: "handlers (msg_type (hdr m)) = None"
    and ub: "refcount m = 1" "mfd m < 0" "ub \<noteq> retmsg s" "ub \<notin> set q"
    and r: "sendable s q (retmsg s) r" "refcount r \<noteq> -1" "retmsg s \<notin> set q" "mdata r = status_data st0" and fresh: "fresh_heap s"
    and hdr: "version (hdr r) = 0" "msg_type (hdr r) = UBUS_MSG_STATUS"
  shows "\<exists>s' c' q'. ubusd_proto_receive_message E cl ub s = Some s' \<and> tx_ok s' cl c' q' \<and>
    stream_of (sock_fd c) (out s') @ unsent s' c' q' = stream_of (sock_fd c) (out s) @ unsent s c q @
      (if if q = [] then e_send E (clock s) (sock_fd c) 20 \<ge> 0 else length q < UBUSD_CLIENT_BACKLOG
       then hdr_bytes \<lparr>version = 0, msg_type = UBUS_MSG_STATUS, seq = seq (hdr m), peer = peer (hdr m)\<rparr> @ status_data 1
       else [])"
proof -
  have r0: "msgs s (retmsg s) = Some r" using r(1) by (simp add: sendable_def)
  define r' where "r' = r\<lparr>hdr := \<lparr>version = 0, msg_type = UBUS_MSG_STATUS, seq = seq (hdr m), peer = peer (hdr m)\<rparr>,
    mdata := status_data 1\<rparr>"
  define s1 where "s1 = s\<lparr>msgs := (msgs s)(retmsg s \<mapsto> r', ub := None)\<rparr>"
  have hr: "(hdr r)\<lparr>seq := seq (hdr m), peer := peer (hdr m)\<rparr> =
      \<lparr>version = 0, msg_type = UBUS_MSG_STATUS, seq = seq (hdr m), peer = peer (hdr m)\<rparr>"
    using hdr by (cases "hdr r") simp
  have "msg_type (hdr m) \<noteq> UBUS_MSG_STATUS" using h by (auto simp: handlers_def split: if_splits)
  moreover have "mem_write (status_data st0) (blob_data (blob_data 0)) (be32 (word_of_int UBUS_STATUS_INVALID_COMMAND))
      = Some (status_data 1)"
    by (simp add: status_data_def mem_write_def blob_data_def UBUS_STATUS_INVALID_COMMAND_def)
  moreover have "r\<lparr>hdr := \<lparr>version = 0, msg_type = UBUS_MSG_STATUS, seq = seq (hdr m), peer = peer (hdr m)\<rparr>,
      mdata := status_data 1\<rparr> = r'" by (simp add: r'_def)
  ultimately have run: "ubusd_proto_receive_message E cl ub s = ubus_msg_send E (Some cl) (retmsg s) False s1"
    using m h ub r0 r(4) hr
    by (simp add: ubusd_proto_receive_message_def upd_msg_def ubus_msg_close_fd_def ubus_statuses
      ubus_msg_free_def send_status_def s1_def fun_upd_twist)
  have q: "msg_at s1 x = msg_at s x" "msgs s1 x = msgs s x" if "x \<in> set q" for x
    using that ub(4) r(3) by (auto simp: s1_def msg_at_def)
  have "tx_ok s1 cl c q" "unsent s1 c q = unsent s c q"
    using tx q by (auto simp: tx_ok_def refs_ok_def unsent_def s1_def [symmetric] cong: map_cong)
      (simp_all add: s1_def)
  moreover have "sendable s1 q (retmsg s) r'" "refcount r' \<noteq> -1"
    using r ub(3) by (auto simp: sendable_def s1_def r'_def status_data_def)
  moreover have "fresh_heap s1" using fresh r0 by (auto simp: fresh_heap_def s1_def split: if_splits)
  ultimately obtain s' c' q' where "ubus_msg_send E (Some cl) (retmsg s) False s1 = Some s'" "tx_ok s' cl c' q'"
    "stream_of (sock_fd c) (out s') @ unsent s' c' q' = stream_of (sock_fd c) (out s1) @ unsent s c q @ accepted_bytes E s1 c q r'"
    using send_ok_post [OF E, of s1 cl c q "retmsg s" r' False] by metis
  moreover have "accepted_bytes E s1 c q r' =
      (if if q = [] then e_send E (clock s) (sock_fd c) 20 \<ge> 0 else length q < UBUSD_CLIENT_BACKLOG
       then hdr_bytes \<lparr>version = 0, msg_type = UBUS_MSG_STATUS, seq = seq (hdr m), peer = peer (hdr m)\<rparr> @ status_data 1
       else [])"
    unfolding accepted_bytes_own [OF \<open>refcount r' \<noteq> -1\<close>] by (simp add: msg_bytes_def r'_def s1_def status_data_def)
  moreover have "out s1 = out s" by (simp add: s1_def)
  ultimately show ?thesis unfolding run
    by (intro exI [of _ s'] exI [of _ c'] exI [of _ q']) (simp only: simp_thms)
qed

definition status_buf :: ubus_msg_buf where
  "status_buf = \<lparr>refcount = 1, hdr = \<lparr>version = 0, msg_type = 1, seq = 0, peer = 0\<rparr>, mdata = status_data 0, mfd = -1\<rparr>"

definition unknown_buf :: ubus_msg_buf where
  "unknown_buf = (sample_buf 1)\<lparr>hdr := \<lparr>version = 0, msg_type = 99, seq = 5, peer = 9\<rparr>\<rparr>"

definition proto_daemon :: ubusd where
  "proto_daemon = (one_client unknown_buf)\<lparr>msgs := [3 \<mapsto> unknown_buf, 4 \<mapsto> status_buf], retmsg := 4\<rparr>"

lemma proto_daemon_ok:
  "tx_ok proto_daemon 1 (idle_client 4) []" "sendable proto_daemon [] 4 status_buf" "fresh_heap proto_daemon"
  using idle_tx_ok [of unknown_buf]
  by (auto simp: tx_ok_def proto_daemon_def one_client_def refs_ok_def sendable_def status_buf_def status_data_def
    fresh_heap_def split: if_splits)

theorem unknown_command_answered_witness:
  "\<exists>s' c' q'. ubusd_proto_receive_message quiet_env 1 3 proto_daemon = Some s' \<and> tx_ok s' 1 c' q' \<and>
    stream_of 4 (out s') @ unsent s' c' q' = hdr_bytes \<lparr>version = 0, msg_type = 1, seq = 5, peer = 9\<rparr> @ status_data 1"
proof -
  have f: "msgs proto_daemon 3 = Some unknown_buf" "retmsg proto_daemon = 4" "handlers (msg_type (hdr unknown_buf)) = None"
    "stream_of 4 (out proto_daemon) = []" "unsent proto_daemon (idle_client 4) [] = []" "sock_fd (idle_client 4) = 4"
    "e_send quiet_env t fd n = int n" for t fd n
    by (simp_all add: proto_daemon_def one_client_def unknown_buf_def handlers_def ubus_msgs unsent_def idle_client_def quiet_env_def)
  from unknown_command_answered [OF quiet_send_ok(1) proto_daemon_ok(1) f(1) f(3), of status_buf 0] proto_daemon_ok f
  show ?thesis by (simp add: unknown_buf_def sample_buf_def status_buf_def UBUS_MSG_STATUS_def)
qed

definition removal_daemon :: ubusd where
  "removal_daemon = event_daemon
     \<lparr>objs := [10 \<mapsto> (sample_object 5000 1 [])\<lparr>path_key := Some [97]\<rparr>, 11 \<mapsto> sample_object 6000 2 [22]],
      cls := [1 \<mapsto> (idle_client 4)\<lparr>cl_objects := [10]\<rparr>, 2 \<mapsto> (idle_client 5)\<lparr>cl_objects := [11]\<rparr>],
      evs := [22 \<mapsto> \<lparr>ev_obj = 11, ev_key = cstr ''ubus.'', partial = True\<rparr>],
      patterns := \<lparr>list_head = [(cstr ''ubus.'', 22)], root = leaf (cstr ''ubus.'', 22), count = 1,
        allow_dups = True, leader = (\<lambda>_. True)\<rparr>,
      path := \<lparr>list_head = [([97], 10)], root = leaf ([97], 10), count = 1, allow_dups = False, leader = (\<lambda>_. True)\<rparr>\<rparr>"

definition removal_attrs :: attrs where
  "removal_attrs = ([3, 0, 0, 8, 0, 0, 0x13, 0x88], [None, None, None, Some 0, None, None, None, None, None, None, None, None])"

text \<open>
  The two lemmas behind the next property: what is in the buffer after the object has been freed, and that
  the reply is whatever is in the buffer.
\<close>

lemma events_ok_cong:
  assumes "rest s' = rest s"
  shows "events_ok s' = events_ok s" "remove_listeners s' = remove_listeners s"
proof -
  note f = rest_fields [OF assms]
  have "ev_matches s' = ev_matches s" "patterns_ok s' = patterns_ok s" "event_targets s' = event_targets s"
    by (simp_all add: fun_eq_iff ev_matches_def patterns_ok_def event_targets_def f)
  then show "events_ok s' = events_ok s" "remove_listeners s' = remove_listeners s"
    by (simp_all add: events_ok_def remove_listeners_def f)
qed

lemma free_object_buffer:
  assumes "ubusd_free_object E obj s = Some s'" and "objs s obj = Some x" and "path_key x = Some key"
    and "subscribers x = []" and "target_list x = []" and "events x = []"
    and "events_ok s" and "remove_listeners s = ts @ [t]" and "objs s t = Some y"
  shows "\<exists>d. blob_holds s' d \<and> first_id d = Some (obj_id y)"
proof -
  have "ubusd_event_cleanup_object obj s = Some s" using assms(2,6) by (subst ubusd_event_cleanup_object.simps) simp
  then obtain s1 where s1: "ubusd_send_obj_event E obj False s = Some s1" and "bb s' = bb s1"
    using assms(1-6) by (auto simp: ubusd_free_object_def free_path_def ubus_unref_object_type_def upd_type_def
      unlink_obj_def Let_def split: bind_splits if_splits option.splits)
  from remove_event_in_buffer [OF assms(7-9) s1] \<open>bb s' = bb s1\<close> show ?thesis
    using blob_holds_cong [of s' s1] by auto
qed

lemma reply_holds_buffer:
  assumes "ubus_send_msg_from_blob E cl ub ty s = Some s'" and "blob_holds s d" and "\<And>k. e_alloc E k"
  shows "\<exists>s1 u m. ubus_msg_send E cl u True s1 = Some s' \<and> msgs s1 u = Some m \<and> msg_type (hdr m) = ty \<and> mdata m = d"
  using assms by (auto simp: ubus_send_msg_from_blob_def ubus_reply_from_blob_def ubus_msg_from_blob_def ubus_msg_new_def
    calloc_def ubus_msg_init_def upd_msg_def blob_holds_def Let_def split: bind_splits if_splits)
    (rule exI, rule exI, rule conjI, assumption, simp)+

text \<open>
  C36: The reply to a removal is the event that the removal causes. \<open>ubusd_handle_remove_object\<close> builds its
  reply in the static buffer \<open>b\<close> and then frees the object, which builds the event in the same
  buffer. So whenever the client removes an object of its own that has a path, no subscriptions and no
  patterns, some object listens for \<open>ubus.object.remove\<close> and no allocation fails, the message of type
  \<open>UBUS_MSG_DATA\<close> that \<open>ubus_msg_send\<close> sends last, to the client, has as its object identifier
  that of the last listener, not that of the object removed.
\<close>

theorem remove_object_reply_overwritten:
  assumes "attr_at attr UBUS_ATTR_OBJID = Some p" and "blob_get_u32 (fst attr) p = Some i"
    and "ubusd_find_object i s = Some obj" and "objs s obj = Some x" and "oclient x = Some cl"
    and "path_key x = Some key" and "subscribers x = []" and "target_list x = []" and "events x = []"
    and "events_ok s" and "remove_listeners s = ts @ [t]" and "objs s t = Some y" and "\<And>k. e_alloc E k"
    and "ubusd_handle_remove_object E cl ub attr s = Some (rc, s')"
  shows "rc = 0 \<and> (\<exists>s1 u m. ubus_msg_send E (Some cl) u True s1 = Some s' \<and> msgs s1 u = Some m \<and>
    msg_type (hdr m) = UBUS_MSG_DATA \<and> first_id (mdata m) = Some (obj_id y))"
proof -
  let ?put = "\<lambda>s. case otype x of None \<Rightarrow> Some s | Some ty \<Rightarrow> do {
     t \<leftarrow> types s ty;
     if ty_refcount t = 1 then b_put_int32 E UBUS_ATTR_OBJTYPE (ty_id t) s else Some s }"
  obtain s1 s2 s3 s4 where s: "b_init E s = Some s1" "b_put_int32 E UBUS_ATTR_OBJID (obj_id x) s1 = Some s2"
      "?put s2 = Some s3" "ubusd_free_object E obj s3 = Some s4"
      "ubus_send_msg_from_blob E (Some cl) ub UBUS_MSG_DATA s4 = Some s'" and rc: "rc = 0"
    using assms(1-5,14) by (auto simp: ubusd_handle_remove_object_def bind_eq_Some_conv)
  have "rest s3 = rest s2"
    using s(3) by (auto simp: bind_eq_Some_conv split: option.splits if_splits dest: frame_rest [OF frame_b(2)])
  have r: "rest s3 = rest s"
    using frame_rest [OF frame_b(1) [OF s(1)]] frame_rest [OF frame_b(2) [OF s(2)]] \<open>rest s3 = rest s2\<close> by simp
  have "objs s3 obj = Some x" "objs s3 t = Some y" "events_ok s3" "remove_listeners s3 = ts @ [t]"
    using rest_fields(2) [OF r] events_ok_cong [OF r] assms(4,10-12) by simp_all
  from free_object_buffer [OF s(4) this(1) assms(6-9) this(3,4,2)] obtain d where
    "blob_holds s4 d" "first_id d = Some (obj_id y)" by blast
  with reply_holds_buffer [OF s(5) _ assms(13)] rc show ?thesis by metis
qed

lemma removal_daemon_ok: "events_ok removal_daemon" "remove_listeners removal_daemon = [] @ [11]"
  by (auto simp: events_ok_def remove_listeners_def patterns_ok_def removal_daemon_def event_daemon_def one_client_def
    avl_ok_def runs_def run_step_def avl_strcmp_def event_targets_def ev_matches_def sample_object_def cstr_def)

lemma removal_runs: "map_option fst (ubusd_handle_remove_object quiet_env 1 3 removal_attrs removal_daemon) = Some 0"
  by code_simp

theorem remove_object_reply_overwritten_witness:
  "\<exists>s' s1 u m. ubusd_handle_remove_object quiet_env 1 3 removal_attrs removal_daemon = Some (0, s') \<and>
    ubus_msg_send quiet_env (Some 1) u True s1 = Some s' \<and> msgs s1 u = Some m \<and>
    msg_type (hdr m) = UBUS_MSG_DATA \<and> first_id (mdata m) = Some 6000"
proof -
  obtain s' where s': "ubusd_handle_remove_object quiet_env 1 3 removal_attrs removal_daemon = Some (0, s')"
    using removal_runs by auto
  have "blob_get_u32 (fst removal_attrs) 0 = Some 5000" "attr_at removal_attrs UBUS_ATTR_OBJID = Some 0"
      "ubusd_find_object 5000 removal_daemon = Some 10"
    by code_simp+
  moreover have "objs removal_daemon 10 = Some ((sample_object 5000 1 [])\<lparr>path_key := Some [97]\<rparr>)"
    "objs removal_daemon 11 = Some (sample_object 6000 2 [22])" "\<And>k. e_alloc quiet_env k"
    by (simp_all add: removal_daemon_def quiet_env_def)
  ultimately show ?thesis
    using remove_object_reply_overwritten [OF _ _ _ _ _ _ _ _ _ removal_daemon_ok _ _ s'] s'
    by (fastforce simp: sample_object_def)
qed

end
