(* ===== verification/Ubusd_Client.thy ===== *)
theory Ubusd_Client
  imports Ubusd_Proto
begin

text \<open>
  The connections of the daemon: \<open>client_cb\<close>, \<open>handle_client_disconnect\<close>, \<open>get_next_connection\<close> and
  \<open>server_cb\<close> of \<open>src/ubus/ubusd.c\<close>.

  What a socket delivers during one call of \<open>client_cb\<close> is a pair: the bytes that wait in it, and for each
  \<open>recvmsg\<close> or \<open>read\<close> the most it hands over and the file descriptor that comes with it (-1 for none).
  When the list is used up, the call fails with \<open>EAGAIN\<close>. The loop of the label \<open>retry\<close> is a partial
  function: \<open>None\<close> is also the value of a loop that would not end.
\<close>

section \<open>Receiving\<close>

type_synonym rx = "(nat \<times> int) list \<times> byte list"

text \<open>The result of a call for at most \<open>n\<close> bytes: \<open>None\<close> is -1.\<close>

fun sys_recv :: "nat \<Rightarrow> rx \<Rightarrow> (byte list \<times> int) option \<times> rx" where
  "sys_recv n ([], st) = (None, ([], st))"
| "sys_recv n ((k, fd) # ks, st) = (Some (take (min k n) st, fd), (ks, drop (min k n) st))"

datatype rx_next = Go | Out | Disconnect

definition hdrbuf_size :: nat where
  "hdrbuf_size = 12"

text \<open>
  The block that completes the header. \<open>&cl->hdrbuf + offset\<close> counts in units of the whole structure: with
  an offset other than 0 the bytes are stored behind it.
\<close>

definition rx_header :: "env \<Rightarrow> nat \<Rightarrow> rx \<Rightarrow> ubusd \<Rightarrow> (rx_next \<times> rx \<times> ubusd) option" where
  "rx_header E cl i s = do {
     c \<leftarrow> cls s cl;
     let offset = pending_msg_offset c;
     (case sys_recv (hdrbuf_size - offset) i of
       (None, i) \<Rightarrow> Some (Out, i, s)
     | (Some (bs, fd), i) \<Rightarrow> do {
         let fd = (if pending_msg_fd c < 0 then fd else -1);
         buf \<leftarrow> (if bs = [] then Some (hdrbuf c) else mem_write (hdrbuf c) (offset * hdrbuf_size) bs);
         let c = c\<lparr>hdrbuf := buf, pending_msg_offset := offset + length bs,
                   pending_msg_fd := (if fd \<ge> 0 then fd else pending_msg_fd c)\<rparr>;
         let s = s\<lparr>cls := (cls s)(cl \<mapsto> c)\<rparr>;
         if pending_msg_offset c < hdrbuf_size then Some (Out, i, s)
         else do {
           pad \<leftarrow> blob_pad_len (hdrbuf c) 8;
           if unat pad > UBUS_MAX_MSGLEN then Some (Disconnect, i, s)
           else do {
             n \<leftarrow> blob_raw_len (hdrbuf c) 8;
             (case ubus_msg_new E None (unat n) False s of
               (None, s) \<Rightarrow> Some (Disconnect, i, s\<lparr>cls := (cls s)(cl \<mapsto> c\<lparr>pending_msg := None\<rparr>)\<rparr>)
             | (Some ub, s) \<Rightarrow> do {
                 m \<leftarrow> msgs s ub;
                 d \<leftarrow> mem_write (mdata m) 0 (drop 8 (hdrbuf c));
                 let s = s\<lparr>msgs := (msgs s)(ub \<mapsto> m\<lparr>hdr := hdr_of_bytes (hdrbuf c), mdata := d\<rparr>)\<rparr>;
                 Some (Go, i, s\<lparr>cls := (cls s)(cl \<mapsto> c\<lparr>pending_msg := Some ub\<rparr>)\<rparr>)
               })
           }
         }
       })
   }"

text \<open>The block that reads the data of a message whose header is complete, up to its acceptance.\<close>

definition rx_data :: "nat \<Rightarrow> nat \<Rightarrow> rx \<Rightarrow> ubusd \<Rightarrow> (rx_next \<times> rx \<times> ubusd) option" where
  "rx_data cl ub i s = do {
     c \<leftarrow> cls s cl;
     m \<leftarrow> msgs s ub;
     n \<leftarrow> blob_raw_len (mdata m) 0;
     let offset = int (pending_msg_offset c) - 8;
     let rem = int (unat n) - offset;
     (r, i) \<leftarrow> Some (if rem > 0 then (case sys_recv (nat rem) i of (r, i) \<Rightarrow> (map_option fst r, i)) else (Some [], i));
     case r of
       None \<Rightarrow> Some (Out, i, s)
     | Some bs \<Rightarrow>
         if rem > 0 \<and> bs = [] then Some (Out, i, s)
         else do {
           d \<leftarrow> (if offset < 0 then None else mem_write (mdata m) (nat offset) bs);
           let s = s\<lparr>msgs := (msgs s)(ub \<mapsto> m\<lparr>mdata := d\<rparr>)\<rparr>;
           if int (length bs) < rem then
             Some (Out, i, s\<lparr>cls := (cls s)(cl \<mapsto> c\<lparr>pending_msg_offset := pending_msg_offset c + length bs\<rparr>)\<rparr>)
           else do {
             s \<leftarrow> upd_msg ub (\<lambda>m. m\<lparr>mfd := pending_msg_fd c\<rparr>) s;
             Some (Go, i, s\<lparr>cls := (cls s)(cl \<mapsto> c\<lparr>pending_msg_fd := -1, pending_msg_offset := 0, pending_msg := None\<rparr>)\<rparr>)
           }
         }
   }"

partial_function (option) rx_loop :: "env \<Rightarrow> nat \<Rightarrow> rx \<Rightarrow> ubusd \<Rightarrow> (rx_next \<times> ubusd) option" where
  "rx_loop E cl i s = do {
     c \<leftarrow> cls s cl;
     (nx, i, s) \<leftarrow>
       (if \<not> eof c \<and> pending_msg_offset c < hdrbuf_size then rx_header E cl i s else Some (Go, i, s));
     if nx \<noteq> Go then Some (nx, s)
     else do {
       c \<leftarrow> cls s cl;
       case pending_msg c of
         None \<Rightarrow> Some (Out, s)
       | Some ub \<Rightarrow> do {
           (nx, i, s) \<leftarrow> rx_data cl ub i s;
           if nx \<noteq> Go then Some (nx, s)
           else do {
             s \<leftarrow> ubusd_proto_receive_message E cl ub s;
             rx_loop E cl i s
           }
         }
     }
   }"

section \<open>Connections\<close>

definition handle_client_disconnect :: "env \<Rightarrow> nat \<Rightarrow> ubusd \<Rightarrow> ubusd option" where
  "handle_client_disconnect E cl s = do {
     s \<leftarrow> drain cl s;
     s \<leftarrow> ubusd_proto_free_client E cl s;
     c \<leftarrow> cls s cl;
     let s = (if pending_msg_fd c \<ge> 0 then sys_close (pending_msg_fd c) s else s);
     let s = sys_close (sock_fd c) (uloop_fd_delete (sock_fd c) s);
     Some (s\<lparr>cls := (cls s)(cl := None)\<rparr>)
   }"

text \<open>\<open>wr\<close> is whether the events include \<open>ULOOP_WRITE\<close>.\<close>

definition client_cb :: "env \<Rightarrow> nat \<Rightarrow> bool \<Rightarrow> rx \<Rightarrow> ubusd \<Rightarrow> ubusd option" where
  "client_cb E cl wr i s = do {
     (failed, s) \<leftarrow> tx_pending E cl s;
     if failed then handle_client_disconnect E cl s
     else do {
       c \<leftarrow> cls s cl;
       h \<leftarrow> ubus_msg_head cl s;
       let s = (if h = None \<and> wr then uloop_fd_add (sock_fd c) False s else s);
       (nx, s) \<leftarrow> rx_loop E cl i s;
       if nx = Disconnect then handle_client_disconnect E cl s
       else do {
         c \<leftarrow> cls s cl;
         h \<leftarrow> ubus_msg_head cl s;
         if \<not> eof c \<or> h \<noteq> None then Some s else handle_client_disconnect E cl s
       }
     }
   }"

text \<open>The result of \<open>accept\<close>: a connection, an error after which to go on, another error.\<close>

datatype accepted = Connection int | Retry | Stop

definition get_next_connection :: "env \<Rightarrow> accepted \<Rightarrow> ubusd \<Rightarrow> (bool \<times> ubusd) option" where
  "get_next_connection E a s =
     (case a of
       Retry \<Rightarrow> Some (True, s)
     | Stop \<Rightarrow> Some (False, s)
     | Connection client_fd \<Rightarrow> do {
         (cl, s) \<leftarrow> ubusd_proto_new_client E client_fd s;
         Some (True, if cl = None then sys_close client_fd s else uloop_fd_add client_fd False s)
       })"

text \<open>The results of the successive calls of \<open>accept\<close>; after the last there is nothing to accept.\<close>

fun server_cb :: "env \<Rightarrow> accepted list \<Rightarrow> ubusd \<Rightarrow> ubusd option" where
  "server_cb E [] s = Some s"
| "server_cb E (a # as) s = do {
     (later, s) \<leftarrow> get_next_connection E a s;
     if later then server_cb E as s else Some s
   }"

section \<open>Reassembly\<close>

text \<open>
  A message is being received: the header is complete and the first \<open>n\<close> bytes of its data \<open>D\<close> are
  stored in the buffer of the message.
\<close>

definition receiving :: "ubusd \<Rightarrow> nat \<Rightarrow> ubus_client \<Rightarrow> nat \<Rightarrow> ubus_msg_buf \<Rightarrow> byte list \<Rightarrow> nat \<Rightarrow> bool" where
  "receiving s cl c ub m D n \<longleftrightarrow>
     cls s cl = Some c \<and> pending_msg c = Some ub \<and> msgs s ub = Some m \<and>
     pending_msg_offset c = 8 + n \<and> 4 \<le> n \<and> n \<le> length D \<and> length (mdata m) = length D \<and>
     take n (mdata m) = take n D \<and> (\<exists>w. rd_be32 D 0 = Some w \<and> raw w = length D)"

lemma rd_be32_take:
  assumes "take n m = take n m'" and "4 \<le> n" and "length m = length m'"
  shows "rd_be32 m 0 = rd_be32 m' 0"
proof -
  have "m ! i = m' ! i" if "i < 4" for i using assms that by (metis nth_take order_less_le_trans)
  then show ?thesis using assms(3) by (simp add: rd_be32_def)
qed

lemma raw_len_receiving: "receiving s cl c ub m D n \<Longrightarrow> \<exists>w. blob_raw_len (mdata m) 0 = Some w \<and> uint w = int (length D)"
  using rd_be32_take [of n "mdata m" D] by (auto simp: receiving_def blob_raw_len_def uint_nat [of "hdr_raw_len _"])

text \<open>A read that leaves something to read, and one that completes the message.\<close>

lemma rx_data_partial:
  assumes r: "receiving s cl c ub m D n" and k: "0 < k" "n + k < length D"
  defines "m' \<equiv> m\<lparr>mdata := take (n + k) D @ drop (n + k) (mdata m)\<rparr>"
    and "c' \<equiv> c\<lparr>pending_msg_offset := 8 + (n + k)\<rparr>"
  shows "rx_data cl ub ([(k, fd)], drop n D @ later) s =
      Some (Out, ([], drop (n + k) D @ later), s\<lparr>msgs := (msgs s)(ub \<mapsto> m'), cls := (cls s)(cl \<mapsto> c')\<rparr>)"
    and "receiving (s\<lparr>msgs := (msgs s)(ub \<mapsto> m'), cls := (cls s)(cl \<mapsto> c')\<rparr>) cl c' ub m' D (n + k)"
proof -
  obtain w where w: "blob_raw_len (mdata m) 0 = Some w" "uint w = int (length D)" using raw_len_receiving [OF r] by blast
  have f: "cls s cl = Some c" "msgs s ub = Some m" "pending_msg_offset c = 8 + n" "take n (mdata m) = take n D"
    "length (mdata m) = length D" using r by (auto simp: receiving_def)
  have "mem_write (mdata m) n (take k (drop n D)) = Some (take (n + k) D @ drop (n + k) (mdata m))"
    using f k by (simp add: mem_write_def take_add)
  moreover have "take (min k (length D - n)) (drop n D @ later) = take k (drop n D)"
    "drop (min k (length D - n)) (drop n D @ later) = drop (n + k) D @ later"
    using k by (simp_all add: min_def add.commute)
  moreover have "take k (drop n D) \<noteq> []" using k by simp
  moreover have "nat (int (length D) - (int (8 + n) - 8)) = length D - n" by simp
  ultimately show "rx_data cl ub ([(k, fd)], drop n D @ later) s =
      Some (Out, ([], drop (n + k) D @ later), s\<lparr>msgs := (msgs s)(ub \<mapsto> m'), cls := (cls s)(cl \<mapsto> c')\<rparr>)"
    using f w k by (simp add: rx_data_def Let_def m'_def c'_def add.assoc)
  show "receiving (s\<lparr>msgs := (msgs s)(ub \<mapsto> m'), cls := (cls s)(cl \<mapsto> c')\<rparr>) cl c' ub m' D (n + k)"
    using r k by (auto simp: receiving_def m'_def c'_def)
qed

definition accept :: "nat \<Rightarrow> ubus_client \<Rightarrow> nat \<Rightarrow> ubus_msg_buf \<Rightarrow> byte list \<Rightarrow> ubusd \<Rightarrow> ubusd" where
  "accept cl c ub m D s =
     s\<lparr>msgs := (msgs s)(ub \<mapsto> m\<lparr>mdata := D, mfd := pending_msg_fd c\<rparr>),
       cls := (cls s)(cl \<mapsto> c\<lparr>pending_msg_fd := -1, pending_msg_offset := 0, pending_msg := None\<rparr>)\<rparr>"

lemma rx_data_final:
  assumes r: "receiving s cl c ub m D n" and k: "0 < k" "length D \<le> n + k"
  shows "\<exists>ks. rx_data cl ub ([(k, fd)], drop n D @ later) s = Some (Go, (ks, later), accept cl c ub m D s)"
proof -
  obtain w where w: "blob_raw_len (mdata m) 0 = Some w" "uint w = int (length D)" using raw_len_receiving [OF r] by blast
  have f: "cls s cl = Some c" "msgs s ub = Some m" "pending_msg_offset c = 8 + n" "take n (mdata m) = take n D"
    "length (mdata m) = length D" "n \<le> length D" using r by (auto simp: receiving_def)
  have "mem_write (mdata m) n (drop n D) = Some D"
    using f append_take_drop_id [of n D] by (simp add: mem_write_def)
  moreover have "take (min k (length D - n)) (drop n D @ later) = drop n D"
    "drop (min k (length D - n)) (drop n D @ later) = later"
    using k f by (auto simp: min_def)
  moreover have "nat (int (length D) - (int (8 + n) - 8)) = length D - n" by simp
  ultimately show ?thesis
    using f w k by (cases "n = length D") (simp_all add: rx_data_def Let_def accept_def upd_msg_def)
qed

text \<open>Successive calls of \<open>client_cb\<close> that find the next bytes of the message, each with its own limit.\<close>

fun feed :: "nat \<Rightarrow> nat \<Rightarrow> nat list \<Rightarrow> byte list \<Rightarrow> ubusd \<Rightarrow> (rx_next \<times> byte list \<times> ubusd) option" where
  "feed cl ub [] st s = Some (Out, st, s)"
| "feed cl ub (k # ks) st s = do {
     (nx, i, s) \<leftarrow> rx_data cl ub ([(k, -1)], st) s;
     if nx = Out then feed cl ub ks (snd i) s else Some (nx, snd i, s)
   }"

lemma feed_complete:
  assumes "receiving s cl c ub m D n" and "\<forall>k\<in>set ks. 0 < k" and "ks \<noteq> []" and "length D \<le> n + sum_list ks"
  shows "feed cl ub ks (drop n D @ later) s = Some (Go, later, accept cl c ub m D s)"
  using assms
proof (induction ks arbitrary: s c m n)
  case (Cons k ks)
  show ?case
  proof (cases "length D \<le> n + k")
    case True
    obtain js where "rx_data cl ub ([(k, -1)], drop n D @ later) s = Some (Go, (js, later), accept cl c ub m D s)"
      using rx_data_final [OF Cons.prems(1) _ True] Cons.prems(2) by (metis list.set_intros(1))
    then show ?thesis by simp
  next
    case False
    define m' where "m' = m\<lparr>mdata := take (n + k) D @ drop (n + k) (mdata m)\<rparr>"
    define c' where "c' = c\<lparr>pending_msg_offset := 8 + (n + k)\<rparr>"
    define s' where "s' = s\<lparr>msgs := (msgs s)(ub \<mapsto> m'), cls := (cls s)(cl \<mapsto> c')\<rparr>"
    have "rx_data cl ub ([(k, -1)], drop n D @ later) s = Some (Out, ([], drop (n + k) D @ later), s')"
      "receiving s' cl c' ub m' D (n + k)"
      using rx_data_partial [OF Cons.prems(1), of k] False Cons.prems(2)
      by (simp_all add: s'_def m'_def c'_def)
    moreover have "ks \<noteq> []" using False Cons.prems(4) by auto
    moreover have "accept cl c' ub m' D s' = accept cl c ub m D s"
      by (simp add: accept_def s'_def m'_def c'_def)
    ultimately show ?thesis using Cons.IH [of s' c' m' "n + k"] Cons.prems(2,4) by (simp add: add.assoc)
  qed
qed simp

text \<open>The message as it is after its header: the buffer is as long as its length field says.\<close>

definition new_pending :: "ubus_msghdr \<Rightarrow> u32 \<Rightarrow> ubus_msg_buf" where
  "new_pending h w = \<lparr>refcount = 1, hdr = h, mdata = be32 w @ replicate (raw w - 4) 0, mfd = -1\<rparr>"

definition after_header :: "nat \<Rightarrow> ubus_client \<Rightarrow> int \<Rightarrow> ubus_msghdr \<Rightarrow> u32 \<Rightarrow> ubusd \<Rightarrow> ubus_client \<times> ubusd" where
  "after_header cl c fd h w s =
     (let c' = c\<lparr>hdrbuf := hdr_bytes h @ be32 w, pending_msg_offset := 12,
                 pending_msg_fd := (if pending_msg_fd c < 0 \<and> fd \<ge> 0 then fd else pending_msg_fd c),
                 pending_msg := Some (clock s)\<rparr>
      in (c', s\<lparr>clock := clock s + 1, msgs := (msgs s)(clock s \<mapsto> new_pending h w), cls := (cls s)(cl \<mapsto> c')\<rparr>))"

lemma be32_not_Nil [simp]: "be32 w \<noteq> []"
  by (simp add: be32_def)

lemma rx_header_ok:
  assumes c: "cls s cl = Some c" "pending_msg_offset c = 0" "length (hdrbuf c) = 12" and k: "12 \<le> k"
    and E: "e_alloc E (clock s)" and w: "4 \<le> raw w" "pad w \<le> UBUS_MAX_MSGLEN"
  shows "rx_header E cl ((k, fd) # ks, hdr_bytes h @ be32 w @ later) s = Some (Go, (ks, later), snd (after_header cl c fd h w s))"
proof -
  have recv: "sys_recv 12 ((k, fd) # ks, hdr_bytes h @ be32 w @ later) = (Some (hdr_bytes h @ be32 w, fd), (ks, later))"
    using k by (simp add: min_def)
  have stored: "mem_write (hdrbuf c) 0 (hdr_bytes h @ be32 w) = Some (hdr_bytes h @ be32 w)"
    using c(3) by (simp add: mem_write_def)
  have rd: "rd_be32 (hdr_bytes h @ be32 w) 8 = Some w" using rd_be32_app [of 8 "hdr_bytes h" w "[]"] by simp
  have data: "mem_write (replicate (raw w) 0) 0 (be32 w) = Some (be32 w @ replicate (raw w - 4) 0)"
    using w(1) by (simp add: mem_write_def)
  show ?thesis
    using c k E w recv stored rd data
    by (simp add: rx_header_def hdrbuf_size_def Let_def blob_pad_len_def blob_raw_len_def ubus_msg_new_def calloc_def
      after_header_def new_pending_def del: sys_recv.simps)
qed

lemma after_header_receiving:
  assumes "cls s cl = Some c" and "length D = raw w" and "4 \<le> raw w" and "take 4 D = be32 w"
  shows "receiving (snd (after_header cl c fd h w s)) cl (fst (after_header cl c fd h w s)) (clock s) (new_pending h w) D 4"
proof -
  have "rd_be32 D 0 = Some w"
    using assms(4) rd_be32_app [of 0 "[]" w "drop 4 D"] append_take_drop_id [of 4 D] by simp
  with assms show ?thesis by (auto simp: receiving_def after_header_def new_pending_def Let_def)
qed

section \<open>Properties\<close>

text \<open>
  C29: A message is reassembled from whatever pieces its data arrives in. When the header and the
  length field arrive in one read and announce a valid length, and later calls find the data piece by piece,
  in pieces of any positive sizes that add up to the whole, then the message that is handed to
  \<open>ubusd_proto_receive_message\<close> has exactly the header and the data that were sent, with the file descriptor
  that came with it; the bytes behind it are left for the next message and the client is
  ready to receive it.
\<close>

theorem message_reassembled:
  assumes "cls s cl = Some c" and "pending_msg_offset c = 0" and "length (hdrbuf c) = 12" and "pending_msg_fd c < 0"
    and "12 \<le> k" and "e_alloc E (clock s)"
    and "take 4 D = be32 w" and "length D = raw w" and "4 \<le> raw w" and "pad w \<le> UBUS_MAX_MSGLEN"
    and "\<forall>n\<in>set pieces. 0 < n" and "pieces \<noteq> []" and "length D \<le> 4 + sum_list pieces"
  shows "\<exists>s1 s2 c'. rx_header E cl ([(k, fd)], hdr_bytes h @ D @ later) s = Some (Go, ([], drop 4 D @ later), s1) \<and>
    feed cl (clock s) pieces (drop 4 D @ later) s1 = Some (Go, later, s2) \<and>
    msgs s2 = (msgs s)(clock s \<mapsto> \<lparr>refcount = 1, hdr = h, mdata = D, mfd = (if fd \<ge> 0 then fd else pending_msg_fd c)\<rparr>) \<and>
    cls s2 = (cls s)(cl \<mapsto> c') \<and> pending_msg_offset c' = 0 \<and> pending_msg c' = None \<and> pending_msg_fd c' = -1"
proof -
  let ?c1 = "fst (after_header cl c fd h w s)" and ?s1 = "snd (after_header cl c fd h w s)"
  have D: "D = be32 w @ drop 4 D" using assms(7) append_take_drop_id [of 4 D] by simp
  have "rx_header E cl ([(k, fd)], hdr_bytes h @ D @ later) s = Some (Go, ([], drop 4 D @ later), ?s1)"
    using rx_header_ok [OF assms(1-3,5,6,9,10), of fd "[]" h "drop 4 D @ later"] D by (metis append.assoc)
  moreover have "feed cl (clock s) pieces (drop 4 D @ later) ?s1 =
      Some (Go, later, accept cl ?c1 (clock s) (new_pending h w) D ?s1)"
    by (rule feed_complete [OF after_header_receiving [OF assms(1,8,9,7)] assms(11-13)])
  ultimately show ?thesis using assms(4)
    by (auto simp: accept_def after_header_def new_pending_def Let_def)
qed

theorem message_reassembled_witness:
  "\<exists>s1 s2. rx_header quiet_env 1 ([(100, -1)], hdr_bytes zero_hdr @ [0, 0, 0, 7, 1, 2, 3] @ [9]) (one_client (sample_buf 1)) =
      Some (Go, ([], [1, 2, 3, 9]), s1) \<and> feed 1 10 [1, 2] [1, 2, 3, 9] s1 = Some (Go, [9], s2)"
proof -
  have w: "be32 7 = [0, 0, 0, 7]" "raw 7 = 7" "pad 7 = 8"
    by (simp_all add: be32_def hdr_raw_len_def hdr_len_def hdr_pad_len_def)
  have f: "cls (one_client (sample_buf 1)) 1 = Some (idle_client 4)" "clock (one_client (sample_buf 1)) = 10"
    by (simp_all add: one_client_def)
  have E: "e_alloc quiet_env t" for t by (simp add: quiet_env_def)
  from message_reassembled [OF f(1), of 100 quiet_env "[0, 0, 0, 7, 1, 2, 3]" 7 "[1, 2]" "-1" zero_hdr "[9]"] w E f(2)
  show ?thesis by (auto simp: idle_client_def UBUS_MAX_MSGLEN_def)
qed

text \<open>
  C33: A header that arrives in two pieces makes the daemon write outside the client structure:
  when some but not all of its 12 bytes have been received, any further byte is stored at
  \<open>&cl->hdrbuf + offset\<close>, which is \<open>offset\<close> times the size of the buffer behind its start.
\<close>

theorem split_header_overflow:
  assumes "cls s cl = Some c" and "0 < pending_msg_offset c" and "pending_msg_offset c < 12"
    and "length (hdrbuf c) = 12" and "0 < k" and "st \<noteq> []"
  shows "rx_header E cl ((k, fd) # ks, st) s = None"
proof -
  let ?o = "pending_msg_offset c"
  have ne: "take (min k (12 - ?o)) st \<noteq> []" using assms by auto
  then have "12 < ?o * 12 + length (take (min k (12 - ?o)) st)" using assms(2) by (cases ?o) auto
  then have "mem_write (hdrbuf c) (?o * 12) (take (min k (12 - ?o)) st) = None"
    using assms(4) by (simp add: mem_write_def del: length_take)
  with assms(1) ne show ?thesis by (simp add: rx_header_def hdrbuf_size_def Let_def del: take_eq_Nil take_eq_Nil2)
qed

theorem split_header_overflow_witness:
  "rx_header quiet_env 1 ([(4, -1)], [1])
     ((one_client (sample_buf 1))\<lparr>cls := [1 \<mapsto> (idle_client 4)\<lparr>pending_msg_offset := 8\<rparr>]\<rparr>) = None"
  by (rule split_header_overflow [where c = "(idle_client 4)\<lparr>pending_msg_offset := 8\<rparr>"])
    (simp_all add: idle_client_def)

text \<open>
  A client that announces a message longer than \<open>UBUS_MAX_MSGLEN\<close> is disconnected before any memory
  is allocated for it.
\<close>

theorem oversized_message_disconnects:
  assumes "cls s cl = Some c" and "pending_msg_offset c = 0" and "length (hdrbuf c) = 12" and "12 \<le> k"
    and "UBUS_MAX_MSGLEN < pad w"
  shows "\<exists>s'. rx_header E cl ((k, fd) # ks, hdr_bytes h @ be32 w @ later) s = Some (Disconnect, (ks, later), s') \<and>
    msgs s' = msgs s \<and> clock s' = clock s"
proof -
  have "sys_recv 12 ((k, fd) # ks, hdr_bytes h @ be32 w @ later) = (Some (hdr_bytes h @ be32 w, fd), (ks, later))"
    using assms(4) by (simp add: min_def)
  moreover have "mem_write (hdrbuf c) 0 (hdr_bytes h @ be32 w) = Some (hdr_bytes h @ be32 w)"
    using assms(3) by (simp add: mem_write_def)
  moreover have "rd_be32 (hdr_bytes h @ be32 w) 8 = Some w" using rd_be32_app [of 8 "hdr_bytes h" w "[]"] by simp
  ultimately show ?thesis using assms
    by (simp add: rx_header_def hdrbuf_size_def Let_def blob_pad_len_def del: sys_recv.simps)
qed

theorem oversized_message_disconnects_witness:
  "\<exists>s'. rx_header quiet_env 1 ([(12, -1)], hdr_bytes zero_hdr @ be32 0xffffff @ []) (one_client (sample_buf 1)) =
      Some (Disconnect, ([], []), s') \<and> msgs s' = msgs (one_client (sample_buf 1)) \<and> clock s' = clock (one_client (sample_buf 1))"
  by (rule oversized_message_disconnects [where c = "idle_client 4"])
    (simp_all add: one_client_def idle_client_def UBUS_MAX_MSGLEN_def hdr_pad_len_def hdr_raw_len_def hdr_len_def)

end
