(* ===== verification/Ubusd_Graph.thy ===== *)
theory Ubusd_Graph
  imports Ubusd_Client
begin

text \<open>
  The invariant of the objects of the daemon. Clients, objects, object types, subscriptions and event
  sources point to each other in both directions and are indexed by five AVL trees. The invariant
  \<open>graph_ok\<close> says that all these pointers agree: each tree holds exactly the live structures under
  their keys, each list holds exactly the structures that point back to its owner, and the reference
  count of a type is the number of its objects. In particular no pointer dangles.

  Three generic relations carry it: \<open>index\<close> (a tree and the structures it indexes, of
  \<open>Avl_Index\<close>), \<open>linked\<close> (the lists of the owners and the back pointers of the entries) and
  \<open>type_table\<close> (types and their reference counts).
\<close>

section \<open>Trees of identifiers as indices\<close>

text \<open>A tree of identifiers finds the structure that has the identifier.\<close>

definition id_index :: "nat id_tree \<Rightarrow> (nat \<rightharpoonup> u32) \<Rightarrow> bool" where
  "id_index t f \<longleftrightarrow> index ubus_cmp_id t f \<and> \<not> allow_dups t"

lemma id_index_ok: "id_index t f \<Longrightarrow> id_ok t"
  by (simp add: id_index_def index_def id_ok_def)

lemma id_index_ids: "id_index t f \<Longrightarrow> ids t i = Some p \<longleftrightarrow> f p = Some i"
  using id_ok_distinct [OF id_index_ok, of t f]
  by (auto simp: id_index_def index_def ids_def map_of_eq_Some_iff)

lemma id_index_find: "id_index t f \<Longrightarrow> ubus_find_id t i = Some p \<longleftrightarrow> f p = Some i"
  by (simp add: ubus_find_id_ids [OF id_index_ok] id_index_ids)

lemma id_indexI: "id_ok t \<Longrightarrow> (\<And>i p. ids t i = Some p \<longleftrightarrow> f p = Some i) \<Longrightarrow> id_index t f"
  using id_ok_distinct [of t] by (auto simp: id_index_def index_def id_ok_def ids_def map_of_eq_Some_iff)

lemma id_index_alloc:
  assumes t: "id_index t f" and p: "f p = None" and r: "ubus_alloc_id rs t p v = Some (ok, i, t', rs')"
  shows "id_index t' (if ok then f(p \<mapsto> i) else f)"
proof -
  have "p \<notin> snd ` set (list_head t)" using t p by (auto simp: id_index_def index_def)
  from alloc_id_ok [OF id_index_ok [OF t] this, of rs v] r have a: "id_ok t'" "if ok then i \<notin> dom (ids t) \<and> ids t' = (ids t)(i \<mapsto> p) else ids t' = ids t"
    by (simp_all add: allocated_def Let_def split: if_splits)
  show ?thesis
  proof (rule id_indexI [OF a(1)])
    fix j q
    show "ids t' j = Some q \<longleftrightarrow> (if ok then f(p \<mapsto> i) else f) q = Some j"
      using a(2) p id_index_ids [OF t] by (cases ok) (auto simp: domIff)
  qed
qed

lemma id_index_free:
  assumes "id_index t f" and "f p = Some i" and "ubus_free_id t (i, p) = Some t'"
  shows "id_index t' (f(p := None))"
  using id_order.index_delete [of t f p i] assms by (auto simp: id_index_def ubus_free_id_def)

section \<open>Lists and back pointers\<close>

definition linked :: "('o \<rightharpoonup> 'e list) \<Rightarrow> ('e \<rightharpoonup> 'o) \<Rightarrow> bool" where
  "linked lst own \<longleftrightarrow> (\<forall>q e. (\<exists>es. lst q = Some es \<and> e \<in> set es) \<longleftrightarrow> own e = Some q) \<and>
     (\<forall>q es. lst q = Some es \<longrightarrow> distinct es)"

lemma linked_empty: "linked Map.empty Map.empty"
  by (simp add: linked_def)

lemma linkedD: "linked lst own \<Longrightarrow> lst q = Some es \<Longrightarrow> e \<in> set es \<longleftrightarrow> own e = Some q"
  unfolding linked_def by (metis option.inject)

lemma linked_owner: "linked lst own \<Longrightarrow> own e = Some q \<Longrightarrow> \<exists>es. lst q = Some es \<and> e \<in> set es"
  by (auto simp: linked_def)

lemma linked_add:
  assumes "linked lst own" and "own e = None" and "lst q = Some es"
  shows "linked (lst(q \<mapsto> e # es)) (own(e \<mapsto> q))"
  using assms by (simp add: linked_def) (metis option.distinct(1) option.inject)

lemma linked_del: "linked lst own \<Longrightarrow> linked (\<lambda>q. map_option (removeAll e) (lst q)) (own(e := None))"
proof -
  assume l: "linked lst own"
  have "(\<exists>es. map_option (removeAll e) (lst q) = Some es \<and> d \<in> set es) \<longleftrightarrow>
      d \<noteq> e \<and> (\<exists>es. lst q = Some es \<and> d \<in> set es)" for q d
    by (cases "lst q") auto
  with l show ?thesis by (auto simp: linked_def distinct_removeAll)
qed

lemma linked_new: "linked lst own \<Longrightarrow> lst q = None \<Longrightarrow> linked (lst(q \<mapsto> [])) own"
  by (simp add: linked_def) (metis option.distinct(1))

lemma linked_drop: "linked lst own \<Longrightarrow> lst q = Some [] \<Longrightarrow> linked (lst(q := None)) own"
  by (simp add: linked_def) (metis list.set(1) empty_iff option.inject)

section \<open>Types and their reference counts\<close>

definition refs :: "(nat \<rightharpoonup> nat) \<Rightarrow> nat \<Rightarrow> nat" where
  "refs f ty = card {p. f p = Some ty}"

lemma refs_add: "finite (dom f) \<Longrightarrow> f p = None \<Longrightarrow> refs (f(p \<mapsto> ty)) = (refs f)(ty := refs f ty + 1)"
proof (rule ext)
  fix ty'
  assume fin: "finite (dom f)" and p: "f p = None"
  have "{q. (f(p \<mapsto> ty)) q = Some ty'} = (if ty' = ty then insert p {q. f q = Some ty} else {q. f q = Some ty'})"
    using p by auto
  moreover have "finite {q. f q = Some ty}" by (rule finite_subset [OF _ fin]) auto
  ultimately show "refs (f(p \<mapsto> ty)) ty' = ((refs f)(ty := refs f ty + 1)) ty'" using p by (simp add: refs_def)
qed

lemma refs_del: "finite (dom f) \<Longrightarrow> f p = Some ty \<Longrightarrow> refs (f(p := None)) = (refs f)(ty := refs f ty - 1)"
proof (rule ext)
  fix ty'
  assume fin: "finite (dom f)" and p: "f p = Some ty"
  have "{q. (f(p := None)) q = Some ty'} = (if ty' = ty then {q. f q = Some ty} - {p} else {q. f q = Some ty'})"
    using p by auto
  moreover have "finite {q. f q = Some ty}" by (rule finite_subset [OF _ fin]) auto
  ultimately show "refs (f(p := None)) ty' = ((refs f)(ty := refs f ty - 1)) ty'" using p by (simp add: refs_def)
qed

lemma refs_none: "f p = None \<Longrightarrow> refs (f(p := None)) = refs f"
  by (rule arg_cong [where f = refs]) auto

lemma refs_pos: "finite (dom f) \<Longrightarrow> f p = Some ty \<Longrightarrow> 0 < refs f ty"
  unfolding refs_def card_gt_0_iff by (auto intro: finite_subset [of _ "dom f"])

text \<open>\<open>cnt ty\<close> references to the type \<open>ty\<close> exist; a type with none is freed.\<close>

definition type_table :: "nat id_tree \<Rightarrow> (nat \<rightharpoonup> ubus_object_type) \<Rightarrow> (nat \<Rightarrow> nat) \<Rightarrow> bool" where
  "type_table t tys cnt \<longleftrightarrow> id_index t (\<lambda>p. map_option ty_id (tys p)) \<and>
     (\<forall>p. tys p = None \<longrightarrow> cnt p = 0) \<and> (\<forall>p x. tys p = Some x \<longrightarrow> 0 < cnt p \<and> ty_refcount x = int (cnt p))"

lemma type_table_live: "type_table t tys cnt \<Longrightarrow> 0 < cnt p \<longleftrightarrow> (\<exists>x. tys p = Some x)"
  unfolding type_table_def by (metis less_irrefl not_Some_eq)

lemma type_table_upd:
  assumes "type_table t tys cnt" and "tys p = Some x" and "ty_id y = ty_id x" and "ty_refcount y = int n" and "0 < n"
  shows "type_table t (tys(p \<mapsto> y)) (cnt(p := n))"
proof -
  have "(\<lambda>q. map_option ty_id ((tys(p \<mapsto> y)) q)) = (\<lambda>q. map_option ty_id (tys q))" using assms by (auto simp: fun_eq_iff)
  with assms show ?thesis by (simp add: type_table_def)
qed

lemma type_table_free:
  assumes "type_table t tys cnt" and "tys p = Some x" and "ubus_free_id t (ty_id x, p) = Some t'"
  shows "type_table t' (tys(p := None)) (cnt(p := 0))"
proof -
  have "(\<lambda>q. map_option ty_id ((tys(p := None)) q)) = (\<lambda>q. map_option ty_id (tys q))(p := None)" by (auto simp: fun_eq_iff)
  with id_index_free [of t "\<lambda>q. map_option ty_id (tys q)" p "ty_id x" t'] assms show ?thesis
    by (simp add: type_table_def)
qed

lemma type_table_add:
  assumes "type_table t tys cnt" and "tys p = None" and "ubus_alloc_id rs t p 0 = Some (True, i, t', rs')"
    and "ty_id x = i" and "ty_refcount x = 1"
  shows "type_table t' (tys(p \<mapsto> x)) (cnt(p := 1))"
proof -
  have "(\<lambda>q. map_option ty_id ((tys(p \<mapsto> x)) q)) = (\<lambda>q. map_option ty_id (tys q))(p \<mapsto> i)"
    using assms by (auto simp: fun_eq_iff)
  with id_index_alloc [of t "\<lambda>q. map_option ty_id (tys q)" p rs 0 True i t' rs'] assms show ?thesis
    by (simp add: type_table_def)
qed

section \<open>The invariant\<close>

text \<open>
  \<open>held\<close> is a type to which, in the middle of \<open>ubusd_create_object\<close>, one reference more exists than
  objects have.
\<close>

definition type_count :: "nat option \<Rightarrow> ubusd \<Rightarrow> nat \<Rightarrow> nat" where
  "type_count held s ty = refs (\<lambda>p. objs s p \<bind> otype) ty + (if held = Some ty then 1 else 0)"

definition below :: "nat \<Rightarrow> (nat \<rightharpoonup> 'a) \<Rightarrow> bool" where
  "below n m \<longleftrightarrow> dom m \<subseteq> {..<n}"

definition graph_inv :: "nat option \<Rightarrow> ubusd \<Rightarrow> bool" where
  "graph_inv held s \<longleftrightarrow>
     id_index (objects s) (\<lambda>p. map_option obj_id (objs s p)) \<and>
     id_index (clients s) (\<lambda>p. map_option cl_id (cls s p)) \<and>
     type_table (obj_types s) (types s) (type_count held s) \<and>
     index avl_strcmp (path s) (\<lambda>p. objs s p \<bind> path_key) \<and> \<not> allow_dups (path s) \<and>
     index avl_strcmp (patterns s) (\<lambda>p. map_option ev_key (evs s p)) \<and> allow_dups (patterns s) \<and>
     linked (\<lambda>p. map_option subscribers (objs s p)) (\<lambda>p. map_option target (subs s p)) \<and>
     linked (\<lambda>p. map_option target_list (objs s p)) (\<lambda>p. map_option subscriber (subs s p)) \<and>
     linked (\<lambda>p. map_option events (objs s p)) (\<lambda>p. map_option ev_obj (evs s p)) \<and>
     linked (\<lambda>p. map_option cl_objects (cls s p)) (\<lambda>p. objs s p \<bind> oclient) \<and>
     (\<forall>p x. objs s p = Some x \<longrightarrow> olist x = oclient x) \<and>
     below (clock s) (objs s) \<and> below (clock s) (types s) \<and> below (clock s) (subs s) \<and>
     below (clock s) (evs s) \<and> below (clock s) (cls s)"

abbreviation graph_ok :: "ubusd \<Rightarrow> bool" where
  "graph_ok \<equiv> graph_inv None"

text \<open>
  What the invariant sees of a state: not the messages and rings, and not the counters of objects.
\<close>

definition gobj :: "ubus_object \<Rightarrow> ubus_object" where
  "gobj x = x\<lparr>event_seen := 0, invoke_seq := 0\<rparr>"

definition graph :: "ubusd \<Rightarrow> ubusd" where
  "graph s = (rest s)\<lparr>objs := (\<lambda>p. map_option gobj (objs s p)), event_seq := 0, obj_event_seq := 0, random := []\<rparr>"

definition keeps :: "ubusd \<Rightarrow> ubusd \<Rightarrow> bool" where
  "keeps s s' \<longleftrightarrow> graph s' = graph s \<and> clock s \<le> clock s'"

named_theorems kept "operations that leave the graph of the daemon alone"

lemma gobj_fields [simp]: "obj_id (gobj x) = obj_id x" "olist (gobj x) = olist x" "events (gobj x) = events x"
    "subscribers (gobj x) = subscribers x" "target_list (gobj x) = target_list x" "otype (gobj x) = otype x"
    "path_key (gobj x) = path_key x" "oclient (gobj x) = oclient x" "recv_msg (gobj x) = recv_msg x"
    "gobj (x\<lparr>event_seen := i\<rparr>) = gobj x" "gobj (x\<lparr>invoke_seq := w\<rparr>) = gobj x"
  by (simp_all add: gobj_def)

lemma keeps_refl [simp, intro]: "keeps s s"
  by (simp add: keeps_def)

lemma keeps_trans [trans]: "keeps s s1 \<Longrightarrow> keeps s1 s2 \<Longrightarrow> keeps s s2"
  by (simp add: keeps_def)

lemma graph_rest: "rest s' = rest s \<Longrightarrow> graph s' = graph s"
proof -
  assume r: "rest s' = rest s"
  from rest_fields(2) [OF r] show ?thesis unfolding graph_def r by simp
qed

lemma frame_keeps: "frame s s' \<Longrightarrow> keeps s s'"
  unfolding frame_def keeps_def using graph_rest by blast

lemma graph_upds [simp]:
  "graph (s\<lparr>clock := n\<rparr>) = graph s" "graph (s\<lparr>out := b\<rparr>) = graph s" "graph (s\<lparr>msgs := c\<rparr>) = graph s"
  "graph (s\<lparr>bb := e\<rparr>) = graph s" "graph (s\<lparr>event_seq := i\<rparr>) = graph s" "graph (s\<lparr>obj_event_seq := i\<rparr>) = graph s"
  "graph (s\<lparr>random := rs\<rparr>) = graph s" "graph (sys_close fd s) = graph s" "graph (uloop_fd_add fd w s) = graph s"
  "graph (uloop_fd_delete fd s) = graph s"
  by (simp_all add: graph_def rest_def sys_close_def uloop_fd_add_def uloop_fd_delete_def)

lemma keeps_fields:
  assumes "keeps s s'"
  shows "types s' = types s" "subs s' = subs s" "evs s' = evs s" "clients s' = clients s" "objects s' = objects s"
    "obj_types s' = obj_types s" "path s' = path s" "patterns s' = patterns s" "retmsg s' = retmsg s"
    "event_obj s' = event_obj s" "map_option strip (cls s' p) = map_option strip (cls s p)"
    "map_option gobj (objs s' p) = map_option gobj (objs s p)" "clock s \<le> clock s'"
proof -
  have f: "types (graph s) = types s" "subs (graph s) = subs s" "evs (graph s) = evs s" "clients (graph s) = clients s"
    "objects (graph s) = objects s" "obj_types (graph s) = obj_types s" "path (graph s) = path s"
    "patterns (graph s) = patterns s" "retmsg (graph s) = retmsg s" "event_obj (graph s) = event_obj s"
    "cls (graph s) p = map_option strip (cls s p)" "objs (graph s) p = map_option gobj (objs s p)" for s
    by (simp_all add: graph_def rest_def)
  show "types s' = types s" "subs s' = subs s" "evs s' = evs s" "clients s' = clients s" "objects s' = objects s"
    "obj_types s' = obj_types s" "path s' = path s" "patterns s' = patterns s" "retmsg s' = retmsg s"
    "event_obj s' = event_obj s" "map_option strip (cls s' p) = map_option strip (cls s p)"
    "map_option gobj (objs s' p) = map_option gobj (objs s p)" "clock s \<le> clock s'"
    using assms f unfolding keeps_def by metis+
qed

text \<open>Every field of the clients and objects that the invariant looks at is kept.\<close>

lemma map_option_via: "map_option h a = map_option h b \<Longrightarrow> (\<And>x. f (h x) = f x) \<Longrightarrow> map_option f a = map_option f b"
  by (cases a; cases b) (simp_all, metis)

lemma bind_option_via: "map_option h a = map_option h b \<Longrightarrow> (\<And>x. f (h x) = f x) \<Longrightarrow> a \<bind> f = b \<bind> f"
  by (cases a; cases b) (simp_all, metis)

lemma keeps_views:
  assumes "keeps s s'"
  shows "map_option obj_id (objs s' p) = map_option obj_id (objs s p)"
    "map_option subscribers (objs s' p) = map_option subscribers (objs s p)"
    "map_option target_list (objs s' p) = map_option target_list (objs s p)"
    "map_option events (objs s' p) = map_option events (objs s p)"
    "map_option oclient (objs s' p) = map_option oclient (objs s p)"
    "objs s' p \<bind> otype = objs s p \<bind> otype" "objs s' p \<bind> path_key = objs s p \<bind> path_key"
    "objs s' p \<bind> oclient = objs s p \<bind> oclient"
    "map_option cl_id (cls s' p) = map_option cl_id (cls s p)"
    "map_option cl_objects (cls s' p) = map_option cl_objects (cls s p)"
    "dom (objs s') = dom (objs s)" "dom (cls s') = dom (cls s)"
    "(objs s' p = None) = (objs s p = None)" "(cls s' p = None) = (cls s p = None)"
proof -
  note o = keeps_fields(12) [OF assms] and c = keeps_fields(11) [OF assms]
  show "map_option obj_id (objs s' p) = map_option obj_id (objs s p)"
    "map_option subscribers (objs s' p) = map_option subscribers (objs s p)"
    "map_option target_list (objs s' p) = map_option target_list (objs s p)"
    "map_option events (objs s' p) = map_option events (objs s p)"
    "map_option oclient (objs s' p) = map_option oclient (objs s p)"
    by (rule map_option_via [OF o]; simp)+
  show "objs s' p \<bind> otype = objs s p \<bind> otype" "objs s' p \<bind> path_key = objs s p \<bind> path_key"
    "objs s' p \<bind> oclient = objs s p \<bind> oclient"
    by (rule bind_option_via [OF o]; simp)+
  show "map_option cl_id (cls s' p) = map_option cl_id (cls s p)"
    "map_option cl_objects (cls s' p) = map_option cl_objects (cls s p)"
    by (rule map_option_via [OF c]; simp)+
  show "dom (objs s') = dom (objs s)" using o by (auto simp: dom_def) (metis map_option_is_None option.distinct(1) option.exhaust)+
  show "dom (cls s') = dom (cls s)" using c by (auto simp: dom_def) (metis map_option_is_None option.distinct(1) option.exhaust)+
  show "(objs s' p = None) = (objs s p = None)" "(cls s' p = None) = (cls s p = None)"
    using o c by (metis map_option_is_None)+
qed

lemma keeps_obj:
  assumes "keeps s s'" and "objs s p = Some x"
  obtains y where "objs s' p = Some y" "gobj y = gobj x"
  using keeps_fields(12) [OF assms(1), of p] assms(2) by auto

lemma keeps_olist: "keeps s s' \<Longrightarrow> \<forall>p x. objs s p = Some x \<longrightarrow> olist x = oclient x \<Longrightarrow> \<forall>p x. objs s' p = Some x \<longrightarrow> olist x = oclient x"
  by (metis (no_types, lifting) gobj_fields(2,8) keeps_fields(12) map_option_eq_Some)

lemma keeps_inv: "keeps s s' \<Longrightarrow> graph_inv held s \<Longrightarrow> graph_inv held s'"
proof -
  assume k: "keeps s s'" and i: "graph_inv held s"
  have c: "type_count held s' = type_count held s" by (simp add: type_count_def keeps_views [OF k] fun_eq_iff)
  have "below (clock s') m" if "below (clock s) m" for m :: "nat \<rightharpoonup> 'a"
    using that keeps_fields(13) [OF k] by (auto simp: below_def)
  moreover have "below (clock s') (objs s')" "below (clock s') (cls s')"
    using i keeps_fields(13) [OF k] by (auto simp: below_def graph_inv_def keeps_views [OF k])
  ultimately show ?thesis using i keeps_olist [OF k] keeps_fields(13) [OF k]
    unfolding graph_inv_def keeps_views [OF k] keeps_fields(1-8) [OF k] c
    by (auto simp: below_def)
qed

end
