(* ===== verification/Ubusd_Inv.thy ===== *)
theory Ubusd_Inv
  imports Ubusd_Graph
begin

text \<open>
  Every operation of the daemon preserves the invariant \<open>graph_ok\<close> of its objects: first the
  operations that do not touch the graph (messages, events, look-ups, notifications), then those of
  \<open>src/ubus/ubusd_obj.c\<close> and \<open>src/ubus/ubusd_event.c\<close> that change it, then the handlers, clients and connections.
\<close>

section \<open>Operations that keep the graph\<close>

lemmas kept_frames [kept] = frames [THEN frame_keeps]

lemma kept_upd_obj: "upd_obj p f s = Some s' \<Longrightarrow> (\<And>x. gobj (f x) = gobj x) \<Longrightarrow> keeps s s'"
  by (auto simp: upd_obj_def keeps_def graph_def rest_def fun_eq_iff split: bind_splits)

lemma kept_notify_subscription [kept]: "ubus_notify_subscription E obj s = Some s' \<Longrightarrow> keeps s s'"
  by (auto simp: ubus_notify_subscription_def keeps_def Let_def split: bind_splits option.splits
    dest!: kept_upd_obj kept_frames)

lemma kept_fill [kept]: "fill_cb E fill i s = Some (r, s') \<Longrightarrow> keeps s s'"
  by (cases fill) (auto simp: ubusd_create_event_from_msg_def ubusd_create_object_event_msg_def keeps_def
      split: bind_splits dest!: kept_frames)

lemma kept_deliver [kept]: "event_deliver E ub obj i fill s = Some (r, s') \<Longrightarrow> keeps s s'"
  by (auto simp: event_deliver_def keeps_def split: bind_splits option.splits if_split_asm
    dest!: kept_upd_obj kept_fill kept_frames)

lemma kept_send_event_msg [kept]: "ubusd_send_event_msg E ub cl obj i fill s = Some (r, s') \<Longrightarrow> keeps s s'"
  by (auto simp: ubusd_send_event_msg_def split: bind_splits if_splits dest: kept_deliver)

lemma kept_event_loop [kept]: "send_event_loop E cl i fill es n ub s = Some (r, s') \<Longrightarrow> keeps s s'"
proof (induction es arbitrary: n ub s)
  case (Cons e es)
  from Cons.prems show ?case
    by (cases e) (auto simp: Let_def split: prod.splits bind_splits if_splits
      dest!: Cons.IH kept_send_event_msg intro: keeps_trans)
qed simp

lemma kept_send_event [kept]: "ubusd_send_event E cl i fill s = Some (r, s') \<Longrightarrow> keeps s s'"
  by (auto simp: ubusd_send_event_def keeps_def Let_def split: bind_splits option.splits
    dest!: kept_event_loop kept_frames)

lemma kept_obj_event [kept]: "ubusd_send_obj_event E obj add s = Some s' \<Longrightarrow> keeps s s'"
  by (auto simp: ubusd_send_obj_event_def dest: kept_send_event)

lemma kept_forward_event [kept]: "ubusd_forward_event E cl ub m s = Some (r, s') \<Longrightarrow> keeps s s'"
  by (auto simp: ubusd_forward_event_def split: bind_splits option.splits if_splits dest: kept_send_event)

section \<open>Objects, types and subscriptions\<close>

text \<open>Field by field, with the functions the invariant is about written as updates.\<close>

lemma map_option_upd: "(\<lambda>p. map_option f ((m(q \<mapsto> x)) p)) = (\<lambda>p. map_option f (m p))(q \<mapsto> f x)"
    "(\<lambda>p. map_option f ((m(q := None)) p)) = (\<lambda>p. map_option f (m p))(q := None)"
    "(\<lambda>p. (m(q \<mapsto> x)) p \<bind> g) = (\<lambda>p. m p \<bind> g)(q := g x)"
    "(\<lambda>p. (m(q := None)) p \<bind> g) = (\<lambda>p. m p \<bind> g)(q := None)"
  by (auto simp: fun_eq_iff)

lemma map_option_same: "m q = Some x \<Longrightarrow> f y = f x \<Longrightarrow> (\<lambda>p. map_option f ((m(q \<mapsto> y)) p)) = (\<lambda>p. map_option f (m p))"
    "m q = Some x \<Longrightarrow> g y = g x \<Longrightarrow> (\<lambda>p. (m(q \<mapsto> y)) p \<bind> g) = (\<lambda>p. m p \<bind> g)"
  by (auto simp: fun_eq_iff)

lemma below_upd: "below n m \<Longrightarrow> q < n \<Longrightarrow> below n (m(q \<mapsto> x))" "below n m \<Longrightarrow> below n (m(q := None))"
    "below n m \<Longrightarrow> below (Suc n) m" "below n m \<Longrightarrow> below n (\<lambda>p. map_option f (m p))"
  by (auto simp: below_def dom_def)

lemma below_fresh: "below n m \<Longrightarrow> m n = None"
  by (auto simp: below_def)

lemma below_finite: "below n m \<Longrightarrow> finite (dom (\<lambda>p. m p \<bind> f))"
  by (rule finite_subset [of _ "dom m"]) (auto simp: below_def bind_eq_Some_conv intro: finite_subset)

lemma inv_unlink_sub:
  assumes "graph_inv h s"
  shows "graph_inv h ((unlink_sub sb s)\<lparr>subs := (subs (unlink_sub sb s))(sb := None)\<rparr>)"
proof -
  let ?s = "(unlink_sub sb s)\<lparr>subs := (subs (unlink_sub sb s))(sb := None)\<rparr>"
  have f: "map_option obj_id (objs ?s p) = map_option obj_id (objs s p)"
    "map_option subscribers (objs ?s p) = map_option (removeAll sb) (map_option subscribers (objs s p))"
    "map_option target_list (objs ?s p) = map_option (removeAll sb) (map_option target_list (objs s p))"
    "map_option events (objs ?s p) = map_option events (objs s p)" "objs ?s p \<bind> otype = objs s p \<bind> otype"
    "objs ?s p \<bind> path_key = objs s p \<bind> path_key" "objs ?s p \<bind> oclient = objs s p \<bind> oclient" for p
    by (cases "objs s p"; simp add: unlink_sub_def)+
  have g: "subs ?s = (subs s)(sb := None)" "types ?s = types s" "evs ?s = evs s" "cls ?s = cls s" "clients ?s = clients s"
    "objects ?s = objects s" "obj_types ?s = obj_types s" "path ?s = path s" "patterns ?s = patterns s" "clock ?s = clock s"
    by (simp_all add: unlink_sub_def)
  have "type_count h ?s = type_count h s" unfolding type_count_def f ..
  moreover have "\<forall>p x. objs ?s p = Some x \<longrightarrow> olist x = oclient x" "below (clock s) (objs ?s)"
    using assms by (auto simp: graph_inv_def unlink_sub_def below_upd)
  ultimately show ?thesis using assms unfolding graph_inv_def f g map_option_upd
    by (simp add: linked_del below_upd)
qed

lemma inv_unsubscribe:
  assumes "graph_inv h s" and "ubus_unsubscribe E sb s = Some s'"
  shows "graph_inv h s'"
  using assms inv_unlink_sub [OF assms(1), of sb]
  by (auto simp: ubus_unsubscribe_def Let_def split: bind_splits if_splits dest!: kept_notify_subscription intro: keeps_inv)

lemma inv_subscribe:
  assumes i: "graph_inv h s" and r: "ubus_subscribe E obj tgt s = Some s'"
  shows "graph_inv h s'"
proof (cases "e_alloc E (clock s)")
  case False
  with r have "s' = s\<lparr>clock := clock s + 1\<rparr>" by (auto simp: ubus_subscribe_def calloc_def Let_def split: bind_splits)
  then have "keeps s s'" by (simp add: keeps_def)
  with i show ?thesis by (rule keeps_inv [rotated])
next
  case True
  let ?sb = "clock s"
  obtain x y where x: "objs s tgt = Some x" and y: "((objs s)(tgt \<mapsto> x\<lparr>subscribers := ?sb # subscribers x\<rparr>)) obj = Some y"
    using r by (auto simp: ubus_subscribe_def calloc_def upd_obj_def Let_def True split: bind_splits if_splits)
  define s1 where "s1 = s\<lparr>clock := clock s + 1, subs := (subs s)(?sb \<mapsto> \<lparr>subscriber = obj, target = tgt\<rparr>),
    objs := (objs s)(tgt \<mapsto> x\<lparr>subscribers := ?sb # subscribers x\<rparr>, obj \<mapsto> y\<lparr>target_list := ?sb # target_list y\<rparr>)\<rparr>"
  have "keeps s1 s'" using r x y
    by (auto simp: ubus_subscribe_def calloc_def upd_obj_def Let_def True s1_def split: if_splits
      dest: kept_notify_subscription)
  moreover have "graph_inv h s1"
  proof -
    have v: "(\<lambda>p. map_option obj_id (objs s1 p)) = (\<lambda>p. map_option obj_id (objs s p))"
      "(\<lambda>p. map_option events (objs s1 p)) = (\<lambda>p. map_option events (objs s p))"
      "(\<lambda>p. objs s1 p \<bind> otype) = (\<lambda>p. objs s p \<bind> otype)" "(\<lambda>p. objs s1 p \<bind> path_key) = (\<lambda>p. objs s p \<bind> path_key)"
      "(\<lambda>p. objs s1 p \<bind> oclient) = (\<lambda>p. objs s p \<bind> oclient)"
      "(\<lambda>p. map_option subscribers (objs s1 p)) = (\<lambda>p. map_option subscribers (objs s p))(tgt \<mapsto> ?sb # subscribers x)"
      "(\<lambda>p. map_option target_list (objs s1 p)) = (\<lambda>p. map_option target_list (objs s p))(obj \<mapsto> ?sb # target_list y)"
      "(\<lambda>p. map_option target (subs s1 p)) = (\<lambda>p. map_option target (subs s p))(?sb \<mapsto> tgt)"
      "(\<lambda>p. map_option subscriber (subs s1 p)) = (\<lambda>p. map_option subscriber (subs s p))(?sb \<mapsto> obj)"
      using x y by (auto simp: s1_def fun_eq_iff split: if_splits)
    have t: "map_option target_list (objs s obj) = Some (target_list y)" using y x by (auto split: if_splits)
    have c: "type_count h s1 = type_count h s" unfolding type_count_def v ..
    have fr: "subs s ?sb = None" using i by (auto simp: graph_inv_def below_fresh)
    have "\<forall>p x. objs s1 p = Some x \<longrightarrow> olist x = oclient x"
      using i x y by (auto simp: graph_inv_def s1_def split: if_splits)
    moreover have "below (clock s1) (objs s1)" using i x y by (auto simp: graph_inv_def s1_def below_def split: if_splits)
    moreover have "linked ((\<lambda>p. map_option subscribers (objs s p))(tgt \<mapsto> ?sb # subscribers x)) ((\<lambda>p. map_option target (subs s p))(?sb \<mapsto> tgt))"
      "linked ((\<lambda>p. map_option target_list (objs s p))(obj \<mapsto> ?sb # target_list y)) ((\<lambda>p. map_option subscriber (subs s p))(?sb \<mapsto> obj))"
      using i fr x t by (auto simp: graph_inv_def intro!: linked_add)
    ultimately show ?thesis using i unfolding graph_inv_def v c by (simp add: s1_def below_upd)
  qed
  ultimately show ?thesis by (rule keeps_inv)
qed

lemma inv_notify_unsubscribe:
  assumes i: "graph_inv h s" and r: "ubus_notify_unsubscribe E sb s = Some s'"
  shows "graph_inv h s'"
proof -
  from r have "\<exists>s1. ubus_unsubscribe E sb s1 = Some s' \<and> keeps s s1"
    by (auto simp: ubus_notify_unsubscribe_def split: bind_splits option.splits dest!: kept_upd_obj kept_frames)
      (rule exI, rule conjI, assumption, simp add: keeps_def)+
  with inv_unsubscribe [OF keeps_inv [OF _ i]] show ?thesis by blast
qed

section \<open>Event sources\<close>

lemma inv_delete_event_source:
  assumes i: "graph_inv h s" and r: "ubusd_delete_event_source ev s = Some s'"
  shows "graph_inv h s'"
proof -
  obtain e t where e: "evs s ev = Some e" and t: "avl_delete (patterns s) (ev_key e, ev) = Some t"
    and s': "s' = (unlink_event ev s)\<lparr>patterns := t, evs := (evs s)(ev := None)\<rparr>"
    using r by (auto simp: ubusd_delete_event_source_def unlink_event_def Let_def split: bind_splits)
  have v: "(\<lambda>p. map_option obj_id (objs s' p)) = (\<lambda>p. map_option obj_id (objs s p))"
    "(\<lambda>p. map_option subscribers (objs s' p)) = (\<lambda>p. map_option subscribers (objs s p))"
    "(\<lambda>p. map_option target_list (objs s' p)) = (\<lambda>p. map_option target_list (objs s p))"
    "(\<lambda>p. map_option events (objs s' p)) = (\<lambda>p. map_option (removeAll ev) (map_option events (objs s p)))"
    "(\<lambda>p. objs s' p \<bind> otype) = (\<lambda>p. objs s p \<bind> otype)" "(\<lambda>p. objs s' p \<bind> path_key) = (\<lambda>p. objs s p \<bind> path_key)"
    "(\<lambda>p. objs s' p \<bind> oclient) = (\<lambda>p. objs s p \<bind> oclient)"
    "(\<lambda>p. map_option ev_key (evs s' p)) = (\<lambda>p. map_option ev_key (evs s p))(ev := None)"
    "(\<lambda>p. map_option ev_obj (evs s' p)) = (\<lambda>p. map_option ev_obj (evs s p))(ev := None)"
    by (rule ext, case_tac "objs s p"; simp add: s' unlink_event_def)+
  have c: "type_count h s' = type_count h s" unfolding type_count_def v ..
  have ix: "index avl_strcmp (patterns s) (\<lambda>p. map_option ev_key (evs s p))" "allow_dups (patterns s)"
    using i by (auto simp: graph_inv_def)
  have "index avl_strcmp t ((\<lambda>p. map_option ev_key (evs s p))(ev := None)) \<and> allow_dups t"
    using strcmp_order.index_delete [OF ix(1), of ev "ev_key e"] e t ix(2) by simp
  moreover have "linked (\<lambda>p. map_option (removeAll ev) (map_option events (objs s p))) ((\<lambda>p. map_option ev_obj (evs s p))(ev := None))"
    using i by (intro linked_del) (auto simp: graph_inv_def)
  moreover have "\<forall>p x. objs s' p = Some x \<longrightarrow> olist x = oclient x" "below (clock s) (objs s')"
    using i by (auto simp: graph_inv_def s' unlink_event_def below_upd)
  ultimately show ?thesis using i unfolding graph_inv_def v c by (simp add: s' unlink_event_def below_upd)
qed

lemma inv_event_cleanup:
  "ubusd_event_cleanup_object obj s = Some s' \<Longrightarrow> graph_inv h s \<Longrightarrow> graph_inv h s'"
proof (induction obj s rule: ubusd_event_cleanup_object.induct)
  case (1 obj s)
  from 1(2,3) show ?case
    by (subst (asm) ubusd_event_cleanup_object.simps)
      (auto split: bind_splits list.splits dest: inv_delete_event_source 1(1))
qed

lemma inv_add_event_source:
  assumes i: "graph_inv h s" and r: "add_event_source E ub obj off s = Some (rc, s')"
  shows "graph_inv h s'"
proof -
  obtain m pattern blk part n s1 where b: "msgs s ub = Some m" "upd_msg ub (\<lambda>m. m\<lparr>mdata := blk\<rparr>) s = Some s1"
      "cstr_at (mdata m) off = Some pattern" "cut_star (mdata m) off pattern = Some (blk, part, n)"
    using r unfolding add_event_source_def by (auto simp: bind_eq_Some_conv)
  have i1: "graph_inv h s1" by (rule keeps_inv [OF _ i]) (use b(2) in \<open>auto dest: kept_frames\<close>)
  show ?thesis
  proof (cases "e_alloc E (clock s1)")
    case False
    with r b have "keeps s1 s'" by (auto simp: add_event_source_def calloc_def keeps_def)
    with i1 show ?thesis by (rule keeps_inv [rotated])
  next
    case True
    let ?ev = "clock s1"
    obtain x name rc' t where t: "objs s1 obj = Some x" "avl_insert avl_strcmp (patterns s1) (name, ?ev) = Some (rc', t)"
      "s' = s1\<lparr>clock := clock s1 + 1, objs := (objs s1)(obj \<mapsto> x\<lparr>events := ?ev # events x\<rparr>),
        evs := (evs s1)(?ev \<mapsto> \<lparr>ev_obj = obj, ev_key = name, partial = part\<rparr>), patterns := t\<rparr>"
      using r b True by (auto simp: add_event_source_def calloc_def upd_obj_def bind_eq_Some_conv split: if_splits)
    have fr: "evs s1 ?ev = None" using i1 by (auto simp: graph_inv_def below_fresh)
    have v: "(\<lambda>p. map_option obj_id (objs s' p)) = (\<lambda>p. map_option obj_id (objs s1 p))"
      "(\<lambda>p. map_option subscribers (objs s' p)) = (\<lambda>p. map_option subscribers (objs s1 p))"
      "(\<lambda>p. map_option target_list (objs s' p)) = (\<lambda>p. map_option target_list (objs s1 p))"
      "(\<lambda>p. map_option events (objs s' p)) = (\<lambda>p. map_option events (objs s1 p))(obj \<mapsto> ?ev # events x)"
      "(\<lambda>p. objs s' p \<bind> otype) = (\<lambda>p. objs s1 p \<bind> otype)" "(\<lambda>p. objs s' p \<bind> path_key) = (\<lambda>p. objs s1 p \<bind> path_key)"
      "(\<lambda>p. objs s' p \<bind> oclient) = (\<lambda>p. objs s1 p \<bind> oclient)"
      "(\<lambda>p. map_option ev_key (evs s' p)) = (\<lambda>p. map_option ev_key (evs s1 p))(?ev \<mapsto> name)"
      "(\<lambda>p. map_option ev_obj (evs s' p)) = (\<lambda>p. map_option ev_obj (evs s1 p))(?ev \<mapsto> obj)"
      using t(1,3) by (auto simp: fun_eq_iff)
    have c: "type_count h s' = type_count h s1" unfolding type_count_def v ..
    have ix: "index avl_strcmp (patterns s1) (\<lambda>p. map_option ev_key (evs s1 p))" "allow_dups (patterns s1)"
      using i1 by (auto simp: graph_inv_def)
    have "rc' = 0" using strcmp_order.insert_refines [of "patterns s1" "(name, ?ev)"] ix t(2) fr
      by (auto simp: index_def mm_insert_def)
    then have "index avl_strcmp t ((\<lambda>p. map_option ev_key (evs s1 p))(?ev \<mapsto> name)) \<and> allow_dups t"
      using strcmp_order.index_insert [OF ix(1), of ?ev name] fr t(2) ix(2) by simp
    moreover have "linked ((\<lambda>p. map_option events (objs s1 p))(obj \<mapsto> ?ev # events x)) ((\<lambda>p. map_option ev_obj (evs s1 p))(?ev \<mapsto> obj))"
      using i1 fr t(1) by (intro linked_add) (auto simp: graph_inv_def)
    moreover have "\<forall>p x. objs s' p = Some x \<longrightarrow> olist x = oclient x" "below (Suc (clock s1)) (objs s')"
      using i1 t(1,3) by (auto simp: graph_inv_def below_def)
    ultimately show ?thesis using i1 t(3) unfolding graph_inv_def v c by (simp add: below_upd)
  qed
qed

lemma inv_alloc_event_pattern:
  assumes "graph_inv h s" and "ubusd_alloc_event_pattern E cl ub msg s = Some (rc, s')"
  shows "graph_inv h s'"
  using assms unfolding ubusd_alloc_event_pattern_def
  by (auto split: bind_splits option.split_asm if_split_asm dest: inv_add_event_source)

lemma inv_event_recv: "graph_inv h s \<Longrightarrow> ubusd_event_recv E cl m ub d s = Some (rc, s') \<Longrightarrow> graph_inv h s'"
  by (auto simp: ubusd_event_recv_def split: if_splits dest: inv_alloc_event_pattern
    intro: keeps_inv kept_forward_event)

section \<open>Types\<close>

lemma type_count_upds [simp]:
  "type_count h (s\<lparr>clock := a\<rparr>) = type_count h s" "type_count h (s\<lparr>random := b\<rparr>) = type_count h s"
  "type_count h (s\<lparr>types := c\<rparr>) = type_count h s" "type_count h (s\<lparr>obj_types := d\<rparr>) = type_count h s"
  "type_count h (s\<lparr>objects := d\<rparr>) = type_count h s" "type_count h (s\<lparr>path := e\<rparr>) = type_count h s"
  "type_count h (s\<lparr>cls := f\<rparr>) = type_count h s" "type_count h (s\<lparr>clients := d\<rparr>) = type_count h s"
  by (simp_all add: type_count_def fun_eq_iff)

lemma type_count_live: "graph_inv h s \<Longrightarrow> 0 < type_count h s ty \<longleftrightarrow> (\<exists>t. types s ty = Some t)"
  using type_table_live [of "obj_types s" "types s" "type_count h s"] by (auto simp: graph_inv_def)

lemma unref_type:
  assumes t: "type_table (obj_types s) (types s) cnt" and r: "ubus_unref_object_type ty s = Some s'"
  shows "type_table (obj_types s') (types s') (cnt(ty := cnt ty - 1)) \<and> dom (types s') \<subseteq> dom (types s) \<and>
    s' = s\<lparr>obj_types := obj_types s', types := types s'\<rparr>"
proof -
  obtain x where x: "types s ty = Some x" using r by (auto simp: ubus_unref_object_type_def upd_type_def split: bind_splits)
  let ?y = "x\<lparr>ty_refcount := ty_refcount x - 1\<rparr>"
  have n: "0 < cnt ty" "ty_refcount x = int (cnt ty)" using t x by (auto simp: type_table_def)
  show ?thesis
  proof (cases "cnt ty = 1")
    case False
    then have "type_table (obj_types s) ((types s)(ty \<mapsto> ?y)) (cnt(ty := cnt ty - 1))"
      using n by (intro type_table_upd [OF t x]) auto
    moreover have "s' = s\<lparr>types := (types s)(ty \<mapsto> ?y)\<rparr>"
      using r x n False by (auto simp: ubus_unref_object_type_def upd_type_def split: if_splits bind_splits)
    ultimately show ?thesis using x by auto
  next
    case True
    then obtain tr where tr: "ubus_free_id (obj_types s) (ty_id x, ty) = Some tr"
      "s' = s\<lparr>obj_types := tr, types := (types s)(ty := None)\<rparr>"
      using r x n by (auto simp: ubus_unref_object_type_def upd_type_def split: bind_splits)
    from type_table_free [OF t x tr(1)] tr(2) True show ?thesis by auto
  qed
qed

lemma unref_objs: "ubus_unref_object_type ty s = Some s' \<Longrightarrow> objs s' = objs s"
  by (auto simp: ubus_unref_object_type_def upd_type_def split: bind_splits if_splits)

text \<open>A change of the types only, with one reference more or less.\<close>

lemma inv_types:
  assumes i: "graph_inv h s" and t: "type_table (obj_types s') (types s') (type_count h' s)" and b: "below (clock s) (types s')"
    and s': "s' = s\<lparr>obj_types := obj_types s', types := types s'\<rparr>"
  shows "graph_inv h' s'"
proof -
  have "type_count h' s' = type_count h' s" by (subst s') (simp add: type_count_def fun_eq_iff)
  with t have "type_table (obj_types s') (types s') (type_count h' s')" by simp
  moreover have "objs s' = objs s" "subs s' = subs s" "evs s' = evs s" "cls s' = cls s" "clients s' = clients s" "objects s' = objects s"
    "path s' = path s" "patterns s' = patterns s" "clock s' = clock s" by (subst s', simp)+
  ultimately show ?thesis using i b by (simp add: graph_inv_def)
qed

lemma inv_unref: "graph_inv (Some ty) s \<Longrightarrow> ubus_unref_object_type ty s = Some s' \<Longrightarrow> graph_ok s'"
proof -
  assume i: "graph_inv (Some ty) s" and r: "ubus_unref_object_type ty s = Some s'"
  have "(type_count (Some ty) s)(ty := type_count (Some ty) s ty - 1) = type_count None s"
    by (auto simp: type_count_def fun_eq_iff)
  with unref_type [OF _ r, of "type_count (Some ty) s"] i
  have u: "type_table (obj_types s') (types s') (type_count None s)" "dom (types s') \<subseteq> dom (types s)"
    "s' = s\<lparr>obj_types := obj_types s', types := types s'\<rparr>" by (simp_all add: graph_inv_def)
  moreover have "below (clock s) (types s')" using order_trans [OF u(2)] i by (simp add: graph_inv_def below_def)
  ultimately show ?thesis using inv_types [OF i] by blast
qed

lemma inv_get_obj_type:
  assumes i: "graph_ok s" and r: "ubus_get_obj_type j s = Some (ty, s')"
  shows "graph_inv ty s'"
proof (cases "ubus_find_id (obj_types s) j")
  case None
  with r i show ?thesis by (auto simp: ubus_get_obj_type_def)
next
  case (Some p)
  then obtain x where x: "types s p = Some x" "ty = Some p"
      "s' = s\<lparr>types := (types s)(p \<mapsto> x\<lparr>ty_refcount := ty_refcount x + 1\<rparr>)\<rparr>"
    using r by (auto simp: ubus_get_obj_type_def upd_type_def split: bind_splits)
  have t: "type_table (obj_types s) (types s) (type_count None s)" using i by (simp add: graph_inv_def)
  have e: "(type_count None s)(p := type_count None s p + 1) = type_count (Some p) s" by (auto simp: type_count_def)
  have "type_table (obj_types s) ((types s)(p \<mapsto> x\<lparr>ty_refcount := ty_refcount x + 1\<rparr>)) (type_count (Some p) s)"
    using type_table_upd [OF t x(1), of "x\<lparr>ty_refcount := ty_refcount x + 1\<rparr>" "type_count None s p + 1"] t x(1)
    unfolding e by (auto simp: type_table_def)
  moreover have "below (clock s) ((types s)(p \<mapsto> x\<lparr>ty_refcount := ty_refcount x + 1\<rparr>))"
    using i x(1) by (auto simp: graph_inv_def below_def)
  ultimately show ?thesis unfolding x(2) using x(3) by (intro inv_types [OF i]) simp_all
qed

lemma inv_upd_methods: 
  assumes i: "graph_inv h s" and r: "upd_type ty (\<lambda>t. t\<lparr>methods := f t\<rparr>) s = Some s'"
  shows "graph_inv h s'"
proof -
  obtain x where x: "types s ty = Some x" "s' = s\<lparr>types := (types s)(ty \<mapsto> x\<lparr>methods := f x\<rparr>)\<rparr>"
    using r by (auto simp: upd_type_def split: bind_splits)
  have t: "type_table (obj_types s) (types s) (type_count h s)" using i by (simp add: graph_inv_def)
  have "0 < type_count h s ty" "ty_refcount x = int (type_count h s ty)" using t x by (simp_all add: type_table_def)
  then have "type_table (obj_types s) ((types s)(ty \<mapsto> x\<lparr>methods := f x\<rparr>)) (type_count h s)"
    using type_table_upd [OF t x(1), of "x\<lparr>methods := f x\<rparr>" "type_count h s ty"] by simp
  moreover have "below (clock s) ((types s)(ty \<mapsto> x\<lparr>methods := f x\<rparr>))" using i x(1) by (auto simp: graph_inv_def below_def)
  ultimately show ?thesis using x(2) by (intro inv_types [OF i]) simp_all
qed

lemma inv_clock: "graph_inv h s \<Longrightarrow> graph_inv h (s\<lparr>clock := clock s + 1\<rparr>)"
  by (rule keeps_inv [of s]) (simp_all add: keeps_def)

lemma inv_create_obj_method:
  "graph_inv h s \<Longrightarrow> ubus_create_obj_method E ty m p s = Some (ok, s') \<Longrightarrow> graph_inv h s'"
  by (auto simp: ubus_create_obj_method_def calloc_def split: bind_splits if_split_asm
    dest: inv_upd_methods [OF inv_clock] inv_clock)

text \<open>A property that the body of a loop over attributes preserves holds after the loop.\<close>

lemma blob_iter_do_inv:
  "(\<And>pos s x. P s \<Longrightarrow> body pos s = Some x \<Longrightarrow> (case x of Inl y \<Rightarrow> Q y | Inr y \<Rightarrow> P y)) \<Longrightarrow>
   P s \<Longrightarrow> blob_iter_do body m pos rem s = Some x \<Longrightarrow> (case x of Inl y \<Rightarrow> Q y | Inr y \<Rightarrow> P y)"
proof (induction body m pos rem s rule: blob_iter_do.induct)
  case (1 body m pos rem s)
  have step: "case y of Inl y \<Rightarrow> Q y | Inr y \<Rightarrow> P y" if "body pos s = Some y" for y
    by (rule 1(2) [OF 1(3) that])
  have rec: "case x of Inl y \<Rightarrow> Q y | Inr y \<Rightarrow> P y" if "0 < rem" "blob_pad_len m pos = Some n"
    "uint n \<le> rem \<and> 4 \<le> n" "body pos s = Some (Inr s1)"
    "blob_iter_do body m (pos + unat n) (rem - uint n) s1 = Some x" for n s1
    by (rule 1(1) [OF that(1-4) refl 1(2) _ that(5)]) (use step [OF that(4)] in simp_all)
  from 1(4) show ?case
    by (subst (asm) blob_iter_do.simps)
      (auto split: if_split_asm bind_splits sum.split_asm simp: 1(3) dest: step intro: rec)
qed

text \<open>Whatever fails in the middle of a signature, the type is released.\<close>

lemma inv_create_obj_type:
  assumes i: "graph_ok s" and r: "ubus_create_obj_type E m sig s = Some (ty, s')"
  shows "graph_inv ty s'"
proof (cases "e_alloc E (clock s)")
  case False
  with r inv_clock [OF i] show ?thesis by (auto simp: ubus_create_obj_type_def calloc_def)
next
  case True
  let ?p = "clock s"
  obtain ok j tr rs where a: "ubus_alloc_id (random s) (obj_types s) ?p 0 = Some (ok, j, tr, rs)"
    using r True by (auto simp: ubus_create_obj_type_def calloc_def split: bind_splits)
  let ?s = "s\<lparr>clock := clock s + 1, obj_types := tr, random := rs\<rparr>"
  have t: "type_table (obj_types s) (types s) (type_count None s)" and fr: "types s ?p = None"
    using i by (simp_all add: graph_inv_def below_fresh)
  have i0: "graph_inv None (s\<lparr>clock := clock s + 1, random := rs\<rparr>)"
    by (rule keeps_inv [OF _ i]) (simp add: keeps_def)
  show ?thesis
  proof (cases ok)
    case False
    have "type_table tr (types s) (type_count None s)"
      using t fr id_index_alloc [of "obj_types s" "\<lambda>q. map_option ty_id (types s q)" ?p, OF _ _ a] False
      by (auto simp: type_table_def)
    then have "graph_ok ?s" by (intro inv_types [OF i0]) (use i0 in \<open>simp_all add: graph_inv_def\<close>)
    with r a True False show ?thesis by (auto simp: ubus_create_obj_type_def calloc_def)
  next
    case ok: True
    let ?x = "\<lparr>ty_id = j, ty_refcount = 1, methods = []\<rparr>"
    let ?s1 = "?s\<lparr>types := (types s)(?p \<mapsto> ?x)\<rparr>"
    have z: "type_count None s ?p = 0" using type_count_live [OF i, of ?p] fr by simp
    then have e: "(type_count None s)(?p := 1) = type_count (Some ?p) s" by (auto simp: type_count_def fun_eq_iff)
    have "type_table tr ((types s)(?p \<mapsto> ?x)) (type_count (Some ?p) s)"
      using type_table_add [OF t fr, of "random s" j tr rs ?x] a ok e by simp
    then have i1: "graph_inv (Some ?p) ?s1"
      by (intro inv_types [OF i0]) (use i in \<open>simp_all add: graph_inv_def below_upd\<close>)
    obtain n x where x: "blob_len m sig = Some n" "blob_iter_do (\<lambda>pos s. do {
                ok \<leftarrow> blobmsg_check_attr m pos True;
                if \<not> ok then Some (Inl s)
                else do {
                  (ok, s) \<leftarrow> ubus_create_obj_method E ?p m pos s;
                  Some (if ok then Inr s else Inl s)
                }
              }) m (blob_data sig) (uint n) ?s1 = Some x"
      "case x of Inr s \<Rightarrow> ty = Some ?p \<and> s' = s | Inl s \<Rightarrow> ubus_unref_object_type ?p s = Some s' \<and> ty = None"
      using r a True ok by (auto simp: ubus_create_obj_type_def calloc_def split: bind_splits sum.split_asm)
    have "case x of Inl s \<Rightarrow> graph_inv (Some ?p) s | Inr s \<Rightarrow> graph_inv (Some ?p) s"
      by (rule blob_iter_do_inv [where P = "graph_inv (Some ?p)", OF _ i1 x(2)])
        (auto split: bind_splits if_split_asm dest: inv_create_obj_method)
    with x(3) show ?thesis by (auto split: sum.split_asm dest: inv_unref)
  qed
qed

section \<open>Objects\<close>

lemma inv_create_internal:
  assumes i: "graph_inv h s" and h: "ty \<noteq> None \<Longrightarrow> ty = h" and r: "ubusd_create_object_internal E ty j s = Some (obj, s')"
  shows "graph_inv h s' \<and> (\<forall>p. obj = Some p \<longrightarrow> objs s' p \<bind> oclient = None \<and> objs s' p \<bind> path_key = None \<and> objs s' p \<noteq> None)"
proof (cases "e_alloc E (clock s)")
  case False
  with r inv_clock [OF i] show ?thesis by (auto simp: ubusd_create_object_internal_def calloc_def)
next
  case True
  let ?p = "clock s"
  obtain ok k tr rs where a: "ubus_alloc_id (random s) (objects s) ?p j = Some (ok, k, tr, rs)"
    using r True by (auto simp: ubusd_create_object_internal_def calloc_def split: bind_splits)
  have fr: "objs s ?p = None" and ix: "id_index (objects s) (\<lambda>p. map_option obj_id (objs s p))"
    using i by (simp_all add: graph_inv_def below_fresh)
  note ix' = id_index_alloc [OF ix _ a, simplified, OF fr]
  show ?thesis
  proof (cases ok)
    case False
    have "graph_inv h (s\<lparr>clock := clock s + 1, objects := tr, random := rs\<rparr>)"
      using inv_clock [OF i] ix' False by (simp add: graph_inv_def)
    with r a True False show ?thesis by (auto simp: ubusd_create_object_internal_def calloc_def)
  next
    case ok: True
    let ?x = "\<lparr>obj_id = k, olist = None, events = [], subscribers = [], target_list = [], otype = ty,
              path_key = None, oclient = None, recv_msg = False, event_seen = 0, invoke_seq = 0\<rparr>"
    obtain tys where tys: "s' = s\<lparr>clock := clock s + 1, objects := tr, random := rs, objs := (objs s)(?p \<mapsto> ?x), types := tys\<rparr>"
      "case ty of None \<Rightarrow> tys = types s | Some q \<Rightarrow> \<exists>x. types s q = Some x \<and> tys = (types s)(q \<mapsto> x\<lparr>ty_refcount := ty_refcount x + 1\<rparr>)"
      "obj = Some ?p"
    proof (cases ty)
      case None
      then have "obj = Some ?p" "s' = s\<lparr>clock := clock s + 1, objects := tr, random := rs, objs := (objs s)(?p \<mapsto> ?x)\<rparr>"
        using r a True ok by (auto simp: ubusd_create_object_internal_def calloc_def Let_def)
      moreover from this(2) have "s' = s\<lparr>clock := clock s + 1, objects := tr, random := rs, objs := (objs s)(?p \<mapsto> ?x), types := types s\<rparr>"
        by simp
      ultimately show thesis using None by (intro that [of "types s"]) simp_all
    next
      case (Some q)
      with r a True ok that show thesis
        by (auto simp: ubusd_create_object_internal_def calloc_def upd_type_def Let_def split: bind_splits)
    qed
    have t: "type_table (obj_types s) (types s) (type_count h s)" and fin: "finite (dom (\<lambda>p. objs s p \<bind> otype))"
      using i by (auto simp: graph_inv_def below_finite)
    have v: "(\<lambda>p. objs s' p \<bind> otype) = (\<lambda>p. objs s p \<bind> otype)(?p := ty)" unfolding tys(1) by auto
    have t': "type_table (obj_types s) tys (type_count h s') \<and> below (Suc (clock s)) tys"
    proof (cases ty)
      case None
      with v fr have "(\<lambda>p. objs s' p \<bind> otype) = (\<lambda>p. objs s p \<bind> otype)" by (auto simp: fun_eq_iff)
      then have "type_count h s' = type_count h s" unfolding type_count_def by simp
      with None tys(2) t i show ?thesis by (simp add: graph_inv_def below_upd)
    next
      case (Some q)
      then obtain x where x: "types s q = Some x" "tys = (types s)(q \<mapsto> x\<lparr>ty_refcount := ty_refcount x + 1\<rparr>)" using tys(2) by auto
      have "refs (\<lambda>p. objs s' p \<bind> otype) = (refs (\<lambda>p. objs s p \<bind> otype))(q := refs (\<lambda>p. objs s p \<bind> otype) q + 1)"
        unfolding v Some using fin fr by (intro refs_add) simp_all
      then have c: "type_count h s' = (type_count h s)(q := type_count h s q + 1)" by (auto simp: type_count_def fun_eq_iff)
      have "ty_refcount x = int (type_count h s q)" using t x by (simp add: type_table_def)
      then have "type_table (obj_types s) tys (type_count h s')" unfolding c x(2) by (intro type_table_upd [OF t x(1)]) auto
      moreover have "below (Suc (clock s)) tys" using i x by (auto simp: graph_inv_def below_def)
      ultimately show ?thesis by simp
    qed
    have w: "(\<lambda>p. map_option obj_id (objs s' p)) = (\<lambda>p. map_option obj_id (objs s p))(?p \<mapsto> k)"
      "(\<lambda>p. map_option subscribers (objs s' p)) = (\<lambda>p. map_option subscribers (objs s p))(?p \<mapsto> [])"
      "(\<lambda>p. map_option target_list (objs s' p)) = (\<lambda>p. map_option target_list (objs s p))(?p \<mapsto> [])"
      "(\<lambda>p. map_option events (objs s' p)) = (\<lambda>p. map_option events (objs s p))(?p \<mapsto> [])"
      "(\<lambda>p. objs s' p \<bind> path_key) = (\<lambda>p. objs s p \<bind> path_key)" "(\<lambda>p. objs s' p \<bind> oclient) = (\<lambda>p. objs s p \<bind> oclient)"
      using fr by (auto simp: tys(1) fun_eq_iff)
    have "linked ((\<lambda>p. map_option subscribers (objs s p))(?p \<mapsto> [])) (\<lambda>p. map_option target (subs s p))"
      "linked ((\<lambda>p. map_option target_list (objs s p))(?p \<mapsto> [])) (\<lambda>p. map_option subscriber (subs s p))"
      "linked ((\<lambda>p. map_option events (objs s p))(?p \<mapsto> [])) (\<lambda>p. map_option ev_obj (evs s p))"
      using i fr by (auto simp: graph_inv_def intro!: linked_new)
    moreover have "\<forall>p x. objs s' p = Some x \<longrightarrow> olist x = oclient x" "below (Suc (clock s)) (objs s')"
      using i by (auto simp: graph_inv_def tys(1) below_def)
    moreover have "id_index tr ((\<lambda>p. map_option obj_id (objs s p))(?p \<mapsto> k))" using ix' ok by simp
    ultimately have "graph_inv h s'" using i t' tys(1) unfolding graph_inv_def w by (simp add: below_upd)
    then show ?thesis using tys by simp
  qed
qed

text \<open>The lists of an object are empty by the time it is freed.\<close>

definition detached :: "nat \<Rightarrow> ubusd \<Rightarrow> bool" where
  "detached obj s \<longleftrightarrow> map_option subscribers (objs s obj) = Some [] \<and> map_option target_list (objs s obj) = Some [] \<and>
     map_option events (objs s obj) = Some []"

lemma keeps_detached: "keeps s s' \<Longrightarrow> detached obj s \<Longrightarrow> detached obj s'"
  unfolding detached_def by (simp only: keeps_views)

lemma unsubscribe_lists:
  assumes "ubus_unsubscribe E sb s = Some s'"
  shows "map_option target_list (objs s' p) = map_option (removeAll sb) (map_option target_list (objs s p))"
    "map_option subscribers (objs s' p) = map_option (removeAll sb) (map_option subscribers (objs s p))"
proof -
  let ?s = "(unlink_sub sb s)\<lparr>subs := (subs (unlink_sub sb s))(sb := None)\<rparr>"
  have k: "keeps ?s s'" using assms
    by (auto simp: ubus_unsubscribe_def Let_def split: bind_splits if_splits dest!: kept_notify_subscription)
  show "map_option target_list (objs s' p) = map_option (removeAll sb) (map_option target_list (objs s p))"
    "map_option subscribers (objs s' p) = map_option (removeAll sb) (map_option subscribers (objs s p))"
    unfolding keeps_views [OF k] by (cases "objs s p"; simp add: unlink_sub_def)+
qed

lemma notify_unsubscribe_lists:
  assumes "ubus_notify_unsubscribe E sb s = Some s'"
  shows "map_option target_list (objs s' p) = map_option (removeAll sb) (map_option target_list (objs s p))"
    "map_option subscribers (objs s' p) = map_option (removeAll sb) (map_option subscribers (objs s p))"
proof -
  from assms have "\<exists>s1. ubus_unsubscribe E sb s1 = Some s' \<and> keeps s s1"
    by (auto simp: ubus_notify_unsubscribe_def split: bind_splits option.splits dest!: kept_upd_obj kept_frames)
      (rule exI, rule conjI, assumption, simp add: keeps_def)+
  then show "map_option target_list (objs s' p) = map_option (removeAll sb) (map_option target_list (objs s p))"
    "map_option subscribers (objs s' p) = map_option (removeAll sb) (map_option subscribers (objs s p))"
    using unsubscribe_lists keeps_views(2,3) by metis+
qed

lemma for_each_safe_inv:
  assumes "\<And>x s s'. P s \<Longrightarrow> f x s = Some s' \<Longrightarrow> P s'"
  shows "P s \<Longrightarrow> for_each_safe f xs s = Some s' \<Longrightarrow> P s'"
  by (induction xs arbitrary: s) (auto split: bind_splits intro: assms)

lemma for_each_safe_list:
  assumes "\<And>x s s'. f x s = Some s' \<Longrightarrow> V s' = map_option (removeAll x) (V s)"
  shows "for_each_safe f xs s = Some s' \<Longrightarrow> V s' = map_option (filter (\<lambda>x. x \<notin> set xs)) (V s)"
proof (induction xs arbitrary: s)
  case (Cons x xs)
  then obtain s1 where s1: "f x s = Some s1" "for_each_safe f xs s1 = Some s'" by (auto split: bind_splits)
  have "filter (\<lambda>y. y \<notin> set xs) (removeAll x ys) = filter (\<lambda>y. y \<notin> set (x # xs)) ys" for ys
    by (induction ys) auto
  with Cons.IH [OF s1(2)] assms [OF s1(1)] show ?case by (cases "V s") simp_all
qed (cases "V s'"; simp)

lemma event_cleanup_lists:
  "ubusd_event_cleanup_object obj s = Some s' \<Longrightarrow> map_option events (objs s' obj) = Some [] \<and>
     map_option subscribers (objs s' p) = map_option subscribers (objs s p) \<and>
     map_option target_list (objs s' p) = map_option target_list (objs s p)"
proof (induction obj s rule: ubusd_event_cleanup_object.induct)
  case (1 obj s)
  obtain x where x: "objs s obj = Some x" using 1(2)
    by (subst (asm) ubusd_event_cleanup_object.simps) (auto split: bind_splits)
  show ?case
  proof (cases "events x")
    case Nil
    with 1(2) x show ?thesis by (subst (asm) ubusd_event_cleanup_object.simps) auto
  next
    case (Cons ev es)
    with 1(2) x obtain s1 where s1: "ubusd_delete_event_source ev s = Some s1" "ubusd_event_cleanup_object obj s1 = Some s'"
      by (subst (asm) ubusd_event_cleanup_object.simps) (auto split: bind_splits)
    from delete_event_source_objs [OF s1(1)]
    have "map_option subscribers (objs s1 p) = map_option subscribers (objs s p)"
      "map_option target_list (objs s1 p) = map_option target_list (objs s p)"
      by (cases "objs s p"; simp)+
    with 1(1) [OF x Cons s1] show ?thesis by simp
  qed
qed

text \<open>The last part of \<open>ubusd_free_object\<close>, on an object that nothing is attached to any more.\<close>

lemma free_path_effect:
  assumes "free_path E obj s = Some s'"
  obtains s0 x t where "keeps s s0" "objs s0 obj = Some x" "s' = s0\<lparr>path := t\<rparr>"
    "case path_key x of None \<Rightarrow> t = path s0 | Some key \<Rightarrow> avl_delete (path s0) (key, obj) = Some t"
proof -
  obtain y where y: "objs s obj = Some y" using assms by (auto simp: free_path_def split: bind_splits)
  show thesis
  proof (cases "path_key y")
    case None
    with assms y have "s' = s" by (simp add: free_path_def)
    with y None show thesis by (intro that [of s y "path s"]) simp_all
  next
    case (Some key)
    with assms y obtain s0 t where t: "ubusd_send_obj_event E obj False s = Some s0"
      "avl_delete (path s0) (key, obj) = Some t" "s' = s0\<lparr>path := t\<rparr>"
      by (auto simp: free_path_def split: bind_splits)
    from kept_obj_event [OF t(1)] have k: "keeps s s0" .
    from keeps_obj [OF this y] obtain x where x: "objs s0 obj = Some x" "gobj x = gobj y" .
    then have "path_key x = Some key" using Some by (metis gobj_fields(7))
    with k x(1) t that show thesis by simp
  qed
qed

definition release :: "nat \<Rightarrow> ubusd \<Rightarrow> ubusd option" where
  "release obj s = do {
     x \<leftarrow> objs s obj;
     let s = (if olist x \<noteq> None then unlink_obj obj s else s);
     tr \<leftarrow> ubus_free_id (objects s) (obj_id x, obj);
     let s = s\<lparr>objects := tr\<rparr>;
     s \<leftarrow> (case otype x of None \<Rightarrow> Some s | Some ty \<Rightarrow> ubus_unref_object_type ty s);
     Some (s\<lparr>objs := (objs s)(obj := None)\<rparr>)
   }"

lemma release_types:
  assumes t: "type_table (obj_types s) (types s) (type_count h s)" and fin: "finite (dom (\<lambda>p. objs s p \<bind> otype))"
    and x: "objs s obj = Some x" and r: "(case otype x of None \<Rightarrow> Some s | Some ty \<Rightarrow> ubus_unref_object_type ty s) = Some s1"
  shows "type_table (obj_types s1) (types s1) (type_count h (s1\<lparr>objs := (objs s1)(obj := None)\<rparr>)) \<and>
    dom (types s1) \<subseteq> dom (types s) \<and> s1 = s\<lparr>obj_types := obj_types s1, types := types s1\<rparr>"
proof (cases "otype x")
  case None
  have "refs ((\<lambda>p. objs s p \<bind> otype)(obj := None)) = refs (\<lambda>p. objs s p \<bind> otype)"
    by (rule refs_none) (simp add: x None)
  then have "type_count h (s\<lparr>objs := (objs s)(obj := None)\<rparr>) = type_count h s"
    by (intro ext) (simp add: type_count_def map_option_upd del: fun_upd_apply)
  with r None t show ?thesis by simp
next
  case (Some ty)
  with r have u: "ubus_unref_object_type ty s = Some s1" by simp
  note ut = unref_type [OF t u]
  have "refs (\<lambda>p. ((objs s)(obj := None)) p \<bind> otype) = (refs (\<lambda>p. objs s p \<bind> otype))(ty := refs (\<lambda>p. objs s p \<bind> otype) ty - 1)"
    unfolding map_option_upd by (rule refs_del [OF fin]) (simp add: x Some)
  moreover have "0 < refs (\<lambda>p. objs s p \<bind> otype) ty" by (rule refs_pos [OF fin, of obj]) (simp add: x Some)
  moreover have "objs s1 = objs s" by (rule unref_objs [OF u])
  ultimately have "type_count h (s1\<lparr>objs := (objs s1)(obj := None)\<rparr>) = (type_count h s)(ty := type_count h s ty - 1)"
    by (intro ext) (simp add: type_count_def)
  with ut show ?thesis by simp
qed

lemma inv_release:
  assumes i: "graph_inv h s" and d: "detached obj s" and x: "objs s obj = Some x"
    and p: "case path_key x of None \<Rightarrow> t = path s | Some key \<Rightarrow> avl_delete (path s) (key, obj) = Some t"
    and r: "release obj (s\<lparr>path := t\<rparr>) = Some s'"
  shows "graph_inv h s'"
proof -
  let ?s = "s\<lparr>path := t\<rparr>"
  define s1 where "s1 = (if olist x \<noteq> None then unlink_obj obj ?s else ?s)"
  have f: "objs s1 = objs s" "types s1 = types s" "obj_types s1 = obj_types s" "type_count h s1 = type_count h s"
    "subs s1 = subs s" "evs s1 = evs s" "clients s1 = clients s" "objects s1 = objects s" "path s1 = t"
    "patterns s1 = patterns s" "clock s1 = clock s"
    by (auto simp: s1_def unlink_obj_def)
  obtain tr s2 where tr: "ubus_free_id (objects s) (obj_id x, obj) = Some tr"
    and s2: "(case otype x of None \<Rightarrow> Some (s1\<lparr>objects := tr\<rparr>) | Some ty \<Rightarrow> ubus_unref_object_type ty (s1\<lparr>objects := tr\<rparr>)) = Some s2"
      "s' = s2\<lparr>objs := (objs s2)(obj := None)\<rparr>"
  proof -
    have "release obj ?s = do {
        tr \<leftarrow> ubus_free_id (objects s1) (obj_id x, obj);
        s2 \<leftarrow> (case otype x of None \<Rightarrow> Some (s1\<lparr>objects := tr\<rparr>) | Some ty \<Rightarrow> ubus_unref_object_type ty (s1\<lparr>objects := tr\<rparr>));
        Some (s2\<lparr>objs := (objs s2)(obj := None)\<rparr>)
      }" unfolding release_def s1_def Let_def using x by simp
    with r f(8) that show thesis by (auto simp: bind_eq_Some_conv)
  qed
  have "finite (dom (\<lambda>p. objs s p \<bind> otype))" by (rule below_finite [of "clock s"]) (use i in \<open>simp add: graph_inv_def\<close>)
  then have "type_table (obj_types s2) (types s2) (type_count h s') \<and> dom (types s2) \<subseteq> dom (types s) \<and>
      s2 = s1\<lparr>objects := tr, obj_types := obj_types s2, types := types s2\<rparr>"
    using release_types [of "s1\<lparr>objects := tr\<rparr>" h obj x s2] s2(1) i x f(1-4) unfolding s2(2)
    by (simp add: graph_inv_def)
  then have ty: "type_table (obj_types s2) (types s2) (type_count h s')" "dom (types s2) \<subseteq> dom (types s)"
    and e2: "s2 = s1\<lparr>objects := tr, obj_types := obj_types s2, types := types s2\<rparr>" by blast+
  have o: "objs s2 = objs s" by (subst e2) (simp add: f)
  have g: "objs s' = (objs s)(obj := None)" "subs s' = subs s" "evs s' = evs s" "clients s' = clients s" "objects s' = tr"
    "path s' = t" "patterns s' = patterns s" "clock s' = clock s" "cls s' = cls s1" "types s' = types s2" "obj_types s' = obj_types s2"
    unfolding s2(2) by (simp_all add: o) (subst e2, simp add: f)+
  have w: "(\<lambda>p. map_option cl_objects (cls s1 p)) = (if olist x = None then (\<lambda>p. map_option cl_objects (cls s p))
      else (\<lambda>p. map_option (removeAll obj) (map_option cl_objects (cls s p))))"
    "(\<lambda>p. map_option cl_id (cls s1 p)) = (\<lambda>p. map_option cl_id (cls s p))"
    by (auto simp: s1_def unlink_obj_def fun_eq_iff option.map_comp comp_def)
  have "id_index tr ((\<lambda>p. map_option obj_id (objs s p))(obj := None))"
    using id_index_free [OF _ _ tr] i x by (simp add: graph_inv_def)
  moreover have "index avl_strcmp t ((\<lambda>p. objs s p \<bind> path_key)(obj := None)) \<and> \<not> allow_dups t"
    using p i x strcmp_order.index_delete [of "path s" "\<lambda>p. objs s p \<bind> path_key" obj]
    by (auto simp: graph_inv_def fun_upd_idem split: option.splits)
  moreover have "linked ((\<lambda>p. map_option subscribers (objs s p))(obj := None)) (\<lambda>p. map_option target (subs s p))"
    "linked ((\<lambda>p. map_option target_list (objs s p))(obj := None)) (\<lambda>p. map_option subscriber (subs s p))"
    "linked ((\<lambda>p. map_option events (objs s p))(obj := None)) (\<lambda>p. map_option ev_obj (evs s p))"
    using i d by (auto simp: graph_inv_def detached_def intro!: linked_drop)
  moreover have "linked (\<lambda>p. map_option cl_objects (cls s1 p)) ((\<lambda>p. objs s p \<bind> oclient)(obj := None))"
    unfolding w using i x linked_del [of "\<lambda>p. map_option cl_objects (cls s p)" "\<lambda>p. objs s p \<bind> oclient" obj]
    by (auto simp: graph_inv_def fun_upd_idem)
  moreover have "below (clock s) (types s2)" using order_trans [OF ty(2)] i by (simp add: graph_inv_def below_def)
  moreover have "below (clock s) (cls s1)" using i by (auto simp: s1_def unlink_obj_def graph_inv_def below_def)
  ultimately show ?thesis using i ty(1) unfolding graph_inv_def g w(2) map_option_upd by (auto simp: below_upd)
qed

lemma inv_free_object:
  assumes i: "graph_inv h s" and r: "ubusd_free_object E obj s = Some s'"
  shows "graph_inv h s'"
proof -
  obtain x s1 y s2 s3 s4 where x: "objs s obj = Some x" "for_each_safe (ubus_unsubscribe E) (target_list x) s = Some s1"
      "objs s1 obj = Some y" "for_each_safe (ubus_notify_unsubscribe E) (subscribers y) s1 = Some s2"
      "ubusd_event_cleanup_object obj s2 = Some s3" "free_path E obj s3 = Some s4" "release obj s4 = Some s'"
    using r by (auto simp: ubusd_free_object_def release_def split: bind_splits)
  have i1: "graph_inv h s1" by (rule for_each_safe_inv [where P = "graph_inv h", OF _ i x(2)]) (rule inv_unsubscribe)
  have i2: "graph_inv h s2" by (rule for_each_safe_inv [where P = "graph_inv h", OF _ i1 x(4)]) (rule inv_notify_unsubscribe)
  have i3: "graph_inv h s3" by (rule inv_event_cleanup [OF x(5) i2])
  have "map_option target_list (objs s1 obj) = Some []"
    using for_each_safe_list [where V = "\<lambda>s. map_option target_list (objs s obj)", OF unsubscribe_lists(1) x(2)] x(1)
    by simp
  then have "map_option target_list (objs s2 obj) = Some []" "map_option subscribers (objs s2 obj) = Some []"
    using for_each_safe_list [where V = "\<lambda>s. map_option target_list (objs s obj)", OF notify_unsubscribe_lists(1) x(4)]
      for_each_safe_list [where V = "\<lambda>s. map_option subscribers (objs s obj)", OF notify_unsubscribe_lists(2) x(4)] x(3)
    by auto
  with event_cleanup_lists [OF x(5), of obj] have d: "detached obj s3" by (simp add: detached_def)
  obtain s0 z t where z: "keeps s3 s0" "objs s0 obj = Some z" "s4 = s0\<lparr>path := t\<rparr>"
      "case path_key z of None \<Rightarrow> t = path s0 | Some key \<Rightarrow> avl_delete (path s0) (key, obj) = Some t"
    using free_path_effect [OF x(6)] .
  from inv_release [OF keeps_inv [OF z(1) i3] keeps_detached [OF z(1) d] z(2,4)] x(7) z(3) show ?thesis by simp
qed

lemma inv_set_path:
  assumes i: "graph_inv h s" and n: "objs s obj \<bind> path_key = None" and r: "set_path E obj key s = Some (ok, s')"
  shows "graph_inv h s' \<and> (\<forall>p. objs s' p \<bind> oclient = objs s p \<bind> oclient)"
proof (cases "e_alloc E (clock s)")
  case False
  with r inv_clock [OF i] show ?thesis by (auto simp: set_path_def calloc_def)
next
  case True
  obtain rc t where t: "avl_insert avl_strcmp (path s) (key, obj) = Some (rc, t)"
    using r True by (auto simp: set_path_def calloc_def split: bind_splits)
  let ?s = "s\<lparr>clock := clock s + 1, path := t\<rparr>"
  have ix: "allow_dups t = allow_dups (path s)"
    "if rc = 0 then index avl_strcmp t ((\<lambda>p. objs s p \<bind> path_key)(obj \<mapsto> key)) else index avl_strcmp t (\<lambda>p. objs s p \<bind> path_key)"
    using strcmp_order.index_insert [of "path s" "\<lambda>p. objs s p \<bind> path_key" obj key] n t i by (auto simp: graph_inv_def)
  show ?thesis
  proof (cases "rc = 0")
    case False
    then have "graph_inv h ?s" using inv_clock [OF i] ix by (simp add: graph_inv_def)
    with r t True False show ?thesis by (auto simp: set_path_def calloc_def Let_def)
  next
    case rc: True
    then obtain x where x: "objs s obj = Some x" using r t True
      by (auto simp: set_path_def calloc_def upd_obj_def Let_def split: bind_splits)
    define s1 where "s1 = ?s\<lparr>objs := (objs s)(obj \<mapsto> x\<lparr>path_key := Some key\<rparr>)\<rparr>"
    have k: "keeps s1 s'" using r t True rc x
      by (auto simp: set_path_def calloc_def upd_obj_def Let_def s1_def split: bind_splits dest: kept_obj_event)
    have v: "(\<lambda>p. map_option obj_id (objs s1 p)) = (\<lambda>p. map_option obj_id (objs s p))"
      "(\<lambda>p. map_option subscribers (objs s1 p)) = (\<lambda>p. map_option subscribers (objs s p))"
      "(\<lambda>p. map_option target_list (objs s1 p)) = (\<lambda>p. map_option target_list (objs s p))"
      "(\<lambda>p. map_option events (objs s1 p)) = (\<lambda>p. map_option events (objs s p))"
      "(\<lambda>p. objs s1 p \<bind> otype) = (\<lambda>p. objs s p \<bind> otype)" "(\<lambda>p. objs s1 p \<bind> oclient) = (\<lambda>p. objs s p \<bind> oclient)"
      "(\<lambda>p. objs s1 p \<bind> path_key) = (\<lambda>p. objs s p \<bind> path_key)(obj \<mapsto> key)"
      using x by (auto simp: s1_def fun_eq_iff)
    have c: "type_count h s1 = type_count h s" unfolding type_count_def v ..
    have "\<forall>p x. objs s1 p = Some x \<longrightarrow> olist x = oclient x" "below (Suc (clock s)) (objs s1)"
      using i x by (auto simp: graph_inv_def s1_def below_def)
    then have "graph_inv h s1" using i ix rc unfolding graph_inv_def v c by (simp add: s1_def below_upd)
    from keeps_inv [OF k this] show ?thesis unfolding keeps_views(8) [OF k] using fun_cong [OF v(6)] by simp
  qed
qed

lemma inv_adopt:
  assumes i: "graph_ok s" and n: "objs s obj \<bind> oclient = None"
    and r: "upd_obj obj (\<lambda>x. x\<lparr>oclient := Some cl, olist := Some cl\<rparr>) s = Some s1"
      "upd_cl cl (\<lambda>c. c\<lparr>cl_objects := obj # cl_objects c\<rparr>) s1 = Some s'"
  shows "graph_ok s'"
proof -
  obtain x c where x: "objs s obj = Some x" "cls s cl = Some c" and s': "s' = s\<lparr>objs := (objs s)(obj \<mapsto> x\<lparr>oclient := Some cl, olist := Some cl\<rparr>),
      cls := (cls s)(cl \<mapsto> c\<lparr>cl_objects := obj # cl_objects c\<rparr>)\<rparr>"
    using r by (auto simp: upd_obj_def upd_cl_def split: bind_splits)
  have v: "(\<lambda>p. map_option obj_id (objs s' p)) = (\<lambda>p. map_option obj_id (objs s p))"
    "(\<lambda>p. map_option subscribers (objs s' p)) = (\<lambda>p. map_option subscribers (objs s p))"
    "(\<lambda>p. map_option target_list (objs s' p)) = (\<lambda>p. map_option target_list (objs s p))"
    "(\<lambda>p. map_option events (objs s' p)) = (\<lambda>p. map_option events (objs s p))"
    "(\<lambda>p. objs s' p \<bind> otype) = (\<lambda>p. objs s p \<bind> otype)" "(\<lambda>p. objs s' p \<bind> path_key) = (\<lambda>p. objs s p \<bind> path_key)"
    "(\<lambda>p. objs s' p \<bind> oclient) = (\<lambda>p. objs s p \<bind> oclient)(obj \<mapsto> cl)"
    "(\<lambda>p. map_option cl_id (cls s' p)) = (\<lambda>p. map_option cl_id (cls s p))"
    "(\<lambda>p. map_option cl_objects (cls s' p)) = (\<lambda>p. map_option cl_objects (cls s p))(cl \<mapsto> obj # cl_objects c)"
    using x by (auto simp: s' fun_eq_iff)
  have c: "type_count None s' = type_count None s" unfolding type_count_def v ..
  have "linked ((\<lambda>p. map_option cl_objects (cls s p))(cl \<mapsto> obj # cl_objects c)) ((\<lambda>p. objs s p \<bind> oclient)(obj \<mapsto> cl))"
    by (rule linked_add) (use i n x in \<open>simp_all add: graph_inv_def\<close>)
  moreover have "\<forall>p x. objs s' p = Some x \<longrightarrow> olist x = oclient x" "below (clock s) (objs s')" "below (clock s) (cls s')"
    using i x by (auto simp: graph_inv_def s' below_def)
  ultimately show ?thesis using i unfolding graph_inv_def v c by (simp add: s')
qed

lemma inv_create_object:
  assumes i: "graph_ok s" and r: "ubusd_create_object E cl attr s = Some (obj, s')"
  shows "graph_ok s'"
proof -
  obtain ty s1 where ty: "(case attr_at attr UBUS_ATTR_OBJTYPE of
         Some p \<Rightarrow> blob_get_u32 (fst attr) p \<bind> (\<lambda>i. ubus_get_obj_type i s)
       | None \<Rightarrow> (case attr_at attr UBUS_ATTR_SIGNATURE of
             Some p \<Rightarrow> ubus_create_obj_type E (fst attr) p s
           | None \<Rightarrow> Some (None, s))) = Some (ty, s1)"
    using r by (simp add: ubusd_create_object_def split: bind_splits) (metis prod.exhaust)
  with i have i1: "graph_inv ty s1"
    by (auto split: option.split_asm bind_splits dest: inv_get_obj_type inv_create_obj_type)
  obtain ob s2 s3 where ob: "ubusd_create_object_internal E ty 0 s1 = Some (ob, s2)"
      "(case ty of None \<Rightarrow> Some s2 | Some ty \<Rightarrow> ubus_unref_object_type ty s2) = Some s3"
    using r ty unfolding ubusd_create_object_def by (auto split: bind_splits)
  note c = inv_create_internal [OF i1 refl ob(1)]
  have i3: "graph_ok s3" using c ob(2) by (auto split: option.split_asm dest: inv_unref)
  have o: "objs s3 = objs s2" using ob(2) by (auto split: option.split_asm dest: unref_objs)
  show ?thesis
  proof (cases ob)
    case None
    with r ty ob i3 show ?thesis unfolding ubusd_create_object_def by auto
  next
    case (Some p)
    with c o have n: "objs s3 p \<bind> oclient = None" "objs s3 p \<bind> path_key = None" by auto
    obtain ok s4 where s4: "(case attr_at attr UBUS_ATTR_OBJPATH of
             None \<Rightarrow> Some (True, s3)
           | Some q \<Rightarrow> blob_get_string (fst attr) q \<bind> (\<lambda>key. set_path E p key s3)) = Some (ok, s4)"
      using r ty ob Some unfolding ubusd_create_object_def by (auto split: bind_splits option.split_asm)
    have i4: "graph_ok s4" "objs s4 p \<bind> oclient = None"
    proof (atomize (full), cases "attr_at attr UBUS_ATTR_OBJPATH")
      case None
      with s4 i3 n show "graph_ok s4 \<and> objs s4 p \<bind> oclient = None" by simp
    next
      case (Some q)
      with s4 obtain key where "set_path E p key s3 = Some (ok, s4)" by (auto simp: bind_eq_Some_conv)
      from inv_set_path [OF i3 n(2) this] n(1) show "graph_ok s4 \<and> objs s4 p \<bind> oclient = None" by simp
    qed
    from r ty ob Some s4 show ?thesis unfolding ubusd_create_object_def
      by (auto split: bind_splits if_split_asm dest: inv_free_object [OF i4(1)] inv_adopt [OF i4])
  qed
qed

end
