(* ===== verification/Ubusd_Run.thy ===== *)
theory Ubusd_Run
  imports Ubusd_Inv
begin

text \<open>
  Runs of the daemon. The daemon starts with its constructors, and then its event loop calls \<open>server_cb\<close>
  for a connection and \<open>client_cb\<close> for a client, in any order and with any input: the step relation
  \<open>ubusd_step\<close>. Every reachable state satisfies the invariant of the objects.
\<close>

section \<open>Handlers\<close>

lemma kept_forward_invoke [kept]: "ubusd_forward_invoke E obj method ub m d s = Some s' \<Longrightarrow> keeps s s'"
  by (auto simp: ubusd_forward_invoke_def keeps_def split: bind_splits option.splits dest!: kept_frames)

lemma kept_add_methods [kept]: "add_methods E ms s = Some s' \<Longrightarrow> keeps s s'"
proof (induction ms arbitrary: s)
  case (Cons m ms)
  then show ?case by (auto split: bind_splits dest!: kept_frames intro: keeps_trans)
qed simp

lemma kept_send_obj [kept]: "ubusd_send_obj E cl ub obj s = Some s' \<Longrightarrow> keeps s s'"
  by (auto simp: ubusd_send_obj_def keeps_def split: bind_splits option.splits dest!: kept_frames kept_add_methods)

lemma kept_send_objs [kept]: "send_objs E cl ub os s = Some s' \<Longrightarrow> keeps s s'"
  by (induction os arbitrary: s) (auto split: bind_splits dest: kept_send_obj intro: keeps_trans)

lemma kept_lookup_loop [kept]: "lookup_loop E cl ub p n es f s = Some (r, s') \<Longrightarrow> keeps s s'"
proof (induction es arbitrary: f s)
  case (Cons e es)
  then show ?case by (cases e) (auto split: bind_splits if_splits dest!: kept_send_obj intro: keeps_trans)
qed simp

lemma kept_put_subscribers [kept]: "put_subscribers E sbs s = Some s' \<Longrightarrow> keeps s s'"
  by (induction sbs arbitrary: s) (auto split: bind_splits dest!: kept_frames intro: keeps_trans)

lemma kept_notify_subscribers [kept]: "notify_subscribers E nr method ub m d sbs s = Some s' \<Longrightarrow> keeps s s'"
proof (induction sbs arbitrary: s nr)
  case (Cons sb sbs)
  from Cons.prems show ?case
    by (auto simp: keeps_def split: bind_splits if_splits dest!: kept_frames kept_forward_invoke Cons.IH)
qed simp

lemma kept_set_peer [kept]: "set_peer ub p s = Some s' \<Longrightarrow> keeps s s'"
  unfolding set_peer_def by (rule kept_frames)

lemma kept_lookup [kept]: "ubusd_handle_lookup E cl ub attr s = Some (rc, s') \<Longrightarrow> keeps s s'"
  by (auto simp: ubusd_handle_lookup_def keeps_def Let_def split: bind_splits option.splits if_splits
    dest!: kept_frames kept_send_objs kept_send_obj kept_lookup_loop)

lemma kept_notify [kept]: "ubusd_handle_notify E cl ub attr s = Some (rc, s') \<Longrightarrow> keeps s s'"
  by (auto simp: ubusd_handle_notify_def keeps_def split: bind_splits option.splits if_splits
    dest!: kept_frames kept_put_subscribers kept_notify_subscribers kept_set_peer)

lemma kept_response [kept]: "ubusd_handle_response E cl ub attr s = Some (rc, s') \<Longrightarrow> keeps s s'"
  by (auto simp: ubusd_handle_response_def keeps_def split: bind_splits option.splits if_splits prod.splits
    dest!: kept_frames kept_set_peer)

lemma kept_pong [kept]: "ubusd_send_pong E cl ub attr s = Some (rc, s') \<Longrightarrow> keeps s s'"
  by (auto simp: ubusd_send_pong_def keeps_def split: bind_splits dest!: kept_frames)

lemma kept_status [kept]: "send_status E cl ret s = Some s' \<Longrightarrow> keeps s s'"
  by (auto simp: send_status_def keeps_def split: bind_splits dest!: kept_frames)

lemma inv_invoke:
  assumes i: "graph_inv h s" and r: "ubusd_handle_invoke E cl ub attr s = Some (rc, s')"
  shows "graph_inv h s'"
proof -
  from r consider "keeps s s'" | m d where "ubusd_event_recv E cl m ub d s = Some (rc, s')"
    by (auto simp: ubusd_handle_invoke_def keeps_def split: bind_splits option.splits if_split_asm
      dest!: kept_frames kept_set_peer kept_forward_invoke)
  then show ?thesis by cases (use i in \<open>auto intro: keeps_inv inv_event_recv\<close>)
qed

lemma inv_remove_object:
  assumes i: "graph_inv h s" and r: "ubusd_handle_remove_object E cl ub attr s = Some (rc, s')"
  shows "graph_inv h s'"
proof -
  from r consider "s' = s" | obj s1 s2 where "ubusd_free_object E obj s1 = Some s2" "keeps s s1" "keeps s2 s'"
    by (auto simp: ubusd_handle_remove_object_def keeps_def split: bind_splits option.splits if_split_asm
      dest!: kept_frames)
  then show ?thesis by cases (use i keeps_inv inv_free_object in blast)+
qed

lemma inv_add_object:
  assumes i: "graph_ok s" and r: "ubusd_handle_add_object E cl ub attr s = Some (rc, s')"
  shows "graph_ok s'"
proof -
  from r obtain obj s1 where "ubusd_create_object E cl attr s = Some (obj, s1)" "keeps s1 s'"
    by (auto simp: ubusd_handle_add_object_def keeps_def split: bind_splits option.splits dest!: kept_frames)
  with i show ?thesis by (auto intro: keeps_inv inv_create_object)
qed

lemma inv_add_watch: "graph_inv h s \<Longrightarrow> ubusd_handle_add_watch E cl ub attr s = Some (rc, s') \<Longrightarrow> graph_inv h s'"
  by (auto simp: ubusd_handle_add_watch_def split: bind_splits option.splits if_split_asm intro: inv_subscribe)

lemma inv_remove_watch: "graph_inv h s \<Longrightarrow> ubusd_handle_remove_watch E cl ub attr s = Some (rc, s') \<Longrightarrow> graph_inv h s'"
  by (auto simp: ubusd_handle_remove_watch_def split: bind_splits option.splits if_split_asm intro: inv_unsubscribe)

lemma inv_handler:
  assumes "handlers ty = Some cb" and "graph_ok s" and "cb E cl ub attr s = Some (rc, s')"
  shows "graph_ok s'"
  using assms
  by (auto simp: handlers_def split: if_split_asm intro: inv_add_object inv_remove_object inv_invoke inv_add_watch
    inv_remove_watch keeps_inv [OF kept_pong] keeps_inv [OF kept_lookup] keeps_inv [OF kept_response] keeps_inv [OF kept_notify])

lemma inv_receive:
  assumes i: "graph_ok s" and r: "ubusd_proto_receive_message E cl ub s = Some s'"
  shows "graph_ok s'"
proof -
  obtain m s1 s2 rc s3 where m: "msgs s ub = Some m"
      "upd_msg (retmsg s) (\<lambda>r. r\<lparr>hdr := (hdr r)\<lparr>seq := seq (hdr m), peer := peer (hdr m)\<rparr>\<rparr>) s = Some s1"
      "(if msg_type (hdr m) \<noteq> UBUS_MSG_STATUS then ubus_msg_close_fd ub s1 else Some s1) = Some s2"
      "(case handlers (msg_type (hdr m)) of
         None \<Rightarrow> Some (UBUS_STATUS_INVALID_COMMAND, s2)
       | Some cb \<Rightarrow> ubus_parse_msg (mdata m) \<bind> (\<lambda>attr. cb E cl ub attr s2)) = Some (rc, s3)"
      "(if rc = -1 then Some s3 else ubus_msg_free ub s3 \<bind> send_status E cl rc) = Some s'"
    using r by (auto simp: ubusd_proto_receive_message_def bind_eq_Some_conv)
  have "keeps s s2" using m(2,3) by (auto simp: keeps_def split: if_split_asm dest!: kept_frames)
  from keeps_inv [OF this i] m(4) have "graph_ok s3"
    by (auto split: option.split_asm bind_splits dest: inv_handler)
  moreover have "keeps s3 s'" using m(5) by (auto simp: keeps_def split: if_split_asm bind_splits dest!: kept_frames kept_status)
  ultimately show ?thesis by (rule keeps_inv [rotated])
qed

section \<open>Connections\<close>

lemma kept_upd_cl: "upd_cl cl f s = Some s' \<Longrightarrow> (\<And>c. strip (f c) = strip c) \<Longrightarrow> keeps s s'"
  by (rule frame_keeps [OF frame_upd_cl])

lemma kept_cls: "cls s cl = Some c \<Longrightarrow> strip d = strip c \<Longrightarrow> keeps s (s\<lparr>cls := (cls s)(cl \<mapsto> d)\<rparr>)"
  by (rule frame_keeps [OF frame_cls])

lemma kept_dequeue [kept]: "ubus_msg_dequeue cl s = Some s' \<Longrightarrow> keeps s s'"
  by (auto simp: ubus_msg_dequeue_def keeps_def split: bind_splits option.splits dest!: kept_frames kept_upd_cl)

lemma kept_tx_pending [kept]: "tx_pending E cl s = Some (r, s') \<Longrightarrow> keeps s s'"
proof (induction E cl s rule: tx_pending.induct)
  case (1 E cl s)
  obtain c h where c: "cls s cl = Some c" "ubus_msg_head cl s = Some h"
    using 1(2) by (subst (asm) tx_pending.simps) (auto simp: bind_eq_Some_conv)
  show ?case
  proof (cases h)
    case None
    with 1(2) c show ?thesis by (subst (asm) tx_pending.simps) auto
  next
    case (Some ub)
    with 1(2) c obtain w s1 where w: "ubus_msg_writev E (sock_fd c) ub (txq_ofs c) s = Some (w, s1)"
      by (subst (asm) tx_pending.simps) (auto simp: bind_eq_Some_conv)
    show ?thesis
    proof (cases "w < 0")
      case True
      with 1(2) c Some w show ?thesis by (subst (asm) tx_pending.simps) (auto dest: kept_frames)
    next
      case False
      with 1(2) c Some w obtain s2 m where s2: "upd_cl cl (\<lambda>c. c\<lparr>txq_ofs := txq_ofs c + nat w\<rparr>) s1 = Some s2" "msgs s2 ub = Some m"
        by (subst (asm) tx_pending.simps) (auto simp: bind_eq_Some_conv)
      have k: "keeps s s2" using w kept_upd_cl [OF s2(1)] by (auto simp: keeps_def dest!: kept_frames)
      show ?thesis
      proof (cases "txq_ofs c + nat w < len m + 8")
        case True
        with 1(2) c Some w False s2 k show ?thesis by (subst (asm) tx_pending.simps) auto
      next
        case dq: False
        with 1(2) c Some w False s2 obtain s3 where s3: "ubus_msg_dequeue cl s2 = Some s3" "tx_pending E cl s3 = Some (r, s')"
          by (subst (asm) tx_pending.simps) (auto simp: bind_eq_Some_conv)
        from 1(1) [OF c Some w refl False s2 dq s3] kept_dequeue [OF s3(1)] k show ?thesis by (blast intro: keeps_trans)
      qed
    qed
  qed
qed

lemma kept_drain [kept]: "drain cl s = Some s' \<Longrightarrow> keeps s s'"
proof (induction cl s rule: drain.induct)
  case (1 cl s)
  note IH = 1(1)
  from 1(2) show ?case
    by (subst (asm) drain.simps)
      (auto split: bind_splits option.splits intro: keeps_trans [OF kept_dequeue IH])
qed

lemma kept_rx_cls:
  assumes c: "cls s cl = Some c" and r: "ubus_msg_new E D n sh (s\<lparr>cls := (cls s)(cl \<mapsto> d)\<rparr>) = (x, s1)"
    and d: "strip d = strip c" "strip d' = strip c"
  shows "keeps s (s1\<lparr>cls := (cls s1)(cl \<mapsto> d')\<rparr>)" "keeps s (s1\<lparr>msgs := M, cls := (cls s1)(cl \<mapsto> d')\<rparr>)"
proof -
  have "cls s1 = (cls s)(cl \<mapsto> d)"
    using r by (auto simp: ubus_msg_new_def calloc_def Let_def split: if_splits)
  moreover have "frame (s\<lparr>cls := (cls s)(cl \<mapsto> d)\<rparr>) s1" by (rule frame_new [OF r])
  moreover from calculation(1) have "frame s1 (s1\<lparr>cls := (cls s1)(cl \<mapsto> d')\<rparr>)" using d by (intro frame_cls [of s1 cl d]) simp_all
  ultimately have "frame s (s1\<lparr>cls := (cls s1)(cl \<mapsto> d')\<rparr>)"
    using frame_cls [OF c d(1)] by (metis frame_trans)
  then show "keeps s (s1\<lparr>cls := (cls s1)(cl \<mapsto> d')\<rparr>)" "keeps s (s1\<lparr>msgs := M, cls := (cls s1)(cl \<mapsto> d')\<rparr>)"
    by (auto simp: keeps_def dest!: frame_keeps) (simp add: graph_def rest_def)
qed

lemma kept_rx_header [kept]:
  assumes r: "rx_header E cl i s = Some (nx, j, s')"
  shows "keeps s s'"
proof -
  obtain c where c: "cls s cl = Some c" using r by (auto simp: rx_header_def split: bind_splits)
  with r show ?thesis
    by (auto simp: rx_header_def Let_def split: prod.split_asm option.split_asm if_split_asm bind_splits
      intro: kept_cls kept_rx_cls [OF c])
qed

lemma kept_rx_data [kept]:
  assumes r: "rx_data cl ub i s = Some (nx, j, s')"
  shows "keeps s s'"
proof -
  obtain c m where c: "cls s cl = Some c" "msgs s ub = Some m" using r by (auto simp: rx_data_def split: bind_splits)
  have k: "keeps s (s\<lparr>msgs := M, cls := (cls s)(cl \<mapsto> d)\<rparr>)" if "strip d = strip c" for M d
    using kept_cls [OF c(1) that] by (simp add: keeps_def graph_def rest_def)
  from r c show ?thesis
    by (auto simp: rx_data_def Let_def upd_msg_def split: prod.split_asm option.split_asm if_split_asm bind_splits
      intro: k)
qed

lemma inv_rx_loop: "rx_loop E cl i s = Some (nx, s') \<Longrightarrow> graph_ok s \<Longrightarrow> graph_ok s'"
proof -
  assume a: "rx_loop E cl i s = Some (nx, s')" and i: "graph_ok s"
  have "graph_ok s \<longrightarrow> graph_ok (snd (nx, s'))"
  proof (rule rx_loop.raw_induct [of "\<lambda>E cl i s r. graph_ok s \<longrightarrow> graph_ok (snd r)", OF _ a], goal_cases)
    case (1 loop E cl i s r)
    note IH = 1(1) and r = 1(2)
    show ?case
    proof
      assume i: "graph_ok s"
      obtain c nx j s1 where c: "cls s cl = Some c"
          "(if \<not> eof c \<and> pending_msg_offset c < hdrbuf_size then rx_header E cl i s else Some (Go, i, s)) = Some (nx, j, s1)"
        using r by (auto simp: bind_eq_Some_conv)
      have "keeps s s1" using c(2) by (auto split: if_split_asm dest: kept_rx_header)
      with i have i1: "graph_ok s1" by (rule keeps_inv [rotated])
      from r c(2) consider "r = (nx, s1)" | "r = (Out, s1)"
        | ub nx' j' s2 where "rx_data cl ub j s1 = Some (nx', j', s2)" "r = (nx', s2)"
        | ub nx' j' s2 s3 where "rx_data cl ub j s1 = Some (nx', j', s2)"
            "ubusd_proto_receive_message E cl ub s2 = Some s3" "loop E cl j' s3 = Some r"
        using c(1) by (auto simp: bind_eq_Some_conv split: if_split_asm option.split_asm)
      then show "graph_ok (snd r)"
      proof cases
        case (4 ub nx' j' s2 s3)
        from inv_receive [OF keeps_inv [OF kept_rx_data [OF 4(1)] i1] 4(2)] IH [OF 4(3)] show ?thesis by blast
      qed (use i1 in \<open>auto dest!: kept_rx_data intro: keeps_inv\<close>)
    qed
  qed
  with i show "graph_ok s'" by simp
qed

text \<open>A client is freed when it has no objects left: its list is empty when the loop returns.\<close>

lemma inv_free_client_objects:
  assumes "free_client_objects E cl s = Some s'" and "graph_ok s"
  shows "graph_ok s' \<and> map_option cl_objects (cls s' cl) = Some []"
proof (rule free_client_objects.raw_induct [of "\<lambda>E cl s s'. graph_ok s \<longrightarrow> graph_ok s' \<and> map_option cl_objects (cls s' cl) = Some []",
      OF _ assms(1), rule_format, OF _ assms(2)], goal_cases)
  case (1 loop E cl s s')
  note IH = 1(1) and r = 1(2) and i = 1(3)
  obtain c where c: "cls s cl = Some c" using r by (auto simp: bind_eq_Some_conv)
  show ?case
  proof (cases "cl_objects c")
    case Nil
    with r c i show ?thesis by auto
  next
    case (Cons obj os)
    with r c obtain s1 where s1: "ubusd_free_object E obj s = Some s1" "loop E cl s1 = Some s'" by (auto simp: bind_eq_Some_conv)
    from IH [OF s1(2) inv_free_object [OF i s1(1)]] show ?thesis .
  qed
qed

lemma inv_drop_client:
  assumes i: "graph_ok s" and c: "cls s cl = Some c" "cl_objects c = []" and t: "ubus_free_id (clients s) (cl_id c, cl) = Some tr"
  shows "graph_ok (s\<lparr>clients := tr, cls := (cls s)(cl := None)\<rparr>)"
proof -
  have "id_index tr ((\<lambda>p. map_option cl_id (cls s p))(cl := None))"
    using id_index_free [OF _ _ t] i c(1) by (simp add: graph_inv_def)
  moreover have "linked ((\<lambda>p. map_option cl_objects (cls s p))(cl := None)) (\<lambda>p. objs s p \<bind> oclient)"
    using i c by (intro linked_drop) (simp_all add: graph_inv_def)
  ultimately show ?thesis using i by (simp add: graph_inv_def map_option_upd below_upd del: fun_upd_apply)
qed

lemma inv_disconnect:
  assumes i: "graph_ok s" and r: "handle_client_disconnect E cl s = Some s'"
  shows "graph_ok s' \<and> cls s' cl = None"
proof -
  obtain s1 s2 c tr where s1: "drain cl s = Some s1" "free_client_objects E cl s1 = Some s2" "cls s2 cl = Some c"
      "ubus_free_id (clients s2) (cl_id c, cl) = Some tr" and s': "keeps (s2\<lparr>clients := tr, cls := (cls s2)(cl := None)\<rparr>) s'" "cls s' cl = None"
    using r by (auto simp: handle_client_disconnect_def ubusd_proto_free_client_def bind_eq_Some_conv Let_def keeps_def graph_def rest_def
      sys_close_def uloop_fd_delete_def fun_eq_iff split: if_splits)
  have "graph_ok s2 \<and> map_option cl_objects (cls s2 cl) = Some []"
    using inv_free_client_objects [OF s1(2)] keeps_inv [OF kept_drain [OF s1(1)] i] by blast
  then have "graph_ok (s2\<lparr>clients := tr, cls := (cls s2)(cl := None)\<rparr>)" using inv_drop_client [OF _ s1(3) _ s1(4)] s1(3) by simp
  from keeps_inv [OF s'(1) this] s'(2) show ?thesis by simp
qed

lemma inv_client_cb:
  assumes i: "graph_ok s" and r: "client_cb E cl wr j s = Some s'"
  shows "graph_ok s'"
proof -
  obtain f s1 where f: "tx_pending E cl s = Some (f, s1)" using r by (auto simp: client_cb_def bind_eq_Some_conv)
  with i have i1: "graph_ok s1" by (auto intro: keeps_inv kept_tx_pending)
  show ?thesis
  proof (cases f)
    case True
    with r f have "handle_client_disconnect E cl s1 = Some s'" by (simp add: client_cb_def)
    with inv_disconnect [OF i1] show ?thesis by blast
  next
    case False
    with r f obtain s0 nx s2 where s2: "rx_loop E cl j s0 = Some (nx, s2)" "keeps s1 s0"
        "s' = s2 \<or> handle_client_disconnect E cl s2 = Some s'"
      by (auto simp: client_cb_def Let_def keeps_def split: bind_splits if_split_asm)
    from inv_rx_loop [OF s2(1) keeps_inv [OF s2(2) i1]] have "graph_ok s2" .
    with s2(3) inv_disconnect show ?thesis by blast
  qed
qed

lemma inv_new_client:
  assumes i: "graph_ok s" and r: "ubusd_proto_new_client E fd s = Some (cl, s')"
  shows "graph_ok s'"
proof (cases "e_alloc E (clock s)")
  case False
  with r inv_clock [OF i] show ?thesis by (auto simp: ubusd_proto_new_client_def calloc_def)
next
  case True
  let ?cl = "clock s"
  obtain ok j tr rs where a: "ubus_alloc_id (random s) (clients s) ?cl 0 = Some (ok, j, tr, rs)"
    using r True by (auto simp: ubusd_proto_new_client_def calloc_def split: bind_splits)
  let ?s = "s\<lparr>clock := clock s + 1, clients := tr, random := rs\<rparr>"
  have fr: "cls s ?cl = None" and ix: "id_index (clients s) (\<lambda>p. map_option cl_id (cls s p))"
    using i by (simp_all add: graph_inv_def below_fresh)
  note ix' = id_index_alloc [OF ix _ a, simplified, OF fr]
  show ?thesis
  proof (cases ok)
    case False
    then have "graph_ok ?s" using inv_clock [OF i] ix' by (simp add: graph_inv_def)
    with r a True False show ?thesis by (auto simp: ubusd_proto_new_client_def calloc_def)
  next
    case ok: True
    let ?c = "\<lparr>cl_id = j, sock_fd = fd, eof = False, cl_objects = [],
              tx_queue = replicate UBUSD_CLIENT_BACKLOG None, txq_cur = 0, txq_tail = 0, txq_ofs = 0,
              pending_msg = None, pending_msg_offset = 0, pending_msg_fd = -1, hdrbuf = replicate 12 0\<rparr>"
    let ?s1 = "?s\<lparr>cls := (cls s)(?cl \<mapsto> ?c)\<rparr>"
    have "id_index tr ((\<lambda>p. map_option cl_id (cls s p))(?cl \<mapsto> j))" using ix' ok by simp
    moreover have "linked ((\<lambda>p. map_option cl_objects (cls s p))(?cl \<mapsto> [])) (\<lambda>p. objs s p \<bind> oclient)"
      using i fr by (intro linked_new) (simp_all add: graph_inv_def)
    ultimately have i1: "graph_ok ?s1" using i by (simp add: graph_inv_def map_option_upd below_upd del: fun_upd_apply)
    obtain ok' s2 where h: "ubusd_send_hello E ?cl ?s1 = Some (ok', s2)"
      using r a True ok by (auto simp: ubusd_proto_new_client_def calloc_def Let_def split: bind_splits)
    have k: "keeps ?s1 s2" using h by (rule kept_frames)
    show ?thesis
    proof (cases ok')
      case True
      with r a \<open>e_alloc E (clock s)\<close> ok h keeps_inv [OF k i1] show ?thesis
        by (auto simp: ubusd_proto_new_client_def calloc_def Let_def)
    next
      case False
      have "\<exists>c. cls s2 ?cl = Some c \<and> strip c = strip ?c" using keeps_fields(11) [OF k, of ?cl] by auto
      then obtain c where c: "cls s2 ?cl = Some c" "cl_id c = j" "cl_objects c = []"
        by (metis strip_fields(1,3) ubus_client.select_convs(1,4))
      obtain tr' where "ubus_free_id (clients s2) (j, ?cl) = Some tr'" "s' = s2\<lparr>clients := tr', cls := (cls s2)(?cl := None)\<rparr>"
        using r a True ok h False \<open>e_alloc E (clock s)\<close>
        by (auto simp: ubusd_proto_new_client_def calloc_def Let_def split: bind_splits)
      with inv_drop_client [OF keeps_inv [OF k i1] c(1,3)] c(2) show ?thesis by simp
    qed
  qed
qed

lemma inv_server_cb: "server_cb E as s = Some s' \<Longrightarrow> graph_ok s \<Longrightarrow> graph_ok s'"
proof (induction as arbitrary: s)
  case (Cons a as)
  then obtain l s1 where s1: "get_next_connection E a s = Some (l, s1)" "(if l then server_cb E as s1 else Some s1) = Some s'"
    by (auto simp: bind_eq_Some_conv)
  have "graph_ok s1"
  proof (cases a)
    case (Connection fd)
    with s1 obtain cl s2 where "ubusd_proto_new_client E fd s = Some (cl, s2)" "keeps s2 s1"
      by (auto simp: get_next_connection_def keeps_def split: bind_splits if_split_asm)
    with inv_new_client [OF Cons.prems(2)] show ?thesis by (blast intro: keeps_inv)
  qed (use s1 Cons.prems(2) in \<open>auto simp: get_next_connection_def\<close>)
  with s1(2) Cons.IH show ?case by (auto split: if_splits)
qed simp

section \<open>Start\<close>

text \<open>The daemon before its constructors: the static variables have their initial values.\<close>

definition boot :: "u32 list \<Rightarrow> ubusd" where
  "boot rs = \<lparr>clock = 0, random = rs, out = [], msgs = Map.empty, cls = Map.empty, objs = Map.empty,
     types = Map.empty, subs = Map.empty, evs = Map.empty, clients = avl_init False, objects = avl_init False,
     obj_types = avl_init False, path = avl_init False, patterns = avl_init True, bb = \<lparr>buf = [], head = None\<rparr>,
     retmsg = 0, event_obj = None, event_seq = 0, obj_event_seq = 1\<rparr>"

definition ubusd_start :: "env \<Rightarrow> int \<Rightarrow> u32 list \<Rightarrow> (int + ubusd) option" where
  "ubusd_start E opened rs = do {
     r \<leftarrow> ubusd_obj_init E opened (-1) (boot rs);
     case r of
       Inl rc \<Rightarrow> Some (Inl rc)
     | Inr (random_fd, s) \<Rightarrow> do {
         r \<leftarrow> ubusd_proto_init E opened random_fd s;
         Some (case r of Inl rc \<Rightarrow> Inl rc | Inr (_, s) \<Rightarrow> Inr s)
       }
   }"

lemma allow_dups_init [simp]: "allow_dups (avl_init d) = d"
  by (simp add: avl_init_def)

lemma boot_ok: "graph_ok (boot rs)"
proof -
  have z: "type_count None (boot rs) = (\<lambda>_. 0)" by (simp add: type_count_def boot_def refs_def fun_eq_iff)
  show ?thesis unfolding graph_inv_def z
    by (simp add: boot_def id_index_def index_init type_table_def linked_empty below_def)
qed

lemma inv_recv_msg:
  assumes i: "graph_inv h s" and r: "upd_obj obj (\<lambda>x. x\<lparr>recv_msg := b\<rparr>) s = Some s'"
  shows "graph_inv h s'"
proof -
  obtain x where x: "objs s obj = Some x" and s': "s' = s\<lparr>objs := (objs s)(obj \<mapsto> x\<lparr>recv_msg := b\<rparr>)\<rparr>"
    using r by (auto simp: upd_obj_def split: bind_splits)
  have v: "(\<lambda>p. map_option obj_id (objs s' p)) = (\<lambda>p. map_option obj_id (objs s p))"
    "(\<lambda>p. map_option subscribers (objs s' p)) = (\<lambda>p. map_option subscribers (objs s p))"
    "(\<lambda>p. map_option target_list (objs s' p)) = (\<lambda>p. map_option target_list (objs s p))"
    "(\<lambda>p. map_option events (objs s' p)) = (\<lambda>p. map_option events (objs s p))"
    "(\<lambda>p. objs s' p \<bind> otype) = (\<lambda>p. objs s p \<bind> otype)" "(\<lambda>p. objs s' p \<bind> path_key) = (\<lambda>p. objs s p \<bind> path_key)"
    "(\<lambda>p. objs s' p \<bind> oclient) = (\<lambda>p. objs s p \<bind> oclient)"
    using x by (auto simp: s' fun_eq_iff)
  have c: "type_count h s' = type_count h s" unfolding type_count_def v ..
  have "\<forall>p x. objs s' p = Some x \<longrightarrow> olist x = oclient x" "below (clock s) (objs s')"
    using i x by (auto simp: graph_inv_def s' below_def)
  with i show ?thesis unfolding graph_inv_def v c by (simp add: s')
qed

lemma create_internal_cls: "ubusd_create_object_internal E ty j s = Some (obj, s') \<Longrightarrow> cls s' = cls s"
  by (auto simp: ubusd_create_object_internal_def calloc_def upd_type_def Let_def split: if_split_asm bind_splits option.split_asm)

lemma inv_event_init:
  assumes i: "graph_ok s" and e: "evs s = Map.empty" and r: "ubusd_event_init E s = Some s'"
  shows "graph_ok s' \<and> cls s' = cls s"
proof -
  have i0: "graph_ok (s\<lparr>patterns := ubus_init_string_tree True\<rparr>)"
    using i e unfolding graph_inv_def by (simp add: ubus_init_string_tree_def index_init type_count_def [abs_def])
  obtain obj s1 where s1: "ubusd_create_object_internal E None UBUS_SYSTEM_OBJECT_EVENT (s\<lparr>patterns := ubus_init_string_tree True\<rparr>) = Some (obj, s1)"
      "(case obj of None \<Rightarrow> Some (s1\<lparr>event_obj := obj\<rparr>) | Some p \<Rightarrow> upd_obj p (\<lambda>x. x\<lparr>recv_msg := True\<rparr>) (s1\<lparr>event_obj := obj\<rparr>)) = Some s'"
    using r by (auto simp: ubusd_event_init_def Let_def split: bind_splits)
  have "graph_ok s1" using inv_create_internal [OF i0 _ s1(1)] by simp
  then have "graph_ok (s1\<lparr>event_obj := obj\<rparr>)" by (simp add: graph_inv_def type_count_def [abs_def])
  with s1(2) have "graph_ok s'" by (auto split: option.split_asm dest: inv_recv_msg)
  moreover have "cls s' = cls s" using s1(2) create_internal_cls [OF s1(1)]
    by (auto simp: upd_obj_def split: option.split_asm bind_splits)
  ultimately show ?thesis by simp
qed

lemma inv_retmsg: "graph_inv h (s\<lparr>retmsg := q\<rparr>) = graph_inv h s"
  by (simp add: graph_inv_def type_count_def [abs_def])

lemma start_ok:
  assumes r: "ubusd_start E opened rs = Some (Inr s)"
  shows "graph_ok s"
proof -
  obtain fd s1 fd' where s1: "ubusd_obj_init E opened (-1) (boot rs) = Some (Inr (fd, s1))"
      "ubusd_proto_init E opened fd s1 = Some (Inr (fd', s))"
    using r by (auto simp: ubusd_start_def split: bind_splits sum.splits)
  have "ubusd_event_init E (boot rs) = Some s1" using s1(1)
    by (auto simp: ubusd_obj_init_def ubus_init_id_tree_def ubus_init_string_tree_def boot_def Let_def split: if_split_asm bind_splits)
  from inv_event_init [OF boot_ok _ this] have i1: "graph_ok s1" "cls s1 = Map.empty" by (simp_all add: boot_def)
  then have "graph_ok (s1\<lparr>clients := avl_init False\<rparr>)" by (simp add: graph_inv_def id_index_def index_init)
  moreover have "\<exists>s2 q. s = s2\<lparr>retmsg := q\<rparr> \<and> keeps (s1\<lparr>clients := avl_init False\<rparr>) s2"
  proof -
    obtain a b q c where b: "b_init E (s1\<lparr>clients := avl_init False\<rparr>) = Some a" "b_put_int32 E UBUS_ATTR_STATUS 0 a = Some b"
        "ubus_msg_from_blob E False b = Some (Some q, c)"
        "upd_msg q (\<lambda>m. m\<lparr>hdr := (hdr m)\<lparr>msg_type := UBUS_MSG_STATUS\<rparr>\<rparr>) c \<bind> (\<lambda>s. Some (Inr (fd, s\<lparr>retmsg := q\<rparr>))) =
           Some (Inr (fd', s) :: int + int \<times> ubusd)"
      using s1 by (auto simp: ubusd_proto_init_def ubusd_obj_init_def ubus_init_id_tree_def Let_def split: if_split_asm bind_splits option.split_asm)
    then obtain d where "upd_msg q (\<lambda>m. m\<lparr>hdr := (hdr m)\<lparr>msg_type := UBUS_MSG_STATUS\<rparr>\<rparr>) c = Some d" "s = d\<lparr>retmsg := q\<rparr>"
      by (auto simp: bind_eq_Some_conv)
    with b(1-3) show ?thesis by (intro exI [of _ d] exI [of _ q]) (auto simp: keeps_def dest!: kept_frames)
  qed
  ultimately show ?thesis by (auto simp: inv_retmsg dest: keeps_inv)
qed

section \<open>Steps\<close>

text \<open>
  A step of the event loop: a call of \<open>server_cb\<close>, of \<open>client_cb\<close> for a client with any input, or the end
  of file on the socket of a client, which the loop records in the client before it calls \<open>client_cb\<close>.
\<close>

inductive ubusd_step :: "env \<Rightarrow> ubusd \<Rightarrow> ubusd \<Rightarrow> bool" for E where
  connect: "server_cb E as s = Some s' \<Longrightarrow> ubusd_step E s s'"
| readable: "client_cb E cl wr i s = Some s' \<Longrightarrow> ubusd_step E s s'"
| hangup: "cls s cl = Some c \<Longrightarrow> ubusd_step E s (s\<lparr>cls := (cls s)(cl \<mapsto> c\<lparr>eof := True\<rparr>)\<rparr>)"

inductive reachable :: "env \<Rightarrow> ubusd \<Rightarrow> bool" for E where
  start: "ubusd_start E opened rs = Some (Inr s) \<Longrightarrow> reachable E s"
| step: "reachable E s \<Longrightarrow> ubusd_step E s s' \<Longrightarrow> reachable E s'"

inductive_cases ubusd_stepE: "ubusd_step E s s'"

lemma inv_step: "ubusd_step E s s' \<Longrightarrow> graph_ok s \<Longrightarrow> graph_ok s'"
proof (induction rule: ubusd_step.induct)
  case (hangup s cl c)
  from keeps_inv [OF kept_cls [OF hangup(1), of "c\<lparr>eof := True\<rparr>"] hangup(2)] show ?case by simp
qed (auto intro: inv_server_cb inv_client_cb)

lemma inv_reachable: "reachable E s \<Longrightarrow> graph_ok s"
  by (induction rule: reachable.induct) (auto intro: start_ok inv_step)

section \<open>What a client takes with it\<close>

text \<open>The identity of an object: what no operation on other objects changes.\<close>

definition ident :: "ubus_object \<Rightarrow> u32 \<times> cstring option \<times> nat option \<times> nat option" where
  "ident x = (obj_id x, path_key x, oclient x, otype x)"

definition idents :: "ubusd \<Rightarrow> nat \<rightharpoonup> u32 \<times> cstring option \<times> nat option \<times> nat option" where
  "idents s = (\<lambda>p. map_option ident (objs s p))"

lemma ident_upds [simp]: "ident (x\<lparr>subscribers := a\<rparr>) = ident x" "ident (x\<lparr>target_list := b\<rparr>) = ident x"
    "ident (x\<lparr>events := c\<rparr>) = ident x" "ident (gobj x) = ident x"
  by (simp_all add: ident_def)

lemma keeps_idents: "keeps s s' \<Longrightarrow> idents s' = idents s"
  unfolding idents_def by (rule ext, rule map_option_via [OF keeps_fields(12)]) simp_all

lemma idents_unsubscribe: "ubus_unsubscribe E sb s = Some s' \<Longrightarrow> idents s' = idents s"
proof -
  assume r: "ubus_unsubscribe E sb s = Some s'"
  have "idents ((unlink_sub sb s)\<lparr>subs := b\<rparr>) = idents s" for b
    by (rule ext) (simp add: idents_def unlink_sub_def option.map_comp comp_def)
  with r show ?thesis
    by (auto simp: ubus_unsubscribe_def Let_def split: bind_splits if_split_asm dest!: kept_notify_subscription keeps_idents)
qed

lemma idents_notify_unsubscribe: "ubus_notify_unsubscribe E sb s = Some s' \<Longrightarrow> idents s' = idents s"
  by (auto simp: ubus_notify_unsubscribe_def split: bind_splits option.splits
    dest!: idents_unsubscribe kept_upd_obj kept_frames keeps_idents)

lemma idents_event_cleanup: "ubusd_event_cleanup_object obj s = Some s' \<Longrightarrow> idents s' = idents s"
proof (induction obj s rule: ubusd_event_cleanup_object.induct)
  case (1 obj s)
  have "idents s1 = idents s" if "ubusd_delete_event_source ev s = Some s1" for ev s1
    using delete_event_source_objs [OF that] by (simp add: idents_def option.map_comp comp_def fun_eq_iff)
  with 1 show ?case
    by (subst (asm) (2) ubusd_event_cleanup_object.simps) (auto split: bind_splits list.splits)
qed

lemma for_each_safe_same:
  assumes "\<And>x s s'. f x s = Some s' \<Longrightarrow> V s' = V s"
  shows "for_each_safe f xs s = Some s' \<Longrightarrow> V s' = V s"
  by (induction xs arbitrary: s) (auto split: bind_splits dest: assms)

lemma idents_release: "release obj s = Some s' \<Longrightarrow> idents s' = (idents s)(obj := None)"
  by (auto simp: release_def Let_def unlink_obj_def idents_def fun_eq_iff split: bind_splits if_split_asm option.split_asm
    dest!: unref_objs)

lemma idents_free_object:
  assumes "ubusd_free_object E obj s = Some s'"
  shows "idents s' = (idents s)(obj := None)"
proof -
  obtain x y :: ubus_object and s1 s2 s3 s4 where x: "for_each_safe (ubus_unsubscribe E) (target_list x) s = Some s1"
      "for_each_safe (ubus_notify_unsubscribe E) (subscribers y) s1 = Some s2"
      "ubusd_event_cleanup_object obj s2 = Some s3" "free_path E obj s3 = Some s4" "release obj s4 = Some s'"
    using assms by (auto simp: ubusd_free_object_def release_def split: bind_splits)
  have "idents s4 = idents s3" by (rule free_path_effect [OF x(4)]) (auto simp: idents_def dest!: keeps_idents)
  with idents_release [OF x(5)] idents_event_cleanup [OF x(3)]
    for_each_safe_same [where V = idents, OF idents_unsubscribe x(1)]
    for_each_safe_same [where V = idents, OF idents_notify_unsubscribe x(2)]
  show ?thesis by simp
qed

lemma idents_free_client_objects:
  assumes r: "free_client_objects E cl s = Some s'" and i: "graph_ok s"
  shows "idents s' = (\<lambda>p. if objs s p \<bind> oclient = Some cl then None else idents s p)"
proof -
  let ?P = "\<lambda>E cl s s'. graph_ok s \<longrightarrow> idents s' = (\<lambda>p. if objs s p \<bind> oclient = Some cl then None else idents s p)"
  have "?P E cl s s'"
  proof (rule free_client_objects.raw_induct [of ?P, OF _ r], intro impI, goal_cases)
    case (1 loop E cl s s')
    note IH = 1(1) and r = 1(2) and i = 1(3)
    obtain c where c: "cls s cl = Some c" using r by (auto simp: bind_eq_Some_conv)
    have l: "obj \<in> set (cl_objects c) \<longleftrightarrow> objs s obj \<bind> oclient = Some cl" for obj
      using linkedD [of _ "\<lambda>p. objs s p \<bind> oclient" cl "cl_objects c"] i c by (auto simp: graph_inv_def)
    show ?case
    proof (cases "cl_objects c")
      case Nil
      with r c l show ?thesis by (auto simp: fun_eq_iff)
    next
      case (Cons obj os)
      with r c obtain s1 where s1: "ubusd_free_object E obj s = Some s1" "loop E cl s1 = Some s'" by (auto simp: bind_eq_Some_conv)
      have o: "objs t p \<bind> oclient = idents t p \<bind> (\<lambda>(_, _, c, _). c)" for t p by (cases "objs t p") (simp_all add: idents_def ident_def)
      have "objs s obj \<bind> oclient = Some cl" using l [of obj] Cons by simp
      with IH [OF s1(2), rule_format, OF inv_free_object [OF i s1(1)]] show ?thesis
        unfolding o idents_free_object [OF s1(1)] by (auto simp: fun_eq_iff)
    qed
  qed
  with i show ?thesis by blast
qed

section \<open>Properties\<close>

text \<open>A run: the daemon starts and a client connects.\<close>

definition sample_run :: "ubusd option" where
  "sample_run = do {
     r \<leftarrow> ubusd_start quiet_env 3 [5000, 6000, 7000];
     case r of Inl _ \<Rightarrow> None | Inr s \<Rightarrow> server_cb quiet_env [Connection 7] s
   }"

lemma sample_run_state:
  "map_option (\<lambda>s. (ubusd_find_object 1 s, map_option obj_id (objs s 0), map_option cl_id (cls s 4), objs s 0 \<bind> oclient)) sample_run =
     Some (Some 0, Some 1, Some 5000, None)"
  by code_simp

lemma sample_run_frees: "(sample_run \<bind> drain 4 \<bind> (\<lambda>s. map_option (\<lambda>c. (cl_objects c, ubus_free_id (clients s) (cl_id c, 4) \<noteq> None)) (cls s 4))) = Some ([], True)"
  by code_simp

lemma sample_run_reachable:
  obtains s where "sample_run = Some s" "reachable quiet_env s"
proof -
  obtain s where s: "sample_run = Some s" using sample_run_state by auto
  then obtain r where r: "ubusd_start quiet_env 3 [5000, 6000, 7000] = Some r"
      "(case r of Inl _ \<Rightarrow> None | Inr s \<Rightarrow> server_cb quiet_env [Connection 7] s) = Some s"
    unfolding sample_run_def bind_eq_Some_conv by blast
  then obtain s0 where "r = Inr s0" "server_cb quiet_env [Connection 7] s0 = Some s" by (cases r) (auto simp del: server_cb.simps)
  with s r(1) that show thesis by (blast intro: reachable.intros ubusd_step.connect)
qed

text \<open>
  C1: The objects of the daemon are consistent in every reachable state, whatever the clients
  send, however the sockets and the allocator behave: each of the five trees indexes exactly the live
  structures under their keys, identifiers and paths are unique, every list holds exactly the
  structures that point back to its owner, without repetition, and the reference count of a type is
  the number of objects that have it.
\<close>

theorem reachable_graph_ok:
  assumes "reachable E s"
  shows "graph_ok s"
  using assms by (rule inv_reachable)

theorem reachable_graph_ok_witness: "\<exists>s. sample_run = Some s \<and> reachable quiet_env s \<and> graph_ok s"
  using sample_run_reachable reachable_graph_ok by metis

text \<open>
  C2: In particular no pointer dangles in a reachable state: the client, the type, the subscriptions and
  the event sources of a live object are live, a subscription and an event source belong to live objects, the
  look-up by identifier finds exactly the live object that has it, and a path belongs to one object.
\<close>

theorem reachable_no_dangling:
  assumes "reachable E s"
  shows "(\<forall>p x cl. objs s p = Some x \<and> oclient x = Some cl \<longrightarrow> (\<exists>c. cls s cl = Some c \<and> p \<in> set (cl_objects c))) \<and>
    (\<forall>cl c p. cls s cl = Some c \<and> p \<in> set (cl_objects c) \<longrightarrow> (\<exists>x. objs s p = Some x \<and> oclient x = Some cl)) \<and>
    (\<forall>p x ty. objs s p = Some x \<and> otype x = Some ty \<longrightarrow> types s ty \<noteq> None) \<and>
    (\<forall>p x sb. objs s p = Some x \<and> (sb \<in> set (subscribers x) \<or> sb \<in> set (target_list x)) \<longrightarrow> subs s sb \<noteq> None) \<and>
    (\<forall>sb b. subs s sb = Some b \<longrightarrow> objs s (subscriber b) \<noteq> None \<and> objs s (target b) \<noteq> None) \<and>
    (\<forall>ev e. evs s ev = Some e \<longrightarrow> objs s (ev_obj e) \<noteq> None) \<and>
    (\<forall>i p. ubusd_find_object i s = Some p \<longleftrightarrow> (\<exists>x. objs s p = Some x \<and> obj_id x = i)) \<and>
    (\<forall>p x q y k. objs s p = Some x \<and> path_key x = Some k \<and> objs s q = Some y \<and> path_key y = Some k \<longrightarrow> p = q)"
proof -
  have i: "graph_ok s" using assms by (rule inv_reachable)
  have l: "linked (\<lambda>p. map_option subscribers (objs s p)) (\<lambda>p. map_option target (subs s p))"
    "linked (\<lambda>p. map_option target_list (objs s p)) (\<lambda>p. map_option subscriber (subs s p))"
    "linked (\<lambda>p. map_option events (objs s p)) (\<lambda>p. map_option ev_obj (evs s p))"
    "linked (\<lambda>p. map_option cl_objects (cls s p)) (\<lambda>p. objs s p \<bind> oclient)"
    using i by (simp_all add: graph_inv_def)
  have f1: "\<exists>c. cls s cl = Some c \<and> p \<in> set (cl_objects c)" if "objs s p = Some x" "oclient x = Some cl" for p x cl
    using linked_owner [OF l(4), of p cl] that by auto
  have f2: "\<exists>x. objs s p = Some x \<and> oclient x = Some cl" if "cls s cl = Some c" "p \<in> set (cl_objects c)" for cl c p
    using linkedD [OF l(4), of cl "cl_objects c" p] that by (auto simp: bind_eq_Some_conv)
  have f3: "types s ty \<noteq> None" if "objs s p = Some x" "otype x = Some ty" for p x ty
  proof -
    have "finite (dom (\<lambda>p. objs s p \<bind> otype))" by (rule below_finite [of "clock s"]) (use i in \<open>simp add: graph_inv_def\<close>)
    then have "0 < refs (\<lambda>p. objs s p \<bind> otype) ty" by (rule refs_pos [of _ p]) (simp add: that)
    then show ?thesis using type_count_live [OF i, of ty] by (simp add: type_count_def)
  qed
  have f4: "subs s sb \<noteq> None" if "objs s p = Some x" "sb \<in> set (subscribers x) \<or> sb \<in> set (target_list x)" for p x sb
    using linkedD [OF l(1), of p "subscribers x" sb] linkedD [OF l(2), of p "target_list x" sb] that by auto
  have f5: "objs s (subscriber b) \<noteq> None" "objs s (target b) \<noteq> None" if "subs s sb = Some b" for sb b
    using linked_owner [OF l(1), of sb "target b"] linked_owner [OF l(2), of sb "subscriber b"] that by auto
  have f6: "objs s (ev_obj e) \<noteq> None" if "evs s ev = Some e" for ev e
    using linked_owner [OF l(3), of ev "ev_obj e"] that by auto
  have f7: "ubusd_find_object j s = Some p \<longleftrightarrow> (\<exists>x. objs s p = Some x \<and> obj_id x = j)" for j p
    using id_index_find [of "objects s" "\<lambda>p. map_option obj_id (objs s p)" j p] i by (auto simp: graph_inv_def ubusd_find_object_def)
  have f8: "p = q" if "objs s p = Some x" "path_key x = Some k" "objs s q = Some y" "path_key y = Some k" for p x q y k
    using strcmp_order.index_unique [of "path s" "\<lambda>p. objs s p \<bind> path_key" p k q] i that by (simp add: graph_inv_def)
  show ?thesis
    by (intro conjI allI impI; (elim conjE)?; (rule f1 f2 f3 f4 f5 f6 f7 f8; assumption)?)
qed

theorem reachable_no_dangling_witness:
  "\<exists>s x. sample_run = Some s \<and> ubusd_find_object 1 s = Some 0 \<and> objs s 0 = Some x \<and> obj_id x = 1"
proof -
  obtain s where s: "sample_run = Some s" "reachable quiet_env s" by (rule sample_run_reachable)
  have "ubusd_find_object 1 s = Some 0" using sample_run_state unfolding s(1) by simp
  moreover from this reachable_no_dangling [OF s(2)] have "\<exists>x. objs s 0 = Some x \<and> obj_id x = 1" by blast
  ultimately show ?thesis using s(1) by blast
qed

text \<open>
  C3: When a client goes away, exactly its objects go with it: in a reachable state, after
  \<open>handle_client_disconnect\<close> the client is freed, no object belongs to it, every object of another client
  is still there with its identifier, path, type and owner, and the objects are still consistent, so that
  nothing points to what was freed.
\<close>

theorem disconnect_frees_own_objects:
  assumes "reachable E s" and "handle_client_disconnect E cl s = Some s'"
  shows "cls s' cl = None \<and> graph_ok s' \<and>
    idents s' = (\<lambda>p. if objs s p \<bind> oclient = Some cl then None else idents s p)"
proof -
  have i: "graph_ok s" using assms(1) by (rule inv_reachable)
  obtain s1 s2 where s1: "drain cl s = Some s1" "free_client_objects E cl s1 = Some s2" "objs s' = objs s2"
    using assms(2) by (auto simp: handle_client_disconnect_def ubusd_proto_free_client_def bind_eq_Some_conv Let_def
      sys_close_def uloop_fd_delete_def split: if_splits)
  have k: "keeps s s1" by (rule kept_drain [OF s1(1)])
  have "idents s' = idents s2" using s1(3) by (simp add: idents_def)
  then show ?thesis using inv_disconnect [OF i assms(2)] idents_free_client_objects [OF s1(2) keeps_inv [OF k i]]
    unfolding keeps_views [OF k] keeps_idents [OF k] by simp
qed

theorem disconnect_frees_own_objects_witness:
  "\<exists>s s'. sample_run = Some s \<and> handle_client_disconnect quiet_env 4 s = Some s' \<and> cls s' 4 = None \<and> idents s' 0 \<noteq> None"
proof -
  obtain s where s: "sample_run = Some s" "reachable quiet_env s" by (rule sample_run_reachable)
  have o: "objs s 0 \<bind> oclient = None" "idents s 0 \<noteq> None" using sample_run_state unfolding s(1) by (auto simp: idents_def)
  obtain s1 c tr where c: "drain 4 s = Some s1" "cls s1 4 = Some c" "cl_objects c = []" "ubus_free_id (clients s1) (cl_id c, 4) = Some tr"
    using sample_run_frees unfolding s(1) by (auto simp: bind_eq_Some_conv)
  have "free_client_objects quiet_env 4 s1 = Some s1" using c by (subst free_client_objects.simps) simp
  with c obtain s' where s': "handle_client_disconnect quiet_env 4 s = Some s'"
    by (auto simp: handle_client_disconnect_def ubusd_proto_free_client_def Let_def)
  from disconnect_frees_own_objects [OF s(2) s'] o have "cls s' 4 = None" "idents s' 0 \<noteq> None" by simp_all
  with s(1) s' show ?thesis by blast
qed

end
