(* ===== verification/Blob_Wire.thy ===== *)
theory Blob_Wire
  imports Blob
begin

text \<open>
  Messages on the wire: what \<open>blob_parse\<close> and the getters of \<open>blob.h\<close> return on a message that was written
  attribute by attribute. The daemon and the client library both read what the other wrote, so these
  lemmas join the two sides.
\<close>

section \<open>Positions of attributes\<close>

fun positions :: "nat \<Rightarrow> battr list \<Rightarrow> nat list" where
  "positions q [] = []"
| "positions q (t # ts) = q # positions (q + length (enc_attr t)) ts"

text \<open>Where the last attribute with the id \<open>i\<close> is.\<close>

fun attr_pos :: "nat \<Rightarrow> battr list \<Rightarrow> nat \<Rightarrow> nat option" where
  "attr_pos q [] i = None"
| "attr_pos q (t # ts) i =
     (case attr_pos (q + length (enc_attr t)) ts i of
       Some p \<Rightarrow> Some p
     | None \<Rightarrow> if attr_id t = i then Some q else None)"

text \<open>What \<open>blob_check_type\<close> accepts.\<close>

definition fits :: "u32 \<Rightarrow> byte list \<Rightarrow> bool" where
  "fits ty bs \<longleftrightarrow>
     (if ty = 3 then bs \<noteq> [] \<and> last bs = 0
      else if ty = 4 then length bs = 1
      else if ty = 5 then length bs = 2
      else if ty = 6 then length bs = 4
      else if ty = 7 then length bs = 8
      else True)"

text \<open>A policy that has a type for every id and no other check.\<close>

definition typed :: "u32 list \<Rightarrow> blob_attr_info list" where
  "typed tys = map (\<lambda>t. \<lparr>itype = t, minlen = 0, maxlen = 0, validate = None\<rparr>) tys"

lemma enc_attrs_append: "enc_attrs (ts @ us) = enc_attrs ts @ enc_attrs us"
  by (induction ts) auto

lemma length_payload: "length (attr_payload t) + 4 \<le> length (enc_attr t)"
  using pad4_bounds(1) by (cases t) (auto simp: length_enc)

section \<open>Reading one attribute\<close>

lemma read_at_parts:
  assumes "read_at m q = Some (i, bs)" and "length bs < 2 ^ 24"
  shows "blob_id m q = Some i" and "\<exists>n. blob_len m q = Some n \<and> unat n = length bs" and "mem_read m (q + 4) (length bs) = Some bs"
  using assms by (auto simp: read_at_def blob_data_def mem_read_def bind_eq_Some_conv split: if_splits)

lemma mem_read_rd8: "mem_read m p n = Some bs \<Longrightarrow> k < n \<Longrightarrow> rd8 m (p + k) = Some (bs ! k)"
  by (auto simp: mem_read_def rd8_def split: if_splits)

lemma mem_read_split: "mem_read m p n = Some bs \<Longrightarrow> m = take p m @ bs @ drop (p + n) m \<and> p \<le> length m \<and> length bs = n"
  using append_take_drop_id [of p m] append_take_drop_id [of n "drop p m"]
  by (auto simp: mem_read_def add.commute split: if_splits)

lemma attr_valid_typed:
  assumes r: "read_at m q = Some (i, bs)" and n: "length bs < 2 ^ 24" and i: "i < length tys" and f: "fits (tys ! i) bs"
    and ty: "tys ! i < 8"
  shows "blob_attr_valid m q (Some (typed tys)) i = Some True"
proof -
  note p = read_at_parts [OF r n]
  obtain l where l: "blob_len m q = Some l" "unat l = length bs" using p(2) by blast
  have "unat (tys ! i) < 8" using ty by (simp add: word_less_nat_alt)
  then have "unat (tys ! i) \<in> set [0..<8]" by simp
  then have t: "tys ! i \<in> {0, 1, 2, 3, 4, 5, 6, 7}"
    by (simp add: upt_rec word_eq_iff_unsigned) (auto simp: word_unat_eq_iff)
  have l0: "bs \<noteq> [] \<Longrightarrow> unat (l - 1) = length bs - 1" using l(2) unat_minus_one [of l] by (cases "l = 0") auto
  have last: "rd8 m (q + 4 + unat (l - 1)) = Some 0" if "tys ! i = 3"
  proof -
    from that f have "bs \<noteq> []" "bs ! (length bs - 1) = 0" by (auto simp: fits_def last_conv_nth)
    then show ?thesis using mem_read_rd8 [OF p(3), of "length bs - 1"] l0 by simp
  qed
  have w: "l = word_of_nat (length bs)" using l(2) word_eq_of_unat by blast
  have l1: "tys ! i = 3 \<Longrightarrow> \<not> l < 1" using f l(2) by (auto simp: fits_def word_less_nat_alt)
  show ?thesis
    using t i f l(1) last l1 w
    by (auto simp: blob_attr_valid_def typed_def blob_check_type_def blob_type_minlen_def fits_def blob_data_def to_int32_def)
qed

lemma get_u32_at: "read_at m q = Some (i, be32 v) \<Longrightarrow> blob_get_u32 m q = Some v"
proof -
  assume "read_at m q = Some (i, be32 v)"
  from mem_read_split [OF read_at_parts(3) [OF this]] rd_be32_app [of "q + 4" "take (q + 4) m" v "drop (q + 4 + 4) m"]
  show ?thesis by (auto simp: blob_get_u32_def blob_data_def min_def)
qed

lemma get_u8_at: "read_at m q = Some (i, [v]) \<Longrightarrow> blob_get_u8 m q = Some v"
  using mem_read_rd8 [OF read_at_parts(3), of m q i "[v]" 0] by (simp add: blob_get_u8_def blob_data_def)

lemma get_string_at:
  assumes "read_at m q = Some (i, str @ [0])" and "length str + 1 < 2 ^ 24" and "0 \<notin> set str"
  shows "blob_get_string m q = Some str"
proof -
  have "length (str @ [0]) < 2 ^ 24" using assms(2) by simp
  from mem_read_split [OF read_at_parts(3) [OF assms(1) this]] obtain R where
      m: "m = take (q + 4) m @ str @ 0 # R" "q + 4 \<le> length m" by auto
  have "drop (q + 4) m = str @ 0 # R" using arg_cong [OF m(1), of "drop (q + 4)"] m(2) by simp
  moreover have "takeWhile (\<lambda>c. c \<noteq> 0) (str @ 0 # R) = str" using assms(3) by (subst takeWhile_append2) auto
  ultimately show ?thesis by (simp add: blob_get_string_def cstr_at_def blob_data_def)
qed

section \<open>Parsing a message\<close>

text \<open>The payload of the last attribute with the id \<open>i\<close>.\<close>

fun attr_val :: "battr list \<Rightarrow> nat \<Rightarrow> byte list option" where
  "attr_val [] i = None"
| "attr_val (t # ts) i =
     (case attr_val ts i of
       Some v \<Rightarrow> Some v
     | None \<Rightarrow> if attr_id t = i then Some (attr_payload t) else None)"

lemma attr_pos_None: "attr_pos q ts i = None \<longleftrightarrow> attr_val ts i = None"
  by (induction ts arbitrary: q) (auto split: option.splits)

lemma read_positions:
  "length (enc_attrs ts) < 2 ^ 24 \<Longrightarrow> attr_pos (length Q) ts i = Some p \<Longrightarrow>
     \<exists>v. attr_val ts i = Some v \<and> read_at (Q @ enc_attrs ts @ R) p = Some (i, v) \<and> length v < 2 ^ 24"
proof (induction ts arbitrary: Q)
  case (Cons t ts)
  have n: "length (enc_attr t) < 2 ^ 24" "length (enc_attrs ts) < 2 ^ 24" using Cons.prems(1) by simp_all
  show ?case
  proof (cases "attr_pos (length (Q @ enc_attr t)) ts i")
    case None
    then have "attr_id t = i" "p = length Q" using Cons.prems(2) by (auto split: if_splits)
    moreover have "attr_val ts i = None" using None by (simp only: attr_pos_None)
    ultimately show ?thesis
      using read_at_enc(1) [OF n(1), of Q "enc_attrs ts @ R"] length_payload [of t] n(1) by auto
  next
    case (Some p')
    then have "attr_pos (length (Q @ enc_attr t)) ts i = Some p" using Cons.prems(2) by simp
    with Cons.IH [OF n(2) this] show ?thesis by auto
  qed
qed simp

lemma iter_positions:
  "length (enc_attrs ts) < 2 ^ 24 \<Longrightarrow>
   blob_iter (Q @ enc_attrs ts @ R) (length Q) (int (length (enc_attrs ts))) = Some (positions (length Q) ts)"
proof (induction ts arbitrary: Q)
  case Nil
  then show ?case by (simp add: blob_iter.simps)
next
  case (Cons t ts)
  let ?n = "length (enc_attr t)" and ?m = "Q @ enc_attr t @ enc_attrs ts @ R"
  have n: "?n < 2 ^ 24" "4 \<le> ?n" using Cons.prems length_enc_attr(1) [of t] by simp_all
  note r = read_at_enc [OF n(1), of Q "enc_attrs ts @ R"]
  have IH: "blob_iter ?m (length Q + ?n) (int (length (enc_attrs ts))) = Some (positions (length Q + ?n) ts)"
    using Cons.IH [of "Q @ enc_attr t"] Cons.prems by simp
  have u: "uint (word_of_nat ?n :: u32) = int ?n" "unat (word_of_nat ?n :: u32) = ?n" "4 \<le> (word_of_nat ?n :: u32)"
    using n by (auto simp: uint_nat word_le_nat_alt)
  show ?case using n r(2) IH u by (subst blob_iter.simps) simp
qed

definition well_typed :: "u32 list \<Rightarrow> battr list \<Rightarrow> bool" where
  "well_typed tys ts \<longleftrightarrow> (\<forall>t\<in>set ts. attr_id t < length tys \<and> tys ! attr_id t < 8 \<and> fits (tys ! attr_id t) (attr_payload t))"

lemma parse_loop_enc:
  "length (enc_attrs ts) < 2 ^ 24 \<Longrightarrow> well_typed tys ts \<Longrightarrow> length data = length tys \<Longrightarrow>
   \<exists>found'. blob_parse_loop (Q @ enc_attrs ts @ R) (Some (typed tys)) (positions (length Q) ts) found data =
     Some (found', map (\<lambda>i. case attr_pos (length Q) ts i of Some p \<Rightarrow> Some p | None \<Rightarrow> data ! i) [0..<length data])"
proof (induction ts arbitrary: Q found data)
  case Nil
  then show ?case using map_nth [of data] by simp
next
  case (Cons t ts)
  let ?m = "Q @ enc_attr t @ enc_attrs ts @ R" and ?i = "attr_id t"
  have n: "length (enc_attr t) < 2 ^ 24" using Cons.prems by simp
  have ty: "?i < length tys" "tys ! ?i < 8" "fits (tys ! ?i) (attr_payload t)" using Cons.prems(2) by (auto simp: well_typed_def)
  have small: "length (attr_payload t) < 2 ^ 24" using length_payload [of t] n by simp
  note r = read_at_enc(1) [OF n, of Q "enc_attrs ts @ R"]
  have v: "blob_attr_valid ?m (length Q) (Some (typed tys)) ?i = Some True" by (rule attr_valid_typed [OF r small ty(1,3,2)])
  have i: "blob_id ?m (length Q) = Some ?i" using read_at_parts(1) [OF r small] .
  define f where "f = (if data ! ?i = None then found + 1 else found)"
  obtain found' where IH: "blob_parse_loop ((Q @ enc_attr t) @ enc_attrs ts @ R) (Some (typed tys)) (positions (length (Q @ enc_attr t)) ts) f
      (data[?i := Some (length Q)]) =
      Some (found', map (\<lambda>j. case attr_pos (length (Q @ enc_attr t)) ts j of Some p \<Rightarrow> Some p | None \<Rightarrow> (data[?i := Some (length Q)]) ! j)
        [0..<length (data[?i := Some (length Q)])])"
    using Cons.IH [of "data[?i := Some (length Q)]" "Q @ enc_attr t" f] Cons.prems by (auto simp: well_typed_def)
  have "blob_parse_loop ?m (Some (typed tys)) (positions (length Q) (t # ts)) found data =
      Some (found', map (\<lambda>j. case attr_pos (length (Q @ enc_attr t)) ts j of Some p \<Rightarrow> Some p | None \<Rightarrow> (data[?i := Some (length Q)]) ! j)
        [0..<length (data[?i := Some (length Q)])])"
    using IH i v ty(1) Cons.prems(3) by (simp add: f_def)
  moreover have "map (\<lambda>j. case attr_pos (length (Q @ enc_attr t)) ts j of Some p \<Rightarrow> Some p | None \<Rightarrow> (data[?i := Some (length Q)]) ! j)
        [0..<length (data[?i := Some (length Q)])] =
      map (\<lambda>j. case attr_pos (length Q) (t # ts) j of Some p \<Rightarrow> Some p | None \<Rightarrow> data ! j) [0..<length data]"
    using ty(1) Cons.prems(3) by (auto simp: nth_list_update split: option.splits)
  ultimately show ?case by simp
qed

lemma blob_parse_enc:
  assumes n: "length (enc_attrs ts) + 4 < 2 ^ 24" and ty: "well_typed tys ts"
  shows "\<exists>found. blob_parse (enc_attr (Nest j ts) @ R) (Some 0) (Some (typed tys)) (length tys) =
    Some (found, map (attr_pos 4 ts) [0..<length tys])"
proof -
  let ?w = "new_hdr j (length (enc_attrs ts))" and ?m = "enc_attr (Nest j ts) @ R"
  have raw: "raw ?w = length (enc_attrs ts) + 4" using n by (intro raw_new_hdr)
  have l: "blob_len ?m 0 = Some (hdr_len ?w)" "unat (hdr_len ?w) = length (enc_attrs ts)"
    using hdr_len_raw [of ?w] raw rd_be32_app [of 0 "[]"] by (simp_all add: blob_len_def)
  then have "to_int32 (uint (hdr_len ?w)) = int (length (enc_attrs ts))" using n by (simp add: uint_nat)
  then have "blob_for_each_attr ?m (Some 0) = Some (positions 4 ts)"
    using iter_positions [of ts "be32 ?w" R] l n by (simp add: blob_for_each_attr_def blob_data_def)
  moreover have e: "map (\<lambda>i. case attr_pos 4 ts i of Some p \<Rightarrow> Some p | None \<Rightarrow> replicate (length tys) None ! i) [0..<length tys] =
      map (attr_pos 4 ts) [0..<length tys]"
    by (auto split: option.splits)
  have "\<exists>found. blob_parse_loop ?m (Some (typed tys)) (positions 4 ts) 0 (replicate (length tys) None) =
      Some (found, map (attr_pos 4 ts) [0..<length tys])"
    using parse_loop_enc [of ts tys "replicate (length tys) None" "be32 ?w" R 0] n ty
    unfolding length_replicate length_be32 e by simp
  ultimately show ?thesis by (simp add: blob_parse_def)
qed

text \<open>The values in a parsed message.\<close>

lemma attr_at:
  assumes "length (enc_attrs ts) + 4 < 2 ^ 24" and "attr_val ts i = Some v"
  obtains p where "attr_pos 4 ts i = Some p" "read_at (enc_attr (Nest j ts) @ R) p = Some (i, v)" "length v < 2 ^ 24"
proof -
  obtain p where p: "attr_pos 4 ts i = Some p" using attr_pos_None [of 4 ts i] assms(2) by auto
  then show thesis
    using read_positions [of ts "be32 (new_hdr j (length (enc_attrs ts)))" i p R] assms that by auto
qed

section \<open>Building a message in a static buffer\<close>

text \<open>The buffer holds the attributes \<open>ts\<close>.\<close>

definition buf_holds :: "blob_buf \<Rightarrow> battr list \<Rightarrow> bool" where
  "buf_holds b ts \<longleftrightarrow> (\<exists>R. blob_view b [] (new_hdr 0 (length (enc_attrs ts))) (enc_attrs ts) R)"

definition buf_ok :: "blob_buf \<Rightarrow> bool" where
  "buf_ok b \<longleftrightarrow> 4 dvd length (buf b) \<and> length (buf b) < 2 ^ 30"

lemma buf_holds_ok: "buf_holds b ts \<Longrightarrow> buf_ok b"
  using pad_dvd [of "new_hdr 0 (length (enc_attrs ts))"] length_enc_attr(3) [of ts]
  by (auto simp: buf_holds_def buf_ok_def blob_view_def)

lemma init_holds: "buf_ok b \<Longrightarrow> \<exists>b'. blob_buf_init (\<lambda>_. True) b 0 = Some (0, b') \<and> buf_holds b' []"
  using blob_buf_init_ok [of b "\<lambda>_. True" 0] by (auto simp: buf_ok_def buf_holds_def)

lemma put_holds:
  assumes h: "buf_holds b ts" and n: "length (enc_attrs (ts @ [Leaf i bs])) + 4 < 2 ^ 24"
  shows "\<exists>r b'. blob_put (\<lambda>_. True) b i (Some bs) (word_of_nat (length bs)) = Some (r, b') \<and> buf_holds b' (ts @ [Leaf i bs])"
proof -
  let ?k = "length (enc_attrs ts)"
  obtain R where v: "blob_view b [] (new_hdr 0 ?k) (enc_attrs ts) R" using h by (auto simp: buf_holds_def)
  have raw: "raw (new_hdr 0 ?k) = ?k + 4" using n by (intro raw_new_hdr) (simp add: enc_attrs_append)
  then have pad: "pad (new_hdr 0 ?k) = ?k + 4" using length_enc_attr(3) [of ts] by (simp add: pad_eq)
  have "length [] + pad (new_hdr 0 ?k) + length (enc i bs) < 2 ^ 24" using n pad by (simp add: enc_attrs_append)
  from blob_put_appends [OF v this, of "\<lambda>_. True"] show ?thesis
    by (auto simp: appends_def buf_holds_def pad set_len_new_hdr enc_attrs_append add_ac)
qed

lemma blob_put_take:
  "unat n \<le> length src \<Longrightarrow> blob_put alloc b i (Some src) n = blob_put alloc b i (Some (take (unat n) src)) n"
  by (auto simp: blob_put_def mem_read_def min_def split: option.split bind_splits)

text \<open>\<open>b.head\<close> is the message.\<close>

lemma holds_msg_bytes:
  assumes h: "buf_holds b ts" and n: "length (enc_attrs ts) + 4 < 2 ^ 24"
  shows "head b = Some 0" and "\<exists>R. buf b = enc_attr (Nest 0 ts) @ R"
    and "blob_raw_len (buf b) 0 = Some (word_of_nat (4 + length (enc_attrs ts)))"
    and "unat (word_of_nat (4 + length (enc_attrs ts)) :: u32) = 4 + length (enc_attrs ts)"
proof -
  let ?k = "length (enc_attrs ts)"
  obtain R where R: "buf b = be32 (new_hdr 0 ?k) @ enc_attrs ts @ R" and hd: "head b = Some 0"
    using h by (auto simp: buf_holds_def blob_view_def)
  show "head b = Some 0" "\<exists>R. buf b = enc_attr (Nest 0 ts) @ R" using hd R by auto
  show "unat (word_of_nat (4 + ?k) :: u32) = 4 + ?k" using n by (simp add: unat_of_nat del: of_nat_add)
  have "raw (new_hdr 0 ?k) = 4 + ?k" using n raw_new_hdr [of ?k 0] by simp
  then have "hdr_raw_len (new_hdr 0 ?k) = word_of_nat (4 + ?k)" by (rule word_eq_of_unat)
  then show "blob_raw_len (buf b) 0 = Some (word_of_nat (4 + ?k))"
    using rd_be32_app [of 0 "[]" "new_hdr 0 ?k"] by (simp add: R blob_raw_len_def del: of_nat_add)
qed

text \<open>
  The daemon and the client library each build their messages in a static variable \<open>b\<close>, inside a larger
  state. The interface: the state has the buffer, and the two operations do to the buffer what \<open>blob_buf_init\<close>
  and \<open>blob_put\<close> do when memory is available, and keep the rest of the state.
\<close>

locale static_buffer =
  fixes contents :: "'s \<Rightarrow> blob_buf" and init :: "'s \<Rightarrow> 's option" and put :: "int \<Rightarrow> byte list \<Rightarrow> 's \<Rightarrow> 's option"
    and same :: "'s \<Rightarrow> 's \<Rightarrow> bool"
  assumes init: "blob_buf_init (\<lambda>_. True) (contents s) 0 = Some (r, b) \<Longrightarrow> \<exists>s'. init s = Some s' \<and> contents s' = b \<and> same s s'"
    and put: "blob_put (\<lambda>_. True) (contents s) i (Some bs) (word_of_nat (length bs)) = Some (q, b) \<Longrightarrow>
      \<exists>s'. put i bs s = Some s' \<and> contents s' = b \<and> same s s'"
    and same_trans: "same s s1 \<Longrightarrow> same s1 s2 \<Longrightarrow> same s s2"
    and same_refl: "same s s"
begin

lemma init_ok: "buf_ok (contents s) \<Longrightarrow> \<exists>s'. init s = Some s' \<and> buf_holds (contents s') [] \<and> same s s'"
  using init_holds [of "contents s"] init by blast

lemma put_ok:
  "buf_holds (contents s) ts \<Longrightarrow> length (enc_attrs (ts @ [Leaf i bs])) + 4 < 2 ^ 24 \<Longrightarrow>
   \<exists>s'. put i bs s = Some s' \<and> buf_holds (contents s') (ts @ [Leaf i bs]) \<and> same s s'"
  using put_holds [of "contents s" ts i bs] put by blast

text \<open>A whole message: an initialisation and a series of values.\<close>

primrec puts :: "(int \<times> byte list) list \<Rightarrow> 's \<Rightarrow> 's option" where
  "puts [] s = Some s"
| "puts (x # xs) s = put (fst x) (snd x) s \<bind> puts xs"

lemma puts_unfold: "puts [] = Some" "puts ((i, bs) # xs) = (\<lambda>s. put i bs s \<bind> puts xs)"
  by (simp_all add: fun_eq_iff)

lemma puts_ok:
  "buf_holds (contents s) ts \<Longrightarrow> length (enc_attrs (ts @ map (\<lambda>(i, bs). Leaf i bs) xs)) + 4 < 2 ^ 24 \<Longrightarrow>
   \<exists>s'. puts xs s = Some s' \<and> buf_holds (contents s') (ts @ map (\<lambda>(i, bs). Leaf i bs) xs) \<and> same s s'"
proof (induction xs arbitrary: s ts)
  case Nil
  then show ?case using same_refl by simp
next
  case (Cons x xs)
  obtain i bs where x: "x = (i, bs)" by fastforce
  have "length (enc_attrs (ts @ [Leaf i bs])) + 4 < 2 ^ 24" using Cons.prems(2) x by (simp add: enc_attrs_append)
  then obtain s1 where s1: "put i bs s = Some s1" "buf_holds (contents s1) (ts @ [Leaf i bs])" "same s s1"
    using put_ok [OF Cons.prems(1)] by blast
  from Cons.IH [OF s1(2)] Cons.prems(2) x obtain s' where
      "puts xs s1 = Some s'" "buf_holds (contents s') (ts @ map (\<lambda>(i, bs). Leaf i bs) (x # xs))" "same s1 s'" by auto
  then show ?case using s1(1,3) same_trans x by auto
qed

lemma build_ok:
  assumes "buf_ok (contents s)" and "length (enc_attrs (map (\<lambda>(i, bs). Leaf i bs) xs)) + 4 < 2 ^ 24"
  obtains s1 s' where "init s = Some s1" "puts xs s1 = Some s'" "buf_holds (contents s') (map (\<lambda>(i, bs). Leaf i bs) xs)" "same s s'"
proof -
  obtain s1 where s1: "init s = Some s1" "buf_holds (contents s1) []" "same s s1" using init_ok [OF assms(1)] by blast
  from puts_ok [OF s1(2), of xs] assms(2) obtain s' where "puts xs s1 = Some s'"
      "buf_holds (contents s') (map (\<lambda>(i, bs). Leaf i bs) xs)" "same s1 s'" by auto
  with s1 that same_trans show thesis by blast
qed

end

end
