(* ===== verification/Ubus_Wire.thy ===== *)
theory Ubus_Wire
  imports Blob_Wire Ubusd_State
begin

text \<open>
  The messages that the client library and the daemon exchange for an invocation, and what both sides read from
  them. The two have the same attribute numbers and differ in the types they demand.
\<close>

section \<open>Invocations\<close>

definition invoke_attrs :: "u32 \<Rightarrow> cstring \<Rightarrow> byte list option \<Rightarrow> battr list" where
  "invoke_attrs oid name pl =
     [Leaf (int UBUS_ATTR_OBJID) (be32 oid), Leaf (int UBUS_ATTR_METHOD) (name @ [0])] @
     (case pl of None \<Rightarrow> [] | Some d \<Rightarrow> [Leaf (int UBUS_ATTR_DATA) d])"

text \<open>The attribute \<open>D\<close> holds the data \<open>pl\<close>.\<close>

definition attr_is :: "(byte list \<times> nat) option \<Rightarrow> byte list option \<Rightarrow> bool" where
  "attr_is D pl \<longleftrightarrow>
     (case (D, pl) of
       (None, None) \<Rightarrow> True
     | (Some (m, p), Some d) \<Rightarrow> read_at m p = Some (UBUS_ATTR_DATA, d)
     | _ \<Rightarrow> False)"

lemma invoke_attrs_values:
  "attr_val (invoke_attrs oid name pl) UBUS_ATTR_OBJID = Some (be32 oid)"
  "attr_val (invoke_attrs oid name pl) UBUS_ATTR_METHOD = Some (name @ [0])"
  "attr_val (invoke_attrs oid name pl) UBUS_ATTR_DATA = pl"
  "attr_val (invoke_attrs oid name pl) UBUS_ATTR_NO_REPLY = None"
  by (auto simp: invoke_attrs_def UBUS_ATTR_OBJID_def UBUS_ATTR_METHOD_def UBUS_ATTR_DATA_def UBUS_ATTR_NO_REPLY_def split: option.split)

text \<open>A list of types that demands an integer for an identifier and a string for a method.\<close>

definition invoke_types :: "u32 list \<Rightarrow> bool" where
  "invoke_types tys \<longleftrightarrow> length tys = UBUS_ATTR_MAX \<and> tys ! UBUS_ATTR_OBJID = 6 \<and> tys ! UBUS_ATTR_METHOD = 3 \<and> tys ! UBUS_ATTR_DATA = 0"

lemma invoke_attrs_typed: "invoke_types tys \<Longrightarrow> well_typed tys (invoke_attrs oid name pl)"
  by (auto simp: well_typed_def invoke_attrs_def invoke_types_def UBUS_ATTR_OBJID_def UBUS_ATTR_METHOD_def UBUS_ATTR_DATA_def
      UBUS_ATTR_MAX_def fits_def split: option.splits)

lemma invoke_parsed:
  assumes tys: "invoke_types tys"
    and n: "length (enc_attrs (invoke_attrs oid name pl)) + 4 < 2 ^ 24" and z: "0 \<notin> set name"
    and d: "data = enc_attr (Nest 0 (invoke_attrs oid name pl)) @ R"
  obtains found tb p mp where "blob_parse data (Some 0) (Some (typed tys)) UBUS_ATTR_MAX = Some (found, tb)"
    "tb ! UBUS_ATTR_OBJID = Some p" "blob_get_u32 data p = Some oid"
    "tb ! UBUS_ATTR_METHOD = Some mp" "blob_get_string data mp = Some name" "tb ! UBUS_ATTR_NO_REPLY = None"
    "attr_is (map_option (Pair data) (tb ! UBUS_ATTR_DATA)) pl"
proof -
  let ?ts = "invoke_attrs oid name pl"
  note v = invoke_attrs_values [of oid name pl]
  define tb where "tb = map (attr_pos 4 ?ts) [0..<UBUS_ATTR_MAX]"
  have tb: "tb ! i = attr_pos 4 ?ts i" if "i < 12" for i
    unfolding tb_def using that by (subst nth_map) (simp_all add: UBUS_ATTR_MAX_def del: upt_Suc)
  obtain p where p: "attr_pos 4 ?ts UBUS_ATTR_OBJID = Some p" "read_at data p = Some (UBUS_ATTR_OBJID, be32 oid)"
    using attr_at [OF n v(1), of 0 R] d by blast
  obtain mp where mp: "attr_pos 4 ?ts UBUS_ATTR_METHOD = Some mp" "read_at data mp = Some (UBUS_ATTR_METHOD, name @ [0])" "length (name @ [0]) < 2 ^ 24"
    using attr_at [OF n v(2), of 0 R] d by blast
  have "attr_is (map_option (Pair data) (attr_pos 4 ?ts UBUS_ATTR_DATA)) pl"
  proof (cases pl)
    case None
    then show ?thesis using v(3) attr_pos_None [of 4 ?ts UBUS_ATTR_DATA] by (simp add: attr_is_def)
  next
    case (Some b)
    then have "attr_val ?ts UBUS_ATTR_DATA = Some b" using v(3) by simp
    from attr_at [OF n this, of 0 R] obtain q where "attr_pos 4 ?ts UBUS_ATTR_DATA = Some q" "read_at data q = Some (UBUS_ATTR_DATA, b)"
      using d by blast
    then show ?thesis using Some by (simp add: attr_is_def)
  qed
  moreover have "attr_pos 4 ?ts UBUS_ATTR_NO_REPLY = None" using v(4) attr_pos_None by blast
  moreover obtain found where "blob_parse data (Some 0) (Some (typed tys)) UBUS_ATTR_MAX = Some (found, tb)"
    using blob_parse_enc [OF n invoke_attrs_typed [OF tys], of 0 R] d tys by (auto simp: tb_def invoke_types_def)
  ultimately show thesis
    using that [of found tb p mp] p mp get_u32_at [OF p(2)] get_string_at [OF mp(2) _ z] tb
    by (simp add: UBUS_ATTR_OBJID_def UBUS_ATTR_METHOD_def UBUS_ATTR_DATA_def UBUS_ATTR_NO_REPLY_def)
qed

end
