(* ===== verification/Ubusd_Invoke.thy ===== *)
theory Ubusd_Invoke
  imports Ubusd_Client Ubus_Wire
begin

text \<open>
  An invocation on its way through the daemon: \<open>ubusd_handle_invoke\<close> builds the message for the owner of the
  object in the static buffer \<open>b\<close> and writes it to the socket of the owner.
\<close>

section \<open>The static buffer of the daemon\<close>

text \<open>\<open>s'\<close> differs from \<open>s\<close> in \<open>b\<close> at most.\<close>

definition d_buffered :: "ubusd \<Rightarrow> ubusd \<Rightarrow> bool" where
  "d_buffered s s' \<longleftrightarrow> s' = s\<lparr>bb := bb s', clock := clock s'\<rparr> \<and> clock s \<le> clock s'"

definition d_with_memory :: "env \<Rightarrow> env" where
  "d_with_memory E = E\<lparr>e_alloc := (\<lambda>_. True)\<rparr>"

definition b_put_bytes :: "env \<Rightarrow> int \<Rightarrow> byte list \<Rightarrow> ubusd \<Rightarrow> ubusd option" where
  "b_put_bytes E i bs s = map_option snd (with_b E (\<lambda>a b. blob_put a b i (Some bs) (word_of_nat (length bs))) s)"

lemma d_with_memory_id: "(\<And>t. e_alloc E t) \<Longrightarrow> d_with_memory E = E"
  by (cases E) (auto simp: d_with_memory_def)

lemma d_buffered_same:
  "d_buffered s s' \<Longrightarrow> cls s' = cls s \<and> objs s' = objs s \<and> msgs s' = msgs s \<and> out s' = out s \<and> clock s \<le> clock s'"
  by (cases s, cases s') (simp add: d_buffered_def)

lemma fresh_heap_mono: "fresh_heap s \<Longrightarrow> dom (msgs s') \<subseteq> dom (msgs s) \<Longrightarrow> clock s \<le> clock s' \<Longrightarrow> fresh_heap s'"
  unfolding fresh_heap_def by (meson less_le_trans subsetD)

interpretation b_buffer: static_buffer bb "b_init (d_with_memory E)" "b_put_bytes (d_with_memory E)" d_buffered for E
proof (unfold_locales, goal_cases)
  case (1 s r b)
  then show ?case by (auto simp: b_init_def with_b_def d_with_memory_def d_buffered_def)
next
  case (2 s i bs q b)
  then show ?case by (auto simp: b_put_bytes_def with_b_def d_with_memory_def d_buffered_def)
next
  case (3 s s1 s2)
  then show ?case by (cases s, cases s1, cases s2) (auto simp: d_buffered_def)
next
  case (4 s)
  show ?case by (simp add: d_buffered_def)
qed

lemma b_puts:
  "b_put_int32 E i v = b_put_bytes E (int i) (be32 v)" "b_put_string E i str = b_put_bytes E (int i) (str @ [0])"
  by (simp_all add: fun_eq_iff b_put_int32_def b_put_string_def b_put_bytes_def blob_put_u32_def blob_put_string_def)

lemma b_put_attr:
  assumes "read_at m p = Some (i, pl)" and "length pl < 2 ^ 24"
  shows "\<exists>n. blob_len m p = Some n \<and> b_put E j m (blob_data p) n s = b_put_bytes E (int j) pl s"
proof -
  obtain n where n: "blob_len m p = Some n" "unat n = length pl" using read_at_parts(2) [OF assms] by blast
  have r: "mem_read m (p + 4) (length pl) = Some pl" using read_at_parts(3) [OF assms] .
  have "unat n \<le> length (drop (blob_data p) m)" "take (unat n) (drop (blob_data p) m) = pl"
    using r n(2) by (auto simp: mem_read_def blob_data_def split: if_splits)
  moreover have "n = word_of_nat (length pl)" using n(2) word_eq_of_unat by blast
  ultimately show ?thesis
    using n(1) blob_put_take [of n "drop (blob_data p) m"] by (simp add: b_put_def b_put_bytes_def)
qed

section \<open>Forwarding\<close>

definition ubusd_types :: "u32 list" where
  "ubusd_types = [0, 6, 3, 6, 3, 6, 1, 0, 0, 0, 0, 0]"

lemma ubus_policy_typed: "ubus_policy = typed ubusd_types" "invoke_types ubusd_types"
  by (simp_all add: ubus_policy_def ubusd_types_def typed_def invoke_types_def UBUS_ATTR_MAX_def UBUS_ATTR_OBJID_def
      UBUS_ATTR_METHOD_def UBUS_ATTR_DATA_def)

text \<open>The socket takes a message at once, nothing is queued and memory is available.\<close>

definition takes :: "env \<Rightarrow> int \<Rightarrow> bool" where
  "takes E fd \<longleftrightarrow> (\<forall>t n. e_send E t fd n = int n) \<and> (\<forall>t. e_alloc E t)"

lemma send_shared_ok:
  assumes E: "takes E (sock_fd co)" and o: "cls s ow = Some co" and q: "array_get (tx_queue co) (txq_cur co) = Some None"
    and m: "msgs s ub = Some m" and rc: "refcount m = -1" and len: "len m < 2 ^ 31"
  shows "\<exists>s'. ubus_msg_send E (Some ow) ub True s = Some s' \<and>
    stream_of (sock_fd co) (out s') = stream_of (sock_fd co) (out s) @ msg_bytes m \<and> msgs s' = (msgs s)(ub := None) \<and> clock s \<le> clock s'"
proof -
  let ?n = "8 + len m" and ?fd = "sock_fd co"
  let ?s1 = "s\<lparr>clock := clock s + 1, out := out s @ [Sent ?fd (msg_bytes m) (if mfd m < 0 then None else Some (mfd m))]\<rparr>"
  have "length (hdr_bytes (hdr m) @ mdata m) = ?n" by simp
  then have w: "ubus_msg_writev E ?fd ub 0 s = Some (int ?n, ?s1)"
    using E m by (simp add: ubus_msg_writev_def takes_def msg_bytes_def)
  have z: "to_size (int ?n) \<ge> len m + 8" using len by (simp add: to_size_def)
  have "ubus_msg_send E (Some ow) ub True s = ubus_msg_free ub ?s1"
    using o q m w z by (simp add: ubus_msg_send_def)
  then show ?thesis using m rc by (auto simp: ubus_msg_free_def sys_close_def stream_of_def)
qed

lemma send_blob_ok:
  assumes E: "takes E (sock_fd co)" and o: "cls s ow = Some co" and q: "array_get (tx_queue co) (txq_cur co) = Some None"
    and m: "msgs s ub = Some m" and f: "fresh_heap s" and h: "buf_holds (bb s) ts" and n: "length (enc_attrs ts) + 4 < 2 ^ 24"
  shows "\<exists>s'. ubus_send_msg_from_blob E (Some ow) ub ty s = Some s' \<and> msgs s' = msgs s \<and> clock s \<le> clock s' \<and>
    stream_of (sock_fd co) (out s') = stream_of (sock_fd co) (out s) @
      hdr_bytes \<lparr>version = 0, msg_type = ty, seq = seq (hdr m), peer = peer (hdr m)\<rparr> @ enc_attr (Nest 0 ts)"
proof -
  let ?k = "length (enc_attrs ts)" and ?new = "clock s"
  note b = holds_msg_bytes [OF h n]
  obtain R where R: "buf (bb s) = enc_attr (Nest 0 ts) @ R" using b(2) by blast
  have d: "mem_read (buf (bb s)) 0 (4 + ?k) = Some (enc_attr (Nest 0 ts))" by (simp add: R mem_read_def)
  have new: "msgs s ?new = None" "ub \<noteq> ?new" using f m by (auto simp: fresh_heap_def)
  define M where "M = \<lparr>refcount = -1, hdr = \<lparr>version = 0, msg_type = ty, seq = seq (hdr m), peer = peer (hdr m)\<rparr>,
    mdata = enc_attr (Nest 0 ts), mfd = -1\<rparr>"
  define s1 where "s1 = s\<lparr>clock := clock s + 1, msgs := (msgs s)(?new \<mapsto> M)\<rparr>"
  have "ubus_send_msg_from_blob E (Some ow) ub ty s = ubus_msg_send E (Some ow) ?new True s1"
    using b(1,3) d E m new(2) unfolding ubus_send_msg_from_blob_def ubus_reply_from_blob_def ubus_msg_from_blob_def
    by (simp add: b(4) ubus_msg_new_def calloc_def takes_def ubus_msg_init_def upd_msg_def s1_def M_def del: of_nat_add)
  moreover have "cls s1 ow = Some co" "msgs s1 ?new = Some M" "refcount M = -1" "len M < 2 ^ 31"
    using o n by (simp_all add: s1_def M_def)
  then obtain s' where "ubus_msg_send E (Some ow) ?new True s1 = Some s'" "msgs s' = (msgs s1)(?new := None)" "clock s1 \<le> clock s'"
      "stream_of (sock_fd co) (out s') = stream_of (sock_fd co) (out s1) @ msg_bytes M"
    using send_shared_ok [OF E _ q, of s1 ow ?new M] by blast
  ultimately show ?thesis using new(1) by (auto simp: s1_def M_def msg_bytes_def fun_upd_idem)
qed

definition invoke_values :: "u32 \<Rightarrow> cstring \<Rightarrow> byte list option \<Rightarrow> (int \<times> byte list) list" where
  "invoke_values oid name pl =
     [(int UBUS_ATTR_OBJID, be32 oid), (int UBUS_ATTR_METHOD, name @ [0])] @
     (case pl of None \<Rightarrow> [] | Some d \<Rightarrow> [(int UBUS_ATTR_DATA, d)])"

lemma invoke_values: "map (\<lambda>(i, bs). Leaf i bs) (invoke_values oid name pl) = invoke_attrs oid name pl"
  by (simp add: invoke_values_def invoke_attrs_def split: option.split)

lemma put_invocation:
  assumes E: "d_with_memory E = E" and d: "attr_is (map_option (Pair D) data) pl" and n: "\<forall>d. pl = Some d \<longrightarrow> length d < 2 ^ 24"
  shows "do { s \<leftarrow> b_put_int32 E UBUS_ATTR_OBJID oid s; s \<leftarrow> b_put_string E UBUS_ATTR_METHOD name s;
      case data of None \<Rightarrow> Some s | Some d \<Rightarrow> do { n \<leftarrow> blob_len D d; b_put E UBUS_ATTR_DATA D (blob_data d) n s } } =
    b_buffer.puts E (invoke_values oid name pl) s"
proof (cases data)
  case None
  then have p: "pl = None" using d by (auto simp: attr_is_def split: option.splits)
  show ?thesis unfolding None p invoke_values_def append.simps option.case b_buffer.puts_unfold by (simp add: b_puts E)
next
  case (Some q)
  then obtain p where p: "pl = Some p" "read_at D q = Some (UBUS_ATTR_DATA, p)" using d by (auto simp: attr_is_def split: option.splits)
  have "do { n \<leftarrow> blob_len D q; b_put E UBUS_ATTR_DATA D (blob_data q) n s } = b_put_bytes E (int UBUS_ATTR_DATA) p s" for s
    using b_put_attr [OF p(2), of E UBUS_ATTR_DATA s] n p(1) by auto
  then show ?thesis unfolding Some p(1) invoke_values_def append.simps option.case b_buffer.puts_unfold by (simp add: b_puts E)
qed

lemma ubusd_forward_invoke_ok:
  assumes E: "takes E (sock_fd co)" and o: "cls s ow = Some co" and q: "array_get (tx_queue co) (txq_cur co) = Some None"
    and x: "objs s obj = Some x" "obj_id x = oid" "oclient x = Some ow" and m: "msgs s ub = Some m" and f: "fresh_heap s"
    and h: "buf_holds (bb s) []" and n: "length (enc_attrs (invoke_attrs oid name pl)) + 4 < 2 ^ 24"
    and d: "attr_is (map_option (Pair D) data) pl"
  shows "\<exists>s'. ubusd_forward_invoke E obj name ub D data s = Some s' \<and> msgs s' = msgs s \<and>
    stream_of (sock_fd co) (out s') = stream_of (sock_fd co) (out s) @
      hdr_bytes \<lparr>version = 0, msg_type = UBUS_MSG_INVOKE, seq = seq (hdr m), peer = peer (hdr m)\<rparr> @
      enc_attr (Nest 0 (invoke_attrs oid name pl))"
proof -
  let ?ts = "invoke_attrs oid name pl"
  have mem: "d_with_memory E = E" using E by (intro d_with_memory_id) (simp add: takes_def)
  have pl: "\<forall>d. pl = Some d \<longrightarrow> length d < 2 ^ 24"
    using n length_payload [of "Leaf (int UBUS_ATTR_DATA) (the pl)"] by (auto simp: invoke_attrs_def)
  obtain s1 where s1: "b_buffer.puts E (invoke_values oid name pl) s = Some s1" "buf_holds (bb s1) ?ts" "d_buffered s s1"
    using b_buffer.puts_ok [OF h, of "invoke_values oid name pl" E] n by (auto simp: invoke_values)
  have s1': "cls s1 = cls s" "msgs s1 = msgs s" "out s1 = out s" "clock s \<le> clock s1"
    using d_buffered_same [OF s1(3)] by simp_all
  have "fresh_heap s1" using fresh_heap_mono [OF f] s1' by simp
  then obtain s' where "ubus_send_msg_from_blob E (Some ow) ub UBUS_MSG_INVOKE s1 = Some s'" "msgs s' = msgs s1"
      "stream_of (sock_fd co) (out s') = stream_of (sock_fd co) (out s1) @
        hdr_bytes \<lparr>version = 0, msg_type = UBUS_MSG_INVOKE, seq = seq (hdr m), peer = peer (hdr m)\<rparr> @ enc_attr (Nest 0 ?ts)"
    using send_blob_ok [OF E _ q, of s1 ow ub m ?ts UBUS_MSG_INVOKE] o m s1(2) s1' n by auto
  then show ?thesis
    using put_invocation [OF mem d pl, of oid s name] s1(1) x s1' by (auto simp: ubusd_forward_invoke_def split: bind_splits)
qed

text \<open>
  An invocation is forwarded: when a client invokes a method of an object of another client (or its own), the
  daemon writes to the socket of the owner exactly one message, an invocation with the sequence number of the
  request, the identifier of the caller as peer, and the same object, method and data; the received message is
  freed, no status is sent yet. (The socket of the owner takes the message at once and nothing is queued before it.)
\<close>

lemma invoke_forwarded:
  assumes "takes E (sock_fd co)" and "cls s cl = Some c" and "objs s obj = Some x" and "oclient x = Some ow" and "cls s ow = Some co"
    and "array_get (tx_queue co) (txq_cur co) = Some None"
    and "msgs s ub = Some m" and "refcount m = 1" and "mfd m < 0" and "msgs s (retmsg s) = Some r" and "ub \<noteq> retmsg s"
    and "fresh_heap s" and "buf_ok (bb s)" and "msg_type (hdr m) = UBUS_MSG_INVOKE"
    and "mdata m = enc_attr (Nest 0 (invoke_attrs oid name pl))" and "length (enc_attrs (invoke_attrs oid name pl)) + 4 < 2 ^ 24"
    and "0 \<notin> set name" and "ubus_find_id (objects s) oid = Some obj" and "obj_id x = oid"
  shows "\<exists>s'. ubusd_proto_receive_message E cl ub s = Some s' \<and> msgs s' ub = None \<and>
    stream_of (sock_fd co) (out s') = stream_of (sock_fd co) (out s) @
      hdr_bytes \<lparr>version = 0, msg_type = UBUS_MSG_INVOKE, seq = seq (hdr m), peer = cl_id c\<rparr> @
      enc_attr (Nest 0 (invoke_attrs oid name pl))"
proof -
  let ?D = "mdata m" and ?ts = "invoke_attrs oid name pl"
  obtain found tb p mp where tb: "blob_parse ?D (Some 0) (Some (typed ubusd_types)) UBUS_ATTR_MAX = Some (found, tb)"
      "tb ! UBUS_ATTR_OBJID = Some p" "blob_get_u32 ?D p = Some oid"
      "tb ! UBUS_ATTR_METHOD = Some mp" "blob_get_string ?D mp = Some name"
      "attr_is (map_option (Pair ?D) (tb ! UBUS_ATTR_DATA)) pl"
    by (rule invoke_parsed [OF ubus_policy_typed(2) assms(16,17), of ?D "[]"]) (simp add: assms(15))
  have parse: "ubus_parse_msg ?D = Some (?D, tb)" using tb(1) by (simp add: ubus_parse_msg_def ubus_policy_typed(1))
  define m' where "m' = m\<lparr>hdr := (hdr m)\<lparr>peer := cl_id c\<rparr>\<rparr>"
  define s1 where "s1 = s\<lparr>msgs := (msgs s)(retmsg s \<mapsto> r\<lparr>hdr := (hdr r)\<lparr>seq := seq (hdr m), peer := peer (hdr m)\<rparr>\<rparr>)\<rparr>"
  define s2 where "s2 = s1\<lparr>msgs := (msgs s1)(ub \<mapsto> m')\<rparr>"
  have E: "d_with_memory E = E" using assms(1) by (intro d_with_memory_id) (simp add: takes_def)
  have "buf_ok (bb s2)" using assms(13) by (simp add: s2_def s1_def)
  then obtain s3 where s3: "b_init E s2 = Some s3" "buf_holds (bb s3) []" "d_buffered s2 s3" using b_buffer.init_ok [of s2 E] E by auto
  have s3': "cls s3 = cls s" "objs s3 = objs s" "msgs s3 = msgs s2" "out s3 = out s" "clock s \<le> clock s3"
    using d_buffered_same [OF s3(3)] by (simp_all add: s2_def s1_def)
  have fresh: "fresh_heap s3"
    by (rule fresh_heap_mono [OF assms(12)]) (use s3'(3,5) assms(7,10) in \<open>auto simp: s2_def s1_def split: if_splits\<close>)
  have m3: "msgs s3 ub = Some m'" using s3'(3) by (simp add: s2_def)
  obtain s4 where s4: "ubusd_forward_invoke E obj name ub ?D (tb ! UBUS_ATTR_DATA) s3 = Some s4" "msgs s4 = msgs s3"
      "stream_of (sock_fd co) (out s4) = stream_of (sock_fd co) (out s3) @
        hdr_bytes \<lparr>version = 0, msg_type = UBUS_MSG_INVOKE, seq = seq (hdr m'), peer = peer (hdr m')\<rparr> @ enc_attr (Nest 0 ?ts)"
    using ubusd_forward_invoke_ok [OF assms(1) _ assms(6) _ assms(19,4) m3 fresh s3(2) assms(16) tb(6)] assms(3,5) s3' by auto
  let ?s5 = "s4\<lparr>msgs := (msgs s4)(ub := None)\<rparr>"
  have "ubus_msg_free ub s4 = Some ?s5" using s4(2) m3 assms(8,9) by (simp add: ubus_msg_free_def m'_def)
  moreover have "set_peer ub (cl_id c) s1 = Some s2" using assms(7,11) by (simp add: set_peer_def upd_msg_def s1_def s2_def m'_def)
  ultimately have "ubusd_handle_invoke E cl ub (?D, tb) s1 = Some (-1, ?s5)"
    using tb(2-5) assms(2,3,4,18) s3(1) s4(1) by (simp add: ubusd_handle_invoke_def Ubusd_Obj.attr_at_def s1_def)
  moreover have "msgs s1 ub = Some m" using assms(7,11) by (simp add: s1_def)
  ultimately have "ubusd_proto_receive_message E cl ub s = Some ?s5"
    using assms(7,9,10,11,14) parse
    by (simp add: ubusd_proto_receive_message_def upd_msg_def s1_def [symmetric] ubus_msg_close_fd_def handlers_def ubus_msgs)
  then show ?thesis using s4(3) s3'(4) by (simp add: m'_def)
qed

section \<open>The event object\<close>

text \<open>
  C40: Any client can stop the daemon: an invocation of \<open>register\<close> or \<open>send\<close> on the object of the daemon for events that
  carries no data makes the handler of that object read the length of an attribute at the address \<open>NULL\<close>; the result
  of the model is \<open>None\<close>, an invalid access.
\<close>

theorem event_invoke_without_data:
  assumes "msgs s ub = Some m" and "mfd m < 0" and "msgs s (retmsg s) = Some r" and "ub \<noteq> retmsg s" and "msg_type (hdr m) = UBUS_MSG_INVOKE"
    and "mdata m = enc_attr (Nest 0 (invoke_attrs oid name None))" and "name = cstr ''register'' \<or> name = cstr ''send''"
    and "ubus_find_id (objects s) oid = Some obj" and "objs s obj = Some x" and "oclient x = None"
  shows "ubusd_proto_receive_message E cl ub s = None"
proof -
  let ?D = "mdata m"
  have n: "length (enc_attrs (invoke_attrs oid name None)) + 4 < 2 ^ 24" "0 \<notin> set name"
    using assms(7) by (auto simp: invoke_attrs_def length_enc pad4_def cstr_def)
  obtain found tb p mp where tb: "blob_parse ?D (Some 0) (Some (typed ubusd_types)) UBUS_ATTR_MAX = Some (found, tb)"
      "tb ! UBUS_ATTR_OBJID = Some p" "blob_get_u32 ?D p = Some oid"
      "tb ! UBUS_ATTR_METHOD = Some mp" "blob_get_string ?D mp = Some name"
      "attr_is (map_option (Pair ?D) (tb ! UBUS_ATTR_DATA)) None"
    by (rule invoke_parsed [OF ubus_policy_typed(2) n, of ?D "[]"]) (simp add: assms(6))
  have d: "tb ! UBUS_ATTR_DATA = None" using tb(6) by (auto simp: attr_is_def split: option.splits)
  have parse: "ubus_parse_msg ?D = Some (?D, tb)" using tb(1) by (simp add: ubus_parse_msg_def ubus_policy_typed(1))
  define s1 where "s1 = s\<lparr>msgs := (msgs s)(retmsg s \<mapsto> r\<lparr>hdr := (hdr r)\<lparr>seq := seq (hdr m), peer := peer (hdr m)\<rparr>\<rparr>)\<rparr>"
  have "ubusd_event_recv E cl name ub None s1 = None"
    using assms(7) by (auto simp: ubusd_event_recv_def ubusd_alloc_event_pattern_def ubusd_forward_event_def cstr_def)
  then have "ubusd_handle_invoke E cl ub (?D, tb) s1 = None"
    using tb(2-5) d assms(8-10) by (simp add: ubusd_handle_invoke_def Ubusd_Obj.attr_at_def s1_def)
  moreover have "msgs s1 ub = Some m" using assms(1,4) by (simp add: s1_def)
  ultimately show ?thesis
    using assms(1-5) parse
    by (simp add: ubusd_proto_receive_message_def upd_msg_def s1_def [symmetric] ubus_msg_close_fd_def handlers_def ubus_msgs)
qed

definition event_call :: ubusd where
  "event_call = (one_client (sample_buf 1))
     \<lparr>msgs := [3 \<mapsto> \<lparr>refcount = 1, hdr = \<lparr>version = 0, msg_type = UBUS_MSG_INVOKE, seq = 1, peer = 1\<rparr>,
          mdata = enc_attr (Nest 0 (invoke_attrs UBUS_SYSTEM_OBJECT_EVENT (cstr ''send'') None)), mfd = -1\<rparr>, 4 \<mapsto> status_buf], retmsg := 4,
      objs := [10 \<mapsto> (sample_object UBUS_SYSTEM_OBJECT_EVENT 1 [])\<lparr>oclient := None, recv_msg := True\<rparr>],
      objects := \<lparr>list_head = [(UBUS_SYSTEM_OBJECT_EVENT, 10)], root = Node Null (UBUS_SYSTEM_OBJECT_EVENT, 10) 0 Null, count = 1,
        allow_dups = False, leader = (\<lambda>_. True)\<rparr>\<rparr>"

theorem event_invoke_without_data_witness: "ubusd_proto_receive_message quiet_env 1 3 event_call = None"
  by (rule event_invoke_without_data [where name = "cstr ''send''" and oid = UBUS_SYSTEM_OBJECT_EVENT and obj = 10
        and x = "(sample_object UBUS_SYSTEM_OBJECT_EVENT 1 [])\<lparr>oclient := None, recv_msg := True\<rparr>"])
    (auto simp: event_call_def one_client_def ubus_find_id_def avl_find_def ubus_cmp_id_def)

end
