(* ===== verification/Libubus_State.thy ===== *)
theory Libubus_State
  imports Ubusd_State
begin

text \<open>
  The data of the client library: the structures of \<open>src/ubus/libubus.h\<close> and the environment of a client.

  As in the daemon, a heap is a partial map per structure type and an intrusive list is the list of the
  addresses of its entries in its owner; a request is in \<open>ctx->requests\<close> exactly when its own
  \<open>list\<close> is not empty. The functions of the library call back into the application; what the
  application does is a parameter \<open>on_call\<close>, an arbitrary function on the state of the client, so the callbacks
  may use the library again.

  The socket is a pair of scripts, one for \<open>sendmsg\<close> and one for \<open>recvmsg\<close>: the results of the successive
  calls. The bytes a socket delivers are a separate list, the scripts only divide it.
\<close>

section \<open>Requests and objects\<close>

text \<open>The functions that a request calls back: those of the library, and the functions of an application.\<close>

datatype data_cb = Lookup_cb | Lookup_id_cb | Add_object_cb nat | Remove_object_cb nat | App_data_cb

datatype complete_cb = Sync_req_cb | Notify_complete_cb | App_complete_cb

text \<open>
  \<open>struct ubus_request\<close> together with \<open>struct ubus_notify_request\<close>, of which it is the first member:
  \<open>n_pending\<close>, \<open>n_id\<close>, \<open>n_status_cb\<close> and \<open>n_complete_cb\<close> are meaningful when \<open>notify\<close> is set. \<open>pending\<close>
  holds the type and the data of each message. \<open>ready\<close> is whether the list heads have been initialised: with
  the zeros of \<open>memset\<close> a list is neither empty nor has it an entry.
\<close>

record ubus_request =
  ready :: bool
  pending :: "(int \<times> byte list) list"
  status_code :: int
  status_msg :: bool
  blocked :: bool
  cancelled :: bool
  notify :: bool
  rq_peer :: u32
  rq_seq :: u16
  raw_data_cb :: "data_cb option"
  data_cb :: bool
  fd_cb :: bool
  complete_cb :: "complete_cb option"
  n_status_cb :: bool
  n_complete_cb :: bool
  n_pending :: u32
  n_id :: "u32 list"

definition UBUS_MAX_NOTIFY_PEERS :: nat where
  "UBUS_MAX_NOTIFY_PEERS = 16"

definition zero_request :: ubus_request where
  "zero_request = \<lparr>ready = False, pending = [], status_code = 0, status_msg = False, blocked = False, cancelled = False, notify = False,
     rq_peer = 0, rq_seq = 0, raw_data_cb = None, data_cb = False, fd_cb = False, complete_cb = None,
     n_status_cb = False, n_complete_cb = False, n_pending = 0, n_id = replicate (UBUS_MAX_NOTIFY_PEERS + 1) 0\<rparr>"

record ubus_method =
  m_name :: "cstring option"
  m_mask :: u64
  m_policy :: "(cstring \<times> byte) list"

record ubus_obj_type =
  t_id :: u32
  t_methods :: "ubus_method list"

text \<open>
  \<open>watch\<close> is whether \<open>methods\<close> points to \<open>watch_method\<close>, that is, whether the object is part of a
  \<open>struct ubus_subscriber\<close> with the callbacks \<open>sub_cb\<close> and \<open>remove_cb\<close>; \<open>event\<close> whether it points to
  \<open>event_method\<close>, that is, whether the object is part of a \<open>struct ubus_event_handler\<close>.
\<close>

record ubus_obj =
  o_name :: "cstring option"
  o_id :: u32
  o_type :: "nat option"
  subscribe_cb :: bool
  has_subscribers :: bool
  o_methods :: "ubus_method list"
  watch :: bool
  sub_cb :: bool
  remove_cb :: bool
  event :: bool

record ubus_request_data =
  d_object :: u32
  d_peer :: u32
  d_seq :: u16
  deferred :: bool
  d_fd :: int

section \<open>The environment\<close>

text \<open>
  Results of \<open>sendmsg\<close>: at most so many bytes, \<open>EAGAIN\<close>, \<open>EINTR\<close>, another error. Results of \<open>recvmsg\<close>:
  at most so many bytes with a file descriptor (-1 for none; no bytes at all is the end of the
  stream), and the same errors.
\<close>

datatype send = Send nat | Send_again | Send_intr | Send_fail

datatype recv = Recv nat int | Recv_again | Recv_intr | Recv_fail

text \<open>An attribute is a block and an offset in it.\<close>

type_synonym attr = "byte list \<times> nat"

text \<open>The calls of functions of the application.\<close>

datatype call =
  Raw_data nat int "byte list"
| Data nat int "attr option"
| Fd nat int
| Complete nat int
| Notify_status nat nat int
| Notify_complete nat
| Lookup nat "u32 \<times> cstring \<times> u32 \<times> attr option"
| Subscribe nat
| Remove nat u32
| Method nat nat ubus_request_data cstring "attr option"
| Connection_lost

record ubus_context =
  requests :: "nat list"
  ctx_objects :: "nat id_tree"
  ctx_pending :: "(ubus_msghdr \<times> byte list) list"
  ctx_fd :: int
  ctx_eof :: bool
  registered :: bool
  pending_timer :: bool
  local_id :: u32
  request_seq :: u16
  stack_depth :: int
  msgbuf_hdr :: ubus_msghdr
  msgbuf_data :: "byte list option"
  msgbuf_data_len :: u32
  msgbuf_reduction_counter :: int
  default_lost :: bool

text \<open>
  The state of a client: its context, the heap, the static buffer \<open>b\<close> and the flag \<open>uloop_cancelled\<close> of
  the event loop, the variable that \<open>ubus_lookup_id\<close> fills, the scripts of the socket and of the clock, and
  what the client did to the outside. \<open>times t\<close> is the clock in milliseconds at the step \<open>t\<close>; \<open>default_lost\<close> is
  whether \<open>connection_lost\<close> is the default function of the library.
\<close>

record client = ubus_context +
  reqs :: "nat \<rightharpoonup> ubus_request"
  cobjs :: "nat \<rightharpoonup> ubus_obj"
  ctypes :: "nat \<rightharpoonup> ubus_obj_type"
  tick :: nat
  cbuf :: blob_buf
  uloop_cancelled :: bool
  found_id :: "u32 option"
  sends :: "send list"
  recvs :: "recv list \<times> byte list"
  times :: "nat \<Rightarrow> int"
  sent :: "(byte list \<times> int option) list"
  closed :: "int list"

text \<open>
  \<open>on_call A c s\<close> is the value the application returns and the state it leaves; functions without a value
  return 0. For a method, the second component of the value tells whether the request was deferred.
  \<open>fresh_byte A t i\<close> is what is at offset \<open>i\<close> of the memory that \<open>realloc\<close> adds at the step \<open>t\<close>.
\<close>

record application =
  alloc_ok :: "nat \<Rightarrow> bool"
  fresh_byte :: "nat \<Rightarrow> nat \<Rightarrow> byte"
  on_call :: "call \<Rightarrow> client \<Rightarrow> ((int \<times> ubus_request_data option) \<times> client) option"

definition UBUS_STATUS_METHOD_NOT_FOUND :: int where "UBUS_STATUS_METHOD_NOT_FOUND = 3"
definition UBUS_STATUS_TIMEOUT :: int where "UBUS_STATUS_TIMEOUT = 7"
definition UBUS_STATUS_UNKNOWN_ERROR :: int where "UBUS_STATUS_UNKNOWN_ERROR = 9"
definition UBUS_STATUS_CONNECTION_FAILED :: int where "UBUS_STATUS_CONNECTION_FAILED = 10"

definition UBUS_MSG_CHUNK_SIZE :: nat where
  "UBUS_MSG_CHUNK_SIZE = 65536"

text \<open>Everything the socket accepted.\<close>

definition sent_bytes :: "client \<Rightarrow> byte list" where
  "sent_bytes s = concat (map fst (sent s))"

end
