(* ===== verification/Libubus_Io.thy ===== *)
theory Libubus_Io
  imports Libubus_State
begin

text \<open>
  The connection of a client: \<open>src/ubus/libubus-io.c\<close> up to \<open>get_next_msg\<close>.

  \<open>writev_retry\<close> and \<open>recv_retry\<close> loop until everything is transferred; a script that ends stands for a socket on
  which nothing happens any more, so the result of a loop that would then wait for ever is
  \<open>None\<close>. The lemmas show that \<open>writev_retry\<close> transfers the bytes in order and ends as soon as the
  socket has accepted them, and that \<open>get_next_msg\<close> takes exactly one message from the stream.
\<close>

section \<open>Sending\<close>

text \<open>The inner loop of \<open>writev_retry\<close>: \<open>None\<close> when all of the vector was transferred.\<close>

fun iov_advance :: "nat \<Rightarrow> byte list list \<Rightarrow> byte list list option" where
  "iov_advance cur_len [] = None"
| "iov_advance cur_len (v # iov) =
     (if cur_len \<ge> length v then iov_advance (cur_len - length v) iov else Some (drop cur_len v # iov))"

text \<open>The result, what the calls transferred together with the descriptor each passed, the rest of the script.\<close>

fun writev_retry :: "send list \<Rightarrow> byte list list \<Rightarrow> int \<Rightarrow> int \<Rightarrow> (int \<times> (byte list \<times> int option) list \<times> send list) option" where
  "writev_retry [] iov n pass_fd = None"
| "writev_retry (Send_again # ks) iov n pass_fd = writev_retry ks iov n pass_fd"
| "writev_retry (Send_intr # ks) iov n pass_fd = writev_retry ks iov n pass_fd"
| "writev_retry (Send_fail # ks) iov n pass_fd = Some (-1, [], ks)"
| "writev_retry (Send k # ks) iov n pass_fd =
     (let bs = take k (concat iov);
          this = (bs, if pass_fd < 0 then None else Some pass_fd);
          pass_fd = (if n > 0 then -1 else pass_fd);
          n = n + int (length bs)
      in case iov_advance (length bs) iov of
           None \<Rightarrow> Some (n, [this], ks)
         | Some iov \<Rightarrow> do {
             (r, rest, ks) \<leftarrow> writev_retry ks iov n pass_fd;
             Some (r, this # rest, ks)
           })"

text \<open>An operation on the static buffer \<open>b\<close> of the library.\<close>

definition with_cbuf :: "application \<Rightarrow> ((nat \<Rightarrow> bool) \<Rightarrow> blob_buf \<Rightarrow> ('r \<times> blob_buf) option) \<Rightarrow> client \<Rightarrow> ('r \<times> client) option" where
  "with_cbuf A f s = do {
     (r, b) \<leftarrow> f (\<lambda>_. alloc_ok A (tick s)) (cbuf s);
     Some (r, s\<lparr>cbuf := b, tick := tick s + 1\<rparr>)
   }"

text \<open>\<open>msg\<close> is a block that starts with the attribute to send, \<open>None\<close> when the pointer is \<open>NULL\<close>.\<close>

definition ubus_send_msg :: "application \<Rightarrow> u32 \<Rightarrow> byte list option \<Rightarrow> byte \<Rightarrow> u32 \<Rightarrow> int \<Rightarrow> client \<Rightarrow> (int \<times> client) option" where
  "ubus_send_msg A sq msg cmd pr fd s = do {
     let hdr = \<lparr>version = 0, msg_type = cmd, seq = ucast sq, peer = pr\<rparr>;
     (msg, s) \<leftarrow> (case msg of
         Some m \<Rightarrow> Some (m, s)
       | None \<Rightarrow> do {
           (_, s) \<leftarrow> with_cbuf A (\<lambda>a b. blob_buf_init a b 0) s;
           h \<leftarrow> head (cbuf s);
           Some (drop h (buf (cbuf s)), s)
         });
     n \<leftarrow> blob_raw_len msg 0;
     block \<leftarrow> mem_read msg 0 (unat n);
     (ret, done, ks) \<leftarrow> writev_retry (sends s) [hdr_bytes hdr, block] 0 fd;
     let s = s\<lparr>sends := ks, sent := sent s @ done\<rparr>;
     let s = (if ret < 0 then s\<lparr>ctx_eof := True\<rparr> else s);
     let s = (if fd \<ge> 0 then s\<lparr>closed := closed s @ [fd]\<rparr> else s);
     Some (ret, s)
   }"

section \<open>Receiving\<close>

text \<open>
  One call of \<open>recvmsg\<close> for at most \<open>n\<close> bytes that delivers \<open>k\<close> of them.
\<close>

fun recvmsg :: "nat \<Rightarrow> nat \<Rightarrow> byte list \<Rightarrow> byte list \<times> byte list" where
  "recvmsg n k st = (take (min k n) st, drop (min k n) st)"

text \<open>
  \<open>n\<close> is \<open>iov->iov_len\<close>, \<open>want\<close> whether \<open>recv_fd\<close> is not \<open>NULL\<close>; the result is the return value, the bytes stored, the
  value of \<open>*recv_fd\<close> and what is left of the socket.
\<close>

fun recv_retry :: "bool \<Rightarrow> nat \<Rightarrow> bool \<Rightarrow> bool \<Rightarrow> int \<Rightarrow> int \<Rightarrow> recv list \<times> byte list \<Rightarrow>
    (int \<times> byte list \<times> int \<times> recv list \<times> byte list) option" where
  "recv_retry stop n wait want recv_fd got ([], st) =
     (if n = 0 then Some (got, [], recv_fd, [], st)
      else if stop \<or> \<not> wait then Some (0, [], recv_fd, [], st) else None)"
| "recv_retry stop n wait want recv_fd got (k # ks, st) =
     (if n = 0 then Some (got, [], recv_fd, k # ks, st)
      else case k of
        Recv_intr \<Rightarrow> if stop then Some (0, [], recv_fd, ks, st) else recv_retry stop n wait want recv_fd got (ks, st)
      | Recv_fail \<Rightarrow> Some (if stop then 0 else -1, [], recv_fd, ks, st)
      | Recv_again \<Rightarrow>
          if stop \<or> \<not> wait then Some (0, [], recv_fd, ks, st)
          else recv_retry stop n True False (if want then -1 else recv_fd) got (ks, st)
      | Recv j fd \<Rightarrow>
          (let (bs, st) = recvmsg n j st in
           if bs = [] then Some (-1, [], recv_fd, ks, st)
           else do {
             (r, rest, recv_fd, i) \<leftarrow>
               recv_retry stop (n - length bs) True False (if want then fd else recv_fd) (got + int (length bs)) (ks, st);
             Some (r, bs @ rest, recv_fd, i)
           }))"

definition ubus_validate_hdr :: "byte list \<Rightarrow> bool option" where
  "ubus_validate_hdr hb = do {
     n \<leftarrow> blob_raw_len hb 8;
     p \<leftarrow> blob_pad_len hb 8;
     Some (version (hdr_of_bytes hb) = 0 \<and> unat n \<ge> 4 \<and> unat p \<le> UBUS_MAX_MSGLEN)
   }"

definition UBUS_MSGBUF_REDUCTION_INTERVAL :: int where
  "UBUS_MSGBUF_REDUCTION_INTERVAL = 16"

text \<open>\<open>realloc\<close> keeps the contents up to the shorter length; what the new bytes are is up to the allocator.\<close>

definition alloc_msg_buf :: "application \<Rightarrow> int \<Rightarrow> client \<Rightarrow> bool \<times> client" where
  "alloc_msg_buf A n s =
     (let buf_len = sint (msgbuf_data_len s);
          buf_len = (if msgbuf_data s = None then 0 else buf_len);
          rem = n mod int UBUS_MSG_CHUNK_SIZE;
          n = (if rem > 0 then n + int UBUS_MSG_CHUNK_SIZE - rem else n);
          (reduce, s) = (if n < buf_len
            then (msgbuf_reduction_counter s + 1 > UBUS_MSGBUF_REDUCTION_INTERVAL,
                  s\<lparr>msgbuf_reduction_counter := msgbuf_reduction_counter s + 1\<rparr>)
            else (False, s));
          (buf_len, s) = (if reduce then (0, s\<lparr>msgbuf_reduction_counter := 0\<rparr>) else (buf_len, s))
      in if n \<le> buf_len then (True, s)
         else if \<not> alloc_ok A (tick s) then (False, s\<lparr>tick := tick s + 1\<rparr>)
         else (True, s\<lparr>tick := tick s + 1,
                 msgbuf_data := Some (take (nat n) (case msgbuf_data s of None \<Rightarrow> [] | Some d \<Rightarrow> d) @
                   map (fresh_byte A (tick s)) [length (case msgbuf_data s of None \<Rightarrow> [] | Some d \<Rightarrow> d)..<nat n])\<rparr>))"

definition get_next_msg :: "application \<Rightarrow> int \<Rightarrow> client \<Rightarrow> (bool \<times> int \<times> client) option" where
  "get_next_msg A recv_fd s = do {
     (r, hb, recv_fd, i) \<leftarrow> recv_retry (uloop_cancelled s) 12 False True recv_fd 0 (recvs s);
     let s = s\<lparr>recvs := i\<rparr>;
     if r \<le> 0 then Some (False, recv_fd, if r < 0 then s\<lparr>ctx_eof := True\<rparr> else s)
     else do {
       ok \<leftarrow> ubus_validate_hdr hb;
       if \<not> ok then Some (False, recv_fd, s)
       else do {
         n \<leftarrow> blob_raw_len hb 8;
         (case alloc_msg_buf A (int (unat n)) s of
           (False, s) \<Rightarrow> Some (False, recv_fd, s)
         | (True, s) \<Rightarrow> do {
             d \<leftarrow> msgbuf_data s;
             d \<leftarrow> mem_write d 0 (drop 8 hb);
             let s = s\<lparr>msgbuf_hdr := hdr_of_bytes hb, msgbuf_data := Some d\<rparr>;
             n \<leftarrow> blob_len d 0;
             if n > 0 then do {
               (r, bs, _, i) \<leftarrow> recv_retry (uloop_cancelled s) (unat n) True False 0 0 (recvs s);
               d \<leftarrow> mem_write d 4 bs;
               Some (r \<noteq> 0, recv_fd, s\<lparr>recvs := i, msgbuf_data := Some d\<rparr>)
             }
             else Some (True, recv_fd, s)
           })
       }
     }
   }"

section \<open>Everything is sent, once and in order\<close>

lemma iov_advance_some:
  "iov_advance n iov = Some iov' \<Longrightarrow> concat iov' = drop n (concat iov) \<and> n < length (concat iov)"
  by (induction n iov rule: iov_advance.induct) (auto split: if_splits)

lemma iov_advance_none: "iov_advance n iov = None \<Longrightarrow> length (concat iov) \<le> n"
  by (induction n iov rule: iov_advance.induct) (auto split: if_splits)

lemma writev_retry_prefix:
  "writev_retry ks iov n fd = Some (r, done, ks') \<Longrightarrow>
     (\<exists>rest. concat iov = concat (map fst done) @ rest \<and> (r \<noteq> -1 \<longrightarrow> rest = [] \<and> r = n + int (length (concat iov)))) \<and>
     (n \<ge> 0 \<longrightarrow> r \<ge> -1)"
proof (induction ks iov n fd arbitrary: r "done" rule: writev_retry.induct)
  case (5 k ks iov n fd)
  define bs where "bs = take k (concat iov)"
  have iov: "concat iov = bs @ drop (length bs) (concat iov)" by (simp add: bs_def min_def)
  show ?case
  proof (cases "iov_advance (length bs) iov")
    case None
    then have "length (concat iov) \<le> length bs" by (rule iov_advance_none)
    with 5(2) None iov show ?thesis by (auto simp: Let_def bs_def)
  next
    case (Some iov')
    then have iov': "concat iov' = drop (length bs) (concat iov)" by (simp add: iov_advance_some)
    define fd' where "fd' = (if n > 0 then -1 else fd)"
    from 5(2) Some obtain done' where w: "writev_retry ks iov' (n + int (length bs)) fd' = Some (r, done', ks')"
      "concat (map fst done) = bs @ concat (map fst done')"
      by (auto simp: Let_def bs_def fd'_def split: bind_splits)
    from 5(1) [OF bs_def refl fd'_def refl Some w(1)] iov iov' w(2) show ?thesis by auto
  qed
qed auto

text \<open>What the socket is able to take, and what it fails with.\<close>

fun accepts :: "send \<Rightarrow> nat" where
  "accepts (Send k) = k"
| "accepts _ = 0"

lemma writev_retry_fails: "writev_retry ks iov n fd = Some (-1, done, ks') \<Longrightarrow> n \<ge> 0 \<Longrightarrow> Send_fail \<in> set ks"
proof (induction ks iov n fd arbitrary: "done" rule: writev_retry.induct)
  case (5 k ks iov n fd)
  show ?case
  proof (cases "iov_advance (length (take k (concat iov))) iov")
    case (Some iov')
    from 5(2) Some obtain done' where
      "writev_retry ks iov' (n + int (length (take k (concat iov)))) (if n > 0 then -1 else fd) = Some (-1, done', ks')"
      by (auto simp: Let_def split: bind_splits)
    with 5(1) [OF refl refl refl refl Some] 5(3) show ?thesis by simp
  qed (use 5(2,3) in \<open>auto simp: Let_def\<close>)
qed auto

lemma writev_retry_ends:
  assumes "Send_fail \<in> set ks \<or> length (concat iov) \<le> sum_list (map accepts ks)" and "concat iov \<noteq> []"
  shows "\<exists>x. writev_retry ks iov n fd = Some x"
  using assms
proof (induction ks iov n fd rule: writev_retry.induct)
  case (5 k ks iov n fd)
  define bs where "bs = take k (concat iov)"
  show ?case
  proof (cases "iov_advance (length bs) iov")
    case None
    then show ?thesis by (auto simp: Let_def bs_def)
  next
    case (Some iov')
    then have "concat iov' = drop (length bs) (concat iov)" "length bs < length (concat iov)" by (auto dest: iov_advance_some)
    moreover from this have "length bs = k" by (auto simp: bs_def)
    ultimately have "Send_fail \<in> set ks \<or> length (concat iov') \<le> sum_list (map accepts ks)" "concat iov' \<noteq> []"
      using 5(2) by auto
    with 5(1) [OF bs_def refl refl refl Some] Some show ?thesis by (auto simp: Let_def bs_def)
  qed
qed auto

text \<open>A block whose first attribute is complete.\<close>

definition whole :: "byte list \<Rightarrow> u32 \<Rightarrow> bool" where
  "whole m n \<longleftrightarrow> blob_raw_len m 0 = Some n \<and> unat n \<le> length m"

lemma ubus_send_msg_ok:
  assumes m: "whole m n" and ks: "Send_fail \<notin> set (sends s)" "8 + unat n \<le> sum_list (map accepts (sends s))"
  shows "\<exists>s' done ks. ubus_send_msg A sq (Some m) cmd pr fd s = Some (8 + int (unat n), s') \<and>
    s' = s\<lparr>sends := ks, sent := sent s @ done, closed := closed s @ (if fd \<ge> 0 then [fd] else [])\<rparr> \<and>
    concat (map fst done) = hdr_bytes \<lparr>version = 0, msg_type = cmd, seq = ucast sq, peer = pr\<rparr> @ take (unat n) m"
proof -
  let ?h = "hdr_bytes \<lparr>version = 0, msg_type = cmd, seq = ucast sq, peer = pr\<rparr>" and ?b = "take (unat n) m"
  have b: "length ?b = unat n" using m by (simp add: whole_def)
  have "\<exists>x. writev_retry (sends s) [?h, ?b] 0 fd = Some x"
    by (rule writev_retry_ends) (use ks b in \<open>auto simp: hdr_bytes_def simp del: length_take\<close>)
  then obtain r "done" ks' where w: "writev_retry (sends s) [?h, ?b] 0 fd = Some (r, done, ks')" by (metis prod_cases3)
  have "r \<noteq> -1" using writev_retry_fails [of "sends s" _ 0 fd "done" ks'] w ks(1) by auto
  with writev_retry_prefix [OF w] b have "r = 8 + int (unat n)" "concat (map fst done) = ?h @ ?b" by auto
  moreover have "\<not> 8 + uint n < 0" using uint_ge_0 [of n] by linarith
  ultimately show ?thesis using w m
    by (auto simp: ubus_send_msg_def whole_def mem_read_def Let_def)
qed

section \<open>One message is received\<close>

text \<open>The socket goes on delivering: errors that end the reception do not occur.\<close>

fun receives :: "recv \<Rightarrow> bool" where
  "receives (Recv k fd) = True"
| "receives _ = False"

definition alive :: "recv list \<Rightarrow> bool" where
  "alive ks \<longleftrightarrow> (\<forall>k\<in>set ks. k \<noteq> Recv_fail \<and> (\<forall>j fd. k = Recv j fd \<longrightarrow> 0 < j))"

lemma alive_Cons [simp]: "alive (k # ks) \<longleftrightarrow> k \<noteq> Recv_fail \<and> (\<forall>j fd. k = Recv j fd \<longrightarrow> 0 < j) \<and> alive ks"
  by (auto simp: alive_def)

lemma recv_retry_all:
  assumes "alive ks" and "n \<le> length (filter receives ks)" and "n \<le> length st"
  shows "\<exists>ks' fd'. recv_retry False n True want fd got (ks, st) = Some (got + int n, take n st, fd', ks', drop n st) \<and>
    alive ks' \<and> length (filter receives ks) \<le> n + length (filter receives ks') \<and> (\<not> want \<longrightarrow> fd' = fd)"
  using assms
proof (induction ks arbitrary: n want fd got st)
  case (Cons k ks)
  show ?case
  proof (cases "n = 0")
    case False
    show ?thesis
    proof (cases k)
      case (Recv j gfd)
      let ?m = "min j n"
      have m: "0 < ?m" "?m \<le> length st" using False Recv Cons.prems by auto
      have "n - ?m \<le> length (filter receives ks)" "n - ?m \<le> length (drop ?m st)" "alive ks"
        using Cons.prems Recv m(1) by auto
      from Cons.IH [OF this(3,1,2), of False "if want then gfd else fd" "got + int ?m"]
      obtain ks' fd' where r: "recv_retry False (n - ?m) True False (if want then gfd else fd) (got + int ?m) (ks, drop ?m st) =
          Some (got + int ?m + int (n - ?m), take (n - ?m) (drop ?m st), fd', ks', drop (n - ?m) (drop ?m st))"
        "alive ks'" "length (filter receives ks) \<le> n - ?m + length (filter receives ks')" "fd' = (if want then gfd else fd)"
        by auto
      moreover have "take ?m st @ take (n - ?m) (drop ?m st) = take n st" by (metis le_add_diff_inverse min.cobounded2 take_add)
      moreover have "length (take ?m st) = ?m" "take ?m st \<noteq> []" using m by auto
      ultimately show ?thesis using Recv False m by (auto simp del: length_take take_eq_Nil take_eq_Nil2)
    next
      case Recv_again
      then show ?thesis using Cons.IH [of n st False "if want then -1 else fd" got] Cons.prems False by auto
    next
      case Recv_intr
      then show ?thesis using Cons.IH [of n st want fd got] Cons.prems False by auto
    qed (use Cons.prems in simp)
  qed (use Cons.prems in simp)
qed auto

lemma recv_retry_header:
  assumes "0 < j" and "alive ks" and "12 \<le> length (filter receives ks)" and "12 \<le> length st"
  shows "\<exists>ks'. recv_retry False 12 False True fd0 0 (Recv j fd # ks, st) = Some (12, take 12 st, fd, ks', drop 12 st) \<and>
    alive ks' \<and> length (filter receives ks) \<le> 12 + length (filter receives ks')"
proof -
  let ?m = "min j 12"
  have m: "0 < ?m" "?m \<le> length st" "length (take ?m st) = ?m" "take ?m st \<noteq> []" using assms by auto
  have le: "12 - ?m \<le> length (filter receives ks)" "12 - ?m \<le> length (drop ?m st)" using assms by auto
  obtain ks' where "recv_retry False (12 - ?m) True False fd (int ?m) (ks, drop ?m st) =
      Some (int ?m + int (12 - ?m), take (12 - ?m) (drop ?m st), fd, ks', drop (12 - ?m) (drop ?m st))"
    "alive ks'" "length (filter receives ks) \<le> 12 - ?m + length (filter receives ks')"
    using recv_retry_all [OF assms(2) le, of False fd "int ?m"] by auto
  moreover have "take ?m st @ take (12 - ?m) (drop ?m st) = take 12 st" by (metis le_add_diff_inverse min.cobounded2 take_add)
  ultimately show ?thesis using m by (auto simp del: length_take take_eq_Nil take_eq_Nil2)
qed

text \<open>The buffer for a message is always large enough.\<close>

definition msgbuf_ok :: "client \<Rightarrow> bool" where
  "msgbuf_ok s \<longleftrightarrow> msgbuf_data_len s = word_of_nat UBUS_MSG_CHUNK_SIZE \<and>
     (\<forall>d. msgbuf_data s = Some d \<longrightarrow> UBUS_MSG_CHUNK_SIZE \<le> length d)"

lemma round_up:
  assumes "0 < (n :: int)"
  shows "(if 0 < n mod 65536 then n + 65536 - n mod 65536 else n) \<ge> n"
    and "(if 0 < n mod 65536 then n + 65536 - n mod 65536 else n) \<ge> 65536"
proof -
  define m q where "m = n mod 65536" and "q = n div 65536"
  have d: "n = 65536 * q + m" "0 \<le> m" "m < 65536" by (simp_all add: m_def q_def)
  have q: "0 \<le> q" "m \<le> 0 \<Longrightarrow> 1 \<le> q" using assms d by linarith+
  show "(if 0 < n mod 65536 then n + 65536 - n mod 65536 else n) \<ge> n" using d(3) unfolding m_def [symmetric] by simp
  show "(if 0 < n mod 65536 then n + 65536 - n mod 65536 else n) \<ge> 65536" using d q unfolding m_def [symmetric] by auto
qed

lemma alloc_msg_buf_ok:
  assumes ok: "msgbuf_ok s" and n: "0 < n" and A: "alloc_ok A (tick s)"
  obtains d t where "alloc_msg_buf A n s = (True, s\<lparr>tick := t, msgbuf_data := Some d\<rparr>)"
    "nat n \<le> length d" "UBUS_MSG_CHUNK_SIZE \<le> length d"
proof -
  define n' where "n' = (if 0 < n mod 65536 then n + 65536 - n mod 65536 else n)"
  define b where "b = (if msgbuf_data s = None then 0 else (65536 :: int))"
  have n': "n \<le> n'" "65536 \<le> n'" using round_up [OF n] by (simp_all add: n'_def)
  have "int UBUS_MSG_CHUNK_SIZE = 65536" "sint (msgbuf_data_len s) = 65536" using ok by (simp_all add: msgbuf_ok_def UBUS_MSG_CHUNK_SIZE_def)
  then have r: "(if msgbuf_data s = None then 0 else sint (msgbuf_data_len s)) = b"
    "(if n mod int UBUS_MSG_CHUNK_SIZE > 0 then n + int UBUS_MSG_CHUNK_SIZE - n mod int UBUS_MSG_CHUNK_SIZE else n) = n'"
    by (simp_all add: b_def n'_def UBUS_MSG_CHUNK_SIZE_def)
  have "\<not> n' < b" using n'(2) by (simp add: b_def)
  then have "alloc_msg_buf A n s = (if n' \<le> b then (True, s)
       else (True, s\<lparr>tick := tick s + 1, msgbuf_data := Some (take (nat n') (case msgbuf_data s of None \<Rightarrow> [] | Some d \<Rightarrow> d) @
         map (fresh_byte A (tick s)) [length (case msgbuf_data s of None \<Rightarrow> [] | Some d \<Rightarrow> d)..<nat n'])\<rparr>))"
    unfolding alloc_msg_buf_def Let_def r by (simp add: A)
  then show thesis
  proof (cases "n' \<le> b")
    case True
    with n' obtain d where "msgbuf_data s = Some d" "b = 65536" by (auto simp: b_def split: if_splits)
    with ok True n' \<open>alloc_msg_buf A n s = _\<close> that [of d "tick s"] show thesis
      by (auto simp: msgbuf_ok_def UBUS_MSG_CHUNK_SIZE_def)
  next
    case False
    with n' \<open>alloc_msg_buf A n s = _\<close> that show thesis by (auto simp: UBUS_MSG_CHUNK_SIZE_def)
  qed
qed

lemma get_next_msg_ok:
  assumes ok: "msgbuf_ok s" "\<not> uloop_cancelled s" and A: "\<And>t. alloc_ok A t"
    and i: "recvs s = (Recv j fd # ks, hdr_bytes h @ D @ later)" "0 < j" "alive ks" "12 + length D \<le> length (filter receives ks)"
    and D: "take 4 D = be32 w" "length D = raw w" "4 \<le> raw w" "pad w \<le> UBUS_MAX_MSGLEN" "version h = 0"
  shows "\<exists>s' ks' d t. get_next_msg A fd0 s = Some (True, fd, s') \<and>
    s' = s\<lparr>tick := t, msgbuf_hdr := h, msgbuf_data := Some d, recvs := (ks', later)\<rparr> \<and> take (length D) d = D \<and> msgbuf_ok s'"
proof -
  have D': "D = be32 w @ drop 4 D" using D(1) append_take_drop_id [of 4 D] by simp
  let ?hb = "hdr_bytes h @ be32 w"
  have st: "take 12 (hdr_bytes h @ D @ later) = ?hb" "drop 12 (hdr_bytes h @ D @ later) = drop 4 D @ later"
    by (subst D', simp, subst D', simp)
  have "12 \<le> length (filter receives ks)" "12 \<le> length (hdr_bytes h @ D @ later)" using i(4) D(2,3) by simp_all
  from recv_retry_header [OF i(2,3) this, of fd0 fd]
  obtain ks1 where r1: "recv_retry False 12 False True fd0 0 (recvs s) = Some (12, ?hb, fd, ks1, drop 4 D @ later)"
    "alive ks1" "length (filter receives ks) \<le> 12 + length (filter receives ks1)"
    unfolding st i(1) by auto
  have hb: "rd_be32 ?hb 8 = Some w" using rd_be32_app [of 8 "hdr_bytes h" w "[]"] by simp
  then have v: "ubus_validate_hdr ?hb = Some True" "blob_raw_len ?hb 8 = Some (hdr_raw_len w)"
    using D(3-5) by (simp_all add: ubus_validate_hdr_def blob_raw_len_def blob_pad_len_def)
  have pos: "0 < int (raw w)" using D(3) by linarith
  let ?s1 = "s\<lparr>recvs := (ks1, drop 4 D @ later)\<rparr>"
  obtain d t where a: "alloc_msg_buf A (int (raw w)) ?s1 = (True, ?s1\<lparr>tick := t, msgbuf_data := Some d\<rparr>)" "raw w \<le> length d"
    "UBUS_MSG_CHUNK_SIZE \<le> length d"
    by (rule alloc_msg_buf_ok [OF _ pos, of ?s1 A]) (use ok A in \<open>auto simp: msgbuf_ok_def\<close>)
  define d1 where "d1 = be32 w @ drop 4 d"
  have d1: "mem_write d 0 (be32 w) = Some d1" "rd_be32 d1 0 = Some w" "length d1 = length d"
    using a(2) D(3) rd_be32_app [of 0 "[]" w "drop 4 d"] by (simp_all add: mem_write_def d1_def)
  have len: "unat (hdr_len w) = length D - 4" using hdr_len_raw [OF D(3)] D(2) by simp
  have "length D - 4 \<le> length (filter receives ks1)" using r1(3) i(4) by simp
  moreover have "length D - 4 \<le> length (drop 4 D @ later)" by simp
  ultimately obtain ks2 where r2: "recv_retry False (length D - 4) True False 0 0 (ks1, drop 4 D @ later) =
      Some (int (length D - 4), drop 4 D, 0, ks2, later)"
    using recv_retry_all [OF r1(2), of "length D - 4" "drop 4 D @ later" False 0 0] by auto
  define d2 where "d2 = D @ drop (length D) d"
  have d2: "mem_write d1 4 (drop 4 D) = Some d2"
    using a(2) D(2,3) D' by (auto simp: mem_write_def d1_def d2_def)
  have msgbuf: "length d2 = length d" using a(2) D(2) by (simp add: d2_def)
  have "get_next_msg A fd0 s = Some (True, fd, s\<lparr>tick := t, msgbuf_hdr := h, msgbuf_data := Some d2,
      recvs := (if hdr_len w > 0 then ks2 else ks1, later)\<rparr>)"
  proof (cases "hdr_len w > 0")
    case True
    then have "\<not> length D \<le> 4" using len by (auto simp: word_less_nat_alt)
    then show ?thesis
      using True r1(1) ok(2) v a(1) d1 r2 d2 len by (simp add: get_next_msg_def Let_def blob_len_def)
  next
    case False
    then have "hdr_len w = 0" by (metis word_gt_0)
    then have "drop 4 D = []" "d2 = d1" using len D(2,3) D' by (auto simp: d2_def d1_def)
    then show ?thesis using False r1(1) ok(2) v a(1) d1 by (simp add: get_next_msg_def Let_def blob_len_def)
  qed
  moreover have "take (length D) d2 = D" by (simp add: d2_def)
  ultimately show ?thesis using ok(1) a(3) msgbuf by (auto simp: msgbuf_ok_def)
qed

section \<open>Properties\<close>

text \<open>
  C38: A message that ends with the connection is taken for a complete one. When the stream ends behind
  the header and the length field of a message with data, \<open>get_next_msg\<close> reports success: the
  result -1 of \<open>recv_retry\<close> is not 0. The buffer then has the length field of the new message and
  the bytes of an earlier one.
\<close>

theorem truncated_message_delivered:
  assumes "recvs s = ([Recv 12 fd, Recv k fd'], hdr_bytes h @ be32 w)" and "\<not> uloop_cancelled s" and "msgbuf_ok s"
    and "\<And>t. alloc_ok A t" and "version h = 0" and "4 < raw w" and "pad w \<le> UBUS_MAX_MSGLEN"
  shows "\<exists>s' t d. get_next_msg A fd0 s = Some (True, fd, s') \<and> recvs s' = ([], []) \<and> ctx_eof s' = ctx_eof s \<and>
    alloc_msg_buf A (int (raw w)) (s\<lparr>recvs := ([Recv k fd'], [])\<rparr>) = (True, s\<lparr>recvs := ([Recv k fd'], []), tick := t, msgbuf_data := Some d\<rparr>) \<and>
    msgbuf_data s' = Some (be32 w @ drop 4 d)"
proof -
  let ?hb = "hdr_bytes h @ be32 w"
  have r1: "recv_retry False 12 False True fd0 0 (recvs s) = Some (12, ?hb, fd, [Recv k fd'], [])"
    unfolding assms(1) by (simp add: hdr_bytes_def)
  have hb: "rd_be32 ?hb 8 = Some w" using rd_be32_app [of 8 "hdr_bytes h" w "[]"] by simp
  then have v: "ubus_validate_hdr ?hb = Some True" "blob_raw_len ?hb 8 = Some (hdr_raw_len w)"
    using assms(5-7) by (simp_all add: ubus_validate_hdr_def blob_raw_len_def blob_pad_len_def)
  have pos: "0 < int (raw w)" using assms(6) by linarith
  let ?s1 = "s\<lparr>recvs := ([Recv k fd'], [])\<rparr>"
  obtain d t where a: "alloc_msg_buf A (int (raw w)) ?s1 = (True, ?s1\<lparr>tick := t, msgbuf_data := Some d\<rparr>)" "raw w \<le> length d"
    by (rule alloc_msg_buf_ok [OF _ pos, of ?s1 A]) (use assms in \<open>auto simp: msgbuf_ok_def\<close>)
  have d1: "mem_write d 0 (be32 w) = Some (be32 w @ drop 4 d)" "rd_be32 (be32 w @ drop 4 d) 0 = Some w"
    "mem_write (be32 w @ drop 4 d) 4 [] = Some (be32 w @ drop 4 d)"
    using a(2) assms(6) rd_be32_app [of 0 "[]" w "drop 4 d"] by (simp_all add: mem_write_def)
  have "0 < unat (hdr_len w)" using hdr_len_raw [of w] assms(6) by simp
  then have "0 < hdr_len w" "recv_retry False (unat (hdr_len w)) True False 0 0 ([Recv k fd'], []) = Some (-1, [], 0, [], [])"
    by (simp_all add: word_less_nat_alt)
  then have "get_next_msg A fd0 s = Some (True, fd, s\<lparr>recvs := ([], []), tick := t, msgbuf_hdr := h, msgbuf_data := Some (be32 w @ drop 4 d)\<rparr>)"
    using r1 v a assms(2) d1 by (simp add: get_next_msg_def Let_def blob_len_def)
  with a(1) show ?thesis
    by (intro exI [of _ "s\<lparr>recvs := ([], []), tick := t, msgbuf_hdr := h, msgbuf_data := Some (be32 w @ drop 4 d)\<rparr>"] exI [of _ t] exI [of _ d]) simp
qed

text \<open>A client that is connected and idle.\<close>

definition idle_ctx :: "send list \<Rightarrow> recv list \<times> byte list \<Rightarrow> client" where
  "idle_ctx ss rs = \<lparr>requests = [], ctx_objects = avl_init False, ctx_pending = [], ctx_fd = 3, ctx_eof = False, registered = False,
     pending_timer = False, local_id = 7, request_seq = 0, stack_depth = 0, msgbuf_hdr = zero_hdr,
     msgbuf_data = Some (replicate UBUS_MSG_CHUNK_SIZE 0), msgbuf_data_len = word_of_nat UBUS_MSG_CHUNK_SIZE,
     msgbuf_reduction_counter = 0, default_lost = True, reqs = Map.empty, cobjs = Map.empty, ctypes = Map.empty, tick = 0,
     cbuf = \<lparr>buf = [], head = None\<rparr>, uloop_cancelled = False, found_id = None, sends = ss, recvs = rs,
     times = (\<lambda>_. 0), sent = [], closed = []\<rparr>"

definition quiet_app :: application where
  "quiet_app = \<lparr>alloc_ok = (\<lambda>_. True), fresh_byte = (\<lambda>_ _. 0xcd), on_call = (\<lambda>c s. Some ((0, None), s))\<rparr>"

lemma idle_ctx_ok: "msgbuf_ok (idle_ctx ss rs)" "\<not> uloop_cancelled (idle_ctx ss rs)" "recvs (idle_ctx ss rs) = rs"
    "sends (idle_ctx ss rs) = ss" "sent (idle_ctx ss rs) = []"
  by (simp_all add: idle_ctx_def msgbuf_ok_def)

lemma quiet_alloc [simp]: "alloc_ok quiet_app t"
  by (simp add: quiet_app_def)

theorem truncated_message_delivered_witness:
  "\<exists>s'. get_next_msg quiet_app (-1) (idle_ctx [] ([Recv 12 (-1), Recv 0 (-1)], hdr_bytes zero_hdr @ be32 8)) = Some (True, -1, s')"
proof -
  have "raw 8 = 8" "pad 8 = 8" by (simp_all add: hdr_raw_len_def hdr_len_def hdr_pad_len_def)
  then show ?thesis
    using truncated_message_delivered [OF idle_ctx_ok(3,2,1), where A = quiet_app and k = 0 and fd' = "-1" and fd = "-1" and h = zero_hdr and w = 8]
    by (auto simp: UBUS_MAX_MSGLEN_def)
qed

text \<open>
  A file descriptor is passed twice when the first \<open>sendmsg\<close> takes only a part of the message:
  \<open>sock_fd\<close> is cleared when \<open>len\<close> is already positive, which is tested before \<open>len\<close> is advanced.
\<close>

theorem writev_retry_fd_twice:
  assumes "0 \<le> fd" and "0 < k" and "k < length (concat iov)" and "length (concat iov) \<le> k + k'"
  shows "writev_retry [Send k, Send k'] iov 0 fd =
    Some (int (length (concat iov)), [(take k (concat iov), Some fd), (drop k (concat iov), Some fd)], [])"
proof -
  have k: "length (take k (concat iov)) = k" using assms(3) by simp
  obtain iov' where iov': "iov_advance k iov = Some iov'" using iov_advance_none [of k iov] assms(3) by fastforce
  then have c: "concat iov' = drop k (concat iov)" by (simp add: iov_advance_some)
  have "iov_advance (length (concat iov')) iov' = None" using iov_advance_some [of "length (concat iov')" iov'] by fastforce
  then have "writev_retry [Send k'] iov' (int k) fd = Some (int (length (concat iov)), [(drop k (concat iov), Some fd)], [])"
    using assms c by (simp add: Let_def)
  with assms iov' k show ?thesis by (simp add: Let_def)
qed

theorem writev_retry_fd_twice_witness:
  "writev_retry [Send 1, Send 9] [[1, 2], [3]] 0 5 = Some (3, [([1], Some 5), ([2, 3], Some 5)], [])"
  using writev_retry_fd_twice [of 5 1 "[[1, 2], [3]]" 9] by simp

end
