(* ===== verification/Libubus_Req.thy ===== *)
theory Libubus_Req
  imports Libubus_Io
begin

text \<open>
  Requests of a client: \<open>src/ubus/libubus-req.c\<close> except the functions that wait, and the functions of
  \<open>libubus.c\<close> and \<open>libubus-obj.c\<close> that requests call back.
\<close>

section \<open>Attributes\<close>

definition client_policy :: "blob_attr_info list" where
  "client_policy = map (\<lambda>t. \<lparr>itype = t, minlen = 0, maxlen = 0, validate = None\<rparr>)
     [0, 6, 3, 6, 3, 0, 0, 0, 0, 4, 4, 1]"

definition client_parse_msg :: "byte list \<Rightarrow> nat option list option" where
  "client_parse_msg m = map_option snd (blob_parse m (Some 0) (Some client_policy) UBUS_ATTR_MAX)"

section \<open>Functions that a request calls back\<close>

definition upd_req :: "nat \<Rightarrow> (ubus_request \<Rightarrow> ubus_request) \<Rightarrow> client \<Rightarrow> client option" where
  "upd_req r f s = do {
     q \<leftarrow> reqs s r;
     Some (s\<lparr>reqs := (reqs s)(r \<mapsto> f q)\<rparr>)
   }"

text \<open>A call of the application whose value is not used.\<close>

definition tell :: "application \<Rightarrow> call \<Rightarrow> client \<Rightarrow> client option" where
  "tell A c s = map_option snd (on_call A c s)"

definition ubus_lookup_cb :: "application \<Rightarrow> nat \<Rightarrow> byte list \<Rightarrow> client \<Rightarrow> client option" where
  "ubus_lookup_cb A r msg s = do {
     tb \<leftarrow> client_parse_msg msg;
     case (tb ! UBUS_ATTR_OBJID, tb ! UBUS_ATTR_OBJPATH, tb ! UBUS_ATTR_OBJTYPE) of
       (Some oid, Some opath, Some oty) \<Rightarrow> do {
         i \<leftarrow> blob_get_u32 msg oid;
         p \<leftarrow> blob_get_string msg opath;
         t \<leftarrow> blob_get_u32 msg oty;
         tell A (Lookup r (i, p, t, map_option (Pair msg) (tb ! UBUS_ATTR_SIGNATURE))) s
       }
     | _ \<Rightarrow> Some s
   }"

definition ubus_lookup_id_cb :: "byte list \<Rightarrow> client \<Rightarrow> client option" where
  "ubus_lookup_id_cb msg s = do {
     tb \<leftarrow> client_parse_msg msg;
     case tb ! UBUS_ATTR_OBJID of
       None \<Rightarrow> Some s
     | Some oid \<Rightarrow> do {
         i \<leftarrow> blob_get_u32 msg oid;
         Some (s\<lparr>found_id := Some i\<rparr>)
       }
   }"

definition upd_type :: "nat \<Rightarrow> (ubus_obj_type \<Rightarrow> ubus_obj_type) \<Rightarrow> client \<Rightarrow> client option" where
  "upd_type t f s = do {
     y \<leftarrow> ctypes s t;
     Some (s\<lparr>ctypes := (ctypes s)(t \<mapsto> f y)\<rparr>)
   }"

text \<open>Inserting a node that is already linked would corrupt the tree: it is undefined here.\<close>

definition ubus_add_object_cb :: "nat \<Rightarrow> byte list \<Rightarrow> client \<Rightarrow> client option" where
  "ubus_add_object_cb obj msg s = do {
     tb \<leftarrow> client_parse_msg msg;
     case tb ! UBUS_ATTR_OBJID of
       None \<Rightarrow> Some s
     | Some oid \<Rightarrow> do {
         i \<leftarrow> blob_get_u32 msg oid;
         x \<leftarrow> cobjs s obj;
         let s = s\<lparr>cobjs := (cobjs s)(obj \<mapsto> x\<lparr>o_id := i\<rparr>)\<rparr>;
         s \<leftarrow> (case tb ! UBUS_ATTR_OBJTYPE of
             None \<Rightarrow> Some s
           | Some oty \<Rightarrow> do {
               t \<leftarrow> blob_get_u32 msg oty;
               ty \<leftarrow> o_type x;
               upd_type ty (\<lambda>y. y\<lparr>t_id := t\<rparr>) s
             });
         if obj \<in> snd ` set (list_head (ctx_objects s)) then None
         else do {
           (_, tree) \<leftarrow> avl_insert ubus_cmp_id (ctx_objects s) (i, obj);
           Some (s\<lparr>ctx_objects := tree\<rparr>)
         }
       }
   }"

definition ubus_remove_object_cb :: "nat \<Rightarrow> byte list \<Rightarrow> client \<Rightarrow> client option" where
  "ubus_remove_object_cb obj msg s = do {
     tb \<leftarrow> client_parse_msg msg;
     case tb ! UBUS_ATTR_OBJID of
       None \<Rightarrow> Some s
     | Some oid \<Rightarrow> do {
         x \<leftarrow> cobjs s obj;
         let s = s\<lparr>cobjs := (cobjs s)(obj \<mapsto> x\<lparr>o_id := 0\<rparr>)\<rparr>;
         s \<leftarrow> (case (tb ! UBUS_ATTR_OBJTYPE, o_type x) of
             (Some _, Some ty) \<Rightarrow> upd_type ty (\<lambda>y. y\<lparr>t_id := 0\<rparr>) s
           | _ \<Rightarrow> Some s);
         tree \<leftarrow> avl_delete (ctx_objects s) (o_id x, obj);
         Some (s\<lparr>ctx_objects := tree\<rparr>)
       }
   }"

definition call_raw_data :: "application \<Rightarrow> nat \<Rightarrow> data_cb \<Rightarrow> int \<Rightarrow> byte list \<Rightarrow> client \<Rightarrow> client option" where
  "call_raw_data A r cb ty data s =
     (case cb of
       Lookup_cb \<Rightarrow> ubus_lookup_cb A r data s
     | Lookup_id_cb \<Rightarrow> ubus_lookup_id_cb data s
     | Add_object_cb obj \<Rightarrow> ubus_add_object_cb obj data s
     | Remove_object_cb obj \<Rightarrow> ubus_remove_object_cb obj data s
     | App_data_cb \<Rightarrow> tell A (Raw_data r ty data) s)"

section \<open>The life of a request\<close>

definition req_data_cb :: "application \<Rightarrow> nat \<Rightarrow> int \<Rightarrow> byte list \<Rightarrow> client \<Rightarrow> client option" where
  "req_data_cb A r ty data s = do {
     q \<leftarrow> reqs s r;
     s \<leftarrow> (case raw_data_cb q of None \<Rightarrow> Some s | Some cb \<Rightarrow> call_raw_data A r cb ty data s);
     q \<leftarrow> reqs s r;
     if \<not> data_cb q then Some s
     else do {
       tb \<leftarrow> client_parse_msg data;
       tell A (Data r ty (map_option (Pair data) (tb ! UBUS_ATTR_DATA))) s
     }
   }"

text \<open>The loop over the data that arrived while the request was blocked; a callback may add to it.\<close>

partial_function (option) ubus_pending_data :: "application \<Rightarrow> nat \<Rightarrow> client \<Rightarrow> client option" where
  "ubus_pending_data A r s = do {
     q \<leftarrow> reqs s r;
     if \<not> ready q then None
     else case pending q of
       [] \<Rightarrow> Some s
     | (ty, data) # ps \<Rightarrow> do {
         s \<leftarrow> upd_req r (\<lambda>q. q\<lparr>pending := ps\<rparr>) s;
         s \<leftarrow> (if \<not> cancelled q then req_data_cb A r ty data s else Some s);
         ubus_pending_data A r s
       }
   }"

definition ubus_start_request :: "application \<Rightarrow> nat \<Rightarrow> byte list option \<Rightarrow> byte \<Rightarrow> u32 \<Rightarrow> client \<Rightarrow> (int \<times> client) option" where
  "ubus_start_request A r msg cmd pr s = do {
     let s = s\<lparr>reqs := (reqs s)(r \<mapsto> zero_request)\<rparr>;
     big \<leftarrow> (case msg of
         None \<Rightarrow> Some False
       | Some m \<Rightarrow> map_option (\<lambda>n. unat n > UBUS_MAX_MSGLEN) (blob_pad_len m 0));
     if big then Some (-1, s)
     else do {
       let sq = request_seq s + 1;
       let s = s\<lparr>request_seq := sq,
                 reqs := (reqs s)(r \<mapsto> zero_request\<lparr>ready := True, rq_peer := pr, rq_seq := sq\<rparr>)\<rparr>;
       ubus_send_msg A (ucast sq) msg cmd pr (-1) s
     }
   }"

text \<open>\<open>list_empty (&req->list)\<close>\<close>

definition unlinked :: "nat \<Rightarrow> client \<Rightarrow> bool option" where
  "unlinked r s = do {
     q \<leftarrow> reqs s r;
     Some (ready q \<and> r \<notin> set (requests s))
   }"

definition ubus_abort_request :: "application \<Rightarrow> nat \<Rightarrow> client \<Rightarrow> client option" where
  "ubus_abort_request A r s = do {
     u \<leftarrow> unlinked r s;
     if u then Some s
     else do {
       s \<leftarrow> upd_req r (\<lambda>q. q\<lparr>cancelled := True\<rparr>) s;
       s \<leftarrow> ubus_pending_data A r s;
       Some (s\<lparr>requests := remove1 r (requests s)\<rparr>)
     }
   }"

definition ubus_complete_request_async :: "nat \<Rightarrow> client \<Rightarrow> client option" where
  "ubus_complete_request_async r s = do {
     u \<leftarrow> unlinked r s;
     Some (if u then s\<lparr>requests := r # requests s\<rparr> else s)
   }"

definition ubus_sync_req_cb :: "nat \<Rightarrow> int \<Rightarrow> client \<Rightarrow> client option" where
  "ubus_sync_req_cb r ret s = do {
     s \<leftarrow> upd_req r (\<lambda>q. q\<lparr>status_msg := True, status_code := ret\<rparr>) s;
     Some (s\<lparr>uloop_cancelled := True\<rparr>)
   }"

definition ubus_notify_complete_cb :: "application \<Rightarrow> nat \<Rightarrow> client \<Rightarrow> client option" where
  "ubus_notify_complete_cb A r s = do {
     q \<leftarrow> reqs s r;
     if n_complete_cb q then tell A (Notify_complete r) s else Some s
   }"

definition call_complete :: "application \<Rightarrow> nat \<Rightarrow> complete_cb \<Rightarrow> int \<Rightarrow> client \<Rightarrow> client option" where
  "call_complete A r cb ret s =
     (case cb of
       Sync_req_cb \<Rightarrow> ubus_sync_req_cb r ret s
     | Notify_complete_cb \<Rightarrow> ubus_notify_complete_cb A r s
     | App_complete_cb \<Rightarrow> tell A (Complete r ret) s)"

definition ubus_req_complete_cb :: "application \<Rightarrow> nat \<Rightarrow> client \<Rightarrow> client option" where
  "ubus_req_complete_cb A r s = do {
     q \<leftarrow> reqs s r;
     case complete_cb q of
       None \<Rightarrow> Some s
     | Some cb \<Rightarrow> do {
         s \<leftarrow> upd_req r (\<lambda>q. q\<lparr>complete_cb := None\<rparr>) s;
         call_complete A r cb (status_code q) s
       }
   }"

definition ubus_set_req_status :: "application \<Rightarrow> nat \<Rightarrow> int \<Rightarrow> client \<Rightarrow> client option" where
  "ubus_set_req_status A r ret s = do {
     u \<leftarrow> unlinked r s;
     q \<leftarrow> reqs s r;
     s \<leftarrow> (if u then Some s else if ready q then Some (s\<lparr>requests := remove1 r (requests s)\<rparr>) else None);
     s \<leftarrow> upd_req r (\<lambda>q. q\<lparr>status_msg := True, status_code := ret\<rparr>) s;
     if \<not> blocked q then ubus_req_complete_cb A r s else Some s
   }"

section \<open>Messages for requests\<close>

definition ubus_get_status :: "byte list \<Rightarrow> int \<Rightarrow> int option" where
  "ubus_get_status data ret = do {
     tb \<leftarrow> client_parse_msg data;
     case tb ! UBUS_ATTR_STATUS of
       None \<Rightarrow> Some ret
     | Some p \<Rightarrow> map_option sint (blob_get_u32 data p)
   }"

definition ubus_process_req_status :: "application \<Rightarrow> nat \<Rightarrow> ubus_msghdr \<Rightarrow> byte list \<Rightarrow> client \<Rightarrow> client option" where
  "ubus_process_req_status A r h data s = do {
     ret \<leftarrow> ubus_get_status data UBUS_STATUS_INVALID_ARGUMENT;
     s \<leftarrow> upd_req r (\<lambda>q. q\<lparr>rq_peer := peer h\<rparr>) s;
     ubus_set_req_status A r ret s
   }"

definition ubus_process_req_data :: "application \<Rightarrow> nat \<Rightarrow> ubus_msghdr \<Rightarrow> byte list \<Rightarrow> client \<Rightarrow> client option" where
  "ubus_process_req_data A r h data s = do {
     q \<leftarrow> reqs s r;
     let ty = int (unat (msg_type h));
     if \<not> blocked q then do {
       s \<leftarrow> upd_req r (\<lambda>q. q\<lparr>blocked := True\<rparr>) s;
       s \<leftarrow> req_data_cb A r ty data s;
       s \<leftarrow> ubus_pending_data A r s;
       s \<leftarrow> upd_req r (\<lambda>q. q\<lparr>blocked := False\<rparr>) s;
       q \<leftarrow> reqs s r;
       if status_msg q then ubus_req_complete_cb A r s else Some s
     }
     else do {
       n \<leftarrow> blob_raw_len data 0;
       if \<not> alloc_ok A (tick s) then Some (s\<lparr>tick := tick s + 1\<rparr>)
       else do {
         d \<leftarrow> mem_read data 0 (unat n);
         upd_req r (\<lambda>q. q\<lparr>pending := (ty, d) # pending q\<rparr>) (s\<lparr>tick := tick s + 1\<rparr>)
       }
     }
   }"

lemma drop_bit_1_less: "w \<noteq> 0 \<Longrightarrow> unat (drop_bit 1 (w :: u32)) < unat w"
  by (simp add: unat_drop_bit_eq drop_bit_nat_def unat_gt_0)

text \<open>The loop over the bits of \<open>pending\<close>; the array has 17 entries.\<close>

function ubus_find_notify_id :: "nat \<Rightarrow> u32 \<Rightarrow> u32 list \<Rightarrow> u32 \<Rightarrow> int option" where
  "ubus_find_notify_id i pend peers objid =
     (if pend = 0 then Some (-1)
      else if pend AND 1 = 0 then ubus_find_notify_id (i + 1) (drop_bit 1 pend) peers objid
      else if i \<ge> length peers then None
      else if peers ! i = objid then Some (int i)
      else ubus_find_notify_id (i + 1) (drop_bit 1 pend) peers objid)"
  by pat_completeness auto

termination by (relation "measure (\<lambda>(i, pend, peers, objid). unat pend)") (simp_all add: drop_bit_1_less [simplified])

declare ubus_find_notify_id.simps [simp del]

text \<open>The request that a message belongs to, and the index of the peer when it is a notification.\<close>

fun find_request :: "(nat \<rightharpoonup> ubus_request) \<Rightarrow> nat list \<Rightarrow> u16 \<Rightarrow> u32 \<Rightarrow> (nat \<times> int) option option" where
  "find_request Q [] sq pr = Some None"
| "find_request Q (r # rs) sq pr = do {
     q \<leftarrow> Q r;
     if sq \<noteq> rq_seq q then find_request Q rs sq pr
     else if notify q then
       (if n_pending q = 0 then find_request Q rs sq pr
        else do {
          i \<leftarrow> ubus_find_notify_id 0 (n_pending q) (n_id q) pr;
          if i < 0 then find_request Q rs sq pr else Some (Some (r, i))
        })
     else if pr \<noteq> rq_peer q then find_request Q rs sq pr
     else Some (Some (r, -1))
   }"

definition ubus_find_request :: "u16 \<Rightarrow> u32 \<Rightarrow> client \<Rightarrow> (nat \<times> int) option option" where
  "ubus_find_request sq pr s = find_request (reqs s) (requests s) sq pr"

text \<open>The loop over the subscribers that the daemon lists: the bits and the array after it.\<close>

fun notify_peers :: "byte list \<Rightarrow> nat list \<Rightarrow> nat \<Rightarrow> u32 \<Rightarrow> u32 list \<Rightarrow> (u32 \<times> u32 list) option" where
  "notify_peers m [] idx pend peers = Some (pend, peers)"
| "notify_peers m (cur # curs) idx pend peers = do {
     n \<leftarrow> blob_len m cur;
     ok \<leftarrow> blob_check_type m (blob_data cur) n 6;
     if \<not> ok then notify_peers m curs idx pend peers
     else do {
       v \<leftarrow> blob_get_u32 m cur;
       if idx \<ge> length peers then None
       else (let pend = pend OR push_bit idx 1; peers = peers[idx := v]; idx = idx + 1 in
             if idx = UBUS_MAX_NOTIFY_PEERS + 1 then Some (pend, peers) else notify_peers m curs idx pend peers)
     }
   }"

definition ubus_process_notify_status :: "application \<Rightarrow> nat \<Rightarrow> nat \<Rightarrow> byte list \<Rightarrow> client \<Rightarrow> client option" where
  "ubus_process_notify_status A r i data s = do {
     s \<leftarrow> upd_req r (\<lambda>q. q\<lparr>n_pending := n_pending q AND NOT (push_bit i 1)\<rparr>) s;
     s \<leftarrow> (if i = 0 then do {
         tb \<leftarrow> client_parse_msg data;
         case tb ! UBUS_ATTR_SUBSCRIBERS of
           None \<Rightarrow> Some s
         | Some sub \<Rightarrow> do {
             curs \<leftarrow> blob_for_each_attr data (Some sub);
             q \<leftarrow> reqs s r;
             (pend, peers) \<leftarrow> notify_peers data curs 1 (n_pending q) (n_id q);
             upd_req r (\<lambda>q. q\<lparr>n_pending := pend, n_id := peers\<rparr>) s
           }
       }
       else do {
         ret \<leftarrow> ubus_get_status data 0;
         q \<leftarrow> reqs s r;
         if n_status_cb q then tell A (Notify_status r i ret) s else Some s
       });
     q \<leftarrow> reqs s r;
     if n_pending q = 0 then ubus_set_req_status A r 0 s else Some s
   }"

definition ubus_process_req_msg :: "application \<Rightarrow> ubus_msghdr \<Rightarrow> byte list \<Rightarrow> int \<Rightarrow> client \<Rightarrow> client option" where
  "ubus_process_req_msg A h data fd s =
     (if msg_type h = UBUS_MSG_STATUS then do {
        x \<leftarrow> ubus_find_request (seq h) (peer h) s;
        case x of
          None \<Rightarrow> Some s
        | Some (r, i) \<Rightarrow> do {
            q \<leftarrow> reqs s r;
            s \<leftarrow> (if fd \<ge> 0 then if fd_cb q then tell A (Fd r fd) s else Some (s\<lparr>closed := closed s @ [fd]\<rparr>) else Some s);
            if i \<ge> 0 then ubus_process_notify_status A r (nat i) data s
            else ubus_process_req_status A r h data s
          }
      }
      else if msg_type h = UBUS_MSG_DATA then do {
        x \<leftarrow> ubus_find_request (seq h) (peer h) s;
        case x of
          None \<Rightarrow> Some s
        | Some (r, i) \<Rightarrow> do {
            q \<leftarrow> reqs s r;
            if data_cb q \<or> raw_data_cb q \<noteq> None then ubus_process_req_data A r h data s else Some s
          }
      }
      else Some s)"

section \<open>Waiting for the subscribers\<close>

lemma find_notify_id_found:
  assumes "\<forall>k. bit pend k \<longrightarrow> i + k < length peers" and "bit pend j" and "peers ! (i + j) = x"
    and "\<forall>k. bit pend k \<and> peers ! (i + k) = x \<longrightarrow> k = j"
  shows "ubus_find_notify_id i pend peers x = Some (int (i + j))"
  using assms
proof (induction i pend peers x arbitrary: j rule: ubus_find_notify_id.induct)
  case (1 i pend peers x)
  have ne: "pend \<noteq> 0" using 1(4) by auto
  have b0: "pend AND 1 = 0 \<longleftrightarrow> \<not> bit pend 0" by (simp add: and_one_eq bit_0 even_iff_mod_2_eq_zero [symmetric])
  have d: "bit (drop_bit 1 pend) k = bit pend (Suc k)" for k by (simp add: bit_drop_bit_eq)
  show ?case
  proof (cases "bit pend 0 \<and> peers ! i = x")
    case True
    then have "j = 0" using 1(6) by auto
    moreover have "i < length peers" using 1(3) True by force
    ultimately show ?thesis using True ne b0 by (subst ubus_find_notify_id.simps) auto
  next
    case False
    then have j: "0 < j" using 1(4,5) by (cases j) auto
    have a: "\<forall>k. bit (drop_bit 1 pend) k \<longrightarrow> i + 1 + k < length peers"
      unfolding d using 1(3) by (metis add.assoc plus_1_eq_Suc)
    have b: "bit (drop_bit 1 pend) (j - 1)" "peers ! (i + 1 + (j - 1)) = x" unfolding d using 1(4,5) j by simp_all
    have c: "\<forall>k. bit (drop_bit 1 pend) k \<and> peers ! (i + 1 + k) = x \<longrightarrow> k = j - 1"
    proof (intro allI impI)
      fix k
      assume "bit (drop_bit 1 pend) k \<and> peers ! (i + 1 + k) = x"
      then have "bit pend (Suc k) \<and> peers ! (i + Suc k) = x" unfolding d by simp
      then have "Suc k = j" using 1(6) by blast
      then show "k = j - 1" by simp
    qed
    show ?thesis
    proof (cases "bit pend 0")
      case True
      moreover have "i < length peers" using 1(3) True by force
      ultimately show ?thesis using 1(2) [OF _ _ _ _ a b c] False ne b0 j by (subst ubus_find_notify_id.simps) (auto simp: not_le)
    next
      case False
      then show ?thesis using 1(1) [OF _ _ a b c] ne b0 j by (subst ubus_find_notify_id.simps) auto
    qed
  qed
qed

text \<open>An application that leaves requests alone.\<close>

definition inert :: "application \<Rightarrow> bool" where
  "inert A \<longleftrightarrow> (\<forall>c s. \<exists>x s'. on_call A c s = Some (x, s') \<and> reqs s' = reqs s \<and> requests s' = requests s)"

lemma tell_inert: "inert A \<Longrightarrow> \<exists>s'. tell A c s = Some s' \<and> reqs s' = reqs s \<and> requests s' = requests s"
  unfolding inert_def tell_def by (metis option.simps(9) snd_conv)

text \<open>
  Request \<open>r\<close> with sequence number \<open>sq\<close> waits for the peers with the indices in \<open>W\<close>; no other request has
  its sequence number.
\<close>

definition notify_wait :: "client \<Rightarrow> nat \<Rightarrow> u16 \<Rightarrow> u32 list \<Rightarrow> nat set \<Rightarrow> bool" where
  "notify_wait s r sq peers W \<longleftrightarrow>
     (\<exists>q. reqs s r = Some q \<and> ready q \<and> notify q \<and> \<not> blocked q \<and> \<not> status_msg q \<and> rq_seq q = sq \<and> n_id q = peers \<and>
       (\<forall>i. bit (n_pending q) i \<longleftrightarrow> i \<in> W)) \<and>
     W \<subseteq> {..<length peers} \<and> r \<in> set (requests s) \<and> distinct (requests s) \<and>
     (\<forall>r'\<in>set (requests s). r' \<noteq> r \<longrightarrow> (\<exists>q. reqs s r' = Some q \<and> rq_seq q \<noteq> sq))"

definition notify_done :: "client \<Rightarrow> nat \<Rightarrow> bool" where
  "notify_done s r \<longleftrightarrow> r \<notin> set (requests s) \<and> (\<exists>q. reqs s r = Some q \<and> status_msg q \<and> status_code q = 0)"

lemma find_request_unique:
  assumes "r \<in> set rs" and "Q r = Some q" and "notify q" and "rq_seq q = sq" and "n_pending q \<noteq> 0"
    and "ubus_find_notify_id 0 (n_pending q) (n_id q) pr = Some (int i)"
    and "\<forall>r'\<in>set rs. r' \<noteq> r \<longrightarrow> (\<exists>q. Q r' = Some q \<and> rq_seq q \<noteq> sq)"
  shows "find_request Q rs sq pr = Some (Some (r, int i))"
  using assms
proof (induction rs)
  case (Cons r' rs)
  then show ?case by (cases "r' = r") auto
qed simp

lemma notify_wait_find:
  assumes w: "notify_wait s r sq peers W" and i: "i \<in> W" and "inj_on ((!) peers) W"
  shows "ubus_find_request sq (peers ! i) s = Some (Some (r, int i))"
proof -
  from w obtain q where q: "reqs s r = Some q" "notify q" "rq_seq q = sq" "n_id q = peers" "\<And>i. bit (n_pending q) i \<longleftrightarrow> i \<in> W"
    by (auto simp: notify_wait_def)
  have "ubus_find_notify_id 0 (n_pending q) (n_id q) (peers ! i) = Some (int (0 + i))"
    by (rule find_notify_id_found) (use w q i assms(3) in \<open>auto simp: notify_wait_def inj_on_def\<close>)
  moreover have "n_pending q \<noteq> 0" using q(5) [of i] i by auto
  ultimately show ?thesis
    unfolding ubus_find_request_def using w q by (intro find_request_unique) (auto simp: notify_wait_def)
qed

lemma bit_clear: "bit ((w :: u32) AND NOT (push_bit i 1)) k \<longleftrightarrow> bit w k \<and> k \<noteq> i"
  using bit_imp_le_length [of w k] by (auto simp: bit_simps)

lemma bit_set: "i < 32 \<Longrightarrow> bit ((w :: u32) OR push_bit i 1) k \<longleftrightarrow> bit w k \<or> k = i"
  by (auto simp: bit_simps)

lemma no_bits: "(\<forall>i. bit (w :: u32) i \<longleftrightarrow> i \<in> W) \<Longrightarrow> w = 0 \<longleftrightarrow> W = {}"
  by (auto intro: bit_word_eqI)

lemma call_complete_inert:
  assumes "inert A" and "reqs s r = Some q" and "status_msg q" and "status_code q = c"
  shows "\<exists>s'. call_complete A r cb c s = Some s' \<and> requests s' = requests s \<and>
    (\<exists>q'. reqs s' r = Some q' \<and> status_msg q' \<and> status_code q' = c)"
proof (cases cb)
  case Sync_req_cb
  then show ?thesis using assms by (auto simp: call_complete_def ubus_sync_req_cb_def upd_req_def)
next
  case Notify_complete_cb
  then show ?thesis
    using assms tell_inert [OF assms(1), of "Notify_complete r" s]
    by (auto simp: call_complete_def ubus_notify_complete_cb_def)
next
  case App_complete_cb
  then show ?thesis using assms tell_inert [OF assms(1), of "Complete r c" s] by (auto simp: call_complete_def)
qed

lemma set_req_status_done:
  assumes "inert A" and "reqs s r = Some q" and "ready q" and "\<not> blocked q" and "distinct (requests s)"
  shows "\<exists>s'. ubus_set_req_status A r 0 s = Some s' \<and> notify_done s' r"
proof -
  define s1 where "s1 = (if r \<in> set (requests s) then s\<lparr>requests := remove1 r (requests s)\<rparr> else s)"
  define q1 where "q1 = q\<lparr>status_msg := True, status_code := 0\<rparr>"
  have r: "r \<notin> set (requests s1)" using assms(5) by (simp add: s1_def)
  have *: "ubus_set_req_status A r 0 s = ubus_req_complete_cb A r (s1\<lparr>reqs := (reqs s)(r \<mapsto> q1)\<rparr>)"
    using assms(2-4) by (auto simp: ubus_set_req_status_def unlinked_def upd_req_def s1_def q1_def)
  show ?thesis
  proof (cases "complete_cb q")
    case None
    then show ?thesis unfolding * using r by (auto simp: ubus_req_complete_cb_def notify_done_def q1_def)
  next
    case (Some cb)
    define s2 where "s2 = s1\<lparr>reqs := (reqs s)(r \<mapsto> q1\<lparr>complete_cb := None\<rparr>)\<rparr>"
    have "ubus_req_complete_cb A r (s1\<lparr>reqs := (reqs s)(r \<mapsto> q1)\<rparr>) = call_complete A r cb 0 s2"
      using Some by (simp add: ubus_req_complete_cb_def upd_req_def q1_def s2_def)
    moreover have "\<exists>s'. call_complete A r cb 0 s2 = Some s' \<and> requests s' = requests s2 \<and>
        (\<exists>q'. reqs s' r = Some q' \<and> status_msg q' \<and> status_code q' = 0)"
      by (rule call_complete_inert [OF assms(1), of _ _ "q1\<lparr>complete_cb := None\<rparr>"]) (simp_all add: s2_def q1_def)
    ultimately show ?thesis unfolding * using r by (auto simp: notify_done_def s2_def)
  qed
qed

lemma notify_status_step:
  assumes w: "notify_wait s r sq peers W" and i: "i \<in> W" "i \<noteq> 0" and A: "inert A" and d: "ubus_get_status data 0 = Some ret"
  shows "\<exists>s'. ubus_process_notify_status A r i data s = Some s' \<and>
    (if W = {i} then notify_done s' r else notify_wait s' r sq peers (W - {i}))"
proof -
  from w obtain q where q: "reqs s r = Some q" "ready q" "notify q" "\<not> blocked q" "\<not> status_msg q" "rq_seq q = sq" "n_id q = peers"
    "\<And>i. bit (n_pending q) i \<longleftrightarrow> i \<in> W" by (auto simp: notify_wait_def)
  define q1 where "q1 = q\<lparr>n_pending := n_pending q AND NOT (push_bit i 1)\<rparr>"
  define s1 where "s1 = s\<lparr>reqs := (reqs s)(r \<mapsto> q1)\<rparr>"
  obtain s2 where s2: "(if n_status_cb q1 then tell A (Notify_status r i ret) s1 else Some s1) = Some s2"
    "reqs s2 = reqs s1" "requests s2 = requests s1"
    using tell_inert [OF A, of "Notify_status r i ret" s1] by (cases "n_status_cb q1") auto
  have bits: "\<forall>k. bit (n_pending q1) k \<longleftrightarrow> k \<in> W - {i}" using q(8) bit_clear [of "n_pending q" i] by (simp add: q1_def)
  have step: "ubus_process_notify_status A r i data s = (if n_pending q1 = 0 then ubus_set_req_status A r 0 s2 else Some s2)"
  proof -
    have "ubus_process_notify_status A r i data s = do {
        s \<leftarrow> (if n_status_cb q1 then tell A (Notify_status r i ret) s1 else Some s1);
        q \<leftarrow> reqs s r;
        if n_pending q = 0 then ubus_set_req_status A r 0 s else Some s }"
      using q(1) i(2) d by (simp add: ubus_process_notify_status_def upd_req_def q1_def s1_def)
    also have "\<dots> = (if n_pending q1 = 0 then ubus_set_req_status A r 0 s2 else Some s2)"
      unfolding s2(1) using s2(2) by (simp add: s1_def)
    finally show ?thesis .
  qed
  show ?thesis
  proof (cases "W = {i}")
    case True
    then have "n_pending q1 = 0" using no_bits [OF bits] by simp
    moreover have "\<exists>s'. ubus_set_req_status A r 0 s2 = Some s' \<and> notify_done s' r"
      by (rule set_req_status_done [OF A, of _ _ q1]) (use w q s2 in \<open>auto simp: s1_def q1_def notify_wait_def\<close>)
    ultimately show ?thesis using True step by simp
  next
    case False
    then have "n_pending q1 \<noteq> 0" using no_bits [OF bits] i(1) by auto
    moreover have "notify_wait s2 r sq peers (W - {i})"
      using w q s2 bits unfolding notify_wait_def by (auto simp: s1_def q1_def)
    ultimately show ?thesis using False step by simp
  qed
qed

text \<open>Status messages for one request, in the order in which they arrive.\<close>

fun statuses :: "application \<Rightarrow> (ubus_msghdr \<times> byte list) list \<Rightarrow> client \<Rightarrow> client option" where
  "statuses A [] s = Some s"
| "statuses A ((h, d) # ms) s = do { s \<leftarrow> ubus_process_req_msg A h d (-1) s; statuses A ms s }"

lemma statuses_append: "statuses A (ms @ ms') s = do { s \<leftarrow> statuses A ms s; statuses A ms' s }"
  by (induction A ms s rule: statuses.induct) (auto split: bind_splits)

definition status_from :: "u16 \<Rightarrow> u32 \<Rightarrow> ubus_msghdr \<times> byte list \<Rightarrow> bool" where
  "status_from sq pr m \<longleftrightarrow> msg_type (fst m) = UBUS_MSG_STATUS \<and> seq (fst m) = sq \<and> peer (fst m) = pr \<and>
     (\<exists>ret. ubus_get_status (snd m) 0 = Some ret)"

lemma statuses_wait:
  assumes "notify_wait s r sq peers W" and "inj_on ((!) peers) W" and "0 \<notin> W" and "inert A"
    and "list_all2 (\<lambda>i m. status_from sq (peers ! i) m) js ms" and "distinct js" and "set js \<subseteq> W"
  shows "\<exists>s'. statuses A ms s = Some s' \<and>
    (if set js = W \<and> js \<noteq> [] then notify_done s' r else notify_wait s' r sq peers (W - set js))"
  using assms
proof (induction js arbitrary: s W ms)
  case (Cons j js)
  then obtain h d ms' where ms: "ms = (h, d) # ms'" "status_from sq (peers ! j) (h, d)"
    "list_all2 (\<lambda>i m. status_from sq (peers ! i) m) js ms'" by (auto simp: list_all2_Cons1)
  have j: "j \<in> W" "j \<noteq> 0" using Cons.prems by (auto intro: ccontr)
  obtain ret where ret: "ubus_get_status d 0 = Some ret" using ms(2) by (auto simp: status_from_def)
  obtain s1 where s1: "ubus_process_notify_status A r j d s = Some s1"
    "if W = {j} then notify_done s1 r else notify_wait s1 r sq peers (W - {j})"
    using notify_status_step [OF Cons.prems(1) j Cons.prems(4) ret] by blast
  from Cons.prems(1) obtain q where "reqs s r = Some q" by (auto simp: notify_wait_def)
  then have step: "ubus_process_req_msg A h d (-1) s = Some s1"
    using s1(1) ms(2) notify_wait_find [OF Cons.prems(1) j(1) Cons.prems(2)]
    by (auto simp: ubus_process_req_msg_def status_from_def)
  show ?case
  proof (cases "W = {j}")
    case True
    then have "js = []" using Cons.prems(6,7) by (cases js) auto
    with True s1(2) step ms show ?thesis by simp
  next
    case False
    with s1(2) have w1: "notify_wait s1 r sq peers (W - {j})" by simp
    have "inj_on ((!) peers) (W - {j})" using Cons.prems(2) by (rule inj_on_subset) auto
    from Cons.IH [OF w1 this _ Cons.prems(4) ms(3)] Cons.prems(3,6,7)
    obtain s' where "statuses A ms' s1 = Some s'"
      "if set js = W - {j} \<and> js \<noteq> [] then notify_done s' r else notify_wait s' r sq peers (W - {j} - set js)"
      by auto
    moreover have "set js = W - {j} \<and> js \<noteq> [] \<longleftrightarrow> set (j # js) = W \<and> j # js \<noteq> []"
      using j Cons.prems(6) False by (cases js) auto
    moreover have "W - {j} - set js = W - set (j # js)" by auto
    ultimately show ?thesis using step ms(1) by (auto split: if_splits)
  qed
qed auto

text \<open>The first status message: the daemon lists the subscribers \<open>vs\<close>.\<close>

definition lists_peers :: "byte list \<Rightarrow> u32 list \<Rightarrow> bool" where
  "lists_peers m vs \<longleftrightarrow> (\<exists>tb sub curs. client_parse_msg m = Some tb \<and> tb ! UBUS_ATTR_SUBSCRIBERS = Some sub \<and>
     blob_for_each_attr m (Some sub) = Some curs \<and>
     list_all2 (\<lambda>cur v. \<exists>n. blob_len m cur = Some n \<and> blob_check_type m (blob_data cur) n 6 = Some True \<and> blob_get_u32 m cur = Some v) curs vs)"

lemma notify_peers_ok:
  assumes "list_all2 (\<lambda>cur v. \<exists>n. blob_len m cur = Some n \<and> blob_check_type m (blob_data cur) n 6 = Some True \<and> blob_get_u32 m cur = Some v) curs vs"
    and "idx + length vs \<le> UBUS_MAX_NOTIFY_PEERS + 1" and "length peers = UBUS_MAX_NOTIFY_PEERS + 1"
  shows "\<exists>pend'. notify_peers m curs idx pend peers = Some (pend', take idx peers @ vs @ drop (idx + length vs) peers) \<and>
    (\<forall>i. bit pend' i \<longleftrightarrow> bit pend i \<or> idx \<le> i \<and> i < idx + length vs)"
  using assms
proof (induction curs arbitrary: idx pend peers vs)
  case Nil
  then show ?case by auto
next
  case (Cons cur curs)
  then obtain v vs' n where v: "vs = v # vs'" "blob_len m cur = Some n" "blob_check_type m (blob_data cur) n 6 = Some True"
    "blob_get_u32 m cur = Some v"
    "list_all2 (\<lambda>cur v. \<exists>n. blob_len m cur = Some n \<and> blob_check_type m (blob_data cur) n 6 = Some True \<and> blob_get_u32 m cur = Some v) curs vs'"
    by (auto simp: list_all2_Cons1)
  have idx: "idx < 32" "idx < length peers" "idx + 1 + length vs' \<le> UBUS_MAX_NOTIFY_PEERS + 1"
    using Cons.prems v(1) by (auto simp: UBUS_MAX_NOTIFY_PEERS_def)
  define pend1 where "pend1 = pend OR push_bit idx 1"
  have p1: "bit pend1 i \<longleftrightarrow> bit pend i \<or> i = idx" for i using bit_set [OF idx(1)] by (simp add: pend1_def)
  from Cons.IH [OF v(5) idx(3), of "peers[idx := v]" pend1] Cons.prems(3)
  obtain pend' where ih: "notify_peers m curs (idx + 1) pend1 (peers[idx := v]) =
      Some (pend', take (idx + 1) (peers[idx := v]) @ vs' @ drop (idx + 1 + length vs') (peers[idx := v]))"
    "\<And>i. bit pend' i \<longleftrightarrow> bit pend1 i \<or> idx + 1 \<le> i \<and> i < idx + 1 + length vs'" by auto
  have upd: "take (idx + 1) (peers[idx := v]) @ vs' @ drop (idx + 1 + length vs') (peers[idx := v]) =
      take idx peers @ vs @ drop (idx + length vs) peers"
    using idx(2) v(1) by (simp add: take_Suc_conv_app_nth)
  have "notify_peers m (cur # curs) idx pend peers = notify_peers m curs (idx + 1) pend1 (peers[idx := v])"
  proof (cases "idx + 1 = UBUS_MAX_NOTIFY_PEERS + 1")
    case True
    then have "vs' = []" using idx(3) by simp
    then have "curs = []" using v(5) by simp
    then show ?thesis using v True idx by (simp add: Let_def pend1_def)
  next
    case False
    then show ?thesis using v idx by (simp add: Let_def pend1_def)
  qed
  moreover have "bit pend' i \<longleftrightarrow> bit pend i \<or> idx \<le> i \<and> i < idx + length vs" for i
    using ih(2) [of i] p1 [of i] v(1) by auto
  ultimately show ?case using ih(1) upd by auto
qed

lemma length_takeWhile_neq: "v \<in> set vs \<Longrightarrow> length (takeWhile (\<lambda>x. x \<noteq> v) vs) < length vs"
  by (induction vs) auto

lemma notify_list_step:
  assumes w: "notify_wait s r sq peers {0}" and len: "length peers = UBUS_MAX_NOTIFY_PEERS + 1"
    and h: "msg_type h = UBUS_MSG_STATUS" "seq h = sq" "peer h = peers ! 0"
    and vs: "lists_peers d vs" "vs \<noteq> []" "length vs \<le> UBUS_MAX_NOTIFY_PEERS"
  shows "\<exists>s'. ubus_process_req_msg A h d (-1) s = Some s' \<and>
    notify_wait s' r sq (take 1 peers @ vs @ drop (1 + length vs) peers) {1..<1 + length vs}"
proof -
  from w obtain q where q: "reqs s r = Some q" "ready q" "notify q" "\<not> blocked q" "\<not> status_msg q" "rq_seq q = sq" "n_id q = peers"
    "\<And>i. bit (n_pending q) i \<longleftrightarrow> i \<in> {0}" by (auto simp: notify_wait_def)
  define w0 where "w0 = n_pending q AND NOT (push_bit 0 1)"
  have w0: "\<not> bit w0 i" for i using q(8) bit_clear [of "n_pending q" 0 i] by (auto simp: w0_def)
  from vs(1) obtain tb sub curs where p: "client_parse_msg d = Some tb" "tb ! UBUS_ATTR_SUBSCRIBERS = Some sub"
    "blob_for_each_attr d (Some sub) = Some curs"
    "list_all2 (\<lambda>cur v. \<exists>n. blob_len d cur = Some n \<and> blob_check_type d (blob_data cur) n 6 = Some True \<and> blob_get_u32 d cur = Some v) curs vs"
    unfolding lists_peers_def by blast
  obtain pend where pend: "notify_peers d curs 1 w0 peers = Some (pend, take 1 peers @ vs @ drop (1 + length vs) peers)"
    "\<And>i. bit pend i \<longleftrightarrow> 1 \<le> i \<and> i < 1 + length vs"
    using notify_peers_ok [OF p(4), of 1 peers w0] vs(3) len w0 by auto
  define q1 where "q1 = q\<lparr>n_pending := pend, n_id := take 1 peers @ vs @ drop (1 + length vs) peers\<rparr>"
  define s1 where "s1 = s\<lparr>reqs := (reqs s)(r \<mapsto> q1)\<rparr>"
  have "pend \<noteq> 0" using pend(2) [of 1] vs(2) by auto
  then have "ubus_process_notify_status A r 0 d s = Some s1"
    using q(1,7) p pend(1) by (simp add: ubus_process_notify_status_def upd_req_def q1_def s1_def w0_def)
  then have step: "ubus_process_req_msg A h d (-1) s = Some s1"
    using notify_wait_find [OF w, of 0] h q(1) by (simp add: ubus_process_req_msg_def)
  have "notify_wait s1 r sq (take 1 peers @ vs @ drop (1 + length vs) peers) {1..<1 + length vs}"
    using w q pend(2) len vs(3) unfolding notify_wait_def by (auto simp: s1_def q1_def)
  with step show ?thesis by blast
qed

text \<open>
  C5: A notification completes exactly when its last subscriber has answered. The request first waits
  for the daemon, whose status message lists the subscribers (at most 16, each once); then the status messages of the
  subscribers arrive in any order. After each of them but the last the request is still waiting; after
  the last one it is complete with status 0 and no longer in the list of requests. No other
  outstanding request has the same sequence number, and the callbacks of the application do not change requests.
\<close>

theorem notify_completes_with_last_peer:
  assumes "notify_wait s r sq peers {0}" and "length peers = UBUS_MAX_NOTIFY_PEERS + 1" and "inert A"
    and "msg_type h = UBUS_MSG_STATUS" "seq h = sq" "peer h = peers ! 0"
    and "lists_peers d vs" "vs \<noteq> []" "length vs \<le> UBUS_MAX_NOTIFY_PEERS" "distinct vs"
    and "list_all2 (status_from sq) ws ms" and "distinct ws" and "set ws = set vs"
  shows "(\<forall>k<length ms. \<exists>s' peers' W. statuses A ((h, d) # take k ms) s = Some s' \<and> notify_wait s' r sq peers' W) \<and>
    (\<exists>s'. statuses A ((h, d) # ms) s = Some s' \<and> notify_done s' r)"
proof -
  define peers' W where "peers' = take 1 peers @ vs @ drop (1 + length vs) peers" and "W = {1..<1 + length vs}"
  obtain s1 where s1: "ubus_process_req_msg A h d (-1) s = Some s1" "notify_wait s1 r sq peers' W"
    using notify_list_step [OF assms(1,2,4-9)] unfolding peers'_def W_def by blast
  have nth: "peers' ! i = vs ! (i - 1)" if "i \<in> W" for i
    using that assms(2) by (cases i) (auto simp: peers'_def W_def nth_append)
  have inj: "inj_on ((!) peers') W"
    using assms(10) by (auto simp: inj_on_def nth nth_eq_iff_index_eq W_def)
  define pos where "pos v = length (takeWhile (\<lambda>x. x \<noteq> v) vs) + 1" for v
  have pos: "pos v \<in> W" "peers' ! pos v = v" if "v \<in> set vs" for v
  proof -
    have "length (takeWhile (\<lambda>x. x \<noteq> v) vs) < length vs" using that by (rule length_takeWhile_neq)
    then show "pos v \<in> W" "peers' ! pos v = v"
      using nth [of "pos v"] nth_length_takeWhile [of "\<lambda>x. x \<noteq> v" vs] by (simp_all add: pos_def W_def)
  qed
  define js where "js = map pos ws"
  have js: "list_all2 (\<lambda>i m. status_from sq (peers' ! i) m) js ms"
    unfolding js_def list_all2_map1 by (rule list.rel_mono_strong [OF assms(11)]) (use pos assms(13) in auto)
  have js2: "distinct js" unfolding js_def distinct_map using assms(12,13) pos(2) by (auto simp: inj_on_def) metis
  have js3: "set js = W"
  proof
    show "set js \<subseteq> W" using pos(1) assms(13) by (auto simp: js_def)
    have "i = pos (vs ! (i - 1))" if "i \<in> W" for i
    proof -
      have v: "vs ! (i - 1) \<in> set vs" using that by (intro nth_mem) (auto simp: W_def)
      have "peers' ! i = peers' ! pos (vs ! (i - 1))" using nth [OF that] pos(2) [OF v] by simp
      with inj that pos(1) [OF v] show ?thesis by (auto dest: inj_onD)
    qed
    then show "W \<subseteq> set js" using assms(13) by (fastforce simp: js_def W_def)
  qed
  have len: "length js = length ms" using js by (rule list_all2_lengthD)
  have "\<exists>s' peers' W. statuses A ((h, d) # take k ms) s = Some s' \<and> notify_wait s' r sq peers' W" if "k < length ms" for k
  proof -
    have "set (take k js) \<noteq> W"
    proof
      assume "set (take k js) = W"
      then have "card W \<le> k" using card_length [of "take k js"] by (metis length_take min.bounded_iff)
      moreover have "card W = length js" using js2 js3 distinct_card by metis
      ultimately show False using that len by simp
    qed
    moreover have "list_all2 (\<lambda>i m. status_from sq (peers' ! i) m) (take k js) (take k ms)" using js by (rule list_all2_takeI)
    ultimately show ?thesis
      using statuses_wait [OF s1(2) inj _ assms(3), of "take k js" "take k ms"] js2 js3 s1(1)
      by (auto simp: W_def dest: in_set_takeD)
  qed
  moreover have "\<exists>s'. statuses A ((h, d) # ms) s = Some s' \<and> notify_done s' r"
  proof -
    have "js \<noteq> []" using assms(8,13) by (auto simp: js_def)
    then show ?thesis using statuses_wait [OF s1(2) inj _ assms(3) js js2] js3 s1(1) by (auto simp: W_def)
  qed
  ultimately show ?thesis by blast
qed

definition sample_list :: "byte list" where
  "sample_list = [0, 0, 0, 16, 11, 0, 0, 12, 0, 0, 0, 8, 0, 0, 0, 42]"

definition sample_status :: "byte list" where
  "sample_status = [0, 0, 0, 12, 1, 0, 0, 8, 0, 0, 0, 0]"

definition sample_notify :: client where
  "sample_notify = (idle_ctx [] ([], []))\<lparr>requests := [0],
     reqs := [0 \<mapsto> zero_request\<lparr>ready := True, notify := True, rq_seq := 1, n_pending := 1, n_id := 9 # replicate 16 0\<rparr>]\<rparr>"

lemmas parse_eval = client_parse_msg_def blob_parse_def blob_attr_valid_def blob_check_type_def blob_type_minlen_def client_policy_def
  ubus_attrs blob_for_each_attr_def blob_len_def blob_id_def blob_pad_len_def blob_get_u32_def blob_iter.simps blob_data_def
  rd_be32_def rd8_def of_be32_def hdr_id_def hdr_len_def hdr_pad_len_def hdr_raw_len_def to_int32_def

lemma sample_lists: "lists_peers sample_list [42]"
proof -
  have "blob_for_each_attr sample_list (Some 0) = Some [4]" by (simp add: sample_list_def parse_eval)
  moreover have "blob_id sample_list 4 = Some 11" by (simp add: sample_list_def parse_eval)
  moreover have "blob_attr_valid sample_list 4 (Some client_policy) 11 = Some True" by (simp add: sample_list_def parse_eval)
  ultimately have "client_parse_msg sample_list = Some ((replicate UBUS_ATTR_MAX None)[11 := Some 4])"
    by (simp add: client_parse_msg_def blob_parse_def UBUS_ATTR_MAX_def)
  moreover have "blob_for_each_attr sample_list (Some 4) = Some [8]" by (simp add: sample_list_def parse_eval)
  moreover have "blob_len sample_list 8 = Some 4" "blob_check_type sample_list (blob_data 8) 4 6 = Some True" "blob_get_u32 sample_list 8 = Some 42"
    by (simp_all add: sample_list_def parse_eval)
  ultimately show ?thesis unfolding lists_peers_def by (simp add: UBUS_ATTR_SUBSCRIBERS_def UBUS_ATTR_MAX_def)
qed

lemma sample_status_0: "ubus_get_status sample_status 0 = Some 0"
proof -
  have "blob_for_each_attr sample_status (Some 0) = Some [4]" by (simp add: sample_status_def parse_eval)
  moreover have "blob_id sample_status 4 = Some 1" by (simp add: sample_status_def parse_eval)
  moreover have "blob_attr_valid sample_status 4 (Some client_policy) 1 = Some True" by (simp add: sample_status_def parse_eval)
  ultimately have "client_parse_msg sample_status = Some ((replicate UBUS_ATTR_MAX None)[1 := Some 4])"
    by (simp add: client_parse_msg_def blob_parse_def UBUS_ATTR_MAX_def)
  moreover have "blob_get_u32 sample_status 4 = Some 0" by (simp add: sample_status_def parse_eval)
  ultimately show ?thesis by (simp add: ubus_get_status_def UBUS_ATTR_STATUS_def UBUS_ATTR_MAX_def)
qed

theorem notify_completes_with_last_peer_witness:
  "\<exists>s'. statuses quiet_app [(\<lparr>version = 0, msg_type = 1, seq = 1, peer = 9\<rparr>, sample_list), (\<lparr>version = 0, msg_type = 1, seq = 1, peer = 42\<rparr>, sample_status)]
     sample_notify = Some s' \<and> notify_done s' 0"
proof -
  have "notify_wait sample_notify 0 1 (9 # replicate 16 0) {0}"
    by (auto simp: notify_wait_def sample_notify_def zero_request_def bit_1_iff)
  moreover have "inert quiet_app" by (simp add: inert_def quiet_app_def)
  ultimately show ?thesis
    using notify_completes_with_last_peer [OF _ _ _ _ _ _ sample_lists, of sample_notify 0 1 "9 # replicate 16 0" quiet_app
        "\<lparr>version = 0, msg_type = 1, seq = 1, peer = 9\<rparr>" "[42]" "[(\<lparr>version = 0, msg_type = 1, seq = 1, peer = 42\<rparr>, sample_status)]"]
    by (simp add: UBUS_MAX_NOTIFY_PEERS_def UBUS_MSG_STATUS_def status_from_def sample_status_0 del: statuses.simps)
qed

text \<open>
  Messages with data that arrive for a request one after the other, and the call of the application that each is meant for.
\<close>

fun arrive :: "application \<Rightarrow> nat \<Rightarrow> (ubus_msghdr \<times> byte list) list \<Rightarrow> client \<Rightarrow> client option" where
  "arrive A r [] s = Some s"
| "arrive A r ((h, d) # ms) s = ubus_process_req_data A r h d s \<bind> arrive A r ms"

definition data_call :: "nat \<Rightarrow> ubus_msghdr \<times> byte list \<Rightarrow> call" where
  "data_call r = (\<lambda>(h, d). Raw_data r (int (unat (msg_type h))) (take (unat (the (blob_raw_len d 0))) d))"

text \<open>
  An application that leaves requests alone and keeps a record \<open>log\<close> of what its functions were called with.
\<close>

definition records :: "application \<Rightarrow> (client \<Rightarrow> 'a list) \<Rightarrow> (call \<Rightarrow> 'a) \<Rightarrow> bool" where
  "records A log f \<longleftrightarrow> (\<forall>c s. \<exists>x s'. on_call A c s = Some (x, s') \<and> reqs s' = reqs s \<and> log s' = log s @ [f c]) \<and>
     (\<forall>s Q. log (s\<lparr>reqs := Q\<rparr>) = log s) \<and> (\<forall>s t. log (s\<lparr>tick := t\<rparr>) = log s)"

lemma arrive_blocked:
  assumes "\<And>t. alloc_ok A t" and A: "records A log f"
  shows "reqs s r = Some q \<Longrightarrow> blocked q \<Longrightarrow> \<forall>(h, d)\<in>set ms. \<exists>n. whole d n \<Longrightarrow>
    \<exists>s'. arrive A r ms s = Some s' \<and> log s' = log s \<and>
      reqs s' r = Some (q\<lparr>pending := map (\<lambda>(h, d). (int (unat (msg_type h)), take (unat (the (blob_raw_len d 0))) d)) (rev ms) @ pending q\<rparr>)"
proof (induction ms arbitrary: s q)
  case (Cons m ms)
  obtain h d where m: "m = (h, d)" by (cases m)
  obtain n where n: "whole d n" using Cons.prems(3) m by auto
  let ?q = "q\<lparr>pending := (int (unat (msg_type h)), take (unat n) d) # pending q\<rparr>"
  let ?s = "s\<lparr>tick := tick s + 1, reqs := (reqs s)(r \<mapsto> ?q)\<rparr>"
  have step: "ubus_process_req_data A r h d s = Some ?s"
    using Cons.prems(1,2) n assms(1) by (simp add: ubus_process_req_data_def whole_def mem_read_def upd_req_def Let_def)
  have "log ?s = log s" using A unfolding records_def by metis
  then show ?case using Cons.IH [of ?s ?q] Cons.prems step m n by (auto simp: whole_def)
qed auto

lemma pending_delivered:
  assumes A: "records A log f"
  shows "reqs s r = Some q \<Longrightarrow> ready q \<Longrightarrow> \<not> cancelled q \<Longrightarrow> raw_data_cb q = Some App_data_cb \<Longrightarrow> \<not> data_cb q \<Longrightarrow> pending q = ps \<Longrightarrow>
    \<exists>s'. ubus_pending_data A r s = Some s' \<and> log s' = log s @ map (\<lambda>(ty, d). f (Raw_data r ty d)) ps \<and> reqs s' r = Some (q\<lparr>pending := []\<rparr>)"
proof (induction ps arbitrary: s q)
  case Nil
  moreover from Nil have "q\<lparr>pending := []\<rparr> = q" by (cases q) simp
  ultimately show ?case by (subst ubus_pending_data.simps) simp
next
  case (Cons p ps)
  obtain ty d where p: "p = (ty, d)" by (cases p)
  let ?q = "q\<lparr>pending := ps\<rparr>" let ?s = "s\<lparr>reqs := (reqs s)(r \<mapsto> ?q)\<rparr>"
  obtain x s1 where s1: "on_call A (Raw_data r ty d) ?s = Some (x, s1)" "reqs s1 = reqs ?s" "log s1 = log ?s @ [f (Raw_data r ty d)]"
    using A unfolding records_def by blast
  have l: "log ?s = log s" using A unfolding records_def by blast
  have "req_data_cb A r ty d ?s = Some s1" using s1(1,2) Cons.prems by (simp add: req_data_cb_def call_raw_data_def tell_def)
  then have "ubus_pending_data A r s = ubus_pending_data A r s1"
    using Cons.prems p by (subst ubus_pending_data.simps) (simp add: upd_req_def)
  then show ?case using Cons.IH [of s1 ?q] Cons.prems s1(2,3) l p by auto
qed

text \<open>
  C39: Data that arrives while a request is blocked is handed over in the wrong order. The messages that arrive while the callback of an earlier
  one runs are each put in front of the ones that wait; when the callback has returned, they are taken from the front. So, with
  memory for all of them and a function of the application that only records its calls, any number of messages is
  delivered completely and exactly in the reverse of the order in which they arrived.
\<close>

theorem pending_data_reversed:
  assumes "reqs s r = Some q" and "ready q" and "blocked q" and "\<not> cancelled q" and "pending q = []"
    and "raw_data_cb q = Some App_data_cb" and "\<not> data_cb q" and "\<forall>(h, d)\<in>set ms. \<exists>n. whole d n"
    and "\<And>t. alloc_ok A t" and "records A log f"
  shows "\<exists>s1 s2. arrive A r ms s = Some s1 \<and> log s1 = log s \<and> ubus_pending_data A r s1 = Some s2 \<and>
    log s2 = log s @ map (\<lambda>m. f (data_call r m)) (rev ms) \<and> map_option pending (reqs s2 r) = Some []"
proof -
  let ?ps = "map (\<lambda>(h, d). (int (unat (msg_type h)), take (unat (the (blob_raw_len d 0))) d)) (rev ms)"
  obtain s1 where s1: "arrive A r ms s = Some s1" "log s1 = log s" "reqs s1 r = Some (q\<lparr>pending := ?ps\<rparr>)"
    using arrive_blocked [OF assms(9,10,1,3,8)] assms(5) by auto
  have "map (\<lambda>(ty, d). f (Raw_data r ty d)) ?ps = map (\<lambda>m. f (data_call r m)) (rev ms)" by (auto simp: data_call_def)
  then show ?thesis using s1 pending_delivered [OF assms(10) s1(3), of ?ps] assms(2,4,6,7) by auto
qed

text \<open>An application that records the data it gets, and two messages, of four and five bytes.\<close>

definition recorder :: application where
  "recorder = \<lparr>alloc_ok = (\<lambda>_. True), fresh_byte = (\<lambda>_ _. 0xcd), on_call = (\<lambda>c s. Some ((0, None), s\<lparr>sent := sent s @ [case c of Raw_data r ty d \<Rightarrow> (d, Some ty) | _ \<Rightarrow> ([], None)]\<rparr>))\<rparr>"

definition blocked_request :: client where
  "blocked_request = (idle_ctx [] ([], []))\<lparr>reqs := [0 \<mapsto> zero_request\<lparr>ready := True, blocked := True, raw_data_cb := Some App_data_cb\<rparr>]\<rparr>"

theorem pending_data_reversed_witness:
  "\<exists>s1 s2. arrive recorder 0 [(zero_hdr, [0, 0, 0, 4]), (zero_hdr, [0, 0, 0, 5, 7])] blocked_request = Some s1 \<and>
    ubus_pending_data recorder 0 s1 = Some s2 \<and> sent s2 = [([0, 0, 0, 5, 7], Some 0), ([0, 0, 0, 4], Some 0)]"
proof -
  have w: "whole [0, 0, 0, 4] 4" "whole [0, 0, 0, 5, 7] 5"
    by (simp_all add: whole_def blob_raw_len_def rd_be32_def of_be32_def hdr_raw_len_def hdr_len_def)
  have "records recorder sent (\<lambda>c. case c of Raw_data r ty d \<Rightarrow> (d, Some ty) | _ \<Rightarrow> ([], None))" by (simp add: records_def recorder_def)
  from pending_data_reversed [OF _ _ _ _ _ _ _ _ _ this, of blocked_request 0 "zero_request\<lparr>ready := True, blocked := True, raw_data_cb := Some App_data_cb\<rparr>"
      "[(zero_hdr, [0, 0, 0, 4]), (zero_hdr, [0, 0, 0, 5, 7])]"] w
  show ?thesis by (auto simp: blocked_request_def zero_request_def recorder_def data_call_def whole_def idle_ctx_def)
qed

end
