(* ===== verification/Libubus_Obj.thy ===== *)
theory Libubus_Obj
  imports Libubus_Req Ubus_Wire
begin

text \<open>
  Messages for the objects of a client, the queue of messages that arrive during a synchronous request,
  and the functions that send and wait: \<open>src/ubus/libubus-obj.c\<close>, \<open>libubus-sub.c\<close>, \<open>libubus.c\<close> and the rest
  of \<open>libubus-req.c\<close> and \<open>libubus-io.c\<close>.

  The loops that wait for messages are partial functions: \<open>None\<close> is the value of a loop that does not
  end, as well as of an invalid access.
\<close>

section \<open>The static buffer\<close>

text \<open>The return values of the functions that fill \<open>b\<close> are ignored, as in the code.\<close>

definition c_init :: "application \<Rightarrow> client \<Rightarrow> client option" where
  "c_init A s = map_option snd (with_cbuf A (\<lambda>a b. blob_buf_init a b 0) s)"

definition c_put_int32 :: "application \<Rightarrow> nat \<Rightarrow> u32 \<Rightarrow> client \<Rightarrow> client option" where
  "c_put_int32 A i v s = map_option snd (with_cbuf A (\<lambda>a b. blob_put_u32 a b (int i) v) s)"

definition c_put_int8 :: "application \<Rightarrow> nat \<Rightarrow> byte \<Rightarrow> client \<Rightarrow> client option" where
  "c_put_int8 A i v s = map_option snd (with_cbuf A (\<lambda>a b. blob_put_u8 a b (int i) v) s)"

definition c_put_string :: "application \<Rightarrow> nat \<Rightarrow> cstring \<Rightarrow> client \<Rightarrow> client option" where
  "c_put_string A i v s = map_option snd (with_cbuf A (\<lambda>a b. blob_put_string a b (int i) v) s)"

text \<open>\<open>blob_put (&b, i, blob_data (msg), blob_len (msg))\<close>\<close>

definition c_put_payload :: "application \<Rightarrow> nat \<Rightarrow> byte list \<Rightarrow> client \<Rightarrow> client option" where
  "c_put_payload A i msg s = do {
     n \<leftarrow> blob_len msg 0;
     map_option snd (with_cbuf A (\<lambda>a b. blob_put a b (int i) (Some (drop 4 msg)) n) s)
   }"

definition c_nest_start :: "application \<Rightarrow> nat \<Rightarrow> client \<Rightarrow> (int \<times> client) option" where
  "c_nest_start A i s = do {
     (c, s) \<leftarrow> with_cbuf A (\<lambda>a b. blob_nest_start a b (int i)) s;
     c \<leftarrow> c;
     Some (c, s)
   }"

definition c_nest_end :: "int \<Rightarrow> client \<Rightarrow> client option" where
  "c_nest_end c s = do {
     b \<leftarrow> blob_nest_end (cbuf s) c;
     Some (s\<lparr>cbuf := b\<rparr>)
   }"

text \<open>\<open>b.head\<close>\<close>

definition c_msg :: "client \<Rightarrow> byte list option" where
  "c_msg s = do {
     h \<leftarrow> head (cbuf s);
     Some (drop h (buf (cbuf s)))
   }"

section \<open>Messages for objects\<close>

definition upd_cobj :: "nat \<Rightarrow> (ubus_obj \<Rightarrow> ubus_obj) \<Rightarrow> client \<Rightarrow> client option" where
  "upd_cobj obj f s = do {
     x \<leftarrow> cobjs s obj;
     Some (s\<lparr>cobjs := (cobjs s)(obj \<mapsto> f x)\<rparr>)
   }"

definition ubus_process_unsubscribe :: "application \<Rightarrow> nat option \<Rightarrow> nat option list \<Rightarrow> byte list \<Rightarrow> client \<Rightarrow> client option" where
  "ubus_process_unsubscribe A obj tb data s =
     (case (obj, tb ! UBUS_ATTR_TARGET) of
       (Some obj, Some p) \<Rightarrow> do {
         x \<leftarrow> cobjs s obj;
         if \<not> watch x then Some s
         else if remove_cb x then do {
           t \<leftarrow> blob_get_u32 data p;
           tell A (Remove obj t) s
         }
         else Some s
       }
     | _ \<Rightarrow> Some s)"

definition ubus_process_notify :: "application \<Rightarrow> nat option \<Rightarrow> nat option list \<Rightarrow> byte list \<Rightarrow> client \<Rightarrow> client option" where
  "ubus_process_notify A obj tb data s =
     (case (obj, tb ! UBUS_ATTR_ACTIVE) of
       (Some obj, Some p) \<Rightarrow> do {
         v \<leftarrow> blob_get_u8 data p;
         s \<leftarrow> upd_cobj obj (\<lambda>x. x\<lparr>has_subscribers := (v \<noteq> 0)\<rparr>) s;
         x \<leftarrow> cobjs s obj;
         if subscribe_cb x then tell A (Subscribe obj) s else Some s
       }
     | _ \<Rightarrow> Some s)"

definition ubus_complete_deferred_request :: "application \<Rightarrow> ubus_request_data \<Rightarrow> int \<Rightarrow> client \<Rightarrow> client option" where
  "ubus_complete_deferred_request A req ret s = do {
     s \<leftarrow> c_init A s;
     s \<leftarrow> c_put_int32 A UBUS_ATTR_STATUS (word_of_int ret) s;
     s \<leftarrow> c_put_int32 A UBUS_ATTR_OBJID (d_object req) s;
     m \<leftarrow> c_msg s;
     (_, s) \<leftarrow> ubus_send_msg A (ucast (d_seq req)) (Some m) UBUS_MSG_STATUS (d_peer req) (d_fd req) s;
     Some s
   }"

text \<open>The index of the first method that has no name or the name given.\<close>

fun find_method :: "ubus_method list \<Rightarrow> cstring \<Rightarrow> nat \<Rightarrow> nat option" where
  "find_method [] name i = None"
| "find_method (m # ms) name i = (if m_name m = None \<or> m_name m = Some name then Some i else find_method ms name (i + 1))"

text \<open>
  The handler of a method: \<open>ubus_subscriber_cb\<close> for a subscriber, \<open>ubus_event_cb\<close> for an event handler, else a function
  of the application. The application may change the request data it is given.
\<close>

definition call_method :: "application \<Rightarrow> nat \<Rightarrow> nat \<Rightarrow> ubus_request_data \<Rightarrow> cstring \<Rightarrow> attr option \<Rightarrow> client \<Rightarrow>
    (int \<times> ubus_request_data \<times> client) option" where
  "call_method A obj i req name data s = do {
     x \<leftarrow> cobjs s obj;
     if watch x \<and> \<not> sub_cb x then Some (0, req, s)
     else do {
       ((ret, r), s) \<leftarrow> on_call A (Method obj i req name data) s;
       Some (if event x then 0 else ret, if event x then req else (case r of None \<Rightarrow> req | Some r \<Rightarrow> r), s)
     }
   }"

definition ubus_process_invoke :: "application \<Rightarrow> ubus_msghdr \<Rightarrow> nat option \<Rightarrow> nat option list \<Rightarrow> byte list \<Rightarrow> client \<Rightarrow> client option" where
  "ubus_process_invoke A h obj tb data s = (
     let req = \<lparr>d_object = 0, d_peer = 0, d_seq = 0, deferred = False, d_fd = -1\<rparr> in
     case obj of
       None \<Rightarrow> ubus_complete_deferred_request A req UBUS_STATUS_NOT_FOUND s
     | Some obj \<Rightarrow>
         (case tb ! UBUS_ATTR_METHOD of
           None \<Rightarrow> ubus_complete_deferred_request A req UBUS_STATUS_INVALID_ARGUMENT s
         | Some mp \<Rightarrow> do {
             no_reply \<leftarrow> (case tb ! UBUS_ATTR_NO_REPLY of None \<Rightarrow> Some False | Some p \<Rightarrow> map_option (\<lambda>v. v \<noteq> 0) (blob_get_u8 data p));
             x \<leftarrow> cobjs s obj;
             let req = req\<lparr>d_peer := peer h, d_seq := seq h, d_object := o_id x\<rparr>;
             name \<leftarrow> blob_get_string data mp;
             case find_method (o_methods x) name 0 of
               None \<Rightarrow> ubus_complete_deferred_request A req UBUS_STATUS_METHOD_NOT_FOUND s
             | Some i \<Rightarrow> do {
                 (ret, req, s) \<leftarrow> call_method A obj i req name (map_option (Pair data) (tb ! UBUS_ATTR_DATA)) s;
                 if deferred req \<or> no_reply then Some s else ubus_complete_deferred_request A req ret s
               }
           }))"

text \<open>\<open>own\<close> is whether the message is in \<open>ctx->msgbuf\<close>, whose block is then set aside during the call.\<close>

definition ubus_process_obj_msg :: "application \<Rightarrow> bool \<Rightarrow> ubus_msghdr \<Rightarrow> byte list \<Rightarrow> client \<Rightarrow> client option" where
  "ubus_process_obj_msg A own h data s = do {
     tb \<leftarrow> client_parse_msg data;
     case tb ! UBUS_ATTR_OBJID of
       None \<Rightarrow> Some s
     | Some p \<Rightarrow> do {
         objid \<leftarrow> blob_get_u32 data p;
         let obj = ubus_find_id (ctx_objects s) objid;
         let s = (if own then s\<lparr>msgbuf_data := None\<rparr> else s);
         s \<leftarrow> (if msg_type h = UBUS_MSG_INVOKE then ubus_process_invoke A h obj tb data s
               else if msg_type h = UBUS_MSG_UNSUBSCRIBE then ubus_process_unsubscribe A obj tb data s
               else if msg_type h = UBUS_MSG_NOTIFY then ubus_process_notify A obj tb data s
               else Some s);
         Some (if own \<and> msgbuf_data s = None then s\<lparr>msgbuf_data := Some data\<rparr> else s)
       }
   }"

definition ubus_queue_msg :: "application \<Rightarrow> ubus_msghdr \<Rightarrow> byte list \<Rightarrow> client \<Rightarrow> client option" where
  "ubus_queue_msg A h data s = do {
     n \<leftarrow> blob_raw_len data 0;
     if \<not> alloc_ok A (tick s) then None
     else do {
       d \<leftarrow> mem_read data 0 (unat n);
       Some (s\<lparr>tick := tick s + 1, ctx_pending := (h, d) # ctx_pending s,
               pending_timer := (pending_timer s \<or> registered s)\<rparr>)
     }
   }"

definition ubus_process_msg :: "application \<Rightarrow> bool \<Rightarrow> ubus_msghdr \<Rightarrow> byte list \<Rightarrow> int \<Rightarrow> client \<Rightarrow> client option" where
  "ubus_process_msg A own h data fd s =
     (if msg_type h = UBUS_MSG_STATUS \<or> msg_type h = UBUS_MSG_DATA then ubus_process_req_msg A h data fd s
      else if msg_type h = UBUS_MSG_INVOKE \<or> msg_type h = UBUS_MSG_UNSUBSCRIBE \<or> msg_type h = UBUS_MSG_NOTIFY then
        if stack_depth s \<noteq> 0 then ubus_queue_msg A h data s else ubus_process_obj_msg A own h data s
      else Some s)"

partial_function (option) ubus_process_pending_msg :: "application \<Rightarrow> client \<Rightarrow> client option" where
  "ubus_process_pending_msg A s =
     (if stack_depth s \<noteq> 0 then Some s
      else case ctx_pending s of
        [] \<Rightarrow> Some s
      | (h, d) # ps \<Rightarrow> do {
          s \<leftarrow> ubus_process_msg A False h d (-1) (s\<lparr>ctx_pending := ps\<rparr>);
          ubus_process_pending_msg A s
        })"

section \<open>Waiting\<close>

partial_function (option) handle_data_loop :: "application \<Rightarrow> int \<Rightarrow> client \<Rightarrow> client option" where
  "handle_data_loop A recv_fd s = do {
     (ok, recv_fd, s) \<leftarrow> get_next_msg A recv_fd s;
     if \<not> ok then Some s
     else do {
       d \<leftarrow> msgbuf_data s;
       s \<leftarrow> ubus_process_msg A True (msgbuf_hdr s) d recv_fd s;
       if uloop_cancelled s then Some s else handle_data_loop A recv_fd s
     }
   }"

definition ubus_default_connection_lost :: "client \<Rightarrow> client" where
  "ubus_default_connection_lost s = (if registered s then s\<lparr>uloop_cancelled := True\<rparr> else s)"

definition ubus_handle_data :: "application \<Rightarrow> client \<Rightarrow> client option" where
  "ubus_handle_data A s = do {
     s \<leftarrow> handle_data_loop A (-1) s;
     if \<not> ctx_eof s then Some s
     else if default_lost s then Some (ubus_default_connection_lost s)
     else tell A Connection_lost s
   }"

text \<open>\<open>poll\<close> changes nothing but time; what then waits in the socket is in the script.\<close>

definition ubus_poll_data :: "application \<Rightarrow> client \<Rightarrow> client option" where
  "ubus_poll_data A s = ubus_handle_data A (s\<lparr>tick := tick s + 1\<rparr>)"

definition get_time_msec :: "client \<Rightarrow> int \<times> client" where
  "get_time_msec s = (times s (tick s), s\<lparr>tick := tick s + 1\<rparr>)"

text \<open>The loop of \<open>ubus_complete_request\<close>.\<close>

partial_function (option) wait_status :: "application \<Rightarrow> nat \<Rightarrow> int \<Rightarrow> int \<Rightarrow> client \<Rightarrow> client option" where
  "wait_status A r req_timeout time_end s = do {
     q \<leftarrow> reqs s r;
     if status_msg q then Some s
     else (
       let cancelled = uloop_cancelled s;
           s = s\<lparr>uloop_cancelled := False\<rparr>;
           (late, s) = (if req_timeout \<noteq> 0 then (case get_time_msec s of (t, s) \<Rightarrow> (time_end - t \<le> 0, s)) else (False, s))
       in if late then do {
            s \<leftarrow> ubus_set_req_status A r UBUS_STATUS_TIMEOUT s;
            Some (s\<lparr>uloop_cancelled := cancelled\<rparr>)
          }
          else do {
            s \<leftarrow> ubus_poll_data A s;
            wait_status A r req_timeout time_end (s\<lparr>uloop_cancelled := cancelled\<rparr>)
          })
   }"

text \<open>\<open>uloop_fd_add\<close> on the socket: it also clears \<open>eof\<close>.\<close>

definition ubus_add_uloop :: "client \<Rightarrow> client" where
  "ubus_add_uloop s = s\<lparr>registered := True, ctx_eof := False\<rparr>"

definition ubus_complete_request :: "application \<Rightarrow> nat \<Rightarrow> int \<Rightarrow> client \<Rightarrow> (int \<times> client) option" where
  "ubus_complete_request A r req_timeout s = do {
     q \<leftarrow> reqs s r;
     let saved = complete_cb q;
     let was = registered s;
     let s = (if was then s else ubus_add_uloop s);
     let (time_end, s) = (if req_timeout \<noteq> 0 then (case get_time_msec s of (t, s) \<Rightarrow> (t + req_timeout, s)) else (0, s));
     s \<leftarrow> ubus_complete_request_async r s;
     s \<leftarrow> upd_req r (\<lambda>q. q\<lparr>complete_cb := Some Sync_req_cb\<rparr>) s;
     s \<leftarrow> wait_status A r req_timeout time_end (s\<lparr>stack_depth := stack_depth s + 1\<rparr>);
     let s = s\<lparr>stack_depth := stack_depth s - 1\<rparr>;
     let s = (if stack_depth s \<noteq> 0 then s\<lparr>uloop_cancelled := True\<rparr> else s);
     q \<leftarrow> reqs s r;
     let status = (if status_msg q then status_code q else UBUS_STATUS_NO_DATA);
     s \<leftarrow> upd_req r (\<lambda>q. q\<lparr>complete_cb := saved\<rparr>) s;
     s \<leftarrow> (case saved of None \<Rightarrow> Some s | Some cb \<Rightarrow> call_complete A r cb status s);
     s \<leftarrow> (if was then Some s
           else (let s = s\<lparr>registered := False\<rparr> in
                 if stack_depth s = 0 then ubus_process_pending_msg A s else Some s));
     Some (status, s)
   }"

section \<open>The messages a client builds\<close>

text \<open>\<open>s'\<close> differs from \<open>s\<close> in \<open>b\<close> at most.\<close>

definition buffered :: "client \<Rightarrow> client \<Rightarrow> bool" where
  "buffered s s' \<longleftrightarrow> s' = s\<lparr>cbuf := cbuf s', tick := tick s'\<rparr>"

definition with_memory :: "application \<Rightarrow> application" where
  "with_memory A = A\<lparr>alloc_ok := (\<lambda>_. True)\<rparr>"

definition c_put :: "application \<Rightarrow> int \<Rightarrow> byte list \<Rightarrow> client \<Rightarrow> client option" where
  "c_put A i bs s = map_option snd (with_cbuf A (\<lambda>a b. blob_put a b i (Some bs) (word_of_nat (length bs))) s)"

lemma with_memory_id: "(\<And>t. alloc_ok A t) \<Longrightarrow> with_memory A = A"
  by (cases A) (auto simp: with_memory_def)

lemma buffered_trans: "buffered s s' \<Longrightarrow> buffered s' s'' \<Longrightarrow> buffered s s''"
  by (cases s, cases s', cases s'') (auto simp: buffered_def)

lemma buffered_same: "buffered s s' \<Longrightarrow> sends s' = sends s \<and> sent s' = sent s \<and> cobjs s' = cobjs s \<and> reqs s' = reqs s \<and>
    requests s' = requests s \<and> request_seq s' = request_seq s \<and> ctypes s' = ctypes s"
  unfolding buffered_def by (cases s, cases s') simp

interpretation c_buffer: static_buffer cbuf "c_init (with_memory A)" "c_put (with_memory A)" buffered for A
proof (unfold_locales, goal_cases)
  case (1 s r b)
  then show ?case by (auto simp: c_init_def with_cbuf_def with_memory_def buffered_def)
next
  case (2 s i bs q b)
  then show ?case by (auto simp: c_put_def with_cbuf_def with_memory_def buffered_def)
next
  case (3 s s1 s2)
  then show ?case by (rule buffered_trans)
next
  case (4 s)
  show ?case by (simp add: buffered_def)
qed

lemma c_puts:
  "c_put_int32 A i v = c_put A (int i) (be32 v)" "c_put_int8 A i w = c_put A (int i) [w]"
  "c_put_string A i str = c_put A (int i) (str @ [0])"
  by (simp_all add: fun_eq_iff c_put_int32_def c_put_int8_def c_put_string_def c_put_def
      blob_put_u32_def blob_put_u8_def blob_put_string_def)

lemma c_put_payload_put:
  assumes "blob_len msg 0 = Some (word_of_nat (length pl))" and "drop 4 msg = pl @ R" and "length pl < 2 ^ 24"
  shows "c_put_payload A i msg s = c_put A (int i) pl s"
  using assms blob_put_take [of "word_of_nat (length pl)" "pl @ R"]
  by (simp add: c_put_payload_def c_put_def)

text \<open>The operations applied to a series of values, from a buffer that is ready.\<close>

lemma c_build_ok:
  assumes A: "\<And>t. alloc_ok A t" and "buf_ok (cbuf s)" and "length (enc_attrs (map (\<lambda>(i, bs). Leaf i bs) xs)) + 4 < 2 ^ 24"
  obtains s1 s' where "c_init A s = Some s1" "c_buffer.puts A xs s1 = Some s'"
    "buf_holds (cbuf s') (map (\<lambda>(i, bs). Leaf i bs) xs)" "buffered s s'"
  using c_buffer.build_ok [OF assms(2,3), where A = A] with_memory_id [OF A] by metis

lemma send_built_ok:
  assumes h: "buf_holds (cbuf s) ts" and n: "length (enc_attrs ts) + 4 < 2 ^ 24"
    and ks: "Send_fail \<notin> set (sends s)" "12 + length (enc_attrs ts) \<le> sum_list (map accepts (sends s))"
  obtains m s' where "c_msg s = Some m" "ubus_send_msg A sq (Some m) cmd pr fd s = Some (12 + int (length (enc_attrs ts)), s')"
    "sent_bytes s' = sent_bytes s @ hdr_bytes \<lparr>version = 0, msg_type = cmd, seq = ucast sq, peer = pr\<rparr> @ enc_attr (Nest 0 ts)"
    "s' = s\<lparr>sends := sends s', sent := sent s', closed := closed s @ (if fd \<ge> 0 then [fd] else [])\<rparr>"
proof -
  let ?k = "length (enc_attrs ts)"
  note m = holds_msg_bytes [OF h n]
  obtain R where R: "buf (cbuf s) = enc_attr (Nest 0 ts) @ R" using m(2) by blast
  have c: "c_msg s = Some (buf (cbuf s))" using m(1) by (simp add: c_msg_def)
  have w: "whole (buf (cbuf s)) (word_of_nat (4 + ?k))" using m(3,4) R by (simp add: whole_def del: of_nat_add)
  have "take (4 + ?k) (buf (cbuf s)) = enc_attr (Nest 0 ts)" using R by simp
  then obtain s' dn ks' where "ubus_send_msg A sq (Some (buf (cbuf s))) cmd pr fd s = Some (8 + int (4 + ?k), s')"
      and s': "s' = s\<lparr>sends := ks', sent := sent s @ dn, closed := closed s @ (if fd \<ge> 0 then [fd] else [])\<rparr>"
      and "concat (map fst dn) = hdr_bytes \<lparr>version = 0, msg_type = cmd, seq = ucast sq, peer = pr\<rparr> @ enc_attr (Nest 0 ts)"
    using ubus_send_msg_ok [OF w ks(1), of A sq cmd pr fd] ks(2) unfolding m(4) by auto
  with c show thesis by (intro that) (auto simp: sent_bytes_def)
qed

section \<open>Answers\<close>

text \<open>The socket takes a message with \<open>n\<close> bytes of attributes without an error; memory is available.\<close>

definition can_send :: "application \<Rightarrow> nat \<Rightarrow> client \<Rightarrow> bool" where
  "can_send A n s \<longleftrightarrow> (\<forall>t. alloc_ok A t) \<and> Send_fail \<notin> set (sends s) \<and> 12 + n \<le> sum_list (map accepts (sends s)) \<and> buf_ok (cbuf s)"

definition status_reply :: "u16 \<Rightarrow> u32 \<Rightarrow> int \<Rightarrow> u32 \<Rightarrow> byte list" where
  "status_reply sq pr ret obj = hdr_bytes \<lparr>version = 0, msg_type = UBUS_MSG_STATUS, seq = sq, peer = pr\<rparr> @
     enc_attr (Nest 0 [Leaf (int UBUS_ATTR_STATUS) (be32 (word_of_int ret)), Leaf (int UBUS_ATTR_OBJID) (be32 obj)])"

lemma ubus_complete_deferred_request_ok:
  assumes "can_send A 16 s"
  shows "\<exists>s'. ubus_complete_deferred_request A req ret s = Some s' \<and>
    sent_bytes s' = sent_bytes s @ status_reply (d_seq req) (d_peer req) ret (d_object req) \<and>
    s' = s\<lparr>cbuf := cbuf s', tick := tick s', sends := sends s', sent := sent s', closed := closed s'\<rparr>"
proof -
  note A = assms [unfolded can_send_def]
  let ?st = "Leaf (int UBUS_ATTR_STATUS) (be32 (word_of_int ret))" and ?ob = "Leaf (int UBUS_ATTR_OBJID) (be32 (d_object req))"
  have len: "length (enc_attrs [?st, ?ob]) = 16" by (simp add: length_enc pad4_def)
  obtain s1 s3 where s1: "c_init A s = Some s1"
      "c_buffer.puts A [(int UBUS_ATTR_STATUS, be32 (word_of_int ret)), (int UBUS_ATTR_OBJID, be32 (d_object req))] s1 = Some s3"
      "buf_holds (cbuf s3) [?st, ?ob]" and b: "buffered s s3"
    using c_build_ok [of A s "[(int UBUS_ATTR_STATUS, be32 (word_of_int ret)), (int UBUS_ATTR_OBJID, be32 (d_object req))]"] A len by auto
  have run: "do { s \<leftarrow> c_put_int32 A UBUS_ATTR_STATUS (word_of_int ret) s1; c_put_int32 A UBUS_ATTR_OBJID (d_object req) s } = Some s3"
    using s1(2) [unfolded c_buffer.puts_unfold] with_memory_id [of A] A by (simp add: c_puts)
  obtain m s' where m: "c_msg s3 = Some m"
      "ubus_send_msg A (ucast (d_seq req)) (Some m) UBUS_MSG_STATUS (d_peer req) (d_fd req) s3 = Some (12 + int (length (enc_attrs [?st, ?ob])), s')"
      "sent_bytes s' = sent_bytes s3 @ hdr_bytes \<lparr>version = 0, msg_type = UBUS_MSG_STATUS, seq = ucast (ucast (d_seq req) :: u32), peer = d_peer req\<rparr> @
        enc_attr (Nest 0 [?st, ?ob])"
      "s' = s3\<lparr>sends := sends s', sent := sent s', closed := closed s3 @ (if d_fd req \<ge> 0 then [d_fd req] else [])\<rparr>"
    by (rule send_built_ok [OF s1(3), of A "ucast (d_seq req)" UBUS_MSG_STATUS "d_peer req" "d_fd req"])
      (use A len buffered_same [OF b] in auto)
  have "sent_bytes s3 = sent_bytes s" using buffered_same [OF b] by (simp add: sent_bytes_def)
  moreover have "ucast (ucast (d_seq req) :: u32) = d_seq req" by (rule bit_word_eqI) (auto simp: bit_simps)
  moreover have "s' = s\<lparr>cbuf := cbuf s', tick := tick s', sends := sends s', sent := sent s', closed := closed s'\<rparr>"
    using m(4) b unfolding buffered_def by (cases s, cases s3, cases s') simp
  ultimately show ?thesis
    using s1(1) run m(1-3) by (auto simp: ubus_complete_deferred_request_def status_reply_def split: bind_splits)
qed

section \<open>Invocations\<close>

definition client_types :: "u32 list" where
  "client_types = [0, 6, 3, 6, 3, 0, 0, 0, 0, 4, 4, 1]"

lemma client_policy_typed: "client_policy = typed client_types" "invoke_types client_types"
  by (simp_all add: client_policy_def client_types_def typed_def invoke_types_def UBUS_ATTR_MAX_def UBUS_ATTR_OBJID_def
      UBUS_ATTR_METHOD_def UBUS_ATTR_DATA_def)

lemma client_invoke_parsed:
  assumes "length (enc_attrs (invoke_attrs oid name pl)) + 4 < 2 ^ 24" and "0 \<notin> set name"
    and "data = enc_attr (Nest 0 (invoke_attrs oid name pl)) @ R"
  obtains tb p mp where "client_parse_msg data = Some tb" "tb ! UBUS_ATTR_OBJID = Some p" "blob_get_u32 data p = Some oid"
    "tb ! UBUS_ATTR_METHOD = Some mp" "blob_get_string data mp = Some name" "tb ! UBUS_ATTR_NO_REPLY = None"
    "attr_is (map_option (Pair data) (tb ! UBUS_ATTR_DATA)) pl"
  by (rule invoke_parsed [OF client_policy_typed(2) assms])
    (rule that, auto simp: client_parse_msg_def client_policy_typed(1))

text \<open>
  An invocation of a method of an object of the client calls the handler of the first method with that name, with the name
  and the data of the message, and is then answered by exactly one status message: it has the sequence number
  of the invocation, is addressed to the peer that sent it, and carries the value the handler returned and the identifier
  of the object. (The handler neither defers the request nor changes its data; \<open>s1\<close> is the state it leaves.)
\<close>

lemma invoke_answered:
  assumes "stack_depth s = 0" and "msg_type h = UBUS_MSG_INVOKE"
    and "length (enc_attrs (invoke_attrs oid name pl)) + 4 < 2 ^ 24" and "0 \<notin> set name"
    and "data = enc_attr (Nest 0 (invoke_attrs oid name pl)) @ R"
    and "ubus_find_id (ctx_objects s) oid = Some obj" and "cobjs s obj = Some x" and "\<not> watch x" and "\<not> event x"
    and "find_method (o_methods x) name 0 = Some i"
    and "\<And>D. attr_is D pl \<Longrightarrow>
      on_call A (Method obj i \<lparr>d_object = o_id x, d_peer = peer h, d_seq = seq h, deferred = False, d_fd = -1\<rparr> name D)
        (s\<lparr>msgbuf_data := None\<rparr>) = Some ((ret, None), s1)"
    and "can_send A 16 s1"
  shows "\<exists>s'. ubus_process_msg A True h data fd s = Some s' \<and>
    sent_bytes s' = sent_bytes s1 @ status_reply (seq h) (peer h) ret (o_id x) \<and> msgbuf_data s' \<noteq> None"
proof -
  obtain tb p mp where tb: "client_parse_msg data = Some tb" "tb ! UBUS_ATTR_OBJID = Some p" "blob_get_u32 data p = Some oid"
      "tb ! UBUS_ATTR_METHOD = Some mp" "blob_get_string data mp = Some name" "tb ! UBUS_ATTR_NO_REPLY = None"
      "attr_is (map_option (Pair data) (tb ! UBUS_ATTR_DATA)) pl"
    using client_invoke_parsed [OF assms(3-5)] by blast
  let ?req = "\<lparr>d_object = o_id x, d_peer = peer h, d_seq = seq h, deferred = False, d_fd = -1\<rparr>"
  obtain s' where s': "ubus_complete_deferred_request A ?req ret s1 = Some s'"
      "sent_bytes s' = sent_bytes s1 @ status_reply (seq h) (peer h) ret (o_id x)"
    using ubus_complete_deferred_request_ok [OF assms(12), of ?req ret] by auto
  have "ubus_process_invoke A h (Some obj) tb data (s\<lparr>msgbuf_data := None\<rparr>) = Some s'"
    using assms(7-11) tb s'(1) by (simp add: ubus_process_invoke_def call_method_def)
  then show ?thesis
    using assms(1,2,6) tb(1-3) s'(2)
    by (simp add: ubus_process_msg_def ubus_process_obj_msg_def UBUS_MSG_INVOKE_def UBUS_MSG_STATUS_def UBUS_MSG_DATA_def sent_bytes_def)
qed

text \<open>A client with one object, the identifier of which is 5, and one method.\<close>

definition ping_object :: ubus_obj where
  "ping_object = \<lparr>o_name = Some (cstr ''o''), o_id = 5, o_type = None, subscribe_cb = False, has_subscribers = False,
     o_methods = [\<lparr>m_name = Some (cstr ''ping''), m_mask = 0, m_policy = []\<rparr>], watch = False, sub_cb = False, remove_cb = False,
     event = False\<rparr>"

definition ping_client :: "send list \<Rightarrow> recv list \<times> byte list \<Rightarrow> client" where
  "ping_client ss rs = (idle_ctx ss rs)\<lparr>
     ctx_objects := \<lparr>list_head = [(5, 1)], root = Node Null (5, 1) 0 Null, count = 1, allow_dups = False, leader = (\<lambda>_. True)\<rparr>,
     cobjs := [1 \<mapsto> ping_object]\<rparr>"

lemma ping_client_facts:
  "ubus_find_id (ctx_objects (ping_client ss rs)) 5 = Some 1" "ubus_find_id (ctx_objects (ping_client ss rs)) 9 = None"
  "cobjs (ping_client ss rs) 1 = Some ping_object" "stack_depth (ping_client ss rs) = 0" "sent_bytes (ping_client ss rs) = []"
  "buf_ok (cbuf (ping_client ss rs))" "sends (ping_client ss rs) = ss"
  by (simp_all add: ping_client_def idle_ctx_def ubus_find_id_def avl_find_def ubus_cmp_id_def sent_bytes_def buf_ok_def)

text \<open>
  C37: An invocation of an object that the client no longer has is answered, but not to the caller: the reply is built
  before the sequence number and the peer of the message are copied into the request data, so the status message
  goes out with sequence number 0 and peer 0, and the caller never learns that the object was not found.
\<close>

theorem unknown_object_reply_unaddressed:
  assumes "stack_depth s = 0" and "msg_type h = UBUS_MSG_INVOKE"
    and "length (enc_attrs (invoke_attrs oid name pl)) + 4 < 2 ^ 24" and "0 \<notin> set name"
    and "data = enc_attr (Nest 0 (invoke_attrs oid name pl)) @ R"
    and "ubus_find_id (ctx_objects s) oid = None" and "can_send A 16 s"
  shows "\<exists>s'. ubus_process_msg A True h data fd s = Some s' \<and>
    sent_bytes s' = sent_bytes s @ status_reply 0 0 UBUS_STATUS_NOT_FOUND 0"
proof -
  obtain tb p where tb: "client_parse_msg data = Some tb" "tb ! UBUS_ATTR_OBJID = Some p" "blob_get_u32 data p = Some oid"
    using client_invoke_parsed [OF assms(3-5)] by blast
  let ?req = "\<lparr>d_object = 0, d_peer = 0, d_seq = 0, deferred = False, d_fd = -1\<rparr>" and ?s = "s\<lparr>msgbuf_data := None\<rparr>"
  have "can_send A 16 ?s" using assms(7) by (simp add: can_send_def)
  from ubus_complete_deferred_request_ok [OF this, of ?req UBUS_STATUS_NOT_FOUND] obtain s' where
      s': "ubus_complete_deferred_request A ?req UBUS_STATUS_NOT_FOUND ?s = Some s'"
      "sent_bytes s' = sent_bytes s @ status_reply 0 0 UBUS_STATUS_NOT_FOUND 0"
    by (auto simp: sent_bytes_def)
  then show ?thesis
    using assms(1,2,6) tb(1-3)
    by (simp add: ubus_process_msg_def ubus_process_obj_msg_def ubus_process_invoke_def
        UBUS_MSG_INVOKE_def UBUS_MSG_STATUS_def UBUS_MSG_DATA_def sent_bytes_def)
qed

theorem unknown_object_reply_unaddressed_witness:
  "\<exists>s'. ubus_process_msg quiet_app True \<lparr>version = 0, msg_type = UBUS_MSG_INVOKE, seq = 3, peer = 77\<rparr>
      (enc_attr (Nest 0 (invoke_attrs 9 (cstr ''ping'') None)) @ []) (-1) (ping_client [Send 100] ([], [])) = Some s' \<and>
    sent_bytes s' = status_reply 0 0 4 0"
proof -
  have len: "length (enc_attrs (invoke_attrs 9 (cstr ''ping'') None)) + 4 < 2 ^ 24"
    by (simp add: invoke_attrs_def length_enc pad4_def cstr_def)
  have z: "0 \<notin> set (cstr ''ping'')" by (simp add: cstr_def)
  have c: "can_send quiet_app 16 (ping_client [Send 100] ([], []))" using ping_client_facts by (simp add: can_send_def)
  from unknown_object_reply_unaddressed [OF ping_client_facts(4) _ len z refl ping_client_facts(2) c,
      of "\<lparr>version = 0, msg_type = UBUS_MSG_INVOKE, seq = 3, peer = 77\<rparr>" "[]" "-1"] ping_client_facts(5)
  show ?thesis by (simp add: UBUS_STATUS_NOT_FOUND_def)
qed

end
