(* ===== verification/Libubus_Api.thy ===== *)
theory Libubus_Api
  imports Libubus_Obj
begin

text \<open>
  The functions of the client library that an application calls: invocations, notifications, events, objects,
  subscriptions and the connection (\<open>src/ubus/libubus.c\<close>, \<open>libubus-req.c\<close>, \<open>libubus-obj.c\<close>,
  \<open>libubus-sub.c\<close>, \<open>libubus-io.c\<close>).
\<close>

section \<open>Requests\<close>

text \<open>The address of a new object on the stack or on the heap.\<close>

definition new_addr :: "client \<Rightarrow> nat \<times> client" where
  "new_addr s = (tick s, s\<lparr>tick := tick s + 1\<rparr>)"

definition ubus_send_reply :: "application \<Rightarrow> ubus_request_data \<Rightarrow> byte list \<Rightarrow> client \<Rightarrow> (int \<times> client) option" where
  "ubus_send_reply A req msg s = do {
     s \<leftarrow> c_init A s;
     s \<leftarrow> c_put_int32 A UBUS_ATTR_OBJID (d_object req) s;
     s \<leftarrow> c_put_payload A UBUS_ATTR_DATA msg s;
     m \<leftarrow> c_msg s;
     (ret, s) \<leftarrow> ubus_send_msg A (ucast (d_seq req)) (Some m) UBUS_MSG_DATA (d_peer req) (-1) s;
     Some (if ret < 0 then UBUS_STATUS_NO_DATA else 0, s)
   }"

definition ubus_defer_request :: "ubus_request_data \<Rightarrow> ubus_request_data \<times> ubus_request_data" where
  "ubus_defer_request req = (req\<lparr>deferred := True\<rparr>, req)"

definition ubus_request_set_fd :: "int \<Rightarrow> ubus_request_data \<Rightarrow> ubus_request_data" where
  "ubus_request_set_fd fd req = req\<lparr>d_fd := fd\<rparr>"

definition ubus_invoke_async :: "application \<Rightarrow> u32 \<Rightarrow> cstring \<Rightarrow> byte list option \<Rightarrow> nat \<Rightarrow> client \<Rightarrow> (int \<times> client) option" where
  "ubus_invoke_async A obj name msg r s = do {
     s \<leftarrow> c_init A s;
     s \<leftarrow> c_put_int32 A UBUS_ATTR_OBJID obj s;
     s \<leftarrow> c_put_string A UBUS_ATTR_METHOD name s;
     s \<leftarrow> (case msg of None \<Rightarrow> Some s | Some msg \<Rightarrow> c_put_payload A UBUS_ATTR_DATA msg s);
     m \<leftarrow> c_msg s;
     (ret, s) \<leftarrow> ubus_start_request A r (Some m) UBUS_MSG_INVOKE obj s;
     Some (if ret < 0 then UBUS_STATUS_INVALID_ARGUMENT else 0, s)
   }"

text \<open>\<open>cb\<close> is whether a data callback is given.\<close>

definition ubus_invoke :: "application \<Rightarrow> u32 \<Rightarrow> cstring \<Rightarrow> byte list option \<Rightarrow> bool \<Rightarrow> int \<Rightarrow> client \<Rightarrow> (int \<times> client) option" where
  "ubus_invoke A obj name msg cb timeout s = do {
     let (r, s) = new_addr s;
     (rc, s) \<leftarrow> ubus_invoke_async A obj name msg r s;
     if rc \<noteq> 0 then Some (rc, s)
     else do {
       s \<leftarrow> upd_req r (\<lambda>q. q\<lparr>data_cb := cb\<rparr>) s;
       ubus_complete_request A r timeout s
     }
   }"

definition notify_request_async :: "application \<Rightarrow> nat \<Rightarrow> cstring \<Rightarrow> byte list option \<Rightarrow> nat \<Rightarrow> bool \<Rightarrow> client \<Rightarrow> (int \<times> client) option" where
  "notify_request_async A obj ty msg r reply s = do {
     x \<leftarrow> cobjs s obj;
     s \<leftarrow> c_init A s;
     s \<leftarrow> c_put_int32 A UBUS_ATTR_OBJID (o_id x) s;
     s \<leftarrow> c_put_string A UBUS_ATTR_METHOD ty s;
     s \<leftarrow> (if reply then Some s else c_put_int8 A UBUS_ATTR_NO_REPLY 1 s);
     s \<leftarrow> (case msg of None \<Rightarrow> Some s | Some msg \<Rightarrow> c_put_payload A UBUS_ATTR_DATA msg s);
     m \<leftarrow> c_msg s;
     (ret, s) \<leftarrow> ubus_start_request A r (Some m) UBUS_MSG_NOTIFY (o_id x) s;
     if ret < 0 then Some (UBUS_STATUS_INVALID_ARGUMENT, s)
     else do {
       s \<leftarrow> upd_req r (\<lambda>q. q\<lparr>notify := True, n_pending := 1, n_id := (n_id q)[0 := o_id x],
              complete_cb := Some Notify_complete_cb\<rparr>) s;
       Some (0, s)
     }
   }"

definition ubus_notify_async :: "application \<Rightarrow> nat \<Rightarrow> cstring \<Rightarrow> byte list option \<Rightarrow> nat \<Rightarrow> client \<Rightarrow> (int \<times> client) option" where
  "ubus_notify_async A obj ty msg r s = notify_request_async A obj ty msg r True s"

definition ubus_notify :: "application \<Rightarrow> nat \<Rightarrow> cstring \<Rightarrow> byte list option \<Rightarrow> int \<Rightarrow> client \<Rightarrow> (int \<times> client) option" where
  "ubus_notify A obj ty msg timeout s = do {
     let (r, s) = new_addr s;
     (ret, s) \<leftarrow> notify_request_async A obj ty msg r (timeout \<ge> 0) s;
     if ret < 0 then Some (ret, s)
     else if timeout < 0 then do {
       s \<leftarrow> ubus_abort_request A r s;
       Some (0, s)
     }
     else ubus_complete_request A r timeout s
   }"

section \<open>Lookup and events\<close>

definition start_lookup :: "application \<Rightarrow> cstring option \<Rightarrow> nat \<Rightarrow> client \<Rightarrow> (int \<times> client) option" where
  "start_lookup A name r s = do {
     s \<leftarrow> c_init A s;
     s \<leftarrow> (case name of None \<Rightarrow> Some s | Some p \<Rightarrow> c_put_string A UBUS_ATTR_OBJPATH p s);
     m \<leftarrow> c_msg s;
     ubus_start_request A r (Some m) UBUS_MSG_LOOKUP 0 s
   }"

definition ubus_lookup :: "application \<Rightarrow> cstring option \<Rightarrow> client \<Rightarrow> (int \<times> client) option" where
  "ubus_lookup A name s = do {
     let (r, s) = new_addr s;
     (ret, s) \<leftarrow> start_lookup A name r s;
     if ret < 0 then Some (UBUS_STATUS_INVALID_ARGUMENT, s)
     else do {
       s \<leftarrow> upd_req r (\<lambda>q. q\<lparr>raw_data_cb := Some Lookup_cb\<rparr>) s;
       ubus_complete_request A r 0 s
     }
   }"

definition ubus_lookup_id :: "application \<Rightarrow> cstring option \<Rightarrow> client \<Rightarrow> (int \<times> client) option" where
  "ubus_lookup_id A name s = do {
     let (r, s) = new_addr s;
     (ret, s) \<leftarrow> start_lookup A name r s;
     if ret < 0 then Some (UBUS_STATUS_INVALID_ARGUMENT, s)
     else do {
       s \<leftarrow> upd_req r (\<lambda>q. q\<lparr>raw_data_cb := Some Lookup_id_cb\<rparr>) s;
       ubus_complete_request A r 0 s
     }
   }"

definition ubus_send_event :: "application \<Rightarrow> cstring \<Rightarrow> byte list \<Rightarrow> client \<Rightarrow> (int \<times> client) option" where
  "ubus_send_event A i data s = do {
     let (r, s) = new_addr s;
     s \<leftarrow> c_init A s;
     s \<leftarrow> c_put_int32 A UBUS_ATTR_OBJID UBUS_SYSTEM_OBJECT_EVENT s;
     s \<leftarrow> c_put_string A UBUS_ATTR_METHOD (cstr ''send'') s;
     (c, s) \<leftarrow> c_nest_start A UBUS_ATTR_DATA s;
     (_, s) \<leftarrow> with_cbuf A (\<lambda>a b. blobmsg_add_string a b (Some (cstr ''id'')) i) s;
     n \<leftarrow> blob_len data 0;
     (_, s) \<leftarrow> with_cbuf A (\<lambda>a b. blobmsg_add_field a b 2 (Some (cstr ''data'')) (drop 4 data) n) s;
     s \<leftarrow> c_nest_end c s;
     m \<leftarrow> c_msg s;
     (ret, s) \<leftarrow> ubus_start_request A r (Some m) UBUS_MSG_INVOKE UBUS_SYSTEM_OBJECT_EVENT s;
     if ret < 0 then Some (UBUS_STATUS_INVALID_ARGUMENT, s) else ubus_complete_request A r 0 s
   }"

section \<open>Objects\<close>

text \<open>The parameters of a method; a mask of another value than 0 selects some of the first 31.\<close>

fun push_policy :: "application \<Rightarrow> u64 \<Rightarrow> (cstring \<times> byte) list \<Rightarrow> nat \<Rightarrow> client \<Rightarrow> client option" where
  "push_policy A msk [] i s = Some s"
| "push_policy A msk ((name, ty) # ps) i s =
     (if msk \<noteq> 0 \<and> i \<ge> 31 then None
      else if msk \<noteq> 0 \<and> msk AND push_bit i 1 = 0 then push_policy A msk ps (i + 1) s
      else do {
        (_, s) \<leftarrow> with_cbuf A (\<lambda>a b. blobmsg_add_u32 a b (Some name) (ucast ty)) s;
        push_policy A msk ps (i + 1) s
      })"

definition ubus_push_method_data :: "application \<Rightarrow> ubus_method \<Rightarrow> client \<Rightarrow> client option" where
  "ubus_push_method_data A m s = do {
     (c, s) \<leftarrow> with_cbuf A (\<lambda>a b. blobmsg_open_table a b (m_name m)) s;
     s \<leftarrow> push_policy A (m_mask m) (m_policy m) 0 s;
     c \<leftarrow> c;
     b \<leftarrow> blobmsg_close_table (cbuf s) c;
     Some (s\<lparr>cbuf := b\<rparr>)
   }"

fun push_methods :: "application \<Rightarrow> ubus_method list \<Rightarrow> client \<Rightarrow> client option" where
  "push_methods A [] s = Some s"
| "push_methods A (m # ms) s = do { s \<leftarrow> ubus_push_method_data A m s; push_methods A ms s }"

definition ubus_push_object_type :: "application \<Rightarrow> ubus_obj_type \<Rightarrow> client \<Rightarrow> client option" where
  "ubus_push_object_type A ty s = do {
     (c, s) \<leftarrow> c_nest_start A UBUS_ATTR_SIGNATURE s;
     s \<leftarrow> push_methods A (t_methods ty) s;
     c_nest_end c s
   }"

definition ubus_add_object :: "application \<Rightarrow> nat \<Rightarrow> client \<Rightarrow> (int \<times> client) option" where
  "ubus_add_object A obj s = do {
     let (r, s) = new_addr s;
     s \<leftarrow> c_init A s;
     x \<leftarrow> cobjs s obj;
     s \<leftarrow> (case (o_name x, o_type x) of
         (Some name, Some t) \<Rightarrow> do {
           s \<leftarrow> c_put_string A UBUS_ATTR_OBJPATH name s;
           ty \<leftarrow> ctypes s t;
           if t_id ty \<noteq> 0 then c_put_int32 A UBUS_ATTR_OBJTYPE (t_id ty) s else ubus_push_object_type A ty s
         }
       | _ \<Rightarrow> Some s);
     m \<leftarrow> c_msg s;
     (ret, s) \<leftarrow> ubus_start_request A r (Some m) UBUS_MSG_ADD_OBJECT 0 s;
     if ret < 0 then Some (UBUS_STATUS_INVALID_ARGUMENT, s)
     else do {
       s \<leftarrow> upd_req r (\<lambda>q. q\<lparr>raw_data_cb := Some (Add_object_cb obj)\<rparr>) s;
       (ret, s) \<leftarrow> ubus_complete_request A r 0 s;
       x \<leftarrow> cobjs s obj;
       Some (if ret \<noteq> 0 then ret else if o_id x = 0 then UBUS_STATUS_NO_DATA else 0, s)
     }
   }"

definition ubus_remove_object :: "application \<Rightarrow> nat \<Rightarrow> client \<Rightarrow> (int \<times> client) option" where
  "ubus_remove_object A obj s = do {
     let (r, s) = new_addr s;
     s \<leftarrow> c_init A s;
     x \<leftarrow> cobjs s obj;
     s \<leftarrow> c_put_int32 A UBUS_ATTR_OBJID (o_id x) s;
     m \<leftarrow> c_msg s;
     (ret, s) \<leftarrow> ubus_start_request A r (Some m) UBUS_MSG_REMOVE_OBJECT 0 s;
     if ret < 0 then Some (UBUS_STATUS_INVALID_ARGUMENT, s)
     else do {
       s \<leftarrow> upd_req r (\<lambda>q. q\<lparr>raw_data_cb := Some (Remove_object_cb obj)\<rparr>) s;
       (ret, s) \<leftarrow> ubus_complete_request A r 0 s;
       x \<leftarrow> cobjs s obj;
       Some (if ret \<noteq> 0 then ret else if o_id x \<noteq> 0 then UBUS_STATUS_NO_DATA else 0, s)
     }
   }"

definition watch_method :: ubus_method where
  "watch_method = \<lparr>m_name = None, m_mask = 0, m_policy = []\<rparr>"

definition ubus_register_subscriber :: "application \<Rightarrow> nat \<Rightarrow> client \<Rightarrow> (int \<times> client) option" where
  "ubus_register_subscriber A obj s = do {
     s \<leftarrow> upd_cobj obj (\<lambda>x. x\<lparr>o_methods := [watch_method], watch := True\<rparr>) s;
     ubus_add_object A obj s
   }"

definition ubus_subscribe_request :: "application \<Rightarrow> nat \<Rightarrow> u32 \<Rightarrow> byte \<Rightarrow> client \<Rightarrow> (int \<times> client) option" where
  "ubus_subscribe_request A obj i ty s = do {
     let (r, s) = new_addr s;
     s \<leftarrow> c_init A s;
     x \<leftarrow> cobjs s obj;
     s \<leftarrow> c_put_int32 A UBUS_ATTR_OBJID (o_id x) s;
     s \<leftarrow> c_put_int32 A UBUS_ATTR_TARGET i s;
     m \<leftarrow> c_msg s;
     (ret, s) \<leftarrow> ubus_start_request A r (Some m) ty 0 s;
     if ret < 0 then Some (UBUS_STATUS_INVALID_ARGUMENT, s) else ubus_complete_request A r 0 s
   }"

definition ubus_subscribe :: "application \<Rightarrow> nat \<Rightarrow> u32 \<Rightarrow> client \<Rightarrow> (int \<times> client) option" where
  "ubus_subscribe A obj i s = ubus_subscribe_request A obj i UBUS_MSG_SUBSCRIBE s"

definition ubus_unsubscribe :: "application \<Rightarrow> nat \<Rightarrow> u32 \<Rightarrow> client \<Rightarrow> (int \<times> client) option" where
  "ubus_unsubscribe A obj i s = ubus_subscribe_request A obj i UBUS_MSG_UNSUBSCRIBE s"

definition event_method :: ubus_method where
  "event_method = \<lparr>m_name = None, m_mask = 0, m_policy = []\<rparr>"

text \<open>The second buffer is a local variable that starts empty.\<close>

definition ubus_register_event_handler :: "application \<Rightarrow> nat \<Rightarrow> cstring option \<Rightarrow> client \<Rightarrow> (int \<times> client) option" where
  "ubus_register_event_handler A obj pattern s = do {
     x \<leftarrow> cobjs s obj;
     (ret, s) \<leftarrow>
       (if o_id x \<noteq> 0 then Some (0, s)
        else do {
          s \<leftarrow> upd_cobj obj (\<lambda>x. x\<lparr>o_methods := [event_method], watch := False, event := True\<rparr>) s;
          if (o_name x \<noteq> None) \<noteq> (o_type x \<noteq> None) then Some (UBUS_STATUS_INVALID_ARGUMENT, s)
          else ubus_add_object A obj s
        });
     if ret \<noteq> 0 then Some (ret, s)
     else do {
       let a = (\<lambda>_. alloc_ok A (tick s));
       x \<leftarrow> cobjs s obj;
       (_, b2) \<leftarrow> blob_buf_init a \<lparr>buf = [], head = None\<rparr> 0;
       (_, b2) \<leftarrow> blobmsg_add_u32 a b2 (Some (cstr ''object'')) (o_id x);
       (_, b2) \<leftarrow> (case pattern of None \<Rightarrow> Some (0, b2) | Some p \<Rightarrow> blobmsg_add_string a b2 (Some (cstr ''pattern'')) p);
       h \<leftarrow> head b2;
       ubus_invoke A UBUS_SYSTEM_OBJECT_EVENT (cstr ''register'') (Some (drop h (buf b2))) False 0 (s\<lparr>tick := tick s + 1\<rparr>)
     }
   }"

section \<open>The connection\<close>

fun clear_type_ids :: "nat list \<Rightarrow> client \<Rightarrow> client option" where
  "clear_type_ids [] s = Some s"
| "clear_type_ids (obj # os) s = do {
     x \<leftarrow> cobjs s obj;
     s \<leftarrow> (case o_type x of None \<Rightarrow> Some s | Some t \<Rightarrow> upd_type t (\<lambda>y. y\<lparr>t_id := 0\<rparr>) s);
     clear_type_ids os s
   }"

fun clear_obj_ids :: "nat list \<Rightarrow> client \<Rightarrow> client option" where
  "clear_obj_ids [] s = Some s"
| "clear_obj_ids (obj # os) s = do {
     s \<leftarrow> upd_cobj obj (\<lambda>x. x\<lparr>o_id := 0\<rparr>) s;
     clear_obj_ids os s
   }"

fun add_objects :: "application \<Rightarrow> nat list \<Rightarrow> client \<Rightarrow> client option" where
  "add_objects A [] s = Some s"
| "add_objects A (obj # os) s = do {
     (_, s) \<leftarrow> ubus_add_object A obj s;
     add_objects A os s
   }"

definition ubus_refresh_state :: "application \<Rightarrow> client \<Rightarrow> client option" where
  "ubus_refresh_state A s = do {
     s \<leftarrow> clear_type_ids (map snd (avl_for_each_element (ctx_objects s))) s;
     let (es, t) = avl_remove_all_elements (ctx_objects s);
     s \<leftarrow> clear_obj_ids (map snd es) (s\<lparr>ctx_objects := t\<rparr>);
     add_objects A (map snd es) s
   }"

text \<open>One \<open>read\<close> of \<open>n\<close> bytes from the new socket; \<open>None\<close> when it does not return all of them.\<close>

definition sys_read :: "nat \<Rightarrow> client \<Rightarrow> byte list option \<times> client" where
  "sys_read n s =
     (case recvs s of
       (Recv k fd # ks, st) \<Rightarrow>
         (let bs = take (min k n) st in
          (if length bs = n then Some bs else None, s\<lparr>recvs := (ks, drop (min k n) st)\<rparr>))
     | (_ # ks, st) \<Rightarrow> (None, s\<lparr>recvs := (ks, st)\<rparr>)
     | ([], st) \<Rightarrow> (None, s))"

text \<open>\<open>fd\<close> is the result of \<open>usock\<close>.\<close>

definition ubus_reconnect :: "application \<Rightarrow> int \<Rightarrow> client \<Rightarrow> (int \<times> client) option" where
  "ubus_reconnect A fd s = (
     let s = (if ctx_fd s \<ge> 0 then s\<lparr>registered := False, closed := closed s @ [ctx_fd s]\<rparr> else s);
         s = s\<lparr>ctx_fd := fd\<rparr>;
         fail = (\<lambda>s. Some (UBUS_STATUS_UNKNOWN_ERROR, s\<lparr>closed := closed s @ [ctx_fd s]\<rparr>))
     in if fd < 0 then Some (UBUS_STATUS_CONNECTION_FAILED, s)
        else case sys_read 12 s of
          (None, s) \<Rightarrow> fail s
        | (Some hb, s) \<Rightarrow> do {
            ok \<leftarrow> ubus_validate_hdr hb;
            if \<not> ok \<or> msg_type (hdr_of_bytes hb) \<noteq> UBUS_MSG_HELLO then fail s
            else if \<not> alloc_ok A (tick s) then fail (s\<lparr>tick := tick s + 1\<rparr>)
            else do {
              n \<leftarrow> blob_len hb 8;
              let s = s\<lparr>tick := tick s + 1\<rparr>;
              case sys_read (unat n) s of
                (None, s) \<Rightarrow> fail s
              | (Some _, s) \<Rightarrow>
                  (let s = s\<lparr>local_id := peer (hdr_of_bytes hb)\<rparr> in
                   if local_id s = 0 then fail s
                   else do {
                     s \<leftarrow> ubus_refresh_state A s;
                     Some (UBUS_STATUS_OK, s)
                   })
            }
          })"

definition ubus_connect_ctx :: "application \<Rightarrow> int \<Rightarrow> client \<Rightarrow> (int \<times> client) option" where
  "ubus_connect_ctx A fd s = (
     let s = s\<lparr>requests := [], ctx_objects := avl_init False, ctx_pending := [], ctx_fd := -1, ctx_eof := False, registered := False,
               pending_timer := False, local_id := 0, request_seq := 0, stack_depth := 0, msgbuf_hdr := zero_hdr, msgbuf_data := None,
               msgbuf_data_len := 0, msgbuf_reduction_counter := 0, default_lost := True\<rparr>
     in if \<not> alloc_ok A (tick s) then Some (-1, s\<lparr>tick := tick s + 1\<rparr>)
        else do {
          let s = s\<lparr>tick := tick s + 1, msgbuf_data := Some (replicate UBUS_MSG_CHUNK_SIZE 0),
                    msgbuf_data_len := word_of_nat UBUS_MSG_CHUNK_SIZE\<rparr>;
          (ret, s) \<leftarrow> ubus_reconnect A fd s;
          Some (if ret \<noteq> 0 then (-1, s\<lparr>msgbuf_data := None\<rparr>) else (0, s))
        })"

definition ubus_shutdown :: "client \<Rightarrow> client" where
  "ubus_shutdown s = s\<lparr>cbuf := blob_buf_free (cbuf s), closed := closed s @ [ctx_fd s], msgbuf_data := None\<rparr>"

text \<open>\<open>ubus_connect\<close>: the first component is whether a context is returned.\<close>

definition ubus_connect :: "application \<Rightarrow> int \<Rightarrow> client \<Rightarrow> (bool \<times> client) option" where
  "ubus_connect A fd s =
     (if \<not> alloc_ok A (tick s) then Some (False, s\<lparr>tick := tick s + 1\<rparr>)
      else do {
        (ret, s) \<leftarrow> ubus_connect_ctx A fd (s\<lparr>tick := tick s + 1\<rparr>);
        Some (ret = 0, s)
      })"

section \<open>Automatic connection\<close>

text \<open>\<open>conn_cb\<close> is whether \<open>conn->cb\<close> is set, \<open>timer_ms\<close> the delay the timer was set to, when it is pending.\<close>

datatype auto_timer_cb = Auto_connect_cb | Auto_reconnect_cb

record ubus_auto_conn =
  conn_ctx :: client
  timer_cb :: auto_timer_cb
  timer_ms :: "nat option"
  conn_cb :: bool

definition ubus_auto_reconnect_cb :: "application \<Rightarrow> int \<Rightarrow> ubus_auto_conn \<Rightarrow> ubus_auto_conn option" where
  "ubus_auto_reconnect_cb A fd conn = do {
     (ret, s) \<leftarrow> ubus_reconnect A fd (conn_ctx conn);
     Some (if ret = 0 then conn\<lparr>conn_ctx := ubus_add_uloop s\<rparr> else conn\<lparr>conn_ctx := s, timer_ms := Some 1000\<rparr>)
   }"

definition ubus_auto_disconnect_cb :: "ubus_auto_conn \<Rightarrow> ubus_auto_conn" where
  "ubus_auto_disconnect_cb conn = conn\<lparr>timer_cb := Auto_reconnect_cb, timer_ms := Some 1000\<rparr>"

definition ubus_auto_connect_cb :: "application \<Rightarrow> (client \<Rightarrow> client option) \<Rightarrow> int \<Rightarrow> ubus_auto_conn \<Rightarrow> ubus_auto_conn option" where
  "ubus_auto_connect_cb A cb fd conn = do {
     (ret, s) \<leftarrow> ubus_connect_ctx A fd (conn_ctx conn);
     if ret \<noteq> 0 then Some (conn\<lparr>conn_ctx := s, timer_ms := Some 1000\<rparr>)
     else do {
       let s = s\<lparr>default_lost := False\<rparr>;
       s \<leftarrow> (if conn_cb conn then cb s else Some s);
       Some (conn\<lparr>conn_ctx := ubus_add_uloop s\<rparr>)
     }
   }"

definition ubus_auto_connect :: "application \<Rightarrow> (client \<Rightarrow> client option) \<Rightarrow> int \<Rightarrow> ubus_auto_conn \<Rightarrow> ubus_auto_conn option" where
  "ubus_auto_connect A cb fd conn = ubus_auto_connect_cb A cb fd (conn\<lparr>timer_cb := Auto_connect_cb\<rparr>)"

text \<open>The timer fires: it is no longer pending and calls its function.\<close>

definition auto_timer_fires :: "application \<Rightarrow> (client \<Rightarrow> client option) \<Rightarrow> int \<Rightarrow> ubus_auto_conn \<Rightarrow> ubus_auto_conn option" where
  "auto_timer_fires A cb fd conn = (
     let conn = conn\<lparr>timer_ms := None\<rparr> in
     case timer_cb conn of
       Auto_connect_cb \<Rightarrow> ubus_auto_connect_cb A cb fd conn
     | Auto_reconnect_cb \<Rightarrow> ubus_auto_reconnect_cb A fd conn)"

section \<open>Error messages\<close>

definition ubus_strerror_table :: "string list" where
  "ubus_strerror_table =
     [''Success'', ''Invalid command'', ''Invalid argument'', ''Method not found'', ''Not found'', ''No response'',
      ''Permission denied'', ''Request timed out'', ''Operation not supported'', ''Unknown error'', ''Connection failed'']"

text \<open>\<open>sprintf\<close> of a decimal number.\<close>

fun print_nat :: "nat \<Rightarrow> string" where
  "print_nat n = (if n < 10 then [char_of (48 + n)] else print_nat (n div 10) @ [char_of (48 + n mod 10)])"

definition print_int :: "int \<Rightarrow> string" where
  "print_int i = (if i < 0 then ''-'' else []) @ print_nat (nat \<bar>i\<bar>)"

definition ubus_strerror :: "int \<Rightarrow> string" where
  "ubus_strerror error =
     (if error < 0 \<or> error \<ge> int (length ubus_strerror_table) then ''Unknown error: '' @ print_int error
      else ubus_strerror_table ! nat error)"

section \<open>Starting a request\<close>

lemma start_built_ok:
  assumes h: "buf_holds (cbuf s) ts" and n: "length (enc_attrs ts) + 4 \<le> UBUS_MAX_MSGLEN"
    and ks: "Send_fail \<notin> set (sends s)" "12 + length (enc_attrs ts) \<le> sum_list (map accepts (sends s))"
  obtains m s' where "c_msg s = Some m" "ubus_start_request A r (Some m) cmd pr s = Some (12 + int (length (enc_attrs ts)), s')"
    "sent_bytes s' = sent_bytes s @ hdr_bytes \<lparr>version = 0, msg_type = cmd, seq = request_seq s + 1, peer = pr\<rparr> @ enc_attr (Nest 0 ts)"
    "s' = s\<lparr>request_seq := request_seq s + 1, reqs := (reqs s)(r \<mapsto> zero_request\<lparr>ready := True, rq_peer := pr, rq_seq := request_seq s + 1\<rparr>),
      sends := sends s', sent := sent s'\<rparr>"
proof -
  let ?k = "length (enc_attrs ts)"
  have n': "?k + 4 < 2 ^ 24" using n by (simp add: UBUS_MAX_MSGLEN_def)
  note m = holds_msg_bytes [OF h n']
  obtain R where R: "buf (cbuf s) = enc_attr (Nest 0 ts) @ R" using m(2) by blast
  have c: "c_msg s = Some (buf (cbuf s))" using m(1) by (simp add: c_msg_def)
  have "blob_pad_len (buf (cbuf s)) 0 = Some (word_of_nat (4 + ?k))"
    using read_at_enc(2) [of "Nest 0 ts" "[]" R] n' by (simp add: R)
  then have p: "map_option (\<lambda>n. unat n > UBUS_MAX_MSGLEN) (blob_pad_len (buf (cbuf s)) 0) = Some False"
    using n m(4) by (simp del: of_nat_add)
  define s0 where "s0 = s\<lparr>request_seq := request_seq s + 1,
    reqs := (reqs s)(r \<mapsto> zero_request\<lparr>ready := True, rq_peer := pr, rq_seq := request_seq s + 1\<rparr>)\<rparr>"
  have s0: "buf_holds (cbuf s0) ts" "Send_fail \<notin> set (sends s0)" "12 + ?k \<le> sum_list (map accepts (sends s0))" "c_msg s0 = c_msg s"
    using h ks by (simp_all add: s0_def c_msg_def)
  obtain m0 s' where m0: "c_msg s0 = Some m0"
      and s': "ubus_send_msg A (ucast (request_seq s + 1)) (Some m0) cmd pr (-1) s0 = Some (12 + int ?k, s')"
      "sent_bytes s' = sent_bytes s0 @ hdr_bytes \<lparr>version = 0, msg_type = cmd, seq = ucast (ucast (request_seq s + 1) :: u32), peer = pr\<rparr> @ enc_attr (Nest 0 ts)"
      "s' = s0\<lparr>sends := sends s', sent := sent s', closed := closed s0 @ (if (-1 :: int) \<ge> 0 then [-1] else [])\<rparr>"
    by (rule send_built_ok [OF s0(1) n' s0(2,3), of A "ucast (request_seq s + 1)" cmd pr "-1"])
  have m0: "m0 = buf (cbuf s)" using m0 s0(4) c by simp
  have u: "ucast (ucast (request_seq s + 1) :: u32) = request_seq s + 1" by (rule bit_word_eqI) (auto simp: bit_simps)
  have "ubus_start_request A r (Some (buf (cbuf s))) cmd pr s = Some (12 + int ?k, s')"
    using p s'(1) m0 by (auto simp: ubus_start_request_def s0_def Let_def)
  moreover have "s' = s\<lparr>request_seq := request_seq s + 1,
      reqs := (reqs s)(r \<mapsto> zero_request\<lparr>ready := True, rq_peer := pr, rq_seq := request_seq s + 1\<rparr>), sends := sends s', sent := sent s'\<rparr>"
    using s'(3) unfolding s0_def by (cases s, cases s') simp
  ultimately show thesis using that c s'(2) u by (simp add: sent_bytes_def s0_def)
qed

text \<open>The message \<open>msg\<close> of the application has the payload \<open>pl\<close>.\<close>

definition msg_is :: "byte list option \<Rightarrow> byte list option \<Rightarrow> bool" where
  "msg_is msg pl \<longleftrightarrow>
     (case (msg, pl) of
       (None, None) \<Rightarrow> True
     | (Some m, Some p) \<Rightarrow> blob_len m 0 = Some (word_of_nat (length p)) \<and> take (length p) (drop 4 m) = p \<and> length p + 4 \<le> length m
     | _ \<Rightarrow> False)"

definition invoke_request :: "u16 \<Rightarrow> u32 \<Rightarrow> cstring \<Rightarrow> byte list option \<Rightarrow> byte list" where
  "invoke_request sq obj name pl = hdr_bytes \<lparr>version = 0, msg_type = UBUS_MSG_INVOKE, seq = sq, peer = obj\<rparr> @
     enc_attr (Nest 0 (invoke_attrs obj name pl))"

lemma ubus_invoke_async_ok:
  assumes A: "can_send A (length (enc_attrs (invoke_attrs obj name pl))) s"
    and n: "length (enc_attrs (invoke_attrs obj name pl)) + 4 \<le> UBUS_MAX_MSGLEN" and msg: "msg_is msg pl"
  obtains s' where "ubus_invoke_async A obj name msg r s = Some (0, s')"
    "sent_bytes s' = sent_bytes s @ invoke_request (request_seq s + 1) obj name pl"
    "reqs s' = (reqs s)(r \<mapsto> zero_request\<lparr>ready := True, rq_peer := obj, rq_seq := request_seq s + 1\<rparr>)"
    "requests s' = requests s" "request_seq s' = request_seq s + 1"
proof -
  note A' = A [unfolded can_send_def]
  let ?xs = "[(int UBUS_ATTR_OBJID, be32 obj), (int UBUS_ATTR_METHOD, name @ [0])] @ (case pl of None \<Rightarrow> [] | Some d \<Rightarrow> [(int UBUS_ATTR_DATA, d)])"
  have xs: "map (\<lambda>(i, bs). Leaf i bs) ?xs = invoke_attrs obj name pl" by (simp add: invoke_attrs_def split: option.split)
  have n': "length (enc_attrs (invoke_attrs obj name pl)) + 4 < 2 ^ 24" using n by (simp add: UBUS_MAX_MSGLEN_def)
  obtain s1 s2 where s1: "c_init A s = Some s1" "c_buffer.puts A ?xs s1 = Some s2"
      "buf_holds (cbuf s2) (invoke_attrs obj name pl)" and b: "buffered s s2"
    using c_build_ok [of A s ?xs] A' n' unfolding xs by metis
  have run: "do { s \<leftarrow> c_put_int32 A UBUS_ATTR_OBJID obj s1; s \<leftarrow> c_put_string A UBUS_ATTR_METHOD name s;
      case msg of None \<Rightarrow> Some s | Some msg \<Rightarrow> c_put_payload A UBUS_ATTR_DATA msg s } = Some s2"
  proof (cases pl)
    case None
    then have "msg = None" using msg by (auto simp: msg_is_def split: option.splits)
    then show ?thesis using s1(2) [unfolded None append.simps option.case c_buffer.puts_unfold] with_memory_id [of A] A' by (simp add: c_puts)
  next
    case (Some d)
    then obtain m where m: "msg = Some m" "blob_len m 0 = Some (word_of_nat (length d))" "take (length d) (drop 4 m) = d"
      using msg by (auto simp: msg_is_def split: option.splits)
    have "length (enc_attr (Leaf (int UBUS_ATTR_DATA) d)) < 2 ^ 24" using n' Some by (simp add: invoke_attrs_def)
    then have "length d < 2 ^ 24" using length_payload [of "Leaf (int UBUS_ATTR_DATA) d"] by simp
    from c_put_payload_put [OF m(2) _ this, of "drop (length d) (drop 4 m)"] m(3) have
      "c_put_payload A UBUS_ATTR_DATA m s = c_put A (int UBUS_ATTR_DATA) d s" for A s by (metis append_take_drop_id)
    then show ?thesis
      using s1(2) [unfolded Some append.simps option.case c_buffer.puts_unfold] with_memory_id [of A] A' m(1) by (simp add: c_puts)
  qed
  have ks: "Send_fail \<notin> set (sends s2)" "12 + length (enc_attrs (invoke_attrs obj name pl)) \<le> sum_list (map accepts (sends s2))"
    using A' buffered_same [OF b] by simp_all
  obtain m s' where m: "c_msg s2 = Some m"
      "ubus_start_request A r (Some m) UBUS_MSG_INVOKE obj s2 = Some (12 + int (length (enc_attrs (invoke_attrs obj name pl))), s')"
      "sent_bytes s' = sent_bytes s2 @ invoke_request (request_seq s2 + 1) obj name pl"
      "s' = s2\<lparr>request_seq := request_seq s2 + 1, reqs := (reqs s2)(r \<mapsto> zero_request\<lparr>ready := True, rq_peer := obj, rq_seq := request_seq s2 + 1\<rparr>),
        sends := sends s', sent := sent s'\<rparr>"
    using start_built_ok [OF s1(3) n ks, of A r UBUS_MSG_INVOKE obj] unfolding invoke_request_def by blast
  have "ubus_invoke_async A obj name msg r s = Some (0, s')"
    using s1(1) run m(1,2) by (auto simp: ubus_invoke_async_def split: bind_splits)
  moreover have "reqs s' = (reqs s2)(r \<mapsto> zero_request\<lparr>ready := True, rq_peer := obj, rq_seq := request_seq s2 + 1\<rparr>)"
      "requests s' = requests s2" "request_seq s' = request_seq s2 + 1"
    using arg_cong [OF m(4), of reqs] arg_cong [OF m(4), of requests] arg_cong [OF m(4), of request_seq] by simp_all
  ultimately show thesis using that m(3) buffered_same [OF b] by (simp add: sent_bytes_def)
qed

end
