(* ===== verification/Ubus_Call.thy ===== *)
theory Ubus_Call
  imports Ubusd_Invoke Libubus_Api
begin

text \<open>
  An invocation from one client to another, through the daemon: the parts that the two sides of a socket
  prove about the bytes on it are put together here, one hop at a time.
\<close>

section \<open>From the caller to the daemon\<close>

text \<open>The state of the daemon after it has received a whole message.\<close>

definition received :: "nat \<Rightarrow> ubus_client \<Rightarrow> ubus_msghdr \<Rightarrow> byte list \<Rightarrow> ubusd \<Rightarrow> ubusd" where
  "received cl c h D d =
     d\<lparr>clock := clock d + 1, msgs := (msgs d)(clock d \<mapsto> \<lparr>refcount = 1, hdr = h, mdata = D, mfd = -1\<rparr>),
       cls := (cls d)(cl \<mapsto> c\<lparr>hdrbuf := hdr_bytes h @ take 4 D, pending_msg_fd := -1, pending_msg_offset := 0, pending_msg := None\<rparr>)\<rparr>"

lemma daemon_receives:
  assumes c: "cls d cl = Some c" "pending_msg_offset c = 0" "length (hdrbuf c) = 12" "pending_msg_fd c = -1"
    and k: "12 \<le> k" and E: "e_alloc E (clock d)"
    and D: "take 4 D = be32 w" "length D = raw w" "4 \<le> raw w" "pad w \<le> UBUS_MAX_MSGLEN"
    and p: "\<forall>n\<in>set pieces. 0 < n" "pieces \<noteq> []" "length D \<le> 4 + sum_list pieces"
  shows "\<exists>d1. rx_header E cl ([(k, -1)], hdr_bytes h @ D @ later) d = Some (Go, ([], drop 4 D @ later), d1) \<and>
    feed cl (clock d) pieces (drop 4 D @ later) d1 = Some (Go, later, received cl c h D d)"
proof -
  let ?c1 = "fst (after_header cl c (-1) h w d)" and ?s1 = "snd (after_header cl c (-1) h w d)"
  have D': "D = be32 w @ drop 4 D" using D(1) append_take_drop_id [of 4 D] by simp
  have "rx_header E cl ([(k, -1)], hdr_bytes h @ D @ later) d = Some (Go, ([], drop 4 D @ later), ?s1)"
    using rx_header_ok [OF c(1-3) k E D(3,4), of "-1" "[]" h "drop 4 D @ later"] D' by (metis append.assoc)
  moreover have "feed cl (clock d) pieces (drop 4 D @ later) ?s1 =
      Some (Go, later, accept cl ?c1 (clock d) (new_pending h w) D ?s1)"
    by (rule feed_complete [OF after_header_receiving [OF c(1) D(2,3,1)] p])
  moreover have "accept cl ?c1 (clock d) (new_pending h w) D ?s1 = received cl c h D d"
    using c(4) D(1) by (simp add: accept_def after_header_def new_pending_def Let_def received_def)
  ultimately show ?thesis by auto
qed

text \<open>The header of an encoded message.\<close>

lemma enc_msg_header:
  assumes "length (enc_attrs ts) + 4 \<le> UBUS_MAX_MSGLEN"
  obtains w where "take 4 (enc_attr (Nest 0 ts)) = be32 w" "length (enc_attr (Nest 0 ts)) = raw w" "4 \<le> raw w" "pad w \<le> UBUS_MAX_MSGLEN"
proof -
  let ?w = "new_hdr 0 (length (enc_attrs ts))"
  have n: "length (enc_attrs ts) + 4 < 2 ^ 24" using assms by (simp add: UBUS_MAX_MSGLEN_def)
  have "pad ?w = raw ?w" using raw_new_hdr [OF n, of 0] length_enc_attr(3) [of ts] by (simp add: pad_eq)
  then show thesis using that [of ?w] raw_new_hdr [OF n, of 0] assms by simp
qed

section \<open>The three programs\<close>

text \<open>The caller can send the invocation.\<close>

definition caller_ready :: "application \<Rightarrow> client \<Rightarrow> u32 \<Rightarrow> cstring \<Rightarrow> byte list option \<Rightarrow> byte list option \<Rightarrow> bool" where
  "caller_ready A s oid name msg pl \<longleftrightarrow>
     can_send A (length (enc_attrs (invoke_attrs oid name pl))) s \<and> msg_is msg pl \<and> 0 \<notin> set name \<and>
     length (enc_attrs (invoke_attrs oid name pl)) + 4 \<le> UBUS_MAX_MSGLEN"

text \<open>The daemon waits for a message of client \<open>cl\<close>, and has the object, whose owner \<open>ow\<close> is another client.\<close>

definition daemon_ready :: "env \<Rightarrow> ubusd \<Rightarrow> nat \<Rightarrow> ubus_client \<Rightarrow> u32 \<Rightarrow> nat \<Rightarrow> ubus_client \<Rightarrow> bool" where
  "daemon_ready E d cl c oid ow co \<longleftrightarrow>
     cls d cl = Some c \<and> pending_msg_offset c = 0 \<and> length (hdrbuf c) = 12 \<and> pending_msg_fd c = -1 \<and>
     takes E (sock_fd co) \<and> ow \<noteq> cl \<and> cls d ow = Some co \<and> array_get (tx_queue co) (txq_cur co) = Some None \<and>
     retmsg d \<in> dom (msgs d) \<and> fresh_heap d \<and> buf_ok (bb d) \<and>
     (\<exists>obj x. ubus_find_id (objects d) oid = Some obj \<and> objs d obj = Some x \<and> oclient x = Some ow \<and> obj_id x = oid)"

text \<open>
  The owner waits for a message and has the object \<open>obj\<close> under the identifier \<open>oid\<close> and for it a method with
  the index \<open>i\<close>, whose handler, given the data \<open>pl\<close>, returns \<open>ret\<close>.
\<close>

definition owner_ready :: "application \<Rightarrow> client \<Rightarrow> u32 \<Rightarrow> nat \<Rightarrow> ubus_obj \<Rightarrow> cstring \<Rightarrow> nat \<Rightarrow> byte list option \<Rightarrow> u32 \<Rightarrow> u16 \<Rightarrow> int \<Rightarrow> bool" where
  "owner_ready A s oid obj x name i pl pr sq ret \<longleftrightarrow>
     msgbuf_ok s \<and> \<not> uloop_cancelled s \<and> stack_depth s = 0 \<and> can_send A 16 s \<and>
     ubus_find_id (ctx_objects s) oid = Some obj \<and> cobjs s obj = Some x \<and> \<not> watch x \<and> \<not> event x \<and>
     find_method (o_methods x) name 0 = Some i \<and>
     (\<forall>D s. attr_is D pl \<longrightarrow>
       on_call A (Method obj i \<lparr>d_object = o_id x, d_peer = pr, d_seq = sq, deferred = False, d_fd = -1\<rparr> name D) s = Some ((ret, None), s))"

section \<open>The two hops\<close>

lemma call_to_daemon:
  assumes s: "caller_ready A s oid name msg pl" and d: "daemon_ready E d cl c oid ow co"
    and p: "12 \<le> k" "\<forall>n\<in>set pieces. 0 < n" "pieces \<noteq> []" "length (enc_attrs (invoke_attrs oid name pl)) \<le> sum_list pieces"
  obtains s' st d1 d2 d3 where "ubus_invoke_async A oid name msg r s = Some (0, s')"
    "rx_header E cl ([(k, -1)], drop (length (sent_bytes s)) (sent_bytes s')) d = Some (Go, ([], st), d1)"
    "feed cl (clock d) pieces st d1 = Some (Go, [], d2)" "ubusd_proto_receive_message E cl (clock d) d2 = Some d3"
    "out d2 = out d"
    "stream_of (sock_fd co) (out d3) = stream_of (sock_fd co) (out d) @
      hdr_bytes \<lparr>version = 0, msg_type = UBUS_MSG_INVOKE, seq = request_seq s + 1, peer = cl_id c\<rparr> @ enc_attr (Nest 0 (invoke_attrs oid name pl))"
proof -
  let ?ts = "invoke_attrs oid name pl" and ?D = "enc_attr (Nest 0 (invoke_attrs oid name pl))"
  let ?h = "\<lparr>version = 0, msg_type = UBUS_MSG_INVOKE, seq = request_seq s + 1, peer = oid\<rparr>"
  note s' = s [unfolded caller_ready_def] and d' = d [unfolded daemon_ready_def]
  obtain s1 where s1: "ubus_invoke_async A oid name msg r s = Some (0, s1)" "sent_bytes s1 = sent_bytes s @ invoke_request (request_seq s + 1) oid name pl"
    using ubus_invoke_async_ok [of A oid name pl s msg r] s' by blast
  have wire: "drop (length (sent_bytes s)) (sent_bytes s1) = hdr_bytes ?h @ ?D @ []" using s1(2) by (simp add: invoke_request_def)
  obtain w where w: "take 4 ?D = be32 w" "length ?D = raw w" "4 \<le> raw w" "pad w \<le> UBUS_MAX_MSGLEN" using enc_msg_header s' by blast
  have E: "e_alloc E (clock d)" using d' by (simp add: takes_def)
  obtain d1 where d1: "rx_header E cl ([(k, -1)], hdr_bytes ?h @ ?D @ []) d = Some (Go, ([], drop 4 ?D @ []), d1)"
      "feed cl (clock d) pieces (drop 4 ?D @ []) d1 = Some (Go, [], received cl c ?h ?D d)"
    using daemon_receives [OF _ _ _ _ p(1) E w p(2,3), of cl c ?h "[]"] d' p(4) by auto
  let ?d2 = "received cl c ?h ?D d" and ?m = "\<lparr>refcount = 1, hdr = ?h, mdata = ?D, mfd = -1\<rparr>"
  obtain obj x where x: "ubus_find_id (objects d) oid = Some obj" "objs d obj = Some x" "oclient x = Some ow" "obj_id x = oid"
    using d' by blast
  obtain rm where rm: "msgs d (retmsg d) = Some rm" using d' by blast
  have ne: "clock d \<noteq> retmsg d" using d' by (auto simp: fresh_heap_def)
  have f: "cls ?d2 ow = Some co" "msgs ?d2 (clock d) = Some ?m" "msgs ?d2 (retmsg ?d2) = Some rm" "clock d \<noteq> retmsg ?d2" "buf_ok (bb ?d2)"
      "ubus_find_id (objects ?d2) oid = Some obj" "objs ?d2 obj = Some x" "out ?d2 = out d"
    using d' x rm ne by (auto simp: received_def)
  obtain c' where c': "cls ?d2 cl = Some c'" "cl_id c' = cl_id c" by (simp add: received_def)
  have fresh: "fresh_heap ?d2" using d' by (auto simp: fresh_heap_def received_def less_Suc_eq)
  have n: "length (enc_attrs ?ts) + 4 < 2 ^ 24" "0 \<notin> set name" using s' by (auto simp: UBUS_MAX_MSGLEN_def)
  from invoke_forwarded [of E co ?d2 cl c' obj x ow "clock d" ?m rm oid name pl] d' f c' fresh n x(3,4)
  obtain d3 where d3: "ubusd_proto_receive_message E cl (clock d) ?d2 = Some d3"
      "stream_of (sock_fd co) (out d3) = stream_of (sock_fd co) (out d) @
        hdr_bytes \<lparr>version = 0, msg_type = UBUS_MSG_INVOKE, seq = request_seq s + 1, peer = cl_id c\<rparr> @ ?D"
    by auto
  show thesis by (rule that [OF s1(1) _ d1(2) d3(1) f(8) d3(2)]) (use wire d1(1) in simp)
qed

lemma call_to_owner:
  assumes o: "owner_ready A s oid obj x name i pl pr sq ret"
    and n: "length (enc_attrs (invoke_attrs oid name pl)) + 4 \<le> UBUS_MAX_MSGLEN" "0 \<notin> set name"
    and r: "0 < j" "alive ks" "12 + length (enc_attr (Nest 0 (invoke_attrs oid name pl))) \<le> length (filter receives ks)"
    and wire: "wire = hdr_bytes \<lparr>version = 0, msg_type = UBUS_MSG_INVOKE, seq = sq, peer = pr\<rparr> @ enc_attr (Nest 0 (invoke_attrs oid name pl)) @ later"
  obtains s1 data s2 where "get_next_msg A (-1) (s\<lparr>recvs := (Recv j (-1) # ks, wire)\<rparr>) = Some (True, -1, s1)"
    "msgbuf_data s1 = Some data" "ubus_process_msg A True (msgbuf_hdr s1) data (-1) s1 = Some s2"
    "sent_bytes s2 = sent_bytes s @ status_reply sq pr ret (o_id x)" "snd (recvs s1) = later"
proof -
  let ?D = "enc_attr (Nest 0 (invoke_attrs oid name pl))" and ?h = "\<lparr>version = 0, msg_type = UBUS_MSG_INVOKE, seq = sq, peer = pr\<rparr>"
  let ?s = "s\<lparr>recvs := (Recv j (-1) # ks, wire)\<rparr>"
  note o' = o [unfolded owner_ready_def]
  obtain w where w: "take 4 ?D = be32 w" "length ?D = raw w" "4 \<le> raw w" "pad w \<le> UBUS_MAX_MSGLEN" using enc_msg_header [OF n(1)] by blast
  have A: "alloc_ok A t" for t using o' by (simp add: can_send_def)
  have "recvs ?s = (Recv j (-1) # ks, hdr_bytes ?h @ ?D @ later)" using wire by simp
  moreover have "msgbuf_ok ?s" "\<not> uloop_cancelled ?s" using o' by (simp_all add: msgbuf_ok_def)
  ultimately obtain s1 ks' d t where s1: "get_next_msg A (-1) ?s = Some (True, -1, s1)"
      "s1 = ?s\<lparr>tick := t, msgbuf_hdr := ?h, msgbuf_data := Some d, recvs := (ks', later)\<rparr>" "take (length ?D) d = ?D"
    using get_next_msg_ok [of ?s A j "-1" ks ?h ?D later w "-1"] A r w by (metis ubus_msghdr.select_convs(1))
  have d: "d = ?D @ drop (length ?D) d" using s1(3) append_take_drop_id [of "length ?D" d] by simp
  have n': "length (enc_attrs (invoke_attrs oid name pl)) + 4 < 2 ^ 24" using n(1) by (simp add: UBUS_MAX_MSGLEN_def)
  have "\<exists>s2. ubus_process_msg A True ?h d (-1) s1 = Some s2 \<and>
      sent_bytes s2 = sent_bytes (s1\<lparr>msgbuf_data := None\<rparr>) @ status_reply (seq ?h) (peer ?h) ret (o_id x) \<and> msgbuf_data s2 \<noteq> None"
    by (rule invoke_answered [OF _ _ n' n(2) d]) (use o' s1(2) in \<open>auto simp: can_send_def\<close>)
  then show thesis using that [OF s1(1)] s1(2) by (auto simp: sent_bytes_def)
qed

section \<open>An example\<close>

text \<open>A daemon with two clients; the object 5 belongs to client 2.\<close>

definition call_daemon :: ubusd where
  "call_daemon = (one_client status_buf)
     \<lparr>msgs := [4 \<mapsto> status_buf], retmsg := 4,
      cls := [1 \<mapsto> (idle_client 4)\<lparr>cl_id := 77\<rparr>, 2 \<mapsto> idle_client 6], objs := [10 \<mapsto> sample_object 5 2 []],
      objects := \<lparr>list_head = [(5, 10)], root = Node Null (5, 10) 0 Null, count = 1, allow_dups = False, leader = (\<lambda>_. True)\<rparr>\<rparr>"

lemma sample_invoke_length:
  "length (enc_attrs (invoke_attrs 5 (cstr ''ping'') (Some [1, 2]))) = 28" "0 \<notin> set (cstr ''ping'')"
  by (simp_all add: invoke_attrs_def length_enc pad4_def cstr_def)

lemma sample_caller: "caller_ready quiet_app (idle_ctx [Send 1000] ([], [])) 5 (cstr ''ping'') (Some [0, 0, 0, 6, 1, 2, 0, 0]) (Some [1, 2])"
  using sample_invoke_length
  by (simp add: caller_ready_def can_send_def idle_ctx_def buf_ok_def msg_is_def UBUS_MAX_MSGLEN_def blob_len_def rd_be32_def of_be32_def hdr_len_def)

lemma sample_daemon: "daemon_ready quiet_env call_daemon 1 ((idle_client 4)\<lparr>cl_id := 77\<rparr>) 5 2 (idle_client 6)"
  by (auto simp: daemon_ready_def call_daemon_def one_client_def idle_client_def takes_def quiet_env_def array_get_def fresh_heap_def buf_ok_def
      ubus_find_id_def avl_find_def ubus_cmp_id_def sample_object_def split: if_splits)

lemma sample_owner: "owner_ready quiet_app (ping_client [Send 9, Send 100] ([], [])) 5 1 ping_object (cstr ''ping'') 0 pl pr sq 0"
  using ping_client_facts
  by (simp add: owner_ready_def can_send_def msgbuf_ok_def ping_object_def quiet_app_def) (simp add: ping_client_def idle_ctx_def)

end
