(* ===== verification/Uloop.thy ===== *)
theory Uloop
  imports Prelude "HOL-Library.Signed_Division"
begin

text \<open>
  The event loop: \<open>src/libubox/uloop.c\<close> in its \<open>USE_EPOLL\<close> variant.

  Timers, processes and file descriptors are structures of the application on a heap, a partial map per type;
  the two intrusive lists are the lists of the addresses of their entries. The callbacks are a parameter \<open>cb\<close>, an
  arbitrary function on the state, so a callback may use the loop again; \<open>called\<close> records the calls in order. The
  system is a script: the results of \<open>epoll_wait\<close> and \<open>waitpid\<close>, the clock at every reading and the
  results of \<open>epoll_ctl\<close>, whose calls \<open>ctls\<close> records. A loop that may not end is a partial function, with \<open>None\<close> when it does not end; an
  access through a pointer that is \<open>NULL\<close> is \<open>None\<close> as well.
\<close>

unbundle bit_operations_syntax

section \<open>Data\<close>

record timeval =
  tv_sec :: int
  tv_usec :: int

record uloop_timeout =
  t_pending :: bool
  t_cb :: bool
  t_time :: timeval

record uloop_process =
  p_pending :: bool
  p_pid :: int

record uloop_fd =
  f_cb :: bool
  f_fd :: int
  f_eof :: bool
  f_error :: bool
  f_registered :: bool
  f_flags :: "8 word"

definition ULOOP_READ :: "32 word" where "ULOOP_READ = 1"
definition ULOOP_WRITE :: "32 word" where "ULOOP_WRITE = 2"
definition ULOOP_EDGE_TRIGGER :: "32 word" where "ULOOP_EDGE_TRIGGER = 4"
definition ULOOP_EVENT_MASK :: "32 word" where "ULOOP_EVENT_MASK = ULOOP_READ OR ULOOP_WRITE"
definition ULOOP_EVENT_BUFFERED :: "32 word" where "ULOOP_EVENT_BUFFERED = 16"
definition ULOOP_ERROR_CB :: "32 word" where "ULOOP_ERROR_CB = 64"

definition EPOLLIN :: "32 word" where "EPOLLIN = 0x001"
definition EPOLLOUT :: "32 word" where "EPOLLOUT = 0x004"
definition EPOLLERR :: "32 word" where "EPOLLERR = 0x008"
definition EPOLLHUP :: "32 word" where "EPOLLHUP = 0x010"
definition EPOLLRDHUP :: "32 word" where "EPOLLRDHUP = 0x2000"
definition EPOLLET :: "32 word" where "EPOLLET = 0x80000000"

datatype epoll_op = EPOLL_CTL_ADD | EPOLL_CTL_MOD | EPOLL_CTL_DEL

text \<open>The calls of functions of the application, and the dispositions of a signal.\<close>

datatype ucall = Fd_cb nat "32 word" | Timeout_cb nat | Process_cb nat int

datatype sighandler = SIG_DFL | SIG_IGN | Handle_sigint | Handle_sigchld | Custom nat

datatype signal = SIGINT | SIGTERM | SIGCHLD | SIGPIPE

text \<open>
  \<open>cur_fds\<close> holds the events of the array of that name that are still to be handled, those from the index \<open>cur_fd\<close>
  on; \<open>fd_stack\<close> the frames of the calls of \<open>uloop_run_events\<close> that are active, the innermost first.
\<close>

record uloop =
  timeouts :: "nat list"
  processes :: "nat list"
  tmo :: "nat \<rightharpoonup> uloop_timeout"
  proc :: "nat \<rightharpoonup> uloop_process"
  ufds :: "nat \<rightharpoonup> uloop_fd"
  fd_stack :: "(nat option \<times> 32 word) list"
  cur_fds :: "(nat option \<times> 32 word) list"
  poll_fd :: int
  cancelled :: bool
  do_sigchld :: bool
  recursive_calls :: int
  sigs :: "signal \<Rightarrow> sighandler"
  old_sigs :: "signal \<Rightarrow> sighandler"
  utick :: nat
  now :: "nat \<Rightarrow> timeval"
  ctl :: "nat \<Rightarrow> int"
  ctls :: "(epoll_op \<times> int \<times> 32 word) list"
  polls :: "(nat option \<times> 32 word) list option list"
  waits :: "(int \<times> int) list"
  called :: "ucall list"

type_synonym callbacks = "ucall \<Rightarrow> uloop \<Rightarrow> uloop option"

definition ucall_cb :: "callbacks \<Rightarrow> ucall \<Rightarrow> uloop \<Rightarrow> uloop option" where
  "ucall_cb cb c s = cb c (s\<lparr>called := called s @ [c]\<rparr>)"

section \<open>Timers\<close>

definition tv_diff :: "timeval \<Rightarrow> timeval \<Rightarrow> int" where
  "tv_diff t1 t2 = to_int32 ((tv_sec t1 - tv_sec t2) * 1000 + (tv_usec t1 - tv_usec t2) sdiv 1000)"

text \<open>The list with the entry linked before the first one that is later, at the end when there is none.\<close>

fun place_timeout :: "(nat \<rightharpoonup> uloop_timeout) \<Rightarrow> timeval \<Rightarrow> nat \<Rightarrow> nat list \<Rightarrow> nat list option" where
  "place_timeout M tm t [] = Some [t]"
| "place_timeout M tm t (u # us) = do {
     y \<leftarrow> M u;
     if tv_diff (t_time y) tm > 0 then Some (t # u # us) else map_option (Cons u) (place_timeout M tm t us)
   }"

definition uloop_timeout_add :: "nat \<Rightarrow> uloop \<Rightarrow> (int \<times> uloop) option" where
  "uloop_timeout_add t s = do {
     x \<leftarrow> tmo s t;
     if t_pending x then Some (-1, s)
     else do {
       l \<leftarrow> place_timeout (tmo s) (t_time x) t (timeouts s);
       Some (0, s\<lparr>timeouts := l, tmo := (tmo s)(t \<mapsto> x\<lparr>t_pending := True\<rparr>)\<rparr>)
     }
   }"

definition uloop_gettime :: "uloop \<Rightarrow> timeval \<times> uloop" where
  "uloop_gettime s = (now s (utick s), s\<lparr>utick := utick s + 1\<rparr>)"

definition uloop_timeout_cancel :: "nat \<Rightarrow> uloop \<Rightarrow> (int \<times> uloop) option" where
  "uloop_timeout_cancel t s = do {
     x \<leftarrow> tmo s t;
     if \<not> t_pending x then Some (-1, s)
     else Some (0, s\<lparr>timeouts := remove1 t (timeouts s), tmo := (tmo s)(t \<mapsto> x\<lparr>t_pending := False\<rparr>)\<rparr>)
   }"

definition timeout_time :: "timeval \<Rightarrow> int \<Rightarrow> timeval" where
  "timeout_time tm msecs = (
     let tm = tm\<lparr>tv_sec := tv_sec tm + msecs sdiv 1000, tv_usec := tv_usec tm + msecs smod 1000 * 1000\<rparr>
     in if tv_usec tm > 1000000 then tm\<lparr>tv_sec := tv_sec tm + 1, tv_usec := tv_usec tm - 1000000\<rparr> else tm)"

definition uloop_timeout_set :: "nat \<Rightarrow> int \<Rightarrow> uloop \<Rightarrow> (int \<times> uloop) option" where
  "uloop_timeout_set t msecs s = do {
     x \<leftarrow> tmo s t;
     (_, s) \<leftarrow> (if t_pending x then uloop_timeout_cancel t s else Some (0, s));
     x \<leftarrow> tmo s t;
     let (tm, s) = uloop_gettime s;
     uloop_timeout_add t (s\<lparr>tmo := (tmo s)(t \<mapsto> x\<lparr>t_time := timeout_time tm msecs\<rparr>)\<rparr>)
   }"

definition uloop_timeout_remaining :: "nat \<Rightarrow> uloop \<Rightarrow> (int \<times> uloop) option" where
  "uloop_timeout_remaining t s = do {
     x \<leftarrow> tmo s t;
     if \<not> t_pending x then Some (-1, s)
     else (let (tm, s) = uloop_gettime s in Some (tv_diff (t_time x) tm, s))
   }"

definition uloop_get_next_timeout :: "timeval \<Rightarrow> uloop \<Rightarrow> int option" where
  "uloop_get_next_timeout tv s =
     (case timeouts s of
       [] \<Rightarrow> Some (-1)
     | t # _ \<Rightarrow> do {
         x \<leftarrow> tmo s t;
         Some (if tv_diff (t_time x) tv < 0 then 0 else tv_diff (t_time x) tv)
       })"

partial_function (option) uloop_process_timeouts :: "callbacks \<Rightarrow> timeval \<Rightarrow> uloop \<Rightarrow> uloop option" where
  "uloop_process_timeouts cb tv s =
     (case timeouts s of
       [] \<Rightarrow> Some s
     | t # _ \<Rightarrow> do {
         x \<leftarrow> tmo s t;
         if tv_diff (t_time x) tv > 0 then Some s
         else do {
           (_, s) \<leftarrow> uloop_timeout_cancel t s;
           s \<leftarrow> (if t_cb x then ucall_cb cb (Timeout_cb t) s else Some s);
           uloop_process_timeouts cb tv s
         }
       })"

fun cancel_all :: "nat list \<Rightarrow> uloop \<Rightarrow> uloop option" where
  "cancel_all [] s = Some s"
| "cancel_all (t # ts) s = do {
     (_, s) \<leftarrow> uloop_timeout_cancel t s;
     cancel_all ts s
   }"

definition uloop_clear_timeouts :: "uloop \<Rightarrow> uloop option" where
  "uloop_clear_timeouts s = cancel_all (timeouts s) s"

section \<open>Processes\<close>

fun place_process :: "(nat \<rightharpoonup> uloop_process) \<Rightarrow> int \<Rightarrow> nat \<Rightarrow> nat list \<Rightarrow> nat list option" where
  "place_process M pid p [] = Some [p]"
| "place_process M pid p (u # us) = do {
     y \<leftarrow> M u;
     if p_pid y > pid then Some (p # u # us) else map_option (Cons u) (place_process M pid p us)
   }"

definition uloop_process_add :: "nat \<Rightarrow> uloop \<Rightarrow> (int \<times> uloop) option" where
  "uloop_process_add p s = do {
     x \<leftarrow> proc s p;
     if p_pending x then Some (-1, s)
     else do {
       l \<leftarrow> place_process (proc s) (p_pid x) p (processes s);
       Some (0, s\<lparr>processes := l, proc := (proc s)(p \<mapsto> x\<lparr>p_pending := True\<rparr>)\<rparr>)
     }
   }"

definition uloop_process_delete :: "nat \<Rightarrow> uloop \<Rightarrow> (int \<times> uloop) option" where
  "uloop_process_delete p s = do {
     x \<leftarrow> proc s p;
     if \<not> p_pending x then Some (-1, s)
     else Some (0, s\<lparr>processes := remove1 p (processes s), proc := (proc s)(p \<mapsto> x\<lparr>p_pending := False\<rparr>)\<rparr>)
   }"

text \<open>
  The cursors of \<open>list_for_each_entry_safe\<close>: the head of the list, an entry, or the entry that contains \<open>NULL\<close>, which
  is what follows an entry that has been taken from the list meanwhile.
\<close>

datatype cursor = Head | At nat | Null

fun after :: "nat \<Rightarrow> nat list \<Rightarrow> cursor" where
  "after p [] = Null"
| "after p [q] = (if p = q then Head else Null)"
| "after p (q # r # qs) = (if p = q then At r else after p (r # qs))"

fun next_cursor :: "nat list \<Rightarrow> cursor \<Rightarrow> cursor option" where
  "next_cursor l Head = Some (case l of [] \<Rightarrow> Head | p # _ \<Rightarrow> At p)"
| "next_cursor l (At p) = Some (after p l)"
| "next_cursor l Null = None"

partial_function (option) exited_loop :: "callbacks \<Rightarrow> int \<Rightarrow> int \<Rightarrow> cursor \<Rightarrow> cursor \<Rightarrow> uloop \<Rightarrow> uloop option" where
  "exited_loop cb pid ret p tmp s =
     (case p of
       Head \<Rightarrow> Some s
     | Null \<Rightarrow> None
     | At q \<Rightarrow> do {
         x \<leftarrow> proc s q;
         if p_pid x > pid then Some s
         else do {
           s \<leftarrow>
             (if p_pid x < pid then Some s
              else do {
                (_, s) \<leftarrow> uloop_process_delete q s;
                ucall_cb cb (Process_cb q ret) s
              });
           n \<leftarrow> next_cursor (processes s) tmp;
           exited_loop cb pid ret tmp n s
         }
       })"

text \<open>A script that ends stands for \<open>waitpid\<close> finding no more children.\<close>

partial_function (option) waitpid_loop :: "callbacks \<Rightarrow> uloop \<Rightarrow> uloop option" where
  "waitpid_loop cb s =
     (case waits s of
       [] \<Rightarrow> Some s
     | (pid, ret) # ws \<Rightarrow> (
         let s = s\<lparr>waits := ws\<rparr> in
         if pid \<le> 0 then Some s
         else do {
           p \<leftarrow> next_cursor (processes s) Head;
           tmp \<leftarrow> next_cursor (processes s) p;
           s \<leftarrow> exited_loop cb pid ret p tmp s;
           waitpid_loop cb s
         }))"

definition uloop_handle_processes :: "callbacks \<Rightarrow> uloop \<Rightarrow> uloop option" where
  "uloop_handle_processes cb s = waitpid_loop cb (s\<lparr>do_sigchld := False\<rparr>)"

fun delete_all :: "nat list \<Rightarrow> uloop \<Rightarrow> uloop option" where
  "delete_all [] s = Some s"
| "delete_all (p # ps) s = do {
     (_, s) \<leftarrow> uloop_process_delete p s;
     delete_all ps s
   }"

definition uloop_clear_processes :: "uloop \<Rightarrow> uloop option" where
  "uloop_clear_processes s = delete_all (processes s) s"

section \<open>File descriptors\<close>

text \<open>\<open>uloop_init\<close>; \<open>fd\<close> is the result of \<open>epoll_create\<close>.\<close>

definition uloop_init :: "int \<Rightarrow> uloop \<Rightarrow> int \<times> uloop" where
  "uloop_init fd s =
     (if poll_fd s \<ge> 0 then (0, s)
      else if fd < 0 then (-1, s\<lparr>poll_fd := fd\<rparr>)
      else (0, s\<lparr>poll_fd := fd\<rparr>))"

definition epoll_ctl :: "epoll_op \<Rightarrow> int \<Rightarrow> 32 word \<Rightarrow> uloop \<Rightarrow> int \<times> uloop" where
  "epoll_ctl op fd events s = (ctl s (utick s), s\<lparr>utick := utick s + 1, ctls := ctls s @ [(op, fd, events)]\<rparr>)"

definition register_poll :: "nat \<Rightarrow> 32 word \<Rightarrow> uloop \<Rightarrow> (int \<times> uloop) option" where
  "register_poll f flags s = do {
     x \<leftarrow> ufds s f;
     let op = (if f_registered x then EPOLL_CTL_MOD else EPOLL_CTL_ADD);
     let events =
       (if flags AND ULOOP_READ \<noteq> 0 then EPOLLIN OR EPOLLRDHUP else 0) OR
       (if flags AND ULOOP_WRITE \<noteq> 0 then EPOLLOUT else 0) OR
       (if flags AND ULOOP_EDGE_TRIGGER \<noteq> 0 then EPOLLET else 0);
     Some (epoll_ctl op (f_fd x) events (s\<lparr>ufds := (ufds s)(f \<mapsto> x\<lparr>f_flags := ucast flags\<rparr>)\<rparr>))
   }"

definition epoll_delete :: "nat \<Rightarrow> uloop \<Rightarrow> (int \<times> uloop) option" where
  "epoll_delete f s = do {
     x \<leftarrow> ufds s f;
     Some (epoll_ctl EPOLL_CTL_DEL (f_fd x) 0 (s\<lparr>ufds := (ufds s)(f \<mapsto> x\<lparr>f_flags := 0\<rparr>)\<rparr>))
   }"

text \<open>The first frame of the stack that belongs to \<open>f\<close> takes the events, or is marked when \<open>events\<close> is negative.\<close>

fun stack_frame :: "nat \<Rightarrow> int \<Rightarrow> (nat option \<times> 32 word) list \<Rightarrow> (nat option \<times> 32 word) list option" where
  "stack_frame f ev [] = None"
| "stack_frame f ev ((g, e) # st) =
     (if g \<noteq> Some f then map_option (Cons (g, e)) (stack_frame f ev st)
      else if ev < 0 then Some ((None, e) # st)
      else Some ((g, e OR (word_of_int ev OR ULOOP_EVENT_BUFFERED)) # st))"

definition uloop_fd_stack_event :: "nat \<Rightarrow> int \<Rightarrow> uloop \<Rightarrow> (bool \<times> uloop) option" where
  "uloop_fd_stack_event f ev s = do {
     x \<leftarrow> ufds s f;
     if ucast (f_flags x) AND ULOOP_EDGE_TRIGGER = 0 then Some (False, s)
     else case stack_frame f ev (fd_stack s) of
       None \<Rightarrow> Some (False, s)
     | Some st \<Rightarrow> Some (True, s\<lparr>fd_stack := st\<rparr>)
   }"

definition forget_events :: "nat \<Rightarrow> (nat option \<times> 32 word) list \<Rightarrow> (nat option \<times> 32 word) list" where
  "forget_events f es = map (\<lambda>(g, e). (if g = Some f then None else g, e)) es"

definition uloop_fd_delete :: "nat \<Rightarrow> uloop \<Rightarrow> (int \<times> uloop) option" where
  "uloop_fd_delete f s = do {
     let s = s\<lparr>cur_fds := forget_events f (cur_fds s)\<rparr>;
     x \<leftarrow> ufds s f;
     if \<not> f_registered x then Some (0, s)
     else do {
       let s = s\<lparr>ufds := (ufds s)(f \<mapsto> x\<lparr>f_registered := False\<rparr>)\<rparr>;
       (_, s) \<leftarrow> uloop_fd_stack_event f (-1) s;
       epoll_delete f s
     }
   }"

text \<open>The calls of \<open>fcntl\<close> that make the descriptor non-blocking have no effect on this state.\<close>

definition uloop_fd_add :: "nat \<Rightarrow> 32 word \<Rightarrow> uloop \<Rightarrow> (int \<times> uloop) option" where
  "uloop_fd_add f flags s =
     (if flags AND (ULOOP_READ OR ULOOP_WRITE) = 0 then uloop_fd_delete f s
      else do {
        (ret, s) \<leftarrow> register_poll f flags s;
        if ret < 0 then Some (ret, s)
        else do {
          x \<leftarrow> ufds s f;
          Some (ret, s\<lparr>ufds := (ufds s)(f \<mapsto> x\<lparr>f_registered := True, f_eof := False, f_error := False\<rparr>)\<rparr>)
        }
      })"

definition upd_fd :: "nat \<Rightarrow> (uloop_fd \<Rightarrow> uloop_fd) \<Rightarrow> uloop \<Rightarrow> uloop option" where
  "upd_fd f g s = do {
     x \<leftarrow> ufds s f;
     Some (s\<lparr>ufds := (ufds s)(f \<mapsto> g x)\<rparr>)
   }"

text \<open>One event of \<open>epoll_wait\<close>: the entry of \<open>cur_fds\<close> for it.\<close>

definition fetch_event :: "nat option \<times> 32 word \<Rightarrow> uloop \<Rightarrow> ((nat option \<times> 32 word) \<times> uloop) option" where
  "fetch_event e s =
     (case e of
       (None, _) \<Rightarrow> Some ((None, 0), s)
     | (Some f, events) \<Rightarrow> do {
         s \<leftarrow>
           (if events AND (EPOLLERR OR EPOLLHUP) \<noteq> 0 then do {
              s \<leftarrow> upd_fd f (\<lambda>x. x\<lparr>f_error := True\<rparr>) s;
              x \<leftarrow> ufds s f;
              if ucast (f_flags x) AND ULOOP_ERROR_CB = 0 then map_option snd (uloop_fd_delete f s) else Some s
            }
            else Some s);
         if events AND (EPOLLRDHUP OR EPOLLIN OR EPOLLOUT OR EPOLLERR OR EPOLLHUP) = 0 then Some ((None, 0), s)
         else do {
           s \<leftarrow> (if events AND EPOLLRDHUP \<noteq> 0 then upd_fd f (\<lambda>x. x\<lparr>f_eof := True\<rparr>) s else Some s);
           Some ((Some f,
             (if events AND EPOLLIN \<noteq> 0 then ULOOP_READ else 0) OR (if events AND EPOLLOUT \<noteq> 0 then ULOOP_WRITE else 0)), s)
         }
       })"

fun fetch_each :: "(nat option \<times> 32 word) list \<Rightarrow> uloop \<Rightarrow> ((nat option \<times> 32 word) list \<times> uloop) option" where
  "fetch_each [] s = Some ([], s)"
| "fetch_each (e # es) s = do {
     (c, s) \<leftarrow> fetch_event e s;
     (cs, s) \<leftarrow> fetch_each es s;
     Some (c # cs, s)
   }"

text \<open>
  The events fetched, none when \<open>epoll_wait\<close> fails. It waits for ever when the script has ended and there is no
  time limit; with a limit it returns no event.
\<close>

definition uloop_fetch_events :: "int \<Rightarrow> uloop \<Rightarrow> ((nat option \<times> 32 word) list \<times> uloop) option" where
  "uloop_fetch_events timeout s =
     (case polls s of
       [] \<Rightarrow> if timeout < 0 then None else Some ([], s)
     | r # rs \<Rightarrow> fetch_each (case r of None \<Rightarrow> [] | Some es \<Rightarrow> es) (s\<lparr>polls := rs\<rparr>))"

partial_function (option) fd_loop :: "callbacks \<Rightarrow> nat \<Rightarrow> 32 word \<Rightarrow> uloop \<Rightarrow> uloop option" where
  "fd_loop cb f events s =
     (case fd_stack s of
       [] \<Rightarrow> None
     | (g, _) # st \<Rightarrow> do {
         s \<leftarrow> ucall_cb cb (Fd_cb f events) (s\<lparr>fd_stack := (g, 0) # st\<rparr>);
         case fd_stack s of
           [] \<Rightarrow> None
         | (g, e) # st \<Rightarrow>
             (let events = e AND ULOOP_EVENT_MASK in
              if g \<noteq> None \<and> events \<noteq> 0 then fd_loop cb f events s else Some s)
       })"

partial_function (option) run_next :: "callbacks \<Rightarrow> uloop \<Rightarrow> uloop option" where
  "run_next cb s =
     (case cur_fds s of
       [] \<Rightarrow> Some s
     | (fd, events) # rest \<Rightarrow> (
         let s = s\<lparr>cur_fds := rest\<rparr> in
         case fd of
           None \<Rightarrow> run_next cb s
         | Some f \<Rightarrow> do {
             x \<leftarrow> ufds s f;
             if \<not> f_cb x then run_next cb s
             else do {
               (stacked, s) \<leftarrow> uloop_fd_stack_event f (sint events) s;
               if stacked then run_next cb s
               else do {
                 s \<leftarrow> fd_loop cb f events (s\<lparr>fd_stack := (Some f, 0) # fd_stack s\<rparr>);
                 Some (s\<lparr>fd_stack := tl (fd_stack s)\<rparr>)
               }
             }
           }))"

definition uloop_run_events :: "callbacks \<Rightarrow> int \<Rightarrow> uloop \<Rightarrow> uloop option" where
  "uloop_run_events cb timeout s = do {
     s \<leftarrow>
       (if cur_fds s = [] then do {
          (es, s) \<leftarrow> uloop_fetch_events timeout s;
          Some (s\<lparr>cur_fds := es\<rparr>)
        }
        else Some s);
     run_next cb s
   }"

section \<open>Signals\<close>

definition uloop_handle_sigint :: "uloop \<Rightarrow> uloop" where
  "uloop_handle_sigint s = s\<lparr>cancelled := True\<rparr>"

definition uloop_sigchld :: "uloop \<Rightarrow> uloop" where
  "uloop_sigchld s = s\<lparr>do_sigchld := True\<rparr>"

definition uloop_install_handler :: "signal \<Rightarrow> sighandler \<Rightarrow> bool \<Rightarrow> uloop \<Rightarrow> uloop" where
  "uloop_install_handler signum handler add s =
     (if add then
        if sigs s signum = SIG_DFL then
          s\<lparr>old_sigs := (old_sigs s)(signum := sigs s signum), sigs := (sigs s)(signum := handler)\<rparr>
        else s
      else if sigs s signum = handler then s\<lparr>sigs := (sigs s)(signum := old_sigs s signum)\<rparr>
      else s)"

text \<open>\<open>new_handler\<close> starts as \<open>NULL\<close>, and \<open>SIG_DFL\<close> is the same null pointer.\<close>

definition uloop_ignore_signal :: "signal \<Rightarrow> bool \<Rightarrow> uloop \<Rightarrow> uloop" where
  "uloop_ignore_signal signum ignore s = (
     let null = SIG_DFL;
         new_handler =
           (if ignore then (if sigs s signum = SIG_DFL then SIG_IGN else null)
            else (if sigs s signum = SIG_IGN then SIG_DFL else null))
     in if new_handler \<noteq> null then s\<lparr>sigs := (sigs s)(signum := new_handler)\<rparr> else s)"

definition uloop_setup_signals :: "bool \<Rightarrow> uloop \<Rightarrow> uloop" where
  "uloop_setup_signals add s = (
     let s = uloop_install_handler SIGINT Handle_sigint add s;
         s = uloop_install_handler SIGTERM Handle_sigint add s;
         s = uloop_install_handler SIGCHLD Handle_sigchld add s
     in uloop_ignore_signal SIGPIPE add s)"

section \<open>The loop\<close>

definition uloop_end :: "uloop \<Rightarrow> uloop" where
  "uloop_end s = s\<lparr>cancelled := True\<rparr>"

partial_function (option) run_loop :: "callbacks \<Rightarrow> uloop \<Rightarrow> uloop option" where
  "run_loop cb s =
     (if cancelled s then Some s
      else do {
        let (tv, s) = uloop_gettime s;
        s \<leftarrow> uloop_process_timeouts cb tv s;
        s \<leftarrow> (if do_sigchld s then uloop_handle_processes cb s else Some s);
        if cancelled s then Some s
        else do {
          let (tv, s) = uloop_gettime s;
          n \<leftarrow> uloop_get_next_timeout tv s;
          s \<leftarrow> uloop_run_events cb n s;
          run_loop cb s
        }
      })"

definition uloop_run :: "callbacks \<Rightarrow> uloop \<Rightarrow> uloop option" where
  "uloop_run cb s = do {
     let s = (if recursive_calls s = 0 then uloop_setup_signals True s else s);
     s \<leftarrow> run_loop cb (s\<lparr>recursive_calls := recursive_calls s + 1, cancelled := False\<rparr>);
     let s = s\<lparr>recursive_calls := recursive_calls s - 1\<rparr>;
     Some (if recursive_calls s = 0 then uloop_setup_signals False s else s)
   }"

definition uloop_done :: "uloop \<Rightarrow> uloop option" where
  "uloop_done s =
     (if poll_fd s < 0 then Some s
      else do {
        s \<leftarrow> uloop_clear_timeouts (s\<lparr>poll_fd := -1\<rparr>);
        uloop_clear_processes s
      })"


section \<open>Queues in order\<close>

text \<open>
  Timers and processes are kept in the same way: a new entry goes before the first that is later. The interface: a
  relation \<open>later\<close> on keys, which need not be transitive, since timers less than a millisecond apart count as
  simultaneous; what the queues need of it are the two laws below.
\<close>

locale ordered_queue =
  fixes later :: "'k \<Rightarrow> 'k \<Rightarrow> bool" and valid :: "'k \<Rightarrow> bool"
  assumes asym: "valid a \<Longrightarrow> valid b \<Longrightarrow> later a b \<Longrightarrow> \<not> later b a"
    and shift: "valid a \<Longrightarrow> valid b \<Longrightarrow> valid c \<Longrightarrow> later a b \<Longrightarrow> \<not> later a c \<Longrightarrow> \<not> later b c"
begin

definition in_order :: "('a \<Rightarrow> 'k) \<Rightarrow> 'a list \<Rightarrow> bool" where
  "in_order key xs \<longleftrightarrow> (\<forall>x\<in>set xs. valid (key x)) \<and> sorted_wrt (\<lambda>x y. \<not> later (key x) (key y)) xs"

fun place :: "('a \<Rightarrow> 'k) \<Rightarrow> 'k \<Rightarrow> 'a \<Rightarrow> 'a list \<Rightarrow> 'a list" where
  "place key k x [] = [x]"
| "place key k x (y # ys) = (if later (key y) k then x # y # ys else y # place key k x ys)"

lemma set_place: "set (place key k x xs) = insert x (set xs)"
  by (induction xs) auto

lemma distinct_place: "x \<notin> set xs \<Longrightarrow> distinct xs \<Longrightarrow> distinct (place key k x xs)"
  by (induction xs) (auto simp: set_place)

lemma in_order_place: "in_order key xs \<Longrightarrow> valid (key x) \<Longrightarrow> in_order key (place key (key x) x xs)"
proof (induction xs)
  case (Cons y ys)
  have y: "valid (key y)" "\<forall>z\<in>set ys. valid (key z) \<and> \<not> later (key y) (key z)" "in_order key ys"
    using Cons.prems(1) by (auto simp: in_order_def)
  show ?case
  proof (cases "later (key y) (key x)")
    case True
    then have "\<not> later (key x) (key z)" if "z \<in> set (y # ys)" for z
      using that y asym [OF y(1) Cons.prems(2)] shift [OF y(1) Cons.prems(2)] by auto
    with True Cons.prems show ?thesis by (auto simp: in_order_def)
  next
    case False
    with Cons.IH [OF y(3) Cons.prems(2)] y show ?thesis by (auto simp: in_order_def set_place)
  qed
qed (simp add: in_order_def)

lemma in_order_subseq: "in_order key (xs @ x # ys) \<Longrightarrow> in_order key (xs @ ys)"
  by (auto simp: in_order_def sorted_wrt_append)

lemma in_order_remove1: "in_order key xs \<Longrightarrow> in_order key (remove1 x xs)"
  using in_order_subseq by (cases "x \<in> set xs") (auto simp: remove1_append remove1_idem dest!: split_list_first)

text \<open>The entries that are not later than \<open>k\<close> come first; none of the others is earlier than \<open>k\<close>.\<close>

lemma in_order_rest:
  assumes "in_order key xs" and "valid k" and "y \<in> set (dropWhile (\<lambda>x. \<not> later (key x) k) xs)"
  shows "\<not> later k (key y)"
  using assms
proof (induction xs)
  case (Cons x xs)
  have x: "valid (key x)" "\<forall>z\<in>set xs. valid (key z) \<and> \<not> later (key x) (key z)" "in_order key xs"
    using Cons.prems(1) by (auto simp: in_order_def)
  show ?case
  proof (cases "later (key x) k")
    case True
    with Cons.prems(3) x asym [OF x(1) Cons.prems(2) True] shift [OF x(1) Cons.prems(2) _ True] show ?thesis by auto
  next
    case False
    with Cons.IH [OF x(3)] Cons.prems show ?thesis by simp
  qed
qed simp

end

text \<open>
  The difference of two times in milliseconds, when it fits in an \<open>int\<close>; \<open>usecs\<close> is a time in microseconds. All
  times considered lie in a window of 2147480 seconds, almost 25 days.
\<close>

definition usecs :: "timeval \<Rightarrow> int" where
  "usecs t = tv_sec t * 1000000 + tv_usec t"

definition in_window :: "int \<Rightarrow> timeval \<Rightarrow> bool" where
  "in_window base t \<longleftrightarrow> base \<le> tv_sec t \<and> tv_sec t \<le> base + 2147480 \<and> - 1000000 \<le> tv_usec t \<and> tv_usec t \<le> 1000000"

lemma sdiv_1000: "1000 * ((a :: int) sdiv 1000) \<le> a + 999" "a - 999 \<le> 1000 * (a sdiv 1000)"
  by (cases "0 \<le> a"; simp add: signed_divide_int_def sgn_if abs_if; linarith)+

lemma sdiv_parts:
  obtains r where "(x :: int) = 1000 * (x sdiv 1000) + r" "\<bar>r\<bar> < 1000" "0 \<le> x \<longrightarrow> 0 \<le> r" "x \<le> 0 \<longrightarrow> r \<le> 0"
proof
  show "x = 1000 * (x sdiv 1000) + (x - 1000 * (x sdiv 1000))" by simp
  show "\<bar>x - 1000 * (x sdiv 1000)\<bar> < 1000" using sdiv_1000 [of x] by linarith
  show "0 \<le> x \<longrightarrow> 0 \<le> x - 1000 * (x sdiv 1000)" "x \<le> 0 \<longrightarrow> x - 1000 * (x sdiv 1000) \<le> 0"
    by (simp_all add: signed_divide_int_def sgn_if abs_if) linarith+
qed

lemma sdiv_diff: "((x :: int) - y) sdiv 1000 \<le> x sdiv 1000 - y sdiv 1000 + 1"
proof -
  obtain r where r: "x = 1000 * (x sdiv 1000) + r" "\<bar>r\<bar> < 1000" "0 \<le> x \<longrightarrow> 0 \<le> r" "x \<le> 0 \<longrightarrow> r \<le> 0" by (rule sdiv_parts [of x])
  obtain q where q: "y = 1000 * (y sdiv 1000) + q" "\<bar>q\<bar> < 1000" "0 \<le> y \<longrightarrow> 0 \<le> q" "y \<le> 0 \<longrightarrow> q \<le> 0" by (rule sdiv_parts [of y])
  obtain p where p: "x - y = 1000 * ((x - y) sdiv 1000) + p" "\<bar>p\<bar> < 1000" "0 \<le> x - y \<longrightarrow> 0 \<le> p" by (rule sdiv_parts [of "x - y"])
  show ?thesis
  proof (cases "0 \<le> x \<and> y \<le> 0")
    case True
    with p r(1,2) q(1,2) show ?thesis by linarith
  next
    case False
    with p(1,2) r q show ?thesis by (cases "0 \<le> x"; cases "y \<le> 0"; simp; linarith)
  qed
qed

lemma tv_diff_window:
  assumes "in_window base a" and "in_window base b"
  shows "tv_diff a b = (tv_sec a - tv_sec b) * 1000 + (tv_usec a - tv_usec b) sdiv 1000"
proof -
  define d where "d = (tv_usec a - tv_usec b) sdiv 1000"
  have "1000 * d \<le> 2000999" "- 2000999 \<le> 1000 * d"
    using assms sdiv_1000 [of "tv_usec a - tv_usec b"] unfolding d_def [symmetric] in_window_def by linarith+
  then show ?thesis
    using assms unfolding tv_diff_def in_window_def d_def [symmetric] by (intro to_int32_id) auto
qed

lemma tv_diff_bounds:
  assumes "in_window base a" and "in_window base b"
  shows "1000 * tv_diff a b \<le> usecs a - usecs b + 999" and "usecs a - usecs b - 999 \<le> 1000 * tv_diff a b"
  using sdiv_1000 [of "tv_usec a - tv_usec b"] by (simp_all add: tv_diff_window [OF assms] usecs_def algebra_simps)

interpretation timer_queue: ordered_queue "\<lambda>a b. tv_diff a b > 0" "in_window base" for base
proof (unfold_locales, goal_cases)
  case (1 a b)
  have "(tv_usec b - tv_usec a) sdiv 1000 = - ((tv_usec a - tv_usec b) sdiv 1000)"
    by (simp add: signed_divide_int_def sgn_if abs_if)
  with 1 show ?case by (simp add: tv_diff_window [OF 1(1,2)] tv_diff_window [OF 1(2,1)])
next
  case (2 a b c)
  have "(tv_usec b - tv_usec c) sdiv 1000 \<le> (tv_usec a - tv_usec c) sdiv 1000 - (tv_usec a - tv_usec b) sdiv 1000 + 1"
    using sdiv_diff [of "tv_usec a - tv_usec c" "tv_usec a - tv_usec b"] by simp
  with 2(4,5) show ?case by (simp add: tv_diff_window [OF 2(1,2)] tv_diff_window [OF 2(1,3)] tv_diff_window [OF 2(2,3)])
qed

interpretation process_queue: ordered_queue "\<lambda>a b. a > (b :: int)" "\<lambda>_. True"
  by unfold_locales auto

section \<open>The invariant of the timers\<close>

definition time_of :: "uloop \<Rightarrow> nat \<Rightarrow> timeval" where
  "time_of s t = t_time (the (tmo s t))"

definition timers_ok :: "int \<Rightarrow> uloop \<Rightarrow> bool" where
  "timers_ok base s \<longleftrightarrow>
     distinct (timeouts s) \<and> timer_queue.in_order base (time_of s) (timeouts s) \<and>
     (\<forall>t. t \<in> set (timeouts s) \<longleftrightarrow> (\<exists>x. tmo s t = Some x \<and> t_pending x))"

lemma timers_okD: "timers_ok base s \<Longrightarrow> t \<in> set (timeouts s) \<Longrightarrow> \<exists>x. tmo s t = Some x \<and> t_pending x"
  by (simp add: timers_ok_def)

lemma in_order_cong: "(\<And>t. t \<in> set l \<Longrightarrow> f t = g t) \<Longrightarrow> timer_queue.in_order base f l = timer_queue.in_order base g l"
  by (induction l) (auto simp: timer_queue.in_order_def)

lemma place_timeout_ok:
  "set l \<subseteq> dom M \<Longrightarrow> place_timeout M tm t l = Some (timer_queue.place (\<lambda>u. t_time (the (M u))) tm t l)"
  by (induction l) auto

lemma timer_add_ok:
  assumes ok: "timers_ok base s" and x: "tmo s t = Some x" "\<not> t_pending x" and w: "in_window base (t_time x)"
  shows "\<exists>s'. uloop_timeout_add t s = Some (0, s') \<and> timers_ok base s' \<and> set (timeouts s') = insert t (set (timeouts s)) \<and>
    tmo s' = (tmo s)(t \<mapsto> x\<lparr>t_pending := True\<rparr>)"
proof -
  let ?l = "timer_queue.place (time_of s) (t_time x) t (timeouts s)"
  have "set (timeouts s) \<subseteq> dom (tmo s)" using ok by (auto simp: timers_ok_def)
  then have l: "place_timeout (tmo s) (t_time x) t (timeouts s) = Some ?l"
    using place_timeout_ok [of "timeouts s" "tmo s"] unfolding time_of_def by simp
  have t: "t \<notin> set (timeouts s)" "time_of s t = t_time x" using ok x by (auto simp: timers_ok_def time_of_def)
  let ?s = "s\<lparr>timeouts := ?l, tmo := (tmo s)(t \<mapsto> x\<lparr>t_pending := True\<rparr>)\<rparr>"
  have "timer_queue.in_order base (time_of s) ?l"
    using timer_queue.in_order_place [of base "time_of s" "timeouts s" t] ok w t by (simp add: timers_ok_def)
  then have "timer_queue.in_order base (time_of ?s) ?l"
    by (subst in_order_cong [of _ _ "time_of s"]) (use x in \<open>auto simp: time_of_def\<close>)
  then have "timers_ok base ?s"
    using ok t timer_queue.distinct_place [of t "timeouts s"] by (auto simp: timers_ok_def timer_queue.set_place)
  with l x show ?thesis by (auto simp: uloop_timeout_add_def timer_queue.set_place)
qed

lemma timer_cancel_ok:
  assumes ok: "timers_ok base s" and x: "tmo s t = Some x" "t_pending x"
  shows "\<exists>s'. uloop_timeout_cancel t s = Some (0, s') \<and> timers_ok base s' \<and> timeouts s' = remove1 t (timeouts s) \<and>
    tmo s' = (tmo s)(t \<mapsto> x\<lparr>t_pending := False\<rparr>) \<and> s' = s\<lparr>timeouts := timeouts s', tmo := tmo s'\<rparr>"
proof -
  let ?s = "s\<lparr>timeouts := remove1 t (timeouts s), tmo := (tmo s)(t \<mapsto> x\<lparr>t_pending := False\<rparr>)\<rparr>"
  have "timer_queue.in_order base (time_of s) (remove1 t (timeouts s))"
    by (rule timer_queue.in_order_remove1) (use ok in \<open>simp add: timers_ok_def\<close>)
  then have "timer_queue.in_order base (time_of ?s) (remove1 t (timeouts s))"
    by (subst in_order_cong [of _ _ "time_of s"]) (use x in \<open>auto simp: time_of_def\<close>)
  then have "timers_ok base ?s" using ok x by (auto simp: timers_ok_def set_remove1_eq)
  with x show ?thesis by (auto simp: uloop_timeout_cancel_def)
qed

text \<open>The time that \<open>uloop_timeout_set\<close> computes, in microseconds.\<close>

lemma usecs_timeout_time:
  assumes "0 \<le> tv_usec tm" and "tv_usec tm < 1000000"
  shows "usecs (timeout_time tm msecs) = usecs tm + 1000 * msecs"
    and "- 1000000 < tv_usec (timeout_time tm msecs)" and "tv_usec (timeout_time tm msecs) \<le> 1000000"
proof -
  have m: "msecs sdiv 1000 * 1000 + msecs smod 1000 = msecs" by (rule sdiv_mult_smod_eq)
  have b: "\<bar>msecs smod 1000\<bar> < 1000" by (cases "0 \<le> msecs") (auto simp: signed_modulo_int_def sgn_if)
  show "usecs (timeout_time tm msecs) = usecs tm + 1000 * msecs"
    using m by (simp add: usecs_def timeout_time_def Let_def algebra_simps)
  show "- 1000000 < tv_usec (timeout_time tm msecs)" "tv_usec (timeout_time tm msecs) \<le> 1000000"
    using b assms by (auto simp: timeout_time_def Let_def)
qed

lemma in_window_usecs:
  assumes "(base + 1) * 1000000 \<le> usecs t" and "usecs t \<le> (base + 2147479) * 1000000"
    and "- 1000000 < tv_usec t" and "tv_usec t \<le> 1000000"
  shows "in_window base t"
  using assms by (simp add: usecs_def in_window_def)

text \<open>
  C6: Setting and cancelling timers keeps the list of timers in order. The invariant: a timer is in the list, once, exactly
  when it is pending, and no timer in the list is a millisecond or more later than one behind it. When the clock returns
  microseconds below a million, and the time \<open>msecs\<close> milliseconds after it is in a window of almost 25 days,
  \<open>uloop_timeout_set\<close> succeeds, leaves the timer pending with exactly that time, to the microsecond
  (also when it was pending before, with another time), and keeps the invariant and every other timer;
  \<open>uloop_timeout_cancel\<close> takes the timer out and keeps the invariant.
\<close>

theorem timers_stay_ordered:
  assumes "timers_ok base s" and "tmo s t = Some x"
    and "0 \<le> tv_usec (now s (utick s))" and "tv_usec (now s (utick s)) < 1000000"
    and "(base + 1) * 1000000 \<le> usecs (now s (utick s)) + 1000 * msecs"
    and "usecs (now s (utick s)) + 1000 * msecs \<le> (base + 2147479) * 1000000"
  shows "\<exists>s' s'' tm. uloop_timeout_set t msecs s = Some (0, s') \<and> timers_ok base s' \<and>
      set (timeouts s') = insert t (set (timeouts s)) \<and>
      tmo s' = (tmo s)(t \<mapsto> x\<lparr>t_pending := True, t_time := tm\<rparr>) \<and>
      tv_sec tm * 1000000 + tv_usec tm =
        tv_sec (now s (utick s)) * 1000000 + tv_usec (now s (utick s)) + 1000 * msecs \<and> \<bar>tv_usec tm\<bar> \<le> 1000000 \<and>
      uloop_timeout_cancel t s' = Some (0, s'') \<and> timers_ok base s'' \<and> set (timeouts s'') = set (timeouts s) - {t}"
proof -
  let ?tm = "timeout_time (now s (utick s)) msecs"
  note u = usecs_timeout_time [OF assms(3,4), of msecs]
  have w: "in_window base ?tm" by (rule in_window_usecs) (use u assms(5,6) in simp_all)
  obtain s0 where s0: "(if t_pending x then uloop_timeout_cancel t s else Some (0, s)) = Some (0, s0)" "timers_ok base s0"
      "tmo s0 t = Some (x\<lparr>t_pending := False\<rparr>)" "set (timeouts s0) = set (timeouts s) - {t}" "now s0 = now s" "utick s0 = utick s"
      "\<And>u. u \<noteq> t \<Longrightarrow> tmo s0 u = tmo s u"
  proof (cases "t_pending x")
    case True
    from timer_cancel_ok [OF assms(1,2) True] obtain s0 where c: "uloop_timeout_cancel t s = Some (0, s0)" "timers_ok base s0"
        "timeouts s0 = remove1 t (timeouts s)" "tmo s0 = (tmo s)(t \<mapsto> x\<lparr>t_pending := False\<rparr>)"
        "s0 = s\<lparr>timeouts := timeouts s0, tmo := tmo s0\<rparr>" by blast
    have "now s0 = now s" "utick s0 = utick s" using arg_cong [OF c(5), of now] arg_cong [OF c(5), of utick] by simp_all
    with c True assms(1) show ?thesis by (intro that [of s0]) (auto simp: timers_ok_def set_remove1_eq)
  next
    case False
    then have "x\<lparr>t_pending := False\<rparr> = x" by (cases x) simp
    with False assms(1,2) show ?thesis by (intro that [of s]) (auto simp: timers_ok_def)
  qed
  let ?x = "x\<lparr>t_pending := False, t_time := ?tm\<rparr>"
  let ?s1 = "s0\<lparr>utick := utick s0 + 1, tmo := (tmo s0)(t \<mapsto> ?x)\<rparr>"
  have "timer_queue.in_order base (time_of ?s1) (timeouts s0)"
    using s0(2,4) by (subst in_order_cong [of _ _ "time_of s0"]) (auto simp: time_of_def timers_ok_def)
  then have ok1: "timers_ok base ?s1" using s0(2,4) by (auto simp: timers_ok_def)
  obtain s' where s': "uloop_timeout_add t ?s1 = Some (0, s')" "timers_ok base s'" "set (timeouts s') = insert t (set (timeouts s0))"
      "tmo s' = (tmo ?s1)(t \<mapsto> ?x\<lparr>t_pending := True\<rparr>)"
    using timer_add_ok [OF ok1, of t ?x] w by auto
  have set: "uloop_timeout_set t msecs s = Some (0, s')"
    using s0(1,3,5,6) s'(1) assms(2) by (simp add: uloop_timeout_set_def uloop_gettime_def)
  have t: "tmo s' = (tmo s)(t \<mapsto> x\<lparr>t_pending := True, t_time := ?tm\<rparr>)" using s'(4) s0(7) by (auto simp: fun_eq_iff)
  then obtain s'' where c: "uloop_timeout_cancel t s' = Some (0, s'')" "timers_ok base s''" "timeouts s'' = remove1 t (timeouts s')"
    using timer_cancel_ok [OF s'(2), of t "x\<lparr>t_pending := True, t_time := ?tm\<rparr>"] by auto
  then have "set (timeouts s'') = set (timeouts s) - {t}" using s'(2,3) s0(4) by (auto simp: timers_ok_def set_remove1_eq)
  moreover have "set (timeouts s') = insert t (set (timeouts s))" using s'(3) s0(4) by auto
  ultimately show ?thesis using set s'(2) t c u unfolding usecs_def by (intro exI [of _ s'] exI [of _ s''] exI [of _ ?tm]) simp
qed

section \<open>Running timers\<close>

text \<open>Callbacks that return and do not touch the timers.\<close>

definition timer_inert :: "callbacks \<Rightarrow> bool" where
  "timer_inert cb \<longleftrightarrow> (\<forall>c s. \<exists>s'. cb c s = Some s' \<and> timeouts s' = timeouts s \<and> tmo s' = tmo s \<and> called s' = called s)"

lemma run_timer:
  assumes ok: "timers_ok base s" and l: "timeouts s = t # ts" and x: "tmo s t = Some x" and d: "tv_diff (t_time x) tv \<le> 0"
    and cb: "timer_inert cb"
  obtains s1 where "uloop_process_timeouts cb tv s = uloop_process_timeouts cb tv s1" "timers_ok base s1" "timeouts s1 = ts"
    "tmo s1 = (tmo s)(t \<mapsto> x\<lparr>t_pending := False\<rparr>)" "called s1 = called s @ (if t_cb x then [Timeout_cb t] else [])"
proof -
  have p: "t_pending x" using timers_okD [OF ok, of t] l x by auto
  obtain s0 where s0: "uloop_timeout_cancel t s = Some (0, s0)" "timers_ok base s0" "timeouts s0 = ts"
      "tmo s0 = (tmo s)(t \<mapsto> x\<lparr>t_pending := False\<rparr>)" "s0 = s\<lparr>timeouts := timeouts s0, tmo := tmo s0\<rparr>"
    using timer_cancel_ok [OF ok x p] l by auto
  have c: "called s0 = called s" using arg_cong [OF s0(5), of called] by simp
  obtain s1 where s1: "(if t_cb x then ucall_cb cb (Timeout_cb t) s0 else Some s0) = Some s1" "timeouts s1 = timeouts s0" "tmo s1 = tmo s0"
      "called s1 = called s @ (if t_cb x then [Timeout_cb t] else [])"
    using cb c unfolding timer_inert_def ucall_cb_def
    by (cases "t_cb x") (auto, metis uloop.select_convs(1,3,20) uloop.surjective uloop.update_convs(20))
  have "timers_ok base s1" using s0(2) s1(2,3) unfolding timers_ok_def time_of_def by simp
  moreover have "uloop_process_timeouts cb tv s = uloop_process_timeouts cb tv s1"
    using l x d s0(1) s1(1) by (subst uloop_process_timeouts.simps) simp
  ultimately show thesis using that s1 s0 by simp
qed

lemma process_timeouts_ok:
  assumes "timers_ok base s" and "timer_inert cb"
  shows "\<exists>s'. uloop_process_timeouts cb tv s = Some s' \<and> timers_ok base s' \<and>
    timeouts s' = dropWhile (\<lambda>t. tv_diff (time_of s t) tv \<le> 0) (timeouts s) \<and>
    called s' = called s @ map Timeout_cb (filter (\<lambda>t. t_cb (the (tmo s t))) (takeWhile (\<lambda>t. tv_diff (time_of s t) tv \<le> 0) (timeouts s))) \<and>
    time_of s' = time_of s"
  using assms
proof (induction "timeouts s" arbitrary: s)
  case Nil
  then show ?case by (subst uloop_process_timeouts.simps) (auto simp: eq_commute [of "[]"])
next
  case (Cons t ts)
  obtain x where x: "tmo s t = Some x" using timers_okD [OF Cons.prems(1), of t] Cons.hyps(2) [symmetric] by auto
  have tx: "time_of s t = t_time x" using x by (simp add: time_of_def)
  note l = Cons.hyps(2) [symmetric]
  show ?case
  proof (cases "tv_diff (t_time x) tv \<le> 0")
    case False
    then have "uloop_process_timeouts cb tv s = Some s" using l x by (subst uloop_process_timeouts.simps) simp
    then show ?thesis using Cons.prems(1) l tx False by simp
  next
    case True
    obtain s1 where s1: "uloop_process_timeouts cb tv s = uloop_process_timeouts cb tv s1" "timers_ok base s1" "timeouts s1 = ts"
        "tmo s1 = (tmo s)(t \<mapsto> x\<lparr>t_pending := False\<rparr>)" "called s1 = called s @ (if t_cb x then [Timeout_cb t] else [])"
      by (rule run_timer [OF Cons.prems(1) l x True Cons.prems(2)])
    have time: "time_of s1 = time_of s" using x s1(4) by (auto simp: time_of_def fun_eq_iff)
    have nt: "t \<notin> set ts" using Cons.prems(1) l by (simp add: timers_ok_def)
    have f: "filter (\<lambda>u. t_cb (the (tmo s1 u))) (takeWhile P ts) = filter (\<lambda>u. t_cb (the (tmo s u))) (takeWhile P ts)" for P
      by (rule filter_cong) (use nt s1(4) in \<open>auto dest: set_takeWhileD\<close>)
    from Cons.hyps(1) [OF s1(3) [symmetric] s1(2) Cons.prems(2)] obtain s' where "uloop_process_timeouts cb tv s1 = Some s'" "timers_ok base s'"
        "timeouts s' = dropWhile (\<lambda>t. tv_diff (time_of s t) tv \<le> 0) ts" "time_of s' = time_of s"
        "called s' = called s1 @ map Timeout_cb (filter (\<lambda>t. t_cb (the (tmo s t))) (takeWhile (\<lambda>t. tv_diff (time_of s t) tv \<le> 0) ts))"
      unfolding s1(3) time f by blast
    with s1(1,5) l tx True x show ?thesis by auto
  qed
qed

text \<open>
  C7: \<open>uloop_process_timeouts\<close> returns, and the timers it runs are the due ones. It calls, in the order of the list, the
  callbacks of a first part of the timers and leaves the others pending; no timer is run a millisecond or more
  before its time, and none that is overdue by a millisecond or more is left. (The callbacks themselves leave the timers
  alone here; one that sets its own timer again with no delay can keep the loop busy.)
\<close>

theorem due_timers_run:
  assumes "timers_ok base s" and "timer_inert cb" and "in_window base tv"
  shows "\<exists>s' fired. uloop_process_timeouts cb tv s = Some s' \<and> timers_ok base s' \<and> timeouts s = fired @ timeouts s' \<and>
    called s' = called s @ map Timeout_cb (filter (\<lambda>t. t_cb (the (tmo s t))) fired) \<and>
    (\<forall>t\<in>set fired. usecs (time_of s t) < usecs tv + 1000) \<and>
    (\<forall>t\<in>set (timeouts s'). usecs tv < usecs (time_of s t) + 1000)"
proof -
  let ?due = "\<lambda>t. tv_diff (time_of s t) tv \<le> 0"
  obtain s' where s': "uloop_process_timeouts cb tv s = Some s'" "timers_ok base s'" "timeouts s' = dropWhile ?due (timeouts s)"
      "called s' = called s @ map Timeout_cb (filter (\<lambda>t. t_cb (the (tmo s t))) (takeWhile ?due (timeouts s)))"
    using process_timeouts_ok [OF assms(1,2)] by blast
  have w: "in_window base (time_of s t)" if "t \<in> set (timeouts s)" for t
    using assms(1) that by (auto simp: timers_ok_def timer_queue.in_order_def)
  have "usecs (time_of s t) < usecs tv + 1000" if "t \<in> set (takeWhile ?due (timeouts s))" for t
    using set_takeWhileD [OF that] tv_diff_bounds(2) [OF w assms(3)] by fastforce
  moreover have "usecs tv < usecs (time_of s t) + 1000" if t: "t \<in> set (dropWhile ?due (timeouts s))" for t
  proof -
    have "\<not> tv_diff tv (time_of s t) > 0"
      using timer_queue.in_order_rest [of base "time_of s" "timeouts s" tv t] assms(1,3) t by (simp add: timers_ok_def not_less)
    then show ?thesis using tv_diff_bounds(2) [OF assms(3) w [OF set_dropWhileD [OF t]]] by linarith
  qed
  ultimately show ?thesis
    using s' by (intro exI [of _ s'] exI [of _ "takeWhile ?due (timeouts s)"]) auto
qed

text \<open>A loop with two timers, the later one set first, and callbacks that do nothing.\<close>

definition idle_loop :: uloop where
  "idle_loop = \<lparr>timeouts = [], processes = [], tmo = [1 \<mapsto> \<lparr>t_pending = False, t_cb = True, t_time = \<lparr>tv_sec = 0, tv_usec = 0\<rparr>\<rparr>,
       2 \<mapsto> \<lparr>t_pending = False, t_cb = True, t_time = \<lparr>tv_sec = 0, tv_usec = 0\<rparr>\<rparr>],
     proc = Map.empty, ufds = Map.empty, fd_stack = [], cur_fds = [], poll_fd = 3, cancelled = False, do_sigchld = False, recursive_calls = 0,
     sigs = (\<lambda>_. SIG_DFL), old_sigs = (\<lambda>_. SIG_DFL), utick = 0, now = (\<lambda>n. \<lparr>tv_sec = 10 + int n, tv_usec = 0\<rparr>), ctl = (\<lambda>_. 0), ctls = [],
     polls = [], waits = [], called = []\<rparr>"

definition no_callbacks :: callbacks where
  "no_callbacks c s = Some s"

lemma idle_loop_ok: "timers_ok 0 idle_loop"
  by (auto simp: timers_ok_def idle_loop_def timer_queue.in_order_def split: if_splits)

theorem timers_stay_ordered_witness:
  "\<exists>s' s'' tm. uloop_timeout_set 1 2500 idle_loop = Some (0, s') \<and> timers_ok 0 s' \<and> set (timeouts s') = {1} \<and>
    map_option t_time (tmo s' 1) = Some tm \<and> tv_sec tm * 1000000 + tv_usec tm = 12500000 \<and>
    uloop_timeout_cancel 1 s' = Some (0, s'') \<and> timers_ok 0 s'' \<and> set (timeouts s'') = {}"
proof -
  have n: "now idle_loop (utick idle_loop) = \<lparr>tv_sec = 10, tv_usec = 0\<rparr>" by (simp add: idle_loop_def)
  have t: "tmo idle_loop 1 = Some \<lparr>t_pending = False, t_cb = True, t_time = \<lparr>tv_sec = 0, tv_usec = 0\<rparr>\<rparr>" "timeouts idle_loop = []"
    by (simp_all add: idle_loop_def)
  show ?thesis using timers_stay_ordered [OF idle_loop_ok t(1), of 2500] unfolding n t(2) usecs_def by fastforce
qed

theorem due_timers_run_witness:
  "\<exists>s' fired. uloop_process_timeouts no_callbacks \<lparr>tv_sec = 12, tv_usec = 0\<rparr> (idle_loop\<lparr>timeouts := [2, 1],
      tmo := [1 \<mapsto> \<lparr>t_pending = True, t_cb = True, t_time = \<lparr>tv_sec = 20, tv_usec = 0\<rparr>\<rparr>,
        2 \<mapsto> \<lparr>t_pending = True, t_cb = True, t_time = \<lparr>tv_sec = 11, tv_usec = 0\<rparr>\<rparr>]\<rparr>) = Some s' \<and> [2, 1] = fired @ timeouts s'"
proof -
  let ?s = "idle_loop\<lparr>timeouts := [2, 1], tmo := [1 \<mapsto> \<lparr>t_pending = True, t_cb = True, t_time = \<lparr>tv_sec = 20, tv_usec = 0\<rparr>\<rparr>,
        2 \<mapsto> \<lparr>t_pending = True, t_cb = True, t_time = \<lparr>tv_sec = 11, tv_usec = 0\<rparr>\<rparr>]\<rparr>"
  have "tv_diff \<lparr>tv_sec = 11, tv_usec = 0\<rparr> \<lparr>tv_sec = 20, tv_usec = 0\<rparr> \<le> 0"
    by (simp add: tv_diff_def to_int32_def signed_divide_int_def)
  then have "timer_queue.in_order 0 (time_of ?s) [2, 1]"
    by (simp add: timer_queue.in_order_def time_of_def in_window_def)
  then have "timers_ok 0 ?s" by (auto simp: timers_ok_def)
  moreover have "timer_inert no_callbacks" "in_window 0 \<lparr>tv_sec = 12, tv_usec = 0\<rparr>" by (auto simp: timer_inert_def no_callbacks_def in_window_def)
  ultimately show ?thesis using due_timers_run [of 0 ?s no_callbacks "\<lparr>tv_sec = 12, tv_usec = 0\<rparr>"] by auto
qed

section \<open>Exited processes\<close>

definition pid_of :: "uloop \<Rightarrow> nat \<Rightarrow> int" where
  "pid_of s p = p_pid (the (proc s p))"

definition processes_ok :: "uloop \<Rightarrow> bool" where
  "processes_ok s \<longleftrightarrow>
     distinct (processes s) \<and> process_queue.in_order (pid_of s) (processes s) \<and>
     (\<forall>p. p \<in> set (processes s) \<longleftrightarrow> (\<exists>x. proc s p = Some x \<and> p_pending x))"

lemma processes_ok_frame:
  "processes s' = processes s \<Longrightarrow> proc s' = proc s \<Longrightarrow> pid_of s' = pid_of s"
  "processes s' = processes s \<Longrightarrow> proc s' = proc s \<Longrightarrow> processes_ok s' = processes_ok s"
proof -
  show "pid_of s' = pid_of s" if "proc s' = proc s" using that by (simp add: pid_of_def fun_eq_iff)
  then show "processes_ok s' = processes_ok s" if "processes s' = processes s" "proc s' = proc s" using that by (simp add: processes_ok_def)
qed

text \<open>Callbacks that return and do not touch the processes.\<close>

definition process_inert :: "callbacks \<Rightarrow> bool" where
  "process_inert cb \<longleftrightarrow> (\<forall>c s. \<exists>s'. cb c s = Some s' \<and> processes s' = processes s \<and> proc s' = proc s \<and> waits s' = waits s \<and> called s' = called s)"

lemma after_split: "distinct (pre @ q # post) \<Longrightarrow> after q (pre @ q # post) = (case post of [] \<Rightarrow> Head | r # _ \<Rightarrow> At r)"
proof (induction pre)
  case Nil
  then show ?case by (cases post) auto
next
  case (Cons a pre)
  then show ?case by (cases pre) auto
qed

lemma process_delete_ok:
  assumes ok: "processes_ok s" and q: "q \<in> set (processes s)"
  obtains s' where "uloop_process_delete q s = Some (0, s')" "processes_ok s'" "processes s' = remove1 q (processes s)" "pid_of s' = pid_of s"
    "called s' = called s" "waits s' = waits s"
proof -
  obtain x where x: "proc s q = Some x" "p_pending x" using ok q by (auto simp: processes_ok_def)
  let ?s = "s\<lparr>processes := remove1 q (processes s), proc := (proc s)(q \<mapsto> x\<lparr>p_pending := False\<rparr>)\<rparr>"
  have pid: "pid_of ?s = pid_of s" using x by (auto simp: pid_of_def fun_eq_iff)
  have "process_queue.in_order (pid_of s) (remove1 q (processes s))"
    by (rule process_queue.in_order_remove1) (use ok in \<open>simp add: processes_ok_def\<close>)
  then have "processes_ok ?s" using ok x unfolding processes_ok_def pid by (auto simp: set_remove1_eq)
  with x pid show thesis by (intro that [of ?s]) (auto simp: uloop_process_delete_def)
qed

lemma exited_call:
  assumes ok: "processes_ok s" and q: "q \<in> set (processes s)" and cb: "process_inert cb"
  obtains s' where "do { (_, s) \<leftarrow> uloop_process_delete q s; ucall_cb cb (Process_cb q ret) s } = Some s'" "processes_ok s'"
    "processes s' = remove1 q (processes s)" "pid_of s' = pid_of s" "called s' = called s @ [Process_cb q ret]" "waits s' = waits s"
proof -
  obtain s1 where s1: "uloop_process_delete q s = Some (0, s1)" "processes_ok s1" "processes s1 = remove1 q (processes s)" "pid_of s1 = pid_of s"
      "called s1 = called s" "waits s1 = waits s" by (rule process_delete_ok [OF ok q])
  obtain s' where s': "cb (Process_cb q ret) (s1\<lparr>called := called s1 @ [Process_cb q ret]\<rparr>) = Some s'" "processes s' = processes s1"
      "proc s' = proc s1" "waits s' = waits s1" "called s' = called s1 @ [Process_cb q ret]"
    using cb unfolding process_inert_def
    by (metis uloop.select_convs(2,4,19,20) uloop.surjective uloop.update_convs(20))
  have "processes_ok s'" "pid_of s' = pid_of s1" using s1(2) processes_ok_frame [OF s'(2,3)] by simp_all
  with s1 s' show thesis by (intro that [of s']) (simp_all add: ucall_cb_def)
qed

text \<open>The list of processes and the calls after the exit of \<open>pid\<close>; the loop is at the first entry of \<open>post\<close>.\<close>

definition at_first :: "nat list \<Rightarrow> cursor" where
  "at_first l = (case l of [] \<Rightarrow> Head | q # _ \<Rightarrow> At q)"

lemma exited_loop_ok:
  assumes "processes_ok s" and "process_inert cb" and "processes s = pre @ post" and "post \<noteq> [] \<longrightarrow> c = at_first (tl post)"
  shows "\<exists>s'. exited_loop cb pid ret (at_first post) c s = Some s' \<and>
    processes_ok s' \<and> pid_of s' = pid_of s \<and> waits s' = waits s \<and>
    processes s' = pre @ filter (\<lambda>p. pid_of s p \<noteq> pid) post \<and>
    called s' = called s @ map (\<lambda>p. Process_cb p ret) (filter (\<lambda>p. pid_of s p = pid) post)"
  using assms
proof (induction post arbitrary: s pre c)
  case Nil
  then show ?case by (subst exited_loop.simps) (simp add: at_first_def)
next
  case (Cons q post)
  obtain x where x: "proc s q = Some x" "p_pid x = pid_of s q" using Cons.prems(1,3) by (fastforce simp: processes_ok_def pid_of_def)
  have order: "\<forall>p\<in>set post. pid_of s q \<le> pid_of s p" "distinct (pre @ q # post)"
    using Cons.prems(1,3) by (auto simp: processes_ok_def process_queue.in_order_def sorted_wrt_append not_less)
  have c: "c = at_first post" using Cons.prems(4) by simp
  have step: "\<exists>n. next_cursor (pre' @ post) c = Some n \<and> (post \<noteq> [] \<longrightarrow> n = at_first (tl post))" if "distinct (pre' @ post)" for pre'
    using that by (cases post) (auto simp: c at_first_def after_split)
  consider "pid < pid_of s q" | "pid_of s q < pid" | "pid_of s q = pid" by linarith
  then show ?case
  proof cases
    case 1
    then have "filter (\<lambda>p. pid_of s p = pid) (q # post) = []" "filter (\<lambda>p. pid_of s p \<noteq> pid) (q # post) = q # post"
      using order(1) by (auto simp: filter_empty_conv filter_id_conv)
    moreover have "exited_loop cb pid ret (at_first (q # post)) c s = Some s"
      using 1 x by (subst exited_loop.simps) (simp add: at_first_def)
    ultimately show ?thesis using Cons.prems(1,3) by simp
  next
    case 2
    obtain n where n: "next_cursor (processes s) c = Some n" "post \<noteq> [] \<longrightarrow> n = at_first (tl post)"
      using step [of "pre @ [q]"] order(2) Cons.prems(3) by auto
    have "exited_loop cb pid ret (at_first (q # post)) c s = exited_loop cb pid ret c n s"
      using 2 x n(1) by (subst exited_loop.simps) (simp add: at_first_def)
    with Cons.IH [of s "pre @ [q]" n] Cons.prems n(2) c 2 show ?thesis by simp
  next
    case 3
    obtain s1 where s1: "do { (_, s) \<leftarrow> uloop_process_delete q s; ucall_cb cb (Process_cb q ret) s } = Some s1" "processes_ok s1"
        "processes s1 = remove1 q (processes s)" "pid_of s1 = pid_of s" "called s1 = called s @ [Process_cb q ret]" "waits s1 = waits s"
      by (rule exited_call [of s q cb ret]) (use Cons.prems(1-3) in auto)
    have l: "processes s1 = pre @ post" using s1(3) Cons.prems(3) order(2) by (simp add: remove1_append)
    obtain n where n: "next_cursor (processes s1) c = Some n" "post \<noteq> [] \<longrightarrow> n = at_first (tl post)"
      using step [of pre] order(2) l by auto
    have "exited_loop cb pid ret (at_first (q # post)) c s = exited_loop cb pid ret c n s1"
      using 3 x n(1) s1(1) by (subst exited_loop.simps) (simp add: at_first_def)
    with Cons.IH [OF s1(2) Cons.prems(2) l n(2)] c s1(4-6) 3 show ?thesis by simp
  qed
qed

text \<open>One result of \<open>waitpid\<close> after the other: the processes left and the calls made.\<close>

fun reap :: "(nat \<Rightarrow> int) \<Rightarrow> (int \<times> int) list \<Rightarrow> nat list \<Rightarrow> nat list \<times> ucall list" where
  "reap pid [] ps = (ps, [])"
| "reap pid ((child, ret) # ws) ps =
     (if child \<le> 0 then (ps, [])
      else let (ps', cs) = reap pid ws (filter (\<lambda>p. pid p \<noteq> child) ps)
           in (ps', map (\<lambda>p. Process_cb p ret) (filter (\<lambda>p. pid p = child) ps) @ cs))"

lemma waitpid_loop_ok:
  assumes "processes_ok s" and "process_inert cb"
  shows "\<exists>s'. waitpid_loop cb s = Some s' \<and> processes_ok s' \<and> pid_of s' = pid_of s \<and>
    (processes s', called s') = map_prod id (\<lambda>cs. called s @ cs) (reap (pid_of s) (waits s) (processes s))"
  using assms
proof (induction "waits s" arbitrary: s)
  case Nil
  then show ?case by (subst waitpid_loop.simps) (simp add: Nil.hyps [symmetric])
next
  case (Cons w ws)
  obtain child ret where w: "w = (child, ret)" by (cases w)
  note l = Cons.hyps(2) [symmetric]
  let ?s = "s\<lparr>waits := ws\<rparr>"
  have ok: "processes_ok ?s" "pid_of ?s = pid_of s" using Cons.prems(1) processes_ok_frame [of ?s s] by simp_all
  show ?case
  proof (cases "child \<le> 0")
    case True
    then show ?thesis using ok l w by (subst waitpid_loop.simps) simp
  next
    case False
    obtain c where c: "next_cursor (processes s) Head = Some (at_first (processes s))" "next_cursor (processes s) (at_first (processes s)) = Some c"
        "processes s \<noteq> [] \<longrightarrow> c = at_first (tl (processes s))"
      using Cons.prems(1) after_split [of "[]"] by (cases "processes s") (auto simp: at_first_def processes_ok_def)
    obtain s1 where s1: "exited_loop cb child ret (at_first (processes s)) c ?s = Some s1" "processes_ok s1" "pid_of s1 = pid_of s" "waits s1 = ws"
        "processes s1 = filter (\<lambda>p. pid_of s p \<noteq> child) (processes s)"
        "called s1 = called s @ map (\<lambda>p. Process_cb p ret) (filter (\<lambda>p. pid_of s p = child) (processes s))"
      using exited_loop_ok [OF ok(1) Cons.prems(2), of "[]" "processes s" c child ret] c(3) ok(2) by auto
    have "waitpid_loop cb s = waitpid_loop cb s1"
      using False l w c(1,2) s1(1) by (subst waitpid_loop.simps) (simp add: Let_def)
    with Cons.hyps(1) [OF s1(4) [symmetric] s1(2) Cons.prems(2)] s1 l w False show ?thesis
      by (auto simp: split_beta map_prod_def)
  qed
qed

text \<open>
  C8: \<open>uloop_handle_processes\<close> returns, and reports exactly the children that have exited. For every result of
  \<open>waitpid\<close> in turn, up to the first that is not a child, the entries registered for that child are taken from the
  list and their callbacks called with its status, in the order of the list; the other entries stay. The search stops
  at the first larger pid, which misses none because the list is kept in the order of the pids; and the entry that
  the cursor has saved stays valid while the current one is taken out. (The callbacks themselves leave the list
  alone.)
\<close>

theorem exited_children_reported:
  assumes "processes_ok s" and "process_inert cb"
  shows "\<exists>s'. uloop_handle_processes cb s = Some s' \<and> processes_ok s' \<and>
    (processes s', called s') = map_prod id (\<lambda>cs. called s @ cs) (reap (pid_of s) (waits s) (processes s))"
  using waitpid_loop_ok [of "s\<lparr>do_sigchld := False\<rparr>", OF _ assms(2)] assms(1) processes_ok_frame [of "s\<lparr>do_sigchld := False\<rparr>" s]
  by (auto simp: uloop_handle_processes_def)

text \<open>Three entries for the children 20 and 30, two for the second.\<close>

definition sample_processes :: uloop where
  "sample_processes = idle_loop\<lparr>processes := [4, 5, 6], proc := [4 \<mapsto> \<lparr>p_pending = True, p_pid = 20\<rparr>,
     5 \<mapsto> \<lparr>p_pending = True, p_pid = 30\<rparr>, 6 \<mapsto> \<lparr>p_pending = True, p_pid = 30\<rparr>], waits := [(30, 256), (25, 0), (-1, 0)]\<rparr>"

lemma sample_processes_ok: "processes_ok sample_processes"
  by (auto simp: processes_ok_def sample_processes_def process_queue.in_order_def pid_of_def split: if_splits)

theorem exited_children_reported_witness:
  "\<exists>s'. uloop_handle_processes no_callbacks sample_processes = Some s' \<and> processes s' = [4] \<and> called s' = [Process_cb 5 256, Process_cb 6 256]"
proof -
  have "process_inert no_callbacks" by (simp add: process_inert_def no_callbacks_def)
  then show ?thesis
    using exited_children_reported [OF sample_processes_ok, of no_callbacks] by (auto simp: sample_processes_def idle_loop_def pid_of_def)
qed

section \<open>Deleted descriptors and signals\<close>

lemma stack_event_cur_fds: "uloop_fd_stack_event f e s = Some (b, s') \<Longrightarrow> cur_fds s' = cur_fds s"
  by (auto simp: uloop_fd_stack_event_def Option.bind_eq_Some_conv split: if_splits option.splits)

lemma fd_loop_agree:
  assumes "fd_loop cb f events s = Some r" and "\<And>e s. cb (Fd_cb f e) s = cb' (Fd_cb f e) s"
  shows "fd_loop cb' f events s = Some r"
proof -
  have "\<forall>cb'. (\<forall>e s. cb (Fd_cb f e) s = cb' (Fd_cb f e) s) \<longrightarrow> fd_loop cb' f events s = Some r"
    using assms(1)
  proof (induct rule: fd_loop.raw_induct [rotated 1, consumes 1, case_names step])
    case (step loop cb f events s r)
    show ?case
    proof (intro allI impI)
      fix cb'
      assume agree: "\<forall>e s. cb (Fd_cb f e) s = cb' (Fd_cb f e) s"
      then have call: "ucall_cb cb (Fd_cb f e) t = ucall_cb cb' (Fd_cb f e) t" for e t by (simp add: ucall_cb_def)
      have "loop cb f e t = Some r \<Longrightarrow> fd_loop cb' f e t = Some r" for e t using step(1) agree by blast
      then show "fd_loop cb' f events s = Some r"
        using step(2) by (subst fd_loop.simps) (auto simp: call Let_def split: list.splits if_splits Option.bind_split_asm)
    qed
  qed
  with assms(2) show ?thesis by blast
qed

lemma run_next_agree:
  assumes "run_next cb s = Some r" and "Some f \<notin> fst ` set (cur_fds s)" and "\<And>g e s. g \<noteq> f \<Longrightarrow> cb (Fd_cb g e) s = cb' (Fd_cb g e) s"
  shows "run_next cb' s = Some r"
proof -
  have "\<forall>cb'. Some f \<notin> fst ` set (cur_fds s) \<longrightarrow> (\<forall>g e s. g \<noteq> f \<longrightarrow> cb (Fd_cb g e) s = cb' (Fd_cb g e) s) \<longrightarrow> run_next cb' s = Some r"
    using assms(1)
  proof (induct rule: run_next.raw_induct [rotated 1, consumes 1, case_names step])
    case (step loop cb s r)
    show ?case
    proof (intro allI impI)
      fix cb'
      assume cur: "Some f \<notin> fst ` set (cur_fds s)" and agree: "\<forall>g e s. g \<noteq> f \<longrightarrow> cb (Fd_cb g e) s = cb' (Fd_cb g e) s"
      have "loop cb t = Some r \<Longrightarrow> Some f \<notin> fst ` set (cur_fds t) \<Longrightarrow> run_next cb' t = Some r" for t using step(1) agree by blast
      moreover have "fd_loop cb g e t = Some u \<Longrightarrow> g \<noteq> f \<Longrightarrow> fd_loop cb' g e t = Some u" for g e t u
        using fd_loop_agree [of cb g e t u cb'] agree by blast
      ultimately show "run_next cb' s = Some r"
        using step(2) cur by (subst run_next.simps)
          (auto simp: Let_def split: list.splits option.splits if_splits Option.bind_split_asm dest!: stack_event_cur_fds)
    qed
  qed
  with assms(2,3) show ?thesis by blast
qed

lemma fd_delete_cur_fds: "uloop_fd_delete f s = Some (r, s') \<Longrightarrow> Some f \<notin> fst ` set (cur_fds s')"
  by (auto simp: uloop_fd_delete_def epoll_delete_def epoll_ctl_def forget_events_def Option.bind_eq_Some_conv Let_def
    dest!: stack_event_cur_fds split: if_splits)

text \<open>
  C9: No event reaches a descriptor that has been deleted. After \<open>uloop_fd_delete\<close>, the events that were fetched
  before and are still to be handled are handled as if the callback of the descriptor did not exist: the result of
  \<open>uloop_run_events\<close> on them does not depend on it, so a structure that the application has freed is not entered.
  The queue is searched also when the descriptor is not registered any more.
\<close>

theorem deleted_fd_not_called:
  assumes "uloop_fd_delete f s = Some (ret, s')" and "\<And>g e t. g \<noteq> f \<Longrightarrow> cb (Fd_cb g e) t = cb' (Fd_cb g e) t"
  shows "run_next cb s' = run_next cb' s'"
proof -
  note f = fd_delete_cur_fds [OF assms(1)]
  have "run_next cb s' = Some r \<longleftrightarrow> run_next cb' s' = Some r" for r
    using run_next_agree [of cb s' r f cb'] run_next_agree [of cb' s' r f cb] f assms(2) by metis
  then show ?thesis by (metis option.exhaust)
qed

text \<open>
  What a run of the loop leaves of the signals. With the dispositions of a program that has not installed the
  handlers of the loop itself, the first part of \<open>uloop_run\<close> and its last part cancel out for SIGINT, SIGTERM and
  SIGCHLD, custom handlers included. But SIGPIPE with its default action stays ignored for the rest of the program:
  the code that restores it stores \<open>SIG_DFL\<close> in \<open>new_handler\<close>, which is a null pointer, and then takes it for \<open>NULL\<close>.
\<close>

theorem sigpipe_stays_ignored:
  assumes "\<forall>g. sigs s g \<notin> {Handle_sigint, Handle_sigchld}"
  shows "sigs (uloop_setup_signals False (uloop_setup_signals True s)) =
    (sigs s)(SIGPIPE := if sigs s SIGPIPE = SIG_DFL then SIG_IGN else sigs s SIGPIPE)"
proof
  fix g
  have "sigs s SIGINT \<noteq> Handle_sigint" "sigs s SIGTERM \<noteq> Handle_sigint" "sigs s SIGCHLD \<noteq> Handle_sigchld" using assms by auto
  then show "sigs (uloop_setup_signals False (uloop_setup_signals True s)) g =
      ((sigs s)(SIGPIPE := if sigs s SIGPIPE = SIG_DFL then SIG_IGN else sigs s SIGPIPE)) g"
    by (cases g) (simp_all add: uloop_setup_signals_def uloop_install_handler_def uloop_ignore_signal_def Let_def)
qed

theorem sigpipe_stays_ignored_witness:
  "sigs (uloop_setup_signals False (uloop_setup_signals True idle_loop)) SIGPIPE = SIG_IGN \<and> sigs idle_loop SIGPIPE = SIG_DFL"
  using sigpipe_stays_ignored [of idle_loop] by (simp add: idle_loop_def)

text \<open>Two descriptors with an event each still to be handled; the first event's callback has deleted the second.\<close>

definition sample_fds :: uloop where
  "sample_fds = idle_loop\<lparr>ufds := [7 \<mapsto> \<lparr>f_cb = True, f_fd = 8, f_eof = False, f_error = False, f_registered = True, f_flags = 1\<rparr>,
      9 \<mapsto> \<lparr>f_cb = True, f_fd = 10, f_eof = False, f_error = False, f_registered = True, f_flags = 1\<rparr>],
    cur_fds := [(Some 9, 1), (Some 7, 1)]\<rparr>"

theorem deleted_fd_not_called_witness:
  "\<exists>s'. uloop_fd_delete 9 sample_fds = Some (0, s') \<and> cur_fds s' = [(None, 1), (Some 7, 1)] \<and>
    run_next (\<lambda>c s. if c = Fd_cb 9 1 then None else Some s) s' = run_next no_callbacks s'"
proof -
  let ?cb = "\<lambda>c s. if c = Fd_cb 9 1 then None else Some s"
  have "uloop_fd_delete 9 sample_fds = Some (fst (the (uloop_fd_delete 9 sample_fds)), snd (the (uloop_fd_delete 9 sample_fds)))"
    "fst (the (uloop_fd_delete 9 sample_fds)) = 0" "cur_fds (snd (the (uloop_fd_delete 9 sample_fds))) = [(None, 1), (Some 7, 1)]"
    by (simp_all add: uloop_fd_delete_def sample_fds_def idle_loop_def uloop_fd_stack_event_def epoll_delete_def epoll_ctl_def
      forget_events_def ULOOP_EDGE_TRIGGER_def)
  then show ?thesis using deleted_fd_not_called [of 9 sample_fds _ _ ?cb no_callbacks] by (metis no_callbacks_def ucall.inject(1))
qed

end
