(* ===== verification/Ustream.thy ===== *)
theory Ustream
  imports Uloop
begin

text \<open>
  Buffered streams: \<open>src/libubox/ustream.c\<close> and \<open>src/libubox/ustream-fd.c\<close>, the streams on file descriptors.

  The buffers of a stream are on a heap, linked by \<open>next\<close>; the pointers \<open>data\<close>, \<open>tail\<close> and \<open>end\<close> of a buffer are
  offsets from its \<open>head\<close>, and the block is what \<open>malloc\<close> returned for it. The functions in the structure are a
  parameter of the operations that call them. For streams on descriptors the system is a script: the results of
  \<open>read\<close> and \<open>write\<close>, with the bytes that arrive and the bytes that have been sent. After the end of a script the
  calls fail with \<open>EAGAIN\<close>. \<open>None\<close> is an access outside a block or through a null pointer, a call of \<open>abort\<close>, or a loop
  that does not end.
\<close>

section \<open>Data\<close>

record ustream_buf =
  b_next :: "nat option"
  b_block :: "byte list"
  b_data :: nat
  b_tail :: nat
  b_end :: nat

record ustream_buf_list =
  l_head :: "nat option"
  l_data_tail :: "nat option"
  l_tail :: "nat option"
  data_bytes :: int
  min_buffers :: int
  max_buffers :: int
  buffer_len :: int
  buffers :: int

datatype sys_result = Bytes nat | EINTR | EAGAIN | Other_error

record ustream =
  u_r :: ustream_buf_list
  u_w :: ustream_buf_list
  state_change :: nat
  string_data :: bool
  write_error :: bool
  eof :: bool
  eof_write_done :: bool
  read_blocked :: byte
  s_fd :: nat
  loop :: uloop
  bufs :: "nat \<rightharpoonup> ustream_buf"
  brk :: nat
  garbage :: "nat \<Rightarrow> byte"
  sys_reads :: "sys_result list"
  arriving :: "byte list"
  sys_writes :: "sys_result list"
  sent :: "byte list"

definition READ_BLOCKED_USER :: byte where "READ_BLOCKED_USER = 1"
definition READ_BLOCKED_FULL :: byte where "READ_BLOCKED_FULL = 2"

text \<open>
  The functions in the structure; \<open>None\<close> is a null pointer. The flag of \<open>op_alloc\<close> selects the list. The last field is the
  system's: whether there is memory for the block with a number.
\<close>

record ustream_ops =
  op_alloc :: "bool \<Rightarrow> (ustream \<Rightarrow> (int \<times> ustream) option) option"
  op_write :: "byte list \<Rightarrow> bool \<Rightarrow> ustream \<Rightarrow> (int \<times> ustream) option"
  op_free :: "(ustream \<Rightarrow> ustream option) option"
  op_set_read_blocked :: "(ustream \<Rightarrow> ustream option) option"
  op_poll :: "(ustream \<Rightarrow> (bool \<times> ustream) option) option"
  op_notify_read :: "(int \<Rightarrow> ustream \<Rightarrow> ustream option) option"
  op_notify_write :: "(int \<Rightarrow> ustream \<Rightarrow> ustream option) option"
  op_notify_state :: "(ustream \<Rightarrow> ustream option) option"
  op_memory :: "nat \<Rightarrow> bool"

text \<open>The list to write (\<open>w\<close>) or to read, and updates of the structures.\<close>

definition blist :: "bool \<Rightarrow> ustream \<Rightarrow> ustream_buf_list" where
  "blist w s = (if w then u_w s else u_r s)"

definition upd_blist :: "bool \<Rightarrow> (ustream_buf_list \<Rightarrow> ustream_buf_list) \<Rightarrow> ustream \<Rightarrow> ustream" where
  "upd_blist w f s = (if w then s\<lparr>u_w := f (u_w s)\<rparr> else s\<lparr>u_r := f (u_r s)\<rparr>)"

definition upd_buf :: "nat \<Rightarrow> (ustream_buf \<Rightarrow> ustream_buf) \<Rightarrow> ustream \<Rightarrow> ustream option" where
  "upd_buf a f s = do {
     x \<leftarrow> bufs s a;
     Some (s\<lparr>bufs := (bufs s)(a \<mapsto> f x)\<rparr>)
   }"

definition store_buf :: "nat \<Rightarrow> nat \<Rightarrow> byte list \<Rightarrow> ustream \<Rightarrow> ustream option" where
  "store_buf a p d s = do {
     x \<leftarrow> bufs s a;
     m \<leftarrow> mem_write (b_block x) p d;
     Some (s\<lparr>bufs := (bufs s)(a \<mapsto> x\<lparr>b_block := m\<rparr>)\<rparr>)
   }"

definition call_opt :: "('s \<Rightarrow> 's option) option \<Rightarrow> 's \<Rightarrow> 's option" where
  "call_opt f s = (case f of None \<Rightarrow> Some s | Some g \<Rightarrow> g s)"

section \<open>Buffers\<close>

definition ustream_init_buf :: "nat \<Rightarrow> int \<Rightarrow> ustream \<Rightarrow> ustream option" where
  "ustream_init_buf a len s =
     (if len = 0 then None
      else do {
        s \<leftarrow> upd_buf a (\<lambda>x. x\<lparr>b_next := None, b_data := 0, b_tail := 0, b_end := nat len\<rparr>) s;
        store_buf a 0 [0] s
      })"

definition ustream_add_buf :: "bool \<Rightarrow> nat \<Rightarrow> ustream \<Rightarrow> ustream option" where
  "ustream_add_buf w a s = do {
     let s = upd_blist w (\<lambda>l. l\<lparr>buffers := buffers l + 1\<rparr>) s;
     s \<leftarrow>
       (case l_tail (blist w s) of
         None \<Rightarrow> Some (upd_blist w (\<lambda>l. l\<lparr>l_head := Some a\<rparr>) s)
       | Some t \<Rightarrow> upd_buf t (\<lambda>x. x\<lparr>b_next := Some a\<rparr>) s);
     s \<leftarrow> upd_buf a (\<lambda>x. x\<lparr>b_next := None\<rparr>) s;
     let s = upd_blist w (\<lambda>l. l\<lparr>l_tail := Some a\<rparr>) s;
     Some (if l_data_tail (blist w s) = None then upd_blist w (\<lambda>l. l\<lparr>l_data_tail := l_head l\<rparr>) s else s)
   }"

definition ustream_can_alloc :: "ustream_buf_list \<Rightarrow> bool" where
  "ustream_can_alloc l = (if max_buffers l \<le> 0 then True else buffers l < max_buffers l)"

definition malloc :: "(nat \<Rightarrow> bool) \<Rightarrow> int \<Rightarrow> ustream \<Rightarrow> nat option \<times> ustream" where
  "malloc mem n s =
     (if n < 0 \<or> \<not> mem (brk s) then (None, s)
      else (Some (brk s), s\<lparr>brk := brk s + 1, bufs := (bufs s)(brk s \<mapsto>
        \<lparr>b_next = None, b_block = map (garbage s) [0..<nat n], b_data = 0, b_tail = 0, b_end = 0\<rparr>)\<rparr>))"

text \<open>The result of \<open>malloc\<close> is used without a test: the first access to a null pointer is in \<open>ustream_init_buf\<close>.\<close>

definition ustream_alloc_default :: "(nat \<Rightarrow> bool) \<Rightarrow> bool \<Rightarrow> ustream \<Rightarrow> (int \<times> ustream) option" where
  "ustream_alloc_default mem w s = (
     let l = blist w s in
     if \<not> ustream_can_alloc l then Some (-1, s)
     else do {
       let (buf, s) = malloc mem (buffer_len l + (if string_data s then 1 else 0)) s;
       a \<leftarrow> buf;
       s \<leftarrow> ustream_init_buf a (buffer_len l) s;
       s \<leftarrow> ustream_add_buf w a s;
       Some (0, s)
     })"

partial_function (option) free_chain :: "nat option \<Rightarrow> ustream \<Rightarrow> ustream option" where
  "free_chain p s =
     (case p of
       None \<Rightarrow> Some s
     | Some a \<Rightarrow> do {
         x \<leftarrow> bufs s a;
         free_chain (b_next x) (s\<lparr>bufs := (bufs s)(a := None)\<rparr>)
       })"

definition ustream_free_buffers :: "bool \<Rightarrow> ustream \<Rightarrow> ustream option" where
  "ustream_free_buffers w s = do {
     s \<leftarrow> free_chain (l_head (blist w s)) s;
     Some (upd_blist w (\<lambda>l. l\<lparr>l_head := None, l_tail := None, l_data_tail := None\<rparr>) s)
   }"

definition ustream_free :: "ustream_ops \<Rightarrow> ustream \<Rightarrow> ustream option" where
  "ustream_free ops s = do {
     s \<leftarrow> call_opt (op_free ops) s;
     (_, u) \<leftarrow> uloop_timeout_cancel (state_change s) (loop s);
     s \<leftarrow> ustream_free_buffers False (s\<lparr>loop := u\<rparr>);
     ustream_free_buffers True s
   }"

definition ustream_state_change :: "ustream \<Rightarrow> ustream option" where
  "ustream_state_change s = do {
     (_, u) \<leftarrow> uloop_timeout_set (state_change s) 0 (loop s);
     Some (s\<lparr>loop := u\<rparr>)
   }"

definition ustream_state_change_cb :: "ustream_ops \<Rightarrow> ustream \<Rightarrow> ustream option" where
  "ustream_state_change_cb ops s = do {
     s \<leftarrow> (if write_error s then ustream_free_buffers True s else Some s);
     call_opt (op_notify_state ops) s
   }"

text \<open>The macro \<open>DEFAULT_SET\<close> on an integer, and the fields that \<open>ustream_init_defaults\<close> sets.\<close>

definition default_set :: "int \<Rightarrow> int \<Rightarrow> int" where
  "default_set v d = (if v = 0 then d else v)"

definition ustream_init_defaults :: "ustream \<Rightarrow> ustream option" where
  "ustream_init_defaults s = do {
     x \<leftarrow> tmo (loop s) (state_change s);
     Some (s\<lparr>
       u_r := (u_r s)\<lparr>min_buffers := default_set (min_buffers (u_r s)) 1, max_buffers := default_set (max_buffers (u_r s)) 1,
         buffer_len := default_set (buffer_len (u_r s)) 4096, buffers := 0, data_bytes := 0\<rparr>,
       u_w := (u_w s)\<lparr>min_buffers := default_set (min_buffers (u_w s)) 2, max_buffers := default_set (max_buffers (u_w s)) (-1),
         buffer_len := default_set (buffer_len (u_w s)) 256, buffers := 0, data_bytes := 0\<rparr>,
       loop := (loop s)\<lparr>tmo := (tmo (loop s))(state_change s \<mapsto> x\<lparr>t_cb := True\<rparr>)\<rparr>,
       write_error := False, eof := False, eof_write_done := False, read_blocked := 0\<rparr>)
   }"

definition ustream_should_move :: "ustream_buf_list \<Rightarrow> nat \<Rightarrow> ustream_buf \<Rightarrow> int \<Rightarrow> bool" where
  "ustream_should_move l a x len = (
     let maxlen = b_end x; offset = b_data x in
     if b_data x = 0 then False
     else if offset > maxlen div 2 then True
     else if int (b_tail x) - int (b_data x) < 32 \<and> offset > maxlen div 4 then True
     else if Some a \<noteq> l_tail l \<or> ustream_can_alloc l then False
     else int (b_end x) - int (b_tail x) < len)"

definition ustream_free_buf :: "bool \<Rightarrow> nat \<Rightarrow> ustream \<Rightarrow> ustream option" where
  "ustream_free_buf w a s = do {
     x \<leftarrow> bufs s a;
     let s = (if Some a = l_head (blist w s) then upd_blist w (\<lambda>l. l\<lparr>l_head := b_next x\<rparr>) s else s);
     let s = (if Some a = l_data_tail (blist w s) then upd_blist w (\<lambda>l. l\<lparr>l_data_tail := b_next x\<rparr>) s else s);
     let s = (if Some a = l_tail (blist w s) then upd_blist w (\<lambda>l. l\<lparr>l_tail := None\<rparr>) s else s);
     let s = upd_blist w (\<lambda>l. l\<lparr>buffers := buffers l - 1\<rparr>) s;
     if buffers (blist w s) \<ge> min_buffers (blist w s) then Some (s\<lparr>bufs := (bufs s)(a := None)\<rparr>)
     else do {
       s \<leftarrow> ustream_init_buf a (int (b_end x)) s;
       ustream_add_buf w a s
     }
   }"

section \<open>Reading\<close>

text \<open>\<open>set_read_blocked\<close> is called without a test for a null pointer.\<close>

definition set_blocked :: "ustream_ops \<Rightarrow> byte \<Rightarrow> ustream \<Rightarrow> ustream option" where
  "set_blocked ops val s = (
     let changed = ((read_blocked s \<noteq> 0) \<noteq> (val \<noteq> 0)); s = s\<lparr>read_blocked := val\<rparr> in
     if changed then do { f \<leftarrow> op_set_read_blocked ops; f s } else Some s)"

definition ustream_set_read_blocked :: "ustream_ops \<Rightarrow> bool \<Rightarrow> ustream \<Rightarrow> ustream option" where
  "ustream_set_read_blocked ops block s = (
     let val = read_blocked s AND NOT READ_BLOCKED_USER in
     set_blocked ops (if block then val OR READ_BLOCKED_USER else val) s)"

partial_function (option) consume_loop :: "nat option \<Rightarrow> int \<Rightarrow> ustream \<Rightarrow> ustream option" where
  "consume_loop p len s = do {
     a \<leftarrow> p;
     x \<leftarrow> bufs s a;
     let buf_len = int (b_tail x) - int (b_data x);
     if len < buf_len then upd_buf a (\<lambda>x. x\<lparr>b_data := b_data x + nat len\<rparr>) s
     else do {
       let len = len - buf_len;
       s \<leftarrow> ustream_free_buf False a s;
       if len \<noteq> 0 then consume_loop (b_next x) len s else Some s
     }
   }"

definition ustream_consume :: "ustream_ops \<Rightarrow> int \<Rightarrow> ustream \<Rightarrow> ustream option" where
  "ustream_consume ops len s =
     (if len = 0 then Some s
      else do {
        let p = l_head (u_r s);
        let s = upd_blist False (\<lambda>l. l\<lparr>data_bytes := data_bytes l - len\<rparr>) s;
        if data_bytes (u_r s) < 0 then None
        else do {
          s \<leftarrow> consume_loop p len s;
          set_blocked ops (read_blocked s AND NOT READ_BLOCKED_FULL) s
        }
      })"

definition ustream_fixup_string :: "nat \<Rightarrow> ustream \<Rightarrow> ustream option" where
  "ustream_fixup_string a s =
     (if \<not> string_data s then Some s
      else do {
        x \<leftarrow> bufs s a;
        store_buf a (b_tail x) [0] s
      })"

text \<open>The move of the data of a buffer to its start.\<close>

definition move_data :: "bool \<Rightarrow> nat \<Rightarrow> ustream \<Rightarrow> ustream option" where
  "move_data w a s = do {
     x \<leftarrow> bufs s a;
     d \<leftarrow> mem_read (b_block x) (b_data x) (b_tail x - b_data x);
     s \<leftarrow> store_buf a 0 d s;
     s \<leftarrow> upd_buf a (\<lambda>x. x\<lparr>b_data := 0, b_tail := length d\<rparr>) s;
     if w then Some s else ustream_fixup_string a s
   }"

definition alloc_buf :: "ustream_ops \<Rightarrow> bool \<Rightarrow> ustream \<Rightarrow> (bool \<times> ustream) option" where
  "alloc_buf ops w s =
     (if \<not> ustream_can_alloc (blist w s) then Some (False, s)
      else do {
        (ret, s) \<leftarrow> (case op_alloc ops w of None \<Rightarrow> ustream_alloc_default (op_memory ops) w s | Some f \<Rightarrow> f s);
        if ret < 0 then Some (False, s)
        else Some (True, upd_blist w (\<lambda>l. l\<lparr>l_data_tail := l_tail l\<rparr>) s)
      })"

definition ustream_prepare_buf :: "ustream_ops \<Rightarrow> bool \<Rightarrow> int \<Rightarrow> ustream \<Rightarrow> (bool \<times> ustream) option" where
  "ustream_prepare_buf ops w len s =
     (case l_data_tail (blist w s) of
       None \<Rightarrow> alloc_buf ops w s
     | Some a \<Rightarrow> do {
         x \<leftarrow> bufs s a;
         s \<leftarrow> (if ustream_should_move (blist w s) a x len then move_data w a s else Some s);
         x \<leftarrow> bufs s a;
         if b_tail x \<noteq> b_end x then Some (True, s)
         else if b_next x \<noteq> None then Some (True, upd_blist w (\<lambda>l. l\<lparr>l_data_tail := b_next x\<rparr>) s)
         else alloc_buf ops w s
       })"

text \<open>The result of \<open>ustream_reserve\<close>: the buffer to which the pointer belongs, with \<open>maxlen\<close>.\<close>

definition ustream_reserve :: "ustream_ops \<Rightarrow> int \<Rightarrow> ustream \<Rightarrow> ((nat \<times> int) option \<times> ustream) option" where
  "ustream_reserve ops len s = do {
     (ok, s) \<leftarrow> ustream_prepare_buf ops False len s;
     if \<not> ok then do {
       s \<leftarrow> set_blocked ops (read_blocked s OR READ_BLOCKED_FULL) s;
       Some (None, s)
     }
     else do {
       a \<leftarrow> l_data_tail (u_r s);
       x \<leftarrow> bufs s a;
       Some (Some (a, int (b_end x) - int (b_tail x)), s)
     }
   }"

partial_function (option) fill_loop :: "nat option \<Rightarrow> int \<Rightarrow> ustream \<Rightarrow> ustream option" where
  "fill_loop p len s = do {
     a \<leftarrow> p;
     x \<leftarrow> bufs s a;
     let maxlen = int (b_end x) - int (b_tail x);
     let maxlen = (if len < maxlen then len else maxlen);
     s \<leftarrow> upd_buf a (\<lambda>x. x\<lparr>b_tail := nat (int (b_tail x) + maxlen)\<rparr>) s;
     s \<leftarrow> ustream_fixup_string a s;
     let s = upd_blist False (\<lambda>l. l\<lparr>l_data_tail := Some a\<rparr>) s;
     if len - maxlen \<noteq> 0 then fill_loop (b_next x) (len - maxlen) s else Some s
   }"

definition ustream_fill_read :: "ustream_ops \<Rightarrow> int \<Rightarrow> ustream \<Rightarrow> ustream option" where
  "ustream_fill_read ops len s = do {
     s \<leftarrow> fill_loop (l_data_tail (u_r s)) len (upd_blist False (\<lambda>l. l\<lparr>data_bytes := data_bytes l + len\<rparr>) s);
     call_opt (map_option (\<lambda>f. f len) (op_notify_read ops)) s
   }"

text \<open>The bytes that the result points to, and \<open>buflen\<close>.\<close>

definition ustream_get_read_buf :: "ustream \<Rightarrow> (byte list option \<times> int) option" where
  "ustream_get_read_buf s =
     (case l_head (u_r s) of
       None \<Rightarrow> Some (None, 0)
     | Some a \<Rightarrow> do {
         x \<leftarrow> bufs s a;
         let len = int (b_tail x) - int (b_data x);
         if len > 0 then do {
           d \<leftarrow> mem_read (b_block x) (b_data x) (nat len);
           Some (Some d, len)
         }
         else Some (None, len)
       })"

text \<open>The bytes that \<open>ustream_read\<close> stores in the caller's block, of which it returns the number.\<close>

partial_function (option) ustream_read_loop :: "ustream_ops \<Rightarrow> int \<Rightarrow> byte list \<Rightarrow> ustream \<Rightarrow> (byte list \<times> ustream) option" where
  "ustream_read_loop ops buflen got s = do {
     (chunk, chunk_len) \<leftarrow> ustream_get_read_buf s;
     case chunk of
       None \<Rightarrow> Some (got, s)
     | Some d \<Rightarrow> do {
         let len = int (length got);
         let chunk_len = (if chunk_len > buflen - len then buflen - len else chunk_len);
         s \<leftarrow> (if chunk_len < 0 then None else ustream_consume ops chunk_len s);
         let got = got @ take (nat chunk_len) d;
         if int (length got) < buflen then ustream_read_loop ops buflen got s else Some (got, s)
       }
   }"

definition ustream_read :: "ustream_ops \<Rightarrow> int \<Rightarrow> ustream \<Rightarrow> (byte list \<times> ustream) option" where
  "ustream_read ops buflen s = ustream_read_loop ops buflen [] s"

definition ustream_read_blocked :: "ustream \<Rightarrow> bool" where
  "ustream_read_blocked s = (read_blocked s AND READ_BLOCKED_USER \<noteq> 0)"

definition ustream_pending_data :: "ustream \<Rightarrow> bool \<Rightarrow> int" where
  "ustream_pending_data s w = data_bytes (blist w s)"

definition ustream_read_buf_full :: "ustream \<Rightarrow> bool option" where
  "ustream_read_buf_full s =
     (case l_data_tail (u_r s) of
       None \<Rightarrow> Some False
     | Some a \<Rightarrow> do {
         x \<leftarrow> bufs s a;
         Some (b_data x = 0 \<and> b_tail x = b_end x \<and> buffers (u_r s) = max_buffers (u_r s))
       })"

section \<open>Writing\<close>

definition ustream_write_error :: "ustream \<Rightarrow> ustream option" where
  "ustream_write_error s = do {
     s \<leftarrow> (if \<not> write_error s then ustream_state_change s else Some s);
     Some (s\<lparr>write_error := True\<rparr>)
   }"

partial_function (option) pending_loop :: "ustream_ops \<Rightarrow> nat option \<Rightarrow> int \<Rightarrow> ustream \<Rightarrow> (int \<times> ustream) option" where
  "pending_loop ops p wr s =
     (case p of
       None \<Rightarrow> Some (wr, s)
     | Some a \<Rightarrow>
         if data_bytes (u_w s) = 0 then Some (wr, s)
         else do {
           x \<leftarrow> bufs s a;
           let maxlen = int (b_tail x) - int (b_data x);
           d \<leftarrow> mem_read (b_block x) (b_data x) (nat maxlen);
           (len, s) \<leftarrow> op_write ops d (b_next x \<noteq> None) s;
           if len < 0 then do { s \<leftarrow> ustream_write_error s; Some (wr, s) }
           else if len = 0 then Some (wr, s)
           else do {
             let wr = wr + len;
             let s = upd_blist True (\<lambda>l. l\<lparr>data_bytes := data_bytes l - len\<rparr>) s;
             if len < maxlen then do {
               s \<leftarrow> upd_buf a (\<lambda>x. x\<lparr>b_data := b_data x + nat len\<rparr>) s;
               Some (wr, s)
             }
             else do {
               s \<leftarrow> ustream_free_buf True a s;
               pending_loop ops (b_next x) wr s
             }
           }
         })"

definition ustream_write_pending :: "ustream_ops \<Rightarrow> ustream \<Rightarrow> (bool \<times> ustream) option" where
  "ustream_write_pending ops s =
     (if write_error s then Some (False, s)
      else do {
        (wr, s) \<leftarrow> pending_loop ops (l_head (u_w s)) 0 s;
        s \<leftarrow> call_opt (map_option (\<lambda>f. f wr) (op_notify_write ops)) s;
        s \<leftarrow> (if eof s \<and> wr \<noteq> 0 \<and> data_bytes (u_w s) = 0 then ustream_state_change s else Some s);
        Some (data_bytes (u_w s) = 0, s)
      })"

partial_function (option) ustream_write_buffered :: "ustream_ops \<Rightarrow> byte list \<Rightarrow> int \<Rightarrow> ustream \<Rightarrow> (int \<times> ustream) option" where
  "ustream_write_buffered ops d wr s =
     (if d = [] then Some (wr, s)
      else do {
        (ok, s) \<leftarrow> ustream_prepare_buf ops True (int (length d)) s;
        if \<not> ok then Some (wr, s)
        else do {
          a \<leftarrow> l_data_tail (u_w s);
          x \<leftarrow> bufs s a;
          let maxlen = min (b_end x - b_tail x) (length d);
          s \<leftarrow> store_buf a (b_tail x) (take maxlen d) s;
          s \<leftarrow> upd_buf a (\<lambda>x. x\<lparr>b_tail := b_tail x + maxlen\<rparr>) s;
          let s = upd_blist True (\<lambda>l. l\<lparr>data_bytes := data_bytes l + int maxlen\<rparr>) s;
          ustream_write_buffered ops (drop maxlen d) (wr + int maxlen) s
        }
      })"

definition ustream_write :: "ustream_ops \<Rightarrow> byte list \<Rightarrow> bool \<Rightarrow> ustream \<Rightarrow> (int \<times> ustream) option" where
  "ustream_write ops d more_d s =
     (if write_error s then Some (0, s)
      else if data_bytes (u_w s) = 0 then do {
        (wr, s) \<leftarrow> op_write ops d more_d s;
        if wr = int (length d) then Some (wr, s)
        else if wr < 0 then do { s \<leftarrow> ustream_write_error s; Some (wr, s) }
        else ustream_write_buffered ops (drop (nat wr) d) wr s
      }
      else ustream_write_buffered ops d 0 s)"

definition MAX_STACK_BUFLEN :: int where "MAX_STACK_BUFLEN = 256"

text \<open>\<open>txt\<close> is the text that the format and the arguments give; \<open>vsnprintf\<close> stores what fits, and a zero.\<close>

definition ustream_vprintf :: "ustream_ops \<Rightarrow> byte list \<Rightarrow> ustream \<Rightarrow> (int \<times> ustream) option" where
  "ustream_vprintf ops txt s = (
     let maxlen = int (length txt) in
     if write_error s then Some (0, s)
     else if data_bytes (u_w s) = 0 then
       if maxlen < MAX_STACK_BUFLEN then do {
         (wr, s) \<leftarrow> op_write ops txt False s;
         if wr < 0 then do { s \<leftarrow> ustream_write_error s; Some (wr, s) }
         else if wr = maxlen then Some (wr, s)
         else ustream_write_buffered ops (drop (nat wr) txt) wr s
       }
       else ustream_write ops txt False s
     else do {
       (ok, s) \<leftarrow> ustream_prepare_buf ops True 1 s;
       if \<not> ok then Some (0, s)
       else do {
         a \<leftarrow> l_data_tail (u_w s);
         x \<leftarrow> bufs s a;
         let buflen = int (b_end x) - int (b_tail x);
         let wr = (if maxlen \<ge> buflen then buflen - 1 else maxlen);
         s \<leftarrow> (if buflen = 0 then Some s else store_buf a (b_tail x) (take (nat wr) txt @ [0]) s);
         s \<leftarrow> upd_buf a (\<lambda>x. x\<lparr>b_tail := nat (int (b_tail x) + wr)\<rparr>) s;
         let s = upd_blist True (\<lambda>l. l\<lparr>data_bytes := data_bytes l + wr\<rparr>) s;
         if maxlen < buflen then Some (wr, s)
         else ustream_write_buffered ops (drop (nat wr) txt) wr s
       }
     })"

definition ustream_printf :: "ustream_ops \<Rightarrow> byte list \<Rightarrow> ustream \<Rightarrow> (int \<times> ustream) option" where
  "ustream_printf ops txt s = (if write_error s then Some (0, s) else ustream_vprintf ops txt s)"

definition ustream_poll :: "ustream_ops \<Rightarrow> ustream \<Rightarrow> (bool \<times> ustream) option" where
  "ustream_poll ops s = (case op_poll ops of None \<Rightarrow> Some (False, s) | Some f \<Rightarrow> f s)"

section \<open>Streams on file descriptors\<close>

definition ustream_fd_set_uloop :: "bool \<Rightarrow> ustream \<Rightarrow> ustream option" where
  "ustream_fd_set_uloop write s = (
     let flags = ULOOP_EDGE_TRIGGER OR ULOOP_ERROR_CB;
         flags = (if read_blocked s = 0 \<and> \<not> eof s then flags OR ULOOP_READ else flags);
         flags = (if write \<or> (l_head (u_w s) \<noteq> None \<and> data_bytes (u_w s) \<noteq> 0 \<and> \<not> write_error s)
                  then flags OR ULOOP_WRITE else flags)
     in do {
       (_, u) \<leftarrow> uloop_fd_add (s_fd s) flags (loop s);
       Some (s\<lparr>loop := u\<rparr>)
     })"

definition ustream_fd_set_read_blocked :: "ustream \<Rightarrow> ustream option" where
  "ustream_fd_set_read_blocked s = ustream_fd_set_uloop False s"

definition pop_read :: "ustream \<Rightarrow> sys_result \<times> ustream" where
  "pop_read s = (case sys_reads s of [] \<Rightarrow> (EAGAIN, s) | r # rs \<Rightarrow> (r, s\<lparr>sys_reads := rs\<rparr>))"

text \<open>The bytes that \<open>read\<close> stores at the end of a buffer, and the branch for the end of the stream.\<close>

definition store_read :: "nat \<Rightarrow> nat \<Rightarrow> byte list \<Rightarrow> ustream \<Rightarrow> ustream option" where
  "store_read a t d s = do {
     s' \<leftarrow> store_buf a t d s;
     Some (s'\<lparr>arriving := drop (length d) (arriving s)\<rparr>)
   }"

definition read_eof :: "ustream \<Rightarrow> ustream option" where
  "read_eof s = do {
     s \<leftarrow> (if \<not> eof s then ustream_state_change s else Some s);
     ustream_fd_set_uloop False (s\<lparr>eof := True\<rparr>)
   }"

partial_function (option) ustream_fd_read_pending :: "ustream_ops \<Rightarrow> bool \<Rightarrow> ustream \<Rightarrow> (bool \<times> ustream) option" where
  "ustream_fd_read_pending ops more_d s =
     (if read_blocked s \<noteq> 0 then Some (more_d, s)
      else do {
        (buf, s) \<leftarrow> ustream_reserve ops 1 s;
        case buf of
          None \<Rightarrow> Some (more_d, s)
        | Some (a, buflen) \<Rightarrow> do {
            x \<leftarrow> bufs s a;
            let (r, s) = pop_read s;
            case r of
              EINTR \<Rightarrow> ustream_fd_read_pending ops more_d s
            | EAGAIN \<Rightarrow> Some (more_d, s)
            | _ \<Rightarrow> do {
                let d = (case r of Bytes k \<Rightarrow> take (min k (nat buflen)) (arriving s) | _ \<Rightarrow> []);
                s \<leftarrow> store_read a (b_tail x) d s;
                if d = [] then do {
                  s \<leftarrow> read_eof s;
                  Some (more_d, s)
                }
                else do {
                  s \<leftarrow> ustream_fill_read ops (int (length d)) s;
                  ustream_fd_read_pending ops True s
                }
              }
          }
      })"

text \<open>The loop of \<open>ustream_fd_write\<close>: whether it ended without an error, and the number of bytes written.\<close>

fun write_loop :: "sys_result list \<Rightarrow> nat \<Rightarrow> nat \<Rightarrow> bool \<times> nat \<times> sys_result list" where
  "write_loop rs ret 0 = (True, ret, rs)"
| "write_loop [] ret (Suc n) = (True, ret, [])"
| "write_loop (r # rs) ret (Suc n) =
     (case r of
       Bytes k \<Rightarrow> write_loop rs (ret + min k (Suc n)) (Suc n - min k (Suc n))
     | EINTR \<Rightarrow> write_loop rs ret (Suc n)
     | EAGAIN \<Rightarrow> (True, ret, rs)
     | Other_error \<Rightarrow> (False, ret, rs))"

definition ustream_fd_write :: "byte list \<Rightarrow> bool \<Rightarrow> ustream \<Rightarrow> (int \<times> ustream) option" where
  "ustream_fd_write d more_d s =
     (if d = [] then Some (0, s)
      else case write_loop (sys_writes s) 0 (length d) of
        (ok, ret, rs) \<Rightarrow> (
          let s = s\<lparr>sys_writes := rs, sent := sent s @ take ret d\<rparr> in
          if \<not> ok then Some (-1, s)
          else do {
            s \<leftarrow> (if ret < length d then ustream_fd_set_uloop True s else Some s);
            Some (int ret, s)
          }))"

definition fd_poll :: "ustream_ops \<Rightarrow> u32 \<Rightarrow> ustream \<Rightarrow> (bool \<times> ustream) option" where
  "fd_poll ops events s = do {
     (more_d, s) \<leftarrow> (if events AND ULOOP_READ \<noteq> 0 then ustream_fd_read_pending ops False s else Some (False, s));
     s \<leftarrow>
       (if events AND ULOOP_WRITE \<noteq> 0 then do {
          (no_more, s) \<leftarrow> ustream_write_pending ops s;
          if no_more then ustream_fd_set_uloop False s else Some s
        }
        else Some s);
     x \<leftarrow> ufds (loop s) (s_fd s);
     s \<leftarrow>
       (if f_error x \<and> \<not> write_error s then do {
          s \<leftarrow> ustream_state_change s;
          ustream_fd_set_uloop False (s\<lparr>write_error := True\<rparr>)
        }
        else Some s);
     Some (more_d, s)
   }"

definition ustream_uloop_cb :: "ustream_ops \<Rightarrow> u32 \<Rightarrow> ustream \<Rightarrow> ustream option" where
  "ustream_uloop_cb ops events s = map_option snd (fd_poll ops events s)"

definition ustream_fd_poll :: "ustream_ops \<Rightarrow> ustream \<Rightarrow> (bool \<times> ustream) option" where
  "ustream_fd_poll ops s = fd_poll ops (ULOOP_READ OR ULOOP_WRITE) s"

definition ustream_fd_free :: "ustream \<Rightarrow> ustream option" where
  "ustream_fd_free s = do {
     (_, u) \<leftarrow> uloop_fd_delete (s_fd s) (loop s);
     Some (s\<lparr>loop := u\<rparr>)
   }"

text \<open>\<open>ustream_fd_init\<close>: the functions it installs, beside those of the application, and the state.\<close>

definition fd_ops :: "ustream_ops \<Rightarrow> ustream_ops" where
  "fd_ops app = app\<lparr>op_set_read_blocked := Some ustream_fd_set_read_blocked, op_write := ustream_fd_write,
     op_free := Some ustream_fd_free, op_poll := Some (ustream_fd_poll (app\<lparr>op_set_read_blocked := Some ustream_fd_set_read_blocked,
       op_write := ustream_fd_write, op_free := Some ustream_fd_free\<rparr>))\<rparr>"

definition ustream_fd_init :: "int \<Rightarrow> ustream \<Rightarrow> ustream option" where
  "ustream_fd_init fd s = do {
     s \<leftarrow> ustream_init_defaults s;
     u \<leftarrow> upd_fd (s_fd s) (\<lambda>x. x\<lparr>f_fd := fd, f_cb := True\<rparr>) (loop s);
     ustream_fd_set_uloop False (s\<lparr>loop := u\<rparr>)
   }"

end
