(* ===== verification/Ustream_Queue.thy ===== *)
theory Ustream_Queue
  imports Ustream
begin

text \<open>
  The buffered streams of \<open>Ustream\<close> as queues of bytes: the list structure of the buffers, what each operation does to the
  data in a list, the interface \<open>stream_backend\<close> to the function that writes, which streams on descriptors
  provide, and the invariant of both directions of a stream.
\<close>

section \<open>Queues of buffers\<close>

text \<open>The addresses on the way from a pointer to another one along \<open>next\<close>.\<close>

fun seg :: "(nat \<rightharpoonup> ustream_buf) \<Rightarrow> nat option \<Rightarrow> nat list \<Rightarrow> nat option \<Rightarrow> bool" where
  "seg h p [] q \<longleftrightarrow> p = q"
| "seg h p (a # as) q \<longleftrightarrow> p = Some a \<and> (\<exists>x. h a = Some x \<and> seg h (b_next x) as q)"

lemma seg_append: "seg h p (as @ bs) q \<longleftrightarrow> (\<exists>r. seg h p as r \<and> seg h r bs q)"
  by (induction as arbitrary: p) auto

lemma seg_frame [simp]: "a \<notin> set as \<Longrightarrow> seg (h(a := y)) p as q = seg h p as q"
  by (induction as arbitrary: p) auto

lemma seg_next [simp]: "h a = Some x \<Longrightarrow> b_next y = b_next x \<Longrightarrow> seg (h(a \<mapsto> y)) p as q = seg h p as q"
  by (induction as arbitrary: p) auto

lemma seg_dom: "seg h p as q \<Longrightarrow> a \<in> set as \<Longrightarrow> \<exists>x. h a = Some x"
  by (induction as arbitrary: p) auto

lemma seg_head: "seg h p as None \<Longrightarrow> p = (case as of [] \<Rightarrow> None | a # _ \<Rightarrow> Some a)"
  by (cases as) auto

text \<open>The data in a buffer, the buffers that are well formed, and the data in a list of buffers.\<close>

definition bytes_of :: "ustream_buf \<Rightarrow> byte list" where
  "bytes_of x = take (b_tail x - b_data x) (drop (b_data x) (b_block x))"

definition buf_ok :: "bool \<Rightarrow> ustream_buf \<Rightarrow> bool" where
  "buf_ok str x \<longleftrightarrow> 0 < b_end x \<and> b_tail x \<le> b_end x \<and> (b_data x < b_tail x \<or> b_tail x = 0 \<and> b_data x = 0) \<and>
     b_end x + (if str then 1 else 0) \<le> length (b_block x)"

lemma length_bytes_of [simp]: "buf_ok str x \<Longrightarrow> length (bytes_of x) = b_tail x - b_data x"
  by (auto simp: buf_ok_def bytes_of_def)

lemma bytes_of_empty [simp]: "b_tail x = 0 \<Longrightarrow> bytes_of x = []"
  by (simp add: bytes_of_def)

lemma buf_next [simp]: "buf_ok str (x\<lparr>b_next := p\<rparr>) = buf_ok str x" "bytes_of (x\<lparr>b_next := p\<rparr>) = bytes_of x"
  by (simp_all add: buf_ok_def bytes_of_def)

lemma bytes_of_read: "buf_ok str x \<Longrightarrow> mem_read (b_block x) (b_data x) (b_tail x - b_data x) = Some (bytes_of x)"
  by (auto simp: buf_ok_def bytes_of_def mem_read_def)

definition contents :: "(nat \<rightharpoonup> ustream_buf) \<Rightarrow> nat list \<Rightarrow> byte list" where
  "contents h as = concat (map (\<lambda>a. bytes_of (the (h a))) as)"

lemma contents_simps [simp]:
  "contents h [] = []" "contents h (a # as) = bytes_of (the (h a)) @ contents h as" "contents h (as @ bs) = contents h as @ contents h bs"
  by (simp_all add: contents_def)

lemma contents_frame [simp]: "a \<notin> set as \<Longrightarrow> contents (h(a := y)) as = contents h as"
  by (induction as) auto

lemma contents_cong: "(\<And>a. a \<in> set as \<Longrightarrow> bytes_of (the (h a)) = bytes_of (the (h' a))) \<Longrightarrow> contents h as = contents h' as"
  by (induction as) auto

lemma contents_empty: "(\<And>a. a \<in> set as \<Longrightarrow> b_tail (the (h a)) = 0) \<Longrightarrow> contents h as = []"
  by (induction as) auto

text \<open>
  A list of buffers: \<open>data_tail\<close> is the buffer to fill; those before it have data, those behind it are empty.
\<close>

definition filling :: "(nat \<rightharpoonup> ustream_buf) \<Rightarrow> nat option \<Rightarrow> nat list \<Rightarrow> bool" where
  "filling h d as \<longleftrightarrow> as = [] \<and> d = None \<or>
     (\<exists>pre a post. as = pre @ a # post \<and> d = Some a \<and> (\<forall>b\<in>set pre. b_data (the (h b)) < b_tail (the (h b))) \<and>
       (\<forall>b\<in>set post. b_tail (the (h b)) = 0))"

lemma filling_first: "\<forall>b\<in>set post. b_tail (the (h b)) = 0 \<Longrightarrow> filling h (Some a) (a # post)"
  unfolding filling_def by (intro disjI2 exI [of _ "[]"] exI [of _ a] exI [of _ post]) simp

lemma fillingI:
  "\<forall>b\<in>set pre. b_data (the (h b)) < b_tail (the (h b)) \<Longrightarrow> \<forall>b\<in>set post. b_tail (the (h b)) = 0 \<Longrightarrow> filling h (Some a) (pre @ a # post)"
  unfolding filling_def by blast

lemma filling_cases:
  assumes "filling h d as" and "as \<noteq> []"
  obtains pre a post where "as = pre @ a # post" "d = Some a" "\<forall>b\<in>set pre. b_data (the (h b)) < b_tail (the (h b))"
    "\<forall>b\<in>set post. b_tail (the (h b)) = 0"
  using assms unfolding filling_def by blast

lemma filling_cong:
  assumes "filling h d as" and "\<And>b. b \<in> set as \<Longrightarrow> b_data (the (h' b)) = b_data (the (h b)) \<and> b_tail (the (h' b)) = b_tail (the (h b))"
  shows "filling h' d as"
proof (cases "as = []")
  case False
  with assms(1) obtain pre a post where as: "as = pre @ a # post" "d = Some a" "\<forall>b\<in>set pre. b_data (the (h b)) < b_tail (the (h b))"
      "\<forall>b\<in>set post. b_tail (the (h b)) = 0" by (rule filling_cases)
  have "\<forall>b\<in>set pre. b_data (the (h' b)) < b_tail (the (h' b))" "\<forall>b\<in>set post. b_tail (the (h' b)) = 0"
    using as(3,4) assms(2) unfolding as(1) by fastforce+
  then show ?thesis unfolding as(1,2) by (rule fillingI)
qed (use assms in \<open>simp add: filling_def\<close>)

lemma filling_snoc:
  assumes "filling h d as" and "as \<noteq> []" and "b_tail (the (h a)) = 0"
  shows "filling h d (as @ [a])"
proof -
  obtain pre c post where as: "as = pre @ c # post" "d = Some c" "\<forall>b\<in>set pre. b_data (the (h b)) < b_tail (the (h b))"
      "\<forall>b\<in>set post. b_tail (the (h b)) = 0" using assms(1,2) by (rule filling_cases)
  then show ?thesis using fillingI [of pre h "post @ [a]" c] assms(3) by auto
qed

lemma filling_frame [simp]: "a \<notin> set as \<Longrightarrow> filling (h(a := y)) d as = filling h d as"
proof -
  assume "a \<notin> set as"
  then have "(h(a := y)) b = h b" if "b \<in> set as" for b using that by auto
  then show ?thesis using filling_cong [of h d as "h(a := y)"] filling_cong [of "h(a := y)" d as h] by metis
qed

definition queue_ok :: "bool \<Rightarrow> (nat \<rightharpoonup> ustream_buf) \<Rightarrow> ustream_buf_list \<Rightarrow> nat list \<Rightarrow> bool" where
  "queue_ok str h l as \<longleftrightarrow> seg h (l_head l) as None \<and> distinct as \<and> l_tail l = (if as = [] then None else Some (last as)) \<and>
     buffers l = int (length as) \<and> 0 < buffer_len l \<and> (\<forall>a\<in>set as. buf_ok str (the (h a))) \<and> filling h (l_data_tail l) as"

lemma queue_ok_frame [simp]: "a \<notin> set as \<Longrightarrow> queue_ok str (h(a := y)) l as = queue_ok str h l as"
  by (auto simp: queue_ok_def)

lemma blist_upd [simp]:
  "blist w (upd_blist w f s) = f (blist w s)" "blist (\<not> w) (upd_blist w f s) = blist (\<not> w) s"
  "blist w (s\<lparr>bufs := h\<rparr>) = blist w s" "blist w (s\<lparr>brk := n\<rparr>) = blist w s" "bufs (upd_blist w f s) = bufs s" "brk (upd_blist w f s) = brk s"
  "string_data (upd_blist w f s) = string_data s" "garbage (upd_blist w f s) = garbage s"
  by (simp_all add: blist_def upd_blist_def)

text \<open>What an operation on one list leaves alone.\<close>

definition same_but :: "bool \<Rightarrow> ustream \<Rightarrow> ustream \<Rightarrow> bool" where
  "same_but w s s' \<longleftrightarrow> s' = s\<lparr>u_r := u_r s', u_w := u_w s', bufs := bufs s', brk := brk s'\<rparr> \<and> blist (\<not> w) s' = blist (\<not> w) s \<and>
     buffer_len (blist w s') = buffer_len (blist w s)"

lemma same_but_refl [simp]: "same_but w s s"
  by (simp add: same_but_def)

lemma same_but_trans [trans]: "same_but w s t \<Longrightarrow> same_but w t u \<Longrightarrow> same_but w s u"
  unfolding same_but_def by (cases s, cases t, cases u) simp

lemma same_but_upd [simp]:
  "same_but w s (upd_blist w f s) \<longleftrightarrow> buffer_len (f (blist w s)) = buffer_len (blist w s)"
  "same_but w s (s\<lparr>bufs := h\<rparr>)" "same_but w s (s\<lparr>brk := n, bufs := h\<rparr>)"
  by (auto simp: same_but_def blist_def upd_blist_def)

lemma same_but_string: "same_but w s s' \<Longrightarrow> string_data s' = string_data s"
  unfolding same_but_def by (metis (no_types, lifting) ustream.select_convs(4) ustream.surjective ustream.update_convs(1,2,11,12))

definition same_conf :: "ustream_buf_list \<Rightarrow> ustream_buf_list \<Rightarrow> bool" where
  "same_conf l l' \<longleftrightarrow> data_bytes l' = data_bytes l \<and> min_buffers l' = min_buffers l \<and> max_buffers l' = max_buffers l"

definition extent :: "(nat \<rightharpoonup> ustream_buf) \<Rightarrow> nat \<Rightarrow> (nat \<times> nat \<times> nat) option" where
  "extent h a = map_option (\<lambda>x. (b_data x, b_tail x, b_end x)) (h a)"

lemma add_buf_ok:
  assumes q: "queue_ok (string_data s) (bufs s) (blist w s) as" and a: "a \<notin> set as" "bufs s a = Some x"
    and x: "buf_ok (string_data s) x" "b_tail x = 0"
  obtains s' where "ustream_add_buf w a s = Some s'" "queue_ok (string_data s) (bufs s') (blist w s') (as @ [a])" "same_but w s s'"
    "contents (bufs s') (as @ [a]) = contents (bufs s) as" "\<forall>c. c \<notin> insert a (set as) \<longrightarrow> bufs s' c = bufs s c"
    "same_conf (blist w s) (blist w s')" "dom (bufs s') = dom (bufs s)" "brk s' = brk s" "extent (bufs s') = extent (bufs s)"
proof (cases as rule: rev_cases)
  case Nil
  let ?h = "(bufs s)(a \<mapsto> x\<lparr>b_next := None\<rparr>)"
  let ?s = "upd_blist w (\<lambda>l. l\<lparr>buffers := buffers l + 1, l_head := Some a, l_tail := Some a, l_data_tail := Some a\<rparr>) (s\<lparr>bufs := ?h\<rparr>)"
  have "ustream_add_buf w a s = Some ?s"
    using q a Nil by (auto simp: ustream_add_buf_def queue_ok_def filling_def upd_buf_def upd_blist_def blist_def)
  moreover have "queue_ok (string_data s) ?h (blist w ?s) [a]" using q x Nil by (auto simp: queue_ok_def buf_ok_def filling_first)
  ultimately show thesis using Nil x a by (intro that [of ?s]) (auto simp: same_conf_def same_but_def blist_def upd_blist_def extent_def fun_eq_iff)
next
  case (snoc bs t)
  have t: "l_tail (blist w s) = Some t" "t \<in> set as" "t \<noteq> a" "t \<notin> set bs" using q snoc a by (auto simp: queue_ok_def)
  then obtain y where y: "bufs s t = Some y" "b_next y = None" using q snoc by (auto simp: queue_ok_def seg_append)
  let ?h = "(bufs s)(t \<mapsto> y\<lparr>b_next := Some a\<rparr>, a \<mapsto> x\<lparr>b_next := None\<rparr>)"
  let ?s = "upd_blist w (\<lambda>l. l\<lparr>buffers := buffers l + 1, l_tail := Some a\<rparr>) (s\<lparr>bufs := ?h\<rparr>)"
  have d: "l_data_tail (blist w s) \<noteq> None" using q snoc by (auto simp: queue_ok_def filling_def)
  have same: "bytes_of (the (?h c)) = bytes_of (the (bufs s c))" "b_data (the (?h c)) = b_data (the (bufs s c))"
      "b_tail (the (?h c)) = b_tail (the (bufs s c))" "buf_ok str (the (?h c)) = buf_ok str (the (bufs s c))" for c str
    using y a by (auto simp: bytes_of_def buf_ok_def)
  have "ustream_add_buf w a s = Some ?s"
    using a t y d by (cases w) (auto simp: ustream_add_buf_def upd_buf_def upd_blist_def blist_def Let_def)
  moreover have "filling ?h (l_data_tail (blist w s)) (as @ [a])"
    by (rule filling_snoc, rule filling_cong [of "bufs s"]) (use q snoc same x a in \<open>auto simp: queue_ok_def\<close>)
  then have "queue_ok (string_data s) ?h (blist w ?s) (as @ [a])"
    using q a x t y snoc unfolding queue_ok_def by (auto simp: seg_append same(4))
  moreover have "contents ?h (as @ [a]) = contents (bufs s) as"
    using x a contents_cong [of as ?h "bufs s"] by (simp only: contents_simps same(1)) simp
  ultimately show thesis using snoc x a y t by (intro that [of ?s]) (auto simp: same_conf_def same_but_def blist_def upd_blist_def extent_def fun_eq_iff)
qed

lemma init_buf_ok:
  assumes "bufs s a = Some x" and "0 < b_end x" and "b_end x + (if str then 1 else 0) \<le> length (b_block x)"
  obtains y where "ustream_init_buf a (int (b_end x)) s = Some (s\<lparr>bufs := (bufs s)(a \<mapsto> y)\<rparr>)" "buf_ok str y" "b_tail y = 0"
proof -
  obtain m where m: "mem_write (b_block x) 0 [0] = Some m" "length m = length (b_block x)"
    using assms by (auto simp: mem_write_def split: if_splits)
  then show thesis
    using assms by (intro that [of "x\<lparr>b_next := None, b_data := 0, b_tail := 0, b_end := b_end x, b_block := m\<rparr>"])
      (auto simp: ustream_init_buf_def upd_buf_def store_buf_def buf_ok_def)
qed

lemma free_head_ok:
  assumes q: "queue_ok (string_data s) (bufs s) (blist w s) (a # rest)"
  obtains s' as where "ustream_free_buf w a s = Some s'" "as = rest \<or> as = rest @ [a]" "queue_ok (string_data s) (bufs s') (blist w s') as"
    "contents (bufs s') as = contents (bufs s) rest" "same_but w s s'" "same_conf (blist w s) (blist w s')"
    "\<forall>c. c \<notin> insert a (set rest) \<longrightarrow> bufs s' c = bufs s c" "dom (bufs s') \<subseteq> dom (bufs s)" "brk s' = brk s"
proof -
  obtain x where x: "bufs s a = Some x" "seg (bufs s) (b_next x) rest None" using q by (auto simp: queue_ok_def)
  let ?f = "\<lambda>l. l\<lparr>l_head := b_next x, l_data_tail := (if Some a = l_data_tail l then b_next x else l_data_tail l),
    l_tail := (if Some a = l_tail l then None else l_tail l), buffers := buffers l - 1\<rparr>"
  define s1 where "s1 = upd_blist w ?f s"
  have h: "l_head (blist w s) = Some a" "a \<notin> set rest" "buf_ok (string_data s) x" using q x by (auto simp: queue_ok_def)
  have s1: "blist w s1 = ?f (blist w s)" "bufs s1 = bufs s" "string_data s1 = string_data s" "brk s1 = brk s" by (simp_all add: s1_def)
  have "filling (bufs s) (l_data_tail (blist w s1)) rest"
  proof -
    obtain pre d post where d: "a # rest = pre @ d # post" "l_data_tail (blist w s) = Some d"
        "\<forall>b\<in>set pre. b_data (the (bufs s b)) < b_tail (the (bufs s b))" "\<forall>b\<in>set post. b_tail (the (bufs s b)) = 0"
      using q by (auto simp: queue_ok_def filling_def)
    show ?thesis
    proof (cases pre)
      case Nil
      with d s1 seg_head [OF x(2)] show ?thesis by (cases rest) (auto simp: filling_def [of _ None] intro: filling_first)
    next
      case (Cons c cs)
      with d h s1 show ?thesis by (auto simp: filling_def)
    qed
  qed
  then have q1: "queue_ok (string_data s) (bufs s) (blist w s1) rest" using q x h s1 by (cases "rest = []") (auto simp: queue_ok_def)
  have b1: "same_but w s s1" "same_conf (blist w s) (blist w s1)" by (simp_all add: s1_def same_conf_def)
  have free: "ustream_free_buf w a s = (if buffers (blist w s1) \<ge> min_buffers (blist w s1) then Some (s1\<lparr>bufs := (bufs s1)(a := None)\<rparr>)
      else do { s \<leftarrow> ustream_init_buf a (int (b_end x)) s1; ustream_add_buf w a s })"
    using x h by (cases w) (simp_all add: ustream_free_buf_def s1_def upd_blist_def blist_def Let_def)
  show thesis
  proof (cases "buffers (blist w s1) \<ge> min_buffers (blist w s1)")
    case True
    have "same_but w s (s1\<lparr>bufs := (bufs s1)(a := None)\<rparr>)" using same_but_trans [OF b1(1) same_but_upd(2)] .
    with True free q1 b1 h s1 show thesis by (intro that [of "s1\<lparr>bufs := (bufs s1)(a := None)\<rparr>" rest]) auto
  next
    case False
    obtain y where y: "ustream_init_buf a (int (b_end x)) s1 = Some (s1\<lparr>bufs := (bufs s1)(a \<mapsto> y)\<rparr>)" "buf_ok (string_data s) y" "b_tail y = 0"
      by (rule init_buf_ok [of s1 a x "string_data s"]) (use x h s1 in \<open>auto simp: buf_ok_def\<close>)
    let ?s2 = "s1\<lparr>bufs := (bufs s1)(a \<mapsto> y)\<rparr>"
    obtain s' where "ustream_add_buf w a ?s2 = Some s'" "queue_ok (string_data s) (bufs s') (blist w s') (rest @ [a])" "same_but w ?s2 s'"
        "contents (bufs s') (rest @ [a]) = contents (bufs ?s2) rest" "\<forall>c. c \<notin> insert a (set rest) \<longrightarrow> bufs s' c = bufs ?s2 c"
        "same_conf (blist w ?s2) (blist w s')" "dom (bufs s') = dom (bufs ?s2)" "brk s' = brk ?s2"
      by (rule add_buf_ok [of ?s2 w rest a y]) (use q1 h y s1 in auto)
    with False free y(1) b1 h x s1 show thesis
      using same_but_trans [OF same_but_trans [OF b1(1) same_but_upd(2)]]
      by (intro that [of s' "rest @ [a]"]) (auto simp: same_conf_def)
  qed
qed

text \<open>
  An operation takes the queue \<open>as\<close> of a list to the queue \<open>as'\<close>: it changes no buffer outside the queue, and what the new
  queue has beyond the old one is freshly allocated.
\<close>

definition bounded :: "ustream \<Rightarrow> bool" where
  "bounded s \<longleftrightarrow> (\<forall>a\<in>dom (bufs s). a < brk s)"

definition evolves :: "bool \<Rightarrow> ustream \<Rightarrow> nat list \<Rightarrow> ustream \<Rightarrow> nat list \<Rightarrow> bool" where
  "evolves w s as s' as' \<longleftrightarrow> queue_ok (string_data s) (bufs s') (blist w s') as' \<and> same_but w s s' \<and> bounded s' \<and> brk s \<le> brk s' \<and>
     (\<forall>c\<in>dom (bufs s) - set as. bufs s' c = bufs s c) \<and> (\<forall>c\<in>set as'. c < brk s \<longrightarrow> c \<in> set as)"

lemma evolvesD:
  assumes "evolves w s as s' as'"
  shows "queue_ok (string_data s') (bufs s') (blist w s') as'" and "bounded s'" and "string_data s' = string_data s" and "same_but w s s'"
  using assms same_but_string [of w s s'] unfolding evolves_def by simp_all

lemma evolves_refl: "queue_ok (string_data s) (bufs s) (blist w s) as \<Longrightarrow> bounded s \<Longrightarrow> evolves w s as s as"
  by (simp add: evolves_def)

lemma evolves_trans [trans]:
  assumes "evolves w s as t bs" and "evolves w t bs u cs" and "bounded s"
  shows "evolves w s as u cs"
proof -
  have b: "bufs t c = bufs s c" "c \<notin> set bs" if "c \<in> dom (bufs s) - set as" for c
    using assms(1,3) that by (auto simp: evolves_def bounded_def)
  then have "bufs u c = bufs s c" if "c \<in> dom (bufs s) - set as" for c
    using assms(2) that by (metis Diff_iff domIff evolves_def)
  moreover have "c \<in> set as" if "c \<in> set cs" "c < brk s" for c
    using assms(1,2) that unfolding evolves_def by (meson le_trans not_le)
  moreover have "same_but w s u" using assms(1,2) same_but_trans unfolding evolves_def by blast
  moreover have "string_data t = string_data s" using assms(1) same_but_string unfolding evolves_def by blast
  ultimately show ?thesis using assms(1,2) unfolding evolves_def by auto
qed

text \<open>Changes of one buffer of a queue that keep its place in the list.\<close>

lemma contents_upd:
  "distinct (pre @ a # post) \<Longrightarrow> contents (h(a \<mapsto> y)) (pre @ a # post) = contents h pre @ bytes_of y @ contents h post"
  by simp

lemma evolves_buf:
  assumes "queue_ok (string_data s) (bufs s) (blist w s) as" and "bounded s" and "a \<in> set as" and "bufs s a = Some x" and "b_next y = b_next x"
    and "buf_ok (string_data s) y" and "filling ((bufs s)(a \<mapsto> y)) (l_data_tail (blist w s)) as"
  shows "evolves w s as (s\<lparr>bufs := (bufs s)(a \<mapsto> y)\<rparr>) as"
  using assms by (auto simp: evolves_def queue_ok_def bounded_def)

lemma head_nonempty:
  assumes "queue_ok str h l as" and "contents h as \<noteq> []"
  obtains a rest x where "as = a # rest" "h a = Some x" "l_head l = Some a" "b_data x < b_tail x" "buf_ok str x"
proof -
  obtain a rest where as: "as = a # rest" using assms(2) by (cases as) auto
  obtain x where x: "h a = Some x" "l_head l = Some a" "buf_ok str x" using assms(1) as by (auto simp: queue_ok_def)
  obtain pre d post where d: "as = pre @ d # post" "\<forall>b\<in>set pre. b_data (the (h b)) < b_tail (the (h b))" "\<forall>b\<in>set post. b_tail (the (h b)) = 0"
    by (rule filling_cases [of h "l_data_tail l" as]) (use assms(1) as in \<open>auto simp: queue_ok_def\<close>)
  have "b_data x < b_tail x"
  proof (cases pre)
    case Nil
    then show ?thesis using assms(2) as d(1,3) x contents_empty [of post h] by (fastforce simp: buf_ok_def)
  qed (use as d x in auto)
  with as x that show thesis by blast
qed

lemma filling_advance:
  assumes "filling h d as" and "h a = Some x" and "b_tail y = b_tail x" and "b_data x < b_tail x \<longrightarrow> b_data y < b_tail x"
  shows "filling (h(a \<mapsto> y)) d as"
proof (cases "as = []")
  case False
  with assms(1) obtain pre c post where as: "as = pre @ c # post" "d = Some c" "\<forall>b\<in>set pre. b_data (the (h b)) < b_tail (the (h b))"
      "\<forall>b\<in>set post. b_tail (the (h b)) = 0" by (rule filling_cases)
  then show ?thesis using assms(2-4) unfolding as(1,2) by (intro fillingI) auto
qed (use assms in \<open>simp add: filling_def\<close>)

lemma bytes_of_advance:
  "buf_ok str x \<Longrightarrow> n \<le> b_tail x - b_data x \<Longrightarrow> bytes_of (x\<lparr>b_data := b_data x + n\<rparr>) = drop n (bytes_of x)"
  by (simp add: bytes_of_def drop_take add.commute)

text \<open>Data leaves a queue at its head.\<close>

lemma advance_ok:
  assumes q: "queue_ok (string_data s) (bufs s) (blist w s) (a # rest)" "bounded s" and x: "bufs s a = Some x" and n: "n < b_tail x - b_data x"
  obtains s' where "upd_buf a (\<lambda>x. x\<lparr>b_data := b_data x + n\<rparr>) s = Some s'" "evolves w s (a # rest) s' (a # rest)"
    "contents (bufs s') (a # rest) = drop n (contents (bufs s) (a # rest))" "same_conf (blist w s) (blist w s')"
proof -
  let ?y = "x\<lparr>b_data := b_data x + n\<rparr>"
  let ?s = "s\<lparr>bufs := (bufs s)(a \<mapsto> ?y)\<rparr>"
  have ok: "buf_ok (string_data s) x" "a \<notin> set rest" using q x by (auto simp: queue_ok_def)
  then have "buf_ok (string_data s) ?y" using n by (auto simp: buf_ok_def)
  moreover have "filling ((bufs s)(a \<mapsto> ?y)) (l_data_tail (blist w s)) (a # rest)"
    by (rule filling_advance [of "bufs s" _ _ a x]) (use q n x in \<open>auto simp: queue_ok_def\<close>)
  ultimately have "evolves w s (a # rest) ?s (a # rest)" using q x by (intro evolves_buf [of s w "a # rest" a x ?y]) auto
  moreover have "contents (bufs ?s) (a # rest) = drop n (contents (bufs s) (a # rest))"
    using ok x n by (simp add: bytes_of_advance)
  ultimately show thesis using x by (intro that [of ?s]) (auto simp: upd_buf_def same_conf_def)
qed

lemma free_head_evolves:
  assumes "queue_ok (string_data s) (bufs s) (blist w s) (a # rest)" and "bounded s"
  obtains s' as where "ustream_free_buf w a s = Some s'" "evolves w s (a # rest) s' as" "as = rest \<or> as = rest @ [a]"
    "contents (bufs s') as = contents (bufs s) rest" "same_conf (blist w s) (blist w s')"
proof -
  obtain s' as where s': "ustream_free_buf w a s = Some s'" "as = rest \<or> as = rest @ [a]" "queue_ok (string_data s) (bufs s') (blist w s') as"
      "contents (bufs s') as = contents (bufs s) rest" "same_but w s s'" "same_conf (blist w s) (blist w s')"
      "\<forall>c. c \<notin> insert a (set rest) \<longrightarrow> bufs s' c = bufs s c" "dom (bufs s') \<subseteq> dom (bufs s)" "brk s' = brk s"
    by (rule free_head_ok [OF assms(1)])
  then have "evolves w s (a # rest) s' as" using assms(2) by (auto simp: evolves_def bounded_def)
  with s' that show thesis by blast
qed

lemma consume_loop_ok:
  assumes "queue_ok (string_data s) (bufs s) (u_r s) as" and "bounded s" and "0 < n" and "n \<le> length (contents (bufs s) as)"
  shows "\<exists>s' as'. consume_loop (l_head (u_r s)) (int n) s = Some s' \<and> evolves False s as s' as' \<and>
    contents (bufs s') as' = drop n (contents (bufs s) as) \<and> same_conf (u_r s) (u_r s')"
  using assms
proof (induction n arbitrary: s as rule: less_induct)
  case (less n)
  have b: "blist False t = u_r t" for t by (simp add: blist_def)
  note q = less.prems(1) [folded b]
  obtain a rest x where as: "as = a # rest" and x: "bufs s a = Some x" "l_head (u_r s) = Some a" "b_data x < b_tail x" "buf_ok (string_data s) x"
    by (rule head_nonempty [OF less.prems(1)]) (use less.prems in auto)
  have len: "length (bytes_of x) = b_tail x - b_data x" using x by simp
  show ?case
  proof (cases "n < b_tail x - b_data x")
    case True
    obtain s' where s': "upd_buf a (\<lambda>x. x\<lparr>b_data := b_data x + n\<rparr>) s = Some s'" "evolves False s as s' as"
        "contents (bufs s') as = drop n (contents (bufs s) as)" "same_conf (blist False s) (blist False s')"
      unfolding as by (rule advance_ok [OF q [unfolded as] less.prems(2) x(1) True])
    moreover have "consume_loop (l_head (u_r s)) (int n) s = Some s'"
      using True x s'(1) by (subst consume_loop.simps) (simp add: Let_def less_diff_conv)
    ultimately show ?thesis unfolding b by blast
  next
    case False
    obtain s1 as1 where s1: "ustream_free_buf False a s = Some s1" "evolves False s as s1 as1" "as1 = rest \<or> as1 = rest @ [a]"
        "contents (bufs s1) as1 = contents (bufs s) rest" "same_conf (blist False s) (blist False s1)"
      unfolding as by (rule free_head_evolves [OF q [unfolded as] less.prems(2)])
    let ?m = "n - (b_tail x - b_data x)"
    have loop: "consume_loop (l_head (u_r s)) (int n) s = (if ?m \<noteq> 0 then consume_loop (b_next x) (int ?m) s1 else Some s1)"
      using False x s1(1) by (subst consume_loop.simps) (auto simp: Let_def of_nat_diff algebra_simps)
    have c: "drop n (contents (bufs s) as) = drop ?m (contents (bufs s) rest)" using False as x len by simp
    show ?thesis
    proof (cases "?m = 0")
      case True
      then show ?thesis using loop s1 c unfolding b by auto
    next
      case m: False
      have s1q: "queue_ok (string_data s1) (bufs s1) (u_r s1) as1" "bounded s1"
        using evolvesD [OF s1(2)] unfolding b by simp_all
      have "rest \<noteq> []" using m less.prems(4) as x len by auto
      then have "l_head (u_r s1) = b_next x"
        using s1q(1) s1(3) q seg_head [of "bufs s" "b_next x" rest] as x unfolding queue_ok_def b by (cases rest) auto
      moreover have "?m < n" "0 < ?m" "?m \<le> length (contents (bufs s1) as1)" using m less.prems(3,4) x len as s1(4) by auto
      ultimately obtain s' as' where "consume_loop (b_next x) (int ?m) s1 = Some s'" "evolves False s1 as1 s' as'"
          "contents (bufs s') as' = drop ?m (contents (bufs s1) as1)" "same_conf (u_r s1) (u_r s')"
        using less.IH [OF _ s1q, of ?m] by metis
      with loop m c s1 evolves_trans [OF s1(2) _ less.prems(2)] show ?thesis unfolding b by (auto simp: same_conf_def)
    qed
  qed
qed

text \<open>Space for new data at the end of a queue.\<close>

lemma move_data_ok:
  assumes q: "queue_ok (string_data s) (bufs s) (blist w s) as" "bounded s" and a: "a \<in> set as" "bufs s a = Some x" "b_data x < b_tail x"
  obtains s' y where "move_data w a s = Some s'" "evolves w s as s' as" "contents (bufs s') as = contents (bufs s) as"
    "blist w s' = blist w s" "bufs s' a = Some y" "b_end y = b_end x" "b_next y = b_next x" "b_data y < b_tail y"
proof -
  have x: "buf_ok (string_data s) x" using q a by (auto simp: queue_ok_def)
  let ?n = "b_tail x - b_data x" and ?d = "bytes_of x"
  have len: "length ?d = ?n" using x by simp
  obtain m where m: "mem_write (b_block x) 0 ?d = Some m" "length m = length (b_block x)" "take ?n m = ?d"
  proof -
    have "0 + length ?d \<le> length (b_block x)" using x len by (auto simp: buf_ok_def)
    then obtain m where m: "mem_write (b_block x) 0 ?d = Some m" using mem_write_defined by blast
    then show thesis using that mem_write_length [OF m] mem_read_write [OF m] len by (auto simp: mem_read_def split: if_splits)
  qed
  define z where "z = (if w \<or> \<not> string_data s then m else take ?n m @ [0] @ drop (?n + 1) m)"
  let ?y = "x\<lparr>b_block := z, b_data := 0, b_tail := ?n\<rparr>" let ?s = "s\<lparr>bufs := (bufs s)(a \<mapsto> ?y)\<rparr>"
  have z: "length z = length (b_block x)" "take ?n z = ?d" using m x len a by (auto simp: z_def buf_ok_def)
  have "string_data s \<longrightarrow> ?n < length m" using x m by (auto simp: buf_ok_def)
  then have z0: "mem_write m ?n [0] = Some z" if "\<not> (w \<or> \<not> string_data s)" using that by (simp add: z_def mem_write_def)
  have "move_data w a s = Some ?s"
  proof (cases "w \<or> \<not> string_data s")
    case True
    then have "z = m" by (simp add: z_def)
    with True bytes_of_read [OF x] m(1) len a show ?thesis
      by (auto simp: move_data_def store_buf_def upd_buf_def ustream_fixup_string_def)
  next
    case False
    then show ?thesis
      using bytes_of_read [OF x] m(1) len a z0 by (cases x) (simp add: move_data_def store_buf_def upd_buf_def ustream_fixup_string_def)
  qed
  moreover have "buf_ok (string_data s) ?y" using x z a by (auto simp: buf_ok_def)
  moreover have y: "bytes_of ?y = bytes_of x" using z by (simp add: bytes_of_def)
  moreover have "filling ((bufs s)(a \<mapsto> ?y)) (l_data_tail (blist w s)) as"
  proof -
    obtain pre d post where as: "as = pre @ d # post" "l_data_tail (blist w s) = Some d"
        "\<forall>b\<in>set pre. b_data (the (bufs s b)) < b_tail (the (bufs s b))" "\<forall>b\<in>set post. b_tail (the (bufs s b)) = 0"
      by (rule filling_cases [of "bufs s" "l_data_tail (blist w s)" as]) (use q a in \<open>auto simp: queue_ok_def\<close>)
    then show ?thesis using a unfolding as(1,2) by (intro fillingI) auto
  qed
  moreover have "contents ((bufs s)(a \<mapsto> ?y)) as = contents (bufs s) as" using y a by (intro contents_cong) auto
  ultimately show thesis using q a evolves_buf [of s w as a x ?y] by (intro that [of ?s ?y]) auto
qed

text \<open>Blocks come from \<open>ustream_alloc_default\<close>, and there is memory for them.\<close>

definition default_alloc :: "ustream_ops \<Rightarrow> bool \<Rightarrow> bool" where
  "default_alloc ops w \<longleftrightarrow> op_alloc ops w = None \<and> (\<forall>k. op_memory ops k)"

lemma alloc_default_null: "ustream_can_alloc (blist w s) \<Longrightarrow> \<not> mem (brk s) \<Longrightarrow> ustream_alloc_default mem w s = None"
  by (simp add: ustream_alloc_default_def malloc_def Let_def)

lemma alloc_buf_ok:
  assumes q: "queue_ok (string_data s) (bufs s) (blist w s) as" "bounded s" and ops: "default_alloc ops w"
    and full: "\<forall>b\<in>set as. b_data (the (bufs s b)) < b_tail (the (bufs s b))"
  obtains (no) "alloc_buf ops w s = Some (False, s)" "0 < max_buffers (blist w s)" "max_buffers (blist w s) \<le> buffers (blist w s)"
  | (yes) s' a y where "alloc_buf ops w s = Some (True, s')" "evolves w s as s' (as @ [a])" "contents (bufs s') (as @ [a]) = contents (bufs s) as"
    "same_conf (blist w s) (blist w s')" "l_data_tail (blist w s') = Some a" "bufs s' a = Some y" "b_tail y = 0"
proof (cases "ustream_can_alloc (blist w s)")
  case False
  then show thesis by (intro no) (auto simp: alloc_buf_def ustream_can_alloc_def split: if_splits)
next
  case True
  let ?l = "blist w s" let ?n = "buffer_len ?l + (if string_data s then 1 else 0)"
  let ?x = "\<lparr>b_next = None, b_block = map (garbage s) [0..<nat ?n], b_data = 0, b_tail = 0, b_end = nat (buffer_len ?l)\<rparr>"
  let ?s0 = "s\<lparr>brk := brk s + 1, bufs := (bufs s)(brk s \<mapsto> ?x\<lparr>b_end := 0\<rparr>)\<rparr>"
  have l: "0 < buffer_len ?l" using q by (simp add: queue_ok_def)
  have new: "brk s \<notin> set as" "bufs s (brk s) = None" "\<And>c. c \<in> set as \<Longrightarrow> c < brk s"
    using q seg_dom [of "bufs s" "l_head ?l" as] unfolding queue_ok_def bounded_def by (auto simp: domIff)
  obtain m where m: "mem_write (b_block ?x) 0 [0] = Some m" "length m = nat ?n"
  proof -
    have "0 + length [0 :: byte] \<le> length (b_block ?x)" using l by (simp add: Suc_le_eq)
    then obtain m where m: "mem_write (b_block ?x) 0 [0] = Some m" using mem_write_defined by blast
    then show thesis using that mem_write_length [OF m] by simp
  qed
  let ?y = "?x\<lparr>b_block := m\<rparr>" let ?s1 = "?s0\<lparr>bufs := (bufs s)(brk s \<mapsto> ?y)\<rparr>"
  have init: "ustream_init_buf (brk s) (buffer_len ?l) ?s0 = Some ?s1" using l m by (simp add: ustream_init_buf_def upd_buf_def store_buf_def)
  obtain s2 where s2: "ustream_add_buf w (brk s) ?s1 = Some s2" "queue_ok (string_data s) (bufs s2) (blist w s2) (as @ [brk s])" "same_but w ?s1 s2"
      "contents (bufs s2) (as @ [brk s]) = contents (bufs ?s1) as" "\<forall>c. c \<notin> insert (brk s) (set as) \<longrightarrow> bufs s2 c = bufs ?s1 c"
      "same_conf (blist w ?s1) (blist w s2)" "dom (bufs s2) = dom (bufs ?s1)" "brk s2 = brk ?s1" "extent (bufs s2) = extent (bufs ?s1)"
    by (rule add_buf_ok [of ?s1 w as "brk s" ?y]) (use q new l m in \<open>auto simp: buf_ok_def\<close>)
  let ?s = "upd_blist w (\<lambda>l. l\<lparr>l_data_tail := l_tail l\<rparr>) s2"
  have alloc: "alloc_buf ops w s = Some (True, ?s)"
    using True ops l init s2(1) by (simp add: default_alloc_def alloc_buf_def ustream_alloc_default_def malloc_def Let_def)
  have last: "l_tail (blist w s2) = Some (brk s)" using s2(2) by (simp add: queue_ok_def)
  have "b_data (the (bufs s2 b)) < b_tail (the (bufs s2 b))" if "b \<in> set as" for b
  proof -
    note b = that
    obtain x where x: "bufs s b = Some x" using seg_dom [of "bufs s" "l_head ?l" as None b] q(1) b unfolding queue_ok_def by blast
    have "b \<noteq> brk s" using b new(1) by blast
    then have "extent (bufs s2) b = Some (b_data x, b_tail x, b_end x)" using s2(9) x by (simp add: extent_def)
    then show ?thesis using full b x by (auto simp: extent_def)
  qed
  then have "filling (bufs s2) (Some (brk s)) (as @ [brk s])" by (intro fillingI) auto
  then have "queue_ok (string_data s) (bufs ?s) (blist w ?s) (as @ [brk s])" using s2(2) last by (simp add: queue_ok_def)
  moreover have "same_but w s ?s1" by (simp add: same_but_def blist_def)
  then have "same_but w s ?s" using same_but_trans [OF same_but_trans [OF _ s2(3)]] by simp
  moreover have "dom (bufs s2) = insert (brk s) (dom (bufs s))" using s2(7) by auto
  then have "bounded ?s" using q(2) s2(8) by (fastforce simp: bounded_def less_Suc_eq)
  moreover have "\<forall>c\<in>dom (bufs s) - set as. bufs s2 c = bufs s c" using s2(5) new(2) by (auto simp: fun_upd_def) (metis option.distinct(1))
  ultimately have "evolves w s as ?s (as @ [brk s])" using s2(8) new by (simp add: evolves_def)
  moreover obtain y where "bufs s2 (brk s) = Some y" "b_tail y = 0" using fun_cong [OF s2(9), of "brk s"] by (auto simp: extent_def)
  moreover have "contents (bufs ?s1) as = contents (bufs s) as" using new(1) by simp
  ultimately show thesis using alloc s2(4,6) last by (intro yes [of ?s "brk s" y]) (auto simp: same_conf_def)
qed

text \<open>
  \<open>ustream_prepare_buf\<close> finds space behind the data, or says that there is none: then the list has as many buffers as
  it may have.
\<close>

definition no_space :: "ustream_buf_list \<Rightarrow> bool" where
  "no_space l \<longleftrightarrow> 0 < max_buffers l \<and> max_buffers l \<le> buffers l"

lemma filling_split:
  assumes "filling h (Some a) (pre @ a # post)" and "distinct (pre @ a # post)"
  shows "\<forall>b\<in>set pre. b_data (the (h b)) < b_tail (the (h b))" and "\<forall>b\<in>set post. b_tail (the (h b)) = 0"
proof -
  obtain pre' post' where p: "pre @ a # post = pre' @ a # post'" "\<forall>b\<in>set pre'. b_data (the (h b)) < b_tail (the (h b))"
      "\<forall>b\<in>set post'. b_tail (the (h b)) = 0"
    using assms(1) unfolding filling_def by auto
  have "pre' = pre \<and> post' = post" by (rule distinct_split_unique [OF assms(2) p(1)])
  with p(2,3) show "\<forall>b\<in>set pre. b_data (the (h b)) < b_tail (the (h b))" "\<forall>b\<in>set post. b_tail (the (h b)) = 0" by simp_all
qed

lemma filling_next:
  assumes "filling h (Some a) (pre @ a # c # post)" and "distinct (pre @ a # c # post)" and "b_data (the (h a)) < b_tail (the (h a))"
  shows "filling h (Some c) (pre @ a # c # post)" and "b_tail (the (h c)) = 0"
  using filling_split [OF assms(1,2)] fillingI [of "pre @ [a]" h post c] assms(3) by auto

lemma prepare_buf_ok:
  assumes q: "queue_ok (string_data s) (bufs s) (blist w s) as" "bounded s" and ops: "default_alloc ops w"
  obtains (no) s' where "ustream_prepare_buf ops w len s = Some (False, s')" "evolves w s as s' as" "contents (bufs s') as = contents (bufs s) as"
    "blist w s' = blist w s" "no_space (blist w s)"
  | (yes) s' as' a y where "ustream_prepare_buf ops w len s = Some (True, s')" "evolves w s as s' as'" "contents (bufs s') as' = contents (bufs s) as"
    "same_conf (blist w s) (blist w s')" "l_data_tail (blist w s') = Some a" "bufs s' a = Some y" "b_tail y < b_end y"
proof (cases "l_data_tail (blist w s)")
  case None
  then have as: "as = []" using q by (auto simp: queue_ok_def filling_def)
  have eq: "ustream_prepare_buf ops w len s = alloc_buf ops w s" using None by (simp add: ustream_prepare_buf_def)
  show thesis
  proof (rule alloc_buf_ok [OF q ops], use as in simp, goal_cases)
    case 1
    then show thesis using eq evolves_refl [OF q] by (intro no [of s]) (auto simp: no_space_def)
  next
    case (2 s' a y)
    have "buf_ok (string_data s) y" using 2 by (auto simp: evolves_def queue_ok_def)
    with 2 eq show thesis by (intro yes [of s' "as @ [a]" a y]) (auto simp: buf_ok_def)
  qed
next
  case (Some a)
  obtain pre post where as: "as = pre @ a # post" "\<forall>b\<in>set pre. b_data (the (bufs s b)) < b_tail (the (bufs s b))"
    using q Some by (auto simp: queue_ok_def filling_def)
  obtain x where x: "bufs s a = Some x" using q(1) as by (auto simp: queue_ok_def seg_append)
  obtain s1 y where s1: "(if ustream_should_move (blist w s) a x len then move_data w a s else Some s) = Some s1" "evolves w s as s1 as"
      "contents (bufs s1) as = contents (bufs s) as" "blist w s1 = blist w s" "bufs s1 a = Some y"
  proof (cases "ustream_should_move (blist w s) a x len")
    case True
    then have "b_data x < b_tail x" using q x as by (auto simp: ustream_should_move_def queue_ok_def buf_ok_def split: if_splits)
    with True move_data_ok [OF q _ x] as that show thesis by (metis in_set_conv_decomp)
  next
    case False
    with evolves_refl [OF q] x that show thesis by simp
  qed
  have q1: "queue_ok (string_data s1) (bufs s1) (blist w s1) as" "bounded s1" "string_data s1 = string_data s"
    by (rule evolvesD [OF s1(2)])+
  have y: "buf_ok (string_data s1) y" using q1 s1(5) as by (auto simp: queue_ok_def)
  have eq: "ustream_prepare_buf ops w len s =
      (if b_tail y \<noteq> b_end y then Some (True, s1)
       else if b_next y \<noteq> None then Some (True, upd_blist w (\<lambda>l. l\<lparr>l_data_tail := b_next y\<rparr>) s1) else alloc_buf ops w s1)"
    using Some x s1(1,5) by (simp add: ustream_prepare_buf_def)
  have next_y: "b_next y = (case post of [] \<Rightarrow> None | c # _ \<Rightarrow> Some c)"
    using q1(1) s1(5) as(1) by (auto simp: queue_ok_def seg_append dest: seg_head)
  show thesis
  proof (cases "b_tail y = b_end y")
    case False
    then show thesis using eq s1 y Some by (intro yes [of s1 as a y]) (auto simp: buf_ok_def same_conf_def)
  next
    case full: True
    then have ne: "b_data y < b_tail y" using y by (auto simp: buf_ok_def)
    show thesis
    proof (cases post)
      case (Cons c post')
      let ?s = "upd_blist w (\<lambda>l. l\<lparr>l_data_tail := Some c\<rparr>) s1"
      have f: "filling (bufs s1) (Some a) (pre @ a # c # post')" "distinct (pre @ a # c # post')"
        using q1(1) s1(4) Some as(1) Cons by (simp_all add: queue_ok_def)
      have n: "filling (bufs s1) (Some c) as" "b_tail (the (bufs s1 c)) = 0"
        using filling_next [OF f] ne s1(5) as(1) Cons by simp_all
      have "queue_ok (string_data s1) (bufs ?s) (blist w ?s) as" "bounded ?s"
        using n(1) q1 by (auto simp: queue_ok_def bounded_def)
      then have "evolves w s1 as ?s as" by (simp add: evolves_def)
      then have "evolves w s as ?s as" by (rule evolves_trans [OF s1(2) _ q(2)])
      moreover obtain z where z: "bufs s1 c = Some z" using q1(1) as Cons by (auto simp: queue_ok_def seg_append)
      moreover have "b_tail z < b_end z" using n(2) z q1(1) as Cons by (auto simp: queue_ok_def buf_ok_def)
      ultimately show thesis using eq full next_y Cons s1(3,4) by (intro yes [of ?s as c z]) (auto simp: same_conf_def)
    next
      case Nil
      have "filling (bufs s1) (Some a) (pre @ a # [])" "distinct (pre @ a # [])"
        using q1(1) s1(4) Some as(1) Nil by (simp_all add: queue_ok_def)
      then have "\<forall>b\<in>set pre. b_data (the (bufs s1 b)) < b_tail (the (bufs s1 b))" by (rule filling_split)
      then have all: "\<forall>b\<in>set as. b_data (the (bufs s1 b)) < b_tail (the (bufs s1 b))" using as Nil ne s1(5) by auto
      have eq': "ustream_prepare_buf ops w len s = alloc_buf ops w s1" using eq full next_y Nil by simp
      show thesis
      proof (rule alloc_buf_ok [OF q1(1,2) ops all], goal_cases)
        case 1
        then show thesis using eq' s1 by (intro no [of s1]) (auto simp: no_space_def)
      next
        case (2 s' a y)
        have "buf_ok (string_data s1) y" using 2 by (auto simp: evolves_def queue_ok_def)
        with 2 eq' s1 evolves_trans [OF s1(2) 2(2) q(2)] show thesis by (intro yes [of s' "as @ [a]" a y]) (auto simp: buf_ok_def)
      qed
    qed
  qed
qed

text \<open>Data enters a queue at \<open>data_tail\<close>.\<close>

lemma grow_ok:
  assumes q: "queue_ok (string_data s) (bufs s) (blist w s) as" "bounded s" and a: "l_data_tail (blist w s) = Some a" "bufs s a = Some x"
    and d: "b_tail x + length d \<le> b_end x"
    and m: "length m = length (b_block x)" "take (b_tail x) m = take (b_tail x) (b_block x)" "take (length d) (drop (b_tail x) m) = d"
  shows "evolves w s as (s\<lparr>bufs := (bufs s)(a \<mapsto> x\<lparr>b_block := m, b_tail := b_tail x + length d\<rparr>)\<rparr>) as"
    and "contents ((bufs s)(a \<mapsto> x\<lparr>b_block := m, b_tail := b_tail x + length d\<rparr>)) as = contents (bufs s) as @ d"
proof -
  let ?y = "x\<lparr>b_block := m, b_tail := b_tail x + length d\<rparr>"
  obtain pre post where as: "as = pre @ a # post" using q(1) a(1) by (auto simp: queue_ok_def filling_def)
  have f0: "filling (bufs s) (Some a) (pre @ a # post)" "distinct (pre @ a # post)" using q(1) a(1) as by (simp_all add: queue_ok_def)
  note f = filling_split [OF f0]
  have x: "buf_ok (string_data s) x" using q a as by (auto simp: queue_ok_def)
  have y: "buf_ok (string_data s) ?y" using x d m(1) by (auto simp: buf_ok_def)
  have "filling ((bufs s)(a \<mapsto> ?y)) (Some a) (pre @ a # post)" using f f0(2) by (intro fillingI) auto
  then show "evolves w s as (s\<lparr>bufs := (bufs s)(a \<mapsto> ?y)\<rparr>) as"
    using q a y as by (intro evolves_buf [of s w as a x ?y]) auto
  have le: "b_data x \<le> b_tail x" using x by (auto simp: buf_ok_def)
  then have "bytes_of ?y = take (b_tail x - b_data x) (drop (b_data x) m) @ take (length d) (drop (b_tail x) m)"
    using take_add [of "b_tail x - b_data x" "length d" "drop (b_data x) m"] by (simp add: bytes_of_def)
  also have "take (b_tail x - b_data x) (drop (b_data x) m) = bytes_of x"
    using m(2) le by (simp add: bytes_of_def take_drop)
  finally have "bytes_of ?y = bytes_of x @ d" using m(3) by simp
  moreover have "contents (bufs s) post = []" using f(2) contents_empty by blast
  ultimately show "contents ((bufs s)(a \<mapsto> ?y)) as = contents (bufs s) as @ d"
    using as a(2) f0(2) by simp
qed

lemma append_ok:
  assumes q: "queue_ok (string_data s) (bufs s) (blist w s) as" "bounded s" and a: "l_data_tail (blist w s) = Some a" "bufs s a = Some x"
    and d: "d \<noteq> []" "b_tail x + length d \<le> b_end x"
  obtains s1 s' where "store_buf a (b_tail x) d s = Some s1" "upd_buf a (\<lambda>x. x\<lparr>b_tail := b_tail x + length d\<rparr>) s1 = Some s'"
    "evolves w s as s' as" "contents (bufs s') as = contents (bufs s) as @ d" "blist w s' = blist w s"
proof -
  have "a \<in> set as" using q(1) a(1) by (auto simp: queue_ok_def filling_def)
  then have x: "buf_ok (string_data s) x" using q a by (auto simp: queue_ok_def)
  obtain m where m: "mem_write (b_block x) (b_tail x) d = Some m" using mem_write_defined [of "b_tail x" d "b_block x"] x d by (auto simp: buf_ok_def)
  then have "length m = length (b_block x)" "take (b_tail x) m = take (b_tail x) (b_block x)" "take (length d) (drop (b_tail x) m) = d"
    by (auto simp: mem_write_def split: if_splits)
  from grow_ok [OF q a d(2) this] a m show thesis
    by (intro that [of "s\<lparr>bufs := (bufs s)(a \<mapsto> x\<lparr>b_block := m\<rparr>)\<rparr>"
      "s\<lparr>bufs := (bufs s)(a \<mapsto> x\<lparr>b_block := m, b_tail := b_tail x + length d\<rparr>)\<rparr>"]) (auto simp: store_buf_def upd_buf_def)
qed

lemma write_buffered_ok:
  assumes "queue_ok (string_data s) (bufs s) (u_w s) as" and "bounded s" and "default_alloc ops True"
  shows "\<exists>n s' as'. ustream_write_buffered ops d wr s = Some (wr + int n, s') \<and> n \<le> length d \<and> evolves True s as s' as' \<and>
    contents (bufs s') as' = contents (bufs s) as @ take n d \<and> data_bytes (u_w s') = data_bytes (u_w s) + int n \<and>
    max_buffers (u_w s') = max_buffers (u_w s) \<and> (n < length d \<longrightarrow> no_space (u_w s'))"
  using assms(1,2)
proof (induction d arbitrary: s as wr rule: length_induct)
  case (1 d)
  have b: "blist True t = u_w t" for t by (simp add: blist_def)
  note q = "1.prems" [folded b]
  show ?case
  proof (cases "d = []")
    case True
    then show ?thesis using evolves_refl [OF q] by (subst ustream_write_buffered.simps) auto
  next
    case False
    show ?thesis
    proof (rule prepare_buf_ok [OF q assms(3), of "int (length d)"], goal_cases)
      case (1 s')
      then show ?thesis using False by (subst ustream_write_buffered.simps) (auto simp: b)
    next
      case (2 s1 as1 a y)
      let ?n = "min (b_end y - b_tail y) (length d)"
      have n: "0 < ?n" "take ?n d \<noteq> []" "length (take ?n d) = ?n" using 2(7) False by auto
      note q1 = evolvesD(1,2) [OF 2(2)]
      obtain s2 s3 where s3: "store_buf a (b_tail y) (take ?n d) s1 = Some s2" "upd_buf a (\<lambda>x. x\<lparr>b_tail := b_tail x + ?n\<rparr>) s2 = Some s3"
          "evolves True s1 as1 s3 as1" "contents (bufs s3) as1 = contents (bufs s1) as1 @ take ?n d" "blist True s3 = blist True s1"
        by (rule append_ok [OF q1 2(5,6) n(2)]) (use 2(7) n in auto)
      let ?s = "upd_blist True (\<lambda>l. l\<lparr>data_bytes := data_bytes l + int ?n\<rparr>) s3"
      have "evolves True s3 as1 ?s as1" using evolvesD(1,2) [OF s3(3)] by (auto simp: evolves_def queue_ok_def bounded_def)
      then have ev: "evolves True s as ?s as1"
        using evolves_trans [OF evolves_trans [OF 2(2) s3(3) q(2)] _ q(2)] by blast
      have loop: "ustream_write_buffered ops d wr s = ustream_write_buffered ops (drop ?n d) (wr + int ?n) ?s"
        using False 2(1,5,6) s3(1,2) by (subst ustream_write_buffered.simps) (simp add: b Let_def)
      have "length (drop ?n d) < length d" using n False by auto
      with "1.IH" evolvesD(1,2) [OF ev] obtain k s' as' where s': "ustream_write_buffered ops (drop ?n d) (wr + int ?n) ?s = Some (wr + int ?n + int k, s')"
          "k \<le> length (drop ?n d)" "evolves True ?s as1 s' as'" "contents (bufs s') as' = contents (bufs ?s) as1 @ take k (drop ?n d)"
          "data_bytes (u_w s') = data_bytes (u_w ?s) + int k" "max_buffers (u_w s') = max_buffers (u_w ?s)"
          "k < length (drop ?n d) \<longrightarrow> no_space (u_w s')"
        unfolding b by blast
      have w: "u_w ?s = (u_w s3)\<lparr>data_bytes := data_bytes (u_w s3) + int ?n\<rparr>" "u_w s3 = u_w s1" using s3(5) by (simp_all add: upd_blist_def blist_def)
      show ?thesis
        by (intro exI [of _ "?n + k"] exI [of _ s'] exI [of _ as'])
          (use loop s' s3(4) 2(3,4) w evolves_trans [OF ev s'(3) q(2)] in \<open>auto simp: take_add same_conf_def b\<close>)
    qed
  qed
qed

section \<open>The function that writes\<close>

text \<open>The timer and the descriptor of a stream are known to the loop.\<close>

definition loop_ready :: "uloop \<Rightarrow> nat \<Rightarrow> nat \<Rightarrow> bool" where
  "loop_ready u t f \<longleftrightarrow> set (timeouts u) \<subseteq> dom (tmo u) \<and> t \<in> dom (tmo u) \<and> f \<in> dom (ufds u)"

lemma set_place_timeout: "place_timeout M tm t l = Some l' \<Longrightarrow> set l' = insert t (set l)"
  by (induction l arbitrary: l') (auto simp: Option.bind_eq_Some_conv split: if_splits)

lemma timeout_set_ready:
  assumes "loop_ready u t f"
  obtains r u' where "uloop_timeout_set t n u = Some (r, u')" "loop_ready u' t f"
proof -
  obtain x where x: "tmo u t = Some x" "set (timeouts u) \<subseteq> dom (tmo u)" using assms by (auto simp: loop_ready_def)
  obtain u0 x0 where u0: "(if t_pending x then uloop_timeout_cancel t u else Some (0, u)) = Some (0, u0)" "tmo u0 t = Some x0"
      "set (timeouts u0) \<subseteq> dom (tmo u0)" "ufds u0 = ufds u" "\<not> t_pending x0"
  proof (cases "t_pending x")
    case True
    then show thesis
      using x set_remove1_subset [of t "timeouts u"]
      by (intro that [of "u\<lparr>timeouts := remove1 t (timeouts u), tmo := (tmo u)(t \<mapsto> x\<lparr>t_pending := False\<rparr>)\<rparr>" "x\<lparr>t_pending := False\<rparr>"])
        (auto simp: uloop_timeout_cancel_def)
  qed (use x that [of u x] in simp)
  let ?x = "x0\<lparr>t_time := timeout_time (fst (uloop_gettime u0)) n\<rparr>"
  let ?u1 = "(snd (uloop_gettime u0))\<lparr>tmo := (tmo u0)(t \<mapsto> ?x)\<rparr>"
  have u1: "uloop_timeout_set t n u = uloop_timeout_add t ?u1" "set (timeouts ?u1) \<subseteq> dom (tmo ?u1)"
    using x u0 by (auto simp: uloop_timeout_set_def uloop_gettime_def)
  then obtain l where l: "place_timeout (tmo ?u1) (t_time ?x) t (timeouts ?u1) = Some l" using place_timeout_ok by blast
  let ?u2 = "?u1\<lparr>timeouts := l, tmo := (tmo ?u1)(t \<mapsto> ?x\<lparr>t_pending := True\<rparr>)\<rparr>"
  have "uloop_timeout_set t n u = Some (0, ?u2)" using u1(1) l u0(5) by (simp add: uloop_timeout_add_def)
  moreover have "loop_ready ?u2 t f"
    using set_place_timeout [OF l] u1(2) u0(4) assms by (auto simp: loop_ready_def uloop_gettime_def)
  ultimately show thesis by (rule that)
qed

lemma stack_event_some:
  "ufds u f = Some x \<Longrightarrow> \<exists>b v. uloop_fd_stack_event f e u = Some (b, v) \<and> ufds v = ufds u \<and> timeouts v = timeouts u \<and> tmo v = tmo u"
  by (cases "stack_frame f e (fd_stack u)") (auto simp: uloop_fd_stack_event_def)

lemma fd_add_ready:
  assumes "loop_ready u t f"
  obtains r u' where "uloop_fd_add f flags u = Some (r, u')" "loop_ready u' t f"
proof -
  obtain x where x: "ufds u f = Some x" using assms by (auto simp: loop_ready_def)
  show thesis
  proof (cases "flags AND (ULOOP_READ OR ULOOP_WRITE) = 0")
    case True
    let ?u = "u\<lparr>cur_fds := forget_events f (cur_fds u), ufds := (ufds u)(f \<mapsto> x\<lparr>f_registered := False\<rparr>)\<rparr>"
    obtain b v where "uloop_fd_stack_event f (- 1) ?u = Some (b, v)" "ufds v = ufds ?u" "timeouts v = timeouts u" "tmo v = tmo u"
      using stack_event_some [of ?u f "x\<lparr>f_registered := False\<rparr>" "- 1"] by auto
    then show thesis
      using True x assms that by (cases "f_registered x")
        (auto simp: uloop_fd_add_def uloop_fd_delete_def epoll_delete_def epoll_ctl_def loop_ready_def Let_def)
  next
    case False
    obtain r v y where v: "register_poll f flags u = Some (r, v)" "ufds v = (ufds u)(f \<mapsto> y)" "timeouts v = timeouts u" "tmo v = tmo u"
      using x by (simp add: register_poll_def epoll_ctl_def Let_def)
    show thesis
    proof (cases "r < 0")
      case True
      then show thesis using False v assms by (intro that [of r v]) (auto simp: uloop_fd_add_def loop_ready_def)
    next
      case ge: False
      let ?v = "v\<lparr>ufds := (ufds v)(f \<mapsto> y\<lparr>f_registered := True, f_eof := False, f_error := False\<rparr>)\<rparr>"
      show thesis using False ge v assms by (intro that [of r ?v]) (auto simp: uloop_fd_add_def loop_ready_def)
    qed
  qed
qed

definition stream_ready :: "ustream \<Rightarrow> bool" where
  "stream_ready s \<longleftrightarrow> loop_ready (loop s) (state_change s) (s_fd s)"

lemma state_change_ready:
  assumes "stream_ready s"
  obtains u where "ustream_state_change s = Some (s\<lparr>loop := u\<rparr>)" "stream_ready (s\<lparr>loop := u\<rparr>)"
proof -
  obtain r u where "uloop_timeout_set (state_change s) 0 (loop s) = Some (r, u)" "loop_ready u (state_change s) (s_fd s)"
    using assms unfolding stream_ready_def by (rule timeout_set_ready)
  then show thesis by (intro that [of u]) (simp_all add: ustream_state_change_def stream_ready_def)
qed

lemma set_uloop_ready:
  assumes "stream_ready s"
  obtains u where "ustream_fd_set_uloop w s = Some (s\<lparr>loop := u\<rparr>)" "stream_ready (s\<lparr>loop := u\<rparr>)"
proof -
  obtain flags where "ustream_fd_set_uloop w s = do { (_, u) \<leftarrow> uloop_fd_add (s_fd s) flags (loop s); Some (s\<lparr>loop := u\<rparr>) }"
    by (simp add: ustream_fd_set_uloop_def Let_def)
  moreover obtain r u where "uloop_fd_add (s_fd s) flags (loop s) = Some (r, u)" "loop_ready u (state_change s) (s_fd s)"
    using assms unfolding stream_ready_def by (rule fd_add_ready)
  ultimately show thesis using that by (simp add: stream_ready_def)
qed

text \<open>
  What the core relies on: the function accepts a prefix of the data and returns its length, or fails; it does not touch
  the buffers.
\<close>

definition outside :: "ustream \<Rightarrow> ustream \<Rightarrow> bool" where
  "outside s s' \<longleftrightarrow> s' = s\<lparr>loop := loop s', write_error := write_error s', sys_writes := sys_writes s', sent := sent s'\<rparr>"

locale stream_backend =
  fixes wr :: "byte list \<Rightarrow> bool \<Rightarrow> ustream \<Rightarrow> (int \<times> ustream) option"
  assumes wr_ok: "stream_ready s \<Longrightarrow> \<exists>n s'. wr d m s = Some (n, s') \<and> n \<le> int (length d) \<and> outside s s' \<and> write_error s' = write_error s \<and>
    stream_ready s' \<and> (0 \<le> n \<longrightarrow> sent s' = sent s @ take (nat n) d)"

lemma write_loop_ok: "write_loop rs ret n = (ok, k, rs') \<Longrightarrow> ret \<le> k \<and> k \<le> ret + n"
proof (induction rs ret n rule: write_loop.induct)
  case (3 r rs ret n)
  then show ?case by (cases r) (fastforce simp: min_def split: if_splits)+
qed auto

interpretation fd_backend: stream_backend ustream_fd_write
proof
  fix s m and d :: "byte list"
  assume s: "stream_ready s"
  obtain ok k rs where l: "write_loop (sys_writes s) 0 (length d) = (ok, k, rs)" by (cases "write_loop (sys_writes s) 0 (length d)")
  have k: "k \<le> length d" using write_loop_ok [OF l] by simp
  let ?s = "s\<lparr>sys_writes := rs, sent := sent s @ take k d\<rparr>"
  have "stream_ready ?s" using s by (simp add: stream_ready_def)
  then obtain u where u: "ustream_fd_set_uloop True ?s = Some (?s\<lparr>loop := u\<rparr>)" "stream_ready (?s\<lparr>loop := u\<rparr>)" by (rule set_uloop_ready)
  consider "d = []" | "d \<noteq> []" "\<not> ok" | "d \<noteq> []" "ok" "k < length d" | "d \<noteq> []" "ok" "\<not> k < length d" by blast
  then show "\<exists>n s'. ustream_fd_write d m s = Some (n, s') \<and> n \<le> int (length d) \<and> outside s s' \<and> write_error s' = write_error s \<and>
      stream_ready s' \<and> (0 \<le> n \<longrightarrow> sent s' = sent s @ take (nat n) d)"
    using s k u \<open>stream_ready ?s\<close> by cases (simp_all add: ustream_fd_write_def l outside_def stream_ready_def)
qed

section \<open>The two queues of a stream\<close>

text \<open>Operations on one queue that also use the outside; the other direction of the stream is left alone.\<close>

definition moves :: "bool \<Rightarrow> ustream \<Rightarrow> nat list \<Rightarrow> ustream \<Rightarrow> nat list \<Rightarrow> bool" where
  "moves w s as s' as' \<longleftrightarrow> queue_ok (string_data s) (bufs s') (blist w s') as' \<and> bounded s' \<and> brk s \<le> brk s' \<and>
     (\<forall>c\<in>dom (bufs s) - set as. bufs s' c = bufs s c) \<and> (\<forall>c\<in>set as'. c < brk s \<longrightarrow> c \<in> set as) \<and>
     string_data s' = string_data s \<and> blist (\<not> w) s' = blist (\<not> w) s \<and> (w \<longrightarrow> arriving s' = arriving s) \<and>
     (\<not> w \<longrightarrow> sent s' = sent s \<and> write_error s' = write_error s)"

lemma same_but_fields:
  assumes "same_but w s s'"
  shows "sent s' = sent s" "write_error s' = write_error s" "arriving s' = arriving s" "loop s' = loop s" "state_change s' = state_change s"
    "s_fd s' = s_fd s" "read_blocked s' = read_blocked s" "sys_reads s' = sys_reads s" "eof s' = eof s"
proof -
  have s': "s' = s\<lparr>u_r := u_r s', u_w := u_w s', bufs := bufs s', brk := brk s'\<rparr>" using assms by (simp add: same_but_def)
  show "sent s' = sent s" "write_error s' = write_error s" "arriving s' = arriving s" "loop s' = loop s" "state_change s' = state_change s"
      "s_fd s' = s_fd s" "read_blocked s' = read_blocked s" "sys_reads s' = sys_reads s" "eof s' = eof s"
    by (subst s', simp)+
qed

lemma outside_fields:
  assumes "outside s s'"
  shows "bufs s' = bufs s" "brk s' = brk s" "u_r s' = u_r s" "u_w s' = u_w s" "string_data s' = string_data s" "arriving s' = arriving s"
    "state_change s' = state_change s" "s_fd s' = s_fd s"
proof -
  have s': "s' = s\<lparr>loop := loop s', write_error := write_error s', sys_writes := sys_writes s', sent := sent s'\<rparr>" using assms by (simp add: outside_def)
  show "bufs s' = bufs s" "brk s' = brk s" "u_r s' = u_r s" "u_w s' = u_w s" "string_data s' = string_data s" "arriving s' = arriving s"
      "state_change s' = state_change s" "s_fd s' = s_fd s"
    by (subst s', simp)+
qed

lemma evolves_moves: "evolves w s as s' as' \<Longrightarrow> moves w s as s' as'"
  using same_but_fields [of w s s'] same_but_string [of w s s'] by (auto simp: evolves_def moves_def same_but_def)

lemma outside_moves:
  "outside s s' \<Longrightarrow> queue_ok (string_data s) (bufs s) (u_w s) as \<Longrightarrow> bounded s \<Longrightarrow> moves True s as s' as"
  using outside_fields [of s s'] by (simp add: moves_def blist_def bounded_def)

lemma moves_trans [trans]:
  assumes "moves w s as t bs" and "moves w t bs u cs" and "bounded s"
  shows "moves w s as u cs"
proof -
  have b: "bufs t c = bufs s c" "c \<notin> set bs" if "c \<in> dom (bufs s) - set as" for c
    using assms(1,3) that by (auto simp: moves_def bounded_def)
  then have "bufs u c = bufs s c" if "c \<in> dom (bufs s) - set as" for c
    using assms(2) that by (metis Diff_iff domIff moves_def)
  moreover have "c \<in> set as" if "c \<in> set cs" "c < brk s" for c
    using assms(1,2) that unfolding moves_def by (meson le_trans not_le)
  ultimately show ?thesis using assms(1,2) unfolding moves_def by auto
qed

lemma movesD:
  assumes "moves w s as s' as'"
  shows "queue_ok (string_data s') (bufs s') (blist w s') as'" and "bounded s'" and "string_data s' = string_data s"
  using assms unfolding moves_def by simp_all

lemma ready_same: "stream_ready s \<Longrightarrow> loop s' = loop s \<Longrightarrow> state_change s' = state_change s \<Longrightarrow> s_fd s' = s_fd s \<Longrightarrow> stream_ready s'"
  by (simp add: stream_ready_def)

lemma evolves_ready: "evolves w s as s' as' \<Longrightarrow> stream_ready s \<Longrightarrow> stream_ready s'"
  using same_but_fields [of w s s'] by (simp add: evolves_def stream_ready_def)

context stream_backend
begin

lemma write_error_ok:
  assumes "stream_ready s"
  obtains s' where "ustream_write_error s = Some s'" "outside s s'" "stream_ready s'" "write_error s'"
proof (cases "write_error s")
  case True
  then show thesis using assms by (intro that [of "s\<lparr>write_error := True\<rparr>"]) (auto simp: ustream_write_error_def outside_def stream_ready_def)
next
  case False
  obtain u where "ustream_state_change s = Some (s\<lparr>loop := u\<rparr>)" "stream_ready (s\<lparr>loop := u\<rparr>)" using assms by (rule state_change_ready)
  with False show thesis
    by (intro that [of "s\<lparr>loop := u, write_error := True\<rparr>"]) (auto simp: ustream_write_error_def outside_def stream_ready_def)
qed

lemma pending_loop_ok:
  assumes ops: "op_write ops = wr" and "queue_ok (string_data s) (bufs s) (u_w s) as" and "bounded s" and "stream_ready s"
    and "data_bytes (u_w s) = int (length (contents (bufs s) as))" and "contents (bufs s) as \<noteq> [] \<longrightarrow> p = l_head (u_w s)"
  shows "\<exists>n s' as'. pending_loop ops p k s = Some (n, s') \<and> moves True s as s' as' \<and> stream_ready s' \<and>
    data_bytes (u_w s') = int (length (contents (bufs s') as')) \<and>
    (write_error s' \<or> write_error s' = write_error s \<and> sent s' @ contents (bufs s') as' = sent s @ contents (bufs s) as)"
  using assms(2-6)
proof (induction "length (contents (bufs s) as)" arbitrary: s as p k rule: less_induct)
  case less
  have b: "blist True t = u_w t" for t by (simp add: blist_def)
  note q = less.prems(1) [folded b]
  show ?case
  proof (cases "contents (bufs s) as = []")
    case True
    then have "pending_loop ops p k s = Some (k, s)" using less.prems(4) by (subst pending_loop.simps) (simp split: option.split)
    then show ?thesis using less.prems evolves_moves [OF evolves_refl [OF q less.prems(2)]] by auto
  next
    case False
    obtain a rest x where as: "as = a # rest" and x: "bufs s a = Some x" "l_head (u_w s) = Some a" "b_data x < b_tail x" "buf_ok (string_data s) x"
      by (rule head_nonempty [OF less.prems(1) False])
    have len: "length (bytes_of x) = b_tail x - b_data x" using x by simp
    obtain n s1 where s1: "wr (bytes_of x) (b_next x \<noteq> None) s = Some (n, s1)" "n \<le> int (length (bytes_of x))" "outside s s1"
        "write_error s1 = write_error s" "stream_ready s1" "0 \<le> n \<longrightarrow> sent s1 = sent s @ take (nat n) (bytes_of x)"
      using wr_ok [OF less.prems(3)] by metis
    note o = outside_fields [OF s1(3)]
    note mv1 = outside_moves [OF s1(3) less.prems(1,2)]
    let ?s2 = "upd_blist True (\<lambda>l. l\<lparr>data_bytes := data_bytes l - n\<rparr>) s1"
    have q2: "queue_ok (string_data ?s2) (bufs ?s2) (blist True ?s2) (a # rest)" "bounded ?s2" "bufs ?s2 a = Some x"
      using less.prems(1,2) as x o by (auto simp: queue_ok_def b bounded_def)
    have mv2: "moves True s as ?s2 as" using mv1 q2 as unfolding moves_def by (auto simp: upd_blist_def blist_def bounded_def)
    have r2: "stream_ready ?s2" "sent ?s2 = sent s1" "write_error ?s2 = write_error s"
      using s1(4,5) by (simp_all add: stream_ready_def upd_blist_def)
    have loop: "pending_loop ops p k s =
        (if n < 0 then do { s \<leftarrow> ustream_write_error s1; Some (k, s) } else if n = 0 then Some (k, s1)
         else if n < int (b_tail x) - int (b_data x) then do { s \<leftarrow> upd_buf a (\<lambda>x. x\<lparr>b_data := b_data x + nat n\<rparr>) ?s2; Some (k + n, s) }
         else do { s \<leftarrow> ustream_free_buf True a ?s2; pending_loop ops (b_next x) (k + n) s })"
      using less.prems(4,5) False x bytes_of_read [OF x(4)] s1(1) ops
      by (subst pending_loop.simps) (simp add: Let_def nat_diff_distrib')
    consider "n < 0" | "n = 0" | "0 < n" "n < int (b_tail x) - int (b_data x)" | "0 < n" "\<not> n < int (b_tail x) - int (b_data x)" by linarith
    then show ?thesis
    proof cases
      case 1
      obtain s' where s': "ustream_write_error s1 = Some s'" "outside s1 s'" "stream_ready s'" "write_error s'"
        using s1(5) by (rule write_error_ok)
      then have "outside s s'" using s1(3) by (cases s, cases s1, cases s') (simp add: outside_def)
      with 1 loop s' less.prems(1,2,4) outside_fields [of s s'] outside_moves [of s s' as] show ?thesis by auto
    next
      case 2
      then show ?thesis using loop s1 o mv1 less.prems(4) by auto
    next
      case 3
      obtain s' where s': "upd_buf a (\<lambda>x. x\<lparr>b_data := b_data x + nat n\<rparr>) ?s2 = Some s'" "evolves True ?s2 (a # rest) s' (a # rest)"
          "contents (bufs s') (a # rest) = drop (nat n) (contents (bufs ?s2) (a # rest))" "same_conf (blist True ?s2) (blist True s')"
        by (rule advance_ok [OF q2]) (use 3 in auto)
      have "moves True s as s' as" using moves_trans [OF mv2 _ less.prems(2)] evolves_moves [OF s'(2)] as by simp
      moreover have "contents (bufs s') as = drop (nat n) (contents (bufs s) as)" using s'(3) o(1) as by simp
      moreover have "data_bytes (u_w s') = data_bytes (u_w s) - n" using s'(4) o(4) by (simp add: same_conf_def blist_def upd_blist_def)
      moreover have "sent s' = sent s @ take (nat n) (contents (bufs s) as)" "write_error s' = write_error s"
        using same_but_fields [OF evolvesD(4) [OF s'(2)]] r2 s1(2,6) 3 as x by simp_all
      moreover have "nat n \<le> length (contents (bufs s) as)" using s1(2) as x by simp
      ultimately show ?thesis
        using loop 3 s'(1) evolves_ready [OF s'(2) r2(1)] less.prems(4)
        by (intro exI [of _ "k + n"] exI [of _ s'] exI [of _ as]) simp
    next
      case 4
      have n: "nat n = length (bytes_of x)" using 4 s1(2) len x by linarith
      obtain s3 bs where s3: "ustream_free_buf True a ?s2 = Some s3" "evolves True ?s2 (a # rest) s3 bs" "bs = rest \<or> bs = rest @ [a]"
          "contents (bufs s3) bs = contents (bufs ?s2) rest" "same_conf (blist True ?s2) (blist True s3)"
        by (rule free_head_evolves [OF q2(1,2)])
      have mv3: "moves True s as s3 bs" using moves_trans [OF mv2 _ less.prems(2)] evolves_moves [OF s3(2)] as by simp
      have c3: "contents (bufs s) as = bytes_of x @ contents (bufs s3) bs" using s3(4) o(1) as x by simp
      have d3: "data_bytes (u_w s3) = int (length (contents (bufs s3) bs))"
        using s3(5) o(4) less.prems(4) c3 n 4(1) by (simp add: same_conf_def blist_def upd_blist_def)
      have "sent s3 = sent s @ bytes_of x" "write_error s3 = write_error s"
        using same_but_fields [OF evolvesD(4) [OF s3(2)]] r2 s1(6) 4(1) n by simp_all
      moreover have "contents (bufs s3) bs \<noteq> [] \<longrightarrow> b_next x = l_head (u_w s3)"
      proof
        assume ne: "contents (bufs s3) bs \<noteq> []"
        then have "rest \<noteq> []" using s3(4) by auto
        then show "b_next x = l_head (u_w s3)"
          using seg_head [of "bufs s" "b_next x" rest] less.prems(1) as x evolvesD(1) [OF s3(2)] s3(3) unfolding queue_ok_def b
          by (cases rest) auto
      qed
      moreover have "length (contents (bufs s3) bs) < length (contents (bufs s) as)" using c3 n 4(1) by auto
      ultimately obtain m s' as' where "pending_loop ops (b_next x) (k + n) s3 = Some (m, s')" "moves True s3 bs s' as'" "stream_ready s'"
          "data_bytes (u_w s') = int (length (contents (bufs s') as'))"
          "write_error s' \<or> write_error s' = write_error s \<and> sent s' @ contents (bufs s') as' = sent s @ bytes_of x @ contents (bufs s3) bs"
        using less.hyps [of s3 bs "b_next x" "k + n"] movesD(1,2) [OF mv3] evolves_ready [OF s3(2) r2(1)] d3 unfolding b by auto
      then show ?thesis using loop 4 s3(1) c3 moves_trans [OF mv3 _ less.prems(2)] by (auto simp: not_less)
    qed
  qed
qed

end

text \<open>The invariant of a stream: two queues that share no buffer, with their numbers of bytes.\<close>

definition stream_ok :: "ustream \<Rightarrow> nat list \<Rightarrow> nat list \<Rightarrow> bool" where
  "stream_ok s rs ws \<longleftrightarrow> queue_ok (string_data s) (bufs s) (u_r s) rs \<and> queue_ok (string_data s) (bufs s) (u_w s) ws \<and>
     set rs \<inter> set ws = {} \<and> bounded s \<and> stream_ready s \<and>
     data_bytes (u_r s) = int (length (contents (bufs s) rs)) \<and> data_bytes (u_w s) = int (length (contents (bufs s) ws))"

lemma seg_cong: "(\<And>a. a \<in> set as \<Longrightarrow> h' a = h a) \<Longrightarrow> seg h' p as q = seg h p as q"
  by (induction as arbitrary: p) auto

lemma queue_ok_cong:
  assumes "queue_ok str h l as" and "\<And>a. a \<in> set as \<Longrightarrow> h' a = h a"
  shows "queue_ok str h' l as"
  using assms seg_cong [of as h' h "l_head l" None] filling_cong [of h "l_data_tail l" as h'] by (simp add: queue_ok_def)

lemma moves_other:
  assumes m: "moves w s as s' as'" and q: "queue_ok (string_data s) (bufs s) (blist (\<not> w) s) bs" and "set as \<inter> set bs = {}" and "bounded s"
  shows "queue_ok (string_data s') (bufs s') (blist (\<not> w) s') bs" and "contents (bufs s') bs = contents (bufs s) bs" and "set as' \<inter> set bs = {}"
proof -
  have dom: "b \<in> dom (bufs s)" if "b \<in> set bs" for b using seg_dom [of "bufs s" _ bs None b] q that unfolding queue_ok_def by blast
  have same: "bufs s' b = bufs s b" if "b \<in> set bs" for b using m dom [OF that] that assms(3) unfolding moves_def by blast
  show "queue_ok (string_data s') (bufs s') (blist (\<not> w) s') bs"
    using queue_ok_cong [OF q, of "bufs s'"] same m by (simp add: moves_def)
  show "contents (bufs s') bs = contents (bufs s) bs" using same by (intro contents_cong) simp
  show "set as' \<inter> set bs = {}" using m dom assms(3,4) unfolding moves_def bounded_def by blast
qed

lemma stream_ok_w:
  assumes "stream_ok s rs ws" and "moves True s ws s' ws'" and "stream_ready s'" and "data_bytes (u_w s') = int (length (contents (bufs s') ws'))"
  shows "stream_ok s' rs ws'" and "contents (bufs s') rs = contents (bufs s) rs"
proof -
  have r: "queue_ok (string_data s) (bufs s) (blist (\<not> True) s) rs" "set ws \<inter> set rs = {}" "bounded s"
    using assms(1) by (auto simp: stream_ok_def blist_def)
  note m = moves_other [OF assms(2) r]
  from m(2) show "contents (bufs s') rs = contents (bufs s) rs" .
  with m movesD [OF assms(2)] assms show "stream_ok s' rs ws'" by (auto simp: stream_ok_def blist_def moves_def)
qed

lemma stream_ok_r:
  assumes "stream_ok s rs ws" and "moves False s rs s' rs'" and "stream_ready s'" and "data_bytes (u_r s') = int (length (contents (bufs s') rs'))"
  shows "stream_ok s' rs' ws" and "contents (bufs s') ws = contents (bufs s) ws"
proof -
  have r: "queue_ok (string_data s) (bufs s) (blist (\<not> False) s) ws" "set rs \<inter> set ws = {}" "bounded s"
    using assms(1) by (auto simp: stream_ok_def blist_def)
  note m = moves_other [OF assms(2) r]
  from m(2) show "contents (bufs s') ws = contents (bufs s) ws" .
  with m movesD [OF assms(2)] assms show "stream_ok s' rs' ws" by (auto simp: stream_ok_def blist_def moves_def)
qed

text \<open>
  The data that an application has written is what has been sent and what is pending, until an error occurs.
\<close>

definition written :: "ustream \<Rightarrow> nat list \<Rightarrow> ustream \<Rightarrow> nat list \<Rightarrow> byte list \<Rightarrow> bool" where
  "written s ws s' ws' d \<longleftrightarrow> write_error s' \<or> \<not> write_error s \<and> sent s' @ contents (bufs s') ws' = sent s @ contents (bufs s) ws @ d"

text \<open>A function that is absent or leaves the stream alone.\<close>

definition quiet :: "(int \<Rightarrow> ustream \<Rightarrow> ustream option) option \<Rightarrow> bool" where
  "quiet f \<longleftrightarrow> (\<forall>g. f = Some g \<longrightarrow> (\<forall>n s. g n s = Some s))"

lemma call_quiet: "quiet f \<Longrightarrow> call_opt (map_option (\<lambda>g. g n) f) s = Some s"
  by (cases f) (auto simp: quiet_def call_opt_def)

context stream_backend
begin

lemma buffered_ok:
  assumes ok: "stream_ok s rs ws" and alloc: "default_alloc ops True"
  shows "\<exists>n s' ws'. ustream_write_buffered ops d k s = Some (k + int n, s') \<and> n \<le> length d \<and> stream_ok s' rs ws' \<and>
    contents (bufs s') rs = contents (bufs s) rs \<and> arriving s' = arriving s \<and> sent s' = sent s \<and> write_error s' = write_error s \<and>
    contents (bufs s') ws' = contents (bufs s) ws @ take n d"
proof -
  have q: "queue_ok (string_data s) (bufs s) (u_w s) ws" "bounded s" using ok by (simp_all add: stream_ok_def)
  obtain n s' ws' where s': "ustream_write_buffered ops d k s = Some (k + int n, s')" "n \<le> length d" "evolves True s ws s' ws'"
      "contents (bufs s') ws' = contents (bufs s) ws @ take n d" "data_bytes (u_w s') = data_bytes (u_w s) + int n"
    using write_buffered_ok [OF q alloc, of d k] by blast
  moreover have "stream_ok s' rs ws'" "contents (bufs s') rs = contents (bufs s) rs"
    by (rule stream_ok_w [OF ok evolves_moves [OF s'(3)]]; use s' ok evolves_ready [OF s'(3)] in \<open>simp add: stream_ok_def\<close>)+
  ultimately show ?thesis using same_but_fields [OF evolvesD(4) [OF s'(3)]] by auto
qed

lemma stream_write_ok:
  assumes ops: "op_write ops = wr" "default_alloc ops True" and ok: "stream_ok s rs ws"
  shows "\<exists>n s' ws'. ustream_write ops d m s = Some (n, s') \<and> n \<le> int (length d) \<and> stream_ok s' rs ws' \<and>
    contents (bufs s') rs = contents (bufs s) rs \<and> arriving s' = arriving s \<and> written s ws s' ws' (take (nat n) d)"
proof -
  consider "write_error s" | "\<not> write_error s" "data_bytes (u_w s) \<noteq> 0" | "\<not> write_error s" "data_bytes (u_w s) = 0" by blast
  then show ?thesis
  proof cases
    case 1
    then show ?thesis using ok by (auto simp: ustream_write_def written_def)
  next
    case 2
    then show ?thesis using buffered_ok [OF ok ops(2), of d 0] by (auto simp: ustream_write_def written_def)
  next
    case 3
    have e: "contents (bufs s) ws = []" using 3 ok by (simp add: stream_ok_def)
    have q: "queue_ok (string_data s) (bufs s) (u_w s) ws" "bounded s" using ok by (simp_all add: stream_ok_def)
    obtain n s1 where s1: "wr d m s = Some (n, s1)" "n \<le> int (length d)" "outside s s1" "write_error s1 = write_error s" "stream_ready s1"
        "0 \<le> n \<longrightarrow> sent s1 = sent s @ take (nat n) d"
      using wr_ok [of s d m] ok unfolding stream_ok_def by blast
    note o = outside_fields [OF s1(3)]
    have ok1: "stream_ok s1 rs ws" using stream_ok_w(1) [OF ok outside_moves [OF s1(3) q] s1(5)] o e 3 by simp
    consider "n = int (length d)" | "n < 0" | "0 \<le> n" "n < int (length d)" using s1(2) by linarith
    then show ?thesis
    proof cases
      case 1
      then show ?thesis using 3 ops s1 ok1 o e by (auto simp: ustream_write_def written_def)
    next
      case 2
      obtain s' where s': "ustream_write_error s1 = Some s'" "outside s1 s'" "stream_ready s'" "write_error s'" using s1(5) by (rule write_error_ok)
      note o' = outside_fields [OF s'(2)]
      have "stream_ok s' rs ws" using ok1 s'(3) o' by (simp add: stream_ok_def bounded_def)
      then show ?thesis using 2 3 ops s1(1,2) s' o o' by (auto simp: ustream_write_def written_def)
    next
      case part: 3
      obtain k s' ws' where s': "ustream_write_buffered ops (drop (nat n) d) n s1 = Some (n + int k, s')" "k \<le> length (drop (nat n) d)"
          "stream_ok s' rs ws'" "contents (bufs s') rs = contents (bufs s1) rs" "arriving s' = arriving s1" "sent s' = sent s1"
          "write_error s' = write_error s1" "contents (bufs s') ws' = contents (bufs s1) ws @ take k (drop (nat n) d)"
        using buffered_ok [OF ok1 ops(2), of "drop (nat n) d" n] by blast
      have "take (nat (n + int k)) d = take (nat n) d @ take k (drop (nat n) d)" using part(1) by (simp add: nat_add_distrib take_add)
      then show ?thesis using part 3 ops(1) s1(1,4,6) s' o e
        by (intro exI [of _ "n + int k"] exI [of _ s'] exI [of _ ws']) (auto simp: ustream_write_def written_def)
    qed
  qed
qed

lemma stream_flush_ok:
  assumes ops: "op_write ops = wr" "quiet (op_notify_write ops)" and ok: "stream_ok s rs ws"
  shows "\<exists>b s' ws'. ustream_write_pending ops s = Some (b, s') \<and> stream_ok s' rs ws' \<and>
    contents (bufs s') rs = contents (bufs s) rs \<and> arriving s' = arriving s \<and> written s ws s' ws' []"
proof (cases "write_error s")
  case True
  then show ?thesis using ok by (auto simp: ustream_write_pending_def written_def)
next
  case False
  obtain n s1 ws' where s1: "pending_loop ops (l_head (u_w s)) 0 s = Some (n, s1)" "moves True s ws s1 ws'" "stream_ready s1"
      "data_bytes (u_w s1) = int (length (contents (bufs s1) ws'))"
      "write_error s1 \<or> write_error s1 = write_error s \<and> sent s1 @ contents (bufs s1) ws' = sent s @ contents (bufs s) ws"
    using pending_loop_ok [OF ops(1), of s ws "l_head (u_w s)" 0] ok unfolding stream_ok_def by blast
  note ok1 = stream_ok_w [OF ok s1(2-4)]
  obtain u where u: "ustream_state_change s1 = Some (s1\<lparr>loop := u\<rparr>)" "stream_ready (s1\<lparr>loop := u\<rparr>)" using s1(3) by (rule state_change_ready)
  have "stream_ok (s1\<lparr>loop := u\<rparr>) rs ws'" using ok1(1) u(2) by (simp add: stream_ok_def bounded_def)
  then show ?thesis
    using False s1 call_quiet [OF ops(2)] ok1 u(1) by (auto simp: ustream_write_pending_def written_def moves_def)
qed

end

section \<open>Reading from a descriptor\<close>

text \<open>
  The functions of a stream on a descriptor, with the default allocation and enough memory; the functions that the application wants to be called
  on new data and on progress are absent, or leave the stream alone.
\<close>

definition plain_ops :: "ustream_ops \<Rightarrow> bool" where
  "plain_ops ops \<longleftrightarrow> op_alloc ops = (\<lambda>_. None) \<and> (\<forall>k. op_memory ops k) \<and> op_write ops = ustream_fd_write \<and>
     op_set_read_blocked ops = Some ustream_fd_set_read_blocked \<and> quiet (op_notify_read ops) \<and> quiet (op_notify_write ops)"

lemma set_blocked_ok:
  assumes "plain_ops ops" and "stream_ready s"
  obtains u where "set_blocked ops v s = Some (s\<lparr>read_blocked := v, loop := u\<rparr>)" "stream_ready (s\<lparr>read_blocked := v, loop := u\<rparr>)"
proof (cases "(read_blocked s \<noteq> 0) \<noteq> (v \<noteq> 0)")
  case True
  have "stream_ready (s\<lparr>read_blocked := v\<rparr>)" using assms(2) by (simp add: stream_ready_def)
  then obtain u where "ustream_fd_set_uloop False (s\<lparr>read_blocked := v\<rparr>) = Some (s\<lparr>read_blocked := v, loop := u\<rparr>)"
      "stream_ready (s\<lparr>read_blocked := v, loop := u\<rparr>)" by (rule set_uloop_ready)
  then show thesis using True assms(1) by (intro that) (simp_all add: set_blocked_def plain_ops_def ustream_fd_set_read_blocked_def Let_def)
next
  case False
  then show thesis using assms(2) by (intro that [of "loop s"]) (auto simp: set_blocked_def stream_ready_def Let_def)
qed

text \<open>What the read side leaves alone.\<close>

definition reads_only :: "ustream \<Rightarrow> ustream \<Rightarrow> nat list \<Rightarrow> bool" where
  "reads_only s s' ws \<longleftrightarrow> contents (bufs s') ws = contents (bufs s) ws \<and> sent s' = sent s \<and> write_error s' = write_error s"

lemma reads_only_trans: "reads_only s t ws \<Longrightarrow> reads_only t u ws \<Longrightarrow> reads_only s u ws"
  by (simp add: reads_only_def)

lemma consume_ok:
  assumes ops: "plain_ops ops" and ok: "stream_ok s rs ws" and n: "n \<le> length (contents (bufs s) rs)"
  shows "\<exists>s' rs'. ustream_consume ops (int n) s = Some s' \<and> stream_ok s' rs' ws \<and> contents (bufs s') rs' = drop n (contents (bufs s) rs) \<and>
    arriving s' = arriving s \<and> sys_reads s' = sys_reads s \<and> reads_only s s' ws"
proof (cases "n = 0")
  case True
  then show ?thesis using ok by (auto simp: ustream_consume_def reads_only_def)
next
  case False
  let ?s1 = "upd_blist False (\<lambda>l. l\<lparr>data_bytes := data_bytes l - int n\<rparr>) s"
  have s1: "bufs ?s1 = bufs s" "u_r ?s1 = (u_r s)\<lparr>data_bytes := data_bytes (u_r s) - int n\<rparr>" "string_data ?s1 = string_data s" "brk ?s1 = brk s"
    by (simp_all add: upd_blist_def)
  have q: "queue_ok (string_data ?s1) (bufs ?s1) (u_r ?s1) rs" "bounded ?s1"
    using ok by (simp_all add: s1 stream_ok_def queue_ok_def bounded_def)
  then have "evolves False s rs ?s1 rs" by (simp add: evolves_def blist_def s1)
  then have mv1: "moves False s rs ?s1 rs" by (rule evolves_moves)
  obtain s2 rs' where s2: "consume_loop (l_head (u_r s)) (int n) ?s1 = Some s2" "evolves False ?s1 rs s2 rs'"
      "contents (bufs s2) rs' = drop n (contents (bufs s) rs)" "same_conf (u_r ?s1) (u_r s2)"
    using consume_loop_ok [OF q, of n] False n by (auto simp: s1)
  have "bounded s" using ok by (simp add: stream_ok_def)
  note mv2 = moves_trans [OF mv1 evolves_moves [OF s2(2)] this]
  have "stream_ready ?s1" using ok by (simp add: stream_ok_def stream_ready_def upd_blist_def)
  then have r2: "stream_ready s2" by (rule evolves_ready [OF s2(2)])
  have d2: "data_bytes (u_r s2) = int (length (contents (bufs s2) rs'))"
    using s2(3,4) s1(2) ok n by (simp add: same_conf_def stream_ok_def)
  note ok2 = stream_ok_r [OF ok mv2 r2 d2]
  obtain u where u: "set_blocked ops (read_blocked s2 AND NOT READ_BLOCKED_FULL) s2 =
      Some (s2\<lparr>read_blocked := read_blocked s2 AND NOT READ_BLOCKED_FULL, loop := u\<rparr>)"
      "stream_ready (s2\<lparr>read_blocked := read_blocked s2 AND NOT READ_BLOCKED_FULL, loop := u\<rparr>)"
    by (rule set_blocked_ok [OF ops r2])
  have "ustream_consume ops (int n) s = Some (s2\<lparr>read_blocked := read_blocked s2 AND NOT READ_BLOCKED_FULL, loop := u\<rparr>)"
    using False s2(1) u(1) n ok by (simp add: ustream_consume_def s1 stream_ok_def)
  moreover have "stream_ok (s2\<lparr>read_blocked := read_blocked s2 AND NOT READ_BLOCKED_FULL, loop := u\<rparr>) rs' ws"
    using ok2(1) u(2) by (simp add: stream_ok_def bounded_def)
  moreover have "arriving s2 = arriving s" "sys_reads s2 = sys_reads s" "reads_only s s2 ws"
    using same_but_fields [OF evolvesD(4) [OF s2(2)]] ok2(2) by (simp_all add: reads_only_def upd_blist_def)
  ultimately show ?thesis using s2(3) by (auto simp: reads_only_def)
qed

lemma read_loop_ok:
  assumes ops: "plain_ops ops" and "stream_ok s rs ws" and "length got \<le> n"
  shows "\<exists>s' rs'. ustream_read_loop ops (int n) got s = Some (got @ take (n - length got) (contents (bufs s) rs), s') \<and> stream_ok s' rs' ws \<and>
    contents (bufs s') rs' = drop (n - length got) (contents (bufs s) rs) \<and> arriving s' = arriving s \<and> reads_only s s' ws"
  using assms(2,3)
proof (induction "n - length got" arbitrary: s rs got rule: less_induct)
  case less
  have q: "queue_ok (string_data s) (bufs s) (u_r s) rs" using less.prems by (simp add: stream_ok_def)
  show ?case
  proof (cases "contents (bufs s) rs = []")
    case True
    have "\<exists>k. ustream_get_read_buf s = Some (None, k)"
    proof (cases rs)
      case Nil
      then show ?thesis using q by (simp add: ustream_get_read_buf_def queue_ok_def)
    next
      case (Cons a as)
      then obtain x where "l_head (u_r s) = Some a" "bufs s a = Some x" "buf_ok (string_data s) x" "bytes_of x = []"
        using q True by (auto simp: queue_ok_def)
      then show ?thesis using length_bytes_of [of "string_data s" x] by (auto simp: ustream_get_read_buf_def buf_ok_def)
    qed
    then show ?thesis using True less.prems by (subst ustream_read_loop.simps) (auto simp: reads_only_def)
  next
    case False
    obtain a as x where rs: "rs = a # as" and x: "bufs s a = Some x" "l_head (u_r s) = Some a" "b_data x < b_tail x" "buf_ok (string_data s) x"
      by (rule head_nonempty [OF q False])
    have get: "ustream_get_read_buf s = Some (Some (bytes_of x), int (length (bytes_of x)))"
      using x bytes_of_read [OF x(4)] by (simp add: ustream_get_read_buf_def Let_def of_nat_diff nat_diff_distrib')
    let ?k = "min (length (bytes_of x)) (n - length got)"
    let ?C = "contents (bufs s) rs"
    have C: "take ?k ?C = take ?k (bytes_of x)" using rs x by simp
    obtain s1 rs1 where s1: "ustream_consume ops (int ?k) s = Some s1" "stream_ok s1 rs1 ws" "contents (bufs s1) rs1 = drop ?k ?C"
        "arriving s1 = arriving s" "reads_only s s1 ws"
    proof -
      have "?k \<le> length ?C" using rs x by simp
      from consume_ok [OF ops less.prems(1) this] show thesis using that by blast
    qed
    let ?got = "got @ take ?k (bytes_of x)"
    have chunk: "(if int (length (bytes_of x)) > int n - int (length got) then int n - int (length got) else int (length (bytes_of x))) = int ?k"
      using less.prems(2) by (auto simp: min_def)
    have loop: "ustream_read_loop ops (int n) got s =
        (if length ?got < n then ustream_read_loop ops (int n) ?got s1 else Some (?got, s1))"
      by (subst ustream_read_loop.simps) (simp add: get chunk s1(1) Let_def del: of_nat_min)
    show ?thesis
    proof (cases "length ?got < n")
      case True
      have "0 < length (bytes_of x)" using x by simp
      moreover have "length ?got = length got + ?k" by simp
      ultimately have lt: "n - length ?got < n - length got" "length ?got \<le> n" using True by linarith+
      obtain s' rs' where "ustream_read_loop ops (int n) ?got s1 = Some (?got @ take (n - length ?got) (contents (bufs s1) rs1), s')" "stream_ok s' rs' ws"
          "contents (bufs s') rs' = drop (n - length ?got) (contents (bufs s1) rs1)" "arriving s' = arriving s1" "reads_only s1 s' ws"
        using less.hyps [OF lt(1) s1(2) lt(2)] by blast
      moreover have "n - length got = ?k + (n - length ?got)" using True by auto
      moreover have "?got @ take (n - length ?got) (drop ?k ?C) = got @ take (?k + (n - length ?got)) ?C"
        by (simp add: take_add C [symmetric] del: of_nat_min)
      ultimately show ?thesis using loop True s1 reads_only_trans [OF s1(5)] by (auto simp: add.commute)
    next
      case False
      then have "?k = n - length got" using less.prems(2) by auto
      then show ?thesis using loop False s1 C by auto
    qed
  qed
qed

lemma fill_ok:
  assumes ops: "plain_ops ops" and q: "queue_ok (string_data s) (bufs s) (u_r s) as" "bounded s" and a: "l_data_tail (u_r s) = Some a" "bufs s a = Some x"
    and d: "d \<noteq> []" "b_tail x + length d \<le> b_end x"
  obtains s1 s' where "store_buf a (b_tail x) d s = Some s1" "ustream_fill_read ops (int (length d)) (s1\<lparr>arriving := z\<rparr>) = Some s'"
    "evolves False (s\<lparr>arriving := z\<rparr>) as s' as" "contents (bufs s') as = contents (bufs s) as @ d"
    "data_bytes (u_r s') = data_bytes (u_r s) + int (length d)"
proof -
  have b: "blist False t = u_r t" for t by (simp add: blist_def)
  have "a \<in> set as" using q(1) a(1) by (auto simp: queue_ok_def filling_def)
  then have x: "buf_ok (string_data s) x" using q a by (auto simp: queue_ok_def)
  have len: "b_tail x + length d + (if string_data s then 1 else 0) \<le> length (b_block x)" using x d by (auto simp: buf_ok_def)
  obtain m where m: "mem_write (b_block x) (b_tail x) d = Some m" using mem_write_defined [of "b_tail x" d "b_block x"] len by auto
  have m': "length m = length (b_block x)" "take (b_tail x) m = take (b_tail x) (b_block x)" "take (length d) (drop (b_tail x) m) = d"
    using m by (auto simp: mem_write_def split: if_splits)
  let ?t = "b_tail x + length d"
  define k where "k = (if string_data s then take ?t m @ [0] @ drop (?t + 1) m else m)"
  have k: "length k = length (b_block x)" "take (b_tail x) k = take (b_tail x) (b_block x)" "take (length d) (drop (b_tail x) k) = d"
    using len m' by (auto simp: k_def take_drop add.commute)
  have st: "store_buf a (b_tail x) d s = Some (s\<lparr>bufs := (bufs s)(a \<mapsto> x\<lparr>b_block := m\<rparr>)\<rparr>)" using a m by (simp add: store_buf_def)
  let ?y = "x\<lparr>b_block := k, b_tail := ?t\<rparr>"
  let ?base = "upd_blist False (\<lambda>l. l\<lparr>data_bytes := data_bytes l + int (length d)\<rparr>) (s\<lparr>arriving := z\<rparr>)"
  let ?s = "?base\<lparr>bufs := (bufs s)(a \<mapsto> ?y)\<rparr>"
  have max: "(if int (length d) < int (b_end x) - int (b_tail x) then int (length d) else int (b_end x) - int (b_tail x)) = int (length d)" using d(2) by auto
  have zero: "string_data s \<longrightarrow> mem_write m ?t [0] = Some k" using len m' by (auto simp: k_def mem_write_def)
  let ?s2 = "?base\<lparr>bufs := (bufs s)(a \<mapsto> x\<lparr>b_block := m\<rparr>)\<rparr>"
  have fixup: "ustream_fixup_string a (?base\<lparr>bufs := (bufs s)(a \<mapsto> x\<lparr>b_block := m, b_tail := ?t\<rparr>)\<rparr>) = Some ?s"
    using zero by (cases x, cases "string_data s") (auto simp: ustream_fixup_string_def store_buf_def upd_blist_def k_def)
  have "fill_loop (Some a) (int (length d)) ?s2 = Some (upd_blist False (\<lambda>l. l\<lparr>l_data_tail := Some a\<rparr>) ?s)"
  proof (cases "?t = b_end x")
    case True
    then have "int (b_end x) - int (b_tail x) = int (length d)" by linarith
    with fixup show ?thesis by (subst fill_loop.simps) (simp add: Let_def upd_buf_def nat_int_add)
  next
    case False
    then have "int (length d) < int (b_end x) - int (b_tail x)" using d(2) by linarith
    with fixup show ?thesis by (subst fill_loop.simps) (simp add: Let_def upd_buf_def nat_int_add)
  qed
  moreover have "upd_blist False (\<lambda>l. l\<lparr>l_data_tail := Some a\<rparr>) ?s = ?s" using a(1) by (simp add: upd_blist_def)
  moreover have "upd_blist False (\<lambda>l. l\<lparr>data_bytes := data_bytes l + int (length d)\<rparr>) (s\<lparr>bufs := (bufs s)(a \<mapsto> x\<lparr>b_block := m\<rparr>), arriving := z\<rparr>) = ?s2"
    by (simp add: upd_blist_def)
  ultimately have "ustream_fill_read ops (int (length d)) (s\<lparr>bufs := (bufs s)(a \<mapsto> x\<lparr>b_block := m\<rparr>), arriving := z\<rparr>) = Some ?s"
    using ops a(1) by (simp add: ustream_fill_read_def plain_ops_def call_quiet)
  moreover have "queue_ok (string_data ?base) (bufs ?base) (blist False ?base) as" "bounded ?base"
    using q by (simp_all add: queue_ok_def bounded_def blist_def upd_blist_def)
  then have "evolves False ?base as ?s as" "contents ((bufs s)(a \<mapsto> ?y)) as = contents (bufs s) as @ d"
    using grow_ok [of ?base False as a x d k] a d k by (simp_all add: blist_def upd_blist_def)
  moreover have "evolves False (s\<lparr>arriving := z\<rparr>) as ?base as"
    using q by (simp add: evolves_def queue_ok_def bounded_def blist_def upd_blist_def same_but_def)
  ultimately show thesis
    using st evolves_trans [of False "s\<lparr>arriving := z\<rparr>" as ?base as ?s as] q(2)
    by (intro that [of "s\<lparr>bufs := (bufs s)(a \<mapsto> x\<lparr>b_block := m\<rparr>)\<rparr>" ?s]) (auto simp: bounded_def upd_blist_def)
qed

text \<open>Space in the read buffers, or the stream is marked as blocked.\<close>

lemma reserve_ok:
  assumes ops: "plain_ops ops" and ok: "stream_ok s rs ws"
  obtains (full) s' where "ustream_reserve ops n s = Some (None, s')" "stream_ok s' rs ws" "contents (bufs s') rs = contents (bufs s) rs"
    "arriving s' = arriving s" "reads_only s s' ws"
  | (space) s' rs' a x where "ustream_reserve ops n s = Some (Some (a, int (b_end x) - int (b_tail x)), s')" "stream_ok s' rs' ws"
    "contents (bufs s') rs' = contents (bufs s) rs" "arriving s' = arriving s" "reads_only s s' ws" "sys_reads s' = sys_reads s"
    "l_data_tail (u_r s') = Some a" "bufs s' a = Some x" "b_tail x < b_end x"
proof -
  have b: "blist False t = u_r t" for t by (simp add: blist_def)
  have q: "queue_ok (string_data s) (bufs s) (blist False s) rs" "bounded s" "default_alloc ops False" "stream_ready s"
    using ok ops by (simp_all add: stream_ok_def plain_ops_def default_alloc_def b)
  show thesis
  proof (rule prepare_buf_ok [OF q(1-3), of n], goal_cases)
    case (1 s')
    have d: "data_bytes (u_r s') = int (length (contents (bufs s') rs))" using 1(3,4) ok by (simp add: stream_ok_def b)
    note ok' = stream_ok_r [OF ok evolves_moves [OF 1(2)] evolves_ready [OF 1(2) q(4)] d]
    obtain u where u: "set_blocked ops (read_blocked s' OR READ_BLOCKED_FULL) s' = Some (s'\<lparr>read_blocked := read_blocked s' OR READ_BLOCKED_FULL, loop := u\<rparr>)"
        "stream_ready (s'\<lparr>read_blocked := read_blocked s' OR READ_BLOCKED_FULL, loop := u\<rparr>)"
      by (rule set_blocked_ok [OF ops evolves_ready [OF 1(2) q(4)]])
    have "stream_ok (s'\<lparr>read_blocked := read_blocked s' OR READ_BLOCKED_FULL, loop := u\<rparr>) rs ws"
      using ok'(1) u(2) by (simp add: stream_ok_def bounded_def)
    then show thesis using 1 u(1) ok'(2) same_but_fields [OF evolvesD(4) [OF 1(2)]]
      by (intro full [of "s'\<lparr>read_blocked := read_blocked s' OR READ_BLOCKED_FULL, loop := u\<rparr>"]) (auto simp: ustream_reserve_def reads_only_def)
  next
    case (2 s' rs' a y)
    have d: "data_bytes (u_r s') = int (length (contents (bufs s') rs'))" using 2(3,4) ok by (simp add: stream_ok_def b same_conf_def)
    note ok' = stream_ok_r [OF ok evolves_moves [OF 2(2)] evolves_ready [OF 2(2) q(4)] d]
    show thesis using 2 ok' same_but_fields [OF evolvesD(4) [OF 2(2)]]
      by (intro space [of a y s' rs']) (auto simp: ustream_reserve_def reads_only_def b)
  qed
qed

lemma eof_ok:
  assumes "stream_ok s rs ws"
  obtains u where "read_eof s = Some (s\<lparr>eof := True, loop := u\<rparr>)" "stream_ok (s\<lparr>eof := True, loop := u\<rparr>) rs ws"
proof -
  have r: "stream_ready s" using assms by (simp add: stream_ok_def)
  obtain v where v: "(if \<not> eof s then ustream_state_change s else Some s) = Some (s\<lparr>loop := v\<rparr>)" "stream_ready (s\<lparr>loop := v\<rparr>)"
  proof (cases "eof s")
    case True
    then show thesis using r that [of "loop s"] by simp
  next
    case False
    then show thesis using that by (auto intro: state_change_ready [OF r])
  qed
  then have "stream_ready (s\<lparr>loop := v, eof := True\<rparr>)" by (simp add: stream_ready_def)
  then obtain u where u: "ustream_fd_set_uloop False (s\<lparr>loop := v, eof := True\<rparr>) = Some (s\<lparr>loop := v, eof := True, loop := u\<rparr>)"
      "stream_ready (s\<lparr>loop := v, eof := True, loop := u\<rparr>)" by (rule set_uloop_ready)
  then show thesis using assms v(1) by (intro that [of u]) (simp_all add: read_eof_def stream_ok_def bounded_def)
qed

lemma fd_read_pending_ok:
  assumes ops: "plain_ops ops" and "stream_ok s rs ws"
  shows "\<exists>m' s' rs'. ustream_fd_read_pending ops m s = Some (m', s') \<and> stream_ok s' rs' ws \<and>
    contents (bufs s') rs' @ arriving s' = contents (bufs s) rs @ arriving s \<and> reads_only s s' ws"
  using assms(2)
proof (induction "length (sys_reads s)" arbitrary: s rs m rule: less_induct)
  case less
  show ?case
  proof (cases "read_blocked s = 0")
    case False
    then show ?thesis using less.prems by (subst ustream_fd_read_pending.simps) (auto simp: reads_only_def)
  next
    case rb: True
    show ?thesis
    proof (rule reserve_ok [OF ops less.prems, of 1], goal_cases)
      case (1 s')
      then show ?thesis using rb by (subst ustream_fd_read_pending.simps) (auto simp: reads_only_def)
    next
      case (2 s1 rs1 a x)
      obtain r s2 where r: "pop_read s1 = (r, s2)" by (cases "pop_read s1")
      have s2: "s2 = s1\<lparr>sys_reads := sys_reads s2\<rparr>" "r \<noteq> EAGAIN \<longrightarrow> length (sys_reads s2) < length (sys_reads s)"
        using r 2(6) by (auto simp: pop_read_def split: list.splits)
      have ok2: "stream_ok s2 rs1 ws" "reads_only s s2 ws" "contents (bufs s2) rs1 = contents (bufs s) rs" "arriving s2 = arriving s"
          "bufs s2 a = Some x" "l_data_tail (u_r s2) = Some a"
        using 2(2-5,7,8) by (subst s2(1); simp add: stream_ok_def bounded_def stream_ready_def reads_only_def)+
      let ?d = "case r of Bytes k \<Rightarrow> take (min k (nat (int (b_end x) - int (b_tail x)))) (arriving s2) | _ \<Rightarrow> []"
      have step: "ustream_fd_read_pending ops m s =
          (case r of EINTR \<Rightarrow> ustream_fd_read_pending ops m s2 | EAGAIN \<Rightarrow> Some (m, s2)
           | _ \<Rightarrow> do {
               s \<leftarrow> store_read a (b_tail x) ?d s2;
               if ?d = [] then do { s \<leftarrow> read_eof s; Some (m, s) }
               else do { s \<leftarrow> ustream_fill_read ops (int (length ?d)) s; ustream_fd_read_pending ops True s }
             })"
        using rb 2(1,8) r by (subst ustream_fd_read_pending.simps) (simp add: Let_def split: sys_result.splits)
      have IH: "\<exists>m' s' rs'. ustream_fd_read_pending ops k t = Some (m', s') \<and> stream_ok s' rs' ws \<and>
          contents (bufs s') rs' @ arriving s' = contents (bufs s) rs @ arriving s \<and> reads_only s s' ws"
        if "stream_ok t rs1 ws" "sys_reads t = sys_reads s2" "r \<noteq> EAGAIN" "contents (bufs t) rs1 @ arriving t = contents (bufs s) rs @ arriving s"
          "reads_only s t ws" for k t
        using less.hyps [of t rs1 k] s2(2) that reads_only_trans [OF that(5)] by metis
      show ?thesis
      proof (cases "r = EINTR \<or> r = EAGAIN")
        case True
        then show ?thesis using step ok2 IH [of s2 m] by (elim disjE) auto
      next
        case False
        then have step': "ustream_fd_read_pending ops m s = do {
               s \<leftarrow> store_read a (b_tail x) ?d s2;
               if ?d = [] then do { s \<leftarrow> read_eof s; Some (m, s) }
               else do { s \<leftarrow> ustream_fill_read ops (int (length ?d)) s; ustream_fd_read_pending ops True s }
             }" using step by (cases r) simp_all
        define d where "d = ?d"
        obtain n where n: "d = take n (arriving s2)" "n \<le> nat (int (b_end x) - int (b_tail x))"
        proof (cases r)
          case (Bytes k)
          then show thesis by (intro that [of "min k (nat (int (b_end x) - int (b_tail x)))"]) (simp_all add: d_def)
        qed (use False d_def that [of 0] in simp_all)
        have "length d \<le> n" using n(1) by simp
        then have d: "b_tail x + length d \<le> b_end x" using n(2) 2(9) by linarith
        have d': "arriving s2 = d @ drop (length d) (arriving s2)"
          using n(1) append_take_drop_id [of n "arriving s2"] by (cases "n \<le> length (arriving s2)") simp_all
        show ?thesis
        proof (cases "d = []")
          case True
          have "buf_ok (string_data s2) x" using ok2(1,5,6) by (auto simp: stream_ok_def queue_ok_def filling_def)
          then have "b_tail x \<le> length (b_block x)" by (auto simp: buf_ok_def)
          then have "store_read a (b_tail x) [] s2 = Some s2" using ok2(5) by (simp add: store_read_def store_buf_def mem_write_def fun_upd_idem)
          moreover obtain u where "read_eof s2 = Some (s2\<lparr>eof := True, loop := u\<rparr>)" "stream_ok (s2\<lparr>eof := True, loop := u\<rparr>) rs1 ws"
            by (rule eof_ok [OF ok2(1)])
          ultimately show ?thesis using step' [folded d_def] True ok2 by (auto simp: reads_only_def)
        next
          case nd: False
          have q2: "queue_ok (string_data s2) (bufs s2) (u_r s2) rs1" "bounded s2" using ok2(1) by (simp_all add: stream_ok_def)
          obtain s3 s4 where s4: "store_buf a (b_tail x) d s2 = Some s3" "ustream_fill_read ops (int (length d)) (s3\<lparr>arriving := drop (length d) (arriving s2)\<rparr>) = Some s4"
              "evolves False (s2\<lparr>arriving := drop (length d) (arriving s2)\<rparr>) rs1 s4 rs1" "contents (bufs s4) rs1 = contents (bufs s2) rs1 @ d"
              "data_bytes (u_r s4) = data_bytes (u_r s2) + int (length d)"
            by (rule fill_ok [OF ops q2 ok2(6,5) nd d])
          let ?s3 = "s2\<lparr>arriving := drop (length d) (arriving s2)\<rparr>"
          have ok3: "stream_ok ?s3 rs1 ws" using ok2(1) by (simp add: stream_ok_def bounded_def stream_ready_def)
          then have "stream_ready ?s3" by (simp add: stream_ok_def)
          then have r4: "stream_ready s4" by (rule evolves_ready [OF s4(3)])
          have "data_bytes (u_r s4) = int (length (contents (bufs s4) rs1))" using s4(4,5) ok2(1) by (simp add: stream_ok_def)
          note ok4 = stream_ok_r [OF ok3 evolves_moves [OF s4(3)] r4 this]
          note f4 = same_but_fields [OF evolvesD(4) [OF s4(3)]]
          have "reads_only s2 s4 ws" using ok4(2) f4 by (simp add: reads_only_def)
          moreover have "contents (bufs s4) rs1 @ arriving s4 = contents (bufs s) rs @ arriving s"
            using s4(4) f4(3) d' ok2(3,4) by simp
          moreover have "ustream_fd_read_pending ops m s = ustream_fd_read_pending ops True s4"
            using step' [folded d_def] nd s4(1,2) by (simp add: store_read_def)
          ultimately show ?thesis using IH [of s4 True] ok4(1) f4(8) False reads_only_trans [OF ok2(2)] by simp
        qed
      qed
    qed
  qed
qed

lemma print_space_ok:
  assumes ok: "stream_ok s rs ws" and a: "l_data_tail (u_w s) = Some a" "bufs s a = Some x" and d: "b_tail x + length d < b_end x"
  obtains s1 s' where "store_buf a (b_tail x) (d @ [0]) s = Some s1"
    "upd_buf a (\<lambda>x. x\<lparr>b_tail := nat (int (b_tail x) + int (length d))\<rparr>) s1 = Some s'"
    "stream_ok (upd_blist True (\<lambda>l. l\<lparr>data_bytes := data_bytes l + int (length d)\<rparr>) s') rs ws"
    "contents (bufs s') rs = contents (bufs s) rs" "contents (bufs s') ws = contents (bufs s) ws @ d"
    "arriving s' = arriving s" "sent s' = sent s" "write_error s' = write_error s"
proof -
  have q: "queue_ok (string_data s) (bufs s) (blist True s) ws" "bounded s" "l_data_tail (blist True s) = Some a" using ok a by (simp_all add: stream_ok_def blist_def)
  have "a \<in> set ws" using q(1) a(1) by (auto simp: queue_ok_def filling_def blist_def)
  then have x: "buf_ok (string_data s) x" using q a by (auto simp: queue_ok_def)
  obtain m where m: "mem_write (b_block x) (b_tail x) (d @ [0]) = Some m"
    using mem_write_defined [of "b_tail x" "d @ [0]" "b_block x"] x d by (auto simp: buf_ok_def)
  then have m': "length m = length (b_block x)" "take (b_tail x) m = take (b_tail x) (b_block x)" "take (length d) (drop (b_tail x) m) = d"
    by (auto simp: mem_write_def split: if_splits)
  let ?s = "s\<lparr>bufs := (bufs s)(a \<mapsto> x\<lparr>b_block := m, b_tail := b_tail x + length d\<rparr>)\<rparr>"
  have le: "b_tail x + length d \<le> b_end x" using d by simp
  note g = grow_ok [OF q(1,2,3) a(2) le m']
  let ?t = "upd_blist True (\<lambda>l. l\<lparr>data_bytes := data_bytes l + int (length d)\<rparr>) ?s"
  have "evolves True ?s ws ?t ws" using evolvesD(1,2) [OF g(1)] by (auto simp: evolves_def queue_ok_def bounded_def)
  then have ev: "evolves True s ws ?t ws" by (rule evolves_trans [OF g(1) _ q(2)])
  have db: "data_bytes (u_w ?t) = int (length (contents (bufs ?t) ws))" using g(2) ok by (simp add: stream_ok_def upd_blist_def)
  have "stream_ready s" using ok by (simp add: stream_ok_def)
  note ok' = stream_ok_w [OF ok evolves_moves [OF ev] evolves_ready [OF ev this] db]
  show thesis
    by (rule that [of "s\<lparr>bufs := (bufs s)(a \<mapsto> x\<lparr>b_block := m\<rparr>)\<rparr>" ?s])
      (use a m ok' g in \<open>simp_all add: store_buf_def upd_buf_def nat_int_add\<close>)
qed

lemma stream_print_ok:
  assumes ops: "plain_ops ops" and ok: "stream_ok s rs ws"
  shows "\<exists>n s' ws'. ustream_printf ops txt s = Some (n, s') \<and> n \<le> int (length txt) \<and> stream_ok s' rs ws' \<and>
    contents (bufs s') rs = contents (bufs s) rs \<and> arriving s' = arriving s \<and> written s ws s' ws' (take (nat n) txt)"
proof -
  have o: "op_write ops = ustream_fd_write" "default_alloc ops True" using ops by (simp_all add: plain_ops_def default_alloc_def)
  consider "write_error s" | "\<not> write_error s" "data_bytes (u_w s) = 0" | "\<not> write_error s" "data_bytes (u_w s) \<noteq> 0" by blast
  then show ?thesis
  proof cases
    case 1
    then show ?thesis using ok by (auto simp: ustream_printf_def written_def)
  next
    case 2
    have "ustream_printf ops txt s = ustream_write ops txt False s"
      using 2 by (cases "op_write ops txt False s") (auto simp: ustream_printf_def ustream_vprintf_def ustream_write_def Let_def)
    then show ?thesis using fd_backend.stream_write_ok [OF o ok] by simp
  next
    case 3
    have q: "queue_ok (string_data s) (bufs s) (blist True s) ws" "bounded s" "stream_ready s" using ok by (simp_all add: stream_ok_def blist_def)
    show ?thesis
    proof (rule prepare_buf_ok [OF q(1,2) o(2), of 1], goal_cases)
      case (1 s')
      have "data_bytes (u_w s') = int (length (contents (bufs s') ws))" using 1(3,4) ok by (simp add: stream_ok_def blist_def)
      note ok' = stream_ok_w [OF ok evolves_moves [OF 1(2)] evolves_ready [OF 1(2) q(3)] this]
      then show ?thesis using 3 1 same_but_fields [OF evolvesD(4) [OF 1(2)]] by (auto simp: ustream_printf_def ustream_vprintf_def written_def Let_def)
    next
      case (2 s1 ws1 a y)
      have "data_bytes (u_w s1) = int (length (contents (bufs s1) ws1))" using 2(3,4) ok by (simp add: stream_ok_def same_conf_def blist_def)
      note ok1 = stream_ok_w [OF ok evolves_moves [OF 2(2)] evolves_ready [OF 2(2) q(3)] this]
      note f1 = same_but_fields [OF evolvesD(4) [OF 2(2)]]
      let ?k = "min (length txt) (b_end y - b_tail y - 1)"
      have k: "b_tail y + length (take ?k txt) < b_end y" "length (take ?k txt) = ?k" using 2(7) by auto
      have a: "l_data_tail (u_w s1) = Some a" using 2(5) by (simp add: blist_def)
      obtain s2 s3 where s3: "store_buf a (b_tail y) (take ?k txt @ [0]) s1 = Some s2"
          "upd_buf a (\<lambda>x. x\<lparr>b_tail := nat (int (b_tail x) + int ?k)\<rparr>) s2 = Some s3"
          "stream_ok (upd_blist True (\<lambda>l. l\<lparr>data_bytes := data_bytes l + int ?k\<rparr>) s3) rs ws1"
          "contents (bufs s3) rs = contents (bufs s1) rs" "contents (bufs s3) ws1 = contents (bufs s1) ws1 @ take ?k txt"
          "arriving s3 = arriving s1" "sent s3 = sent s1" "write_error s3 = write_error s1"
        by (rule print_space_ok [OF ok1(1) a 2(6) k(1), unfolded k(2)])
      let ?t = "upd_blist True (\<lambda>l. l\<lparr>data_bytes := data_bytes l + int ?k\<rparr>) s3"
      have wr: "(if int (length txt) \<ge> int (b_end y) - int (b_tail y) then int (b_end y) - int (b_tail y) - 1 else int (length txt)) = int ?k"
        using 2(7) by (auto simp: min_def)
      have step: "ustream_printf ops txt s =
          (if int (length txt) < int (b_end y) - int (b_tail y) then Some (int ?k, ?t) else ustream_write_buffered ops (drop ?k txt) (int ?k) ?t)"
      proof -
        obtain L where L: "b_end y = b_tail y + Suc L" using 2(7) less_iff_Suc_add by auto
        then have "int (b_end y) - int (b_tail y) = int L + 1" "b_end y - Suc (b_tail y) = L" by simp_all
        then show ?thesis
          using 3 2(1,6,7) a s3(1,2) wr by (simp add: ustream_printf_def ustream_vprintf_def Let_def del: of_nat_min)
      qed
      have t: "sent ?t = sent s" "write_error ?t = write_error s" "arriving ?t = arriving s" "contents (bufs ?t) rs = contents (bufs s) rs"
          "contents (bufs ?t) ws1 = contents (bufs s) ws @ take ?k txt"
        using s3(4-8) f1 ok1(2) 2(3) by (simp_all add: upd_blist_def)
      show ?thesis
      proof (cases "int (length txt) < int (b_end y) - int (b_tail y)")
        case True
        then show ?thesis using step s3(3) t 3(1) by (intro exI [of _ "int ?k"] exI [of _ ?t] exI [of _ ws1]) (simp add: written_def)
      next
        case False
        obtain n s' ws' where "ustream_write_buffered ops (drop ?k txt) (int ?k) ?t = Some (int ?k + int n, s')" "n \<le> length (drop ?k txt)"
            "stream_ok s' rs ws'" "contents (bufs s') rs = contents (bufs ?t) rs" "arriving s' = arriving ?t" "sent s' = sent ?t"
            "write_error s' = write_error ?t" "contents (bufs s') ws' = contents (bufs ?t) ws1 @ take n (drop ?k txt)"
          using fd_backend.buffered_ok [OF s3(3) o(2)] by blast
        then show ?thesis using step False t 3(1)
          by (intro exI [of _ "int ?k + int n"] exI [of _ s'] exI [of _ ws']) (simp add: written_def nat_add_distrib take_add del: of_nat_min)
      qed
    qed
  qed
qed

section \<open>A stream is two queues of bytes\<close>

text \<open>
  Calls of an application, and of the loop, on a stream: writing, printing, sending what is pending, fetching what has
  arrived, reading. The result: the data that was accepted, the data that was read, and the state.
\<close>

datatype stream_op = Write "byte list" bool | Print "byte list" | Flush | Fetch | Read nat

fun stream_run :: "ustream_ops \<Rightarrow> stream_op list \<Rightarrow> ustream \<Rightarrow> (byte list \<times> byte list \<times> ustream) option" where
  "stream_run ops [] s = Some ([], [], s)"
| "stream_run ops (Write d m # cs) s = do {
     (n, s) \<leftarrow> ustream_write ops d m s;
     (acc, got, s) \<leftarrow> stream_run ops cs s;
     Some (take (nat n) d @ acc, got, s)
   }"
| "stream_run ops (Print d # cs) s = do {
     (n, s) \<leftarrow> ustream_printf ops d s;
     (acc, got, s) \<leftarrow> stream_run ops cs s;
     Some (take (nat n) d @ acc, got, s)
   }"
| "stream_run ops (Flush # cs) s = do {
     (_, s) \<leftarrow> ustream_write_pending ops s;
     stream_run ops cs s
   }"
| "stream_run ops (Fetch # cs) s = do {
     (_, s) \<leftarrow> ustream_fd_read_pending ops False s;
     stream_run ops cs s
   }"
| "stream_run ops (Read n # cs) s = do {
     (d, s) \<leftarrow> ustream_read ops (int n) s;
     (acc, got, s) \<leftarrow> stream_run ops cs s;
     Some (acc, d @ got, s)
   }"

definition fifo_step :: "ustream \<Rightarrow> nat list \<Rightarrow> nat list \<Rightarrow> byte list \<Rightarrow> byte list \<Rightarrow> ustream \<Rightarrow> nat list \<Rightarrow> nat list \<Rightarrow> bool" where
  "fifo_step s rs ws acc got s' rs' ws' \<longleftrightarrow> stream_ok s' rs' ws' \<and>
     got @ contents (bufs s') rs' @ arriving s' = contents (bufs s) rs @ arriving s \<and> written s ws s' ws' acc"

lemma fifo_step_trans:
  "fifo_step s rs ws acc got t rs1 ws1 \<Longrightarrow> fifo_step t rs1 ws1 acc' got' u rs2 ws2 \<Longrightarrow> fifo_step s rs ws (acc @ acc') (got @ got') u rs2 ws2"
  unfolding fifo_step_def written_def by (metis append.assoc)

text \<open>
  C12: A buffered stream on a descriptor is a pair of queues of bytes. The stream has the functions of \<open>ustream-fd.c\<close> and the default allocation, with
  memory for every block that it asks for (without, the code writes through the null pointer), and the notifications of the application, if
  there are any, leave the stream alone. Then, whatever the sequence of writes, formatted writes, flushes,
  fetches and reads, and whatever \<open>read\<close> and \<open>write\<close> return (partial transfers, interruptions, would-block, errors): every
  call returns without touching memory outside a buffer, the list structure of the buffers stays well formed, the data
  read, the data in the read buffers and the data still to arrive are, in this order, the data that was there; and, until an
  error of \<open>write\<close>, the data sent followed by the data in the write buffers is what was there before followed by exactly
  the data that the writes have accepted. Moving the data inside a buffer, recycling a buffer and the terminating zero of a
  formatted write never lose, repeat or reorder a byte.
\<close>

theorem stream_two_queues:
  assumes "plain_ops ops" and "stream_ok s rs ws"
  shows "\<exists>acc got s' rs' ws'. stream_run ops cs s = Some (acc, got, s') \<and> fifo_step s rs ws acc got s' rs' ws'"
  using assms(2)
proof (induction cs arbitrary: s rs ws)
  case Nil
  then show ?case by (auto simp: fifo_step_def written_def)
next
  case (Cons c cs)
  have o: "op_write ops = ustream_fd_write" "default_alloc ops True" "quiet (op_notify_write ops)" using assms(1) by (simp_all add: plain_ops_def default_alloc_def)
  have rest: ?case
    if "\<And>acc' got' s'. stream_run ops cs s1 = Some (acc', got', s') \<Longrightarrow> stream_run ops (c # cs) s = Some (acc @ acc', got @ got', s')"
      "fifo_step s rs ws acc got s1 rs1 ws1" for acc got s1 rs1 ws1
  proof -
    note step = that
    obtain acc' got' s' rs' ws' where "stream_run ops cs s1 = Some (acc', got', s')" "fifo_step s1 rs1 ws1 acc' got' s' rs' ws'"
      using Cons.IH [of s1 rs1 ws1] step(2) unfolding fifo_step_def by blast
    then show ?thesis using step fifo_step_trans [OF step(2)] by blast
  qed
  show ?case
  proof (cases c)
    case (Write d m)
    obtain n s1 ws1 where "ustream_write ops d m s = Some (n, s1)" "stream_ok s1 rs ws1" "contents (bufs s1) rs = contents (bufs s) rs"
        "arriving s1 = arriving s" "written s ws s1 ws1 (take (nat n) d)"
      using fd_backend.stream_write_ok [OF o(1,2) Cons.prems, of d m] by blast
    then show ?thesis using Write by (intro rest [of s1 "take (nat n) d" "[]" rs ws1]) (auto simp: fifo_step_def)
  next
    case (Print d)
    obtain n s1 ws1 where "ustream_printf ops d s = Some (n, s1)" "stream_ok s1 rs ws1" "contents (bufs s1) rs = contents (bufs s) rs"
        "arriving s1 = arriving s" "written s ws s1 ws1 (take (nat n) d)"
      using stream_print_ok [OF assms(1) Cons.prems, of d] by blast
    then show ?thesis using Print by (intro rest [of s1 "take (nat n) d" "[]" rs ws1]) (auto simp: fifo_step_def)
  next
    case Flush
    obtain b s1 ws1 where "ustream_write_pending ops s = Some (b, s1)" "stream_ok s1 rs ws1" "contents (bufs s1) rs = contents (bufs s) rs"
        "arriving s1 = arriving s" "written s ws s1 ws1 []"
      using fd_backend.stream_flush_ok [OF o(1,3) Cons.prems] by blast
    then show ?thesis using Flush by (intro rest [of s1 "[]" "[]" rs ws1]) (auto simp: fifo_step_def)
  next
    case Fetch
    obtain m s1 rs1 where "ustream_fd_read_pending ops False s = Some (m, s1)" "stream_ok s1 rs1 ws"
        "contents (bufs s1) rs1 @ arriving s1 = contents (bufs s) rs @ arriving s" "reads_only s s1 ws"
      using fd_read_pending_ok [OF assms(1) Cons.prems, of False] by blast
    then show ?thesis using Fetch by (intro rest [of s1 "[]" "[]" rs1 ws]) (auto simp: fifo_step_def reads_only_def written_def)
  next
    case (Read n)
    obtain s1 rs1 where "ustream_read ops (int n) s = Some (take n (contents (bufs s) rs), s1)" "stream_ok s1 rs1 ws"
        "contents (bufs s1) rs1 = drop n (contents (bufs s) rs)" "arriving s1 = arriving s" "reads_only s s1 ws"
      using read_loop_ok [OF assms(1) Cons.prems, of "[]" n] by (auto simp: ustream_read_def)
    then show ?thesis using Read
      by (intro rest [of s1 "[]" "take n (contents (bufs s) rs)" rs1 ws]) (auto simp: fifo_step_def reads_only_def written_def)
  qed
qed

text \<open>A stream after \<open>ustream_fd_init\<close>, with some data to arrive and a slow receiver.\<close>

definition sample_list :: "int \<Rightarrow> int \<Rightarrow> int \<Rightarrow> ustream_buf_list" where
  "sample_list mn mx len = \<lparr>l_head = None, l_data_tail = None, l_tail = None, data_bytes = 0, min_buffers = mn, max_buffers = mx,
     buffer_len = len, buffers = 0\<rparr>"

definition sample_stream :: ustream where
  "sample_stream = \<lparr>u_r = sample_list 1 1 4, u_w = sample_list 2 (-1) 8, state_change = 1, string_data = True, write_error = False,
     eof = False, eof_write_done = False, read_blocked = 0, s_fd = 7, loop = idle_loop\<lparr>ufds := [7 \<mapsto> \<lparr>f_cb = True, f_fd = 5, f_eof = False,
       f_error = False, f_registered = True, f_flags = 69\<rparr>]\<rparr>, bufs = Map.empty, brk = 0, garbage = (\<lambda>_. 1), sys_reads = [Bytes 3, EINTR, Bytes 5],
     arriving = [1, 2, 3, 4, 5, 6], sys_writes = [Bytes 2, EAGAIN, Bytes 100], sent = []\<rparr>"

definition sample_ops :: ustream_ops where
  "sample_ops = fd_ops \<lparr>op_alloc = (\<lambda>_. None), op_write = ustream_fd_write, op_free = None, op_set_read_blocked = None, op_poll = None,
     op_notify_read = None, op_notify_write = None, op_notify_state = None, op_memory = (\<lambda>_. True)\<rparr>"

lemma sample_stream_ok: "plain_ops sample_ops" "stream_ok sample_stream [] []"
  by (simp_all add: plain_ops_def quiet_def sample_ops_def fd_ops_def stream_ok_def queue_ok_def sample_stream_def sample_list_def filling_def bounded_def
    stream_ready_def loop_ready_def idle_loop_def)

theorem stream_two_queues_witness:
  "\<exists>acc got s' rs' ws'. stream_run sample_ops [Write [7, 8, 9] False, Print [10], Fetch, Read 2, Fetch, Flush, Read 10] sample_stream = Some (acc, got, s') \<and>
    fifo_step sample_stream [] [] acc got s' rs' ws'"
  by (rule stream_two_queues [OF sample_stream_ok])

end
