(* ===== verification/Safe_List.thy ===== *)
theory Safe_List
  imports Linked_List
begin

text \<open>
  Lists whose entries may be deleted during an iteration: \<open>src/libubox/safe_list.c\<close> and \<open>safe_list.h\<close>.

  The entries are linked as in \<open>Linked_List\<close>. Every entry has a chain of the iterators whose next entry it is;
  \<open>head\<close> of an iterator is the address of the pointer that points to it, in an entry or in another iterator.
  Iterators are on the stack of \<open>safe_list_for_each\<close>: \<open>iters\<close> holds those that are alive, and an access to another
  one is \<open>None\<close>. The record can be extended by the state of the callbacks.
\<close>

section \<open>Data and operations\<close>

datatype iref = List_i nat | Next_i nat

record safe_list_iterator =
  i_head :: iref
  i_next_i :: "nat option"
  i_next :: nat

record safe_lists =
  links :: "nat list_heap"
  list_i :: "nat \<Rightarrow> nat option"
  iters :: "nat \<rightharpoonup> safe_list_iterator"
  frames :: nat

text \<open>A store through \<open>head\<close>, and an update of an iterator.\<close>

definition upd_iter :: "nat \<Rightarrow> (safe_list_iterator \<Rightarrow> safe_list_iterator) \<Rightarrow> 'z safe_lists_scheme \<Rightarrow> 'z safe_lists_scheme option" where
  "upd_iter a f s = do {
     x \<leftarrow> iters s a;
     Some (s\<lparr>iters := (iters s)(a \<mapsto> f x)\<rparr>)
   }"

definition store_ref :: "iref \<Rightarrow> nat option \<Rightarrow> 'z safe_lists_scheme \<Rightarrow> 'z safe_lists_scheme option" where
  "store_ref r v s =
     (case r of
       List_i l \<Rightarrow> Some (s\<lparr>list_i := (list_i s)(l := v)\<rparr>)
     | Next_i a \<Rightarrow> upd_iter a (\<lambda>x. x\<lparr>i_next_i := v\<rparr>) s)"

definition set_head :: "nat option \<Rightarrow> iref \<Rightarrow> 'z safe_lists_scheme \<Rightarrow> 'z safe_lists_scheme option" where
  "set_head p r s = (case p of None \<Rightarrow> Some s | Some a \<Rightarrow> upd_iter a (\<lambda>x. x\<lparr>i_head := r\<rparr>) s)"

definition INIT_SAFE_LIST :: "nat \<Rightarrow> 'z safe_lists_scheme \<Rightarrow> 'z safe_lists_scheme" where
  "INIT_SAFE_LIST l s = s\<lparr>links := INIT_LIST_HEAD l (links s), list_i := (list_i s)(l := None)\<rparr>"

definition safe_list_empty :: "nat \<Rightarrow> 'z safe_lists_scheme \<Rightarrow> bool" where
  "safe_list_empty head s = list_empty head (links s)"

definition set_iterator :: "nat \<Rightarrow> nat \<Rightarrow> 'z safe_lists_scheme \<Rightarrow> 'z safe_lists_scheme option" where
  "set_iterator l i s = do {
     next \<leftarrow> nxt (links s) l;
     let next_i = list_i s next;
     let s = s\<lparr>list_i := (list_i s)(next := Some i)\<rparr>;
     s \<leftarrow> upd_iter i (\<lambda>x. x\<lparr>i_next := next, i_head := List_i next, i_next_i := next_i\<rparr>) s;
     set_head next_i (Next_i i) s
   }"

definition del_iterator :: "nat \<Rightarrow> 'z safe_lists_scheme \<Rightarrow> 'z safe_lists_scheme option" where
  "del_iterator i s = do {
     x \<leftarrow> iters s i;
     s \<leftarrow> store_ref (i_head x) (i_next_i x) s;
     x \<leftarrow> iters s i;
     set_head (i_next_i x) (i_head x) s
   }"

definition move_iterator :: "nat \<Rightarrow> nat \<Rightarrow> 'z safe_lists_scheme \<Rightarrow> 'z safe_lists_scheme option" where
  "move_iterator l i s = do {
     s \<leftarrow> del_iterator i s;
     set_iterator l i s
   }"

partial_function (option) for_each_loop ::
    "(nat \<Rightarrow> 'z safe_lists_scheme \<Rightarrow> (int \<times> 'z safe_lists_scheme) option) \<Rightarrow> nat \<Rightarrow> nat \<Rightarrow> nat \<Rightarrow> 'z safe_lists_scheme \<Rightarrow>
      (int \<times> 'z safe_lists_scheme) option" where
  "for_each_loop cb head i cur s =
     (if cur = head then Some (0, s)
      else do {
        (ret, s) \<leftarrow> cb cur s;
        if ret \<noteq> 0 then Some (ret, s)
        else do {
          x \<leftarrow> iters s i;
          s \<leftarrow> move_iterator (i_next x) i s;
          for_each_loop cb head i (i_next x) s
        }
      })"

definition safe_list_for_each ::
    "nat \<Rightarrow> (nat \<Rightarrow> 'z safe_lists_scheme \<Rightarrow> (int \<times> 'z safe_lists_scheme) option) \<Rightarrow> 'z safe_lists_scheme \<Rightarrow>
      (int \<times> 'z safe_lists_scheme) option" where
  "safe_list_for_each head cb s = do {
     let i = frames s;
     let s = s\<lparr>frames := i + 1, iters := (iters s)(i \<mapsto> \<lparr>i_head = List_i head, i_next_i = None, i_next = head\<rparr>)\<rparr>;
     cur \<leftarrow> nxt (links s) head;
     s \<leftarrow> set_iterator cur i s;
     (ret, s) \<leftarrow> for_each_loop cb head i cur s;
     s \<leftarrow> del_iterator i s;
     Some (ret, s\<lparr>iters := (iters s)(i := None)\<rparr>)
   }"

definition safe_list_add :: "nat \<Rightarrow> nat \<Rightarrow> 'z safe_lists_scheme \<Rightarrow> 'z safe_lists_scheme option" where
  "safe_list_add l head s = do {
     h \<leftarrow> list_add_tail l head (links s);
     Some (s\<lparr>list_i := (list_i s)(l := None), links := h\<rparr>)
   }"

definition safe_list_add_first :: "nat \<Rightarrow> nat \<Rightarrow> 'z safe_lists_scheme \<Rightarrow> 'z safe_lists_scheme option" where
  "safe_list_add_first l head s = do {
     h \<leftarrow> list_add l head (links s);
     Some (s\<lparr>list_i := (list_i s)(l := None), links := h\<rparr>)
   }"

text \<open>The loop of \<open>safe_list_del\<close>: the iterators get a new next entry; the result is the last address \<open>tail\<close>.\<close>

partial_function (option) retarget :: "nat option \<Rightarrow> nat \<Rightarrow> iref \<Rightarrow> 'z safe_lists_scheme \<Rightarrow> (iref \<times> 'z safe_lists_scheme) option" where
  "retarget p next tail s =
     (case p of
       None \<Rightarrow> Some (tail, s)
     | Some a \<Rightarrow> do {
         s \<leftarrow> upd_iter a (\<lambda>x. x\<lparr>i_next := next\<rparr>) s;
         x \<leftarrow> iters s a;
         retarget (i_next_i x) next (Next_i a) s
       })"

definition safe_list_del :: "nat \<Rightarrow> 'z safe_lists_scheme \<Rightarrow> 'z safe_lists_scheme option" where
  "safe_list_del l s = do {
     next \<leftarrow> nxt (links s) l;
     h \<leftarrow> list_del l (links s);
     let s = s\<lparr>links := h\<rparr>;
     if list_i s l = None then Some s
     else do {
       let next_i = list_i s next;
       (tail, s) \<leftarrow> retarget (list_i s l) next (List_i next) s;
       let s = s\<lparr>list_i := (list_i s)(next := list_i s l)\<rparr>;
       s \<leftarrow> set_head (list_i s l) (List_i next) s;
       s \<leftarrow> store_ref tail next_i s;
       s \<leftarrow> set_head next_i tail s;
       Some (s\<lparr>list_i := (list_i s)(l := None)\<rparr>)
     }
   }"

section \<open>The chains of iterators\<close>

text \<open>
  The iterators from a pointer \<open>p\<close>, stored at \<open>r\<close>, to a pointer \<open>q\<close>, stored at \<open>t\<close>; all have the next entry \<open>n\<close>.
\<close>

fun iseg :: "(nat \<rightharpoonup> safe_list_iterator) \<Rightarrow> nat \<Rightarrow> iref \<Rightarrow> nat option \<Rightarrow> nat list \<Rightarrow> nat option \<Rightarrow> iref \<Rightarrow> bool" where
  "iseg I n r p [] q t \<longleftrightarrow> p = q \<and> r = t"
| "iseg I n r p (a # as) q t \<longleftrightarrow>
     p = Some a \<and> (\<exists>x. I a = Some x \<and> i_head x = r \<and> i_next x = n \<and> iseg I n (Next_i a) (i_next_i x) as q t)"

lemma iseg_append: "iseg I n r p (as @ bs) q t \<longleftrightarrow> (\<exists>u v. iseg I n r p as u v \<and> iseg I n v u bs q t)"
  by (induction as arbitrary: r p) auto

lemma iseg_frame [simp]: "a \<notin> set as \<Longrightarrow> iseg (I(a := y)) n r p as q t = iseg I n r p as q t"
  by (induction as arbitrary: r p) auto

lemma iseg_cong: "(\<And>a. a \<in> set as \<Longrightarrow> I a = J a) \<Longrightarrow> iseg I n r p as q t = iseg J n r p as q t"
  by (induction as arbitrary: r p) auto

lemma iseg_dom: "iseg I n r p as q t \<Longrightarrow> a \<in> set as \<Longrightarrow> \<exists>x. I a = Some x \<and> i_next x = n"
  by (induction as arbitrary: r p) auto

lemma iseg_first: "iseg I n r p as None t \<Longrightarrow> p = (case as of [] \<Rightarrow> None | a # _ \<Rightarrow> Some a)"
  by (cases as) auto

lemma iseg_end: "iseg I n r p as q t \<Longrightarrow> t = (if as = [] then r else Next_i (last as))"
  by (induction as arbitrary: r p) auto

text \<open>Another address for the first pointer, and another pointer at the end.\<close>

definition rehead :: "(nat \<rightharpoonup> safe_list_iterator) \<Rightarrow> nat option \<Rightarrow> iref \<Rightarrow> nat \<rightharpoonup> safe_list_iterator" where
  "rehead I p r = (case p of None \<Rightarrow> I | Some a \<Rightarrow> I(a := map_option (\<lambda>x. x\<lparr>i_head := r\<rparr>) (I a)))"

definition relink :: "(nat \<rightharpoonup> safe_list_iterator) \<Rightarrow> iref \<Rightarrow> nat option \<Rightarrow> nat \<rightharpoonup> safe_list_iterator" where
  "relink I r v = (case r of List_i _ \<Rightarrow> I | Next_i a \<Rightarrow> I(a := map_option (\<lambda>x. x\<lparr>i_next_i := v\<rparr>) (I a)))"

lemma set_head_eq: "(\<And>a. p = Some a \<Longrightarrow> iters s a \<noteq> None) \<Longrightarrow> set_head p r s = Some (s\<lparr>iters := rehead (iters s) p r\<rparr>)"
  by (cases p) (auto simp: set_head_def rehead_def upd_iter_def)

lemma store_ref_eq:
  "(\<And>a. r = Next_i a \<Longrightarrow> iters s a \<noteq> None) \<Longrightarrow>
    store_ref r v s = Some (s\<lparr>list_i := (case r of List_i l \<Rightarrow> (list_i s)(l := v) | _ \<Rightarrow> list_i s), iters := relink (iters s) r v\<rparr>)"
  by (cases r) (auto simp: store_ref_def relink_def upd_iter_def)

lemma set_head_Some: "iters s a \<noteq> None \<Longrightarrow> set_head (Some a) r s = Some (s\<lparr>iters := rehead (iters s) (Some a) r\<rparr>)"
  by (auto intro: set_head_eq)

lemma store_ref_Next: "iters s a \<noteq> None \<Longrightarrow> store_ref (Next_i a) v s = Some (s\<lparr>iters := relink (iters s) (Next_i a) v\<rparr>)"
  using store_ref_eq [of "Next_i a" s v] by simp

lemma iseg_rehead:
  assumes "iseg I n r p as None t" and "distinct as"
  shows "\<exists>t'. iseg (rehead I p r') n r' p as None t'"
  using assms by (cases as) (auto simp: rehead_def)

lemma iseg_rehead_other: "p = None \<or> (\<exists>a. p = Some a \<and> a \<notin> set as) \<Longrightarrow> iseg (rehead I p r') n r q as u t = iseg I n r q as u t"
  by (auto simp: rehead_def)

lemma iseg_relink:
  assumes "iseg I n r p (as @ [a]) q t" and "distinct (as @ [a])"
  shows "iseg (relink I (Next_i a) v) n r p (as @ [a]) v (Next_i a)"
  using assms by (auto simp: iseg_append relink_def)

lemma iseg_relink_other: "(\<And>a. r' = Next_i a \<Longrightarrow> a \<notin> set as) \<Longrightarrow> iseg (relink I r' v) n r p as q t = iseg I n r p as q t"
  by (cases r') (auto simp: relink_def)

lemma rehead_None [simp]: "rehead I p r a = None \<longleftrightarrow> I a = None"
  by (auto simp: rehead_def split: option.splits if_splits)

lemma relink_None [simp]: "relink I r v a = None \<longleftrightarrow> I a = None"
  by (auto simp: relink_def split: iref.splits if_splits)

lemma dom_rehead [simp]: "dom (rehead I p r) = dom I"
  by (auto simp: rehead_def split: option.splits if_splits)

lemma dom_relink [simp]: "dom (relink I r v) = dom I"
  by (auto simp: relink_def split: iref.splits if_splits)

text \<open>
  The invariant: the chain of every entry \<open>n\<close> consists of the iterators \<open>f n\<close>, and every live iterator outside \<open>U\<close> is in a
  chain.
\<close>

definition iters_ok :: "nat set \<Rightarrow> 'z safe_lists_scheme \<Rightarrow> (nat \<Rightarrow> nat list) \<Rightarrow> bool" where
  "iters_ok U s f \<longleftrightarrow> (\<forall>n. (\<exists>t. iseg (iters s) n (List_i n) (list_i s n) (f n) None t) \<and> distinct (f n) \<and> set (f n) \<inter> U = {}) \<and>
     dom (iters s) = (\<Union>n. set (f n)) \<union> U \<and> (\<forall>a\<in>dom (iters s). a < frames s)"

lemma iters_ok_seg:
  assumes "iters_ok U s f"
  shows "\<exists>t. iseg (iters s) n (List_i n) (list_i s n) (f n) None t" and "distinct (f n)" and "u \<in> U \<Longrightarrow> u \<notin> set (f n)"
  using assms unfolding iters_ok_def by blast+

text \<open>The next entries of the iterators.\<close>

definition nexts :: "'z safe_lists_scheme \<Rightarrow> nat \<rightharpoonup> nat" where
  "nexts s a = map_option i_next (iters s a)"

lemma nexts_upd [simp]:
  "nexts (s\<lparr>links := h\<rparr>) = nexts s" "nexts (s\<lparr>list_i := g\<rparr>) = nexts s" "nexts (s\<lparr>frames := k\<rparr>) = nexts s"
  by (auto simp: nexts_def fun_eq_iff)

lemma nexts_rehead [simp]: "map_option i_next (rehead I p r a) = map_option i_next (I a)"
  by (cases "I a") (auto simp: rehead_def split: option.splits)

lemma nexts_relink [simp]: "map_option i_next (relink I r v a) = map_option i_next (I a)"
  by (cases "I a") (auto simp: relink_def split: iref.splits)

lemma iters_ok_next:
  assumes "iters_ok U s f" and "a \<in> set (f n)"
  shows "nexts s a = Some n" and "a \<notin> U"
proof -
  obtain t where "iseg (iters s) n (List_i n) (list_i s n) (f n) None t" using iters_ok_seg(1) [OF assms(1)] by blast
  then show "nexts s a = Some n" using iseg_dom assms(2) by (fastforce simp: nexts_def)
  show "a \<notin> U" using iters_ok_seg(3) [OF assms(1)] assms(2) by blast
qed

lemma iters_ok_member:
  assumes "iters_ok U s f"
  shows "a \<in> set (f n) \<longleftrightarrow> a \<notin> U \<and> nexts s a = Some n"
proof
  assume a: "a \<notin> U \<and> nexts s a = Some n"
  then have "a \<in> dom (iters s)" by (auto simp: nexts_def)
  then obtain m where m: "a \<in> set (f m)" using assms a unfolding iters_ok_def by blast
  then show "a \<in> set (f n)" using a iters_ok_next(1) [OF assms m] by simp
qed (use iters_ok_next [OF assms] in blast)

lemma iters_ok_live: "iters_ok U s f \<Longrightarrow> a \<in> set (f n) \<Longrightarrow> a \<in> dom (iters s)"
  unfolding iters_ok_def by blast

lemma iters_ok_first_live: "iters_ok U s f \<Longrightarrow> list_i s n = None \<or> (\<exists>a. list_i s n = Some a \<and> a \<in> set (f n) \<and> a \<in> dom (iters s))"
  using iseg_first iters_ok_seg(1) [of U s f n] iters_ok_live [of U s f _ n] by (cases "f n") fastforce+

lemma iters_ok_first: "iters_ok U s f \<Longrightarrow> list_i s n = (case f n of [] \<Rightarrow> None | a # _ \<Rightarrow> Some a)"
  using iseg_first iters_ok_seg(1) by blast

lemma set_iterator_ok:
  assumes ok: "iters_ok {i} s f" and n: "nxt (links s) l = Some n"
  obtains s' where "set_iterator l i s = Some s'" "iters_ok {} s' (f(n := i # f n))" "links s' = links s" "frames s' = frames s"
    "safe_lists.more s' = safe_lists.more s" "nexts s' = (nexts s)(i \<mapsto> n)"
proof -
  have "i \<in> dom (iters s)" using ok by (auto simp: iters_ok_def)
  then obtain x where x: "iters s i = Some x" by blast
  let ?p = "list_i s n" let ?x = "x\<lparr>i_next := n, i_head := List_i n, i_next_i := ?p\<rparr>"
  let ?I = "(iters s)(i \<mapsto> ?x)" let ?J = "rehead ?I ?p (Next_i i)"
  have i: "i \<notin> set (f m)" for m using iters_ok_seg(3) [OF ok] by simp
  have p: "?p = (case f n of [] \<Rightarrow> None | a # _ \<Rightarrow> Some a)" by (rule iters_ok_first [OF ok])
  note mem = iters_ok_member [OF ok] note seg = iters_ok_seg [OF ok]
  have pI: "\<And>a. ?p = Some a \<Longrightarrow> ?I a \<noteq> None"
    using iters_ok_first_live [OF ok, of n] by auto
  have "\<exists>t. iseg ?I n (List_i n) ?p (f n) None t" using seg(1) [of n] i by simp
  then obtain t where "iseg ?J n (Next_i i) ?p (f n) None t" using iseg_rehead seg(2) by blast
  moreover have "?p \<noteq> Some i" using p i [of n] by (cases "f n") auto
  then have Ji: "?J i = Some ?x" by (auto simp: rehead_def split: option.splits)
  ultimately have chain_n: "iseg ?J n (List_i n) (Some i) (i # f n) None t" by simp
  have chain_m: "\<exists>t. iseg ?J m (List_i m) (list_i s m) (f m) None t" if "m \<noteq> n" for m
  proof -
    have "?p = None \<or> (\<exists>a. ?p = Some a \<and> a \<notin> set (f m))"
      using p that mem [of "hd (f n)" n] mem [of "hd (f n)" m] by (cases "f n") auto
    then show ?thesis using seg(1) [of m] i by (simp add: iseg_rehead_other)
  qed
  let ?s = "s\<lparr>list_i := (list_i s)(n := Some i), iters := ?J\<rparr>"
  have "set_iterator l i s = Some ?s"
    using n x pI by (simp add: set_iterator_def upd_iter_def set_head_eq Let_def)
  moreover have "iters_ok {} ?s (f(n := i # f n))"
    unfolding iters_ok_def
  proof (intro conjI allI)
    show "\<exists>t. iseg (iters ?s) m (List_i m) (list_i ?s m) ((f(n := i # f n)) m) None t" for m
      using chain_n chain_m [of m] by (cases "m = n") auto
    show "distinct ((f(n := i # f n)) m)" for m using seg(2) i by simp
    have "dom (iters ?s) = insert i (dom (iters s))" by simp
    also have "\<dots> = (\<Union>m. set ((f(n := i # f n)) m)) \<union> {}"
      using ok unfolding iters_ok_def by (auto split: if_splits)
    finally show "dom (iters ?s) = (\<Union>m. set ((f(n := i # f n)) m)) \<union> {}" .
    show "\<forall>a\<in>dom (iters ?s). a < frames ?s" using ok x unfolding iters_ok_def by auto
  qed simp
  moreover have "nexts ?s = (nexts s)(i \<mapsto> n)" using Ji by (auto simp: nexts_def fun_eq_iff)
  ultimately show thesis by (intro that [of ?s]) auto
qed

lemma iseg_relink_end:
  assumes "iseg I n r p as q t" and "distinct as" and "as = [] \<Longrightarrow> r = List_i m"
  shows "iseg (relink I t v) n r (if as = [] then v else p) as v t"
  using assms iseg_end [OF assms(1)] iseg_relink [of I n r p "butlast as" "last as" q t v] by (cases "as = []") auto

lemma del_iterator_ok:
  assumes ok: "iters_ok {} s f" and f: "f n = xs @ i # ys"
  obtains s' where "del_iterator i s = Some s'" "iters_ok {i} s' (f(n := xs @ ys))" "links s' = links s" "frames s' = frames s"
    "safe_lists.more s' = safe_lists.more s" "nexts s' = nexts s"
proof -
  note seg = iters_ok_seg [OF ok] note mem = iters_ok_member [OF ok]
  have dist: "distinct (xs @ i # ys)" using seg(2) [of n] f by simp
  let ?I = "iters s" let ?p = "list_i s n"
  obtain t where "iseg ?I n (List_i n) ?p (xs @ i # ys) None t" using seg(1) [of n] f by auto
  then obtain v x where xs: "iseg ?I n (List_i n) ?p xs (Some i) v" and x: "?I i = Some x" "i_head x = v"
    and ys: "iseg ?I n (Next_i i) (i_next_i x) ys None t" by (auto simp: iseg_append)
  let ?q = "i_next_i x" let ?J = "relink ?I v ?q" let ?K = "rehead ?J ?q v"
  have v: "v = (if xs = [] then List_i n else Next_i (last xs))" by (rule iseg_end [OF xs])
  have vd: "\<And>a. v = Next_i a \<Longrightarrow> a \<in> set xs \<and> ?I a \<noteq> None"
    using v mem [of "last xs" n] f by (auto simp: nexts_def split: if_splits)
  have q: "?q = (case ys of [] \<Rightarrow> None | a # _ \<Rightarrow> Some a)" by (rule iseg_first [OF ys])
  have Ji: "?J i = Some x" using vd dist x by (auto simp: relink_def split: iref.splits)
  have "iseg ?J n (List_i n) (if xs = [] then ?q else ?p) xs ?q v" using iseg_relink_end [OF xs] dist by simp
  moreover have qx: "?q = None \<or> (\<exists>a. ?q = Some a \<and> a \<notin> set as)" if "set as \<inter> set ys = {}" for as
    using that q by (cases ys) auto
  ultimately have kx: "iseg ?K n (List_i n) (if xs = [] then ?q else ?p) xs ?q v" using dist by (simp add: iseg_rehead_other)
  have vo: "v = Next_i a \<Longrightarrow> a \<notin> set as" if "set as \<inter> set xs = {}" for a as using vd [of a] that by auto
  have "iseg ?J n (Next_i i) ?q ys None t" using ys vo [of ys] dist by (subst iseg_relink_other) auto
  then obtain t' where "iseg ?K n v ?q ys None t'" using iseg_rehead [of ?J n "Next_i i" ?q ys t v] dist by auto
  with kx have chain_n: "\<exists>t. iseg ?K n (List_i n) (if xs = [] then ?q else ?p) (xs @ ys) None t" unfolding iseg_append by blast
  have chain_m: "\<exists>t. iseg ?K m (List_i m) (list_i s m) (f m) None t" if "m \<noteq> n" for m
  proof -
    have "set (f m) \<inter> set (f n) = {}" using that mem by auto
    then have "set (f m) \<inter> set xs = {}" "set (f m) \<inter> set ys = {}" using f by auto
    then show ?thesis using seg(1) [of m] qx vo by (simp add: iseg_rehead_other iseg_relink_other)
  qed
  let ?g = "case v of List_i l \<Rightarrow> (list_i s)(l := ?q) | _ \<Rightarrow> list_i s"
  let ?s = "s\<lparr>list_i := ?g, iters := ?K\<rparr>"
  have "\<And>a. ?q = Some a \<Longrightarrow> ?J a \<noteq> None" using q iters_ok_live [OF ok, of _ n] f by (cases ys) auto
  then have "del_iterator i s = Some ?s"
    using x Ji vd by (simp add: del_iterator_def store_ref_eq set_head_eq)
  moreover have "iters_ok {i} ?s (f(n := xs @ ys))"
    unfolding iters_ok_def
  proof (intro conjI allI)
    show "\<exists>t. iseg (iters ?s) m (List_i m) (list_i ?s m) ((f(n := xs @ ys)) m) None t" for m
      using chain_n chain_m [of m] v by (cases "m = n") auto
    show "distinct ((f(n := xs @ ys)) m)" for m using seg(2) dist by simp
    show "set ((f(n := xs @ ys)) m) \<inter> {i} = {}" for m using dist mem [of i n] mem [of i m] f by (cases "m = n") auto
    have "dom (iters ?s) = (\<Union>m. set (f m))" using ok unfolding iters_ok_def by simp
    also have "\<dots> = (\<Union>m. set ((f(n := xs @ ys)) m)) \<union> {i}"
      using f by (auto split: if_splits) (metis Un_iff list.set_intros(1) set_append insertE list.simps(15))+
    finally show "dom (iters ?s) = (\<Union>m. set ((f(n := xs @ ys)) m)) \<union> {i}" .
    show "\<forall>a\<in>dom (iters ?s). a < frames ?s" using ok unfolding iters_ok_def by auto
  qed
  moreover have "nexts ?s = nexts s" by (auto simp: nexts_def fun_eq_iff)
  ultimately show thesis by (intro that [of ?s]) auto
qed

lemma Union_move: "l \<noteq> n \<Longrightarrow> (\<Union>m. set ((f(l := [], n := f l @ f n)) m)) = (\<Union>m. set (f m))"
proof (intro equalityI subsetI)
  fix x assume "l \<noteq> n" and "x \<in> (\<Union>m. set (f m))"
  then obtain m where "x \<in> set (f m)" by blast
  then have "x \<in> set ((f(l := [], n := f l @ f n)) (if m = l then n else m))" using \<open>l \<noteq> n\<close> by auto
  then show "x \<in> (\<Union>m. set ((f(l := [], n := f l @ f n)) m))" by blast
qed (auto split: if_splits)

lemma retarget_eq:
  assumes "iseg (iters s) l r p as None t" and "distinct as"
  shows "\<exists>J. retarget p n tail s = Some (if as = [] then tail else Next_i (last as), s\<lparr>iters := J\<rparr>) \<and>
    iseg J n r p as None t \<and> (\<forall>a. J a = (if a \<in> set as then map_option (\<lambda>x. x\<lparr>i_next := n\<rparr>) (iters s a) else iters s a))"
  using assms
proof (induction as arbitrary: r p tail s)
  case Nil
  then show ?case by (auto simp: retarget.simps intro!: exI [of _ "iters s"])
next
  case (Cons a as)
  then obtain x where x: "p = Some a" "iters s a = Some x" "i_head x = r" "iseg (iters s) l (Next_i a) (i_next_i x) as None t" by auto
  let ?s = "s\<lparr>iters := (iters s)(a \<mapsto> x\<lparr>i_next := n\<rparr>)\<rparr>"
  have "iseg (iters ?s) l (Next_i a) (i_next_i x) as None t" using x Cons.prems(2) by simp
  from Cons.IH [OF this] Cons.prems(2) obtain J where J: "retarget (i_next_i x) n (Next_i a) ?s =
      Some (if as = [] then Next_i a else Next_i (last as), ?s\<lparr>iters := J\<rparr>)" "iseg J n (Next_i a) (i_next_i x) as None t"
    "\<forall>b. J b = (if b \<in> set as then map_option (\<lambda>x. x\<lparr>i_next := n\<rparr>) (iters ?s b) else iters ?s b)" by fastforce
  have "retarget p n tail s = Some (Next_i (last (a # as)), s\<lparr>iters := J\<rparr>)"
    using x J(1) by (simp add: retarget.simps [of "Some a"] upd_iter_def)
  moreover have "iseg J n r p (a # as) None t" using x J(2,3) Cons.prems(2) by simp
  moreover have "\<forall>b. J b = (if b \<in> set (a # as) then map_option (\<lambda>x. x\<lparr>i_next := n\<rparr>) (iters s b) else iters s b)"
    using x J(3) Cons.prems(2) by auto
  ultimately show ?case by auto
qed

lemma safe_list_del_ok:
  assumes ok: "iters_ok U s f" and n: "nxt (links s) l = Some n" "l \<noteq> n" and h: "list_del l (links s) = Some h"
  obtains s' where "safe_list_del l s = Some s'" "iters_ok U s' (f(l := [], n := f l @ f n))" "links s' = h" "frames s' = frames s"
    "safe_lists.more s' = safe_lists.more s" "\<And>a. a \<notin> U \<Longrightarrow> nexts s' a = (if nexts s a = Some l then Some n else nexts s a)"
    "dom (iters s') = dom (iters s)"
proof (cases "f l = []")
  case True
  note first = iters_ok_first [OF ok] note mem = iters_ok_member [OF ok]
  have "safe_list_del l s = Some (s\<lparr>links := h\<rparr>)" using n h first [of l] True by (simp add: safe_list_del_def)
  moreover have "f(l := [], n := f l @ f n) = f" using True by auto
  moreover have "iters_ok U (s\<lparr>links := h\<rparr>) f" using ok by (simp add: iters_ok_def)
  moreover have "nexts s a \<noteq> Some l" if "a \<notin> U" for a using mem [of a l] True that by simp
  ultimately show thesis by (intro that [of "s\<lparr>links := h\<rparr>"]) auto
next
  case False
  note seg = iters_ok_seg [OF ok] note mem = iters_ok_member [OF ok] note first = iters_ok_first [OF ok]
  let ?as = "f l" let ?bs = "f n" let ?p = "list_i s l" let ?q = "list_i s n" let ?t = "Next_i (last ?as)"
  have p: "?p = Some (hd ?as)" using first [of l] False by (cases ?as) auto
  have disj: "set (f m) \<inter> set (f k) = {}" if "m \<noteq> k" for m k using that mem by auto
  obtain t where as: "iseg (iters s) l (List_i l) ?p ?as None t" using seg(1) by blast
  obtain J where ret: "retarget ?p n (List_i n) (s\<lparr>links := h\<rparr>) = Some (?t, s\<lparr>links := h, iters := J\<rparr>)"
    and Jn: "iseg J n (List_i l) ?p ?as None t"
    and J: "\<And>a. J a = (if a \<in> set ?as then map_option (\<lambda>x. x\<lparr>i_next := n\<rparr>) (iters s a) else iters s a)"
    using retarget_eq [of "s\<lparr>links := h\<rparr>" l "List_i l" ?p ?as t n "List_i n"] as seg(2) [of l] False by auto
  let ?K = "rehead J ?p (List_i n)" let ?L = "relink ?K ?t ?q" let ?M = "rehead ?L ?q ?t"
  have Jdom: "J a \<noteq> None \<longleftrightarrow> iters s a \<noteq> None" for a by (auto simp: J)
  have domJ: "dom J = dom (iters s)" using Jdom by blast
  let ?s = "s\<lparr>links := h, list_i := (list_i s)(n := ?p, l := None), iters := ?M\<rparr>"
  have hd: "hd ?as \<in> set ?as" "last ?as \<in> set ?as" using False by auto
  have live: "J (hd ?as) \<noteq> None" "?K (last ?as) \<noteq> None" "\<And>a. ?q = Some a \<Longrightarrow> ?L a \<noteq> None"
    using iters_ok_live [OF ok] hd iters_ok_first_live [OF ok, of n] Jdom by (auto simp: domIff)
  have q: "?q = None \<or> (\<exists>a. ?q = Some a \<and> a \<in> set ?bs \<and> a \<in> dom ?L)" using iters_ok_first_live [OF ok, of n] domJ by simp
  have "safe_list_del l s = Some ?s"
    using n h ret p live by (simp add: safe_list_del_def set_head_Some store_ref_Next set_head_eq Let_def)
  moreover have "iters_ok U ?s (f(l := [], n := ?as @ ?bs))"
    unfolding iters_ok_def
  proof (intro conjI allI)
    have "\<exists>t. iseg ?K n (List_i n) ?p ?as None t" using iseg_rehead [OF Jn seg(2)] by blast
    then have "iseg ?L n (List_i n) ?p ?as ?q ?t" 
      using iseg_relink [of ?K n "List_i n" ?p "butlast ?as" "last ?as"] seg(2) [of l] False by auto
    moreover have qo: "?q = None \<or> (\<exists>a. ?q = Some a \<and> a \<notin> set (f m))" if "m \<noteq> n" for m using q disj [OF that] by blast
    ultimately have 1: "iseg ?M n (List_i n) ?p ?as ?q ?t" using n(2) iseg_rehead_other by blast
    have other: "iseg ?L k r u (f m) v w = iseg (iters s) k r u (f m) v w" if "m \<noteq> l" for m k r u v w
    proof -
      have m: "a \<notin> set ?as" if "a \<in> set (f m)" for a using that disj [OF \<open>m \<noteq> l\<close>] by blast
      have "iseg ?L k r u (f m) v w = iseg J k r u (f m) v w"
        using m hd p by (subst iseg_relink_other, blast) (subst iseg_rehead_other, auto)
      also have "\<dots> = iseg (iters s) k r u (f m) v w" using m J by (intro iseg_cong) auto
      finally show ?thesis .
    qed
    obtain w where "iseg (iters s) n (List_i n) ?q ?bs None w" using seg(1) [of n] by blast
    then have "iseg ?L n (List_i n) ?q ?bs None w" using other n(2) by simp
    then have "\<exists>w. iseg ?M n ?t ?q ?bs None w" using iseg_rehead seg(2) by blast
    then have 2: "\<exists>w. iseg ?M n (List_i n) ?p (?as @ ?bs) None w" using 1 unfolding iseg_append by blast
    show "\<exists>t. iseg (iters ?s) m (List_i m) (list_i ?s m) ((f(l := [], n := ?as @ ?bs)) m) None t" for m
    proof -
      consider "m = n" | "m = l" | "m \<noteq> n" "m \<noteq> l" by blast
      then show ?thesis
      proof cases
        case 3
        then show ?thesis using seg(1) [of m] other qo iseg_rehead_other by simp
      qed (use n(2) 2 in auto)
    qed
    show "distinct ((f(l := [], n := ?as @ ?bs)) m)" for m using seg(2) disj [of l n] n(2) by simp
    show "set ((f(l := [], n := ?as @ ?bs)) m) \<inter> U = {}" for m using iters_ok_next(2) [OF ok] by auto
    show "dom (iters ?s) = (\<Union>m. set ((f(l := [], n := ?as @ ?bs)) m)) \<union> U"
      using ok domJ Union_move [OF n(2), of f] unfolding iters_ok_def by simp
    show "\<forall>a\<in>dom (iters ?s). a < frames ?s" using ok domJ unfolding iters_ok_def by auto
  qed
  moreover have "nexts ?s a = (if nexts s a = Some l then Some n else nexts s a)" if "a \<notin> U" for a
    using that mem [of a l] by (cases "iters s a") (auto simp: nexts_def J)
  ultimately show thesis using domJ by (intro that [of ?s]) auto
qed

section \<open>Deletions during an iteration\<close>

text \<open>The entries that an iteration with the iterator \<open>a\<close> still has to visit.\<close>

definition pending :: "'z safe_lists_scheme \<Rightarrow> nat list \<Rightarrow> nat \<Rightarrow> nat list" where
  "pending s xs a = dropWhile (\<lambda>y. nexts s a \<noteq> Some y) xs"

definition safe_ok :: "nat set \<Rightarrow> 'z safe_lists_scheme \<Rightarrow> nat \<Rightarrow> nat list \<Rightarrow> bool" where
  "safe_ok U s head xs \<longleftrightarrow> (\<exists>f. iters_ok U s f) \<and> dll (links s) head xs"

text \<open>The iterator \<open>a\<close> belongs to an iteration over this list.\<close>

definition in_ring :: "'z safe_lists_scheme \<Rightarrow> nat \<Rightarrow> nat list \<Rightarrow> nat \<Rightarrow> bool" where
  "in_ring s head xs a \<longleftrightarrow> nexts s a \<in> Some ` set (head # xs)"

lemma dropWhile_skip: "x \<notin> set ys \<Longrightarrow> dropWhile ((\<noteq>) x) (ys @ zs) = dropWhile ((\<noteq>) x) zs"
  by (induction ys) auto

lemma dropWhile_remove:
  assumes "x \<notin> set ys" and "P x"
  shows "dropWhile P (ys @ zs) = remove1 x (dropWhile P (ys @ x # zs)) \<or> x \<in> set zs"
proof (cases "\<exists>y\<in>set ys. \<not> P y")
  case True
  then have "x \<notin> set (dropWhile P ys)" using assms(1) set_dropWhileD by metis
  then show ?thesis using True by (auto simp: dropWhile_append1 remove1_append)
next
  case False
  then have "dropWhile P (ys @ zs) = dropWhile P zs" "dropWhile P (ys @ x # zs) = dropWhile P zs"
    using assms(2) by (simp_all add: dropWhile_append2)
  then show ?thesis using set_dropWhileD [of x P zs] remove1_idem by fastforce
qed

lemma list_del_nxt:
  assumes "dll h head (ys @ e # zs)" and "list_del e h = Some h'"
  shows "nxt h' e = None" and "b \<notin> set (head # ys @ e # zs) \<Longrightarrow> nxt h' b = nxt h b"
proof -
  have "nxt h e = Some (hd (zs @ [head]))" using dll_cut(1) [of h head "ys @ [e]" zs] assms(1) by simp
  moreover have "prv h e = Some (last (head # ys))" using dll_cut(2) [OF assms(1)] by simp
  moreover have "e \<noteq> hd (zs @ [head])" using assms(1) by (cases zs) (auto simp: dll_def)
  ultimately have h': "nxt h' = (nxt h)(last (head # ys) := Some (hd (zs @ [head])), e := None)"
    using assms by (auto simp: list_del_def list_unlink_def set_nxt_def set_prv_def Let_def dll_def)
  then show "nxt h' e = None" by simp
  have "last (head # ys) \<in> set (head # ys)" using last_in_set by blast
  then show "b \<notin> set (head # ys @ e # zs) \<Longrightarrow> nxt h' b = nxt h b" using h' by auto
qed

lemma safe_list_del_pending:
  assumes ok: "safe_ok U s head xs" and x: "x \<in> set xs"
  obtains s' where "safe_list_del x s = Some s'" "safe_ok U s' head (remove1 x xs)" "frames s' = frames s"
    "safe_lists.more s' = safe_lists.more s" "dom (iters s') = dom (iters s)"
    "\<And>a. a \<notin> U \<Longrightarrow> pending s' (remove1 x xs) a = remove1 x (pending s xs a)"
    "\<And>a. a \<notin> U \<Longrightarrow> in_ring s head xs a \<Longrightarrow> in_ring s' head (remove1 x xs) a"
    "nxt (links s') x = None" "\<And>b. b \<notin> set (head # xs) \<Longrightarrow> nxt (links s') b = nxt (links s) b"
    "list_del x (links s) = Some (links s')" "\<And>a. a \<notin> U \<Longrightarrow> nexts s' a = (if nexts s a = Some x then nxt (links s) x else nexts s a)"
proof -
  obtain f where f: "iters_ok U s f" and d: "dll (links s) head xs" using ok by (auto simp: safe_ok_def)
  obtain ys zs where xs: "xs = ys @ x # zs" and x': "x \<notin> set ys" using split_list_first [OF x] by blast
  have dist: "distinct (head # xs)" using d by (simp add: dll_def)
  have rem: "remove1 x xs = ys @ zs" using xs x' by (simp add: remove1_append)
  let ?n = "hd (zs @ [head])"
  have nx: "nxt (links s) x = Some ?n" using dll_cut(1) [of "links s" head "ys @ [x]" zs] d xs by simp
  have nn: "x \<noteq> ?n" "?n \<notin> set ys" using dist xs by (cases zs; auto)+
  obtain h where h: "list_del x (links s) = Some h" "dll h head (ys @ zs)" using dll_del [OF d x] rem by auto
  obtain s' where s': "safe_list_del x s = Some s'" "iters_ok U s' (f(x := [], ?n := f x @ f ?n))" "links s' = h" "frames s' = frames s"
    "safe_lists.more s' = safe_lists.more s" "\<And>a. a \<notin> U \<Longrightarrow> nexts s' a = (if nexts s a = Some x then Some ?n else nexts s a)"
    "dom (iters s') = dom (iters s)" using safe_list_del_ok [OF f nx nn(1) h(1)] by blast
  have pend: "pending s' (remove1 x xs) a = remove1 x (pending s xs a)" if "a \<notin> U" for a
  proof (cases "nexts s a = Some x")
    case True
    then have "pending s xs a = x # zs" using xs x' by (simp add: pending_def dropWhile_skip)
    moreover have "pending s' (ys @ zs) a = zs"
      using s'(6) [OF that] True nn by (cases zs) (auto simp: pending_def dropWhile_skip)
    ultimately show ?thesis using rem by simp
  next
    case False
    then show ?thesis using s'(6) [OF that] dropWhile_remove [of x ys "\<lambda>y. nexts s a \<noteq> Some y" zs] x' xs dist rem
      by (auto simp: pending_def)
  qed
  have "in_ring s' head (remove1 x xs) a" if "a \<notin> U" "in_ring s head xs a" for a
    using that(2) s'(6) [OF that(1)] rem xs by (cases zs) (auto simp: in_ring_def image_iff)
  then show thesis
    using s' pend h rem nx list_del_nxt [of "links s" head ys x zs h] d xs
    by (intro that [of s']) (auto simp: safe_ok_def)
qed

text \<open>The calls that an iteration over \<open>xs\<close> makes, and its result.\<close>

function visit :: "(nat \<Rightarrow> nat list) \<Rightarrow> (nat \<Rightarrow> int) \<Rightarrow> nat list \<Rightarrow> int \<times> nat list" where
  "visit D R [] = (0, [])"
| "visit D R (x # xs) =
     (if R x \<noteq> 0 then (R x, [x])
      else let (r, ys) = visit D R (filter (\<lambda>y. y \<notin> set (D x)) xs) in (r, x # ys))"
  by pat_completeness auto
termination
  by (relation "measure (\<lambda>(_, _, xs). length xs)") (auto simp: le_imp_less_Suc)

text \<open>The list \<open>xs\<close> becomes \<open>xs'\<close>, and the iterators in \<open>A\<close> skip what is gone.\<close>

definition shrinks :: "nat set \<Rightarrow> nat \<Rightarrow> 'z safe_lists_scheme \<Rightarrow> nat list \<Rightarrow> 'z safe_lists_scheme \<Rightarrow> nat list \<Rightarrow> bool" where
  "shrinks A head s xs s' xs' \<longleftrightarrow> safe_ok {} s' head xs' \<and> dom (iters s') = dom (iters s) \<and>
     (\<forall>a\<in>A. in_ring s head xs a \<longrightarrow> in_ring s' head xs' a \<and> pending s' xs' a = filter (\<lambda>y. y \<in> set xs') (pending s xs a))"

lemma pending_subset: "set (pending s xs a) \<subseteq> set xs"
  unfolding pending_def using set_dropWhileD by fast

lemma shrinks_refl: "safe_ok {} s head xs \<Longrightarrow> shrinks A head s xs s xs"
  using pending_subset [of s xs] unfolding shrinks_def by (intro conjI ballI impI filter_True [symmetric]) auto

lemma shrinks_trans:
  assumes "shrinks A head s xs s' xs'" and "shrinks B head s' xs' s'' xs''" and "set xs'' \<subseteq> set xs'"
  shows "shrinks (A \<inter> B) head s xs s'' xs''"
proof -
  have "filter (\<lambda>y. y \<in> set xs'') (filter (\<lambda>y. y \<in> set xs') ys) = filter (\<lambda>y. y \<in> set xs'') ys" for ys
    using assms(3) by (induction ys) auto
  then show ?thesis using assms(1,2) unfolding shrinks_def by simp
qed

lemma shrinks_del:
  assumes ok: "safe_ok {} s head xs" and x: "x \<in> set xs"
  obtains s' where "safe_list_del x s = Some s'" "shrinks UNIV head s xs s' (remove1 x xs)"
    "safe_lists.more s' = safe_lists.more s"
    "nxt (links s') x = None" "\<And>b. b \<notin> set (head # xs) \<Longrightarrow> nxt (links s') b = nxt (links s) b"
    "list_del x (links s) = Some (links s')" "\<forall>a. nexts s' a = (if nexts s a = Some x then nxt (links s) x else nexts s a)"
proof -
  have dist: "distinct xs" using ok by (simp add: safe_ok_def dll_def)
  have rem: "remove1 x (pending s xs a) = filter (\<lambda>y. y \<in> set (remove1 x xs)) (pending s xs a)" for a
    using dist pending_subset [of s xs a] distinct_dropWhile [OF dist]
    by (auto simp: distinct_remove1_removeAll removeAll_filter_not_eq pending_def intro!: filter_cong)
  show thesis
  proof (rule safe_list_del_pending [OF ok x], goal_cases)
    case (1 s')
    then show ?case using rem by (intro that [of s']) (auto simp: shrinks_def)
  qed
qed

lemma shrinks_ok: "shrinks A head s xs s' xs' \<Longrightarrow> safe_ok {} s' head xs'"
  by (simp add: shrinks_def)

lemma safe_ok_linked:
  assumes "safe_ok U s head xs" and "y \<in> set xs"
  shows "nxt (links s) y \<noteq> None"
proof -
  obtain ys zs where "xs = ys @ y # zs" using split_list [OF assms(2)] by blast
  then show ?thesis using assms(1) dll_cut(1) [of "links s" head "ys @ [y]" zs] by (auto simp: safe_ok_def)
qed

lemma move_iterator_ok:
  assumes ok: "safe_ok {} s head xs" and i: "i \<in> dom (iters s)" and n: "nxt (links s) c = Some n"
  obtains s' where "move_iterator c i s = Some s'" "safe_ok {} s' head xs" "links s' = links s" "frames s' = frames s"
    "safe_lists.more s' = safe_lists.more s" "nexts s' = (nexts s)(i \<mapsto> n)"
proof -
  obtain f where f: "iters_ok {} s f" and d: "dll (links s) head xs" using ok by (auto simp: safe_ok_def)
  obtain m where "i \<in> set (f m)" using f i unfolding iters_ok_def by blast
  then obtain ys zs where "f m = ys @ i # zs" using split_list by fast
  from del_iterator_ok [OF f this] obtain t where t: "del_iterator i s = Some t" "iters_ok {i} t (f(m := ys @ zs))" "links t = links s"
    "frames t = frames s" "safe_lists.more t = safe_lists.more s" "nexts t = nexts s" by blast
  from n t(3) have "nxt (links t) c = Some n" by simp
  from set_iterator_ok [OF t(2) this] show thesis
    using t d unfolding safe_ok_def by (metis move_iterator_def bind.bind_lunit that safe_ok_def)
qed

lemma dom_nexts: "dom (nexts s) = dom (iters s)"
  by (auto simp: nexts_def)

lemma pending_next:
  assumes "in_ring s head xs a" and "distinct (head # xs)"
  shows "nexts s a = Some (hd (pending s xs a @ [head]))"
proof -
  obtain n where n: "nexts s a = Some n" "n = head \<or> n \<in> set xs" using assms(1) by (auto simp: in_ring_def)
  show ?thesis
  proof (cases "n \<in> set xs")
    case True
    then obtain ys zs where "xs = ys @ n # zs" "n \<notin> set ys" using split_list_first [OF True] by blast
    then show ?thesis using n(1) by (simp add: pending_def dropWhile_skip)
  next
    case False
    then have "dropWhile (\<lambda>y. n \<noteq> y) xs = []" by (auto simp: dropWhile_eq_Nil_conv)
    then have "pending s xs a = []" using n(1) by (simp only: pending_def option.inject)
    then show ?thesis using n False by simp
  qed
qed

lemma pending_split: "\<exists>ys. xs = ys @ pending s xs a"
  unfolding pending_def by (metis takeWhile_dropWhile_id)

lemma shrinks_move:
  assumes "safe_ok {} s' head xs" and "nexts s' = (nexts s)(i \<mapsto> n)" and "i \<in> dom (iters s)"
  shows "shrinks (UNIV - {i}) head s xs s' xs"
proof -
  have "dom (nexts s') = dom (nexts s)" unfolding assms(2) dom_fun_upd using assms(3) dom_nexts [of s] by auto
  then have "dom (iters s') = dom (iters s)" by (simp only: dom_nexts)
  moreover have "filter (\<lambda>y. y \<in> set xs) (pending s xs a) = pending s xs a" for a
    using pending_subset [of s xs a] by (intro filter_True) auto
  ultimately show ?thesis using assms by (simp add: shrinks_def in_ring_def pending_def)
qed

text \<open>One round of the loop: the iterator leaves the entry \<open>c\<close>, which becomes the current one.\<close>

lemma move_iterator_pending:
  assumes ok: "safe_ok {} s head xs" and i: "i \<in> dom (iters s)" and c: "c = hd (rem @ [head])" and xs: "xs = ys @ rem"
  obtains s' where "move_iterator c i s = Some s'" "shrinks (UNIV - {i}) head s xs s' xs" "links s' = links s"
    "safe_lists.more s' = safe_lists.more s" "rem \<noteq> [] \<Longrightarrow> in_ring s' head xs i \<and> pending s' xs i = tl rem"
    "\<exists>n\<in>set (head # xs). nexts s' = (nexts s)(i \<mapsto> n)"
proof -
  have d: "dll (links s) head xs" "distinct (head # xs)" using ok by (auto simp: safe_ok_def dll_def)
  have n: "nxt (links s) c = Some (hd (tl (rem @ [head] @ xs @ [head])))"
    using dll_cut(1) [of "links s" head "ys @ [c]" "tl rem"] dll_cut(1) [of "links s" head "[]" xs] d c xs
    by (cases rem; cases "tl rem") (auto split: list.splits)
  from move_iterator_ok [OF ok i this] obtain s' where s': "move_iterator c i s = Some s'" "safe_ok {} s' head xs" "links s' = links s"
    "frames s' = frames s" "safe_lists.more s' = safe_lists.more s"
    "nexts s' = (nexts s)(i \<mapsto> hd (tl (rem @ [head] @ xs @ [head])))" by blast
  have "in_ring s' head xs i \<and> pending s' xs i = tl rem" if "rem \<noteq> []"
  proof -
    obtain r rs where rem: "rem = r # rs" using \<open>rem \<noteq> []\<close> by (cases rem) auto
    let ?n = "hd (rs @ [head])"
    have n: "nexts s' i = Some ?n" using s'(6) rem by (cases rs) auto
    then have "in_ring s' head xs i" using xs rem by (cases rs) (auto simp: in_ring_def)
    moreover have "?n \<notin> set (ys @ [r])" using d(2) xs rem by (cases rs) auto
    then have "pending s' xs i = dropWhile ((\<noteq>) ?n) rs" using n xs rem dropWhile_skip [of ?n "ys @ [r]" rs] by (simp add: pending_def)
    moreover have "dropWhile ((\<noteq>) ?n) rs = rs" by (cases rs) auto
    ultimately show ?thesis using rem by simp
  qed
  moreover have "hd (tl (rem @ [head] @ xs @ [head])) \<in> set (head # xs)" using xs by (cases rem; cases "tl rem"; cases xs) auto
  then have "\<exists>n\<in>set (head # xs). nexts s' = (nexts s)(i \<mapsto> n)" using s'(6) by blast
  ultimately show thesis by (rule that [OF s'(1) shrinks_move [OF s'(2,6) i] s'(3,5)])
qed

definition left_over :: "(nat \<Rightarrow> nat list) \<Rightarrow> nat list \<Rightarrow> nat list \<Rightarrow> nat list" where
  "left_over D vs xs = filter (\<lambda>y. \<forall>v\<in>set vs. y \<notin> set (D v)) xs"

lemma left_over_Cons: "left_over D (v # vs) xs = left_over D vs (filter (\<lambda>y. y \<notin> set (D v)) xs)"
  unfolding left_over_def by (auto intro!: filter_cong)

lemma views_cong: "nexts s' a = nexts s a \<Longrightarrow> pending s' xs a = pending s xs a \<and> in_ring s' head xs a = in_ring s head xs a"
  by (simp add: pending_def in_ring_def)

lemma for_each_start:
  assumes ok: "safe_ok {} s head xs" and i: "i = frames s"
  defines "t \<equiv> s\<lparr>frames := i + 1, iters := (iters s)(i \<mapsto> \<lparr>i_head = List_i head, i_next_i = None, i_next = head\<rparr>)\<rparr>"
  obtains n s' where "set_iterator (hd (xs @ [head])) i t = Some s'" "safe_ok {} s' head xs" "links s' = links s"
    "safe_lists.more s' = safe_lists.more s" "nexts s' = (nexts s)(i \<mapsto> n)" "xs \<noteq> [] \<Longrightarrow> n = hd (tl xs @ [head])"
    "n \<in> set (head # xs)"
proof -
  obtain f where f: "iters_ok {} s f" and d: "dll (links s) head xs" using ok by (auto simp: safe_ok_def)
  have fresh: "i \<notin> dom (iters s)" using f i less_irrefl unfolding iters_ok_def by blast
  then have "i \<notin> set (f n)" for n using iters_ok_live [OF f] by blast
  moreover have "\<forall>a\<in>dom (iters s). a < frames s" "dom (iters s) = (\<Union>n. set (f n))" using f unfolding iters_ok_def by auto
  moreover have "dom (iters t) = insert i (dom (iters s))" "frames t = Suc i" by (simp_all add: t_def)
  moreover have "\<exists>w. iseg (iters t) n (List_i n) (list_i t n) (f n) None w" for n
    using calculation(1) iters_ok_seg(1) [OF f, of n] by (simp add: t_def)
  ultimately have t: "iters_ok {i} t f"
    using iters_ok_seg [OF f] i less_SucI unfolding iters_ok_def by (simp add: less_Suc_eq)
  have "nxt (links t) (hd (xs @ [head])) = Some (hd (tl (xs @ [head]) @ [head]))"
    using dll_cut(1) [of "links s" head "[hd xs]" "tl xs"] dll_cut(1) [of "links s" head "[]" xs] d unfolding t_def
    by (cases xs; cases "tl xs") auto
  from set_iterator_ok [OF t this] obtain s' where s': "set_iterator (hd (xs @ [head])) i t = Some s'"
    "iters_ok {} s' (f(hd (tl (xs @ [head]) @ [head]) := i # f (hd (tl (xs @ [head]) @ [head]))))" "links s' = links t"
    "safe_lists.more s' = safe_lists.more t" "nexts s' = (nexts t)(i \<mapsto> hd (tl (xs @ [head]) @ [head]))" by blast
  have n: "nexts s' = (nexts s)(i \<mapsto> hd (tl (xs @ [head]) @ [head]))" using s'(5) by (auto simp: t_def nexts_def fun_eq_iff)
  have hd: "xs \<noteq> [] \<Longrightarrow> hd (tl (xs @ [head]) @ [head]) = hd (tl xs @ [head])" by (cases xs; cases "tl xs") auto
  have ok': "safe_ok {} s' head xs" using s'(2,3) d by (auto simp: t_def safe_ok_def)
  have eqs: "links s' = links s" "safe_lists.more s' = safe_lists.more s" using s'(3,4) by (auto simp: t_def)
  have mem: "hd (tl (xs @ [head]) @ [head]) \<in> set (head # xs)" by (cases xs; cases "tl xs") auto
  show thesis by (rule that [OF s'(1) ok' eqs n hd mem])
qed

lemma for_each_end:
  assumes ok: "safe_ok {} s head xs" and i: "i \<in> dom (iters s)"
  obtains s' where "del_iterator i s = Some s'" "safe_ok {} (s'\<lparr>iters := (iters s')(i := None)\<rparr>) head xs"
    "safe_lists.more s' = safe_lists.more s" "nexts s' = nexts s" "links s' = links s"
proof -
  obtain f where f: "iters_ok {} s f" and d: "dll (links s) head xs" using ok by (auto simp: safe_ok_def)
  obtain m where "i \<in> set (f m)" using f i unfolding iters_ok_def by blast
  then obtain ys zs where "f m = ys @ i # zs" using split_list by fast
  from del_iterator_ok [OF f this] obtain s' where s': "del_iterator i s = Some s'" "iters_ok {i} s' (f(m := ys @ zs))" "links s' = links s"
    "safe_lists.more s' = safe_lists.more s" "nexts s' = nexts s" by blast
  have "iters_ok {} (s'\<lparr>iters := (iters s')(i := None)\<rparr>) (f(m := ys @ zs))"
    unfolding iters_ok_def
  proof (intro conjI allI)
    let ?f = "f(m := ys @ zs)"
    have i: "i \<notin> set (?f n)" for n using iters_ok_seg(3) [OF s'(2)] by simp
    show "\<exists>t. iseg (iters (s'\<lparr>iters := (iters s')(i := None)\<rparr>)) n (List_i n) (list_i (s'\<lparr>iters := (iters s')(i := None)\<rparr>) n) (?f n) None t" for n
      using iters_ok_seg(1) [OF s'(2), of n] i [of n] by simp
    show "distinct (?f n)" for n by (rule iters_ok_seg(2) [OF s'(2)])
    have "dom (iters s') = (\<Union>n. set (?f n)) \<union> {i}" "\<forall>a\<in>dom (iters s'). a < frames s'"
      using s'(2) unfolding iters_ok_def by blast+
    moreover have "i \<notin> (\<Union>n. set (?f n))" using i by blast
    ultimately show "dom (iters (s'\<lparr>iters := (iters s')(i := None)\<rparr>)) = (\<Union>n. set (?f n)) \<union> {}"
      "\<forall>a\<in>dom (iters (s'\<lparr>iters := (iters s')(i := None)\<rparr>)). a < frames (s'\<lparr>iters := (iters s')(i := None)\<rparr>)"
      by (simp_all add: dom_fun_upd del: fun_upd_apply)
  qed simp
  then show thesis using s' d by (intro that [of s']) (auto simp: safe_ok_def)
qed

text \<open>
  What an iteration over the list \<open>head\<close> asks of its callback: called for an entry \<open>x\<close> of the list \<open>xs\<close>, after the calls \<open>vs\<close>, it
  returns \<open>R x\<close>, has deleted the entries \<open>D x\<close>, and keeps an invariant, which the iterators of the list do not affect.
\<close>

locale safe_callback =
  fixes head :: nat
    and cb :: "nat \<Rightarrow> 'z safe_lists_scheme \<Rightarrow> (int \<times> 'z safe_lists_scheme) option"
    and D :: "nat \<Rightarrow> nat list"
    and R :: "nat \<Rightarrow> int"
    and inv :: "nat list \<Rightarrow> 'z safe_lists_scheme \<Rightarrow> nat list \<Rightarrow> bool"
  assumes call: "inv vs s xs \<Longrightarrow> safe_ok {} s head xs \<Longrightarrow> x \<in> set xs \<Longrightarrow>
      \<exists>s'. cb x s = Some (R x, s') \<and> inv (vs @ [x]) s' (filter (\<lambda>y. y \<notin> set (D x)) xs) \<and>
        shrinks UNIV head s xs s' (filter (\<lambda>y. y \<notin> set (D x)) xs)"
    and moved: "inv vs s xs \<Longrightarrow> safe_ok {} s' head xs \<Longrightarrow> links s' = links s \<Longrightarrow> safe_lists.more s' = safe_lists.more s \<Longrightarrow>
      nexts s' = (nexts s)(i := m) \<Longrightarrow> m \<in> insert None (Some ` set (head # xs)) \<Longrightarrow> inv vs s' xs"
begin

lemma for_each_loop_ok:
  assumes "safe_ok {} s head xs" and "i \<in> dom (iters s)" and "set rem \<subseteq> set xs"
    and "rem \<noteq> [] \<Longrightarrow> in_ring s head xs i \<and> pending s xs i = tl rem" and "inv vs s xs"
  shows "\<exists>s'. for_each_loop cb head i (hd (rem @ [head])) s = Some (fst (visit D R rem), s') \<and>
    inv (vs @ snd (visit D R rem)) s' (left_over D (snd (visit D R rem)) xs) \<and>
    shrinks (UNIV - {i}) head s xs s' (left_over D (snd (visit D R rem)) xs)"
  using assms
proof (induction "length rem" arbitrary: rem s xs vs rule: less_induct)
  case less
  note prems = less.prems
  show ?case
  proof (cases rem)
    case Nil
    then show ?thesis using prems by (simp add: for_each_loop.simps left_over_def shrinks_refl)
  next
    case (Cons x rest)
    let ?xs = "filter (\<lambda>y. y \<notin> set (D x)) xs" let ?rem = "filter (\<lambda>y. y \<notin> set (D x)) rest"
    have x: "x \<in> set xs" "x \<noteq> head" using prems(1,3) Cons by (auto simp: safe_ok_def dll_def)
    obtain t where cb: "cb x s = Some (R x, t)" "inv (vs @ [x]) t ?xs" "shrinks UNIV head s xs t ?xs"
      using call [OF prems(5,1) x(1)] by blast
    show ?thesis
    proof (cases "R x = 0")
      case False
      have "shrinks (UNIV - {i}) head s xs t ?xs" using cb(3) by (simp add: shrinks_def)
      then show ?thesis using False cb(1,2) x(2) Cons by (simp add: for_each_loop.simps left_over_Cons left_over_def)
    next
      case True
      have rem: "in_ring t head ?xs i" "pending t ?xs i = ?rem"
        using cb(3) prems(3,4) Cons by (auto simp: shrinks_def intro!: filter_cong)
      have "distinct (head # ?xs)" using shrinks_ok [OF cb(3)] by (simp add: safe_ok_def dll_def)
      from pending_next [OF rem(1) this] obtain y where y: "iters t i = Some y" "i_next y = hd (?rem @ [head])"
        using rem(2) by (auto simp: nexts_def)
      have i: "i \<in> dom (iters t)" using y by blast
      obtain zs where zs: "?xs = zs @ ?rem" using pending_split [of ?xs t i] rem(2) by auto
      obtain u where u: "move_iterator (hd (?rem @ [head])) i t = Some u" "shrinks (UNIV - {i}) head t ?xs u ?xs" "links u = links t"
        "safe_lists.more u = safe_lists.more t" "?rem \<noteq> [] \<Longrightarrow> in_ring u head ?xs i \<and> pending u ?xs i = tl ?rem"
        "\<exists>n\<in>set (head # ?xs). nexts u = (nexts t)(i \<mapsto> n)"
        using move_iterator_pending [OF shrinks_ok [OF cb(3)] i refl zs] by blast
      obtain n where "n \<in> set (head # ?xs)" "nexts u = (nexts t)(i \<mapsto> n)" using u(6) by blast
      then have inv: "inv (vs @ [x]) u ?xs" using moved [OF cb(2) shrinks_ok [OF u(2)] u(3,4)] by blast
      have len: "length ?rem < length rem" using Cons by (simp add: le_imp_less_Suc)
      have ui: "i \<in> dom (iters u)" "set ?rem \<subseteq> set ?xs" using u(2) i zs by (auto simp: shrinks_def)
      obtain s' where s': "for_each_loop cb head i (hd (?rem @ [head])) u = Some (fst (visit D R ?rem), s')"
        "inv ((vs @ [x]) @ snd (visit D R ?rem)) s' (left_over D (snd (visit D R ?rem)) ?xs)"
        "shrinks (UNIV - {i}) head u ?xs s' (left_over D (snd (visit D R ?rem)) ?xs)"
        using less.hyps [OF len shrinks_ok [OF u(2)] ui u(5) inv] by blast
      have "shrinks (UNIV - {i}) head s xs u ?xs" using shrinks_trans [OF cb(3) u(2)] by simp
      from shrinks_trans [OF this s'(3)]
      have "shrinks (UNIV - {i}) head s xs s' (left_over D (x # snd (visit D R ?rem)) xs)"
        by (auto simp: left_over_def left_over_Cons)
      then show ?thesis
        using True cb(1) x(2) y u(1) s'(1,2) Cons by (simp add: for_each_loop.simps [of _ head i x s] split_beta left_over_Cons)
    qed
  qed
qed

lemma for_each_ok:
  assumes ok: "safe_ok {} s head xs" and inv: "inv us s xs" and vs: "visit D R xs = (r, vs)"
  shows "\<exists>s'. safe_list_for_each head cb s = Some (r, s') \<and> inv (us @ vs) s' (left_over D vs xs) \<and>
    shrinks (dom (iters s)) head s xs s' (left_over D vs xs)"
proof -
  let ?i = "frames s" let ?ys = "left_over D vs xs"
  have d: "dll (links s) head xs" "distinct (head # xs)" using ok by (auto simp: safe_ok_def dll_def)
  have fresh: "?i \<notin> dom (iters s)" using ok less_irrefl unfolding safe_ok_def iters_ok_def by blast
  from for_each_start [OF ok refl] obtain n t where t:
    "set_iterator (hd (xs @ [head])) ?i (s\<lparr>frames := ?i + 1, iters := (iters s)(?i \<mapsto> \<lparr>i_head = List_i head, i_next_i = None, i_next = head\<rparr>)\<rparr>) = Some t"
    "safe_ok {} t head xs" "links t = links s" "safe_lists.more t = safe_lists.more s" "nexts t = (nexts s)(?i \<mapsto> n)"
    "xs \<noteq> [] \<Longrightarrow> n = hd (tl xs @ [head])" "n \<in> set (head # xs)" by metis
  have ti: "?i \<in> dom (iters t)" using t(5) dom_nexts [of t] by auto
  have "in_ring t head xs ?i \<and> pending t xs ?i = tl xs" if "xs \<noteq> []"
    using that t(5,6) d(2) by (cases xs; cases "tl xs") (auto simp: in_ring_def pending_def)
  moreover have "inv us t xs" using moved [OF inv t(2-5)] t(7) by blast
  ultimately obtain u where u: "for_each_loop cb head ?i (hd (xs @ [head])) t = Some (r, u)" "inv (us @ vs) u ?ys"
    "shrinks (UNIV - {?i}) head t xs u ?ys" using for_each_loop_ok [OF t(2) ti subset_refl] vs by fastforce
  have "?i \<in> dom (iters u)" using u(3) ti by (simp add: shrinks_def)
  from for_each_end [OF shrinks_ok [OF u(3)] this] obtain v where v: "del_iterator ?i u = Some v"
    "safe_ok {} (v\<lparr>iters := (iters v)(?i := None)\<rparr>) head ?ys" "safe_lists.more v = safe_lists.more u" "nexts v = nexts u"
    "links v = links u" by blast
  let ?v = "v\<lparr>iters := (iters v)(?i := None)\<rparr>"
  have "nxt (links s) head = Some (hd (xs @ [head]))" using dll_cut(1) [of "links s" head "[]" xs] d(1) by simp
  then have "safe_list_for_each head cb s = Some (r, ?v)"
    using t(1) u(1) v(1) by (simp add: safe_list_for_each_def Let_def)
  moreover have nv: "nexts ?v = (nexts u)(?i := None)" using v(4) by (auto simp: nexts_def fun_eq_iff)
  then have "inv (us @ vs) ?v ?ys" using moved [OF u(2) v(2), of ?i None] v(3,5) by simp
  moreover have "shrinks (dom (iters s)) head s xs ?v ?ys"
  proof -
    have "dom (iters v) = insert ?i (dom (iters s))" using u(3) t(5) v(4) by (simp add: shrinks_def flip: dom_nexts)
    then have "dom (iters ?v) = dom (iters s)" using fresh by (simp add: dom_fun_upd)
    moreover have "in_ring ?v head ?ys a \<and> pending ?v ?ys a = filter (\<lambda>y. y \<in> set ?ys) (pending s xs a)"
      if a: "a \<in> dom (iters s)" "in_ring s head xs a" for a
    proof -
      have ne: "a \<noteq> ?i" using a(1) fresh by blast
      then have "nexts t a = nexts s a" "nexts ?v a = nexts u a" using t(5) nv by auto
      then show ?thesis using u(3) ne a(2) views_cong [of t a s xs head] views_cong [of ?v a u ?ys head] by (simp add: shrinks_def)
    qed
    ultimately show ?thesis using v(2) by (simp add: shrinks_def)
  qed
  ultimately show ?thesis by blast
qed

end

text \<open>
  A callback that deletes the entries \<open>D x\<close> when it is called for \<open>x\<close>, those that are still linked (\<open>list_del\<close> clears the
  links), notes the call and returns \<open>R x\<close>.
\<close>

record visits = safe_lists +
  seen :: "nat list"

fun del_linked :: "nat list \<Rightarrow> 'z safe_lists_scheme \<Rightarrow> 'z safe_lists_scheme option" where
  "del_linked [] s = Some s"
| "del_linked (y # ys) s = do {
     s \<leftarrow> (if nxt (links s) y = None then Some s else safe_list_del y s);
     del_linked ys s
   }"

definition deleting :: "(nat \<Rightarrow> nat list) \<Rightarrow> (nat \<Rightarrow> int) \<Rightarrow> nat \<Rightarrow> visits \<Rightarrow> (int \<times> visits) option" where
  "deleting D R x s = do {
     s \<leftarrow> del_linked (D x) s;
     Some (R x, s\<lparr>seen := seen s @ [x]\<rparr>)
   }"

text \<open>The entries of \<open>V\<close> that are no longer in the list have no links.\<close>

definition unlinked :: "nat set \<Rightarrow> 'z safe_lists_scheme \<Rightarrow> nat list \<Rightarrow> bool" where
  "unlinked V s xs \<longleftrightarrow> (\<forall>y\<in>V. y \<notin> set xs \<longrightarrow> nxt (links s) y = None)"

lemma del_linked_ok:
  assumes "safe_ok {} s head xs" and "set ys \<subseteq> V" and "unlinked V s xs" and "head \<notin> V"
  obtains s' where "del_linked ys s = Some s'" "shrinks UNIV head s xs s' (filter (\<lambda>y. y \<notin> set ys) xs)"
    "safe_lists.more s' = safe_lists.more s" "unlinked V s' (filter (\<lambda>y. y \<notin> set ys) xs)"
  using assms
proof (induction ys arbitrary: s xs thesis)
  case Nil
  then show ?case by (auto simp: shrinks_refl)
next
  case (Cons y ys)
  show ?case
  proof (cases "y \<in> set xs")
    case True
    let ?xs = "remove1 y xs"
    obtain t where t: "safe_list_del y s = Some t" "shrinks UNIV head s xs t ?xs" "safe_lists.more t = safe_lists.more s"
      "nxt (links t) y = None" "\<And>b. b \<notin> set (head # xs) \<Longrightarrow> nxt (links t) b = nxt (links s) b"
      using shrinks_del [OF Cons.prems(2) True] by blast
    have dist: "distinct xs" using Cons.prems(2) by (simp add: safe_ok_def dll_def)
    then have "unlinked V t ?xs" using t Cons.prems(4,5) by (fastforce simp: unlinked_def)
    then obtain s' where s': "del_linked ys t = Some s'" "shrinks UNIV head t ?xs s' (filter (\<lambda>y. y \<notin> set ys) ?xs)"
      "safe_lists.more s' = safe_lists.more t" "unlinked V s' (filter (\<lambda>y. y \<notin> set ys) ?xs)"
      using Cons.IH [OF _ shrinks_ok [OF t(2)]] Cons.prems(3,5) by auto
    have "filter (\<lambda>y. y \<notin> set ys) ?xs = filter (\<lambda>z. z \<notin> set (y # ys)) xs"
      using dist by (auto simp: distinct_remove1_removeAll removeAll_filter_not_eq intro!: filter_cong)
    moreover have "shrinks UNIV head s xs s' (filter (\<lambda>y. y \<notin> set ys) ?xs)"
      using shrinks_trans [OF t(2) s'(2)] by auto
    ultimately show ?thesis
      using s' t safe_ok_linked [OF Cons.prems(2) True] by (intro Cons.prems(1) [of s']) auto
  next
    case False
    then have "nxt (links s) y = None" using Cons.prems by (auto simp: unlinked_def)
    moreover have "filter (\<lambda>z. z \<notin> set (y # ys)) xs = filter (\<lambda>z. z \<notin> set ys) xs" using False by (auto intro!: filter_cong)
    ultimately show ?thesis using Cons by auto
  qed
qed

lemma more_seen: "safe_lists.more s' = safe_lists.more s \<Longrightarrow> seen s' = seen s"
  by (cases s, cases s') auto

lemma seen_upd [simp]:
  "iters_ok U (s\<lparr>seen := v\<rparr>) f = iters_ok U s f" "nexts (s\<lparr>seen := v\<rparr>) = nexts s"
  by (auto simp: iters_ok_def nexts_def fun_eq_iff)

lemma seen_upd_views [simp]:
  "safe_ok U (s\<lparr>seen := v\<rparr>) head xs = safe_ok U s head xs" "pending (s\<lparr>seen := v\<rparr>) xs = pending s xs"
  "in_ring (s\<lparr>seen := v\<rparr>) head xs = in_ring s head xs" "unlinked V (s\<lparr>seen := v\<rparr>) xs = unlinked V s xs"
  by (auto simp: safe_ok_def pending_def in_ring_def unlinked_def fun_eq_iff)

text \<open>The list \<open>xs\<close> is what is left of \<open>V\<close>, and the calls \<open>vs\<close> have been noted.\<close>

definition deletes_within :: "nat set \<Rightarrow> nat \<Rightarrow> (nat \<Rightarrow> nat list) \<Rightarrow> nat list \<Rightarrow> visits \<Rightarrow> nat list \<Rightarrow> bool" where
  "deletes_within V head D vs s xs \<longleftrightarrow>
     unlinked V s xs \<and> head \<notin> V \<and> set xs \<subseteq> V \<and> (\<forall>x\<in>V. set (D x) \<subseteq> V) \<and> seen s = vs"

interpretation deletion: safe_callback head "deleting D R" D R "deletes_within V head D" for head D R V
proof (unfold_locales, goal_cases)
  case (1 vs s xs x)
  let ?xs = "filter (\<lambda>y. y \<notin> set (D x)) xs"
  have V: "set (D x) \<subseteq> V" "unlinked V s xs" "head \<notin> V" using 1 by (auto simp: deletes_within_def)
  obtain t where t: "del_linked (D x) s = Some t" "shrinks UNIV head s xs t ?xs" "safe_lists.more t = safe_lists.more s" "unlinked V t ?xs"
    by (rule del_linked_ok [OF 1(2) V])
  let ?t = "t\<lparr>seen := seen s @ [x]\<rparr>"
  have "deleting D R x s = Some (R x, ?t)" using t(1) more_seen [OF t(3)] by (simp add: deleting_def)
  moreover have "shrinks UNIV head s xs ?t ?xs" using t(2) by (simp add: shrinks_def)
  moreover have "deletes_within V head D (vs @ [x]) ?t ?xs" using 1(1) t(4) by (auto simp: deletes_within_def)
  ultimately show ?case by blast
next
  case (2 vs s xs s' i m)
  then show ?case using more_seen [of s' s] by (auto simp: deletes_within_def unlinked_def)
qed

text \<open>
  C10: An iteration over a list in which the callback deletes any entries of the list, the current and the next one included, returns; it
  calls the callback, in the order of the list, exactly for the entries that are still in the list when their turn comes, stops at the
  first result that is not \<open>0\<close> and returns it. Iterations that are in progress outside of this one keep their positions: they go on with
  those of their remaining entries that are still in the list.
\<close>

theorem safe_iteration:
  assumes ok: "safe_ok {} s head xs" and D: "\<And>x. x \<in> set xs \<Longrightarrow> set (D x) \<subseteq> set xs" and vs: "visit D R xs = (r, vs)"
  shows "\<exists>s'. safe_list_for_each head (deleting D R) s = Some (r, s') \<and> seen s' = seen s @ vs \<and>
    shrinks (dom (iters s)) head s xs s' (left_over D vs xs)"
proof -
  have "deletes_within (set xs) head D (seen s) s xs" using ok D by (auto simp: deletes_within_def unlinked_def safe_ok_def dll_def)
  from deletion.for_each_ok [OF ok this vs] show ?thesis by (auto simp: deletes_within_def)
qed

text \<open>A list of three entries: the callback deletes the next entry, then itself.\<close>

definition three :: visits where
  "three = \<lparr>links = \<lparr>nxt = [0 \<mapsto> 1, 1 \<mapsto> 2, 2 \<mapsto> 3, 3 \<mapsto> 0], prv = [0 \<mapsto> 3, 1 \<mapsto> 0, 2 \<mapsto> 1, 3 \<mapsto> 2]\<rparr>,
     list_i = (\<lambda>_. None), iters = (\<lambda>_. None), frames = 0, seen = []\<rparr>"

lemma safe_ok_three: "safe_ok {} three 0 [1, 2, 3]"
proof -
  have "iters_ok {} three (\<lambda>_. [])" by (simp add: iters_ok_def three_def)
  then show ?thesis by (auto simp: safe_ok_def three_def dll_def)
qed

theorem safe_iteration_witness:
  "\<exists>s'. safe_list_for_each 0 (deleting (\<lambda>x. if x = 1 then [2] else [x]) (\<lambda>_. 0)) three = Some (0, s') \<and> seen s' = [1, 3] \<and>
    safe_ok {} s' 0 [1]"
proof -
  let ?D = "\<lambda>x. if x = 1 then [2] else [x]"
  have "visit ?D (\<lambda>_. 0) [1, 2, 3] = (0, [1, 3])" by simp
  moreover have "set (?D x) \<subseteq> set [1, 2, 3]" if "x \<in> set [1, 2, 3]" for x :: nat using that by auto
  ultimately show ?thesis
    using safe_iteration [of three 0 "[1, 2, 3]" ?D "\<lambda>_. 0" 0 "[1, 3]"] safe_ok_three
    by (auto simp: three_def shrinks_def left_over_def)
qed

end
