(* ===== verification/Runqueue.thy ===== *)
theory Runqueue
  imports Safe_List Uloop
begin

text \<open>
  Queues of tasks with a limit on how many run at a time: \<open>src/libubox/runqueue.c\<close> and \<open>runqueue.h\<close>.

  Tasks and queues have addresses. A task is at the address of its list entry, its timer and its process have the
  same address in the event loop; the entries of a queue \<open>q\<close> for its active tasks and its timer are at \<open>q\<close>, the one for its
  inactive tasks is at \<open>tasks_inactive q\<close>. Access to a task or a queue that is not in the heap is \<open>None\<close>. The functions of
  the application are arbitrary functions on the state, named by numbers.
\<close>

section \<open>Data\<close>

record runqueue_task =
  r_type :: "nat option"
  r_q :: nat
  r_complete :: "nat option"
  r_run_timeout :: int
  r_cancel_timeout :: int
  r_cancel_type :: int
  r_queued :: bool
  r_running :: bool
  r_cancelled :: bool

datatype queue_cb = No_cb | Start_next_cb | Empty_cb

record runqueue =
  q_timeout_cb :: queue_cb
  running_tasks :: int
  max_running_tasks :: int
  q_stopped :: bool
  q_empty :: bool
  q_empty_cb :: "nat option"

record runqueues = safe_lists +
  queues :: "nat \<rightharpoonup> runqueue"
  rtasks :: "nat \<rightharpoonup> runqueue_task"
  rloop :: uloop
  signals :: "(int \<times> int) list"

record 's runqueue_task_type =
  ty_run :: "(nat \<Rightarrow> nat \<Rightarrow> 's \<Rightarrow> 's option) option"
  ty_cancel :: "(nat \<Rightarrow> nat \<Rightarrow> int \<Rightarrow> 's \<Rightarrow> 's option) option"
  ty_kill :: "(nat \<Rightarrow> nat \<Rightarrow> 's \<Rightarrow> 's option) option"

text \<open>The functions of an application: the task types, and the functions for \<open>complete\<close> and \<open>empty_cb\<close>.\<close>

record 's task_env =
  types :: "nat \<Rightarrow> 's runqueue_task_type"
  completes :: "nat \<Rightarrow> nat \<Rightarrow> nat \<Rightarrow> 's \<Rightarrow> 's option"
  empties :: "nat \<Rightarrow> nat \<Rightarrow> 's \<Rightarrow> 's option"

definition tasks_inactive :: "nat \<Rightarrow> nat" where
  "tasks_inactive q = Suc q"

definition upd_task :: "nat \<Rightarrow> (runqueue_task \<Rightarrow> runqueue_task) \<Rightarrow> 'z runqueues_scheme \<Rightarrow> 'z runqueues_scheme option" where
  "upd_task t f s = do {
     x \<leftarrow> rtasks s t;
     Some (s\<lparr>rtasks := (rtasks s)(t \<mapsto> f x)\<rparr>)
   }"

definition upd_queue :: "nat \<Rightarrow> (runqueue \<Rightarrow> runqueue) \<Rightarrow> 'z runqueues_scheme \<Rightarrow> 'z runqueues_scheme option" where
  "upd_queue q f s = do {
     x \<leftarrow> queues s q;
     Some (s\<lparr>queues := (queues s)(q \<mapsto> f x)\<rparr>)
   }"

text \<open>Operations of the event loop, and the type of a task.\<close>

definition set_timer :: "nat \<Rightarrow> int \<Rightarrow> 'z runqueues_scheme \<Rightarrow> 'z runqueues_scheme option" where
  "set_timer t msecs s = do {
     (_, l) \<leftarrow> uloop_timeout_set t msecs (rloop s);
     Some (s\<lparr>rloop := l\<rparr>)
   }"

definition cancel_timer :: "nat \<Rightarrow> 'z runqueues_scheme \<Rightarrow> 'z runqueues_scheme option" where
  "cancel_timer t s = do {
     (_, l) \<leftarrow> uloop_timeout_cancel t (rloop s);
     Some (s\<lparr>rloop := l\<rparr>)
   }"

definition set_timer_cb :: "nat \<Rightarrow> 'z runqueues_scheme \<Rightarrow> 'z runqueues_scheme option" where
  "set_timer_cb t s = do {
     x \<leftarrow> tmo (rloop s) t;
     Some (s\<lparr>rloop := (rloop s)\<lparr>tmo := (tmo (rloop s))(t \<mapsto> x\<lparr>t_cb := True\<rparr>)\<rparr>\<rparr>)
   }"

definition task_ops :: "'s task_env \<Rightarrow> runqueue_task \<Rightarrow> 's runqueue_task_type option" where
  "task_ops E x = map_option (types E) (r_type x)"

section \<open>Tasks\<close>

definition runqueue_init :: "nat \<Rightarrow> 'z runqueues_scheme \<Rightarrow> 'z runqueues_scheme" where
  "runqueue_init q s = INIT_SAFE_LIST (tasks_inactive q) (INIT_SAFE_LIST q s)"

definition runqueue_start_next :: "nat \<Rightarrow> 'z runqueues_scheme \<Rightarrow> 'z runqueues_scheme option" where
  "runqueue_start_next q s = do {
     x \<leftarrow> queues s q;
     if q_empty x then Some s
     else do {
       s \<leftarrow> upd_queue q (\<lambda>x. x\<lparr>q_timeout_cb := Start_next_cb\<rparr>) s;
       s \<leftarrow> set_timer_cb q s;
       set_timer q 1 s
     }
   }"

definition runqueue_task_complete :: "'z runqueues_scheme task_env \<Rightarrow> nat \<Rightarrow> 'z runqueues_scheme \<Rightarrow> 'z runqueues_scheme option" where
  "runqueue_task_complete E t s = do {
     x \<leftarrow> rtasks s t;
     let q = r_q x;
     if \<not> r_queued x then Some s
     else do {
       s \<leftarrow> (if r_running x then upd_queue (r_q x) (\<lambda>y. y\<lparr>running_tasks := running_tasks y - 1\<rparr>) s else Some s);
       s \<leftarrow> cancel_timer t s;
       s \<leftarrow> safe_list_del t s;
       s \<leftarrow> upd_task t (\<lambda>x. x\<lparr>r_queued := False, r_running := False, r_cancelled := False\<rparr>) s;
       s \<leftarrow> (case r_complete x of None \<Rightarrow> Some s | Some c \<Rightarrow> completes E c q t s);
       x \<leftarrow> rtasks s t;
       runqueue_start_next (r_q x) s
     }
   }"

definition runqueue_task_cancel :: "'z runqueues_scheme task_env \<Rightarrow> nat \<Rightarrow> int \<Rightarrow> 'z runqueues_scheme \<Rightarrow> 'z runqueues_scheme option" where
  "runqueue_task_cancel E t type s = do {
     x \<leftarrow> rtasks s t;
     if \<not> r_queued x then Some s
     else if \<not> r_running x then runqueue_task_complete E t s
     else do {
       s \<leftarrow> upd_task t (\<lambda>x. x\<lparr>r_cancelled := True\<rparr>) s;
       s \<leftarrow> (if r_cancel_timeout x \<noteq> 0 then set_timer t (r_cancel_timeout x) s else Some s);
       ty \<leftarrow> task_ops E x;
       case ty_cancel ty of None \<Rightarrow> Some s | Some f \<Rightarrow> f (r_q x) t type s
     }
   }"

definition runqueue_task_kill :: "'z runqueues_scheme task_env \<Rightarrow> nat \<Rightarrow> 'z runqueues_scheme \<Rightarrow> 'z runqueues_scheme option" where
  "runqueue_task_kill E t s = do {
     x \<leftarrow> rtasks s t;
     let q = r_q x;
     let running = r_running x;
     if \<not> r_queued x then Some s
     else do {
       s \<leftarrow> runqueue_task_complete E t s;
       s \<leftarrow>
         (if running then do {
            x \<leftarrow> rtasks s t;
            ty \<leftarrow> task_ops E x;
            case ty_kill ty of None \<Rightarrow> Some s | Some f \<Rightarrow> f q t s
          }
          else Some s);
       runqueue_start_next q s
     }
   }"

definition runqueue_task_timeout :: "'z runqueues_scheme task_env \<Rightarrow> nat \<Rightarrow> 'z runqueues_scheme \<Rightarrow> 'z runqueues_scheme option" where
  "runqueue_task_timeout E t s = do {
     x \<leftarrow> rtasks s t;
     if r_cancelled x then runqueue_task_kill E t s else runqueue_task_cancel E t (r_cancel_type x) s
   }"

definition task_add :: "'z runqueues_scheme task_env \<Rightarrow> nat \<Rightarrow> nat \<Rightarrow> bool \<Rightarrow> bool \<Rightarrow> 'z runqueues_scheme \<Rightarrow> 'z runqueues_scheme option" where
  "task_add E q t running first s = do {
     x \<leftarrow> rtasks s t;
     if r_queued x then Some s
     else do {
       ty \<leftarrow> task_ops E x;
       if ty_run ty = None \<and> \<not> running then Some s
       else do {
         s \<leftarrow> (if running then upd_queue q (\<lambda>y. y\<lparr>running_tasks := running_tasks y + 1\<rparr>) s else Some s);
         let head = (if running then q else tasks_inactive q);
         s \<leftarrow> set_timer_cb t s;
         s \<leftarrow> upd_task t (\<lambda>x. x\<lparr>r_q := q\<rparr>) s;
         s \<leftarrow> (if first then safe_list_add_first t head s else safe_list_add t head s);
         s \<leftarrow> upd_task t (\<lambda>x. x\<lparr>r_cancelled := False, r_queued := True, r_running := running\<rparr>) s;
         s \<leftarrow> upd_queue q (\<lambda>y. y\<lparr>q_empty := False\<rparr>) s;
         runqueue_start_next q s
       }
     }
   }"

definition runqueue_task_add :: "'z runqueues_scheme task_env \<Rightarrow> nat \<Rightarrow> nat \<Rightarrow> bool \<Rightarrow> 'z runqueues_scheme \<Rightarrow> 'z runqueues_scheme option" where
  "runqueue_task_add E q t running s = task_add E q t running False s"

definition runqueue_task_add_first :: "'z runqueues_scheme task_env \<Rightarrow> nat \<Rightarrow> nat \<Rightarrow> bool \<Rightarrow> 'z runqueues_scheme \<Rightarrow> 'z runqueues_scheme option" where
  "runqueue_task_add_first E q t running s = task_add E q t running True s"

section \<open>Queues\<close>

definition runqueue_empty_cb :: "'z runqueues_scheme task_env \<Rightarrow> nat \<Rightarrow> 'z runqueues_scheme \<Rightarrow> 'z runqueues_scheme option" where
  "runqueue_empty_cb E q s = do {
     x \<leftarrow> queues s q;
     c \<leftarrow> q_empty_cb x;
     empties E c q s
   }"

text \<open>The loop of \<open>__runqueue_start_next\<close>.\<close>

partial_function (option) start_loop :: "'z runqueues_scheme task_env \<Rightarrow> nat \<Rightarrow> 'z runqueues_scheme \<Rightarrow> 'z runqueues_scheme option" where
  "start_loop E q s = do {
     x \<leftarrow> queues s q;
     if q_stopped x then Some s
     else if list_empty (tasks_inactive q) (links s) then Some s
     else if max_running_tasks x \<noteq> 0 \<and> running_tasks x \<ge> max_running_tasks x then Some s
     else do {
       t \<leftarrow> nxt (links s) (tasks_inactive q);
       s \<leftarrow> safe_list_del t s;
       s \<leftarrow> safe_list_add t q s;
       s \<leftarrow> upd_task t (\<lambda>y. y\<lparr>r_running := True\<rparr>) s;
       s \<leftarrow> upd_queue q (\<lambda>x. x\<lparr>running_tasks := running_tasks x + 1\<rparr>) s;
       y \<leftarrow> rtasks s t;
       s \<leftarrow> (if r_run_timeout y \<noteq> 0 then set_timer t (r_run_timeout y) s else Some s);
       ty \<leftarrow> task_ops E y;
       run \<leftarrow> ty_run ty;
       s \<leftarrow> run q t s;
       start_loop E q s
     }
   }"

definition start_next_cb :: "'z runqueues_scheme task_env \<Rightarrow> nat \<Rightarrow> 'z runqueues_scheme \<Rightarrow> 'z runqueues_scheme option" where
  "start_next_cb E q s = do {
     s \<leftarrow> start_loop E q s;
     x \<leftarrow> queues s q;
     if \<not> q_empty x \<and> list_empty q (links s) \<and> list_empty (tasks_inactive q) (links s) then do {
       s \<leftarrow> upd_queue q (\<lambda>x. x\<lparr>q_empty := True\<rparr>) s;
       if q_empty_cb x \<noteq> None then do {
         s \<leftarrow> upd_queue q (\<lambda>x. x\<lparr>q_timeout_cb := Empty_cb\<rparr>) s;
         s \<leftarrow> set_timer_cb q s;
         set_timer q 1 s
       }
       else Some s
     }
     else Some s
   }"

text \<open>The timer of a queue.\<close>

definition queue_timeout :: "'z runqueues_scheme task_env \<Rightarrow> nat \<Rightarrow> 'z runqueues_scheme \<Rightarrow> 'z runqueues_scheme option" where
  "queue_timeout E q s = do {
     x \<leftarrow> queues s q;
     case q_timeout_cb x of
       No_cb \<Rightarrow> Some s
     | Start_next_cb \<Rightarrow> start_next_cb E q s
     | Empty_cb \<Rightarrow> runqueue_empty_cb E q s
   }"

text \<open>The event loop runs the timer of a queue if it is pending.\<close>

definition queue_tick :: "'z runqueues_scheme task_env \<Rightarrow> nat \<Rightarrow> 'z runqueues_scheme \<Rightarrow> 'z runqueues_scheme option" where
  "queue_tick E q s = do {
     x \<leftarrow> tmo (rloop s) q;
     if t_pending x then do {
       s \<leftarrow> cancel_timer q s;
       queue_timeout E q s
     }
     else Some s
   }"

definition cancel_cb :: "'z runqueues_scheme task_env \<Rightarrow> nat \<Rightarrow> 'z runqueues_scheme \<Rightarrow> (int \<times> 'z runqueues_scheme) option" where
  "cancel_cb E t s = map_option (Pair 0) (runqueue_task_cancel E t 0 s)"

definition runqueue_cancel_active :: "'z runqueues_scheme task_env \<Rightarrow> nat \<Rightarrow> 'z runqueues_scheme \<Rightarrow> 'z runqueues_scheme option" where
  "runqueue_cancel_active E q s = map_option snd (safe_list_for_each q (cancel_cb E) s)"

definition runqueue_cancel_pending :: "'z runqueues_scheme task_env \<Rightarrow> nat \<Rightarrow> 'z runqueues_scheme \<Rightarrow> 'z runqueues_scheme option" where
  "runqueue_cancel_pending E q s = map_option snd (safe_list_for_each (tasks_inactive q) (cancel_cb E) s)"

definition runqueue_cancel :: "'z runqueues_scheme task_env \<Rightarrow> nat \<Rightarrow> 'z runqueues_scheme \<Rightarrow> 'z runqueues_scheme option" where
  "runqueue_cancel E q s = do {
     s \<leftarrow> runqueue_cancel_pending E q s;
     runqueue_cancel_active E q s
   }"

partial_function (option) kill_loop :: "'z runqueues_scheme task_env \<Rightarrow> nat \<Rightarrow> 'z runqueues_scheme \<Rightarrow> 'z runqueues_scheme option" where
  "kill_loop E q s =
     (if list_empty q (links s) then Some s
      else do {
        t \<leftarrow> nxt (links s) q;
        s \<leftarrow> runqueue_task_kill E t s;
        kill_loop E q s
      })"

definition runqueue_kill :: "'z runqueues_scheme task_env \<Rightarrow> nat \<Rightarrow> 'z runqueues_scheme \<Rightarrow> 'z runqueues_scheme option" where
  "runqueue_kill E q s = do {
     s \<leftarrow> kill_loop E q s;
     s \<leftarrow> runqueue_cancel_pending E q s;
     cancel_timer q s
   }"

definition runqueue_stop :: "nat \<Rightarrow> 'z runqueues_scheme \<Rightarrow> 'z runqueues_scheme option" where
  "runqueue_stop q s = upd_queue q (\<lambda>x. x\<lparr>q_stopped := True\<rparr>) s"

definition runqueue_resume :: "nat \<Rightarrow> 'z runqueues_scheme \<Rightarrow> 'z runqueues_scheme option" where
  "runqueue_resume q s = do {
     s \<leftarrow> upd_queue q (\<lambda>x. x\<lparr>q_stopped := False\<rparr>) s;
     runqueue_start_next q s
   }"

section \<open>Processes\<close>

text \<open>The process of a task ended: the function that the event loop calls.\<close>

definition runqueue_proc_cb :: "'z runqueues_scheme task_env \<Rightarrow> nat \<Rightarrow> int \<Rightarrow> 'z runqueues_scheme \<Rightarrow> 'z runqueues_scheme option" where
  "runqueue_proc_cb E p ret s = runqueue_task_complete E p s"

definition kill_process :: "int \<Rightarrow> int \<Rightarrow> 'z runqueues_scheme \<Rightarrow> 'z runqueues_scheme" where
  "kill_process pid sig s = s\<lparr>signals := signals s @ [(pid, sig)]\<rparr>"

definition runqueue_process_cancel_cb :: "nat \<Rightarrow> nat \<Rightarrow> int \<Rightarrow> 'z runqueues_scheme \<Rightarrow> 'z runqueues_scheme option" where
  "runqueue_process_cancel_cb q t type s = do {
     x \<leftarrow> proc (rloop s) t;
     let type = (if type = 0 then 15 else type);
     Some (kill_process (p_pid x) type s)
   }"

definition runqueue_process_kill_cb :: "nat \<Rightarrow> nat \<Rightarrow> 'z runqueues_scheme \<Rightarrow> 'z runqueues_scheme option" where
  "runqueue_process_kill_cb q t s = do {
     (_, l) \<leftarrow> uloop_process_delete t (rloop s);
     let s = s\<lparr>rloop := l\<rparr>;
     x \<leftarrow> proc (rloop s) t;
     Some (kill_process (p_pid x) 9 s)
   }"

definition runqueue_proc_type :: "'z runqueues_scheme runqueue_task_type" where
  "runqueue_proc_type = \<lparr>ty_run = None, ty_cancel = Some runqueue_process_cancel_cb, ty_kill = Some runqueue_process_kill_cb\<rparr>"

text \<open>The number \<open>0\<close> names \<open>runqueue_proc_type\<close>.\<close>

definition runqueue_process_add :: "'z runqueues_scheme task_env \<Rightarrow> nat \<Rightarrow> nat \<Rightarrow> int \<Rightarrow> 'z runqueues_scheme \<Rightarrow> 'z runqueues_scheme option" where
  "runqueue_process_add E q p pid s = do {
     x \<leftarrow> proc (rloop s) p;
     if p_pending x then Some s
     else do {
       let s = s\<lparr>rloop := (rloop s)\<lparr>proc := (proc (rloop s))(p \<mapsto> x\<lparr>p_pid := pid\<rparr>)\<rparr>\<rparr>;
       y \<leftarrow> rtasks s p;
       s \<leftarrow> (if r_type y = None then upd_task p (\<lambda>y. y\<lparr>r_type := Some 0\<rparr>) s else Some s);
       (_, l) \<leftarrow> uloop_process_add p (rloop s);
       let s = s\<lparr>rloop := l\<rparr>;
       if \<not> r_running y then runqueue_task_add E q p True s else Some s
     }
   }"

end
