(* ===== verification/Runqueue_Spec.thy ===== *)
theory Runqueue_Spec
  imports Runqueue
begin

text \<open>
  What a queue of tasks promises: an abstract queue with active and waiting tasks, the representation of it by the lists, tasks, timers
  and counters of \<open>Runqueue\<close>, and the refinement of the abstract operations by those of the code. The functions that an application gives to
  its tasks are the locale \<open>quiet_tasks\<close>; its instance is the task type that \<open>runqueue.c\<close> has for processes.
\<close>

section \<open>The two lists of a queue\<close>

lemma chain_cong: "(\<And>a. a \<in> set zs \<Longrightarrow> f a = g a) \<Longrightarrow> chain f zs = chain g zs"
  by (induction zs rule: induct_list012) auto

lemma dll_cong:
  assumes "dll h head xs" and "\<And>a. a \<in> set (head # xs) \<Longrightarrow> nxt h' a = nxt h a \<and> prv h' a = prv h a"
  shows "dll h' head xs"
proof -
  have "chain (nxt h') (head # xs @ [head]) = chain (nxt h) (head # xs @ [head])" using assms(2) by (intro chain_cong) auto
  moreover have "chain (prv h') (head # rev xs @ [head]) = chain (prv h) (head # rev xs @ [head])"
    using assms(2) by (intro chain_cong) auto
  ultimately show ?thesis using assms(1) by (simp add: dll_def)
qed

lemma last_in: "last (h # ys) \<in> set (h # ys)"
  using last_in_set by blast

lemma hd_in: "hd (zs @ [h]) \<in> set (h # zs)"
  by (cases zs) auto

lemma list_del_frame:
  assumes "dll h head xs" and "e \<in> set xs" and "list_del e h = Some h'" and "b \<notin> set (head # xs)"
  shows "nxt h' b = nxt h b \<and> prv h' b = prv h b"
proof -
  obtain ys zs where xs: "xs = ys @ e # zs" using split_list [OF assms(2)] by blast
  have n: "nxt h e = Some (hd (zs @ [head]))" using dll_cut(1) [of h head "ys @ [e]" zs] assms(1) xs by simp
  have p: "prv h e = Some (last (head # ys))" using dll_cut(2) [of h head ys "e # zs"] assms(1) xs by simp
  have "e \<noteq> hd (zs @ [head])" using assms(1) xs by (cases zs) (auto simp: dll_def)
  moreover have "b \<noteq> e" "b \<noteq> hd (zs @ [head])" "b \<noteq> last (head # ys)"
    using assms(4) xs last_in [of head ys] hd_in [of zs head] by auto
  ultimately show ?thesis
    using assms(3) n p by (auto simp: list_del_def list_unlink_def set_nxt_def set_prv_def Let_def split: if_splits)
qed

lemma list_link_frame:
  assumes "b \<notin> {new, p, n}"
  shows "nxt (list_link new p n h) b = nxt h b \<and> prv (list_link new p n h) b = prv h b"
  using assms by (auto simp: list_link_def set_nxt_def set_prv_def)

lemma list_add_tail_frame:
  assumes "dll h head xs" and "list_add_tail new head h = Some h'" and "b \<notin> set (new # head # xs)"
  shows "nxt h' b = nxt h b \<and> prv h' b = prv h b"
proof -
  have "prv h head = Some (last (head # xs))" using dll_cut(2) [of h head xs "[]"] assms(1) by simp
  moreover have "b \<notin> {new, last (head # xs), head}" using assms(3) last_in [of head xs] by auto
  ultimately show ?thesis using assms(2) list_link_frame [of b new "last (head # xs)" head h]
    by (auto simp: list_add_tail_def simp del: last.simps)
qed

lemma list_add_frame:
  assumes "dll h head xs" and "list_add new head h = Some h'" and "b \<notin> set (new # head # xs)"
  shows "nxt h' b = nxt h b \<and> prv h' b = prv h b"
proof -
  have "nxt h head = Some (hd (xs @ [head]))" using dll_cut(1) [of h head "[]" xs] assms(1) by simp
  moreover have "b \<notin> {new, head, hd (xs @ [head])}" using assms(3) hd_in [of xs head] by auto
  ultimately show ?thesis using assms(2) list_link_frame [of b new head "hd (xs @ [head])" h] by (auto simp: list_add_def)
qed

text \<open>Two disjoint lists; all iterators are on them.\<close>

definition rings :: "'z safe_lists_scheme \<Rightarrow> nat \<Rightarrow> nat list \<Rightarrow> nat \<Rightarrow> nat list \<Rightarrow> bool" where
  "rings s h1 xs h2 ys \<longleftrightarrow> safe_ok {} s h1 xs \<and> safe_ok {} s h2 ys \<and> set (h1 # xs) \<inter> set (h2 # ys) = {} \<and>
     (\<forall>a n. nexts s a = Some n \<longrightarrow> n \<in> set (h1 # xs) \<union> set (h2 # ys))"

lemma rings_sym: "rings s h1 xs h2 ys \<Longrightarrow> rings s h2 ys h1 xs"
  by (auto simp: rings_def)

lemma rings_del:
  assumes r: "rings s h1 xs h2 ys" and x: "x \<in> set xs"
  obtains s' where "safe_list_del x s = Some s'" "rings s' h1 (remove1 x xs) h2 ys" "safe_lists.more s' = safe_lists.more s"
    "shrinks UNIV h1 s xs s' (remove1 x xs)"
proof -
  have ok: "safe_ok {} s h1 xs" "safe_ok {} s h2 ys" and disj: "set (h1 # xs) \<inter> set (h2 # ys) = {}" using r by (auto simp: rings_def)
  then have d: "dll (links s) h1 xs" "dll (links s) h2 ys" by (auto simp: safe_ok_def)
  obtain s' where s': "safe_list_del x s = Some s'" "shrinks UNIV h1 s xs s' (remove1 x xs)" "safe_lists.more s' = safe_lists.more s"
    "list_del x (links s) = Some (links s')" "\<forall>a. nexts s' a = (if nexts s a = Some x then nxt (links s) x else nexts s a)"
    by (rule shrinks_del [OF ok(1) x]) blast
  have "nxt (links s') a = nxt (links s) a \<and> prv (links s') a = prv (links s) a" if "a \<in> set (h2 # ys)" for a
    using list_del_frame [OF d(1) x s'(4)] that disj by blast
  then have "dll (links s') h2 ys" by (rule dll_cong [OF d(2)])
  then have "safe_ok {} s' h2 ys" using shrinks_ok [OF s'(2)] by (simp add: safe_ok_def)
  moreover have "nxt (links s) x \<in> Some ` set (h1 # remove1 x xs)"
  proof -
    obtain as bs where xs: "xs = as @ x # bs" "x \<notin> set as" using split_list_first [OF x] by blast
    then have "nxt (links s) x = Some (hd (bs @ [h1]))" using dll_cut(1) [of "links s" h1 "as @ [x]" bs] d(1) by simp
    then show ?thesis using xs hd_in [of bs h1] by (auto simp: remove1_append)
  qed
  moreover have "set (remove1 x xs) = set xs - {x}" using d(1) by (simp add: dll_def)
  ultimately have "rings s' h1 (remove1 x xs) h2 ys"
    using shrinks_ok [OF s'(2)] disj r s'(5) by (auto simp: rings_def split: if_splits)
  then show thesis using that s' by blast
qed

lemma rings_add:
  assumes r: "rings s h1 xs h2 ys" and t: "t \<notin> set (h1 # xs) \<union> set (h2 # ys)"
  obtains s' where "(if first then safe_list_add_first t h1 s else safe_list_add t h1 s) = Some s'"
    "rings s' h1 (if first then t # xs else xs @ [t]) h2 ys" "safe_lists.more s' = safe_lists.more s"
proof -
  obtain f where f: "iters_ok {} s f" using r by (auto simp: rings_def safe_ok_def)
  have d: "dll (links s) h1 xs" "dll (links s) h2 ys" and disj: "set (h1 # xs) \<inter> set (h2 # ys) = {}"
    using r by (auto simp: rings_def safe_ok_def)
  have "f t = []" using iters_ok_member [OF f, of _ t] r t by (cases "f t") (auto simp: rings_def)
  then have li: "(list_i s)(t := None) = list_i s" using iters_ok_first [OF f, of t] by auto
  let ?zs = "if first then t # xs else xs @ [t]"
  obtain h where h: "(if first then list_add t h1 (links s) else list_add_tail t h1 (links s)) = Some h" "dll h h1 ?zs"
    using dll_add [OF d(1), of t] dll_add_tail [OF d(1), of t] t by (cases first) auto
  have "nxt h a = nxt (links s) a \<and> prv h a = prv (links s) a" if "a \<in> set (h2 # ys)" for a
  proof -
    have "a \<notin> set (t # h1 # xs)" using that t disj by auto
    then show ?thesis using h(1) list_add_frame [OF d(1), of t h a] list_add_tail_frame [OF d(1), of t h a] by (cases first) auto
  qed
  then have "dll h h2 ys" by (rule dll_cong [OF d(2)])
  moreover have "iters_ok {} (s\<lparr>links := h\<rparr>) f" using f by (simp add: iters_ok_def)
  ultimately have "rings (s\<lparr>links := h\<rparr>) h1 ?zs h2 ys"
    using r h(2) t disj by (auto simp: rings_def safe_ok_def)
  moreover have "(if first then safe_list_add_first t h1 s else safe_list_add t h1 s) = Some (s\<lparr>links := h\<rparr>)"
    using h(1) li by (auto simp: safe_list_add_first_def safe_list_add_def)
  ultimately show thesis by (intro that [of "s\<lparr>links := h\<rparr>"]) auto
qed

section \<open>The event loop\<close>

definition loop_ok :: "uloop \<Rightarrow> bool" where
  "loop_ok l \<longleftrightarrow> set (timeouts l) \<subseteq> dom (tmo l) \<and> set (processes l) \<subseteq> dom (proc l)"

lemma place_timeout_some: "set ts \<subseteq> dom M \<Longrightarrow> \<exists>l. place_timeout M tm t ts = Some l \<and> set l = insert t (set ts)"
  by (induction ts) fastforce+

lemma place_process_some: "set ps \<subseteq> dom M \<Longrightarrow> \<exists>l. place_process M pid p ps = Some l \<and> set l = insert p (set ps)"
  by (induction ps) fastforce+

text \<open>The loop as far as the queue sees it: what exists, and which other timers are pending.\<close>

definition loop_same :: "uloop \<Rightarrow> uloop \<Rightarrow> bool" where
  "loop_same l l' \<longleftrightarrow> loop_ok l' \<and> dom (tmo l') = dom (tmo l) \<and> dom (proc l') = dom (proc l)"

definition timer_pending :: "uloop \<Rightarrow> nat \<Rightarrow> bool" where
  "timer_pending l t \<longleftrightarrow> (\<exists>y. tmo l t = Some y \<and> t_pending y)"

lemma cancel_timer_ok:
  assumes "loop_ok (rloop s)" and "t \<in> dom (tmo (rloop s))"
  obtains l where "cancel_timer t s = Some (s\<lparr>rloop := l\<rparr>)" "loop_same (rloop s) l" "\<forall>u. u \<noteq> t \<longrightarrow> timer_pending l u = timer_pending (rloop s) u"
proof -
  obtain y where y: "tmo (rloop s) t = Some y" using assms(2) by blast
  let ?l = "if t_pending y then (rloop s)\<lparr>timeouts := remove1 t (timeouts (rloop s)), tmo := (tmo (rloop s))(t \<mapsto> y\<lparr>t_pending := False\<rparr>)\<rparr> else rloop s"
  have "cancel_timer t s = Some (s\<lparr>rloop := ?l\<rparr>)" using y by (simp add: cancel_timer_def uloop_timeout_cancel_def)
  moreover have "loop_same (rloop s) ?l"
    using assms y set_remove1_subset [of t "timeouts (rloop s)"] by (auto simp: loop_same_def loop_ok_def)
  moreover have "\<forall>u. u \<noteq> t \<longrightarrow> timer_pending ?l u = timer_pending (rloop s) u" by (simp add: timer_pending_def)
  ultimately show thesis by (rule that)
qed

lemma timeout_add_ok:
  assumes "loop_ok l" and "tmo l t = Some y" and "\<not> t_pending y"
  shows "\<exists>l'. uloop_timeout_add t l = Some (0, l') \<and> loop_same l l' \<and> timer_pending l' t \<and> (\<forall>u. u \<noteq> t \<longrightarrow> timer_pending l' u = timer_pending l u)"
proof -
  obtain ts where ts: "place_timeout (tmo l) (t_time y) t (timeouts l) = Some ts" "set ts = insert t (set (timeouts l))"
    using place_timeout_some [of "timeouts l" "tmo l" "t_time y" t] assms(1) unfolding loop_ok_def by blast
  let ?l = "l\<lparr>timeouts := ts, tmo := (tmo l)(t \<mapsto> y\<lparr>t_pending := True\<rparr>)\<rparr>"
  have "uloop_timeout_add t l = Some (0, ?l)" using assms ts(1) by (simp add: uloop_timeout_add_def)
  moreover have "loop_same l ?l" using assms(1,2) ts(2) by (auto simp: loop_same_def loop_ok_def)
  ultimately show ?thesis by (auto simp: timer_pending_def)
qed

lemma set_timer_ok:
  assumes "loop_ok (rloop s)" and "t \<in> dom (tmo (rloop s))"
  obtains l where "set_timer t msecs s = Some (s\<lparr>rloop := l\<rparr>)" "loop_same (rloop s) l" "timer_pending l t"
    "\<forall>u. u \<noteq> t \<longrightarrow> timer_pending l u = timer_pending (rloop s) u"
proof -
  obtain y where y: "tmo (rloop s) t = Some y" using assms(2) by blast
  obtain l y' where l: "(if t_pending y then uloop_timeout_cancel t (rloop s) else Some (0, rloop s)) = Some (0, l)" "tmo l t = Some y'"
    "\<not> t_pending y'" "loop_same (rloop s) l" "\<forall>u. u \<noteq> t \<longrightarrow> timer_pending l u = timer_pending (rloop s) u"
  proof (cases "t_pending y")
    case True
    let ?l = "(rloop s)\<lparr>timeouts := remove1 t (timeouts (rloop s)), tmo := (tmo (rloop s))(t \<mapsto> y\<lparr>t_pending := False\<rparr>)\<rparr>"
    have "loop_same (rloop s) ?l" using assms y set_remove1_subset [of t "timeouts (rloop s)"] by (auto simp: loop_same_def loop_ok_def)
    then show thesis using True y by (intro that [of ?l "y\<lparr>t_pending := False\<rparr>"]) (auto simp: uloop_timeout_cancel_def timer_pending_def)
  next
    case False
    then show thesis using y assms(1) by (intro that [of "rloop s" y]) (auto simp: loop_same_def)
  qed
  let ?y = "y'\<lparr>t_time := timeout_time (now l (utick l)) msecs\<rparr>"
  let ?l = "l\<lparr>utick := utick l + 1, tmo := (tmo l)(t \<mapsto> ?y)\<rparr>"
  have "loop_ok ?l" using l(2,4) by (auto simp: loop_same_def loop_ok_def)
  then obtain l' where l': "uloop_timeout_add t ?l = Some (0, l')" "loop_same ?l l'" "timer_pending l' t"
    "\<And>u. u \<noteq> t \<Longrightarrow> timer_pending l' u = timer_pending ?l u" using timeout_add_ok [of ?l t ?y] l(3) by auto
  have "set_timer t msecs s = Some (s\<lparr>rloop := l'\<rparr>)"
    using y l(1,2) l'(1) by (simp add: set_timer_def uloop_timeout_set_def uloop_gettime_def Let_def)
  moreover have "loop_same (rloop s) l'" using l(2,4) l'(2) by (auto simp: loop_same_def)
  moreover have "\<forall>u. u \<noteq> t \<longrightarrow> timer_pending l' u = timer_pending (rloop s) u"
    using l(5) l'(4) by (simp add: timer_pending_def)
  ultimately show thesis using l'(3) by (intro that)
qed

section \<open>What a queue promises\<close>

text \<open>
  The abstract queue: the active tasks in the order in which they were started, the tasks that wait, the tasks whose cancellation was
  requested, and the settings. \<open>a_tasks\<close> are the tasks that exist.
\<close>

record rq_spec =
  a_act :: "nat list"
  a_pend :: "nat list"
  a_canc :: "nat set"
  a_stopped :: bool
  a_max :: int
  a_tasks :: "nat set"
  a_runnable :: "nat set"

text \<open>How many tasks may be started, and what a run of the timer does.\<close>

definition spec_slots :: "rq_spec \<Rightarrow> nat" where
  "spec_slots S = (if a_stopped S then 0 else if a_max S = 0 then length (a_pend S) else nat (a_max S - int (length (a_act S))))"

definition spec_start :: "rq_spec \<Rightarrow> rq_spec" where
  "spec_start S = S\<lparr>a_act := a_act S @ take (spec_slots S) (a_pend S), a_pend := drop (spec_slots S) (a_pend S)\<rparr>"

definition spec_remove :: "nat \<Rightarrow> rq_spec \<Rightarrow> rq_spec" where
  "spec_remove t S = S\<lparr>a_act := remove1 t (a_act S), a_pend := remove1 t (a_pend S), a_canc := a_canc S - {t}\<rparr>"

definition spec_cancel :: "nat \<Rightarrow> rq_spec \<Rightarrow> rq_spec" where
  "spec_cancel t S = (if t \<in> set (a_act S) then S\<lparr>a_canc := insert t (a_canc S)\<rparr> else spec_remove t S)"

definition spec_add :: "nat \<Rightarrow> bool \<Rightarrow> bool \<Rightarrow> rq_spec \<Rightarrow> rq_spec" where
  "spec_add t running first S =
     (if t \<in> set (a_act S) \<union> set (a_pend S) \<or> (\<not> running \<and> t \<notin> a_runnable S) then S
      else if running then S\<lparr>a_act := (if first then t # a_act S else a_act S @ [t])\<rparr>
      else S\<lparr>a_pend := (if first then t # a_pend S else a_pend S @ [t])\<rparr>)"

text \<open>The representation.\<close>

definition rq_tasks :: "'s task_env \<Rightarrow> nat \<Rightarrow> rq_spec \<Rightarrow> (nat \<rightharpoonup> runqueue_task) \<Rightarrow> bool" where
  "rq_tasks E q S T \<longleftrightarrow> dom T = a_tasks S \<and> set (a_act S) \<union> set (a_pend S) \<subseteq> a_tasks S \<and> set (a_pend S) \<subseteq> a_runnable S \<and>
     a_canc S \<subseteq> set (a_act S) \<and> q \<notin> a_tasks S \<and> tasks_inactive q \<notin> a_tasks S \<and>
     (\<forall>t y. T t = Some y \<longrightarrow> (r_queued y \<longleftrightarrow> t \<in> set (a_act S) \<union> set (a_pend S)) \<and> (r_running y \<longleftrightarrow> t \<in> set (a_act S)) \<and>
       (r_cancelled y \<longleftrightarrow> t \<in> a_canc S) \<and> (r_queued y \<longrightarrow> r_q y = q) \<and>
       (\<exists>ty. task_ops E y = Some ty \<and> (ty_run ty \<noteq> None \<longleftrightarrow> t \<in> a_runnable S)))"

definition rq_queue :: "rq_spec \<Rightarrow> runqueue \<Rightarrow> bool" where
  "rq_queue S x \<longleftrightarrow> running_tasks x = int (length (a_act S)) \<and> q_stopped x = a_stopped S \<and> max_running_tasks x = a_max S \<and>
     (q_empty x \<longrightarrow> a_act S = [] \<and> a_pend S = []) \<and> (q_timeout_cb x = Empty_cb \<longrightarrow> q_empty_cb x \<noteq> None)"

definition rq_loop :: "nat \<Rightarrow> rq_spec \<Rightarrow> uloop \<Rightarrow> bool" where
  "rq_loop q S l \<longleftrightarrow> loop_ok l \<and> insert q (a_tasks S) \<subseteq> dom (tmo l) \<and> a_tasks S \<subseteq> dom (proc l)"

definition rq_rep :: "'z runqueues_scheme task_env \<Rightarrow> nat \<Rightarrow> 'z runqueues_scheme \<Rightarrow> rq_spec \<Rightarrow> bool" where
  "rq_rep E q s S \<longleftrightarrow> rings s q (a_act S) (tasks_inactive q) (a_pend S) \<and> rq_tasks E q S (rtasks s) \<and>
     (\<exists>x. queues s q = Some x \<and> rq_queue S x) \<and> rq_loop q S (rloop s)"

text \<open>When a task can be started, the timer that starts it is pending.\<close>

definition armed :: "nat \<Rightarrow> 'z runqueues_scheme \<Rightarrow> rq_spec \<Rightarrow> bool" where
  "armed q s S \<longleftrightarrow> (spec_slots S > 0 \<and> a_pend S \<noteq> [] \<longrightarrow>
     timer_pending (rloop s) q \<and> (\<exists>x. queues s q = Some x \<and> q_timeout_cb x = Start_next_cb))"

lemma rings_upd [simp]:
  "rings (s\<lparr>queues := Q\<rparr>) h xs g ys = rings s h xs g ys"
  "rings (s\<lparr>rtasks := T\<rparr>) h xs g ys = rings s h xs g ys"
  "rings (s\<lparr>rloop := l\<rparr>) h xs g ys = rings s h xs g ys"
  "rings (s\<lparr>signals := sg\<rparr>) h xs g ys = rings s h xs g ys"
  by (simp_all add: rings_def safe_ok_def iters_ok_def nexts_def)

lemma rep_same_loop: "rq_rep E q s S \<Longrightarrow> loop_same (rloop s) l \<Longrightarrow> rq_rep E q (s\<lparr>rloop := l\<rparr>) S"
  by (auto simp: rq_rep_def rq_loop_def loop_same_def)

lemma rep_loop: "rq_rep E q s S \<Longrightarrow> t \<in> insert q (a_tasks S) \<Longrightarrow> loop_ok (rloop s) \<and> t \<in> dom (tmo (rloop s))"
  unfolding rq_rep_def rq_loop_def by blast

lemma rep_set_timer:
  assumes "rq_rep E q s S" and "t \<in> insert q (a_tasks S)"
  obtains l where "set_timer t msecs s = Some (s\<lparr>rloop := l\<rparr>)" "rq_rep E q (s\<lparr>rloop := l\<rparr>) S" "timer_pending l t"
    "\<forall>u. u \<noteq> t \<longrightarrow> timer_pending l u = timer_pending (rloop s) u"
  using set_timer_ok [of s t msecs] rep_loop [OF assms] rep_same_loop [OF assms(1)] by blast

lemma rep_cancel_timer:
  assumes "rq_rep E q s S" and "t \<in> insert q (a_tasks S)"
  obtains l where "cancel_timer t s = Some (s\<lparr>rloop := l\<rparr>)" "rq_rep E q (s\<lparr>rloop := l\<rparr>) S"
    "\<forall>u. u \<noteq> t \<longrightarrow> timer_pending l u = timer_pending (rloop s) u"
  using cancel_timer_ok [of s t] rep_loop [OF assms] rep_same_loop [OF assms(1)] by blast

lemma rep_timer_cb:
  assumes "rq_rep E q s S" and "t \<in> insert q (a_tasks S)"
  obtains l where "set_timer_cb t s = Some (s\<lparr>rloop := l\<rparr>)" "rq_rep E q (s\<lparr>rloop := l\<rparr>) S"
proof -
  obtain y where y: "tmo (rloop s) t = Some y" using rep_loop [OF assms] by blast
  let ?l = "(rloop s)\<lparr>tmo := (tmo (rloop s))(t \<mapsto> y\<lparr>t_cb := True\<rparr>)\<rparr>"
  have "loop_same (rloop s) ?l" using rep_loop [OF assms] y by (auto simp: loop_same_def loop_ok_def)
  then show thesis using y by (intro that [OF _ rep_same_loop [OF assms(1)]]) (simp_all add: set_timer_cb_def)
qed

lemma rep_queue:
  assumes "rq_rep E q s S"
  obtains x where "queues s q = Some x" "rq_queue S x"
  using assms by (auto simp: rq_rep_def)

lemma rep_upd_queue: "rq_rep E q s S \<Longrightarrow> queues s q = Some x \<Longrightarrow> rq_queue S (f x) \<Longrightarrow>
    upd_queue q f s = Some (s\<lparr>queues := (queues s)(q \<mapsto> f x)\<rparr>) \<and> rq_rep E q (s\<lparr>queues := (queues s)(q \<mapsto> f x)\<rparr>) S"
  by (auto simp: rq_rep_def upd_queue_def)

lemma truncate_upd [simp]:
  "safe_lists.truncate (s\<lparr>queues := Q\<rparr>) = safe_lists.truncate s" "safe_lists.truncate (s\<lparr>rtasks := T\<rparr>) = safe_lists.truncate s"
  "safe_lists.truncate (s\<lparr>rloop := l\<rparr>) = safe_lists.truncate s" "safe_lists.truncate (s\<lparr>signals := g\<rparr>) = safe_lists.truncate s"
  by (simp_all add: safe_lists.truncate_def)

lemma rep_start_next:
  assumes "rq_rep E q s S"
  obtains s' where "runqueue_start_next q s = Some s'" "rq_rep E q s' S" "armed q s' S" "safe_lists.truncate s' = safe_lists.truncate s"
proof -
  obtain x where x: "queues s q = Some x" "rq_queue S x" by (rule rep_queue [OF assms])
  show thesis
  proof (cases "q_empty x")
    case True
    then have "armed q s S" using x by (auto simp: armed_def rq_queue_def)
    then show thesis using True x assms by (intro that [of s]) (auto simp: runqueue_start_next_def)
  next
    case False
    let ?f = "\<lambda>x. x\<lparr>q_timeout_cb := Start_next_cb\<rparr>" let ?s = "s\<lparr>queues := (queues s)(q \<mapsto> ?f x)\<rparr>"
    have s: "upd_queue q ?f s = Some ?s" "rq_rep E q ?s S" using rep_upd_queue [OF assms x(1), of ?f] x(2) by (auto simp: rq_queue_def)
    obtain k where k: "set_timer_cb q ?s = Some (?s\<lparr>rloop := k\<rparr>)" "rq_rep E q (?s\<lparr>rloop := k\<rparr>) S" by (rule rep_timer_cb [OF s(2)]) auto
    obtain l where l: "set_timer q 1 (?s\<lparr>rloop := k\<rparr>) = Some (?s\<lparr>rloop := k\<rparr>\<lparr>rloop := l\<rparr>)" "rq_rep E q (?s\<lparr>rloop := k\<rparr>\<lparr>rloop := l\<rparr>) S" "timer_pending l q"
      by (rule rep_set_timer [OF k(2)]) auto
    have "armed q (?s\<lparr>rloop := k\<rparr>\<lparr>rloop := l\<rparr>) S" using l(3) by (simp add: armed_def)
    moreover have "runqueue_start_next q s = Some (?s\<lparr>rloop := k\<rparr>\<lparr>rloop := l\<rparr>)"
      using False x(1) s(1) k(1) l(1) by (simp add: runqueue_start_next_def)
    ultimately show thesis using l(2) by (intro that [of "?s\<lparr>rloop := k\<rparr>\<lparr>rloop := l\<rparr>"]) auto
  qed
qed

lemma more_same:
  fixes s s' :: "'z runqueues_scheme"
  assumes "safe_lists.more s' = safe_lists.more s"
  shows "queues s' = queues s" "rtasks s' = rtasks s" "rloop s' = rloop s" "signals s' = signals s"
  using assms by (cases s, cases s', simp)+

lemma rep_distinct: "rq_rep E q s S \<Longrightarrow> distinct (a_act S) \<and> distinct (a_pend S) \<and> set (a_act S) \<inter> set (a_pend S) = {}"
  by (auto simp: rq_rep_def rings_def safe_ok_def dll_def)

lemma rep_task:
  assumes "rq_rep E q s S" and "t \<in> a_tasks S"
  obtains y ty where "rtasks s t = Some y" "r_queued y \<longleftrightarrow> t \<in> set (a_act S) \<union> set (a_pend S)" "r_running y \<longleftrightarrow> t \<in> set (a_act S)"
    "r_cancelled y \<longleftrightarrow> t \<in> a_canc S" "r_queued y \<longrightarrow> r_q y = q" "task_ops E y = Some ty" "ty_run ty \<noteq> None \<longleftrightarrow> t \<in> a_runnable S"
proof -
  have "t \<in> dom (rtasks s)" using assms by (simp add: rq_rep_def rq_tasks_def)
  then obtain y where "rtasks s t = Some y" by blast
  then show thesis using assms that unfolding rq_rep_def rq_tasks_def by blast
qed

text \<open>A task leaves the queue.\<close>

lemma rq_tasks_remove:
  assumes "rq_tasks E q S T" and "T t = Some y" and "distinct (a_act S)" and "distinct (a_pend S)"
  shows "rq_tasks E q (spec_remove t S) (T(t \<mapsto> y\<lparr>r_queued := False, r_running := False, r_cancelled := False\<rparr>))"
  using assms unfolding rq_tasks_def spec_remove_def by (auto simp: task_ops_def split: if_splits)

text \<open>The part of the state that belongs to the lists.\<close>

lemma lists_same:
  assumes "safe_lists.truncate s' = safe_lists.truncate s"
  shows "links s' = links s" "list_i s' = list_i s" "iters s' = iters s" "frames s' = frames s"
  using assms by (simp_all add: safe_lists.truncate_def)

lemma rings_cong: "safe_lists.truncate s' = safe_lists.truncate s \<Longrightarrow> rings s' h xs g ys = rings s h xs g ys"
  by (frule lists_same(1), frule lists_same(2), frule lists_same(3), drule lists_same(4)) (simp add: rings_def safe_ok_def iters_ok_def nexts_def)

lemma shrinks_cong: "safe_lists.truncate s' = safe_lists.truncate s \<Longrightarrow> shrinks A h t xs s' ys = shrinks A h t xs s ys"
  by (frule lists_same(1), frule lists_same(2), frule lists_same(3), drule lists_same(4)) (simp add: shrinks_def safe_ok_def iters_ok_def nexts_def pending_def in_ring_def)

lemma shrinks_cong_left: "safe_lists.truncate s' = safe_lists.truncate s \<Longrightarrow> shrinks A h s' xs t ys = shrinks A h s xs t ys"
  by (frule lists_same(1), frule lists_same(2), frule lists_same(3), drule lists_same(4)) (simp add: shrinks_def nexts_def pending_def in_ring_def)

lemma rep_del:
  assumes rep: "rq_rep E q s S" and t: "t \<in> set (a_act S) \<union> set (a_pend S)" and tr: "safe_lists.truncate s1 = safe_lists.truncate s"
  obtains s' where "safe_list_del t s1 = Some s'" "rings s' q (remove1 t (a_act S)) (tasks_inactive q) (remove1 t (a_pend S))"
    "safe_lists.more s' = safe_lists.more s1" "t \<in> set (a_pend S) \<longrightarrow> shrinks UNIV (tasks_inactive q) s (a_pend S) s' (remove1 t (a_pend S))"
proof -
  have r: "rings s1 q (a_act S) (tasks_inactive q) (a_pend S)" using rep rings_cong [OF tr] by (simp add: rq_rep_def)
  consider "t \<in> set (a_act S)" "t \<notin> set (a_pend S)" | "t \<in> set (a_pend S)" "t \<notin> set (a_act S)" using t rep_distinct [OF rep] by blast
  then show thesis
  proof cases
    case 1
    obtain s' where "safe_list_del t s1 = Some s'" "rings s' q (remove1 t (a_act S)) (tasks_inactive q) (a_pend S)" "safe_lists.more s' = safe_lists.more s1"
      using rings_del [OF r 1(1)] by blast
    then show thesis using 1(2) by (intro that [of s']) (simp_all add: remove1_idem)
  next
    case 2
    obtain s' where "safe_list_del t s1 = Some s'" "rings s' (tasks_inactive q) (remove1 t (a_pend S)) q (a_act S)" "safe_lists.more s' = safe_lists.more s1"
      "shrinks UNIV (tasks_inactive q) s1 (a_pend S) s' (remove1 t (a_pend S))"
      using rings_del [OF rings_sym [OF r] 2(1)] by blast
    then show thesis using 2(2) rings_sym shrinks_cong_left [OF tr] by (intro that [of s']) (simp_all add: remove1_idem)
  qed
qed

lemma rep_remove:
  assumes rep: "rq_rep E q s S" and t: "t \<in> set (a_act S) \<union> set (a_pend S)" and y: "rtasks s t = Some y"
  obtains s1 l s3 where "(if r_running y then upd_queue q (\<lambda>y. y\<lparr>running_tasks := running_tasks y - 1\<rparr>) s else Some s) = Some s1"
    "cancel_timer t s1 = Some (s1\<lparr>rloop := l\<rparr>)" "safe_list_del t (s1\<lparr>rloop := l\<rparr>) = Some s3" "rtasks s3 = rtasks s"
    "rq_rep E q (s3\<lparr>rtasks := (rtasks s)(t \<mapsto> y\<lparr>r_queued := False, r_running := False, r_cancelled := False\<rparr>)\<rparr>) (spec_remove t S)"
    "t \<in> set (a_pend S) \<longrightarrow> shrinks UNIV (tasks_inactive q) s (a_pend S) s3 (remove1 t (a_pend S))"
proof -
  obtain x where x: "queues s q = Some x" "rq_queue S x" by (rule rep_queue [OF rep])
  have tasks: "rq_tasks E q S (rtasks s)" using rep by (simp add: rq_rep_def)
  note dist = rep_distinct [OF rep]
  have run: "r_running y \<longleftrightarrow> t \<in> set (a_act S)" using tasks y unfolding rq_tasks_def by blast
  let ?x = "x\<lparr>running_tasks := running_tasks x - 1\<rparr>"
  let ?s1 = "if r_running y then s\<lparr>queues := (queues s)(q \<mapsto> ?x)\<rparr> else s"
  have "t \<in> insert q (a_tasks S)" using t tasks by (auto simp: rq_tasks_def)
  then have "loop_ok (rloop ?s1)" "t \<in> dom (tmo (rloop ?s1))" using rep_loop [OF rep] by auto
  then obtain l where l: "cancel_timer t ?s1 = Some (?s1\<lparr>rloop := l\<rparr>)" "loop_same (rloop ?s1) l" by (rule cancel_timer_ok) auto
  have "safe_lists.truncate (?s1\<lparr>rloop := l\<rparr>) = safe_lists.truncate s" by simp
  then obtain s3 where s3: "safe_list_del t (?s1\<lparr>rloop := l\<rparr>) = Some s3" "rings s3 q (remove1 t (a_act S)) (tasks_inactive q) (remove1 t (a_pend S))"
    "safe_lists.more s3 = safe_lists.more (?s1\<lparr>rloop := l\<rparr>)"
    "t \<in> set (a_pend S) \<longrightarrow> shrinks UNIV (tasks_inactive q) s (a_pend S) s3 (remove1 t (a_pend S))"
    using rep_del [OF rep t] by blast
  note more = more_same [OF s3(3)]
  have qx: "queues s3 q = Some (if r_running y then ?x else x)" using more(1) x(1) by simp
  have "int (length (a_act S) - 1) = int (length (a_act S)) - 1" if "t \<in> set (a_act S)"
    using length_pos_if_in_set [OF that] by linarith
  then have "rq_queue (spec_remove t S) (if r_running y then ?x else x)"
    using x(2) t run by (auto simp: rq_queue_def spec_remove_def length_remove1 remove1_idem)
  moreover have "rq_loop q S (rloop s3)" using rep l(2) more(3) by (auto simp: rq_rep_def rq_loop_def loop_same_def)
  ultimately have "rq_rep E q (s3\<lparr>rtasks := (rtasks s)(t \<mapsto> y\<lparr>r_queued := False, r_running := False, r_cancelled := False\<rparr>)\<rparr>) (spec_remove t S)"
    using s3(2) qx rq_tasks_remove [OF tasks y] dist unfolding rq_rep_def by (simp add: spec_remove_def rq_loop_def)
  moreover have "rtasks s3 = rtasks s" using more(2) by simp
  moreover have "(if r_running y then upd_queue q (\<lambda>y. y\<lparr>running_tasks := running_tasks y - 1\<rparr>) s else Some s) = Some ?s1"
    using x(1) by (simp add: upd_queue_def)
  ultimately show thesis using l(1) s3(1,4) by (intro that [of ?s1 l s3])
qed

text \<open>The cancellation of an active task is requested; a task enters the queue; a task is started.\<close>

lemma rq_tasks_cancel:
  assumes "rq_tasks E q S T" and "T t = Some y" and "t \<in> set (a_act S)"
  shows "rq_tasks E q (S\<lparr>a_canc := insert t (a_canc S)\<rparr>) (T(t \<mapsto> y\<lparr>r_cancelled := True\<rparr>))"
  using assms unfolding rq_tasks_def by (auto simp: task_ops_def split: if_splits)

lemma rq_tasks_add:
  assumes "rq_tasks E q S T" and "T t = Some y" and "t \<notin> set (a_act S) \<union> set (a_pend S)" and "running \<or> t \<in> a_runnable S"
  shows "rq_tasks E q (spec_add t running first S) (T(t \<mapsto> y\<lparr>r_q := q, r_cancelled := False, r_queued := True, r_running := running\<rparr>))"
  using assms unfolding rq_tasks_def spec_add_def by (auto simp: task_ops_def split: if_splits)

lemma rq_tasks_start:
  assumes "rq_tasks E q S T" and "T t = Some y" and "a_pend S = t # ps" and "t \<notin> set ps"
  shows "rq_tasks E q (S\<lparr>a_act := a_act S @ [t], a_pend := ps\<rparr>) (T(t \<mapsto> y\<lparr>r_running := True\<rparr>))"
proof -
  have "t \<in> a_runnable S" using assms(1,3) by (simp add: rq_tasks_def)
  then have "\<exists>ty. task_ops E y = Some ty \<and> ty_run ty \<noteq> None" using assms(1,2) unfolding rq_tasks_def by blast
  then show ?thesis using assms unfolding rq_tasks_def by (auto simp: task_ops_def split: if_splits)
qed

lemma set_timer_cb_ok:
  assumes "loop_ok (rloop s)" and "t \<in> dom (tmo (rloop s))"
  obtains l where "set_timer_cb t s = Some (s\<lparr>rloop := l\<rparr>)" "loop_same (rloop s) l"
proof -
  obtain y where y: "tmo (rloop s) t = Some y" using assms by blast
  let ?l = "(rloop s)\<lparr>tmo := (tmo (rloop s))(t \<mapsto> y\<lparr>t_cb := True\<rparr>)\<rparr>"
  have "loop_same (rloop s) ?l" using assms y by (auto simp: loop_same_def loop_ok_def)
  then show thesis using y by (intro that) (simp_all add: set_timer_cb_def)
qed

lemma spec_add_fields [simp]:
  "a_stopped (spec_add t running first S) = a_stopped S" "a_max (spec_add t running first S) = a_max S"
  "a_tasks (spec_add t running first S) = a_tasks S"
  by (simp_all add: spec_add_def)

lemma add_ok:
  assumes rep: "rq_rep E q s S" and t: "t \<in> a_tasks S"
  obtains s' where "task_add E q t running first s = Some s'" "rq_rep E q s' (spec_add t running first S)"
    "armed q s S \<longrightarrow> armed q s' (spec_add t running first S)"
proof -
  let ?S = "spec_add t running first S"
  obtain y ty where y: "rtasks s t = Some y" "r_queued y \<longleftrightarrow> t \<in> set (a_act S) \<union> set (a_pend S)" "task_ops E y = Some ty"
    "ty_run ty \<noteq> None \<longleftrightarrow> t \<in> a_runnable S" by (rule rep_task [OF rep t])
  show thesis
  proof (cases "r_queued y \<or> (ty_run ty = None \<and> \<not> running)")
    case True
    then have "?S = S" using y(2,4) by (auto simp: spec_add_def)
    moreover have "task_add E q t running first s = Some s" using True y(1,3) by (auto simp: task_add_def)
    ultimately show thesis using rep by (intro that [of s]) auto
  next
    case False
    then have nt: "t \<notin> set (a_act S) \<union> set (a_pend S)" "running \<or> t \<in> a_runnable S" using y(2,4) by auto
    obtain x where x: "queues s q = Some x" "rq_queue S x" by (rule rep_queue [OF rep])
    let ?x = "if running then x\<lparr>running_tasks := running_tasks x + 1\<rparr> else x"
    let ?s1 = "if running then s\<lparr>queues := (queues s)(q \<mapsto> ?x)\<rparr> else s"
    have "loop_ok (rloop ?s1)" "t \<in> dom (tmo (rloop ?s1))" using rep_loop [OF rep, of t] t by auto
    then obtain l where l: "set_timer_cb t ?s1 = Some (?s1\<lparr>rloop := l\<rparr>)" "loop_same (rloop ?s1) l" by (rule set_timer_cb_ok)
    let ?s2 = "?s1\<lparr>rloop := l, rtasks := (rtasks s)(t \<mapsto> y\<lparr>r_q := q\<rparr>)\<rparr>"
    let ?head = "if running then q else tasks_inactive q"
    have "rings s q (a_act S) (tasks_inactive q) (a_pend S)" "t \<noteq> q" "t \<noteq> tasks_inactive q" using rep t by (auto simp: rq_rep_def rq_tasks_def)
    then have r2: "rings ?s2 q (a_act S) (tasks_inactive q) (a_pend S)" "t \<notin> set (q # a_act S) \<union> set (tasks_inactive q # a_pend S)"
      using nt by auto
    obtain s3 where s3: "(if first then safe_list_add_first t ?head ?s2 else safe_list_add t ?head ?s2) = Some s3"
      "rings s3 q (a_act ?S) (tasks_inactive q) (a_pend ?S)" "safe_lists.more s3 = safe_lists.more ?s2"
    proof (cases running)
      case True
      obtain s3 where "(if first then safe_list_add_first t q ?s2 else safe_list_add t q ?s2) = Some s3"
        "rings s3 q (if first then t # a_act S else a_act S @ [t]) (tasks_inactive q) (a_pend S)" "safe_lists.more s3 = safe_lists.more ?s2"
        by (rule rings_add [OF r2])
      then show thesis using True nt by (intro that [of s3]) (auto simp: spec_add_def)
    next
      case False
      have "t \<notin> set (tasks_inactive q # a_pend S) \<union> set (q # a_act S)" using r2(2) by blast
      then obtain s3 where "(if first then safe_list_add_first t (tasks_inactive q) ?s2 else safe_list_add t (tasks_inactive q) ?s2) = Some s3"
        "rings s3 (tasks_inactive q) (if first then t # a_pend S else a_pend S @ [t]) q (a_act S)" "safe_lists.more s3 = safe_lists.more ?s2"
        by (rule rings_add [OF rings_sym [OF r2(1)]])
      then show thesis using False nt rings_sym by (intro that [of s3]) (auto simp: spec_add_def)
    qed
    note more = more_same [OF s3(3)]
    let ?y = "y\<lparr>r_q := q, r_cancelled := False, r_queued := True, r_running := running\<rparr>"
    let ?s4 = "s3\<lparr>rtasks := (rtasks s)(t \<mapsto> ?y), queues := (queues s)(q \<mapsto> ?x\<lparr>q_empty := False\<rparr>)\<rparr>"
    have "rq_tasks E q S (rtasks s)" using rep by (simp add: rq_rep_def)
    from rq_tasks_add [OF this y(1) nt] have "rq_tasks E q ?S (rtasks ?s4)" by simp
    moreover have "rq_queue ?S (?x\<lparr>q_empty := False\<rparr>)" using x(2) nt by (auto simp: rq_queue_def spec_add_def)
    moreover have "rq_loop q ?S (rloop ?s4)" using more(3) l(2) rep by (auto simp: rq_rep_def rq_loop_def loop_same_def)
    ultimately have "rq_rep E q ?s4 ?S" using s3(2) by (simp add: rq_rep_def)
    then obtain s5 where s5: "runqueue_start_next q ?s4 = Some s5" "rq_rep E q s5 ?S" "armed q s5 ?S" by (rule rep_start_next)
    have "task_add E q t running first s = Some s5"
      using False x(1) y(1,3) l(1) s3(1) s5(1) more(1,2)
      by (cases running; cases first) (auto simp: task_add_def upd_queue_def upd_task_def)
    then show thesis using s5 by (intro that [of s5]) auto
  qed
qed

lemma visit_each: "distinct xs \<Longrightarrow> visit (\<lambda>x. [x]) (\<lambda>_. 0) xs = (0, xs)"
proof (induction xs)
  case (Cons x xs)
  then have "filter (\<lambda>y. y \<notin> set [x]) xs = xs" by (intro filter_True) auto
  then show ?case using Cons by simp
qed simp

text \<open>An iteration over one of the lists moves its iterator.\<close>

lemma rings_moved:
  assumes r: "rings s h xs g ys" and ok: "safe_ok {} s' h xs" and "links s' = links s"
    and "nexts s' = (nexts s)(i := m)" and "m \<in> insert None (Some ` set (h # xs))"
  shows "rings s' h xs g ys"
  using assms by (auto simp: rings_def safe_ok_def split: if_splits)

lemma rep_moved:
  assumes rep: "rq_rep E q s S" and more: "safe_lists.more s' = safe_lists.more s"
    and r: "rings s' q (a_act S) (tasks_inactive q) (a_pend S)"
  shows "rq_rep E q s' S"
  using rep r more_same [OF more] by (simp add: rq_rep_def)

text \<open>The functions that the tasks of a queue may have: they keep the queue.\<close>

locale quiet_tasks =
  fixes E :: "'z runqueues_scheme task_env"
    and q :: nat
  assumes run_quiet: "rq_rep E q s S \<Longrightarrow> t \<in> set (a_act S) \<Longrightarrow> rtasks s t = Some y \<Longrightarrow> task_ops E y = Some ty \<Longrightarrow>
      ty_run ty = Some f \<Longrightarrow> \<exists>s'. f q t s = Some s' \<and> rq_rep E q s' S"
    and cancel_quiet: "rq_rep E q s S \<Longrightarrow> t \<in> set (a_act S) \<Longrightarrow> rtasks s t = Some y \<Longrightarrow> task_ops E y = Some ty \<Longrightarrow>
      ty_cancel ty = Some g \<Longrightarrow> \<exists>s'. g q t k s = Some s' \<and> rq_rep E q s' S \<and> (armed q s S \<longrightarrow> armed q s' S) \<and>
        safe_lists.truncate s' = safe_lists.truncate s"
    and kill_quiet: "rq_rep E q s S \<Longrightarrow> rtasks s t = Some y \<Longrightarrow> task_ops E y = Some ty \<Longrightarrow>
      ty_kill ty = Some f \<Longrightarrow> \<exists>s'. f q t s = Some s' \<and> rq_rep E q s' S"
    and complete_quiet: "rq_rep E q s S \<Longrightarrow> rtasks s t = Some y \<Longrightarrow> r_q y = q \<Longrightarrow>
      \<exists>s' y'. completes E c q t s = Some s' \<and> rq_rep E q s' S \<and> rtasks s' t = Some y' \<and> r_q y' = q \<and>
        safe_lists.truncate s' = safe_lists.truncate s"
    and empty_quiet: "rq_rep E q s S \<Longrightarrow> \<exists>s'. empties E c q s = Some s' \<and> rq_rep E q s' S \<and> (armed q s S \<longrightarrow> armed q s' S)"
begin

lemma complete_ok:
  assumes rep: "rq_rep E q s S" and t: "t \<in> a_tasks S"
  obtains s' where "runqueue_task_complete E t s = Some s'" "rq_rep E q s' (spec_remove t S)" "armed q s S \<longrightarrow> armed q s' (spec_remove t S)"
    "t \<in> set (a_pend S) \<longrightarrow> shrinks UNIV (tasks_inactive q) s (a_pend S) s' (remove1 t (a_pend S))"
proof -
  obtain y where y: "rtasks s t = Some y" "r_queued y \<longleftrightarrow> t \<in> set (a_act S) \<union> set (a_pend S)" "r_queued y \<longrightarrow> r_q y = q"
    "r_cancelled y \<longleftrightarrow> t \<in> a_canc S" by (rule rep_task [OF rep t])
  show thesis
  proof (cases "r_queued y")
    case False
    then have "t \<notin> a_canc S" "t \<notin> set (a_act S)" "t \<notin> set (a_pend S)" using y(2) rep by (auto simp: rq_rep_def rq_tasks_def)
    then have "spec_remove t S = S" by (simp add: spec_remove_def remove1_idem)
    moreover have "runqueue_task_complete E t s = Some s" using y(1) False by (simp add: runqueue_task_complete_def)
    ultimately show thesis using rep \<open>t \<notin> set (a_pend S)\<close> by (intro that [of s]) auto
  next
    case True
    let ?S = "spec_remove t S" let ?y = "y\<lparr>r_queued := False, r_running := False, r_cancelled := False\<rparr>"
    have q: "r_q y = q" using y(3) True by simp
    have in_q: "t \<in> set (a_act S) \<union> set (a_pend S)" using y(2) True by simp
    obtain s1 l s3 where r: "(if r_running y then upd_queue q (\<lambda>y. y\<lparr>running_tasks := running_tasks y - 1\<rparr>) s else Some s) = Some s1"
      "cancel_timer t s1 = Some (s1\<lparr>rloop := l\<rparr>)" "safe_list_del t (s1\<lparr>rloop := l\<rparr>) = Some s3" "rtasks s3 = rtasks s"
      "rq_rep E q (s3\<lparr>rtasks := (rtasks s)(t \<mapsto> ?y)\<rparr>) ?S"
      "t \<in> set (a_pend S) \<longrightarrow> shrinks UNIV (tasks_inactive q) s (a_pend S) s3 (remove1 t (a_pend S))" by (rule rep_remove [OF rep in_q y(1)])
    let ?s = "s3\<lparr>rtasks := (rtasks s)(t \<mapsto> ?y)\<rparr>"
    obtain s4 y4 where s4: "(case r_complete y of None \<Rightarrow> Some ?s | Some c \<Rightarrow> completes E c q t ?s) = Some s4" "rq_rep E q s4 ?S"
      "rtasks s4 t = Some y4" "r_q y4 = q" "safe_lists.truncate s4 = safe_lists.truncate ?s"
    proof (cases "r_complete y")
      case None
      then show thesis using r(5) q by (intro that [of ?s ?y]) auto
    next
      case (Some c)
      obtain s4 y4 where "completes E c q t ?s = Some s4" "rq_rep E q s4 ?S" "rtasks s4 t = Some y4" "r_q y4 = q"
        "safe_lists.truncate s4 = safe_lists.truncate ?s" using complete_quiet [OF r(5), of t ?y c] q by auto
      then show thesis using Some by (intro that [of s4 y4]) auto
    qed
    obtain s5 where s5: "runqueue_start_next q s4 = Some s5" "rq_rep E q s5 ?S" "armed q s5 ?S" "safe_lists.truncate s5 = safe_lists.truncate s4"
      by (rule rep_start_next [OF s4(2)])
    have "runqueue_task_complete E t s = Some s5"
      using y(1) True q r(1-4) s4(1,3,4) s5(1)
      by (cases "r_running y"; cases "r_complete y") (simp_all add: runqueue_task_complete_def upd_task_def)
    moreover have "t \<in> set (a_pend S) \<longrightarrow> shrinks UNIV (tasks_inactive q) s (a_pend S) s5 (remove1 t (a_pend S))"
      using r(6) shrinks_cong [of s5 s3] s5(4) s4(5) by simp
    ultimately show thesis using s5 by (intro that [of s5]) auto
  qed
qed

lemma kill_ok:
  assumes rep: "rq_rep E q s S" and t: "t \<in> a_tasks S"
  obtains s' where "runqueue_task_kill E t s = Some s'" "rq_rep E q s' (spec_remove t S)" "armed q s S \<longrightarrow> armed q s' (spec_remove t S)"
proof -
  let ?S = "spec_remove t S"
  obtain y where y: "rtasks s t = Some y" "r_queued y \<longrightarrow> r_q y = q" by (rule rep_task [OF rep t])
  obtain s1 where s1: "runqueue_task_complete E t s = Some s1" "rq_rep E q s1 ?S" "armed q s S \<longrightarrow> armed q s1 ?S" by (rule complete_ok [OF assms])
  show thesis
  proof (cases "r_queued y")
    case False
    then have "s1 = s" using s1(1) y(1) by (simp add: runqueue_task_complete_def)
    then show thesis using False s1 y(1) by (intro that [of s]) (auto simp: runqueue_task_kill_def)
  next
    case True
    have "t \<in> a_tasks ?S" using t by (simp add: spec_remove_def)
    then obtain y1 ty where y1: "rtasks s1 t = Some y1" "task_ops E y1 = Some ty" by (rule rep_task [OF s1(2)])
    let ?k = "case ty_kill ty of None \<Rightarrow> Some s1 | Some f \<Rightarrow> f q t s1"
    obtain s2 where s2: "(if r_running y then ?k else Some s1) = Some s2" "rq_rep E q s2 ?S"
      using kill_quiet [OF s1(2) y1] s1(2) by (cases "ty_kill ty"; cases "r_running y") fastforce+
    obtain s3 where s3: "runqueue_start_next q s2 = Some s3" "rq_rep E q s3 ?S" "armed q s3 ?S" by (rule rep_start_next [OF s2(2)])
    have "runqueue_task_kill E t s = Some s3"
      using y True s1(1) y1 s2(1) s3(1) by (cases "r_running y") (simp_all add: runqueue_task_kill_def)
    then show thesis using s3 by (intro that [of s3]) auto
  qed
qed

lemma cancel_ok:
  assumes rep: "rq_rep E q s S" and t: "t \<in> a_tasks S"
  obtains s' where "runqueue_task_cancel E t k s = Some s'" "rq_rep E q s' (spec_cancel t S)" "armed q s S \<longrightarrow> armed q s' (spec_cancel t S)"
    "t \<in> set (a_pend S) \<longrightarrow> shrinks UNIV (tasks_inactive q) s (a_pend S) s' (remove1 t (a_pend S))"
    "t \<in> set (a_act S) \<longrightarrow> safe_lists.truncate s' = safe_lists.truncate s"
proof -
  obtain y ty where y: "rtasks s t = Some y" "r_queued y \<longleftrightarrow> t \<in> set (a_act S) \<union> set (a_pend S)" "r_running y \<longleftrightarrow> t \<in> set (a_act S)"
    "r_queued y \<longrightarrow> r_q y = q" "task_ops E y = Some ty" by (rule rep_task [OF rep t])
  show thesis
  proof (cases "t \<in> set (a_act S)")
    case False
    obtain s' where s': "runqueue_task_complete E t s = Some s'" "rq_rep E q s' (spec_remove t S)" "armed q s S \<longrightarrow> armed q s' (spec_remove t S)"
      "t \<in> set (a_pend S) \<longrightarrow> shrinks UNIV (tasks_inactive q) s (a_pend S) s' (remove1 t (a_pend S))" by (rule complete_ok [OF assms])
    moreover have "runqueue_task_cancel E t k s = Some s'"
      using s'(1) y(1,3) False by (auto simp: runqueue_task_cancel_def runqueue_task_complete_def split: if_splits)
    ultimately show thesis using False by (intro that [of s']) (auto simp: spec_cancel_def)
  next
    case True
    let ?S = "S\<lparr>a_canc := insert t (a_canc S)\<rparr>" let ?s1 = "s\<lparr>rtasks := (rtasks s)(t \<mapsto> y\<lparr>r_cancelled := True\<rparr>)\<rparr>"
    have r1: "rq_rep E q ?s1 ?S" using rep rq_tasks_cancel [of E q S "rtasks s" t y] y(1) True by (auto simp: rq_rep_def rq_queue_def rq_loop_def)
    have ne: "t \<noteq> q" using rep t by (auto simp: rq_rep_def rq_tasks_def)
    obtain l where l: "set_timer t (r_cancel_timeout y) ?s1 = Some (?s1\<lparr>rloop := l\<rparr>)" "rq_rep E q (?s1\<lparr>rloop := l\<rparr>) ?S"
      "\<forall>u. u \<noteq> t \<longrightarrow> timer_pending l u = timer_pending (rloop ?s1) u" by (rule rep_set_timer [OF r1, of t]) (use t in auto)
    let ?s2 = "if r_cancel_timeout y \<noteq> 0 then ?s1\<lparr>rloop := l\<rparr> else ?s1"
    have s2: "(if r_cancel_timeout y \<noteq> 0 then set_timer t (r_cancel_timeout y) ?s1 else Some ?s1) = Some ?s2" "rq_rep E q ?s2 ?S"
      "rtasks ?s2 t = Some (y\<lparr>r_cancelled := True\<rparr>)" "safe_lists.truncate ?s2 = safe_lists.truncate s" using l(1,2) r1 by auto
    have armed2: "armed q s S \<longrightarrow> armed q ?s2 ?S" using l(3) ne by (simp add: armed_def spec_slots_def timer_pending_def)
    have ty: "task_ops E (y\<lparr>r_cancelled := True\<rparr>) = Some ty" using y(5) by (simp add: task_ops_def)
    obtain s3 where s3: "(case ty_cancel ty of None \<Rightarrow> Some ?s2 | Some f \<Rightarrow> f q t k ?s2) = Some s3" "rq_rep E q s3 ?S"
      "armed q ?s2 ?S \<longrightarrow> armed q s3 ?S" "safe_lists.truncate s3 = safe_lists.truncate ?s2"
    proof (cases "ty_cancel ty")
      case None
      then show thesis using s2 by (intro that [of ?s2]) auto
    next
      case (Some f)
      have "t \<in> set (a_act ?S)" using True by simp
      from cancel_quiet [OF s2(2) this s2(3) ty Some] show thesis using Some that by auto
    qed
    have "r_queued y" "r_running y" "r_q y = q" using y True by auto
    then have "runqueue_task_cancel E t k s = Some s3"
      using y(1,5) s2(1) s3(1)
      by (cases "ty_cancel ty"; cases "r_cancel_timeout y = 0") (simp_all add: runqueue_task_cancel_def upd_task_def)
    moreover have "spec_cancel t S = ?S" using True by (simp add: spec_cancel_def)
    moreover have "t \<notin> set (a_pend S)" using rep_distinct [OF rep] True by blast
    ultimately show thesis using s3 armed2 s2(4) by (intro that [of s3]) auto
  qed
qed

lemma timeout_ok:
  assumes rep: "rq_rep E q s S" and t: "t \<in> a_tasks S"
  obtains s' where "runqueue_task_timeout E t s = Some s'" "rq_rep E q s' (if t \<in> a_canc S then spec_remove t S else spec_cancel t S)"
    "armed q s S \<longrightarrow> armed q s' (if t \<in> a_canc S then spec_remove t S else spec_cancel t S)"
proof -
  obtain y where y: "rtasks s t = Some y" "r_cancelled y \<longleftrightarrow> t \<in> a_canc S" by (rule rep_task [OF rep t])
  show thesis
  proof (cases "t \<in> a_canc S")
    case True
    obtain s' where "runqueue_task_kill E t s = Some s'" "rq_rep E q s' (spec_remove t S)" "armed q s S \<longrightarrow> armed q s' (spec_remove t S)"
      by (rule kill_ok [OF assms])
    then show thesis using y True by (intro that [of s']) (auto simp: runqueue_task_timeout_def)
  next
    case False
    obtain s' where "runqueue_task_cancel E t (r_cancel_type y) s = Some s'" "rq_rep E q s' (spec_cancel t S)"
      "armed q s S \<longrightarrow> armed q s' (spec_cancel t S)" by (rule cancel_ok [OF assms])
    then show thesis using y False by (intro that [of s']) (auto simp: runqueue_task_timeout_def)
  qed
qed

lemma start_one:
  assumes rep: "rq_rep E q s S" and p: "a_pend S = t # ps" and go: "spec_slots S > 0"
  obtains s' where "start_loop E q s = start_loop E q s'" "rq_rep E q s' (S\<lparr>a_act := a_act S @ [t], a_pend := ps\<rparr>)"
proof -
  let ?S = "S\<lparr>a_act := a_act S @ [t], a_pend := ps\<rparr>"
  have tasks: "rq_tasks E q S (rtasks s)" and r: "rings s q (a_act S) (tasks_inactive q) (a_pend S)" using rep by (auto simp: rq_rep_def)
  have t: "t \<in> set (a_pend S)" "t \<in> a_tasks S" "t \<notin> set ps" "t \<notin> set (q # a_act S) \<union> set (tasks_inactive q # ps)"
    using p tasks r rep_distinct [OF rep] by (auto simp: rq_tasks_def)
  obtain x where x: "queues s q = Some x" "rq_queue S x" by (rule rep_queue [OF rep])
  obtain y ty where y: "rtasks s t = Some y" "task_ops E y = Some ty" "ty_run ty \<noteq> None \<longleftrightarrow> t \<in> a_runnable S" by (rule rep_task [OF rep t(2)])
  obtain f where f: "ty_run ty = Some f" using y(3) t(1) tasks by (auto simp: rq_tasks_def)
  have go': "\<not> q_stopped x" "\<not> (max_running_tasks x \<noteq> 0 \<and> running_tasks x \<ge> max_running_tasks x)"
    using go x(2) by (auto simp: rq_queue_def spec_slots_def split: if_splits)
  have d: "dll (links s) (tasks_inactive q) (t # ps)" using r p by (simp add: rings_def safe_ok_def)
  then have ne: "\<not> list_empty (tasks_inactive q) (links s)" "nxt (links s) (tasks_inactive q) = Some t"
    using dll_empty [OF d] dll_cut(1) [of "links s" "tasks_inactive q" "[]" "t # ps"] by auto
  obtain s1 where s1: "safe_list_del t s = Some s1" "rings s1 (tasks_inactive q) ps q (a_act S)" "safe_lists.more s1 = safe_lists.more s"
    by (rule rings_del [OF rings_sym [OF r] t(1)]) (use p in auto)
  obtain s2 where s2: "(if False then safe_list_add_first t q s1 else safe_list_add t q s1) = Some s2"
    "rings s2 q (if False then t # a_act S else a_act S @ [t]) (tasks_inactive q) ps" "safe_lists.more s2 = safe_lists.more s1"
    by (rule rings_add [OF rings_sym [OF s1(2)] t(4)])
  have more: "queues s2 = queues s" "rtasks s2 = rtasks s" "rloop s2 = rloop s" using more_same [OF s2(3)] more_same [OF s1(3)] by auto
  let ?y = "y\<lparr>r_running := True\<rparr>" let ?x = "x\<lparr>running_tasks := running_tasks x + 1\<rparr>"
  let ?s3 = "s2\<lparr>rtasks := (rtasks s)(t \<mapsto> ?y), queues := (queues s)(q \<mapsto> ?x)\<rparr>"
  have "rq_tasks E q ?S (rtasks ?s3)" using rq_tasks_start [OF tasks y(1) p t(3)] by simp
  moreover have "rq_queue ?S ?x" using x(2) p by (auto simp: rq_queue_def)
  ultimately have r3: "rq_rep E q ?s3 ?S" using s2(2) more(3) rep by (simp add: rq_rep_def rq_loop_def)
  obtain l where l: "set_timer t (r_run_timeout y) ?s3 = Some (?s3\<lparr>rloop := l\<rparr>)" "rq_rep E q (?s3\<lparr>rloop := l\<rparr>) ?S"
    by (rule rep_set_timer [OF r3, of t]) (use t(2) in auto)
  let ?s4 = "if r_run_timeout y \<noteq> 0 then ?s3\<lparr>rloop := l\<rparr> else ?s3"
  have s4: "(if r_run_timeout y \<noteq> 0 then set_timer t (r_run_timeout y) ?s3 else Some ?s3) = Some ?s4" "rq_rep E q ?s4 ?S"
    "rtasks ?s4 t = Some ?y" using l r3 by auto
  have ty: "task_ops E ?y = Some ty" using y(2) by (simp add: task_ops_def)
  obtain s5 where s5: "f q t ?s4 = Some s5" "rq_rep E q s5 ?S" using run_quiet [OF s4(2) _ s4(3) ty f] by auto
  have "start_loop E q s = start_loop E q s5"
    using x(1) go' ne s1(1) s2(1) more y(1) s4(1) ty f s5(1)
    by (subst start_loop.simps, cases "r_run_timeout y = 0") (auto simp: upd_task_def upd_queue_def)
  then show thesis using s5(2) by (rule that)
qed

lemma start_loop_ok:
  assumes "rq_rep E q s S"
  shows "\<exists>s'. start_loop E q s = Some s' \<and> rq_rep E q s' (spec_start S)"
  using assms
proof (induction "a_pend S" arbitrary: s S)
  case Nil
  obtain x where x: "queues s q = Some x" "rq_queue S x" by (rule rep_queue [OF Nil(2)])
  have "dll (links s) (tasks_inactive q) (a_pend S)" using Nil(2) by (simp add: rq_rep_def rings_def safe_ok_def)
  then have "list_empty (tasks_inactive q) (links s)" using dll_empty Nil(1) by fastforce
  moreover have "spec_start S = S" using Nil(1) by (simp add: spec_start_def)
  ultimately show ?case using x Nil(2) by (subst start_loop.simps) simp
next
  case (Cons t ps)
  show ?case
  proof (cases "spec_slots S > 0")
    case True
    let ?S = "S\<lparr>a_act := a_act S @ [t], a_pend := ps\<rparr>"
    obtain s' where s': "start_loop E q s = start_loop E q s'" "rq_rep E q s' ?S" by (rule start_one [OF Cons(3) Cons(2) [symmetric] True])
    have "spec_slots S = Suc (spec_slots ?S)"
      using True by (auto simp: spec_slots_def split: if_splits simp flip: Cons(2))
    then have "spec_start ?S = spec_start S" by (simp add: spec_start_def flip: Cons(2))
    then show ?thesis using Cons(1) [of ?S s'] s' by simp
  next
    case False
    obtain x where x: "queues s q = Some x" "rq_queue S x" by (rule rep_queue [OF Cons(3)])
    have "q_stopped x \<or> (max_running_tasks x \<noteq> 0 \<and> running_tasks x \<ge> max_running_tasks x)"
      using False x(2) by (auto simp: spec_slots_def rq_queue_def split: if_splits simp flip: Cons(2))
    moreover have "spec_start S = S" using False by (simp add: spec_start_def)
    ultimately show ?thesis using x Cons(3) by (subst start_loop.simps) auto
  qed
qed

text \<open>A run of the queue's timer: nothing happens when it is not pending.\<close>

lemma spec_start_idle: "spec_slots S = 0 \<or> a_pend S = [] \<Longrightarrow> spec_start S = S"
  by (auto simp: spec_start_def)

lemma spec_start_full: "spec_slots (spec_start S) = 0 \<or> a_pend (spec_start S) = []"
  by (auto simp: spec_slots_def spec_start_def)

lemma start_next_cb_ok:
  assumes "rq_rep E q s S"
  obtains s' where "start_next_cb E q s = Some s'" "rq_rep E q s' (spec_start S)" "armed q s' (spec_start S)"
proof -
  let ?S = "spec_start S"
  obtain s1 where s1: "start_loop E q s = Some s1" "rq_rep E q s1 ?S" using start_loop_ok [OF assms] by blast
  have full: "armed q t ?S" for t :: "'z runqueues_scheme" using spec_start_full [of S] by (auto simp: armed_def)
  obtain x where x: "queues s1 q = Some x" "rq_queue ?S x" by (rule rep_queue [OF s1(2)])
  let ?done = "\<not> q_empty x \<and> list_empty q (links s1) \<and> list_empty (tasks_inactive q) (links s1)"
  show thesis
  proof (cases ?done)
    case False
    then show thesis using s1 x full by (intro that [of s1]) (auto simp: start_next_cb_def)
  next
    case True
    have d: "dll (links s1) q (a_act ?S)" "dll (links s1) (tasks_inactive q) (a_pend ?S)"
      using s1(2) by (auto simp: rq_rep_def rings_def safe_ok_def)
    then have nil: "a_act ?S = []" "a_pend ?S = []" using True dll_empty [OF d(1)] dll_empty [OF d(2)] by auto
    let ?s2 = "s1\<lparr>queues := (queues s1)(q \<mapsto> x\<lparr>q_empty := True\<rparr>)\<rparr>"
    have r2: "upd_queue q (\<lambda>x. x\<lparr>q_empty := True\<rparr>) s1 = Some ?s2" "rq_rep E q ?s2 ?S"
      using rep_upd_queue [OF s1(2) x(1), of "\<lambda>x. x\<lparr>q_empty := True\<rparr>"] x(2) nil by (auto simp: rq_queue_def)
    show thesis
    proof (cases "q_empty_cb x")
      case None
      then show thesis using True x(1) s1(1) r2 full by (intro that [of ?s2]) (auto simp: start_next_cb_def)
    next
      case (Some c)
      let ?x = "x\<lparr>q_empty := True, q_timeout_cb := Empty_cb\<rparr>" let ?s3 = "s1\<lparr>queues := (queues s1)(q \<mapsto> ?x)\<rparr>"
      have r3: "upd_queue q (\<lambda>x. x\<lparr>q_timeout_cb := Empty_cb\<rparr>) ?s2 = Some ?s3" "rq_rep E q ?s3 ?S"
        using rep_upd_queue [OF r2(2), of _ "\<lambda>x. x\<lparr>q_timeout_cb := Empty_cb\<rparr>"] x(2) nil Some by (auto simp: rq_queue_def)
      obtain k where k: "set_timer_cb q ?s3 = Some (?s3\<lparr>rloop := k\<rparr>)" "rq_rep E q (?s3\<lparr>rloop := k\<rparr>) ?S"
        by (rule rep_timer_cb [OF r3(2), of q]) auto
      obtain l where l: "set_timer q 1 (?s3\<lparr>rloop := k\<rparr>) = Some (?s3\<lparr>rloop := k\<rparr>\<lparr>rloop := l\<rparr>)" "rq_rep E q (?s3\<lparr>rloop := k\<rparr>\<lparr>rloop := l\<rparr>) ?S"
        by (rule rep_set_timer [OF k(2), of q]) auto
      have "start_next_cb E q s = Some (?s3\<lparr>rloop := k\<rparr>\<lparr>rloop := l\<rparr>)"
        using True x(1) Some s1(1) r2(1) r3(1) k(1) l(1) by (simp add: start_next_cb_def)
      then show thesis using l(2) full by (rule that)
    qed
  qed
qed

lemma tick_ok:
  assumes rep: "rq_rep E q s S" and armed: "armed q s S"
  obtains s' where "queue_tick E q s = Some s'" "rq_rep E q s' (spec_start S)" "armed q s' (spec_start S)"
proof (cases "timer_pending (rloop s) q")
  case False
  then have idle: "spec_start S = S" using armed by (auto simp: armed_def intro: spec_start_idle)
  obtain y where "tmo (rloop s) q = Some y" using rep_loop [OF rep, of q] by auto
  then have "queue_tick E q s = Some s" using False by (simp add: queue_tick_def timer_pending_def)
  then show thesis using rep armed idle by (intro that [of s]) auto
next
  case True
  obtain x where x: "queues s q = Some x" "rq_queue S x" by (rule rep_queue [OF rep])
  obtain y where y: "tmo (rloop s) q = Some y" "t_pending y" using True by (auto simp: timer_pending_def)
  obtain l where l: "cancel_timer q s = Some (s\<lparr>rloop := l\<rparr>)" "rq_rep E q (s\<lparr>rloop := l\<rparr>) S" by (rule rep_cancel_timer [OF rep, of q]) auto
  let ?s = "s\<lparr>rloop := l\<rparr>"
  have tick: "queue_tick E q s = queue_timeout E q ?s" using y l(1) by (simp add: queue_tick_def)
  show thesis
  proof (cases "q_timeout_cb x = Start_next_cb")
    case True
    then have "queue_timeout E q ?s = start_next_cb E q ?s" using x(1) by (simp add: queue_timeout_def)
    then show thesis using start_next_cb_ok [OF l(2)] that tick by metis
  next
    case False
    then have idle: "spec_slots S = 0 \<or> a_pend S = []" using armed x(1) by (auto simp: armed_def)
    then have any: "armed q t S" for t :: "'z runqueues_scheme" by (auto simp: armed_def)
    show thesis
    proof (cases "q_timeout_cb x")
      case No_cb
      then show thesis using x(1) tick l(2) any spec_start_idle [OF idle] by (intro that [of ?s]) (auto simp: queue_timeout_def)
    next
      case Empty_cb
      then obtain c where "q_empty_cb x = Some c" using x(2) by (auto simp: rq_queue_def)
      then show thesis using Empty_cb x(1) tick any spec_start_idle [OF idle] empty_quiet [OF l(2), of c] that
        by (auto simp: queue_timeout_def runqueue_empty_cb_def)
    qed (use False in simp)
  qed
qed

end

text \<open>The tasks that wait are cancelled, and those that are active.\<close>

sublocale quiet_tasks < pend: safe_callback "tasks_inactive q" "cancel_cb E" "\<lambda>x. [x]" "\<lambda>_. 0" "\<lambda>vs s xs. rq_rep E q s (S\<lparr>a_pend := xs\<rparr>)" for S
proof (unfold_locales, goal_cases)
  case (1 vs s xs x)
  let ?S = "S\<lparr>a_pend := xs\<rparr>" let ?xs = "filter (\<lambda>y. y \<notin> set [x]) xs"
  have dist: "distinct xs" "x \<notin> set (a_act S)" using rep_distinct [OF 1(1)] 1(3) by auto
  then have xs: "remove1 x xs = ?xs" by (auto simp: distinct_remove1_removeAll removeAll_filter_not_eq intro!: filter_cong)
  have tasks: "x \<in> a_tasks ?S" "a_canc S \<subseteq> set (a_act S)" using 1(1,3) by (auto simp: rq_rep_def rq_tasks_def)
  obtain s' where s': "runqueue_task_cancel E x 0 s = Some s'" "rq_rep E q s' (spec_cancel x ?S)"
    "x \<in> set (a_pend ?S) \<longrightarrow> shrinks UNIV (tasks_inactive q) s (a_pend ?S) s' (remove1 x (a_pend ?S))" by (rule cancel_ok [OF 1(1) tasks(1)])
  have "a_canc S - {x} = a_canc S" "remove1 x (a_act S) = a_act S" using dist(2) tasks(2) by (auto simp: remove1_idem)
  then have "spec_cancel x ?S = S\<lparr>a_pend := ?xs\<rparr>" using dist(2) xs by (simp add: spec_cancel_def spec_remove_def)
  then show ?case using s' 1(3) xs by (auto simp: cancel_cb_def)
next
  case (2 vs s xs s' i m)
  have "rings s (tasks_inactive q) xs q (a_act S)" using 2(1) rings_sym by (auto simp: rq_rep_def)
  from rings_sym [OF rings_moved [OF this 2(2,3,5,6)]] show ?case by (intro rep_moved [OF 2(1,4)]) simp
qed

sublocale quiet_tasks < act: safe_callback q "cancel_cb E" "\<lambda>_. []" "\<lambda>_. 0"
  "\<lambda>vs s xs. xs = a_act S \<and> rq_rep E q s (S\<lparr>a_canc := a_canc S \<union> set vs\<rparr>) \<and> armed q s S" for S
proof (unfold_locales, goal_cases)
  case (1 vs s xs x)
  let ?S = "S\<lparr>a_canc := a_canc S \<union> set vs\<rparr>"
  have rep: "rq_rep E q s ?S" "armed q s ?S" using 1(1) by (auto simp: armed_def spec_slots_def)
  have x: "x \<in> a_tasks ?S" "x \<in> set (a_act ?S)" using 1(1,3) by (auto simp: rq_rep_def rq_tasks_def)
  obtain s' where s': "runqueue_task_cancel E x 0 s = Some s'" "rq_rep E q s' (spec_cancel x ?S)" "armed q s ?S \<longrightarrow> armed q s' (spec_cancel x ?S)"
    "x \<in> set (a_act ?S) \<longrightarrow> safe_lists.truncate s' = safe_lists.truncate s" by (rule cancel_ok [OF rep(1) x(1)])
  have "spec_cancel x ?S = S\<lparr>a_canc := a_canc S \<union> set (vs @ [x])\<rparr>" using x(2) by (simp add: spec_cancel_def Un_commute)
  moreover have "shrinks UNIV q s xs s' xs" using shrinks_refl [OF 1(2)] shrinks_cong [of s' s] s'(4) x(2) by simp
  ultimately show ?case using s' rep(2) 1(1) by (auto simp: cancel_cb_def armed_def spec_slots_def)
next
  case (2 vs s xs s' i m)
  have rep: "rq_rep E q s (S\<lparr>a_canc := a_canc S \<union> set vs\<rparr>)" using 2(1) by simp
  have "rings s q xs (tasks_inactive q) (a_pend S)" using 2(1) by (auto simp: rq_rep_def)
  from rings_moved [OF this 2(2,3,5,6)] have "rq_rep E q s' (S\<lparr>a_canc := a_canc S \<union> set vs\<rparr>)"
    using 2(1) by (intro rep_moved [OF rep 2(4)]) simp
  then show ?case using 2(1) more_same [OF 2(4)] by (auto simp: armed_def)
qed

context quiet_tasks
begin

lemma cancel_pending_ok:
  assumes rep: "rq_rep E q s S"
  obtains s' where "runqueue_cancel_pending E q s = Some s'" "rq_rep E q s' (S\<lparr>a_pend := []\<rparr>)" "armed q s' (S\<lparr>a_pend := []\<rparr>)"
proof -
  have ok: "safe_ok {} s (tasks_inactive q) (a_pend S)" using rep by (auto simp: rq_rep_def rings_def)
  have "rq_rep E q s (S\<lparr>a_pend := a_pend S\<rparr>)" using rep by simp
  from pend.for_each_ok [OF ok this visit_each] rep_distinct [OF rep]
  obtain s' where s': "safe_list_for_each (tasks_inactive q) (cancel_cb E) s = Some (0, s')"
    "rq_rep E q s' (S\<lparr>a_pend := left_over (\<lambda>x. [x]) (a_pend S) (a_pend S)\<rparr>)" by blast
  have "left_over (\<lambda>x. [x]) (a_pend S) (a_pend S) = []" by (auto simp: left_over_def)
  then show thesis using s' by (intro that [of s']) (auto simp: runqueue_cancel_pending_def armed_def)
qed

lemma cancel_active_ok:
  assumes rep: "rq_rep E q s S" and armed: "armed q s S"
  obtains s' where "runqueue_cancel_active E q s = Some s'" "rq_rep E q s' (S\<lparr>a_canc := set (a_act S)\<rparr>)"
    "armed q s' (S\<lparr>a_canc := set (a_act S)\<rparr>)"
proof -
  have visit: "visit (\<lambda>_. []) (\<lambda>_. 0) xs = (0, xs)" for xs :: "nat list" by (induction xs) auto
  have ok: "safe_ok {} s q (a_act S)" "a_canc S \<union> set (a_act S) = set (a_act S)" using rep by (auto simp: rq_rep_def rings_def rq_tasks_def)
  have "a_act S = a_act S \<and> rq_rep E q s (S\<lparr>a_canc := a_canc S \<union> set []\<rparr>) \<and> armed q s S" using rep armed by simp
  from act.for_each_ok [OF ok(1) this visit]
  obtain s' where "safe_list_for_each q (cancel_cb E) s = Some (0, s')" "rq_rep E q s' (S\<lparr>a_canc := a_canc S \<union> set ([] @ a_act S)\<rparr>)" "armed q s' S"
    by blast
  then show thesis using ok(2) by (intro that [of s']) (auto simp: runqueue_cancel_active_def armed_def spec_slots_def)
qed

lemma kill_loop_ok:
  assumes "rq_rep E q s S"
  shows "\<exists>s'. kill_loop E q s = Some s' \<and> rq_rep E q s' (S\<lparr>a_act := [], a_canc := {}\<rparr>)"
  using assms
proof (induction "a_act S" arbitrary: s S)
  case Nil
  have d: "dll (links s) q (a_act S)" and c: "a_canc S = {}" using Nil by (auto simp: rq_rep_def rings_def safe_ok_def rq_tasks_def)
  have "list_empty q (links s)" using dll_empty [OF d] Nil(1) by simp
  moreover have "S\<lparr>a_act := [], a_canc := {}\<rparr> = S" using Nil(1) c by simp
  ultimately show ?case using Nil(2) by (subst kill_loop.simps) simp
next
  case (Cons t ts)
  have d: "dll (links s) q (a_act S)" using Cons(3) by (auto simp: rq_rep_def rings_def safe_ok_def)
  have n: "\<not> list_empty q (links s)" "nxt (links s) q = Some t"
    using dll_empty [OF d] dll_cut(1) [of "links s" q "[]" "a_act S"] d by (auto simp flip: Cons(2))
  have t: "t \<in> set (a_act S)" "t \<in> a_tasks S" using Cons(3) by (auto simp: rq_rep_def rq_tasks_def simp flip: Cons(2))
  have np: "t \<notin> set (a_pend S)" using rep_distinct [OF Cons(3)] t(1) by blast
  let ?S = "spec_remove t S"
  obtain s' where s': "runqueue_task_kill E t s = Some s'" "rq_rep E q s' ?S" by (rule kill_ok [OF Cons(3) t(2)])
  have "ts = a_act ?S" by (simp add: spec_remove_def flip: Cons(2))
  from Cons(1) [OF this s'(2)] obtain s'' where s'': "kill_loop E q s' = Some s''" "rq_rep E q s'' (?S\<lparr>a_act := [], a_canc := {}\<rparr>)" by blast
  have "?S\<lparr>a_act := [], a_canc := {}\<rparr> = S\<lparr>a_act := [], a_canc := {}\<rparr>" using np by (simp add: spec_remove_def remove1_idem)
  then show ?case using n s'(1) s'' by (subst kill_loop.simps) simp
qed

lemma runqueue_kill_ok:
  assumes rep: "rq_rep E q s S"
  obtains s' where "runqueue_kill E q s = Some s'" "rq_rep E q s' (S\<lparr>a_act := [], a_canc := {}, a_pend := []\<rparr>)"
    "armed q s' (S\<lparr>a_act := [], a_canc := {}, a_pend := []\<rparr>)"
proof -
  let ?S = "S\<lparr>a_act := [], a_canc := {}\<rparr>\<lparr>a_pend := []\<rparr>"
  obtain s1 where s1: "kill_loop E q s = Some s1" "rq_rep E q s1 (S\<lparr>a_act := [], a_canc := {}\<rparr>)" using kill_loop_ok [OF rep] by blast
  obtain s2 where s2: "runqueue_cancel_pending E q s1 = Some s2" "rq_rep E q s2 ?S" by (rule cancel_pending_ok [OF s1(2)])
  obtain l where l: "cancel_timer q s2 = Some (s2\<lparr>rloop := l\<rparr>)" "rq_rep E q (s2\<lparr>rloop := l\<rparr>) ?S" by (rule rep_cancel_timer [OF s2(2), of q]) auto
  then show thesis using s1(1) s2(1) by (intro that [of "s2\<lparr>rloop := l\<rparr>"]) (auto simp: runqueue_kill_def armed_def)
qed

lemma stop_ok:
  assumes "rq_rep E q s S"
  obtains s' where "runqueue_stop q s = Some s'" "rq_rep E q s' (S\<lparr>a_stopped := True\<rparr>)" "armed q s' (S\<lparr>a_stopped := True\<rparr>)"
proof -
  obtain x where x: "queues s q = Some x" "rq_queue S x" by (rule rep_queue [OF assms])
  let ?s = "s\<lparr>queues := (queues s)(q \<mapsto> x\<lparr>q_stopped := True\<rparr>)\<rparr>"
  have "rq_rep E q ?s (S\<lparr>a_stopped := True\<rparr>)" using assms x(2) by (auto simp: rq_rep_def rq_tasks_def rq_queue_def rq_loop_def)
  then show thesis using x(1) by (intro that [of ?s]) (auto simp: runqueue_stop_def upd_queue_def armed_def spec_slots_def)
qed

lemma resume_ok:
  assumes "rq_rep E q s S"
  obtains s' where "runqueue_resume q s = Some s'" "rq_rep E q s' (S\<lparr>a_stopped := False\<rparr>)" "armed q s' (S\<lparr>a_stopped := False\<rparr>)"
proof -
  obtain x where x: "queues s q = Some x" "rq_queue S x" by (rule rep_queue [OF assms])
  let ?s = "s\<lparr>queues := (queues s)(q \<mapsto> x\<lparr>q_stopped := False\<rparr>)\<rparr>"
  have "rq_rep E q ?s (S\<lparr>a_stopped := False\<rparr>)" using assms x(2) by (auto simp: rq_rep_def rq_tasks_def rq_queue_def rq_loop_def)
  then obtain s' where "runqueue_start_next q ?s = Some s'" "rq_rep E q s' (S\<lparr>a_stopped := False\<rparr>)" "armed q s' (S\<lparr>a_stopped := False\<rparr>)"
    by (rule rep_start_next)
  then show thesis using x(1) by (intro that [of s']) (auto simp: runqueue_resume_def upd_queue_def)
qed

end

section \<open>Sequences of operations\<close>

datatype rq_op =
    Rq_add nat bool bool | Rq_complete nat | Rq_exit nat int | Rq_cancel nat int | Rq_kill nat | Rq_timeout nat
  | Rq_tick | Rq_stop | Rq_resume | Rq_cancel_pending | Rq_cancel_active | Rq_cancel_all | Rq_kill_all

fun rq_step :: "'z runqueues_scheme task_env \<Rightarrow> nat \<Rightarrow> rq_op \<Rightarrow> 'z runqueues_scheme \<Rightarrow> 'z runqueues_scheme option" where
  "rq_step E q (Rq_add t running first) s =
     (if first then runqueue_task_add_first E q t running s else runqueue_task_add E q t running s)"
| "rq_step E q (Rq_complete t) s = runqueue_task_complete E t s"
| "rq_step E q (Rq_exit t ret) s = runqueue_proc_cb E t ret s"
| "rq_step E q (Rq_cancel t k) s = runqueue_task_cancel E t k s"
| "rq_step E q (Rq_kill t) s = runqueue_task_kill E t s"
| "rq_step E q (Rq_timeout t) s = runqueue_task_timeout E t s"
| "rq_step E q Rq_tick s = queue_tick E q s"
| "rq_step E q Rq_stop s = runqueue_stop q s"
| "rq_step E q Rq_resume s = runqueue_resume q s"
| "rq_step E q Rq_cancel_pending s = runqueue_cancel_pending E q s"
| "rq_step E q Rq_cancel_active s = runqueue_cancel_active E q s"
| "rq_step E q Rq_cancel_all s = runqueue_cancel E q s"
| "rq_step E q Rq_kill_all s = runqueue_kill E q s"

fun spec_step :: "rq_op \<Rightarrow> rq_spec \<Rightarrow> rq_spec" where
  "spec_step (Rq_add t running first) S = spec_add t running first S"
| "spec_step (Rq_complete t) S = spec_remove t S"
| "spec_step (Rq_exit t ret) S = spec_remove t S"
| "spec_step (Rq_cancel t k) S = spec_cancel t S"
| "spec_step (Rq_kill t) S = spec_remove t S"
| "spec_step (Rq_timeout t) S = (if t \<in> a_canc S then spec_remove t S else spec_cancel t S)"
| "spec_step Rq_tick S = spec_start S"
| "spec_step Rq_stop S = S\<lparr>a_stopped := True\<rparr>"
| "spec_step Rq_resume S = S\<lparr>a_stopped := False\<rparr>"
| "spec_step Rq_cancel_pending S = S\<lparr>a_pend := []\<rparr>"
| "spec_step Rq_cancel_active S = S\<lparr>a_canc := set (a_act S)\<rparr>"
| "spec_step Rq_cancel_all S = S\<lparr>a_pend := [], a_canc := set (a_act S)\<rparr>"
| "spec_step Rq_kill_all S = S\<lparr>a_act := [], a_canc := {}, a_pend := []\<rparr>"

fun op_task :: "rq_op \<Rightarrow> nat option" where
  "op_task (Rq_add t _ _) = Some t"
| "op_task (Rq_complete t) = Some t"
| "op_task (Rq_exit t _) = Some t"
| "op_task (Rq_cancel t _) = Some t"
| "op_task (Rq_kill t) = Some t"
| "op_task (Rq_timeout t) = Some t"
| "op_task _ = None"

fun rq_run :: "'z runqueues_scheme task_env \<Rightarrow> nat \<Rightarrow> rq_op list \<Rightarrow> 'z runqueues_scheme \<Rightarrow> 'z runqueues_scheme option" where
  "rq_run E q [] s = Some s"
| "rq_run E q (op # ops) s = do {
     s \<leftarrow> rq_step E q op s;
     rq_run E q ops s
   }"

lemma spec_step_tasks: "a_tasks (spec_step op S) = a_tasks S"
  by (cases op) (auto simp: spec_remove_def spec_cancel_def spec_start_def)

context quiet_tasks
begin

lemma step_ok:
  assumes rep: "rq_rep E q s S" and armed: "armed q s S" and t: "op_task op = None \<or> the (op_task op) \<in> a_tasks S"
  shows "\<exists>s'. rq_step E q op s = Some s' \<and> rq_rep E q s' (spec_step op S) \<and> armed q s' (spec_step op S)"
proof (cases op)
  case (Rq_add t running first)
  then show ?thesis using add_ok [OF rep, of t running first] t armed by (cases first) (auto simp: runqueue_task_add_def runqueue_task_add_first_def)
next
  case (Rq_complete t)
  obtain s' where "rq_step E q op s = Some s'" "rq_rep E q s' (spec_step op S)" "armed q s S \<longrightarrow> armed q s' (spec_step op S)"
    by (rule complete_ok [OF rep, of t]) (use Rq_complete t in \<open>auto simp: runqueue_proc_cb_def\<close>)
  then show ?thesis using armed by blast
next
  case (Rq_exit t ret)
  obtain s' where "rq_step E q op s = Some s'" "rq_rep E q s' (spec_step op S)" "armed q s S \<longrightarrow> armed q s' (spec_step op S)"
    by (rule complete_ok [OF rep, of t]) (use Rq_exit t in \<open>auto simp: runqueue_proc_cb_def\<close>)
  then show ?thesis using armed by blast
next
  case (Rq_cancel t k)
  obtain s' where "rq_step E q op s = Some s'" "rq_rep E q s' (spec_step op S)" "armed q s S \<longrightarrow> armed q s' (spec_step op S)"
    by (rule cancel_ok [OF rep, of t k]) (use Rq_cancel t in \<open>auto simp: runqueue_proc_cb_def\<close>)
  then show ?thesis using armed by blast
next
  case (Rq_kill t)
  obtain s' where "rq_step E q op s = Some s'" "rq_rep E q s' (spec_step op S)" "armed q s S \<longrightarrow> armed q s' (spec_step op S)"
    by (rule kill_ok [OF rep, of t]) (use Rq_kill t in \<open>auto simp: runqueue_proc_cb_def\<close>)
  then show ?thesis using armed by blast
next
  case (Rq_timeout t)
  have "t \<in> a_tasks S" using t Rq_timeout by simp
  then obtain s' where "runqueue_task_timeout E t s = Some s'" "rq_rep E q s' (if t \<in> a_canc S then spec_remove t S else spec_cancel t S)"
    "armed q s S \<longrightarrow> armed q s' (if t \<in> a_canc S then spec_remove t S else spec_cancel t S)" by (rule timeout_ok [OF rep])
  then show ?thesis using Rq_timeout armed by simp
next
  case Rq_tick
  then show ?thesis using tick_ok [OF rep armed] by auto
next
  case Rq_stop
  then show ?thesis using stop_ok [OF rep] by auto
next
  case Rq_resume
  then show ?thesis using resume_ok [OF rep] by auto
next
  case Rq_cancel_pending
  then show ?thesis using cancel_pending_ok [OF rep] by auto
next
  case Rq_cancel_active
  then show ?thesis using cancel_active_ok [OF rep armed] by auto
next
  case Rq_cancel_all
  obtain s1 where s1: "runqueue_cancel_pending E q s = Some s1" "rq_rep E q s1 (S\<lparr>a_pend := []\<rparr>)" "armed q s1 (S\<lparr>a_pend := []\<rparr>)"
    by (rule cancel_pending_ok [OF rep])
  obtain s2 where "runqueue_cancel_active E q s1 = Some s2" "rq_rep E q s2 (S\<lparr>a_pend := []\<rparr>\<lparr>a_canc := set (a_act (S\<lparr>a_pend := []\<rparr>))\<rparr>)"
    "armed q s2 (S\<lparr>a_pend := []\<rparr>\<lparr>a_canc := set (a_act (S\<lparr>a_pend := []\<rparr>))\<rparr>)" by (rule cancel_active_ok [OF s1(2,3)])
  then show ?thesis using Rq_cancel_all s1(1) by (auto simp: runqueue_cancel_def)
next
  case Rq_kill_all
  obtain s' where "rq_step E q op s = Some s'" "rq_rep E q s' (spec_step op S)" "armed q s' (spec_step op S)"
    by (rule runqueue_kill_ok [OF rep]) (use Rq_kill_all in auto)
  then show ?thesis by blast
qed

lemma run_ok:
  assumes "rq_rep E q s S" and "armed q s S" and "\<forall>op\<in>set ops. op_task op = None \<or> the (op_task op) \<in> a_tasks S"
  shows "\<exists>s'. rq_run E q ops s = Some s' \<and> rq_rep E q s' (fold spec_step ops S) \<and> armed q s' (fold spec_step ops S)"
  using assms
proof (induction ops arbitrary: s S)
  case (Cons op ops)
  have "op_task op = None \<or> the (op_task op) \<in> a_tasks S" using Cons.prems(3) by simp
  from step_ok [OF Cons.prems(1,2) this] obtain s1 where s1: "rq_step E q op s = Some s1" "rq_rep E q s1 (spec_step op S)"
    "armed q s1 (spec_step op S)" by blast
  have "\<forall>op'\<in>set ops. op_task op' = None \<or> the (op_task op') \<in> a_tasks (spec_step op S)"
    using Cons.prems(3) by (simp add: spec_step_tasks)
  from Cons.IH [OF s1(2,3) this] show ?case using s1(1) by simp
qed simp

end

section \<open>Queues of processes\<close>

text \<open>
  The tasks are processes: of the type \<open>runqueue_proc_type\<close>, or of a type that has, in addition, a function that starts the process
  \<open>pid t\<close> of the task \<open>t\<close> and hands it to \<open>runqueue_process_add\<close>.
\<close>

definition proc_env :: "'z runqueues_scheme task_env" where
  "proc_env = \<lparr>types = (\<lambda>_. runqueue_proc_type), completes = (\<lambda>_ _ _ s. Some s), empties = (\<lambda>_ _ s. Some s)\<rparr>"

definition worker_env :: "(nat \<Rightarrow> int) \<Rightarrow> 'z runqueues_scheme task_env" where
  "worker_env pid = proc_env\<lparr>types := (\<lambda>n. if n = 0 then runqueue_proc_type
     else runqueue_proc_type\<lparr>ty_run := Some (\<lambda>q t s. runqueue_process_add proc_env q t (pid t) s)\<rparr>)\<rparr>"

lemma rep_proc:
  assumes "rq_rep E q s S" and "t \<in> a_tasks S"
  obtains x where "proc (rloop s) t = Some x" "loop_ok (rloop s)"
proof -
  have "t \<in> dom (proc (rloop s))" "loop_ok (rloop s)" using assms by (auto simp: rq_rep_def rq_loop_def)
  then show thesis using that by blast
qed

lemma rep_signal: "rq_rep E q s S \<Longrightarrow> rq_rep E q (kill_process p k s) S"
  by (simp add: rq_rep_def kill_process_def)

lemma process_add_running:
  assumes rep: "rq_rep E q s S" and t: "t \<in> set (a_act S)" and y: "rtasks s t = Some y" "r_type y \<noteq> None"
  shows "\<exists>s'. runqueue_process_add E' q t k s = Some s' \<and> rq_rep E q s' S"
proof -
  have tasks: "t \<in> a_tasks S" "r_running y" using rep t y(1) unfolding rq_rep_def rq_tasks_def by blast+
  obtain x where x: "proc (rloop s) t = Some x" and ok: "loop_ok (rloop s)" by (rule rep_proc [OF rep tasks(1)])
  show ?thesis
  proof (cases "p_pending x")
    case True
    then show ?thesis using x rep by (simp add: runqueue_process_add_def)
  next
    case False
    let ?P = "(proc (rloop s))(t \<mapsto> x\<lparr>p_pid := k\<rparr>)"
    have sub: "set (processes (rloop s)) \<subseteq> dom ?P" using ok by (auto simp: loop_ok_def)
    obtain ps where ps: "place_process ?P k t (processes (rloop s)) = Some ps" "set ps = insert t (set (processes (rloop s)))"
      using place_process_some [OF sub] by blast
    let ?l = "(rloop s)\<lparr>processes := ps, proc := ?P(t \<mapsto> x\<lparr>p_pid := k, p_pending := True\<rparr>)\<rparr>"
    have "runqueue_process_add E' q t k s = Some (s\<lparr>rloop := ?l\<rparr>)"
      using x False y tasks(2) ps(1) by (auto simp: runqueue_process_add_def uloop_process_add_def Let_def)
    moreover have "loop_same (rloop s) ?l" using ok ps(2) x by (auto simp: loop_same_def loop_ok_def)
    ultimately show ?thesis using rep_same_loop [OF rep] by blast
  qed
qed

lemma process_kill_quiet:
  assumes rep: "rq_rep E q s S" and t: "t \<in> a_tasks S"
  shows "\<exists>s'. runqueue_process_kill_cb q t s = Some s' \<and> rq_rep E q s' S"
proof -
  obtain x where x: "proc (rloop s) t = Some x" and ok: "loop_ok (rloop s)" by (rule rep_proc [OF rep t])
  let ?l = "if p_pending x then (rloop s)\<lparr>processes := remove1 t (processes (rloop s)), proc := (proc (rloop s))(t \<mapsto> x\<lparr>p_pending := False\<rparr>)\<rparr>
    else rloop s"
  have "loop_same (rloop s) ?l" using ok x set_remove1_subset [of t "processes (rloop s)"] by (auto simp: loop_same_def loop_ok_def)
  then have "rq_rep E q (s\<lparr>rloop := ?l\<rparr>) S" by (rule rep_same_loop [OF rep])
  from rep_signal [OF this] show ?thesis using x by (auto simp: runqueue_process_kill_cb_def uloop_process_delete_def)
qed

lemma worker_ops:
  assumes "task_ops (worker_env pid) y = Some ty"
  shows "ty_cancel ty = Some runqueue_process_cancel_cb" "ty_kill ty = Some runqueue_process_kill_cb"
    "ty_run ty = None \<or> ty_run ty = Some (\<lambda>q t s. runqueue_process_add proc_env q t (pid t) s)" "r_type y \<noteq> None"
  using assms by (auto simp: task_ops_def worker_env_def runqueue_proc_type_def split: if_splits)

interpretation workers: quiet_tasks "worker_env pid" q for pid q
proof (unfold_locales, goal_cases)
  case (1 s S t y ty f)
  then show ?case using process_add_running [OF 1(1-3)] worker_ops(3,4) [OF 1(4)] by auto
next
  case (2 s S t y ty g k)
  have "t \<in> a_tasks S" using 2(1,2) by (auto simp: rq_rep_def rq_tasks_def)
  then obtain x where x: "proc (rloop s) t = Some x" by (rule rep_proc [OF 2(1)])
  have "safe_lists.truncate (kill_process p j s) = safe_lists.truncate s" "armed q (kill_process p j s) S = armed q s S" for p j
    by (simp_all add: kill_process_def armed_def)
  then show ?case using x 2(5) worker_ops(1) [OF 2(4)] rep_signal [OF 2(1)] by (auto simp: runqueue_process_cancel_cb_def)
next
  case (3 s S t y ty f)
  have "t \<in> a_tasks S" using 3(1,2) by (auto simp: rq_rep_def rq_tasks_def)
  then show ?case using process_kill_quiet [OF 3(1)] 3(4) worker_ops(2) [OF 3(3)] by auto
next
  case (4 s S t y c)
  then show ?case by (auto simp: worker_env_def proc_env_def)
next
  case (5 s S c)
  then show ?case by (auto simp: worker_env_def proc_env_def)
qed

text \<open>
  C11: A queue of processes behaves as its specification, whatever is called in whatever order. Tasks are appended to the list of waiting
  tasks or put first; the timer of the queue starts tasks from the front of that list, as long as the queue is not stopped and fewer than
  \<open>max_running_tasks\<close> are active (any number if that is zero), and counts them; completion, exit and killing remove a
  task; cancellation removes a waiting task and marks an active one, whose next timeout kills it. All operations return. And no task is forgotten:
  whenever one could be started, the timer that starts it is pending.
\<close>

theorem runqueue_refines:
  assumes "rq_rep (worker_env pid) q s S" and "armed q s S" and "\<forall>op\<in>set ops. op_task op = None \<or> the (op_task op) \<in> a_tasks S"
  shows "\<exists>s'. rq_run (worker_env pid) q ops s = Some s' \<and> rq_rep (worker_env pid) q s' (fold spec_step ops S) \<and>
    armed q s' (fold spec_step ops S)"
  by (rule workers.run_ok [OF assms])

text \<open>A new queue with the limit \<open>2\<close> and four tasks.\<close>

definition idle_task :: runqueue_task where
  "idle_task = \<lparr>r_type = Some 1, r_q = 0, r_complete = None, r_run_timeout = 500, r_cancel_timeout = 100, r_cancel_type = 0, r_queued = False,
     r_running = False, r_cancelled = False\<rparr>"

definition new_queue :: runqueues where
  "new_queue = runqueue_init 0 \<lparr>links = \<lparr>nxt = Map.empty, prv = Map.empty\<rparr>, list_i = (\<lambda>_. None), iters = Map.empty, frames = 0,
     queues = [0 \<mapsto> \<lparr>q_timeout_cb = No_cb, running_tasks = 0, max_running_tasks = 2, q_stopped = False, q_empty = False, q_empty_cb = None\<rparr>],
     rtasks = (\<lambda>t. if t \<in> {2, 3, 4, 5} then Some idle_task else None),
     rloop = \<lparr>timeouts = [], processes = [], tmo = (\<lambda>_. Some \<lparr>t_pending = False, t_cb = False, t_time = \<lparr>tv_sec = 0, tv_usec = 0\<rparr>\<rparr>),
       proc = (\<lambda>_. Some \<lparr>p_pending = False, p_pid = 0\<rparr>), ufds = Map.empty, fd_stack = [], cur_fds = [], poll_fd = 3, cancelled = False,
       do_sigchld = False, recursive_calls = 0, sigs = (\<lambda>_. SIG_DFL), old_sigs = (\<lambda>_. SIG_DFL), utick = 0,
       now = (\<lambda>_. \<lparr>tv_sec = 0, tv_usec = 0\<rparr>), ctl = (\<lambda>_. 0), ctls = [], polls = [], waits = [], called = []\<rparr>,
     signals = []\<rparr>"

definition new_spec :: rq_spec where
  "new_spec = \<lparr>a_act = [], a_pend = [], a_canc = {}, a_stopped = False, a_max = 2, a_tasks = {2, 3, 4, 5}, a_runnable = {2, 3, 4, 5}\<rparr>"

lemma new_queue_rep: "rq_rep (worker_env pid) 0 new_queue new_spec"
proof -
  have "iters_ok {} new_queue (\<lambda>_. [])"
    by (simp add: iters_ok_def new_queue_def runqueue_init_def INIT_SAFE_LIST_def)
  moreover have "dll (links new_queue) 0 []" "dll (links new_queue) (Suc 0) []" "nexts new_queue = (\<lambda>_. None)"
    by (auto simp: new_queue_def runqueue_init_def INIT_SAFE_LIST_def dll_def INIT_LIST_HEAD_def set_nxt_def set_prv_def tasks_inactive_def nexts_def)
  ultimately have "rings new_queue 0 [] (tasks_inactive 0) []"
    unfolding rings_def safe_ok_def by (auto simp: tasks_inactive_def)
  moreover have "rtasks new_queue = (\<lambda>t. if t \<in> {2, 3, 4, 5} then Some idle_task else None)"
    by (simp add: new_queue_def runqueue_init_def INIT_SAFE_LIST_def)
  then have "rq_tasks (worker_env pid) 0 new_spec (rtasks new_queue)"
    by (auto simp: rq_tasks_def new_spec_def idle_task_def task_ops_def worker_env_def tasks_inactive_def split: if_splits)
  moreover have "rq_queue new_spec (the (queues new_queue 0))" "queues new_queue 0 \<noteq> None" "rq_loop 0 new_spec (rloop new_queue)"
    by (auto simp: rq_queue_def rq_loop_def loop_ok_def new_queue_def new_spec_def runqueue_init_def INIT_SAFE_LIST_def)
  ultimately show ?thesis by (auto simp: rq_rep_def new_spec_def)
qed

theorem runqueue_refines_witness:
  "\<exists>s'. rq_run (worker_env int) 0 [Rq_add 2 False False, Rq_add 3 False False, Rq_add 4 False False, Rq_add 5 False True, Rq_tick,
      Rq_cancel 4 0, Rq_cancel 2 0, Rq_timeout 2, Rq_tick] new_queue = Some s' \<and>
    rq_rep (worker_env int) 0 s' (new_spec\<lparr>a_act := [5, 3]\<rparr>)"
proof -
  let ?ops = "[Rq_add 2 False False, Rq_add 3 False False, Rq_add 4 False False, Rq_add 5 False True, Rq_tick,
    Rq_cancel 4 0, Rq_cancel 2 0, Rq_timeout 2, Rq_tick]"
  have "armed 0 new_queue new_spec" by (simp add: armed_def new_spec_def)
  moreover have "\<forall>op\<in>set ?ops. op_task op = None \<or> the (op_task op) \<in> a_tasks new_spec" by (simp add: new_spec_def)
  ultimately obtain s' where "rq_run (worker_env int) 0 ?ops new_queue = Some s'" "rq_rep (worker_env int) 0 s' (fold spec_step ?ops new_spec)"
    using runqueue_refines [OF new_queue_rep] by blast
  moreover have "fold spec_step ?ops new_spec = new_spec\<lparr>a_act := [5, 3]\<rparr>"
    by (simp add: new_spec_def spec_add_def spec_start_def spec_slots_def spec_cancel_def spec_remove_def)
  ultimately show ?thesis by auto
qed

end
