(* ===== verification/Spec2Isabelle.thy ===== *)
theory Spec2Isabelle
  imports Prelude Linked_List Avl Blob Blobmsg_Json Base64 Kvlist Vlist Md5 Ubusd_Run Ubus_Call Uloop Ustream_Queue Runqueue_Spec
begin

text \<open>
  A verification library for the message bus \<open>ubus\<close> and the library \<open>libubox\<close> under it.

  \<^bold>\<open>The program.\<close> \<open>src/libubox\<close> has containers (lists, AVL trees, key-value and versioned lists), a binary format of
  attributes (\<open>blob\<close>, and \<open>blobmsg\<close> on top of it), an event loop, buffered streams, a queue of tasks and some codecs.
  \<open>src/ubus\<close> has the daemon \<open>ubusd\<close>, to which every process connects over a Unix socket, and the client library
  \<open>libubus\<close>. A client registers objects with methods at the daemon; another client looks an object up by its
  path and invokes a method; the daemon forwards the invocation to the owner of the object, and the owner's status
  and data messages back to the caller. Objects may subscribe to each other and receive notifications, and may
  register for events by pattern. All messages are a header of 12 bytes and one attribute.

  \<^bold>\<open>Conventions.\<close> \<open>option\<close> is used for undefined behaviour throughout: an operation is \<open>None\<close> when the code would read or
  write outside a block, follow a null or dangling pointer, call \<open>abort\<close>, or not return. So a statement that an operation is
  \<open>Some\<close> says that it returns and that it is memory safe. Errors that the code reports are values: negative
  numbers, status codes or \<open>NULL\<close> as an inner option. Machine integers are \<open>word\<close>s where they can wrap, and
  \<open>to_int32\<close> is written out where an \<open>int\<close> is computed from larger values. Structures are records, on heaps that are
  partial maps from addresses (natural numbers) where the code links them by pointers. What the code obtains from
  outside is an argument: allocation is a function of a tick, or of the size in \<open>Blob\<close>, that may fail at any call (only
  \<open>kvlist_set\<close> takes the address that it gets, since the code does not test it); sockets, the clock and
  child processes are scripts of the results of the system calls; callbacks of an application are arbitrary
  functions on the state. Loops that may run for ever are partial functions with the value \<open>None\<close> then, and
  the properties state that they return; no property relies on fuel.

  \<^bold>\<open>Theories and sources.\<close>

  \<^item> \<open>Prelude\<close>: machine types, byte order, C strings, conversions of words, the collections of simplification rules.
  \<^item> \<open>Linked_List\<close> (\<open>libubox/list.h\<close>): every list function on a heap of \<open>next\<close> and \<open>prev\<close> fields; the ring that a head
    represents, and what each function does to it.
  \<^item> \<open>Avl\<close> (\<open>libubox/avl.c\<close>, \<open>avl.h\<close>): insertion, deletion and search with balance factors, the list through the nodes
    and chains of equal keys; refinement of a multimap, balance, height. \<open>Avl_Index\<close>: trees as indices of structures,
    which \<open>Kvlist\<close>, \<open>Vlist\<close> and the daemon use.
  \<^item> \<open>Kvlist\<close>, \<open>Vlist\<close> (\<open>kvlist.c\<close>, \<open>vlist.c\<close>): refinement of a finite map; a reload calls the update function exactly for what
    changed.
  \<^item> \<open>Blob\<close> (\<open>blob.c\<close>, \<open>blob.h\<close>): the attribute format, growth of buffers, nesting, parsing; round trip, bounds.
    \<open>Blobmsg\<close> (\<open>blobmsg.c\<close>, \<open>blobmsg.h\<close>): names and types, validation, parsing by policy. \<open>Blobmsg_Json\<close>
    (\<open>blobmsg_json.c\<close>): messages as text, with the grammar of JSON as the specification. \<open>Blob_Wire\<close>: what parsing and the
    getters return on a message that was built attribute by attribute, with the locale \<open>static_buffer\<close> for the buffers in
    which the daemon and the client library build their messages.
  \<^item> \<open>Base64\<close>, \<open>Md5\<close> (\<open>base64.c\<close>, \<open>md5.c\<close>): round trip; equality with a definition of the digest after RFC 1321.
  \<^item> \<open>Uloop\<close> (\<open>uloop.c\<close>): timers, child processes, descriptors, signals and the loop. Timers and processes share the
    locale \<open>ordered_queue\<close>.
  \<^item> \<open>Ustream\<close>, \<open>Ustream_Queue\<close> (\<open>ustream.c\<close>, \<open>ustream-fd.c\<close>): chains of buffers for reading and writing, with the functions of a stream as a
    parameter and those of a stream on a descriptor as their instance; refinement of two queues of bytes. What a stream
    asks of its write function is the locale \<open>stream_backend\<close>.
  \<^item> \<open>Safe_List\<close> (\<open>safe_list.c\<close>): lists whose entries may be deleted while iterations are in progress; the chains of iterators, and
    what an iteration visits. What an iteration asks of its callback is the locale \<open>safe_callback\<close>.
  \<^item> \<open>Runqueue\<close>, \<open>Runqueue_Spec\<close> (\<open>runqueue.c\<close>): queues of tasks on top of \<open>Safe_List\<close> and the timers and processes of \<open>Uloop\<close>; refinement of an
    abstract queue, with the functions of the tasks as the locale \<open>quiet_tasks\<close>.
  \<^item> \<open>Ubusd_Id\<close>, \<open>Ubusd_State\<close> (\<open>ubusd_id.c\<close>, the headers): identifiers, the structures and the static variables of the daemon.
    \<open>Ubusd_Msg\<close> (\<open>ubusd.c\<close>): message buffers and the ring of messages to send. \<open>Ubusd_Reply\<close>, \<open>Ubusd_Proto\<close> (\<open>ubusd_proto.c\<close>):
    messages the daemon builds, handlers and dispatcher. \<open>Ubusd_Event\<close>, \<open>Ubusd_Obj\<close> (\<open>ubusd_event.c\<close>, \<open>ubusd_obj.c\<close>): events,
    objects, types and subscriptions. \<open>Ubusd_Client\<close> (\<open>ubusd.c\<close>): connections and the reassembly of messages.
    \<open>Ubusd_Graph\<close>, \<open>Ubusd_Inv\<close>, \<open>Ubusd_Run\<close>: the invariant that all pointers and indices of the daemon agree, its
    preservation by every operation, and the runs of the daemon as a step relation: every reachable state satisfies it.
  \<^item> \<open>Libubus_State\<close>, \<open>Libubus_Io\<close>, \<open>Libubus_Req\<close>, \<open>Libubus_Obj\<close>, \<open>Libubus_Api\<close> (\<open>libubus.h\<close>, \<open>libubus-io.c\<close>, \<open>libubus-req.c\<close>,
    \<open>libubus-obj.c\<close> and \<open>libubus-sub.c\<close>, \<open>libubus.c\<close>): the client library: transfer of messages, requests and their completion, messages for
    objects, and the functions that applications call.
  \<^item> \<open>Ubus_Wire\<close>, \<open>Ubusd_Invoke\<close>, \<open>Ubus_Call\<close> and this theory: an invocation from one client through the daemon to another,
    and its status back.

  \<^bold>\<open>Bounds.\<close> A message has at most \<open>UBUS_MAX_MSGLEN\<close> bytes, the send queue of a client 32 messages, a notification 16
  peers, as in the code. The order of timers is proved for times in a window of almost 25 days, which is what the
  difference of two times in milliseconds can express in an \<open>int\<close>. Base64 is proved for texts below \<open>2 ^ 31\<close> bytes, the
  range of the \<open>int\<close> in which the code counts them; streams for a system with memory for the blocks they ask for, since
  \<open>ustream_alloc_default\<close> does not test the result of \<open>malloc\<close>. The digest counts the bits of
  its message modulo \<open>2 ^ 64\<close>, as RFC 1321 says.

  \<^bold>\<open>What the code gets wrong.\<close> Theorems show, on the model, behaviour that cannot be meant: a second part of
  a header written behind its buffer, messages lost or sent without their header, a reply overwritten before it is
  sent, a descriptor sent twice, data delivered in reverse, attributes read beyond their end, \<open>SIGPIPE\<close> left
  ignored. Each is stated under the conditions that trigger it.

  \<^bold>\<open>Not modelled.\<close> \<open>main\<close> of the daemon and of the command line tool (options, creation of sockets), \<open>usock.c\<close> and \<open>ulog.c\<close>:
  input and output only; the descriptors they make are arguments here. \<open>utils.c\<close> allocates several blocks at once: its callers are
  modelled with the blocks they get. The kqueue variant of the event loop: the build uses epoll.
  \<open>src/json-c\<close> is a bundled third-party library, and \<open>blobmsg_json.c\<close>'s parsing half, \<open>jshn.c\<close> and the Lua and Java bindings are
  glue between this code and that library or a virtual machine.
\<close>

section \<open>An invocation from client to client\<close>

text \<open>
  C4: An invocation reaches the method it names, and its answer carries what the method returned. A client starts an
  invocation; the bytes it sends, delivered to the daemon in a first piece that contains the header and then in pieces of
  any positive sizes, are one message for the protocol; the daemon writes to the owner of the object bytes that
  the owner, however its socket divides them, takes as one message; it calls the handler of the method (which
  here leaves the state of the client alone) and sends exactly one status message, with the sequence number of the
  caller's request, addressed to the caller's identifier, and with the value that the handler returned.
\<close>

theorem invocation_end_to_end:
  assumes "caller_ready A s oid name msg pl" and "daemon_ready E d cl c oid ow co"
    and "owner_ready B t oid obj x name i pl (cl_id c) (request_seq s + 1) ret"
    and "12 \<le> k" and "\<forall>n\<in>set pieces. 0 < n" and "pieces \<noteq> []" and "length (enc_attrs (invoke_attrs oid name pl)) \<le> sum_list pieces"
    and "0 < j" and "alive ks" and "12 + length (enc_attr (Nest 0 (invoke_attrs oid name pl))) \<le> length (filter receives ks)"
  shows "\<exists>s' st d1 d2 d3 t1 data t2.
    ubus_invoke_async A oid name msg r s = Some (0, s') \<and>
    rx_header E cl ([(k, -1)], drop (length (sent_bytes s)) (sent_bytes s')) d = Some (Go, ([], st), d1) \<and>
    feed cl (clock d) pieces st d1 = Some (Go, [], d2) \<and>
    ubusd_proto_receive_message E cl (clock d) d2 = Some d3 \<and>
    get_next_msg B (-1) (t\<lparr>recvs := (Recv j (-1) # ks,
      drop (length (stream_of (sock_fd co) (out d2))) (stream_of (sock_fd co) (out d3)))\<rparr>) = Some (True, -1, t1) \<and>
    msgbuf_data t1 = Some data \<and> ubus_process_msg B True (msgbuf_hdr t1) data (-1) t1 = Some t2 \<and>
    sent_bytes t2 = sent_bytes t @ status_reply (request_seq s + 1) (cl_id c) ret (o_id x)"
proof -
  have n: "length (enc_attrs (invoke_attrs oid name pl)) + 4 \<le> UBUS_MAX_MSGLEN" "0 \<notin> set name"
    using assms(1) by (simp_all add: caller_ready_def)
  let ?D = "enc_attr (Nest 0 (invoke_attrs oid name pl))"
  obtain s' st d1 d2 d3 where d: "ubus_invoke_async A oid name msg r s = Some (0, s')"
      "rx_header E cl ([(k, -1)], drop (length (sent_bytes s)) (sent_bytes s')) d = Some (Go, ([], st), d1)"
      "feed cl (clock d) pieces st d1 = Some (Go, [], d2)" "ubusd_proto_receive_message E cl (clock d) d2 = Some d3" "out d2 = out d"
      "stream_of (sock_fd co) (out d3) = stream_of (sock_fd co) (out d) @
        hdr_bytes \<lparr>version = 0, msg_type = UBUS_MSG_INVOKE, seq = request_seq s + 1, peer = cl_id c\<rparr> @ ?D"
    by (rule call_to_daemon [OF assms(1,2,4-7), of r])
  let ?wire = "drop (length (stream_of (sock_fd co) (out d2))) (stream_of (sock_fd co) (out d3))"
  have "?wire = hdr_bytes \<lparr>version = 0, msg_type = UBUS_MSG_INVOKE, seq = request_seq s + 1, peer = cl_id c\<rparr> @ ?D @ []"
    using d(5,6) by simp
  from call_to_owner [OF assms(3) n assms(8-10) this] obtain t1 data t2 where
      "get_next_msg B (-1) (t\<lparr>recvs := (Recv j (-1) # ks, ?wire)\<rparr>) = Some (True, -1, t1)" "msgbuf_data t1 = Some data"
      "ubus_process_msg B True (msgbuf_hdr t1) data (-1) t1 = Some t2"
      "sent_bytes t2 = sent_bytes t @ status_reply (request_seq s + 1) (cl_id c) ret (o_id x)" by blast
  with d(1-4) show ?thesis by blast
qed

theorem invocation_end_to_end_witness:
  "\<exists>s' st d1 d2 d3 t1 data t2.
    ubus_invoke_async quiet_app 5 (cstr ''ping'') (Some [0, 0, 0, 6, 1, 2, 0, 0]) 0 (idle_ctx [Send 1000] ([], [])) = Some (0, s') \<and>
    rx_header quiet_env 1 ([(20, -1)], drop (length (sent_bytes (idle_ctx [Send 1000] ([], [])))) (sent_bytes s')) call_daemon = Some (Go, ([], st), d1) \<and>
    feed 1 (clock call_daemon) [5, 30] st d1 = Some (Go, [], d2) \<and>
    ubusd_proto_receive_message quiet_env 1 (clock call_daemon) d2 = Some d3 \<and>
    get_next_msg quiet_app (-1) ((ping_client [Send 9, Send 100] ([], []))\<lparr>recvs := (Recv 3 (-1) # replicate 50 (Recv 1 (-1)),
      drop (length (stream_of 6 (out d2))) (stream_of 6 (out d3)))\<rparr>) = Some (True, -1, t1) \<and>
    msgbuf_data t1 = Some data \<and> ubus_process_msg quiet_app True (msgbuf_hdr t1) data (-1) t1 = Some t2 \<and>
    sent_bytes t2 = status_reply 1 77 0 5"
proof -
  have f: "cl_id ((idle_client 4)\<lparr>cl_id := 77\<rparr>) = 77" "request_seq (idle_ctx [Send 1000] ([], [])) = 0" "o_id ping_object = 5"
    "sock_fd (idle_client 6) = 6" "sent_bytes (ping_client [Send 9, Send 100] ([], [])) = []"
    by (simp_all add: idle_client_def idle_ctx_def ping_object_def ping_client_facts)
  have ks: "alive (replicate 50 (Recv 1 (-1)))" "length (filter receives (replicate 50 (Recv 1 (-1)))) = 50" by (simp_all add: alive_def)
  have n: "length (enc_attr (Nest 0 (invoke_attrs 5 (cstr ''ping'') (Some [1, 2])))) = 32" using sample_invoke_length by simp
  from invocation_end_to_end [OF sample_caller sample_daemon sample_owner, of 20 "[5, 30]" 3 "replicate 50 (Recv 1 (-1))" 0] f ks n sample_invoke_length(1)
  show ?thesis by simp
qed

end
